(* ===== verification/Prelude.thy ===== *)
theory Prelude
  imports Main "HOL-Library.Word"
begin

text \<open>
  Shared vocabulary of the development: the machine-integer types of \<open>src/ue2common.h\<close>,
  the collections of facts the component theories extend, and generic lemmas on lists
  and words that several components use.
\<close>

unbundle bit_operations_syntax

type_synonym u8 = "8 word"
type_synonym u16 = "16 word"
type_synonym u32 = "32 word"
type_synonym u64a = "64 word"
type_synonym s32 = "32 word" \<comment> \<open>two's complement, read by \<open>sint\<close>\<close>

abbreviation (input) u32_to_u64 :: "u32 \<Rightarrow> u64a" where
  "u32_to_u64 \<equiv> ucast"

abbreviation (input) u64_to_u32 :: "u64a \<Rightarrow> u32" where
  "u64_to_u32 \<equiv> ucast"

named_theorems abs_simps \<open>how an operation acts on the abstract value of its state\<close>
named_theorems inv_intros \<open>an operation keeps the invariant of its component\<close>


section \<open>Results that may be errors\<close>

fun sbind :: "'e + 'a \<Rightarrow> ('a \<Rightarrow> 'e + 'b) \<Rightarrow> 'e + 'b" where
  "sbind (Inl e) f = Inl e"
| "sbind (Inr x) f = f x"

lemma sbind_Inr_iff: "sbind x f = Inr y \<longleftrightarrow> (\<exists>z. x = Inr z \<and> f z = Inr y)"
  by (cases x) auto

section \<open>Scanning an index range\<close>

lemma length_takeWhile_upt:
  assumes "k < n" "P k" "\<And>j. j < k \<Longrightarrow> \<not> P j"
  shows "length (takeWhile (\<lambda>i. \<not> P i) [0..<n]) = k"
proof -
  have "[0..<n] = [0..<k] @ k # [Suc k..<n]"
    using assms(1) by (metis le_add1 less_imp_add_positive upt_add_eq_append upt_conv_Cons
      add_0 le_add_same_cancel1 zero_le less_add_same_cancel1)
  then show ?thesis using assms(2,3) by (simp add: takeWhile_append)
qed

lemma length_takeWhile_rev_upt:
  assumes "k < n" "P k" "\<And>j. k < j \<Longrightarrow> j < n \<Longrightarrow> \<not> P j"
  shows "length (takeWhile (\<lambda>i. \<not> P i) (rev [0..<n])) = n - 1 - k"
proof -
  have "[0..<n] = [0..<k] @ k # [Suc k..<n]"
    using assms(1) by (metis le_add1 less_imp_add_positive upt_add_eq_append upt_conv_Cons
      add_0 le_add_same_cancel1 zero_le less_add_same_cancel1)
  then have "rev [0..<n] = rev [Suc k..<n] @ k # rev [0..<k]" by simp
  then show ?thesis using assms(2,3) by (simp add: takeWhile_append)
qed

section \<open>The set of bits of a word\<close>

definition bitset :: "'a::len word \<Rightarrow> nat set" where
  "bitset w = {i. bit w i}"

lemma bitset_bound: "i \<in> bitset (w :: 'a::len word) \<Longrightarrow> i < LENGTH('a)"
  by (auto simp: bitset_def dest: bit_imp_le_length)

lemma finite_bitset [simp]: "finite (bitset w)"
  by (rule finite_subset [of _ "{..<LENGTH('a)}"]) (auto dest: bitset_bound)

lemma bitset_empty_iff: "bitset w = {} \<longleftrightarrow> w = 0"
  by (auto simp: bitset_def intro: bit_word_eqI)

lemma bitset_0 [simp]: "bitset 0 = {}"
  by (simp add: bitset_empty_iff)

lemma bitset_eq_iff: "bitset v = bitset w \<longleftrightarrow> v = w"
  by (auto simp: bitset_def set_eq_iff intro: bit_word_eqI)

lemma bitset_ops:
  "bitset (v AND w) = bitset v \<inter> bitset w"
  "bitset (v OR w) = bitset v \<union> bitset w"
  "bitset (v XOR w) = (bitset v - bitset w) \<union> (bitset w - bitset v)"
  by (auto simp: bitset_def bit_simps)

lemma bitset_not: "bitset (NOT (w :: 'a::len word)) = {..<LENGTH('a)} - bitset w"
  by (auto simp: bitset_def bit_simps dest: bit_imp_le_length)

lemma bitset_single:
  "i < LENGTH('a) \<Longrightarrow> bitset (push_bit i 1 :: 'a::len word) = {i}"
  by (auto simp: bitset_def bit_simps)

lemma bitset_mask:
  "bitset (push_bit i 1 - 1 :: 'a::len word) = {..<min i LENGTH('a)}"
  by (auto simp: bitset_def bit_simps push_bit_eq_mult mask_eq_exp_minus_1 [symmetric])

lemma bitset_all_ones: "bitset (- 1 :: 'a::len word) = {..<LENGTH('a)}"
  by (auto simp: bitset_def)

lemma bitset_shift_ones:
  "bitset (push_bit i (- 1) :: 'a::len word) = {i..<LENGTH('a)}"
  by (auto simp: bitset_def bit_simps)

text \<open>Clearing the lowest set bit by \<open>w AND (w - 1)\<close>.\<close>

lemma bit_pred_pow_mult:
  fixes d :: nat
  assumes "odd d" "k \<le> i"
  shows "bit (2 ^ k * d - 1) i \<longleftrightarrow> i \<noteq> k \<and> bit (2 ^ k * d) i"
proof -
  obtain e where d: "d = 2 * e + 1" using assms(1) by (elim oddE)
  obtain j where i: "i = k + j" using assms(2) by (auto dest: le_Suc_ex)
  have q: "(2 ^ k * d - 1) div 2 ^ k = 2 * e"
  proof -
    define r :: nat where "r = 2 ^ k - 1"
    have r: "r < 2 ^ k" by (simp add: r_def)
    have "2 ^ k * d - 1 = r + 2 ^ k * (2 * e)"
      using d by (simp add: r_def algebra_simps)
    with r show ?thesis by simp
  qed
  have "bit (2 ^ k * d - 1) i \<longleftrightarrow> bit (2 * e) j"
    unfolding bit_iff_odd i power_add div_mult2_eq q ..
  moreover have "bit (2 ^ k * d) i \<longleftrightarrow> bit d j"
    by (simp add: bit_iff_odd i power_add)
  ultimately show ?thesis
    using i by (cases j) (auto simp: d bit_0 bit_Suc)
qed

lemma bitset_clear_lsb:
  fixes w :: "'a::len word"
  assumes "w \<noteq> 0"
  shows "bitset (w AND (w - 1)) = bitset w - {Min (bitset w)}"
proof -
  define k where "k = Min (bitset w)"
  have ne: "bitset w \<noteq> {}" using assms by (simp add: bitset_empty_iff)
  have k: "bit w k" "\<And>j. j < k \<Longrightarrow> \<not> bit w j"
    using Min_in [OF finite_bitset ne] Min_le [OF finite_bitset, of _ w]
    by (auto simp: k_def bitset_def not_less [symmetric])
  define u where "u = unat w"
  have bu: "bit w i \<longleftrightarrow> bit u i" for i
    by (simp add: u_def bit_unsigned_iff)
  have "take_bit k u = 0"
    using k(2) bu by (auto simp: bit_eq_iff bit_simps)
  then have "2 ^ k dvd u" by (simp add: take_bit_eq_0_iff)
  then obtain d where d: "u = 2 ^ k * d" by (elim dvdE)
  have "odd d" using k(1) unfolding bu by (simp add: d bit_iff_odd)
  have "unat (w - 1) = u - 1"
    using assms by (simp add: u_def unat_minus_one)
  then have "bit (w - 1) i \<longleftrightarrow> bit (u - 1) i" for i
    by (metis bit_unsigned_iff possible_bit_nat)
  then have "bit (w AND (w - 1)) i \<longleftrightarrow> bit w i \<and> i \<noteq> k" for i
    using k(2) [of i] bit_pred_pow_mult [OF \<open>odd d\<close>, of k i] bu [of i]
    by (cases "i < k") (auto simp: bit_simps d)
  then show ?thesis
    by (auto simp: bitset_def k_def [symmetric, unfolded bitset_def])
qed

lemma clear_lsb_less:
  fixes w :: "'a::len word"
  assumes "w \<noteq> 0"
  shows "card (bitset (w AND (w - 1))) < card (bitset w)"
  unfolding bitset_clear_lsb [OF assms]
  by (rule card_Diff1_less) (use assms in \<open>auto simp: bitset_empty_iff intro: Min_in\<close>)

text \<open>The lowest and highest set bits, found by scanning.\<close>

lemma scan_lowest:
  fixes w :: "'a::len word"
  assumes "w \<noteq> 0"
  shows "length (takeWhile (\<lambda>i. \<not> bit w i) [0..<LENGTH('a)]) = Min (bitset w)"
proof -
  have ne: "bitset w \<noteq> {}" using assms by (simp add: bitset_empty_iff)
  have "Min (bitset w) \<in> bitset w" by (rule Min_in [OF finite_bitset ne])
  then show ?thesis
    using bitset_bound [of "Min (bitset w)" w] Min_le [OF finite_bitset, of _ w]
    by (intro length_takeWhile_upt) (auto simp: bitset_def not_less [symmetric])
qed

lemma scan_highest:
  fixes w :: "'a::len word"
  assumes "w \<noteq> 0"
  shows "length (takeWhile (\<lambda>i. \<not> bit w i) (rev [0..<LENGTH('a)])) = LENGTH('a) - 1 - Max (bitset w)"
proof -
  have ne: "bitset w \<noteq> {}" using assms by (simp add: bitset_empty_iff)
  have "Max (bitset w) \<in> bitset w" by (rule Max_in [OF finite_bitset ne])
  then show ?thesis
    using bitset_bound [of "Max (bitset w)" w] Max_ge [OF finite_bitset, of _ w]
    by (intro length_takeWhile_rev_upt) (auto simp: bitset_def not_less [symmetric])
qed

lemma length_filter_bit:
  "length (filter (bit (w :: 'a::len word)) [0..<LENGTH('a)]) = card (bitset w)"
proof -
  have "set (filter (bit w) [0..<LENGTH('a)]) = bitset w"
    by (auto simp: bitset_def dest: bit_imp_le_length)
  then show ?thesis
    using distinct_card [of "filter (bit w) [0..<LENGTH('a)]"] by simp
qed

section \<open>Tables that number their keys\<close>

text \<open>
  Several components number keys on first use: the key is looked up in a map and, when it is
  missing, entered with the size of the map as its number.  The newest entry is in front.
\<close>

definition dense_table :: "('k \<times> u32) list \<Rightarrow> bool" where
  "dense_table t = (distinct (map fst t) \<and> map snd (rev t) = map word_of_nat [0..<length t])"

lemma dense_table_Nil [simp]: "dense_table []"
  by (simp add: dense_table_def)

lemma dense_table_Cons:
  assumes "dense_table t" "k \<notin> fst ` set t"
  shows "dense_table ((k, word_of_nat (length t)) # t)"
  using assms by (simp add: dense_table_def)

lemma dense_table_nth:
  assumes "dense_table t" "i < length t"
  shows "snd (rev t ! i) = word_of_nat i"
proof -
  have "map snd (rev t) ! i = map word_of_nat [0..<length t] ! i"
    using assms(1) by (simp add: dense_table_def)
  then show ?thesis using assms(2) by simp
qed

lemma dense_table_values:
  assumes "dense_table t"
  shows "snd ` set t = word_of_nat ` {..<length t}"
proof -
  have "set (map snd (rev t)) = set (map word_of_nat [0..<length t])"
    using assms by (simp add: dense_table_def)
  then show ?thesis by (simp add: lessThan_atLeast0)
qed

lemma dense_table_inj:
  assumes "dense_table t" "length t \<le> 2 ^ 32" "map_of t a = Some v" "map_of t b = Some v"
  shows "a = b"
proof -
  obtain i j where i: "i < length t" "rev t ! i = (a, v)" and j: "j < length t" "rev t ! j = (b, v)"
    using map_of_SomeD [OF assms(3)] map_of_SomeD [OF assms(4)]
    by (metis in_set_conv_nth length_rev set_rev)
  have "(word_of_nat i :: u32) = word_of_nat j"
    using dense_table_nth [OF assms(1) i(1)] dense_table_nth [OF assms(1) j(1)] i j by simp
  moreover have "i < 2 ^ 32" "j < 2 ^ 32" using i(1) j(1) assms(2) by simp_all
  ultimately have "i = j"
    by (simp add: word_of_nat_eq_iff take_bit_nat_eq_self)
  with i j show ?thesis by simp
qed

locale key_table =
  fixes table :: "'s \<Rightarrow> ('k \<times> u32) list"
    and key :: "'a \<Rightarrow> 'k"
    and get :: "'a \<Rightarrow> 's \<Rightarrow> u32 \<times> 's"
  assumes get_known: "map_of (table s) (key a) = Some v \<Longrightarrow> get a s = (v, s)"
    and get_fresh: "map_of (table s) (key a) = None \<Longrightarrow>
      fst (get a s) = word_of_nat (length (table s))
      \<and> table (snd (get a s)) = (key a, word_of_nat (length (table s))) # table s"
begin

lemma get_entry: "map_of (table (snd (get a s))) (key a) = Some (fst (get a s))"
  using get_known [of s a] get_fresh [of s a] by (cases "map_of (table s) (key a)") auto

lemma get_mono:
  assumes "map_of (table s) k = Some v"
  shows "map_of (table (snd (get a s))) k = Some v"
  using assms get_known [of s a] get_fresh [of s a] by (cases "map_of (table s) (key a)") auto

lemma get_again: "get a (snd (get a s)) = (fst (get a s), snd (get a s))"
  using get_known [OF get_entry] .

lemma get_stays:
  assumes "map_of (table s) (key a) = Some v"
  shows "fst (get a s) = v"
  using get_known [OF assms] by simp

lemma get_dense [inv_intros]:
  assumes "dense_table (table s)"
  shows "dense_table (table (snd (get a s)))"
proof (cases "map_of (table s) (key a)")
  case None
  then have "key a \<notin> fst ` set (table s)" by (simp add: map_of_eq_None_iff)
  with None assms show ?thesis using get_fresh [of s a] by (auto intro: dense_table_Cons)
qed (use assms get_known in auto)

lemma get_injective:
  assumes "dense_table (table s)" "length (table s) \<le> 2 ^ 32"
    and "map_of (table s) (key a) = Some (fst (get b s))"
    and "map_of (table s) (key b) \<noteq> None"
  shows "key a = key b"
  using assms dense_table_inj [OF assms(1,2,3)] get_known [of s b] by fastforce

end

end
