(* ===== verification/Depth.thy ===== *)
theory Depth
  imports Prelude "HOL-Library.Extended_Nat"
begin

text \<open>
  Depth quantities, from \<open>src/util/depth.h\<close> and \<open>src/util/depth.cpp\<close>: a 32-bit value
  that is a count or one of the two special values \<open>infinity\<close> and \<open>unreachable\<close>, its
  checked arithmetic (the exception \<open>DepthOverflowError\<close> is the left of a sum), and
  min/max pairs with their union.  The abstract value of a depth is an \<open>enat option\<close>:
  \<open>None\<close> for unreachable, \<open>Some \<infinity>\<close> for infinity.
\<close>

section \<open>The class \<open>depth\<close>\<close>

datatype depth_error = DepthOverflowError

datatype depth = Depth (dval: u32)

definition val_infinity :: u32 where
  "val_infinity = push_bit 31 1 - 1"

definition val_unreachable :: u32 where
  "val_unreachable = push_bit 31 1"

definition max_value :: u32 where
  "max_value = val_infinity - 1"

definition depth_default :: depth where
  "depth_default = Depth val_unreachable"

definition depth_ctor :: "u32 \<Rightarrow> depth_error + depth" where
  "depth_ctor v = (if v > max_value then Inl DepthOverflowError else Inr (Depth v))"

definition unreachable :: depth where
  "unreachable = Depth val_unreachable"

definition infinity :: depth where
  "infinity = Depth val_infinity"

definition is_finite :: "depth \<Rightarrow> bool" where
  "is_finite d = (dval d < val_infinity)"

definition is_infinite :: "depth \<Rightarrow> bool" where
  "is_infinite d = (dval d = val_infinity)"

definition is_unreachable :: "depth \<Rightarrow> bool" where
  "is_unreachable d = (dval d = val_unreachable)"

definition is_reachable :: "depth \<Rightarrow> bool" where
  "is_reachable d = (\<not> is_unreachable d)"

definition depth_to_u32 :: "depth \<Rightarrow> depth_error + u32" where
  "depth_to_u32 d = (if \<not> is_finite d then Inl DepthOverflowError else Inr (dval d))"

text \<open>The comparison operators between depths compare the representation.\<close>

instantiation depth :: linorder
begin

definition less_depth :: "depth \<Rightarrow> depth \<Rightarrow> bool" where
  "less_depth a b = (dval a < dval b)"

definition less_eq_depth :: "depth \<Rightarrow> depth \<Rightarrow> bool" where
  "less_eq_depth a b = (dval a \<le> dval b)"

instance
  by standard (auto simp: less_depth_def less_eq_depth_def depth.expand)

end

text \<open>Comparison against 64-bit integers: a depth that is not finite is below nothing.\<close>

definition depth_lt_u64 :: "depth \<Rightarrow> u64a \<Rightarrow> bool" where
  "depth_lt_u64 a d = (if \<not> is_finite a then False else u32_to_u64 (dval a) < d)"

definition depth_le_u64 :: "depth \<Rightarrow> u64a \<Rightarrow> bool" where
  "depth_le_u64 a d = (if \<not> is_finite a then False else u32_to_u64 (dval a) \<le> d)"

definition depth_eq_u64 :: "depth \<Rightarrow> u64a \<Rightarrow> bool" where
  "depth_eq_u64 a d = (if \<not> is_finite a then False else u32_to_u64 (dval a) = d)"

definition depth_gt_u64 :: "depth \<Rightarrow> u64a \<Rightarrow> bool" where
  "depth_gt_u64 a d = (\<not> depth_le_u64 a d)"

definition depth_ge_u64 :: "depth \<Rightarrow> u64a \<Rightarrow> bool" where
  "depth_ge_u64 a d = (\<not> depth_lt_u64 a d)"

definition depth_ne_u64 :: "depth \<Rightarrow> u64a \<Rightarrow> bool" where
  "depth_ne_u64 a d = (\<not> depth_eq_u64 a d)"


text \<open>Arithmetic. The sum of two \<open>u32\<close> values is a \<open>u32\<close> before it is widened.\<close>

definition depth_add :: "depth \<Rightarrow> depth \<Rightarrow> depth_error + depth" where
  "depth_add a d =
     (if is_unreachable a \<or> is_unreachable d then Inr unreachable
      else if is_infinite a \<or> is_infinite d then Inr infinity
      else let rv = u32_to_u64 (dval a + dval d) in
        if rv \<ge> u32_to_u64 val_infinity then Inl DepthOverflowError
        else depth_ctor (u64_to_u32 rv))"

definition depth_sub :: "depth \<Rightarrow> depth \<Rightarrow> depth_error + depth" where
  "depth_sub a d =
     (if \<not> is_finite d then Inl DepthOverflowError
      else if is_unreachable a then Inr unreachable
      else if is_infinite a then Inr infinity
      else if dval a < dval d then Inl DepthOverflowError
      else let rv = dval a - dval d in depth_ctor rv)"

text \<open>
  The signed operand is added to an unsigned value, so C++ converts it to \<open>u32\<close> first;
  the 32-bit result is then widened to \<open>s64a\<close>.
\<close>

definition depth_add_s32 :: "depth \<Rightarrow> s32 \<Rightarrow> depth_error + depth" where
  "depth_add_s32 a d =
     (if is_unreachable a then Inr unreachable
      else if is_infinite a then Inr infinity
      else let rv = u32_to_u64 (dval a + d) in
        if sint rv < 0 \<or> rv \<ge> u32_to_u64 val_infinity then Inl DepthOverflowError
        else depth_ctor (u64_to_u32 rv))"

definition depth_sub_s32 :: "depth \<Rightarrow> s32 \<Rightarrow> depth_error + depth" where
  "depth_sub_s32 a d =
     (if is_unreachable a then Inr unreachable
      else if is_infinite a then Inr infinity
      else let rv = u32_to_u64 (dval a - d) in
        if sint rv < 0 \<or> rv \<ge> u32_to_u64 val_infinity then Inl DepthOverflowError
        else depth_ctor (u64_to_u32 rv))"

section \<open>Min/max pairs\<close>

datatype DepthMinMax = DepthMinMax (dmin: depth) (dmax: depth)

definition dmm_default :: DepthMinMax where
  "dmm_default = DepthMinMax infinity (Depth 0)"

instantiation DepthMinMax :: linorder
begin

definition less_DepthMinMax :: "DepthMinMax \<Rightarrow> DepthMinMax \<Rightarrow> bool" where
  "less_DepthMinMax a b = (if dmin a \<noteq> dmin b then dmin a < dmin b else dmax a < dmax b)"

definition less_eq_DepthMinMax :: "DepthMinMax \<Rightarrow> DepthMinMax \<Rightarrow> bool" where
  "less_eq_DepthMinMax a b = (a < b \<or> a = b)"

instance
  by standard (auto simp: less_DepthMinMax_def less_eq_DepthMinMax_def not_less_iff_gr_or_eq
    DepthMinMax.expand split: if_splits)

end

definition unionDepthMinMax :: "DepthMinMax \<Rightarrow> DepthMinMax \<Rightarrow> DepthMinMax" where
  "unionDepthMinMax a b =
     DepthMinMax
       (if is_unreachable (dmin a) then dmin b
        else if is_unreachable (dmin b) then dmin a
        else min (dmin a) (dmin b))
       (if is_infinite (dmax a) \<or> is_infinite (dmax b) then infinity
        else if is_unreachable (dmax a) then dmax b
        else if is_unreachable (dmax b) then dmax a
        else max (dmax a) (dmax b))"

section \<open>The abstract value\<close>

text \<open>The representations the class can hold: it never builds a value above \<open>val_unreachable\<close>.\<close>

definition depth_ok :: "depth \<Rightarrow> bool" where
  "depth_ok d = (dval d \<le> val_unreachable)"

definition depth_abs :: "depth \<Rightarrow> enat option" where
  "depth_abs d =
     (if is_unreachable d then None
      else if is_infinite d then Some \<infinity>
      else Some (enat (unat (dval d))))"

text \<open>The exact specification of a checked operation: the finite result, or the overflow.\<close>

definition depth_of_int :: "int \<Rightarrow> depth_error + depth" where
  "depth_of_int n =
     (if 0 \<le> n \<and> n < 2 ^ 31 - 1 then Inr (Depth (word_of_int n)) else Inl DepthOverflowError)"


section \<open>Lemmas: the representation\<close>

lemma val_consts [simp]:
  "val_infinity = 0x7FFFFFFF" "val_unreachable = 0x80000000" "max_value = 0x7FFFFFFE"
  by (simp_all add: val_infinity_def val_unreachable_def max_value_def)

lemmas depth_class_defs = is_finite_def is_infinite_def is_unreachable_def is_reachable_def
  unreachable_def infinity_def depth_default_def

text \<open>An acceptable depth is of exactly one of the three kinds.\<close>

lemma depth_kinds:
  "depth_ok d \<Longrightarrow> is_finite d \<or> is_infinite d \<or> is_unreachable d"
  unfolding depth_ok_def depth_class_defs val_consts by unat_arith

lemma depth_kinds_excl:
  "is_finite d \<Longrightarrow> \<not> is_infinite d" "is_finite d \<Longrightarrow> \<not> is_unreachable d"
  "is_infinite d \<Longrightarrow> \<not> is_unreachable d"
  unfolding depth_class_defs val_consts by auto

lemma depth_abs_simps:
  "is_finite d \<Longrightarrow> depth_abs d = Some (enat (unat (dval d)))"
  "is_infinite d \<Longrightarrow> depth_abs d = Some \<infinity>"
  "is_unreachable d \<Longrightarrow> depth_abs d = None"
  by (auto simp: depth_abs_def depth_kinds_excl dest: depth_kinds_excl)

lemma is_finite_unat: "is_finite d \<longleftrightarrow> unat (dval d) < 2 ^ 31 - 1"
  by (simp add: is_finite_def word_less_nat_alt)

lemma is_finite_uint: "is_finite d \<longleftrightarrow> uint (dval d) < 2 ^ 31 - 1"
  by (simp add: is_finite_def word_less_def)

lemma finite_u64_below:
  "(2147483647 :: u64a) \<le> ucast (w::u32) \<longleftrightarrow> 2 ^ 31 - 1 \<le> uint w"
  by (simp add: word_le_def uint_up_ucast is_up)

lemma sint_ucast_nonneg: "\<not> sint (ucast (w::u32) :: u64a) < 0"
proof -
  have "uint (ucast w :: u64a) < 2 ^ 32"
    using uint_lt2p [of w] by (simp add: uint_up_ucast is_up)
  then show ?thesis
    by (simp add: sint_uint signed_take_bit_eq_if_positive bit_iff_odd)
qed

lemma depth_ctor_finite:
  "uint w < 2 ^ 31 - 1 \<Longrightarrow> depth_ctor w = Inr (Depth w)"
  by (simp add: depth_ctor_def word_less_def)


section \<open>Lemmas: arithmetic is exact or overflows\<close>

lemma uint_plus_u32_small:
  "uint (a::u32) + uint b < 2 ^ 32 \<Longrightarrow> uint (a + b) = uint a + uint b"
  by (simp add: uint_word_ariths)

lemma mod_of_small_negative:
  fixes n :: int
  assumes "- (2 ^ 31) \<le> n" "n < 0"
  shows "n mod 2 ^ 32 = n + 2 ^ 32"
proof -
  have "(n + 2 ^ 32) mod 2 ^ 32 = n + 2 ^ 32"
    by (rule mod_pos_pos_trivial) (use assms in simp_all)
  then show ?thesis by simp
qed

lemma sint_bounds_s32: "- (2 ^ 31) \<le> sint (d::s32)" "sint (d::s32) < 2 ^ 31"
  using sint_ge [of d] sint_lt [of d] by simp_all

lemma uint_plus_s32:
  "uint (a::u32) < 2 ^ 31 \<Longrightarrow>
     uint (a + d) = (if uint a + sint d < 0 then uint a + sint d + 2 ^ 32 else uint a + sint d)"
proof -
  assume a: "uint a < 2 ^ 31"
  have d: "- (2 ^ 31) \<le> sint d" "sint d < 2 ^ 31"
    by (rule sint_bounds_s32)+
  have "uint (a + d) = uint (word_of_int (uint a + sint d) :: u32)"
    by simp
  then have "uint (a + d) = (uint a + sint d) mod 2 ^ 32"
    by (simp only: uint_word_of_int) simp
  moreover have "0 \<le> uint a" by simp
  moreover have "(uint a + sint d) mod 2 ^ 32 = uint a + sint d + 2 ^ 32" if "uint a + sint d < 0"
    by (rule mod_of_small_negative) (use that d uint_ge_0 [of a] in linarith)+
  ultimately show ?thesis using a d by simp
qed

lemma uint_minus_s32:
  "uint (a::u32) < 2 ^ 31 \<Longrightarrow>
     uint (a - d) = (if uint a - sint d < 0 then uint a - sint d + 2 ^ 32 else uint a - sint d)"
proof -
  assume a: "uint a < 2 ^ 31"
  have d: "- (2 ^ 31) \<le> sint d" "sint d < 2 ^ 31"
    by (rule sint_bounds_s32)+
  have "uint (a - d) = uint (word_of_int (uint a - sint d) :: u32)"
    by simp
  then have "uint (a - d) = (uint a - sint d) mod 2 ^ 32"
    by (simp only: uint_word_of_int) simp
  moreover have "0 \<le> uint a" by simp
  moreover have "(uint a - sint d) mod 2 ^ 32 = uint a - sint d + 2 ^ 32" if "uint a - sint d < 0"
    by (rule mod_of_small_negative) (use that d uint_ge_0 [of a] in linarith)+
  ultimately show ?thesis using a d by simp
qed

lemma depth_ctor_widened:
  "uint w < 2 ^ 31 - 1 \<Longrightarrow> depth_ctor (ucast (ucast (w::u32) :: u64a)) = Inr (Depth w)"
  by (simp add: ucast_up_ucast_id is_up depth_ctor_finite)

lemma depth_add_finite:
  assumes "is_finite a" "is_finite b"
  shows "depth_add a b = depth_of_int (uint (dval a) + uint (dval b))"
proof -
  have ab: "uint (dval a) < 2 ^ 31 - 1" "uint (dval b) < 2 ^ 31 - 1"
    using assms by (auto simp: is_finite_uint)
  then have s: "uint (dval a + dval b) = uint (dval a) + uint (dval b)"
    by (intro uint_plus_u32_small) simp
  then have w: "dval a + dval b = word_of_int (uint (dval a) + uint (dval b))"
    by simp
  show ?thesis
    using assms s
    by (auto simp: depth_add_def depth_of_int_def depth_kinds_excl Let_def finite_u64_below
        depth_ctor_widened not_le)
qed

lemma depth_sub_finite:
  assumes "is_finite a" "is_finite b"
  shows "depth_sub a b = depth_of_int (uint (dval a) - uint (dval b))"
proof -
  have ab: "uint (dval a) < 2 ^ 31 - 1" "uint (dval b) < 2 ^ 31 - 1"
    using assms by (auto simp: is_finite_uint)
  have s: "uint (dval a - dval b) = uint (dval a) - uint (dval b)"
    if "uint (dval b) \<le> uint (dval a)"
    using that by (simp add: uint_sub_lem [THEN iffD1])
  have lt: "uint (dval a) - uint (dval b) < 2 ^ 31 - 1"
    using ab uint_ge_0 [of "dval b"] by linarith
  show ?thesis
    using assms s lt
    by (auto simp: depth_sub_def depth_of_int_def depth_kinds_excl Let_def word_less_def
        depth_ctor_finite dest: order_less_le_trans)
qed


lemma depth_of_int_wrapped:
  assumes "uint w = (if n < 0 then n + 2 ^ 32 else n)" "- (2 ^ 31) \<le> n"
  shows "(if 2 ^ 31 - 1 \<le> uint w then Inl DepthOverflowError else Inr (Depth w)) = depth_of_int n"
proof (cases "0 \<le> n \<and> n < 2 ^ 31 - 1")
  case True
  with assms have "uint w = n" by simp
  then have "w = word_of_int n" by (metis word_of_int_uint)
  with True \<open>uint w = n\<close> show ?thesis by (simp add: depth_of_int_def)
next
  case False
  with assms show ?thesis by (auto simp: depth_of_int_def split: if_splits)
qed

text \<open>
  By \<open>sint_ucast_nonneg\<close> the guard \<open>rv < 0\<close> of the signed operators never fires: a negative mathematical result
  has wrapped to a value of at least \<open>2 ^ 31\<close>, which the second guard catches.
\<close>

lemma depth_add_s32_finite:
  assumes "is_finite a"
  shows "depth_add_s32 a d = depth_of_int (uint (dval a) + sint d)"
proof -
  have "uint (dval a) < 2 ^ 31" using assms by (simp add: is_finite_uint)
  note w = uint_plus_s32 [OF this, of d]
  have "- (2 ^ 31) \<le> uint (dval a) + sint d"
    using sint_bounds_s32 [of d] uint_ge_0 [of "dval a"] by linarith
  from depth_of_int_wrapped [OF w this] show ?thesis
    using assms
    by (auto simp: depth_add_s32_def depth_kinds_excl Let_def sint_ucast_nonneg finite_u64_below
        depth_ctor_widened split: if_splits)
qed

lemma depth_sub_s32_finite:
  assumes "is_finite a"
  shows "depth_sub_s32 a d = depth_of_int (uint (dval a) - sint d)"
proof -
  have "uint (dval a) < 2 ^ 31" using assms by (simp add: is_finite_uint)
  note w = uint_minus_s32 [OF this, of d]
  have "- (2 ^ 31) \<le> uint (dval a) - sint d"
    using sint_bounds_s32 [of d] uint_ge_0 [of "dval a"] by linarith
  from depth_of_int_wrapped [OF w this] show ?thesis
    using assms
    by (auto simp: depth_sub_s32_def depth_kinds_excl Let_def sint_ucast_nonneg finite_u64_below
        depth_ctor_widened split: if_splits)
qed

lemma depth_of_int_Inr:
  "depth_of_int n = Inr r \<Longrightarrow> is_finite r \<and> uint (dval r) = n"
  by (auto simp: depth_of_int_def is_finite_uint uint_word_of_int split: if_splits)

lemma depth_of_int_ok: "depth_of_int n = Inr r \<Longrightarrow> depth_ok r"
  using depth_of_int_Inr [of n r] by (auto simp: depth_ok_def is_finite_uint word_le_def)

lemma special_depths [simp]:
  "depth_ok unreachable" "depth_ok infinity" "is_unreachable unreachable" "is_infinite infinity"
  "depth_abs unreachable = None" "depth_abs infinity = Some \<infinity>"
  by (auto simp: depth_ok_def depth_class_defs depth_abs_def)

lemma depth_add_ok: "depth_ok a \<Longrightarrow> depth_ok b \<Longrightarrow> depth_add a b = Inr r \<Longrightarrow> depth_ok r"
  using depth_kinds [of a] depth_kinds [of b]
  by (cases "is_finite a \<and> is_finite b")
    (auto simp: depth_add_finite dest: depth_of_int_ok, auto simp: depth_add_def split: if_splits)

section \<open>Lemmas: the abstraction\<close>

lemma depth_abs_finite_int:
  "is_finite d \<Longrightarrow> uint (dval d) = n \<Longrightarrow> depth_abs d = Some (enat (nat n))"
  by (auto simp: depth_abs_simps)

lemma depth_add_abs_finite:
  assumes "is_finite a" "is_finite b" "depth_add a b = Inr r"
  shows "depth_abs r = Some (enat (unat (dval a) + unat (dval b)))"
proof -
  from assms have "depth_of_int (uint (dval a) + uint (dval b)) = Inr r"
    by (simp add: depth_add_finite)
  from depth_of_int_Inr [OF this] show ?thesis
    by (simp add: depth_abs_finite_int nat_add_distrib)
qed


lemma depth_add_special:
  "is_unreachable a \<or> is_unreachable b \<Longrightarrow> depth_add a b = Inr unreachable"
  "\<not> is_unreachable a \<Longrightarrow> \<not> is_unreachable b \<Longrightarrow> is_infinite a \<or> is_infinite b \<Longrightarrow>
     depth_add a b = Inr infinity"
  by (auto simp: depth_add_def)

lemma depth_add_cases:
  assumes "depth_ok a" "depth_ok b"
  shows "depth_add a b =
    (if is_unreachable a \<or> is_unreachable b then Inr unreachable
     else if is_infinite a \<or> is_infinite b then Inr infinity
     else depth_of_int (uint (dval a) + uint (dval b)))"
  using depth_kinds [OF assms(1)] depth_kinds [OF assms(2)]
  by (auto simp: depth_add_finite depth_add_special)

text \<open>Addition on the abstract values: strict in unreachable, and the sum of \<open>enat\<close>.\<close>

definition abs_plus :: "enat option \<Rightarrow> enat option \<Rightarrow> enat option" where
  "abs_plus x y = (case x of None \<Rightarrow> None | Some m \<Rightarrow>
     (case y of None \<Rightarrow> None | Some n \<Rightarrow> Some (m + n)))"

lemma depth_add_abs:
  assumes "depth_ok a" "depth_ok b" "depth_add a b = Inr r"
  shows "depth_abs r = abs_plus (depth_abs a) (depth_abs b)"
  using depth_kinds [OF assms(1)] depth_kinds [OF assms(2)] assms(3)
    depth_add_abs_finite [of a b r]
  by (auto simp: depth_abs_simps abs_plus_def depth_add_special depth_kinds_excl)

section \<open>Lemmas: union of min/max pairs\<close>

text \<open>
  A pair is well formed when both ends are acceptable, both or neither are unreachable, and
  the range is not empty; it then stands for the set of depths between its ends.
\<close>

definition dmm_wf :: "DepthMinMax \<Rightarrow> bool" where
  "dmm_wf m = (depth_ok (dmin m) \<and> depth_ok (dmax m) \<and>
     (is_unreachable (dmin m) = is_unreachable (dmax m)) \<and> dmin m \<le> dmax m)"

definition dmm_range :: "DepthMinMax \<Rightarrow> enat set" where
  "dmm_range m =
     (case (depth_abs (dmin m), depth_abs (dmax m)) of
        (Some l, Some h) \<Rightarrow> {l..h} | _ \<Rightarrow> {})"

text \<open>On reachable depths the abstraction is an order embedding.\<close>

lemma depth_le_abs:
  "depth_ok a \<Longrightarrow> depth_ok b \<Longrightarrow> depth_abs a = Some x \<Longrightarrow> depth_abs b = Some y \<Longrightarrow> a \<le> b \<longleftrightarrow> x \<le> y"
  using depth_kinds [of a] depth_kinds [of b]
  by (auto simp: depth_abs_def less_eq_depth_def depth_class_defs word_le_nat_alt word_less_nat_alt
      split: if_splits)

lemma depth_abs_None: "depth_abs d = None \<longleftrightarrow> is_unreachable d"
  by (auto simp: depth_abs_def)

lemma depth_abs_min:
  "depth_ok a \<Longrightarrow> depth_ok b \<Longrightarrow> depth_abs a = Some x \<Longrightarrow> depth_abs b = Some y \<Longrightarrow>
     depth_abs (min a b) = Some (min x y)"
  using depth_le_abs [of a b x y] by (auto simp: min_def)

lemma depth_abs_max:
  "depth_ok a \<Longrightarrow> depth_ok b \<Longrightarrow> depth_abs a = Some x \<Longrightarrow> depth_abs b = Some y \<Longrightarrow>
     depth_abs (max a b) = Some (max x y)"
  using depth_le_abs [of a b x y] by (auto simp: max_def)

lemma depth_abs_infinite: "is_infinite d \<longleftrightarrow> depth_abs d = Some \<infinity>"
  by (auto simp: depth_abs_def depth_kinds_excl)

text \<open>The ends of a union, seen through the abstraction.\<close>

lemma union_abs_min:
  assumes "depth_ok (dmin a)" "depth_ok (dmin b)"
  shows "depth_abs (dmin (unionDepthMinMax a b)) =
    (case (depth_abs (dmin a), depth_abs (dmin b)) of
       (None, y) \<Rightarrow> y | (x, None) \<Rightarrow> x | (Some x, Some y) \<Rightarrow> Some (min x y))"
  using assms depth_abs_min [of "dmin a" "dmin b"]
  by (auto simp: unionDepthMinMax_def depth_abs_None [symmetric] split: option.splits)

lemma union_abs_max:
  assumes "depth_ok (dmax a)" "depth_ok (dmax b)"
  shows "depth_abs (dmax (unionDepthMinMax a b)) =
    (case (depth_abs (dmax a), depth_abs (dmax b)) of
       (None, y) \<Rightarrow> y | (x, None) \<Rightarrow> x | (Some x, Some y) \<Rightarrow> Some (max x y))"
  using assms depth_abs_max [of "dmax a" "dmax b"]
  by (auto simp: unionDepthMinMax_def depth_abs_None [symmetric] depth_abs_infinite
      split: option.splits)

lemma union_ok:
  assumes "dmm_wf a" "dmm_wf b"
  shows "depth_ok (dmin (unionDepthMinMax a b))" "depth_ok (dmax (unionDepthMinMax a b))"
  using assms by (auto simp: unionDepthMinMax_def dmm_wf_def min_def max_def)

lemma dmm_cases:
  assumes "dmm_wf m"
  obtains "depth_abs (dmin m) = None" "depth_abs (dmax m) = None" "dmm_range m = {}"
  | l h where "depth_abs (dmin m) = Some l" "depth_abs (dmax m) = Some h" "l \<le> h"
      "dmm_range m = {l..h}"
proof (cases "depth_abs (dmin m)")
  case None
  then have "depth_abs (dmax m) = None"
    using assms by (simp add: dmm_wf_def depth_abs_None)
  with None show thesis
    by (intro that(1)) (simp_all add: dmm_range_def)
next
  case (Some l)
  then obtain h where "depth_abs (dmax m) = Some h"
    using assms by (cases "depth_abs (dmax m)")
      (auto simp: dmm_wf_def depth_abs_None [symmetric])
  then show thesis
    using Some assms that(2) depth_le_abs [of "dmin m" "dmax m" l h]
    by (auto simp: dmm_wf_def dmm_range_def)
qed

lemma dmm_wfI:
  assumes "depth_ok (dmin m)" "depth_ok (dmax m)"
    "depth_abs (dmin m) = Some l" "depth_abs (dmax m) = Some h" "l \<le> h"
  shows "dmm_wf m \<and> dmm_range m = {l..h}"
  using assms depth_le_abs [of "dmin m" "dmax m" l h]
  by (auto simp: dmm_wf_def dmm_range_def depth_abs_None [symmetric])

lemma dmm_wf_emptyI:
  assumes "depth_abs (dmin m) = None" "depth_abs (dmax m) = None"
  shows "dmm_wf m \<and> dmm_range m = {}"
proof
  show "dmm_range m = {}" by (simp add: dmm_range_def assms)
  show "dmm_wf m"
    using assms
    by (auto simp: dmm_wf_def depth_abs_None depth_ok_def is_unreachable_def less_eq_depth_def)
qed

text \<open>The union is well formed and is the convex hull of the two ranges.\<close>

lemma union_hull:
  assumes a: "dmm_wf a" and b: "dmm_wf b"
  shows "dmm_wf (unionDepthMinMax a b) \<and>
    dmm_range (unionDepthMinMax a b) =
      (if dmm_range a = {} then dmm_range b
       else if dmm_range b = {} then dmm_range a
       else {min (Inf (dmm_range a)) (Inf (dmm_range b)) ..
             max (Sup (dmm_range a)) (Sup (dmm_range b))})"
proof -
  have ok: "depth_ok (dmin a)" "depth_ok (dmax a)" "depth_ok (dmin b)" "depth_ok (dmax b)"
    using a b by (auto simp: dmm_wf_def)
  note u = union_abs_min [OF ok(1,3)] union_abs_max [OF ok(2,4)] union_ok [OF a b]
  show ?thesis
  proof (cases rule: dmm_cases [OF a])
    case a1: 1
    show ?thesis
      by (cases rule: dmm_cases [OF b])
        (use u a1 in \<open>auto simp: dmm_wfI dmm_wf_emptyI\<close>)
  next
    case a2: (2 la ha)
    show ?thesis
    proof (cases rule: dmm_cases [OF b])
      case 1
      then show ?thesis using u a2 by (auto simp: dmm_wfI)
    next
      case (2 lb hb)
      then have "min la lb \<le> max ha hb" using a2 by (auto simp: min_def max_def)
      with u a2 2 show ?thesis by (auto simp: dmm_wfI)
    qed
  qed
qed


section \<open>Properties\<close>

text \<open>
  C19. Adding two depths is exact: the result stands for the sum of the abstract values
  (unreachable absorbs everything, infinity absorbs counts), and the overflow exception is
  raised precisely when both are counts whose sum is above the largest representable count.
\<close>

theorem depth_add_correct:
  assumes "depth_ok a" "depth_ok b"
  shows "case depth_add a b of
      Inl _ \<Rightarrow> is_finite a \<and> is_finite b \<and> uint max_value < uint (dval a) + uint (dval b)
    | Inr r \<Rightarrow> depth_ok r \<and> depth_abs r = abs_plus (depth_abs a) (depth_abs b)
        \<and> (is_finite a \<and> is_finite b \<longrightarrow> uint (dval a) + uint (dval b) \<le> uint max_value)"
proof (cases "depth_add a b")
  case (Inl e)
  then have "is_finite a \<and> is_finite b"
    using assms depth_kinds [of a] depth_kinds [of b]
    by (auto simp: depth_add_cases split: if_splits)
  with Inl show ?thesis
    by (auto simp: depth_add_finite depth_of_int_def split: if_splits)
next
  case (Inr r)
  have "uint (dval a) + uint (dval b) \<le> uint max_value" if "is_finite a \<and> is_finite b"
    using Inr that by (auto simp: depth_add_finite depth_of_int_def split: if_splits)
  with Inr depth_add_ok [OF assms Inr] depth_add_abs [OF assms Inr] show ?thesis
    by simp
qed

theorem depth_add_correct_witness:
  "case depth_add (Depth 0x7FFFFFFE) (Depth 1) of
      Inl _ \<Rightarrow> is_finite (Depth 0x7FFFFFFE) \<and> is_finite (Depth 1) \<and>
        uint max_value < uint (0x7FFFFFFE :: u32) + uint (1 :: u32)
    | Inr r \<Rightarrow> False"
  using depth_add_correct [of "Depth 0x7FFFFFFE" "Depth 1"]
  by (simp add: depth_ok_def depth_add_def depth_class_defs Let_def)

text \<open>
  C20. Moving a depth by a signed 32-bit amount, in either direction, gives the exact integer
  result or the overflow exception, for every amount: the intermediate unsigned wrap-around
  of \<open>val + d\<close> never lets a negative result through, although the guard \<open>rv < 0\<close> of the
  code is dead.  Special depths are fixed points.
\<close>

theorem depth_signed_exact:
  assumes "depth_ok a"
  shows "depth_add_s32 a d =
      (if is_finite a then depth_of_int (uint (dval a) + sint d) else Inr a) \<and>
    depth_sub_s32 a d =
      (if is_finite a then depth_of_int (uint (dval a) - sint d) else Inr a)"
proof (cases "is_finite a")
  case True
  then show ?thesis by (simp add: depth_add_s32_finite depth_sub_s32_finite)
next
  case False
  with assms have "is_infinite a \<or> is_unreachable a" using depth_kinds by blast
  with False show ?thesis
    by (cases a) (auto simp: depth_add_s32_def depth_sub_s32_def depth_class_defs)
qed

theorem depth_signed_exact_witness:
  "depth_add_s32 (Depth 5) (- 6) = Inl DepthOverflowError \<and>
   depth_sub_s32 (Depth 5) (- 6) = Inr (Depth 11)"
  using depth_signed_exact [of "Depth 5" "- 6"]
  by (simp add: depth_ok_def is_finite_def depth_of_int_def)

text \<open>
  \<open>unionDepthMinMax\<close> computes the least range that contains both: the result is well
  formed, covers both arguments, and lies inside every well-formed pair that covers both.
\<close>

theorem union_least_range:
  assumes "dmm_wf a" "dmm_wf b"
  shows "dmm_wf (unionDepthMinMax a b) \<and>
    dmm_range a \<union> dmm_range b \<subseteq> dmm_range (unionDepthMinMax a b) \<and>
    (\<forall>c. dmm_wf c \<and> dmm_range a \<union> dmm_range b \<subseteq> dmm_range c \<longrightarrow>
         dmm_range (unionDepthMinMax a b) \<subseteq> dmm_range c)"
proof -
  note hull = union_hull [OF assms]
  show ?thesis
  proof (cases rule: dmm_cases [OF assms(1)])
    case 1
    with hull show ?thesis by auto
  next
    case a2: (2 la ha)
    show ?thesis
    proof (cases rule: dmm_cases [OF assms(2)])
      case 1
      with hull a2 show ?thesis by auto
    next
      case (2 lb hb)
      have "{min la lb..max ha hb} \<subseteq> dmm_range c"
        if "dmm_wf c" "{la..ha} \<union> {lb..hb} \<subseteq> dmm_range c" for c
        by (cases rule: dmm_cases [OF that(1)])
          (use that(2) a2(3) 2(3) in \<open>auto simp: min_def max_def\<close>)
      with hull a2 2 show ?thesis
        by (auto simp: le_max_iff_disj min_le_iff_disj)
    qed
  qed
qed

theorem union_least_range_witness:
  "dmm_wf (unionDepthMinMax (DepthMinMax (Depth 2) (Depth 4)) (DepthMinMax (Depth 9) infinity))"
  using union_least_range [of "DepthMinMax (Depth 2) (Depth 4)" "DepthMinMax (Depth 9) infinity"]
  by (simp add: dmm_wf_def depth_ok_def depth_class_defs less_eq_depth_def)

end
