(* ===== verification/BitUtils.thy ===== *)
theory BitUtils
  imports Prelude
begin

text \<open>
  The bit primitives of \<open>src/util/bitutils.h\<close> and \<open>src/util/popcount.h\<close>: counts of leading
  and trailing zeros and of set bits (compiler builtins in the code, by their documented
  meaning here), the find-and-clear operations in their portable form, single-word bit
  fields, ranks, and the software extraction of the bits under a mask.
\<close>

section \<open>Counting\<close>

definition ctz64 :: "u64a \<Rightarrow> nat" where
  "ctz64 x = length (takeWhile (\<lambda>i. \<not> bit x i) [0..<64])"

definition ctz32 :: "u32 \<Rightarrow> nat" where
  "ctz32 x = length (takeWhile (\<lambda>i. \<not> bit x i) [0..<32])"

definition clz64 :: "u64a \<Rightarrow> nat" where
  "clz64 x = length (takeWhile (\<lambda>i. \<not> bit x i) (rev [0..<64]))"

definition clz32 :: "u32 \<Rightarrow> nat" where
  "clz32 x = length (takeWhile (\<lambda>i. \<not> bit x i) (rev [0..<32]))"

definition popcount64 :: "u64a \<Rightarrow> nat" where
  "popcount64 x = length (filter (bit x) [0..<64])"

definition popcount32 :: "u32 \<Rightarrow> nat" where
  "popcount32 x = length (filter (bit x) [0..<32])"

definition lg2 :: "u32 \<Rightarrow> nat" where
  "lg2 x = (if x = 0 then 0 else 31 - clz32 x)"

definition lg2_64 :: "u64a \<Rightarrow> nat" where
  "lg2_64 x = (if x = 0 then 0 else 63 - clz64 x)"

section \<open>Find and clear\<close>

text \<open>Each returns the offset found and the word with that bit cleared.\<close>

definition findAndClearLSB_32 :: "u32 \<Rightarrow> nat \<times> u32" where
  "findAndClearLSB_32 v = (let offset = ctz32 v in (offset, v AND (v - 1)))"

definition findAndClearLSB_64 :: "u64a \<Rightarrow> nat \<times> u64a" where
  "findAndClearLSB_64 v = (let offset = ctz64 v in (offset, v AND (v - 1)))"

definition findAndClearMSB_32 :: "u32 \<Rightarrow> nat \<times> u32" where
  "findAndClearMSB_32 v = (let offset = 31 - clz32 v in (offset, v AND NOT (push_bit offset 1)))"

definition findAndClearMSB_64 :: "u64a \<Rightarrow> nat \<times> u64a" where
  "findAndClearMSB_64 v = (let offset = 63 - clz64 v in (offset, v AND NOT (push_bit offset 1)))"

section \<open>Single-word bit fields\<close>

text \<open>\<open>bf64_iterate\<close> uses \<open>~0U\<close> both for "from the start" and for "no more bits".\<close>

definition bf64_none :: nat where
  "bf64_none = 2 ^ 32 - 1"

definition bf64_iterate :: "u64a \<Rightarrow> nat \<Rightarrow> nat" where
  "bf64_iterate bitfield begin =
     (let bitfield = (if begin \<noteq> bf64_none then bitfield AND NOT (push_bit begin 2 - 1) else bitfield)
      in if bitfield = 0 then bf64_none else ctz64 bitfield)"

definition bf64_set :: "u64a \<Rightarrow> nat \<Rightarrow> bool \<times> u64a" where
  "bf64_set bitfield i =
     (let mask = push_bit i 1; was_set = (bitfield AND mask \<noteq> 0) in (was_set, bitfield OR mask))"

definition bf64_unset :: "u64a \<Rightarrow> nat \<Rightarrow> u64a" where
  "bf64_unset bitfield i = bitfield AND NOT (push_bit i 1)"

definition rank_in_mask32 :: "u32 \<Rightarrow> nat \<Rightarrow> nat" where
  "rank_in_mask32 msk b = popcount32 (msk AND (push_bit b 1 - 1))"

definition rank_in_mask64 :: "u64a \<Rightarrow> nat \<Rightarrow> nat" where
  "rank_in_mask64 msk b = popcount64 (msk AND (push_bit b 1 - 1))"


section \<open>Lemmas\<close>

lemma ctz64_Min: "x \<noteq> 0 \<Longrightarrow> ctz64 x = Min (bitset x)"
  using scan_lowest [of x] by (simp add: ctz64_def)

lemma ctz32_Min: "x \<noteq> 0 \<Longrightarrow> ctz32 x = Min (bitset x)"
  using scan_lowest [of x] by (simp add: ctz32_def)

lemma clz64_Max: "x \<noteq> 0 \<Longrightarrow> clz64 x = 63 - Max (bitset x)"
  using scan_highest [of x] by (simp add: clz64_def)

lemma clz32_Max: "x \<noteq> 0 \<Longrightarrow> clz32 x = 31 - Max (bitset x)"
  using scan_highest [of x] by (simp add: clz32_def)

lemma popcount64_card: "popcount64 x = card (bitset x)"
  using length_filter_bit [of x] by (simp add: popcount64_def)

lemma popcount32_card: "popcount32 x = card (bitset x)"
  using length_filter_bit [of x] by (simp add: popcount32_def)

end
