(* ===== verification/Bitfield.thy ===== *)
theory Bitfield
  imports BitUtils
begin

text \<open>
  The class template \<open>bitfield<requested_size>\<close> of \<open>src/util/bitfield.h\<close>: a set of the
  numbers below \<open>requested_size\<close> (the argument \<open>n\<close> of the definitions) held as an array of
  64-bit blocks.  The abstract value is the set of the bits that are on; the invariant is
  that the array has \<open>num_blocks\<close> blocks and that the trailer, the bits between
  \<open>requested_size\<close> and the end of the array, is zero.
\<close>

section \<open>Operations\<close>

type_synonym bitfield = "u64a list"

definition num_blocks :: "nat \<Rightarrow> nat" where
  "num_blocks n = (n + 64 - 1) div 64"

definition all_ones :: u64a where
  "all_ones = NOT 0"

definition getword :: "nat \<Rightarrow> nat" where
  "getword n = n div 64"

definition maskbit :: "nat \<Rightarrow> u64a" where
  "maskbit n = push_bit (n mod 64) 1"

definition word_ctz :: "bitfield \<Rightarrow> nat \<Rightarrow> nat" where
  "word_ctz bits i = ctz64 (bits ! i)"

definition bf_empty :: "nat \<Rightarrow> bitfield" where
  "bf_empty n = replicate (num_blocks n) 0"

definition clear_trailer :: "nat \<Rightarrow> bitfield \<Rightarrow> bitfield" where
  "clear_trailer n bits =
     (let final_bits = n mod 64 in
      if final_bits \<noteq> 0
      then bits[length bits - 1 := last bits AND (push_bit final_bits 1 - 1)]
      else bits)"

definition bf_setall :: "nat \<Rightarrow> bitfield \<Rightarrow> bitfield" where
  "bf_setall n bits = clear_trailer n (map (\<lambda>e. all_ones) bits)"

definition bf_clearall :: "bitfield \<Rightarrow> bitfield" where
  "bf_clearall bits = map (\<lambda>e. 0) bits"

definition bf_clear :: "bitfield \<Rightarrow> nat \<Rightarrow> bitfield" where
  "bf_clear bits i = bits[getword i := bits ! getword i AND NOT (maskbit i)]"

definition bf_set :: "bitfield \<Rightarrow> nat \<Rightarrow> bitfield" where
  "bf_set bits i = bits[getword i := bits ! getword i OR maskbit i]"

definition bf_test :: "bitfield \<Rightarrow> nat \<Rightarrow> bool" where
  "bf_test bits i = (bits ! getword i AND maskbit i \<noteq> 0)"

definition bf_flip :: "bitfield \<Rightarrow> nat \<Rightarrow> bitfield" where
  "bf_flip bits i = bits[getword i := bits ! getword i XOR maskbit i]"

definition bf_flipall :: "nat \<Rightarrow> bitfield \<Rightarrow> bitfield" where
  "bf_flipall n bits = clear_trailer n (map NOT bits)"

text \<open>\<open>set_range\<close>: the middle loop writes whole blocks while a full block still fits.\<close>

function set_range_loop :: "nat \<Rightarrow> nat \<Rightarrow> bitfield \<Rightarrow> nat \<times> bitfield" where
  "set_range_loop to i bits =
     (if i + 64 \<le> to + 1 then set_range_loop to (i + 64) (bits[i div 64 := all_ones])
      else (i, bits))"
  by pat_completeness auto
termination by (relation "measure (\<lambda>(to, i, bits). to + 1 - i)") auto

definition set_range :: "bitfield \<Rightarrow> nat \<Rightarrow> nat \<Rightarrow> bitfield" where
  "set_range bits from to =
     (if from div 64 = to div 64 then
        let block = push_bit (from mod 64) all_ones;
            block = (if to mod 64 \<noteq> 64 - 1 then block AND (maskbit (to + 1) - 1) else block)
        in bits[from div 64 := bits ! (from div 64) OR block]
      else
        let i = from;
            (i, bits) =
              (if i mod 64 \<noteq> 0
               then ((i + 63) div 64 * 64,
                     bits[i div 64 := bits ! (i div 64) OR push_bit (i mod 64) all_ones])
               else (i, bits));
            (i, bits) = set_range_loop to i bits
        in if i \<le> to then bits[i div 64 := bits ! (i div 64) OR (maskbit (to + 1) - 1)]
           else bits)"

text \<open>\<open>count\<close> adds four blocks per round, then the remaining ones.\<close>

fun bf_count_loop :: "nat \<Rightarrow> bitfield \<Rightarrow> nat" where
  "bf_count_loop acc (a # b # c # d # bits) =
     bf_count_loop (acc + popcount64 a + popcount64 b + popcount64 c + popcount64 d) bits"
| "bf_count_loop acc (a # bits) = bf_count_loop (acc + popcount64 a) bits"
| "bf_count_loop acc [] = acc"

definition bf_count :: "bitfield \<Rightarrow> nat" where
  "bf_count bits = bf_count_loop 0 bits"

fun bf_none :: "bitfield \<Rightarrow> bool" where
  "bf_none [] = True"
| "bf_none (e # bits) = (if e \<noteq> 0 then False else bf_none bits)"

definition bf_any :: "bitfield \<Rightarrow> bool" where
  "bf_any bits = (\<not> bf_none bits)"

definition bf_all :: "nat \<Rightarrow> bitfield \<Rightarrow> bool" where
  "bf_all n bits =
     (if \<exists>i \<in> set [0..<length bits - 1]. bits ! i \<noteq> all_ones then False
      else let rem = n mod 64;
               expected = (if rem \<noteq> 0 then push_bit rem 1 - 1 else all_ones)
           in last bits = expected)"

text \<open>The loop of \<open>find_first\<close> and the second loop of \<open>find_next\<close>, over the given block indices.\<close>

fun first_nonzero :: "nat \<Rightarrow> bitfield \<Rightarrow> nat list \<Rightarrow> nat" where
  "first_nonzero n bits [] = n"
| "first_nonzero n bits (i # is) =
     (if bits ! i \<noteq> 0 then i * 64 + word_ctz bits i else first_nonzero n bits is)"

definition find_first :: "nat \<Rightarrow> bitfield \<Rightarrow> nat" where
  "find_first n bits = first_nonzero n bits [0..<length bits]"

fun last_nonzero :: "nat \<Rightarrow> bitfield \<Rightarrow> nat list \<Rightarrow> nat" where
  "last_nonzero n bits [] = n"
| "last_nonzero n bits (i # is) =
     (if bits ! i \<noteq> 0 then i * 64 + 64 - 1 - clz64 (bits ! i) else last_nonzero n bits is)"

definition find_last :: "nat \<Rightarrow> bitfield \<Rightarrow> nat" where
  "find_last n bits = last_nonzero n bits (rev [0..<length bits])"

definition find_next :: "nat \<Rightarrow> bitfield \<Rightarrow> nat \<Rightarrow> nat" where
  "find_next n bits lst =
     (if lst \<ge> n then n
      else
        let i = getword lst;
            lastword = bits ! i AND push_bit (lst mod 64 + 1) all_ones
        in if lst mod 64 \<noteq> 64 - 1 \<and> lastword \<noteq> 0 then i * 64 + ctz64 lastword
           else first_nonzero n bits [i + 1..<length bits])"

fun clear_lsb_times :: "nat \<Rightarrow> u64a \<Rightarrow> u64a" where
  "clear_lsb_times 0 block = block"
| "clear_lsb_times (Suc k) block = clear_lsb_times k (block AND (block - 1))"

fun find_nth_loop :: "nat \<Rightarrow> bitfield \<Rightarrow> nat \<Rightarrow> nat \<Rightarrow> nat list \<Rightarrow> nat" where
  "find_nth_loop n bits k acc [] = n"
| "find_nth_loop n bits k acc (i # is) =
     (let block = bits ! i; aftersum = acc + popcount64 block
      in if aftersum > k then i * 64 + ctz64 (clear_lsb_times (k - acc) block)
         else find_nth_loop n bits k aftersum is)"

definition find_nth :: "nat \<Rightarrow> bitfield \<Rightarrow> nat \<Rightarrow> nat" where
  "find_nth n bits k = find_nth_loop n bits k 0 [0..<length bits]"

text \<open>
  The bitwise assignments share one loop shape: four blocks per round, then the remaining
  ones; \<open>f\<close> is the assignment operator.
\<close>

fun blockwise :: "(u64a \<Rightarrow> u64a \<Rightarrow> u64a) \<Rightarrow> bitfield \<Rightarrow> bitfield \<Rightarrow> bitfield" where
  "blockwise f (a0 # a1 # a2 # a3 # as) (b0 # b1 # b2 # b3 # bs) =
     f a0 b0 # f a1 b1 # f a2 b2 # f a3 b3 # blockwise f as bs"
| "blockwise f (a # as) (b # bs) = f a b # blockwise f as bs"
| "blockwise f as bs = as"

definition bf_or_eq :: "bitfield \<Rightarrow> bitfield \<Rightarrow> bitfield" where
  "bf_or_eq this a = blockwise (\<lambda>x y. x OR y) this a"

definition bf_or :: "bitfield \<Rightarrow> bitfield \<Rightarrow> bitfield" where
  "bf_or this a = bf_or_eq a this"

definition bf_and_eq :: "bitfield \<Rightarrow> bitfield \<Rightarrow> bitfield" where
  "bf_and_eq this a = blockwise (\<lambda>x y. x AND y) this a"

definition bf_and :: "bitfield \<Rightarrow> bitfield \<Rightarrow> bitfield" where
  "bf_and this a = bf_and_eq a this"

definition bf_xor_eq :: "bitfield \<Rightarrow> bitfield \<Rightarrow> bitfield" where
  "bf_xor_eq this a = blockwise (\<lambda>x y. x XOR y) this a"

definition bf_xor :: "bitfield \<Rightarrow> bitfield \<Rightarrow> bitfield" where
  "bf_xor this a = bf_xor_eq a this"

definition bf_compl :: "nat \<Rightarrow> bitfield \<Rightarrow> bitfield" where
  "bf_compl n this = bf_flipall n this"

text \<open>
  The constructor from a \<open>boost::dynamic_bitset\<close> walks the indices \<open>is\<close> that are on in it.
\<close>

definition bf_from_bitset :: "nat \<Rightarrow> nat list \<Rightarrow> bitfield" where
  "bf_from_bitset n is = foldl bf_set (bf_empty n) is"

section \<open>The abstract set and the invariant\<close>

definition bf_bits :: "bitfield \<Rightarrow> nat set" where
  "bf_bits bits = {i. i div 64 < length bits \<and> bit (bits ! (i div 64)) (i mod 64)}"

definition bf_inv :: "nat \<Rightarrow> bitfield \<Rightarrow> bool" where
  "bf_inv n bits = (length bits = num_blocks n \<and> bf_bits bits \<subseteq> {..<n})"


section \<open>Lemmas: single blocks\<close>

lemma num_blocks_bound: "i < n \<Longrightarrow> i div 64 < num_blocks n"
  unfolding num_blocks_def by (simp add: less_eq_div_iff_mult_less_eq Suc_le_eq [symmetric])

lemma bf_bits_iff:
  "i \<in> bf_bits bits \<longleftrightarrow> i div 64 < length bits \<and> bit (bits ! (i div 64)) (i mod 64)"
  by (simp add: bf_bits_def)

lemma bf_bits_update:
  "k < length bits \<Longrightarrow> i \<in> bf_bits (bits[k := w]) \<longleftrightarrow>
     (if i div 64 = k then bit w (i mod 64) else i \<in> bf_bits bits)"
  by (auto simp: bf_bits_iff)

lemma bf_bits_block:
  "i div 64 = k \<Longrightarrow> k < length bits \<Longrightarrow> bit (bits ! k) (i mod 64) \<longleftrightarrow> i \<in> bf_bits bits"
  by (auto simp: bf_bits_iff)

lemma bf_inv_length: "bf_inv n bits \<Longrightarrow> length bits = num_blocks n"
  by (simp add: bf_inv_def)

lemma bf_inv_block: "bf_inv n bits \<Longrightarrow> i < n \<Longrightarrow> i div 64 < length bits"
  by (simp add: bf_inv_length num_blocks_bound)

lemma bf_inv_below: "bf_inv n bits \<Longrightarrow> i \<in> bf_bits bits \<Longrightarrow> i < n"
  by (auto simp: bf_inv_def)

lemma bf_bits_finite [simp]: "finite (bf_bits bits)"
proof (rule finite_subset)
  show "bf_bits bits \<subseteq> {..<64 * length bits}"
    by (auto simp: bf_bits_iff)
qed simp

lemma bit_maskbit: "bit (maskbit i) j \<longleftrightarrow> j = i mod 64"
  by (auto simp: maskbit_def bit_simps)

lemma bit_all_ones: "bit all_ones j \<longleftrightarrow> j < 64"
  by (simp add: all_ones_def bit_simps)

lemma bit_below_mask: "bit (push_bit k 1 - 1 :: u64a) j \<longleftrightarrow> j < k \<and> j < 64"
  using bitset_mask [of k, where 'a = 64] by (auto simp: bitset_def set_eq_iff)

lemma bit_below_mask': "bit (2 ^ k - 1 :: u64a) j \<longleftrightarrow> j < k \<and> j < 64"
  using bit_below_mask [of k j] by simp

lemma bit_from_mask: "bit (push_bit k all_ones) j \<longleftrightarrow> k \<le> j \<and> j < 64"
  by (auto simp: all_ones_def bit_simps)

lemma and_maskbit_nonzero: "w AND maskbit i \<noteq> 0 \<longleftrightarrow> bit w (i mod 64)"
  unfolding bitset_empty_iff [symmetric]
  by (auto simp: bitset_def bit_simps bit_maskbit)

lemmas block_bits = bit_maskbit bit_all_ones bit_below_mask bit_below_mask'
  bit_from_mask and_maskbit_nonzero

section \<open>Lemmas: the operations on the abstract set\<close>

lemma bf_empty_bits [abs_simps]: "bf_bits (bf_empty n) = {}"
  by (auto simp: bf_bits_iff bf_empty_def)

lemma bf_empty_inv [inv_intros]: "bf_inv n (bf_empty n)"
  by (simp add: bf_inv_def bf_empty_bits) (simp add: bf_empty_def)

lemma bf_test_bits [abs_simps]: "bf_inv n bits \<Longrightarrow> i < n \<Longrightarrow> bf_test bits i \<longleftrightarrow> i \<in> bf_bits bits"
  using bf_inv_block [of n bits i]
  by (simp add: bf_test_def block_bits bf_bits_iff getword_def)

lemma same_block: "i div 64 = j div 64 \<Longrightarrow> i mod 64 = j mod 64 \<longleftrightarrow> i = (j::nat)"
  by (metis div_mult_mod_eq)

lemma bf_set_bits [abs_simps]:
  "bf_inv n bits \<Longrightarrow> i < n \<Longrightarrow> bf_bits (bf_set bits i) = insert i (bf_bits bits)"
  using bf_inv_block [of n bits i]
  by (auto simp: bf_set_def getword_def bf_bits_update block_bits bit_simps same_block
      bf_bits_block set_eq_iff split: if_splits)

lemma bf_clear_bits [abs_simps]:
  "bf_inv n bits \<Longrightarrow> i < n \<Longrightarrow> bf_bits (bf_clear bits i) = bf_bits bits - {i}"
  using bf_inv_block [of n bits i]
  by (auto simp: bf_clear_def getword_def bf_bits_update block_bits bit_simps same_block
      bf_bits_block set_eq_iff split: if_splits)

lemma bf_flip_bits [abs_simps]:
  "bf_inv n bits \<Longrightarrow> i < n \<Longrightarrow>
     bf_bits (bf_flip bits i) = (if i \<in> bf_bits bits then bf_bits bits - {i} else insert i (bf_bits bits))"
  using bf_inv_block [of n bits i]
  by (auto simp: bf_flip_def getword_def bf_bits_update block_bits bit_simps same_block
      bf_bits_block set_eq_iff split: if_splits)

lemma bf_point_length [simp]:
  "length (bf_set bits i) = length bits" "length (bf_clear bits i) = length bits"
  "length (bf_flip bits i) = length bits"
  by (simp_all add: bf_set_def bf_clear_def bf_flip_def)

lemma bf_invI: "length bits = num_blocks n \<Longrightarrow> bf_bits bits = S \<Longrightarrow> S \<subseteq> {..<n} \<Longrightarrow> bf_inv n bits"
  by (simp add: bf_inv_def)

lemma bf_point_inv [inv_intros]:
  assumes "bf_inv n bits" "i < n"
  shows "bf_inv n (bf_set bits i)" "bf_inv n (bf_clear bits i)" "bf_inv n (bf_flip bits i)"
proof -
  have l: "length bits = num_blocks n" and s: "bf_bits bits \<subseteq> {..<n}"
    using assms(1) by (simp_all add: bf_inv_def)
  show "bf_inv n (bf_set bits i)"
    by (rule bf_invI [OF _ bf_set_bits [OF assms]]) (use l s assms(2) in auto)
  show "bf_inv n (bf_clear bits i)"
    by (rule bf_invI [OF _ bf_clear_bits [OF assms]]) (use l s in auto)
  show "bf_inv n (bf_flip bits i)"
    by (rule bf_invI [OF _ bf_flip_bits [OF assms]]) (use l s assms(2) in auto)
qed

lemma bf_clearall_bits [abs_simps]: "bf_bits (bf_clearall bits) = {}"
  by (auto simp: bf_bits_iff bf_clearall_def)

lemma bf_clearall_inv [inv_intros]: "bf_inv n bits \<Longrightarrow> bf_inv n (bf_clearall bits)"
  by (simp add: bf_inv_def bf_clearall_bits) (simp add: bf_clearall_def)


text \<open>The trailer mask confines the last block to the requested size.\<close>

lemma num_blocks_pos: "0 < n \<Longrightarrow> 0 < num_blocks n"
  by (simp add: num_blocks_def div_greater_zero_iff)

lemma num_blocks_eq: "num_blocks n = n div 64 + (if n mod 64 = 0 then 0 else 1)"
proof -
  define q r where "q = n div 64" and "r = n mod 64"
  then have n: "n = r + 64 * q" and r: "r < 64" by simp_all
  have "(n + 63) div 64 = q + (r + 63) div 64"
    unfolding n by (simp add: add.assoc [symmetric] add.commute [of _ 63])
  moreover have "(r + 63) div 64 = (if r = 0 then 0 else 1)"
  proof (cases "r = 0")
    case False
    then have "r + 63 = (r - 1) + 64" by simp
    then have "(r + 63) div 64 = (r - 1) div 64 + 1" by (metis add.commute div_add_self1 zero_neq_numeral)
    with r False show ?thesis by simp
  qed simp
  ultimately show ?thesis
    by (simp add: num_blocks_def q_def r_def)
qed

lemma index_below_iff:
  assumes "i div 64 < num_blocks n" "n mod 64 \<noteq> 0"
  shows "i < n \<longleftrightarrow> i div 64 \<noteq> num_blocks n - 1 \<or> i mod 64 < n mod 64"
proof -
  have nb: "num_blocks n = n div 64 + 1"
    using assms(2) by (simp add: num_blocks_eq)
  have i: "i = 64 * (i div 64) + i mod 64" "i mod 64 < 64"
    and n: "n = 64 * (n div 64) + n mod 64" by simp_all
  show ?thesis
  proof (cases "i div 64 = n div 64")
    case True
    with i n nb show ?thesis by linarith
  next
    case False
    with assms(1) nb have "i div 64 + 1 \<le> n div 64" by linarith
    with i n nb False show ?thesis by linarith
  qed
qed

lemma index_below_full:
  assumes "i div 64 < num_blocks n" "n mod 64 = 0"
  shows "i < n"
proof -
  have "i div 64 + 1 \<le> n div 64" using assms by (simp add: num_blocks_eq)
  moreover have "i = 64 * (i div 64) + i mod 64" "i mod 64 < 64" by simp_all
  moreover have "n = 64 * (n div 64)" using assms(2) by auto
  ultimately show ?thesis by linarith
qed

lemma clear_trailer_length [simp]: "length (clear_trailer n bits) = length bits"
  by (simp add: clear_trailer_def Let_def)

lemma clear_trailer_bits:
  assumes "length bits = num_blocks n"
  shows "bf_bits (clear_trailer n bits) = bf_bits bits \<inter> {..<n}"
proof (cases "n mod 64 = 0")
  case True
  then show ?thesis
    using assms by (auto simp: clear_trailer_def bf_bits_iff intro: index_below_full)
next
  case False
  then have len: "num_blocks n - 1 < length bits"
    using assms num_blocks_pos [of n] by (cases "n = 0") auto
  then have lst: "last bits = bits ! (num_blocks n - 1)"
    using assms by (simp add: last_conv_nth length_0_conv [symmetric] del: length_0_conv)
  show ?thesis
  proof (rule set_eqI)
    fix i
    show "i \<in> bf_bits (clear_trailer n bits) \<longleftrightarrow> i \<in> bf_bits bits \<inter> {..<n}"
    proof (cases "i div 64 < num_blocks n")
      case True
      with False len lst index_below_iff [of i n] assms show ?thesis
        by (auto simp: clear_trailer_def Let_def bf_bits_update bit_simps block_bits bf_bits_block)
    next
      case False
      then show ?thesis
        using assms by (auto simp: bf_bits_iff)
    qed
  qed
qed

lemma bf_setall_bits [abs_simps]: "bf_inv n bits \<Longrightarrow> bf_bits (bf_setall n bits) = {..<n}"
  by (auto simp: bf_setall_def clear_trailer_bits bf_inv_length bf_bits_iff bit_all_ones
      num_blocks_bound)

lemma bf_flipall_bits [abs_simps]: "bf_inv n bits \<Longrightarrow> bf_bits (bf_flipall n bits) = {..<n} - bf_bits bits"
  by (auto simp: bf_flipall_def clear_trailer_bits bf_inv_length bf_bits_iff bit_simps
      num_blocks_bound)

lemma bf_trailer_inv [inv_intros]:
  "bf_inv n bits \<Longrightarrow> bf_inv n (bf_setall n bits)"
  "bf_inv n bits \<Longrightarrow> bf_inv n (bf_flipall n bits)"
  using bf_setall_bits [of n bits] bf_flipall_bits [of n bits]
  by (auto simp: bf_inv_def) (auto simp: bf_setall_def bf_flipall_def)

lemma blockwise_map2: "length as = length bs \<Longrightarrow> blockwise f as bs = map2 f as bs"
  by (induction f as bs rule: blockwise.induct) auto

lemma bf_binop_bits [abs_simps]:
  assumes "bf_inv n a" "bf_inv n b"
  shows "bf_bits (bf_or a b) = bf_bits a \<union> bf_bits b"
    "bf_bits (bf_and a b) = bf_bits a \<inter> bf_bits b"
    "bf_bits (bf_xor a b) = (bf_bits a - bf_bits b) \<union> (bf_bits b - bf_bits a)"
    "bf_bits (bf_or_eq a b) = bf_bits a \<union> bf_bits b"
    "bf_bits (bf_and_eq a b) = bf_bits a \<inter> bf_bits b"
    "bf_bits (bf_xor_eq a b) = (bf_bits a - bf_bits b) \<union> (bf_bits b - bf_bits a)"
  using assms
  by (auto simp: bf_or_def bf_and_def bf_xor_def bf_or_eq_def bf_and_eq_def bf_xor_eq_def
      blockwise_map2 bf_inv_length bf_bits_iff bit_simps)

lemma bf_binop_inv [inv_intros]:
  assumes "bf_inv n a" "bf_inv n b"
  shows "bf_inv n (bf_or a b)" "bf_inv n (bf_and a b)" "bf_inv n (bf_xor a b)"
    "bf_inv n (bf_or_eq a b)" "bf_inv n (bf_and_eq a b)" "bf_inv n (bf_xor_eq a b)"
  using assms bf_binop_bits [OF assms]
  by (auto simp: bf_inv_def) (auto simp: bf_or_def bf_and_def bf_xor_def bf_or_eq_def
      bf_and_eq_def bf_xor_eq_def blockwise_map2)

lemma bf_compl_bits [abs_simps]: "bf_inv n a \<Longrightarrow> bf_bits (bf_compl n a) = {..<n} - bf_bits a"
  by (simp add: bf_compl_def bf_flipall_bits)

lemma bf_compl_inv [inv_intros]: "bf_inv n a \<Longrightarrow> bf_inv n (bf_compl n a)"
  by (simp add: bf_compl_def inv_intros)


section \<open>Lemmas: ranges\<close>

declare set_range_loop.simps [simp del]

text \<open>Block-level membership, for reasoning about a whole range of blocks.\<close>

lemma set_range_loop_spec:
  assumes "64 dvd i" "i \<le> to + 1" "to div 64 < length bits"
  shows "case set_range_loop to i bits of (i', bits') \<Rightarrow>
    length bits' = length bits \<and> i' \<le> to + 1 \<and> to + 1 < i' + 64 \<and> 64 dvd i' \<and> i \<le> i' \<and>
    bf_bits bits' = bf_bits bits \<union> {i..<i'}"
  using assms
proof (induction to i bits rule: set_range_loop.induct)
  case (1 to i bits)
  show ?case
  proof (cases "i + 64 \<le> to + 1")
    case False
    with "1.prems" show ?thesis
      by (subst set_range_loop.simps) auto
  next
    case True
    obtain p where p: "i = 64 * p" using "1.prems"(1) by (elim dvdE)
    have pl: "p < length bits"
    proof -
      have "p \<le> to div 64" using True p by (simp add: less_eq_div_iff_mult_less_eq)
      then show ?thesis using "1.prems"(3) by simp
    qed
    have upd: "bf_bits (bits[p := all_ones]) = bf_bits bits \<union> {i..<i + 64}"
    proof (rule set_eqI)
      fix j
      have "j div 64 = p \<longleftrightarrow> j \<in> {i..<i + 64}"
        unfolding p by (auto simp: div_nat_eqI) 
      then show "j \<in> bf_bits (bits[p := all_ones]) \<longleftrightarrow> j \<in> bf_bits bits \<union> {i..<i + 64}"
        using pl by (auto simp: bf_bits_update bit_all_ones)
    qed
    have "case set_range_loop to (i + 64) (bits[i div 64 := all_ones]) of (i', bits') \<Rightarrow>
      length bits' = length (bits[i div 64 := all_ones]) \<and> i' \<le> to + 1 \<and> to + 1 < i' + 64 \<and>
      64 dvd i' \<and> i + 64 \<le> i' \<and>
      bf_bits bits' = bf_bits (bits[i div 64 := all_ones]) \<union> {i + 64..<i'}"
      using "1.prems" True by (intro "1.IH") auto
    moreover have "i div 64 = p" using p by simp
    ultimately show ?thesis
      using True upd by (subst set_range_loop.simps) (auto split: prod.splits)
  qed
qed


lemma bit_maskbit_pred: "bit (maskbit k - 1) j \<longleftrightarrow> j < k mod 64 \<and> j < 64"
  by (simp add: maskbit_def bit_below_mask')

lemma block_decomp: "(j::nat) = 64 * (j div 64) + j mod 64" "j mod 64 < 64"
  by simp_all

lemma same_block_le: "i div 64 = j div 64 \<Longrightarrow> i \<le> j \<longleftrightarrow> i mod 64 \<le> j mod (64::nat)"
  using block_decomp [of i] block_decomp [of j] by linarith

lemma or_block_bits:
  assumes "k < length bits" "\<And>j. j div 64 = k \<Longrightarrow> bit w (j mod 64) \<longleftrightarrow> j \<in> S"
    "\<And>j. j \<in> S \<Longrightarrow> j div 64 = k"
  shows "bf_bits (bits[k := bits ! k OR w]) = bf_bits bits \<union> S"
  using assms by (auto simp: set_eq_iff bf_bits_update bit_simps bf_bits_block)

lemma set_range_small:
  assumes "from div 64 = to div 64" "to div 64 < length bits" "from \<le> to"
  shows "bf_bits (set_range bits from to) = bf_bits bits \<union> {from..to}"
proof -
  define block where "block = (if to mod 64 \<noteq> 64 - 1
    then push_bit (from mod 64) all_ones AND (maskbit (to + 1) - 1)
    else push_bit (from mod 64) all_ones)"
  have next_mod: "to mod 64 \<noteq> 63 \<Longrightarrow> (to + 1) mod 64 = to mod 64 + 1"
    by (simp add: mod_Suc)
  have "bf_bits (bits[from div 64 := bits ! (from div 64) OR block]) = bf_bits bits \<union> {from..to}"
  proof (rule or_block_bits)
    fix j assume j: "j div 64 = from div 64"
    have "bit block (j mod 64) \<longleftrightarrow> from mod 64 \<le> j mod 64 \<and> j mod 64 \<le> to mod 64"
      using next_mod block_decomp(2) [of j] block_decomp(2) [of to]
      by (auto simp: block_def bit_and_iff bit_maskbit_pred bit_from_mask)
    then show "bit block (j mod 64) \<longleftrightarrow> j \<in> {from..to}"
      using j assms(1) same_block_le [of "from" j] same_block_le [of j to] by simp
  next
    fix j assume "j \<in> {from..to}"
    then show "j div 64 = from div 64"
      using assms(1) div_le_mono [of "from" j 64] div_le_mono [of j to 64] by simp
  qed (use assms in simp)
  then show ?thesis
    using assms(1) by (simp add: set_range_def block_def Let_def)
qed

lemma roundup_block:
  assumes "(from :: nat) mod 64 \<noteq> 0"
  shows "(from + 63) div 64 * 64 = 64 * (from div 64 + 1)"
  using assms num_blocks_eq [of "from"] by (simp add: num_blocks_def add.commute [of _ 63])

lemma first_block_bits:
  assumes "from mod 64 \<noteq> 0" "from div 64 < length bits"
  shows "bf_bits (bits[from div 64 := bits ! (from div 64) OR push_bit (from mod 64) all_ones])
    = bf_bits bits \<union> {from..<64 * (from div 64 + 1)}"
proof (rule or_block_bits)
  fix j assume j: "j div 64 = from div 64"
  then have "j < 64 * (from div 64 + 1)" using block_decomp [of j] by simp
  then show "bit (push_bit (from mod 64) all_ones) (j mod 64) \<longleftrightarrow>
      j \<in> {from..<64 * (from div 64 + 1)}"
    using j same_block_le [of "from" j] by (auto simp: bit_from_mask)
next
  fix j assume "j \<in> {from..<64 * (from div 64 + 1)}"
  then show "j div 64 = from div 64"
    using div_le_mono [of "from" j 64] block_decomp [of j]
    by (auto simp: div_less_iff_less_mult mult.commute less_Suc_eq_le [symmetric])
qed (use assms in simp)

lemma last_block_bits:
  assumes "64 dvd i" "i \<le> to" "to + 1 < i + 64" "i div 64 < length bits"
  shows "bf_bits (bits[i div 64 := bits ! (i div 64) OR (maskbit (to + 1) - 1)])
    = bf_bits bits \<union> {i..to}"
proof -
  obtain p where p: "i = 64 * p" using assms(1) by (elim dvdE)
  have to: "(to + 1) mod 64 = to + 1 - i"
  proof -
    have "to + 1 = (to + 1 - i) + 64 * p" using p assms(2) by simp
    then have "(to + 1) mod 64 = (to + 1 - i) mod 64" by (metis mod_mult_self2)
    then show ?thesis using assms(3) by simp
  qed
  show ?thesis
  proof (rule or_block_bits)
    fix j assume "j div 64 = i div 64"
    then have "j = i + j mod 64" using block_decomp(1) [of j] p by simp
    then show "bit (maskbit (to + 1) - 1) (j mod 64) \<longleftrightarrow> j \<in> {i..to}"
      unfolding bit_maskbit_pred to using block_decomp(2) [of j] assms(2) by auto
  next
    fix j assume "j \<in> {i..to}"
    then show "j div 64 = i div 64"
      using assms(3) p by (auto simp: div_nat_eqI)
  qed (use assms in simp)
qed

lemma set_range_large:
  assumes ne: "from div 64 \<noteq> to div 64" and len: "to div 64 < length bits" and "from \<le> to"
  shows "bf_bits (set_range bits from to) = bf_bits bits \<union> {from..to} \<and>
    length (set_range bits from to) = length bits"
proof -
  have lt: "from div 64 < to div 64" using ne div_le_mono [OF assms(3), of 64] by simp
  define i1 where "i1 = (if from mod 64 \<noteq> 0 then (from + 63) div 64 * 64 else from)"
  define b1 where "b1 = (if from mod 64 \<noteq> 0
    then bits[from div 64 := bits ! (from div 64) OR push_bit (from mod 64) all_ones] else bits)"
  have b1: "bf_bits b1 = bf_bits bits \<union> {from..<i1}" "length b1 = length bits"
    using first_block_bits [of "from" bits] lt len roundup_block [of "from"]
    by (auto simp: b1_def i1_def)
  have i1: "64 dvd i1" "from \<le> i1" "i1 \<le> to"
    using roundup_block [of "from"] lt block_decomp [of "from"] block_decomp [of to]
    by (auto simp: i1_def dvd_eq_mod_eq_0 [symmetric])
  obtain i2 b2 where loop: "set_range_loop to i1 b1 = (i2, b2)" by force
  have L: "length b2 = length bits" "i2 \<le> to + 1" "to + 1 < i2 + 64" "64 dvd i2" "i1 \<le> i2"
    "bf_bits b2 = bf_bits b1 \<union> {i1..<i2}"
    using set_range_loop_spec [of i1 to b1] loop i1 b1(2) len by auto
  have r: "set_range bits from to =
    (if i2 \<le> to then b2[i2 div 64 := b2 ! (i2 div 64) OR (maskbit (to + 1) - 1)] else b2)"
    using ne loop by (simp add: set_range_def i1_def b1_def Let_def split: prod.splits if_splits)
  have before: "bf_bits b2 = bf_bits bits \<union> {from..<i2}"
    using L(5,6) b1(1) i1(2) by auto
  show ?thesis
  proof (cases "i2 \<le> to")
    case True
    then have "i2 div 64 < length b2"
      using L(1) len div_le_mono [OF True, of 64] by simp
    from last_block_bits [OF L(4) True L(3) this] show ?thesis
      using r True before L i1 by auto
  next
    case False
    then have "i2 = to + 1" using L by simp
    with r False before L show ?thesis by auto
  qed
qed

lemma set_range_bits [abs_simps]:
  assumes "bf_inv n bits" "from \<le> to" "to < n"
  shows "bf_bits (set_range bits from to) = bf_bits bits \<union> {from..to}"
  using set_range_small [of "from" to bits] set_range_large [of "from" to bits]
    bf_inv_block [OF assms(1,3)] assms(2) by blast

lemma set_range_inv [inv_intros]:
  assumes "bf_inv n bits" "from \<le> to" "to < n"
  shows "bf_inv n (set_range bits from to)"
proof (rule bf_invI [OF _ set_range_bits [OF assms]])
  show "length (set_range bits from to) = num_blocks n"
    using set_range_large [of "from" to bits] bf_inv_block [OF assms(1,3)] assms(2)
      bf_inv_length [OF assms(1)]
    by (cases "from div 64 = to div 64") (auto simp: set_range_def Let_def)
  show "bf_bits bits \<union> {from..to} \<subseteq> {..<n}"
    using assms by (auto simp: bf_inv_def)
qed


section \<open>Lemmas: counting and searching\<close>

lemma bf_bits_Cons: "bf_bits (w # bits) = bitset w \<union> (\<lambda>i. i + 64) ` bf_bits bits"
proof (rule set_eqI)
  fix i
  show "i \<in> bf_bits (w # bits) \<longleftrightarrow> i \<in> bitset w \<union> (\<lambda>i. i + 64) ` bf_bits bits"
  proof (cases "i < 64")
    case True
    then show ?thesis by (auto simp: bf_bits_iff bitset_def)
  next
    case False
    then obtain j where "i = j + 64" by (metis add.commute le_Suc_ex not_less)
    have d: "(j + 64) div 64 = Suc (j div 64)" by (simp add: div_add_self2)
    have "i \<notin> bitset w" using False bitset_bound [of i w] by auto
    then show ?thesis
      using \<open>i = j + 64\<close> by (auto simp: bf_bits_iff d image_iff simp del: div_add_self1 div_add_self2)
  qed
qed

lemma bf_bits_Nil [simp]: "bf_bits [] = {}"
  by (simp add: bf_bits_def)

lemma card_bf_bits: "card (bf_bits bits) = sum_list (map popcount64 bits)"
proof (induction bits)
  case (Cons w bits)
  have "card (bf_bits (w # bits)) = card (bitset w) + card ((\<lambda>i. i + 64) ` bf_bits bits)"
    unfolding bf_bits_Cons by (rule card_Un_disjoint) (auto dest: bitset_bound)
  also have "card ((\<lambda>i. i + 64) ` bf_bits bits) = card (bf_bits bits)"
    by (rule card_image) (auto simp: inj_on_def)
  finally show ?case using Cons.IH by (simp add: popcount64_card)
qed simp

lemma bf_count_loop_sum: "bf_count_loop acc bits = acc + sum_list (map popcount64 bits)"
  by (induction acc bits rule: bf_count_loop.induct) simp_all

lemma bf_count_card [abs_simps]: "bf_count bits = card (bf_bits bits)"
  by (simp add: bf_count_def bf_count_loop_sum card_bf_bits)

lemma bf_none_iff [abs_simps]: "bf_none bits \<longleftrightarrow> bf_bits bits = {}"
  by (induction bits) (auto simp: bf_bits_Cons bitset_empty_iff)

lemma bf_any_iff [abs_simps]: "bf_any bits \<longleftrightarrow> bf_bits bits \<noteq> {}"
  by (simp add: bf_any_def bf_none_iff)

text \<open>Two bit fields with the invariant are equal exactly when their sets are.\<close>

lemma bf_eq_iff:
  assumes "bf_inv n a" "bf_inv n b"
  shows "a = b \<longleftrightarrow> bf_bits a = bf_bits b"
proof
  assume eq: "bf_bits a = bf_bits b"
  show "a = b"
  proof (rule nth_equalityI)
    fix k assume k: "k < length a"
    show "a ! k = b ! k"
    proof (rule bit_word_eqI)
      fix j assume "j < LENGTH(64)"
      then show "bit (a ! k) j \<longleftrightarrow> bit (b ! k) j"
        using eq k assms by (auto simp: bf_inv_length set_eq_iff bf_bits_iff dest!: spec [of _ "64 * k + j"])
    qed
  qed (use assms in \<open>simp add: bf_inv_length\<close>)
qed simp

lemma bf_all_iff [abs_simps]:
  assumes "bf_inv n bits" "0 < n"
  shows "bf_all n bits \<longleftrightarrow> bf_bits bits = {..<n}"
proof -
  define full where "full = bf_setall n bits"
  have len: "length bits > 0" "length full = length bits"
    using assms num_blocks_pos by (auto simp: bf_inv_length full_def bf_setall_def)
  then have ne: "bits \<noteq> []" "full \<noteq> []" by auto
  have ones: "last (map (\<lambda>e. all_ones) bits) = all_ones"
    using ne(1) by (simp add: last_map)
  have "last full = (if n mod 64 \<noteq> 0 then push_bit (n mod 64) 1 - 1 else all_ones)"
  proof (cases "n mod 64 = 0")
    case True
    then show ?thesis using ones by (simp add: full_def bf_setall_def clear_trailer_def)
  next
    case False
    have "last full = last (map (\<lambda>e. all_ones) bits) AND (push_bit (n mod 64) 1 - 1)"
      using len ne False
      by (simp add: full_def bf_setall_def clear_trailer_def Let_def last_list_update)
    then show ?thesis using False ones by (simp add: all_ones_def)
  qed
  moreover have "full ! i = all_ones" if "i < length bits - 1" for i
    using that len by (simp add: full_def bf_setall_def clear_trailer_def Let_def)
  ultimately have "bf_all n bits \<longleftrightarrow>
      (\<forall>i < length bits - 1. bits ! i = full ! i) \<and> last bits = last full"
    by (auto simp: bf_all_def Let_def)
  also have "\<dots> \<longleftrightarrow> bits = full"
  proof (intro iffI conjI)
    assume eq: "(\<forall>i < length bits - 1. bits ! i = full ! i) \<and> last bits = last full"
    show "bits = full"
    proof (rule nth_equalityI)
      fix i assume "i < length bits"
      then consider "i < length bits - 1" | "i = length bits - 1" by linarith
      then show "bits ! i = full ! i"
        using eq ne len(2) by cases (auto simp: last_conv_nth)
    qed (simp add: len)
  qed auto
  also have "\<dots> \<longleftrightarrow> bf_bits bits = {..<n}"
    using bf_eq_iff [OF assms(1) bf_trailer_inv(1) [OF assms(1)]] bf_setall_bits [OF assms(1)]
    by (simp add: full_def)
  finally show ?thesis .
qed


text \<open>The least (greatest) element of a set, or \<open>npos\<close> when there is none.\<close>

definition least_or :: "nat \<Rightarrow> nat set \<Rightarrow> nat" where
  "least_or n S = (if S = {} then n else Min S)"

definition greatest_or :: "nat \<Rightarrow> nat set \<Rightarrow> nat" where
  "greatest_or n S = (if S = {} then n else Max S)"

lemma least_orI: "finite S \<Longrightarrow> r \<in> S \<Longrightarrow> (\<And>s. s \<in> S \<Longrightarrow> r \<le> s) \<Longrightarrow> least_or n S = r"
  by (auto simp: least_or_def intro: Min_eqI)

lemma greatest_orI: "finite S \<Longrightarrow> r \<in> S \<Longrightarrow> (\<And>s. s \<in> S \<Longrightarrow> s \<le> r) \<Longrightarrow> greatest_or n S = r"
  by (auto simp: greatest_or_def intro: Max_eqI)

lemma least_or_empty [simp]: "least_or n {} = n" "greatest_or n {} = n"
  by (simp_all add: least_or_def greatest_or_def)

text \<open>The bits of one block, and the blocks below and above it.\<close>

lemma block_member:
  "k < length bits \<Longrightarrow> j < 64 \<Longrightarrow> 64 * k + j \<in> bf_bits bits \<longleftrightarrow> j \<in> bitset (bits ! k)"
  by (simp add: bf_bits_iff bitset_def)

lemma block_low:
  assumes "k < length bits" "j \<in> bitset (w :: u64a)" "bitset w \<subseteq> bitset (bits ! k)"
    "\<And>i. i \<in> bitset w \<Longrightarrow> j \<le> i"
    "\<And>i. i \<in> bf_bits bits \<Longrightarrow> lo \<le> i \<Longrightarrow> i div 64 = k \<Longrightarrow> i mod 64 \<in> bitset w"
    "lo \<le> 64 * k + j"
    "\<And>i. i \<in> bf_bits bits \<Longrightarrow> lo \<le> i \<Longrightarrow> k \<le> i div 64"
  shows "least_or n {i \<in> bf_bits bits. lo \<le> i} = 64 * k + j"
proof (rule least_orI)
  have j: "j < 64" using bitset_bound [OF assms(2)] by simp
  show "64 * k + j \<in> {i \<in> bf_bits bits. lo \<le> i}"
    using assms j by (auto simp: block_member)
  fix i assume i: "i \<in> {i \<in> bf_bits bits. lo \<le> i}"
  show "64 * k + j \<le> i"
  proof (cases "i div 64 = k")
    case True
    then have "j \<le> i mod 64" using assms(4,5) i by blast
    then show ?thesis using True block_decomp(1) [of i] by linarith
  next
    case False
    then have "k + 1 \<le> i div 64" using assms(7) i by fastforce
    then show ?thesis using j block_decomp(1) [of i] by linarith
  qed
qed simp

lemma first_nonzero_least:
  "k \<le> length bits \<Longrightarrow>
     first_nonzero n bits [k..<length bits] = least_or n {i \<in> bf_bits bits. 64 * k \<le> i}"
proof (induction "length bits - k" arbitrary: k)
  case 0
  then have "{i \<in> bf_bits bits. 64 * k \<le> i} = {}"
    by (auto simp: bf_bits_iff div_less_iff_less_mult)
  then have "least_or n {i \<in> bf_bits bits. 64 * k \<le> i} = n" by (simp only: least_or_empty)
  with 0 show ?case by simp
next
  case (Suc m)
  then have k: "k < length bits" by simp
  then have upt: "[k..<length bits] = k # [Suc k..<length bits]" by (rule upt_conv_Cons)
  show ?case
  proof (cases "bits ! k = 0")
    case True
    have "{i \<in> bf_bits bits. 64 * Suc k \<le> i} = {i \<in> bf_bits bits. 64 * k \<le> i}"
    proof -
      have "64 * Suc k \<le> i" if "i \<in> bf_bits bits" "64 * k \<le> i" for i
      proof -
        have "i div 64 \<noteq> k" using that True by (auto simp: bf_bits_iff)
        moreover have "k \<le> i div 64" using that(2) by (simp add: less_eq_div_iff_mult_less_eq)
        ultimately show ?thesis by (simp add: less_eq_div_iff_mult_less_eq [symmetric])
      qed
      then show ?thesis by auto
    qed
    then show ?thesis using Suc k True upt by simp
  next
    case False
    have "least_or n {i \<in> bf_bits bits. 64 * k \<le> i} = 64 * k + Min (bitset (bits ! k))"
    proof (rule block_low [where w = "bits ! k"])
      show "Min (bitset (bits ! k)) \<in> bitset (bits ! k)"
        using False by (simp add: bitset_empty_iff)
      show "i mod 64 \<in> bitset (bits ! k)" if "i \<in> bf_bits bits" "i div 64 = k" for i
        using that by (auto simp: bf_bits_iff bitset_def)
      show "k \<le> i div 64" if "64 * k \<le> i" for i
        using that by (simp add: less_eq_div_iff_mult_less_eq)
    qed (use k in auto)
    then show ?thesis
      using False upt by (simp add: word_ctz_def ctz64_Min)
  qed
qed

lemma find_first_least [abs_simps]: "find_first n bits = least_or n (bf_bits bits)"
  using first_nonzero_least [of 0 bits n] by (simp add: find_first_def)

lemma find_next_least [abs_simps]:
  assumes "bf_inv n bits"
  shows "find_next n bits lst = least_or n {i \<in> bf_bits bits. lst < i}"
proof (cases "lst < n")
  case False
  then have "{i \<in> bf_bits bits. lst < i} = {}"
    using bf_inv_below [OF assms] by fastforce
  then have "least_or n {i \<in> bf_bits bits. lst < i} = n" by (simp only: least_or_empty)
  with False show ?thesis by (simp add: find_next_def)
next
  case True
  define k w where "k = lst div 64" and "w = bits ! k AND push_bit (lst mod 64 + 1) all_ones"
  have k: "k < length bits" using bf_inv_block [OF assms True] by (simp add: k_def)
  have w: "j \<in> bitset w \<longleftrightarrow> j \<in> bitset (bits ! k) \<and> lst mod 64 < j" for j
    unfolding w_def bitset_def mem_Collect_eq bit_and_iff bit_from_mask
    by (auto dest: bit_imp_le_length)
  have in_w: "i mod 64 \<in> bitset w" if "i \<in> bf_bits bits" "lst < i" "i div 64 = k" for i
  proof -
    have "lst mod 64 < i mod 64"
      using that block_decomp(1) [of i] block_decomp(1) [of lst] unfolding k_def by linarith
    then show ?thesis using that unfolding w by (auto simp: bf_bits_iff bitset_def)
  qed
  have above: "k \<le> i div 64" if "lst < i" for i
    unfolding k_def using that by (intro div_le_mono) simp
  have def: "find_next n bits lst =
      (if w \<noteq> 0 then k * 64 + ctz64 w else first_nonzero n bits [k + 1..<length bits])"
  proof -
    have "w = 0" if "lst mod 64 = 63"
      using w that bitset_bound [of _ w] by (auto simp: bitset_empty_iff [symmetric])
    then show ?thesis
      using True
      unfolding find_next_def k_def [symmetric] w_def [symmetric] getword_def Let_def by auto
  qed
  have lo: "{i \<in> bf_bits bits. lst < i} = {i \<in> bf_bits bits. lst + 1 \<le> i}" by auto
  show ?thesis
  proof (cases "w = 0")
    case True
    have "64 * (k + 1) \<le> i" if "i \<in> bf_bits bits" "lst < i" for i
    proof -
      have "i div 64 \<noteq> k" using in_w [OF that] True by auto
      with above [OF that(2)] show ?thesis by (simp add: less_eq_div_iff_mult_less_eq [symmetric])
    qed
    moreover have "lst < i" if "64 * (k + 1) \<le> i" for i
      using that block_decomp [of lst] by (simp add: k_def)
    ultimately have "{i \<in> bf_bits bits. lst < i} = {i \<in> bf_bits bits. 64 * (k + 1) \<le> i}" by blast
    then show ?thesis
      using def True k first_nonzero_least [of "k + 1" bits n] by simp
  next
    case False
    have m: "Min (bitset w) \<in> bitset w" using False by (simp add: bitset_empty_iff)
    have "least_or n {i \<in> bf_bits bits. lst + 1 \<le> i} = 64 * k + Min (bitset w)"
    proof (rule block_low [OF k m])
      show "lst + 1 \<le> 64 * k + Min (bitset w)"
        using m [unfolded w] block_decomp(1) [of lst] unfolding k_def by linarith
    qed (use w in_w above in auto)
    then show ?thesis using def False lo by (simp add: ctz64_Min)
  qed
qed


lemma last_nonzero_greatest:
  "k \<le> length bits \<Longrightarrow>
     last_nonzero n bits (rev [0..<k]) = greatest_or n {i \<in> bf_bits bits. i < 64 * k}"
proof (induction k)
  case (Suc k)
  then have k: "k < length bits" by simp
  show ?case
  proof (cases "bits ! k = 0")
    case True
    have "i < 64 * k" if "i \<in> bf_bits bits" "i < 64 * Suc k" for i
    proof -
      have "i div 64 \<noteq> k" using that True by (auto simp: bf_bits_iff)
      moreover have "i div 64 < Suc k" using that(2) by (simp add: div_less_iff_less_mult)
      ultimately have "i div 64 < k" by simp
      then show ?thesis by (simp add: div_less_iff_less_mult)
    qed
    then have "{i \<in> bf_bits bits. i < 64 * Suc k} = {i \<in> bf_bits bits. i < 64 * k}" by auto
    then show ?thesis using Suc True by simp
  next
    case False
    define m where "m = Max (bitset (bits ! k))"
    have m: "m \<in> bitset (bits ! k)" "\<And>j. j \<in> bitset (bits ! k) \<Longrightarrow> j \<le> m"
      using False by (auto simp: m_def bitset_empty_iff)
    then have m64: "m < 64" using bitset_bound [OF m(1)] by simp
    have "greatest_or n {i \<in> bf_bits bits. i < 64 * Suc k} = 64 * k + m"
    proof (rule greatest_orI)
      show "64 * k + m \<in> {i \<in> bf_bits bits. i < 64 * Suc k}"
        using k m m64 by (simp add: block_member)
      fix i assume i: "i \<in> {i \<in> bf_bits bits. i < 64 * Suc k}"
      show "i \<le> 64 * k + m"
      proof (cases "i div 64 = k")
        case True
        then have "i mod 64 \<le> m" using i m(2) by (auto simp: bf_bits_iff bitset_def)
        then show ?thesis using True block_decomp(1) [of i] by linarith
      next
        case False
        have "i div 64 < Suc k" using i by (simp add: div_less_iff_less_mult)
        with False have "i div 64 < k" by simp
        then show ?thesis by (simp add: div_less_iff_less_mult)
      qed
    qed simp
    then show ?thesis
      using False m64 by (simp add: clz64_Max m_def [symmetric])
  qed
qed simp

lemma find_last_greatest [abs_simps]: "find_last n bits = greatest_or n (bf_bits bits)"
proof -
  have "{i \<in> bf_bits bits. i < 64 * length bits} = bf_bits bits"
    by (auto simp: bf_bits_iff div_less_iff_less_mult)
  then show ?thesis
    using last_nonzero_greatest [of "length bits" bits n] by (simp add: find_last_def)
qed

text \<open>The \<open>k\<close>-th smallest element of a set is the element with \<open>k\<close> smaller ones.\<close>

definition is_nth :: "nat set \<Rightarrow> nat \<Rightarrow> nat \<Rightarrow> bool" where
  "is_nth S k x = (x \<in> S \<and> card {y \<in> S. y < x} = k)"

lemma clear_lsb_nth:
  "m < card (bitset w) \<Longrightarrow> is_nth (bitset w) m (ctz64 (clear_lsb_times m w))"
proof (induction m arbitrary: w)
  case 0
  then have w: "w \<noteq> 0" by auto
  then have ne: "bitset w \<noteq> {}" by (simp add: bitset_empty_iff)
  have "{y \<in> bitset w. y < Min (bitset w)} = {}"
    using Min_le [OF finite_bitset, of _ w] by (auto simp: not_less [symmetric])
  then have "card {y \<in> bitset w. y < Min (bitset w)} = 0" by (simp only: card.empty)
  then show ?case using w ne by (simp add: is_nth_def ctz64_Min)
next
  case (Suc m)
  then have w: "w \<noteq> 0" by auto
  then have ne: "bitset w \<noteq> {}" by (simp add: bitset_empty_iff)
  define mn w' where "mn = Min (bitset w)" and "w' = w AND (w - 1)"
  have w': "bitset w' = bitset w - {mn}"
    using bitset_clear_lsb [OF w] by (simp add: w'_def mn_def)
  have mn: "mn \<in> bitset w" "\<And>y. y \<in> bitset w \<Longrightarrow> mn \<le> y"
    using ne by (simp_all add: mn_def)
  have "m < card (bitset w')" using Suc.prems mn(1) by (simp add: w')
  from Suc.IH [OF this] have x: "is_nth (bitset w') m (ctz64 (clear_lsb_times m w'))" .
  define x where "x = ctz64 (clear_lsb_times m w')"
  have xw: "x \<in> bitset w" "x \<noteq> mn" "card {y \<in> bitset w'. y < x} = m"
    using x by (auto simp: is_nth_def x_def w')
  then have "mn < x" using mn(2) [of x] by simp
  then have "{y \<in> bitset w. y < x} = insert mn {y \<in> bitset w'. y < x}"
    using mn by (auto simp: w')
  then have "card {y \<in> bitset w. y < x} = Suc m" using xw(3) by (simp add: w')
  then show ?case using xw(1) by (simp add: is_nth_def x_def w'_def)
qed

text \<open>The loop keeps in \<open>acc\<close> the number of bits in the blocks already passed.\<close>

lemma find_nth_loop_spec:
  "k0 \<le> length bits \<Longrightarrow> acc = card {i \<in> bf_bits bits. i < 64 * k0} \<Longrightarrow> acc \<le> k \<Longrightarrow>
     (if k < card (bf_bits bits)
      then is_nth (bf_bits bits) k (find_nth_loop n bits k acc [k0..<length bits])
      else find_nth_loop n bits k acc [k0..<length bits] = n)"
proof (induction "length bits - k0" arbitrary: k0 acc)
  case 0
  then have "{i \<in> bf_bits bits. i < 64 * k0} = bf_bits bits"
    by (auto simp: bf_bits_iff div_less_iff_less_mult)
  with 0 show ?case by simp
next
  case (Suc m)
  then have k0: "k0 < length bits" by simp
  then have upt: "[k0..<length bits] = k0 # [Suc k0..<length bits]" by (rule upt_conv_Cons)
  define A where "A = {i \<in> bf_bits bits. i < 64 * k0}"
  define B where "B = (\<lambda>j. 64 * k0 + j) ` bitset (bits ! k0)"
  have AB: "{i \<in> bf_bits bits. i < 64 * Suc k0} = A \<union> B"
  proof (rule set_eqI)
    fix i
    have "i \<in> B \<longleftrightarrow> i \<in> bf_bits bits \<and> i div 64 = k0"
    proof
      assume "i \<in> B"
      then obtain j where j: "i = 64 * k0 + j" "j \<in> bitset (bits ! k0)" by (auto simp: B_def)
      with bitset_bound [OF j(2)] k0 show "i \<in> bf_bits bits \<and> i div 64 = k0"
        by (simp add: block_member)
    next
      assume "i \<in> bf_bits bits \<and> i div 64 = k0"
      then show "i \<in> B"
        using block_decomp(1) [of i]
        by (auto simp: B_def bf_bits_iff bitset_def intro!: image_eqI [of _ _ "i mod 64"])
    qed
    then show "i \<in> {i \<in> bf_bits bits. i < 64 * Suc k0} \<longleftrightarrow> i \<in> A \<union> B"
      using block_decomp [of i] by (auto simp: A_def less_Suc_eq div_less_iff_less_mult)
  qed
  have disj: "A \<inter> B = {}" by (auto simp: A_def B_def)
  have fin: "finite A" "finite B" by (simp_all add: A_def B_def)
  have cB: "card B = popcount64 (bits ! k0)"
    by (simp add: B_def popcount64_card card_image inj_on_def)
  have cAB: "card {i \<in> bf_bits bits. i < 64 * Suc k0} = acc + popcount64 (bits ! k0)"
    unfolding AB using Suc.prems(2) card_Un_disjoint [OF fin disj] by (simp add: cB A_def [symmetric])
  show ?case
  proof (cases "k < acc + popcount64 (bits ! k0)")
    case True
    have "k < card (bf_bits bits)"
      using True cAB card_mono [of "bf_bits bits" "{i \<in> bf_bits bits. i < 64 * Suc k0}"] by fastforce
    define x where "x = ctz64 (clear_lsb_times (k - acc) (bits ! k0))"
    have "is_nth (bitset (bits ! k0)) (k - acc) x"
      unfolding x_def using True Suc.prems(3) by (intro clear_lsb_nth) (simp add: popcount64_card)
    then have x: "x \<in> bitset (bits ! k0)" "card {y \<in> bitset (bits ! k0). y < x} = k - acc"
      by (auto simp: is_nth_def)
    then have x64: "x < 64" using bitset_bound [OF x(1)] by simp
    have split: "{y \<in> bf_bits bits. y < 64 * k0 + x} =
        A \<union> (\<lambda>j. 64 * k0 + j) ` {y \<in> bitset (bits ! k0). y < x}"
    proof -
      have "{y \<in> bf_bits bits. y < 64 * k0 + x} = {i \<in> A \<union> B. i < 64 * k0 + x}"
        unfolding AB [symmetric] using x64 by auto
      also have "\<dots> = A \<union> (\<lambda>j. 64 * k0 + j) ` {y \<in> bitset (bits ! k0). y < x}"
        by (auto simp: A_def B_def)
      finally show ?thesis .
    qed
    have "card {y \<in> bf_bits bits. y < 64 * k0 + x} = card A + (k - acc)"
      unfolding split using x(2) disj
      by (subst card_Un_disjoint) (auto simp: fin B_def card_image inj_on_def)
    also have "\<dots> = k" using Suc.prems(2,3) by (simp add: A_def)
    finally have "is_nth (bf_bits bits) k (64 * k0 + x)"
      using x x64 k0 by (simp add: is_nth_def block_member)
    then show ?thesis
      using \<open>k < card (bf_bits bits)\<close> True by (simp add: upt Let_def x_def mult.commute)
  next
    case False
    then show ?thesis
      using Suc.hyps(1) [of "Suc k0" "acc + popcount64 (bits ! k0)"] Suc.hyps(2) k0 cAB
      by (simp add: upt Let_def)
  qed
qed

lemma find_nth_spec:
  "if k < card (bf_bits bits) then is_nth (bf_bits bits) k (find_nth n bits k)
   else find_nth n bits k = n"
  using find_nth_loop_spec [of 0 bits 0 k n] by (simp add: find_nth_def)


section \<open>Properties\<close>

text \<open>
  C17. Every operation of \<open>bitfield\<close> acts on the set of its bits as its name says, the
  unrolled four-blocks-per-round loops included, and keeps the invariant that the trailer
  beyond the requested size is zero.
\<close>

theorem bitfield_refines_set:
  assumes "bf_inv n a" "bf_inv n b" "i < n"
  shows "bf_test a i = (i \<in> bf_bits a)
    \<and> bf_inv n (bf_set a i) \<and> bf_bits (bf_set a i) = insert i (bf_bits a)
    \<and> bf_inv n (bf_clear a i) \<and> bf_bits (bf_clear a i) = bf_bits a - {i}
    \<and> bf_inv n (bf_flip a i)
    \<and> bf_bits (bf_flip a i) = (bf_bits a - {i}) \<union> ({i} - bf_bits a)
    \<and> bf_inv n (bf_setall n a) \<and> bf_bits (bf_setall n a) = {..<n}
    \<and> bf_inv n (bf_flipall n a) \<and> bf_bits (bf_flipall n a) = {..<n} - bf_bits a
    \<and> bf_inv n (bf_or a b) \<and> bf_bits (bf_or a b) = bf_bits a \<union> bf_bits b
    \<and> bf_inv n (bf_and a b) \<and> bf_bits (bf_and a b) = bf_bits a \<inter> bf_bits b
    \<and> bf_inv n (bf_xor a b)
    \<and> bf_bits (bf_xor a b) = (bf_bits a - bf_bits b) \<union> (bf_bits b - bf_bits a)
    \<and> bf_count a = card (bf_bits a)
    \<and> bf_none a = (bf_bits a = {}) \<and> bf_any a = (bf_bits a \<noteq> {})
    \<and> bf_all n a = (bf_bits a = {..<n})
    \<and> (a = b) = (bf_bits a = bf_bits b)"
  using assms bf_eq_iff [OF assms(1,2)]
  by (auto simp: abs_simps inv_intros)

theorem bitfield_refines_set_witness:
  "bf_bits (bf_flipall 70 (bf_set (bf_empty 70) 69)) = {..<70} - {69}"
proof -
  have inv: "bf_inv 70 (bf_empty 70)" by (rule bf_empty_inv)
  have s: "bf_inv 70 (bf_set (bf_empty 70) 69)" "bf_bits (bf_set (bf_empty 70) 69) = {69}"
    using bitfield_refines_set [OF inv inv, of 69] by (simp_all add: bf_empty_bits)
  then show ?thesis
    using bitfield_refines_set [OF s(1) s(1), of 0] by simp
qed

text \<open>
  \<open>set_range\<close> switches on exactly the bits of the inclusive range and nothing else,
  through all its cases (one block, a partial first block, whole blocks, a partial last
  block), for every position of the range relative to the block borders.
\<close>

theorem set_range_exact:
  assumes "bf_inv n bits" "from \<le> to" "to < n"
  shows "bf_inv n (set_range bits from to) \<and>
    bf_bits (set_range bits from to) = bf_bits bits \<union> {from..to}"
  using set_range_inv [OF assms] set_range_bits [OF assms] by blast

theorem set_range_exact_witness:
  "bf_bits (set_range (bf_empty 256) 3 200) = {3..200}"
  using set_range_exact [OF bf_empty_inv, of 3 200 256] by (simp add: bf_empty_bits)

text \<open>
  C18. The searches agree with the set: \<open>find_first\<close> and \<open>find_last\<close> give the least and the
  greatest element, \<open>find_next\<close> the least one above its argument, \<open>find_nth\<close> the element
  with exactly \<open>k\<close> smaller ones, and each gives \<open>npos\<close> (the requested size) exactly when
  there is no such element.
\<close>

theorem bitfield_search:
  assumes "bf_inv n bits"
  shows "find_first n bits = (if bf_bits bits = {} then n else Min (bf_bits bits))
    \<and> find_last n bits = (if bf_bits bits = {} then n else Max (bf_bits bits))
    \<and> find_next n bits lst = (if {i \<in> bf_bits bits. lst < i} = {} then n
         else Min {i \<in> bf_bits bits. lst < i})
    \<and> (if k < card (bf_bits bits)
       then find_nth n bits k \<in> bf_bits bits \<and> card {y \<in> bf_bits bits. y < find_nth n bits k} = k
       else find_nth n bits k = n)"
  using find_nth_spec [of k bits n, unfolded is_nth_def]
  unfolding find_first_least find_last_greatest find_next_least [OF assms]
    least_or_def greatest_or_def by blast

theorem bitfield_search_witness:
  "find_next 128 (bf_set (bf_set (bf_empty 128) 3) 127) 3 = 127"
proof -
  have i3: "bf_inv 128 (bf_set (bf_empty 128) 3)" by (simp add: inv_intros)
  have inv: "bf_inv 128 (bf_set (bf_set (bf_empty 128) 3) 127)" using i3 by (simp add: inv_intros)
  have bits: "bf_bits (bf_set (bf_set (bf_empty 128) 3) 127) = {3, 127}"
    using bf_set_bits [OF i3, of 127] bf_set_bits [OF bf_empty_inv, of 3 128]
    by (auto simp: bf_empty_bits)
  have "{i \<in> {3, 127 :: nat}. 3 < i} = {127}" by auto
  then show ?thesis
    using bitfield_search [OF inv, of 3 0] unfolding bits by simp
qed

end
