(* ===== verification/BitIter.thy ===== *)
theory BitIter
  imports Bitfield
begin

text \<open>
  The loop idiom \<open>for (i = s.find_first(); i != s.npos; i = s.find_next(i))\<close>, used all over
  the code on bit fields, character classes and multibits, and the interface a bit container owes such
  a loop: \<open>find_first\<close> and \<open>find_next\<close> return the least element (above a given element) or
  \<open>npos\<close>.  Under that contract the loop visits the elements in increasing order, each once.
\<close>

section \<open>The loop\<close>

text \<open>
  The indices visited, starting at \<open>i\<close>.  The fuel bounds the number of rounds; \<open>npos\<close>
  rounds are enough, since every element is below \<open>npos\<close>.
\<close>

fun iterate_from :: "('s \<Rightarrow> nat \<Rightarrow> nat) \<Rightarrow> nat \<Rightarrow> 's \<Rightarrow> nat \<Rightarrow> nat \<Rightarrow> nat list" where
  "iterate_from nxt npos s 0 i = []"
| "iterate_from nxt npos s (Suc fuel) i =
     (if i \<noteq> npos then i # iterate_from nxt npos s fuel (nxt s i) else [])"

section \<open>The interface\<close>

locale bit_iteration =
  fixes first :: "'s \<Rightarrow> nat"
    and nxt :: "'s \<Rightarrow> nat \<Rightarrow> nat"
    and npos :: nat
    and elems :: "'s \<Rightarrow> nat set"
    and invar :: "'s \<Rightarrow> bool"
  assumes first_least: "invar s \<Longrightarrow> first s = least_or npos (elems s)"
    and next_least: "invar s \<Longrightarrow> i \<in> elems s \<Longrightarrow> nxt s i = least_or npos {j \<in> elems s. i < j}"
    and elems_below: "invar s \<Longrightarrow> elems s \<subseteq> {..<npos}"
begin

lemma finite_elems: "invar s \<Longrightarrow> finite (elems s)"
  using elems_below finite_subset by blast

lemma iterate_from_sorted:
  assumes "invar s"
  shows "card {j \<in> elems s. lo \<le> j} \<le> fuel \<Longrightarrow>
    iterate_from nxt npos s fuel (least_or npos {j \<in> elems s. lo \<le> j})
      = sorted_list_of_set {j \<in> elems s. lo \<le> j}"
proof (induction fuel arbitrary: lo)
  case 0
  then have "{j \<in> elems s. lo \<le> j} = {}" using finite_elems [OF assms] by simp
  then show ?case by (simp only: iterate_from.simps sorted_list_of_set_empty)
next
  case (Suc fuel)
  define T where "T = {j \<in> elems s. lo \<le> j}"
  have fin: "finite T" using finite_elems [OF assms] by (simp add: T_def)
  show ?case
  proof (cases "T = {}")
    case True
    then show ?thesis unfolding T_def [symmetric] by simp
  next
    case False
    define m where "m = Min T"
    have m: "m \<in> T" "\<And>j. j \<in> T \<Longrightarrow> m \<le> j" using False fin by (simp_all add: m_def)
    have "m < npos" using m(1) elems_below [OF assms] by (auto simp: T_def)
    have "m \<in> elems s" using m(1) by (simp add: T_def)
    have rest: "{j \<in> elems s. m + 1 \<le> j} = T - {m}"
      using m by (force simp: T_def)
    have "card (T - {m}) \<le> fuel" using Suc.prems m(1) fin by (simp add: T_def [symmetric])
    then have "iterate_from nxt npos s fuel (nxt s m) = sorted_list_of_set (T - {m})"
      using Suc.IH [of "m + 1"] next_least [OF assms \<open>m \<in> elems s\<close>] rest
      by (simp add: Suc_le_eq)
    then show ?thesis
      using False fin \<open>m < npos\<close>
      by (simp add: T_def [symmetric] least_or_def m_def [symmetric]
          sorted_list_of_set_nonempty [OF fin False, folded m_def])
  qed
qed

text \<open>The whole loop, with its fuel, visits exactly the elements in increasing order.\<close>

lemma iterate_sorted:
  assumes "invar s"
  shows "iterate_from nxt npos s npos (first s) = sorted_list_of_set (elems s)"
proof -
  have "card (elems s) \<le> npos"
    using card_mono [OF finite_lessThan elems_below [OF assms]] by simp
  then show ?thesis
    using iterate_from_sorted [OF assms, of 0 npos] first_least [OF assms] by simp
qed

lemma iterate_set:
  "invar s \<Longrightarrow> set (iterate_from nxt npos s npos (first s)) = elems s"
  by (simp add: iterate_sorted finite_elems)

end

text \<open>A bit field with the invariant honours the contract.\<close>

interpretation bf: bit_iteration "find_first n" "find_next n" n bf_bits "bf_inv n" for n
  by unfold_locales (simp_all add: find_first_least find_next_least bf_inv_def)

definition bf_indices :: "nat \<Rightarrow> bitfield \<Rightarrow> nat list" where
  "bf_indices n bits = iterate_from (find_next n) n bits n (find_first n bits)"

lemma bf_indices_sorted: "bf_inv n bits \<Longrightarrow> bf_indices n bits = sorted_list_of_set (bf_bits bits)"
  unfolding bf_indices_def by (rule bf.iterate_sorted)

lemma set_bf_indices: "bf_inv n bits \<Longrightarrow> set (bf_indices n bits) = bf_bits bits"
  by (simp add: bf_indices_sorted)

end
