(* ===== verification/CharReach.thy ===== *)
theory CharReach
  imports BitIter
begin

text \<open>
  Character classes: the class \<open>CharReach\<close> of \<open>src/util/charreach.h\<close> and
  \<open>src/util/charreach.cpp\<close>, a bit field of size 256, with the case helpers of
  \<open>src/util/compare.h\<close>.  Bytes are \<open>u8\<close>; the loops over a class go through its indices in
  increasing order by the iteration contract of \<open>BitIter\<close>.
\<close>

section \<open>ASCII case (\<open>util/compare.h\<close>)\<close>

definition myisupper :: "u8 \<Rightarrow> bool" where
  "myisupper c = (c \<ge> 0x41 \<and> c \<le> 0x5A)"

definition myislower :: "u8 \<Rightarrow> bool" where
  "myislower c = (c \<ge> 0x61 \<and> c \<le> 0x7A)"

definition mytolower :: "u8 \<Rightarrow> u8" where
  "mytolower c = (if myisupper c then c + 0x20 else c)"

definition mytoupper :: "u8 \<Rightarrow> u8" where
  "mytoupper c = (if myislower c then c - 0x20 else c)"

definition ourisalpha :: "u8 \<Rightarrow> bool" where
  "ourisalpha c = (mytolower c \<noteq> mytoupper c)"

section \<open>The class\<close>

type_synonym CharReach = bitfield

definition cr_npos :: nat where
  "cr_npos = 256"

definition cr_empty :: CharReach where
  "cr_empty = bf_empty cr_npos"

definition cr_set :: "CharReach \<Rightarrow> u8 \<Rightarrow> CharReach" where
  "cr_set cr c = bf_set cr (unat c)"

definition cr_clear :: "CharReach \<Rightarrow> u8 \<Rightarrow> CharReach" where
  "cr_clear cr c = bf_clear cr (unat c)"

definition cr_test :: "CharReach \<Rightarrow> u8 \<Rightarrow> bool" where
  "cr_test cr c = bf_test cr (unat c)"

definition cr_flip :: "CharReach \<Rightarrow> CharReach" where
  "cr_flip cr = bf_flipall cr_npos cr"

definition cr_setRange :: "CharReach \<Rightarrow> u8 \<Rightarrow> u8 \<Rightarrow> CharReach" where
  "cr_setRange cr from to = set_range cr (unat from) (unat to)"

definition cr_char :: "u8 \<Rightarrow> CharReach" where
  "cr_char c = cr_set cr_empty c"

definition cr_range :: "u8 \<Rightarrow> u8 \<Rightarrow> CharReach" where
  "cr_range from to = cr_setRange cr_empty from to"

definition cr_dot :: CharReach where
  "cr_dot = cr_range 0 255"

definition cr_set_string :: "CharReach \<Rightarrow> u8 list \<Rightarrow> CharReach" where
  "cr_set_string cr s = foldl cr_set cr s"

definition cr_count :: "CharReach \<Rightarrow> nat" where
  "cr_count cr = bf_count cr"

definition cr_none :: "CharReach \<Rightarrow> bool" where
  "cr_none cr = bf_none cr"

definition cr_any :: "CharReach \<Rightarrow> bool" where
  "cr_any cr = bf_any cr"

definition cr_all :: "CharReach \<Rightarrow> bool" where
  "cr_all cr = bf_all cr_npos cr"

definition cr_find_first :: "CharReach \<Rightarrow> nat" where
  "cr_find_first cr = find_first cr_npos cr"

definition cr_find_next :: "CharReach \<Rightarrow> nat \<Rightarrow> nat" where
  "cr_find_next cr lst = find_next cr_npos cr lst"

definition cr_or :: "CharReach \<Rightarrow> CharReach \<Rightarrow> CharReach" where
  "cr_or this a = bf_or_eq this a"

definition cr_and :: "CharReach \<Rightarrow> CharReach \<Rightarrow> CharReach" where
  "cr_and this a = bf_and_eq this a"

definition cr_xor :: "CharReach \<Rightarrow> CharReach \<Rightarrow> CharReach" where
  "cr_xor this a = bf_xor_eq this a"

definition cr_not :: "CharReach \<Rightarrow> CharReach" where
  "cr_not this = cr_flip this"

text \<open>The indices a loop over the class visits.\<close>

definition cr_indices :: "CharReach \<Rightarrow> nat list" where
  "cr_indices cr = iterate_from cr_find_next cr_npos cr cr_npos (cr_find_first cr)"

definition isAlpha :: "CharReach \<Rightarrow> bool" where
  "isAlpha cr =
     (if cr_none cr then False else list_all (\<lambda>i. ourisalpha (of_nat i)) (cr_indices cr))"

definition isCaselessChar :: "CharReach \<Rightarrow> bool" where
  "isCaselessChar cr =
     (if cr_count cr \<noteq> 2 then False
      else let fst = cr_find_first cr; snd = cr_find_next cr fst
           in (of_nat fst :: u8) = mytoupper (of_nat snd))"

definition isBit5Insensitive :: "CharReach \<Rightarrow> bool" where
  "isBit5Insensitive cr = list_all (\<lambda>i. cr_test cr (of_nat i XOR 0x20)) (cr_indices cr)"

definition cr_to_string :: "CharReach \<Rightarrow> u8 list" where
  "cr_to_string cr = map of_nat (cr_indices cr)"

definition overlaps :: "CharReach \<Rightarrow> CharReach \<Rightarrow> bool" where
  "overlaps a b = cr_any (cr_and a b)"

definition isSubsetOf :: "CharReach \<Rightarrow> CharReach \<Rightarrow> bool" where
  "isSubsetOf this other = (bf_and this other = this)"

definition caseless_step :: "CharReach \<Rightarrow> u8 \<Rightarrow> CharReach" where
  "caseless_step cr c =
     (if cr_test cr c \<or> cr_test cr (mytolower c) then cr_set (cr_set cr c) (mytolower c) else cr)"

definition make_caseless :: "CharReach \<Rightarrow> CharReach" where
  "make_caseless cr = foldl caseless_step cr (map of_nat [0x41..<0x5B])"

definition UTF_CONT_MAX :: u8 where
  "UTF_CONT_MAX = 0xC0 - 1"

definition isutf8ascii :: "CharReach \<Rightarrow> bool" where
  "isutf8ascii cr = cr_none (cr_and cr (cr_not (cr_range 0 0x7f)))"

definition isutf8start :: "CharReach \<Rightarrow> bool" where
  "isutf8start cr = cr_none (cr_and cr (cr_range 0 UTF_CONT_MAX))"

definition fill_byte :: "u8 list \<Rightarrow> nat \<Rightarrow> u8 list" where
  "fill_byte bits i = bits[i div 8 := bits ! (i div 8) OR push_bit (i mod 8) 1]"

definition fill_bitvector :: "CharReach \<Rightarrow> u8 list" where
  "fill_bitvector cr = foldl fill_byte (replicate 32 0) (cr_indices cr)"

definition make_and_cmp_mask :: "CharReach \<Rightarrow> u8 \<times> u8" where
  "make_and_cmp_mask cr =
     (let (lo, hi) = foldl (\<lambda>(lo, hi) c. (lo AND of_nat c, hi OR of_nat c)) (0xff, 0) (cr_indices cr)
      in (NOT (lo XOR hi), lo))"


section \<open>The characters of a class\<close>

definition cr_inv :: "CharReach \<Rightarrow> bool" where
  "cr_inv cr = bf_inv cr_npos cr"

definition chars :: "CharReach \<Rightarrow> u8 set" where
  "chars cr = {c. unat c \<in> bf_bits cr}"

lemma unat_u8_npos [simp]: "unat (c :: u8) < cr_npos"
  using unsigned_less [of c] by (simp add: cr_npos_def)

lemma u8_le_255 [simp]: "(c :: u8) \<le> 255"
  using unat_u8_npos [of c] by (simp add: word_le_nat_alt cr_npos_def)

lemma unat_of_nat_u8: "i < 256 \<Longrightarrow> unat (of_nat i :: u8) = i"
  by (simp add: unat_of_nat)

lemma cr_bits_below: "cr_inv cr \<Longrightarrow> i \<in> bf_bits cr \<Longrightarrow> i < 256"
  using bf_inv_below by (simp add: cr_inv_def cr_npos_def)

lemma cr_bits_chars:
  assumes "cr_inv cr"
  shows "bf_bits cr = unat ` chars cr"
proof
  show "bf_bits cr \<subseteq> unat ` chars cr"
  proof
    fix i assume i: "i \<in> bf_bits cr"
    then have "unat (of_nat i :: u8) = i" using assms by (simp add: unat_of_nat_u8 cr_bits_below)
    with i show "i \<in> unat ` chars cr" unfolding chars_def by (metis imageI mem_Collect_eq)
  qed
qed (auto simp: chars_def)

lemma of_nat_in_chars: "cr_inv cr \<Longrightarrow> i \<in> bf_bits cr \<Longrightarrow> (of_nat i :: u8) \<in> chars cr"
  by (simp add: chars_def unat_of_nat_u8 cr_bits_below)

lemma chars_eq_iff: "cr_inv a \<Longrightarrow> cr_inv b \<Longrightarrow> a = b \<longleftrightarrow> chars a = chars b"
  using bf_eq_iff [of cr_npos a b] by (auto simp: cr_inv_def [symmetric] cr_bits_chars)

lemma chars_simps [abs_simps]:
  "chars cr_empty = {}"
  "cr_inv cr \<Longrightarrow> chars (cr_set cr c) = insert c (chars cr)"
  "cr_inv cr \<Longrightarrow> chars (cr_clear cr c) = chars cr - {c}"
  "cr_inv cr \<Longrightarrow> cr_test cr c \<longleftrightarrow> c \<in> chars cr"
  "cr_inv cr \<Longrightarrow> chars (cr_flip cr) = - chars cr"
  "cr_inv cr \<Longrightarrow> from \<le> to \<Longrightarrow> chars (cr_setRange cr from to) = chars cr \<union> {from..to}"
  "cr_inv a \<Longrightarrow> cr_inv b \<Longrightarrow> chars (cr_or a b) = chars a \<union> chars b"
  "cr_inv a \<Longrightarrow> cr_inv b \<Longrightarrow> chars (cr_and a b) = chars a \<inter> chars b"
  "cr_inv a \<Longrightarrow> chars (cr_not a) = - chars a"
  by (auto simp: chars_def cr_inv_def cr_empty_def cr_set_def cr_clear_def cr_test_def cr_flip_def
      cr_setRange_def cr_or_def cr_and_def cr_not_def abs_simps word_le_nat_alt word_unat_eq_iff)

lemma cr_inv_intros [inv_intros]:
  "cr_inv cr_empty"
  "cr_inv cr \<Longrightarrow> cr_inv (cr_set cr c)"
  "cr_inv cr \<Longrightarrow> cr_inv (cr_clear cr c)"
  "cr_inv cr \<Longrightarrow> cr_inv (cr_flip cr)"
  "cr_inv cr \<Longrightarrow> from \<le> to \<Longrightarrow> cr_inv (cr_setRange cr from to)"
  "cr_inv a \<Longrightarrow> cr_inv b \<Longrightarrow> cr_inv (cr_or a b)"
  "cr_inv a \<Longrightarrow> cr_inv b \<Longrightarrow> cr_inv (cr_and a b)"
  "cr_inv a \<Longrightarrow> cr_inv (cr_not a)"
  by (auto simp: cr_inv_def cr_empty_def cr_set_def cr_clear_def cr_flip_def word_le_nat_alt
      cr_setRange_def cr_or_def cr_and_def cr_not_def inv_intros)

lemma cr_range_simps [abs_simps]:
  "from \<le> to \<Longrightarrow> chars (cr_range from to) = {from..to}"
  "chars (cr_char c) = {c}"
  "chars cr_dot = UNIV"
  by (auto simp: cr_range_def cr_char_def cr_dot_def abs_simps inv_intros)

lemma cr_range_inv [inv_intros]:
  "from \<le> to \<Longrightarrow> cr_inv (cr_range from to)" "cr_inv (cr_char c)" "cr_inv cr_dot"
  by (auto simp: cr_range_def cr_char_def cr_dot_def inv_intros)

lemma cr_none_iff [abs_simps]: "cr_inv cr \<Longrightarrow> cr_none cr \<longleftrightarrow> chars cr = {}"
  by (simp add: cr_none_def bf_none_iff cr_bits_chars)

lemma cr_any_iff [abs_simps]: "cr_inv cr \<Longrightarrow> cr_any cr \<longleftrightarrow> chars cr \<noteq> {}"
  by (simp add: cr_any_def bf_any_iff cr_bits_chars)

lemma cr_count_card [abs_simps]: "cr_inv cr \<Longrightarrow> cr_count cr = card (chars cr)"
  by (simp add: cr_count_def bf_count_card cr_bits_chars card_image inj_on_def word_unat_eq_iff)

lemma cr_set_string_chars [abs_simps]:
  "cr_inv cr \<Longrightarrow> cr_inv (cr_set_string cr s) \<and> chars (cr_set_string cr s) = chars cr \<union> set s"
  unfolding cr_set_string_def by (induction s arbitrary: cr) (auto simp: abs_simps inv_intros)

section \<open>Loops over a class\<close>

interpretation cr: bit_iteration cr_find_first cr_find_next cr_npos bf_bits cr_inv
  by unfold_locales
    (simp_all add: cr_find_first_def cr_find_next_def cr_inv_def bf.first_least bf.next_least
      bf.elems_below)

lemma cr_indices_sorted: "cr_inv cr \<Longrightarrow> cr_indices cr = sorted_list_of_set (bf_bits cr)"
  unfolding cr_indices_def by (rule cr.iterate_sorted)

lemma set_cr_indices: "cr_inv cr \<Longrightarrow> set (cr_indices cr) = unat ` chars cr"
  by (simp add: cr_indices_sorted cr_bits_chars)

lemma cr_to_string_set: "cr_inv cr \<Longrightarrow> set (cr_to_string cr) = chars cr"
  by (auto simp: cr_to_string_def set_cr_indices image_image)

lemma cr_to_string_sorted: "cr_inv cr \<Longrightarrow> sorted (cr_to_string cr) \<and> distinct (cr_to_string cr)"
proof -
  assume cr: "cr_inv cr"
  have u: "unat (of_nat i :: u8) = i" if "i \<in> set (cr_indices cr)" for i
    using that cr by (auto simp: set_cr_indices)
  have "map unat (cr_to_string cr) = cr_indices cr"
    using u by (simp add: cr_to_string_def map_idI)
  moreover have "sorted (cr_indices cr)" "distinct (cr_indices cr)"
    using cr by (simp_all add: cr_indices_sorted)
  ultimately have "sorted (map unat (cr_to_string cr))" "distinct (map unat (cr_to_string cr))"
    by simp_all
  then have "sorted_wrt (\<lambda>x y. unat x \<le> unat y) (cr_to_string cr)" "distinct (cr_to_string cr)"
    by (simp_all add: sorted_map distinct_map)
  then show ?thesis
    using sorted_wrt_mono_rel [of "cr_to_string cr" "\<lambda>x y. unat x \<le> unat y" "(\<le>)"]
    by (simp add: word_le_nat_alt)
qed

lemma list_all_indices:
  "cr_inv cr \<Longrightarrow> list_all (\<lambda>i. P (of_nat i :: u8)) (cr_indices cr) \<longleftrightarrow> (\<forall>c \<in> chars cr. P c)"
  by (auto simp: list_all_iff set_cr_indices)


section \<open>What the predicates and transformations compute\<close>

lemma isSubsetOf_iff: "cr_inv a \<Longrightarrow> cr_inv b \<Longrightarrow> isSubsetOf a b \<longleftrightarrow> chars a \<subseteq> chars b"
proof -
  assume ab: "cr_inv a" "cr_inv b"
  then have i: "cr_inv (bf_and a b)" and c: "chars (bf_and a b) = chars a \<inter> chars b"
    by (auto simp: cr_inv_def inv_intros chars_def bf_binop_bits [of cr_npos])
  show ?thesis
    unfolding isSubsetOf_def chars_eq_iff [OF i ab(1)] c by auto
qed

lemma overlaps_iff: "cr_inv a \<Longrightarrow> cr_inv b \<Longrightarrow> overlaps a b \<longleftrightarrow> chars a \<inter> chars b \<noteq> {}"
  by (simp add: overlaps_def abs_simps inv_intros)

lemmas case_defs = myisupper_def myislower_def mytolower_def mytoupper_def

lemma ourisalpha_iff: "ourisalpha c \<longleftrightarrow> myisupper c \<or> myislower c"
  by (auto simp: ourisalpha_def case_defs)

lemma isAlpha_iff:
  "cr_inv cr \<Longrightarrow> isAlpha cr \<longleftrightarrow> chars cr \<noteq> {} \<and> (\<forall>c \<in> chars cr. myisupper c \<or> myislower c)"
  using list_all_indices [of cr "\<lambda>c. myisupper c \<or> myislower c"]
  by (simp add: isAlpha_def cr_none_iff ourisalpha_iff)

lemma isBit5Insensitive_iff:
  "cr_inv cr \<Longrightarrow> isBit5Insensitive cr \<longleftrightarrow> (\<forall>c \<in> chars cr. c XOR 0x20 \<in> chars cr)"
  using list_all_indices [of cr "\<lambda>c. c XOR 0x20 \<in> chars cr"]
  by (simp add: isBit5Insensitive_def chars_simps)

lemma u8_ranges: "(c :: u8) \<le> 0x7F \<longleftrightarrow> c < 0x80" "(c :: u8) \<le> 0xBF \<longleftrightarrow> c < 0xC0"
  by unat_arith+

lemma isutf8ascii_iff: "cr_inv cr \<Longrightarrow> isutf8ascii cr \<longleftrightarrow> (\<forall>c \<in> chars cr. c < 0x80)"
  by (auto simp: isutf8ascii_def abs_simps inv_intros u8_ranges)

lemma isutf8start_iff: "cr_inv cr \<Longrightarrow> isutf8start cr \<longleftrightarrow> (\<forall>c \<in> chars cr. 0xC0 \<le> c)"
  by (auto simp: isutf8start_def UTF_CONT_MAX_def abs_simps inv_intros u8_ranges)

lemma upper_below_lower: "myisupper u \<Longrightarrow> u < u + 0x20"
  unfolding myisupper_def by unat_arith auto

lemma lower_shift: "myislower (u + 0x20) \<longleftrightarrow> myisupper u"
  unfolding case_defs by unat_arith auto

lemma upper_of_lower:
  "(u::u8) < c \<and> u = mytoupper c \<longleftrightarrow> myisupper u \<and> c = u + 0x20"
proof (cases "c = u + 0x20")
  case True
  note lower_shift [of u]
  moreover have "myisupper u \<Longrightarrow> u < u + 0x20"
    by (rule upper_below_lower)
  ultimately show ?thesis using True by (auto simp: mytoupper_def)
next
  case False
  then have "u \<noteq> c - 0x20" by auto
  with False show ?thesis by (auto simp: mytoupper_def)
qed

lemma two_elems:
  assumes "cr_inv cr" "card (chars cr) = 2"
  shows "\<exists>a b. chars cr = {a, b} \<and> a < b \<and>
    of_nat (cr_find_first cr) = a \<and> of_nat (cr_find_next cr (cr_find_first cr)) = b"
proof -
  obtain x y where "chars cr = {x, y}" "x \<noteq> y" using assms(2) by (auto simp: card_2_iff)
  then obtain a b where ab: "chars cr = {a, b}" "a < b"
    by (metis insert_commute linorder_neqE)
  then have lt: "unat a < unat b" by (simp add: word_less_nat_alt)
  have bits: "bf_bits cr = {unat a, unat b}" using assms(1) ab by (simp add: cr_bits_chars)
  have f: "cr_find_first cr = unat a"
    using cr.first_least [OF assms(1)] lt bits by (simp add: least_or_def)
  have "{j \<in> bf_bits cr. unat a < j} = {unat b}" using lt bits by auto
  then have "cr_find_next cr (unat a) = unat b"
    using cr.next_least [OF assms(1), of "unat a"] bits by (simp only: least_or_def) simp
  with f ab show ?thesis by auto
qed

lemma isCaselessChar_iff:
  assumes "cr_inv cr"
  shows "isCaselessChar cr \<longleftrightarrow> (\<exists>u. myisupper u \<and> chars cr = {u, u + 0x20})"
proof (cases "card (chars cr) = 2")
  case True
  from two_elems [OF assms this] obtain a b where ab: "chars cr = {a, b}" "a < b"
    "of_nat (cr_find_first cr) = a" "of_nat (cr_find_next cr (cr_find_first cr)) = b" by blast
  have "isCaselessChar cr \<longleftrightarrow> a = mytoupper b"
    using True ab assms by (simp add: isCaselessChar_def Let_def cr_count_card)
  also have "\<dots> \<longleftrightarrow> myisupper a \<and> b = a + 0x20"
    using upper_of_lower [of a b] ab(2) by blast
  also have "\<dots> \<longleftrightarrow> (\<exists>u. myisupper u \<and> chars cr = {u, u + 0x20})"
  proof
    assume "\<exists>u. myisupper u \<and> chars cr = {u, u + 0x20}"
    then obtain u where u: "myisupper u" "{a, b} = {u, u + 0x20}" using ab(1) by auto
    have "u < u + 0x20" using u(1) by (rule upper_below_lower)
    with u ab(2) show "myisupper a \<and> b = a + 0x20" by (auto simp: doubleton_eq_iff)
  qed (use ab in auto)
  finally show ?thesis .
next
  case False
  have "card {u, u + 0x20} = 2" for u :: u8 by (simp add: card_insert_if)
  with False assms show ?thesis by (auto simp: isCaselessChar_def cr_count_card)
qed


text \<open>\<open>make_caseless\<close> closes the class under ASCII case.\<close>

definition case_pair :: "u8 \<Rightarrow> u8 set" where
  "case_pair c = (if myisupper c then {c, c + 0x20} else if myislower c then {c - 0x20, c} else {c})"

lemma upper_list: "set (map of_nat [0x41..<0x5B] :: u8 list) = {c. myisupper c}"
proof -
  have "c \<in> of_nat ` {0x41..<0x5B}" if "myisupper c" for c :: u8
  proof (rule image_eqI [of _ _ "unat c"])
    show "unat c \<in> {0x41..<0x5B}"
      using that by (auto simp: myisupper_def word_le_nat_alt)
  qed simp
  moreover have "myisupper (of_nat i)" if "i \<in> {0x41..<0x5B}" for i
    using that by (auto simp: myisupper_def word_le_nat_alt unat_of_nat)
  ultimately show ?thesis unfolding set_map set_upt by blast
qed

lemma caseless_step_chars:
  "cr_inv cr \<Longrightarrow> myisupper c \<Longrightarrow> cr_inv (caseless_step cr c) \<and>
     chars (caseless_step cr c) =
       chars cr \<union> (if chars cr \<inter> {c, c + 0x20} = {} then {} else {c, c + 0x20})"
  by (auto simp: caseless_step_def mytolower_def abs_simps inv_intros)

lemma upper_pairs_disjoint:
  "myisupper c \<Longrightarrow> myisupper d \<Longrightarrow> c \<noteq> d \<Longrightarrow> {c, c + 0x20} \<inter> {d, d + 0x20} = {}"
proof -
  assume cd: "myisupper c" "myisupper d" "c \<noteq> d"
  have "\<not> myisupper (e + 0x20)" if "myisupper e" for e
    using that unfolding myisupper_def by unat_arith
  with cd show ?thesis by auto
qed

lemma caseless_fold:
  "cr_inv cr \<Longrightarrow> distinct cs \<Longrightarrow> (\<forall>c \<in> set cs. myisupper c) \<Longrightarrow>
     cr_inv (foldl caseless_step cr cs) \<and>
     chars (foldl caseless_step cr cs) =
       chars cr \<union> \<Union> {{c, c + 0x20} | c. c \<in> set cs \<and> chars cr \<inter> {c, c + 0x20} \<noteq> {}}"
proof (induction cs arbitrary: cr)
  case (Cons c cs)
  define cr' where "cr' = caseless_step cr c"
  have step: "cr_inv cr'"
    "chars cr' = chars cr \<union> (if chars cr \<inter> {c, c + 0x20} = {} then {} else {c, c + 0x20})"
    using caseless_step_chars [of cr c] Cons.prems by (auto simp: cr'_def)
  have same: "chars cr' \<inter> {d, d + 0x20} = chars cr \<inter> {d, d + 0x20}" if "d \<in> set cs" for d
    using upper_pairs_disjoint [of c d] Cons.prems that step(2) by auto
  have "{{d, d + 0x20} | d. d \<in> set cs \<and> chars cr' \<inter> {d, d + 0x20} \<noteq> {}} =
      {{d, d + 0x20} | d. d \<in> set cs \<and> chars cr \<inter> {d, d + 0x20} \<noteq> {}}"
    using same by blast
  moreover have "{{d, d + 0x20} | d. d \<in> set (c # cs) \<and> chars cr \<inter> {d, d + 0x20} \<noteq> {}} =
      (if chars cr \<inter> {c, c + 0x20} = {} then {} else {{c, c + 0x20}}) \<union>
      {{d, d + 0x20} | d. d \<in> set cs \<and> chars cr \<inter> {d, d + 0x20} \<noteq> {}}"
    by auto
  ultimately show ?case
    using Cons.IH [OF step(1)] Cons.prems step(2) by (simp add: cr'_def [symmetric] Un_assoc)
qed simp

lemma lower_is_upper_plus: "myislower c \<longleftrightarrow> (\<exists>u. myisupper u \<and> c = u + 0x20)"
proof
  assume "myislower c"
  then have "myisupper (c - 0x20) \<and> c = (c - 0x20) + 0x20"
    unfolding case_defs by unat_arith
  then show "\<exists>u. myisupper u \<and> c = u + 0x20" by blast
next
  assume "\<exists>u. myisupper u \<and> c = u + 0x20"
  then show "myislower c" by (auto simp: lower_shift)
qed

lemma make_caseless_chars:
  assumes "cr_inv cr"
  shows "cr_inv (make_caseless cr) \<and> chars (make_caseless cr) = \<Union> (case_pair ` chars cr)"
proof -
  define cs where "cs = (map of_nat [0x41..<0x5B] :: u8 list)"
  have d: "distinct cs"
  proof -
    have "inj_on (of_nat :: nat \<Rightarrow> u8) {0x41..<0x5B}"
      by (rule inj_on_inverseI [of _ unat]) (simp add: unat_of_nat)
    then show ?thesis unfolding cs_def distinct_map set_upt by (simp only: distinct_upt)
  qed
  have u: "set cs = {c. myisupper c}" unfolding cs_def by (rule upper_list)
  have m: "make_caseless cr = foldl caseless_step cr cs"
    unfolding make_caseless_def cs_def by (rule refl)
  have "chars cr \<union> \<Union> {{c, c + 0x20} | c. myisupper c \<and> chars cr \<inter> {c, c + 0x20} \<noteq> {}}
      = \<Union> (case_pair ` chars cr)" (is "?L = ?R")
  proof
    show "?L \<subseteq> ?R"
    proof
      fix x assume "x \<in> ?L"
      then consider "x \<in> chars cr"
        | c where "myisupper c" "x \<in> {c, c + 0x20}" "chars cr \<inter> {c, c + 0x20} \<noteq> {}" by blast
      then show "x \<in> ?R"
      proof cases
        case 1
        then show ?thesis by (auto simp: case_pair_def intro!: bexI [of _ x])
      next
        case 2
        then have "case_pair c = {c, c + 0x20}" "case_pair (c + 0x20) = {c, c + 0x20}"
          using upper_pairs_disjoint [of c "c + 0x20"] lower_is_upper_plus [of "c + 0x20"]
          by (auto simp: case_pair_def)
        with 2 show ?thesis by auto
      qed
    qed
    show "?R \<subseteq> ?L"
    proof
      fix x assume "x \<in> ?R"
      then obtain c where c: "c \<in> chars cr" "x \<in> case_pair c" by blast
      show "x \<in> ?L"
      proof (cases "x = c")
        case False
        then consider "myisupper c" "x = c + 0x20" | "myislower c" "x = c - 0x20"
          using c(2) by (auto simp: case_pair_def split: if_splits)
        then show ?thesis
        proof cases
          case 1
          with c show ?thesis by blast
        next
          case 2
          then obtain v where "myisupper v" "c = v + 0x20" using lower_is_upper_plus by blast
          with c 2 show ?thesis by auto
        qed
      qed (use c in simp)
    qed
  qed
  then show ?thesis
    using caseless_fold [OF assms d] u by (simp add: m)
qed


text \<open>The 256-bit vector as 32 bytes.\<close>

lemma inj_unat_u8: "inj (unat :: u8 \<Rightarrow> nat)"
  by (simp add: inj_on_def word_unat_eq_iff)

lemma fill_byte_bit:
  assumes "length bits = 32" "i < 256" "c < 256"
  shows "bit (fill_byte bits i ! (c div 8)) (c mod 8) \<longleftrightarrow> bit (bits ! (c div 8)) (c mod 8) \<or> c = i"
proof -
  have "i div 8 < 32" using assms(2) by (simp add: div_less_iff_less_mult)
  moreover have "c = i \<longleftrightarrow> c div 8 = i div 8 \<and> c mod 8 = i mod 8"
    by (metis div_mult_mod_eq)
  ultimately show ?thesis
    using assms(1) by (cases "c div 8 = i div 8") (auto simp: fill_byte_def bit_simps)
qed

lemma fill_fold:
  "length bits = 32 \<Longrightarrow> (\<forall>i \<in> set is. i < 256) \<Longrightarrow>
     length (foldl fill_byte bits is) = 32 \<and>
     (\<forall>c < 256. bit (foldl fill_byte bits is ! (c div 8)) (c mod 8) \<longleftrightarrow>
        bit (bits ! (c div 8)) (c mod 8) \<or> c \<in> set is)"
proof (induction "is" arbitrary: bits)
  case (Cons i "is")
  have "length (fill_byte bits i) = 32" using Cons.prems by (simp add: fill_byte_def)
  from Cons.IH [OF this] Cons.prems fill_byte_bit [of bits i] show ?case by auto
qed simp

lemma fill_bitvector_bits:
  assumes "cr_inv cr"
  shows "length (fill_bitvector cr) = 32 \<and>
    (\<forall>c. bit (fill_bitvector cr ! (unat c div 8)) (unat c mod 8) \<longleftrightarrow> c \<in> chars cr)"
proof -
  have ind: "set (cr_indices cr) = unat ` chars cr" using assms by (rule set_cr_indices)
  have small: "\<forall>i \<in> set (cr_indices cr). i < 256" using ind by (auto simp: cr_npos_def [symmetric])
  have u: "unat c < 256" for c :: u8 using unat_u8_npos [of c] by (simp add: cr_npos_def)
  have "unat c \<in> set (cr_indices cr) \<longleftrightarrow> c \<in> chars cr" for c
    using ind inj_image_mem_iff [OF inj_unat_u8, of c "chars cr"] by simp
  moreover have "replicate 32 (0::u8) ! (unat c div 8) = 0" for c :: u8
    using u [of c] by (simp add: div_less_iff_less_mult)
  ultimately show ?thesis
    using fill_fold [of "replicate 32 0" "cr_indices cr"] small u
    by (simp add: fill_bitvector_def Let_def)
qed

text \<open>The and-mask holds the bit positions on which all members agree.\<close>

lemma lo_hi_fold:
  "foldl (\<lambda>(lo, hi) c. (lo AND of_nat c, hi OR of_nat c)) (lo0, hi0) is =
     (foldl (\<lambda>lo c. lo AND of_nat c) lo0 is, foldl (\<lambda>hi c. hi OR of_nat c) (hi0 :: u8) is)"
  by (induction "is" arbitrary: lo0 hi0) auto

lemma lo_fold_bit: "k < 8 \<Longrightarrow>
  bit (foldl (\<lambda>lo c. lo AND of_nat c) (lo0 :: u8) is) k \<longleftrightarrow>
    bit lo0 k \<and> (\<forall>i \<in> set is. bit (of_nat i :: u8) k)"
  by (induction "is" arbitrary: lo0) (auto simp: bit_and_iff)

lemma hi_fold_bit: "k < 8 \<Longrightarrow>
  bit (foldl (\<lambda>hi c. hi OR of_nat c) (hi0 :: u8) is) k \<longleftrightarrow>
    bit hi0 k \<or> (\<exists>i \<in> set is. bit (of_nat i :: u8) k)"
  by (induction "is" arbitrary: hi0) (auto simp: bit_or_iff)

lemma and_cmp_bits:
  assumes "cr_inv cr" "make_and_cmp_mask cr = (am, cm)" "k < 8"
  shows "bit cm k \<longleftrightarrow> (\<forall>c \<in> chars cr. bit c k)"
    "bit am k \<longleftrightarrow> (\<forall>c \<in> chars cr. bit c k) = (\<exists>c \<in> chars cr. bit c k)"
proof -
  define lo hi where "lo = foldl (\<lambda>lo c. lo AND of_nat c) (0xff :: u8) (cr_indices cr)"
    and "hi = foldl (\<lambda>hi c. hi OR of_nat c) (0 :: u8) (cr_indices cr)"
  have r: "am = NOT (lo XOR hi)" "cm = lo"
    using assms(2) by (auto simp: make_and_cmp_mask_def lo_hi_fold lo_def hi_def)
  have "(0xff :: u8) = - 1" by simp
  then have ff: "bit (0xff :: u8) k" using assms(3) by (simp only: bit_minus_1_iff) simp
  have lo: "bit lo k \<longleftrightarrow> (\<forall>c \<in> chars cr. bit c k)"
    using lo_fold_bit [OF assms(3), of "0xff" "cr_indices cr"] ff assms(1)
    by (simp add: lo_def set_cr_indices)
  have hi: "bit hi k \<longleftrightarrow> (\<exists>c \<in> chars cr. bit c k)"
    using hi_fold_bit [OF assms(3), of 0 "cr_indices cr"] assms(1)
    by (simp add: hi_def set_cr_indices)
  show "bit cm k \<longleftrightarrow> (\<forall>c \<in> chars cr. bit c k)" using lo r by simp
  show "bit am k \<longleftrightarrow> (\<forall>c \<in> chars cr. bit c k) = (\<exists>c \<in> chars cr. bit c k)"
    using lo hi r assms(3) by (simp add: bit_not_iff bit_xor_iff)
qed


section \<open>Properties\<close>

text \<open>
  The predicates on character classes decide what they are named for: \<open>isSubsetOf\<close> and
  \<open>overlaps\<close> on the sets of characters, \<open>isCaselessChar\<close> exactly the two-element classes of
  an ASCII letter in both cases, \<open>isAlpha\<close> the non-empty classes of ASCII letters,
  \<open>isBit5Insensitive\<close> the classes closed under flipping bit 5, \<open>isutf8ascii\<close> and
  \<open>isutf8start\<close> the classes of single-byte characters and of lead bytes.
\<close>

theorem charreach_predicates:
  assumes "cr_inv a" "cr_inv b"
  shows "isSubsetOf a b = (chars a \<subseteq> chars b)
    \<and> overlaps a b = (chars a \<inter> chars b \<noteq> {})
    \<and> isCaselessChar a = (\<exists>u. 0x41 \<le> u \<and> u \<le> 0x5A \<and> chars a = {u, u + 0x20})
    \<and> isAlpha a = (chars a \<noteq> {} \<and>
         (\<forall>c \<in> chars a. (0x41 \<le> c \<and> c \<le> 0x5A) \<or> (0x61 \<le> c \<and> c \<le> 0x7A)))
    \<and> isBit5Insensitive a = (\<forall>c \<in> chars a. c XOR 0x20 \<in> chars a)
    \<and> isutf8ascii a = (\<forall>c \<in> chars a. c < 0x80)
    \<and> isutf8start a = (\<forall>c \<in> chars a. 0xC0 \<le> c)"
  using isCaselessChar_iff [OF assms(1)] isAlpha_iff [OF assms(1)]
    isSubsetOf_iff [OF assms] overlaps_iff [OF assms] isBit5Insensitive_iff [OF assms(1)]
    isutf8ascii_iff [OF assms(1)] isutf8start_iff [OF assms(1)]
  unfolding myisupper_def myislower_def by (simp only: conj_assoc)

theorem charreach_predicates_witness:
  "isCaselessChar (cr_set (cr_char 0x61) 0x41) \<and> \<not> isSubsetOf cr_dot (cr_char 0x61)"
proof -
  have inv: "cr_inv (cr_set (cr_char 0x61) 0x41)" "cr_inv (cr_char 0x61)" "cr_inv cr_dot"
    by (simp_all add: inv_intros)
  have "chars (cr_set (cr_char 0x61) 0x41) = {0x41, 0x41 + 0x20}"
    by (simp add: abs_simps inv_intros)
  then have "\<exists>u \<ge> 0x41. u \<le> 0x5A \<and> chars (cr_set (cr_char 0x61) 0x41) = {u, u + 0x20}"
    by (intro exI [where x = "0x41 :: u8"]) simp
  then have "isCaselessChar (cr_set (cr_char 0x61) 0x41)"
    using charreach_predicates [OF inv(1) inv(1)] by simp
  moreover have "isSubsetOf cr_dot (cr_char 0x61) = (UNIV \<subseteq> {0x61 :: u8})"
    using conjunct1 [OF charreach_predicates [OF inv(3,2)]] by (simp only: cr_range_simps)
  moreover have "\<not> UNIV \<subseteq> {0x61 :: u8}"
    by (metis UNIV_I singletonD subsetD zero_neq_numeral zero_neq_one)
  ultimately show ?thesis by blast
qed

text \<open>
  \<open>make_caseless\<close> closes a class under ASCII case and adds nothing else: a character is in
  the result exactly when some character of the class equals it up to case.
\<close>

theorem make_caseless_closure:
  assumes "cr_inv cr"
  shows "cr_inv (make_caseless cr) \<and>
    chars (make_caseless cr) = {c. \<exists>d \<in> chars cr. mytolower c = mytolower d}"
proof -
  have pair: "c \<in> case_pair d \<longleftrightarrow> mytolower c = mytolower d" for c d
  proof -
    have l: "\<not> myisupper (u + 0x20)" if "myisupper u" for u
      using that unfolding myisupper_def by unat_arith
    have ls: "myisupper (c - 0x20)" if "myislower c" for c
      using lower_shift [of "c - 0x20"] that by simp
    show ?thesis
      using l [of c] l [of d] ls [of c] ls [of d] lower_shift [of c] lower_shift [of d]
        upper_below_lower [of c] upper_below_lower [of d]
      by (auto simp: case_pair_def mytolower_def split: if_splits)
  qed
  then show ?thesis
    using make_caseless_chars [OF assms] by auto
qed

theorem make_caseless_closure_witness:
  "chars (make_caseless (cr_char 0x6B)) = {c. mytolower c = 0x6B}"
proof -
  have "cr_inv (cr_char 0x6B)" by (rule cr_range_inv)
  from make_caseless_closure [OF this] show ?thesis
    by (simp add: cr_range_simps mytolower_def myisupper_def)
qed

text \<open>
  The and/compare mask of a class accepts every character of the class, its and-mask
  keeps every bit on which the members agree (so no larger mask would do), and for the
  empty class it accepts nothing.
\<close>

theorem and_cmp_mask_tight:
  assumes "cr_inv cr" "make_and_cmp_mask cr = (and_mask, cmp_mask)"
  shows "(\<forall>c \<in> chars cr. c AND and_mask = cmp_mask AND and_mask)
    \<and> (chars cr \<noteq> {} \<longrightarrow> (\<forall>c \<in> chars cr. c AND and_mask = cmp_mask))
    \<and> (\<forall>k < 8. bit and_mask k \<longleftrightarrow>
         chars cr \<noteq> {} \<and> (\<forall>c \<in> chars cr. \<forall>d \<in> chars cr. bit c k = bit d k))
    \<and> (chars cr = {} \<longrightarrow> (\<forall>c. c AND and_mask \<noteq> cmp_mask))"
proof -
  note b = and_cmp_bits [OF assms]
  have m: "c AND and_mask = cmp_mask" if "c \<in> chars cr" for c
    by (rule bit_word_eqI) (use that b in \<open>auto simp: bit_and_iff\<close>)
  have cm: "cmp_mask AND and_mask = cmp_mask" if "c \<in> chars cr" for c
    by (rule bit_word_eqI) (use that b in \<open>auto simp: bit_and_iff\<close>)
  have "\<not> bit and_mask 0 \<and> bit cmp_mask 0" if "chars cr = {}"
    using b [of 0] that by simp
  then have "c AND and_mask \<noteq> cmp_mask" if "chars cr = {}" for c
    using that by (metis bit_and_iff)
  moreover have "bit and_mask k \<longleftrightarrow>
      chars cr \<noteq> {} \<and> (\<forall>c \<in> chars cr. \<forall>d \<in> chars cr. bit c k = bit d k)" if "k < 8" for k
    unfolding b(2) [OF that] by blast
  ultimately show ?thesis using m cm by simp
qed

theorem and_cmp_mask_tight_witness:
  "0x41 AND fst (make_and_cmp_mask (cr_set (cr_char 0x41) 0x61))
      = snd (make_and_cmp_mask (cr_set (cr_char 0x41) 0x61))"
proof -
  have "cr_inv (cr_set (cr_char 0x41) 0x61)" by (simp add: inv_intros)
  moreover have "chars (cr_set (cr_char 0x41) 0x61) = {0x41, 0x61}"
    unfolding chars_simps(2) [OF cr_range_inv(2)] cr_range_simps by blast
  ultimately show ?thesis
    using conjunct1 [OF conjunct2 [OF and_cmp_mask_tight [OF _ prod.collapse [symmetric]]]]
    by fastforce
qed

end
