(* ===== verification/PartitionedSet.thy ===== *)
theory PartitionedSet
  imports Prelude
begin

text \<open>
  The class template \<open>partitioned_set<T>\<close> of \<open>src/util/partitioned_set.h\<close>: a partition of
  \<open>[0, n)\<close> into numbered subsets that is only ever refined, by \<open>split\<close>.  The members of the
  type \<open>T\<close> are natural numbers here (the constructor asserts that every index fits in \<open>T\<close>),
  and the sentinel \<open>INVALID_SUBSET\<close> is \<open>None\<close>.  The last section gives the contract clients
  rely on as the locale \<open>partition_store\<close> and interprets it.
\<close>

section \<open>State and operations\<close>

record partitioned_set =
  member_to_subset :: "nat list"
  subsets :: "nat list list" \<comment> \<open>the sorted members of each subset\<close>

definition ps_size :: "partitioned_set \<Rightarrow> nat" where
  "ps_size P = length (subsets P)"

definition ps_subset :: "partitioned_set \<Rightarrow> nat \<Rightarrow> nat list" where
  "ps_subset P subset_index = subsets P ! subset_index"

text \<open>\<open>std::lower_bound\<close> on a sorted range: the suffix from the first element not below \<open>m\<close>.\<close>

definition lower_bound :: "nat list \<Rightarrow> nat \<Rightarrow> nat list" where
  "lower_bound sp m = dropWhile (\<lambda>s. s < m) sp"

text \<open>The loop of \<open>split\<close>: \<open>sp\<close> is the rest of the splitter from the iterator \<open>sp_it\<close> on.\<close>

fun split_loop :: "nat list \<Rightarrow> nat list \<Rightarrow> nat list \<Rightarrow> nat list \<Rightarrow> nat list \<times> nat list" where
  "split_loop [] sp v_inter v_diff = (v_inter, v_diff)"
| "split_loop (member # members) sp v_inter v_diff =
     (case lower_bound sp member of
        [] \<Rightarrow> (v_inter, v_diff @ member # members)
      | s # sp' \<Rightarrow>
          if s > member then split_loop members (s # sp') v_inter (v_diff @ [member])
          else split_loop members (s # sp') (v_inter @ [member]) v_diff)"

definition ps_split ::
  "partitioned_set \<Rightarrow> nat \<Rightarrow> nat list \<Rightarrow> nat option \<times> partitioned_set" where
  "ps_split P subset_index splitter =
     (if splitter = [] then (None, P)
      else let orig = subsets P ! subset_index in
        if last orig < hd splitter then (None, P)
        else if hd orig > last splitter then (None, P)
        else let (v_inter, v_diff) = split_loop orig splitter [] [] in
          if v_inter = [] then (None, P)
          else if v_diff = [] then (None, P)
          else let (big, small) = (if length v_diff > length v_inter then (v_diff, v_inter) else (v_inter, v_diff));
                   new_index = length (subsets P)
            in (Some new_index,
                P\<lparr>subsets := (subsets P)[subset_index := big] @ [small],
                  member_to_subset := foldl (\<lambda>m e. m[e := new_index]) (member_to_subset P) small\<rparr>))"

definition ps_find_overlapping :: "partitioned_set \<Rightarrow> nat list \<Rightarrow> nat list" where
  "ps_find_overlapping P keys =
     (let seen = foldl (\<lambda>seen key. seen[member_to_subset P ! key := True])
                   (replicate (length (subsets P)) False) keys
      in filter (\<lambda>i. seen ! i) [0..<length (subsets P)])"

definition ps_create :: "nat list \<Rightarrow> partitioned_set" where
  "ps_create state_to_subset =
     (let subset_count = foldl (\<lambda>c sub. max c (sub + 1)) 0 state_to_subset in
      foldl (\<lambda>P i. let sub = state_to_subset ! i in
               P\<lparr>member_to_subset := (member_to_subset P)[i := sub],
                 subsets := (subsets P)[sub := subsets P ! sub @ [i]]\<rparr>)
        \<lparr>member_to_subset = replicate (length state_to_subset) 0,
         subsets = replicate subset_count []\<rparr>
        [0..<length state_to_subset])"

section \<open>Invariant\<close>

definition ps_inv :: "nat \<Rightarrow> partitioned_set \<Rightarrow> bool" where
  "ps_inv n P =
     (length (member_to_subset P) = n
      \<and> (\<forall>e < n. member_to_subset P ! e < length (subsets P)
                \<and> e \<in> set (subsets P ! (member_to_subset P ! e)))
      \<and> (\<forall>k < length (subsets P). subsets P ! k \<noteq> [] \<and> sorted_wrt (<) (subsets P ! k)
                \<and> (\<forall>e \<in> set (subsets P ! k). e < n \<and> member_to_subset P ! e = k)))"

definition ps_class :: "partitioned_set \<Rightarrow> nat \<Rightarrow> nat" where
  "ps_class P e = member_to_subset P ! e"

lemma ps_inv_member:
  "ps_inv n P \<Longrightarrow> k < ps_size P \<Longrightarrow> e \<in> set (ps_subset P k) \<longleftrightarrow> e < n \<and> ps_class P e = k"
  by (auto simp: ps_inv_def ps_size_def ps_subset_def ps_class_def)

lemma ps_inv_class: "ps_inv n P \<Longrightarrow> e < n \<Longrightarrow> ps_class P e < ps_size P"
  by (auto simp: ps_inv_def ps_size_def ps_class_def)

lemma ps_inv_subset:
  "ps_inv n P \<Longrightarrow> k < ps_size P \<Longrightarrow> ps_subset P k \<noteq> [] \<and> sorted_wrt (<) (ps_subset P k)"
  by (auto simp: ps_inv_def ps_size_def ps_subset_def)

section \<open>Splitting\<close>

text \<open>On sorted arguments the loop separates the members that occur in the splitter.\<close>

lemma lower_bound_set:
  "sorted_wrt (<) sp \<Longrightarrow> set (lower_bound sp m) = {s \<in> set sp. m \<le> s} \<and> sorted_wrt (<) (lower_bound sp m)"
  unfolding lower_bound_def by (induction sp) auto

lemma split_loop_spec:
  "sorted_wrt (<) members \<Longrightarrow> sorted_wrt (<) sp \<Longrightarrow>
     (\<forall>m \<in> set members. m \<in> set sp \<longleftrightarrow> m \<in> X) \<Longrightarrow>
     split_loop members sp v_inter v_diff =
       (v_inter @ filter (\<lambda>m. m \<in> X) members, v_diff @ filter (\<lambda>m. m \<notin> X) members)"
proof (induction members arbitrary: sp v_inter v_diff)
  case (Cons m members)
  note lb = lower_bound_set [OF Cons.prems(2), of m]
  have later: "\<forall>m' \<in> set members. m < m'" using Cons.prems(1) by simp
  show ?case
  proof (cases "lower_bound sp m")
    case Nil
    then have "m' \<notin> set sp" if "m' \<in> set (m # members)" for m'
      using lb later that by (auto simp: less_le_not_le)
    then have "filter (\<lambda>m. m \<in> X) (m # members) = []" "filter (\<lambda>m. m \<notin> X) (m # members) = m # members"
      using Cons.prems(3) by (auto simp: filter_empty_conv filter_id_conv)
    with Nil show ?thesis by simp
  next
    case (Cons s sp')
    have sub: "\<forall>m' \<in> set members. m' \<in> set (s # sp') \<longleftrightarrow> m' \<in> X"
      using lb Cons later Cons.prems by auto
    have "s \<in> set sp" "m \<le> s" using lb Cons by auto
    moreover have "s = m \<longleftrightarrow> m \<in> X"
    proof -
      have "m \<in> X \<longleftrightarrow> m \<in> set sp" using Cons.prems(3) by simp
      also have "\<dots> \<longleftrightarrow> m \<in> set (s # sp')" using lb Cons by auto
      also have "\<dots> \<longleftrightarrow> s = m"
      proof -
        have "\<forall>x \<in> set sp'. s < x" using lb Cons by simp
        then show ?thesis using \<open>m \<le> s\<close> by auto
      qed
      finally show ?thesis by simp
    qed
    moreover have "sorted_wrt (<) (s # sp')" using lb Cons by simp
    note IH = Cons.IH [OF _ this sub]
    ultimately show ?thesis
      using IH Cons.prems(1) Cons by (cases "m \<in> X") auto
  qed
qed simp


text \<open>What \<open>split\<close> computes on a valid partition: nothing, or the two halves.\<close>

lemma ps_split_unfold:
  assumes "ps_inv n P" "k < ps_size P" "sorted_wrt (<) X" "X \<noteq> []"
  defines "ins \<equiv> filter (\<lambda>m. m \<in> set X) (ps_subset P k)"
    and "outs \<equiv> filter (\<lambda>m. m \<notin> set X) (ps_subset P k)"
  shows "ps_split P k X =
    (if ins = [] \<or> outs = [] then (None, P)
     else let (big, small) = (if length outs > length ins then (outs, ins) else (ins, outs))
       in (Some (ps_size P),
           P\<lparr>subsets := (subsets P)[k := big] @ [small],
             member_to_subset := foldl (\<lambda>m e. m[e := ps_size P]) (member_to_subset P) small\<rparr>))"
proof -
  define orig where "orig = ps_subset P k"
  have o: "orig \<noteq> []" "sorted_wrt (<) orig" "subsets P ! k = orig"
    using ps_inv_subset [OF assms(1,2)] by (auto simp: orig_def ps_subset_def)
  have loop: "split_loop orig X [] [] = (ins, outs)"
    using split_loop_spec [OF o(2) assms(3), of "set X" "[]" "[]"]
    by (simp add: ins_def outs_def orig_def)
  have mono: "x \<le> last xs" "hd xs \<le> x" if "sorted_wrt (<) xs" "x \<in> set xs" for x and xs :: "nat list"
    using that by (induction xs) (auto simp: less_imp_le)
  have "ins = []" if "last orig < hd X \<or> hd orig > last X"
  proof -
    have "m \<notin> set X" if "m \<in> set orig" for m
      using \<open>last orig < hd X \<or> hd orig > last X\<close> mono [OF o(2) that] mono [OF assms(3), of m]
      by (auto simp: not_less [symmetric])
    then show ?thesis by (simp add: ins_def orig_def filter_empty_conv)
  qed
  then show ?thesis
    using assms(4) o(3) loop
    by (auto simp: ps_split_def Let_def ps_size_def split: if_splits)
qed

lemma foldl_list_update_const:
  "length (foldl (\<lambda>m e. m[e := v]) m es) = length m"
  "i < length m \<Longrightarrow> foldl (\<lambda>m e. m[e := v]) m es ! i = (if i \<in> set es then v else m ! i)"
  by (induction es arbitrary: m) (auto simp: nth_list_update)

text \<open>The new partition: subset \<open>k\<close> is split by \<open>X\<close>, the smaller half gets the new index.\<close>

lemma ps_split_Some:
  assumes inv: "ps_inv n P" and k: "k < ps_size P" and X: "sorted_wrt (<) X" "X \<noteq> []"
    and split: "ps_split P k X = (Some new, P')"
  shows "ps_inv n P' \<and> new = ps_size P \<and> ps_size P' = ps_size P + 1 \<and>
    (\<exists>b. \<forall>e < n. ps_class P' e = (if ps_class P e = k \<and> (e \<in> set X) = b then new else ps_class P e))"
proof -
  define ins where "ins = filter (\<lambda>m. m \<in> set X) (ps_subset P k)"
  define outs where "outs = filter (\<lambda>m. m \<notin> set X) (ps_subset P k)"
  note unf = ps_split_unfold [OF inv k X, folded ins_def outs_def]
  define b where "b = (length outs > length ins)"
  define big small where "big = (if b then outs else ins)" and "small = (if b then ins else outs)"
  have ne: "ins \<noteq> []" "outs \<noteq> []" using split unf by (auto split: if_splits)
  have P': "new = ps_size P" "P' = P\<lparr>subsets := (subsets P)[k := big] @ [small],
      member_to_subset := foldl (\<lambda>m e. m[e := ps_size P]) (member_to_subset P) small\<rparr>"
    using split unf ne by (auto simp: big_def small_def b_def Let_def split: if_splits)
  have mem: "e \<in> set (ps_subset P k) \<longleftrightarrow> e < n \<and> ps_class P e = k" for e
    using ps_inv_member [OF inv k] .
  have small: "e \<in> set small \<longleftrightarrow> e < n \<and> ps_class P e = k \<and> (e \<in> set X) = b" for e
    using mem [of e] by (auto simp: small_def ins_def outs_def)
  have big: "e \<in> set big \<longleftrightarrow> e < n \<and> ps_class P e = k \<and> (e \<in> set X) \<noteq> b" for e
    using mem [of e] by (auto simp: big_def ins_def outs_def)
  have len: "length (member_to_subset P) = n" using inv by (simp add: ps_inv_def)
  have cls: "ps_class P' e = (if ps_class P e = k \<and> (e \<in> set X) = b then new else ps_class P e)"
    if "e < n" for e
    using that small [of e] len by (simp add: ps_class_def P' foldl_list_update_const)
  have sub: "subsets P' ! j = (if j = k then big else if j = ps_size P then small else subsets P ! j)"
    if "j < ps_size P + 1" for j
    using that k by (auto simp: P' ps_size_def nth_append nth_list_update)
  have sorted: "sorted_wrt (<) big" "sorted_wrt (<) small" "big \<noteq> []" "small \<noteq> []"
    using ps_inv_subset [OF inv k] ne
    by (auto simp: big_def small_def ins_def outs_def sorted_wrt_filter)
  have size: "ps_size P' = ps_size P + 1" by (simp add: P' ps_size_def)
  have "ps_inv n P'"
    unfolding ps_inv_def
  proof (intro conjI allI impI ballI)
    show "length (member_to_subset P') = n" using len by (simp add: P' foldl_list_update_const)
    fix e assume e: "e < n"
    have c: "ps_class P e < ps_size P" using inv e by (rule ps_inv_class)
    then show "member_to_subset P' ! e < length (subsets P')"
      using cls [OF e] size P'(1) by (auto simp: ps_class_def ps_size_def split: if_splits)
    show "e \<in> set (subsets P' ! (member_to_subset P' ! e))"
      using cls [OF e] c e sub [of "ps_class P' e"] small [of e] big [of e] k P'(1)
        ps_inv_member [OF inv c, of e]
      by (auto simp: ps_class_def [symmetric] ps_subset_def split: if_splits)
  next
    fix j assume "j < length (subsets P')"
    then have j: "j < ps_size P + 1" using size by (simp add: ps_size_def)
    show "subsets P' ! j \<noteq> []" "sorted_wrt (<) (subsets P' ! j)"
      using sub [OF j] sorted ps_inv_subset [OF inv, of j] j by (auto simp: ps_subset_def)
    fix e assume "e \<in> set (subsets P' ! j)"
    then show "e < n" "member_to_subset P' ! e = j"
      using sub [OF j] small [of e] big [of e] ps_inv_member [OF inv, of j e] j cls [of e] P'(1)
      by (auto simp: ps_class_def [symmetric] ps_subset_def split: if_splits)
  qed
  with P'(1) size cls show ?thesis by blast
qed

lemma ps_split_None:
  assumes inv: "ps_inv n P" and k: "k < ps_size P" and X: "sorted_wrt (<) X" "X \<noteq> []"
    and split: "ps_split P k X = (None, P')"
  shows "P' = P \<and> ((\<forall>e < n. ps_class P e = k \<longrightarrow> e \<in> set X) \<or> (\<forall>e < n. ps_class P e = k \<longrightarrow> e \<notin> set X))"
proof -
  note unf = ps_split_unfold [OF inv k X]
  have "P' = P" and "filter (\<lambda>m. m \<in> set X) (ps_subset P k) = [] \<or>
      filter (\<lambda>m. m \<notin> set X) (ps_subset P k) = []"
    using split unf by (auto simp: Let_def split: if_splits prod.splits)
  then show ?thesis
    using ps_inv_member [OF inv k] by (auto simp: filter_empty_conv)
qed


section \<open>Overlapping subsets and creation\<close>

lemma foldl_mark:
  "(\<forall>k \<in> set keys. f k < length seen) \<Longrightarrow>
     length (foldl (\<lambda>seen k. seen[f k := True]) seen keys) = length seen \<and>
     (\<forall>i < length seen. foldl (\<lambda>seen k. seen[f k := True]) seen keys ! i \<longleftrightarrow>
        seen ! i \<or> i \<in> f ` set keys)"
  by (induction keys arbitrary: seen) (auto simp: nth_list_update)

lemma ps_find_overlapping_spec:
  assumes "ps_inv n P" "\<forall>k \<in> set keys. k < n"
  shows "ps_find_overlapping P keys = filter (\<lambda>i. i \<in> ps_class P ` set keys) [0..<ps_size P]"
    and "set (ps_find_overlapping P keys) = ps_class P ` set keys"
proof -
  have lt: "\<forall>k \<in> set keys. ps_class P k < ps_size P"
    using assms ps_inv_class by blast
  then show eq: "ps_find_overlapping P keys = filter (\<lambda>i. i \<in> ps_class P ` set keys) [0..<ps_size P]"
    using foldl_mark [of keys "ps_class P" "replicate (ps_size P) False"]
    unfolding ps_find_overlapping_def Let_def ps_size_def [symmetric] ps_class_def [symmetric]
    by (intro filter_cong) auto
  show "set (ps_find_overlapping P keys) = ps_class P ` set keys"
    using lt unfolding eq by auto
qed

text \<open>The classes of a creation argument must be a dense range of indices from 0.\<close>

definition dense_classes :: "nat list \<Rightarrow> bool" where
  "dense_classes ss = (\<forall>c < foldl (\<lambda>c sub. max c (sub + 1)) 0 ss. c \<in> set ss)"

lemma foldl_max_bound:
  "(c0 :: nat) \<le> foldl (\<lambda>c sub. max c (sub + 1)) c0 ss \<and>
     (\<forall>sub \<in> set ss. sub < foldl (\<lambda>c sub. max c (sub + 1)) c0 ss)"
proof (induction ss arbitrary: c0)
  case (Cons a ss)
  from Cons.IH [of "max c0 (a + 1)"] show ?case by auto
qed simp

definition ps_create_step :: "nat list \<Rightarrow> partitioned_set \<Rightarrow> nat \<Rightarrow> partitioned_set" where
  "ps_create_step ss P i =
     (let sub = ss ! i in
      P\<lparr>member_to_subset := (member_to_subset P)[i := sub],
        subsets := (subsets P)[sub := subsets P ! sub @ [i]]\<rparr>)"

lemma ps_create_fold:
  assumes "\<forall>i < length ss. ss ! i < count"
  shows "m \<le> length ss \<Longrightarrow>
    (let P = foldl (ps_create_step ss)
               \<lparr>member_to_subset = replicate (length ss) 0, subsets = replicate count []\<rparr> [0..<m] in
     length (member_to_subset P) = length ss \<and> length (subsets P) = count \<and>
     (\<forall>i < m. member_to_subset P ! i = ss ! i) \<and>
     (\<forall>k < count. subsets P ! k = filter (\<lambda>i. ss ! i = k) [0..<m]))"
proof (induction m)
  case (Suc m)
  then show ?case
    using assms
    by (auto simp: Let_def ps_create_step_def nth_list_update less_Suc_eq)
qed simp

lemma ps_create_inv:
  assumes "dense_classes ss"
  shows "ps_inv (length ss) (ps_create ss) \<and>
    ps_size (ps_create ss) = foldl (\<lambda>c sub. max c (sub + 1)) 0 ss \<and>
    (\<forall>e < length ss. ps_class (ps_create ss) e = ss ! e)"
proof -
  define count where "count = foldl (\<lambda>c sub. max c (sub + 1)) 0 ss"
  define P where "P = foldl (ps_create_step ss)
      \<lparr>member_to_subset = replicate (length ss) 0, subsets = replicate count []\<rparr> [0..<length ss]"
  have lt: "\<forall>i < length ss. ss ! i < count"
    using foldl_max_bound [of 0 ss] by (auto simp: count_def)
  have P: "length (member_to_subset P) = length ss" "length (subsets P) = count"
    "\<And>i. i < length ss \<Longrightarrow> member_to_subset P ! i = ss ! i"
    "\<And>k. k < count \<Longrightarrow> subsets P ! k = filter (\<lambda>i. ss ! i = k) [0..<length ss]"
    using ps_create_fold [OF lt, of "length ss"] by (auto simp: P_def Let_def)
  have eq: "ps_create ss = P"
    unfolding ps_create_def P_def count_def Let_def ps_create_step_def [abs_def] ..
  have ne: "\<exists>i < length ss. ss ! i = k" if "k < count" for k
    using assms that by (auto simp: dense_classes_def count_def in_set_conv_nth)
  have "ps_inv (length ss) P"
    unfolding ps_inv_def using P lt ne
    by (auto simp: filter_empty_conv sorted_wrt_filter strict_sorted_iff Bex_def)
  then show ?thesis
    using P by (simp add: eq ps_size_def ps_class_def count_def)
qed

section \<open>The contract\<close>

text \<open>
  A store of a partition of \<open>[0, n)\<close> into numbered classes that refines one class at a time.
\<close>

locale partition_store =
  fixes invar :: "nat \<Rightarrow> 's \<Rightarrow> bool"
    and num :: "'s \<Rightarrow> nat"
    and members :: "'s \<Rightarrow> nat \<Rightarrow> nat list"
    and class_of :: "'s \<Rightarrow> nat \<Rightarrow> nat"
    and split :: "'s \<Rightarrow> nat \<Rightarrow> nat list \<Rightarrow> nat option \<times> 's"
    and overlapping :: "'s \<Rightarrow> nat list \<Rightarrow> nat list"
  assumes class_below: "invar n P \<Longrightarrow> e < n \<Longrightarrow> class_of P e < num P"
    and members_iff: "invar n P \<Longrightarrow> k < num P \<Longrightarrow> e \<in> set (members P k) \<longleftrightarrow> e < n \<and> class_of P e = k"
    and members_sorted: "invar n P \<Longrightarrow> k < num P \<Longrightarrow>
      members P k \<noteq> [] \<and> sorted_wrt (<) (members P k)"
    and split_Some: "invar n P \<Longrightarrow> k < num P \<Longrightarrow> sorted_wrt (<) X \<Longrightarrow> X \<noteq> [] \<Longrightarrow>
      split P k X = (Some new, P') \<Longrightarrow>
      invar n P' \<and> new = num P \<and> num P' = num P + 1 \<and>
      (\<exists>b. \<forall>e < n. class_of P' e = (if class_of P e = k \<and> (e \<in> set X) = b then new else class_of P e))"
    and split_None: "invar n P \<Longrightarrow> k < num P \<Longrightarrow> sorted_wrt (<) X \<Longrightarrow> X \<noteq> [] \<Longrightarrow>
      split P k X = (None, P') \<Longrightarrow>
      P' = P \<and> ((\<forall>e < n. class_of P e = k \<longrightarrow> e \<in> set X) \<or> (\<forall>e < n. class_of P e = k \<longrightarrow> e \<notin> set X))"
    and overlapping_set: "invar n P \<Longrightarrow> \<forall>k \<in> set keys. k < n \<Longrightarrow>
      set (overlapping P keys) = class_of P ` set keys"
begin

text \<open>The number of classes never exceeds the number of elements.\<close>

lemma num_bound:
  assumes "invar n P"
  shows "num P \<le> n"
proof -
  have "k \<in> class_of P ` {..<n}" if "k < num P" for k
  proof -
    have "hd (members P k) \<in> set (members P k)" using members_sorted [OF assms that] by simp
    with members_iff [OF assms that] show ?thesis by (metis imageI lessThan_iff)
  qed
  then have "{..<num P} \<subseteq> class_of P ` {..<n}" by blast
  then have "card {..<num P} \<le> card (class_of P ` {..<n})" by (intro card_mono) auto
  also have "\<dots> \<le> card {..<n}" by (rule card_image_le) simp
  finally show ?thesis by simp
qed

text \<open>A split separates exactly the members of the class by the splitter.\<close>

lemma split_classes:
  assumes "invar n P" "k < num P" "sorted_wrt (<) X" "X \<noteq> []" "split P k X = (r, P')"
    "e < n" "f < n"
  shows "class_of P' e = class_of P' f \<longleftrightarrow>
    class_of P e = class_of P f \<and> (class_of P e = k \<longrightarrow> (e \<in> set X) = (f \<in> set X))"
proof (cases r)
  case None
  from split_None [OF assms(1-4) assms(5) [unfolded None]] assms(6,7) show ?thesis by auto
next
  case (Some new)
  from split_Some [OF assms(1-4) assms(5) [unfolded Some]] obtain b where
    new: "new = num P" and c: "\<forall>e < n. class_of P' e =
      (if class_of P e = k \<and> (e \<in> set X) = b then new else class_of P e)" by blast
  have "class_of P e < num P" "class_of P f < num P"
    using class_below [OF assms(1)] assms(6,7) by auto
  then show ?thesis using c assms(6,7) new by (cases b) auto
qed

lemma split_invar:
  assumes "invar n P" "k < num P" "sorted_wrt (<) X" "X \<noteq> []" "split P k X = (r, P')"
  shows "invar n P' \<and> num P' = (if r = None then num P else num P + 1)"
  using split_None [OF assms(1-4)] split_Some [OF assms(1-4)] assms(1,5) by (cases r) auto

end

interpretation ps: partition_store ps_inv ps_size ps_subset ps_class ps_split ps_find_overlapping
  by (unfold_locales; (fact ps_inv_class ps_inv_member ps_inv_subset ps_split_Some ps_split_None
    ps_find_overlapping_spec(2)))


section \<open>Properties\<close>

text \<open>
  C16. \<open>split\<close> keeps the structure a partition (every element in exactly one non-empty sorted
  subset, the one its entry in \<open>member_to_subset\<close> names) and separates two elements exactly
  when they were already apart or lie on different sides of the splitter inside the split
  subset; a new index is returned precisely when the subset was really cut, and then the part
  that moved to the new index is the smaller one.
\<close>

theorem split_partition:
  assumes "ps_inv n P" "k < ps_size P" "sorted_wrt (<) X" "X \<noteq> []"
    and "ps_split P k X = (r, P')"
  shows "ps_inv n P'
    \<and> (\<forall>e < n. \<forall>f < n. ps_class P' e = ps_class P' f \<longleftrightarrow>
         ps_class P e = ps_class P f \<and> (ps_class P e = k \<longrightarrow> (e \<in> set X) = (f \<in> set X)))
    \<and> (case r of
         None \<Rightarrow> P' = P \<and> (set (ps_subset P k) \<subseteq> set X \<or> set (ps_subset P k) \<inter> set X = {})
       | Some new \<Rightarrow> new = ps_size P \<and> ps_size P' = ps_size P + 1
           \<and> length (ps_subset P' new) \<le> length (ps_subset P' k)
           \<and> set (ps_subset P k) = set (ps_subset P' k) \<union> set (ps_subset P' new))"
proof -
  have sub: "set (ps_subset P k) = {e. e < n \<and> ps_class P e = k}"
    using ps_inv_member [OF assms(1,2)] by auto
  have "case r of
         None \<Rightarrow> P' = P \<and> (set (ps_subset P k) \<subseteq> set X \<or> set (ps_subset P k) \<inter> set X = {})
       | Some new \<Rightarrow> new = ps_size P \<and> ps_size P' = ps_size P + 1
           \<and> length (ps_subset P' new) \<le> length (ps_subset P' k)
           \<and> set (ps_subset P k) = set (ps_subset P' k) \<union> set (ps_subset P' new)"
  proof (cases r)
    case None
    then show ?thesis
      using ps_split_None [OF assms(1-4) assms(5) [unfolded None]] sub by auto
  next
    case (Some new)
    note unf = ps_split_unfold [OF assms(1-4)]
    have "length (ps_subset P' new) \<le> length (ps_subset P' k) \<and>
        set (ps_subset P k) = set (ps_subset P' k) \<union> set (ps_subset P' new)"
      using assms(2,5) unf Some
      by (auto simp: ps_subset_def ps_size_def nth_append Let_def split: if_splits)
    then show ?thesis
      using ps_split_Some [OF assms(1-4) assms(5) [unfolded Some]] Some by simp
  qed
  then show ?thesis
    using ps.split_invar [OF assms] ps.split_classes [OF assms] by blast
qed

theorem split_partition_witness:
  "ps_split \<lparr>member_to_subset = [0, 0, 0], subsets = [[0, 1, 2]]\<rparr> 0 [1] =
     (Some 1, \<lparr>member_to_subset = [0, 1, 0], subsets = [[0, 2], [1]]\<rparr>) \<and>
   ps_inv 3 \<lparr>member_to_subset = [0, 1, 0], subsets = [[0, 2], [1]]\<rparr>"
proof -
  let ?P = "\<lparr>member_to_subset = [0, 0, 0], subsets = [[0, 1, 2 :: nat]]\<rparr>"
  have inv: "ps_inv 3 ?P" by (auto simp: ps_inv_def less_Suc_eq numeral_3_eq_3)
  have s: "ps_split ?P 0 [1] = (Some 1, \<lparr>member_to_subset = [0, 1, 0], subsets = [[0, 2], [1]]\<rparr>)"
    by (simp add: ps_split_def lower_bound_def)
  show ?thesis
    using conjunct1 [OF split_partition [OF inv _ _ _ s]] s by (simp add: ps_size_def)
qed

end
