(* ===== verification/RawDfa.thy ===== *)
theory RawDfa
  imports Prelude
begin

text \<open>
  Raw DFAs under construction: \<open>src/nfa/rdfa.h\<close>, \<open>src/nfa/rdfa.cpp\<close>, \<open>src/nfa/nfa_kind.h\<close>, and
  the whole-DFA utilities of \<open>src/nfa/mcclellancompile_util.cpp\<close>.  State ids and symbols
  (\<open>u16\<close> in the code) are natural numbers; \<open>trunc16\<close> marks the conversions from \<open>size_t\<close>.
  A \<open>flat_set<ReportID>\<close> is a set, a \<open>std::vector\<close> a list.
\<close>

section \<open>Kinds of engines (\<open>nfa_kind.h\<close>)\<close>

datatype nfa_kind = NFA_PREFIX | NFA_INFIX | NFA_SUFFIX | NFA_OUTFIX | NFA_OUTFIX_RAW
  | NFA_REV_PREFIX | NFA_EAGER_PREFIX

fun is_triggered :: "nfa_kind \<Rightarrow> bool" where
  "is_triggered NFA_INFIX = True"
| "is_triggered NFA_SUFFIX = True"
| "is_triggered NFA_REV_PREFIX = True"
| "is_triggered _ = False"

fun generates_callbacks :: "nfa_kind \<Rightarrow> bool" where
  "generates_callbacks NFA_SUFFIX = True"
| "generates_callbacks NFA_OUTFIX = True"
| "generates_callbacks NFA_OUTFIX_RAW = True"
| "generates_callbacks NFA_REV_PREFIX = True"
| "generates_callbacks NFA_EAGER_PREFIX = True"
| "generates_callbacks _ = False"

fun inspects_states_for_accepts :: "nfa_kind \<Rightarrow> bool" where
  "inspects_states_for_accepts NFA_PREFIX = True"
| "inspects_states_for_accepts NFA_INFIX = True"
| "inspects_states_for_accepts NFA_EAGER_PREFIX = True"
| "inspects_states_for_accepts _ = False"

fun has_managed_reports :: "nfa_kind \<Rightarrow> bool" where
  "has_managed_reports NFA_SUFFIX = True"
| "has_managed_reports NFA_OUTFIX = True"
| "has_managed_reports _ = False"

section \<open>States and DFAs (\<open>rdfa.h\<close>)\<close>

type_synonym dstate_id_t = nat
type_synonym symbol_t = nat
type_synonym ReportID = nat

definition trunc16 :: "nat \<Rightarrow> nat" where
  "trunc16 n = n mod 2 ^ 16"

lemma trunc16_id: "i < 2 ^ 16 \<Longrightarrow> trunc16 i = i"
  by (simp add: trunc16_def)

definition TOP :: symbol_t where
  "TOP = 256"

definition N_CHARS :: nat where
  "N_CHARS = 256"

definition ALPHABET_SIZE :: nat where
  "ALPHABET_SIZE = 257"

definition N_SPECIAL_SYMBOL :: nat where
  "N_SPECIAL_SYMBOL = 1"

definition DEAD_STATE :: dstate_id_t where
  "DEAD_STATE = 0"

record dstate =
  ds_next :: "dstate_id_t list"
  ds_daddy :: dstate_id_t
  ds_impl_id :: dstate_id_t
  ds_reports :: "ReportID set"
  ds_reports_eod :: "ReportID set"

definition new_dstate :: "nat \<Rightarrow> dstate" where
  "new_dstate alphabet_size =
     \<lparr>ds_next = replicate alphabet_size 0, ds_daddy = 0, ds_impl_id = 0,
      ds_reports = {}, ds_reports_eod = {}\<rparr>"

record raw_dfa =
  rd_kind :: nfa_kind
  rd_states :: "dstate list"
  rd_start_anchored :: dstate_id_t
  rd_start_floating :: dstate_id_t
  rd_alpha_size :: nat
  rd_alpha_remap :: "nat list" \<comment> \<open>input symbol to equivalence class, \<open>ALPHABET_SIZE\<close> entries\<close>

definition getImplAlphaSize :: "raw_dfa \<Rightarrow> nat" where
  "getImplAlphaSize raw = rd_alpha_size raw - N_SPECIAL_SYMBOL"

text \<open>\<open>rdfa.cpp\<close>\<close>

definition stripExtraEodReports :: "raw_dfa \<Rightarrow> raw_dfa" where
  "stripExtraEodReports raw =
     raw\<lparr>rd_states := map (\<lambda>ds. ds\<lparr>ds_reports_eod := ds_reports_eod ds - ds_reports ds\<rparr>) (rd_states raw)\<rparr>"

definition hasEodReports :: "raw_dfa \<Rightarrow> bool" where
  "hasEodReports raw = (\<exists>ds \<in> set (rd_states raw). ds_reports_eod ds \<noteq> {})"

text \<open>\<open>mcclellancompile_util.cpp\<close>\<close>

definition state_has_reports :: "raw_dfa \<Rightarrow> dstate_id_t \<Rightarrow> bool" where
  "state_has_reports raw s =
     (let ds = rd_states raw ! s in ds_reports ds \<noteq> {} \<or> ds_reports_eod ds \<noteq> {})"

definition all_reports :: "raw_dfa \<Rightarrow> ReportID set" where
  "all_reports rdfa = foldl (\<lambda>all ds. all \<union> ds_reports ds \<union> ds_reports_eod ds) {} (rd_states rdfa)"

definition has_eod_accepts :: "raw_dfa \<Rightarrow> bool" where
  "has_eod_accepts rdfa = (\<exists>ds \<in> set (rd_states rdfa). ds_reports_eod ds \<noteq> {})"

definition has_non_eod_accepts :: "raw_dfa \<Rightarrow> bool" where
  "has_non_eod_accepts rdfa = (\<exists>ds \<in> set (rd_states rdfa). ds_reports ds \<noteq> {})"

definition rd_is_dead :: "raw_dfa \<Rightarrow> bool" where
  "rd_is_dead rdfa = (rd_start_anchored rdfa = DEAD_STATE \<and> rd_start_floating rdfa = DEAD_STATE)"

section \<open>Runs\<close>

definition step_sym :: "raw_dfa \<Rightarrow> dstate_id_t \<Rightarrow> symbol_t \<Rightarrow> dstate_id_t" where
  "step_sym raw s a = ds_next (rd_states raw ! s) ! a"

definition run_syms :: "raw_dfa \<Rightarrow> dstate_id_t \<Rightarrow> symbol_t list \<Rightarrow> dstate_id_t" where
  "run_syms raw s w = foldl (step_sym raw) s w"

definition fires :: "raw_dfa \<Rightarrow> dstate_id_t \<Rightarrow> ReportID set \<times> ReportID set" where
  "fires raw s = (ds_reports (rd_states raw ! s), ds_reports_eod (rd_states raw ! s))"

text \<open>
  Well-formed DFAs: every state has one successor per symbol of the alphabet, all ids are
  ids of states, and there are at most \<open>2 ^ 16\<close> states, so that ids fit in \<open>dstate_id_t\<close>.
\<close>

definition dfa_wf :: "raw_dfa \<Rightarrow> bool" where
  "dfa_wf raw =
     ((\<forall>ds \<in> set (rd_states raw). length (ds_next ds) = rd_alpha_size raw \<and>
         (\<forall>t \<in> set (ds_next ds). t < length (rd_states raw)) \<and> ds_daddy ds < length (rd_states raw))
      \<and> rd_start_anchored raw < length (rd_states raw)
      \<and> rd_start_floating raw < length (rd_states raw)
      \<and> length (rd_states raw) \<le> 2 ^ 16)"

definition word_ok :: "raw_dfa \<Rightarrow> symbol_t list \<Rightarrow> bool" where
  "word_ok raw w = (\<forall>a \<in> set w. a < rd_alpha_size raw)"

lemma run_syms_simps [simp]:
  "run_syms raw s [] = s" "run_syms raw s (a # w) = run_syms raw (step_sym raw s a) w"
  by (simp_all add: run_syms_def)

lemma run_syms_append: "run_syms raw s (v @ w) = run_syms raw (run_syms raw s v) w"
  by (simp add: run_syms_def)

lemma word_ok_simps [simp]:
  "word_ok raw []" "word_ok raw (a # w) \<longleftrightarrow> a < rd_alpha_size raw \<and> word_ok raw w"
  by (auto simp: word_ok_def)

lemma step_sym_below:
  "dfa_wf raw \<Longrightarrow> s < length (rd_states raw) \<Longrightarrow> a < rd_alpha_size raw \<Longrightarrow>
     step_sym raw s a < length (rd_states raw)"
  unfolding dfa_wf_def step_sym_def by (metis nth_mem)

lemma run_syms_below:
  "dfa_wf raw \<Longrightarrow> s < length (rd_states raw) \<Longrightarrow> word_ok raw w \<Longrightarrow>
     run_syms raw s w < length (rd_states raw)"
  by (induction w arbitrary: s) (auto simp: step_sym_below)

text \<open>Two states are equivalent when every word leads them to states that fire the same reports.\<close>

definition equiv_states :: "raw_dfa \<Rightarrow> dstate_id_t \<Rightarrow> dstate_id_t \<Rightarrow> bool" where
  "equiv_states raw p q =
     (\<forall>w. word_ok raw w \<longrightarrow> fires raw (run_syms raw p w) = fires raw (run_syms raw q w))"

lemma equiv_states_fires: "equiv_states raw p q \<Longrightarrow> fires raw p = fires raw q"
  unfolding equiv_states_def by (metis run_syms_simps(1) word_ok_simps(1))

lemma equiv_states_step:
  "equiv_states raw p q \<Longrightarrow> a < rd_alpha_size raw \<Longrightarrow>
     equiv_states raw (step_sym raw p a) (step_sym raw q a)"
  unfolding equiv_states_def by (metis run_syms_simps(2) word_ok_simps(2))

lemma equiv_states_refl [simp]: "equiv_states raw p p"
  by (simp add: equiv_states_def)

lemma all_reports_Union:
  "all_reports rdfa = (\<Union>ds \<in> set (rd_states rdfa). ds_reports ds \<union> ds_reports_eod ds)"
proof -
  have "foldl (\<lambda>all ds. all \<union> ds_reports ds \<union> ds_reports_eod ds) A dss =
      A \<union> (\<Union>ds \<in> set dss. ds_reports ds \<union> ds_reports_eod ds)" for A and dss :: "dstate list"
    by (induction dss arbitrary: A) auto
  then show ?thesis by (simp add: all_reports_def)
qed

end
