(* ===== verification/DfaMin.thy ===== *)
theory DfaMin
  imports RawDfa PartitionedSet
begin

text \<open>
  DFA minimisation, \<open>src/nfa/dfa_min.cpp\<close>: Hopcroft's algorithm with an initial partition by
  the reports of the states, on top of \<open>partitioned_set\<close>.  \<open>std::queue\<close> is a list with the
  front first; a \<open>flat_set\<close> of ids is a strictly sorted list.
\<close>

section \<open>The algorithm\<close>

record HopcroftInfo =
  hi_alpha_size :: nat
  hi_work_queue :: "nat list"
  hi_partition :: partitioned_set
  hi_prev :: "dstate_id_t list list list" \<comment> \<open>state, symbol, its predecessors\<close>

text \<open>
  \<open>create_map\<close>: one subset per distinct pair of report sets among the accepting states, in
  order of first appearance (each also queued), and one for the rest.  The map from report
  pairs to subset numbers is the list of the pairs seen, in the order of their numbers.
\<close>

fun position :: "'a \<Rightarrow> 'a list \<Rightarrow> nat option" where
  "position x [] = None"
| "position x (y # ys) = (if x = y then Some 0 else map_option Suc (position x ys))"

fun create_map_loop ::
  "dstate list \<Rightarrow> (ReportID set \<times> ReportID set) list \<Rightarrow> nat option list \<Rightarrow> nat list
     \<Rightarrow> (ReportID set \<times> ReportID set) list \<times> nat option list \<times> nat list" where
  "create_map_loop [] subset_map state_to_subset work_queue = (subset_map, state_to_subset, work_queue)"
| "create_map_loop (ds # dss) subset_map state_to_subset work_queue =
     (if ds_reports ds \<noteq> {} \<or> ds_reports_eod ds \<noteq> {} then
        let key = (ds_reports ds, ds_reports_eod ds) in
        case position key subset_map of
          Some sub \<Rightarrow> create_map_loop dss subset_map (state_to_subset @ [Some sub]) work_queue
        | None \<Rightarrow> let sub = length subset_map in
            create_map_loop dss (subset_map @ [key]) (state_to_subset @ [Some sub]) (work_queue @ [sub])
      else create_map_loop dss subset_map (state_to_subset @ [None]) work_queue)"

definition create_map :: "raw_dfa \<Rightarrow> nat list \<times> nat list" where
  "create_map rdfa =
     (let (subset_map, state_to_subset, work_queue) = create_map_loop (rd_states rdfa) [] [] [];
          non_accept_sub = length subset_map
      in (map (\<lambda>s. case s of None \<Rightarrow> non_accept_sub | Some sub \<Rightarrow> sub) state_to_subset, work_queue))"

definition add_prev :: "raw_dfa \<Rightarrow> dstate_id_t list list list \<Rightarrow> nat \<times> nat \<Rightarrow> dstate_id_t list list list" where
  "add_prev rdfa prev i_sym =
     (let (i, symb) = i_sym; present_state = ds_next (rd_states rdfa ! i) ! symb in
      prev[present_state := (prev ! present_state)[symb := prev ! present_state ! symb @ [trunc16 i]]])"

definition HopcroftInfo_create :: "raw_dfa \<Rightarrow> HopcroftInfo" where
  "HopcroftInfo_create rdfa =
     (let (state_to_subset, work_queue) = create_map rdfa;
          n = length (rd_states rdfa);
          prev = foldl (add_prev rdfa) (replicate n (replicate (rd_alpha_size rdfa) []))
                   (List.product [0..<n] [0..<rd_alpha_size rdfa])
      in \<lparr>hi_alpha_size = rd_alpha_size rdfa, hi_work_queue = work_queue,
          hi_partition = ps_create state_to_subset, hi_prev = prev\<rparr>)"

definition split_and_replace_set :: "nat list \<Rightarrow> HopcroftInfo \<Rightarrow> nat \<Rightarrow> HopcroftInfo" where
  "split_and_replace_set splitter info part_index =
     (if length (ps_subset (hi_partition info) part_index) = 1 then info
      else case ps_split (hi_partition info) part_index splitter of
          (None, P) \<Rightarrow> info\<lparr>hi_partition := P\<rparr>
        | (Some small_index, P) \<Rightarrow>
            info\<lparr>hi_partition := P, hi_work_queue := hi_work_queue info @ [small_index]\<rparr>)"

definition sym_preds :: "HopcroftInfo \<Rightarrow> nat list \<Rightarrow> nat \<Rightarrow> nat list" where
  "sym_preds info curr_set symb =
     sort (remdups (concat (map (\<lambda>s. hi_prev info ! s ! symb) curr_set)))"

definition process_sym :: "nat list \<Rightarrow> HopcroftInfo \<Rightarrow> nat \<Rightarrow> HopcroftInfo" where
  "process_sym curr_set info symb =
     (let preds = sym_preds info curr_set symb in
      if preds = [] then info
      else foldl (split_and_replace_set preds) info
             (ps_find_overlapping (hi_partition info) preds))"

text \<open>
  The main loop; \<open>None\<close> is running out of fuel.  Every round takes one subset off the queue
  and every split adds one, so as many rounds as there are states are enough.
\<close>

fun dfa_min_loop :: "nat \<Rightarrow> HopcroftInfo \<Rightarrow> HopcroftInfo option" where
  "dfa_min_loop 0 info = (if hi_work_queue info = [] then Some info else None)"
| "dfa_min_loop (Suc fuel) info =
     (case hi_work_queue info of
        [] \<Rightarrow> Some info
      | k # work_queue \<Rightarrow>
          let curr_set = ps_subset (hi_partition info) k in
          dfa_min_loop fuel
            (foldl (process_sym curr_set) (info\<lparr>hi_work_queue := work_queue\<rparr>)
              [0..<hi_alpha_size info]))"

definition dfa_min :: "HopcroftInfo \<Rightarrow> HopcroftInfo option" where
  "dfa_min info = dfa_min_loop (length (hi_prev info)) info"

text \<open>
  \<open>mapping_new_states\<close>: the subsets in the order of their first members (\<open>ordering\<close>, an
  ordered map) become the new states, numbered from 0.
\<close>

definition mapping_new_states :: "HopcroftInfo \<Rightarrow> raw_dfa \<Rightarrow> dstate_id_t list \<times> raw_dfa" where
  "mapping_new_states info rdfa =
     (let P = hi_partition info;
          num_partitions = ps_size P;
          ordering = sort_key fst (map (\<lambda>i. (hd (ps_subset P i), i)) [0..<num_partitions]);
          eq_state = foldl (\<lambda>eq (m, new_id). eq[snd m := trunc16 new_id]) (replicate num_partitions 0)
                       (zip ordering [0..<num_partitions]);
          old_to_new = foldl (\<lambda>o2n t. foldl (\<lambda>o2n i. o2n[i := eq_state ! t]) o2n (ps_subset P t))
                         (replicate (length (hi_prev info)) 0) [0..<num_partitions];
          new_states = map (\<lambda>m. rd_states rdfa ! fst m) ordering
      in (old_to_new, rdfa\<lparr>rd_states := new_states\<rparr>))"

definition renumber_dstate :: "nat \<Rightarrow> dstate_id_t list \<Rightarrow> dstate \<Rightarrow> dstate" where
  "renumber_dstate alpha_size old_to_new ds =
     ds\<lparr>ds_next := map (\<lambda>output. old_to_new ! output) (take alpha_size (ds_next ds))
                     @ drop alpha_size (ds_next ds),
        ds_daddy := old_to_new ! ds_daddy ds\<rparr>"

definition renumber_new_states :: "HopcroftInfo \<Rightarrow> dstate_id_t list \<Rightarrow> raw_dfa \<Rightarrow> raw_dfa" where
  "renumber_new_states info old_to_new rdfa =
     rdfa\<lparr>rd_states := map (renumber_dstate (hi_alpha_size info) old_to_new) (rd_states rdfa),
          rd_start_floating := old_to_new ! rd_start_floating rdfa,
          rd_start_anchored := old_to_new ! rd_start_anchored rdfa\<rparr>"

definition new_dfa :: "raw_dfa \<Rightarrow> HopcroftInfo \<Rightarrow> raw_dfa" where
  "new_dfa rdfa info =
     (if ps_size (hi_partition info) = length (hi_prev info) then rdfa
      else let (old_to_new, rdfa) = mapping_new_states info rdfa
           in renumber_new_states info old_to_new rdfa)"

text \<open>\<open>minimizeDFA\<close> is the flag of the same name of the configuration \<open>Grey\<close>.\<close>

definition minimize_hopcroft :: "bool \<Rightarrow> raw_dfa \<Rightarrow> raw_dfa option" where
  "minimize_hopcroft minimizeDFA rdfa =
     (if \<not> minimizeDFA then Some rdfa
      else map_option (new_dfa rdfa) (dfa_min (HopcroftInfo_create rdfa)))"


section \<open>Lemmas: predecessor lists\<close>

definition prev_shape :: "raw_dfa \<Rightarrow> dstate_id_t list list list \<Rightarrow> bool" where
  "prev_shape r prev = (length prev = length (rd_states r) \<and>
     (\<forall>t < length (rd_states r). length (prev ! t) = rd_alpha_size r))"

text \<open>The predecessor lists are right for the pairs of state and symbol in \<open>D\<close>.\<close>

definition prev_right :: "raw_dfa \<Rightarrow> (nat \<times> nat) set \<Rightarrow> dstate_id_t list list list \<Rightarrow> bool" where
  "prev_right r D prev = (prev_shape r prev \<and>
     (\<forall>t < length (rd_states r). \<forall>a < rd_alpha_size r.
        set (prev ! t ! a) = {i. (i, a) \<in> D \<and> step_sym r i a = t}))"

lemma add_prev_right:
  assumes "dfa_wf r" "prev_right r D prev" "i < length (rd_states r)" "b < rd_alpha_size r"
  shows "prev_right r (insert (i, b) D) (add_prev r prev (i, b))"
proof -
  define t0 where "t0 = step_sym r i b"
  have t0: "t0 < length (rd_states r)" using step_sym_below [OF assms(1,3,4)] by (simp add: t0_def)
  have i: "trunc16 i = i" using assms(1,3) by (simp add: dfa_wf_def trunc16_id)
  have eq: "add_prev r prev (i, b) = prev[t0 := (prev ! t0)[b := prev ! t0 ! b @ [i]]]"
    by (simp add: add_prev_def t0_def step_sym_def i Let_def)
  show ?thesis
    unfolding eq prev_right_def prev_shape_def
  proof (intro conjI allI impI)
    fix t a assume ta: "t < length (rd_states r)" "a < rd_alpha_size r"
    show "set (prev[t0 := (prev ! t0)[b := prev ! t0 ! b @ [i]]] ! t ! a)
        = {j. (j, a) \<in> insert (i, b) D \<and> step_sym r j a = t}"
      using assms(2,4) ta t0
      by (cases "t = t0"; cases "a = b") (auto simp: prev_right_def prev_shape_def t0_def)
  qed (use assms(2) t0 in \<open>auto simp: prev_right_def prev_shape_def nth_list_update\<close>)
qed

lemma add_prev_fold:
  assumes "dfa_wf r"
  shows "prev_right r D prev \<Longrightarrow> set L \<subseteq> {..<length (rd_states r)} \<times> {..<rd_alpha_size r} \<Longrightarrow>
    prev_right r (D \<union> set L) (foldl (add_prev r) prev L)"
proof (induction L arbitrary: D prev)
  case (Cons x L)
  obtain i b where x: "x = (i, b)" "i < length (rd_states r)" "b < rd_alpha_size r"
    using Cons.prems(2) by (cases x) auto
  from add_prev_right [OF assms Cons.prems(1) x(2,3)]
  have "prev_right r (insert x D \<union> set L) (foldl (add_prev r) (add_prev r prev x) L)"
    using Cons.prems(2) x(1) by (intro Cons.IH) auto
  then show ?case by simp
qed simp

lemma prev_create:
  assumes "dfa_wf r"
  shows "prev_right r ({..<length (rd_states r)} \<times> {..<rd_alpha_size r})
    (hi_prev (HopcroftInfo_create r))"
proof -
  have "prev_right r {} (replicate (length (rd_states r)) (replicate (rd_alpha_size r) []))"
    by (simp add: prev_right_def prev_shape_def)
  from add_prev_fold [OF assms this, of "List.product [0..<length (rd_states r)] [0..<rd_alpha_size r]"]
  show ?thesis
    by (simp add: HopcroftInfo_create_def Let_def atLeast0LessThan split: prod.splits)
qed

lemma sym_preds_spec:
  assumes "prev_right r ({..<length (rd_states r)} \<times> {..<rd_alpha_size r}) (hi_prev info)"
    "set C \<subseteq> {..<length (rd_states r)}" "a < rd_alpha_size r"
  shows "set (sym_preds info C a) = {i. i < length (rd_states r) \<and> step_sym r i a \<in> set C}
    \<and> sorted_wrt (<) (sym_preds info C a)"
proof -
  have "(\<Union>s \<in> set C. set (hi_prev info ! s ! a)) =
      {i. i < length (rd_states r) \<and> step_sym r i a \<in> set C}"
  proof -
    have "set (hi_prev info ! s ! a) = {i. i < length (rd_states r) \<and> step_sym r i a = s}"
      if "s \<in> set C" for s
      using assms that by (auto simp: prev_right_def)
    then show ?thesis by auto
  qed
  then show ?thesis
    by (simp add: sym_preds_def strict_sorted_iff)
qed

section \<open>Lemmas: the initial partition\<close>

lemma position_Some: "position x ys = Some i \<Longrightarrow> i < length ys \<and> ys ! i = x"
  by (induction ys arbitrary: i) (auto split: if_splits)

lemma position_None: "position x ys = None \<longleftrightarrow> x \<notin> set ys"
  by (induction ys) auto

lemma position_append: "x \<in> set ys \<Longrightarrow> position x (ys @ zs) = position x ys"
  by (induction ys) auto

lemma position_last: "x \<notin> set ys \<Longrightarrow> position x (ys @ [x]) = Some (length ys)"
  by (induction ys) auto

definition ds_key :: "dstate \<Rightarrow> ReportID set \<times> ReportID set" where
  "ds_key ds = (ds_reports ds, ds_reports_eod ds)"

text \<open>The number of a state in terms of the final list of keys.\<close>

definition key_number :: "(ReportID set \<times> ReportID set) list \<Rightarrow> dstate \<Rightarrow> nat option" where
  "key_number ks ds = (if ds_key ds = ({}, {}) then None else position (ds_key ds) ks)"

lemma create_map_loop_spec:
  "distinct ks \<Longrightarrow> create_map_loop dss ks s2s q = (ks', s2s', q') \<Longrightarrow>
     \<exists>new. ks' = ks @ new \<and> distinct ks' \<and> q' = q @ [length ks..<length ks'] \<and>
       s2s' = s2s @ map (key_number ks') dss \<and>
       (\<forall>ds \<in> set dss. ds_key ds \<noteq> ({}, {}) \<longrightarrow> ds_key ds \<in> set ks') \<and>
       set new \<subseteq> ds_key ` set dss - {({}, {})}"
proof (induction dss arbitrary: ks s2s q)
  case (Cons ds dss)
  consider (none) "ds_key ds = ({}, {})"
    | (old) i where "ds_key ds \<noteq> ({}, {})" "position (ds_key ds) ks = Some i"
    | (new) "ds_key ds \<noteq> ({}, {})" "position (ds_key ds) ks = None"
    by (cases "position (ds_key ds) ks") auto
  then show ?case
  proof cases
    case none
    with Cons.prems Cons.IH [of ks "s2s @ [None]" q] show ?thesis
      by (auto simp: ds_key_def key_number_def)
  next
    case old
    then have "ds_key ds \<in> set ks" using position_None by force
    with old Cons.prems Cons.IH [of ks "s2s @ [Some i]" q] show ?thesis
      by (auto simp: ds_key_def key_number_def Let_def position_append)
  next
    case new
    then have nin: "ds_key ds \<notin> set ks" by (simp add: position_None)
    with new Cons.prems Cons.IH [of "ks @ [ds_key ds]" "s2s @ [Some (length ks)]" "q @ [length ks]"]
    obtain more where more: "ks' = (ks @ [ds_key ds]) @ more" "distinct ks'"
      "q' = (q @ [length ks]) @ [length (ks @ [ds_key ds])..<length ks']"
      "s2s' = (s2s @ [Some (length ks)]) @ map (key_number ks') dss"
      "\<forall>ds \<in> set dss. ds_key ds \<noteq> ({}, {}) \<longrightarrow> ds_key ds \<in> set ks'"
      "set more \<subseteq> ds_key ` set dss - {({}, {})}"
      by (auto simp: ds_key_def Let_def)
    have "position (ds_key ds) ks' = Some (length ks)"
      using position_last [OF nin] position_append [of "ds_key ds" "ks @ [ds_key ds]" more] more(1)
      by simp
    then have "key_number ks' ds = Some (length ks)" using new by (simp add: key_number_def)
    moreover have "q' = q @ [length ks..<length ks']"
    proof -
      have "length ks < length ks'" using more(1) by simp
      then have "[length ks..<length ks'] = length ks # [Suc (length ks)..<length ks']"
        by (rule upt_conv_Cons)
      then show ?thesis unfolding more(3) by simp
    qed
    ultimately show ?thesis using more new by (intro exI [of _ "ds_key ds # more"]) auto
  qed
qed simp


text \<open>
  The initial classes are those of the report pairs, and all but the class of the states
  without reports are queued.
\<close>

lemma create_map_spec:
  assumes "create_map r = (s2s, q)"
  shows "length s2s = length (rd_states r)"
    "\<And>i j. i < length (rd_states r) \<Longrightarrow> j < length (rd_states r) \<Longrightarrow>
       s2s ! i = s2s ! j \<longleftrightarrow> fires r i = fires r j"
    "dense_classes s2s"
    "distinct q" "\<And>k. k \<in> set q \<Longrightarrow> k \<in> set s2s"
    "\<And>i. i < length (rd_states r) \<Longrightarrow> fires r i \<noteq> ({}, {}) \<Longrightarrow> s2s ! i \<in> set q"
proof -
  obtain ks s2s' where loop: "create_map_loop (rd_states r) [] [] [] = (ks, s2s', q)"
    and s2s: "s2s = map (\<lambda>s. case s of None \<Rightarrow> length ks | Some sub \<Rightarrow> sub) s2s'"
    using assms by (auto simp: create_map_def Let_def split: prod.splits)
  have K: "distinct ks" "q = [0..<length ks]" "s2s' = map (key_number ks) (rd_states r)"
    "\<forall>ds \<in> set (rd_states r). ds_key ds \<noteq> ({}, {}) \<longrightarrow> ds_key ds \<in> set ks"
    "set ks \<subseteq> ds_key ` set (rd_states r) - {({}, {})}"
    using create_map_loop_spec [OF _ loop] by auto
  define num where "num ds = (if ds_key ds = ({}, {}) then length ks else the (position (ds_key ds) ks))"
    for ds
  have num: "s2s = map num (rd_states r)"
    using K(4) by (auto simp: s2s K(3) num_def key_number_def position_None
        split: option.splits)
  have lt: "num ds < length ks \<and> ks ! num ds = ds_key ds"
    if "ds \<in> set (rd_states r)" "ds_key ds \<noteq> ({}, {})" for ds
    using K(4) that position_Some [of "ds_key ds" ks] position_None [of "ds_key ds" ks]
    by (cases "position (ds_key ds) ks") (auto simp: num_def)
  have none: "num ds = length ks" if "ds_key ds = ({}, {})" for ds
    using that by (simp add: num_def)
  have inj: "num d = num e \<longleftrightarrow> ds_key d = ds_key e"
    if "d \<in> set (rd_states r)" "e \<in> set (rd_states r)" for d e
  proof
    assume "num d = num e"
    then show "ds_key d = ds_key e"
      using lt [OF that(1)] lt [OF that(2)] none [of d] none [of e]
      by (cases "ds_key d = ({}, {})"; cases "ds_key e = ({}, {})") auto
  qed (simp add: num_def)
  show "length s2s = length (rd_states r)" by (simp add: num)
  show "s2s ! i = s2s ! j \<longleftrightarrow> fires r i = fires r j"
    if "i < length (rd_states r)" "j < length (rd_states r)" for i j
    using inj that by (simp add: num fires_def ds_key_def)
  show "distinct q" by (simp add: K(2))
  have onto: "k \<in> set s2s" if "k < length ks" for k
  proof -
    have "ks ! k \<in> ds_key ` set (rd_states r) - {({}, {})}"
      using that K(5) nth_mem by blast
    then obtain ds where ds: "ds \<in> set (rd_states r)" "ds_key ds = ks ! k" "ds_key ds \<noteq> ({}, {})"
      by (metis DiffE image_iff singletonI)
    then have "num ds = k" using lt [OF ds(1,3)] K(1) that nth_eq_iff_index_eq by metis
    with ds(1) show ?thesis unfolding num by auto
  qed
  then show "k \<in> set s2s" if "k \<in> set q" for k using that by (simp add: K(2))
  have le: "c \<le> length ks" if "c \<in> set s2s" for c
    using that lt none by (fastforce simp: num)
  show "dense_classes s2s"
    unfolding dense_classes_def
  proof (intro allI impI)
    fix c assume c: "c < foldl (\<lambda>c sub. max c (sub + 1)) 0 s2s"
    have "c < m \<or> (\<exists>d \<in> set ss. c \<le> d)" if "c < foldl (\<lambda>c sub. max c (sub + 1)) m ss" for m ss
      using that by (induction ss arbitrary: m) fastforce+
    from this [OF c] have "\<exists>d \<in> set s2s. c \<le> d" by simp
    then obtain d where d: "d \<in> set s2s" "c \<le> d" by blast
    then consider "c < length ks" | "c = d" using le by fastforce
    then show "c \<in> set s2s" using onto d by cases auto
  qed
  show "s2s ! i \<in> set q" if "i < length (rd_states r)" "fires r i \<noteq> ({}, {})" for i
    using lt [of "rd_states r ! i"] that by (simp add: num K(2) fires_def ds_key_def)
qed


section \<open>Lemmas: the loop invariant\<close>

definition hi_class :: "HopcroftInfo \<Rightarrow> nat \<Rightarrow> nat" where
  "hi_class info p = ps_class (hi_partition info) p"

text \<open>
  Two states are settled when they are in one class, or some queued class holds exactly one
  of them, so that a later round will separate their predecessors.
\<close>

definition settled :: "HopcroftInfo \<Rightarrow> nat \<Rightarrow> nat \<Rightarrow> bool" where
  "settled info x y = (hi_class info x = hi_class info y \<or>
     (\<exists>k \<in> set (hi_work_queue info). (hi_class info x = k) \<noteq> (hi_class info y = k)))"

text \<open>What does not depend on the splitter at work.\<close>

definition hop_base :: "raw_dfa \<Rightarrow> HopcroftInfo \<Rightarrow> bool" where
  "hop_base r info =
     (ps_inv (length (rd_states r)) (hi_partition info)
      \<and> hi_alpha_size info = rd_alpha_size r
      \<and> prev_right r ({..<length (rd_states r)} \<times> {..<rd_alpha_size r}) (hi_prev info)
      \<and> (\<forall>k \<in> set (hi_work_queue info). k < ps_size (hi_partition info))
      \<and> (\<forall>p < length (rd_states r). \<forall>q < length (rd_states r).
           hi_class info p = hi_class info q \<longrightarrow> fires r p = fires r q)
      \<and> (\<forall>p < length (rd_states r). \<forall>q < length (rd_states r).
           equiv_states r p q \<longrightarrow> hi_class info p = hi_class info q))"

text \<open>
  Stability: members of one class have settled successors, except for the symbols \<open>R\<close> still
  to be processed for the splitter \<open>C\<close>, which may tell the successors apart.
\<close>

definition hop_stable :: "raw_dfa \<Rightarrow> nat set \<Rightarrow> nat set \<Rightarrow> HopcroftInfo \<Rightarrow> bool" where
  "hop_stable r C R info =
     (\<forall>p < length (rd_states r). \<forall>q < length (rd_states r). \<forall>a < rd_alpha_size r.
        hi_class info p = hi_class info q \<longrightarrow>
          settled info (step_sym r p a) (step_sym r q a)
          \<or> (a \<in> R \<and> (step_sym r p a \<in> C) \<noteq> (step_sym r q a \<in> C)))"

definition hop_measure :: "HopcroftInfo \<Rightarrow> nat \<Rightarrow> nat" where
  "hop_measure info n = length (hi_work_queue info) + (n - ps_size (hi_partition info))"

text \<open>One call of \<open>split_and_replace_set\<close>, in terms of classes.\<close>

lemma split_step:
  assumes inv: "ps_inv n (hi_partition info)"
    and X: "sorted_wrt (<) X" "X \<noteq> []" and k: "k < ps_size (hi_partition info)"
  defines "info' \<equiv> split_and_replace_set X info k"
  shows "ps_inv n (hi_partition info')"
    and "hi_alpha_size info' = hi_alpha_size info" "hi_prev info' = hi_prev info"
    and "ps_size (hi_partition info) \<le> ps_size (hi_partition info')"
    and "hop_measure info' n = hop_measure info n"
    and "\<And>e f. e < n \<Longrightarrow> f < n \<Longrightarrow> hi_class info' e = hi_class info' f \<longleftrightarrow>
      hi_class info e = hi_class info f \<and> (hi_class info e = k \<longrightarrow> (e \<in> set X) = (f \<in> set X))"
    and "\<And>e. e < n \<Longrightarrow> hi_class info e \<noteq> k \<Longrightarrow> hi_class info' e = hi_class info e"
    and "(\<forall>j \<in> set (hi_work_queue info). j < ps_size (hi_partition info)) \<Longrightarrow>
      (\<forall>j \<in> set (hi_work_queue info'). j < ps_size (hi_partition info'))"
    and "\<And>x y. x < n \<Longrightarrow> y < n \<Longrightarrow>
      (\<forall>j \<in> set (hi_work_queue info). j < ps_size (hi_partition info)) \<Longrightarrow>
      settled info x y \<Longrightarrow> settled info' x y"
proof -
  define P where "P = hi_partition info"
  obtain res P' where split: "ps_split P k X = (res, P')" by force
  consider (single) "length (ps_subset P k) = 1"
    | (none) "length (ps_subset P k) \<noteq> 1" "res = None"
    | (some) new where "length (ps_subset P k) \<noteq> 1" "res = Some new" by (cases res) auto
  then have "ps_inv n (hi_partition info')
    \<and> hi_alpha_size info' = hi_alpha_size info \<and> hi_prev info' = hi_prev info
    \<and> ps_size P \<le> ps_size (hi_partition info')
    \<and> hop_measure info' n = hop_measure info n
    \<and> (\<forall>e < n. \<forall>f < n. hi_class info' e = hi_class info' f \<longleftrightarrow>
        hi_class info e = hi_class info f \<and> (hi_class info e = k \<longrightarrow> (e \<in> set X) = (f \<in> set X)))
    \<and> (\<forall>e < n. hi_class info e \<noteq> k \<longrightarrow> hi_class info' e = hi_class info e)
    \<and> ((\<forall>j \<in> set (hi_work_queue info). j < ps_size P) \<longrightarrow>
        (\<forall>j \<in> set (hi_work_queue info'). j < ps_size (hi_partition info')) \<and>
        (\<forall>x < n. \<forall>y < n. settled info x y \<longrightarrow> settled info' x y))"
  proof cases
    case single
    then obtain m where m: "ps_subset P k = [m]" by (auto simp: length_Suc_conv)
    have "e = f" if "e < n" "f < n" "ps_class P e = k" "ps_class P f = k" for e f
      using ps_inv_member [OF inv k, folded P_def, of e] ps_inv_member [OF inv k, folded P_def, of f]
        that m by auto
    then have one: "(e \<in> set X) = (f \<in> set X)"
      if "e < n" "f < n" "hi_class info e = hi_class info f" "hi_class info e = k" for e f
      using that by (metis P_def hi_class_def)
    have "info' = info" using single by (simp add: info'_def split_and_replace_set_def P_def)
    with one show ?thesis using inv unfolding P_def by blast
  next
    case none
    note N = ps_split_None [OF inv k X, folded P_def, OF split [unfolded none(2)]]
    have "info' = info"
      using none split N by (simp add: info'_def split_and_replace_set_def P_def)
    then show ?thesis using inv N by (auto simp: P_def hi_class_def)
  next
    case some
    note S = ps_split_Some [OF inv k X, folded P_def, OF split [unfolded some(2)]]
    then obtain b where b: "\<And>e. e < n \<Longrightarrow> ps_class P' e =
        (if ps_class P e = k \<and> (e \<in> set X) = b then new else ps_class P e)" by blast
    have info': "info' = info\<lparr>hi_partition := P', hi_work_queue := hi_work_queue info @ [new]\<rparr>"
      using some split by (simp add: info'_def split_and_replace_set_def P_def)
    have cls: "hi_class info' e =
        (if hi_class info e = k \<and> (e \<in> set X) = b then new else hi_class info e)" if "e < n" for e
      using b [OF that] by (simp add: info' hi_class_def P_def)
    have below: "hi_class info e < new" if "e < n" for e
      using ps_inv_class [OF inv that] S by (simp add: hi_class_def P_def)
    have "ps_size P' \<le> n" using ps.num_bound S by blast
    then have "hop_measure info' n = hop_measure info n"
      using S by (simp add: hop_measure_def info' P_def)
    moreover have "settled info' x y"
      if "\<forall>j \<in> set (hi_work_queue info). j < ps_size P" "x < n" "y < n" "settled info x y" for x y
    proof -
      have q: "j \<noteq> new" if "j \<in> set (hi_work_queue info)" for j
        using \<open>\<forall>j \<in> set (hi_work_queue info). j < ps_size P\<close> that S by auto
      show ?thesis
        using that(4) cls [OF that(2)] cls [OF that(3)] below [OF that(2)] below [OF that(3)] q
        unfolding settled_def
        by (auto simp: info' split: if_splits)
    qed
    moreover have "hi_class info' e = hi_class info' f \<longleftrightarrow>
        hi_class info e = hi_class info f \<and> (hi_class info e = k \<longrightarrow> (e \<in> set X) = (f \<in> set X))"
      if "e < n" "f < n" for e f
      using ps.split_classes [OF inv k X, folded P_def, OF split that]
      by (simp add: hi_class_def info' P_def)
    ultimately show ?thesis using S cls by (auto simp: info' P_def less_Suc_eq)
  qed
  then show "ps_inv n (hi_partition info')"
    "hi_alpha_size info' = hi_alpha_size info" "hi_prev info' = hi_prev info"
    "ps_size (hi_partition info) \<le> ps_size (hi_partition info')"
    "hop_measure info' n = hop_measure info n"
    "\<And>e f. e < n \<Longrightarrow> f < n \<Longrightarrow> hi_class info' e = hi_class info' f \<longleftrightarrow>
      hi_class info e = hi_class info f \<and> (hi_class info e = k \<longrightarrow> (e \<in> set X) = (f \<in> set X))"
    "\<And>e. e < n \<Longrightarrow> hi_class info e \<noteq> k \<Longrightarrow> hi_class info' e = hi_class info e"
    "(\<forall>j \<in> set (hi_work_queue info). j < ps_size (hi_partition info)) \<Longrightarrow>
      (\<forall>j \<in> set (hi_work_queue info'). j < ps_size (hi_partition info'))"
    "\<And>x y. x < n \<Longrightarrow> y < n \<Longrightarrow>
      (\<forall>j \<in> set (hi_work_queue info). j < ps_size (hi_partition info)) \<Longrightarrow>
      settled info x y \<Longrightarrow> settled info' x y"
    unfolding P_def by blast+
qed


text \<open>The whole sweep over the candidates of one symbol.\<close>

lemma split_fold:
  assumes X: "sorted_wrt (<) X" "X \<noteq> []"
  shows "ps_inv n (hi_partition info) \<Longrightarrow> (\<forall>k \<in> set cands. k < ps_size (hi_partition info)) \<Longrightarrow>
    (\<forall>j \<in> set (hi_work_queue info). j < ps_size (hi_partition info)) \<Longrightarrow>
    info' = foldl (split_and_replace_set X) info cands \<Longrightarrow>
    ps_inv n (hi_partition info')
    \<and> hi_alpha_size info' = hi_alpha_size info \<and> hi_prev info' = hi_prev info
    \<and> hop_measure info' n = hop_measure info n
    \<and> (\<forall>e < n. \<forall>f < n. hi_class info' e = hi_class info' f \<longleftrightarrow>
        hi_class info e = hi_class info f \<and> (hi_class info e \<in> set cands \<longrightarrow> (e \<in> set X) = (f \<in> set X)))
    \<and> (\<forall>j \<in> set (hi_work_queue info'). j < ps_size (hi_partition info'))
    \<and> (\<forall>x < n. \<forall>y < n. settled info x y \<longrightarrow> settled info' x y)"
proof (induction cands arbitrary: info)
  case (Cons k cands)
  define info1 where "info1 = split_and_replace_set X info k"
  have k: "k < ps_size (hi_partition info)" using Cons.prems by simp
  note S = split_step [OF Cons.prems(1) X k, folded info1_def]
  have p: "\<forall>j \<in> set cands. j < ps_size (hi_partition info1)"
    using Cons.prems(2) S(4) by auto
  have i': "info' = foldl (split_and_replace_set X) info1 cands"
    using Cons.prems(4) by (simp add: info1_def)
  note I = Cons.IH [OF S(1) p S(8) [OF Cons.prems(3)] i']
  have I5: "hi_class info' e = hi_class info' f \<longleftrightarrow>
        hi_class info1 e = hi_class info1 f \<and> (hi_class info1 e \<in> set cands \<longrightarrow> (e \<in> set X) = (f \<in> set X))"
    if "e < n" "f < n" for e f
    using I that by blast
  have "hi_class info' e = hi_class info' f \<longleftrightarrow> hi_class info e = hi_class info f \<and>
      (hi_class info e \<in> set (k # cands) \<longrightarrow> (e \<in> set X) = (f \<in> set X))" if "e < n" "f < n" for e f
    using I5 [OF that] S(6) [OF that] S(7) [OF that(1)]
    by (cases "hi_class info e = k") auto
  moreover have "settled info' x y" if "x < n" "y < n" "settled info x y" for x y
    using I S(9) [OF that(1,2) Cons.prems(3) that(3)] that by blast
  ultimately show ?case using I S(2,3,5) by (simp del: set_simps)
qed simp

text \<open>
  One symbol: afterwards the members of a class agree on whether the symbol leads into the
  splitter \<open>C\<close>.
\<close>

lemma process_sym_spec:
  assumes base: "hop_base r info" and C: "set C \<subseteq> {..<length (rd_states r)}"
    and closed: "\<And>x y. x < length (rd_states r) \<Longrightarrow> y < length (rd_states r) \<Longrightarrow>
      equiv_states r x y \<Longrightarrow> (x \<in> set C) = (y \<in> set C)"
    and a: "a < rd_alpha_size r" and wf: "dfa_wf r"
    and stable: "hop_stable r (set C) R info"
  defines "info' \<equiv> process_sym C info a"
  shows "hop_base r info' \<and> hop_stable r (set C) (R - {a}) info'
    \<and> hop_measure info' (length (rd_states r)) = hop_measure info (length (rd_states r))"
proof -
  define n where "n = length (rd_states r)"
  define X where "X = sym_preds info C a"
  have B: "ps_inv n (hi_partition info)" "hi_alpha_size info = rd_alpha_size r"
    "prev_right r ({..<n} \<times> {..<rd_alpha_size r}) (hi_prev info)"
    "\<forall>k \<in> set (hi_work_queue info). k < ps_size (hi_partition info)"
    "\<And>p q. p < n \<Longrightarrow> q < n \<Longrightarrow> hi_class info p = hi_class info q \<Longrightarrow> fires r p = fires r q"
    "\<And>p q. p < n \<Longrightarrow> q < n \<Longrightarrow> equiv_states r p q \<Longrightarrow> hi_class info p = hi_class info q"
    using base unfolding hop_base_def n_def [symmetric] by blast+
  have X: "\<And>i. i \<in> set X \<longleftrightarrow> i < n \<and> step_sym r i a \<in> set C" "sorted_wrt (<) X"
    using sym_preds_spec [OF B(3) [unfolded n_def] C a] by (auto simp: X_def n_def)
  have below: "step_sym r p b < n" if "p < n" "b < rd_alpha_size r" for p b
    using step_sym_below [OF wf] that by (simp add: n_def)
  have F: "ps_inv n (hi_partition info')
    \<and> hi_alpha_size info' = hi_alpha_size info \<and> hi_prev info' = hi_prev info
    \<and> hop_measure info' n = hop_measure info n
    \<and> (\<forall>e < n. \<forall>f < n. hi_class info' e = hi_class info' f \<longleftrightarrow>
        hi_class info e = hi_class info f \<and> (e \<in> set X) = (f \<in> set X))
    \<and> (\<forall>j \<in> set (hi_work_queue info'). j < ps_size (hi_partition info'))
    \<and> (\<forall>x < n. \<forall>y < n. settled info x y \<longrightarrow> settled info' x y)"
  proof (cases "X = []")
    case True
    then have "info' = info" by (simp add: info'_def process_sym_def X_def)
    with True B(1,4) show ?thesis by simp
  next
    case False
    define cands where "cands = ps_find_overlapping (hi_partition info) X"
    have cands: "set cands = hi_class info ` set X"
      using ps_find_overlapping_spec(2) [OF B(1), of X] X(1) by (auto simp: cands_def hi_class_def)
    have lt: "\<forall>k \<in> set cands. k < ps_size (hi_partition info)"
      using cands X(1) ps_inv_class [OF B(1)] by (auto simp: hi_class_def)
    have "info' = foldl (split_and_replace_set X) info cands"
      using False by (simp add: info'_def process_sym_def X_def [symmetric] cands_def Let_def)
    note S = split_fold [OF X(2) False B(1) lt B(4) this]
    have "hi_class info e = hi_class info f \<and> (hi_class info e \<in> set cands \<longrightarrow> (e \<in> set X) = (f \<in> set X))
        \<longleftrightarrow> hi_class info e = hi_class info f \<and> (e \<in> set X) = (f \<in> set X)" for e f
      unfolding cands by (metis imageI)
    with S show ?thesis by simp
  qed
  then have cls: "hi_class info' e = hi_class info' f \<longleftrightarrow>
      hi_class info e = hi_class info f \<and> (e \<in> set X) = (f \<in> set X)" if "e < n" "f < n" for e f
    using that by blast
  have settled: "settled info' x y" if "x < n" "y < n" "settled info x y" for x y
    using F that by blast
  have "hi_class info' p = hi_class info' q" if "p < n" "q < n" "equiv_states r p q" for p q
    using cls [OF that(1,2)] B(6) [OF that] X(1) that below a
      closed [OF _ _ equiv_states_step [OF that(3) a]] by (simp add: n_def)
  then have "hop_base r info'"
  proof -
    assume eq: "\<And>p q. p < n \<Longrightarrow> q < n \<Longrightarrow> equiv_states r p q \<Longrightarrow> hi_class info' p = hi_class info' q"
    have fires: "fires r p = fires r q" if "p < n" "q < n" "hi_class info' p = hi_class info' q" for p q
      using B(5) [OF that(1,2)] cls [OF that(1,2)] that(3) by blast
    have "hi_alpha_size info' = rd_alpha_size r" "hi_prev info' = hi_prev info"
      using F B(2) by auto
    then show ?thesis
      unfolding hop_base_def n_def [symmetric] using F B(3) eq fires by metis
  qed
  moreover have "hop_stable r (set C) (R - {a}) info'"
    unfolding hop_stable_def n_def [symmetric]
  proof (intro allI impI)
    fix p q b
    assume pq: "p < n" "q < n" "b < rd_alpha_size r" "hi_class info' p = hi_class info' q"
    then have eq: "hi_class info p = hi_class info q" "(p \<in> set X) = (q \<in> set X)"
      using cls by auto
    then consider "settled info (step_sym r p b) (step_sym r q b)"
      | "b \<in> R" "(step_sym r p b \<in> set C) \<noteq> (step_sym r q b \<in> set C)"
      using stable pq unfolding hop_stable_def n_def [symmetric] by blast
    then show "settled info' (step_sym r p b) (step_sym r q b)
        \<or> (b \<in> R - {a} \<and> (step_sym r p b \<in> set C) \<noteq> (step_sym r q b \<in> set C))"
    proof cases
      case 1
      then show ?thesis using settled below pq by blast
    next
      case 2
      then show ?thesis using eq(2) X(1) pq by auto
    qed
  qed
  ultimately show ?thesis using F by (simp add: n_def)
qed


text \<open>All the symbols of one splitter.\<close>

lemma process_syms_spec:
  assumes C: "set C \<subseteq> {..<length (rd_states r)}"
    and closed: "\<And>x y. x < length (rd_states r) \<Longrightarrow> y < length (rd_states r) \<Longrightarrow>
      equiv_states r x y \<Longrightarrow> (x \<in> set C) = (y \<in> set C)"
    and wf: "dfa_wf r"
  shows "hop_base r info \<Longrightarrow> hop_stable r (set C) R info \<Longrightarrow> set syms \<subseteq> {..<rd_alpha_size r} \<Longrightarrow>
    hop_base r (foldl (process_sym C) info syms)
    \<and> hop_stable r (set C) (R - set syms) (foldl (process_sym C) info syms)
    \<and> hop_measure (foldl (process_sym C) info syms) (length (rd_states r))
        = hop_measure info (length (rd_states r))"
proof (induction syms arbitrary: info R)
  case (Cons a syms)
  have a: "a < rd_alpha_size r" and syms: "set syms \<subseteq> {..<rd_alpha_size r}"
    using Cons.prems(3) by auto
  note P = process_sym_spec [OF Cons.prems(1) C closed a wf Cons.prems(2)]
  have "R - {a} - set syms = R - set (a # syms)" by auto
  with Cons.IH [of "process_sym C info a" "R - {a}"] P syms show ?case by simp
qed simp

definition hop_inv :: "raw_dfa \<Rightarrow> HopcroftInfo \<Rightarrow> bool" where
  "hop_inv r info = (hop_base r info \<and> hop_stable r {} {} info)"

text \<open>Taking a class off the queue makes its states the splitter for every symbol.\<close>

lemma pop_stable:
  assumes inv: "hop_inv r info" and wf: "dfa_wf r" and q: "hi_work_queue info = k # work_queue"
  defines "info' \<equiv> info\<lparr>hi_work_queue := work_queue\<rparr>" and "C \<equiv> ps_subset (hi_partition info) k"
  shows "hop_base r info'" "hop_stable r (set C) {..<rd_alpha_size r} info'"
    "set C \<subseteq> {..<length (rd_states r)}"
    "\<And>x y. x < length (rd_states r) \<Longrightarrow> y < length (rd_states r) \<Longrightarrow>
       equiv_states r x y \<Longrightarrow> (x \<in> set C) = (y \<in> set C)"
    "hop_measure info (length (rd_states r)) = Suc (hop_measure info' (length (rd_states r)))"
proof -
  have base: "hop_base r info" and stable: "hop_stable r {} {} info"
    using inv by (auto simp: hop_inv_def)
  have C: "x \<in> set C \<longleftrightarrow> x < length (rd_states r) \<and> hi_class info x = k" for x
    using base q unfolding C_def hop_base_def hi_class_def by (simp add: ps_inv_member)
  then show "set C \<subseteq> {..<length (rd_states r)}" by auto
  show "(x \<in> set C) = (y \<in> set C)"
    if "x < length (rd_states r)" "y < length (rd_states r)" "equiv_states r x y" for x y
  proof -
    have "hi_class info x = hi_class info y" using base that unfolding hop_base_def by blast
    with that show ?thesis by (simp add: C)
  qed
  have cls: "hi_class info' = hi_class info" by (simp add: info'_def hi_class_def fun_eq_iff)
  show "hop_base r info'"
  proof -
    have sel: "hi_partition info' = hi_partition info" "hi_alpha_size info' = hi_alpha_size info"
      "hi_prev info' = hi_prev info" "hi_work_queue info' = work_queue"
      by (simp_all add: info'_def)
    have "\<forall>j \<in> set work_queue. j < ps_size (hi_partition info)"
      using base q unfolding hop_base_def by (metis list.set_intros(2))
    then show ?thesis using base unfolding hop_base_def cls sel by blast
  qed
  show "hop_measure info (length (rd_states r)) = Suc (hop_measure info' (length (rd_states r)))"
    by (simp add: hop_measure_def info'_def q)
  have "settled info' x y \<or> (x \<in> set C) \<noteq> (y \<in> set C)"
    if "settled info x y" "x < length (rd_states r)" "y < length (rd_states r)" for x y
    using that q unfolding settled_def cls C by (auto simp: info'_def)
  then show "hop_stable r (set C) {..<rd_alpha_size r} info'"
    using stable step_sym_below [OF wf] unfolding hop_stable_def cls by blast
qed

lemma dfa_min_loop_spec:
  assumes "dfa_wf r"
  shows "hop_inv r info \<Longrightarrow> hop_measure info (length (rd_states r)) \<le> fuel \<Longrightarrow>
    \<exists>info'. dfa_min_loop fuel info = Some info' \<and> hop_inv r info' \<and> hi_work_queue info' = []"
proof (induction fuel arbitrary: info)
  case 0
  then have "hi_work_queue info = []" by (simp add: hop_measure_def)
  with 0 show ?case by simp
next
  case (Suc fuel)
  show ?case
  proof (cases "hi_work_queue info")
    case Nil
    with Suc.prems show ?thesis by simp
  next
    case (Cons k work_queue)
    define C where "C = ps_subset (hi_partition info) k"
    define info1 where "info1 = info\<lparr>hi_work_queue := work_queue\<rparr>"
    note pop = pop_stable [OF Suc.prems(1) assms Cons, folded C_def info1_def]
    define info2 where "info2 = foldl (process_sym C) info1 [0..<rd_alpha_size r]"
    have P: "hop_base r info2 \<and> hop_stable r (set C) ({..<rd_alpha_size r} - set [0..<rd_alpha_size r]) info2
      \<and> hop_measure info2 (length (rd_states r)) = hop_measure info1 (length (rd_states r))"
      unfolding info2_def
      by (rule process_syms_spec [OF pop(3,4) assms pop(1,2)]) auto
    then have "hop_inv r info2"
      by (simp add: hop_inv_def hop_stable_def)
    moreover have "hop_measure info2 (length (rd_states r)) \<le> fuel"
      using P pop(5) Suc.prems(2) by simp
    ultimately obtain info' where "dfa_min_loop fuel info2 = Some info'" "hop_inv r info'"
      "hi_work_queue info' = []"
      using Suc.IH by blast
    moreover have "dfa_min_loop (Suc fuel) info = dfa_min_loop fuel info2"
    proof -
      have "hi_alpha_size info = rd_alpha_size r"
        using Suc.prems(1) by (simp add: hop_inv_def hop_base_def)
      then show ?thesis
        by (simp add: Cons Let_def C_def info1_def info2_def)
    qed
    ultimately show ?thesis by simp
  qed
qed

text \<open>The state the constructor builds.\<close>

lemma hop_inv_create:
  assumes wf: "dfa_wf r"
  shows "hop_inv r (HopcroftInfo_create r)"
    and "hop_measure (HopcroftInfo_create r) (length (rd_states r)) \<le> length (rd_states r)"
    and "length (hi_prev (HopcroftInfo_create r)) = length (rd_states r)"
proof -
  define n where "n = length (rd_states r)"
  define info where "info = HopcroftInfo_create r"
  obtain s2s q where map: "create_map r = (s2s, q)" by force
  note M = create_map_spec [OF map, folded n_def]
  have info: "hi_partition info = ps_create s2s" "hi_work_queue info = q"
    "hi_alpha_size info = rd_alpha_size r"
    by (simp_all add: info_def HopcroftInfo_create_def map Let_def)
  have P: "ps_inv n (ps_create s2s)"
    "\<And>e. e < n \<Longrightarrow> hi_class info e = s2s ! e"
    using ps_create_inv [OF M(3)] M(1) by (auto simp: hi_class_def info)
  have q: "k < ps_size (hi_partition info)" if k: "k \<in> set q" for k
  proof -
    obtain e where e: "e < n" "k = s2s ! e" using M(5) [OF k] M(1) by (metis in_set_conv_nth)
    from ps_inv_class [OF P(1) e(1)] show ?thesis
      using P(2) [OF e(1)] e(2) by (simp add: hi_class_def info)
  qed
  have fires: "hi_class info x = hi_class info y \<longleftrightarrow> fires r x = fires r y" if "x < n" "y < n" for x y
    using P(2) that M(2) by simp
  have base: "hop_base r info"
    unfolding hop_base_def n_def [symmetric]
    using P(1) q prev_create [OF wf, folded info_def n_def] fires equiv_states_fires
    by (simp add: info)
  have "settled info x y" if "x < n" "y < n" for x y
  proof (cases "fires r x = fires r y")
    case True
    then show ?thesis using fires that by (simp add: settled_def)
  next
    case False
    then consider "fires r x \<noteq> ({}, {})" | "fires r y \<noteq> ({}, {})" by metis
    then show ?thesis
    proof cases
      case 1
      then have "hi_class info x \<in> set (hi_work_queue info)" using M(6) that P(2) by (simp add: info)
      with False fires [OF that] show ?thesis unfolding settled_def by metis
    next
      case 2
      then have "hi_class info y \<in> set (hi_work_queue info)" using M(6) that P(2) by (simp add: info)
      with False fires [OF that] show ?thesis unfolding settled_def by metis
    qed
  qed
  then have "hop_stable r {} {} info"
    unfolding hop_stable_def n_def [symmetric] using step_sym_below [OF wf, folded n_def] by blast
  with base show "hop_inv r (HopcroftInfo_create r)" by (simp add: hop_inv_def info_def)
  have "length q = card (set q)" using M(4) by (simp add: distinct_card)
  also have "\<dots> \<le> card {..<ps_size (hi_partition info)}" using q by (intro card_mono) auto
  finally show "hop_measure (HopcroftInfo_create r) (length (rd_states r)) \<le> length (rd_states r)"
    using ps.num_bound [OF P(1)] by (simp add: hop_measure_def n_def [symmetric] info_def [symmetric] info)
  show "length (hi_prev (HopcroftInfo_create r)) = length (rd_states r)"
    using prev_create [OF wf] by (simp add: prev_right_def prev_shape_def)
qed


text \<open>When the queue is empty the classes are the equivalence classes of states.\<close>

lemma hop_inv_final:
  assumes wf: "dfa_wf r" and inv: "hop_inv r info" and q: "hi_work_queue info = []"
    and pq: "p < length (rd_states r)" "q < length (rd_states r)"
  shows "hi_class info p = hi_class info q \<longleftrightarrow> equiv_states r p q"
proof
  have "fires r (run_syms r p w) = fires r (run_syms r q w)"
    if "hi_class info p = hi_class info q" "p < length (rd_states r)" "q < length (rd_states r)"
      "word_ok r w" for w
    using that
  proof (induction w arbitrary: p q)
    case Nil
    then have "fires r p = fires r q" using inv unfolding hop_inv_def hop_base_def by blast
    then show ?case by simp
  next
    case (Cons a w)
    then have "settled info (step_sym r p a) (step_sym r q a)"
      using inv unfolding hop_inv_def hop_stable_def by (metis empty_iff word_ok_simps(2))
    then have "hi_class info (step_sym r p a) = hi_class info (step_sym r q a)"
      by (simp add: settled_def q)
    from Cons.IH [OF this] Cons.prems(2-4) show ?case by (simp add: step_sym_below [OF wf])
  qed
  then show "equiv_states r p q" if "hi_class info p = hi_class info q"
    unfolding equiv_states_def using that pq by blast
  show "hi_class info p = hi_class info q" if "equiv_states r p q"
    using inv pq that unfolding hop_inv_def hop_base_def by blast
qed

lemma dfa_min_result:
  assumes wf: "dfa_wf r"
  obtains info where "dfa_min (HopcroftInfo_create r) = Some info" "hop_inv r info"
    "\<And>p q. p < length (rd_states r) \<Longrightarrow> q < length (rd_states r) \<Longrightarrow>
       hi_class info p = hi_class info q \<longleftrightarrow> equiv_states r p q"
  using dfa_min_loop_spec [OF wf hop_inv_create(1) [OF wf] hop_inv_create(2) [OF wf]] hop_inv_final [OF wf] that
  unfolding dfa_min_def hop_inv_create(3) [OF wf] by blast

section \<open>Lemmas: the new states\<close>

lemma eq_state_fold:
  assumes "distinct (map snd firsts)" "\<forall>m \<in> set firsts. snd m < length init"
    "j < length firsts"
  shows "foldl (\<lambda>eq (m, new_id). eq[snd m := trunc16 new_id]) init
      (zip firsts [0..<length firsts]) ! snd (firsts ! j) = trunc16 j"
proof -
  let ?f = "\<lambda>ord. foldl (\<lambda>eq (m, new_id). eq[snd m := trunc16 new_id]) init (zip ord [0..<length ord])"
  have "length (?f ord) = length init" for ord :: "('a \<times> nat) list"
    by (induction ord rule: rev_induct) auto
  then have "j < length firsts \<Longrightarrow> distinct (map snd firsts) \<Longrightarrow>
      \<forall>m \<in> set firsts. snd m < length init \<Longrightarrow> ?f firsts ! snd (firsts ! j) = trunc16 j" for j
  proof (induction firsts arbitrary: j rule: rev_induct)
    case (snoc m ord)
    show ?case
    proof (cases "j = length ord")
      case True
      then show ?thesis using snoc.prems by simp
    next
      case False
      then have j: "j < length ord" using snoc.prems by simp
      then have "snd (ord ! j) \<in> snd ` set ord" by simp
      moreover have "snd m \<notin> snd ` set ord" using snoc.prems(2) by simp
      ultimately have "snd (ord ! j) \<noteq> snd m" by metis
      with snoc j show ?thesis by (simp add: nth_append)
    qed
  qed simp
  then show ?thesis using assms by blast
qed

lemma old_to_new_fold:
  assumes inv: "ps_inv n P"
  shows "k \<le> ps_size P \<Longrightarrow>
    (let o2n = foldl (\<lambda>o2n t. foldl (\<lambda>o2n i. o2n[i := eq_state ! t]) o2n (ps_subset P t))
        (replicate n 0) [0..<k]
     in length o2n = n \<and> (\<forall>e < n. ps_class P e < k \<longrightarrow> o2n ! e = eq_state ! ps_class P e))"
proof (induction k)
  case (Suc k)
  then have k: "k < ps_size P" by simp
  show ?case
    using Suc ps_inv_member [OF inv k]
    by (auto simp: Let_def foldl_list_update_const less_Suc_eq)
qed simp

text \<open>
  \<open>mapping_new_states\<close> numbers the classes by \<open>old_to_new\<close>; the new state \<open>j\<close> is a copy of
  the least member \<open>rep j\<close> of the class with number \<open>j\<close>, and the numbers follow the order of
  the least members.
\<close>

lemma mapping_new_states_spec:
  assumes inv: "ps_inv n (hi_partition info)" and n: "n = length (rd_states r)"
    "length (hi_prev info) = n" "n \<le> 2 ^ 16"
    and res: "mapping_new_states info r = (old_to_new, r')"
  obtains rep where
    "\<And>e. e < n \<Longrightarrow> old_to_new ! e < ps_size (hi_partition info)"
    "\<And>e f. e < n \<Longrightarrow> f < n \<Longrightarrow> old_to_new ! e = old_to_new ! f \<longleftrightarrow> hi_class info e = hi_class info f"
    "\<And>j. j < ps_size (hi_partition info) \<Longrightarrow> rep j < n \<and> old_to_new ! rep j = j"
    "\<And>e. e < n \<Longrightarrow> rep (old_to_new ! e) \<le> e"
    "\<And>i j. i < j \<Longrightarrow> j < ps_size (hi_partition info) \<Longrightarrow> rep i < rep j"
    "r' = r\<lparr>rd_states := map (\<lambda>j. rd_states r ! rep j) [0..<ps_size (hi_partition info)]\<rparr>"
proof -
  define P where "P = hi_partition info"
  define np where "np = ps_size P"
  define L where "L = map (\<lambda>i. (hd (ps_subset P i), i)) [0..<np]"
  define firsts where "firsts = sort_key fst L"
  define eq_state where "eq_state = foldl (\<lambda>eq (m, new_id). eq[snd m := trunc16 new_id])
      (replicate np 0) (zip firsts [0..<np])"
  have inv: "ps_inv n P" using inv by (simp add: P_def)
  have np: "np \<le> n" using ps.num_bound [OF inv] by (simp add: np_def)
  have len: "length firsts = np" by (simp add: firsts_def L_def)
  have set: "set firsts = (\<lambda>i. (hd (ps_subset P i), i)) ` {..<np}"
    by (simp add: firsts_def L_def atLeast0LessThan)
  have ord_nth: "snd (firsts ! j) < np" "fst (firsts ! j) = hd (ps_subset P (snd (firsts ! j)))"
    if "j < np" for j
    using nth_mem [of j firsts] that len set by auto
  have dist: "distinct (map snd firsts)"
  proof -
    have "distinct firsts" by (simp add: firsts_def L_def distinct_map inj_on_def)
    moreover have "inj_on snd (set firsts)" by (auto simp: set inj_on_def)
    ultimately show ?thesis by (simp add: distinct_map)
  qed
  have eq: "eq_state ! snd (firsts ! j) = j" if "j < np" for j
    using eq_state_fold [OF dist, of "replicate np 0" j] ord_nth(1) that len set np n(3)
    by (simp add: eq_state_def trunc16_id)
  have o2n: "old_to_new ! e = eq_state ! hi_class info e" if "e < n" for e
    using old_to_new_fold [OF inv, of np eq_state] res that n(2) ps_inv_class [OF inv that]
    by (auto simp: mapping_new_states_def Let_def P_def [symmetric] np_def [symmetric] L_def [symmetric]
        firsts_def [symmetric] eq_state_def [symmetric] hi_class_def)
  have cover: "\<exists>j < np. snd (firsts ! j) = k" if "k < np" for k
  proof -
    have "(hd (ps_subset P k), k) \<in> set firsts" using that set by auto
    then show ?thesis using len by (metis in_set_conv_nth snd_conv)
  qed
  have cls: "hi_class info e < np" if "e < n" for e
    using ps_inv_class [OF inv that] by (simp add: hi_class_def P_def np_def)
  have j_of: "\<exists>j < np. hi_class info e = snd (firsts ! j) \<and> old_to_new ! e = j" if "e < n" for e
    using cover [OF cls [OF that]] o2n [OF that] eq by metis
  define rep where "rep j = fst (firsts ! j)" for j
  have rep: "rep j < n" "hi_class info (rep j) = snd (firsts ! j)" if "j < np" for j
  proof -
    have k: "snd (firsts ! j) < ps_size P" using ord_nth(1) [OF that] by (simp add: np_def)
    have "hd (ps_subset P (snd (firsts ! j))) \<in> set (ps_subset P (snd (firsts ! j)))"
      using ps_inv_subset [OF inv k] by simp
    then have "rep j \<in> set (ps_subset P (snd (firsts ! j)))"
      using ord_nth(2) [OF that] by (simp add: rep_def)
    then show "rep j < n" "hi_class info (rep j) = snd (firsts ! j)"
      using ps_inv_member [OF inv k] by (auto simp: hi_class_def P_def)
  qed
  show ?thesis
  proof (rule that [of rep])
    show "old_to_new ! e < ps_size (hi_partition info)" if "e < n" for e
      using j_of [OF that] by (auto simp: P_def np_def)
    show "old_to_new ! e = old_to_new ! f \<longleftrightarrow> hi_class info e = hi_class info f"
      if "e < n" "f < n" for e f
      using j_of [OF that(1)] j_of [OF that(2)] o2n that by metis
    show rep_j: "rep j < n \<and> old_to_new ! rep j = j" if "j < ps_size (hi_partition info)" for j
      using rep [of j] that o2n [of "rep j"] eq [of j] by (simp add: P_def np_def)
    show "rep (old_to_new ! e) \<le> e" if e: "e < n" for e
    proof -
      obtain j where j: "j < np" "hi_class info e = snd (firsts ! j)" "old_to_new ! e = j"
        using j_of [OF e] by blast
      have k: "hi_class info e < ps_size P" using cls [OF e] by (simp add: np_def)
      have "e \<in> set (ps_subset P (hi_class info e))"
        using ps_inv_member [OF inv k] e by (simp add: hi_class_def P_def)
      moreover have "rep j = hd (ps_subset P (hi_class info e))"
        using ord_nth(2) [OF j(1)] j(2) by (simp add: rep_def)
      moreover have "sorted_wrt (<) (ps_subset P (hi_class info e))" using ps_inv_subset [OF inv k] by simp
      ultimately show ?thesis
        using j(3) by (cases "ps_subset P (hi_class info e)") (auto simp: less_imp_le)
    qed
    show "rep i < rep j" if "i < j" "j < ps_size (hi_partition info)" for i j
    proof -
      have "sorted (map fst firsts)" by (simp add: firsts_def)
      then have "rep i \<le> rep j"
        using that len by (auto simp: rep_def sorted_iff_nth_mono P_def np_def)
      moreover have "rep i \<noteq> rep j"
      proof
        assume "rep i = rep j"
        then show False using rep_j [of i] rep_j [of j] that by simp
      qed
      ultimately show ?thesis by simp
    qed
    have "map (\<lambda>m. rd_states r ! fst m) firsts = map (\<lambda>j. rd_states r ! rep j) [0..<np]"
      by (rule nth_equalityI) (simp_all add: len rep_def)
    then show "r' = r\<lparr>rd_states := map (\<lambda>j. rd_states r ! rep j) [0..<ps_size (hi_partition info)]\<rparr>"
      using res by (simp add: mapping_new_states_def Let_def P_def [symmetric] np_def [symmetric]
        L_def [symmetric] firsts_def [symmetric])
  qed
qed


text \<open>The map from old to new states is a homomorphism onto the new DFA.\<close>

definition dfa_quotient :: "raw_dfa \<Rightarrow> raw_dfa \<Rightarrow> (nat \<Rightarrow> nat) \<Rightarrow> bool" where
  "dfa_quotient r r' h =
     (dfa_wf r' \<and> rd_alpha_size r' = rd_alpha_size r \<and> rd_alpha_remap r' = rd_alpha_remap r
      \<and> rd_kind r' = rd_kind r
      \<and> rd_start_anchored r' = h (rd_start_anchored r)
      \<and> rd_start_floating r' = h (rd_start_floating r)
      \<and> (\<forall>p < length (rd_states r). h p < length (rd_states r') \<and> h p \<le> p \<and> fires r' (h p) = fires r p
           \<and> (\<forall>a < rd_alpha_size r. step_sym r' (h p) a = h (step_sym r p a))
           \<and> (\<forall>q < length (rd_states r). h p = h q \<longleftrightarrow> equiv_states r p q))
      \<and> (\<forall>j < length (rd_states r'). \<exists>p < length (rd_states r). h p = j))"

lemma quotient_run:
  assumes "dfa_wf r" "dfa_quotient r r' h"
  shows "p < length (rd_states r) \<Longrightarrow> word_ok r w \<Longrightarrow> run_syms r' (h p) w = h (run_syms r p w)"
proof (induction w arbitrary: p)
  case (Cons a w)
  then show ?case using assms step_sym_below [OF assms(1)] by (simp add: dfa_quotient_def)
qed simp

lemma quotient_fires:
  assumes "dfa_wf r" "dfa_quotient r r' h" "p < length (rd_states r)" "word_ok r w"
  shows "fires r' (run_syms r' (h p) w) = fires r (run_syms r p w)"
  using quotient_run [OF assms] run_syms_below [OF assms(1,3,4)] assms(2)
  by (simp add: dfa_quotient_def)

lemma quotient_distinct:
  assumes wf: "dfa_wf r" and quot: "dfa_quotient r r' h"
    and ij: "i < length (rd_states r')" "j < length (rd_states r')" "equiv_states r' i j"
  shows "i = j"
proof -
  obtain p q where pq: "p < length (rd_states r)" "h p = i" "q < length (rd_states r)" "h q = j"
    using quot ij(1,2) unfolding dfa_quotient_def by blast
  have "fires r (run_syms r p w) = fires r (run_syms r q w)" if "word_ok r w" for w
  proof -
    have "word_ok r' w" using that quot by (simp add: word_ok_def dfa_quotient_def)
    then have "fires r' (run_syms r' (h p) w) = fires r' (run_syms r' (h q) w)"
      using ij(3) pq by (simp add: equiv_states_def)
    then show ?thesis using quotient_fires [OF wf quot _ that] pq by metis
  qed
  then have "equiv_states r p q" by (simp add: equiv_states_def)
  then show ?thesis using quot pq unfolding dfa_quotient_def by blast
qed

lemma new_dfa_quotient:
  assumes wf: "dfa_wf r" and inv: "hop_inv r info"
    and cls: "\<And>p q. p < length (rd_states r) \<Longrightarrow> q < length (rd_states r) \<Longrightarrow>
       hi_class info p = hi_class info q \<longleftrightarrow> equiv_states r p q"
  shows "(\<exists>h. dfa_quotient r (new_dfa r info) h)
    \<and> length (rd_states (new_dfa r info)) = ps_size (hi_partition info)"
proof -
  define n where "n = length (rd_states r)"
  define np where "np = ps_size (hi_partition info)"
  have pinv: "ps_inv n (hi_partition info)" and alpha: "hi_alpha_size info = rd_alpha_size r"
    and prev: "length (hi_prev info) = n"
    using inv by (auto simp: hop_inv_def hop_base_def n_def prev_right_def prev_shape_def)
  show ?thesis
  proof (cases "np = n")
    case True
    have "new_dfa r info = r" using True prev by (simp add: new_dfa_def np_def)
    moreover have "inj_on (hi_class info) {..<n}"
    proof (rule eq_card_imp_inj_on)
      have "k \<in> hi_class info ` {..<n}" if "k < np" for k
      proof -
        have k: "k < ps_size (hi_partition info)" using that by (simp add: np_def)
        have "hd (ps_subset (hi_partition info) k) \<in> set (ps_subset (hi_partition info) k)"
          using ps_inv_subset [OF pinv k] by simp
        then have "hd (ps_subset (hi_partition info) k) < n
            \<and> k = hi_class info (hd (ps_subset (hi_partition info) k))"
          using ps_inv_member [OF pinv k] unfolding hi_class_def by metis
        then show ?thesis by (metis imageI lessThan_iff)
      qed
      moreover have "hi_class info ` {..<n} \<subseteq> {..<np}"
        using ps_inv_class [OF pinv] by (auto simp: hi_class_def np_def)
      ultimately have "hi_class info ` {..<n} = {..<np}" by blast
      then show "card (hi_class info ` {..<n}) = card {..<n}" using True by simp
    qed simp
    ultimately show ?thesis
      using wf cls True
      by (intro conjI exI [of _ "\<lambda>p. p"])
        (auto simp: dfa_quotient_def n_def np_def step_sym_below inj_on_def)
  next
    case False
    obtain o2n r1 where m: "mapping_new_states info r = (o2n, r1)" by force
    have n16: "n \<le> 2 ^ 16" using wf by (simp add: dfa_wf_def n_def)
    from mapping_new_states_spec [OF pinv n_def prev n16 m, folded np_def] obtain rep where
      o: "\<And>e. e < n \<Longrightarrow> o2n ! e < np"
        "\<And>e f. e < n \<Longrightarrow> f < n \<Longrightarrow> o2n ! e = o2n ! f \<longleftrightarrow> hi_class info e = hi_class info f"
      and rep: "\<And>j. j < np \<Longrightarrow> rep j < n \<and> o2n ! rep j = j"
        "\<And>e. e < n \<Longrightarrow> rep (o2n ! e) \<le> e"
        "\<And>i j. i < j \<Longrightarrow> j < np \<Longrightarrow> rep i < rep j"
      and r1: "r1 = r\<lparr>rd_states := map (\<lambda>j. rd_states r ! rep j) [0..<np]\<rparr>"
      by blast
    define r' where "r' = new_dfa r info"
    have r': "r' = renumber_new_states info o2n r1"
      using False prev m by (simp add: r'_def new_dfa_def np_def)
    have states: "length (rd_states r') = np"
      "\<And>j. j < np \<Longrightarrow> rd_states r' ! j = renumber_dstate (rd_alpha_size r) o2n (rd_states r ! rep j)"
      by (simp_all add: r' renumber_new_states_def r1 alpha)
    have nxt: "length (ds_next (rd_states r ! p)) = rd_alpha_size r" "ds_daddy (rd_states r ! p) < n"
      if "p < n" for p
      using wf that by (auto simp: dfa_wf_def n_def)
    have below: "step_sym r p a < n" if "p < n" "a < rd_alpha_size r" for p a
      using step_sym_below [OF wf] that by (simp add: n_def)
    have step: "step_sym r' j a = o2n ! step_sym r (rep j) a" if "j < np" "a < rd_alpha_size r" for j a
      using states(2) [OF that(1)] nxt(1) rep(1) [OF that(1)] that(2)
      by (simp add: step_sym_def renumber_dstate_def)
    have fires: "fires r' j = fires r (rep j)" if "j < np" for j
      using states(2) [OF that] by (simp add: fires_def renumber_dstate_def)
    have eqv: "equiv_states r p q \<longleftrightarrow> o2n ! p = o2n ! q" if "p < n" "q < n" for p q
      using o(2) cls that by (simp add: n_def)
    have rep_eqv: "equiv_states r (rep (o2n ! p)) p" if "p < n" for p
      using eqv rep(1) [OF o(1) [OF that]] that by blast
    have rep_le: "j \<le> rep j" if "j < np" for j
      using that
    proof (induction j)
      case (Suc j)
      then show ?case using rep(3) [of j "Suc j"] by simp
    qed simp
    have "dfa_wf r'"
      unfolding dfa_wf_def states(1)
    proof (intro conjI ballI)
      fix ds assume "ds \<in> set (rd_states r')"
      then obtain j where j: "j < np" "ds = rd_states r' ! j" using states(1) by (metis in_set_conv_nth)
      have ds: "ds = renumber_dstate (rd_alpha_size r) o2n (rd_states r ! rep j)" using states(2) j by simp
      have repj: "rep j < n" using rep(1) [OF j(1)] by blast
      have alp: "rd_alpha_size r' = rd_alpha_size r" by (simp add: r' renumber_new_states_def r1)
      show "length (ds_next ds) = rd_alpha_size r'"
        using nxt(1) [OF repj] alp by (simp add: ds renumber_dstate_def)
      show "ds_daddy ds < np" using nxt(2) [OF repj] o(1) by (simp add: ds renumber_dstate_def)
      fix t assume "t \<in> set (ds_next ds)"
      then obtain x where "x \<in> set (ds_next (rd_states r ! rep j))" "t = o2n ! x"
        using nxt(1) [OF repj] by (auto simp: ds renumber_dstate_def)
      moreover have "x < n" if "x \<in> set (ds_next (rd_states r ! rep j))" for x
        using wf repj that nth_mem unfolding dfa_wf_def n_def by blast
      ultimately show "t < np" using o(1) by blast
    next
      have "rd_start_anchored r < n" "rd_start_floating r < n"
        using wf by (auto simp: dfa_wf_def n_def)
      then show "rd_start_anchored r' < np" "rd_start_floating r' < np"
        using o(1) by (simp_all add: r' renumber_new_states_def r1)
      show "np \<le> 2 ^ 16" using n16 ps.num_bound [OF pinv] by (simp add: np_def)
    qed
    moreover have "o2n ! p < np \<and> o2n ! p \<le> p \<and> fires r' (o2n ! p) = fires r p
        \<and> (\<forall>a < rd_alpha_size r. step_sym r' (o2n ! p) a = o2n ! step_sym r p a)
        \<and> (\<forall>q < n. o2n ! p = o2n ! q \<longleftrightarrow> equiv_states r p q)" if p: "p < n" for p
    proof (intro conjI allI impI)
      note op = o(1) [OF p]
      show "o2n ! p < np" by (fact op)
      show "o2n ! p \<le> p" using rep(2) [OF p] rep_le [OF op] by simp
      show "fires r' (o2n ! p) = fires r p"
        using fires [OF op] equiv_states_fires [OF rep_eqv [OF p]] by simp
      show "step_sym r' (o2n ! p) a = o2n ! step_sym r p a" if "a < rd_alpha_size r" for a
        using step [OF op that] equiv_states_step [OF rep_eqv [OF p] that] eqv
          below [OF _ that] rep(1) [OF op] p by simp
      show "(o2n ! p = o2n ! q) = equiv_states r p q" if "q < n" for q
        using eqv [OF p that] by simp
    qed
    moreover have "\<forall>j < np. \<exists>p < n. o2n ! p = j" using rep(1) by blast
    moreover have "rd_alpha_size r' = rd_alpha_size r" "rd_alpha_remap r' = rd_alpha_remap r"
      "rd_kind r' = rd_kind r" "rd_start_anchored r' = o2n ! rd_start_anchored r"
      "rd_start_floating r' = o2n ! rd_start_floating r"
      by (simp_all add: r' renumber_new_states_def r1)
    ultimately have "dfa_quotient r r' (\<lambda>p. o2n ! p)"
      unfolding dfa_quotient_def states(1) n_def [symmetric] by simp
    then show ?thesis using states(1) unfolding r'_def np_def by blast
  qed
qed

lemma minimize_quotient:
  assumes "dfa_wf r"
  obtains r' h where "minimize_hopcroft True r = Some r'" "dfa_quotient r r' h"
proof -
  obtain info where "dfa_min (HopcroftInfo_create r) = Some info" "hop_inv r info"
    "\<And>p q. p < length (rd_states r) \<Longrightarrow> q < length (rd_states r) \<Longrightarrow>
       hi_class info p = hi_class info q \<longleftrightarrow> equiv_states r p q"
    using dfa_min_result [OF assms] by blast
  with new_dfa_quotient [OF assms this(2,3)] show ?thesis
    using that by (auto simp: minimize_hopcroft_def)
qed


section \<open>Properties\<close>

text \<open>
  C1. Minimisation always returns (the rounds of the work queue are bounded by the number of
  states), the result is a well-formed DFA of the same kind over the same alphabet, and after
  every word it fires the same reports, at the position and at end of data, from the anchored
  and from the floating start state.
\<close>

theorem minimize_preserves_reports:
  assumes "dfa_wf r"
  shows "\<exists>r'. minimize_hopcroft True r = Some r' \<and> dfa_wf r' \<and> rd_kind r' = rd_kind r
    \<and> rd_alpha_size r' = rd_alpha_size r \<and> rd_alpha_remap r' = rd_alpha_remap r
    \<and> (\<forall>w. word_ok r w \<longrightarrow>
         fires r' (run_syms r' (rd_start_anchored r') w) = fires r (run_syms r (rd_start_anchored r) w)
         \<and> fires r' (run_syms r' (rd_start_floating r') w) = fires r (run_syms r (rd_start_floating r) w))"
proof -
  obtain r' h where r': "minimize_hopcroft True r = Some r'" "dfa_quotient r r' h"
    using minimize_quotient [OF assms] .
  moreover have "rd_start_anchored r < length (rd_states r)" "rd_start_floating r < length (rd_states r)"
    using assms by (auto simp: dfa_wf_def)
  ultimately show ?thesis
    using quotient_fires [OF assms r'(2)] by (auto simp: dfa_quotient_def)
qed

definition min_example :: raw_dfa where
  "min_example = \<lparr>rd_kind = NFA_OUTFIX,
     rd_states = [\<lparr>ds_next = [0], ds_daddy = 0, ds_impl_id = 0, ds_reports = {}, ds_reports_eod = {}\<rparr>,
                  \<lparr>ds_next = [2], ds_daddy = 0, ds_impl_id = 0, ds_reports = {7}, ds_reports_eod = {}\<rparr>,
                  \<lparr>ds_next = [1], ds_daddy = 1, ds_impl_id = 0, ds_reports = {7}, ds_reports_eod = {}\<rparr>],
     rd_start_anchored = 2, rd_start_floating = 0, rd_alpha_size = 1, rd_alpha_remap = [0]\<rparr>"

definition min_example_result :: raw_dfa where
  "min_example_result = \<lparr>rd_kind = NFA_OUTFIX,
     rd_states = [\<lparr>ds_next = [0], ds_daddy = 0, ds_impl_id = 0, ds_reports = {}, ds_reports_eod = {}\<rparr>,
                  \<lparr>ds_next = [1], ds_daddy = 0, ds_impl_id = 0, ds_reports = {7}, ds_reports_eod = {}\<rparr>],
     rd_start_anchored = 1, rd_start_floating = 0, rd_alpha_size = 1, rd_alpha_remap = [0]\<rparr>"

lemma min_example_wf: "dfa_wf min_example"
  by (simp add: dfa_wf_def min_example_def)

lemma min_example_create:
  "HopcroftInfo_create min_example =
     \<lparr>hi_alpha_size = 1, hi_work_queue = [0],
      hi_partition = \<lparr>member_to_subset = [1, 0, 0], subsets = [[1, 2], [0]]\<rparr>,
      hi_prev = [[[0]], [[2]], [[1]]]\<rparr>"
  by (simp add: min_example_def HopcroftInfo_create_def create_map_def add_prev_def ps_create_def
      Let_def upt_rec trunc16_def)

lemma min_example_dfa_min:
  "dfa_min (HopcroftInfo_create min_example) = Some ((HopcroftInfo_create min_example)\<lparr>hi_work_queue := []\<rparr>)"
  unfolding min_example_create
  by (simp add: dfa_min_def numeral_3_eq_3 process_sym_def sym_preds_def ps_subset_def
      ps_find_overlapping_def split_and_replace_set_def ps_split_def lower_bound_def Let_def upt_rec)

lemma min_example_eval: "minimize_hopcroft True min_example = Some min_example_result"
  unfolding minimize_hopcroft_def min_example_dfa_min
  by (simp add: min_example_create, simp add: new_dfa_def mapping_new_states_def renumber_new_states_def
      renumber_dstate_def ps_subset_def ps_size_def Let_def upt_rec trunc16_def
      min_example_def min_example_result_def)

theorem minimize_preserves_reports_witness:
  "\<exists>r'. minimize_hopcroft True min_example = Some r' \<and> dfa_wf r'
    \<and> fires r' (run_syms r' (rd_start_anchored r') [0, 0, 0]) =
         fires min_example (run_syms min_example (rd_start_anchored min_example) [0, 0, 0])"
proof -
  have "word_ok min_example [0, 0, 0]" by (simp add: min_example_def)
  with minimize_preserves_reports [OF min_example_wf] show ?thesis by blast
qed

text \<open>
  C4. The result is minimal: no two of its states are equivalent, and no well-formed DFA over
  the same alphabet that has, for every state of the original, a state with the same behaviour
  has fewer states.
\<close>

theorem minimize_is_minimal:
  assumes "dfa_wf r" "minimize_hopcroft True r = Some r'"
  shows "(\<forall>i < length (rd_states r'). \<forall>j < length (rd_states r'). equiv_states r' i j \<longrightarrow> i = j)
    \<and> (\<forall>s. rd_alpha_size s = rd_alpha_size r \<longrightarrow>
         (\<forall>p < length (rd_states r). \<exists>q < length (rd_states s). \<forall>w. word_ok r w \<longrightarrow>
            fires s (run_syms s q w) = fires r (run_syms r p w)) \<longrightarrow>
         length (rd_states r') \<le> length (rd_states s))"
proof -
  obtain h where h: "dfa_quotient r r' h"
    using minimize_quotient [OF assms(1)] assms(2) by auto
  have "length (rd_states r') \<le> length (rd_states s)"
    if "\<forall>p < length (rd_states r). \<exists>q < length (rd_states s). \<forall>w. word_ok r w \<longrightarrow>
            fires s (run_syms s q w) = fires r (run_syms r p w)" for s
  proof -
    from that obtain f where f: "\<And>p. p < length (rd_states r) \<Longrightarrow> f p < length (rd_states s) \<and>
        (\<forall>w. word_ok r w \<longrightarrow> fires s (run_syms s (f p) w) = fires r (run_syms r p w))" by metis
    have "\<forall>j < length (rd_states r'). \<exists>p < length (rd_states r). h p = j"
      using h by (simp add: dfa_quotient_def)
    then obtain g where g: "\<And>j. j < length (rd_states r') \<Longrightarrow> g j < length (rd_states r) \<and> h (g j) = j"
      by metis
    have "inj_on (\<lambda>j. f (g j)) {..<length (rd_states r')}"
    proof (rule inj_onI)
      fix i j
      assume ij: "i \<in> {..<length (rd_states r')}" "j \<in> {..<length (rd_states r')}" "f (g i) = f (g j)"
      then have "equiv_states r (g i) (g j)"
        using f [of "g i"] f [of "g j"] g [of i] g [of j] by (simp add: equiv_states_def)
      then have "h (g i) = h (g j)" using h g ij unfolding dfa_quotient_def by blast
      then show "i = j" using g ij by auto
    qed
    moreover have "(\<lambda>j. f (g j)) ` {..<length (rd_states r')} \<subseteq> {..<length (rd_states s)}"
      using f g by auto
    ultimately have "card {..<length (rd_states r')} \<le> card {..<length (rd_states s)}"
      using card_inj_on_le by blast
    then show ?thesis by simp
  qed
  then show ?thesis using quotient_distinct [OF assms(1) h] by blast
qed

theorem minimize_is_minimal_witness:
  "\<not> equiv_states min_example_result 0 1"
proof -
  have "length (rd_states min_example_result) = 2" by (simp add: min_example_result_def)
  with conjunct1 [OF minimize_is_minimal [OF min_example_wf min_example_eval], rule_format, of 0 1]
  show ?thesis by auto
qed

text \<open>
  Each equivalence class keeps the place of its least state: no state moves to a larger
  number, and the dead state, number 0, stays the dead state: it has number 0 in the result
  and, when it had no reports and all its successors were itself, so it is there.
\<close>

theorem minimize_dead_state:
  assumes "dfa_wf r" "minimize_hopcroft True r = Some r'"
    and "fires r DEAD_STATE = ({}, {})" "\<forall>a < rd_alpha_size r. step_sym r DEAD_STATE a = DEAD_STATE"
  shows "fires r' DEAD_STATE = ({}, {}) \<and> (\<forall>a < rd_alpha_size r'. step_sym r' DEAD_STATE a = DEAD_STATE)
    \<and> rd_start_anchored r' \<le> rd_start_anchored r \<and> rd_start_floating r' \<le> rd_start_floating r
    \<and> (rd_is_dead r \<longrightarrow> rd_is_dead r')"
proof -
  obtain h where h: "dfa_quotient r r' h"
    using minimize_quotient [OF assms(1)] assms(2) by auto
  have start: "rd_start_anchored r < length (rd_states r)" "rd_start_floating r < length (rd_states r)"
    using assms(1) by (auto simp: dfa_wf_def)
  then have "0 < length (rd_states r)" by linarith
  with h have h0: "h 0 = 0" "fires r' 0 = fires r 0"
    "\<forall>a < rd_alpha_size r. step_sym r' 0 a = h (step_sym r 0 a)" "rd_alpha_size r' = rd_alpha_size r"
    unfolding dfa_quotient_def by fastforce+
  have "h p \<le> p" if "p < length (rd_states r)" for p using h that by (simp add: dfa_quotient_def)
  moreover have "rd_start_anchored r' = h (rd_start_anchored r)"
    "rd_start_floating r' = h (rd_start_floating r)"
    using h by (auto simp: dfa_quotient_def)
  ultimately show ?thesis using h0 assms(3,4) start by (simp add: DEAD_STATE_def rd_is_dead_def)
qed

theorem minimize_dead_state_witness:
  "fires min_example_result DEAD_STATE = ({}, {}) \<and> rd_start_floating min_example_result = 0"
  using minimize_dead_state [OF min_example_wf min_example_eval]
  by (simp add: min_example_def fires_def step_sym_def DEAD_STATE_def)

end
