(* ===== verification/Determinise.thy ===== *)
theory Determinise
  imports RawDfa
begin

text \<open>
  The subset construction \<open>determinise\<close> of \<open>src/util/determinise.h\<close>.  The template
  parameter \<open>Auto\<close> is a record of operations; the interface the comment at the head of that
  file describes is the locale \<open>determinisable\<close>.  A \<open>StateMap\<close> is an association list of
  state sets and ids, a \<open>std::queue\<close> a list with the front first.
\<close>

section \<open>The algorithm\<close>

record 's automaton =
  au_dead :: 's
  au_initial :: "'s list"
  au_reports :: "'s \<Rightarrow> ReportID set"
  au_reportsEod :: "'s \<Rightarrow> ReportID set"
  au_canPrune :: "ReportID set \<Rightarrow> bool"
  au_transition :: "'s \<Rightarrow> 's list" \<comment> \<open>one successor per symbol\<close>
  au_alphasize :: nat
  au_alpha :: "nat list"
  au_unalpha :: "nat list"

record 's det_state =
  det_ids :: "('s \<times> dstate_id_t) list"
  det_dstates :: "dstate list"
  det_queue :: "('s \<times> dstate_id_t) list"

definition emplace :: "'k \<Rightarrow> 'v \<Rightarrow> ('k \<times> 'v) list \<Rightarrow> ('k \<times> 'v) list" where
  "emplace k v m = (case map_of m k of None \<Rightarrow> (k, v) # m | Some _ \<Rightarrow> m)"

definition det_add_initial :: "nat \<Rightarrow> 's det_state \<Rightarrow> 's \<Rightarrow> 's det_state" where
  "det_add_initial alphabet_size st init =
     st\<lparr>det_queue := det_queue st @ [(init, trunc16 (length (det_dstates st)))],
        det_ids := emplace init (trunc16 (length (det_dstates st))) (det_ids st),
        det_dstates := det_dstates st @ [new_dstate alphabet_size]\<rparr>"

definition det_start :: "'s automaton \<Rightarrow> 's det_state" where
  "det_start n =
     foldl (det_add_initial (au_alphasize n))
       \<lparr>det_ids = [(au_dead n, DEAD_STATE)],
        det_dstates = [(new_dstate (au_alphasize n))\<lparr>ds_next := replicate (au_alphasize n) DEAD_STATE\<rparr>],
        det_queue = [(au_dead n, DEAD_STATE)]\<rparr>
       (au_initial n)"

text \<open>The id of the successor on symbol \<open>s\<close>: copied from the previous symbol, found, or new.\<close>

definition det_succ_id ::
  "'s automaton \<Rightarrow> dstate_id_t \<Rightarrow> 's list \<Rightarrow> symbol_t \<Rightarrow> 's det_state \<Rightarrow> dstate_id_t \<times> 's det_state" where
  "det_succ_id n curr_id succs s st =
     (if s \<noteq> 0 \<and> succs ! s = succs ! (s - 1) then (ds_next (det_dstates st ! curr_id) ! (s - 1), st)
      else case map_of (det_ids st) (succs ! s) of
          Some succ_id \<Rightarrow>
            (succ_id,
             if succ_id > curr_id \<and> ds_daddy (det_dstates st ! succ_id) = 0 \<and> au_unalpha n ! s < N_CHARS
             then st\<lparr>det_dstates := (det_dstates st)[succ_id := (det_dstates st ! succ_id)\<lparr>ds_daddy := curr_id\<rparr>]\<rparr>
             else st)
        | None \<Rightarrow>
            let succ_id = trunc16 (length (det_ids st)) in
            (succ_id,
             st\<lparr>det_ids := emplace (succs ! s) succ_id (det_ids st),
                det_dstates := det_dstates st @ [(new_dstate (au_alphasize n))
                  \<lparr>ds_daddy := (if au_unalpha n ! s < N_CHARS then curr_id else 0)\<rparr>],
                det_queue := det_queue st @ [(succs ! s, succ_id)]\<rparr>))"

text \<open>The loop over the symbols; \<open>None\<close> is the return with the state limit exceeded.\<close>

fun det_syms ::
  "'s automaton \<Rightarrow> nat \<Rightarrow> dstate_id_t \<Rightarrow> 's list \<Rightarrow> symbol_t list \<Rightarrow> 's det_state \<Rightarrow> 's det_state option" where
  "det_syms n state_limit curr_id succs [] st = Some st"
| "det_syms n state_limit curr_id succs (s # ss) st =
     (let (succ_id, st) = det_succ_id n curr_id succs s st in
      if succ_id \<ge> state_limit then None
      else let curr = det_dstates st ! curr_id in
        det_syms n state_limit curr_id succs ss
          (st\<lparr>det_dstates := (det_dstates st)[curr_id := curr\<lparr>ds_next := (ds_next curr)[s := succ_id]\<rparr>]\<rparr>))"

text \<open>One round of the work queue, for the entry taken off it.\<close>

definition det_round ::
  "'s automaton \<Rightarrow> nat \<Rightarrow> 's \<Rightarrow> dstate_id_t \<Rightarrow> 's det_state \<Rightarrow> 's det_state option" where
  "det_round n state_limit curr_set curr_id st =
     (let d = det_dstates st ! curr_id;
          d = d\<lparr>ds_reports := ds_reports d \<union> au_reports n curr_set,
                ds_reports_eod := ds_reports_eod d \<union> au_reportsEod n curr_set\<rparr>;
          st = st\<lparr>det_dstates := (det_dstates st)[curr_id := d]\<rparr>
      in if ds_reports d \<noteq> {} \<and> au_canPrune n (ds_reports d)
         then Some (st\<lparr>det_dstates := (det_dstates st)[curr_id := d
                \<lparr>ds_next := (replicate (au_alphasize n) DEAD_STATE)[au_alpha n ! TOP := curr_id]\<rparr>]\<rparr>)
         else det_syms n state_limit curr_id (au_transition n curr_set) [0..<au_alphasize n] st)"

text \<open>The outer result is \<open>None\<close> when the fuel runs out, the inner one when the limit is hit.\<close>

fun det_loop :: "nat \<Rightarrow> 's automaton \<Rightarrow> nat \<Rightarrow> 's det_state \<Rightarrow> 's det_state option option" where
  "det_loop 0 n state_limit st = (if det_queue st = [] then Some (Some st) else None)"
| "det_loop (Suc fuel) n state_limit st =
     (case det_queue st of
        [] \<Rightarrow> Some (Some st)
      | (curr_set, curr_id) # q \<Rightarrow>
          (case det_round n state_limit curr_set curr_id (st\<lparr>det_queue := q\<rparr>) of
             None \<Rightarrow> Some None
           | Some st \<Rightarrow> det_loop fuel n state_limit st))"

definition statesets_of :: "'s \<Rightarrow> ('s \<times> dstate_id_t) list \<Rightarrow> 's list" where
  "statesets_of default_set ids = foldl (\<lambda>ss (k, v). ss[v := k]) (replicate (length ids) default_set) ids"

text \<open>
  The result: the states and the state sets by id; \<open>Some None\<close> is \<open>false\<close>.  No id reaches the
  limit, so \<open>state_limit\<close> rounds are enough.
\<close>

definition determinise ::
  "'s \<Rightarrow> 's automaton \<Rightarrow> nat \<Rightarrow> (dstate list \<times> 's list) option option" where
  "determinise default_set n state_limit =
     map_option (map_option (\<lambda>st. (det_dstates st, statesets_of default_set (det_ids st))))
       (det_loop state_limit n state_limit (det_start n))"

section \<open>Specification\<close>

text \<open>
  What the DFA has to do: follow the transition function, except that a state set whose
  reports may be pruned stays put on \<open>TOP\<close> and dies on everything else.
\<close>

definition au_pruned :: "'s automaton \<Rightarrow> 's \<Rightarrow> bool" where
  "au_pruned n S = (au_reports n S \<noteq> {} \<and> au_canPrune n (au_reports n S))"

definition au_step :: "'s automaton \<Rightarrow> 's \<Rightarrow> symbol_t \<Rightarrow> 's" where
  "au_step n S a =
     (if au_pruned n S then (if a = au_alpha n ! TOP then S else au_dead n)
      else au_transition n S ! a)"

definition au_run :: "'s automaton \<Rightarrow> 's \<Rightarrow> symbol_t list \<Rightarrow> 's" where
  "au_run n S w = foldl (au_step n) S w"

inductive au_reach :: "'s automaton \<Rightarrow> 's \<Rightarrow> bool" for n where
  start: "S \<in> set (au_dead n # au_initial n) \<Longrightarrow> au_reach n S"
| step: "au_reach n S \<Longrightarrow> a < au_alphasize n \<Longrightarrow> au_reach n (au_step n S a)"

inductive_cases au_reachE: "au_reach n S"

lemma au_run_simps [simp]:
  "au_run n S [] = S" "au_run n S (a # w) = au_run n (au_step n S a) w"
  by (simp_all add: au_run_def)

section \<open>Invariant\<close>

definition det_sets :: "'s det_state \<Rightarrow> 's list" where
  "det_sets st = rev (map fst (det_ids st))"

text \<open>
  \<open>det_inv n L k st\<close>: the states below \<open>k\<close> are finished, the others are queued in order, and
  every state set known so far can be reached.
\<close>

definition det_numbered :: "'s det_state \<Rightarrow> bool" where
  "det_numbered st =
     (rev (map snd (det_ids st)) = [0..<length (det_ids st)] \<and> distinct (det_sets st)
      \<and> length (det_dstates st) = length (det_ids st))"

text \<open>The recorded \<open>daddy\<close> of a state is an earlier predecessor on a character.\<close>

definition daddy_ok :: "'s automaton \<Rightarrow> 's list \<Rightarrow> dstate list \<Rightarrow> nat \<Rightarrow> bool" where
  "daddy_ok n sets ds i =
     (ds_daddy (ds ! i) = 0 \<or>
      (ds_daddy (ds ! i) < i \<and>
       (\<exists>a < au_alphasize n. au_unalpha n ! a < N_CHARS \<and>
          au_step n (sets ! ds_daddy (ds ! i)) a = sets ! i)))"

definition det_finished :: "'s automaton \<Rightarrow> 's list \<Rightarrow> dstate list \<Rightarrow> nat \<Rightarrow> bool" where
  "det_finished n sets ds i =
     (ds_reports (ds ! i) = au_reports n (sets ! i)
      \<and> ds_reports_eod (ds ! i) = au_reportsEod n (sets ! i)
      \<and> (\<forall>a < au_alphasize n. ds_next (ds ! i) ! a < length sets
            \<and> sets ! (ds_next (ds ! i) ! a) = au_step n (sets ! i) a))"

definition det_common :: "'s automaton \<Rightarrow> nat \<Rightarrow> 's det_state \<Rightarrow> bool" where
  "det_common n L st =
     (det_numbered st \<and> length (det_ids st) \<le> L
      \<and> (\<exists>more. det_sets st = au_dead n # au_initial n @ more)
      \<and> (\<forall>S \<in> set (det_sets st). au_reach n S)
      \<and> (\<forall>d \<in> set (det_dstates st). length (ds_next d) = au_alphasize n)
      \<and> (\<forall>i < length (det_dstates st). daddy_ok n (det_sets st) (det_dstates st) i))"

definition det_inv :: "'s automaton \<Rightarrow> nat \<Rightarrow> nat \<Rightarrow> 's det_state \<Rightarrow> bool" where
  "det_inv n L k st =
     (det_common n L st
      \<and> k \<le> length (det_ids st)
      \<and> det_queue st = map (\<lambda>i. (det_sets st ! i, i)) [k..<length (det_ids st)]
      \<and> (\<forall>i < k. det_finished n (det_sets st) (det_dstates st) i)
      \<and> (\<forall>i < length (det_ids st). k \<le> i \<longrightarrow>
           ds_reports (det_dstates st ! i) = {} \<and> ds_reports_eod (det_dstates st ! i) = {}))"

lemma det_numbered_length: "det_numbered st \<Longrightarrow> length (det_sets st) = length (det_ids st)"
  by (simp add: det_sets_def)

lemma det_ids_zip:
  assumes "det_numbered st"
  shows "det_ids st = rev (zip (det_sets st) [0..<length (det_ids st)])"
proof -
  have "rev (det_ids st) = zip (map fst (rev (det_ids st))) (map snd (rev (det_ids st)))"
    by (simp add: zip_map_fst_snd)
  also have "\<dots> = zip (det_sets st) [0..<length (det_ids st)]"
    using assms by (simp add: det_numbered_def det_sets_def rev_map)
  finally show ?thesis by (metis rev_rev_ident)
qed

lemma det_lookup:
  assumes num: "det_numbered st"
  shows "map_of (det_ids st) S = Some i \<longleftrightarrow> i < length (det_ids st) \<and> det_sets st ! i = S"
    and "map_of (det_ids st) S = None \<longleftrightarrow> S \<notin> set (det_sets st)"
proof -
  have dist: "distinct (map fst (det_ids st))"
    using num by (simp add: det_numbered_def det_sets_def)
  have "(S, i) \<in> set (det_ids st) \<longleftrightarrow> (S, i) \<in> set (zip (det_sets st) [0..<length (det_ids st)])"
    using arg_cong [OF det_ids_zip [OF num], of set] by simp
  also have "\<dots> \<longleftrightarrow> i < length (det_ids st) \<and> det_sets st ! i = S"
    using det_numbered_length [OF num] by (auto simp: set_zip)
  finally show "map_of (det_ids st) S = Some i \<longleftrightarrow> i < length (det_ids st) \<and> det_sets st ! i = S"
    using dist by (simp add: map_of_eq_Some_iff)
  show "map_of (det_ids st) S = None \<longleftrightarrow> S \<notin> set (det_sets st)"
    by (simp add: det_sets_def map_of_eq_None_iff)
qed


section \<open>One symbol\<close>

text \<open>Appending a state leaves the earlier ones as they are.\<close>

lemma det_sets_emplace:
  "map_of (det_ids st) S = None \<Longrightarrow>
     det_sets (st\<lparr>det_ids := emplace S i (det_ids st), det_dstates := ds, det_queue := q\<rparr>) = det_sets st @ [S]"
  by (simp add: det_sets_def emplace_def)

lemma det_add_common:
  fixes st :: "'s det_state" and q :: "('s \<times> dstate_id_t) list"
  assumes inv: "det_common n L st" and new: "S \<notin> set (det_sets st)" and reach: "au_reach n S"
    and len: "length (ds_next d) = au_alphasize n" and L: "length (det_ids st) < L"
    and dad: "ds_daddy d = 0 \<or> (ds_daddy d < length (det_ids st) \<and>
       (\<exists>a < au_alphasize n. au_unalpha n ! a < N_CHARS \<and>
          au_step n (det_sets st ! ds_daddy d) a = S))"
  defines "st' \<equiv> st\<lparr>det_ids := emplace S (length (det_ids st)) (det_ids st),
     det_dstates := det_dstates st @ [d], det_queue := q\<rparr>"
  shows "det_common n L st'" "det_sets st' = det_sets st @ [S]"
proof -
  have num: "det_numbered st" using inv by (simp add: det_common_def)
  have none: "map_of (det_ids st) S = None" using det_lookup(2) [OF num] new by blast
  show sets: "det_sets st' = det_sets st @ [S]"
    unfolding st'_def by (rule det_sets_emplace [OF none])
  have ids: "det_ids st' = (S, length (det_ids st)) # det_ids st"
    by (simp add: st'_def emplace_def none)
  have ds: "det_dstates st' = det_dstates st @ [d]" by (simp add: st'_def)
  have lens: "length (det_sets st) = length (det_ids st)" "length (det_dstates st) = length (det_ids st)"
    using num by (simp_all add: det_numbered_length) (simp add: det_numbered_def)
  have dads: "daddy_ok n (det_sets st) (det_dstates st) i" if "i < length (det_dstates st)" for i
    using inv that by (simp add: det_common_def)
  have "daddy_ok n (det_sets st') (det_dstates st') i" if i: "i < length (det_dstates st')" for i
  proof (cases "i = length (det_ids st)")
    case True
    then show ?thesis
      using dad lens by (auto simp: daddy_ok_def sets ds nth_append)
  next
    case False
    then have "i < length (det_dstates st)" using i lens ds by simp
    with dads [OF this] lens show ?thesis
      by (auto simp: daddy_ok_def sets ds nth_append)
  qed
  moreover have "det_numbered st'"
    using num new unfolding det_numbered_def sets ids ds by simp
  ultimately show "det_common n L st'"
    using inv reach len L unfolding det_common_def sets ids ds by auto
qed

text \<open>Changing what a state records keeps the common part when its \<open>daddy\<close> is right.\<close>

lemma det_update_common:
  assumes inv: "det_common n L st" and i: "i < length (det_dstates st)"
    and len: "length (ds_next d) = au_alphasize n"
    and dad: "daddy_ok n (det_sets st) ((det_dstates st)[i := d]) i"
  shows "det_common n L (st\<lparr>det_dstates := (det_dstates st)[i := d]\<rparr>)"
    and "det_sets (st\<lparr>det_dstates := (det_dstates st)[i := d]\<rparr>) = det_sets st"
proof -
  show sets: "det_sets (st\<lparr>det_dstates := (det_dstates st)[i := d]\<rparr>) = det_sets st"
    by (simp add: det_sets_def)
  have "daddy_ok n (det_sets st) ((det_dstates st)[i := d]) j" if "j < length (det_dstates st)" for j
    using inv that dad by (cases "j = i") (auto simp: det_common_def daddy_ok_def)
  moreover have "length (ds_next e) = au_alphasize n" if "e \<in> set ((det_dstates st)[i := d])" for e
    using that set_update_subset_insert [of "det_dstates st" i d] inv len
    by (auto simp: det_common_def)
  moreover have "det_numbered (st\<lparr>det_dstates := (det_dstates st)[i := d]\<rparr>)"
    using inv sets by (simp add: det_common_def det_numbered_def)
  ultimately show "det_common n L (st\<lparr>det_dstates := (det_dstates st)[i := d]\<rparr>)"
    using inv sets unfolding det_common_def by simp
qed

text \<open>What holds while the symbols of state \<open>k\<close> are filled in, \<open>s\<close> of them done.\<close>

definition det_filling ::
  "'s automaton \<Rightarrow> nat \<Rightarrow> nat \<Rightarrow> 's list \<Rightarrow> nat \<Rightarrow> 's det_state \<Rightarrow> bool" where
  "det_filling n L k succs s st =
     (det_common n L st
      \<and> k < length (det_ids st)
      \<and> det_queue st = map (\<lambda>i. (det_sets st ! i, i)) [Suc k..<length (det_ids st)]
      \<and> (\<forall>i < k. det_finished n (det_sets st) (det_dstates st) i)
      \<and> (\<forall>i < length (det_ids st). k < i \<longrightarrow>
           ds_reports (det_dstates st ! i) = {} \<and> ds_reports_eod (det_dstates st ! i) = {})
      \<and> ds_reports (det_dstates st ! k) = au_reports n (det_sets st ! k)
      \<and> ds_reports_eod (det_dstates st ! k) = au_reportsEod n (det_sets st ! k)
      \<and> \<not> au_pruned n (det_sets st ! k)
      \<and> succs = au_transition n (det_sets st ! k)
      \<and> (\<forall>a < s. ds_next (det_dstates st ! k) ! a < length (det_ids st)
           \<and> det_sets st ! (ds_next (det_dstates st ! k) ! a) = succs ! a))"

lemma det_common_lengths:
  assumes "det_common n L st"
  shows "length (det_sets st) = length (det_ids st)" "length (det_dstates st) = length (det_ids st)"
    "det_numbered st"
  using assms by (simp_all add: det_common_def det_numbered_length) (simp add: det_numbered_def)

lemma det_succ_id_spec:
  assumes fill: "det_filling n L k succs s st" and s: "s < au_alphasize n" and L: "L < 2 ^ 16"
    and succ: "det_succ_id n k succs s st = (succ_id, st')" and le: "length (det_ids st) \<le> L"
  shows "(succ_id < L \<longrightarrow> det_filling n L k succs s st' \<and> succ_id < length (det_ids st')
       \<and> det_sets st' ! succ_id = succs ! s)
    \<and> (succ_id \<ge> L \<longrightarrow> length (det_ids st) = L \<and> succs ! s \<notin> set (det_sets st))
    \<and> au_reach n (succs ! s)"
proof -
  have com: "det_common n L st" and k: "k < length (det_ids st)"
    and np: "\<not> au_pruned n (det_sets st ! k)" and succs: "succs = au_transition n (det_sets st ! k)"
    using fill by (auto simp: det_filling_def)
  note lens = det_common_lengths [OF com]
  have step: "au_step n (det_sets st ! k) s = succs ! s"
    using np succs by (simp add: au_step_def)
  have reach: "au_reach n (succs ! s)"
    using au_reach.step [OF _ s, of "det_sets st ! k"] com k lens step
    by (simp add: det_common_def)
  consider (same) "s \<noteq> 0" "succs ! s = succs ! (s - 1)" |
    (found) i where "\<not> (s \<noteq> 0 \<and> succs ! s = succs ! (s - 1))" "map_of (det_ids st) (succs ! s) = Some i" |
    (new) "\<not> (s \<noteq> 0 \<and> succs ! s = succs ! (s - 1))" "map_of (det_ids st) (succs ! s) = None"
    by (cases "map_of (det_ids st) (succs ! s)") auto
  then show ?thesis
  proof cases
    case same
    then have eq: "succ_id = ds_next (det_dstates st ! k) ! (s - 1)" "st' = st"
      using succ by (auto simp: det_succ_id_def)
    have "succ_id < length (det_ids st) \<and> det_sets st ! succ_id = succs ! (s - 1)"
      using fill same(1) unfolding det_filling_def eq by simp
    with eq fill reach same le show ?thesis by simp
  next
    case found
    then have i: "i < length (det_ids st)" "det_sets st ! i = succs ! s"
      using det_lookup(1) [OF lens(3)] by auto
    have id: "succ_id = i" using succ found by (auto simp: det_succ_id_def split: if_splits)
    show ?thesis
    proof (cases "i > k \<and> ds_daddy (det_dstates st ! i) = 0 \<and> au_unalpha n ! s < N_CHARS")
      case False
      then have "st' = st" using succ found by (auto simp: det_succ_id_def split: if_splits)
      with id i fill reach le show ?thesis by simp
    next
      case True
      define d where "d = (det_dstates st ! i)\<lparr>ds_daddy := k\<rparr>"
      have st': "st' = st\<lparr>det_dstates := (det_dstates st)[i := d]\<rparr>"
        using succ found True by (auto simp: det_succ_id_def d_def)
      have len: "length (ds_next d) = au_alphasize n"
        using com i lens by (simp add: d_def det_common_def)
      have "daddy_ok n (det_sets st) ((det_dstates st)[i := d]) i"
        using True step i lens s by (auto simp: daddy_ok_def d_def)
      note U = det_update_common [OF com _ len this, folded st']
      have "det_filling n L k succs s st'"
        using fill U i lens True
        unfolding det_filling_def
        by (auto simp: st' d_def det_finished_def nth_list_update)
      then show ?thesis using id i U reach le lens by (simp add: st')
    qed
  next
    case new
    then have nin: "succs ! s \<notin> set (det_sets st)" using det_lookup(2) [OF lens(3)] by blast
    have id: "succ_id = length (det_ids st)"
      using succ new le L by (auto simp: det_succ_id_def Let_def trunc16_id)
    define d where "d = (new_dstate (au_alphasize n))\<lparr>ds_daddy := (if au_unalpha n ! s < N_CHARS then k else 0)\<rparr>"
    have st': "st' = st\<lparr>det_ids := emplace (succs ! s) (length (det_ids st)) (det_ids st),
        det_dstates := det_dstates st @ [d], det_queue := det_queue st @ [(succs ! s, length (det_ids st))]\<rparr>"
      using succ new le L by (auto simp: det_succ_id_def Let_def trunc16_id d_def)
    show ?thesis
    proof (cases "length (det_ids st) < L")
      case False
      then show ?thesis using id nin reach le by simp
    next
      case True
      have "ds_daddy d = 0 \<or> (ds_daddy d < length (det_ids st) \<and>
          (\<exists>a < au_alphasize n. au_unalpha n ! a < N_CHARS \<and> au_step n (det_sets st ! ds_daddy d) a = succs ! s))"
        using k step s by (auto simp: d_def)
      note A = det_add_common [OF com nin reach _ True this, folded st']
      have A1: "det_common n L st'" "det_sets st' = det_sets st @ [succs ! s]"
        using A by (auto simp: d_def new_dstate_def st')
      have idl: "length (det_ids st') = Suc (length (det_ids st))"
        using det_common_lengths(1) [OF A1(1)] A1(2) lens(1) by simp
      have dst: "det_dstates st' = det_dstates st @ [d]" by (simp add: st')
      have qst: "det_queue st' = det_queue st @ [(succs ! s, length (det_ids st))]" by (simp add: st')
      have "det_filling n L k succs s st'"
        unfolding det_filling_def
      proof (intro conjI)
        show "det_queue st' = map (\<lambda>i. (det_sets st' ! i, i)) [Suc k..<length (det_ids st')]"
          using fill k lens by (auto simp: det_filling_def idl A1(2) nth_append qst)
        show "\<forall>i < k. det_finished n (det_sets st') (det_dstates st') i"
          using fill k lens by (auto simp: det_filling_def det_finished_def A1(2) dst nth_append less_SucI)
        show "\<forall>i < length (det_ids st'). k < i \<longrightarrow>
            ds_reports (det_dstates st' ! i) = {} \<and> ds_reports_eod (det_dstates st' ! i) = {}"
          using fill lens by (auto simp: det_filling_def idl dst nth_append less_Suc_eq d_def new_dstate_def)
      qed (use fill k lens A1 idl in \<open>auto simp: det_filling_def dst nth_append less_SucI\<close>)
      then show ?thesis using id idl A1 reach True lens by (simp add: nth_append)
    qed
  qed
qed


section \<open>One round, and the loop\<close>

text \<open>More state sets can be reached than the limit allows.\<close>

definition over_limit :: "'s automaton \<Rightarrow> nat \<Rightarrow> bool" where
  "over_limit n L = (\<exists>Ss. distinct Ss \<and> length Ss = L + 1 \<and> (\<forall>S \<in> set Ss. au_reach n S))"

lemma det_syms_spec:
  assumes L: "L < 2 ^ 16"
  shows "s \<le> au_alphasize n \<Longrightarrow> det_filling n L k succs s st \<Longrightarrow>
    (case det_syms n L k succs [s..<au_alphasize n] st of
       Some st' \<Rightarrow> det_filling n L k succs (au_alphasize n) st'
     | None \<Rightarrow> over_limit n L)"
proof (induction "au_alphasize n - s" arbitrary: s st)
  case 0
  then show ?case by simp
next
  case (Suc m)
  then have s: "s < au_alphasize n" and upt: "[s..<au_alphasize n] = s # [Suc s..<au_alphasize n]"
    by (simp_all add: upt_conv_Cons)
  have le: "length (det_ids st) \<le> L" using Suc.prems(2) by (simp add: det_filling_def det_common_def)
  obtain succ_id st1 where succ: "det_succ_id n k succs s st = (succ_id, st1)" by force
  note S = det_succ_id_spec [OF Suc.prems(2) s L succ le]
  show ?case
  proof (cases "succ_id \<ge> L")
    case True
    with S have S: "length (det_ids st) = L" "succs ! s \<notin> set (det_sets st)" "au_reach n (succs ! s)" by auto
    have com: "det_common n L st" using Suc.prems(2) by (simp add: det_filling_def)
    have "over_limit n L"
      unfolding over_limit_def
      using com S det_common_lengths [OF com]
      by (intro exI [of _ "succs ! s # det_sets st"]) (auto simp: det_common_def det_numbered_def)
    then show ?thesis using succ True by (simp add: upt)
  next
    case False
    with S have fill: "det_filling n L k succs s st1" and id: "succ_id < length (det_ids st1)"
      "det_sets st1 ! succ_id = succs ! s" by auto
    define c where "c = det_dstates st1 ! k"
    define d where "d = c\<lparr>ds_next := (ds_next c)[s := succ_id]\<rparr>"
    define st2 where "st2 = st1\<lparr>det_dstates := (det_dstates st1)[k := d]\<rparr>"
    have com: "det_common n L st1" and k: "k < length (det_ids st1)"
      using fill by (auto simp: det_filling_def)
    note lens = det_common_lengths [OF com]
    have len: "length (ds_next d) = au_alphasize n" "length (ds_next c) = au_alphasize n"
      using com k lens by (simp_all add: det_common_def d_def c_def)
    have "daddy_ok n (det_sets st1) ((det_dstates st1)[k := d]) k"
      using com k lens by (auto simp: det_common_def daddy_ok_def d_def c_def)
    note U = det_update_common [OF com _ len(1) this, folded st2_def]
    have sel: "det_ids st2 = det_ids st1" "det_queue st2 = det_queue st1"
      "det_dstates st2 = (det_dstates st1)[k := d]"
      by (simp_all add: st2_def)
    have "det_filling n L k succs (Suc s) st2"
      using fill U k lens id len s
      unfolding det_filling_def sel
      by (auto simp: d_def c_def det_finished_def nth_list_update less_Suc_eq)
    from Suc.hyps(1) [OF _ _ this] Suc.hyps(2) s
    have "case det_syms n L k succs [Suc s..<au_alphasize n] st2 of
        Some st' \<Rightarrow> det_filling n L k succs (au_alphasize n) st' | None \<Rightarrow> over_limit n L" by simp
    moreover have "det_syms n L k succs [s..<au_alphasize n] st = det_syms n L k succs [Suc s..<au_alphasize n] st2"
      using succ False by (simp add: upt st2_def d_def c_def Let_def)
    ultimately show ?thesis by simp
  qed
qed

lemma det_filling_done:
  assumes fill: "det_filling n L k succs (au_alphasize n) st"
  shows "det_inv n L (Suc k) st"
proof -
  have com: "det_common n L st" and k: "k < length (det_ids st)"
    using fill by (auto simp: det_filling_def)
  note lens = det_common_lengths [OF com]
  have "det_finished n (det_sets st) (det_dstates st) k"
    using fill lens by (simp add: det_filling_def det_finished_def au_step_def)
  with fill show ?thesis by (auto simp: det_filling_def det_inv_def less_Suc_eq)
qed

lemma det_round_spec:
  assumes inv: "det_inv n L k st" and q: "det_queue st = (S, k') # q" and L: "L < 2 ^ 16"
  shows "case det_round n L S k' (st\<lparr>det_queue := q\<rparr>) of
      Some st' \<Rightarrow> det_inv n L (Suc k) st' | None \<Rightarrow> over_limit n L"
proof -
  have com: "det_common n L st" and kle: "k \<le> length (det_ids st)"
    and que: "det_queue st = map (\<lambda>i. (det_sets st ! i, i)) [k..<length (det_ids st)]"
    and fin: "\<And>i. i < k \<Longrightarrow> det_finished n (det_sets st) (det_dstates st) i"
    and emp: "\<And>i. i < length (det_ids st) \<Longrightarrow> k \<le> i \<Longrightarrow>
           ds_reports (det_dstates st ! i) = {} \<and> ds_reports_eod (det_dstates st ! i) = {}"
    using inv by (auto simp: det_inv_def)
  note lens = det_common_lengths [OF com]
  have k: "k < length (det_ids st)" using q que kle by (cases "k = length (det_ids st)") auto
  have q': "k' = k" "S = det_sets st ! k" "q = map (\<lambda>i. (det_sets st ! i, i)) [Suc k..<length (det_ids st)]"
    using q que k by (auto simp: upt_conv_Cons)
  define st0 where "st0 = st\<lparr>det_queue := q\<rparr>"
  have com0: "det_common n L st0"
    using com by (simp add: st0_def det_common_def det_numbered_def det_sets_def)
  have sel0: "det_ids st0 = det_ids st" "det_dstates st0 = det_dstates st" "det_sets st0 = det_sets st"
    by (simp_all add: st0_def det_sets_def)
  define d0 where "d0 = det_dstates st ! k"
  define d where "d = d0\<lparr>ds_reports := au_reports n S, ds_reports_eod := au_reportsEod n S\<rparr>"
  have emp_k: "ds_reports d0 = {}" "ds_reports_eod d0 = {}" using emp [OF k] by (auto simp: d0_def)
  have upd: "det_common n L (st0\<lparr>det_dstates := (det_dstates st0)[k := e]\<rparr>) \<and>
      det_sets (st0\<lparr>det_dstates := (det_dstates st0)[k := e]\<rparr>) = det_sets st"
    if "length (ds_next e) = au_alphasize n" "ds_daddy e = ds_daddy d0" for e
  proof -
    have "daddy_ok n (det_sets st0) ((det_dstates st0)[k := e]) k"
      using com k lens that(2) by (auto simp: det_common_def daddy_ok_def sel0 d0_def)
    from det_update_common [OF com0 _ that(1) this] k lens sel0 show ?thesis by simp
  qed
  have len0: "length (ds_next d0) = au_alphasize n"
    using com k lens by (simp add: det_common_def d0_def)
  show ?thesis
  proof (cases "au_pruned n S")
    case True
    define e where "e = d\<lparr>ds_next := (replicate (au_alphasize n) DEAD_STATE)[au_alpha n ! TOP := k]\<rparr>"
    define st1 where "st1 = st0\<lparr>det_dstates := (det_dstates st0)[k := e]\<rparr>"
    have res: "det_round n L S k' (st\<lparr>det_queue := q\<rparr>) = Some st1"
      using True emp_k
      by (simp add: det_round_def q'(1) Let_def d0_def [symmetric] st0_def [symmetric] sel0
          au_pruned_def st1_def e_def d_def)
    have U: "det_common n L st1" "det_sets st1 = det_sets st"
      using upd [of e] by (auto simp: st1_def e_def d_def)
    have sel1: "det_ids st1 = det_ids st" "det_queue st1 = q" "det_dstates st1 = (det_dstates st)[k := e]"
      by (simp_all add: st1_def st0_def)
    have dead: "det_sets st ! 0 = au_dead n" "0 < length (det_ids st)"
      using com lens k by (auto simp: det_common_def)
    have "det_finished n (det_sets st) ((det_dstates st)[k := e]) k"
      using k lens dead True q'(2)
      by (auto simp: det_finished_def e_def d_def au_step_def nth_list_update DEAD_STATE_def)
    moreover have "det_finished n (det_sets st) ((det_dstates st)[k := e]) i" if "i < k" for i
      using fin [OF that] that by (simp add: det_finished_def)
    ultimately have "det_inv n L (Suc k) st1"
      using U k emp unfolding det_inv_def sel1 U(2)
      by (auto simp: q'(3) less_Suc_eq)
    with res show ?thesis by simp
  next
    case False
    define st1 where "st1 = st0\<lparr>det_dstates := (det_dstates st0)[k := d]\<rparr>"
    have res: "det_round n L S k' (st\<lparr>det_queue := q\<rparr>) =
        det_syms n L k (au_transition n S) [0..<au_alphasize n] st1"
      using False emp_k
      by (auto simp: det_round_def q'(1) Let_def d0_def [symmetric] au_pruned_def st1_def d_def st0_def)
    have U: "det_common n L st1" "det_sets st1 = det_sets st"
      using upd [of d] len0 by (auto simp: st1_def d_def)
    have sel1: "det_ids st1 = det_ids st" "det_queue st1 = q" "det_dstates st1 = (det_dstates st)[k := d]"
      by (simp_all add: st1_def st0_def)
    have "det_finished n (det_sets st) ((det_dstates st)[k := d]) i" if "i < k" for i
      using fin [OF that] that by (simp add: det_finished_def)
    then have "det_filling n L k (au_transition n S) 0 st1"
      using U k lens emp False q'(2)
      unfolding det_filling_def sel1 U(2)
      by (auto simp: q'(3) d_def)
    from det_syms_spec [OF L _ this] show ?thesis
      unfolding res by (auto dest: det_filling_done split: option.splits)
  qed
qed

lemma det_loop_spec:
  assumes L: "L < 2 ^ 16"
  shows "det_inv n L k st \<Longrightarrow> L \<le> fuel + k \<Longrightarrow>
    (\<exists>st'. det_loop fuel n L st = Some (Some st') \<and> det_inv n L (length (det_ids st')) st')
    \<or> (det_loop fuel n L st = Some None \<and> over_limit n L)"
proof (induction fuel arbitrary: k st)
  case 0
  then have "k = length (det_ids st)" by (simp add: det_inv_def det_common_def)
  with 0 show ?case by (simp add: det_inv_def)
next
  case (Suc fuel)
  show ?case
  proof (cases "det_queue st")
    case Nil
    then have "k = length (det_ids st)" using Suc.prems(1) by (auto simp: det_inv_def)
    with Nil Suc.prems show ?thesis by simp
  next
    case (Cons m q)
    obtain S k' where m: "m = (S, k')" by force
    note R = det_round_spec [OF Suc.prems(1) Cons [unfolded m] L]
    show ?thesis
    proof (cases "det_round n L S k' (st\<lparr>det_queue := q\<rparr>)")
      case None
      with R Cons m show ?thesis by simp
    next
      case (Some st1)
      then have inv: "det_inv n L (Suc k) st1" using R by simp
      have "L \<le> fuel + Suc k" using Suc.prems(2) by simp
      from Suc.IH [OF inv this] Some Cons m show ?thesis by simp
    qed
  qed
qed


section \<open>The start, and the state sets by id\<close>

lemma det_start_fold:
  "det_ids st = rev (zip xs [0..<length xs]) \<Longrightarrow> det_dstates st = replicate (length xs) (new_dstate m) \<Longrightarrow>
    det_queue st = zip xs [0..<length xs] \<Longrightarrow> distinct (xs @ init) \<Longrightarrow> length (xs @ init) \<le> 2 ^ 16 \<Longrightarrow>
    (let st' = foldl (det_add_initial m) st init; ys = xs @ init in
     det_ids st' = rev (zip ys [0..<length ys]) \<and> det_dstates st' = replicate (length ys) (new_dstate m)
     \<and> det_queue st' = zip ys [0..<length ys])"
proof (induction init arbitrary: st xs)
  case (Cons S init)
  have t: "trunc16 (length xs) = length xs" using Cons.prems(5) by (simp add: trunc16_id)
  have "map_of (det_ids st) S = None"
    using Cons.prems(1,4) by (auto simp: map_of_eq_None_iff set_zip in_set_conv_nth)
  then have "det_ids (det_add_initial m st S) = rev (zip (xs @ [S]) [0..<length (xs @ [S])])"
    "det_dstates (det_add_initial m st S) = replicate (length (xs @ [S])) (new_dstate m)"
    "det_queue (det_add_initial m st S) = zip (xs @ [S]) [0..<length (xs @ [S])]"
    using Cons.prems(1-3) t by (simp_all add: det_add_initial_def emplace_def replicate_append_same)
  from Cons.IH [OF this] Cons.prems(4,5) show ?case by simp
qed simp

lemma det_start_inv:
  assumes "distinct (au_dead n # au_initial n)" "length (au_initial n) < L" "L < 2 ^ 16"
  shows "det_inv n L 0 (det_start n)"
proof -
  define ys where "ys = au_dead n # au_initial n"
  have d: "(new_dstate (au_alphasize n))\<lparr>ds_next := replicate (au_alphasize n) DEAD_STATE\<rparr> =
      new_dstate (au_alphasize n)" by (simp add: new_dstate_def DEAD_STATE_def)
  have st: "det_ids (det_start n) = rev (zip ys [0..<length ys])"
    "det_dstates (det_start n) = replicate (length ys) (new_dstate (au_alphasize n))"
    "det_queue (det_start n) = zip ys [0..<length ys]"
    using det_start_fold [of _ "[au_dead n]" "au_alphasize n" "au_initial n"] assms
    unfolding ys_def det_start_def d by (auto simp: DEAD_STATE_def Let_def)
  have sets: "det_sets (det_start n) = ys" by (simp add: det_sets_def st rev_map)
  have "zip ys [0..<length ys] = map (\<lambda>i. (ys ! i, i)) [0..<length ys]"
    by (rule nth_equalityI) simp_all
  moreover have "det_numbered (det_start n)"
    using assms(1) by (simp add: det_numbered_def sets st rev_map ys_def)
  moreover have "\<forall>S \<in> set ys. au_reach n S" by (auto simp: ys_def intro: au_reach.start)
  moreover have "length ys \<le> L" using assms(2) by (simp add: ys_def)
  moreover have "\<exists>more. ys = au_dead n # au_initial n @ more" by (simp add: ys_def)
  moreover have "i < length ys \<Longrightarrow> det_dstates (det_start n) ! i = new_dstate (au_alphasize n)" for i
    by (simp add: st(2))
  ultimately show ?thesis
    unfolding det_inv_def det_common_def sets
    by (auto simp: st daddy_ok_def new_dstate_def simp del: upt_Suc)
qed

lemma statesets_of_fold:
  "distinct (map snd ids) \<Longrightarrow> \<forall>(S, i) \<in> set ids. i < length ss \<Longrightarrow>
    (let ss' = foldl (\<lambda>ss (k, v). ss[v := k]) ss ids in
     length ss' = length ss \<and> (\<forall>(S, i) \<in> set ids. ss' ! i = S) \<and>
     (\<forall>i < length ss. i \<notin> snd ` set ids \<longrightarrow> ss' ! i = ss ! i))"
proof (induction ids arbitrary: ss)
  case (Cons m ids)
  obtain S i where m: "m = (S, i)" by force
  from Cons.IH [of "ss[i := S]"] Cons.prems show ?case
    by (auto simp: m Let_def image_iff nth_list_update split: prod.splits)
qed simp

lemma statesets_of_numbered:
  assumes num: "det_numbered st"
  shows "statesets_of default_set (det_ids st) = det_sets st"
proof (rule nth_equalityI)
  have ids: "set (det_ids st) = {(det_sets st ! i, i) | i. i < length (det_ids st)}"
    using arg_cong [OF det_ids_zip [OF num], of set] det_numbered_length [OF num]
    by (auto simp: set_zip)
  have d: "distinct (map snd (det_ids st))"
    using num by (metis det_numbered_def distinct_rev distinct_upt)
  note F = statesets_of_fold [OF d, of "replicate (length (det_ids st)) default_set"]
  have lt: "\<forall>(S, i) \<in> set (det_ids st). i < length (replicate (length (det_ids st)) default_set)"
    using ids by auto
  show len: "length (statesets_of default_set (det_ids st)) = length (det_sets st)"
    using F lt by (simp add: statesets_of_def Let_def det_numbered_length [OF num])
  fix i assume "i < length (statesets_of default_set (det_ids st))"
  then have "(det_sets st ! i, i) \<in> set (det_ids st)"
    using len ids det_numbered_length [OF num] by auto
  then show "statesets_of default_set (det_ids st) ! i = det_sets st ! i"
    using F lt by (auto simp: statesets_of_def Let_def)
qed

definition fires_ds :: "dstate list \<Rightarrow> dstate_id_t \<Rightarrow> ReportID set \<times> ReportID set" where
  "fires_ds ds i = (ds_reports (ds ! i), ds_reports_eod (ds ! i))"

definition run_ds :: "dstate list \<Rightarrow> dstate_id_t \<Rightarrow> symbol_t list \<Rightarrow> dstate_id_t" where
  "run_ds ds i w = foldl (\<lambda>s a. ds_next (ds ! s) ! a) i w"

lemma run_ds_simps [simp]:
  "run_ds ds i [] = i" "run_ds ds i (a # w) = run_ds ds (ds_next (ds ! i) ! a) w"
  by (simp_all add: run_ds_def)

text \<open>What a result of the construction satisfies.\<close>

definition det_result :: "'s automaton \<Rightarrow> nat \<Rightarrow> dstate list \<Rightarrow> 's list \<Rightarrow> bool" where
  "det_result n L ds sets =
     (length ds = length sets \<and> length sets \<le> L \<and> distinct sets
      \<and> (\<exists>more. sets = au_dead n # au_initial n @ more)
      \<and> set sets = {S. au_reach n S}
      \<and> (\<forall>d \<in> set ds. length (ds_next d) = au_alphasize n)
      \<and> (\<forall>i < length sets. daddy_ok n sets ds i \<and> det_finished n sets ds i))"

lemma determinise_cases:
  assumes "distinct (au_dead n # au_initial n)" "length (au_initial n) < L" "L < 2 ^ 16"
  obtains (result) ds sets where "determinise default_set n L = Some (Some (ds, sets))" "det_result n L ds sets"
    | (limit) "determinise default_set n L = Some None" "over_limit n L"
proof -
  consider (ok) st where "det_loop L n L (det_start n) = Some (Some st)" "det_inv n L (length (det_ids st)) st"
    | (over) "det_loop L n L (det_start n) = Some None" "over_limit n L"
    using det_loop_spec [OF assms(3) det_start_inv [OF assms], of L] by auto
  then show ?thesis
  proof cases
    case over
    then show ?thesis using limit by (simp add: determinise_def)
  next
    case ok
    have com: "det_common n L st" using ok(2) by (simp add: det_inv_def)
    note lens = det_common_lengths [OF com]
    have fin: "det_finished n (det_sets st) (det_dstates st) i" if "i < length (det_sets st)" for i
      using ok(2) that lens by (simp add: det_inv_def)
    have "S \<in> set (det_sets st)" if "au_reach n S" for S
      using that
    proof (induction rule: au_reach.induct)
      case (start S)
      then show ?case using com by (auto simp: det_common_def)
    next
      case (step S a)
      then obtain i where "i < length (det_sets st)" "det_sets st ! i = S" by (metis in_set_conv_nth)
      with fin [of i] step(2) show ?case unfolding det_finished_def by (metis nth_mem)
    qed
    then have "det_result n L (det_dstates st) (det_sets st)"
      using com fin lens unfolding det_result_def det_common_def
      by (auto simp: det_numbered_def)
    moreover have "determinise default_set n L = Some (Some (det_dstates st, det_sets st))"
      using ok(1) by (simp add: determinise_def statesets_of_numbered [OF lens(3)])
    ultimately show ?thesis using result by blast
  qed
qed

lemma det_result_run:
  assumes res: "det_result n L ds sets"
  shows "i < length sets \<Longrightarrow> \<forall>a \<in> set w. a < au_alphasize n \<Longrightarrow>
    run_ds ds i w < length sets \<and> sets ! run_ds ds i w = au_run n (sets ! i) w"
proof (induction w arbitrary: i)
  case (Cons a w)
  then have "det_finished n sets ds i" using res by (simp add: det_result_def)
  then have "ds_next (ds ! i) ! a < length sets" "sets ! (ds_next (ds ! i) ! a) = au_step n (sets ! i) a"
    using Cons.prems(2) by (auto simp: det_finished_def)
  with Cons show ?case by simp
qed simp

lemma det_result_fires:
  assumes res: "det_result n L ds sets" and "i < length sets" "\<forall>a \<in> set w. a < au_alphasize n"
  shows "fires_ds ds (run_ds ds i w) =
    (au_reports n (au_run n (sets ! i) w), au_reportsEod n (au_run n (sets ! i) w))"
  using det_result_run [OF assms] res by (simp add: det_result_def det_finished_def fires_ds_def)

lemma det_result_not_over:
  assumes "det_result n L ds sets"
  shows "\<not> over_limit n L"
proof
  assume "over_limit n L"
  then obtain Ss where Ss: "distinct Ss" "length Ss = L + 1" "\<forall>S \<in> set Ss. au_reach n S"
    by (auto simp: over_limit_def)
  have "set Ss \<subseteq> set sets" using Ss(3) assms by (auto simp: det_result_def)
  then have "card (set Ss) \<le> card (set sets)" by (intro card_mono) auto
  also have "\<dots> \<le> length sets" by (rule card_length)
  finally show False using Ss(1,2) assms by (simp add: distinct_card det_result_def)
qed


section \<open>The interface\<close>

text \<open>
  A family of automata to determinise, with the meaning of their state sets: the reports after
  a word of symbols.
\<close>

locale determinisable =
  fixes au :: "'b \<Rightarrow> 's automaton"
    and valid :: "'b \<Rightarrow> bool"
    and meaning :: "'b \<Rightarrow> 's \<Rightarrow> symbol_t list \<Rightarrow> ReportID set \<times> ReportID set"
  assumes starts_distinct: "valid b \<Longrightarrow> distinct (au_dead (au b) # au_initial (au b))"
    and reports_meaning: "valid b \<Longrightarrow> au_reach (au b) S \<Longrightarrow> \<forall>a \<in> set w. a < au_alphasize (au b) \<Longrightarrow>
      (au_reports (au b) (au_run (au b) S w), au_reportsEod (au b) (au_run (au b) S w)) = meaning b S w"
begin

lemma determinise_meaning:
  assumes "valid b" "length (au_initial (au b)) < L" "L < 2 ^ 16"
    and det: "determinise default_set (au b) L = Some (Some (ds, sets))"
    and i: "i < length (au_dead (au b) # au_initial (au b))" and w: "\<forall>a \<in> set w. a < au_alphasize (au b)"
  shows "fires_ds ds (run_ds ds i w) = meaning b ((au_dead (au b) # au_initial (au b)) ! i) w"
proof -
  have res: "det_result (au b) L ds sets"
    using determinise_cases [OF starts_distinct [OF assms(1)] assms(2,3), of default_set] det by auto
  then obtain more where sets: "sets = (au_dead (au b) # au_initial (au b)) @ more"
    by (auto simp: det_result_def)
  then have "i < length sets" "sets ! i = (au_dead (au b) # au_initial (au b)) ! i"
    using i by (auto simp: nth_append simp del: append_Cons)
  moreover have "au_reach (au b) (sets ! i)"
    using res calculation(1) nth_mem [of i sets] by (auto simp: det_result_def)
  ultimately show ?thesis
    using det_result_fires [OF res _ w, of i] reports_meaning [OF assms(1) _ w] by simp
qed

lemma determinise_dead:
  assumes "valid b" "length (au_initial (au b)) < L" "L < 2 ^ 16"
    and "determinise default_set (au b) L = Some (Some (ds, sets))" "\<forall>a \<in> set w. a < au_alphasize (au b)"
  shows "fires_ds ds (run_ds ds DEAD_STATE w) = meaning b (au_dead (au b)) w"
  using determinise_meaning [OF assms(1-4) _ assms(5), of 0] by (simp add: DEAD_STATE_def)

end

section \<open>Properties\<close>

text \<open>
  C3. When \<open>determinise\<close> succeeds, the DFA states stand for exactly the reachable state sets,
  each once, the dead set first and the initial sets next; every word over the alphabet leads
  from the state of a set to the state of the set the automaton reaches, and the reports fired
  there are those of that set.
\<close>

theorem determinise_correct:
  assumes "distinct (au_dead n # au_initial n)" "length (au_initial n) < state_limit" "state_limit < 2 ^ 16"
    and "determinise default_set n state_limit = Some (Some (dstates, sets))"
  shows "length dstates = length sets \<and> distinct sets \<and> set sets = {S. au_reach n S}
    \<and> take (Suc (length (au_initial n))) sets = au_dead n # au_initial n
    \<and> (\<forall>i < length sets. \<forall>w. (\<forall>a \<in> set w. a < au_alphasize n) \<longrightarrow>
         run_ds dstates i w < length sets
         \<and> sets ! run_ds dstates i w = au_run n (sets ! i) w
         \<and> fires_ds dstates (run_ds dstates i w) =
             (au_reports n (au_run n (sets ! i) w), au_reportsEod n (au_run n (sets ! i) w)))"
proof -
  have res: "det_result n state_limit dstates sets"
    using determinise_cases [OF assms(1-3), of default_set] assms(4) by auto
  then show ?thesis
    using det_result_run [OF res] det_result_fires [OF res]
    by (auto simp: det_result_def)
qed

text \<open>Subsets of the states of a two-state automaton, for the examples.\<close>

definition det_example :: "nat list automaton" where
  "det_example = \<lparr>au_dead = [], au_initial = [[1]], au_reports = (\<lambda>S. if 2 \<in> set S then {5} else {}),
     au_reportsEod = (\<lambda>S. {}), au_canPrune = (\<lambda>_. False),
     au_transition = (\<lambda>S. if 1 \<in> set S then [[1], [1, 2]] else [[], []]),
     au_alphasize = 2, au_alpha = [], au_unalpha = [97, 98]\<rparr>"

definition det_example_states :: "dstate list" where
  "det_example_states =
     [(new_dstate 2), (new_dstate 2)\<lparr>ds_next := [1, 2]\<rparr>,
      (new_dstate 2)\<lparr>ds_next := [1, 2], ds_daddy := 1, ds_reports := {5}\<rparr>]"

lemma replicate_2: "replicate 2 x = [x, x]"
  by (simp add: numeral_2_eq_2)

lemma det_example_eval:
  "determinise [] det_example 3 = Some (Some (det_example_states, [[], [1], [1, 2]]))"
  by (simp add: determinise_def numeral_3_eq_3 det_start_def det_example_def det_add_initial_def
      det_round_def det_succ_id_def emplace_def trunc16_def new_dstate_def upt_rec Let_def DEAD_STATE_def
      N_CHARS_def statesets_of_def det_example_states_def replicate_2)

lemma det_example_ok: "distinct (au_dead det_example # au_initial det_example)"
  "length (au_initial det_example) < 3"
  by (simp_all add: det_example_def)

theorem determinise_correct_witness:
  "{S. au_reach det_example S} = {[], [1], [1, 2]} \<and>
   fires_ds det_example_states (run_ds det_example_states 1 [0, 1, 1]) = ({5}, {})"
proof -
  note D = determinise_correct [OF det_example_ok _ det_example_eval]
  have "\<forall>w. (\<forall>a \<in> set w. a < 2) \<longrightarrow>
    fires_ds det_example_states (run_ds det_example_states 1 w) =
      (au_reports det_example (au_run det_example [1] w), au_reportsEod det_example (au_run det_example [1] w))"
    using D by (simp add: det_example_def del: run_ds_simps)
  from spec [OF this, of "[0, 1, 1]"]
  have "fires_ds det_example_states (run_ds det_example_states 1 [0, 1, 1]) = ({5}, {})"
    by (simp add: det_example_def au_step_def au_pruned_def del: run_ds_simps)
  then show ?thesis using D by auto
qed

text \<open>
  C5. The construction always returns, and it gives up exactly when more than \<open>state_limit\<close>
  state sets can be reached.
\<close>

theorem determinise_limit_exact:
  assumes "distinct (au_dead n # au_initial n)" "length (au_initial n) < state_limit" "state_limit < 2 ^ 16"
  shows "determinise default_set n state_limit \<noteq> None
    \<and> (determinise default_set n state_limit = Some None \<longleftrightarrow>
        (\<exists>Ss. distinct Ss \<and> length Ss = state_limit + 1 \<and> (\<forall>S \<in> set Ss. au_reach n S)))"
proof (cases rule: determinise_cases [OF assms, of default_set])
  case (1 ds sets)
  then show ?thesis using det_result_not_over [OF 1(2)] unfolding over_limit_def by auto
next
  case 2
  then show ?thesis unfolding over_limit_def by auto
qed

theorem determinise_limit_exact_witness:
  "determinise [] det_example 2 = Some None \<and>
    (\<exists>Ss. distinct Ss \<and> length Ss = 2 + 1 \<and> set Ss \<subseteq> {S. au_reach det_example S})"
proof -
  have "determinise [] det_example (Suc (Suc 0)) = Some None"
    by (simp add: determinise_def det_start_def det_example_def det_add_initial_def
      det_round_def det_succ_id_def emplace_def trunc16_def new_dstate_def upt_rec Let_def DEAD_STATE_def
      N_CHARS_def replicate_2)
  then have e: "determinise [] det_example 2 = Some None" by (simp only: numeral_2_eq_2)
  have "length (au_initial det_example) < 2" by (simp add: det_example_def)
  from determinise_limit_exact [OF det_example_ok(1) this, of "[]"] e show ?thesis
    by (simp add: subset_eq)
qed

text \<open>
  The recorded \<open>daddy\<close> of a state is the dead state or an earlier state with a transition
  to it on a character (not on \<open>TOP\<close>).
\<close>

theorem determinise_daddy:
  assumes "distinct (au_dead n # au_initial n)" "length (au_initial n) < state_limit" "state_limit < 2 ^ 16"
    and "determinise default_set n state_limit = Some (Some (dstates, sets))" "i < length dstates"
  shows "ds_daddy (dstates ! i) = DEAD_STATE \<or>
    (ds_daddy (dstates ! i) < i \<and> (\<exists>a < au_alphasize n. au_unalpha n ! a < N_CHARS \<and>
       ds_next (dstates ! ds_daddy (dstates ! i)) ! a = i))"
proof -
  have res: "det_result n state_limit dstates sets"
    using determinise_cases [OF assms(1-3), of default_set] assms(4) by auto
  define d where "d = ds_daddy (dstates ! i)"
  have i: "i < length sets" using res assms(5) by (simp add: det_result_def)
  then have "daddy_ok n sets dstates i" using res by (simp add: det_result_def)
  then consider "d = 0" | a where "d < i" "a < au_alphasize n" "au_unalpha n ! a < N_CHARS"
      "au_step n (sets ! d) a = sets ! i"
    by (auto simp: daddy_ok_def d_def)
  then show ?thesis
  proof cases
    case 1
    then show ?thesis by (simp add: d_def DEAD_STATE_def)
  next
    case (2 a)
    have "det_finished n sets dstates d" using res 2(1) i by (simp add: det_result_def)
    then have "ds_next (dstates ! d) ! a < length sets" "sets ! (ds_next (dstates ! d) ! a) = sets ! i"
      using 2 by (auto simp: det_finished_def)
    then have "ds_next (dstates ! d) ! a = i"
      using res i by (simp add: det_result_def nth_eq_iff_index_eq)
    with 2 show ?thesis unfolding d_def by blast
  qed
qed

theorem determinise_daddy_witness:
  "ds_daddy (det_example_states ! 2) = 0 \<or> ds_daddy (det_example_states ! 2) < 2"
  using determinise_daddy [OF det_example_ok _ det_example_eval, of 2]
  by (auto simp: det_example_states_def DEAD_STATE_def)

end
