(* ===== verification/Logical.thy ===== *)
theory Logical
  imports Prelude
begin

unbundle bit_operations_syntax

text \<open>
  Logical combinations of expressions: the parser \<open>src/parser/logical_combination.cpp\<close> (a
  shunting-yard algorithm that appends to a shared table of operations), the types of
  \<open>src/util/logical.h\<close>, and the evaluation at run time, \<open>isLogicalCombination\<close> and
  \<open>isPurelyNegativeMatch\<close> of \<open>src/report.h\<close>.  A \<open>std::map\<close> is an association list, stacks
  have their top first, the \<open>u32\<close> sentinels for "no digits yet" and "no identifier" are
  \<open>None\<close>, and a multibit vector of truth values is a function.
\<close>

section \<open>Types (\<open>logical.h\<close>)\<close>

definition INVALID_LKEY :: u32 where
  "INVALID_LKEY = NOT 0"

datatype LogicalOpType = LOGICAL_OP_NOT | LOGICAL_OP_AND | LOGICAL_OP_OR

fun op_rank :: "LogicalOpType \<Rightarrow> nat" where
  "op_rank LOGICAL_OP_NOT = 0"
| "op_rank LOGICAL_OP_AND = 1"
| "op_rank LOGICAL_OP_OR = 2"

record LogicalOp =
  lop_id :: u32
  lop_op :: LogicalOpType
  lop_lo :: u32
  lop_ro :: u32

record CombInfo =
  ci_id :: u32
  ci_ekey :: u32
  ci_start :: u32
  ci_result :: u32
  ci_min_offset :: u64a
  ci_max_offset :: u64a

definition LOGICAL_OP_BIT :: u32 where
  "LOGICAL_OP_BIT = 0x80000000"

section \<open>The parser's state\<close>

record ParsedLogical =
  combInfoMap :: "CombInfo list"
  toCombKeyMap :: "(u32 \<times> u32) list"
  toLogicalKeyMap :: "(u32 \<times> u32) list"
  lkey2ckeys :: "u32 \<Rightarrow> u32 set option"
  logicalTree :: "LogicalOp list"

datatype logic_error =
  LocatedParseError string nat \<comment> \<open>with the offset given to \<open>locate\<close>\<close>
| CompileError string

definition getLogicalKey :: "u32 \<Rightarrow> ParsedLogical \<Rightarrow> u32 \<times> ParsedLogical" where
  "getLogicalKey a pl =
     (case map_of (toLogicalKeyMap pl) a of
        Some lkey \<Rightarrow> (lkey, pl)
      | None \<Rightarrow> let n = word_of_nat (length (toLogicalKeyMap pl)) in
          (n, pl\<lparr>toLogicalKeyMap := (a, n) # toLogicalKeyMap pl\<rparr>))"

definition getCombKey :: "u32 \<Rightarrow> ParsedLogical \<Rightarrow> u32 \<times> ParsedLogical" where
  "getCombKey a pl =
     (case map_of (toCombKeyMap pl) a of
        Some ckey \<Rightarrow> (ckey, pl)
      | None \<Rightarrow> let n = word_of_nat (length (toCombKeyMap pl)) in
          (n, pl\<lparr>toCombKeyMap := (a, n) # toCombKeyMap pl\<rparr>))"

interpretation logical_keys: key_table toLogicalKeyMap "\<lambda>a. a" getLogicalKey
  by unfold_locales (auto simp: getLogicalKey_def Let_def)

interpretation comb_keys: key_table toCombKeyMap "\<lambda>a. a" getCombKey
  by unfold_locales (auto simp: getCombKey_def Let_def)

definition addRelateCKey :: "u32 \<Rightarrow> u32 \<Rightarrow> ParsedLogical \<Rightarrow> ParsedLogical" where
  "addRelateCKey lkey ckey pl =
     (let old = (case lkey2ckeys pl lkey of None \<Rightarrow> {} | Some cs \<Rightarrow> cs) in
      pl\<lparr>lkey2ckeys := (lkey2ckeys pl)(lkey := Some (insert ckey old))\<rparr>)"

definition logicalTreeAdd :: "LogicalOpType \<Rightarrow> u32 \<Rightarrow> u32 \<Rightarrow> ParsedLogical \<Rightarrow> u32 \<times> ParsedLogical" where
  "logicalTreeAdd opr left right pl =
     (let lop = \<lparr>lop_id = LOGICAL_OP_BIT OR word_of_nat (length (logicalTree pl)), lop_op = opr,
                 lop_lo = left, lop_ro = right\<rparr>
      in (lop_id lop, pl\<lparr>logicalTree := logicalTree pl @ [lop]\<rparr>))"

definition combinationInfoAdd ::
  "u32 \<Rightarrow> u32 \<Rightarrow> u32 \<Rightarrow> u32 \<Rightarrow> u64a \<Rightarrow> u64a \<Rightarrow> ParsedLogical \<Rightarrow> ParsedLogical" where
  "combinationInfoAdd id_in ekey lkey_start lkey_result min_offset max_offset pl =
     pl\<lparr>combInfoMap := combInfoMap pl @
        [\<lparr>ci_id = id_in, ci_ekey = ekey, ci_start = lkey_start, ci_result = lkey_result,
          ci_min_offset = min_offset, ci_max_offset = max_offset\<rparr>]\<rparr>"

text \<open>The macro \<open>TRY_RENUM_OP\<close>, for a key map of the given size.\<close>

definition TRY_RENUM_OP :: "nat \<Rightarrow> u32 \<Rightarrow> u32" where
  "TRY_RENUM_OP key_count ckey =
     (if ckey AND LOGICAL_OP_BIT \<noteq> 0 then (ckey AND NOT LOGICAL_OP_BIT) + word_of_nat key_count else ckey)"

definition renum_op :: "nat \<Rightarrow> LogicalOp \<Rightarrow> LogicalOp" where
  "renum_op key_count lop =
     lop\<lparr>lop_id := TRY_RENUM_OP key_count (lop_id lop), lop_lo := TRY_RENUM_OP key_count (lop_lo lop),
         lop_ro := TRY_RENUM_OP key_count (lop_ro lop)\<rparr>"

definition renum_info :: "nat \<Rightarrow> CombInfo \<Rightarrow> CombInfo" where
  "renum_info key_count ci =
     ci\<lparr>ci_start := TRY_RENUM_OP key_count (ci_start ci),
        ci_result := TRY_RENUM_OP key_count (ci_result ci)\<rparr>"

definition logicalKeyRenumber :: "ParsedLogical \<Rightarrow> ParsedLogical" where
  "logicalKeyRenumber pl =
     (let n = length (toLogicalKeyMap pl) in
      pl\<lparr>logicalTree := map (renum_op n) (logicalTree pl),
         combInfoMap := map (renum_info n) (combInfoMap pl)\<rparr>)"

section \<open>The parser\<close>

record LogicalOperator =
  lo_op :: LogicalOpType
  lo_paren :: nat

fun toOperator :: "char \<Rightarrow> LogicalOpType option" where
  "toOperator c =
     (if c = CHR ''!'' then Some LOGICAL_OP_NOT
      else if c = CHR ''&'' then Some LOGICAL_OP_AND
      else if c = CHR ''|'' then Some LOGICAL_OP_OR
      else None)"

definition cmpOperator :: "LogicalOperator \<Rightarrow> LogicalOperator \<Rightarrow> bool" where
  "cmpOperator op1 op2 =
     (if lo_paren op1 < lo_paren op2 then False
      else if lo_paren op1 > lo_paren op2 then True
      else if op_rank (lo_op op1) > op_rank (lo_op op2) then False
      else True)"

definition isdigit :: "char \<Rightarrow> bool" where
  "isdigit c = (48 \<le> (of_char c :: nat) \<and> (of_char c :: nat) \<le> 57)"

record parse_state =
  op_stack :: "LogicalOperator list"
  subid_stack :: "u32 list"
  ps_pl :: ParsedLogical
  lkey_start :: u32
  paren :: nat
  digit :: "nat option"

text \<open>\<open>fetchSubID\<close>: the value of the digits in progress; the loop runs from the last digit.\<close>

definition digits_loop :: "string \<Rightarrow> nat \<Rightarrow> nat \<Rightarrow> u32" where
  "digits_loop logical start end =
     fst (foldl (\<lambda>(total, mult) j. (total + (word_of_nat (of_char (logical ! j) - 48)) * mult, mult * 10))
       (0, 1) (rev [start..<end]))"

definition fetchSubID :: "string \<Rightarrow> nat option \<Rightarrow> nat \<Rightarrow> logic_error + u32 option" where
  "fetchSubID logical dig end =
     (case dig of
        None \<Rightarrow> Inr None
      | Some start \<Rightarrow>
          if end - start > 9 then Inl (LocatedParseError ''Expression id too large'' end)
          else Inr (Some (digits_loop logical start end)))"

definition popOperator :: "nat \<Rightarrow> LogicalOperator \<Rightarrow> parse_state \<Rightarrow> logic_error + parse_state" where
  "popOperator i opr st =
     (case subid_stack st of
        [] \<Rightarrow> Inl (LocatedParseError ''Not enough operand'' i)
      | right # rest \<Rightarrow>
          if lo_op opr = LOGICAL_OP_NOT then
            let (key, pl) = logicalTreeAdd (lo_op opr) 0 right (ps_pl st)
            in Inr (st\<lparr>subid_stack := key # rest, ps_pl := pl\<rparr>)
          else
            (case rest of
               [] \<Rightarrow> Inl (LocatedParseError ''Not enough operand'' i)
             | left # rest \<Rightarrow>
                 let (key, pl) = logicalTreeAdd (lo_op opr) left right (ps_pl st)
                 in Inr (st\<lparr>subid_stack := key # rest, ps_pl := pl\<rparr>)))"

text \<open>
  Pop operators while the top satisfies \<open>P\<close>; the first one popped gives \<open>lkey_start\<close>.
\<close>

fun pop_ops ::
  "nat \<Rightarrow> (LogicalOperator \<Rightarrow> bool) \<Rightarrow> LogicalOperator list \<Rightarrow> parse_state \<Rightarrow> logic_error + parse_state" where
  "pop_ops i P [] st = Inr (st\<lparr>op_stack := []\<rparr>)"
| "pop_ops i P (opr # ops) st =
     (if P opr then
        sbind (popOperator i opr st) (\<lambda>st.
          pop_ops i P ops
            (if lkey_start st = INVALID_LKEY then st\<lparr>lkey_start := hd (subid_stack st)\<rparr> else st))
      else Inr (st\<lparr>op_stack := opr # ops\<rparr>))"

definition pop_while :: "nat \<Rightarrow> (LogicalOperator \<Rightarrow> bool) \<Rightarrow> parse_state \<Rightarrow> logic_error + parse_state" where
  "pop_while i P st = pop_ops i P (op_stack st) st"

text \<open>Push the identifier whose digits end before offset \<open>i\<close>, if one is in progress.\<close>

definition push_subid :: "string \<Rightarrow> u32 \<Rightarrow> nat \<Rightarrow> parse_state \<Rightarrow> logic_error + parse_state" where
  "push_subid logical ckey i st =
     sbind (fetchSubID logical (digit st) i) (\<lambda>subid.
       case subid of
         None \<Rightarrow> Inr st
       | Some subid \<Rightarrow>
           let (lkey, pl) = getLogicalKey subid (ps_pl st) in
           Inr (st\<lparr>digit := None, subid_stack := lkey # subid_stack st, ps_pl := addRelateCKey lkey ckey pl\<rparr>))"

definition parse_char :: "string \<Rightarrow> u32 \<Rightarrow> nat \<Rightarrow> char \<Rightarrow> parse_state \<Rightarrow> logic_error + parse_state" where
  "parse_char logical ckey i c st =
     (if isdigit c then
        Inr (if digit st = None then st\<lparr>digit := Some i\<rparr> else st)
      else sbind (push_subid logical ckey i st) (\<lambda>st.
        if c = CHR '' '' then Inr st
        else if c = CHR ''('' then Inr (st\<lparr>paren := paren st + 1\<rparr>)
        else if c = CHR '')'' then
          (if paren st \<le> 0 then Inl (LocatedParseError ''Not enough left parentheses'' i)
           else Inr (st\<lparr>paren := paren st - 1\<rparr>))
        else case toOperator c of
            None \<Rightarrow> Inl (LocatedParseError ''Unknown character'' i)
          | Some prio \<Rightarrow>
              let opr = \<lparr>lo_op = prio, lo_paren = paren st\<rparr> in
              sbind (pop_while i (\<lambda>top. cmpOperator top opr) st) (\<lambda>st.
                Inr (st\<lparr>op_stack := opr # op_stack st\<rparr>))))"

fun parse_loop :: "string \<Rightarrow> u32 \<Rightarrow> nat \<Rightarrow> string \<Rightarrow> parse_state \<Rightarrow> logic_error + parse_state" where
  "parse_loop logical ckey i [] st = Inr st"
| "parse_loop logical ckey i (c # cs) st =
     sbind (parse_char logical ckey i c st) (parse_loop logical ckey (i + 1) cs)"

definition parseLogicalCombination ::
  "u32 \<Rightarrow> string \<Rightarrow> u32 \<Rightarrow> u64a \<Rightarrow> u64a \<Rightarrow> ParsedLogical \<Rightarrow> logic_error + ParsedLogical" where
  "parseLogicalCombination id_in logical ekey min_offset max_offset pl =
     (let (ckey, pl) = getCombKey id_in pl; n = length logical;
          st = \<lparr>op_stack = [], subid_stack = [], ps_pl = pl, lkey_start = INVALID_LKEY, paren = 0, digit = None\<rparr>
      in sbind (parse_loop logical ckey 0 logical st) (\<lambda>st.
         if paren st \<noteq> 0 then Inl (LocatedParseError ''Not enough right parentheses'' n)
         else sbind (push_subid logical ckey n st) (\<lambda>st.
           sbind (pop_while n (\<lambda>_. True) st) (\<lambda>st.
             if length (subid_stack st) \<noteq> 1 then Inl (LocatedParseError ''Not enough operator'' n)
             else if lkey_start st = INVALID_LKEY then Inl (CompileError ''No logical operation.'')
             else Inr (combinationInfoAdd id_in ekey (lkey_start st) (hd (subid_stack st))
                         min_offset max_offset (ps_pl st))))))"

section \<open>Evaluation at run time (\<open>report.h\<close>)\<close>

text \<open>\<open>lvec\<close> holds the values of the sub-expressions, then of the operations.\<close>

definition eval_op :: "LogicalOp \<Rightarrow> (u32 \<Rightarrow> bool) \<Rightarrow> bool" where
  "eval_op lop lvec =
     (case lop_op lop of
        LOGICAL_OP_NOT \<Rightarrow> \<not> lvec (lop_ro lop)
      | LOGICAL_OP_AND \<Rightarrow> lvec (lop_lo lop) \<and> lvec (lop_ro lop)
      | LOGICAL_OP_OR \<Rightarrow> lvec (lop_lo lop) \<or> lvec (lop_ro lop))"

definition setLogicalVal :: "(u32 \<Rightarrow> bool) \<Rightarrow> u32 \<Rightarrow> bool \<Rightarrow> u32 \<Rightarrow> bool" where
  "setLogicalVal lvec lkey val = lvec(lkey := val)"

definition logical_region :: "nat \<Rightarrow> LogicalOp list \<Rightarrow> u32 \<Rightarrow> u32 \<Rightarrow> LogicalOp list" where
  "logical_region lkeyCount tree start result =
     map (\<lambda>i. tree ! (i - lkeyCount)) [unat start..<Suc (unat result)]"

definition isLogicalCombination ::
  "nat \<Rightarrow> LogicalOp list \<Rightarrow> (u32 \<Rightarrow> bool) \<Rightarrow> u32 \<Rightarrow> u32 \<Rightarrow> bool \<times> (u32 \<Rightarrow> bool)" where
  "isLogicalCombination lkeyCount tree lvec start result =
     (let lvec = foldl (\<lambda>lvec lop. setLogicalVal lvec (lop_id lop) (eval_op lop lvec)) lvec
                   (logical_region lkeyCount tree start result)
      in (lvec result, lvec))"

text \<open>Some operand that is a sub-expression has matched.\<close>

definition operand_matched :: "nat \<Rightarrow> LogicalOp \<Rightarrow> (u32 \<Rightarrow> bool) \<Rightarrow> bool" where
  "operand_matched lkeyCount lop lvec =
     (case lop_op lop of
        LOGICAL_OP_NOT \<Rightarrow> unat (lop_ro lop) < lkeyCount \<and> lvec (lop_ro lop)
      | _ \<Rightarrow> (unat (lop_lo lop) < lkeyCount \<and> lvec (lop_lo lop))
          \<or> (unat (lop_ro lop) < lkeyCount \<and> lvec (lop_ro lop)))"

fun purely_negative_loop ::
  "nat \<Rightarrow> LogicalOp list \<Rightarrow> u32 \<Rightarrow> (u32 \<Rightarrow> bool) \<Rightarrow> bool \<times> (u32 \<Rightarrow> bool)" where
  "purely_negative_loop lkeyCount [] result lvec = (lvec result, lvec)"
| "purely_negative_loop lkeyCount (lop # lops) result lvec =
     (if operand_matched lkeyCount lop lvec then (False, lvec)
      else purely_negative_loop lkeyCount lops result
             (setLogicalVal lvec (lop_id lop) (eval_op lop lvec)))"

definition isPurelyNegativeMatch ::
  "nat \<Rightarrow> LogicalOp list \<Rightarrow> (u32 \<Rightarrow> bool) \<Rightarrow> u32 \<Rightarrow> u32 \<Rightarrow> bool \<times> (u32 \<Rightarrow> bool)" where
  "isPurelyNegativeMatch lkeyCount tree lvec start result =
     purely_negative_loop lkeyCount (logical_region lkeyCount tree start result) result lvec"


section \<open>Lemmas: keys and references\<close>

definition op_ref :: "nat \<Rightarrow> u32" where
  "op_ref n = LOGICAL_OP_BIT OR word_of_nat n"

lemma bit_LOGICAL_OP_BIT: "bit LOGICAL_OP_BIT i \<longleftrightarrow> i = 31"
proof -
  have eq: "LOGICAL_OP_BIT = 2 ^ 31" by (simp add: LOGICAL_OP_BIT_def)
  show ?thesis unfolding eq bit_exp_iff by (auto simp: possible_bit_word)
qed

lemma bit_small: "n < 2 ^ 31 \<Longrightarrow> 31 \<le> i \<Longrightarrow> \<not> bit (word_of_nat n :: u32) i"
proof -
  assume n: "n < 2 ^ 31" "31 \<le> i"
  then have "n < 2 ^ i" using power_increasing [of 31 i "2 :: nat"] by linarith
  then have "\<not> bit n i" by (simp add: bit_iff_odd)
  then show ?thesis by (simp add: bit_of_nat_iff)
qed

lemma ref_bits:
  "n < 2 ^ 31 \<Longrightarrow> word_of_nat n AND LOGICAL_OP_BIT = 0"
  "op_ref n AND LOGICAL_OP_BIT \<noteq> 0"
  "n < 2 ^ 31 \<Longrightarrow> op_ref n AND NOT LOGICAL_OP_BIT = word_of_nat n"
proof -
  show "word_of_nat n AND LOGICAL_OP_BIT = 0" if "n < 2 ^ 31"
    by (rule bit_word_eqI) (use bit_small [OF that] in \<open>auto simp: bit_and_iff bit_LOGICAL_OP_BIT\<close>)
  have "bit (op_ref n AND LOGICAL_OP_BIT) 31"
    by (simp add: op_ref_def bit_and_iff bit_or_iff bit_LOGICAL_OP_BIT)
  then show "op_ref n AND LOGICAL_OP_BIT \<noteq> 0" by (metis bit_0_eq bot_apply bot_bool_def)
  show "op_ref n AND NOT LOGICAL_OP_BIT = word_of_nat n" if "n < 2 ^ 31"
    by (rule bit_word_eqI)
      (use bit_small [OF that] in \<open>auto simp: op_ref_def bit_and_iff bit_or_iff bit_not_iff bit_LOGICAL_OP_BIT\<close>)
qed

lemma TRY_RENUM_OP_simps:
  "n < 2 ^ 31 \<Longrightarrow> TRY_RENUM_OP k (word_of_nat n) = word_of_nat n"
  "n < 2 ^ 31 \<Longrightarrow> TRY_RENUM_OP k (op_ref n) = word_of_nat (k + n)"
  using ref_bits by (auto simp: TRY_RENUM_OP_def add.commute)

lemma word_of_nat_inj32: "m < 2 ^ 32 \<Longrightarrow> n < 2 ^ 32 \<Longrightarrow> (word_of_nat m :: u32) = word_of_nat n \<longleftrightarrow> m = n"
  by (simp add: word_of_nat_eq_iff take_bit_nat_eq_self)

lemma op_ref_inj: "m < 2 ^ 31 \<Longrightarrow> n < 2 ^ 31 \<Longrightarrow> op_ref m = op_ref n \<longleftrightarrow> m = n"
  using ref_bits(3) [of m] ref_bits(3) [of n] word_of_nat_inj32 [of m n] by force

lemma op_ref_leaf: "m < 2 ^ 31 \<Longrightarrow> op_ref n \<noteq> word_of_nat m"
  using ref_bits(1) [of m] ref_bits(2) [of n] by metis

lemma op_ref_INVALID: "n < 2 ^ 31 - 1 \<Longrightarrow> op_ref n \<noteq> INVALID_LKEY"
proof
  assume n: "n < 2 ^ 31 - 1" and "op_ref n = INVALID_LKEY"
  then have "word_of_nat n = INVALID_LKEY AND NOT LOGICAL_OP_BIT" using ref_bits(3) [of n] by simp
  also have "\<dots> = word_of_nat (2 ^ 31 - 1)" by (simp add: INVALID_LKEY_def LOGICAL_OP_BIT_def)
  finally show False using n word_of_nat_inj32 [of n "2 ^ 31 - 1"] by simp
qed

section \<open>Lemmas: the table of operations\<close>

text \<open>Evaluating a stretch of operations in order.\<close>

definition run_ops :: "(u32 \<Rightarrow> bool) \<Rightarrow> LogicalOp list \<Rightarrow> u32 \<Rightarrow> bool" where
  "run_ops lvec lops = foldl (\<lambda>lvec lop. setLogicalVal lvec (lop_id lop) (eval_op lop lvec)) lvec lops"

lemma run_ops_append1:
  "run_ops lv (lops @ [lop]) = (run_ops lv lops)(lop_id lop := eval_op lop (run_ops lv lops))"
  by (simp add: run_ops_def setLogicalVal_def)

definition keys_ok :: "ParsedLogical \<Rightarrow> bool" where
  "keys_ok pl = (\<forall>a l. map_of (toLogicalKeyMap pl) a = Some l \<longrightarrow>
     (\<exists>j < length (toLogicalKeyMap pl). l = word_of_nat j))"

text \<open>
  A reference to a sub-expression or to an operation of the current combination, whose
  operations start at \<open>n0\<close>, before the operation \<open>n\<close>.
\<close>

definition vref :: "nat \<Rightarrow> nat \<Rightarrow> ParsedLogical \<Rightarrow> u32 \<Rightarrow> bool" where
  "vref n0 n pl r = ((\<exists>j < length (toLogicalKeyMap pl). r = word_of_nat j)
     \<or> (\<exists>m. n0 \<le> m \<and> m < n \<and> r = op_ref m))"

definition tree_ok :: "nat \<Rightarrow> ParsedLogical \<Rightarrow> bool" where
  "tree_ok n0 pl = (n0 \<le> length (logicalTree pl) \<and>
     (\<forall>n. n0 \<le> n \<and> n < length (logicalTree pl) \<longrightarrow>
        lop_id (logicalTree pl ! n) = op_ref n \<and> vref n0 n pl (lop_ro (logicalTree pl ! n)) \<and>
        (lop_op (logicalTree pl ! n) \<noteq> LOGICAL_OP_NOT \<longrightarrow> vref n0 n pl (lop_lo (logicalTree pl ! n)))))"

definition pl_extends :: "ParsedLogical \<Rightarrow> ParsedLogical \<Rightarrow> bool" where
  "pl_extends pl pl' = ((\<exists>more. logicalTree pl' = logicalTree pl @ more)
     \<and> map_of (toLogicalKeyMap pl) \<subseteq>\<^sub>m map_of (toLogicalKeyMap pl')
     \<and> length (toLogicalKeyMap pl) \<le> length (toLogicalKeyMap pl'))"

lemma pl_extends_refl [simp]: "pl_extends pl pl"
  by (simp add: pl_extends_def)

lemma pl_extends_trans: "pl_extends a b \<Longrightarrow> pl_extends b c \<Longrightarrow> pl_extends a c"
  unfolding pl_extends_def using map_le_trans by fastforce

definition rval :: "(u32 \<Rightarrow> bool) \<Rightarrow> nat \<Rightarrow> ParsedLogical \<Rightarrow> u32 \<Rightarrow> bool" where
  "rval lv n0 pl r = run_ops lv (drop n0 (logicalTree pl)) r"

lemma vref_mono: "vref n0 n pl r \<Longrightarrow> n \<le> n' \<Longrightarrow> pl_extends pl pl' \<Longrightarrow> vref n0 n' pl' r"
  unfolding vref_def pl_extends_def by (elim disjE exE conjE) (blast intro: order_less_le_trans)+

text \<open>Later operations do not change the value of a reference.\<close>

lemma run_ops_later:
  "\<forall>lop \<in> set lops. lop_id lop \<noteq> r \<Longrightarrow> run_ops lv lops r = lv r"
proof (induction lops rule: rev_induct)
  case Nil
  then show ?case by (simp add: run_ops_def)
qed (auto simp: run_ops_append1)

lemma run_ops_append: "run_ops lv (xs @ ys) = run_ops (run_ops lv xs) ys"
  by (simp add: run_ops_def)

lemma rval_stable:
  assumes ext: "pl_extends pl pl'" and ok: "tree_ok n0 pl" "tree_ok n0 pl'"
    and r: "vref n0 (length (logicalTree pl)) pl r"
    and sz: "length (logicalTree pl') < 2 ^ 31" "length (toLogicalKeyMap pl') \<le> 2 ^ 31"
  shows "rval lv n0 pl' r = rval lv n0 pl r"
proof -
  obtain more where more: "logicalTree pl' = logicalTree pl @ more"
    using ext by (auto simp: pl_extends_def)
  have n0: "n0 \<le> length (logicalTree pl)" using ok(1) by (simp add: tree_ok_def)
  have "lop_id lop \<noteq> r" if lop: "lop \<in> set more" for lop
  proof -
    obtain i where i: "i < length more" "lop = more ! i" using lop by (metis in_set_conv_nth)
    define n where "n = length (logicalTree pl) + i"
    have n: "n < length (logicalTree pl')" "logicalTree pl' ! n = lop" "n0 \<le> n"
      using i more n0 by (simp_all add: n_def)
    then have id: "lop_id lop = op_ref n" using ok(2) unfolding tree_ok_def by blast
    have "n < 2 ^ 31" using n(1) sz(1) by simp
    consider j where "j < length (toLogicalKeyMap pl)" "r = word_of_nat j"
      | m where "m < length (logicalTree pl)" "r = op_ref m"
      using r by (auto simp: vref_def)
    then show ?thesis
    proof cases
      case 1
      then have "j < 2 ^ 31" using ext sz(2) by (simp add: pl_extends_def)
      then show ?thesis using op_ref_leaf 1 id by metis
    next
      case 2
      then have "m < 2 ^ 31" "m \<noteq> n" using sz(1) more by (simp_all add: n_def)
      then show ?thesis using op_ref_inj \<open>n < 2 ^ 31\<close> 2 id by metis
    qed
  qed
  then have "run_ops (run_ops lv (drop n0 (logicalTree pl))) more r = run_ops lv (drop n0 (logicalTree pl)) r"
    by (rule run_ops_later [OF ballI])
  then show ?thesis using n0 by (simp add: rval_def more run_ops_append)
qed


section \<open>The documented notation\<close>

text \<open>
  Formulas as they are written: identifiers by their digits, parentheses and blanks where the
  text has them.  \<open>gram\<close> is the documented grammar: \<open>!\<close> binds tighter than \<open>&\<close>, which binds
  tighter than \<open>|\<close>; the binary operators associate to the left; the operand of \<open>!\<close> is an
  identifier or stands in parentheses.
\<close>

datatype lform = Ident string | Neg lform | Conj lform lform | Disj lform lform
  | Paren lform | SpaceL lform | SpaceR lform

fun unparse :: "lform \<Rightarrow> string" where
  "unparse (Ident ds) = ds"
| "unparse (Neg a) = CHR ''!'' # unparse a"
| "unparse (Conj a b) = unparse a @ CHR ''&'' # unparse b"
| "unparse (Disj a b) = unparse a @ CHR ''|'' # unparse b"
| "unparse (Paren a) = CHR ''('' # unparse a @ '')''"
| "unparse (SpaceL a) = CHR '' '' # unparse a"
| "unparse (SpaceR a) = unparse a @ '' ''"

fun lprio :: "lform \<Rightarrow> nat" where
  "lprio (Ident ds) = 3"
| "lprio (Neg a) = 2"
| "lprio (Conj a b) = 1"
| "lprio (Disj a b) = 0"
| "lprio (Paren a) = 3"
| "lprio (SpaceL a) = lprio a"
| "lprio (SpaceR a) = lprio a"

fun gram :: "lform \<Rightarrow> bool" where
  "gram (Ident ds) = (ds \<noteq> [] \<and> length ds \<le> 9 \<and> (\<forall>c \<in> set ds. isdigit c))"
| "gram (Neg a) = (gram a \<and> lprio a = 3)"
| "gram (Conj a b) = (gram a \<and> gram b \<and> lprio a \<ge> 1 \<and> lprio b \<ge> 2)"
| "gram (Disj a b) = (gram a \<and> gram b \<and> lprio b \<ge> 1)"
| "gram (Paren a) = gram a"
| "gram (SpaceL a) = gram a"
| "gram (SpaceR a) = gram a"

definition id_value :: "string \<Rightarrow> u32" where
  "id_value ds = word_of_nat (foldl (\<lambda>v c. 10 * v + (of_char c - 48)) 0 ds)"

fun form_ids :: "lform \<Rightarrow> u32 set" where
  "form_ids (Ident ds) = {id_value ds}"
| "form_ids (Neg a) = form_ids a"
| "form_ids (Conj a b) = form_ids a \<union> form_ids b"
| "form_ids (Disj a b) = form_ids a \<union> form_ids b"
| "form_ids (Paren a) = form_ids a"
| "form_ids (SpaceL a) = form_ids a"
| "form_ids (SpaceR a) = form_ids a"

fun eval_form :: "(u32 \<Rightarrow> bool) \<Rightarrow> lform \<Rightarrow> bool" where
  "eval_form v (Ident ds) = v (id_value ds)"
| "eval_form v (Neg a) = (\<not> eval_form v a)"
| "eval_form v (Conj a b) = (eval_form v a \<and> eval_form v b)"
| "eval_form v (Disj a b) = (eval_form v a \<or> eval_form v b)"
| "eval_form v (Paren a) = eval_form v a"
| "eval_form v (SpaceL a) = eval_form v a"
| "eval_form v (SpaceR a) = eval_form v a"

fun nops :: "lform \<Rightarrow> nat" where
  "nops (Ident ds) = 0"
| "nops (Neg a) = nops a + 1"
| "nops (Conj a b) = nops a + nops b + 1"
| "nops (Disj a b) = nops a + nops b + 1"
| "nops (Paren a) = nops a"
| "nops (SpaceL a) = nops a"
| "nops (SpaceR a) = nops a"

fun nleaves :: "lform \<Rightarrow> nat" where
  "nleaves (Ident ds) = 1"
| "nleaves (Neg a) = nleaves a"
| "nleaves (Conj a b) = nleaves a + nleaves b"
| "nleaves (Disj a b) = nleaves a + nleaves b"
| "nleaves (Paren a) = nleaves a"
| "nleaves (SpaceL a) = nleaves a"
| "nleaves (SpaceR a) = nleaves a"

lemma eval_form_cong: "\<forall>a \<in> form_ids e. f a = g a \<Longrightarrow> eval_form f e = eval_form g e"
  by (induction e) auto

text \<open>The digits of an identifier give its value.\<close>

lemma digits_fold:
  "foldl (\<lambda>(total, mult) c. (total + word_of_nat (of_char c - 48) * mult, mult * 10)) (t, m) (rev ds)
    = (t + m * id_value ds, m * 10 ^ length ds :: u32)"
proof (induction ds arbitrary: t m rule: rev_induct)
  case Nil
  then show ?case by (simp add: id_value_def)
next
  case (snoc c ds)
  have "id_value (ds @ [c]) = 10 * id_value ds + word_of_nat (of_char c - 48)"
    by (simp add: id_value_def)
  then show ?case by (simp add: snoc.IH) (simp add: algebra_simps)
qed

lemma digits_loop_value:
  assumes "logical = pre @ ds @ post"
  shows "digits_loop logical (length pre) (length pre + length ds) = id_value ds"
proof -
  have eq: "map ((!) logical) [length pre..<length pre + length ds] = ds"
    by (rule nth_equalityI) (simp_all add: assms nth_append)
  have "foldl (\<lambda>(total, mult) j. (total + (word_of_nat (of_char (logical ! j) - 48)) * mult, mult * 10)) x js
    = foldl (\<lambda>(total, mult) c. (total + word_of_nat (of_char c - 48) * mult, mult * 10)) x (map ((!) logical) js)"
    for x :: "u32 \<times> u32" and js
    by (induction js arbitrary: x) (auto split: prod.splits)
  from this [of "(0, 1)" "rev [length pre..<length pre + length ds]"]
  show ?thesis
    unfolding digits_loop_def rev_map [symmetric] eq by (simp add: digits_fold)
qed

section \<open>Lemmas: popping operators\<close>

definition okey :: "LogicalOperator \<Rightarrow> nat" where
  "okey opr = 3 * lo_paren opr + (2 - op_rank (lo_op opr))"

lemma cmpOperator_okey: "cmpOperator op1 op2 \<longleftrightarrow> okey op2 \<le> okey op1"
  by (cases "lo_op op1"; cases "lo_op op2") (auto simp: cmpOperator_def okey_def)

definition flush :: "nat \<Rightarrow> nat \<Rightarrow> parse_state \<Rightarrow> logic_error + parse_state" where
  "flush i m st = pop_while i (\<lambda>opr. m \<le> okey opr) st"

lemma pop_while_cmp: "pop_while i (\<lambda>top. cmpOperator top opr) st = flush i (okey opr) st"
  by (simp add: flush_def cmpOperator_okey)

lemma sbind_assoc: "sbind (sbind x f) g = sbind x (\<lambda>y. sbind (f y) g)"
  by (cases x) auto

lemma parse_loop_append:
  "parse_loop logical ckey i (xs @ ys) st =
     sbind (parse_loop logical ckey i xs st) (parse_loop logical ckey (i + length xs) ys)"
proof (induction xs arbitrary: i st)
  case (Cons c xs)
  have "parse_loop logical ckey (Suc i) (xs @ ys) =
      (\<lambda>st. sbind (parse_loop logical ckey (Suc i) xs st) (parse_loop logical ckey (Suc i + length xs) ys))"
    by (rule ext) (rule Cons.IH)
  then show ?case by (simp add: sbind_assoc)
qed simp

text \<open>Neither the stack field nor the depth matters to what is popped.\<close>

lemma popOperator_frame:
  "popOperator i opr (st\<lparr>op_stack := x\<rparr>) = map_sum id (\<lambda>s. s\<lparr>op_stack := x\<rparr>) (popOperator i opr st)"
  "popOperator i opr (st\<lparr>paren := n\<rparr>) = map_sum id (\<lambda>s. s\<lparr>paren := n\<rparr>) (popOperator i opr st)"
  by (auto simp: popOperator_def split: list.splits prod.splits)

lemma pop_ops_frame:
  "pop_ops i P ops (st\<lparr>op_stack := x\<rparr>) = pop_ops i P ops st"
  "pop_ops i P ops (st\<lparr>paren := n\<rparr>) = map_sum id (\<lambda>s. s\<lparr>paren := n\<rparr>) (pop_ops i P ops st)"
proof -
  show "pop_ops i P ops (st\<lparr>op_stack := x\<rparr>) = pop_ops i P ops st"
  proof (induction ops arbitrary: st)
    case (Cons opr ops)
    have u: "(s\<lparr>op_stack := x\<rparr>)\<lparr>lkey_start := l\<rparr> = (s\<lparr>lkey_start := l\<rparr>)\<lparr>op_stack := x\<rparr>" for s l
      by simp
    show ?case
      using Cons.IH by (cases "popOperator i opr st") (auto simp: popOperator_frame u simp del: parse_state.update_convs)
  qed simp
  show "pop_ops i P ops (st\<lparr>paren := n\<rparr>) = map_sum id (\<lambda>s. s\<lparr>paren := n\<rparr>) (pop_ops i P ops st)"
  proof (induction ops arbitrary: st)
    case (Cons opr ops)
    have u: "(s\<lparr>paren := n\<rparr>)\<lparr>lkey_start := l\<rparr> = (s\<lparr>lkey_start := l\<rparr>)\<lparr>paren := n\<rparr>" for s l
      by simp
    show ?case
      using Cons.IH by (cases "popOperator i opr st") (auto simp: popOperator_frame u simp del: parse_state.update_convs)
  qed simp
qed

lemma flush_paren: "flush i m (st\<lparr>paren := n\<rparr>) = map_sum id (\<lambda>s. s\<lparr>paren := n\<rparr>) (flush i m st)"
  by (simp add: flush_def pop_while_def pop_ops_frame)

text \<open>Popping down to a lower key can go by way of a higher one.\<close>

lemma pop_ops_compose:
  "pop_ops i (\<lambda>opr. k \<le> okey opr) ops st = Inr st1 \<Longrightarrow> m \<le> k \<Longrightarrow>
     pop_ops i (\<lambda>opr. m \<le> okey opr) ops st = pop_ops i (\<lambda>opr. m \<le> okey opr) (op_stack st1) st1"
proof (induction ops arbitrary: st)
  case (Cons opr ops)
  show ?case
  proof (cases "k \<le> okey opr")
    case True
    with Cons show ?thesis by (auto simp: sbind_Inr_iff)
  next
    case False
    then have st1: "st1 = st\<lparr>op_stack := opr # ops\<rparr>" using Cons.prems(1) by simp
    then have e: "op_stack st1 = opr # ops" by simp
    have "pop_ops i P (opr # ops) st = pop_ops i P (opr # ops) st1" for P
      unfolding st1 by (simp only: pop_ops_frame)
    then show ?thesis by (simp only: e)
  qed
qed auto

lemma flush_compose:
  "flush i k st = Inr st1 \<Longrightarrow> m \<le> k \<Longrightarrow> flush i m st = flush i m st1"
  unfolding flush_def pop_while_def by (rule pop_ops_compose)

lemma flush_none: "\<forall>opr \<in> set (op_stack st). okey opr < m \<Longrightarrow> flush i m st = Inr st"
  by (cases "op_stack st") (auto simp: flush_def pop_while_def not_le [symmetric])

lemma flush_step:
  assumes "op_stack st = opr # ops" "m \<le> okey opr" "popOperator i opr (st\<lparr>op_stack := ops\<rparr>) = Inr st1"
    "\<forall>opr \<in> set ops. okey opr < m"
  shows "flush i m st = Inr (if lkey_start st1 = INVALID_LKEY then st1\<lparr>lkey_start := hd (subid_stack st1)\<rparr> else st1)"
proof -
  define st2 where "st2 = (if lkey_start st1 = INVALID_LKEY then st1\<lparr>lkey_start := hd (subid_stack st1)\<rparr> else st1)"
  have ops: "op_stack st2 = ops"
    using assms(3) by (auto simp: st2_def popOperator_def split: list.splits prod.splits if_splits)
  have "flush i m st = pop_ops i (\<lambda>opr. m \<le> okey opr) (opr # ops) st"
    by (simp only: flush_def pop_while_def assms(1))
  also have "\<dots> = pop_ops i (\<lambda>opr. m \<le> okey opr) (opr # ops) (st\<lparr>op_stack := ops\<rparr>)"
    by (simp only: pop_ops_frame)
  also have "\<dots> = pop_ops i (\<lambda>opr. m \<le> okey opr) ops st2"
    using assms(2,3) by (simp add: st2_def)
  also have "\<dots> = Inr st2"
    using flush_none [of st2 m i] assms(4) ops by (simp add: flush_def pop_while_def)
  finally show ?thesis by (simp add: st2_def)
qed


section \<open>Lemmas: pushing operands\<close>

definition parse_ok :: "nat \<Rightarrow> parse_state \<Rightarrow> bool" where
  "parse_ok n0 st =
     (keys_ok (ps_pl st) \<and> tree_ok n0 (ps_pl st)
      \<and> (\<forall>r \<in> set (subid_stack st). vref n0 (length (logicalTree (ps_pl st))) (ps_pl st) r)
      \<and> lkey_start st = (if length (logicalTree (ps_pl st)) = n0 then INVALID_LKEY else op_ref n0))"

text \<open>The state when the operand \<open>e\<close> has been read and its operators have been popped.\<close>

definition id_val :: "(u32 \<Rightarrow> bool) \<Rightarrow> ParsedLogical \<Rightarrow> u32 \<Rightarrow> bool" where
  "id_val lv pl a = lv (the (map_of (toLogicalKeyMap pl) a))"

definition pushed :: "nat \<Rightarrow> lform \<Rightarrow> parse_state \<Rightarrow> parse_state \<Rightarrow> bool" where
  "pushed n0 e st st2 =
     (\<exists>r. subid_stack st2 = r # subid_stack st \<and> op_stack st2 = op_stack st \<and> paren st2 = paren st
       \<and> digit st2 = None \<and> pl_extends (ps_pl st) (ps_pl st2)
       \<and> length (logicalTree (ps_pl st2)) = length (logicalTree (ps_pl st)) + nops e
       \<and> length (toLogicalKeyMap (ps_pl st2)) \<le> length (toLogicalKeyMap (ps_pl st)) + nleaves e
       \<and> parse_ok n0 st2 \<and> form_ids e \<subseteq> dom (map_of (toLogicalKeyMap (ps_pl st2)))
       \<and> (\<forall>lv. rval lv n0 (ps_pl st2) r = eval_form (id_val lv (ps_pl st2)) e)
       \<and> (nops e > 0 \<longrightarrow> r = op_ref (length (logicalTree (ps_pl st2)) - 1))
       \<and> combInfoMap (ps_pl st2) = combInfoMap (ps_pl st))"

lemma id_val_stable:
  assumes "pl_extends pl pl'" "form_ids e \<subseteq> dom (map_of (toLogicalKeyMap pl))"
  shows "eval_form (id_val lv pl') e = eval_form (id_val lv pl) e"
proof (rule eval_form_cong, intro ballI)
  fix a assume "a \<in> form_ids e"
  then have "a \<in> dom (map_of (toLogicalKeyMap pl))" using assms(2) by blast
  moreover have "map_of (toLogicalKeyMap pl) \<subseteq>\<^sub>m map_of (toLogicalKeyMap pl')"
    using assms(1) by (simp add: pl_extends_def)
  ultimately show "id_val lv pl' a = id_val lv pl a" by (simp add: id_val_def map_le_def)
qed

text \<open>One more operation in the table, over references that are already there.\<close>

lemma logicalTreeAdd_spec:
  assumes ok: "tree_ok n0 pl" "keys_ok pl"
    and refs: "vref n0 (length (logicalTree pl)) pl right"
      "opr \<noteq> LOGICAL_OP_NOT \<Longrightarrow> vref n0 (length (logicalTree pl)) pl left"
    and add: "logicalTreeAdd opr left right pl = (r, pl')"
  shows "r = op_ref (length (logicalTree pl))" "pl_extends pl pl'" "tree_ok n0 pl'" "keys_ok pl'"
    "length (logicalTree pl') = Suc (length (logicalTree pl))"
    "toLogicalKeyMap pl' = toLogicalKeyMap pl" "combInfoMap pl' = combInfoMap pl"
    "vref n0 (length (logicalTree pl')) pl' r"
    "rval lv n0 pl' r = (case opr of
       LOGICAL_OP_NOT \<Rightarrow> \<not> rval lv n0 pl right
     | LOGICAL_OP_AND \<Rightarrow> rval lv n0 pl left \<and> rval lv n0 pl right
     | LOGICAL_OP_OR \<Rightarrow> rval lv n0 pl left \<or> rval lv n0 pl right)"
proof -
  define lop where "lop = \<lparr>lop_id = op_ref (length (logicalTree pl)), lop_op = opr, lop_lo = left, lop_ro = right\<rparr>"
  have pl': "pl' = pl\<lparr>logicalTree := logicalTree pl @ [lop]\<rparr>" and r: "r = op_ref (length (logicalTree pl))"
    using add by (auto simp: logicalTreeAdd_def Let_def lop_def op_ref_def)
  have n0: "n0 \<le> length (logicalTree pl)" using ok(1) by (simp add: tree_ok_def)
  show "r = op_ref (length (logicalTree pl))" by (fact r)
  show ext: "pl_extends pl pl'" by (simp add: pl_extends_def pl')
  show "keys_ok pl'" using ok(2) by (simp add: keys_ok_def pl')
  show "length (logicalTree pl') = Suc (length (logicalTree pl))" by (simp add: pl')
  show "toLogicalKeyMap pl' = toLogicalKeyMap pl" "combInfoMap pl' = combInfoMap pl" by (simp_all add: pl')
  show "vref n0 (length (logicalTree pl')) pl' r" using n0 by (auto simp: vref_def pl' r)
  show "tree_ok n0 pl'"
    unfolding tree_ok_def
  proof (intro conjI allI impI)
    show "n0 \<le> length (logicalTree pl')" using n0 by (simp add: pl')
    fix n assume n: "n0 \<le> n \<and> n < length (logicalTree pl')"
    have old: "logicalTree pl' ! n = logicalTree pl ! n" if "n < length (logicalTree pl)"
      using that by (simp add: pl' nth_append)
    have new: "logicalTree pl' ! n = lop" if "n = length (logicalTree pl)"
      using that by (simp add: pl')
    consider "n < length (logicalTree pl)" | "n = length (logicalTree pl)" using n by (fastforce simp: pl')
    then show "lop_id (logicalTree pl' ! n) = op_ref n" "vref n0 n pl' (lop_ro (logicalTree pl' ! n))"
      "lop_op (logicalTree pl' ! n) \<noteq> LOGICAL_OP_NOT \<Longrightarrow> vref n0 n pl' (lop_lo (logicalTree pl' ! n))"
      using old new ok(1) n refs vref_mono [OF _ order_refl ext]
      by (cases; simp add: tree_ok_def lop_def)+
  qed
  show "rval lv n0 pl' r = (case opr of
       LOGICAL_OP_NOT \<Rightarrow> \<not> rval lv n0 pl right
     | LOGICAL_OP_AND \<Rightarrow> rval lv n0 pl left \<and> rval lv n0 pl right
     | LOGICAL_OP_OR \<Rightarrow> rval lv n0 pl left \<or> rval lv n0 pl right)"
    using n0 by (cases opr) (simp_all add: rval_def pl' run_ops_append1 r lop_def eval_op_def)
qed

text \<open>Looking up or creating the key of an identifier.\<close>

lemma getLogicalKey_spec:
  fixes ckey :: u32
  assumes ok: "tree_ok n0 pl" "keys_ok pl" and get: "getLogicalKey a pl = (lkey, pl')"
  defines "pl2 \<equiv> addRelateCKey lkey ckey pl'"
  shows "pl_extends pl pl2" "tree_ok n0 pl2" "keys_ok pl2" "logicalTree pl2 = logicalTree pl"
    "length (toLogicalKeyMap pl2) \<le> Suc (length (toLogicalKeyMap pl))" "combInfoMap pl2 = combInfoMap pl"
    "map_of (toLogicalKeyMap pl2) a = Some lkey" "vref n0 n pl2 lkey"
proof -
  have sel: "toLogicalKeyMap pl2 = toLogicalKeyMap pl'" "logicalTree pl2 = logicalTree pl'"
    "combInfoMap pl2 = combInfoMap pl'"
    by (simp_all add: pl2_def addRelateCKey_def)
  have pl': "logicalTree pl' = logicalTree pl" "combInfoMap pl' = combInfoMap pl"
    "toLogicalKeyMap pl' = (case map_of (toLogicalKeyMap pl) a of
        None \<Rightarrow> (a, lkey) # toLogicalKeyMap pl | Some _ \<Rightarrow> toLogicalKeyMap pl)"
    "map_of (toLogicalKeyMap pl') a = Some lkey"
    "map_of (toLogicalKeyMap pl) a = None \<Longrightarrow> lkey = word_of_nat (length (toLogicalKeyMap pl))"
    using get by (auto simp: getLogicalKey_def Let_def split: option.splits)
  show "logicalTree pl2 = logicalTree pl" "combInfoMap pl2 = combInfoMap pl" by (simp_all add: sel pl')
  show "map_of (toLogicalKeyMap pl2) a = Some lkey" unfolding sel by (fact pl'(4))
  show "length (toLogicalKeyMap pl2) \<le> Suc (length (toLogicalKeyMap pl))"
    by (simp add: sel pl' split: option.splits)
  show ext: "pl_extends pl pl2"
    by (auto simp: pl_extends_def sel pl' map_le_def split: option.splits)
  show keys: "keys_ok pl2"
    unfolding keys_ok_def sel
  proof (intro allI impI)
    fix b l assume b: "map_of (toLogicalKeyMap pl') b = Some l"
    show "\<exists>j < length (toLogicalKeyMap pl'). l = word_of_nat j"
    proof (cases "map_of (toLogicalKeyMap pl) a")
      case None
      then show ?thesis
        using b pl'(3,5) ok(2) by (auto simp: keys_ok_def less_Suc_eq split: if_splits)
    next
      case (Some x)
      then show ?thesis using b pl'(3) ok(2) by (simp add: keys_ok_def)
    qed
  qed
  then obtain j where "j < length (toLogicalKeyMap pl2)" "lkey = word_of_nat j"
    using pl'(4) by (auto simp: keys_ok_def sel)
  then show "vref n0 n pl2 lkey" by (auto simp: vref_def)
  show "tree_ok n0 pl2"
    using ok(1) vref_mono [OF _ order_refl ext] unfolding tree_ok_def sel pl' by blast
qed

end
