(* ===== verification/LogicalParse.thy ===== *)
theory LogicalParse
  imports Logical
begin

text \<open>
  Correctness of the parser of \<open>src/parser/logical_combination.cpp\<close>: on every formula in the
  documented notation it succeeds, and the operations it adds compute the value of the
  formula.  The argument follows the shape of the formula; the operators and the digits an
  operand leaves pending are what \<open>push_subid\<close> and \<open>flush\<close> take care of afterwards.
\<close>

section \<open>Applying an operator\<close>

lemma parse_ok_tree: "parse_ok n0 st \<Longrightarrow> tree_ok n0 (ps_pl st)" "parse_ok n0 st \<Longrightarrow> keys_ok (ps_pl st)"
  by (simp_all add: parse_ok_def)

lemma pushedI:
  assumes "subid_stack st2 = r # subid_stack st" "op_stack st2 = op_stack st" "paren st2 = paren st"
    "digit st2 = None" "pl_extends (ps_pl st) (ps_pl st2)"
    "length (logicalTree (ps_pl st2)) = length (logicalTree (ps_pl st)) + nops e"
    "length (toLogicalKeyMap (ps_pl st2)) \<le> length (toLogicalKeyMap (ps_pl st)) + nleaves e"
    "parse_ok n0 st2" "form_ids e \<subseteq> dom (map_of (toLogicalKeyMap (ps_pl st2)))"
    "\<And>lv. rval lv n0 (ps_pl st2) r = eval_form (id_val lv (ps_pl st2)) e"
    "nops e > 0 \<Longrightarrow> r = op_ref (length (logicalTree (ps_pl st2)) - 1)"
    "combInfoMap (ps_pl st2) = combInfoMap (ps_pl st)"
  shows "pushed n0 e st st2"
  unfolding pushed_def using assms by (intro exI [of _ r] conjI allI impI)

definition note_start :: "parse_state \<Rightarrow> parse_state" where
  "note_start st1 = (if lkey_start st1 = INVALID_LKEY then st1\<lparr>lkey_start := hd (subid_stack st1)\<rparr> else st1)"

lemma note_start_sel [simp]:
  "subid_stack (note_start st) = subid_stack st" "op_stack (note_start st) = op_stack st"
  "paren (note_start st) = paren st" "digit (note_start st) = digit st" "ps_pl (note_start st) = ps_pl st"
  by (simp_all add: note_start_def)

text \<open>Adding one operation whose reference replaces its operands on the stack.\<close>

lemma parse_ok_add:
  assumes ok: "parse_ok n0 st" and sz: "length (logicalTree (ps_pl st)) < 2 ^ 31 - 1"
    and refs: "vref n0 (length (logicalTree (ps_pl st))) (ps_pl st) right"
      "opr \<noteq> LOGICAL_OP_NOT \<Longrightarrow> vref n0 (length (logicalTree (ps_pl st))) (ps_pl st) left"
    and add: "logicalTreeAdd opr left right (ps_pl st) = (r, pl')"
    and rest: "set rest \<subseteq> set (subid_stack st)"
  shows "parse_ok n0 (note_start (st\<lparr>op_stack := ops, subid_stack := r # rest, ps_pl := pl'\<rparr>))"
proof -
  note A = logicalTreeAdd_spec [OF parse_ok_tree [OF ok] refs add]
  have n0: "n0 \<le> length (logicalTree (ps_pl st))" using ok by (simp add: parse_ok_def tree_ok_def)
  have ls: "lkey_start st = (if length (logicalTree (ps_pl st)) = n0 then INVALID_LKEY else op_ref n0)"
    using ok by (simp add: parse_ok_def)
  have valid: "n < 2 ^ 31 - 1 \<Longrightarrow> op_ref n \<noteq> INVALID_LKEY" for n by (rule op_ref_INVALID)
  have "lkey_start (note_start (st\<lparr>op_stack := ops, subid_stack := r # rest, ps_pl := pl'\<rparr>)) = op_ref n0"
    using ls valid [of n0] n0 sz A(1) by (simp add: note_start_def)
  moreover have "vref n0 (length (logicalTree pl')) pl' x" if "x \<in> set rest" for x
    using ok rest that vref_mono [OF _ _ A(2)] A(5) unfolding parse_ok_def by (metis le_SucI order_refl subsetD)
  ultimately show ?thesis
    using A n0 by (simp add: parse_ok_def)
qed

lemma combine_unary:
  assumes pa: "pushed n0 a (st\<lparr>op_stack := \<lparr>lo_op = LOGICAL_OP_NOT, lo_paren = p\<rparr> # op_stack st\<rparr>) sa"
    and m: "m \<le> okey \<lparr>lo_op = LOGICAL_OP_NOT, lo_paren = p\<rparr>" "\<forall>opr \<in> set (op_stack st). okey opr < m"
    and sz: "length (logicalTree (ps_pl sa)) < 2 ^ 31 - 1"
  shows "\<exists>st2. (\<forall>i. flush i m sa = Inr st2) \<and> pushed n0 (Neg a) st st2"
proof -
  obtain ra where sa: "subid_stack sa = ra # subid_stack st"
    "op_stack sa = \<lparr>lo_op = LOGICAL_OP_NOT, lo_paren = p\<rparr> # op_stack st" "paren sa = paren st" "digit sa = None"
    "pl_extends (ps_pl st) (ps_pl sa)"
    "length (logicalTree (ps_pl sa)) = length (logicalTree (ps_pl st)) + nops a"
    "length (toLogicalKeyMap (ps_pl sa)) \<le> length (toLogicalKeyMap (ps_pl st)) + nleaves a"
    "parse_ok n0 sa" "form_ids a \<subseteq> dom (map_of (toLogicalKeyMap (ps_pl sa)))"
    "\<And>lv. rval lv n0 (ps_pl sa) ra = eval_form (id_val lv (ps_pl sa)) a"
    "combInfoMap (ps_pl sa) = combInfoMap (ps_pl st)"
    using pa by (auto simp: pushed_def)
  obtain r pl' where add: "logicalTreeAdd LOGICAL_OP_NOT 0 ra (ps_pl sa) = (r, pl')" by force
  have ra: "vref n0 (length (logicalTree (ps_pl sa))) (ps_pl sa) ra"
    using sa(1,8) by (simp add: parse_ok_def)
  note A = logicalTreeAdd_spec [OF parse_ok_tree [OF sa(8)] ra _ add]
  define st1 where "st1 = sa\<lparr>op_stack := op_stack st, subid_stack := r # subid_stack st, ps_pl := pl'\<rparr>"
  have pop: "popOperator i \<lparr>lo_op = LOGICAL_OP_NOT, lo_paren = p\<rparr> (sa\<lparr>op_stack := op_stack st\<rparr>) = Inr st1" for i
    using add sa(1) by (simp add: popOperator_def st1_def)
  have fl: "flush i m sa = Inr (note_start st1)" for i
    using flush_step [OF sa(2) m(1) pop m(2)] by (simp add: note_start_def)
  have keys: "toLogicalKeyMap pl' = toLogicalKeyMap (ps_pl sa)" using A by simp
  have "parse_ok n0 (note_start st1)"
    unfolding st1_def using parse_ok_add [OF sa(8) sz ra _ add, of "subid_stack st"] sa(1) by auto
  moreover have "rval lv n0 pl' r = (\<not> eval_form (id_val lv pl') a)" for lv
    using A(9) [of lv] sa(10) [of lv] keys by (simp add: id_val_def [abs_def])
  moreover have "pl_extends (ps_pl st) pl'" using pl_extends_trans [OF sa(5)] A by simp
  ultimately have "pushed n0 (Neg a) st (note_start st1)"
    using sa A(1,5,7) keys by (simp add: pushed_def st1_def)
  with fl show ?thesis by blast
qed

lemma combine_binary:
  assumes pa: "pushed n0 a st sa"
    and pb: "pushed n0 b (sa\<lparr>op_stack := opr # op_stack sa\<rparr>) sb"
    and opr: "lo_op opr \<noteq> LOGICAL_OP_NOT"
    and m: "m \<le> okey opr" "\<forall>opr \<in> set (op_stack st). okey opr < m"
    and sz: "length (logicalTree (ps_pl sb)) < 2 ^ 31 - 1" "length (toLogicalKeyMap (ps_pl sb)) \<le> 2 ^ 31"
  shows "\<exists>st2. (\<forall>i. flush i m sb = Inr st2)
    \<and> pushed n0 (if lo_op opr = LOGICAL_OP_AND then Conj a b else Disj a b) st st2"
proof -
  obtain ra where sa: "subid_stack sa = ra # subid_stack st"
    "op_stack sa = op_stack st" "paren sa = paren st"
    "pl_extends (ps_pl st) (ps_pl sa)"
    "length (logicalTree (ps_pl sa)) = length (logicalTree (ps_pl st)) + nops a"
    "length (toLogicalKeyMap (ps_pl sa)) \<le> length (toLogicalKeyMap (ps_pl st)) + nleaves a"
    "parse_ok n0 sa" "form_ids a \<subseteq> dom (map_of (toLogicalKeyMap (ps_pl sa)))"
    "\<And>lv. rval lv n0 (ps_pl sa) ra = eval_form (id_val lv (ps_pl sa)) a"
    "combInfoMap (ps_pl sa) = combInfoMap (ps_pl st)"
    using pa by (auto simp: pushed_def)
  obtain rb where sb: "subid_stack sb = rb # ra # subid_stack st"
    "op_stack sb = opr # op_stack st" "paren sb = paren st" "digit sb = None"
    "pl_extends (ps_pl sa) (ps_pl sb)"
    "length (logicalTree (ps_pl sb)) = length (logicalTree (ps_pl sa)) + nops b"
    "length (toLogicalKeyMap (ps_pl sb)) \<le> length (toLogicalKeyMap (ps_pl sa)) + nleaves b"
    "parse_ok n0 sb" "form_ids b \<subseteq> dom (map_of (toLogicalKeyMap (ps_pl sb)))"
    "\<And>lv. rval lv n0 (ps_pl sb) rb = eval_form (id_val lv (ps_pl sb)) b"
    "combInfoMap (ps_pl sb) = combInfoMap (ps_pl sa)"
    using pb sa(1-3) by (auto simp: pushed_def)
  obtain r pl' where add: "logicalTreeAdd (lo_op opr) ra rb (ps_pl sb) = (r, pl')" by force
  have ra: "vref n0 (length (logicalTree (ps_pl sb))) (ps_pl sb) ra"
    and rb: "vref n0 (length (logicalTree (ps_pl sb))) (ps_pl sb) rb"
    using sb(1,8) by (simp_all add: parse_ok_def)
  have ra_a: "vref n0 (length (logicalTree (ps_pl sa))) (ps_pl sa) ra"
    using sa(1,7) by (simp add: parse_ok_def)
  note A = logicalTreeAdd_spec [OF parse_ok_tree [OF sb(8)] rb ra add]
  define st1 where "st1 = sb\<lparr>op_stack := op_stack st, subid_stack := r # subid_stack st, ps_pl := pl'\<rparr>"
  have pop: "popOperator i opr (sb\<lparr>op_stack := op_stack st\<rparr>) = Inr st1" for i
    using add sb(1) opr by (simp add: popOperator_def st1_def)
  have fl: "flush i m sb = Inr (note_start st1)" for i
    using flush_step [OF sb(2) m(1) pop m(2)] by (simp add: note_start_def)
  have keys: "toLogicalKeyMap pl' = toLogicalKeyMap (ps_pl sb)" using A by simp
  have idv: "id_val lv pl' = id_val lv (ps_pl sb)" for lv by (simp add: id_val_def [abs_def] keys)
  have "length (logicalTree (ps_pl sb)) < 2 ^ 31" using sz(1) by simp
  from rval_stable [OF sb(5) parse_ok_tree(1) [OF sa(7)] parse_ok_tree(1) [OF sb(8)] ra_a this sz(2)]
  have val_a: "rval lv n0 (ps_pl sb) ra = eval_form (id_val lv (ps_pl sb)) a" for lv
    using sa(9) id_val_stable [OF sb(5) sa(8)] by metis
  have ids_a: "form_ids a \<subseteq> dom (map_of (toLogicalKeyMap (ps_pl sb)))"
  proof -
    have "map_of (toLogicalKeyMap (ps_pl sa)) \<subseteq>\<^sub>m map_of (toLogicalKeyMap (ps_pl sb))"
      using sb(5) by (simp add: pl_extends_def)
    from subset_trans [OF sa(8) map_le_implies_dom_le [OF this]] show ?thesis .
  qed
  have "parse_ok n0 (note_start st1)"
    unfolding st1_def using parse_ok_add [OF sb(8) sz(1) rb ra add, of "subid_stack st"] sb(1) by auto
  moreover have "rval lv n0 pl' r =
      eval_form (id_val lv pl') (if lo_op opr = LOGICAL_OP_AND then Conj a b else Disj a b)" for lv
    using A(9) [of lv] val_a [of lv] sb(10) [of lv] opr by (cases "lo_op opr") (simp_all add: idv)
  moreover have "pl_extends (ps_pl st) pl'"
    using pl_extends_trans [OF sa(4) pl_extends_trans [OF sb(5)]] A by simp
  ultimately have "pushed n0 (if lo_op opr = LOGICAL_OP_AND then Conj a b else Disj a b) st (note_start st1)"
  proof (intro pushedI [where r = r])
    show "length (logicalTree (ps_pl (note_start st1))) =
        length (logicalTree (ps_pl st)) + nops (if lo_op opr = LOGICAL_OP_AND then Conj a b else Disj a b)"
      using A(5) sa(5) sb(6) by (simp add: st1_def)
    show "length (toLogicalKeyMap (ps_pl (note_start st1)))
        \<le> length (toLogicalKeyMap (ps_pl st)) + nleaves (if lo_op opr = LOGICAL_OP_AND then Conj a b else Disj a b)"
      using keys sa(6) sb(7) by (simp add: st1_def)
    show "form_ids (if lo_op opr = LOGICAL_OP_AND then Conj a b else Disj a b)
        \<subseteq> dom (map_of (toLogicalKeyMap (ps_pl (note_start st1))))"
      using ids_a sb(9) by (simp add: st1_def keys)
  qed (simp_all add: st1_def sb(3,4,11) sa(3,10) A(1,5,7))
  with fl show ?thesis by blast
qed


section \<open>Reading a formula\<close>

lemma push_none: "digit st = None \<Longrightarrow> push_subid logical ckey i st = Inr st"
  by (simp add: push_subid_def fetchSubID_def)

lemma parse_ok_frame [simp]:
  "parse_ok n0 (st\<lparr>op_stack := x\<rparr>) = parse_ok n0 st"
  "parse_ok n0 (st\<lparr>paren := n\<rparr>) = parse_ok n0 st"
  "parse_ok n0 (st\<lparr>digit := d\<rparr>) = parse_ok n0 st"
  by (simp_all add: parse_ok_def)

lemma pushed_paren: "pushed n0 e (st\<lparr>paren := n\<rparr>) st2 \<Longrightarrow> pushed n0 e st (st2\<lparr>paren := paren st\<rparr>)"
  by (fastforce simp: pushed_def)

text \<open>Digits only start a number.\<close>

lemma parse_digits:
  "\<forall>c \<in> set ds. isdigit c \<Longrightarrow> digit st = Some n \<Longrightarrow> parse_loop logical ckey i ds st = Inr st"
  by (induction ds arbitrary: i) (auto simp: parse_char_def)

lemma parse_ident:
  assumes ds: "gram (Ident ds)" and st: "digit st = None" "parse_ok n0 st"
    and sz: "length (toLogicalKeyMap (ps_pl st)) < 2 ^ 31"
    and logical: "logical = pre @ ds @ post"
  shows "\<exists>st1 st2. parse_loop logical ckey (length pre) ds st = Inr st1 \<and> paren st1 = paren st
    \<and> push_subid logical ckey (length pre + length ds) st1 = Inr st2 \<and> pushed n0 (Ident ds) st st2"
proof -
  define st1 where "st1 = st\<lparr>digit := Some (length pre)\<rparr>"
  obtain c cs where c: "ds = c # cs" using ds by (cases ds) auto
  have loop: "parse_loop logical ckey (length pre) ds st = Inr st1"
    using ds st(1) parse_digits [of cs st1 "length pre"] by (simp add: c parse_char_def st1_def)
  obtain lkey pl' where get: "getLogicalKey (id_value ds) (ps_pl st) = (lkey, pl')" by force
  define st2 where "st2 = st\<lparr>subid_stack := lkey # subid_stack st, ps_pl := addRelateCKey lkey ckey pl'\<rparr>"
  note G = getLogicalKey_spec [OF parse_ok_tree [OF st(2)] get, where ckey = ckey]
  have "fetchSubID logical (Some (length pre)) (length pre + length ds) = Inr (Some (id_value ds))"
    using ds digits_loop_value [OF logical] by (simp add: fetchSubID_def)
  then have push: "push_subid logical ckey (length pre + length ds) st1 = Inr st2"
    using get st(1) by (simp add: push_subid_def st1_def st2_def)
  have n0: "n0 \<le> length (logicalTree (ps_pl st))" using st(2) by (simp add: parse_ok_def tree_ok_def)
  have leaf: "\<exists>j < length (toLogicalKeyMap (ps_pl st2)). lkey = word_of_nat j"
    using G(3,7) unfolding keys_ok_def by (simp add: st2_def)
  have "vref n0 (length (logicalTree (ps_pl st2))) (ps_pl st2) r" if r: "r \<in> set (subid_stack st2)" for r
  proof -
    consider "r = lkey" | "r \<in> set (subid_stack st)" using r by (auto simp: st2_def)
    then show ?thesis
    proof cases
      case 1
      then show ?thesis using G(8) by (simp add: st2_def)
    next
      case 2
      then have "vref n0 (length (logicalTree (ps_pl st))) (ps_pl st) r" using st(2) by (simp add: parse_ok_def)
      from vref_mono [OF this order_refl G(1)] show ?thesis by (simp add: st2_def G(4))
    qed
  qed
  then have ok: "parse_ok n0 st2"
    using st(2) G(2,3,4) by (simp add: parse_ok_def st2_def)
  have val: "rval lv n0 (ps_pl st2) lkey = lv lkey" for lv
  proof -
    obtain j where j: "j < length (toLogicalKeyMap (ps_pl st2))" "lkey = word_of_nat j" using leaf by blast
    have "j < 2 ^ 31" using j(1) G(5) sz by (simp add: st2_def)
    then have leaf: "op_ref n \<noteq> lkey" for n using op_ref_leaf j(2) by metis
    have "lop_id lop \<noteq> lkey" if lop: "lop \<in> set (drop n0 (logicalTree (ps_pl st2)))" for lop
    proof -
      obtain i where i: "i < length (logicalTree (ps_pl st2)) - n0" "lop = logicalTree (ps_pl st2) ! (n0 + i)"
        using lop n0 G(4) by (auto simp: in_set_conv_nth st2_def)
      then have "lop_id lop = op_ref (n0 + i)"
        using ok unfolding parse_ok_def tree_ok_def by auto
      with leaf show ?thesis by simp
    qed
    then show ?thesis unfolding rval_def by (intro run_ops_later ballI)
  qed
  have "pushed n0 (Ident ds) st st2"
  proof (rule pushedI [where r = lkey])
    show "parse_ok n0 st2" by (fact ok)
    show "rval lv n0 (ps_pl st2) lkey = eval_form (id_val lv (ps_pl st2)) (Ident ds)" for lv
      using val G(7) by (simp add: id_val_def st2_def)
  qed (use G st(1) in \<open>auto simp: st2_def\<close>)
  with loop push show ?thesis by (intro exI [of _ st1] exI [of _ st2]) (simp add: st1_def)
qed

text \<open>
  Reading the text of \<open>e\<close> at offset \<open>i\<close> leaves the operand \<open>e\<close>, once the last number has
  been pushed and the operators of \<open>e\<close>, whose keys are at least \<open>m\<close>, are popped.
\<close>

definition reads :: "string \<Rightarrow> u32 \<Rightarrow> nat \<Rightarrow> nat \<Rightarrow> nat \<Rightarrow> lform \<Rightarrow> parse_state \<Rightarrow> bool" where
  "reads logical ckey n0 i m e st =
     (\<exists>st1 st1' st2. parse_loop logical ckey i (unparse e) st = Inr st1 \<and> paren st1 = paren st
       \<and> push_subid logical ckey (i + length (unparse e)) st1 = Inr st1' \<and> digit st1' = None
       \<and> paren st1' = paren st \<and> (\<forall>i. flush i m st1' = Inr st2) \<and> pushed n0 e st st2)"

lemma reads_ident:
  assumes "gram (Ident ds)" "digit st = None" "parse_ok n0 st" "length (toLogicalKeyMap (ps_pl st)) < 2 ^ 31"
    "logical = pre @ ds @ post" "\<forall>opr \<in> set (op_stack st). okey opr < m"
  shows "reads logical ckey n0 (length pre) m (Ident ds) st"
proof -
  obtain st1 st2 where P: "parse_loop logical ckey (length pre) ds st = Inr st1" "paren st1 = paren st"
    "push_subid logical ckey (length pre + length ds) st1 = Inr st2" "pushed n0 (Ident ds) st st2"
    using parse_ident [OF assms(1-5)] by blast
  then have e: "op_stack st2 = op_stack st" "digit st2 = None" "paren st2 = paren st" by (auto simp: pushed_def)
  then have "\<forall>i. flush i m st2 = Inr st2" using flush_none assms(6) by metis
  with P e show ?thesis unfolding reads_def by auto
qed

lemma reads_neg:
  fixes st :: parse_state
  defines "opr \<equiv> \<lparr>lo_op = LOGICAL_OP_NOT, lo_paren = paren st\<rparr>"
  assumes st: "digit st = None" and ops: "\<forall>opr \<in> set (op_stack st). okey opr < m" "m \<le> okey opr"
    and a: "reads logical ckey n0 (i + 1) (okey opr + 1) a (st\<lparr>op_stack := opr # op_stack st\<rparr>)"
    and sz: "length (logicalTree (ps_pl st)) + nops a < 2 ^ 31 - 1"
  shows "reads logical ckey n0 i m (Neg a) st"
proof -
  define st0 where "st0 = st\<lparr>op_stack := opr # op_stack st\<rparr>"
  have "flush i (okey opr) st = Inr st" for i
    using ops by (intro flush_none) auto
  then have char: "parse_char logical ckey i (CHR ''!'') st = Inr st0"
    using st by (simp add: parse_char_def isdigit_def push_none opr_def [symmetric] pop_while_cmp st0_def)
  from a obtain st1 st1' sa where I: "parse_loop logical ckey (i + 1) (unparse a) st0 = Inr st1"
    "paren st1 = paren st" "push_subid logical ckey (i + 1 + length (unparse a)) st1 = Inr st1'"
    "digit st1' = None" "paren st1' = paren st"
    "\<And>i. flush i (okey opr + 1) st1' = Inr sa" "pushed n0 a st0 sa"
    by (auto simp: reads_def st0_def)
  have "length (logicalTree (ps_pl sa)) < 2 ^ 31 - 1"
    using I(7) sz by (auto simp: pushed_def st0_def)
  from combine_unary [OF I(7) [unfolded st0_def opr_def] ops(2) [unfolded opr_def] ops(1) this]
  obtain st2 where st2: "\<And>i. flush i m sa = Inr st2" "pushed n0 (Neg a) st st2" by blast
  have "flush i m st1' = Inr st2" for i
    using flush_compose [OF I(6), of m i] st2(1) ops(2) by simp
  then show ?thesis
    unfolding reads_def using char I(1-5) st2(2)
    by (intro exI [of _ st1] exI [of _ st1'] exI [of _ st2]) simp
qed

lemma reads_binary:
  fixes st :: parse_state
  assumes c: "toOperator c = Some opt" "opt \<noteq> LOGICAL_OP_NOT"
    and opr: "opr = \<lparr>lo_op = opt, lo_paren = paren st\<rparr>"
    and ops: "\<forall>opr \<in> set (op_stack st). okey opr < m" "m \<le> okey opr"
    and a: "reads logical ckey n0 i (okey opr) a st"
    and b: "\<And>sa. pushed n0 a st sa \<Longrightarrow>
      reads logical ckey n0 (i + length (unparse a) + 1) (okey opr + 1) b (sa\<lparr>op_stack := opr # op_stack sa\<rparr>)"
    and sz: "length (logicalTree (ps_pl st)) + nops a + nops b < 2 ^ 31 - 1"
      "length (toLogicalKeyMap (ps_pl st)) + nleaves a + nleaves b \<le> 2 ^ 31"
    and e: "e = (if opt = LOGICAL_OP_AND then Conj a b else Disj a b)"
  shows "reads logical ckey n0 i m e st"
proof -
  from a obtain st1 st1' sa where A: "parse_loop logical ckey i (unparse a) st = Inr st1"
    "push_subid logical ckey (i + length (unparse a)) st1 = Inr st1'"
    "paren st1' = paren st" "\<And>i. flush i (okey opr) st1' = Inr sa" "pushed n0 a st sa"
    by (auto simp: reads_def)
  define sm where "sm = sa\<lparr>op_stack := opr # op_stack sa\<rparr>"
  have c': "\<not> isdigit c" "c \<noteq> CHR '' ''" "c \<noteq> CHR ''(''" "c \<noteq> CHR '')''"
    using c by (auto simp: isdigit_def split: if_splits)
  have char: "parse_char logical ckey (i + length (unparse a)) c st1 = Inr sm"
    using c c' A(2-4) by (simp add: parse_char_def pop_while_cmp opr [symmetric] sm_def del: toOperator.simps)
  have psa: "paren sm = paren st" using A(5) by (auto simp: pushed_def sm_def)
  from b [OF A(5)] obtain sb1 sb1' sb where B:
    "parse_loop logical ckey (i + length (unparse a) + 1) (unparse b) sm = Inr sb1" "paren sb1 = paren st"
    "push_subid logical ckey (i + length (unparse a) + 1 + length (unparse b)) sb1 = Inr sb1'"
    "digit sb1' = None" "paren sb1' = paren st"
    "\<And>i. flush i (okey opr + 1) sb1' = Inr sb" "pushed n0 b sm sb"
    unfolding reads_def sm_def [symmetric] psa by blast
  have len: "length (logicalTree (ps_pl sb)) < 2 ^ 31 - 1" "length (toLogicalKeyMap (ps_pl sb)) \<le> 2 ^ 31"
    using A(5) B(7) sz by (auto simp: pushed_def sm_def)
  have "lo_op opr = opt" by (simp add: opr)
  with combine_binary [OF A(5) B(7) [unfolded sm_def] _ ops(2,1) len] c(2) e
  obtain st2 where st2: "\<And>i. flush i m sb = Inr st2" "pushed n0 e st st2" by metis
  have "flush i m sb1' = Inr st2" for i
    using flush_compose [OF B(6), of m i] st2(1) ops(2) by simp
  moreover have u: "unparse e = unparse a @ c # unparse b"
    using c e by (auto split: if_splits)
  moreover have "parse_loop logical ckey i (unparse e) st = Inr sb1"
    using A(1) char B(1) unfolding u by (simp add: parse_loop_append)
  ultimately show ?thesis
    unfolding reads_def using B(2-5) st2(2)
    by (intro exI [of _ sb1] exI [of _ sb1'] exI [of _ st2]) (simp add: add.assoc)
qed

lemma reads_paren:
  assumes st: "digit st = None" and a: "reads logical ckey n0 (i + 1) m a (st\<lparr>paren := paren st + 1\<rparr>)"
  shows "reads logical ckey n0 i m (Paren a) st"
proof -
  define st0 where "st0 = st\<lparr>paren := paren st + 1\<rparr>"
  have char: "parse_char logical ckey i (CHR ''('') st = Inr st0"
    using st by (simp add: parse_char_def isdigit_def push_none st0_def)
  from a obtain st1 st1' st2 where I: "parse_loop logical ckey (i + 1) (unparse a) st0 = Inr st1"
    "push_subid logical ckey (i + 1 + length (unparse a)) st1 = Inr st1'"
    "digit st1' = None" "paren st1' = paren st + 1" "\<And>i. flush i m st1' = Inr st2" "pushed n0 a st0 st2"
    by (auto simp: reads_def st0_def)
  define st3 where "st3 = st1'\<lparr>paren := paren st\<rparr>"
  have close: "parse_char logical ckey (i + 1 + length (unparse a)) (CHR '')'') st1 = Inr st3"
    using I(2,4) by (simp add: parse_char_def isdigit_def st3_def)
  have "flush i m st3 = Inr (st2\<lparr>paren := paren st\<rparr>)" for i
    using I(5) by (simp add: st3_def flush_paren)
  moreover have "pushed n0 (Paren a) st (st2\<lparr>paren := paren st\<rparr>)"
    using pushed_paren [where st = st and n = "paren st + 1"] I(6) by (simp add: st0_def pushed_def)
  moreover have "digit st3 = None" "paren st3 = paren st" using I(3) by (simp_all add: st3_def)
  moreover have "parse_loop logical ckey i (unparse (Paren a)) st = Inr st3"
    using char I(1) close by (simp add: parse_loop_append)
  ultimately show ?thesis
    unfolding reads_def
    using push_none [of st3] by (intro exI [of _ st3] exI [of _ "st2\<lparr>paren := paren st\<rparr>"]) auto
qed

lemma reads_space:
  assumes st: "digit st = None"
  shows "reads logical ckey n0 (i + 1) m a st \<Longrightarrow> reads logical ckey n0 i m (SpaceL a) st"
    and "reads logical ckey n0 i m a st \<Longrightarrow> reads logical ckey n0 i m (SpaceR a) st"
proof -
  have char: "parse_char logical ckey i (CHR '' '') st = Inr st"
    using st by (simp add: parse_char_def isdigit_def push_none)
  show "reads logical ckey n0 i m (SpaceL a) st" if "reads logical ckey n0 (i + 1) m a st"
    using that char by (simp add: reads_def pushed_def)
  assume "reads logical ckey n0 i m a st"
  then obtain st1 st1' st2 where I: "parse_loop logical ckey i (unparse a) st = Inr st1"
    "push_subid logical ckey (i + length (unparse a)) st1 = Inr st1'" "digit st1' = None"
    "paren st1' = paren st" "\<And>i. flush i m st1' = Inr st2" "pushed n0 a st st2"
    by (auto simp: reads_def)
  have "parse_char logical ckey (i + length (unparse a)) (CHR '' '') st1 = Inr st1'"
    using I(2) by (simp add: parse_char_def isdigit_def)
  then have "parse_loop logical ckey i (unparse (SpaceR a)) st = Inr st1'"
    using I(1) by (simp add: parse_loop_append)
  moreover have "pushed n0 (SpaceR a) st st2" using I(6) by (simp add: pushed_def)
  ultimately show "reads logical ckey n0 i m (SpaceR a) st"
    unfolding reads_def
    using I(3-5) push_none [OF I(3)] by (intro exI [of _ st1'] exI [of _ st2]) auto
qed

lemma pushed_after:
  "pushed n0 a st sa \<Longrightarrow> parse_ok n0 sa \<and> digit sa = None \<and> paren sa = paren st \<and> op_stack sa = op_stack st
    \<and> length (toLogicalKeyMap (ps_pl sa)) \<le> length (toLogicalKeyMap (ps_pl st)) + nleaves a
    \<and> length (logicalTree (ps_pl sa)) = length (logicalTree (ps_pl st)) + nops a"
  by (auto simp: pushed_def)

lemma reads_form:
  assumes "gram e" "digit st = None" "parse_ok n0 st"
    and "length (toLogicalKeyMap (ps_pl st)) + nleaves e \<le> 2 ^ 31"
    and "length (logicalTree (ps_pl st)) + nops e < 2 ^ 31 - 1"
    and "\<forall>opr \<in> set (op_stack st). okey opr < m" "m \<le> 3 * paren st + lprio e"
    and "logical = pre @ unparse e @ post"
  shows "reads logical ckey n0 (length pre) m e st"
  using assms
proof (induction e arbitrary: st m pre post)
  case (Ident ds)
  then show ?case by (intro reads_ident) auto
next
  case (Neg a)
  show ?case
  proof (rule reads_neg)
    let ?opr = "\<lparr>lo_op = LOGICAL_OP_NOT, lo_paren = paren st\<rparr>"
    have "reads logical ckey n0 (length (pre @ ''!'')) (okey ?opr + 1) a (st\<lparr>op_stack := ?opr # op_stack st\<rparr>)"
      by (rule Neg.IH) (use Neg.prems in \<open>auto simp: okey_def\<close>)
    then show "reads logical ckey n0 (length pre + 1) (okey ?opr + 1) a (st\<lparr>op_stack := ?opr # op_stack st\<rparr>)"
      by simp
  qed (use Neg.prems in \<open>auto simp: okey_def\<close>)
next
  case (Conj a b)
  let ?opr = "\<lparr>lo_op = LOGICAL_OP_AND, lo_paren = paren st\<rparr>"
  show ?case
  proof (rule reads_binary [of "CHR ''&''" LOGICAL_OP_AND ?opr])
    show "reads logical ckey n0 (length pre) (okey ?opr) a st"
      by (rule Conj.IH(1)) (use Conj.prems in \<open>auto simp: okey_def\<close>)
    fix sa assume "pushed n0 a st sa"
    note A = pushed_after [OF this]
    have "reads logical ckey n0 (length (pre @ unparse a @ ''&'')) (okey ?opr + 1) b (sa\<lparr>op_stack := ?opr # op_stack sa\<rparr>)"
      by (rule Conj.IH(2)) (use Conj.prems A in \<open>auto simp: okey_def\<close>)
    then show "reads logical ckey n0 (length pre + length (unparse a) + 1) (okey ?opr + 1) b
        (sa\<lparr>op_stack := ?opr # op_stack sa\<rparr>)" by (simp add: add.assoc)
  qed (use Conj.prems in \<open>auto simp: okey_def\<close>)
next
  case (Disj a b)
  let ?opr = "\<lparr>lo_op = LOGICAL_OP_OR, lo_paren = paren st\<rparr>"
  show ?case
  proof (rule reads_binary [of "CHR ''|''" LOGICAL_OP_OR ?opr])
    show "reads logical ckey n0 (length pre) (okey ?opr) a st"
      by (rule Disj.IH(1)) (use Disj.prems in \<open>auto simp: okey_def\<close>)
    fix sa assume "pushed n0 a st sa"
    note A = pushed_after [OF this]
    have "reads logical ckey n0 (length (pre @ unparse a @ ''|'')) (okey ?opr + 1) b (sa\<lparr>op_stack := ?opr # op_stack sa\<rparr>)"
      by (rule Disj.IH(2)) (use Disj.prems A in \<open>auto simp: okey_def\<close>)
    then show "reads logical ckey n0 (length pre + length (unparse a) + 1) (okey ?opr + 1) b
        (sa\<lparr>op_stack := ?opr # op_stack sa\<rparr>)" by (simp add: add.assoc)
  qed (use Disj.prems in \<open>auto simp: okey_def\<close>)
next
  case (Paren a)
  show ?case
  proof (rule reads_paren)
    have "reads logical ckey n0 (length (pre @ ''('')) m a (st\<lparr>paren := paren st + 1\<rparr>)"
      by (rule Paren.IH) (use Paren.prems in auto)
    then show "reads logical ckey n0 (length pre + 1) m a (st\<lparr>paren := paren st + 1\<rparr>)" by simp
  qed (use Paren.prems in auto)
next
  case (SpaceL a)
  have "reads logical ckey n0 (length (pre @ '' '')) m a st"
    by (rule SpaceL.IH) (use SpaceL.prems in auto)
  then show ?case using reads_space(1) SpaceL.prems(2) by simp
next
  case (SpaceR a)
  have "reads logical ckey n0 (length pre) m a st"
    by (rule SpaceR.IH) (use SpaceR.prems in auto)
  then show ?case using reads_space(2) SpaceR.prems(2) by simp
qed


section \<open>The whole text\<close>

lemma getCombKey_frame:
  "getCombKey a pl = (ckey, pl') \<Longrightarrow> pl_extends pl pl' \<and> logicalTree pl' = logicalTree pl
     \<and> toLogicalKeyMap pl' = toLogicalKeyMap pl \<and> combInfoMap pl' = combInfoMap pl"
  by (auto simp: getCombKey_def Let_def pl_extends_def split: option.splits)

lemma parse_combination:
  assumes e: "gram e" "0 < nops e" and ok: "keys_ok pl"
    and sz: "length (toLogicalKeyMap pl) + nleaves e \<le> 2 ^ 31" "length (logicalTree pl) + nops e < 2 ^ 31 - 1"
  obtains pl' where
    "parseLogicalCombination id_in (unparse e) ekey min_offset max_offset pl = Inr pl'"
    "pl_extends pl pl'" "keys_ok pl'" "tree_ok (length (logicalTree pl)) pl'"
    "length (logicalTree pl') = length (logicalTree pl) + nops e"
    "combInfoMap pl' = combInfoMap pl @
       [\<lparr>ci_id = id_in, ci_ekey = ekey, ci_start = op_ref (length (logicalTree pl)),
         ci_result = op_ref (length (logicalTree pl') - 1), ci_min_offset = min_offset, ci_max_offset = max_offset\<rparr>]"
    "form_ids e \<subseteq> dom (map_of (toLogicalKeyMap pl'))"
    "\<And>lv. rval lv (length (logicalTree pl)) pl' (op_ref (length (logicalTree pl') - 1)) = eval_form (id_val lv pl') e"
proof -
  define n0 where "n0 = length (logicalTree pl)"
  obtain ckey pl1 where comb: "getCombKey id_in pl = (ckey, pl1)" by force
  note C = getCombKey_frame [OF comb]
  define st where "st = \<lparr>op_stack = [], subid_stack = [], ps_pl = pl1, lkey_start = INVALID_LKEY, paren = 0, digit = None\<rparr>"
  have "parse_ok n0 st"
    using ok C by (auto simp: parse_ok_def st_def n0_def keys_ok_def tree_ok_def)
  then have "reads (unparse e) ckey n0 (length ([] :: string)) 0 e st"
    using e sz C by (intro reads_form [where post = "[]"]) (auto simp: st_def)
  then obtain st1 st1' st2 where R: "parse_loop (unparse e) ckey 0 (unparse e) st = Inr st1" "paren st1 = 0"
    "push_subid (unparse e) ckey (length (unparse e)) st1 = Inr st1'"
    "\<And>i. flush i 0 st1' = Inr st2" "pushed n0 e st st2"
    by (auto simp: reads_def st_def)
  have fl: "pop_while (length (unparse e)) (\<lambda>_. True) st1' = Inr st2"
    using R(4) by (simp add: flush_def)
  obtain r where P: "subid_stack st2 = [r]" "pl_extends pl1 (ps_pl st2)"
    "length (logicalTree (ps_pl st2)) = n0 + nops e"
    "parse_ok n0 st2" "form_ids e \<subseteq> dom (map_of (toLogicalKeyMap (ps_pl st2)))"
    "\<And>lv. rval lv n0 (ps_pl st2) r = eval_form (id_val lv (ps_pl st2)) e"
    "r = op_ref (length (logicalTree (ps_pl st2)) - 1)" "combInfoMap (ps_pl st2) = combInfoMap pl"
    using R(5) e(2) C by (auto simp: pushed_def st_def n0_def)
  have start: "lkey_start st2 = op_ref n0" using P(3,4) e(2) by (simp add: parse_ok_def)
  have "op_ref n0 \<noteq> INVALID_LKEY" using sz(2) e(2) by (intro op_ref_INVALID) (simp add: n0_def)
  then have res: "parseLogicalCombination id_in (unparse e) ekey min_offset max_offset pl =
      Inr (combinationInfoAdd id_in ekey (op_ref n0) r min_offset max_offset (ps_pl st2))"
    using R(1-3) fl P(1) start comb
    by (simp add: parseLogicalCombination_def Let_def st_def [symmetric])
  define pl' where "pl' = combinationInfoAdd id_in ekey (op_ref n0) r min_offset max_offset (ps_pl st2)"
  have sel: "logicalTree pl' = logicalTree (ps_pl st2)" "toLogicalKeyMap pl' = toLogicalKeyMap (ps_pl st2)"
    by (simp_all add: pl'_def combinationInfoAdd_def)
  show ?thesis
  proof (rule that [of pl'])
    show "pl_extends pl pl'"
      using pl_extends_trans [of pl pl1 "ps_pl st2"] C P(2) by (simp add: pl_extends_def sel)
    show "keys_ok pl'" "tree_ok (length (logicalTree pl)) pl'"
      using P(4) by (simp_all add: parse_ok_def keys_ok_def tree_ok_def vref_def sel n0_def)
    show "rval lv (length (logicalTree pl)) pl' (op_ref (length (logicalTree pl') - 1)) = eval_form (id_val lv pl') e" for lv
      using P(6) [of lv] P(7) by (simp add: rval_def id_val_def [abs_def] sel n0_def)
  qed (use res P in \<open>simp_all add: pl'_def sel n0_def, simp_all add: combinationInfoAdd_def\<close>)
qed

section \<open>Evaluation after renumbering\<close>

lemma vref_renum:
  assumes "vref n0 n pl r" "n \<le> 2 ^ 31" "K \<le> 2 ^ 31" "length (toLogicalKeyMap pl) \<le> K"
  obtains (leaf) j where "j < K" "r = word_of_nat j" "TRY_RENUM_OP K r = word_of_nat j"
    | (operation) m where "n0 \<le> m" "m < n" "r = op_ref m" "TRY_RENUM_OP K r = word_of_nat (K + m)"
proof -
  from assms(1) consider j where "j < length (toLogicalKeyMap pl)" "r = word_of_nat j"
    | m where "n0 \<le> m" "m < n" "r = op_ref m" by (auto simp: vref_def)
  then show ?thesis
  proof cases
    case (1 j)
    then show ?thesis using leaf [of j] TRY_RENUM_OP_simps(1) [of j K] assms by simp
  next
    case (2 m)
    then show ?thesis using operation [of m] TRY_RENUM_OP_simps(2) [of m K] assms by simp
  qed
qed

lemma renum_inj:
  assumes "vref n0 n pl r" "m < n" "n \<le> 2 ^ 31" "K \<le> 2 ^ 31" "length (toLogicalKeyMap pl) \<le> K"
  shows "TRY_RENUM_OP K r = TRY_RENUM_OP K (op_ref m) \<longleftrightarrow> r = op_ref m"
proof -
  have m: "TRY_RENUM_OP K (op_ref m) = word_of_nat (K + m)"
    using assms(2,3) TRY_RENUM_OP_simps(2) [of m K] by simp
  have b: "K + m < 2 ^ 32" using assms(2-4) by simp
  from assms(1,3-5) show ?thesis
  proof (cases rule: vref_renum)
    case (leaf j)
    have "r \<noteq> op_ref m" using leaf assms(4) op_ref_leaf [of j m] by simp
    moreover have "word_of_nat j \<noteq> (word_of_nat (K + m) :: u32)"
      using word_of_nat_inj32 [of j "K + m"] leaf(1) b by simp
    ultimately show ?thesis using leaf(3) m by simp
  next
    case (operation i)
    have "K + i < 2 ^ 32" using operation(2) assms(3,4) by simp
    then have "word_of_nat (K + i) = (word_of_nat (K + m) :: u32) \<longleftrightarrow> i = m"
      using word_of_nat_inj32 [of "K + i" "K + m"] b by simp
    moreover have "op_ref i = op_ref m \<longleftrightarrow> i = m"
      using op_ref_inj [of i m] operation(2) assms(2,3) by simp
    ultimately show ?thesis using operation(3,4) m by metis
  qed
qed

lemma eval_renum:
  "lop_op lop \<noteq> LOGICAL_OP_NOT \<longrightarrow> L' (TRY_RENUM_OP K (lop_lo lop)) = L (lop_lo lop) \<Longrightarrow>
   L' (TRY_RENUM_OP K (lop_ro lop)) = L (lop_ro lop) \<Longrightarrow>
     eval_op (renum_op K lop) L' = eval_op lop L"
  by (cases "lop_op lop") (simp_all add: eval_op_def renum_op_def)

lemma run_ops_renum:
  assumes ok: "tree_ok n0 pl" and sz: "length (logicalTree pl) \<le> 2 ^ 31" "K \<le> 2 ^ 31"
    "length (toLogicalKeyMap pl) \<le> K"
  shows "j \<le> length (logicalTree pl) - n0 \<Longrightarrow> vref n0 (length (logicalTree pl)) pl r \<Longrightarrow>
    run_ops lvec (map (renum_op K) (take j (drop n0 (logicalTree pl)))) (TRY_RENUM_OP K r) =
    run_ops (\<lambda>r. lvec (TRY_RENUM_OP K r)) (take j (drop n0 (logicalTree pl))) r"
proof (induction j arbitrary: r)
  case 0
  then show ?case by (simp add: run_ops_def)
next
  case (Suc j)
  define lop where "lop = logicalTree pl ! (n0 + j)"
  have j: "n0 + j < length (logicalTree pl)" using Suc.prems(1) by simp
  then have lop: "lop_id lop = op_ref (n0 + j)" "vref n0 (n0 + j) pl (lop_ro lop)"
    "lop_op lop \<noteq> LOGICAL_OP_NOT \<longrightarrow> vref n0 (n0 + j) pl (lop_lo lop)"
    using ok unfolding tree_ok_def lop_def by auto
  have tk: "take (Suc j) (drop n0 (logicalTree pl)) = take j (drop n0 (logicalTree pl)) @ [lop]"
    using j by (simp add: take_Suc_conv_app_nth lop_def)
  have up: "vref n0 (n0 + j) pl r \<Longrightarrow> vref n0 (length (logicalTree pl)) pl r" for r
    by (rule vref_mono) (use j in auto)
  have IH: "vref n0 (length (logicalTree pl)) pl r \<Longrightarrow>
      run_ops lvec (map (renum_op K) (take j (drop n0 (logicalTree pl)))) (TRY_RENUM_OP K r) =
      run_ops (\<lambda>r. lvec (TRY_RENUM_OP K r)) (take j (drop n0 (logicalTree pl))) r" for r
    using Suc.IH Suc.prems(1) by simp
  have "eval_op (renum_op K lop) (run_ops lvec (map (renum_op K) (take j (drop n0 (logicalTree pl))))) =
      eval_op lop (run_ops (\<lambda>r. lvec (TRY_RENUM_OP K r)) (take j (drop n0 (logicalTree pl))))"
    using lop IH up by (intro eval_renum) auto
  moreover have "TRY_RENUM_OP K r = TRY_RENUM_OP K (op_ref (n0 + j)) \<longleftrightarrow> r = op_ref (n0 + j)"
    using renum_inj [OF Suc.prems(2) j sz] .
  ultimately show ?case
    using IH [OF Suc.prems(2)]
    by (simp add: tk run_ops_append1 lop(1)) (simp add: renum_op_def lop(1))
qed

lemma unat_small: "n < 2 ^ 32 \<Longrightarrow> unat (word_of_nat n :: u32) = n"
  by (simp add: unsigned_of_nat take_bit_nat_eq_self)

text \<open>
  The region of a combination in the renumbered table, when more combinations have been
  parsed since.
\<close>

lemma region_renum:
  assumes ext: "logicalTree pl3 = logicalTree pl' @ later" and n0: "n0 < length (logicalTree pl')"
    and sz: "length (logicalTree pl') \<le> 2 ^ 31" "K \<le> 2 ^ 31" and K: "K = length (toLogicalKeyMap pl3)"
  shows "logical_region K (logicalTree (logicalKeyRenumber pl3)) (TRY_RENUM_OP K (op_ref n0))
      (TRY_RENUM_OP K (op_ref (length (logicalTree pl') - 1)))
    = map (renum_op K) (drop n0 (logicalTree pl'))"
proof (rule nth_equalityI)
  have u: "unat (TRY_RENUM_OP K (op_ref m)) = K + m" if "m < length (logicalTree pl')" for m
  proof -
    have "m < 2 ^ 31" using that sz by simp
    moreover have "K + m < 2 ^ 32" using calculation sz(2) by simp
    ultimately show ?thesis
      using unat_small [of "K + m"] TRY_RENUM_OP_simps(2) [of m K] by (simp del: of_nat_add)
  qed
  have last: "length (logicalTree pl') - 1 < length (logicalTree pl')" using n0 by simp
  show len: "length (logical_region K (logicalTree (logicalKeyRenumber pl3)) (TRY_RENUM_OP K (op_ref n0))
      (TRY_RENUM_OP K (op_ref (length (logicalTree pl') - 1)))) = length (map (renum_op K) (drop n0 (logicalTree pl')))"
    using n0 unfolding logical_region_def u [OF n0] u [OF last] by (simp, arith)
  fix i assume "i < length (logical_region K (logicalTree (logicalKeyRenumber pl3)) (TRY_RENUM_OP K (op_ref n0))
      (TRY_RENUM_OP K (op_ref (length (logicalTree pl') - 1))))"
  then have i: "i < length (logicalTree pl') - n0" using len by simp
  then have "[K + n0..<Suc (K + (length (logicalTree pl') - 1))] ! i = K + n0 + i"
    using n0 by (intro nth_upt) simp
  with i show "logical_region K (logicalTree (logicalKeyRenumber pl3)) (TRY_RENUM_OP K (op_ref n0))
      (TRY_RENUM_OP K (op_ref (length (logicalTree pl') - 1))) ! i = map (renum_op K) (drop n0 (logicalTree pl')) ! i"
    using n0 unfolding logical_region_def u [OF n0] u [OF last]
    by (simp add: logicalKeyRenumber_def Let_def ext nth_append K del: upt_Suc)
qed


section \<open>Properties\<close>


text \<open>\<open>101 & !(102 | 103)\<close>, in an empty table.\<close>

definition lex_example :: lform where
  "lex_example = Conj (SpaceR (Ident ''101'')) (SpaceL (Neg (Paren (Disj (SpaceR (Ident ''102'')) (SpaceL (Ident ''103''))))))"

definition pl_empty :: ParsedLogical where
  "pl_empty = \<lparr>combInfoMap = [], toCombKeyMap = [], toLogicalKeyMap = [], lkey2ckeys = (\<lambda>_. None), logicalTree = []\<rparr>"

lemma lex_example_text: "unparse lex_example = ''101 & !(102 | 103)''"
  by (simp add: lex_example_def)

lemma lex_example_ok: "gram lex_example" "0 < nops lex_example" "keys_ok pl_empty"
  "length (toLogicalKeyMap pl_empty) + nleaves lex_example \<le> 2 ^ 31"
  "length (logicalTree pl_empty) + nops lex_example < 2 ^ 31 - 1"
  by (auto simp: lex_example_def isdigit_def keys_ok_def pl_empty_def)


definition depth_at :: "string \<Rightarrow> nat \<Rightarrow> int" where
  "depth_at s k = int (length (filter (\<lambda>c. c = CHR ''('') (take k s))) - int (length (filter (\<lambda>c. c = CHR '')'') (take k s)))"

lemma popOperator_paren: "popOperator i opr st = Inr st' \<Longrightarrow> paren st' = paren st"
  by (auto simp: popOperator_def Let_def split: list.splits prod.splits if_splits)

lemma pop_ops_paren: "pop_ops i P ops st = Inr st' \<Longrightarrow> paren st' = paren st"
proof (induction ops arbitrary: st)
  case (Cons opr ops)
  then show ?case
    by (fastforce simp: sbind_Inr_iff dest: popOperator_paren split: if_splits)
qed auto

lemma push_subid_paren: "push_subid logical ckey i st = Inr st' \<Longrightarrow> paren st' = paren st"
  by (auto simp: push_subid_def sbind_Inr_iff case_prod_beta split: option.splits)

definition lexical :: "char \<Rightarrow> bool" where
  "lexical c = (isdigit c \<or> c \<in> set '' ()!&|'')"

lemma parse_char_lexical:
  assumes "parse_char logical ckey i c st = Inr st'"
  shows "lexical c \<and> int (paren st') = int (paren st) + (if c = CHR ''('' then 1 else if c = CHR '')'' then -1 else 0)"
proof (cases "isdigit c")
  case True
  then have "c \<noteq> CHR ''(''" "c \<noteq> CHR '')''" by (auto simp: isdigit_def)
  with True assms show ?thesis by (auto simp: parse_char_def lexical_def split: if_splits)
next
  case False
  with assms show ?thesis
    by (auto simp: parse_char_def sbind_Inr_iff lexical_def pop_while_def Let_def
        dest!: push_subid_paren pop_ops_paren split: if_splits)
qed

lemma parse_loop_lexical:
  "parse_loop logical ckey i cs st = Inr st' \<Longrightarrow>
     (\<forall>c \<in> set cs. lexical c) \<and> int (paren st') = int (paren st) + depth_at cs (length cs)
     \<and> (\<forall>k. 0 \<le> int (paren st) + depth_at cs k)"
proof (induction cs arbitrary: i st)
  case (Cons c cs)
  then obtain st1 where st1: "parse_char logical ckey i c st = Inr st1" "parse_loop logical ckey (i + 1) cs st1 = Inr st'"
    by (auto simp: sbind_Inr_iff)
  note C = parse_char_lexical [OF st1(1)] and I = Cons.IH [OF st1(2)]
  have d: "depth_at (c # cs) (Suc k) = (if c = CHR ''('' then 1 else if c = CHR '')'' then -1 else 0) + depth_at cs k" for k
    by (simp add: depth_at_def)
  have "0 \<le> int (paren st) + depth_at (c # cs) k" for k
  proof (cases k)
    case 0
    then show ?thesis by (simp add: depth_at_def)
  next
    case (Suc k')
    have "0 \<le> int (paren st1) + depth_at cs k'" using I by blast
    then show ?thesis using C by (simp add: Suc d)
  qed
  then show ?case using C I d [of "length cs"] by simp
qed (simp add: depth_at_def)

text \<open>
  What the parser accepts has balanced parentheses, never closes one that is not open, and
  consists of digits, blanks, parentheses and the three operators only.
\<close>

theorem accepted_text_lexical:
  assumes "parseLogicalCombination id_in logical ekey min_offset max_offset pl = Inr pl'"
  shows "(\<forall>c \<in> set logical. isdigit c \<or> c \<in> set '' ()!&|'')
    \<and> (\<forall>k. 0 \<le> depth_at logical k) \<and> depth_at logical (length logical) = 0"
proof -
  obtain ckey pl1 where comb: "getCombKey id_in pl = (ckey, pl1)" by force
  define st where "st = \<lparr>op_stack = [], subid_stack = [], ps_pl = pl1, lkey_start = INVALID_LKEY, paren = 0, digit = None\<rparr>"
  obtain st1 where "parse_loop logical ckey 0 logical st = Inr st1" "paren st1 = 0"
    using assms by (auto simp: parseLogicalCombination_def comb Let_def sbind_Inr_iff st_def split: if_splits)
  from parse_loop_lexical [OF this(1)] this(2) show ?thesis
    by (simp add: st_def lexical_def)
qed

theorem accepted_text_lexical_witness:
  "depth_at ''101 & !(102 | 103)'' (length ''101 & !(102 | 103)'') = 0"
proof -
  obtain pl' where "parseLogicalCombination 7 ''101 & !(102 | 103)'' 0 0 0 pl_empty = Inr pl'"
    using parse_combination [OF lex_example_ok, of 7 0 0 0] unfolding lex_example_text by blast
  from accepted_text_lexical [OF this] show ?thesis by simp
qed

end
