(* ===== verification/Reports.thy ===== *)
theory Reports
  imports Logical RawDfa "HOL-Library.AList" "HOL-Library.Product_Lexorder"
begin

text \<open>
  Reports and the report manager: \<open>src/util/report.h\<close>, \<open>src/util/report_manager.h\<close>,
  \<open>src/util/report_manager.cpp\<close>.  Maps are association lists, internal ids and program
  offsets natural numbers; the expression indices of the exhaustion map (\<open>s64a\<close>, counting down
  from -1 for the unassociated keys) are integers.  The limit \<open>limitReportCount\<close> of the
  configuration \<open>Grey\<close> is an argument, as is the test \<open>requiresDedupeSupport\<close> of the Rose
  build.
\<close>

section \<open>Reports (\<open>report.h\<close>)\<close>

datatype ReportType = EXTERNAL_CALLBACK | EXTERNAL_CALLBACK_SOM_REL | INTERNAL_SOM_LOC_SET
  | INTERNAL_SOM_LOC_SET_IF_UNSET | INTERNAL_SOM_LOC_SET_IF_WRITABLE | INTERNAL_SOM_LOC_SET_SOM_REV_NFA
  | INTERNAL_SOM_LOC_SET_SOM_REV_NFA_IF_UNSET | INTERNAL_SOM_LOC_SET_SOM_REV_NFA_IF_WRITABLE
  | INTERNAL_SOM_LOC_COPY | INTERNAL_SOM_LOC_COPY_IF_WRITABLE | INTERNAL_SOM_LOC_MAKE_WRITABLE
  | EXTERNAL_CALLBACK_SOM_STORED | EXTERNAL_CALLBACK_SOM_ABS | EXTERNAL_CALLBACK_SOM_REV_NFA
  | INTERNAL_SOM_LOC_SET_FROM | INTERNAL_SOM_LOC_SET_FROM_IF_WRITABLE | INTERNAL_ROSE_CHAIN
  | EXTERNAL_CALLBACK_SOM_PASS

fun type_rank :: "ReportType \<Rightarrow> int" where
  "type_rank EXTERNAL_CALLBACK = 0"
| "type_rank EXTERNAL_CALLBACK_SOM_REL = 1"
| "type_rank INTERNAL_SOM_LOC_SET = 2"
| "type_rank INTERNAL_SOM_LOC_SET_IF_UNSET = 3"
| "type_rank INTERNAL_SOM_LOC_SET_IF_WRITABLE = 4"
| "type_rank INTERNAL_SOM_LOC_SET_SOM_REV_NFA = 5"
| "type_rank INTERNAL_SOM_LOC_SET_SOM_REV_NFA_IF_UNSET = 6"
| "type_rank INTERNAL_SOM_LOC_SET_SOM_REV_NFA_IF_WRITABLE = 7"
| "type_rank INTERNAL_SOM_LOC_COPY = 8"
| "type_rank INTERNAL_SOM_LOC_COPY_IF_WRITABLE = 9"
| "type_rank INTERNAL_SOM_LOC_MAKE_WRITABLE = 10"
| "type_rank EXTERNAL_CALLBACK_SOM_STORED = 11"
| "type_rank EXTERNAL_CALLBACK_SOM_ABS = 12"
| "type_rank EXTERNAL_CALLBACK_SOM_REV_NFA = 13"
| "type_rank INTERNAL_SOM_LOC_SET_FROM = 14"
| "type_rank INTERNAL_SOM_LOC_SET_FROM_IF_WRITABLE = 15"
| "type_rank INTERNAL_ROSE_CHAIN = 16"
| "type_rank EXTERNAL_CALLBACK_SOM_PASS = 17"

lemma type_rank_inj: "type_rank s = type_rank t \<longleftrightarrow> s = t"
  by (cases s; cases t; simp)

instantiation ReportType :: linorder
begin

definition less_eq_ReportType :: "ReportType \<Rightarrow> ReportType \<Rightarrow> bool" where
  "less_eq_ReportType s t = (type_rank s \<le> type_rank t)"

definition less_ReportType :: "ReportType \<Rightarrow> ReportType \<Rightarrow> bool" where
  "less_ReportType s t = (type_rank s < type_rank t)"

instance
  by standard (auto simp: less_eq_ReportType_def less_ReportType_def type_rank_inj)

end

definition INVALID_EKEY :: u32 where
  "INVALID_EKEY = NOT 0"

definition MAX_OFFSET :: u64a where
  "MAX_OFFSET = 0xffffffffffffffff"

record Report =
  rp_type :: ReportType
  rp_quashSom :: bool
  rp_minOffset :: u64a
  rp_maxOffset :: u64a
  rp_minLength :: u64a
  rp_ekey :: u32
  rp_lkey :: u32
  rp_quiet :: bool
  rp_offsetAdjust :: u32 \<comment> \<open>\<open>s32\<close>, read with \<open>sint\<close>\<close>
  rp_onmatch :: u32
  rp_revNfaIndex :: u32
  rp_somDistance :: u64a
  rp_topSquashDistance :: u64a

definition newReport :: "ReportType \<Rightarrow> u32 \<Rightarrow> Report" where
  "newReport type_in onmatch_in =
     \<lparr>rp_type = type_in, rp_quashSom = False, rp_minOffset = 0, rp_maxOffset = MAX_OFFSET,
      rp_minLength = 0, rp_ekey = INVALID_EKEY, rp_lkey = INVALID_LKEY, rp_quiet = False,
      rp_offsetAdjust = 0, rp_onmatch = onmatch_in, rp_revNfaIndex = 0, rp_somDistance = 0,
      rp_topSquashDistance = 0\<rparr>"

definition hasBounds :: "Report \<Rightarrow> bool" where
  "hasBounds r = (rp_minOffset r > 0 \<or> rp_maxOffset r < MAX_OFFSET \<or> rp_minLength r > 0)"

definition isExternalReport :: "Report \<Rightarrow> bool" where
  "isExternalReport r =
     (case rp_type r of
        INTERNAL_SOM_LOC_SET \<Rightarrow> False
      | INTERNAL_SOM_LOC_SET_IF_UNSET \<Rightarrow> False
      | INTERNAL_SOM_LOC_SET_IF_WRITABLE \<Rightarrow> False
      | INTERNAL_SOM_LOC_SET_SOM_REV_NFA \<Rightarrow> False
      | INTERNAL_SOM_LOC_SET_SOM_REV_NFA_IF_UNSET \<Rightarrow> False
      | INTERNAL_SOM_LOC_SET_SOM_REV_NFA_IF_WRITABLE \<Rightarrow> False
      | INTERNAL_SOM_LOC_COPY \<Rightarrow> False
      | INTERNAL_SOM_LOC_COPY_IF_WRITABLE \<Rightarrow> False
      | INTERNAL_SOM_LOC_MAKE_WRITABLE \<Rightarrow> False
      | INTERNAL_SOM_LOC_SET_FROM \<Rightarrow> False
      | INTERNAL_SOM_LOC_SET_FROM_IF_WRITABLE \<Rightarrow> False
      | INTERNAL_ROSE_CHAIN \<Rightarrow> False
      | _ \<Rightarrow> True)"

definition isExternalSomReport :: "Report \<Rightarrow> bool" where
  "isExternalSomReport r = (rp_type r \<noteq> EXTERNAL_CALLBACK \<and> isExternalReport r)"

text \<open>The macro \<open>ORDER_CHECK\<close>, in sequence: pairs of "a before b" and "b before a".\<close>

fun order_checks :: "(bool \<times> bool) list \<Rightarrow> bool" where
  "order_checks [] = False"
| "order_checks ((lt, gt) # cs) = (if lt then True else if gt then False else order_checks cs)"

definition ORDER_CHECK :: "'a::linorder \<Rightarrow> 'a \<Rightarrow> bool \<times> bool" where
  "ORDER_CHECK x y = (x < y, y < x)"

definition report_less :: "Report \<Rightarrow> Report \<Rightarrow> bool" where
  "report_less a b = order_checks
     [ORDER_CHECK (rp_type a) (rp_type b),
      ORDER_CHECK (rp_quashSom a) (rp_quashSom b),
      ORDER_CHECK (rp_ekey a) (rp_ekey b),
      ORDER_CHECK (sint (rp_offsetAdjust a)) (sint (rp_offsetAdjust b)),
      ORDER_CHECK (rp_onmatch a) (rp_onmatch b),
      ORDER_CHECK (rp_minOffset a) (rp_minOffset b),
      ORDER_CHECK (rp_maxOffset a) (rp_maxOffset b),
      ORDER_CHECK (rp_minLength a) (rp_minLength b),
      ORDER_CHECK (rp_somDistance a) (rp_somDistance b),
      ORDER_CHECK (rp_revNfaIndex a) (rp_revNfaIndex b),
      ORDER_CHECK (rp_topSquashDistance a) (rp_topSquashDistance b)]"

definition report_eq :: "Report \<Rightarrow> Report \<Rightarrow> bool" where
  "report_eq a b =
     (rp_type a = rp_type b \<and> rp_quashSom a = rp_quashSom b
      \<and> rp_minOffset a = rp_minOffset b \<and> rp_maxOffset a = rp_maxOffset b
      \<and> rp_minLength a = rp_minLength b \<and> rp_ekey a = rp_ekey b
      \<and> rp_offsetAdjust a = rp_offsetAdjust b \<and> rp_onmatch a = rp_onmatch b
      \<and> rp_revNfaIndex a = rp_revNfaIndex b \<and> rp_somDistance a = rp_somDistance b
      \<and> rp_topSquashDistance a = rp_topSquashDistance b)"

definition makeECallback :: "u32 \<Rightarrow> u32 \<Rightarrow> u32 \<Rightarrow> bool \<Rightarrow> Report" where
  "makeECallback report offsetAdjust ekey quiet =
     (newReport EXTERNAL_CALLBACK report)
       \<lparr>rp_offsetAdjust := offsetAdjust, rp_ekey := ekey, rp_quiet := quiet\<rparr>"

definition makeCallback :: "u32 \<Rightarrow> u32 \<Rightarrow> Report" where
  "makeCallback report offsetAdjust = makeECallback report offsetAdjust INVALID_EKEY False"

definition makeSomRelativeCallback :: "u32 \<Rightarrow> u32 \<Rightarrow> u64a \<Rightarrow> Report" where
  "makeSomRelativeCallback report offsetAdjust distance =
     (newReport EXTERNAL_CALLBACK_SOM_REL report)
       \<lparr>rp_offsetAdjust := offsetAdjust, rp_ekey := INVALID_EKEY, rp_somDistance := distance\<rparr>"

definition makeMpvTrigger :: "u32 \<Rightarrow> u64a \<Rightarrow> Report" where
  "makeMpvTrigger event squashDistance =
     (newReport INTERNAL_ROSE_CHAIN event)
       \<lparr>rp_ekey := INVALID_EKEY, rp_topSquashDistance := squashDistance\<rparr>"

definition isSimpleExhaustible :: "Report \<Rightarrow> bool" where
  "isSimpleExhaustible ir =
     (if rp_ekey ir = INVALID_EKEY then False
      else if hasBounds ir \<and> (rp_minOffset ir \<noteq> 0 \<or> rp_minLength ir \<noteq> 0) then False
      else if \<not> isExternalReport ir then False
      else True)"

section \<open>The report manager\<close>

datatype rm_error = ResourceLimitError | ReportCompileError nat string

record external_report_info =
  eri_highlander :: bool
  eri_first_pattern_index :: nat

record ReportManager =
  rm_reportIds :: "Report list"
  rm_internalMap :: "(Report \<times> nat) list"
  rm_dedupeKey :: "(u32 \<times> nat) list"
  rm_programOffset :: "(nat \<times> nat) list"
  rm_externalIdMap :: "(u32 \<times> external_report_info) list"
  rm_exhaustibleKeys :: "(int \<times> u32) list"
  rm_freeEIndex :: int
  rm_global_exhaust :: bool
  rm_pl :: ParsedLogical

definition newReportManager :: "ParsedLogical \<Rightarrow> ReportManager" where
  "newReportManager pl =
     \<lparr>rm_reportIds = [], rm_internalMap = [], rm_dedupeKey = [], rm_programOffset = [],
      rm_externalIdMap = [], rm_exhaustibleKeys = [], rm_freeEIndex = 0, rm_global_exhaust = True,
      rm_pl = pl\<rparr>"

definition getInternalId :: "nat \<Rightarrow> Report \<Rightarrow> ReportManager \<Rightarrow> rm_error + nat \<times> ReportManager" where
  "getInternalId limitReportCount ir rm =
     (case find (\<lambda>(r, _). report_eq ir r) (rm_internalMap rm) of
        Some (_, i) \<Rightarrow> Inr (i, rm)
      | None \<Rightarrow>
          if length (rm_reportIds rm) \<ge> limitReportCount then Inl ResourceLimitError
          else let n = length (rm_reportIds rm) in
            Inr (n, rm\<lparr>rm_reportIds := rm_reportIds rm @ [ir], rm_internalMap := (ir, n) # rm_internalMap rm\<rparr>))"

definition getReport :: "ReportManager \<Rightarrow> nat \<Rightarrow> Report" where
  "getReport rm i = rm_reportIds rm ! i"

definition getExhaustibleKey :: "u32 \<Rightarrow> ReportManager \<Rightarrow> u32 \<times> ReportManager" where
  "getExhaustibleKey a rm =
     (case map_of (rm_exhaustibleKeys rm) (uint a) of
        Some k \<Rightarrow> (k, rm)
      | None \<Rightarrow> let k = word_of_nat (length (rm_exhaustibleKeys rm)) in
          (k, rm\<lparr>rm_exhaustibleKeys := (uint a, k) # rm_exhaustibleKeys rm\<rparr>))"

definition getUnassociatedExhaustibleKey :: "ReportManager \<Rightarrow> u32 \<times> ReportManager" where
  "getUnassociatedExhaustibleKey rm =
     (let rv = word_of_nat (length (rm_exhaustibleKeys rm)); e = rm_freeEIndex rm - 1 in
      (rv, rm\<lparr>rm_freeEIndex := e, rm_exhaustibleKeys := (e, rv) # rm_exhaustibleKeys rm\<rparr>))"

definition getRelateCKeys :: "ReportManager \<Rightarrow> u32 \<Rightarrow> u32 set option" where
  "getRelateCKeys rm lkey = lkey2ckeys (rm_pl rm) lkey"

definition rm_logicalKeyRenumber :: "ReportManager \<Rightarrow> ReportManager" where
  "rm_logicalKeyRenumber rm =
     (let pl = logicalKeyRenumber (rm_pl rm) in
      rm\<lparr>rm_pl := pl,
         rm_reportIds := map (\<lambda>ir. case map_of (toLogicalKeyMap pl) (rp_onmatch ir) of
             None \<Rightarrow> ir | Some lkey \<Rightarrow> ir\<lparr>rp_lkey := lkey\<rparr>) (rm_reportIds rm)\<rparr>)"

definition numEkeys :: "ReportManager \<Rightarrow> nat" where
  "numEkeys rm = length (rm_exhaustibleKeys rm)"

definition numDkeys :: "ReportManager \<Rightarrow> nat" where
  "numDkeys rm = length (rm_dedupeKey rm)"

definition numReports :: "ReportManager \<Rightarrow> nat" where
  "numReports rm = length (rm_reportIds rm)"

definition numLogicalKeys :: "ReportManager \<Rightarrow> nat" where
  "numLogicalKeys rm = length (toLogicalKeyMap (rm_pl rm))"

definition numLogicalOps :: "ReportManager \<Rightarrow> nat" where
  "numLogicalOps rm = length (logicalTree (rm_pl rm))"

definition numCkeys :: "ReportManager \<Rightarrow> nat" where
  "numCkeys rm = length (toCombKeyMap (rm_pl rm))"

definition patternSetCanExhaust :: "ReportManager \<Rightarrow> bool" where
  "patternSetCanExhaust rm = (rm_global_exhaust rm \<and> rm_exhaustibleKeys rm \<noteq> [])"

definition getDkeyToReportTable :: "ReportManager \<Rightarrow> u32 list" where
  "getDkeyToReportTable rm =
     foldl (\<lambda>rv (ext, dkey). rv[dkey := ext]) (replicate (length (rm_dedupeKey rm)) 0) (rm_dedupeKey rm)"

text \<open>The external ids of \<open>ext_to_int\<close> in order, each with its internal ids.\<close>

definition ext_to_int :: "ReportManager \<Rightarrow> (u32 \<times> nat set) list" where
  "ext_to_int rm =
     (let ids = filter (\<lambda>i. isExternalReport (rm_reportIds rm ! i)) [0..<length (rm_reportIds rm)];
          exts = sort (remdups (map (\<lambda>i. rp_onmatch (rm_reportIds rm ! i)) ids))
      in map (\<lambda>ext. (ext, set (filter (\<lambda>i. rp_onmatch (rm_reportIds rm ! i) = ext) ids))) exts)"

definition assignDkeys :: "(nat set \<Rightarrow> bool) \<Rightarrow> ReportManager \<Rightarrow> ReportManager" where
  "assignDkeys requiresDedupeSupport rm =
     foldl (\<lambda>rm (ext, ids).
         if \<not> requiresDedupeSupport ids then rm
         else let dkey = length (rm_dedupeKey rm) in
           rm\<lparr>rm_dedupeKey := AList.update ext dkey (rm_dedupeKey rm)\<rparr>)
       rm (ext_to_int rm)"

definition getDkey :: "ReportManager \<Rightarrow> Report \<Rightarrow> nat option" where
  "getDkey rm r =
     (if \<not> isExternalReport r then None else map_of (rm_dedupeKey rm) (rp_onmatch r))"

text \<open>The decimal digits an \<open>ostringstream\<close> writes.\<close>

fun dec :: "nat \<Rightarrow> string" where
  "dec n = (if n < 10 then [char_of (48 + n)] else dec (n div 10) @ [char_of (48 + n mod 10)])"

declare dec.simps [simp del]

definition highlander_message :: "u32 \<Rightarrow> external_report_info \<Rightarrow> external_report_info \<Rightarrow> string" where
  "highlander_message i ext eri =
     ''Expression (index '' @ dec (eri_first_pattern_index ext) @ '') with match ID '' @ dec (unat i)
     @ '' '' @ (if \<not> eri_highlander ext then ''did not specify '' else ''specified '')
     @ ''HS_FLAG_SINGLEMATCH whereas previous expression (index ''
     @ dec (eri_first_pattern_index eri) @ '') with the same match ID did''
     @ (if eri_highlander ext then '' not'' else '''') @ ''.''"

definition registerExtReport ::
  "u32 \<Rightarrow> external_report_info \<Rightarrow> ReportManager \<Rightarrow> rm_error + ReportManager" where
  "registerExtReport i ext rm =
     (case map_of (rm_externalIdMap rm) i of
        Some eri \<Rightarrow>
          if eri_highlander eri \<noteq> eri_highlander ext
          then Inl (ReportCompileError (eri_first_pattern_index ext) (highlander_message i ext eri))
          else Inr (if \<not> eri_highlander ext then rm\<lparr>rm_global_exhaust := False\<rparr> else rm)
      | None \<Rightarrow>
          let rm = rm\<lparr>rm_externalIdMap := (i, ext) # rm_externalIdMap rm\<rparr> in
          Inr (if \<not> eri_highlander ext then rm\<lparr>rm_global_exhaust := False\<rparr> else rm))"

datatype som_type = SOM_NONE | SOM_LEFT

record ExpressionInfo =
  ei_index :: nat
  ei_report :: u32
  ei_allow_vacuous :: bool
  ei_highlander :: bool
  ei_utf8 :: bool
  ei_prefilter :: bool
  ei_som :: som_type
  ei_min_offset :: u64a
  ei_max_offset :: u64a
  ei_min_length :: u64a
  ei_edit_distance :: u32
  ei_hamm_distance :: u32
  ei_quiet :: bool

definition getBasicInternalReport ::
  "ExpressionInfo \<Rightarrow> u32 \<Rightarrow> ReportManager \<Rightarrow> rm_error + Report \<times> ReportManager" where
  "getBasicInternalReport expr adj rm =
     sbind (registerExtReport (ei_report expr)
         \<lparr>eri_highlander = ei_highlander expr, eri_first_pattern_index = ei_index expr\<rparr> rm) (\<lambda>rm.
       let (ekey, rm) = (if ei_highlander expr then getExhaustibleKey (ei_report expr) rm
                         else (INVALID_EKEY, rm))
       in Inr (makeECallback (ei_report expr) adj ekey (ei_quiet expr), rm))"

definition setProgramOffset :: "nat \<Rightarrow> nat \<Rightarrow> ReportManager \<Rightarrow> ReportManager" where
  "setProgramOffset i programOffset rm =
     (case map_of (rm_programOffset rm) i of
        None \<Rightarrow> rm\<lparr>rm_programOffset := (i, programOffset) # rm_programOffset rm\<rparr>
      | Some _ \<Rightarrow> rm)"

definition getProgramOffset :: "ReportManager \<Rightarrow> nat \<Rightarrow> nat option" where
  "getProgramOffset rm i = map_of (rm_programOffset rm) i"

definition ekeysUnion :: "u32 set \<Rightarrow> u32 \<Rightarrow> u32 set" where
  "ekeysUnion ekeys more_key =
     (if ekeys \<noteq> {} then (if more_key = INVALID_EKEY then {} else insert more_key ekeys) else ekeys)"

text \<open>The ids come in order of a \<open>std::set\<close>; the first one seeds the result.\<close>

definition reportsToEkeys :: "nat list \<Rightarrow> ReportManager \<Rightarrow> u32 set" where
  "reportsToEkeys reports rm =
     (case reports of
        [] \<Rightarrow> {}
      | i # rest \<Rightarrow>
          let e = rp_ekey (getReport rm i) in
          foldl (\<lambda>ekeys i. ekeysUnion ekeys (rp_ekey (getReport rm i)))
            (if e \<noteq> INVALID_EKEY then {e} else {}) rest)"

section \<open>The order of reports\<close>

text \<open>The fields the operators compare, in the order of the comparison.\<close>

definition report_key ::
  "Report \<Rightarrow> ReportType \<times> bool \<times> u32 \<times> int \<times> u32 \<times> u64a \<times> u64a \<times> u64a \<times> u64a \<times> u32 \<times> u64a" where
  "report_key r = (rp_type r, rp_quashSom r, rp_ekey r, sint (rp_offsetAdjust r), rp_onmatch r,
     rp_minOffset r, rp_maxOffset r, rp_minLength r, rp_somDistance r, rp_revNfaIndex r,
     rp_topSquashDistance r)"

lemma order_checks_Cons:
  "order_checks (ORDER_CHECK x y # cs) \<longleftrightarrow> x < y \<or> x = y \<and> order_checks cs"
  by (auto simp: ORDER_CHECK_def)

lemma less_pair_iff:
  fixes a c :: "'a::linorder"
  shows "(a, b) < (c, d) \<longleftrightarrow> a < c \<or> a = c \<and> b < d"
  by (auto simp: less_prod_def)

lemma report_eq_key: "report_eq a b \<longleftrightarrow> report_key a = report_key b"
  by (auto simp: report_eq_def report_key_def word_eq_iff_signed [symmetric])

lemma report_less_key: "report_less a b \<longleftrightarrow> report_key a < report_key b"
  unfolding report_less_def report_key_def order_checks_Cons less_pair_iff order_checks.simps(1)
  by blast

lemma report_eq_refl [simp]: "report_eq r r"
  by (simp add: report_eq_key)

lemma report_eq_sym: "report_eq a b \<Longrightarrow> report_eq b a"
  by (simp add: report_eq_key)

lemma report_eq_trans: "report_eq a b \<Longrightarrow> report_eq b c \<Longrightarrow> report_eq a c"
  by (simp add: report_eq_key)

text \<open>
  The operators of reports agree with each other: \<open>operator<\<close> is irreflexive and
  transitive, and of two reports exactly one of "before", "equal by \<open>operator==\<close>" and "after"
  holds, so that ordered and hashed containers of reports identify the same reports.
\<close>

theorem report_order_total:
  "\<not> report_less a a
   \<and> (report_less a b \<and> report_less b c \<longrightarrow> report_less a c)
   \<and> (report_eq a b \<longleftrightarrow> \<not> report_less a b \<and> \<not> report_less b a)
   \<and> \<not> (report_less a b \<and> report_less b a)"
  unfolding report_less_key report_eq_key using less_trans by fastforce

definition example_reports :: "Report list" where
  "example_reports = [makeCallback 1 0, makeCallback 2 0, makeSomRelativeCallback 1 0 5]"

theorem report_order_total_witness:
  "report_less (example_reports ! 0) (example_reports ! 1)
   \<and> report_less (example_reports ! 1) (example_reports ! 2)
   \<and> report_less (example_reports ! 0) (example_reports ! 2)"
proof -
  have 1: "report_less (example_reports ! 0) (example_reports ! 1)"
    "report_less (example_reports ! 1) (example_reports ! 2)"
    by (simp_all add: example_reports_def makeCallback_def makeECallback_def newReport_def
      makeSomRelativeCallback_def report_less_key report_key_def less_ReportType_def less_pair_iff)
  then show ?thesis
    using report_order_total [of "example_reports ! 0" "example_reports ! 1" "example_reports ! 2"]
    by blast
qed

section \<open>The numbering of reports\<close>

definition ids_ok :: "ReportManager \<Rightarrow> bool" where
  "ids_ok rm = (let ids = rm_reportIds rm in
     (\<forall>(r, i) \<in> set (rm_internalMap rm). i < length ids \<and> report_eq r (ids ! i))
     \<and> (\<forall>i < length ids. i \<in> snd ` set (rm_internalMap rm))
     \<and> (\<forall>i < length ids. \<forall>j < i. \<not> report_eq (ids ! i) (ids ! j)))"

lemma ids_ok_find:
  assumes "ids_ok rm"
  shows "case find (\<lambda>(r, _). report_eq ir r) (rm_internalMap rm) of
      Some (_, i) \<Rightarrow> i < length (rm_reportIds rm) \<and> report_eq ir (rm_reportIds rm ! i)
    | None \<Rightarrow> \<forall>i < length (rm_reportIds rm). \<not> report_eq ir (rm_reportIds rm ! i)"
proof (cases "find (\<lambda>(r, _). report_eq ir r) (rm_internalMap rm)")
  case None
  then have "\<not> report_eq ir r" if "(r, i) \<in> set (rm_internalMap rm)" for r i
    using that by (auto simp: find_None_iff)
  then show ?thesis
    using None assms report_eq_trans report_eq_sym unfolding ids_ok_def Let_def
    by (smt (verit, best) case_prodD imageE option.case(1) prod.collapse)
next
  case (Some ri)
  then have "ri \<in> set (rm_internalMap rm)" "report_eq ir (fst ri)"
    by (metis find_Some_iff nth_mem, auto simp: find_Some_iff)
  then obtain r i where "ri = (r, i)" "(r, i) \<in> set (rm_internalMap rm)" "report_eq ir r"
    by (metis prod.collapse)
  then show ?thesis
    using Some assms report_eq_trans by (fastforce simp: ids_ok_def Let_def)
qed

lemma ids_ok_getInternalId [inv_intros]:
  assumes "ids_ok rm" "getInternalId lim ir rm = Inr (i, rm')"
  shows "ids_ok rm'"
proof (cases "find (\<lambda>(r, _). report_eq ir r) (rm_internalMap rm)")
  case None
  then have new: "\<forall>i < length (rm_reportIds rm). \<not> report_eq ir (rm_reportIds rm ! i)"
    using ids_ok_find [OF assms(1), of ir] by simp
  have rm': "rm' = rm\<lparr>rm_reportIds := rm_reportIds rm @ [ir],
      rm_internalMap := (ir, length (rm_reportIds rm)) # rm_internalMap rm\<rparr>"
    using assms(2) None by (auto simp: getInternalId_def Let_def split: if_splits)
  show ?thesis
    using assms(1) new unfolding ids_ok_def Let_def rm'
    by (auto simp: nth_append less_Suc_eq)
next
  case (Some ri)
  then show ?thesis using assms by (auto simp: getInternalId_def split: prod.splits)
qed

lemma ids_ok_renumber [inv_intros]: "ids_ok rm \<Longrightarrow> ids_ok (rm_logicalKeyRenumber rm)"
proof -
  have lkey: "report_eq a (case m of None \<Rightarrow> r | Some k \<Rightarrow> r\<lparr>rp_lkey := k\<rparr>) \<longleftrightarrow> report_eq a r"
    "report_eq (case m of None \<Rightarrow> r | Some k \<Rightarrow> r\<lparr>rp_lkey := k\<rparr>) a \<longleftrightarrow> report_eq r a" for a r m
    by (auto simp: report_eq_def split: option.split)
  show "ids_ok rm \<Longrightarrow> ids_ok (rm_logicalKeyRenumber rm)"
    unfolding ids_ok_def rm_logicalKeyRenumber_def Let_def by (fastforce simp: lkey)
qed

section \<open>The exhaustion keys\<close>

interpretation ekeys: key_table rm_exhaustibleKeys uint getExhaustibleKey
  by unfold_locales (auto simp: getExhaustibleKey_def Let_def)

definition ekeys_ok :: "ReportManager \<Rightarrow> bool" where
  "ekeys_ok rm = (dense_table (rm_exhaustibleKeys rm) \<and> rm_freeEIndex rm \<le> 0
     \<and> (\<forall>k \<in> fst ` set (rm_exhaustibleKeys rm). rm_freeEIndex rm \<le> k))"

lemma ekeys_ok_getExhaustibleKey [inv_intros]:
  assumes "ekeys_ok rm" "getExhaustibleKey a rm = (k, rm')"
  shows "ekeys_ok rm'"
proof (cases "map_of (rm_exhaustibleKeys rm) (uint a)")
  case None
  have "rm_freeEIndex rm \<le> uint a" using assms(1) by (auto simp: ekeys_ok_def intro: order_trans)
  moreover have "dense_table (rm_exhaustibleKeys rm')"
    using ekeys.get_dense [of rm a] assms by (simp add: ekeys_ok_def)
  ultimately show ?thesis
    using assms None by (fastforce simp: ekeys_ok_def getExhaustibleKey_def Let_def)
qed (use assms ekeys.get_known in auto)

lemma ekeys_ok_getUnassociated [inv_intros]:
  assumes "ekeys_ok rm" "getUnassociatedExhaustibleKey rm = (k, rm')"
  shows "ekeys_ok rm'"
proof -
  have "rm_freeEIndex rm - 1 \<notin> fst ` set (rm_exhaustibleKeys rm)"
    using assms(1) by (force simp: ekeys_ok_def)
  then show ?thesis
    using assms dense_table_Cons [of "rm_exhaustibleKeys rm" "rm_freeEIndex rm - 1"]
    by (fastforce simp: ekeys_ok_def getUnassociatedExhaustibleKey_def Let_def)
qed

section \<open>The registered external ids\<close>

definition highlander_ok :: "ReportManager \<Rightarrow> bool" where
  "highlander_ok rm = (distinct (map fst (rm_externalIdMap rm))
     \<and> (rm_global_exhaust rm \<longleftrightarrow> (\<forall>(i, e) \<in> set (rm_externalIdMap rm). eri_highlander e)))"

lemma highlander_ok_registerExtReport [inv_intros]:
  assumes "highlander_ok rm" "registerExtReport i ext rm = Inr rm'"
  shows "highlander_ok rm'"
proof (cases "map_of (rm_externalIdMap rm) i")
  case None
  then have "i \<notin> fst ` set (rm_externalIdMap rm)" by (simp add: map_of_eq_None_iff)
  then show ?thesis
    using assms None by (auto simp: highlander_ok_def registerExtReport_def Let_def split: if_splits)
next
  case (Some eri)
  then have "(i, eri) \<in> set (rm_externalIdMap rm)" by (rule map_of_SomeD)
  then show ?thesis
    using assms Some by (auto simp: highlander_ok_def registerExtReport_def split: if_splits)
qed

lemma registered_highlander:
  assumes "registerExtReport i ext rm = Inr rm'"
  shows "\<exists>eri. map_of (rm_externalIdMap rm') i = Some eri \<and> eri_highlander eri = eri_highlander ext"
  using assms by (auto simp: registerExtReport_def Let_def split: option.splits if_splits)

section \<open>The states of a manager\<close>

text \<open>One step is one call of an operation that changes the manager; the operations that throw
  leave no state behind.  The dedupe keys are assigned once, and the parser of logical
  combinations works on the public field \<open>pl\<close>.\<close>

inductive rm_step :: "nat \<Rightarrow> (nat set \<Rightarrow> bool) \<Rightarrow> ReportManager \<Rightarrow> ReportManager \<Rightarrow> bool"
  for lim dd where
  internal_id: "getInternalId lim ir rm = Inr (i, rm') \<Longrightarrow> rm_step lim dd rm rm'"
| exhaustible_key: "getExhaustibleKey a rm = (k, rm') \<Longrightarrow> rm_step lim dd rm rm'"
| unassociated_key: "getUnassociatedExhaustibleKey rm = (k, rm') \<Longrightarrow> rm_step lim dd rm rm'"
| register: "registerExtReport e ext rm = Inr rm' \<Longrightarrow> rm_step lim dd rm rm'"
| basic_report: "getBasicInternalReport expr adj rm = Inr (r, rm') \<Longrightarrow> rm_step lim dd rm rm'"
| assign_dkeys: "rm_dedupeKey rm = [] \<Longrightarrow> rm_step lim dd rm (assignDkeys dd rm)"
| program_offset: "rm_step lim dd rm (setProgramOffset i off rm)"
| parse_logical: "rm_step lim dd rm (rm\<lparr>rm_pl := pl\<rparr>)"
| renumber: "rm_step lim dd rm (rm_logicalKeyRenumber rm)"

definition rm_ok :: "ReportManager \<Rightarrow> bool" where
  "rm_ok rm = (ids_ok rm \<and> ekeys_ok rm \<and> highlander_ok rm)"

lemma rm_ok_new: "rm_ok (newReportManager pl)"
  by (simp add: rm_ok_def newReportManager_def ids_ok_def ekeys_ok_def highlander_ok_def)

lemma assignDkeys_frame:
  "\<exists>dk. assignDkeys dd rm = rm\<lparr>rm_dedupeKey := dk\<rparr>"
proof -
  have "\<exists>dk. foldl (\<lambda>rm (ext, ids).
         if \<not> dd ids then rm
         else let dkey = length (rm_dedupeKey rm) in
           rm\<lparr>rm_dedupeKey := AList.update ext dkey (rm_dedupeKey rm)\<rparr>) rm xs
      = rm\<lparr>rm_dedupeKey := dk\<rparr>" for xs :: "(u32 \<times> nat set) list" and rm
  proof (induction xs arbitrary: rm)
    case Nil
    show ?case by (rule exI [of _ "rm_dedupeKey rm"]) simp
  next
    case (Cons x xs)
    obtain ext ids where x: "x = (ext, ids)" by fastforce
    show ?case
      using Cons.IH [of rm] Cons.IH [of "rm\<lparr>rm_dedupeKey :=
        AList.update ext (length (rm_dedupeKey rm)) (rm_dedupeKey rm)\<rparr>"]
      by (auto simp: x Let_def)
  qed
  then show ?thesis by (simp add: assignDkeys_def)
qed

lemma ok_frame [simp]:
  "ids_ok (rm\<lparr>rm_dedupeKey := dk\<rparr>) = ids_ok rm" "ekeys_ok (rm\<lparr>rm_dedupeKey := dk\<rparr>) = ekeys_ok rm"
  "highlander_ok (rm\<lparr>rm_dedupeKey := dk\<rparr>) = highlander_ok rm"
  "ids_ok (rm\<lparr>rm_pl := pl\<rparr>) = ids_ok rm" "ekeys_ok (rm\<lparr>rm_pl := pl\<rparr>) = ekeys_ok rm"
  "highlander_ok (rm\<lparr>rm_pl := pl\<rparr>) = highlander_ok rm"
  "ids_ok (rm\<lparr>rm_programOffset := po\<rparr>) = ids_ok rm"
  "ekeys_ok (rm\<lparr>rm_programOffset := po\<rparr>) = ekeys_ok rm"
  "highlander_ok (rm\<lparr>rm_programOffset := po\<rparr>) = highlander_ok rm"
  "ekeys_ok (rm\<lparr>rm_reportIds := ri\<rparr>) = ekeys_ok rm"
  "highlander_ok (rm\<lparr>rm_reportIds := ri\<rparr>) = highlander_ok rm"
  "ekeys_ok (rm\<lparr>rm_internalMap := im\<rparr>) = ekeys_ok rm"
  "highlander_ok (rm\<lparr>rm_internalMap := im\<rparr>) = highlander_ok rm"
  "ids_ok (rm\<lparr>rm_exhaustibleKeys := ek\<rparr>) = ids_ok rm"
  "highlander_ok (rm\<lparr>rm_exhaustibleKeys := ek\<rparr>) = highlander_ok rm"
  "ids_ok (rm\<lparr>rm_freeEIndex := n\<rparr>) = ids_ok rm"
  "highlander_ok (rm\<lparr>rm_freeEIndex := n\<rparr>) = highlander_ok rm"
  "ids_ok (rm\<lparr>rm_externalIdMap := em\<rparr>) = ids_ok rm"
  "ekeys_ok (rm\<lparr>rm_externalIdMap := em\<rparr>) = ekeys_ok rm"
  "ids_ok (rm\<lparr>rm_global_exhaust := g\<rparr>) = ids_ok rm"
  "ekeys_ok (rm\<lparr>rm_global_exhaust := g\<rparr>) = ekeys_ok rm"
  by (simp_all add: ids_ok_def ekeys_ok_def highlander_ok_def)

lemma rm_ok_exhaustible_key [inv_intros]:
  assumes "rm_ok rm" "getExhaustibleKey a rm = (k, rm')"
  shows "rm_ok rm'"
  using assms ekeys_ok_getExhaustibleKey [of rm a k rm']
  by (auto simp: rm_ok_def getExhaustibleKey_def Let_def split: option.splits)

lemma rm_ok_register [inv_intros]:
  assumes "rm_ok rm" "registerExtReport i ext rm = Inr rm'"
  shows "rm_ok rm'"
  using assms highlander_ok_registerExtReport [of rm i ext rm']
  by (auto simp: rm_ok_def registerExtReport_def Let_def split: option.splits if_splits)

lemma getBasicInternalReport_cases:
  assumes "getBasicInternalReport expr adj rm = Inr (r, rm')"
  obtains rm1 where
    "registerExtReport (ei_report expr) \<lparr>eri_highlander = ei_highlander expr,
       eri_first_pattern_index = ei_index expr\<rparr> rm = Inr rm1"
    "if ei_highlander expr then getExhaustibleKey (ei_report expr) rm1 = (rp_ekey r, rm')
     else rp_ekey r = INVALID_EKEY \<and> rm' = rm1"
proof -
  obtain rm1 where rm1: "registerExtReport (ei_report expr) \<lparr>eri_highlander = ei_highlander expr,
       eri_first_pattern_index = ei_index expr\<rparr> rm = Inr rm1"
    and rest: "(let (ekey, rm) = (if ei_highlander expr then getExhaustibleKey (ei_report expr) rm1
                         else (INVALID_EKEY, rm1))
       in Inr (makeECallback (ei_report expr) adj ekey (ei_quiet expr), rm))
       = (Inr (r, rm') :: rm_error + Report \<times> ReportManager)"
    using assms unfolding getBasicInternalReport_def sbind_Inr_iff by (elim exE conjE) (rule that)
  have "if ei_highlander expr then getExhaustibleKey (ei_report expr) rm1 = (rp_ekey r, rm')
     else rp_ekey r = INVALID_EKEY \<and> rm' = rm1"
  proof (cases "ei_highlander expr")
    case True
    obtain k rm2 where k: "getExhaustibleKey (ei_report expr) rm1 = (k, rm2)" by fastforce
    show ?thesis using rest by (auto simp: makeECallback_def True k)
  next
    case False
    show ?thesis using rest by (auto simp: makeECallback_def False)
  qed
  with rm1 show thesis by (rule that)
qed

lemma rm_ok_step:
  assumes "rm_step lim dd rm rm'" "rm_ok rm"
  shows "rm_ok rm'"
  using assms
proof cases
  case (internal_id ir i)
  then show ?thesis
    using assms(2) ids_ok_getInternalId [of rm lim ir i rm']
    by (auto simp: rm_ok_def getInternalId_def Let_def split: option.splits if_splits)
next
  case (unassociated_key k)
  then show ?thesis
    using assms(2) ekeys_ok_getUnassociated [of rm k rm']
    by (auto simp: rm_ok_def getUnassociatedExhaustibleKey_def Let_def)
next
  case (basic_report expr adj r)
  then obtain rm1 where rm1: "registerExtReport (ei_report expr) \<lparr>eri_highlander = ei_highlander expr,
       eri_first_pattern_index = ei_index expr\<rparr> rm = Inr rm1"
    "if ei_highlander expr then getExhaustibleKey (ei_report expr) rm1 = (rp_ekey r, rm')
     else rp_ekey r = INVALID_EKEY \<and> rm' = rm1"
    by (rule getBasicInternalReport_cases)
  have ok: "rm_ok rm1" by (rule rm_ok_register [OF assms(2) rm1(1)])
  show ?thesis
    using rm1(2) ok rm_ok_exhaustible_key [OF ok, of "ei_report expr" "rp_ekey r" rm']
    by (metis (full_types))
next
  case assign_dkeys
  then show ?thesis
    using assms(2) assignDkeys_frame [of dd rm] by (auto simp: rm_ok_def)
next
  case renumber
  then show ?thesis
    using assms(2) ids_ok_renumber [of rm] by (simp add: rm_ok_def rm_logicalKeyRenumber_def Let_def)
next
  case (exhaustible_key a k)
  then show ?thesis using assms(2) rm_ok_exhaustible_key by simp
next
  case (register e ext)
  then show ?thesis using assms(2) rm_ok_register by simp
qed (use assms(2) in \<open>simp_all add: rm_ok_def setProgramOffset_def split: option.split\<close>)

lemma rm_ok_steps:
  assumes "(rm_step lim dd)\<^sup>*\<^sup>* rm rm'" "rm_ok rm"
  shows "rm_ok rm'"
  using assms by induction (auto intro: rm_ok_step)

lemma rm_ok_reachable:
  assumes "(rm_step lim dd)\<^sup>*\<^sup>* (newReportManager pl) rm"
  shows "rm_ok rm"
  using rm_ok_steps [OF assms rm_ok_new] .

text \<open>What one operation keeps of the tables of another.\<close>

lemma op_frames:
  "getExhaustibleKey a rm = (k, rm') \<Longrightarrow>
     rm_reportIds rm' = rm_reportIds rm \<and> rm_externalIdMap rm' = rm_externalIdMap rm"
  "getUnassociatedExhaustibleKey rm = (k, rm') \<Longrightarrow>
     rm_reportIds rm' = rm_reportIds rm \<and> rm_externalIdMap rm' = rm_externalIdMap rm"
  "registerExtReport e ext rm = Inr rm' \<Longrightarrow>
     rm_reportIds rm' = rm_reportIds rm \<and> rm_exhaustibleKeys rm' = rm_exhaustibleKeys rm"
  "getInternalId lim ir rm = Inr (i, rm') \<Longrightarrow>
     rm_externalIdMap rm' = rm_externalIdMap rm \<and> rm_exhaustibleKeys rm' = rm_exhaustibleKeys rm"
  "rm_reportIds (assignDkeys dd rm) = rm_reportIds rm"
  "rm_externalIdMap (assignDkeys dd rm) = rm_externalIdMap rm"
  "rm_exhaustibleKeys (assignDkeys dd rm) = rm_exhaustibleKeys rm"
  "rm_reportIds (setProgramOffset j off rm) = rm_reportIds rm"
  "rm_externalIdMap (setProgramOffset j off rm) = rm_externalIdMap rm"
  "rm_exhaustibleKeys (setProgramOffset j off rm) = rm_exhaustibleKeys rm"
  "rm_externalIdMap (rm_logicalKeyRenumber rm) = rm_externalIdMap rm"
  "rm_exhaustibleKeys (rm_logicalKeyRenumber rm) = rm_exhaustibleKeys rm"
  using assignDkeys_frame [of dd rm]
  by (auto simp: getExhaustibleKey_def getUnassociatedExhaustibleKey_def registerExtReport_def
      getInternalId_def setProgramOffset_def rm_logicalKeyRenumber_def Let_def
      split: option.splits if_splits prod.splits)

lemma register_mono:
  assumes "registerExtReport i ext rm = Inr rm'" "map_of (rm_externalIdMap rm) j = Some e"
  shows "map_of (rm_externalIdMap rm') j = Some e"
  using assms by (auto simp: registerExtReport_def Let_def split: option.splits if_splits)

lemma basic_report_frames:
  assumes "getBasicInternalReport expr adj rm = Inr (r, rm')"
  shows "rm_reportIds rm' = rm_reportIds rm"
    and "map_of (rm_externalIdMap rm) j = Some e \<Longrightarrow> map_of (rm_externalIdMap rm') j = Some e"
    and "map_of (rm_exhaustibleKeys rm) k = Some v \<Longrightarrow> map_of (rm_exhaustibleKeys rm') k = Some v"
    and "\<exists>eri. map_of (rm_externalIdMap rm') (ei_report expr) = Some eri
          \<and> eri_highlander eri = ei_highlander expr"
    and "ei_highlander expr \<Longrightarrow> map_of (rm_exhaustibleKeys rm') (uint (ei_report expr)) = Some (rp_ekey r)"
proof -
  obtain rm1 where rm1: "registerExtReport (ei_report expr) \<lparr>eri_highlander = ei_highlander expr,
       eri_first_pattern_index = ei_index expr\<rparr> rm = Inr rm1"
    "if ei_highlander expr then getExhaustibleKey (ei_report expr) rm1 = (rp_ekey r, rm')
     else rp_ekey r = INVALID_EKEY \<and> rm' = rm1"
    using assms by (rule getBasicInternalReport_cases)
  note reg = op_frames(3) [OF rm1(1)] register_mono [OF rm1(1)] registered_highlander [OF rm1(1)]
  show "rm_reportIds rm' = rm_reportIds rm"
    using rm1(2) reg op_frames(1) by (metis (full_types))
  show "map_of (rm_externalIdMap rm) j = Some e \<Longrightarrow> map_of (rm_externalIdMap rm') j = Some e"
    using rm1(2) reg op_frames(1) by (metis (full_types))
  show "map_of (rm_exhaustibleKeys rm) k = Some v \<Longrightarrow> map_of (rm_exhaustibleKeys rm') k = Some v"
    using rm1(2) reg ekeys.get_mono [where s = rm1 and k = k and v = v and a = "ei_report expr"] by (auto split: if_splits)
  show "\<exists>eri. map_of (rm_externalIdMap rm') (ei_report expr) = Some eri
          \<and> eri_highlander eri = ei_highlander expr"
    using rm1(2) reg op_frames(1) by (auto split: if_splits)
  show "ei_highlander expr \<Longrightarrow> map_of (rm_exhaustibleKeys rm') (uint (ei_report expr)) = Some (rp_ekey r)"
    using rm1(2) ekeys.get_entry [where s = rm1 and a = "ei_report expr"] by simp
qed

lemma step_reports:
  assumes "rm_step lim dd rm rm'" "j < length (rm_reportIds rm)"
  shows "j < length (rm_reportIds rm') \<and> report_eq (rm_reportIds rm' ! j) (rm_reportIds rm ! j)"
  using assms
proof cases
  case (internal_id ir i)
  then show ?thesis
    using assms(2) by (auto simp: getInternalId_def Let_def nth_append split: option.splits if_splits)
next
  case renumber
  then show ?thesis
    using assms(2) by (auto simp: rm_logicalKeyRenumber_def Let_def report_eq_def split: option.split)
qed (use assms(2) op_frames basic_report_frames(1) in auto)

lemma step_external:
  assumes "rm_step lim dd rm rm'" "map_of (rm_externalIdMap rm) i = Some e"
  shows "map_of (rm_externalIdMap rm') i = Some e"
  using assms
proof cases
  case (basic_report expr adj r)
  then show ?thesis using assms(2) basic_report_frames(2) by blast
qed (use assms(2) op_frames register_mono in auto)

lemma step_ekeys:
  assumes "rm_step lim dd rm rm'" "rm_ok rm" "map_of (rm_exhaustibleKeys rm) i = Some e"
  shows "map_of (rm_exhaustibleKeys rm') i = Some e"
  using assms(1)
proof cases
  case (exhaustible_key a k)
  then show ?thesis using assms(3) ekeys.get_mono [where s = rm and k = i and v = e and a = a] by simp
next
  case (unassociated_key k)
  have "i \<noteq> rm_freeEIndex rm - 1"
    using assms(2,3) by (force simp: rm_ok_def ekeys_ok_def dest: map_of_SomeD)
  then show ?thesis
    using unassociated_key assms(3) by (auto simp: getUnassociatedExhaustibleKey_def Let_def)
next
  case (basic_report expr adj r)
  then show ?thesis using assms(3) basic_report_frames(3) by blast
qed (use assms(3) op_frames in auto)

lemma steps_reports:
  assumes "(rm_step lim dd)\<^sup>*\<^sup>* rm rm'" "j < length (rm_reportIds rm)"
  shows "j < length (rm_reportIds rm') \<and> report_eq (rm_reportIds rm' ! j) (rm_reportIds rm ! j)"
  using assms by induction (auto dest: step_reports intro: report_eq_trans)

lemma steps_external:
  assumes "(rm_step lim dd)\<^sup>*\<^sup>* rm rm'" "map_of (rm_externalIdMap rm) i = Some e"
  shows "map_of (rm_externalIdMap rm') i = Some e"
  using assms by induction (auto dest: step_external)

lemma steps_ekeys:
  assumes "(rm_step lim dd)\<^sup>*\<^sup>* rm rm'" "rm_ok rm" "map_of (rm_exhaustibleKeys rm) i = Some e"
  shows "map_of (rm_exhaustibleKeys rm') i = Some e"
  using assms by induction (auto dest: step_ekeys intro: rm_ok_steps)

section \<open>Properties\<close>

lemma getInternalId_result:
  assumes "rm_ok rm" "getInternalId lim ir rm = Inr (i, rm')"
  shows "i < length (rm_reportIds rm') \<and> report_eq ir (rm_reportIds rm' ! i)"
  using assms(2) ids_ok_find [of rm ir] assms(1)
  by (auto simp: getInternalId_def Let_def rm_ok_def split: option.splits if_splits prod.splits)

text \<open>
  C21. Internal ids are the classes of reports equal by \<open>operator==\<close>: two calls of
  \<open>getInternalId\<close>, with any operations of the manager between them, return the same id exactly
  when their reports are equal, and the id leads back to an equal report.
\<close>

theorem internal_id_exact:
  assumes "(rm_step lim dd)\<^sup>*\<^sup>* (newReportManager pl) rm"
    and "getInternalId lim a rm = Inr (i, rm1)"
    and "(rm_step lim dd)\<^sup>*\<^sup>* rm1 rm2"
    and "getInternalId lim b rm2 = Inr (j, rm3)"
  shows "(i = j \<longleftrightarrow> report_eq a b) \<and> report_eq a (getReport rm3 i) \<and> report_eq b (getReport rm3 j)"
proof -
  have steps: "(rm_step lim dd)\<^sup>*\<^sup>* rm1 rm3"
    using assms(3) rm_step.internal_id [OF assms(4), of dd] by (rule rtranclp.rtrancl_into_rtrancl)
  have ok: "rm_ok rm" by (rule rm_ok_reachable [OF assms(1)])
  have ok1: "rm_ok rm1" by (rule rm_ok_step [OF rm_step.internal_id [OF assms(2)] ok])
  have ok2: "rm_ok rm2" by (rule rm_ok_steps [OF assms(3) ok1])
  have ok3: "rm_ok rm3" by (rule rm_ok_steps [OF steps ok1])
  note i = getInternalId_result [OF ok assms(2)]
  have i3: "i < length (rm_reportIds rm3)" "report_eq a (rm_reportIds rm3 ! i)"
    using i steps_reports [OF steps] report_eq_trans report_eq_sym by blast+
  have j3: "j < length (rm_reportIds rm3)" "report_eq b (rm_reportIds rm3 ! j)"
    using getInternalId_result [OF ok2 assms(4)] by simp_all
  have "i = j" if "report_eq a b"
  proof (rule ccontr)
    assume "i \<noteq> j"
    have "report_eq (rm_reportIds rm3 ! i) (rm_reportIds rm3 ! j)"
      using that i3(2) j3(2) report_eq_trans report_eq_sym by blast
    then show False
      using \<open>i \<noteq> j\<close> ok3 i3(1) j3(1) report_eq_sym unfolding rm_ok_def ids_ok_def Let_def
      by (metis nat_neq_iff)
  qed
  moreover have "report_eq a b" if "i = j"
    using that i3(2) j3(2) report_eq_trans report_eq_sym by blast
  ultimately show ?thesis using i3(2) j3(2) by (auto simp: getReport_def)
qed

definition no_logic :: ParsedLogical where
  "no_logic = \<lparr>combInfoMap = [], toCombKeyMap = [], toLogicalKeyMap = [], lkey2ckeys = \<lambda>_. None,
     logicalTree = []\<rparr>"

definition manager_with :: "Report list \<Rightarrow> ReportManager" where
  "manager_with rs = (newReportManager no_logic)\<lparr>rm_reportIds := rs,
     rm_internalMap := rev (zip rs [0..<length rs])\<rparr>"

theorem internal_id_exact_witness:
  "getInternalId 2 (makeCallback 7 0) (manager_with []) = Inr (0, manager_with [makeCallback 7 0])
   \<and> (0 = (0::nat) \<longleftrightarrow> report_eq (makeCallback 7 0) (makeCallback 7 0))"
proof -
  have new: "manager_with [] = newReportManager no_logic"
    by (simp add: manager_with_def newReportManager_def)
  have 1: "getInternalId 2 (makeCallback 7 0) (manager_with []) = Inr (0, manager_with [makeCallback 7 0])"
    by (simp add: getInternalId_def manager_with_def newReportManager_def)
  have 2: "getInternalId 2 (makeCallback 7 0) (manager_with [makeCallback 7 0])
      = Inr (0, manager_with [makeCallback 7 0])"
    by (simp add: getInternalId_def manager_with_def newReportManager_def)
  have "(0 = (0::nat) \<longleftrightarrow> report_eq (makeCallback 7 0) (makeCallback 7 0))"
    using internal_id_exact [OF _ 1 _ 2, of "\<lambda>_. True" no_logic] new by simp
  with 1 show ?thesis by simp
qed

text \<open>
  \<open>getInternalId\<close> fails exactly when the report is new and the configured number of reports
  is reached; the failure leaves no trace, and a known report is found whatever the limit.
\<close>

theorem internal_id_limit:
  assumes "(rm_step lim dd)\<^sup>*\<^sup>* (newReportManager pl) rm"
  shows "getInternalId lim2 ir rm = Inl e \<longleftrightarrow>
    e = ResourceLimitError \<and> lim2 \<le> length (rm_reportIds rm)
    \<and> (\<forall>r \<in> set (rm_reportIds rm). \<not> report_eq ir r)"
proof -
  have "ids_ok rm" using rm_ok_reachable [OF assms] by (simp add: rm_ok_def)
  from ids_ok_find [OF this, of ir] show ?thesis
    by (cases "find (\<lambda>(r, _). report_eq ir r) (rm_internalMap rm)")
      (auto simp: getInternalId_def Let_def all_set_conv_all_nth split: prod.splits)
qed

theorem internal_id_limit_witness:
  "getInternalId 1 (makeCallback 8 0) (manager_with [makeCallback 7 0]) = Inl ResourceLimitError"
proof -
  have new: "manager_with [] = newReportManager no_logic"
    by (simp add: manager_with_def newReportManager_def)
  have "getInternalId 2 (makeCallback 7 0) (manager_with []) = Inr (0, manager_with [makeCallback 7 0])"
    by (simp add: getInternalId_def manager_with_def newReportManager_def)
  then have reach: "(rm_step 2 (\<lambda>_. True))\<^sup>*\<^sup>* (newReportManager no_logic) (manager_with [makeCallback 7 0])"
    unfolding new by (intro r_into_rtranclp rm_step.internal_id)
  show ?thesis
    unfolding internal_id_limit [OF reach]
    by (simp add: manager_with_def report_eq_def makeCallback_def makeECallback_def newReport_def)
qed

text \<open>A quiet report and its loud copy are equal, so the manager keeps only the first of them.\<close>

lemma quiet_reports_share_id:
  assumes "0 < lim"
  shows "\<exists>rm. getInternalId lim (makeECallback r adj k False) (newReportManager pl) = Inr (0, rm)
    \<and> getInternalId lim (makeECallback r adj k True) rm = Inr (0, rm)
    \<and> \<not> rp_quiet (getReport rm 0)"
  using assms
  by (simp add: getInternalId_def newReportManager_def Let_def report_eq_def makeECallback_def
      newReport_def getReport_def)

text \<open>
  C22. Expressions with one external id agree on the single-match flag, and the exhaustion key
  of a single-match report identifies its external id: of two successful calls of
  \<open>getBasicInternalReport\<close>, with any operations between them, equal ids give equal flags and
  equal keys, and with fewer than \<open>2 ^ 32\<close> keys equal keys give equal ids.
\<close>

theorem highlander_keys:
  assumes "(rm_step lim dd)\<^sup>*\<^sup>* (newReportManager pl) rm"
    and "getBasicInternalReport e1 adj1 rm = Inr (r1, rm1)"
    and "(rm_step lim dd)\<^sup>*\<^sup>* rm1 rm2"
    and "getBasicInternalReport e2 adj2 rm2 = Inr (r2, rm3)"
    and "numEkeys rm3 < 2 ^ 32"
  shows "(ei_report e1 = ei_report e2 \<longrightarrow>
            ei_highlander e1 = ei_highlander e2 \<and> rp_ekey r1 = rp_ekey r2)
     \<and> (ei_highlander e1 \<and> ei_highlander e2 \<longrightarrow>
          (rp_ekey r1 = rp_ekey r2 \<longleftrightarrow> ei_report e1 = ei_report e2))"
proof -
  have ok: "rm_ok rm" by (rule rm_ok_reachable [OF assms(1)])
  have ok1: "rm_ok rm1" by (rule rm_ok_step [OF rm_step.basic_report [OF assms(2)] ok])
  have ok2: "rm_ok rm2" by (rule rm_ok_steps [OF assms(3) ok1])
  have ok3: "rm_ok rm3" by (rule rm_ok_step [OF rm_step.basic_report [OF assms(4)] ok2])
  have steps: "(rm_step lim dd)\<^sup>*\<^sup>* rm1 rm3"
    using assms(3) rm_step.basic_report [OF assms(4), of lim dd] by (rule rtranclp.rtrancl_into_rtrancl)
  note e1 = basic_report_frames(4,5) [OF assms(2)] and e2 = basic_report_frames(4,5) [OF assms(4)]
  have hl: "ei_highlander e1 = ei_highlander e2" if "ei_report e1 = ei_report e2"
    using e1(1) e2(1) steps_external [OF steps] that by (metis option.inject)
  have k1: "map_of (rm_exhaustibleKeys rm3) (uint (ei_report e1)) = Some (rp_ekey r1)" if "ei_highlander e1"
    by (rule steps_ekeys [OF steps ok1 e1(2) [OF that]])
  have none: "rp_ekey r1 = INVALID_EKEY" if "\<not> ei_highlander e1"
    by (rule getBasicInternalReport_cases [OF assms(2)]) (use that in simp)
  have none2: "rp_ekey r2 = INVALID_EKEY" if "\<not> ei_highlander e2"
    by (rule getBasicInternalReport_cases [OF assms(4)]) (use that in simp)
  have same: "rp_ekey r1 = rp_ekey r2" if "ei_report e1 = ei_report e2"
    using that hl k1 e2(2) none none2 by (metis option.inject)
  have "ei_report e1 = ei_report e2"
    if "ei_highlander e1" "ei_highlander e2" "rp_ekey r1 = rp_ekey r2"
  proof -
    have "uint (ei_report e1) = uint (ei_report e2)"
      using dense_table_inj [of "rm_exhaustibleKeys rm3"] ok3 k1 e2(2) that assms(5)
      by (simp add: rm_ok_def ekeys_ok_def numEkeys_def)
    then show ?thesis by (metis word_of_int_uint)
  qed
  with hl same show ?thesis by blast
qed

definition example_expr :: "u32 \<Rightarrow> bool \<Rightarrow> ExpressionInfo" where
  "example_expr i hl = \<lparr>ei_index = 0, ei_report = i, ei_allow_vacuous = False, ei_highlander = hl,
     ei_utf8 = False, ei_prefilter = False, ei_som = SOM_NONE, ei_min_offset = 0,
     ei_max_offset = MAX_OFFSET, ei_min_length = 0, ei_edit_distance = 0, ei_hamm_distance = 0,
     ei_quiet = False\<rparr>"

definition example_rm1 :: ReportManager where
  "example_rm1 = (newReportManager no_logic)\<lparr>rm_externalIdMap := [(7, \<lparr>eri_highlander = True,
     eri_first_pattern_index = 0\<rparr>)], rm_exhaustibleKeys := [(7, 0)]\<rparr>"

definition example_rm2 :: ReportManager where
  "example_rm2 = (newReportManager no_logic)\<lparr>rm_externalIdMap := [(9, \<lparr>eri_highlander = True,
     eri_first_pattern_index = 0\<rparr>), (7, \<lparr>eri_highlander = True, eri_first_pattern_index = 0\<rparr>)],
     rm_exhaustibleKeys := [(9, 1), (7, 0)]\<rparr>"

theorem highlander_keys_witness:
  "getBasicInternalReport (example_expr 7 True) 0 (newReportManager no_logic)
     = Inr (makeECallback 7 0 0 False, example_rm1)
   \<and> getBasicInternalReport (example_expr 9 True) 0 example_rm1
     = Inr (makeECallback 9 0 1 False, example_rm2)
   \<and> (rp_ekey (makeECallback 7 0 0 False) = rp_ekey (makeECallback 9 0 1 False) \<longleftrightarrow> (7::u32) = 9)"
proof -
  note defs = example_expr_def example_rm1_def example_rm2_def getBasicInternalReport_def
    registerExtReport_def getExhaustibleKey_def newReportManager_def Let_def
  have 1: "getBasicInternalReport (example_expr 7 True) 0 (newReportManager no_logic)
     = Inr (makeECallback 7 0 0 False, example_rm1)"
    by (simp add: defs)
  have 2: "getBasicInternalReport (example_expr 9 True) 0 example_rm1
     = Inr (makeECallback 9 0 1 False, example_rm2)"
    by (simp add: defs)
  have "(rp_ekey (makeECallback 7 0 0 False) = rp_ekey (makeECallback 9 0 1 False)
      \<longleftrightarrow> (7::u32) = 9)"
    using highlander_keys [OF rtranclp.rtrancl_refl 1 rtranclp.rtrancl_refl 2]
    by (simp add: numEkeys_def example_rm2_def example_expr_def)
  with 1 2 show ?thesis by blast
qed

text \<open>
  The pattern set can exhaust exactly when there is an exhaustion key and every registered
  external id is single-match.
\<close>

theorem pattern_set_exhaust_exact:
  assumes "(rm_step lim dd)\<^sup>*\<^sup>* (newReportManager pl) rm"
  shows "patternSetCanExhaust rm \<longleftrightarrow> numEkeys rm \<noteq> 0
    \<and> (\<forall>(i, e) \<in> set (rm_externalIdMap rm). eri_highlander e)"
  using rm_ok_reachable [OF assms]
  by (auto simp: patternSetCanExhaust_def rm_ok_def highlander_ok_def numEkeys_def)

theorem pattern_set_exhaust_exact_witness:
  "patternSetCanExhaust example_rm1 = True"
proof -
  have 1: "getBasicInternalReport (example_expr 7 True) 0 (newReportManager no_logic)
     = Inr (makeECallback 7 0 0 False, example_rm1)"
    by (simp add: example_expr_def example_rm1_def getBasicInternalReport_def
      registerExtReport_def getExhaustibleKey_def newReportManager_def Let_def)
  have "(rm_step 1 (\<lambda>_. True))\<^sup>*\<^sup>* (newReportManager no_logic) example_rm1"
    by (intro r_into_rtranclp rm_step.basic_report [OF 1])
  from pattern_set_exhaust_exact [OF this] show ?thesis
    by (simp add: numEkeys_def example_rm1_def)
qed

lemma ekeysUnion_fold:
  "foldl (\<lambda>ekeys i. ekeysUnion ekeys (f i)) E rest =
     (if E = {} \<or> INVALID_EKEY \<in> f ` set rest then {} else E \<union> f ` set rest)"
proof (induction rest arbitrary: E)
  case (Cons i rest)
  show ?case
  proof (cases "E = {} \<or> f i = INVALID_EKEY")
    case True
    then have "ekeysUnion E (f i) = {}" by (auto simp: ekeysUnion_def)
    then show ?thesis using True by (auto simp: Cons.IH)
  next
    case False
    then have "ekeysUnion E (f i) = insert (f i) E" by (simp add: ekeysUnion_def)
    then show ?thesis using False by (auto simp: Cons.IH)
  qed
qed simp

text \<open>
  A set of reports is exhaustible only as a whole: \<open>reportsToEkeys\<close> gives the exhaustion
  keys of the reports when every one of them has a key, and no key otherwise.
\<close>

theorem reports_to_ekeys_exact:
  "reportsToEkeys (i # rest) rm =
     (let ks = (\<lambda>i. rp_ekey (getReport rm i)) ` set (i # rest) in
      if INVALID_EKEY \<in> ks then {} else ks)"
  by (auto simp: reportsToEkeys_def Let_def ekeysUnion_fold)

section \<open>The dedupe keys\<close>

text \<open>A table of dedupe keys: distinct external ids numbered by position.\<close>

definition dkeys_ok :: "(u32 \<times> nat) list \<Rightarrow> bool" where
  "dkeys_ok t = (distinct (map fst t) \<and> map snd t = [0..<length t])"

lemma AList_update_new: "k \<notin> fst ` set t \<Longrightarrow> AList.update k v t = t @ [(k, v)]"
  by (induction t) auto

lemma dkeys_ok_update:
  assumes "dkeys_ok t" "k \<notin> fst ` set t"
  shows "dkeys_ok (AList.update k (length t) t)"
  using assms by (simp add: AList_update_new dkeys_ok_def)

lemma assign_fold:
  assumes "dkeys_ok (rm_dedupeKey rm)" "distinct (map fst xs)"
    "fst ` set xs \<inter> fst ` set (rm_dedupeKey rm) = {}"
  shows "\<exists>dk. foldl (\<lambda>rm (ext, ids). if \<not> dd ids then rm
         else let dkey = length (rm_dedupeKey rm) in
           rm\<lparr>rm_dedupeKey := AList.update ext dkey (rm_dedupeKey rm)\<rparr>) rm xs
      = rm\<lparr>rm_dedupeKey := dk\<rparr> \<and> dkeys_ok dk
      \<and> fst ` set dk = fst ` set (rm_dedupeKey rm) \<union> {e. \<exists>ids. (e, ids) \<in> set xs \<and> dd ids}"
  using assms
proof (induction xs arbitrary: rm)
  case Nil
  show ?case by (rule exI [of _ "rm_dedupeKey rm"]) (use Nil in simp)
next
  case (Cons x xs)
  obtain ext ids where x: "x = (ext, ids)" by fastforce
  define rm1 where "rm1 = (if \<not> dd ids then rm else rm\<lparr>rm_dedupeKey :=
    AList.update ext (length (rm_dedupeKey rm)) (rm_dedupeKey rm)\<rparr>)"
  have new: "ext \<notin> fst ` set (rm_dedupeKey rm)" using Cons.prems(3) x by auto
  have dom1: "fst ` set (rm_dedupeKey rm1) =
      fst ` set (rm_dedupeKey rm) \<union> (if dd ids then {ext} else {})"
    by (auto simp: rm1_def AList_update_new [OF new])
  have prem: "dkeys_ok (rm_dedupeKey rm1)" "distinct (map fst xs)"
    "fst ` set xs \<inter> fst ` set (rm_dedupeKey rm1) = {}"
    using Cons.prems dkeys_ok_update [OF _ new] unfolding dom1 by (auto simp: rm1_def x)
  from Cons.IH [OF this] obtain dk where dk:
    "foldl (\<lambda>rm (ext, ids). if \<not> dd ids then rm
         else let dkey = length (rm_dedupeKey rm) in
           rm\<lparr>rm_dedupeKey := AList.update ext dkey (rm_dedupeKey rm)\<rparr>) rm1 xs = rm1\<lparr>rm_dedupeKey := dk\<rparr>"
    "dkeys_ok dk"
    "fst ` set dk = fst ` set (rm_dedupeKey rm1) \<union> {e. \<exists>ids. (e, ids) \<in> set xs \<and> dd ids}"
    by blast
  have "rm1\<lparr>rm_dedupeKey := dk\<rparr> = rm\<lparr>rm_dedupeKey := dk\<rparr>" by (simp add: rm1_def)
  then show ?case
    using dk unfolding dom1 by (intro exI [of _ dk]) (auto simp: x rm1_def Let_def)
qed

lemma ext_to_int_fst: "distinct (map fst (ext_to_int rm))"
  by (simp add: ext_to_int_def Let_def comp_def)

lemma ext_to_int_iff:
  "(e, ids) \<in> set (ext_to_int rm) \<longleftrightarrow>
     ids = {i. i < length (rm_reportIds rm) \<and> isExternalReport (rm_reportIds rm ! i)
        \<and> rp_onmatch (rm_reportIds rm ! i) = e} \<and> ids \<noteq> {}"
  by (auto simp: ext_to_int_def Let_def)

lemma table_fold:
  assumes "map snd t = [0..<length t]"
  shows "foldl (\<lambda>rv (ext, dkey). rv[dkey := ext]) (replicate (length t) 0) t = map fst t"
proof -
  have "foldl (\<lambda>rv (ext, dkey). rv[dkey := ext]) (replicate (length t) 0) (take n t)
      = map fst (take n t) @ replicate (length t - n) 0" if "n \<le> length t" for n
    using that
  proof (induction n)
    case (Suc n)
    then have n: "n < length t" by simp
    have "snd (t ! n) = n" using arg_cong [OF assms, of "\<lambda>l. l ! n"] n by simp
    moreover have "take (Suc n) t = take n t @ [t ! n]" by (rule take_Suc_conv_app_nth [OF n])
    moreover have "length t - n = Suc (length t - Suc n)" using n by simp
    ultimately show ?case
      using Suc n by (simp add: case_prod_beta list_update_append)
  qed simp
  from this [of "length t"] show ?thesis by simp
qed

text \<open>
  C23. \<open>assignDkeys\<close> numbers the external ids that need it densely from 0: an external report
  has a dedupe key exactly when the set of internal ids of its external id requires support,
  keys are below \<open>numDkeys\<close>, and \<open>getDkeyToReportTable\<close> leads from a key back to the external id.
\<close>

theorem dkeys_exact:
  assumes "rm_dedupeKey rm = []" "i < length (rm_reportIds rm)"
    and "rm' = assignDkeys requiresDedupeSupport rm" "r = rm_reportIds rm ! i"
  shows "case getDkey rm' r of
      None \<Rightarrow> \<not> isExternalReport r \<or> \<not> requiresDedupeSupport
          {j. j < length (rm_reportIds rm) \<and> isExternalReport (rm_reportIds rm ! j)
              \<and> rp_onmatch (rm_reportIds rm ! j) = rp_onmatch r}
    | Some d \<Rightarrow> isExternalReport r \<and> requiresDedupeSupport
          {j. j < length (rm_reportIds rm) \<and> isExternalReport (rm_reportIds rm ! j)
              \<and> rp_onmatch (rm_reportIds rm ! j) = rp_onmatch r}
        \<and> d < numDkeys rm' \<and> getDkeyToReportTable rm' ! d = rp_onmatch r"
proof -
  obtain dk where dk: "rm' = rm\<lparr>rm_dedupeKey := dk\<rparr>" "dkeys_ok dk"
    "fst ` set dk = {e. \<exists>ids. (e, ids) \<in> set (ext_to_int rm) \<and> requiresDedupeSupport ids}"
    using assign_fold [of rm "ext_to_int rm" requiresDedupeSupport] assms(1,3)
    by (auto simp: assignDkeys_def ext_to_int_fst dkeys_ok_def)
  have tab: "getDkeyToReportTable rm' = map fst dk"
    using table_fold [of dk] dk(2) by (simp add: getDkeyToReportTable_def dk(1) dkeys_ok_def)
  have inverse: "d < length dk \<and> map fst dk ! d = e" if some: "map_of dk e = Some d" for e d
  proof -
    obtain n where n: "n < length dk" "dk ! n = (e, d)"
      using map_of_SomeD [OF some] by (auto simp: in_set_conv_nth)
    moreover have "map snd dk ! n = [0..<length dk] ! n" using dk(2) by (simp add: dkeys_ok_def)
    ultimately show ?thesis by simp
  qed
  have dom: "map_of dk (rp_onmatch r) = None \<longleftrightarrow> \<not> requiresDedupeSupport
          {j. j < length (rm_reportIds rm) \<and> isExternalReport (rm_reportIds rm ! j)
              \<and> rp_onmatch (rm_reportIds rm ! j) = rp_onmatch r}" if "isExternalReport r"
    unfolding map_of_eq_None_iff dk(3) using that assms(2,4) by (auto simp: ext_to_int_iff)
  show ?thesis
    using inverse [of "rp_onmatch r"] dom tab
    by (auto simp: getDkey_def dk(1) numDkeys_def split: option.split)
qed

theorem dkeys_exact_witness:
  "getDkey (assignDkeys (\<lambda>_. True) (manager_with [makeCallback 7 0])) (makeCallback 7 0) = Some 0
   \<and> getDkeyToReportTable (assignDkeys (\<lambda>_. True) (manager_with [makeCallback 7 0])) ! 0 = 7"
proof -
  have 1: "rm_dedupeKey (manager_with [makeCallback 7 0]) = []"
    "0 < length (rm_reportIds (manager_with [makeCallback 7 0]))"
    "rm_reportIds (manager_with [makeCallback 7 0]) = [makeCallback 7 0]"
    by (simp_all add: manager_with_def newReportManager_def)
  have 2: "getDkey (assignDkeys (\<lambda>_. True) (manager_with [makeCallback 7 0])) (makeCallback 7 0) = Some 0"
    by (simp add: assignDkeys_def ext_to_int_def manager_with_def newReportManager_def getDkey_def
      Let_def makeCallback_def makeECallback_def newReport_def isExternalReport_def)
  show ?thesis
    using dkeys_exact [OF 1(1,2) refl refl, of "\<lambda>_. True"] 2
    by (simp add: 1(3)) (simp add: makeCallback_def makeECallback_def newReport_def)
qed

end
