(* ===== verification/RdfaMerge.thy ===== *)
theory RdfaMerge
  imports CharReach DfaMin Determinise Reports "HOL-Library.Multiset" "HOL-Library.List_Lexorder" "HOL-Library.While_Combinator"
begin

text \<open>
  Merging raw DFAs: \<open>src/nfa/rdfa_merge.cpp\<close>, with the alphabet construction
  \<open>buildAlphabetFromEquivSets\<close> and the transition tables of \<open>src/nfagraph/ng_mcclellan.cpp\<close>.
  A state set is the list of the states of the component DFAs.  The fields of \<open>Grey\<close> the code
  reads, \<open>highlanderPruneDFA\<close> and \<open>minimizeDFA\<close>, are arguments; the report manager pointer is an
  option.  The indexed loop of \<open>calculateAlphabet\<close>, which appends to the vector it walks, is a
  \<open>while_option\<close>: its value is \<open>None\<close> if it does not end.
\<close>

section \<open>Alphabets (\<open>ng_mcclellan.cpp\<close>)\<close>

definition build_class ::
  "nat \<times> nat list \<times> nat list \<Rightarrow> CharReach \<Rightarrow> nat \<times> nat list \<times> nat list" where
  "build_class st cr =
     (let (i, alpha, unalpha) = st
      in (i + 1, foldl (\<lambda>alpha s. alpha[s := i]) alpha (cr_indices cr), unalpha[i := cr_find_first cr]))"

text \<open>The arrays \<open>alpha\<close> and \<open>unalpha\<close> are filled in place; the result starts with the size.\<close>

definition buildAlphabetFromEquivSets ::
  "CharReach list \<Rightarrow> nat list \<Rightarrow> nat list \<Rightarrow> nat \<times> nat list \<times> nat list" where
  "buildAlphabetFromEquivSets esets alpha unalpha =
     foldl (\<lambda>(i, alpha, unalpha) j. (i + 1, alpha[j := i], unalpha[i := j]))
       (foldl build_class (0, alpha, unalpha) esets) [N_CHARS..<ALPHABET_SIZE]"

definition successor :: "dstate list \<Rightarrow> dstate_id_t \<Rightarrow> nat list \<Rightarrow> symbol_t \<Rightarrow> dstate_id_t" where
  "successor dstates c alpha s = ds_next (dstates ! c) ! (alpha ! s)"

definition getFullTransitionFromState :: "raw_dfa \<Rightarrow> dstate_id_t \<Rightarrow> dstate_id_t list" where
  "getFullTransitionFromState n state =
     map (successor (rd_states n) state (rd_alpha_remap n)) [0..<ALPHABET_SIZE]"

section \<open>The automaton of a merge\<close>

type_synonym StateSet = "nat list"

record Automaton_Merge =
  am_rm :: "ReportManager option"
  am_highlanderPruneDFA :: bool
  am_nfas :: "raw_dfa list"
  am_as :: StateSet
  am_fs :: StateSet
  am_prunable :: bool
  am_alpha :: "nat list"
  am_unalpha :: "nat list"
  am_alphasize :: nat
  am_dead :: StateSet
  am_start_anchored :: dstate_id_t
  am_start_floating :: dstate_id_t

definition am_empty :: "ReportManager option \<Rightarrow> bool \<Rightarrow> raw_dfa list \<Rightarrow> Automaton_Merge" where
  "am_empty rm_in highlanderPruneDFA dfas =
     \<lparr>am_rm = rm_in, am_highlanderPruneDFA = highlanderPruneDFA, am_nfas = dfas, am_as = [], am_fs = [],
      am_prunable = False, am_alpha = replicate ALPHABET_SIZE 0, am_unalpha = replicate ALPHABET_SIZE 0,
      am_alphasize = 0, am_dead = replicate (length dfas) 0, am_start_anchored = 0,
      am_start_floating = 0\<rparr>"

definition populateAsFs :: "Automaton_Merge \<Rightarrow> Automaton_Merge" where
  "populateAsFs m =
     (let as = map rd_start_anchored (am_nfas m);
          fs = map rd_start_floating (am_nfas m);
          fs_same = list_all (\<lambda>i. as ! i = fs ! i) [0..<length (am_nfas m)];
          fs_dead = list_all (\<lambda>i. fs ! i = 0) [0..<length (am_nfas m)];
          start_anchored = DEAD_STATE + 1
      in m\<lparr>am_as := as, am_fs := fs, am_start_anchored := start_anchored,
           am_start_floating := (if fs_same then start_anchored
                                 else if fs_dead then DEAD_STATE
                                 else start_anchored + 1)\<rparr>)"

text \<open>One round of the loop over the equivalence sets; \<open>leader_s\<close> is a \<open>u8\<close>.\<close>

definition eset_others :: "nat list \<Rightarrow> CharReach \<Rightarrow> CharReach" where
  "eset_others alpha_remap eset =
     (let leader_s = alpha_remap ! cr_find_first eset mod 256
      in foldl (\<lambda>t s. if alpha_remap ! s \<noteq> leader_s then cr_set t (of_nat s) else t) cr_empty
           (cr_indices eset))"

definition eset_round :: "nat list \<Rightarrow> nat \<times> CharReach list \<Rightarrow> nat \<times> CharReach list" where
  "eset_round alpha_remap st =
     (let (i, esets) = st in
      if cr_count (esets ! i) = 1 then (i + 1, esets)
      else let t = eset_others alpha_remap (esets ! i) in
        if cr_any t \<and> t \<noteq> esets ! i
        then (i + 1, esets[i := cr_and (esets ! i) (cr_not t)] @ [t])
        else (i + 1, esets))"

definition eset_loop :: "nat list \<Rightarrow> CharReach list \<Rightarrow> CharReach list option" where
  "eset_loop alpha_remap esets =
     map_option snd (while_option (\<lambda>(i, esets). i < length esets) (eset_round alpha_remap) (0, esets))"

fun esets_of :: "raw_dfa list \<Rightarrow> CharReach list \<Rightarrow> CharReach list option" where
  "esets_of [] esets = Some esets"
| "esets_of (rdfa # nfas) esets = Option.bind (eset_loop (rd_alpha_remap rdfa) esets) (esets_of nfas)"

definition merge_calculateAlphabet :: "Automaton_Merge \<Rightarrow> Automaton_Merge option" where
  "merge_calculateAlphabet m =
     map_option (\<lambda>esets.
         let (alphasize, alpha, unalpha) = buildAlphabetFromEquivSets (sort esets) (am_alpha m) (am_unalpha m)
         in m\<lparr>am_alphasize := alphasize, am_alpha := alpha, am_unalpha := unalpha\<rparr>)
       (esets_of (am_nfas m) [cr_dot])"

text \<open>The loop over the merged reports, which an ordered set lists in ascending order.\<close>

fun same_ekey :: "ReportManager \<Rightarrow> ReportID list \<Rightarrow> u32 \<Rightarrow> bool" where
  "same_ekey rm [] ekey = True"
| "same_ekey rm (report_id # rest) ekey =
     (let r = getReport rm report_id in
      if \<not> isSimpleExhaustible r then False
      else if ekey = INVALID_EKEY then same_ekey rm rest (rp_ekey r)
      else if ekey \<noteq> rp_ekey r then False
      else same_ekey rm rest ekey)"

definition isPrunable :: "Automaton_Merge \<Rightarrow> bool" where
  "isPrunable m =
     (case am_rm m of
        None \<Rightarrow> False
      | Some rm \<Rightarrow>
          if \<not> am_highlanderPruneDFA m then False
          else if \<not> generates_callbacks (rd_kind (hd (am_nfas m))) then False
          else same_ekey rm (sorted_list_of_set (\<Union>rdfa \<in> set (am_nfas m). all_reports rdfa)) INVALID_EKEY)"

definition new_Automaton_Merge ::
  "ReportManager option \<Rightarrow> bool \<Rightarrow> raw_dfa list \<Rightarrow> Automaton_Merge option" where
  "new_Automaton_Merge rm_in highlanderPruneDFA dfas =
     map_option (\<lambda>m. let m = populateAsFs m in m\<lparr>am_prunable := isPrunable m\<rparr>)
       (merge_calculateAlphabet (am_empty rm_in highlanderPruneDFA dfas))"

definition merge_transition :: "Automaton_Merge \<Rightarrow> StateSet \<Rightarrow> StateSet list" where
  "merge_transition m S =
     map (\<lambda>i. map (\<lambda>j. getFullTransitionFromState (am_nfas m ! j) (S ! j) ! (am_unalpha m ! i))
                [0..<length (am_nfas m)])
       [0..<am_alphasize m]"

definition merge_initial :: "Automaton_Merge \<Rightarrow> StateSet list" where
  "merge_initial m =
     am_as m # (if am_start_floating m \<noteq> DEAD_STATE \<and> am_start_floating m \<noteq> am_start_anchored m
                then [am_fs m] else [])"

definition reports_i :: "Automaton_Merge \<Rightarrow> (dstate \<Rightarrow> ReportID set) \<Rightarrow> StateSet \<Rightarrow> ReportID set" where
  "reports_i m r_set S =
     foldl (\<lambda>r i. r \<union> r_set (rd_states (am_nfas m ! i) ! (S ! i))) {} [0..<length (am_nfas m)]"

definition canPrune :: "Automaton_Merge \<Rightarrow> ReportID set \<Rightarrow> bool" where
  "canPrune m test_reports =
     (if \<not> am_highlanderPruneDFA m \<or> \<not> am_prunable m then False
      else (case am_rm m of
              None \<Rightarrow> False
            | Some rm \<Rightarrow> \<forall>report_id \<in> test_reports. isExternalReport (getReport rm report_id)))"

definition Automaton_of :: "Automaton_Merge \<Rightarrow> StateSet automaton" where
  "Automaton_of m =
     \<lparr>au_dead = am_dead m, au_initial = merge_initial m, au_reports = reports_i m ds_reports,
      au_reportsEod = reports_i m ds_reports_eod, au_canPrune = canPrune m,
      au_transition = merge_transition m, au_alphasize = am_alphasize m, au_alpha = am_alpha m,
      au_unalpha = am_unalpha m\<rparr>"

text \<open>The reports of a DFA are inserted one by one until one is seen already.\<close>

fun seen_twice :: "ReportID set \<Rightarrow> raw_dfa list \<Rightarrow> bool" where
  "seen_twice seen [] = False"
| "seen_twice seen (rdfa # rest) =
     (if all_reports rdfa \<inter> seen \<noteq> {} then True else seen_twice (seen \<union> all_reports rdfa) rest)"

definition shouldMinimize :: "Automaton_Merge \<Rightarrow> bool" where
  "shouldMinimize m = seen_twice {} (am_nfas m)"

section \<open>Merging\<close>

definition MAX_DFA_STATES :: nat where
  "MAX_DFA_STATES = 16383"

text \<open>
  The outer option is termination, the inner one the null pointer of an exceeded state limit.
\<close>

definition merged_dfa :: "nfa_kind \<Rightarrow> Automaton_Merge \<Rightarrow> dstate list \<Rightarrow> raw_dfa" where
  "merged_dfa kind m states =
     \<lparr>rd_kind = kind, rd_states = states, rd_start_anchored = am_start_anchored m,
      rd_start_floating = am_start_floating m, rd_alpha_size = am_alphasize m,
      rd_alpha_remap = am_alpha m\<rparr>"

definition mergeAllDfas ::
  "ReportManager option \<Rightarrow> bool \<Rightarrow> bool \<Rightarrow> nat \<Rightarrow> raw_dfa list \<Rightarrow> raw_dfa option option" where
  "mergeAllDfas rm highlanderPruneDFA minimizeDFA max_states dfas =
     Option.bind (new_Automaton_Merge rm highlanderPruneDFA dfas) (\<lambda>n.
       Option.bind (determinise [] (Automaton_of n) max_states) (\<lambda>res.
         case res of
           None \<Rightarrow> Some None
         | Some (states, _) \<Rightarrow>
             let rdfa = merged_dfa (rd_kind (hd dfas)) n states in
             if shouldMinimize n then map_option Some (minimize_hopcroft minimizeDFA rdfa)
             else Some (Some rdfa)))"

definition mergeTwoDfas ::
  "ReportManager option \<Rightarrow> bool \<Rightarrow> bool \<Rightarrow> nat \<Rightarrow> raw_dfa \<Rightarrow> raw_dfa \<Rightarrow> raw_dfa option option" where
  "mergeTwoDfas rm highlanderPruneDFA minimizeDFA max_states d1 d2 =
     Option.bind (new_Automaton_Merge rm highlanderPruneDFA [d1, d2]) (\<lambda>autom.
       Option.bind (determinise [] (Automaton_of autom) max_states) (\<lambda>res.
         case res of
           None \<Rightarrow> Some None
         | Some (states, _) \<Rightarrow>
             let rdfa = merged_dfa (rd_kind d1) autom states in
             if shouldMinimize autom then map_option Some (minimize_hopcroft minimizeDFA rdfa)
             else Some (Some rdfa)))"

text \<open>The queue, front first, and the output list; each round takes one DFA off the queue.\<close>

function merge_queue ::
  "(raw_dfa \<Rightarrow> raw_dfa \<Rightarrow> raw_dfa option option) \<Rightarrow> raw_dfa list \<Rightarrow> raw_dfa list \<Rightarrow> raw_dfa list option" where
  "merge_queue mergeTwo (d1 # d2 # q) dfas =
     Option.bind (mergeTwo d1 d2) (\<lambda>res.
       case res of
         Some rdfa \<Rightarrow> merge_queue mergeTwo (q @ [rdfa]) dfas
       | None \<Rightarrow>
           if length (rd_states d2) > length (rd_states d1)
           then merge_queue mergeTwo (q @ [d1]) (dfas @ [d2])
           else merge_queue mergeTwo (q @ [d2]) (dfas @ [d1]))"
| "merge_queue mergeTwo [d] dfas = Some (dfas @ [d])"
| "merge_queue mergeTwo [] dfas = Some dfas"
  by pat_completeness auto
termination by (relation "measure (\<lambda>(_, q, _). length q)") auto

definition mergeDfas ::
  "ReportManager option \<Rightarrow> bool \<Rightarrow> bool \<Rightarrow> nat \<Rightarrow> raw_dfa list \<Rightarrow> raw_dfa list option" where
  "mergeDfas rm highlanderPruneDFA minimizeDFA max_states dfas =
     (if length dfas \<le> 1 then Some dfas
      else merge_queue (mergeTwoDfas rm highlanderPruneDFA minimizeDFA max_states) dfas [])"

section \<open>The common alphabet\<close>

text \<open>
  A list of classes partitions the characters: \<open>g\<close> gives each character the place of its class.
\<close>

definition cls_of :: "CharReach list \<Rightarrow> (u8 \<Rightarrow> nat) \<Rightarrow> bool" where
  "cls_of es g = ((\<forall>c. g c < length es)
     \<and> (\<forall>k < length es. cr_inv (es ! k) \<and> chars (es ! k) = {c. g c = k} \<and> (\<exists>c. g c = k)))"

lemma cls_of_length:
  assumes "cls_of es g"
  shows "length es \<le> 256"
proof -
  have "\<exists>c. k = g c" if "k < length es" for k using assms that by (auto simp: cls_of_def)
  then have "{..<length es} \<subseteq> range g" by (auto simp: image_iff)
  then have "card {..<length es} \<le> card (range g)" by (intro card_mono) auto
  also have "\<dots> \<le> card (UNIV :: u8 set)" by (rule card_image_le) simp
  finally show ?thesis by (simp add: card_word)
qed

lemma cls_of_nth:
  assumes "cls_of es g" "k < length es"
  shows "cr_inv (es ! k)" "chars (es ! k) = {c. g c = k}" "\<exists>c. g c = k"
  using assms by (auto simp: cls_of_def)

lemma cls_of_dot: "cls_of [cr_dot] (\<lambda>_. 0)"
  by (auto simp: cls_of_def cr_dot_def cr_range_simps intro: cr_range_inv)

lemma cls_of_permute:
  assumes cls: "cls_of es g" and perm: "mset es' = mset es"
  shows "\<exists>g'. cls_of es' g' \<and> (\<forall>c d. g' c = g' d \<longleftrightarrow> g c = g d)"
proof -
  have inj: "i = j" if "i < length es" "j < length es" "es ! i = es ! j" for i j
    using cls_of_nth [OF cls that(1)] cls_of_nth [OF cls that(2)] that(3) by auto
  then have "distinct es" by (auto simp: distinct_conv_nth)
  then have dist: "distinct es'" using perm by (metis mset_eq_imp_distinct_iff)
  have set: "set es' = set es" using perm by (rule mset_eq_setD)
  have len: "length es' = length es" using perm by (rule mset_eq_length)
  have "\<exists>k. k < length es' \<and> es' ! k = es ! g c" for c
  proof -
    have "g c < length es" using cls by (simp add: cls_of_def)
    then have "es ! g c \<in> set es'" using set by simp
    then show ?thesis by (auto simp: in_set_conv_nth)
  qed
  then obtain g' where g': "\<And>c. g' c < length es' \<and> es' ! g' c = es ! g c" by metis
  have eq: "g' c = g' d \<longleftrightarrow> g c = g d" for c d
    using g' [of c] g' [of d] inj dist cls unfolding cls_of_def by (metis nth_eq_iff_index_eq)
  have "cr_inv (es' ! k) \<and> chars (es' ! k) = {c. g' c = k} \<and> (\<exists>c. g' c = k)" if k: "k < length es'" for k
  proof -
    obtain j where j: "j < length es" "es ! j = es' ! k" using set k by (metis in_set_conv_nth)
    note nth = cls_of_nth [OF cls j(1)]
    from nth(3) obtain d where d: "g d = j" by blast
    have gd: "g' d = k" using g' [of d] d j(2) k dist by (metis nth_eq_iff_index_eq)
    have "chars (es' ! k) = {c. g' c = k}"
      using nth(2) d gd eq by (auto simp: j(2) [symmetric])
    then show ?thesis using nth(1) gd by (auto simp: j(2))
  qed
  with g' eq show ?thesis by (intro exI [of _ g']) (auto simp: cls_of_def)
qed

text \<open>One round of the refinement.\<close>

lemma eset_others_fold:
  assumes "cr_inv t" "\<forall>s \<in> set is. s < 256"
  shows "cr_inv (foldl (\<lambda>t s. if f s \<noteq> (l :: nat) then cr_set t (of_nat s) else t) t is)
    \<and> chars (foldl (\<lambda>t s. if f s \<noteq> l then cr_set t (of_nat s) else t) t is)
      = chars t \<union> {c. unat c \<in> set is \<and> f (unat c) \<noteq> l}"
  using assms
proof (induction "is" arbitrary: t)
  case (Cons s js)
  have s: "unat (of_nat s :: u8) = s" using Cons.prems(2) by (simp add: unat_of_nat_u8)
  have "cr_inv (if f s \<noteq> l then cr_set t (of_nat s) else t)"
    using Cons.prems(1) by (simp add: cr_inv_intros)
  moreover have "chars (if f s \<noteq> l then cr_set t (of_nat s) else t)
      = chars t \<union> {c. unat c = s \<and> f s \<noteq> l}"
    using s Cons.prems(1) by (auto simp: chars_simps)
  ultimately show ?case using Cons.IH Cons.prems(2) by auto
qed simp

lemma find_first_chars:
  assumes "cr_inv e" "chars e \<noteq> {}"
  shows "\<exists>c \<in> chars e. cr_find_first e = unat c"
proof -
  have "bf_bits e \<noteq> {}" using assms by (simp add: cr_bits_chars)
  moreover have "cr_find_first e = least_or cr_npos (bf_bits e)" by (rule cr.first_least [OF assms(1)])
  moreover have "finite (bf_bits e)" by (rule cr.finite_elems [OF assms(1)])
  ultimately have "cr_find_first e \<in> bf_bits e" by (simp add: least_or_def)
  then show ?thesis using cr_bits_chars [OF assms(1)] by auto
qed

lemma eset_others_chars:
  assumes e: "cr_inv e" "chars e \<noteq> {}" and f: "\<forall>c :: u8. alpha_remap ! unat c < 256"
  obtains l where "l \<in> chars e" "cr_inv (eset_others alpha_remap e)"
    "chars (eset_others alpha_remap e) = {c \<in> chars e. alpha_remap ! unat c \<noteq> alpha_remap ! unat l}"
proof -
  obtain l where l: "l \<in> chars e" "cr_find_first e = unat l" using find_first_chars [OF e] by blast
  have "\<forall>s \<in> set (cr_indices e). s < 256"
    using set_cr_indices [OF e(1)] by (auto simp: cr_npos_def [symmetric])
  from eset_others_fold [OF _ this, of cr_empty "\<lambda>s. alpha_remap ! s" "alpha_remap ! unat l"]
  show ?thesis
    using l f set_cr_indices [OF e(1)]
    by (intro that [of l])
      (auto simp: eset_others_def Let_def cr_inv_intros chars_simps inj_image_mem_iff [OF inj_unat_u8])
qed

lemma eset_round_cls:
  assumes f: "\<forall>c :: u8. remap ! unat c < 256"
    and cls: "cls_of es g" and i: "i < length es"
    and prev: "\<forall>c d. g c = g d \<and> g c < i \<longrightarrow> remap ! unat c = remap ! unat d"
  shows "\<exists>es' g'. eset_round remap (i, es) = (i + 1, es') \<and> cls_of es' g' \<and> i + 1 \<le> length es'
    \<and> (\<forall>c d. g' c = g' d \<and> g' c < i + 1 \<longrightarrow> remap ! unat c = remap ! unat d)
    \<and> (\<forall>c d. g' c = g' d \<longrightarrow> g c = g d)
    \<and> (\<forall>c d. g c = g d \<and> remap ! unat c = remap ! unat d \<longrightarrow> g' c = g' d)"
proof -
  note ei = cls_of_nth [OF cls i]
  have ne: "chars (es ! i) \<noteq> {}" using ei(2,3) by auto
  have whole: ?thesis if round: "eset_round remap (i, es) = (i + 1, es)"
    and uni: "\<forall>c \<in> chars (es ! i). \<forall>d \<in> chars (es ! i). remap ! unat c = remap ! unat d"
  proof (intro exI [of _ es] exI [of _ g] conjI)
    show "\<forall>c d. g c = g d \<and> g c < i + 1 \<longrightarrow> remap ! unat c = remap ! unat d"
    proof (intro allI impI)
      fix c d
      assume cd: "g c = g d \<and> g c < i + 1"
      show "remap ! unat c = remap ! unat d"
      proof (cases "g c = i")
        case True
        then have "c \<in> chars (es ! i)" "d \<in> chars (es ! i)" using cd ei(2) by simp_all
        then show ?thesis using uni by blast
      next
        case False
        then have "g c < i" using cd by simp
        then show ?thesis using prev cd by blast
      qed
    qed
  qed (use round cls i in auto)
  obtain l where l: "l \<in> chars (es ! i)" and t: "cr_inv (eset_others remap (es ! i))"
    "chars (eset_others remap (es ! i)) = {c \<in> chars (es ! i). remap ! unat c \<noteq> remap ! unat l}"
    using eset_others_chars [OF ei(1) ne f] by blast
  define t where "t = eset_others remap (es ! i)"
  note t = t [folded t_def]
  have "t \<noteq> es ! i" using l t(2) by auto
  consider (one) "cr_count (es ! i) = 1" | (none) "cr_count (es ! i) \<noteq> 1" "chars t = {}"
    | (split) "cr_count (es ! i) \<noteq> 1" "chars t \<noteq> {}" by blast
  then show ?thesis
  proof cases
    case one
    then have "card (chars (es ! i)) = 1" using cr_count_card [OF ei(1)] by simp
    then obtain x where "chars (es ! i) = {x}" by (auto simp: card_1_singleton_iff)
    then show ?thesis using whole one by (simp add: eset_round_def)
  next
    case none
    then have "\<not> cr_any t" using cr_any_iff [OF t(1)] by simp
    then have "eset_round remap (i, es) = (i + 1, es)"
      using none(1) by (simp add: eset_round_def t_def [symmetric] Let_def)
    moreover have "remap ! unat c = remap ! unat l" if "c \<in> chars (es ! i)" for c
      using none(2) t(2) that by auto
    ultimately show ?thesis using whole by simp
  next
    case split
    define es' where "es' = es[i := cr_and (es ! i) (cr_not t)] @ [t]"
    define g' where "g' = (\<lambda>c. if c \<in> chars t then length es else g c)"
    have round: "eset_round remap (i, es) = (i + 1, es')"
      using split cr_any_iff [OF t(1)] \<open>t \<noteq> es ! i\<close>
      by (simp add: eset_round_def t_def [symmetric] Let_def es'_def)
    have lt: "g c < length es" for c using cls by (simp add: cls_of_def)
    have rest: "cr_inv (cr_and (es ! i) (cr_not t))"
      "chars (cr_and (es ! i) (cr_not t)) = chars (es ! i) - chars t"
      using ei(1) t(1) by (auto simp: cr_inv_intros chars_simps)
    have sub: "c \<in> chars t \<Longrightarrow> g c = i" for c using t(2) ei(2) by auto
    have "cr_inv (es' ! k) \<and> chars (es' ! k) = {c. g' c = k} \<and> (\<exists>c. g' c = k)" if k: "k < length es'" for k
    proof -
      consider "k = length es" | "k = i" | "k < length es" "k \<noteq> i" using k by (auto simp: es'_def less_Suc_eq)
      then show ?thesis
      proof cases
        case 1
        have "g c \<noteq> k" for c using 1 lt [of c] by simp
        then have "{c. g' c = k} = chars t" using 1 by (auto simp: g'_def)
        then show ?thesis using 1 t(1) split(2) by (auto simp: es'_def nth_append)
      next
        case 2
        have "{c. g' c = k} = chars (es ! i) - chars t"
          using 2 i ei(2) by (auto simp: g'_def)
        moreover have "l \<in> chars (es ! i) - chars t" using l t(2) by simp
        ultimately show ?thesis using 2 i rest by (auto simp: es'_def nth_append)
      next
        case 3
        have "{c. g' c = k} = {c. g c = k}" using 3 sub by (auto simp: g'_def)
        then show ?thesis using 3 cls_of_nth [OF cls 3(1)] by (auto simp: es'_def nth_append)
      qed
    qed
    moreover have "g' c < length es'" for c using lt [of c] by (simp add: g'_def es'_def)
    ultimately have cls': "cls_of es' g'" by (simp add: cls_of_def)
    have uni: "remap ! unat c = remap ! unat d" if "g' c = g' d" "g' c < i + 1" for c d
    proof -
      have cd: "c \<notin> chars t" "d \<notin> chars t" "g c = g d" "g c \<le> i"
        using that i lt [of c] by (auto simp: g'_def split: if_splits)
      show ?thesis
      proof (cases "g c = i")
        case True
        then have "c \<in> chars (es ! i)" "d \<in> chars (es ! i)" using cd(3) ei(2) by simp_all
        then have "remap ! unat c = remap ! unat l" "remap ! unat d = remap ! unat l"
          using cd(1,2) t(2) by simp_all
        then show ?thesis by simp
      next
        case False
        then have "g c < i" using cd(4) by simp
        then show ?thesis using prev cd(3) by blast
      qed
    qed
    have fine: "g c = g d" if "g' c = g' d" for c d
      using that lt [of c] lt [of d] sub [of c] sub [of d] by (auto simp: g'_def split: if_splits)
    have coarse: "g' c = g' d" if "g c = g d" "remap ! unat c = remap ! unat d" for c d
    proof -
      have "c \<in> chars t \<longleftrightarrow> d \<in> chars t" using that t(2) ei(2) by auto
      then show ?thesis using that(1) by (simp add: g'_def)
    qed
    have "i + 1 \<le> length es'" using i by (simp add: es'_def)
    then show ?thesis
      using round cls' uni fine coarse
      by blast
  qed
qed

lemma eset_loop_cls:
  assumes f: "\<forall>c :: u8. remap ! unat c < 256" and cls: "cls_of es0 g0"
  shows "\<exists>es g. eset_loop remap es0 = Some es \<and> cls_of es g
    \<and> (\<forall>c d. g c = g d \<longleftrightarrow> g0 c = g0 d \<and> remap ! unat c = remap ! unat d)"
proof -
  define P where "P = (\<lambda>(i, es). \<exists>g. cls_of es g \<and> i \<le> length es
    \<and> (\<forall>c d. g c = g d \<and> g c < i \<longrightarrow> remap ! unat c = remap ! unat d)
    \<and> (\<forall>c d. g c = g d \<longrightarrow> g0 c = g0 d)
    \<and> (\<forall>c d. g0 c = g0 d \<and> remap ! unat c = remap ! unat d \<longrightarrow> g c = g d))"
  have step: "P (eset_round remap st) \<and> 256 - fst (eset_round remap st) < 256 - fst st"
    if P: "P st" and b: "(\<lambda>(i, es). i < length es) st" for st
  proof -
    obtain i es where st: "st = (i, es)" by fastforce
    obtain g where g: "cls_of es g" "i \<le> length es"
      "\<forall>c d. g c = g d \<and> g c < i \<longrightarrow> remap ! unat c = remap ! unat d"
      "\<forall>c d. g c = g d \<longrightarrow> g0 c = g0 d"
      "\<forall>c d. g0 c = g0 d \<and> remap ! unat c = remap ! unat d \<longrightarrow> g c = g d"
      using P unfolding P_def st prod.case by (elim exE conjE) (rule that)
    have i: "i < length es" using b by (simp add: st)
    obtain es' g' where r: "eset_round remap (i, es) = (i + 1, es')" "cls_of es' g'" "i + 1 \<le> length es'"
      "\<forall>c d. g' c = g' d \<and> g' c < i + 1 \<longrightarrow> remap ! unat c = remap ! unat d"
      "\<forall>c d. g' c = g' d \<longrightarrow> g c = g d"
      "\<forall>c d. g c = g d \<and> remap ! unat c = remap ! unat d \<longrightarrow> g' c = g' d"
      using eset_round_cls [OF f g(1) i g(3)] by blast
    have "P (i + 1, es')" unfolding P_def prod.case using r g by (intro exI [of _ g']) blast
    moreover have "i < 256" using i cls_of_length [OF g(1)] by simp
    ultimately show ?thesis using r(1) by (simp add: st)
  qed
  have init: "P (0, es0)" unfolding P_def prod.case using cls by (intro exI [of _ g0]) simp
  obtain st where st: "while_option (\<lambda>(i, es). i < length es) (eset_round remap) (0, es0) = Some st"
    using measure_while_option_Some [of P "\<lambda>(i, es). i < length es" "eset_round remap" "\<lambda>st. 256 - fst st"]
      step init by blast
  obtain i es where ies: "st = (i, es)" by fastforce
  have "P (i, es)"
    using while_option_rule [of P "\<lambda>(i, es). i < length es" "eset_round remap", OF _ st init] step ies by blast
  then obtain g where g: "cls_of es g" "i \<le> length es"
      "\<forall>c d. g c = g d \<and> g c < i \<longrightarrow> remap ! unat c = remap ! unat d"
      "\<forall>c d. g c = g d \<longrightarrow> g0 c = g0 d"
      "\<forall>c d. g0 c = g0 d \<and> remap ! unat c = remap ! unat d \<longrightarrow> g c = g d"
    unfolding P_def prod.case by (elim exE conjE) (rule that)
  have "\<not> i < length es" using while_option_stop [OF st] by (simp add: ies)
  moreover have "g c < length es" for c using g(1) by (simp add: cls_of_def)
  ultimately have all: "g c < i" for c by (metis le_less_trans linorder_not_less)
  have "g c = g d \<longleftrightarrow> g0 c = g0 d \<and> remap ! unat c = remap ! unat d" for c d
    using g(3-5) all by blast
  moreover have "eset_loop remap es0 = Some es" using st by (simp add: eset_loop_def ies)
  ultimately show ?thesis using g(1) by blast
qed

lemma esets_of_cls:
  assumes "\<forall>rdfa \<in> set nfas. \<forall>c :: u8. rd_alpha_remap rdfa ! unat c < 256" "cls_of es0 g0"
  shows "\<exists>es g. esets_of nfas es0 = Some es \<and> cls_of es g \<and> (\<forall>c d. g c = g d \<longleftrightarrow>
    g0 c = g0 d \<and> (\<forall>rdfa \<in> set nfas. rd_alpha_remap rdfa ! unat c = rd_alpha_remap rdfa ! unat d))"
  using assms
proof (induction nfas arbitrary: es0 g0)
  case (Cons rdfa nfas)
  obtain es1 g1 where 1: "eset_loop (rd_alpha_remap rdfa) es0 = Some es1" "cls_of es1 g1"
    "\<forall>c d. g1 c = g1 d \<longleftrightarrow> g0 c = g0 d \<and> rd_alpha_remap rdfa ! unat c = rd_alpha_remap rdfa ! unat d"
    using eset_loop_cls [of "rd_alpha_remap rdfa" es0 g0] Cons.prems by auto
  show ?case using Cons.IH [OF _ 1(2)] Cons.prems(1) 1(1,3) by auto
qed auto

lemma fold_update_nth:
  "length (foldl (\<lambda>a s. a[s := i]) a js) = length a \<and>
   (\<forall>k < length a. foldl (\<lambda>a s. a[s := i]) a js ! k = (if k \<in> set js then i else a ! k))"
  by (induction js arbitrary: a) (auto simp: nth_list_update)

lemma build_fold:
  assumes cls: "cls_of es g" and len: "length alpha = ALPHABET_SIZE" "length unalpha = ALPHABET_SIZE"
  shows "n \<le> length es \<Longrightarrow> \<exists>al un. foldl build_class (0, alpha, unalpha) (take n es) = (n, al, un)
    \<and> length al = ALPHABET_SIZE \<and> length un = ALPHABET_SIZE
    \<and> (\<forall>c. g c < n \<longrightarrow> al ! unat c = g c) \<and> (\<forall>k < n. \<exists>c. g c = k \<and> un ! k = unat c)"
proof (induction n)
  case 0
  then show ?case using len by simp
next
  case (Suc n)
  then have n: "n < length es" by simp
  obtain al un where IH: "foldl build_class (0, alpha, unalpha) (take n es) = (n, al, un)"
    "length al = ALPHABET_SIZE" "length un = ALPHABET_SIZE"
    "\<forall>c. g c < n \<longrightarrow> al ! unat c = g c" "\<forall>k < n. \<exists>c. g c = k \<and> un ! k = unat c"
    using Suc by auto
  note nth = cls_of_nth [OF cls n]
  have fold: "foldl build_class (0, alpha, unalpha) (take (Suc n) es)
      = (Suc n, foldl (\<lambda>a s. a[s := n]) al (cr_indices (es ! n)), un[n := cr_find_first (es ! n)])"
    using IH(1) by (simp add: take_Suc_conv_app_nth [OF n] build_class_def)
  have set: "set (cr_indices (es ! n)) = unat ` {c. g c = n}" using set_cr_indices nth(1,2) by simp
  obtain c where c: "g c = n" "cr_find_first (es ! n) = unat c"
    using find_first_chars [OF nth(1)] nth(2,3) by auto
  have small: "unat c < ALPHABET_SIZE" for c :: u8
    using unat_u8_npos [of c] by (simp add: cr_npos_def ALPHABET_SIZE_def)
  have "foldl (\<lambda>a s. a[s := n]) al (cr_indices (es ! n)) ! unat c = g c" if "g c < Suc n" for c
    using fold_update_nth [of n al "cr_indices (es ! n)"] that IH(2,4) small [of c] set
    by (auto simp: inj_image_mem_iff [OF inj_unat_u8] less_Suc_eq)
  moreover have "n < ALPHABET_SIZE" using n cls_of_length [OF cls] by (simp add: ALPHABET_SIZE_def)
  then have "\<exists>c. g c = k \<and> un[n := cr_find_first (es ! n)] ! k = unat c" if "k < Suc n" for k
    using IH(3,5) that c by (cases "k = n") auto
  ultimately show ?case
    using fold IH(2,3) fold_update_nth [of n al "cr_indices (es ! n)"] by auto
qed

lemma buildAlphabet_cls:
  assumes cls: "cls_of es g" and len: "length alpha = ALPHABET_SIZE" "length unalpha = ALPHABET_SIZE"
  shows "\<exists>al un. buildAlphabetFromEquivSets es alpha unalpha = (Suc (length es), al, un)
    \<and> length al = ALPHABET_SIZE \<and> length un = ALPHABET_SIZE
    \<and> (\<forall>c. al ! unat c = g c) \<and> al ! TOP = length es
    \<and> (\<forall>k < length es. \<exists>c. g c = k \<and> un ! k = unat c) \<and> un ! length es = TOP"
proof -
  obtain al un where au: "foldl build_class (0, alpha, unalpha) es = (length es, al, un)"
    "length al = ALPHABET_SIZE" "length un = ALPHABET_SIZE"
    "\<forall>c. g c < length es \<longrightarrow> al ! unat c = g c" "\<forall>k < length es. \<exists>c. g c = k \<and> un ! k = unat c"
    using build_fold [OF assms, of "length es"] by auto
  have "\<forall>c. g c < length es" using cls by (simp add: cls_of_def)
  moreover have "[N_CHARS..<ALPHABET_SIZE] = [TOP]"
    by (simp add: N_CHARS_def ALPHABET_SIZE_def TOP_def)
  moreover have "unat c \<noteq> TOP" for c :: u8
    using unat_u8_npos [of c] by (simp add: cr_npos_def TOP_def)
  ultimately show ?thesis
    using au cls_of_length [OF cls]
    by (auto simp: buildAlphabetFromEquivSets_def ALPHABET_SIZE_def TOP_def)
qed

text \<open>
  The DFAs the merge takes: well-formed, with an alphabet that gives \<open>TOP\<close> a class of its own,
  the last one.
\<close>

definition alpha_ok :: "raw_dfa \<Rightarrow> bool" where
  "alpha_ok r = (length (rd_alpha_remap r) = ALPHABET_SIZE \<and> rd_alpha_size r \<le> ALPHABET_SIZE
     \<and> (\<forall>c :: u8. rd_alpha_remap r ! unat c + 1 < rd_alpha_size r)
     \<and> rd_alpha_remap r ! TOP + 1 = rd_alpha_size r)"

text \<open>The equivalence of input symbols under several DFAs.\<close>

definition same_class :: "raw_dfa list \<Rightarrow> nat \<Rightarrow> nat \<Rightarrow> bool" where
  "same_class dfas c d = (\<forall>r \<in> set dfas. rd_alpha_remap r ! c = rd_alpha_remap r ! d)"

definition merge_alpha_ok :: "raw_dfa list \<Rightarrow> Automaton_Merge \<Rightarrow> bool" where
  "merge_alpha_ok dfas m =
     (length (am_alpha m) = ALPHABET_SIZE \<and> length (am_unalpha m) = ALPHABET_SIZE
      \<and> am_alphasize m \<le> ALPHABET_SIZE \<and> 1 < am_alphasize m
      \<and> (\<forall>c :: u8. am_alpha m ! unat c + 1 < am_alphasize m) \<and> am_alpha m ! TOP + 1 = am_alphasize m
      \<and> (\<forall>c d. c < ALPHABET_SIZE \<and> d < ALPHABET_SIZE \<and> dfas \<noteq> [] \<longrightarrow>
           (am_alpha m ! c = am_alpha m ! d \<longleftrightarrow> same_class dfas c d))
      \<and> (\<forall>k < am_alphasize m. am_unalpha m ! k < ALPHABET_SIZE \<and> am_alpha m ! (am_unalpha m ! k) = k))"

lemma byte_or_top:
  assumes "s < ALPHABET_SIZE"
  obtains c :: u8 where "s = unat c" | "s = TOP"
proof (cases "s = TOP")
  case False
  then have "s < 256" using assms by (simp add: ALPHABET_SIZE_def TOP_def)
  then have "s = unat (of_nat s :: u8)" by (simp add: unat_of_nat_u8)
  then show ?thesis using that(1) by blast
qed (rule that(2))

lemma merge_alphabet_exists:
  assumes "\<forall>r \<in> set dfas. alpha_ok r" and "m0 = am_empty rm h dfas"
  shows "\<exists>n al un. merge_calculateAlphabet m0 = Some (m0\<lparr>am_alphasize := n, am_alpha := al, am_unalpha := un\<rparr>)
    \<and> merge_alpha_ok dfas (m0\<lparr>am_alphasize := n, am_alpha := al, am_unalpha := un\<rparr>)"
proof -
  have f: "rd_alpha_remap r ! unat c < 256" if "r \<in> set dfas" for r and c :: u8
  proof -
    have "alpha_ok r" using assms(1) that by blast
    then have "rd_alpha_remap r ! unat c + 1 < rd_alpha_size r" "rd_alpha_size r \<le> 257"
      by (simp_all add: alpha_ok_def ALPHABET_SIZE_def)
    then show ?thesis by linarith
  qed
  obtain es g where es: "esets_of dfas [cr_dot] = Some es" "cls_of es g"
    "\<forall>c d. g c = g d \<longleftrightarrow> same_class dfas (unat c) (unat d)"
    using esets_of_cls [OF _ cls_of_dot, of dfas] f by (auto simp: same_class_def)
  obtain g' where g': "cls_of (sort es) g'" "\<forall>c d. g' c = g' d \<longleftrightarrow> same_class dfas (unat c) (unat d)"
    using cls_of_permute [OF es(2), of "sort es"] es(3) by auto
  obtain al un where b: "buildAlphabetFromEquivSets (sort es) (am_alpha m0) (am_unalpha m0)
      = (Suc (length es), al, un)" "length al = ALPHABET_SIZE" "length un = ALPHABET_SIZE"
    "\<forall>c. al ! unat c = g' c" "al ! TOP = length es"
    "\<forall>k < length es. \<exists>c. g' c = k \<and> un ! k = unat c" "un ! length es = TOP"
    using buildAlphabet_cls [OF g'(1), of "am_alpha m0" "am_unalpha m0"] assms(2)
    by (auto simp: am_empty_def)
  have lt: "g' c < length es" for c using g'(1) by (simp add: cls_of_def)
  have top: "\<not> same_class dfas (unat c) TOP" "\<not> same_class dfas TOP (unat c)" if ne: "dfas \<noteq> []" for c :: u8
  proof -
    obtain r where r: "r \<in> set dfas" "alpha_ok r" using ne assms(1) by (meson last_in_set)
    then have "rd_alpha_remap r ! unat c \<noteq> rd_alpha_remap r ! TOP" for c :: u8
      by (auto simp: alpha_ok_def) (metis less_irrefl)
    then show "\<not> same_class dfas (unat c) TOP" "\<not> same_class dfas TOP (unat c)"
      using r(1) unfolding same_class_def by metis+
  qed
  have exact: "al ! s = al ! t \<longleftrightarrow> same_class dfas s t"
    if "s < ALPHABET_SIZE" "t < ALPHABET_SIZE" "dfas \<noteq> []" for s t
  proof -
    have ne: "g' c \<noteq> length es" "length es \<noteq> g' c" for c using lt [of c] by auto
    have refl: "same_class dfas TOP TOP" by (simp add: same_class_def)
    show ?thesis
      by (rule byte_or_top [OF that(1)]; rule byte_or_top [OF that(2)])
        (simp_all add: b(4,5) g'(2) ne top [OF that(3)] refl)
  qed
  have small: "unat c < ALPHABET_SIZE" for c :: u8
    using unat_u8_npos [of c] by (simp add: cr_npos_def ALPHABET_SIZE_def)
  have unal: "un ! k < ALPHABET_SIZE \<and> al ! (un ! k) = k" if "k < Suc (length es)" for k
  proof (cases "k = length es")
    case True
    then show ?thesis using b(5,7) by (simp add: ALPHABET_SIZE_def TOP_def)
  next
    case False
    then obtain c where "g' c = k" "un ! k = unat c" using \<open>k < Suc (length es)\<close> b(6) by (metis less_Suc_eq)
    then show ?thesis using b(4) small by simp
  qed
  have "merge_alpha_ok dfas (m0\<lparr>am_alphasize := Suc (length es), am_alpha := al, am_unalpha := un\<rparr>)"
    unfolding merge_alpha_ok_def
    using b(2-5) exact unal lt cls_of_length [OF es(2)] lt [of 0] by (auto simp: ALPHABET_SIZE_def)
  moreover have "merge_calculateAlphabet m0 =
      Some (m0\<lparr>am_alphasize := Suc (length es), am_alpha := al, am_unalpha := un\<rparr>)"
    using es(1) b(1) assms(2) by (simp add: merge_calculateAlphabet_def am_empty_def)
  ultimately show ?thesis by blast
qed

section \<open>The merged automaton\<close>

definition merge_for :: "raw_dfa list \<Rightarrow> Automaton_Merge \<Rightarrow> bool" where
  "merge_for dfas m =
     (am_nfas m = dfas \<and> merge_alpha_ok dfas m
      \<and> am_as m = map rd_start_anchored dfas \<and> am_fs m = map rd_start_floating dfas
      \<and> am_dead m = replicate (length dfas) 0 \<and> am_start_anchored m = 1
      \<and> am_start_floating m = (if am_as m = am_fs m then 1 else if am_fs m = am_dead m then 0 else 2))"

definition merge_valid :: "Automaton_Merge \<Rightarrow> bool" where
  "merge_valid m = (am_nfas m \<noteq> [] \<and> merge_for (am_nfas m) m
     \<and> (\<forall>r \<in> set (am_nfas m). dfa_wf r \<and> alpha_ok r) \<and> \<not> am_prunable m \<and> am_as m \<noteq> am_dead m)"

lemma new_Automaton_Merge_for:
  assumes "\<forall>r \<in> set dfas. alpha_ok r"
  obtains m where "new_Automaton_Merge rm h dfas = Some m" "merge_for dfas m"
    "\<not> h \<or> rm = None \<Longrightarrow> \<not> am_prunable m"
proof -
  define m0 where "m0 = am_empty rm h dfas"
  obtain n al un where a: "merge_calculateAlphabet m0 =
      Some (m0\<lparr>am_alphasize := n, am_alpha := al, am_unalpha := un\<rparr>)"
    "merge_alpha_ok dfas (m0\<lparr>am_alphasize := n, am_alpha := al, am_unalpha := un\<rparr>)"
    using merge_alphabet_exists [OF assms m0_def] by blast
  define m1 where "m1 = populateAsFs (m0\<lparr>am_alphasize := n, am_alpha := al, am_unalpha := un\<rparr>)"
  define m where "m = m1\<lparr>am_prunable := isPrunable m1\<rparr>"
  have same: "list_all (\<lambda>i. map rd_start_anchored dfas ! i = map rd_start_floating dfas ! i) [0..<length dfas]
      \<longleftrightarrow> map rd_start_anchored dfas = map rd_start_floating dfas"
    by (auto simp: list_all_iff all_set_conv_all_nth)
  have dead: "list_all (\<lambda>i. map rd_start_floating dfas ! i = 0) [0..<length dfas]
      \<longleftrightarrow> map rd_start_floating dfas = replicate (length dfas) 0"
    unfolding map_replicate_const [symmetric] by (auto simp: list_all_iff all_set_conv_all_nth)
  have "am_nfas m0 = dfas" "am_dead m0 = replicate (length dfas) 0" by (simp_all add: m0_def am_empty_def)
  then have "merge_for dfas m"
    using a(2) unfolding merge_for_def merge_alpha_ok_def m_def m1_def populateAsFs_def Let_def
    by (simp add: same dead DEAD_STATE_def) (simp add: list_all_iff)
  moreover have "new_Automaton_Merge rm h dfas = Some m"
    using a(1) by (simp add: new_Automaton_Merge_def m0_def [symmetric] m1_def m_def Let_def)
  moreover have "\<not> am_prunable m" if "\<not> h \<or> rm = None"
    using that by (auto simp: m_def m1_def m0_def am_empty_def populateAsFs_def Let_def isPrunable_def
      split: option.split)
  ultimately show ?thesis using that by blast
qed

lemma getFullTransition_nth:
  "s < ALPHABET_SIZE \<Longrightarrow>
     getFullTransitionFromState r q ! s = step_sym r q (rd_alpha_remap r ! s)"
  by (simp add: getFullTransitionFromState_def successor_def step_sym_def)

lemma transition_nth:
  assumes "merge_for dfas m" "a < am_alphasize m"
  shows "merge_transition m S ! a =
    map (\<lambda>j. step_sym (dfas ! j) (S ! j) (rd_alpha_remap (dfas ! j) ! (am_unalpha m ! a))) [0..<length dfas]"
  using assms by (simp add: merge_transition_def merge_for_def merge_alpha_ok_def getFullTransition_nth)

lemma reports_i_Union:
  "reports_i m f S = (\<Union>j < length (am_nfas m). f (rd_states (am_nfas m ! j) ! (S ! j)))"
proof -
  have "foldl (\<lambda>r i. r \<union> g i) A js = A \<union> (\<Union>j \<in> set js. g j)"
    for A and g :: "nat \<Rightarrow> ReportID set" and js :: "nat list"
    by (induction js arbitrary: A) auto
  then show ?thesis by (simp add: reports_i_def lessThan_atLeast0)
qed

definition remap_word :: "raw_dfa \<Rightarrow> Automaton_Merge \<Rightarrow> symbol_t list \<Rightarrow> symbol_t list" where
  "remap_word r m w = map (\<lambda>a. rd_alpha_remap r ! (am_unalpha m ! a)) w"

text \<open>Without pruning the automaton runs its components side by side.\<close>

lemma merge_run:
  assumes m: "merge_for dfas m" "\<not> am_prunable m" and w: "\<forall>a \<in> set w. a < am_alphasize m"
    and S: "length S = length dfas"
  shows "au_run (Automaton_of m) S w =
    map (\<lambda>j. run_syms (dfas ! j) (S ! j) (remap_word (dfas ! j) m w)) [0..<length dfas]"
  using w S
proof (induction w arbitrary: S)
  case Nil
  then show ?case using map_nth [of S] by (simp add: remap_word_def au_run_def)
next
  case (Cons a w)
  have "\<not> au_pruned (Automaton_of m) S" using m(2) by (simp add: au_pruned_def Automaton_of_def canPrune_def)
  then have "au_step (Automaton_of m) S a =
      map (\<lambda>j. step_sym (dfas ! j) (S ! j) (rd_alpha_remap (dfas ! j) ! (am_unalpha m ! a))) [0..<length dfas]"
    using transition_nth [OF m(1)] Cons.prems(1) by (simp add: au_step_def Automaton_of_def)
  then show ?case using Cons by (simp add: remap_word_def)
qed

definition merge_meaning ::
  "Automaton_Merge \<Rightarrow> StateSet \<Rightarrow> symbol_t list \<Rightarrow> ReportID set \<times> ReportID set" where
  "merge_meaning m S w =
     (\<Union>j < length (am_nfas m). fst (fires (am_nfas m ! j)
          (run_syms (am_nfas m ! j) (S ! j) (remap_word (am_nfas m ! j) m w))),
      \<Union>j < length (am_nfas m). snd (fires (am_nfas m ! j)
          (run_syms (am_nfas m ! j) (S ! j) (remap_word (am_nfas m ! j) m w))))"

lemma merge_reach_length:
  assumes "merge_for dfas m" "\<not> am_prunable m" "au_reach (Automaton_of m) S"
  shows "length S = length dfas"
  using assms(3)
proof induction
  case (start S)
  then show ?case using assms(1) by (auto simp: Automaton_of_def merge_initial_def merge_for_def split: if_splits)
next
  case (step S a)
  then show ?case
    using merge_run [OF assms(1,2), of "[a]" S] by (simp add: Automaton_of_def)
qed

lemma merge_reports_meaning:
  assumes "merge_valid m" "au_reach (Automaton_of m) S" "\<forall>a \<in> set w. a < am_alphasize m"
  shows "(au_reports (Automaton_of m) (au_run (Automaton_of m) S w),
      au_reportsEod (Automaton_of m) (au_run (Automaton_of m) S w)) = merge_meaning m S w"
proof -
  have m: "merge_for (am_nfas m) m" "\<not> am_prunable m" using assms(1) by (auto simp: merge_valid_def)
  have len: "length S = length (am_nfas m)" by (rule merge_reach_length [OF m assms(2)])
  show ?thesis
    unfolding merge_run [OF m assms(3) len]
    by (simp add: Automaton_of_def reports_i_Union merge_meaning_def fires_def)
qed

interpretation merge: determinisable Automaton_of merge_valid merge_meaning
proof unfold_locales
  fix m
  assume "merge_valid m"
  then show "distinct (au_dead (Automaton_of m) # au_initial (Automaton_of m))"
    by (auto simp: merge_valid_def merge_for_def Automaton_of_def merge_initial_def DEAD_STATE_def
        split: if_splits)
next
  fix m S w
  assume "merge_valid m" "au_reach (Automaton_of m) S" "\<forall>a \<in> set w. a < au_alphasize (Automaton_of m)"
  then show "(au_reports (Automaton_of m) (au_run (Automaton_of m) S w),
      au_reportsEod (Automaton_of m) (au_run (Automaton_of m) S w)) = merge_meaning m S w"
    by (intro merge_reports_meaning) (simp_all add: Automaton_of_def)
qed

section \<open>Runs on input\<close>

definition run_input :: "raw_dfa \<Rightarrow> dstate_id_t \<Rightarrow> nat list \<Rightarrow> dstate_id_t" where
  "run_input r s ws = run_syms r s (map (\<lambda>c. rd_alpha_remap r ! c) ws)"

definition input_ok :: "nat list \<Rightarrow> bool" where
  "input_ok ws = (\<forall>c \<in> set ws. c < ALPHABET_SIZE)"

text \<open>The reports of several DFAs after the same input.\<close>

definition union_fires ::
  "raw_dfa list \<Rightarrow> (raw_dfa \<Rightarrow> dstate_id_t) \<Rightarrow> nat list \<Rightarrow> ReportID set \<times> ReportID set" where
  "union_fires dfas start ws =
     (\<Union>r \<in> set dfas. fst (fires r (run_input r (start r) ws)),
      \<Union>r \<in> set dfas. snd (fires r (run_input r (start r) ws)))"

lemma remap_word_classes:
  assumes m: "merge_for dfas m" and r: "r \<in> set dfas" and ws: "input_ok ws"
  shows "remap_word r m (map (\<lambda>c. am_alpha m ! c) ws) = map (\<lambda>c. rd_alpha_remap r ! c) ws"
proof -
  have "rd_alpha_remap r ! (am_unalpha m ! (am_alpha m ! c)) = rd_alpha_remap r ! c" if c: "c \<in> set ws" for c
  proof -
    have lt: "c < ALPHABET_SIZE" using ws c by (simp add: input_ok_def)
    have al: "merge_alpha_ok dfas m" and "dfas \<noteq> []" using m r by (auto simp: merge_for_def)
    have "am_alpha m ! c < am_alphasize m"
      using al by (rule_tac byte_or_top [OF lt]) (auto simp: merge_alpha_ok_def intro: Suc_lessD)
    then have "am_unalpha m ! (am_alpha m ! c) < ALPHABET_SIZE"
      "am_alpha m ! (am_unalpha m ! (am_alpha m ! c)) = am_alpha m ! c"
      using al by (auto simp: merge_alpha_ok_def)
    then have "same_class dfas (am_unalpha m ! (am_alpha m ! c)) c"
      using al lt \<open>dfas \<noteq> []\<close> unfolding merge_alpha_ok_def by blast
    then show ?thesis using r by (simp add: same_class_def)
  qed
  then show ?thesis by (simp add: remap_word_def)
qed

lemma classes_below:
  assumes "merge_for dfas m" "input_ok ws"
  shows "\<forall>a \<in> set (map (\<lambda>c. am_alpha m ! c) ws). a < am_alphasize m"
proof -
  have "am_alpha m ! c < am_alphasize m" if "c < ALPHABET_SIZE" for c
    using assms(1) by (rule_tac byte_or_top [OF that])
      (auto simp: merge_for_def merge_alpha_ok_def intro: Suc_lessD)
  with assms(2) show ?thesis by (simp add: input_ok_def)
qed

lemma merge_meaning_input:
  assumes m: "merge_for dfas m" and ws: "input_ok ws"
  shows "merge_meaning m (map start dfas) (map (\<lambda>c. am_alpha m ! c) ws) = union_fires dfas start ws"
proof -
  have nf: "am_nfas m = dfas" using m by (simp add: merge_for_def)
  have "run_syms (dfas ! j) (map start dfas ! j) (remap_word (dfas ! j) m (map (\<lambda>c. am_alpha m ! c) ws))
      = run_input (dfas ! j) (start (dfas ! j)) ws" if "j < length dfas" for j
    using that remap_word_classes [OF m _ ws] by (simp add: run_input_def)
  moreover have U: "(\<Union>j < length dfas. F (dfas ! j)) = (\<Union>r \<in> set dfas. F r)"
    for F :: "raw_dfa \<Rightarrow> ReportID set" by (auto simp: in_set_conv_nth) (metis nth_mem)
  note U [of "\<lambda>r. fst (fires r (run_input r (start r) ws))"]
    U [of "\<lambda>r. snd (fires r (run_input r (start r) ws))"]
  ultimately show ?thesis by (simp add: merge_meaning_def union_fires_def nf)
qed

lemma merge_starts:
  assumes "merge_for dfas m"
  shows "am_start_anchored m < length (au_dead (Automaton_of m) # au_initial (Automaton_of m))"
    "(au_dead (Automaton_of m) # au_initial (Automaton_of m)) ! am_start_anchored m
       = map rd_start_anchored dfas"
    "am_start_floating m < length (au_dead (Automaton_of m) # au_initial (Automaton_of m))"
    "(au_dead (Automaton_of m) # au_initial (Automaton_of m)) ! am_start_floating m
       = map rd_start_floating dfas"
    "(au_dead (Automaton_of m) # au_initial (Automaton_of m)) ! 0 = map (\<lambda>_. DEAD_STATE) dfas"
proof -
  have m: "am_start_anchored m = 1" "am_fs m = map rd_start_floating dfas"
    "am_start_floating m = (if am_as m = am_fs m then 1 else if am_fs m = am_dead m then 0 else 2)"
    using assms by (simp_all only: merge_for_def)
  consider "am_start_floating m = 1" "am_as m = am_fs m" | "am_start_floating m = 0" "am_fs m = am_dead m"
    | "am_start_floating m = 2" using m(3) by (cases "am_as m = am_fs m"; cases "am_fs m = am_dead m") simp_all
  then have "am_start_floating m < length (am_dead m # merge_initial m)
      \<and> (am_dead m # merge_initial m) ! am_start_floating m = am_fs m"
    using m(1) by cases (simp_all add: merge_initial_def DEAD_STATE_def)
  then show "am_start_floating m < length (au_dead (Automaton_of m) # au_initial (Automaton_of m))"
    "(au_dead (Automaton_of m) # au_initial (Automaton_of m)) ! am_start_floating m
       = map rd_start_floating dfas"
    using m(2) by (simp_all add: Automaton_of_def)
qed (use assms in \<open>simp_all add: merge_for_def Automaton_of_def merge_initial_def DEAD_STATE_def
  map_replicate_const\<close>)

text \<open>The DFA built from the result of the subset construction.\<close>

lemma merged_dfa_ok:
  assumes m: "merge_valid m" and L: "2 < L" "L < 2 ^ 16"
    and det: "determinise [] (Automaton_of m) L = Some (Some (states, sets))"
    and r_def: "r = merged_dfa kind m states"
  shows "dfa_wf r" "alpha_ok r"
    and "input_ok ws \<Longrightarrow> fires r (run_input r (rd_start_anchored r) ws)
      = union_fires (am_nfas m) rd_start_anchored ws"
    and "input_ok ws \<Longrightarrow> fires r (run_input r (rd_start_floating r) ws)
      = union_fires (am_nfas m) rd_start_floating ws"
    and "input_ok ws \<Longrightarrow> fires r (run_input r DEAD_STATE ws)
      = union_fires (am_nfas m) (\<lambda>_. DEAD_STATE) ws"
proof -
  have mf: "merge_for (am_nfas m) m" using m by (simp add: merge_valid_def)
  have init: "length (au_initial (Automaton_of m)) \<le> 2"
    by (simp add: Automaton_of_def merge_initial_def)
  then have lt: "length (au_initial (Automaton_of m)) < L" using L(1) by linarith
  have res: "det_result (Automaton_of m) L states sets"
    using determinise_cases [OF merge.starts_distinct [OF m] lt L(2), of "[]"] det by auto
  obtain more_sets where sets: "length states = length sets" "length sets \<le> L"
    "sets = au_dead (Automaton_of m) # au_initial (Automaton_of m) @ more_sets"
    "\<forall>d \<in> set states. length (ds_next d) = am_alphasize m"
    "\<forall>i < length sets. daddy_ok (Automaton_of m) sets states i \<and> det_finished (Automaton_of m) sets states i"
    using res by (auto simp: det_result_def Automaton_of_def)
  have al: "merge_alpha_ok (am_nfas m) m" using mf by (simp add: merge_for_def)
  show "alpha_ok r"
    using al by (simp add: alpha_ok_def r_def merged_dfa_def merge_alpha_ok_def)
  note starts = merge_starts [OF mf]
  have "length (ds_next d) = am_alphasize m \<and> (\<forall>t \<in> set (ds_next d). t < length states)
      \<and> ds_daddy d < length states" if ds: "d \<in> set states" for d
  proof -
    obtain i where i: "i < length sets" "d = states ! i" using ds sets(1) by (metis in_set_conv_nth)
    have d: "length (ds_next d) = am_alphasize m" using sets(4) ds by blast
    have fin: "daddy_ok (Automaton_of m) sets states i" "det_finished (Automaton_of m) sets states i"
      using sets(5) i(1) by simp_all
    have "\<forall>t \<in> set (ds_next d). t < length states"
      using fin(2) i(2) d sets(1) by (auto simp: det_finished_def Automaton_of_def in_set_conv_nth)
    moreover have "ds_daddy d < length states"
      using fin(1) i sets(1) by (auto simp: daddy_ok_def)
    ultimately show ?thesis using d by simp
  qed
  then show "dfa_wf r"
    using starts(1,3) sets(1-3) L(2) by (auto simp: dfa_wf_def r_def merged_dfa_def)
  have run: "fires r (run_input r i ws) = merge_meaning m
      ((au_dead (Automaton_of m) # au_initial (Automaton_of m)) ! i) (map (\<lambda>c. am_alpha m ! c) ws)"
    if i: "i < length (au_dead (Automaton_of m) # au_initial (Automaton_of m))" and ws: "input_ok ws" for i
  proof -
    have "\<forall>a \<in> set (map (\<lambda>c. am_alpha m ! c) ws). a < au_alphasize (Automaton_of m)"
      using classes_below [OF mf ws] by (simp add: Automaton_of_def)
    from merge.determinise_meaning [OF m lt L(2) det i this] show ?thesis
      by (simp add: r_def merged_dfa_def fires_def fires_ds_def run_input_def run_ds_def
          run_syms_def step_sym_def [abs_def])
  qed
  show "input_ok ws \<Longrightarrow> fires r (run_input r (rd_start_anchored r) ws)
      = union_fires (am_nfas m) rd_start_anchored ws"
    using run [OF starts(1)] starts(2) merge_meaning_input [OF mf] by (simp add: r_def merged_dfa_def)
  show "input_ok ws \<Longrightarrow> fires r (run_input r (rd_start_floating r) ws)
      = union_fires (am_nfas m) rd_start_floating ws"
    using run [OF starts(3)] starts(4) merge_meaning_input [OF mf] by (simp add: r_def merged_dfa_def)
  show "input_ok ws \<Longrightarrow> fires r (run_input r DEAD_STATE ws)
      = union_fires (am_nfas m) (\<lambda>_. DEAD_STATE) ws"
    using run [of DEAD_STATE] starts(5) merge_meaning_input [OF mf] by (simp add: DEAD_STATE_def)
qed

lemma minimize_keeps:
  assumes r: "dfa_wf r" "alpha_ok r"
  shows "\<exists>r' h. minimize_hopcroft mi r = Some r' \<and> dfa_wf r' \<and> alpha_ok r' \<and> h DEAD_STATE = DEAD_STATE
    \<and> rd_start_anchored r' = h (rd_start_anchored r) \<and> rd_start_floating r' = h (rd_start_floating r)
    \<and> (\<forall>p < length (rd_states r). h p < length (rd_states r')
        \<and> (\<forall>ws. input_ok ws \<longrightarrow> fires r' (run_input r' (h p) ws) = fires r (run_input r p ws)))"
proof (cases mi)
  case False
  then show ?thesis using r
    by (intro exI [of _ r] exI [of _ id]) (simp add: minimize_hopcroft_def)
next
  case True
  obtain r' h where q: "minimize_hopcroft True r = Some r'" "dfa_quotient r r' h"
    using minimize_quotient [OF r(1)] .
  have keep: "dfa_wf r'" "rd_alpha_size r' = rd_alpha_size r" "rd_alpha_remap r' = rd_alpha_remap r"
    "rd_start_anchored r' = h (rd_start_anchored r)" "rd_start_floating r' = h (rd_start_floating r)"
    "\<forall>p < length (rd_states r). h p < length (rd_states r') \<and> h p \<le> p"
    using q(2) by (simp_all add: dfa_quotient_def)
  have "0 < length (rd_states r)" using r(1) by (auto simp: dfa_wf_def)
  then have "h DEAD_STATE = DEAD_STATE" using keep(6) by (auto simp: DEAD_STATE_def)
  moreover have "word_ok r (map (\<lambda>c. rd_alpha_remap r ! c) ws)" if "input_ok ws" for ws
  proof -
    have "rd_alpha_remap r ! c < rd_alpha_size r" if "c < ALPHABET_SIZE" for c
      using r(2) by (rule_tac byte_or_top [OF that]) (auto simp: alpha_ok_def intro: Suc_lessD)
    with that show ?thesis by (auto simp: word_ok_def input_ok_def)
  qed
  then have "fires r' (run_input r' (h p) ws) = fires r (run_input r p ws)"
    if "p < length (rd_states r)" "input_ok ws" for p ws
    using quotient_fires [OF r(1) q(2) that(1)] that(2) by (simp add: run_input_def keep(3))
  moreover have "alpha_ok r'" using r(2) by (simp add: alpha_ok_def keep(2,3))
  ultimately show ?thesis
    using q(1) keep True by (intro exI [of _ r'] exI [of _ h]) simp
qed

text \<open>What a merge of several DFAs gives.\<close>

definition merge_inputs :: "raw_dfa list \<Rightarrow> bool" where
  "merge_inputs dfas = (dfas \<noteq> [] \<and> (\<forall>r \<in> set dfas. dfa_wf r \<and> alpha_ok r)
     \<and> (\<exists>r \<in> set dfas. rd_start_anchored r \<noteq> DEAD_STATE))"

lemma mergeAllDfas_result:
  assumes dfas: "merge_inputs dfas" and L: "2 < L" "L < 2 ^ 16" and prune: "\<not> h \<or> rm = None"
  shows "\<exists>res. mergeAllDfas rm h mi L dfas = Some res \<and>
    (\<forall>r. res = Some r \<longrightarrow> dfa_wf r \<and> alpha_ok r \<and>
      (\<forall>ws. input_ok ws \<longrightarrow>
         fires r (run_input r (rd_start_anchored r) ws) = union_fires dfas rd_start_anchored ws
         \<and> fires r (run_input r (rd_start_floating r) ws) = union_fires dfas rd_start_floating ws
         \<and> fires r (run_input r DEAD_STATE ws) = union_fires dfas (\<lambda>_. DEAD_STATE) ws))"
proof -
  have "\<forall>r \<in> set dfas. alpha_ok r" using dfas by (simp add: merge_inputs_def)
  from new_Automaton_Merge_for [OF this, of rm h] obtain m where m:
    "new_Automaton_Merge rm h dfas = Some m" "merge_for dfas m" "\<not> am_prunable m"
    using prune by blast
  have nf: "am_nfas m = dfas" using m(2) by (simp add: merge_for_def)
  have "am_as m \<noteq> am_dead m"
    using dfas m(2) by (auto simp: merge_inputs_def merge_for_def DEAD_STATE_def
      map_replicate_const [symmetric])
  then have valid: "merge_valid m" using dfas m(2,3) nf by (simp add: merge_valid_def merge_inputs_def)
  have lt: "length (au_initial (Automaton_of m)) < L"
    using L(1) by (simp add: Automaton_of_def merge_initial_def)
  show ?thesis
  proof (cases rule: determinise_cases [OF merge.starts_distinct [OF valid] lt L(2), where default_set = "[]"])
    case (1 ds sets)
    define r where "r = merged_dfa (rd_kind (hd dfas)) m ds"
    note ok = merged_dfa_ok [OF valid L 1(1) r_def, unfolded nf]
    obtain r' h' where min: "minimize_hopcroft mi r = Some r'" "dfa_wf r'" "alpha_ok r'"
      "h' DEAD_STATE = DEAD_STATE" "rd_start_anchored r' = h' (rd_start_anchored r)"
      "rd_start_floating r' = h' (rd_start_floating r)"
      "\<forall>p < length (rd_states r). h' p < length (rd_states r')
        \<and> (\<forall>ws. input_ok ws \<longrightarrow> fires r' (run_input r' (h' p) ws) = fires r (run_input r p ws))"
      using minimize_keeps [OF ok(1,2), of mi] by blast
    have st: "rd_start_anchored r < length (rd_states r)" "rd_start_floating r < length (rd_states r)"
      "DEAD_STATE < length (rd_states r)"
      using ok(1) by (auto simp: dfa_wf_def DEAD_STATE_def)
    have "mergeAllDfas rm h mi L dfas = Some (Some (if shouldMinimize m then r' else r))"
      using m(1) 1(1) min(1) by (simp add: mergeAllDfas_def Let_def r_def)
    moreover have "fires r' (run_input r' (h' p) ws) = fires r (run_input r p ws)"
      if "p < length (rd_states r)" "input_ok ws" for p ws using min(7) that by blast
    note this [OF st(1)] this [OF st(2)] this [OF st(3)]
    ultimately show ?thesis using ok min(2-6) by auto
  next
    case 2
    then show ?thesis using m(1) by (intro exI [of _ None]) (simp add: mergeAllDfas_def)
  qed
qed

text \<open>
  DFAs for the queue of merges: the dead state never fires, some input fires from the anchored
  start state.
\<close>

definition live_dfa :: "raw_dfa \<Rightarrow> bool" where
  "live_dfa r = (dfa_wf r \<and> alpha_ok r
     \<and> (\<forall>ws. input_ok ws \<longrightarrow> fires r (run_input r DEAD_STATE ws) = ({}, {}))
     \<and> (\<exists>ws. input_ok ws \<and> fires r (run_input r (rd_start_anchored r) ws) \<noteq> ({}, {})))"

definition same_reports :: "raw_dfa list \<Rightarrow> raw_dfa list \<Rightarrow> bool" where
  "same_reports ds es = (\<forall>ws. input_ok ws \<longrightarrow>
     union_fires ds rd_start_anchored ws = union_fires es rd_start_anchored ws
     \<and> union_fires ds rd_start_floating ws = union_fires es rd_start_floating ws)"

lemma live_start: "live_dfa r \<Longrightarrow> rd_start_anchored r \<noteq> DEAD_STATE"
  by (auto simp: live_dfa_def)

lemma union_fires_eqI:
  assumes "set ds = set es"
  shows "union_fires ds start ws = union_fires es start ws"
  using assms by (simp add: union_fires_def)

lemma union_fires_append:
  "union_fires (ds @ es) start ws =
     (fst (union_fires ds start ws) \<union> fst (union_fires es start ws),
      snd (union_fires ds start ws) \<union> snd (union_fires es start ws))"
  by (simp add: union_fires_def)

lemma union_fires_single [simp]: "union_fires [r] start ws = fires r (run_input r (start r) ws)"
  by (simp add: union_fires_def)

lemma same_reports_refl [simp]: "same_reports ds ds"
  by (simp add: same_reports_def)

lemma same_reports_trans: "same_reports a b \<Longrightarrow> same_reports b c \<Longrightarrow> same_reports a c"
  by (simp add: same_reports_def)

lemma same_reports_append: "same_reports a b \<Longrightarrow> same_reports (a @ c) (b @ c)"
  by (simp add: same_reports_def union_fires_append)

lemma same_reports_set: "set a = set b \<Longrightarrow> same_reports a b"
  by (simp add: same_reports_def union_fires_def)

lemma mergeTwo_mergeAll: "mergeTwoDfas rm h mi L d1 d2 = mergeAllDfas rm h mi L [d1, d2]"
  unfolding mergeTwoDfas_def mergeAllDfas_def list.sel(1) ..

lemma mergeTwo_live:
  assumes live: "live_dfa d1" "live_dfa d2" and L: "2 < L" "L < 2 ^ 16" "\<not> h \<or> rm = None"
  shows "\<exists>res. mergeTwoDfas rm h mi L d1 d2 = Some res \<and>
    (\<forall>r. res = Some r \<longrightarrow> live_dfa r \<and> same_reports [r] [d1, d2])"
proof -
  have "merge_inputs [d1, d2]" using live live_start by (auto simp: merge_inputs_def live_dfa_def)
  from mergeAllDfas_result [OF this L] obtain res where res:
    "mergeTwoDfas rm h mi L d1 d2 = Some res" and
    r: "\<And>r. res = Some r \<Longrightarrow> dfa_wf r \<and> alpha_ok r \<and>
      (\<forall>ws. input_ok ws \<longrightarrow>
         fires r (run_input r (rd_start_anchored r) ws) = union_fires [d1, d2] rd_start_anchored ws
         \<and> fires r (run_input r (rd_start_floating r) ws) = union_fires [d1, d2] rd_start_floating ws
         \<and> fires r (run_input r DEAD_STATE ws) = union_fires [d1, d2] (\<lambda>_. DEAD_STATE) ws)"
    unfolding mergeTwo_mergeAll by blast
  have dead: "union_fires [d1, d2] (\<lambda>_. DEAD_STATE) ws = ({}, {})" if "input_ok ws" for ws
    using that live by (simp add: live_dfa_def union_fires_def)
  obtain ws where "input_ok ws" "fires d1 (run_input d1 (rd_start_anchored d1) ws) \<noteq> ({}, {})"
    using live(1) by (auto simp: live_dfa_def)
  then have fire: "input_ok ws" "union_fires [d1, d2] rd_start_anchored ws \<noteq> ({}, {})"
    by (auto simp: union_fires_def prod_eq_iff)
  show ?thesis
  proof (intro exI [of _ res] conjI allI impI)
    fix r
    assume "res = Some r"
    note r = r [OF this]
    show "live_dfa r"
      unfolding live_dfa_def using r dead fire by (intro conjI allI impI exI [of _ ws]) auto
    show "same_reports [r] [d1, d2]" using r by (simp add: same_reports_def)
  qed (rule res)
qed

lemma merge_queue_reports:
  assumes merge: "\<And>d1 d2. live_dfa d1 \<Longrightarrow> live_dfa d2 \<Longrightarrow> \<exists>res. merge d1 d2 = Some res \<and>
      (\<forall>r. res = Some r \<longrightarrow> live_dfa r \<and> same_reports [r] [d1, d2])"
  shows "\<forall>r \<in> set q. live_dfa r \<Longrightarrow> \<exists>out. merge_queue merge q dfas = Some (dfas @ out)
     \<and> (\<forall>r \<in> set out. live_dfa r) \<and> length out \<le> length q \<and> (q \<noteq> [] \<longrightarrow> out \<noteq> [])
     \<and> same_reports out q"
proof (induction "length q" arbitrary: q dfas rule: less_induct)
  case less
  consider "q = []" | d where "q = [d]" | d1 d2 q' where "q = d1 # d2 # q'"
    by (metis list.exhaust)
  then show ?case
  proof cases
    case 2
    then show ?thesis using less.prems by (intro exI [of _ "[d]"]) simp
  next
    case 3
    obtain res where res: "merge d1 d2 = Some res"
      "\<And>r. res = Some r \<Longrightarrow> live_dfa r \<and> same_reports [r] [d1, d2]"
      using merge [of d1 d2] less.prems 3 by auto
    show ?thesis
    proof (cases res)
      case (Some r)
      note r = res(2) [OF Some]
      obtain out where out: "merge_queue merge (q' @ [r]) dfas = Some (dfas @ out)"
        "\<forall>r \<in> set out. live_dfa r" "length out \<le> length (q' @ [r])" "out \<noteq> []"
        "same_reports out (q' @ [r])"
        using less.hyps [of "q' @ [r]" dfas] less.prems 3 r by auto
      have "same_reports (q' @ [r]) ([r] @ q')" by (rule same_reports_set) simp
      with out(5) have "same_reports out ([d1, d2] @ q')"
        using same_reports_append r same_reports_trans by blast
      then show ?thesis using out 3 res(1) Some by (intro exI [of _ out]) simp
    next
      case None
      define big small where "big = (if length (rd_states d2) > length (rd_states d1) then d2 else d1)"
        and "small = (if length (rd_states d2) > length (rd_states d1) then d1 else d2)"
      have bs: "live_dfa big" "live_dfa small" "set [big, small] = set [d1, d2]"
        using less.prems 3 by (auto simp: big_def small_def)
      have step: "merge_queue merge q dfas = merge_queue merge (q' @ [small]) (dfas @ [big])"
        using res(1) None 3 by (simp add: big_def small_def)
      obtain out where out: "merge_queue merge (q' @ [small]) (dfas @ [big]) = Some ((dfas @ [big]) @ out)"
        "\<forall>r \<in> set out. live_dfa r" "length out \<le> length (q' @ [small])"
        "same_reports out (q' @ [small])"
        using less.hyps [of "q' @ [small]" "dfas @ [big]"] less.prems 3 bs(2) by auto
      have "same_reports (big # out) (out @ [big])" by (rule same_reports_set) simp
      moreover have "same_reports (out @ [big]) ((q' @ [small]) @ [big])"
        by (rule same_reports_append [OF out(4)])
      moreover have "same_reports ((q' @ [small]) @ [big]) q"
        by (rule same_reports_set) (use bs(3) 3 in auto)
      ultimately have "same_reports (big # out) q" using same_reports_trans by blast
      then show ?thesis using step out bs(1) 3 by (intro exI [of _ "big # out"]) simp
    qed
  qed simp
qed

section \<open>Properties\<close>

text \<open>
  C26. The common alphabet is exact: the construction always ends, two input symbols share a
  class of the merged alphabet exactly when every merged DFA puts them in one class, \<open>TOP\<close> has
  the last class for itself, and \<open>unalpha\<close> names a member of each class.
\<close>

theorem merge_alphabet_exact:
  assumes "dfas \<noteq> []" "\<forall>r \<in> set dfas. alpha_ok r"
  shows "\<exists>m. new_Automaton_Merge rm highlanderPruneDFA dfas = Some m
    \<and> (\<forall>c < ALPHABET_SIZE. am_alpha m ! c < am_alphasize m
        \<and> (\<forall>d < ALPHABET_SIZE. am_alpha m ! c = am_alpha m ! d \<longleftrightarrow>
             (\<forall>r \<in> set dfas. rd_alpha_remap r ! c = rd_alpha_remap r ! d)))
    \<and> am_alpha m ! TOP = am_alphasize m - 1 \<and> am_alphasize m \<le> ALPHABET_SIZE
    \<and> (\<forall>a < am_alphasize m. am_unalpha m ! a < ALPHABET_SIZE \<and> am_alpha m ! (am_unalpha m ! a) = a)"
proof -
  obtain m where m: "new_Automaton_Merge rm highlanderPruneDFA dfas = Some m" "merge_for dfas m"
    using new_Automaton_Merge_for [OF assms(2), of rm highlanderPruneDFA] by blast
  have "am_alpha m ! c < am_alphasize m" if "c < ALPHABET_SIZE" for c
    using classes_below [OF m(2), of "[c]"] that by (simp add: input_ok_def)
  then show ?thesis
    using m assms(1) by (intro exI [of _ m]) (auto simp: merge_for_def merge_alpha_ok_def same_class_def)
qed

text \<open>Two DFAs over the alphabet of a single character class: one fires at once, one always.\<close>

definition merge_example1 :: raw_dfa where
  "merge_example1 = \<lparr>rd_kind = NFA_OUTFIX,
     rd_states = [\<lparr>ds_next = [0, 0], ds_daddy = 0, ds_impl_id = 0, ds_reports = {}, ds_reports_eod = {}\<rparr>,
                  \<lparr>ds_next = [0, 1], ds_daddy = 0, ds_impl_id = 0, ds_reports = {3}, ds_reports_eod = {}\<rparr>],
     rd_start_anchored = 1, rd_start_floating = 0, rd_alpha_size = 2,
     rd_alpha_remap = replicate 256 0 @ [1]\<rparr>"

definition merge_example2 :: raw_dfa where
  "merge_example2 = merge_example1\<lparr>rd_states :=
     [\<lparr>ds_next = [0, 0], ds_daddy = 0, ds_impl_id = 0, ds_reports = {}, ds_reports_eod = {}\<rparr>,
      \<lparr>ds_next = [1, 1], ds_daddy = 0, ds_impl_id = 0, ds_reports = {}, ds_reports_eod = {4}\<rparr>],
     rd_start_floating := 1\<rparr>"

lemma u8_nth_replicate: "(replicate 256 x @ ys) ! unat (c :: u8) = x"
  using unat_u8_npos [of c] by (simp add: nth_append cr_npos_def)

lemma merge_examples_ok:
  "dfa_wf merge_example1" "alpha_ok merge_example1" "dfa_wf merge_example2" "alpha_ok merge_example2"
proof -
  have "(replicate 256 0 @ [1 :: nat]) ! TOP = 1" by (simp add: nth_append TOP_def)
  then show "dfa_wf merge_example1" "alpha_ok merge_example1" "dfa_wf merge_example2" "alpha_ok merge_example2"
    by (simp_all add: merge_example1_def merge_example2_def dfa_wf_def alpha_ok_def ALPHABET_SIZE_def
      u8_nth_replicate)
qed

lemma example_step: "a < 2 \<Longrightarrow> step_sym merge_example1 0 a = 0 \<and> step_sym merge_example2 0 a = 0"
  by (auto simp: merge_example1_def merge_example2_def step_sym_def less_2_cases_iff)

lemma example_size: "rd_alpha_size merge_example1 = 2" "rd_alpha_size merge_example2 = 2"
  by (simp_all add: merge_example1_def merge_example2_def)

lemma example_dead: "run_syms merge_example1 0 w = 0 \<or> \<not> word_ok merge_example1 w"
  "run_syms merge_example2 0 w = 0 \<or> \<not> word_ok merge_example2 w"
  by (induction w) (auto simp: example_step example_size)

theorem merge_alphabet_exact_witness:
  "\<exists>m. new_Automaton_Merge None False [merge_example1, merge_example2] = Some m
    \<and> am_alpha m ! TOP = am_alphasize m - 1"
  using merge_alphabet_exact [of "[merge_example1, merge_example2]" None False] merge_examples_ok by auto



text \<open>
  C25. \<open>mergeDfas\<close> merges through its queue, keeping apart what exceeds the state limit: it always
  returns, with at most as many DFAs as it was given, and the DFAs it returns fire together,
  after every input, exactly the reports of the DFAs it was given.
\<close>

theorem merge_dfas_reports:
  assumes "\<forall>r \<in> set dfas. live_dfa r"
    and "2 < max_states" "max_states \<le> MAX_DFA_STATES" "\<not> highlanderPruneDFA \<or> rm = None"
  shows "\<exists>out. mergeDfas rm highlanderPruneDFA minimizeDFA max_states dfas = Some out
    \<and> length out \<le> length dfas \<and> (\<forall>r \<in> set out. live_dfa r)
    \<and> (\<forall>ws. input_ok ws \<longrightarrow>
         union_fires out rd_start_anchored ws = union_fires dfas rd_start_anchored ws
         \<and> union_fires out rd_start_floating ws = union_fires dfas rd_start_floating ws)"
proof (cases "length dfas \<le> 1")
  case True
  then show ?thesis using assms(1) by (intro exI [of _ dfas]) (simp add: mergeDfas_def)
next
  case False
  have "max_states < 2 ^ 16" using assms(3) by (simp add: MAX_DFA_STATES_def)
  from merge_queue_reports [where dfas = "[]",
      OF mergeTwo_live [where mi = minimizeDFA, OF _ _ assms(2) this assms(4)] assms(1)]
  obtain out where "merge_queue (mergeTwoDfas rm highlanderPruneDFA minimizeDFA max_states) dfas [] = Some out"
    "\<forall>r \<in> set out. live_dfa r" "length out \<le> length dfas" "same_reports out dfas" by auto
  then show ?thesis using False by (intro exI [of _ out]) (simp add: mergeDfas_def same_reports_def)
qed

theorem merge_dfas_reports_witness:
  "\<exists>out. mergeDfas None True True 100 [merge_example1, merge_example2] = Some out \<and> length out \<le> 2"
proof -
  have live: "live_dfa r" if "r = merge_example1 \<or> r = merge_example2" for r
  proof -
    have "fires r (run_input r DEAD_STATE ws) = ({}, {})" if "input_ok ws" for ws
    proof -
      have "word_ok r (map (\<lambda>c. rd_alpha_remap r ! c) ws)"
        using \<open>input_ok ws\<close> \<open>r = merge_example1 \<or> r = merge_example2\<close>
        by (auto simp: word_ok_def input_ok_def merge_example1_def merge_example2_def nth_append
            ALPHABET_SIZE_def)
      then have "run_input r DEAD_STATE ws = 0"
        using example_dead \<open>r = merge_example1 \<or> r = merge_example2\<close>
        by (auto simp: run_input_def DEAD_STATE_def)
      then show ?thesis
        using \<open>r = merge_example1 \<or> r = merge_example2\<close>
        by (auto simp: fires_def merge_example1_def merge_example2_def)
    qed
    moreover have "input_ok []" "fires r (run_input r (rd_start_anchored r) []) \<noteq> ({}, {})"
      using that by (auto simp: input_ok_def run_input_def fires_def merge_example1_def merge_example2_def)
    ultimately show ?thesis using that merge_examples_ok unfolding live_dfa_def by blast
  qed
  show ?thesis
    using merge_dfas_reports [of "[merge_example1, merge_example2]" 100 True None True] live
    by (auto simp: MAX_DFA_STATES_def)
qed

end
