(* ===== verification/DfaUtil.thy ===== *)
theory DfaUtil
  imports RawDfa "HOL-Library.While_Combinator"
begin

text \<open>
  The transformations and tests of \<open>src/nfa/mcclellancompile_util.cpp\<close> on raw DFAs: removing the
  leading dots, distances from the start, clearing reports that lie too deep, and the search for
  an early death.  A distance \<open>~0U\<close> is \<open>None\<close>; the breadth-first loop is a \<open>while_option\<close>, its
  value \<open>None\<close> if it does not end.
\<close>

section \<open>Leading dots\<close>

definition INIT_STATE :: dstate_id_t where
  "INIT_STATE = 1"

function dots_loop :: "raw_dfa \<Rightarrow> nat \<Rightarrow> nat" where
  "dots_loop raw i =
     (if i < length (rd_states raw) \<and> i \<noteq> rd_start_floating raw then
        if list_ex (\<lambda>s. ds_next (rd_states raw ! i) ! s \<noteq> i + 1) [0..<getImplAlphaSize raw] then i
        else if state_has_reports raw (ds_next (rd_states raw ! i) ! 0) then i
        else dots_loop raw (i + 1)
      else i)"
  by pat_completeness auto
termination by (relation "measure (\<lambda>(raw, i). length (rd_states raw) - i)") auto

declare dots_loop.simps [simp del]

definition count_dots :: "raw_dfa \<Rightarrow> nat" where
  "count_dots raw =
     (let i = dots_loop raw INIT_STATE; dot_count = i - INIT_STATE in
      if list_ex (\<lambda>i. list_ex (\<lambda>s. let n = ds_next (rd_states raw ! i) ! s in
            n \<noteq> DEAD_STATE \<and> n \<le> dot_count) [0..<getImplAlphaSize raw]) [i..<length (rd_states raw)]
      then 0 else dot_count)"

text \<open>Subtraction assigned to a \<open>u16\<close>.\<close>

definition sub16 :: "nat \<Rightarrow> nat \<Rightarrow> nat" where
  "sub16 n count = unat (word_of_nat n - word_of_nat count :: u16)"

definition prune_state :: "nat \<Rightarrow> nat \<Rightarrow> dstate \<Rightarrow> dstate" where
  "prune_state alpha_size count ds =
     (let ds = ds\<lparr>ds_daddy := (if ds_daddy ds > count then sub16 (ds_daddy ds) count else DEAD_STATE)\<rparr>
      in ds\<lparr>ds_next := foldl (\<lambda>next j. if next ! j \<noteq> 0 then next[j := sub16 (next ! j) count] else next)
              (ds_next ds) [0..<alpha_size]\<rparr>)"

definition prune_leading_states :: "raw_dfa \<Rightarrow> nat \<Rightarrow> raw_dfa" where
  "prune_leading_states raw count =
     (if count = 0 then raw
      else
        let states = foldl (\<lambda>states i. states[i - count := prune_state (rd_alpha_size raw) count (states ! i)])
              (rd_states raw) [INIT_STATE + count..<length (rd_states raw)]
        in raw\<lparr>rd_states := take (length states - count) states\<rparr>)"

definition remove_leading_dots :: "raw_dfa \<Rightarrow> nat \<times> raw_dfa" where
  "remove_leading_dots raw =
     (let count = count_dots raw in (count, prune_leading_states raw count))"

section \<open>Distances and deep reports\<close>

definition visit_next ::
  "dstate_id_t list \<times> nat option list \<Rightarrow> nat \<Rightarrow> dstate_id_t \<Rightarrow> dstate_id_t list \<times> nat option list" where
  "visit_next st d t =
     (let (to_visit, dist) = st in
      if t = DEAD_STATE then (to_visit, dist)
      else if dist ! t = None then (to_visit @ [t], dist[t := Some (d + 1)])
      else (to_visit, dist))"

definition dist_round ::
  "raw_dfa \<Rightarrow> dstate_id_t list \<times> nat option list \<times> nat \<Rightarrow> dstate_id_t list \<times> nat option list \<times> nat" where
  "dist_round raw st =
     (let (to_visit, dist, last_d) = st; s = hd to_visit; d = the (dist ! s);
          (to_visit, dist) = foldl (\<lambda>st t. visit_next st d t) (tl to_visit, dist) (ds_next (rd_states raw ! s))
      in (to_visit, dist, d))"

definition calc_min_dist_from_bob :: "raw_dfa \<Rightarrow> (nat \<times> nat option list) option" where
  "calc_min_dist_from_bob raw =
     map_option (\<lambda>(to_visit, dist, last_d). (last_d, dist))
       (while_option (\<lambda>(to_visit, dist, last_d). to_visit \<noteq> []) (dist_round raw)
         ([rd_start_anchored raw],
          (replicate (length (rd_states raw)) None)[rd_start_anchored raw := Some 0], 0))"

text \<open>\<open>~0U\<close> is larger than any offset.\<close>

definition deeper :: "nat option \<Rightarrow> nat \<Rightarrow> bool" where
  "deeper d max_offset = (case d of None \<Rightarrow> True | Some d \<Rightarrow> d > max_offset)"

definition clear_state :: "nat option list \<Rightarrow> nat \<Rightarrow> raw_dfa \<times> bool \<Rightarrow> dstate_id_t \<Rightarrow> raw_dfa \<times> bool" where
  "clear_state bob_dist max_offset st s =
     (let (raw, changed) = st in
      if deeper (bob_dist ! s) max_offset \<and> state_has_reports raw s
      then (raw\<lparr>rd_states := (rd_states raw)[s := (rd_states raw ! s)\<lparr>ds_reports := {}, ds_reports_eod := {}\<rparr>]\<rparr>, True)
      else (raw, changed))"

definition clear_deeper_reports :: "raw_dfa \<Rightarrow> nat \<Rightarrow> (bool \<times> raw_dfa) option" where
  "clear_deeper_reports raw max_offset =
     map_option (\<lambda>(max_min_dist_bob, bob_dist).
         if max_min_dist_bob \<le> max_offset then (False, raw)
         else
           let (raw', changed) = foldl (clear_state bob_dist max_offset) (raw, False)
                 [DEAD_STATE + 1..<length (rd_states raw)]
           in if \<not> changed then (False, raw')
              else if list_all (\<lambda>ds. ds_reports ds = {} \<and> ds_reports_eod ds = {}) (rd_states raw')
              then (True, raw'\<lparr>rd_start_anchored := DEAD_STATE, rd_start_floating := DEAD_STATE\<rparr>)
              else (True, raw'))
       (calc_min_dist_from_bob raw)"

section \<open>Early death\<close>

text \<open>The loop over the successors stops at the first success; \<open>visited\<close> is a map.\<close>

fun die_loop :: "(dstate_id_t \<Rightarrow> (dstate_id_t \<rightharpoonup> nat) \<Rightarrow> bool \<times> (dstate_id_t \<rightharpoonup> nat)) \<Rightarrow> dstate_id_t list \<Rightarrow>
    (dstate_id_t \<rightharpoonup> nat) \<Rightarrow> bool \<times> (dstate_id_t \<rightharpoonup> nat)" where
  "die_loop die [] visited = (False, visited)"
| "die_loop die (next # rest) visited =
     (let (b, visited) = die next visited in if b then (True, visited) else die_loop die rest visited)"

fun can_die_early_from :: "raw_dfa \<Rightarrow> nat \<Rightarrow> dstate_id_t \<Rightarrow> (dstate_id_t \<rightharpoonup> nat) \<Rightarrow>
    bool \<times> (dstate_id_t \<rightharpoonup> nat)" where
  "can_die_early_from raw 0 s visited =
     (if visited s \<noteq> None then (False, visited)
      else (s = DEAD_STATE, visited(s \<mapsto> 0)))"
| "can_die_early_from raw (Suc age_limit) s visited =
     (if visited s \<noteq> None \<and> the (visited s) \<ge> Suc age_limit then (False, visited)
      else let visited = visited(s \<mapsto> Suc age_limit) in
        if s = DEAD_STATE then (True, visited)
        else die_loop (can_die_early_from raw age_limit) (ds_next (rd_states raw ! s)) visited)"

definition can_die_early :: "raw_dfa \<Rightarrow> nat \<Rightarrow> bool" where
  "can_die_early raw age_limit =
     fst (can_die_early_from raw age_limit (rd_start_anchored raw) Map.empty)"

section \<open>Lemmas: early death\<close>

text \<open>A state can die within \<open>n\<close> steps.\<close>

definition dies :: "raw_dfa \<Rightarrow> nat \<Rightarrow> dstate_id_t \<Rightarrow> bool" where
  "dies raw n s = (\<exists>w. length w \<le> n \<and> word_ok raw w \<and> run_syms raw s w = DEAD_STATE)"

definition succs_of :: "raw_dfa \<Rightarrow> dstate_id_t \<Rightarrow> dstate_id_t set" where
  "succs_of raw s = set (ds_next (rd_states raw ! s))"

lemma succs_of_step:
  assumes "dfa_wf raw" "s < length (rd_states raw)"
  shows "succs_of raw s = {step_sym raw s a | a. a < rd_alpha_size raw}"
proof -
  have "length (ds_next (rd_states raw ! s)) = rd_alpha_size raw" using assms by (simp add: dfa_wf_def)
  then show ?thesis by (auto simp: succs_of_def step_sym_def set_conv_nth)
qed

lemma succs_of_below:
  assumes "dfa_wf raw" "s < length (rd_states raw)" "t \<in> succs_of raw s"
  shows "t < length (rd_states raw)"
  using assms step_sym_below by (auto simp: succs_of_step)

text \<open>Entries outside the stack \<open>P\<close> of calls in progress have been followed up.\<close>

definition visited_ok :: "raw_dfa \<Rightarrow> dstate_id_t set \<Rightarrow> (dstate_id_t \<rightharpoonup> nat) \<Rightarrow> bool" where
  "visited_ok raw P v =
     (v DEAD_STATE = None \<and> (\<forall>t b. v t = Some b \<longrightarrow> t < length (rd_states raw))
      \<and> (\<forall>t b. v t = Some (Suc b) \<longrightarrow> t \<notin> P \<longrightarrow> (\<forall>u \<in> succs_of raw t. \<exists>c \<ge> b. v u = Some c)))"

definition grows :: "(dstate_id_t \<rightharpoonup> nat) \<Rightarrow> (dstate_id_t \<rightharpoonup> nat) \<Rightarrow> bool" where
  "grows v v' = (\<forall>t b. v t = Some b \<longrightarrow> (\<exists>c \<ge> b. v' t = Some c))"

lemma grows_refl [simp]: "grows v v"
  by (auto simp: grows_def)

lemma grows_trans: "grows u v \<Longrightarrow> grows v w \<Longrightarrow> grows u w"
  unfolding grows_def by (meson order_trans)

definition die_result ::
  "raw_dfa \<Rightarrow> dstate_id_t set \<Rightarrow> (dstate_id_t \<rightharpoonup> nat) \<Rightarrow> (dstate_id_t \<rightharpoonup> nat) \<Rightarrow> bool" where
  "die_result raw P v v' = (visited_ok raw P v' \<and> grows v v' \<and> (\<forall>p \<in> P. v' p = v p))"

lemma die_result_trans: "die_result raw P u v \<Longrightarrow> die_result raw P v w \<Longrightarrow> die_result raw P u w"
  unfolding die_result_def using grows_trans by metis

definition die_spec :: "raw_dfa \<Rightarrow> nat \<Rightarrow> (dstate_id_t \<Rightarrow> (dstate_id_t \<rightharpoonup> nat) \<Rightarrow> bool \<times> (dstate_id_t \<rightharpoonup> nat)) \<Rightarrow> bool" where
  "die_spec raw n die = (\<forall>s v P b v'. s < length (rd_states raw) \<longrightarrow> visited_ok raw P v \<longrightarrow>
      (\<forall>p \<in> P. \<exists>c > n. v p = Some c) \<longrightarrow> die s v = (b, v') \<longrightarrow>
      (if b then dies raw n s else die_result raw P v v' \<and> (\<exists>c \<ge> n. v' s = Some c)))"

lemma die_loop_spec:
  assumes spec: "die_spec raw n die"
  shows "\<forall>t \<in> set ts. t < length (rd_states raw) \<Longrightarrow> visited_ok raw P v \<Longrightarrow>
    \<forall>p \<in> P. \<exists>c > n. v p = Some c \<Longrightarrow> die_loop die ts v = (b, v') \<Longrightarrow>
    (if b then \<exists>t \<in> set ts. dies raw n t
     else die_result raw P v v' \<and> (\<forall>t \<in> set ts. \<exists>c \<ge> n. v' t = Some c))"
proof (induction ts arbitrary: v)
  case Nil
  then show ?case by (simp add: die_result_def split: if_splits)
next
  case (Cons t ts)
  obtain b1 v1 where 1: "die t v = (b1, v1)" by fastforce
  have s: "if b1 then dies raw n t else die_result raw P v v1 \<and> (\<exists>c \<ge> n. v1 t = Some c)"
    by (rule spec [unfolded die_spec_def, rule_format, OF _ Cons.prems(2) _ 1])
      (use Cons.prems(1,3) in auto)
  show ?case
  proof (cases b1)
    case True
    then show ?thesis using s 1 Cons.prems(4) by auto
  next
    case False
    then have v1: "die_result raw P v v1" "\<exists>c \<ge> n. v1 t = Some c" using s by auto
    have stack: "\<forall>p \<in> P. \<exists>c > n. v1 p = Some c" "visited_ok raw P v1"
      using Cons.prems(3) v1(1) by (auto simp: die_result_def)
    have rest: "die_loop die ts v1 = (b, v')" using Cons.prems(4) 1 False by simp
    note IH = Cons.IH [OF _ stack(2,1) rest]
    show ?thesis
    proof (cases b)
      case True
      then show ?thesis using IH Cons.prems(1) by auto
    next
      case b: False
      then have v': "die_result raw P v1 v'" "\<forall>t \<in> set ts. \<exists>c \<ge> n. v' t = Some c"
        using IH Cons.prems(1) by auto
      moreover have "\<exists>c \<ge> n. v' t = Some c"
        using v1(2) v'(1) unfolding die_result_def grows_def by (meson order_trans)
      ultimately show ?thesis using b die_result_trans [OF v1(1)] by auto
    qed
  qed
qed

lemma dies_mono: "dies raw m s \<Longrightarrow> m \<le> n \<Longrightarrow> dies raw n s"
  unfolding dies_def by (meson order_trans)

lemma dies_dead [simp]: "dies raw n DEAD_STATE"
  unfolding dies_def by (rule exI [of _ "[]"]) simp

lemma dies_Suc:
  assumes "dfa_wf raw" "s < length (rd_states raw)" "t \<in> succs_of raw s" "dies raw n t"
  shows "dies raw (Suc n) s"
proof -
  obtain a where a: "a < rd_alpha_size raw" "t = step_sym raw s a"
    using succs_of_step [OF assms(1,2)] assms(3) by auto
  obtain w where "length w \<le> n" "word_ok raw w" "run_syms raw t w = DEAD_STATE"
    using assms(4) by (auto simp: dies_def)
  then show ?thesis using a unfolding dies_def by (intro exI [of _ "a # w"]) simp
qed

lemma can_die_early_from_spec:
  assumes wf: "dfa_wf raw"
  shows "die_spec raw n (can_die_early_from raw n)"
proof (induction n)
  case 0
  show ?case
    unfolding die_spec_def
  proof (intro allI impI)
    fix s v P b v'
    assume s: "s < length (rd_states raw)" and ok: "visited_ok raw P v"
      and P: "\<forall>p \<in> P. \<exists>c > 0. v p = Some c" and die: "can_die_early_from raw 0 s v = (b, v')"
    show "if b then dies raw 0 s else die_result raw P v v' \<and> (\<exists>c \<ge> 0. v' s = Some c)"
    proof (cases "v s")
      case None
      have "die_result raw P v (v(s \<mapsto> 0))" if "s \<noteq> DEAD_STATE"
        using None ok s P that unfolding die_result_def visited_ok_def grows_def
        by (auto split: if_splits) (metis option.distinct(1))+
      then show ?thesis using None die by (auto split: if_splits)
    next
      case (Some c)
      then show ?thesis using die ok by (auto simp: die_result_def)
    qed
  qed
next
  case (Suc n)
  show ?case
    unfolding die_spec_def
  proof (intro allI impI)
    fix s v P b v'
    assume s: "s < length (rd_states raw)" and ok: "visited_ok raw P v"
      and P: "\<forall>p \<in> P. \<exists>c > Suc n. v p = Some c" and die: "can_die_early_from raw (Suc n) s v = (b, v')"
    show "if b then dies raw (Suc n) s else die_result raw P v v' \<and> (\<exists>c \<ge> Suc n. v' s = Some c)"
    proof (cases "v s \<noteq> None \<and> the (v s) \<ge> Suc n")
      case True
      then show ?thesis using die ok by (auto simp: die_result_def)
    next
      case new: False
      define v1 where "v1 = v(s \<mapsto> Suc n)"
      have sP: "s \<notin> P" using P new by force
      show ?thesis
      proof (cases "s = DEAD_STATE")
        case True
        then have "v s = None" using ok by (simp add: visited_ok_def)
        then have "b" using die True by (simp add: Let_def)
        then show ?thesis using True by simp
      next
        case False
        have loop: "die_loop (can_die_early_from raw n) (ds_next (rd_states raw ! s)) v1 = (b, v')"
          using die by (simp only: can_die_early_from.simps if_not_P [OF new] if_not_P [OF False]
            Let_def v1_def)
        have gr: "grows v v1" using new by (auto simp: grows_def v1_def)
        have ok1: "visited_ok raw (insert s P) v1"
          unfolding visited_ok_def
        proof (intro conjI allI impI ballI)
          show "v1 DEAD_STATE = None" using ok False by (simp add: visited_ok_def v1_def)
          show "t < length (rd_states raw)" if "v1 t = Some b" for t b
            using that ok s by (auto simp: visited_ok_def v1_def split: if_splits)
          fix t b u
          assume t: "v1 t = Some (Suc b)" "t \<notin> insert s P" "u \<in> succs_of raw t"
          then have "\<exists>c \<ge> b. v u = Some c" using ok by (auto simp: visited_ok_def v1_def)
          then show "\<exists>c \<ge> b. v1 u = Some c" using gr unfolding grows_def by (meson order_trans)
        qed
        have P1: "\<forall>p \<in> insert s P. \<exists>c > n. v1 p = Some c"
          using P sP by (auto simp: v1_def intro: Suc_lessD)
        have below: "\<forall>t \<in> set (ds_next (rd_states raw ! s)). t < length (rd_states raw)"
          using succs_of_below [OF wf s] by (simp add: succs_of_def)
        note spec = die_loop_spec [OF Suc.IH below ok1 P1 loop]
        show ?thesis
        proof (cases b)
          case True
          then show ?thesis using spec dies_Suc [OF wf s] by (auto simp: succs_of_def)
        next
          case b: False
          then have res: "die_result raw (insert s P) v1 v'"
            "\<forall>t \<in> succs_of raw s. \<exists>c \<ge> n. v' t = Some c"
            using spec by (auto simp: succs_of_def)
          have vs: "v' s = Some (Suc n)" using res(1) by (simp add: die_result_def v1_def)
          have "visited_ok raw P v'"
            unfolding visited_ok_def
          proof (intro conjI allI impI ballI)
            show "v' DEAD_STATE = None" "\<And>t b. v' t = Some b \<Longrightarrow> t < length (rd_states raw)"
              using res(1) by (auto simp: die_result_def visited_ok_def)
            fix t b u
            assume t: "v' t = Some (Suc b)" "t \<notin> P" "u \<in> succs_of raw t"
            show "\<exists>c \<ge> b. v' u = Some c"
            proof (cases "t = s")
              case True
              then show ?thesis using t vs res(2) by simp
            next
              case False
              then show ?thesis using t res(1) by (simp add: die_result_def visited_ok_def)
            qed
          qed
          moreover have "\<forall>p \<in> P. v' p = v p"
            using res(1) sP by (auto simp: die_result_def v1_def split: if_splits)
          moreover have "grows v v'" using grows_trans [OF gr] res(1) by (simp add: die_result_def)
          ultimately show ?thesis using b vs by (simp add: die_result_def)
        qed
      qed
    qed
  qed
qed

lemma visited_no_death:
  assumes wf: "dfa_wf raw" and ok: "visited_ok raw {} v"
  shows "v s = Some b \<Longrightarrow> length w \<le> b \<Longrightarrow> word_ok raw w \<Longrightarrow> run_syms raw s w \<noteq> DEAD_STATE"
proof (induction w arbitrary: s b)
  case Nil
  then show ?case using ok by (auto simp: visited_ok_def)
next
  case (Cons a w)
  obtain b' where b: "b = Suc b'" using Cons.prems(2) by (cases b) auto
  have s: "s < length (rd_states raw)" using ok Cons.prems(1) by (auto simp: visited_ok_def)
  have "step_sym raw s a \<in> succs_of raw s" using succs_of_step [OF wf s] Cons.prems(3) by auto
  then obtain c where "c \<ge> b'" "v (step_sym raw s a) = Some c"
    using ok Cons.prems(1) b unfolding visited_ok_def by blast
  then show ?case using Cons.IH [of "step_sym raw s a" c] Cons.prems(2,3) b by simp
qed

section \<open>Lemmas: distances\<close>

definition unset :: "nat option list \<Rightarrow> nat" where
  "unset dist = card {t. t < length dist \<and> dist ! t = None}"

lemma unset_update:
  assumes "t < length dist" "dist ! t = None"
  shows "Suc (unset (dist[t := Some k])) = unset dist"
proof -
  have "{u. u < length dist \<and> dist ! u = None} = insert t {u. u < length (dist[t := Some k]) \<and> dist[t := Some k] ! u = None}"
    using assms by (auto simp: nth_list_update)
  moreover have "t \<notin> {u. u < length (dist[t := Some k]) \<and> dist[t := Some k] ! u = None}"
    using assms by simp
  ultimately show ?thesis by (simp add: unset_def)
qed

lemma visit_fold:
  "\<forall>t \<in> set ts. t < length dist \<Longrightarrow> \<exists>more_states dist'.
     foldl (\<lambda>st t. visit_next st d t) (q, dist) ts = (q @ more_states, dist')
     \<and> set more_states = {t \<in> set ts. t \<noteq> DEAD_STATE \<and> dist ! t = None}
     \<and> length dist' = length dist
     \<and> (\<forall>t < length dist. dist' ! t = (if t \<in> set more_states then Some (d + 1) else dist ! t))
     \<and> unset dist' + length more_states = unset dist"
proof (induction ts arbitrary: q dist)
  case Nil
  then show ?case by simp
next
  case (Cons t ts)
  show ?case
  proof (cases "t \<noteq> DEAD_STATE \<and> dist ! t = None")
    case False
    then have "visit_next (q, dist) d t = (q, dist)" by (auto simp: visit_next_def)
    moreover obtain more_states dist' where IH:
      "foldl (\<lambda>st t. visit_next st d t) (q, dist) ts = (q @ more_states, dist')"
      "set more_states = {t \<in> set ts. t \<noteq> DEAD_STATE \<and> dist ! t = None}" "length dist' = length dist"
      "\<forall>t < length dist. dist' ! t = (if t \<in> set more_states then Some (d + 1) else dist ! t)"
      "unset dist' + length more_states = unset dist"
      using Cons.IH [of dist q] Cons.prems by auto
    ultimately show ?thesis
      using False by (intro exI [of _ more_states] exI [of _ dist']) auto
  next
    case True
    define dist1 where "dist1 = dist[t := Some (d + 1)]"
    have "visit_next (q, dist) d t = (q @ [t], dist1)" using True by (simp add: visit_next_def dist1_def)
    moreover obtain more_states dist' where IH:
      "foldl (\<lambda>st t. visit_next st d t) (q @ [t], dist1) ts = ((q @ [t]) @ more_states, dist')"
      "set more_states = {t \<in> set ts. t \<noteq> DEAD_STATE \<and> dist1 ! t = None}" "length dist' = length dist1"
      "\<forall>t < length dist1. dist' ! t = (if t \<in> set more_states then Some (d + 1) else dist1 ! t)"
      "unset dist' + length more_states = unset dist1"
      using Cons.IH [of dist1 "q @ [t]"] Cons.prems by (auto simp: dist1_def)
    moreover have "Suc (unset dist1) = unset dist"
      using unset_update True Cons.prems by (simp add: dist1_def)
    moreover have "set (t # more_states) = {u \<in> set (t # ts). u \<noteq> DEAD_STATE \<and> dist ! u = None}"
      using IH(2) True Cons.prems by (auto simp: dist1_def nth_list_update)
    moreover have "\<forall>u < length dist. dist' ! u = (if u \<in> set (t # more_states) then Some (d + 1) else dist ! u)"
      using IH(4) Cons.prems by (auto simp: dist1_def nth_list_update)
    ultimately show ?thesis
      by (intro exI [of _ "t # more_states"] exI [of _ dist']) (simp add: dist1_def)
  qed
qed

definition word_to :: "raw_dfa \<Rightarrow> nat \<Rightarrow> dstate_id_t \<Rightarrow> bool" where
  "word_to raw n t = (\<exists>w. length w = n \<and> word_ok raw w \<and> run_syms raw (rd_start_anchored raw) w = t)"

lemma word_to_step:
  assumes "word_to raw n s" "a < rd_alpha_size raw"
  shows "word_to raw (Suc n) (step_sym raw s a)"
proof -
  obtain w where "length w = n" "word_ok raw w" "run_syms raw (rd_start_anchored raw) w = s"
    using assms(1) by (auto simp: word_to_def)
  then show ?thesis
    using assms(2) unfolding word_to_def
    by (intro exI [of _ "w @ [a]"]) (auto simp: run_syms_append word_ok_def)
qed

text \<open>The invariant of the breadth-first search; \<open>dist\<close> is right on what is assigned.\<close>

definition bfs_inv :: "raw_dfa \<Rightarrow> dstate_id_t list \<Rightarrow> nat option list \<Rightarrow> nat \<Rightarrow> bool" where
  "bfs_inv raw q dist last_d =
     (length dist = length (rd_states raw) \<and> dist ! DEAD_STATE = None
      \<and> dist ! rd_start_anchored raw = Some 0
      \<and> (\<forall>t \<in> set q. t < length dist \<and> dist ! t \<noteq> None)
      \<and> (\<forall>t < length dist. \<forall>k. dist ! t = Some k \<longrightarrow> word_to raw k t)
      \<and> sorted (map (\<lambda>t. the (dist ! t)) q)
      \<and> (q \<noteq> [] \<longrightarrow> (\<forall>t < length dist. \<forall>k. dist ! t = Some k \<longrightarrow> k \<le> the (dist ! hd q) + 1))
      \<and> (\<forall>t < length dist. \<forall>k. dist ! t = Some k \<longrightarrow> t \<notin> set q \<longrightarrow> k \<le> last_d \<and>
            (\<forall>u \<in> succs_of raw t. u \<noteq> DEAD_STATE \<longrightarrow> (\<exists>l \<le> k + 1. dist ! u = Some l)))
      \<and> (\<forall>t \<in> set q. last_d \<le> the (dist ! t)))"

lemma bfs_round:
  assumes wf: "dfa_wf raw" and inv: "bfs_inv raw q dist last_d" and q: "q \<noteq> []"
  shows "\<exists>q' dist' d. dist_round raw (q, dist, last_d) = (q', dist', d) \<and> bfs_inv raw q' dist' d
    \<and> 2 * unset dist' + length q' < 2 * unset dist + length q"
proof -
  obtain s qs where qs: "q = s # qs" using q by (cases q) auto
  note inv' = inv [unfolded bfs_inv_def]
  have len: "length dist = length (rd_states raw)" using inv' by blast
  have s: "s < length dist" "dist ! s \<noteq> None" using inv' qs by auto
  then obtain d where d: "dist ! s = Some d" by blast
  have succs: "\<forall>t \<in> set (ds_next (rd_states raw ! s)). t < length dist"
    using succs_of_below [OF wf, of s] s(1) len by (auto simp: succs_of_def)
  obtain more_states dist' where f: "foldl (\<lambda>st t. visit_next st d t) (qs, dist) (ds_next (rd_states raw ! s))
      = (qs @ more_states, dist')"
    "set more_states = {t \<in> succs_of raw s. t \<noteq> DEAD_STATE \<and> dist ! t = None}" "length dist' = length dist"
    "\<forall>t < length dist. dist' ! t = (if t \<in> set more_states then Some (d + 1) else dist ! t)"
    "unset dist' + length more_states = unset dist"
    using visit_fold [OF succs, of d qs] by (auto simp: succs_of_def)
  have round: "dist_round raw (q, dist, last_d) = (qs @ more_states, dist', d)"
    using f(1) by (simp add: dist_round_def qs d)
  have i2: "dist ! DEAD_STATE = None" "dist ! rd_start_anchored raw = Some 0" using inv' by blast+
  have i4: "t < length dist \<and> dist ! t \<noteq> None" if "t \<in> set q" for t using inv' that by blast
  have i5: "word_to raw k t" if "t < length dist" "dist ! t = Some k" for t k using inv' that by blast
  have i6: "sorted (map (\<lambda>t. the (dist ! t)) q)" using inv' by blast
  have i7: "k \<le> d + 1" if "t < length dist" "dist ! t = Some k" for t k
  proof -
    have "q \<noteq> [] \<longrightarrow> (\<forall>t < length dist. \<forall>k. dist ! t = Some k \<longrightarrow> k \<le> the (dist ! hd q) + 1)"
      using inv' by blast
    then show ?thesis using that qs d by auto
  qed
  have i8: "k \<le> last_d" "u \<in> succs_of raw t \<Longrightarrow> u \<noteq> DEAD_STATE \<Longrightarrow> \<exists>l \<le> k + 1. dist ! u = Some l"
    if "t < length dist" "dist ! t = Some k" "t \<notin> set q" for t k u using inv' that by blast+
  have i9: "last_d \<le> d" using inv' qs d by auto
  have start: "rd_start_anchored raw < length dist" "DEAD_STATE < length dist"
    using wf len by (auto simp: dfa_wf_def DEAD_STATE_def)
  have old: "dist' ! t = dist ! t" if "t < length dist" "dist ! t \<noteq> None" for t
    using f(2,4) that by auto
  have new: "dist' ! t = Some (d + 1)" "t < length dist" if "t \<in> set more_states" for t
    using f(2,4) that succs by (auto simp: succs_of_def)
  have ge: "d \<le> the (dist ! t)" if "t \<in> set qs" for t using i6 that d by (auto simp: qs)
  have val: "k \<le> d + 1" if "t < length dist" "dist' ! t = Some k" for t k
    using that new(1) old i7 f(4) by (cases "t \<in> set more_states") auto
  have "bfs_inv raw (qs @ more_states) dist' d"
    unfolding bfs_inv_def
  proof (intro conjI allI ballI impI)
    show "length dist' = length (rd_states raw)" using f(3) len by simp
    show "dist' ! DEAD_STATE = None" using f(2,4) i2 start by auto
    show "dist' ! rd_start_anchored raw = Some 0" using old start i2 by simp
  next
    fix t
    assume "t \<in> set (qs @ more_states)"
    then have t: "t \<in> set qs \<or> t \<in> set more_states" by simp
    then show "t < length dist'" "dist' ! t \<noteq> None"
      using i4 [of t] old [of t] new [of t] f(3) qs by auto
    from t show "d \<le> the (dist' ! t)"
      using i4 [of t] old [of t] new [of t] ge [of t] qs by auto
  next
    fix t k
    assume t: "t < length dist'" "dist' ! t = Some k"
    show "word_to raw k t"
    proof (cases "t \<in> set more_states")
      case True
      then have "t \<in> succs_of raw s" "k = d + 1" using new t f(2) by auto
      moreover have "word_to raw d s" by (rule i5 [OF s(1) d])
      ultimately show ?thesis
        using word_to_step succs_of_step [OF wf] s(1) len by auto
    next
      case False
      then show ?thesis using i5 t f(3,4) by simp
    qed
  next
    have "sorted (map (\<lambda>t. the (dist ! t)) qs)" using i6 by (simp add: qs)
    moreover have "map (\<lambda>t. the (dist' ! t)) qs = map (\<lambda>t. the (dist ! t)) qs"
      using i4 old qs by simp
    moreover have "map (\<lambda>t. the (dist' ! t)) more_states = replicate (length more_states) (d + 1)"
      using new(1) by (simp add: map_replicate_const [symmetric])
    ultimately have "map (\<lambda>t. the (dist' ! t)) (qs @ more_states)
        = map (\<lambda>t. the (dist ! t)) qs @ replicate (length more_states) (d + 1)"
      by (simp only: map_append)
    moreover note \<open>sorted (map (\<lambda>t. the (dist ! t)) qs)\<close>
    moreover have "the (dist ! t) \<le> d + 1" if "t \<in> set qs" for t
      using i4 [of t] i7 [of t] that qs by auto
    ultimately show "sorted (map (\<lambda>t. the (dist' ! t)) (qs @ more_states))"
      by (simp only: sorted_append sorted_replicate) auto
  next
    fix t k
    assume ne: "qs @ more_states \<noteq> []" and t: "t < length dist'" "dist' ! t = Some k"
    have "hd (qs @ more_states) \<in> set (qs @ more_states)" using ne by (rule hd_in_set)
    then have "d \<le> the (dist' ! hd (qs @ more_states))"
      using i4 old new ge qs by (metis Un_iff le_add1 list.set_intros(2) option.sel set_append)
    then show "k \<le> the (dist' ! hd (qs @ more_states)) + 1" using val [of t k] t f(3) by simp
  next
    fix t k
    assume t: "t < length dist'" "dist' ! t = Some k" "t \<notin> set (qs @ more_states)"
    then have dt: "dist ! t = Some k" "t < length dist" using f(3,4) by auto
    have "k \<le> d \<and> (\<forall>u \<in> succs_of raw t. u \<noteq> DEAD_STATE \<longrightarrow> (\<exists>l \<le> k + 1. dist' ! u = Some l))"
    proof (cases "t = s")
      case True
      have "\<exists>l \<le> d + 1. dist' ! u = Some l" if u: "u \<in> succs_of raw s" "u \<noteq> DEAD_STATE" for u
      proof (cases "dist ! u")
        case None
        then show ?thesis using u f(2) new by auto
      next
        case (Some l)
        moreover have "u < length dist" using succs u by (auto simp: succs_of_def)
        ultimately show ?thesis using old [of u] i7 [of u l] by auto
      qed
      then show ?thesis using True dt(1) d by simp
    next
      case False
      then have "t \<notin> set q" using t(3) qs by simp
      note c = i8 [OF dt(2,1) this]
      have "\<exists>l \<le> k + 1. dist' ! u = Some l" if u: "u \<in> succs_of raw t" "u \<noteq> DEAD_STATE" for u
      proof -
        obtain l where "l \<le> k + 1" "dist ! u = Some l" using c(2) [OF u] by blast
        moreover have "u < length dist" using succs_of_below [OF wf _ u(1)] dt(2) len by simp
        ultimately show ?thesis using old [of u] by auto
      qed
      then show ?thesis using c(1) i9 by simp
    qed
    then show "k \<le> d" "\<And>u. u \<in> succs_of raw t \<Longrightarrow> u \<noteq> DEAD_STATE \<Longrightarrow> \<exists>l \<le> k + 1. dist' ! u = Some l"
      by blast+
  qed
  then show ?thesis using round f(5) by (auto simp: qs)
qed

text \<open>The distances at the end: the least length of a word to each state but the dead one.\<close>

definition dist_right :: "raw_dfa \<Rightarrow> nat \<Rightarrow> nat option list \<Rightarrow> bool" where
  "dist_right raw last_d dist =
     (length dist = length (rd_states raw) \<and> dist ! DEAD_STATE = None
      \<and> (\<forall>t k. t < length dist \<longrightarrow> dist ! t = Some k \<longrightarrow> k \<le> last_d \<and> word_to raw k t)
      \<and> (\<forall>w. word_ok raw w \<longrightarrow> run_syms raw (rd_start_anchored raw) w \<noteq> DEAD_STATE \<longrightarrow>
            (\<exists>k \<le> length w. dist ! run_syms raw (rd_start_anchored raw) w = Some k)))"

definition dead_stays :: "raw_dfa \<Rightarrow> bool" where
  "dead_stays raw = (\<forall>a < rd_alpha_size raw. step_sym raw DEAD_STATE a = DEAD_STATE)"

lemma dead_run: "dead_stays raw \<Longrightarrow> word_ok raw w \<Longrightarrow> run_syms raw DEAD_STATE w = DEAD_STATE"
  by (induction w) (auto simp: dead_stays_def)

lemma bfs_end:
  assumes wf: "dfa_wf raw" and dead: "dead_stays raw" and inv: "bfs_inv raw [] dist last_d"
  shows "dist_right raw last_d dist"
proof -
  have start: "rd_start_anchored raw < length (rd_states raw)" using wf by (simp add: dfa_wf_def)
  have len: "length dist = length (rd_states raw)" using inv by (simp add: bfs_inv_def)
  have closed: "\<forall>t < length dist. \<forall>k. dist ! t = Some k \<longrightarrow> t \<notin> set [] \<longrightarrow> k \<le> last_d \<and>
      (\<forall>u \<in> succs_of raw t. u \<noteq> DEAD_STATE \<longrightarrow> (\<exists>l \<le> k + 1. dist ! u = Some l))"
    using inv unfolding bfs_inv_def by blast
  then have closed: "\<And>t k u. t < length dist \<Longrightarrow> dist ! t = Some k \<Longrightarrow> u \<in> succs_of raw t \<Longrightarrow>
      u \<noteq> DEAD_STATE \<Longrightarrow> \<exists>l \<le> k + 1. dist ! u = Some l" by simp
  have "\<exists>k \<le> length w. dist ! run_syms raw (rd_start_anchored raw) w = Some k"
    if "word_ok raw w" "run_syms raw (rd_start_anchored raw) w \<noteq> DEAD_STATE" for w
    using that
  proof (induction w rule: rev_induct)
    case Nil
    then show ?case using inv by (simp add: bfs_inv_def)
  next
    case (snoc a w)
    define t where "t = run_syms raw (rd_start_anchored raw) w"
    have w: "word_ok raw w" "a < rd_alpha_size raw" using snoc.prems(1) by (auto simp: word_ok_def)
    have u: "run_syms raw (rd_start_anchored raw) (w @ [a]) = step_sym raw t a"
      by (simp add: run_syms_append t_def)
    have "t \<noteq> DEAD_STATE"
      using snoc.prems(2) dead w(2) unfolding u by (auto simp: dead_stays_def)
    then obtain k where k: "k \<le> length w" "dist ! t = Some k"
      using snoc.IH w(1) by (auto simp: t_def)
    have t: "t < length (rd_states raw)" using run_syms_below [OF wf start w(1)] by (simp add: t_def)
    have "step_sym raw t a \<in> succs_of raw t" using succs_of_step [OF wf t] w(2) by auto
    then obtain l where "l \<le> k + 1" "dist ! step_sym raw t a = Some l"
      using closed t k(2) snoc.prems(2) len unfolding u by metis
    then show ?case using k(1) by (auto simp: u)
  qed
  then show ?thesis using inv by (auto simp: dist_right_def bfs_inv_def)
qed

lemma calc_min_dist_result:
  assumes wf: "dfa_wf raw" and dead: "dead_stays raw" and start: "rd_start_anchored raw \<noteq> DEAD_STATE"
  shows "\<exists>last_d dist. calc_min_dist_from_bob raw = Some (last_d, dist) \<and> dist_right raw last_d dist"
proof -
  define P where "P = (\<lambda>(q, dist, last_d). bfs_inv raw q dist last_d)"
  have below: "rd_start_anchored raw < length (rd_states raw)" using wf by (simp add: dfa_wf_def)
  have step: "P (dist_round raw st) \<and> (\<lambda>(q, dist, l). 2 * unset dist + length q) (dist_round raw st)
      < (\<lambda>(q, dist, l). 2 * unset dist + length q) st"
    if P: "P st" and b: "(\<lambda>(q, dist, l). q \<noteq> []) st" for st
  proof -
    obtain q dist l where st: "st = (q, dist, l)" by (cases st)
    show ?thesis using bfs_round [OF wf, of q dist l] P b by (auto simp: st P_def)
  qed
  have init: "P ([rd_start_anchored raw],
      (replicate (length (rd_states raw)) None)[rd_start_anchored raw := Some 0], 0)"
  proof -
    have "word_to raw 0 (rd_start_anchored raw)" by (simp add: word_to_def)
    moreover have "0 < length (rd_states raw)" using below by linarith
    ultimately show ?thesis
      unfolding P_def prod.case bfs_inv_def
      using below start by (auto simp: nth_list_update DEAD_STATE_def split: if_splits)
  qed
  obtain st where st: "while_option (\<lambda>(q, dist, l). q \<noteq> []) (dist_round raw) ([rd_start_anchored raw],
      (replicate (length (rd_states raw)) None)[rd_start_anchored raw := Some 0], 0) = Some st"
    using measure_while_option_Some [of P "\<lambda>(q, dist, l). q \<noteq> []" "dist_round raw"
      "\<lambda>(q, dist, l). 2 * unset dist + length q"] step init by blast
  have "P st" using while_option_rule [of P, OF _ st init] step by blast
  moreover obtain q dist l where qdl: "st = (q, dist, l)" by (cases st)
  moreover have "q = []" using while_option_stop [OF st] by (simp add: qdl)
  ultimately have "dist_right raw l dist" using bfs_end [OF wf dead] by (simp add: P_def)
  then show ?thesis using st by (simp add: calc_min_dist_from_bob_def qdl)
qed

section \<open>Lemmas: clearing reports\<close>

lemma nth_update_if: "j < length xs \<Longrightarrow> xs[i := x] ! j = (if i = j then x else xs ! j)"
  by auto

text \<open>States equal up to their reports.\<close>

definition same_but_reports :: "raw_dfa \<Rightarrow> raw_dfa \<Rightarrow> bool" where
  "same_but_reports r r' =
     (length (rd_states r') = length (rd_states r) \<and> rd_alpha_size r' = rd_alpha_size r
      \<and> rd_alpha_remap r' = rd_alpha_remap r \<and> rd_kind r' = rd_kind r
      \<and> (\<forall>i < length (rd_states r). ds_next (rd_states r' ! i) = ds_next (rd_states r ! i)
            \<and> ds_daddy (rd_states r' ! i) = ds_daddy (rd_states r ! i)))"

lemma same_but_reports_run:
  assumes "same_but_reports r r'" "dfa_wf r"
  shows "s < length (rd_states r) \<Longrightarrow> word_ok r w \<Longrightarrow> run_syms r' s w = run_syms r s w"
proof (induction w arbitrary: s)
  case (Cons a w)
  have "step_sym r' s a = step_sym r s a"
    using assms(1) Cons.prems(1) by (simp add: same_but_reports_def step_sym_def)
  then show ?case using Cons step_sym_below [OF assms(2)] by simp
qed simp

lemma same_but_reports_wf:
  assumes "same_but_reports r r'" "dfa_wf r"
    and "rd_start_anchored r' < length (rd_states r)" "rd_start_floating r' < length (rd_states r)"
  shows "dfa_wf r'"
  using assms unfolding same_but_reports_def dfa_wf_def all_set_conv_all_nth by simp

lemma clear_fold:
  "\<exists>raw' changed. foldl (clear_state dist m) (raw, c) js = (raw', changed) \<and> same_but_reports raw raw'
     \<and> rd_start_anchored raw' = rd_start_anchored raw \<and> rd_start_floating raw' = rd_start_floating raw
     \<and> (\<forall>i < length (rd_states raw). fires raw' i =
          (if i \<in> set js \<and> deeper (dist ! i) m then ({}, {}) else fires raw i))
     \<and> (\<not> changed \<longrightarrow> raw' = raw \<and> \<not> c)"
proof (induction js arbitrary: raw c)
  case Nil
  then show ?case by (simp add: same_but_reports_def)
next
  case (Cons j js)
  obtain raw1 c1 where 1: "clear_state dist m (raw, c) j = (raw1, c1)" by fastforce
  have step: "same_but_reports raw raw1 \<and> rd_start_anchored raw1 = rd_start_anchored raw
      \<and> rd_start_floating raw1 = rd_start_floating raw \<and> (\<not> c1 \<longrightarrow> raw1 = raw \<and> \<not> c)
      \<and> (\<forall>i < length (rd_states raw). fires raw1 i =
          (if i = j \<and> deeper (dist ! i) m then ({}, {}) else fires raw i))"
  proof (cases "deeper (dist ! j) m \<and> state_has_reports raw j")
    case True
    then have "raw1 = raw\<lparr>rd_states := (rd_states raw)[j := (rd_states raw ! j)\<lparr>ds_reports := {}, ds_reports_eod := {}\<rparr>]\<rparr>"
      "c1" using 1 by (auto simp: clear_state_def)
    then show ?thesis using True by (auto simp: same_but_reports_def fires_def nth_update_if)
  next
    case False
    then have "raw1 = raw" "c1 = c" using 1 by (auto simp: clear_state_def)
    then show ?thesis
      using False by (auto simp: same_but_reports_def fires_def state_has_reports_def Let_def)
  qed
  obtain raw' c' where 2: "foldl (clear_state dist m) (raw1, c1) js = (raw', c')"
    "same_but_reports raw1 raw'"
    "rd_start_anchored raw' = rd_start_anchored raw1" "rd_start_floating raw' = rd_start_floating raw1"
    "\<forall>i < length (rd_states raw1). fires raw' i =
          (if i \<in> set js \<and> deeper (dist ! i) m then ({}, {}) else fires raw1 i)"
    "\<not> c' \<longrightarrow> raw' = raw1 \<and> \<not> c1"
    using Cons.IH [of raw1 c1] by blast
  have "length (rd_states raw1) = length (rd_states raw)" using step by (simp add: same_but_reports_def)
  moreover have "same_but_reports raw raw'" using step 2(2) by (simp add: same_but_reports_def)
  ultimately show ?case
    using step 2 1 by (intro exI [of _ raw'] exI [of _ c']) auto
qed

section \<open>Lemmas: leading dots\<close>

definition impl_word :: "raw_dfa \<Rightarrow> symbol_t list \<Rightarrow> bool" where
  "impl_word raw w = (\<forall>a \<in> set w. a < getImplAlphaSize raw)"

lemma dots_loop_spec:
  "i \<le> length (rd_states raw) \<Longrightarrow> i \<le> dots_loop raw i \<and> dots_loop raw i \<le> length (rd_states raw)
     \<and> (\<forall>k. i \<le> k \<longrightarrow> k < dots_loop raw i \<longrightarrow>
          (\<forall>a < getImplAlphaSize raw. step_sym raw k a = k + 1)
          \<and> \<not> state_has_reports raw (ds_next (rd_states raw ! k) ! 0))"
proof (induction raw i rule: dots_loop.induct)
  case (1 raw i)
  show ?case
  proof (cases "i < length (rd_states raw) \<and> i \<noteq> rd_start_floating raw
      \<and> \<not> list_ex (\<lambda>s. ds_next (rd_states raw ! i) ! s \<noteq> i + 1) [0..<getImplAlphaSize raw]
      \<and> \<not> state_has_reports raw (ds_next (rd_states raw ! i) ! 0)")
    case False
    then have "dots_loop raw i = i" by (subst dots_loop.simps) auto
    then show ?thesis using 1(2) by simp
  next
    case True
    then have eq: "dots_loop raw i = dots_loop raw (i + 1)" by (subst dots_loop.simps) auto
    have IH: "i + 1 \<le> dots_loop raw (i + 1) \<and> dots_loop raw (i + 1) \<le> length (rd_states raw)
     \<and> (\<forall>k. i + 1 \<le> k \<longrightarrow> k < dots_loop raw (i + 1) \<longrightarrow>
          (\<forall>a < getImplAlphaSize raw. step_sym raw k a = k + 1)
          \<and> \<not> state_has_reports raw (ds_next (rd_states raw ! k) ! 0))"
      using 1(1) True by auto
    have this_state: "\<forall>a < getImplAlphaSize raw. step_sym raw i a = i + 1"
      using True by (auto simp: step_sym_def list_ex_iff)
    have "(\<forall>a < getImplAlphaSize raw. step_sym raw k a = k + 1)
          \<and> \<not> state_has_reports raw (ds_next (rd_states raw ! k) ! 0)"
      if "i \<le> k" "k < dots_loop raw (i + 1)" for k
      using that IH this_state True by (cases "k = i") auto
    then show ?thesis unfolding eq using IH by simp
  qed
qed

lemma sub16_less: "n < 2 ^ 16 \<Longrightarrow> c \<le> n \<Longrightarrow> sub16 n c = n - c"
  unfolding sub16_def
  by (subst unat_sub) (auto simp: word_le_nat_alt unsigned_of_nat take_bit_nat_eq_self)

lemma prune_next_fold:
  "n \<le> length xs \<Longrightarrow> length (foldl (\<lambda>next j. if next ! j \<noteq> 0 then next[j := f (next ! j)] else next) xs [0..<n]) = length xs
   \<and> (\<forall>j < length xs. foldl (\<lambda>next j. if next ! j \<noteq> 0 then next[j := f (next ! j)] else next) xs [0..<n] ! j
       = (if j < n \<and> xs ! j \<noteq> (0 :: nat) then f (xs ! j) else xs ! j))"
proof (induction n)
  case (Suc n)
  then show ?case by (auto simp: nth_list_update less_Suc_eq)
qed simp

lemma prune_state_next:
  assumes "length (ds_next ds) = n"
  shows "length (ds_next (prune_state n c ds)) = n"
    and "j < n \<Longrightarrow> ds_next (prune_state n c ds) ! j = (if ds_next ds ! j \<noteq> 0 then sub16 (ds_next ds ! j) c else 0)"
    and "ds_reports (prune_state n c ds) = ds_reports ds"
    and "ds_reports_eod (prune_state n c ds) = ds_reports_eod ds"
  using prune_next_fold [of n "ds_next ds" "\<lambda>x. sub16 x c"] assms by (simp_all add: prune_state_def Let_def)

lemma prune_fold:
  assumes "0 < c"
  shows "n \<le> length xs \<Longrightarrow> 1 + c \<le> n \<Longrightarrow>
    length (foldl (\<lambda>states i. states[i - c := f (states ! i)]) xs [1 + c..<n]) = length xs
    \<and> (\<forall>k < length xs. foldl (\<lambda>states i. states[i - c := f (states ! i)]) xs [1 + c..<n] ! k
        = (if 1 \<le> k \<and> k + c < n then f (xs ! (k + c)) else xs ! k))"
proof (induction n)
  case (Suc n)
  show ?case
  proof (cases "1 + c \<le> n")
    case False
    then have "Suc n = 1 + c" using Suc.prems(2) by simp
    then show ?thesis by simp
  next
    case True
    define ys where "ys = foldl (\<lambda>states i. states[i - c := f (states ! i)]) xs [1 + c..<n]"
    have IH: "length ys = length xs"
      "\<forall>k < length xs. ys ! k = (if 1 \<le> k \<and> k + c < n then f (xs ! (k + c)) else xs ! k)"
      using Suc.IH True Suc.prems(1) by (simp_all add: ys_def)
    have "ys ! n = xs ! n" using IH(2) Suc.prems(1) by simp
    moreover have "foldl (\<lambda>states i. states[i - c := f (states ! i)]) xs [1 + c..<Suc n] = ys[n - c := f (ys ! n)]"
      using True by (simp add: ys_def)
    ultimately show ?thesis
      using IH True Suc.prems(1) assms by (auto simp: nth_list_update)
  qed
qed simp

text \<open>What removing \<open>c\<close> states does to the steps.\<close>

lemma prune_leading_step:
  assumes wf: "dfa_wf raw" and c: "0 < c" "1 + c \<le> length (rd_states raw)"
    and asrt: "\<forall>i. 1 + c \<le> i \<longrightarrow> i < length (rd_states raw) \<longrightarrow>
        (\<forall>a < rd_alpha_size raw. step_sym raw i a = DEAD_STATE \<or> c < step_sym raw i a)"
    and k: "1 \<le> k" "k + c < length (rd_states raw)"
  shows "fires (prune_leading_states raw c) k = fires raw (k + c)"
    and "a < rd_alpha_size raw \<Longrightarrow> step_sym (prune_leading_states raw c) k a =
      (if step_sym raw (k + c) a = DEAD_STATE then DEAD_STATE else step_sym raw (k + c) a - c)"
proof -
  note f = prune_fold [OF c(1) order_refl c(2), of "prune_state (rd_alpha_size raw) c"]
  have nth: "rd_states (prune_leading_states raw c) ! k = prune_state (rd_alpha_size raw) c (rd_states raw ! (k + c))"
    using f k c(1) by (simp add: prune_leading_states_def INIT_STATE_def Let_def)
  have len: "length (ds_next (rd_states raw ! (k + c))) = rd_alpha_size raw"
    using wf k(2) by (simp add: dfa_wf_def)
  show "fires (prune_leading_states raw c) k = fires raw (k + c)"
    using prune_state_next(3,4) [OF len] by (simp add: fires_def nth)
  show "step_sym (prune_leading_states raw c) k a =
      (if step_sym raw (k + c) a = DEAD_STATE then DEAD_STATE else step_sym raw (k + c) a - c)"
    if a: "a < rd_alpha_size raw"
  proof -
    have "step_sym raw (k + c) a < 2 ^ 16"
      using step_sym_below [OF wf k(2) a] wf by (simp add: dfa_wf_def)
    moreover have "step_sym raw (k + c) a = DEAD_STATE \<or> c < step_sym raw (k + c) a"
      using asrt k a by simp
    ultimately show ?thesis
      using prune_state_next(2) [OF len a, of c] sub16_less [of "step_sym raw (k + c) a" c]
      by (auto simp: step_sym_def nth DEAD_STATE_def)
  qed
qed

lemma prune_leading_zero:
  assumes "0 < c" "1 + c \<le> length (rd_states raw)"
  shows "rd_states (prune_leading_states raw c) ! 0 = rd_states raw ! 0"
proof -
  have "0 < length (rd_states raw)" using assms by linarith
  then show ?thesis
    using prune_fold [OF assms(1) order_refl assms(2), of "prune_state (rd_alpha_size raw) c"] assms
    by (simp add: prune_leading_states_def INIT_STATE_def Let_def)
qed

lemma prune_leading_run:
  assumes wf: "dfa_wf raw" and c: "0 < c" "1 + c \<le> length (rd_states raw)"
    and asrt: "\<forall>i. 1 + c \<le> i \<longrightarrow> i < length (rd_states raw) \<longrightarrow>
        (\<forall>a < rd_alpha_size raw. step_sym raw i a = DEAD_STATE \<or> c < step_sym raw i a)"
    and dead: "dead_stays raw" and w: "word_ok raw w"
  shows "s = DEAD_STATE \<or> c < s \<and> s < length (rd_states raw) \<Longrightarrow>
    fires (prune_leading_states raw c) (run_syms (prune_leading_states raw c) (s - c) w)
      = fires raw (run_syms raw s w)"
  using w
proof (induction w arbitrary: s)
  case Nil
  show ?case
  proof (cases "s = DEAD_STATE")
    case True
    then show ?thesis using prune_leading_zero [OF c] by (simp add: fires_def DEAD_STATE_def)
  next
    case False
    then have "1 \<le> s - c" "s - c + c = s" "s < length (rd_states raw)" using Nil by auto
    then show ?thesis using prune_leading_step(1) [OF wf c asrt, of "s - c"] by simp
  qed
next
  case (Cons a w)
  have a: "a < rd_alpha_size raw" "word_ok raw w" using Cons.prems(2) by simp_all
  show ?case
  proof (cases "s = DEAD_STATE")
    case True
    have "step_sym (prune_leading_states raw c) 0 a = step_sym raw 0 a"
      using prune_leading_zero [OF c] by (simp add: step_sym_def)
    moreover have "step_sym raw 0 a = 0" using dead a(1) by (simp add: dead_stays_def DEAD_STATE_def)
    ultimately show ?thesis using Cons.IH [of 0] a(2) True by (simp add: DEAD_STATE_def)
  next
    case False
    then have s: "c < s" "s < length (rd_states raw)" using Cons.prems(1) by auto
    define t where "t = step_sym raw s a"
    have "step_sym (prune_leading_states raw c) (s - c) a = t - c"
      using prune_leading_step(2) [OF wf c asrt, of "s - c" a] s a(1)
      by (simp add: t_def DEAD_STATE_def)
    moreover have "t = DEAD_STATE \<or> c < t \<and> t < length (rd_states raw)"
      using asrt s a(1) step_sym_below [OF wf s(2) a(1)] by (auto simp: t_def)
    ultimately show ?thesis using Cons.IH [of t] a(2) by (simp add: t_def)
  qed
qed

lemma dots_run:
  assumes "\<forall>k. 1 \<le> k \<longrightarrow> k < 1 + c \<longrightarrow> (\<forall>a < getImplAlphaSize raw. step_sym raw k a = k + 1)"
  shows "impl_word raw u \<Longrightarrow> 1 \<le> k \<Longrightarrow> k + length u \<le> 1 + c \<Longrightarrow> run_syms raw k u = k + length u"
proof (induction u arbitrary: k)
  case (Cons a u)
  then have "step_sym raw k a = k + 1" using assms by (simp add: impl_word_def)
  then show ?case using Cons by (simp add: impl_word_def)
qed simp

section \<open>Properties\<close>

text \<open>A DFA for two arbitrary symbols, with one leading dot to remove.\<close>

definition dots_example :: raw_dfa where
  "dots_example = \<lparr>rd_kind = NFA_OUTFIX,
     rd_states = [\<lparr>ds_next = [0, 0], ds_daddy = 0, ds_impl_id = 0, ds_reports = {}, ds_reports_eod = {}\<rparr>,
                  \<lparr>ds_next = [2, 0], ds_daddy = 0, ds_impl_id = 0, ds_reports = {}, ds_reports_eod = {}\<rparr>,
                  \<lparr>ds_next = [3, 0], ds_daddy = 1, ds_impl_id = 0, ds_reports = {}, ds_reports_eod = {}\<rparr>,
                  \<lparr>ds_next = [3, 0], ds_daddy = 2, ds_impl_id = 0, ds_reports = {5}, ds_reports_eod = {}\<rparr>],
     rd_start_anchored = 1, rd_start_floating = 0, rd_alpha_size = 2,
     rd_alpha_remap = replicate 256 0 @ [1]\<rparr>"

lemma dots_example_ok:
  "dfa_wf dots_example" "dead_stays dots_example" "fires dots_example DEAD_STATE = ({}, {})"
  "rd_start_anchored dots_example = 1"
  by (auto simp: dots_example_def dfa_wf_def dead_stays_def step_sym_def fires_def DEAD_STATE_def
      less_2_cases_iff)

lemma dots_example_count: "count_dots dots_example = 1"
proof -
  have "dots_loop dots_example 2 = 2"
    by (subst dots_loop.simps) (simp add: dots_example_def state_has_reports_def)
  then have "dots_loop dots_example 1 = 2"
    by (subst dots_loop.simps) (simp add: dots_example_def state_has_reports_def getImplAlphaSize_def
      N_SPECIAL_SYMBOL_def numeral_2_eq_2 upt_rec)
  then show ?thesis
    by (simp add: count_dots_def INIT_STATE_def Let_def dots_example_def getImplAlphaSize_def
      N_SPECIAL_SYMBOL_def upt_rec DEAD_STATE_def)
qed

text \<open>
  C29. \<open>can_die_early\<close> is exact in spite of its memory of visited states: it answers true exactly
  when some word of at most \<open>age_limit\<close> symbols leads from the anchored start to the dead state.
\<close>

theorem can_die_early_exact:
  assumes "dfa_wf raw"
  shows "can_die_early raw age_limit \<longleftrightarrow>
    (\<exists>w. length w \<le> age_limit \<and> word_ok raw w \<and> run_syms raw (rd_start_anchored raw) w = DEAD_STATE)"
proof -
  have s: "rd_start_anchored raw < length (rd_states raw)" using assms by (simp add: dfa_wf_def)
  obtain b v where bv: "can_die_early_from raw age_limit (rd_start_anchored raw) Map.empty = (b, v)"
    by fastforce
  have "visited_ok raw {} Map.empty" by (simp add: visited_ok_def)
  from can_die_early_from_spec [OF assms, of age_limit, unfolded die_spec_def, rule_format, OF s this _ bv]
  have spec: "if b then dies raw age_limit (rd_start_anchored raw)
    else die_result raw {} Map.empty v \<and> (\<exists>c \<ge> age_limit. v (rd_start_anchored raw) = Some c)" by simp
  show ?thesis
  proof (cases b)
    case True
    then show ?thesis using spec bv by (simp add: can_die_early_def dies_def)
  next
    case False
    then obtain c where "visited_ok raw {} v" "c \<ge> age_limit" "v (rd_start_anchored raw) = Some c"
      using spec by (auto simp: die_result_def)
    then show ?thesis
      using visited_no_death [OF assms, of v "rd_start_anchored raw" c] bv False
      by (auto simp: can_die_early_def)
  qed
qed

theorem can_die_early_exact_witness:
  "can_die_early dots_example 1 = True"
proof -
  have "length [1 :: nat] \<le> 1 \<and> word_ok dots_example [1]
      \<and> run_syms dots_example (rd_start_anchored dots_example) [1] = DEAD_STATE"
    by (simp add: dots_example_def step_sym_def DEAD_STATE_def)
  with can_die_early_exact [OF dots_example_ok(1), of 1] show ?thesis by blast
qed

text \<open>
  C28. \<open>clear_deeper_reports\<close> always returns and keeps exactly the reports that can fire within
  the first \<open>max_offset\<close> symbols: after any word the new DFA fires what the old one fires if the
  state reached has a word of at most \<open>max_offset\<close> symbols, and nothing otherwise.
\<close>

theorem clear_deeper_reports_exact:
  assumes wf: "dfa_wf raw" and start: "rd_start_anchored raw \<noteq> DEAD_STATE"
    and dead: "dead_stays raw" "fires raw DEAD_STATE = ({}, {})"
  shows "\<exists>b raw'. clear_deeper_reports raw max_offset = Some (b, raw') \<and> dfa_wf raw' \<and> (b \<or> raw' = raw)
    \<and> (\<forall>w. word_ok raw w \<longrightarrow>
         fires raw' (run_syms raw' (rd_start_anchored raw') w) =
           (if \<exists>v. length v \<le> max_offset \<and> word_ok raw v
                \<and> run_syms raw (rd_start_anchored raw) v = run_syms raw (rd_start_anchored raw) w
            then fires raw (run_syms raw (rd_start_anchored raw) w) else ({}, {})))"
proof -
  define run where "run = run_syms raw (rd_start_anchored raw)"
  obtain last_d dist where d: "calc_min_dist_from_bob raw = Some (last_d, dist)" "dist_right raw last_d dist"
    using calc_min_dist_result [OF wf dead(1) start] by blast
  have sb: "rd_start_anchored raw < length (rd_states raw)" using wf by (simp add: dfa_wf_def)
  have len: "length dist = length (rd_states raw)" using d(2) by (simp add: dist_right_def)
  have near: "deeper (dist ! run w) max_offset \<longleftrightarrow> \<not> (\<exists>v. length v \<le> max_offset \<and> word_ok raw v \<and> run v = run w)"
    if w: "word_ok raw w" "run w \<noteq> DEAD_STATE" for w
  proof -
    obtain k where k: "dist ! run w = Some k" using d(2) w by (auto simp: dist_right_def run_def)
    have "run w < length dist" using run_syms_below [OF wf sb w(1)] len by (simp add: run_def)
    then have "word_to raw k (run w)" using d(2) k by (simp add: dist_right_def)
    then obtain v where v: "length v = k" "word_ok raw v" "run v = run w"
      by (auto simp: word_to_def run_def)
    have least: "k \<le> length u" if u: "word_ok raw u" "run u = run w" for u
    proof -
      have "\<exists>l \<le> length u. dist ! run u = Some l"
        using d(2) u w(2) unfolding dist_right_def run_def by metis
      then show ?thesis using k u(2) by auto
    qed
    have "deeper (dist ! run w) max_offset \<longleftrightarrow> \<not> k \<le> max_offset" using k by (simp add: deeper_def not_le)
    then show ?thesis using v least by (metis le_trans)
  qed
  show ?thesis
  proof (cases "last_d \<le> max_offset")
    case True
    have "fires raw (run w) = (if \<exists>v. length v \<le> max_offset \<and> word_ok raw v \<and> run v = run w
        then fires raw (run w) else ({}, {}))" if w: "word_ok raw w" for w
    proof (cases "run w = DEAD_STATE")
      case False
      obtain k where k: "dist ! run w = Some k" using d(2) w False by (auto simp: dist_right_def run_def)
      have "run w < length dist" using run_syms_below [OF wf sb w] len by (simp add: run_def)
      then have "k \<le> last_d" using d(2) k by (simp add: dist_right_def)
      then have "\<not> deeper (dist ! run w) max_offset" using k True by (simp add: deeper_def)
      then have "\<exists>v. length v \<le> max_offset \<and> word_ok raw v \<and> run v = run w"
        using near [OF w False] by blast
      then show ?thesis by (simp only: if_True)
    qed (simp add: dead)
    moreover have "clear_deeper_reports raw max_offset = Some (False, raw)"
      using d(1) True by (simp add: clear_deeper_reports_def)
    ultimately show ?thesis using wf unfolding run_def by blast
  next
    case False
    obtain raw1 changed where c: "foldl (clear_state dist max_offset) (raw, False)
        [DEAD_STATE + 1..<length (rd_states raw)] = (raw1, changed)"
      "same_but_reports raw raw1" "rd_start_anchored raw1 = rd_start_anchored raw"
      "rd_start_floating raw1 = rd_start_floating raw"
      "\<forall>i < length (rd_states raw). fires raw1 i =
          (if i \<in> set [DEAD_STATE + 1..<length (rd_states raw)] \<and> deeper (dist ! i) max_offset
           then ({}, {}) else fires raw i)"
      "\<not> changed \<longrightarrow> raw1 = raw"
      using clear_fold [of dist max_offset raw False "[DEAD_STATE + 1..<length (rd_states raw)]"] by auto
    have fl: "rd_start_floating raw < length (rd_states raw)" using wf by (simp add: dfa_wf_def)
    have wf1: "dfa_wf raw1" using same_but_reports_wf [OF c(2) wf] sb fl c(3,4) by simp
    have eq: "fires raw1 (run_syms raw1 (rd_start_anchored raw1) w) =
        (if \<exists>v. length v \<le> max_offset \<and> word_ok raw v \<and> run v = run w then fires raw (run w) else ({}, {}))"
      if w: "word_ok raw w" for w
    proof -
      have r: "run_syms raw1 (rd_start_anchored raw1) w = run w"
        using same_but_reports_run [OF c(2) wf sb w] by (simp add: c(3) run_def)
      have below: "run w < length (rd_states raw)" using run_syms_below [OF wf sb w] by (simp add: run_def)
      show ?thesis
      proof (cases "run w = DEAD_STATE")
        case True
        then show ?thesis using c(5) below dead(2) by (simp add: r)
      next
        case False
        then have "run w \<in> set [DEAD_STATE + 1..<length (rd_states raw)]"
          using below by (simp add: DEAD_STATE_def)
        then have "fires raw1 (run w) = (if deeper (dist ! run w) max_offset then ({}, {}) else fires raw (run w))"
          using c(5) below by simp
        then show ?thesis unfolding r using near [OF w False] by metis
      qed
    qed
    show ?thesis
    proof (cases "changed \<and> list_all (\<lambda>ds. ds_reports ds = {} \<and> ds_reports_eod ds = {}) (rd_states raw1)")
      case True
      define raw2 where "raw2 = raw1\<lparr>rd_start_anchored := DEAD_STATE, rd_start_floating := DEAD_STATE\<rparr>"
      have "same_but_reports raw raw2" using c(2) by (simp add: same_but_reports_def raw2_def)
      moreover have "DEAD_STATE < length (rd_states raw)" unfolding DEAD_STATE_def using sb by linarith
      ultimately have wf2: "dfa_wf raw2"
        using same_but_reports_wf [OF _ wf] by (simp add: raw2_def)
      have none: "fires raw1 i = ({}, {})" if "i < length (rd_states raw1)" for i
        using True that by (simp add: fires_def list_all_length)
      have lens: "length (rd_states raw1) = length (rd_states raw2)" "rd_alpha_size raw1 = rd_alpha_size raw"
        "rd_alpha_size raw2 = rd_alpha_size raw"
        using c(2) by (auto simp: raw2_def same_but_reports_def)
      have "fires raw2 (run_syms raw2 (rd_start_anchored raw2) w) = fires raw1 (run_syms raw1 (rd_start_anchored raw1) w)"
        if "word_ok raw w" for w
      proof -
        have "run_syms raw2 (rd_start_anchored raw2) w < length (rd_states raw2)"
          "run_syms raw1 (rd_start_anchored raw1) w < length (rd_states raw1)"
          using run_syms_below [OF wf2] run_syms_below [OF wf1] wf1 wf2 that lens
          by (auto simp: word_ok_def dfa_wf_def)
        then have "fires raw1 (run_syms raw2 (rd_start_anchored raw2) w) = ({}, {})"
          "fires raw1 (run_syms raw1 (rd_start_anchored raw1) w) = ({}, {})"
          using none lens(1) by simp_all
        then show ?thesis by (simp add: fires_def raw2_def)
      qed
      then have "\<forall>w. word_ok raw w \<longrightarrow> fires raw2 (run_syms raw2 (rd_start_anchored raw2) w) =
         (if \<exists>v. length v \<le> max_offset \<and> word_ok raw v \<and> run v = run w then fires raw (run w) else ({}, {}))"
        using eq by simp
      moreover have "clear_deeper_reports raw max_offset = Some (True, raw2)"
        using True d(1) False c(1) by (simp add: clear_deeper_reports_def raw2_def)
      ultimately show ?thesis
        using wf2 unfolding run_def by (intro exI [of _ True] exI [of _ raw2]) blast
    next
      case no: False
      have "clear_deeper_reports raw max_offset = Some (changed, raw1)"
        using no d(1) False c(1) by (auto simp: clear_deeper_reports_def)
      then show ?thesis
        using wf1 eq c(6) unfolding run_def by (intro exI [of _ changed] exI [of _ raw1]) blast
    qed
  qed
qed

theorem clear_deeper_reports_exact_witness:
  "\<exists>b raw'. clear_deeper_reports dots_example 1 = Some (b, raw') \<and> dfa_wf raw'"
proof -
  have "rd_start_anchored dots_example \<noteq> DEAD_STATE" by (simp add: dots_example_ok DEAD_STATE_def)
  from clear_deeper_reports_exact [OF dots_example_ok(1) this dots_example_ok(2,3), of 1]
  show ?thesis by blast
qed

text \<open>
  C27. Removing leading dots shifts the DFA along its input: \<open>remove_leading_dots\<close> returns a number
  of symbols during which the DFA cannot fire, and the new DFA does on the rest of an input what
  the old DFA does on the whole.  The fourth hypothesis is the assertion in
  \<open>prune_leading_states\<close> for the symbols the count does not look at.
\<close>

theorem remove_leading_dots_shift:
  assumes "dfa_wf raw" "rd_start_anchored raw = INIT_STATE" "fires raw INIT_STATE = ({}, {})"
    and "\<forall>i a. count_dots raw < i \<and> i < length (rd_states raw) \<and> a < rd_alpha_size raw \<longrightarrow>
        step_sym raw i a = DEAD_STATE \<or> count_dots raw < step_sym raw i a"
    and "dead_stays raw" "0 < getImplAlphaSize raw"
    and "remove_leading_dots raw = (count, raw')"
  shows "(impl_word raw u \<and> length u = count \<and> word_ok raw w \<longrightarrow>
      fires raw' (run_syms raw' (rd_start_anchored raw') w)
        = fires raw (run_syms raw (rd_start_anchored raw) (u @ w)))
    \<and> (impl_word raw v \<and> length v \<le> count \<longrightarrow>
      fires raw (run_syms raw (rd_start_anchored raw) v) = ({}, {}))"
proof (cases "count = 0")
  case True
  then have "raw' = raw" using assms(7) by (auto simp: remove_leading_dots_def prune_leading_states_def Let_def)
  then show ?thesis using True assms(2,3) by simp
next
  case False
  have c: "count = count_dots raw" "raw' = prune_leading_states raw count"
    using assms(7) by (auto simp: remove_leading_dots_def Let_def)
  have start: "INIT_STATE < length (rd_states raw)" using assms(1,2) by (simp add: dfa_wf_def)
  define i where "i = dots_loop raw INIT_STATE"
  have spec: "1 \<le> i" "i \<le> length (rd_states raw)"
    "\<forall>k. 1 \<le> k \<longrightarrow> k < i \<longrightarrow> (\<forall>a < getImplAlphaSize raw. step_sym raw k a = k + 1)
      \<and> \<not> state_has_reports raw (ds_next (rd_states raw ! k) ! 0)"
    using dots_loop_spec [of INIT_STATE raw] start by (auto simp: i_def INIT_STATE_def)
  have count: "count = i - 1"
    using c(1) False by (auto simp: count_dots_def i_def INIT_STATE_def Let_def split: if_splits)
  have dots: "\<forall>k. 1 \<le> k \<longrightarrow> k < 1 + count \<longrightarrow> (\<forall>a < getImplAlphaSize raw. step_sym raw k a = k + 1)"
    using spec(1,3) count by simp
  have "step_sym raw count 0 = count + 1"
    using dots False assms(6) by simp
  moreover have "step_sym raw count 0 < length (rd_states raw)"
    using assms(6) spec(1,2) count False
    by (intro step_sym_below [OF assms(1)]) (auto simp: getImplAlphaSize_def)
  ultimately have len: "1 + count < length (rd_states raw)" by simp
  have asrt: "\<forall>i. 1 + count \<le> i \<longrightarrow> i < length (rd_states raw) \<longrightarrow>
        (\<forall>a < rd_alpha_size raw. step_sym raw i a = DEAD_STATE \<or> count < step_sym raw i a)"
    using assms(4) c(1) by (simp add: Suc_le_eq)
  have start': "rd_start_anchored raw' = 1"
    using assms(2) c(2) by (simp add: prune_leading_states_def INIT_STATE_def Let_def)
  have prefix: "run_syms raw 1 v = 1 + length v" if "impl_word raw v" "length v \<le> count" for v
    using dots_run [OF dots that(1), of 1] that(2) by simp
  have quiet: "fires raw (1 + n) = ({}, {})" if "n \<le> count" for n
  proof (cases n)
    case 0
    then show ?thesis using assms(3) by (simp add: INIT_STATE_def)
  next
    case (Suc m)
    then have "step_sym raw n 0 = n + 1" "\<not> state_has_reports raw (ds_next (rd_states raw ! n) ! 0)"
      using dots assms(6) spec(1,3) count that by auto
    then show ?thesis by (simp add: state_has_reports_def step_sym_def fires_def Let_def)
  qed
  have "fires raw' (run_syms raw' (rd_start_anchored raw') w)
        = fires raw (run_syms raw (rd_start_anchored raw) (u @ w))"
    if u: "impl_word raw u" "length u = count" and w: "word_ok raw w"
  proof -
    have "run_syms raw 1 u = 1 + count" using prefix u by simp
    moreover have "fires raw' (run_syms raw' (1 + count - count) w) = fires raw (run_syms raw (1 + count) w)"
      unfolding c(2) using False len
      by (intro prune_leading_run [OF assms(1) _ _ asrt assms(5) w]) auto
    ultimately show ?thesis
      using assms(2) by (simp add: start' run_syms_append INIT_STATE_def)
  qed
  moreover have "fires raw (run_syms raw (rd_start_anchored raw) v) = ({}, {})"
    if "impl_word raw v" "length v \<le> count"
    using prefix [OF that] quiet [OF that(2)] assms(2) by (simp add: INIT_STATE_def)
  ultimately show ?thesis by blast
qed

theorem remove_leading_dots_shift_witness:
  "fires (prune_leading_states dots_example 1) (run_syms (prune_leading_states dots_example 1) 1 [0])
     = ({5}, {})
   \<and> remove_leading_dots dots_example = (1, prune_leading_states dots_example 1)"
proof -
  have "remove_leading_dots dots_example = (1, prune_leading_states dots_example 1)"
    by (simp add: remove_leading_dots_def dots_example_count)
  moreover have "rd_start_anchored dots_example = INIT_STATE" "fires dots_example INIT_STATE = ({}, {})"
    "0 < getImplAlphaSize dots_example" "impl_word dots_example [0]" "word_ok dots_example [0]"
    by (simp_all add: dots_example_def INIT_STATE_def fires_def getImplAlphaSize_def N_SPECIAL_SYMBOL_def
      impl_word_def)
  moreover have "\<forall>i a. count_dots dots_example < i \<and> i < length (rd_states dots_example)
      \<and> a < rd_alpha_size dots_example \<longrightarrow>
      step_sym dots_example i a = DEAD_STATE \<or> count_dots dots_example < step_sym dots_example i a"
    unfolding dots_example_count
    by (auto simp: dots_example_def step_sym_def DEAD_STATE_def less_2_cases_iff less_Suc_eq numeral_eq_Suc)
  ultimately have "fires (prune_leading_states dots_example 1)
      (run_syms (prune_leading_states dots_example 1) (rd_start_anchored (prune_leading_states dots_example 1)) [0])
      = fires dots_example (run_syms dots_example (rd_start_anchored dots_example) ([0] @ [0]))"
    using remove_leading_dots_shift [of dots_example 1 "prune_leading_states dots_example 1" "[0]" "[0]" "[]"]
      dots_example_ok by simp
  moreover have "rd_start_anchored (prune_leading_states dots_example 1) = 1"
    by (simp add: prune_leading_states_def dots_example_def Let_def)
  moreover have "fires dots_example (run_syms dots_example (rd_start_anchored dots_example) ([0] @ [0])) = ({5}, {})"
    by (simp add: dots_example_def fires_def step_sym_def)
  ultimately show ?thesis
    by (simp add: remove_leading_dots_def dots_example_count)
qed

end
