(* ===== verification/CharMasks.thy ===== *)
theory CharMasks
  imports CharReach "HOL-Library.Multiset" "HOL-Library.AList" "HOL-Library.List_Lexorder"
begin

text \<open>
  The nibble masks of the vector scanners: \<open>src/nfa/shufticompile.cpp\<close> and
  \<open>src/nfa/trufflecompile.cpp\<close>, with the byte-by-byte scans of \<open>src/nfa/shufti.c\<close> that use the
  masks.  A \<open>std::map\<close> is an association list, walked in the order of its keys; arrays are lists.
\<close>

section \<open>Maps\<close>

text \<open>\<open>m[k]\<close> with its default, changed in place, and the walk in key order.\<close>

definition map_at :: "'v \<Rightarrow> 'k \<Rightarrow> ('v \<Rightarrow> 'v) \<Rightarrow> ('k \<times> 'v) list \<Rightarrow> ('k \<times> 'v) list" where
  "map_at dflt k f m = AList.update k (f (case map_of m k of None \<Rightarrow> dflt | Some v \<Rightarrow> v)) m"

definition map_walk :: "('k::linorder \<times> 'v) list \<Rightarrow> ('k \<times> 'v) list" where
  "map_walk m = sort_key fst m"

section \<open>Shufti\<close>

definition shufti_by_hi :: "CharReach \<Rightarrow> (u8 \<times> CharReach) list" where
  "shufti_by_hi c =
     foldl (\<lambda>m i. let it_hi = word_of_nat (drop_bit 4 i); it_lo = word_of_nat (i AND 0xf)
                  in map_at cr_empty it_hi (\<lambda>los. cr_set los it_lo) m)
       [] (cr_indices c)"

definition shufti_by_lo_set :: "(u8 \<times> CharReach) list \<Rightarrow> (CharReach \<times> CharReach) list" where
  "shufti_by_lo_set by_hi =
     foldl (\<lambda>m (h, los). map_at cr_empty los (\<lambda>his. cr_set his h) m) [] (map_walk by_hi)"

definition set_mask_bits :: "nat \<Rightarrow> CharReach \<Rightarrow> u8 list \<Rightarrow> u8 list" where
  "set_mask_bits bit_index nibbles a =
     foldl (\<lambda>a j. a[j := a ! j OR push_bit bit_index 1]) a (cr_indices nibbles)"

text \<open>\<open>None\<close> is the result -1; otherwise the number of bits used and the two masks.\<close>

definition shuftiBuildMasks :: "CharReach \<Rightarrow> (nat \<times> u8 list \<times> u8 list) option" where
  "shuftiBuildMasks c =
     (let by_lo_set = shufti_by_lo_set (shufti_by_hi c) in
      if length by_lo_set > 8 then None
      else Some (foldl (\<lambda>(bit_index, lo_a, hi_a) (lo_nibbles, hi_nibbles).
               (bit_index + 1, set_mask_bits bit_index lo_nibbles lo_a,
                set_mask_bits bit_index hi_nibbles hi_a))
             (0, replicate 16 0, replicate 16 0) (map_walk by_lo_set)))"

definition shufti_hit :: "u8 list \<Rightarrow> u8 list \<Rightarrow> u8 \<Rightarrow> bool" where
  "shufti_hit lo hi c = (lo ! unat (c AND 0xf) AND hi ! unat (drop_bit 4 c) \<noteq> 0)"

text \<open>The scans return a position in the buffer; the backward one may return the place before it.\<close>

fun shuftiFwdSlow :: "u8 list \<Rightarrow> u8 list \<Rightarrow> u8 list \<Rightarrow> nat" where
  "shuftiFwdSlow lo hi [] = 0"
| "shuftiFwdSlow lo hi (c # buf) = (if shufti_hit lo hi c then 0 else 1 + shuftiFwdSlow lo hi buf)"

fun shuftiRevSlow :: "u8 list \<Rightarrow> u8 list \<Rightarrow> u8 list \<Rightarrow> nat \<Rightarrow> int" where
  "shuftiRevSlow lo hi buf 0 = - 1"
| "shuftiRevSlow lo hi buf (Suc n) =
     (if shufti_hit lo hi (buf ! n) then int n else shuftiRevSlow lo hi buf n)"

definition shufti2cr :: "u8 list \<Rightarrow> u8 list \<Rightarrow> CharReach" where
  "shufti2cr lo hi =
     foldl (\<lambda>cr i. if shufti_hit lo hi (word_of_nat i) then cr_set cr (word_of_nat i) else cr)
       cr_empty [0..<256]"

section \<open>Double shufti\<close>

type_synonym nibble_masks = "u16 list" \<comment> \<open>\<open>array<u16, 4>\<close>\<close>

definition or_array :: "nibble_masks \<Rightarrow> nibble_masks \<Rightarrow> nibble_masks" where
  "or_array a b = [a ! 0 OR b ! 0, a ! 1 OR b ! 1, a ! 2 OR b ! 2, a ! 3 OR b ! 3]"

definition MAX_BUCKETS :: nat where
  "MAX_BUCKETS = 8"

function clear_bucket_loop :: "nat \<Rightarrow> u32 \<Rightarrow> u8 list \<Rightarrow> u8 list" where
  "clear_bucket_loop bucket mk byte_mask =
     (if mk = 0 then byte_mask
      else let (n, mk') = findAndClearLSB_32 mk
           in clear_bucket_loop bucket mk' (byte_mask[n := byte_mask ! n AND NOT (push_bit bucket 1)]))"
  by pat_completeness auto

termination
  by (relation "measure (\<lambda>(_, mk, _). card (bitset mk))")
    (auto simp: findAndClearLSB_32_def Let_def clear_lsb_less)

declare clear_bucket_loop.simps [simp del]

definition set_buckets_from_mask :: "u16 \<Rightarrow> nat \<Rightarrow> u8 list \<Rightarrow> u8 list" where
  "set_buckets_from_mask nibble_mask bucket byte_mask = clear_bucket_loop bucket (ucast nibble_mask) byte_mask"

definition pair_masks :: "u8 \<times> u8 \<Rightarrow> nibble_masks" where
  "pair_masks p = [push_bit (unat (fst p AND 0xf)) 1, push_bit (unat (drop_bit 4 (fst p))) 1,
                   push_bit (unat (snd p AND 0xf)) 1, push_bit (unat (drop_bit 4 (snd p))) 1]"

definition single_masks :: "nat \<Rightarrow> nibble_masks" where
  "single_masks it = [push_bit (it AND 0xf) 1, push_bit (drop_bit 4 it) 1, 0xffff, 0xffff]"

text \<open>One of the four attempts to share buckets: masks that differ only at position \<open>i\<close>.\<close>

definition merge_masks :: "nibble_masks list \<Rightarrow> nat \<Rightarrow> nibble_masks list" where
  "merge_masks nibble_masks i =
     map snd (map_walk (foldl (\<lambda>m a. let key = a[i := 0] in
         case map_of m key of
           None \<Rightarrow> AList.update key a m
         | Some v \<Rightarrow> AList.update key (or_array v a) m) [] nibble_masks))"

type_synonym double_masks = "u8 list \<times> u8 list \<times> u8 list \<times> u8 list" \<comment> \<open>lo1, hi1, lo2, hi2\<close>

definition shuftiBuildDoubleMasks :: "CharReach \<Rightarrow> (u8 \<times> u8) list \<Rightarrow> double_masks option" where
  "shuftiBuildDoubleMasks onechar twochar =
     (let nibble_masks = map pair_masks twochar @ map single_masks (cr_indices onechar);
          nibble_masks = foldl merge_masks nibble_masks [0..<4]
      in if length nibble_masks > MAX_BUCKETS then None
         else Some (snd (foldl (\<lambda>(i, lo1, hi1, lo2, hi2) a.
                (i + 1, set_buckets_from_mask (a ! 0) i lo1, set_buckets_from_mask (a ! 1) i hi1,
                 set_buckets_from_mask (a ! 2) i lo2, set_buckets_from_mask (a ! 3) i hi2))
              (0 :: nat, replicate 16 0xff, replicate 16 0xff, replicate 16 0xff, replicate 16 0xff)
              nibble_masks)))"

section \<open>Truffle\<close>

definition truffle_add :: "u8 list \<times> u8 list \<Rightarrow> nat \<Rightarrow> u8 list \<times> u8 list" where
  "truffle_add masks v =
     (let (highclear, highset) = masks; low_nibble = v AND 0xf; bits_456 = drop_bit 4 (v AND 0x70);
          change = (\<lambda>m. m[low_nibble := m ! low_nibble OR push_bit bits_456 1])
      in if v AND 0x80 \<noteq> 0 then (highclear, change highset) else (change highclear, highset))"

definition truffleBuildMasks :: "CharReach \<Rightarrow> u8 list \<times> u8 list" where
  "truffleBuildMasks cr = foldl truffle_add (replicate 16 0, replicate 16 0) (cr_indices cr)"

function truffle_bits :: "nat \<Rightarrow> u32 \<Rightarrow> CharReach \<Rightarrow> CharReach" where
  "truffle_bits base bits_456 cr =
     (if bits_456 = 0 then cr
      else let (pos, bits_456') = findAndClearLSB_32 bits_456
           in truffle_bits base bits_456' (cr_set cr (word_of_nat (base OR push_bit 4 pos))))"
  by pat_completeness auto
termination
  by (relation "measure (\<lambda>(_, mk, _). card (bitset mk))")
    (auto simp: findAndClearLSB_32_def Let_def clear_lsb_less)

declare truffle_bits.simps [simp del]

definition truffle2cr :: "u8 list \<Rightarrow> u8 list \<Rightarrow> CharReach" where
  "truffle2cr highclear highset =
     foldl (\<lambda>cr i. truffle_bits (0x80 OR i) (ucast (highset ! i)) (truffle_bits i (ucast (highclear ! i)) cr))
       cr_empty [0..<16]"

section \<open>Lemmas: grouping and nibbles\<close>

lemma map_at_map_of:
  "map_of (map_at dflt k f m) = (map_of m)(k \<mapsto> f (case map_of m k of None \<Rightarrow> dflt | Some v \<Rightarrow> v))"
  by (simp add: map_at_def update_conv')

lemma map_at_distinct [intro]: "distinct (map fst m) \<Longrightarrow> distinct (map fst (map_at dflt k f m))"
  by (simp add: map_at_def distinct_update)

lemma map_walk_simps [simp]:
  "set (map_walk m) = set m" "length (map_walk m) = length m"
  "distinct (map fst (map_walk m)) \<longleftrightarrow> distinct (map fst m)"
proof -
  show "distinct (map fst (map_walk m)) \<longleftrightarrow> distinct (map fst m)"
    unfolding map_walk_def by (metis mset_map mset_sort mset_eq_imp_distinct_iff)
qed (simp_all add: map_walk_def)

text \<open>Grouping values by key into classes.\<close>

definition group :: "('x \<Rightarrow> 'k) \<Rightarrow> ('x \<Rightarrow> u8) \<Rightarrow> 'x list \<Rightarrow> ('k \<times> CharReach) list" where
  "group key val xs = foldl (\<lambda>m x. map_at cr_empty (key x) (\<lambda>s. cr_set s (val x)) m) [] xs"

lemma group_spec:
  "distinct (map fst (group key val xs))
   \<and> (\<forall>k. case map_of (group key val xs) k of
        None \<Rightarrow> \<forall>x \<in> set xs. key x \<noteq> k
      | Some s \<Rightarrow> cr_inv s \<and> chars s = {val x | x. x \<in> set xs \<and> key x = k} \<and> (\<exists>x \<in> set xs. key x = k))"
proof (induction xs rule: rev_induct)
  case (snoc x xs)
  define m where "m = group key val xs"
  have step: "group key val (xs @ [x]) = map_at cr_empty (key x) (\<lambda>s. cr_set s (val x)) m"
    by (simp add: group_def m_def)
  note IH = snoc [folded m_def]
  have "case map_of (group key val (xs @ [x])) k of
        None \<Rightarrow> \<forall>y \<in> set (xs @ [x]). key y \<noteq> k
      | Some s \<Rightarrow> cr_inv s \<and> chars s = {val y | y. y \<in> set (xs @ [x]) \<and> key y = k}
          \<and> (\<exists>y \<in> set (xs @ [x]). key y = k)" for k
  proof (cases "key x = k")
    case False
    then have "map_of (group key val (xs @ [x])) k = map_of m k" by (simp add: step map_at_map_of)
    then show ?thesis using conjunct2 [OF IH, THEN spec, of k] False by (auto split: option.split)
  next
    case True
    then show ?thesis
      using conjunct2 [OF IH, THEN spec, of k]
      by (cases "map_of m k") (auto simp: step map_at_map_of cr_inv_intros chars_simps)
  qed
  then show ?case using IH step by auto
qed (simp add: group_def)

lemma group_entry:
  assumes "(k, s) \<in> set (group key val xs)"
  shows "cr_inv s" "chars s = {val x | x. x \<in> set xs \<and> key x = k}" "\<exists>x \<in> set xs. key x = k"
proof -
  have "map_of (group key val xs) k = Some s"
    using assms group_spec [of key val xs] by (simp add: map_of_is_SomeI)
  then show "cr_inv s" "chars s = {val x | x. x \<in> set xs \<and> key x = k}" "\<exists>x \<in> set xs. key x = k"
    using conjunct2 [OF group_spec [of key val xs], THEN spec, of k] by simp_all
qed

lemma group_find:
  assumes "x \<in> set xs"
  shows "\<exists>s. (key x, s) \<in> set (group key val xs)"
  using conjunct2 [OF group_spec [of key val xs], THEN spec, of "key x"] assms
  by (cases "map_of (group key val xs) (key x)") (auto dest: map_of_SomeD)

text \<open>The two nibbles of a byte.\<close>

definition lo_nib :: "u8 \<Rightarrow> u8" where
  "lo_nib c = c AND 0xf"

definition hi_nib :: "u8 \<Rightarrow> u8" where
  "hi_nib c = drop_bit 4 c"

lemma bit_0xf: "bit (0xf :: 'a::len word) k \<longleftrightarrow> k < 4 \<and> k < LENGTH('a)"
proof -
  have "(0xf :: 'a word) = mask 4" by (simp add: mask_eq_exp_minus_1)
  then show ?thesis by (simp only: bit_mask_iff) auto
qed

lemma nibbles_eq: "lo_nib c = lo_nib d \<and> hi_nib c = hi_nib d \<longleftrightarrow> c = d"
proof (intro iffI)
  assume eq: "lo_nib c = lo_nib d \<and> hi_nib c = hi_nib d"
  have "bit c k \<longleftrightarrow> bit d k" if "k < 8" for k
  proof (cases "k < 4")
    case True
    have "bit (lo_nib c) k = bit (lo_nib d) k" using eq by simp
    then show ?thesis using True unfolding lo_nib_def bit_and_iff bit_0xf by simp
  next
    case False
    have "bit (hi_nib c) (k - 4) = bit (hi_nib d) (k - 4)" using eq by simp
    then show ?thesis using False by (simp add: hi_nib_def bit_drop_bit_eq)
  qed
  then show "c = d" by (intro bit_word_eqI) simp
qed simp

lemma nibble_bounds: "unat (lo_nib c) < 16" "unat (hi_nib c) < 16"
proof -
  have "lo_nib c \<le> 0xf" by (simp add: lo_nib_def word_and_le1)
  then show "unat (lo_nib c) < 16" by (simp add: word_le_nat_alt)
  have "unat (hi_nib c) = unat c div 16" by (simp add: hi_nib_def drop_bit_eq_div unat_div)
  then show "unat (hi_nib c) < 16" using unat_u8_npos [of c] by (simp add: cr_npos_def)
qed

lemma nibbles_of_nat:
  "word_of_nat (unat c AND 0xf) = lo_nib c" "word_of_nat (drop_bit 4 (unat c)) = hi_nib c"
proof -
  have "unat (lo_nib c) = unat c AND 0xf"
    by (simp add: lo_nib_def unsigned_and_eq)
  then show "word_of_nat (unat c AND 0xf) = lo_nib c" by (metis of_nat_unat ucast_id)
  have "unat (hi_nib c) = drop_bit 4 (unat c)"
    by (simp add: hi_nib_def drop_bit_eq_div unat_div)
  then show "word_of_nat (drop_bit 4 (unat c)) = hi_nib c" by (metis of_nat_unat ucast_id)
qed

section \<open>Lemmas: shufti\<close>

lemma shufti_by_hi_group:
  "shufti_by_hi c = group (\<lambda>i. word_of_nat (drop_bit 4 i)) (\<lambda>i. word_of_nat (i AND 0xf)) (cr_indices c)"
  by (simp add: shufti_by_hi_def group_def Let_def)

lemma shufti_by_lo_group:
  "shufti_by_lo_set m = group snd fst (map_walk m)"
  by (simp add: shufti_by_lo_set_def group_def split_def)

text \<open>The classes of the second map multiply out to the class.\<close>

lemma shufti_groups:
  assumes c: "cr_inv c"
  defines "m \<equiv> shufti_by_lo_set (shufti_by_hi c)"
  shows "\<forall>(los, his) \<in> set m. cr_inv los \<and> cr_inv his
      \<and> (\<forall>x \<in> chars los. unat x < 16) \<and> (\<forall>x \<in> chars his. unat x < 16)"
    and "(\<exists>(los, his) \<in> set m. lo_nib x \<in> chars los \<and> hi_nib x \<in> chars his) \<longleftrightarrow> x \<in> chars c"
proof -
  have idx: "set (cr_indices c) = unat ` chars c" by (rule set_cr_indices [OF c])
  have hi: "cr_inv los" "chars los = {lo_nib y | y. y \<in> chars c \<and> hi_nib y = h}"
    if "(h, los) \<in> set (shufti_by_hi c)" for h los
  proof -
    have img: "{f i | i. i \<in> unat ` A \<and> P i} = {f (unat y) | y. y \<in> A \<and> P (unat y)}"
      for f :: "nat \<Rightarrow> u8" and A :: "u8 set" and P by blast
    show "cr_inv los" "chars los = {lo_nib y | y. y \<in> chars c \<and> hi_nib y = h}"
      using group_entry [OF that [unfolded shufti_by_hi_group]] unfolding idx img nibbles_of_nat by auto
  qed
  have hi_nibs: "\<exists>y \<in> chars c. hi_nib y = h" if "(h, los) \<in> set (shufti_by_hi c)" for h los
    using group_entry(3) [OF that [unfolded shufti_by_hi_group]] by (auto simp: idx nibbles_of_nat)
  have find: "\<exists>los. (hi_nib y, los) \<in> set (shufti_by_hi c)" if "y \<in> chars c" for y
    using group_find [of "unat y" "cr_indices c" "\<lambda>i. word_of_nat (drop_bit 4 i) :: u8"] that
    by (auto simp: idx nibbles_of_nat shufti_by_hi_group)
  have lo: "cr_inv his" "chars his = {h. (h, los) \<in> set (shufti_by_hi c)}"
      "\<exists>h. (h, los) \<in> set (shufti_by_hi c)"
    if "(los, his) \<in> set m" for los his
    using group_entry [OF that [unfolded m_def shufti_by_lo_group]] by auto
  show "\<forall>(los, his) \<in> set m. cr_inv los \<and> cr_inv his
      \<and> (\<forall>x \<in> chars los. unat x < 16) \<and> (\<forall>x \<in> chars his. unat x < 16)"
  proof (clarify, intro conjI ballI)
    fix los his
    assume e: "(los, his) \<in> set m"
    obtain h where h: "(h, los) \<in> set (shufti_by_hi c)" using lo(3) [OF e] by blast
    show "cr_inv los" "cr_inv his" using hi(1) [OF h] lo(1) [OF e] by auto
    show "unat x < 16" if "x \<in> chars los" for x using hi(2) [OF h] that nibble_bounds by auto
    show "unat x < 16" if "x \<in> chars his" for x
      using lo(2) [OF e] that hi_nibs nibble_bounds(2) by fastforce
  qed
  show "(\<exists>(los, his) \<in> set m. lo_nib x \<in> chars los \<and> hi_nib x \<in> chars his) \<longleftrightarrow> x \<in> chars c"
  proof
    assume "\<exists>(los, his) \<in> set m. lo_nib x \<in> chars los \<and> hi_nib x \<in> chars his"
    then obtain los his where e: "(los, his) \<in> set m" "lo_nib x \<in> chars los" "hi_nib x \<in> chars his"
      by auto
    then have "(hi_nib x, los) \<in> set (shufti_by_hi c)" using lo(2) by simp
    with hi(2) e(2) obtain y where "y \<in> chars c" "lo_nib y = lo_nib x" "hi_nib y = hi_nib x" by force
    then show "x \<in> chars c" using nibbles_eq [of y x] by simp
  next
    assume x: "x \<in> chars c"
    then obtain los where los: "(hi_nib x, los) \<in> set (shufti_by_hi c)" using find by blast
    obtain his where his: "(los, his) \<in> set m"
      using group_find [of "(hi_nib x, los)" "map_walk (shufti_by_hi c)" snd fst] los
      by (auto simp: m_def shufti_by_lo_group)
    have "lo_nib x \<in> chars los" using hi(2) [OF los] x by auto
    moreover have "hi_nib x \<in> chars his" using lo(2) [OF his] los by simp
    ultimately show "\<exists>(los, his) \<in> set m. lo_nib x \<in> chars los \<and> hi_nib x \<in> chars his"
      using his by auto
  qed
qed

lemma set_mask_bits_spec:
  assumes n: "cr_inv n" "\<forall>x \<in> chars n. unat x < 16" and a: "length a = 16" and b: "b < 8"
  shows "length (set_mask_bits b n a) = 16"
    and "j < 16 \<Longrightarrow> bit (set_mask_bits b n a ! j) k \<longleftrightarrow> bit (a ! j) k \<or> (k = b \<and> j \<in> unat ` chars n)"
proof -
  have gen: "length (foldl (\<lambda>a j. a[j := a ! j OR push_bit b 1]) a js) = 16 \<and> (\<forall>j < 16.
      bit (foldl (\<lambda>a j. a[j := a ! j OR push_bit b (1 :: u8)]) a js ! j) k \<longleftrightarrow> bit (a ! j) k \<or> (k = b \<and> j \<in> set js))"
    if "length a = 16" "\<forall>j \<in> set js. j < 16" for js a
    using that b
  proof (induction js arbitrary: a)
    case (Cons i js)
    then show ?case
      by (auto simp: nth_list_update bit_or_iff bit_exp_iff)
  qed simp
  have "\<forall>j \<in> set (cr_indices n). j < 16" using set_cr_indices [OF n(1)] n(2) by auto
  from gen [OF a this] show "length (set_mask_bits b n a) = 16"
    "j < 16 \<Longrightarrow> bit (set_mask_bits b n a ! j) k \<longleftrightarrow> bit (a ! j) k \<or> (k = b \<and> j \<in> unat ` chars n)"
    using set_cr_indices [OF n(1)] by (simp_all add: set_mask_bits_def)
qed

lemma shufti_masks_fold:
  assumes "\<forall>(los, his) \<in> set xs. cr_inv los \<and> cr_inv his
      \<and> (\<forall>x \<in> chars los. unat x < 16) \<and> (\<forall>x \<in> chars his. unat x < 16)" "length xs \<le> 8"
  shows "\<exists>lo hi. foldl (\<lambda>(bit_index, lo_a, hi_a) (lo_nibbles, hi_nibbles).
               (bit_index + 1, set_mask_bits bit_index lo_nibbles lo_a,
                set_mask_bits bit_index hi_nibbles hi_a))
             (0, replicate 16 0, replicate 16 0) xs = (length xs, lo, hi)
    \<and> length lo = 16 \<and> length hi = 16
    \<and> (\<forall>j < 16. \<forall>k. bit (lo ! j) k \<longleftrightarrow> k < length xs \<and> j \<in> unat ` chars (fst (xs ! k)))
    \<and> (\<forall>j < 16. \<forall>k. bit (hi ! j) k \<longleftrightarrow> k < length xs \<and> j \<in> unat ` chars (snd (xs ! k)))"
  using assms
proof (induction xs rule: rev_induct)
  case (snoc x xs)
  obtain los his where x: "x = (los, his)" by fastforce
  have n: "cr_inv los" "cr_inv his" "\<forall>x \<in> chars los. unat x < 16" "\<forall>x \<in> chars his. unat x < 16"
    using snoc.prems(1) x by auto
  obtain lo hi where IH: "foldl (\<lambda>(bit_index, lo_a, hi_a) (lo_nibbles, hi_nibbles).
               (bit_index + 1, set_mask_bits bit_index lo_nibbles lo_a,
                set_mask_bits bit_index hi_nibbles hi_a))
             (0, replicate 16 0, replicate 16 0) xs = (length xs, lo, hi)" "length lo = 16" "length hi = 16"
    "\<forall>j < 16. \<forall>k. bit (lo ! j) k \<longleftrightarrow> k < length xs \<and> j \<in> unat ` chars (fst (xs ! k))"
    "\<forall>j < 16. \<forall>k. bit (hi ! j) k \<longleftrightarrow> k < length xs \<and> j \<in> unat ` chars (snd (xs ! k))"
    using snoc by auto
  have b: "length xs < 8" using snoc.prems(2) by simp
  note lo = set_mask_bits_spec [OF n(1,3) IH(2) b] and hi = set_mask_bits_spec [OF n(2,4) IH(3) b]
  show ?case
    using IH lo hi
    by (intro exI [of _ "set_mask_bits (length xs) los lo"] exI [of _ "set_mask_bits (length xs) his hi"])
      (auto simp: x nth_append less_Suc_eq)
qed simp

lemma shufti_hit_bits:
  "shufti_hit lo hi c \<longleftrightarrow> (\<exists>k. bit (lo ! unat (lo_nib c)) k \<and> bit (hi ! unat (hi_nib c)) k)"
  unfolding shufti_hit_def bitset_empty_iff [symmetric] bitset_ops lo_nib_def hi_nib_def
  by (auto simp: bitset_def)

lemma shuftiBuildMasks_hit:
  assumes c: "cr_inv c" and build: "shuftiBuildMasks c = Some (n, lo, hi)"
  shows "shufti_hit lo hi x \<longleftrightarrow> x \<in> chars c" "n \<le> 8" "length lo = 16" "length hi = 16"
proof -
  define m where "m = shufti_by_lo_set (shufti_by_hi c)"
  define xs where "xs = map_walk m"
  have len: "length xs \<le> 8" using build by (auto simp: shuftiBuildMasks_def m_def xs_def Let_def split: if_splits)
  note g = shufti_groups [OF c, folded m_def]
  have entries: "\<forall>(los, his) \<in> set xs. cr_inv los \<and> cr_inv his
      \<and> (\<forall>x \<in> chars los. unat x < 16) \<and> (\<forall>x \<in> chars his. unat x < 16)"
    using g(1) by (simp add: xs_def)
  obtain lo' hi' where f: "foldl (\<lambda>(bit_index, lo_a, hi_a) (lo_nibbles, hi_nibbles).
               (bit_index + 1, set_mask_bits bit_index lo_nibbles lo_a,
                set_mask_bits bit_index hi_nibbles hi_a))
             (0, replicate 16 0, replicate 16 0) xs = (length xs, lo', hi')" "length lo' = 16" "length hi' = 16"
    "\<forall>j < 16. \<forall>k. bit (lo' ! j) k \<longleftrightarrow> k < length xs \<and> j \<in> unat ` chars (fst (xs ! k))"
    "\<forall>j < 16. \<forall>k. bit (hi' ! j) k \<longleftrightarrow> k < length xs \<and> j \<in> unat ` chars (snd (xs ! k))"
    using shufti_masks_fold [OF entries len] by blast
  have eq: "n = length xs" "lo = lo'" "hi = hi'"
    using build f(1) by (auto simp: shuftiBuildMasks_def m_def xs_def Let_def split: if_splits)
  show "n \<le> 8" "length lo = 16" "length hi = 16" using eq len f(2,3) by auto
  have "shufti_hit lo hi x \<longleftrightarrow> (\<exists>k < length xs. lo_nib x \<in> chars (fst (xs ! k)) \<and> hi_nib x \<in> chars (snd (xs ! k)))"
    unfolding shufti_hit_bits eq using f(4,5) nibble_bounds [of x]
    by (auto simp: inj_image_mem_iff [OF inj_unat_u8])
  also have "\<dots> \<longleftrightarrow> (\<exists>(los, his) \<in> set xs. lo_nib x \<in> chars los \<and> hi_nib x \<in> chars his)"
    unfolding case_prod_beta by (metis in_set_conv_nth nth_mem)
  also have "\<dots> \<longleftrightarrow> x \<in> chars c" using g(2) [of x] by (simp add: xs_def)
  finally show "shufti_hit lo hi x \<longleftrightarrow> x \<in> chars c" .
qed

lemma group_length: "length (group key val xs) = card (key ` set xs)"
proof -
  have "fst ` set (group key val xs) = key ` set xs"
    using group_entry(3) [of _ _ key val xs] group_find [of _ xs key val] by (force simp: image_iff)
  moreover have "distinct (map fst (group key val xs))" using group_spec [of key val xs] by blast
  ultimately show ?thesis using distinct_card [of "map fst (group key val xs)"] by simp
qed

text \<open>The rows of a class: for each high nibble in use, the set of its low nibbles.\<close>

definition char_rows :: "u8 set \<Rightarrow> u8 set set" where
  "char_rows C = (\<lambda>h. lo_nib ` {y \<in> C. hi_nib y = h}) ` hi_nib ` C"

lemma shufti_rows:
  assumes c: "cr_inv c"
  shows "length (shufti_by_lo_set (shufti_by_hi c)) = card (char_rows (chars c))"
proof -
  have idx: "set (cr_indices c) = unat ` chars c" by (rule set_cr_indices [OF c])
  have hi: "cr_inv los" "chars los = lo_nib ` {y \<in> chars c. hi_nib y = h}" "h \<in> hi_nib ` chars c"
    if "(h, los) \<in> set (shufti_by_hi c)" for h los
  proof -
    have img: "{f i | i. i \<in> unat ` A \<and> P i} = f ` unat ` {y \<in> A. P (unat y)}"
      for f :: "nat \<Rightarrow> u8" and A :: "u8 set" and P by blast
    note e = group_entry [OF that [unfolded shufti_by_hi_group]]
    show "cr_inv los" by (rule e(1))
    show "chars los = lo_nib ` {y \<in> chars c. hi_nib y = h}"
      using e(2) unfolding idx img by (simp add: image_image nibbles_of_nat)
    show "h \<in> hi_nib ` chars c" using e(3) by (auto simp: idx nibbles_of_nat)
  qed
  have find: "\<exists>los. (h, los) \<in> set (shufti_by_hi c)" if hin: "h \<in> hi_nib ` chars c" for h
  proof -
    obtain y where y: "y \<in> chars c" "h = hi_nib y" using hin by blast
    then show ?thesis
      using group_find [of "unat y" "cr_indices c" "\<lambda>i. word_of_nat (drop_bit 4 i) :: u8"]
      by (auto simp: idx nibbles_of_nat shufti_by_hi_group)
  qed
  have "chars ` snd ` set (shufti_by_hi c) = char_rows (chars c)"
  proof
    show "chars ` snd ` set (shufti_by_hi c) \<subseteq> char_rows (chars c)"
      using hi(2,3) by (auto simp: char_rows_def)
    show "char_rows (chars c) \<subseteq> chars ` snd ` set (shufti_by_hi c)"
    proof
      fix R
      assume "R \<in> char_rows (chars c)"
      then obtain h where h: "h \<in> hi_nib ` chars c" "R = lo_nib ` {y \<in> chars c. hi_nib y = h}"
        by (auto simp: char_rows_def)
      then obtain los where "(h, los) \<in> set (shufti_by_hi c)" using find by blast
      then show "R \<in> chars ` snd ` set (shufti_by_hi c)" using hi(2) h(2) by force
    qed
  qed
  moreover have "inj_on chars (snd ` set (shufti_by_hi c))"
    by (rule inj_onI) (use hi(1) chars_eq_iff in auto)
  ultimately have "card (snd ` set (shufti_by_hi c)) = card (char_rows (chars c))"
    using card_image by metis
  then show ?thesis by (simp add: shufti_by_lo_group group_length)
qed

lemma card_rows: "card (char_rows C) \<le> card C"
proof -
  have "card (char_rows C) \<le> card (hi_nib ` C)" unfolding char_rows_def by (rule card_image_le) simp
  also have "\<dots> \<le> card C" by (rule card_image_le) simp
  finally show ?thesis .
qed

lemma shufti2cr_chars: "cr_inv (shufti2cr lo hi)" "chars (shufti2cr lo hi) = {x. shufti_hit lo hi x}"
proof -
  have "cr_inv (foldl (\<lambda>cr i. if shufti_hit lo hi (word_of_nat i) then cr_set cr (word_of_nat i) else cr) cr is)
      \<and> chars (foldl (\<lambda>cr i. if shufti_hit lo hi (word_of_nat i) then cr_set cr (word_of_nat i) else cr) cr is)
        = chars cr \<union> {x. x \<in> word_of_nat ` set is \<and> shufti_hit lo hi x}" if "cr_inv cr" for cr "is"
    using that
  proof (induction "is" arbitrary: cr)
    case (Cons i js)
    show ?case using Cons.IH [of "if shufti_hit lo hi (word_of_nat i) then cr_set cr (word_of_nat i) else cr"]
        Cons.prems by (auto simp: cr_inv_intros chars_simps)
  qed simp
  from this [of cr_empty "[0..<256]"]
  have f: "cr_inv (shufti2cr lo hi)"
    "chars (shufti2cr lo hi) = {x. x \<in> word_of_nat ` set [0..<256] \<and> shufti_hit lo hi x}"
    by (simp_all add: shufti2cr_def cr_inv_intros chars_simps)
  have "x \<in> word_of_nat ` set [0..<256]" for x :: u8
    using unat_u8_npos [of x] by (intro image_eqI [of _ _ "unat x"]) (simp_all add: cr_npos_def)
  then show "cr_inv (shufti2cr lo hi)" "chars (shufti2cr lo hi) = {x. shufti_hit lo hi x}"
    using f by auto
qed

lemma shuftiFwdSlow_first:
  "shuftiFwdSlow lo hi buf \<le> length buf
   \<and> (\<forall>k < shuftiFwdSlow lo hi buf. \<not> shufti_hit lo hi (buf ! k))
   \<and> (shuftiFwdSlow lo hi buf < length buf \<longrightarrow> shufti_hit lo hi (buf ! shuftiFwdSlow lo hi buf))"
  by (induction buf) (auto simp: nth_Cons split: nat.split)

lemma shuftiRevSlow_last:
  "n \<le> length buf \<Longrightarrow> - 1 \<le> shuftiRevSlow lo hi buf n \<and> shuftiRevSlow lo hi buf n < int n
   \<and> (\<forall>k < n. shuftiRevSlow lo hi buf n < int k \<longrightarrow> \<not> shufti_hit lo hi (buf ! k))
   \<and> (0 \<le> shuftiRevSlow lo hi buf n \<longrightarrow> shufti_hit lo hi (buf ! nat (shuftiRevSlow lo hi buf n)))"
  by (induction n) (auto simp: less_Suc_eq)

section \<open>Lemmas: truffle\<close>

lemma nat_bits:
  "(v :: nat) AND 0xf = v mod 16" "drop_bit 4 (v AND 0x70) = v div 16 mod 8"
  "v < 256 \<Longrightarrow> v AND 0x80 \<noteq> 0 \<longleftrightarrow> 128 \<le> v"
proof -
  have "(0xf :: nat) = mask 4" by (simp add: mask_eq_exp_minus_1)
  then show "v AND 0xf = v mod 16" by (simp only: take_bit_eq_mask [symmetric] take_bit_eq_mod) simp
  have "drop_bit 4 (v AND 0x70) = drop_bit 4 v AND 7" by (simp add: drop_bit_and)
  also have "\<dots> = drop_bit 4 v AND mask 3" by (simp add: mask_eq_exp_minus_1)
  also have "\<dots> = v div 16 mod 8"
    by (simp only: take_bit_eq_mask [symmetric] take_bit_eq_mod drop_bit_eq_div) simp
  finally show "drop_bit 4 (v AND 0x70) = v div 16 mod 8" .
  have p: "(0x80 :: nat) = 2 ^ 7" by simp
  have "v AND 0x80 \<noteq> 0 \<longleftrightarrow> bit v 7"
    by (simp only: p and_exp_eq_0_iff_not_bit not_not)
  also have "\<dots> \<longleftrightarrow> odd (v div 128)" by (simp add: bit_iff_odd)
  finally have odd: "v AND 0x80 \<noteq> 0 \<longleftrightarrow> odd (v div 128)" .
  have "v div 128 = (if v < 128 then 0 else 1)" if "v < 256"
    using that by (auto intro: div_nat_eqI)
  then show "v < 256 \<Longrightarrow> v AND 0x80 \<noteq> 0 \<longleftrightarrow> 128 \<le> v" unfolding odd by simp
qed

text \<open>Where truffle puts a character: the mask, the place in it and the bit.\<close>

lemma truffle_add_bits:
  assumes "v < 256" "length a = 16" "length b = 16" "truffle_add (a, b) v = (a', b')"
  shows "length a' = 16 \<and> length b' = 16"
    and "j < 16 \<Longrightarrow> bit (a' ! j) k \<longleftrightarrow> bit (a ! j) k \<or> (v < 128 \<and> j = v mod 16 \<and> k = v div 16 mod 8)"
    and "j < 16 \<Longrightarrow> bit (b' ! j) k \<longleftrightarrow> bit (b ! j) k \<or> (128 \<le> v \<and> j = v mod 16 \<and> k = v div 16 mod 8)"
proof -
  have ab: "(a', b') = (if 128 \<le> v then (a, b[v mod 16 := b ! (v mod 16) OR push_bit (v div 16 mod 8) 1])
      else (a[v mod 16 := a ! (v mod 16) OR push_bit (v div 16 mod 8) 1], b))"
    using assms(4) nat_bits(3) [OF assms(1)]
    by (simp only: truffle_add_def Let_def prod.case nat_bits(1,2)) 
  have p: "bit (push_bit (v div 16 mod 8) (1 :: u8)) k \<longleftrightarrow> k = v div 16 mod 8"
    by (auto simp: bit_exp_iff)
  show "length a' = 16 \<and> length b' = 16" using ab assms(2,3) by (auto split: if_splits)
  show "j < 16 \<Longrightarrow> bit (a' ! j) k \<longleftrightarrow> bit (a ! j) k \<or> (v < 128 \<and> j = v mod 16 \<and> k = v div 16 mod 8)"
    "j < 16 \<Longrightarrow> bit (b' ! j) k \<longleftrightarrow> bit (b ! j) k \<or> (128 \<le> v \<and> j = v mod 16 \<and> k = v div 16 mod 8)"
    using ab assms(2,3) p
    by (auto simp: nth_list_update bit_or_iff split: if_splits)
qed

lemma truffle_fold:
  assumes "\<forall>v \<in> set vs. v < 256" "length a = 16" "length b = 16"
    "foldl truffle_add (a, b) vs = (a', b')"
  shows "length a' = 16 \<and> length b' = 16
    \<and> (\<forall>j < 16. \<forall>k. bit (a' ! j) k \<longleftrightarrow> bit (a ! j) k
          \<or> (\<exists>v \<in> set vs. v < 128 \<and> j = v mod 16 \<and> k = v div 16 mod 8))
    \<and> (\<forall>j < 16. \<forall>k. bit (b' ! j) k \<longleftrightarrow> bit (b ! j) k
          \<or> (\<exists>v \<in> set vs. 128 \<le> v \<and> j = v mod 16 \<and> k = v div 16 mod 8))"
  using assms
proof (induction vs arbitrary: a b)
  case (Cons v vs)
  obtain a1 b1 where 1: "truffle_add (a, b) v = (a1, b1)" by fastforce
  have v: "v < 256" using Cons.prems(1) by simp
  note t = truffle_add_bits [OF v Cons.prems(2,3) 1]
  have "foldl truffle_add (a1, b1) vs = (a', b')" using Cons.prems(4) 1 by simp
  from Cons.IH [OF _ _ _ this] Cons.prems(1) t(1)
  show ?case using t(2,3) by auto
qed auto

lemma truffle_place:
  assumes "j < 16" "k < (8 :: nat)" "v < 256"
  shows "v < 128 \<and> j = v mod 16 \<and> k = v div 16 mod 8 \<longleftrightarrow> v = 16 * k + j"
    and "128 \<le> v \<and> j = v mod 16 \<and> k = v div 16 mod 8 \<longleftrightarrow> v = 128 + (16 * k + j)"
proof -
  have v: "v = 16 * (v div 16) + v mod 16" by simp
  have lo: "v div 16 mod 8 = v div 16" if "v < 128" using that by simp
  have hi: "v div 16 mod 8 = v div 16 - 8" if "128 \<le> v"
  proof -
    have "8 \<le> v div 16" "v div 16 - 8 < 8" using that assms(3) by auto
    then show ?thesis by (metis le_mod_geq mod_less)
  qed
  show "v < 128 \<and> j = v mod 16 \<and> k = v div 16 mod 8 \<longleftrightarrow> v = 16 * k + j"
  proof
    assume a: "v < 128 \<and> j = v mod 16 \<and> k = v div 16 mod 8"
    then have "k = v div 16" "j = v mod 16" using lo by simp_all
    then show "v = 16 * k + j" using v by (simp only:)
  next
    assume "v = 16 * k + j"
    then show "v < 128 \<and> j = v mod 16 \<and> k = v div 16 mod 8" using assms(1,2) by simp
  qed
  show "128 \<le> v \<and> j = v mod 16 \<and> k = v div 16 mod 8 \<longleftrightarrow> v = 128 + (16 * k + j)"
  proof
    assume a: "128 \<le> v \<and> j = v mod 16 \<and> k = v div 16 mod 8"
    moreover from a have "8 \<le> v div 16" by auto
    ultimately show "v = 128 + (16 * k + j)" using hi v by linarith
  next
    assume "v = 128 + (16 * k + j)"
    then have "v = 16 * (8 + k) + j" by simp
    then have "v div 16 = 8 + k" "v mod 16 = j"
      using assms(1) by (simp_all only: div_mult_self4 mod_mult_self4) simp_all
    moreover have "128 \<le> v" using \<open>v = 128 + (16 * k + j)\<close> by linarith
    ultimately show "128 \<le> v \<and> j = v mod 16 \<and> k = v div 16 mod 8" using assms(2) by simp
  qed
qed

lemma truffle_masks:
  assumes cr: "cr_inv cr" and build: "truffleBuildMasks cr = (highclear, highset)"
  shows "length highclear = 16" "length highset = 16"
    and "j < 16 \<Longrightarrow> k < 8 \<Longrightarrow> bit (highclear ! j) k \<longleftrightarrow> word_of_nat (16 * k + j) \<in> chars cr"
    and "j < 16 \<Longrightarrow> k < 8 \<Longrightarrow> bit (highset ! j) k \<longleftrightarrow> word_of_nat (128 + (16 * k + j)) \<in> chars cr"
proof -
  have idx: "set (cr_indices cr) = unat ` chars cr" by (rule set_cr_indices [OF cr])
  have small: "\<forall>v \<in> set (cr_indices cr). v < 256"
    using idx unat_u8_npos by (auto simp: cr_npos_def)
  have empty: "length (replicate 16 (0 :: u8)) = 16" by simp
  note f = truffle_fold [OF small empty empty build [unfolded truffleBuildMasks_def]]
  show "length highclear = 16" "length highset = 16" using f by blast+
  have clear: "bit (highclear ! j) k
      \<longleftrightarrow> (\<exists>v \<in> set (cr_indices cr). v < 128 \<and> j = v mod 16 \<and> k = v div 16 mod 8)" if "j < 16" for j k
    using conjunct1 [OF conjunct2 [OF conjunct2 [OF f]], THEN spec, THEN mp, OF that, THEN spec, of k] that
    by (simp only: nth_replicate bit_0_eq) simp
  have high: "bit (highset ! j) k
      \<longleftrightarrow> (\<exists>v \<in> set (cr_indices cr). 128 \<le> v \<and> j = v mod 16 \<and> k = v div 16 mod 8)" if "j < 16" for j k
    using conjunct2 [OF conjunct2 [OF conjunct2 [OF f]], THEN spec, THEN mp, OF that, THEN spec, of k] that
    by (simp only: nth_replicate bit_0_eq) simp
  have mem: "n \<in> set (cr_indices cr) \<longleftrightarrow> word_of_nat n \<in> chars cr" if "n < 256" for n
  proof -
    have "unat (word_of_nat n :: u8) = n" using that by (rule unat_of_nat_u8)
    then show ?thesis unfolding idx by (metis inj_image_mem_iff inj_unat_u8)
  qed
  show "bit (highclear ! j) k \<longleftrightarrow> word_of_nat (16 * k + j) \<in> chars cr" if jk: "j < 16" "k < 8"
  proof -
    have "bit (highclear ! j) k
        \<longleftrightarrow> (\<exists>v \<in> set (cr_indices cr). v < 128 \<and> j = v mod 16 \<and> k = v div 16 mod 8)"
      by (rule clear [OF jk(1)])
    also have "\<dots> \<longleftrightarrow> (\<exists>v \<in> set (cr_indices cr). v = 16 * k + j)"
      by (intro bex_cong refl truffle_place(1) [OF jk] bspec [OF small])
    also have "\<dots> \<longleftrightarrow> 16 * k + j \<in> set (cr_indices cr)" by blast
    finally have "bit (highclear ! j) k \<longleftrightarrow> 16 * k + j \<in> set (cr_indices cr)" .
    then show ?thesis using mem jk by simp
  qed
  show "bit (highset ! j) k \<longleftrightarrow> word_of_nat (128 + (16 * k + j)) \<in> chars cr" if jk: "j < 16" "k < 8"
  proof -
    have "bit (highset ! j) k
        \<longleftrightarrow> (\<exists>v \<in> set (cr_indices cr). 128 \<le> v \<and> j = v mod 16 \<and> k = v div 16 mod 8)"
      by (rule high [OF jk(1)])
    also have "\<dots> \<longleftrightarrow> (\<exists>v \<in> set (cr_indices cr). v = 128 + (16 * k + j))"
      by (intro bex_cong refl truffle_place(2) [OF jk] bspec [OF small])
    also have "\<dots> \<longleftrightarrow> 128 + (16 * k + j) \<in> set (cr_indices cr)" by blast
    finally have "bit (highset ! j) k \<longleftrightarrow> 128 + (16 * k + j) \<in> set (cr_indices cr)" .
    then show ?thesis using mem jk by simp
  qed
qed

lemma or_nibbles:
  "(i :: nat) < 16 \<Longrightarrow> i OR push_bit 4 p = 16 * p + i"
  "(i :: nat) < 16 \<Longrightarrow> p < 8 \<Longrightarrow> (0x80 OR i) OR push_bit 4 p = 128 + (16 * p + i)"
proof -
  have lo: "\<not> bit i k" if "i < 16" "4 \<le> k" for k
  proof -
    have "i < 2 ^ k" using that power_increasing [of 4 k "2 :: nat"] by simp
    then show ?thesis by (simp add: bit_iff_odd)
  qed
  have sum: "i OR push_bit 4 p = 16 * p + i" if "i < 16" for p
  proof -
    have "i OR push_bit 4 p = i + push_bit 4 p"
      using lo [OF that] by (intro disjunctive_add [symmetric]) (auto simp: bit_push_bit_iff not_le)
    then show ?thesis by (simp add: push_bit_eq_mult)
  qed
  then show "i < 16 \<Longrightarrow> i OR push_bit 4 p = 16 * p + i" by simp
  assume "i < 16" "p < 8"
  have "(0x80 :: nat) = push_bit 4 8" by simp
  then have "(0x80 OR i) OR push_bit 4 p = i OR push_bit 4 (8 OR p)"
    by (simp only: push_bit_or ac_simps)
  also have "\<dots> = 16 * (8 OR p) + i" by (rule sum [OF \<open>i < 16\<close>])
  also have "8 OR p = 8 + p"
  proof -
    have "bit (8 :: nat) k \<longleftrightarrow> k = 3" for k
      using bit_exp_iff [of 3 k, where 'a = nat] by simp
    moreover have "\<not> bit p k" if "3 \<le> k" for k
    proof -
      have "p < 2 ^ k" using \<open>p < 8\<close> that power_increasing [of 3 k "2 :: nat"] by simp
      then show ?thesis by (simp add: bit_iff_odd)
    qed
    ultimately show ?thesis
      by (intro disjunctive_add [symmetric]) (metis order_refl)
  qed
  finally show "(0x80 OR i) OR push_bit 4 p = 128 + (16 * p + i)" by simp
qed

lemma truffle_bits_chars:
  "cr_inv cr \<Longrightarrow> cr_inv (truffle_bits base mk cr)
     \<and> chars (truffle_bits base mk cr) = chars cr \<union> {word_of_nat (base OR push_bit 4 p) | p. bit mk p}"
proof (induction base mk cr rule: truffle_bits.induct)
  case (1 base mk cr)
  show ?case
  proof (cases "mk = 0")
    case True
    then show ?thesis using 1(2) by (subst truffle_bits.simps) (simp add: truffle_bits.simps)
  next
    case False
    define p where "p = ctz32 mk"
    define cr1 where "cr1 = cr_set cr (word_of_nat (base OR push_bit 4 p))"
    have step: "truffle_bits base mk cr = truffle_bits base (mk AND (mk - 1)) cr1"
      using False by (subst truffle_bits.simps) (simp add: findAndClearLSB_32_def Let_def p_def cr1_def)
    have ok: "cr_inv cr1" "chars cr1 = insert (word_of_nat (base OR push_bit 4 p)) (chars cr)"
      using 1(2) by (simp_all add: cr1_def cr_inv_intros chars_simps)
    have rec: "cr_inv (truffle_bits base (mk AND (mk - 1)) cr1) \<and> chars (truffle_bits base (mk AND (mk - 1)) cr1)
        = chars cr1 \<union> {word_of_nat (base OR push_bit 4 p) | p. bit (mk AND (mk - 1)) p}"
      using 1(1) [OF False, of "(p, mk AND (mk - 1))" p "mk AND (mk - 1)"] ok(1)
      by (simp add: findAndClearLSB_32_def Let_def p_def cr1_def)
    have "bitset mk = insert p (bitset (mk AND (mk - 1)))"
      using Min_in [of "bitset mk"] False
      by (simp add: bitset_clear_lsb p_def ctz32_Min bitset_empty_iff insert_absorb)
    then have "bit mk q \<longleftrightarrow> q = p \<or> bit (mk AND (mk - 1)) q" for q by (auto simp: bitset_def)
    then have "bit mk = (\<lambda>q. q = p \<or> bit (mk AND (mk - 1)) q)" by (intro ext)
    moreover have "{f q :: u8 | q. q = p \<or> P q} = insert (f p) {f q | q. P q}" for f :: "nat \<Rightarrow> u8" and P
      by blast
    ultimately have "{word_of_nat (base OR push_bit 4 q) :: u8 | q. bit mk q}
        = insert (word_of_nat (base OR push_bit 4 p)) {word_of_nat (base OR push_bit 4 q) | q. bit (mk AND (mk - 1)) q}"
      by simp
    with rec show ?thesis unfolding step ok(2) by blast
  qed
qed

lemma truffle2cr_chars:
  assumes len: "length hc = 16" "length hs = 16"
  shows "cr_inv (truffle2cr hc hs)"
    and "chars (truffle2cr hc hs) =
      {word_of_nat (16 * k + j) | j k. j < 16 \<and> k < 8 \<and> bit (hc ! j) k}
      \<union> {word_of_nat (128 + (16 * k + j)) | j k. j < 16 \<and> k < 8 \<and> bit (hs ! j) k}"
proof -
  have bits: "bit (ucast (x :: u8) :: u32) k \<longleftrightarrow> k < 8 \<and> bit x k" for x k
    by (auto simp: bit_simps dest: bit_imp_le_length)
  define step where "step = (\<lambda>cr i. truffle_bits (0x80 OR i) (ucast (hs ! i)) (truffle_bits i (ucast (hc ! i)) cr))"
  have "cr_inv (foldl step cr_empty [0..<n]) \<and> chars (foldl step cr_empty [0..<n]) =
      {word_of_nat (16 * k + j) | j k. j < n \<and> k < 8 \<and> bit (hc ! j) k}
      \<union> {word_of_nat (128 + (16 * k + j)) | j k. j < n \<and> k < 8 \<and> bit (hs ! j) k}" if "n \<le> 16" for n
    using that
  proof (induction n)
    case 0
    then show ?case by (simp add: cr_inv_intros chars_simps)
  next
    case (Suc n)
    define cr where "cr = foldl step cr_empty [0..<n]"
    have IH: "cr_inv cr" "chars cr = {word_of_nat (16 * k + j) | j k. j < n \<and> k < 8 \<and> bit (hc ! j) k}
      \<union> {word_of_nat (128 + (16 * k + j)) | j k. j < n \<and> k < 8 \<and> bit (hs ! j) k}"
      using Suc by (simp_all add: cr_def)
    have n: "n < 16" using Suc.prems by simp
    define cr1 where "cr1 = truffle_bits n (ucast (hc ! n)) cr"
    have 1: "cr_inv cr1" "chars cr1 = chars cr \<union> {word_of_nat (16 * k + n) | k. k < 8 \<and> bit (hc ! n) k}"
      using truffle_bits_chars [OF IH(1), of n "ucast (hc ! n)"]
      by (simp_all add: cr1_def bits or_nibbles(1) [OF n])
    have same: "{f p | p. p < 8 \<and> P p} = {g p | p. p < 8 \<and> P p}" if "\<And>p. p < 8 \<Longrightarrow> f p = g p"
      for f g :: "nat \<Rightarrow> u8" and P using that by metis
    have "{word_of_nat ((0x80 OR n) OR push_bit 4 p) :: u8 | p. bit (ucast (hs ! n) :: u32) p}
        = {word_of_nat (128 + (16 * k + n)) | k. k < 8 \<and> bit (hs ! n) k}"
      unfolding bits
    proof (rule same)
      show "word_of_nat ((0x80 OR n) OR push_bit 4 p) = (word_of_nat (128 + (16 * p + n)) :: u8)" if "p < 8" for p
        by (rule arg_cong [OF or_nibbles(2) [OF n that]])
    qed
    then have 2: "cr_inv (step cr n)"
      "chars (step cr n) = chars cr1 \<union> {word_of_nat (128 + (16 * k + n)) | k. k < 8 \<and> bit (hs ! n) k}"
      using truffle_bits_chars [OF 1(1), of "0x80 OR n" "ucast (hs ! n)"] by (simp_all add: step_def cr1_def)
    have "foldl step cr_empty [0..<Suc n] = step cr n" by (simp add: cr_def)
    have split: "{f k j | j k. j < Suc n \<and> k < (8 :: nat) \<and> P j k} = {f k j | j k. j < n \<and> k < 8 \<and> P j k} \<union> {f k n | k. k < 8 \<and> P n k}"
      for f :: "nat \<Rightarrow> nat \<Rightarrow> u8" and P by (auto simp: less_Suc_eq)
    show ?case unfolding \<open>foldl step cr_empty [0..<Suc n] = step cr n\<close> 2(2) 1(2) IH(2) split
      using 2(1) by blast
  qed
  from this [of 16] show "cr_inv (truffle2cr hc hs)"
    "chars (truffle2cr hc hs) =
      {word_of_nat (16 * k + j) | j k. j < 16 \<and> k < 8 \<and> bit (hc ! j) k}
      \<union> {word_of_nat (128 + (16 * k + j)) | j k. j < 16 \<and> k < 8 \<and> bit (hs ! j) k}"
    by (simp_all add: truffle2cr_def step_def)
qed

lemma byte_places: "\<exists>j k. j < 16 \<and> k < 8 \<and> (x = word_of_nat (16 * k + j) \<or> (x :: u8) = word_of_nat (128 + (16 * k + j)))"
proof -
  have v: "unat x < 256" using unat_u8_npos [of x] by (simp add: cr_npos_def)
  have x: "x = word_of_nat (unat x)" by simp
  show ?thesis
  proof (cases "unat x < 128")
    case True
    have "unat x = 16 * (unat x div 16) + unat x mod 16" "unat x div 16 < 8" "unat x mod 16 < 16"
      using True by auto
    then show ?thesis using x by metis
  next
    case False
    define n where "n = unat x - 128"
    have "unat x = 128 + (16 * (n div 16) + n mod 16)" "n div 16 < 8" "n mod 16 < 16"
      using False v by (auto simp: n_def)
    then show ?thesis using x by metis
  qed
qed

lemma byte_places_inj:
  assumes "j < 16" "k < 8" "j' < 16" "k' < 8"
  shows "(word_of_nat (16 * k + j) :: u8) = word_of_nat (16 * k' + j') \<longleftrightarrow> j = j' \<and> k = k'"
    and "(word_of_nat (128 + (16 * k + j)) :: u8) = word_of_nat (128 + (16 * k' + j')) \<longleftrightarrow> j = j' \<and> k = k'"
    and "(word_of_nat (16 * k + j) :: u8) \<noteq> word_of_nat (128 + (16 * k' + j'))"
proof -
  have inj: "(word_of_nat m :: u8) = word_of_nat n \<longleftrightarrow> m = n" if "m < 256" "n < 256" for m n
    using unat_of_nat_u8 that by metis
  have place: "16 * k + j = 16 * k' + j' \<longleftrightarrow> j = j' \<and> k = k'"
    using assms(1,3) by (metis div_mult_self4 mod_mult_self4 div_less mod_less add_0_right zero_neq_numeral)
  show "(word_of_nat (16 * k + j) :: u8) = word_of_nat (16 * k' + j') \<longleftrightarrow> j = j' \<and> k = k'"
    using inj [of "16 * k + j" "16 * k' + j'"] assms place by simp
  show "(word_of_nat (128 + (16 * k + j)) :: u8) = word_of_nat (128 + (16 * k' + j')) \<longleftrightarrow> j = j' \<and> k = k'"
    using inj [of "128 + (16 * k + j)" "128 + (16 * k' + j')"] assms place by simp
  show "(word_of_nat (16 * k + j) :: u8) \<noteq> word_of_nat (128 + (16 * k' + j'))"
    using inj [of "16 * k + j" "128 + (16 * k' + j')"] assms by simp
qed

section \<open>Lemmas: double shufti\<close>

text \<open>The pairs one entry of the list stands for, and the pairs the four masks let through.\<close>

definition entry_hit :: "nibble_masks \<Rightarrow> u8 \<Rightarrow> u8 \<Rightarrow> bool" where
  "entry_hit a x y \<longleftrightarrow> bit (a ! 0) (unat (lo_nib x)) \<and> bit (a ! 1) (unat (hi_nib x))
     \<and> bit (a ! 2) (unat (lo_nib y)) \<and> bit (a ! 3) (unat (hi_nib y))"

definition double_hit :: "double_masks \<Rightarrow> u8 \<Rightarrow> u8 \<Rightarrow> bool" where
  "double_hit d x y = (case d of (lo1, hi1, lo2, hi2) \<Rightarrow>
     lo1 ! unat (lo_nib x) OR hi1 ! unat (hi_nib x) OR lo2 ! unat (lo_nib y) OR hi2 ! unat (hi_nib y) \<noteq> 0xff)"

lemma less_4_cases: "i < (4 :: nat) \<Longrightarrow> (i = 0 \<Longrightarrow> P) \<Longrightarrow> (i = 1 \<Longrightarrow> P) \<Longrightarrow> (i = 2 \<Longrightarrow> P) \<Longrightarrow> (i = 3 \<Longrightarrow> P) \<Longrightarrow> P"
  by linarith

lemma or_array_nth: "j < 4 \<Longrightarrow> or_array a b ! j = a ! j OR b ! j" "length (or_array a b) = 4"
  by (auto simp: or_array_def elim!: less_4_cases)

lemma update_eq_iff:
  assumes "length a = 4" "length b = 4" "i < 4"
  shows "a[i := z] = b[i := z] \<longleftrightarrow> (\<forall>j < 4. j \<noteq> i \<longrightarrow> a ! j = b ! j)"
  using assms by (auto simp: list_eq_iff_nth_eq nth_list_update)

lemma or_array_hit:
  assumes "length a = 4" "length b = 4" "i < 4" "a[i := 0] = b[i := 0]"
  shows "entry_hit (or_array a b) x y \<longleftrightarrow> entry_hit a x y \<or> entry_hit b x y"
    and "(or_array a b)[i := 0] = b[i := 0]"
proof -
  have eq: "\<forall>j < 4. j \<noteq> i \<longrightarrow> a ! j = b ! j"
    using iffD1 [OF update_eq_iff [OF assms(1-3)] assms(4)] .
  then have "\<forall>j < 4. j \<noteq> i \<longrightarrow> or_array a b ! j = b ! j" by (simp add: or_array_nth)
  then show "(or_array a b)[i := 0] = b[i := 0]" using assms update_eq_iff or_array_nth(2) by metis
  have "0 = i \<or> a ! 0 = b ! 0" "1 = i \<or> a ! 1 = b ! 1" "2 = i \<or> a ! 2 = b ! 2" "3 = i \<or> a ! 3 = b ! 3"
    by (use spec [OF eq, of 0] spec [OF eq, of 1] spec [OF eq, of 2] spec [OF eq, of 3] in auto)
  then show "entry_hit (or_array a b) x y \<longleftrightarrow> entry_hit a x y \<or> entry_hit b x y"
    using \<open>i < 4\<close> by (elim less_4_cases) (auto simp: entry_hit_def or_array_nth bit_or_iff)
qed

lemma set_update_distinct:
  "distinct (map fst m) \<Longrightarrow> set (AList.update k v m) = insert (k, v) {e \<in> set m. fst e \<noteq> k}"
  by (induction m) (auto simp: image_iff)

lemma merge_masks_hit:
  assumes "\<forall>a \<in> set as. length a = 4" "i < 4"
  shows "\<forall>a \<in> set (merge_masks as i). length a = 4"
    and "(\<exists>a \<in> set (merge_masks as i). entry_hit a x y) \<longleftrightarrow> (\<exists>a \<in> set as. entry_hit a x y)"
proof -
  define step where "step = (\<lambda>m a. let key = a[i := 0] in
         case map_of m key of
           None \<Rightarrow> AList.update key a m
         | Some v \<Rightarrow> AList.update key (or_array v a) m)"
  have step_at: "step m a = (case map_of m (a[i := 0]) of None \<Rightarrow> AList.update (a[i := 0]) a m
      | Some v \<Rightarrow> AList.update (a[i := 0]) (or_array v a) m)" for m a
    by (simp add: step_def Let_def)
  have "distinct (map fst (foldl step [] as))
      \<and> (\<forall>(k, v) \<in> set (foldl step [] as). length v = 4 \<and> v[i := 0] = k)
      \<and> ((\<exists>(k, v) \<in> set (foldl step [] as). entry_hit v x y) \<longleftrightarrow> (\<exists>a \<in> set as. entry_hit a x y))"
    using assms(1)
  proof (induction as rule: rev_induct)
    case (snoc a as)
    define m where "m = foldl step [] as"
    have IH: "distinct (map fst m)" "\<forall>(k, v) \<in> set m. length v = 4 \<and> v[i := 0] = k"
      "(\<exists>(k, v) \<in> set m. entry_hit v x y) \<longleftrightarrow> (\<exists>a \<in> set as. entry_hit a x y)"
      using snoc by (simp_all add: m_def)
    have a: "length a = 4" using snoc.prems by simp
    have upd: "set (AList.update (a[i := 0]) w m) = insert (a[i := 0], w) {e \<in> set m. fst e \<noteq> a[i := 0]}" for w
      by (rule set_update_distinct [OF IH(1)])
    show ?case
    proof (cases "map_of m (a[i := 0])")
      case None
      then have fresh: "{e \<in> set m. fst e \<noteq> a[i := 0]} = set m" by (force simp: map_of_eq_None_iff)
      have s: "foldl step [] (as @ [a]) = AList.update (a[i := 0]) a m"
        using step_at [of m a] None by (simp add: m_def)
      show ?thesis
        unfolding s upd fresh using IH a by (auto simp: distinct_update)
    next
      case (Some v)
      have v: "(a[i := 0], v) \<in> set m" using Some by (rule map_of_SomeD)
      then have v4: "length v = 4" "v[i := 0] = a[i := 0]" using IH(2) by auto
      note o = or_array_hit [OF v4(1) a assms(2) v4(2)]
      have s: "foldl step [] (as @ [a]) = AList.update (a[i := 0]) (or_array v a) m"
        using step_at [of m a] Some by (simp add: m_def)
      have m_split: "set m = insert (a[i := 0], v) {e \<in> set m. fst e \<noteq> a[i := 0]}"
        using v IH(1) by (auto dest: eq_key_imp_eq_value)
      have "(\<exists>(k, v) \<in> set m. entry_hit v x y)
          \<longleftrightarrow> entry_hit v x y \<or> (\<exists>(k, w) \<in> {e \<in> set m. fst e \<noteq> a[i := 0]}. entry_hit w x y)"
        by (subst m_split) simp
      then have "(\<exists>(k, w) \<in> insert (a[i := 0], or_array v a) {e \<in> set m. fst e \<noteq> a[i := 0]}. entry_hit w x y)
          \<longleftrightarrow> (\<exists>a \<in> set (as @ [a]). entry_hit a x y)"
        using IH(3) o(1) by auto
      moreover have "\<forall>(k, w) \<in> insert (a[i := 0], or_array v a) {e \<in> set m. fst e \<noteq> a[i := 0]}.
          length w = 4 \<and> w[i := 0] = k" using IH(2) o(2) or_array_nth(2) by auto
      ultimately show ?thesis unfolding s upd using IH(1) by (simp add: distinct_update)
    qed
  qed simp
  then have res: "\<forall>(k, v) \<in> set (foldl step [] as). length v = 4"
    "(\<exists>(k, v) \<in> set (foldl step [] as). entry_hit v x y) \<longleftrightarrow> (\<exists>a \<in> set as. entry_hit a x y)"
    by auto
  have m: "set (merge_masks as i) = snd ` set (foldl step [] as)" by (simp add: merge_masks_def step_def)
  show "\<forall>a \<in> set (merge_masks as i). length a = 4" unfolding m using res(1) by auto
  show "(\<exists>a \<in> set (merge_masks as i). entry_hit a x y) \<longleftrightarrow> (\<exists>a \<in> set as. entry_hit a x y)"
    unfolding m using res(2) by (auto simp: split_def)
qed

lemma clear_bucket_loop_bits:
  assumes "length bm = 16" "\<forall>j. bit mk j \<longrightarrow> j < 16" "bucket < 8"
  shows "length (clear_bucket_loop bucket mk bm) = 16
    \<and> (\<forall>j < 16. \<forall>k. bit (clear_bucket_loop bucket mk bm ! j) k \<longleftrightarrow> bit (bm ! j) k \<and> \<not> (k = bucket \<and> bit mk j))"
  using assms
proof (induction bucket mk bm rule: clear_bucket_loop.induct)
  case (1 bucket mk bm)
  show ?case
  proof (cases "mk = 0")
    case True
    then show ?thesis using 1(2) by (subst (1 2) clear_bucket_loop.simps) simp
  next
    case False
    define n where "n = ctz32 mk"
    define bm1 where "bm1 = bm[n := bm ! n AND NOT (push_bit bucket 1)]"
    have step: "clear_bucket_loop bucket mk bm = clear_bucket_loop bucket (mk AND (mk - 1)) bm1"
      using False by (subst clear_bucket_loop.simps) (simp add: findAndClearLSB_32_def Let_def n_def bm1_def)
    have "bitset mk = insert n (bitset (mk AND (mk - 1)))"
      using Min_in [of "bitset mk"] False
      by (simp add: bitset_clear_lsb n_def ctz32_Min bitset_empty_iff insert_absorb)
    then have bits: "bit mk q \<longleftrightarrow> q = n \<or> bit (mk AND (mk - 1)) q" for q by (auto simp: bitset_def)
    then have n: "n < 16" and small: "\<forall>j. bit (mk AND (mk - 1)) j \<longrightarrow> j < 16" using 1(3) by blast+
    have len: "length bm1 = 16" using 1(2) by (simp add: bm1_def)
    have bm1: "bit (bm1 ! j) k \<longleftrightarrow> bit (bm ! j) k \<and> \<not> (k = bucket \<and> j = n)" if "j < 16" for j k
    proof -
      define B where "B = NOT (push_bit bucket (1 :: u8))"
      have B: "bit B k \<longleftrightarrow> k < 8 \<and> k \<noteq> bucket"
        by (auto simp: B_def bit_not_iff bit_exp_iff)
      have "bm1 = bm[n := bm ! n AND B]" by (simp only: bm1_def B_def)
      then show ?thesis
        using that n 1(2) B bit_imp_le_length [of "bm ! j" k]
        by (auto simp: nth_list_update bit_and_iff)
    qed
    have IH: "length (clear_bucket_loop bucket (mk AND (mk - 1)) bm1) = 16
      \<and> (\<forall>j < 16. \<forall>k. bit (clear_bucket_loop bucket (mk AND (mk - 1)) bm1 ! j) k
            \<longleftrightarrow> bit (bm1 ! j) k \<and> \<not> (k = bucket \<and> bit (mk AND (mk - 1)) j))"
      using 1(1) [OF False, of "(n, mk AND (mk - 1))" n "mk AND (mk - 1)"] len small 1(4)
      by (simp add: findAndClearLSB_32_def Let_def n_def bm1_def)
    then show ?thesis unfolding step using bm1 bits by blast
  qed
qed

lemma set_buckets_bits:
  assumes "length bm = 16" "bucket < 8"
  shows "length (set_buckets_from_mask nm bucket bm) = 16"
    and "j < 16 \<Longrightarrow> bit (set_buckets_from_mask nm bucket bm ! j) k
      \<longleftrightarrow> bit (bm ! j) k \<and> \<not> (k = bucket \<and> bit nm j)"
proof -
  have u: "bit (ucast nm :: u32) j \<longleftrightarrow> j < 16 \<and> bit nm j" for j
    by (auto simp: bit_simps dest: bit_imp_le_length)
  have "\<forall>j. bit (ucast nm :: u32) j \<longrightarrow> j < 16" using u by blast
  note c = clear_bucket_loop_bits [OF assms(1) this assms(2)]
  show "length (set_buckets_from_mask nm bucket bm) = 16" using c by (simp add: set_buckets_from_mask_def)
  show "j < 16 \<Longrightarrow> bit (set_buckets_from_mask nm bucket bm ! j) k
      \<longleftrightarrow> bit (bm ! j) k \<and> \<not> (k = bucket \<and> bit nm j)"
    using c u by (simp add: set_buckets_from_mask_def)
qed

text \<open>Each of the four masks has bucket \<open>k\<close> clear exactly where entry \<open>k\<close> has its nibble.\<close>

lemma double_masks_fold:
  assumes "length as \<le> 8"
  defines "step \<equiv> \<lambda>(i, lo1, hi1, lo2, hi2) a.
                (i + 1, set_buckets_from_mask (a ! 0) i lo1, set_buckets_from_mask (a ! 1) i hi1,
                 set_buckets_from_mask (a ! 2) i lo2, set_buckets_from_mask (a ! 3) i hi2)"
  defines "ff \<equiv> replicate 16 (0xff :: u8)"
  shows "\<exists>m0 m1 m2 m3. foldl step (0, ff, ff, ff, ff) as = (length as, m0, m1, m2, m3)
    \<and> length m0 = 16 \<and> length m1 = 16 \<and> length m2 = 16 \<and> length m3 = 16
    \<and> (\<forall>j < 16. \<forall>k < 8. (bit (m0 ! j) k \<longleftrightarrow> \<not> (k < length as \<and> bit (as ! k ! 0) j))
        \<and> (bit (m1 ! j) k \<longleftrightarrow> \<not> (k < length as \<and> bit (as ! k ! 1) j))
        \<and> (bit (m2 ! j) k \<longleftrightarrow> \<not> (k < length as \<and> bit (as ! k ! 2) j))
        \<and> (bit (m3 ! j) k \<longleftrightarrow> \<not> (k < length as \<and> bit (as ! k ! 3) j)))"
  using assms(1)
proof (induction as rule: rev_induct)
  case Nil
  have "bit (0xff :: u8) k" if "k < 8" for k
  proof -
    have "(0xff :: u8) = mask 8" by (simp add: mask_eq_exp_minus_1)
    then show ?thesis using that by (simp only: bit_mask_iff) simp
  qed
  then show ?case by (simp add: ff_def)
next
  case (snoc a as)
  obtain m0 m1 m2 m3 where IH: "foldl step (0, ff, ff, ff, ff) as = (length as, m0, m1, m2, m3)"
    "length m0 = 16" "length m1 = 16" "length m2 = 16" "length m3 = 16"
    "\<forall>j < 16. \<forall>k < 8. (bit (m0 ! j) k \<longleftrightarrow> \<not> (k < length as \<and> bit (as ! k ! 0) j))
        \<and> (bit (m1 ! j) k \<longleftrightarrow> \<not> (k < length as \<and> bit (as ! k ! 1) j))
        \<and> (bit (m2 ! j) k \<longleftrightarrow> \<not> (k < length as \<and> bit (as ! k ! 2) j))
        \<and> (bit (m3 ! j) k \<longleftrightarrow> \<not> (k < length as \<and> bit (as ! k ! 3) j))"
    using snoc by auto
  have b: "length as < 8" using snoc.prems by simp
  have run: "foldl step (0, ff, ff, ff, ff) (as @ [a]) = (length (as @ [a]),
      set_buckets_from_mask (a ! 0) (length as) m0, set_buckets_from_mask (a ! 1) (length as) m1,
      set_buckets_from_mask (a ! 2) (length as) m2, set_buckets_from_mask (a ! 3) (length as) m3)"
    using IH(1) by (simp add: step_def)
  have upd: "bit (set_buckets_from_mask (a ! i) (length as) m ! j) k
      \<longleftrightarrow> \<not> (k < length (as @ [a]) \<and> bit ((as @ [a]) ! k ! i) j)"
    if "length m = 16" "j < 16" "bit (m ! j) k \<longleftrightarrow> \<not> (k < length as \<and> bit (as ! k ! i) j)" for i m j k
    using set_buckets_bits(2) [OF that(1) b that(2)] that(3) by (auto simp: nth_append less_Suc_eq)
  show ?case
    unfolding run using set_buckets_bits(1) [OF _ b] IH upd by auto
qed

lemma bit_single: "n < 16 \<Longrightarrow> bit (push_bit n 1 :: u16) m \<longleftrightarrow> m = n"
  by (auto simp: bit_exp_iff)

lemma pair_masks_hit: "entry_hit (pair_masks p) x y \<longleftrightarrow> p = (x, y)"
proof -
  have "entry_hit (pair_masks p) x y \<longleftrightarrow> unat (lo_nib x) = unat (lo_nib (fst p)) \<and> unat (hi_nib x) = unat (hi_nib (fst p))
     \<and> unat (lo_nib y) = unat (lo_nib (snd p)) \<and> unat (hi_nib y) = unat (hi_nib (snd p))"
    unfolding entry_hit_def pair_masks_def lo_nib_def [symmetric] hi_nib_def [symmetric]
    by (simp add: bit_single nibble_bounds del: push_bit_of_1)
  also have "\<dots> \<longleftrightarrow> fst p = x \<and> snd p = y"
    unfolding word_unat_eq_iff [symmetric] using nibbles_eq [of x "fst p"] nibbles_eq [of y "snd p"] by auto
  finally show ?thesis by (auto simp: prod_eq_iff)
qed

lemma single_masks_hit:
  assumes "cr_inv c"
  shows "(\<exists>i \<in> set (cr_indices c). entry_hit (single_masks i) x y) \<longleftrightarrow> x \<in> chars c"
proof -
  have ones: "bit (0xffff :: u16) k" if "k < 16" for k
  proof -
    have "(0xffff :: u16) = mask 16" by (simp add: mask_eq_exp_minus_1)
    then show ?thesis using that by (simp only: bit_mask_iff) simp
  qed
  have nat: "unat c AND 0xf = unat (lo_nib c)" "drop_bit 4 (unat c) = unat (hi_nib c)" for c :: u8
    by (simp_all add: lo_nib_def unsigned_and_eq hi_nib_def drop_bit_eq_div unat_div)
  have "entry_hit (single_masks (unat z)) x y \<longleftrightarrow> z = x" for z
  proof -
    have "entry_hit (single_masks (unat z)) x y \<longleftrightarrow> unat (lo_nib x) = unat (lo_nib z) \<and> unat (hi_nib x) = unat (hi_nib z)"
      unfolding entry_hit_def single_masks_def nat
      by (simp only: bit_single [OF nibble_bounds(1)] bit_single [OF nibble_bounds(2)]
          ones [OF nibble_bounds(1)] ones [OF nibble_bounds(2)] nth_Cons_0 nth_Cons_Suc
          One_nat_def numeral_2_eq_2 numeral_3_eq_3 simp_thms)
    also have "\<dots> \<longleftrightarrow> z = x" unfolding word_unat_eq_iff [symmetric] using nibbles_eq [of x z] by auto
    finally show ?thesis .
  qed
  then show ?thesis by (simp add: set_cr_indices [OF assms])
qed

section \<open>What the masks promise\<close>

text \<open>
  C30. \<open>shuftiBuildMasks\<close> fails exactly when the class has more than eight different rows (a row: the
  low nibbles that go with a high nibble).  Otherwise it uses one bit per row, a byte passes the two
  masks exactly if it is in the class, and \<open>shufti2cr\<close> reads the class back from the masks.
\<close>

theorem shufti_masks_exact:
  assumes "cr_inv c"
  shows "case shuftiBuildMasks c of
      None \<Rightarrow> 8 < card (char_rows (chars c))
    | Some (n, lo, hi) \<Rightarrow> n = card (char_rows (chars c)) \<and> n \<le> 8 \<and> length lo = 16 \<and> length hi = 16
        \<and> (\<forall>x. shufti_hit lo hi x \<longleftrightarrow> x \<in> chars c) \<and> shufti2cr lo hi = c"
proof (cases "shuftiBuildMasks c")
  case None
  then show ?thesis
    using shufti_rows [OF assms] by (auto simp: shuftiBuildMasks_def Let_def split: if_splits)
next
  case (Some r)
  obtain n lo hi where r: "r = (n, lo, hi)" by (cases r)
  note b = Some [unfolded r]
  note hit = shuftiBuildMasks_hit [OF assms b]
  have few: "\<not> 8 < length (shufti_by_lo_set (shufti_by_hi c))"
    using b by (auto simp: shuftiBuildMasks_def Let_def split: if_splits)
  have entries: "\<forall>(los, his) \<in> set (map_walk (shufti_by_lo_set (shufti_by_hi c))). cr_inv los \<and> cr_inv his
      \<and> (\<forall>x \<in> chars los. unat x < 16) \<and> (\<forall>x \<in> chars his. unat x < 16)"
    using shufti_groups(1) [OF assms] by simp
  have "n = length (shufti_by_lo_set (shufti_by_hi c))"
    using shufti_masks_fold [OF entries] b few
    by (auto simp: shuftiBuildMasks_def Let_def)
  moreover have "shufti2cr lo hi = c"
    using shufti2cr_chars [of lo hi] hit(1) assms chars_eq_iff [of "shufti2cr lo hi" c] by blast
  ultimately show ?thesis using hit shufti_rows [OF assms] Some r by simp
qed

theorem shufti_masks_exact_witness:
  "\<exists>n lo hi. shuftiBuildMasks (cr_set cr_empty 0x61) = Some (n, lo, hi) \<and> shufti_hit lo hi 0x61 \<and> \<not> shufti_hit lo hi 0x62"
proof -
  have c: "cr_inv (cr_set cr_empty 0x61)" "chars (cr_set cr_empty 0x61) = {0x61}"
    by (simp_all add: cr_inv_intros chars_simps)
  have "\<not> 8 < card (char_rows (chars (cr_set cr_empty 0x61)))" using card_rows [of "{0x61}"] by (simp add: c(2))
  then obtain r where r: "shuftiBuildMasks (cr_set cr_empty 0x61) = Some r"
    using shufti_masks_exact [OF c(1)] by (auto split: option.splits)
  obtain n lo hi where "r = (n, lo, hi)" by (cases r)
  with shufti_masks_exact [OF c(1)] r c(2) show ?thesis by auto
qed

text \<open>
  With the masks of a class, the byte-by-byte scans agree with a search for a member of the class:
  the forward one stops at the first member or at the end of the buffer, the backward one at the last
  member or at the place before the buffer.
\<close>

theorem shufti_scans_exact:
  assumes "cr_inv c" "shuftiBuildMasks c = Some (n, lo, hi)"
  shows "shuftiFwdSlow lo hi buf = length (takeWhile (\<lambda>x. x \<notin> chars c) buf)
    \<and> shuftiRevSlow lo hi buf (length buf)
      = int (length buf) - 1 - int (length (takeWhile (\<lambda>x. x \<notin> chars c) (rev buf)))"
proof
  note hit = shuftiBuildMasks_hit(1) [OF assms]
  show "shuftiFwdSlow lo hi buf = length (takeWhile (\<lambda>x. x \<notin> chars c) buf)"
    by (induction buf) (simp_all add: hit)
  have "shuftiRevSlow lo hi (pre @ post) (length pre)
      = int (length pre) - 1 - int (length (takeWhile (\<lambda>x. x \<notin> chars c) (rev pre)))" for pre post
  proof (induction pre arbitrary: post rule: rev_induct)
    case (snoc x pre)
    show ?case using snoc [of "x # post"] by (simp add: hit nth_append)
  qed simp
  from this [of buf "[]"] show "shuftiRevSlow lo hi buf (length buf)
      = int (length buf) - 1 - int (length (takeWhile (\<lambda>x. x \<notin> chars c) (rev buf)))" by simp
qed

theorem shufti_scans_exact_witness:
  "\<exists>n lo hi. shuftiBuildMasks (cr_set cr_empty 0x61) = Some (n, lo, hi)
     \<and> shuftiFwdSlow lo hi [0x62, 0x61, 0x61] = 1 \<and> shuftiRevSlow lo hi [0x61, 0x61, 0x62] 3 = 1"
proof -
  have c: "cr_inv (cr_set cr_empty 0x61)" "chars (cr_set cr_empty 0x61) = {0x61}"
    by (simp_all add: cr_inv_intros chars_simps)
  have rows: "length (shufti_by_lo_set (shufti_by_hi (cr_set cr_empty 0x61))) \<le> 8"
    using card_rows [of "{0x61}"] by (simp add: c shufti_rows)
  then obtain n lo hi where b: "shuftiBuildMasks (cr_set cr_empty 0x61) = Some (n, lo, hi)"
    by (cases "shuftiBuildMasks (cr_set cr_empty 0x61)") (auto simp: shuftiBuildMasks_def Let_def)
  show ?thesis
    using b shufti_scans_exact [OF c(1) b, of "[0x62, 0x61, 0x61]"]
      shufti_scans_exact [OF c(1) b, of "[0x61, 0x61, 0x62]"]
    by (simp add: c(2) eval_nat_numeral del: shuftiFwdSlow.simps shuftiRevSlow.simps)
qed

text \<open>
  C31. Truffle's masks and character classes are the same thing in two forms: \<open>truffle2cr\<close> reads back
  the class the masks were built from, and building from the class of any two 16-byte masks gives
  those masks.
\<close>

theorem truffle_roundtrip:
  assumes "cr_inv cr" "length highclear = 16" "length highset = 16"
  shows "(case truffleBuildMasks cr of (a, b) \<Rightarrow> truffle2cr a b = cr)
    \<and> truffleBuildMasks (truffle2cr highclear highset) = (highclear, highset)"
proof -
  have read: "chars (truffle2cr a b) = chars cr \<and> cr_inv (truffle2cr a b)" if b: "truffleBuildMasks cr = (a, b)" for a b
  proof -
    note m = truffle_masks [OF assms(1) b]
    note t = truffle2cr_chars [OF m(1,2)]
    have "x \<in> chars (truffle2cr a b) \<longleftrightarrow> x \<in> chars cr" for x
      unfolding t(2) using byte_places [of x] m(3,4) by blast
    then show ?thesis using t(1) by blast
  qed
  obtain a b where ab: "truffleBuildMasks cr = (a, b)" by fastforce
  have "truffle2cr a b = cr" using read [OF ab] assms(1) chars_eq_iff by blast
  moreover
  define c where "c = truffle2cr highclear highset"
  obtain p q where pq: "truffleBuildMasks c = (p, q)" by fastforce
  note t = truffle2cr_chars [OF assms(2,3), folded c_def]
  note m = truffle_masks [OF t(1) pq]
  have "bit (p ! j) k \<longleftrightarrow> bit (highclear ! j) k" "bit (q ! j) k \<longleftrightarrow> bit (highset ! j) k" if jk: "j < 16" "k < 8" for j k
  proof -
    have "word_of_nat (16 * k + j) \<in> chars c \<longleftrightarrow> bit (highclear ! j) k"
      unfolding t(2) using byte_places_inj(1) [OF jk] byte_places_inj(3) [OF jk] jk by fastforce
    then show "bit (p ! j) k \<longleftrightarrow> bit (highclear ! j) k" using m(3) [OF jk] by simp
    have "word_of_nat (128 + (16 * k + j)) \<in> chars c \<longleftrightarrow> bit (highset ! j) k"
      unfolding t(2) using byte_places_inj(2) [OF jk] byte_places_inj(3) [OF _ _ jk] jk by fastforce
    then show "bit (q ! j) k \<longleftrightarrow> bit (highset ! j) k" using m(4) [OF jk] by simp
  qed
  then have "p ! j = highclear ! j" "q ! j = highset ! j" if "j < 16" for j
    using that by (auto intro!: bit_word_eqI)
  then have "p = highclear" "q = highset" using m(1,2) assms(2,3) by (simp_all add: nth_equalityI)
  ultimately show ?thesis using ab pq by (simp add: c_def)
qed

theorem truffle_roundtrip_witness:
  "cr_inv (cr_set cr_empty 0x61) \<and> length (replicate 16 (7 :: u8)) = 16
   \<and> truffleBuildMasks (truffle2cr (replicate 16 7) (replicate 16 1)) = (replicate 16 7, replicate 16 1)"
  using truffle_roundtrip [of "cr_set cr_empty 0x61" "replicate 16 7" "replicate 16 1"]
  by (simp add: cr_inv_intros)

text \<open>
  C32. When \<open>shuftiBuildDoubleMasks\<close> succeeds, the four masks leave some bucket clear exactly for the
  pairs of bytes asked for: the pairs of \<open>twochar\<close>, and any pair that starts with a member of
  \<open>onechar\<close>.  The merging of entries neither loses nor adds a pair.
\<close>

theorem double_masks_exact:
  assumes "cr_inv onechar" "shuftiBuildDoubleMasks onechar twochar = Some d"
  shows "double_hit d x y \<longleftrightarrow> (x, y) \<in> set twochar \<or> x \<in> chars onechar"
proof -
  define as0 where "as0 = map pair_masks twochar @ map single_masks (cr_indices onechar)"
  define as where "as = foldl merge_masks as0 [0..<4]"
  have four: "\<forall>a \<in> set as0. length a = 4" by (auto simp: as0_def pair_masks_def single_masks_def)
  have "(\<forall>a \<in> set (foldl merge_masks as0 is). length a = 4)
      \<and> ((\<exists>a \<in> set (foldl merge_masks as0 is). entry_hit a x y) \<longleftrightarrow> (\<exists>a \<in> set as0. entry_hit a x y))"
    if "\<forall>i \<in> set is. i < 4" for "is"
    using that
  proof (induction "is" rule: rev_induct)
    case (snoc i js)
    then have js: "\<forall>a \<in> set (foldl merge_masks as0 js). length a = 4" "i < 4" by auto
    show ?case using merge_masks_hit [OF js] snoc by simp
  qed (simp add: four)
  from this [of "[0..<4]"] have merged: "(\<exists>a \<in> set as. entry_hit a x y) \<longleftrightarrow> (\<exists>a \<in> set as0. entry_hit a x y)"
    by (simp add: as_def)
  have few: "length as \<le> 8" using assms(2)
    by (auto simp: shuftiBuildDoubleMasks_def Let_def as_def as0_def MAX_BUCKETS_def split: if_splits)
  obtain m0 m1 m2 m3 where d: "d = (m0, m1, m2, m3)"
    and bits: "\<forall>j < 16. \<forall>k < 8. (bit (m0 ! j) k \<longleftrightarrow> \<not> (k < length as \<and> bit (as ! k ! 0) j))
        \<and> (bit (m1 ! j) k \<longleftrightarrow> \<not> (k < length as \<and> bit (as ! k ! 1) j))
        \<and> (bit (m2 ! j) k \<longleftrightarrow> \<not> (k < length as \<and> bit (as ! k ! 2) j))
        \<and> (bit (m3 ! j) k \<longleftrightarrow> \<not> (k < length as \<and> bit (as ! k ! 3) j))"
    using double_masks_fold [OF few] assms(2)
    by (auto simp: shuftiBuildDoubleMasks_def Let_def as_def as0_def split: if_splits)
  have all_ones: "w = 0xff \<longleftrightarrow> (\<forall>k < 8. bit w k)" for w :: u8
  proof -
    have "(0xff :: u8) = mask 8" by (simp add: mask_eq_exp_minus_1)
    then show ?thesis by (simp only: bit_eq_iff bit_mask_iff) (auto dest: bit_imp_le_length)
  qed
  have "bit (m0 ! unat (lo_nib x)) k \<or> bit (m1 ! unat (hi_nib x)) k
      \<or> bit (m2 ! unat (lo_nib y)) k \<or> bit (m3 ! unat (hi_nib y)) k
      \<longleftrightarrow> \<not> (k < length as \<and> entry_hit (as ! k) x y)" if "k < 8" for k
    using bits [THEN spec, THEN mp, OF nibble_bounds(1) [of x], THEN spec, of k]
      bits [THEN spec, THEN mp, OF nibble_bounds(2) [of x], THEN spec, of k]
      bits [THEN spec, THEN mp, OF nibble_bounds(1) [of y], THEN spec, of k]
      bits [THEN spec, THEN mp, OF nibble_bounds(2) [of y], THEN spec, of k] that
    by (simp only: entry_hit_def) blast
  then have "double_hit d x y \<longleftrightarrow> (\<exists>k < 8. k < length as \<and> entry_hit (as ! k) x y)"
    unfolding double_hit_def d prod.case all_ones bit_or_iff disj_assoc by blast
  also have "\<dots> \<longleftrightarrow> (\<exists>k < length as. entry_hit (as ! k) x y)"
    using less_le_trans [OF _ few] by blast
  also have "\<dots> \<longleftrightarrow> (\<exists>a \<in> set as. entry_hit a x y)"
    unfolding Bex_def in_set_conv_nth by blast
  also have "\<dots> \<longleftrightarrow> (\<exists>p \<in> set twochar. entry_hit (pair_masks p) x y)
      \<or> (\<exists>i \<in> set (cr_indices onechar). entry_hit (single_masks i) x y)"
    unfolding merged as0_def by auto
  also have "\<dots> \<longleftrightarrow> (x, y) \<in> set twochar \<or> x \<in> chars onechar"
    by (simp add: pair_masks_hit single_masks_hit [OF assms(1)])
  finally show ?thesis .
qed

theorem double_masks_exact_witness:
  "\<exists>d. shuftiBuildDoubleMasks cr_empty [(0x61, 0x62)] = Some d \<and> double_hit d 0x61 0x62 \<and> \<not> double_hit d 0x61 0x61"
proof -
  have none: "cr_indices cr_empty = []" using set_cr_indices [of cr_empty] by (simp add: cr_inv_intros chars_simps)
  have one: "length (merge_masks [a] i) = 1" for a i by (simp add: merge_masks_def map_walk_def)
  have "length (foldl merge_masks [a] [0..<n]) = 1" for a n
  proof (induction n)
    case (Suc n)
    then obtain b where "foldl merge_masks [a] [0..<n] = [b]" by (auto simp: length_Suc_conv)
    then show ?case using one by simp
  qed simp
  then have few: "length (foldl merge_masks (map pair_masks [(0x61, 0x62)] @ map single_masks []) [0..<4]) \<le> MAX_BUCKETS"
    by (simp add: MAX_BUCKETS_def)
  then obtain d where d: "shuftiBuildDoubleMasks cr_empty [(0x61, 0x62)] = Some d"
    by (simp only: shuftiBuildDoubleMasks_def Let_def none not_less [symmetric] if_False)
  have e: "cr_inv cr_empty" by (simp add: cr_inv_intros)
  show ?thesis
    using d double_masks_exact [OF e d, of "0x61" "0x62"] double_masks_exact [OF e d, of "0x61" "0x61"]
    by (simp add: chars_simps)
qed

end
