(* ===== verification/Memory.thy ===== *)
theory Memory
  imports Prelude
begin

text \<open>
  Byte memory: the unaligned accesses of \<open>src/util/unaligned.h\<close> and the partial ones of
  \<open>src/util/partial_store.h\<close>, on a little-endian machine.  A memory gives the byte at each offset
  from a base pointer; an offset may be negative.
\<close>

type_synonym mem = "int \<Rightarrow> u8"

section \<open>Loads and stores\<close>

fun load_le :: "nat \<Rightarrow> mem \<Rightarrow> int \<Rightarrow> 'a::len word" where
  "load_le 0 m p = 0"
| "load_le (Suc n) m p = ucast (m p) OR push_bit 8 (load_le n m (p + 1))"

fun store_le :: "nat \<Rightarrow> mem \<Rightarrow> int \<Rightarrow> 'a::len word \<Rightarrow> mem" where
  "store_le 0 m p v = m"
| "store_le (Suc n) m p v = store_le n (m(p := ucast v)) (p + 1) (drop_bit 8 v)"

definition unaligned_load_u16 :: "mem \<Rightarrow> int \<Rightarrow> u16" where
  "unaligned_load_u16 m p = load_le 2 m p"

definition unaligned_load_u32 :: "mem \<Rightarrow> int \<Rightarrow> u32" where
  "unaligned_load_u32 m p = load_le 4 m p"

definition unaligned_load_u64a :: "mem \<Rightarrow> int \<Rightarrow> u64a" where
  "unaligned_load_u64a m p = load_le 8 m p"

definition unaligned_store_u16 :: "mem \<Rightarrow> int \<Rightarrow> u16 \<Rightarrow> mem" where
  "unaligned_store_u16 m p v = store_le 2 m p v"

definition unaligned_store_u32 :: "mem \<Rightarrow> int \<Rightarrow> u32 \<Rightarrow> mem" where
  "unaligned_store_u32 m p v = store_le 4 m p v"

definition unaligned_store_u64a :: "mem \<Rightarrow> int \<Rightarrow> u64a \<Rightarrow> mem" where
  "unaligned_store_u64a m p v = store_le 8 m p v"

section \<open>Partial loads and stores\<close>

definition partial_store_u32 :: "mem \<Rightarrow> int \<Rightarrow> u32 \<Rightarrow> nat \<Rightarrow> mem" where
  "partial_store_u32 m ptr value numBytes =
     (if numBytes = 4 then unaligned_store_u32 m ptr value
      else if numBytes = 3 then (unaligned_store_u16 m ptr (ucast value)) (ptr + 2 := ucast (drop_bit 16 value))
      else if numBytes = 2 then unaligned_store_u16 m ptr (ucast value)
      else if numBytes = 1 then m(ptr := ucast value)
      else m)"

definition partial_load_u32 :: "mem \<Rightarrow> int \<Rightarrow> nat \<Rightarrow> u32" where
  "partial_load_u32 m ptr numBytes =
     (if numBytes = 4 then unaligned_load_u32 m ptr
      else if numBytes = 3 then ucast (unaligned_load_u16 m ptr) OR push_bit 16 (ucast (m (ptr + 2)))
      else if numBytes = 2 then ucast (unaligned_load_u16 m ptr)
      else if numBytes = 1 then ucast (m ptr)
      else 0)"

definition partial_store_u64a :: "mem \<Rightarrow> int \<Rightarrow> u64a \<Rightarrow> nat \<Rightarrow> mem" where
  "partial_store_u64a m ptr value numBytes =
     (if numBytes = 8 then unaligned_store_u64a m ptr value
      else if numBytes = 7 then
        (unaligned_store_u16 (unaligned_store_u32 m ptr (ucast value)) (ptr + 4) (ucast (drop_bit 32 value)))
          (ptr + 6 := ucast (drop_bit 48 value))
      else if numBytes = 6 then
        unaligned_store_u16 (unaligned_store_u32 m ptr (ucast value)) (ptr + 4) (ucast (drop_bit 32 value))
      else if numBytes = 5 then (unaligned_store_u32 m ptr (ucast value)) (ptr + 4 := ucast (drop_bit 32 value))
      else if numBytes = 4 then unaligned_store_u32 m ptr (ucast value)
      else if numBytes = 3 then (unaligned_store_u16 m ptr (ucast value)) (ptr + 2 := ucast (drop_bit 16 value))
      else if numBytes = 2 then unaligned_store_u16 m ptr (ucast value)
      else if numBytes = 1 then m(ptr := ucast value)
      else m)"

definition partial_load_u64a :: "mem \<Rightarrow> int \<Rightarrow> nat \<Rightarrow> u64a" where
  "partial_load_u64a m ptr numBytes =
     (if numBytes = 8 then unaligned_load_u64a m ptr
      else if numBytes = 7 then
        (ucast (unaligned_load_u32 m ptr) OR push_bit 32 (ucast (unaligned_load_u16 m (ptr + 4))))
          OR push_bit 48 (ucast (m (ptr + 6)))
      else if numBytes = 6 then ucast (unaligned_load_u32 m ptr) OR push_bit 32 (ucast (unaligned_load_u16 m (ptr + 4)))
      else if numBytes = 5 then ucast (unaligned_load_u32 m ptr) OR push_bit 32 (ucast (m (ptr + 4)))
      else if numBytes = 4 then ucast (unaligned_load_u32 m ptr)
      else if numBytes = 3 then ucast (unaligned_load_u16 m ptr) OR push_bit 16 (ucast (m (ptr + 2)))
      else if numBytes = 2 then ucast (unaligned_load_u16 m ptr)
      else if numBytes = 1 then ucast (m ptr)
      else 0)"

section \<open>What they read and write\<close>

lemma store_byte: "m(p := ucast v) = store_le (Suc 0) m p v"
  by simp

lemma load_byte: "ucast (m p) = load_le (Suc 0) m p"
  by simp

lemma bit_load_le:
  "bit (load_le n m p :: 'a::len word) k
     \<longleftrightarrow> k < LENGTH('a) \<and> k < 8 * n \<and> bit (m (p + int (k div 8))) (k mod 8)"
proof (induction n arbitrary: p k)
  case (Suc n)
  show ?case
  proof (cases "k < 8")
    case True
    then show ?thesis by (auto simp: bit_simps Suc)
  next
    case False
    then obtain j where k: "k = 8 + j" by (metis le_iff_add not_less)
    have "\<not> bit (ucast (m p) :: 'a word) k" using False by (auto simp: bit_simps dest: bit_imp_le_length)
    then have step: "bit (load_le (Suc n) m p :: 'a word) k
        \<longleftrightarrow> k < LENGTH('a) \<and> bit (load_le n m (p + 1) :: 'a word) j"
      using k by (simp add: bit_or_iff bit_push_bit_iff)
    have at: "p + int (k div 8) = p + 1 + int (j div 8)" "k mod 8 = j mod 8" by (simp_all add: k)
    show ?thesis unfolding step Suc at using k by auto
  qed
qed simp

lemma store_le_at:
  "store_le n m p v a = (if p \<le> a \<and> a < p + int n then ucast (drop_bit (8 * nat (a - p)) v) else m a)"
proof (induction n arbitrary: m p v)
  case (Suc n)
  show ?case
  proof (cases "p + 1 \<le> a")
    case True
    then have "8 * nat (a - p) = 8 * nat (a - (p + 1)) + 8" by simp
    then show ?thesis using True by (simp add: Suc)
  next
    case False
    then show ?thesis by (auto simp: Suc)
  qed
qed auto

declare load_le.simps [simp del] store_le.simps [simp del]

lemma store_le_add:
  "store_le (i + j) m p v = store_le j (store_le i m p v) (p + int i) (drop_bit (8 * i) v)"
proof
  fix a
  have "8 * nat (a - p) = 8 * nat (a - (p + int i)) + 8 * i" if "p + int i \<le> a" using that by auto
  then show "store_le (i + j) m p v a = store_le j (store_le i m p v) (p + int i) (drop_bit (8 * i) v) a"
    by (auto simp: store_le_at)
qed

lemma store_le_ucast:
  assumes "8 * n \<le> LENGTH('b)"
  shows "store_le n m p (ucast (v :: 'a::len word) :: 'b::len word) = store_le n m p v"
proof
  fix a
  have "ucast (drop_bit (8 * nat (a - p)) (ucast v :: 'b word)) = (ucast (drop_bit (8 * nat (a - p)) v) :: u8)"
    if "a < p + int n" "p \<le> a"
  proof -
    have "8 * nat (a - p) + 8 \<le> LENGTH('b)" using that assms by linarith
    then show ?thesis by (intro bit_word_eqI) (auto simp: bit_simps dest: bit_imp_le_length)
  qed
  then show "store_le n m p (ucast v :: 'b word) a = store_le n m p v a"
    by (simp add: store_le_at)
qed

lemma load_le_add:
  "(load_le (i + j) m p :: 'a::len word) = load_le i m p OR push_bit (8 * i) (load_le j m (p + int i))"
proof (rule bit_word_eqI)
  fix k
  show "bit (load_le (i + j) m p :: 'a word) k
      \<longleftrightarrow> bit (load_le i m p OR push_bit (8 * i) (load_le j m (p + int i)) :: 'a word) k"
    if "k < LENGTH('a)"
  proof (cases "8 * i \<le> k")
    case True
    then obtain d where k: "k = 8 * i + d" using le_iff_add by blast
    then have at: "p + int (k div 8) = p + int i + int (d div 8)" "k mod 8 = d mod 8" "k - 8 * i = d" by simp_all
    show ?thesis
      unfolding bit_or_iff bit_push_bit_iff bit_load_le at using that k by auto
  qed (use that in \<open>auto simp: bit_or_iff bit_push_bit_iff bit_load_le\<close>)
qed

lemma load_le_ucast:
  "8 * n \<le> LENGTH('a) \<Longrightarrow> ucast (load_le n m p :: 'a::len word) = (load_le n m p :: 'b::len word)"
  by (intro bit_word_eqI) (auto simp: bit_simps bit_load_le)

lemma store_u32_ucast: "store_le 4 m p (ucast (v :: u64a) :: u32) = store_le 4 m p v"
  by (rule store_le_ucast) simp

lemma store_u16_ucast: "store_le 2 m p (ucast (v :: u64a) :: u16) = store_le 2 m p v"
  by (rule store_le_ucast) simp

lemma store_le_split:
  "store_le 7 m p v = store_le (Suc 0) (store_le 2 (store_le 4 m p v) (p + 4) (drop_bit 32 v)) (p + 6) (drop_bit 48 v)"
  "store_le 6 m p v = store_le 2 (store_le 4 m p v) (p + 4) (drop_bit 32 v)"
  "store_le 5 m p v = store_le (Suc 0) (store_le 4 m p v) (p + 4) (drop_bit 32 v)"
  "store_le 3 m p v = store_le (Suc 0) (store_le 2 m p v) (p + 2) (drop_bit 16 v)"
  using store_le_add [of 4 3 m p v] store_le_add [of 4 2 m p v] store_le_add [of 4 1 m p v] store_le_add [of 2 1 m p v]
    store_le_add [of 2 1 "store_le 4 m p v" "p + 4" "drop_bit 32 v"]
  by (simp_all add: numeral_3_eq_3 ac_simps)

lemma partial_store_u64a_le:
  assumes "n \<le> 8"
  shows "partial_store_u64a m p v n = store_le n m p v"
proof -
  have "n = 0 \<or> n = 1 \<or> n = 2 \<or> n = 3 \<or> n = 4 \<or> n = 5 \<or> n = 6 \<or> n = 7 \<or> n = 8" using assms by linarith
  then show ?thesis
    by (elim disjE) (simp_all add: partial_store_u64a_def unaligned_store_u64a_def unaligned_store_u32_def
        unaligned_store_u16_def store_u32_ucast store_u16_ucast store_byte store_le_split store_le.simps(1)
        del: fun_upd_apply)
qed

lemma load_u32_ucast: "ucast (load_le 4 m p :: u32) = (load_le 4 m p :: u64a)"
  by (rule load_le_ucast) simp

lemma load_u16_ucast: "ucast (load_le 2 m p :: u16) = (load_le 2 m p :: u64a)"
  by (rule load_le_ucast) simp

lemma load_le_split:
  "(load_le 7 m p :: u64a) = (load_le 4 m p OR push_bit 32 (load_le 2 m (p + 4))) OR push_bit 48 (load_le (Suc 0) m (p + 6))"
  "(load_le 6 m p :: u64a) = load_le 4 m p OR push_bit 32 (load_le 2 m (p + 4))"
  "(load_le 5 m p :: u64a) = load_le 4 m p OR push_bit 32 (load_le (Suc 0) m (p + 4))"
  "(load_le 3 m p :: u64a) = load_le 2 m p OR push_bit 16 (load_le (Suc 0) m (p + 2))"
  using load_le_add [of 4 3 m p, where 'a = 64] load_le_add [of 4 2 m p, where 'a = 64]
    load_le_add [of 4 1 m p, where 'a = 64] load_le_add [of 2 1 m p, where 'a = 64]
    load_le_add [of 2 1 m "p + 4", where 'a = 64]
  by (simp_all add: numeral_3_eq_3 push_bit_or ac_simps)

lemma partial_load_u64a_le:
  assumes "n \<le> 8"
  shows "partial_load_u64a m p n = load_le n m p"
proof -
  have "n = 0 \<or> n = 1 \<or> n = 2 \<or> n = 3 \<or> n = 4 \<or> n = 5 \<or> n = 6 \<or> n = 7 \<or> n = 8" using assms by linarith
  then show ?thesis
    by (elim disjE) (simp_all add: partial_load_u64a_def unaligned_load_u64a_def unaligned_load_u32_def
        unaligned_load_u16_def load_u32_ucast load_u16_ucast load_byte load_le_split load_le.simps(1))
qed

section \<open>The bits of a memory, from its base\<close>

definition gbit :: "mem \<Rightarrow> nat \<Rightarrow> bool" where
  "gbit m i = bit (m (int (i div 8))) (i mod 8)"

lemma bit_load_gbit:
  "bit (load_le n m (int a) :: 'a::len word) k \<longleftrightarrow> k < LENGTH('a) \<and> k < 8 * n \<and> gbit m (8 * a + k)"
  by (simp add: bit_load_le gbit_def)

lemma gbit_store:
  fixes v :: "'a::len word"
  assumes "8 * n \<le> LENGTH('a)"
  shows "gbit (store_le n m (int a) v) i
    = (if 8 * a \<le> i \<and> i < 8 * a + 8 * n then bit v (i - 8 * a) else gbit m i)"
proof -
  have range: "int a \<le> int (i div 8) \<and> int (i div 8) < int a + int n \<longleftrightarrow> 8 * a \<le> i \<and> i < 8 * a + 8 * n"
    by linarith
  have "8 * nat (int (i div 8) - int a) + i mod 8 = i - 8 * a" if "8 * a \<le> i"
  proof -
    have "a \<le> i div 8" using that by linarith
    have "nat (int (i div 8) - int a) = i div 8 - a" by simp
    moreover have "8 * (i div 8 - a) + i mod 8 = i - 8 * a"
      using \<open>a \<le> i div 8\<close> mult_div_mod_eq [of 8 i] by (simp add: diff_mult_distrib2)
    ultimately show ?thesis by (simp only:)
  qed
  then show ?thesis
    using range by (auto simp: gbit_def store_le_at bit_simps)
qed

end
