(* ===== verification/Multibit.thy ===== *)
theory Multibit
  imports Memory BitUtils "HOL-Library.While_Combinator"
begin

text \<open>
  The multibit of \<open>src/util/multibit.h\<close>, \<open>multibit.c\<close> and \<open>multibit_internal.h\<close>: a set of keys in raw
  memory.  Up to 256 keys it is a flat bit vector; above that it is a tree of 64-bit blocks, where a bit of an inner
  block says that the child block is valid, so that clearing writes one block and setting a key
  initialises the blocks below.  Pointers are offsets from the address of the multibit.
\<close>

section \<open>Constants and tables\<close>

definition MMB_KEY_BITS :: nat where
  "MMB_KEY_BITS = 64"

definition MMB_KEY_SHIFT :: nat where
  "MMB_KEY_SHIFT = 6"

definition MMB_KEY_MASK :: nat where
  "MMB_KEY_MASK = MMB_KEY_BITS - 1"

definition MMB_FLAT_MAX_BITS :: nat where
  "MMB_FLAT_MAX_BITS = 256"

definition MMB_MAX_BITS :: nat where
  "MMB_MAX_BITS = 2 ^ 31"

definition MMB_INVALID :: nat where
  "MMB_INVALID = 2 ^ 32 - 1"

definition MMB_ALL_ONES :: u64a where
  "MMB_ALL_ONES = 0xffffffffffffffff"

definition mmbit_keyshift_lut :: "nat list" where
  "mmbit_keyshift_lut =
     [30, 30, 24, 24, 24, 24, 24, 24, 18, 18, 18,
      18, 18, 18, 12, 12, 12, 12, 12, 12, 6, 6,
      6, 6, 6, 6, 0, 0, 0, 0, 0, 0]"

definition mmbit_maxlevel_from_keyshift_lut :: "nat list" where
  "mmbit_maxlevel_from_keyshift_lut =
     [0, 0, 0, 0, 0, 0, 1, 1, 1, 1, 1, 1, 2, 2, 2, 2, 2, 2,
      3, 3, 3, 3, 3, 3, 4, 4, 4, 4, 4, 4, 5, 5]"

definition mmbit_maxlevel_direct_lut :: "nat list" where
  "mmbit_maxlevel_direct_lut =
     [5, 5, 4, 4, 4, 4, 4, 4, 3, 3, 3,
      3, 3, 3, 2, 2, 2, 2, 2, 2, 1, 1,
      1, 1, 1, 1, 0, 0, 0, 0, 0, 0]"

definition mmbit_root_offset_from_level :: "nat list" where
  "mmbit_root_offset_from_level =
     [0,
      1,
      1 + push_bit MMB_KEY_SHIFT 1,
      1 + push_bit MMB_KEY_SHIFT 1 + push_bit (MMB_KEY_SHIFT * 2) 1,
      1 + push_bit MMB_KEY_SHIFT 1 + push_bit (MMB_KEY_SHIFT * 2) 1 + push_bit (MMB_KEY_SHIFT * 3) 1,
      1 + push_bit MMB_KEY_SHIFT 1 + push_bit (MMB_KEY_SHIFT * 2) 1 + push_bit (MMB_KEY_SHIFT * 3) 1
        + push_bit (MMB_KEY_SHIFT * 4) 1,
      1 + push_bit MMB_KEY_SHIFT 1 + push_bit (MMB_KEY_SHIFT * 2) 1 + push_bit (MMB_KEY_SHIFT * 3) 1
        + push_bit (MMB_KEY_SHIFT * 4) 1 + push_bit (MMB_KEY_SHIFT * 5) 1]"

text \<open>Rounding to a power of two.\<close>

definition ROUNDUP_N :: "nat \<Rightarrow> nat \<Rightarrow> nat" where
  "ROUNDUP_N a n = (a + (n - 1)) div n * n"

definition ROUNDDOWN_N :: "nat \<Rightarrow> nat \<Rightarrow> nat" where
  "ROUNDDOWN_N a n = a div n * n"

section \<open>Blocks\<close>

definition mmb_load :: "mem \<Rightarrow> int \<Rightarrow> u64a" where
  "mmb_load m p = unaligned_load_u64a m p"

definition mmb_store :: "mem \<Rightarrow> int \<Rightarrow> u64a \<Rightarrow> mem" where
  "mmb_store m p v = unaligned_store_u64a m p v"

definition mmb_store_partial :: "mem \<Rightarrow> int \<Rightarrow> u64a \<Rightarrow> nat \<Rightarrow> mem" where
  "mmb_store_partial m p v block_bits = partial_store_u64a m p v (ROUNDUP_N block_bits 8 div 8)"

definition mmb_single_bit :: "nat \<Rightarrow> u64a" where
  "mmb_single_bit b = push_bit b 1"

definition mmb_mask_zero_to :: "nat \<Rightarrow> u64a" where
  "mmb_mask_zero_to b = (if b = MMB_KEY_BITS then MMB_ALL_ONES else mmb_single_bit b - 1)"

definition mmb_mask_zero_to_nocheck :: "nat \<Rightarrow> u64a" where
  "mmb_mask_zero_to_nocheck b = mmb_single_bit b - 1"

definition mmb_test :: "u64a \<Rightarrow> nat \<Rightarrow> bool" where
  "mmb_test v b = (drop_bit b v AND 1 \<noteq> 0)"

definition mmb_set :: "u64a \<Rightarrow> nat \<Rightarrow> u64a" where
  "mmb_set v b = v OR mmb_single_bit b"

definition mmb_clear :: "u64a \<Rightarrow> nat \<Rightarrow> u64a" where
  "mmb_clear v b = v AND NOT (mmb_single_bit b)"

definition mmb_ctz :: "u64a \<Rightarrow> nat" where
  "mmb_ctz v = ctz64 v"

section \<open>Levels\<close>

definition mmbit_keyshift :: "nat \<Rightarrow> nat" where
  "mmbit_keyshift total_bits = mmbit_keyshift_lut ! clz32 (word_of_nat total_bits - 1)"

definition mmbit_maxlevel :: "nat \<Rightarrow> nat" where
  "mmbit_maxlevel total_bits = mmbit_maxlevel_direct_lut ! clz32 (word_of_nat total_bits - 1)"

definition mmbit_maxlevel_from_keyshift :: "nat \<Rightarrow> nat" where
  "mmbit_maxlevel_from_keyshift ks = mmbit_maxlevel_from_keyshift_lut ! ks"

definition mmbit_get_ks :: "nat \<Rightarrow> nat \<Rightarrow> nat" where
  "mmbit_get_ks max_level level = (max_level - level) * MMB_KEY_SHIFT"

definition mmbit_get_key_val :: "nat \<Rightarrow> nat \<Rightarrow> nat \<Rightarrow> nat" where
  "mmbit_get_key_val max_level level key = drop_bit (mmbit_get_ks max_level level) key AND MMB_KEY_MASK"

definition mmbit_get_level_root :: "nat \<Rightarrow> int" where
  "mmbit_get_level_root level = int (mmbit_root_offset_from_level ! level * 8)"

definition mmbit_get_block_ptr :: "nat \<Rightarrow> nat \<Rightarrow> nat \<Rightarrow> int" where
  "mmbit_get_block_ptr max_level level key =
     (let level_root = mmbit_get_level_root level; ks = mmbit_get_ks max_level level
      in level_root + int (drop_bit (ks + MMB_KEY_SHIFT) key * 8))"

definition mmbit_get_byte_ptr :: "nat \<Rightarrow> nat \<Rightarrow> nat \<Rightarrow> int" where
  "mmbit_get_byte_ptr max_level level key =
     (let level_root = mmbit_get_level_root level; ks = mmbit_get_ks max_level level
      in level_root + int (drop_bit (ks + MMB_KEY_SHIFT - 3) key))"

definition mmbit_get_key_val_byte :: "nat \<Rightarrow> nat \<Rightarrow> nat \<Rightarrow> nat" where
  "mmbit_get_key_val_byte max_level level key = drop_bit (mmbit_get_ks max_level level) key AND 0x7"

text \<open>Short blocks are read with one load that ends at their last byte and may start before the multibit.\<close>

definition mmbit_get_flat_block :: "mem \<Rightarrow> int \<Rightarrow> nat \<Rightarrow> u64a" where
  "mmbit_get_flat_block m bits n_bits =
     (let n_bytes = ROUNDUP_N n_bits 8 div 8
      in if n_bytes = 1 then ucast (m bits)
         else if n_bytes = 2 then ucast (unaligned_load_u16 m bits)
         else if n_bytes = 3 \<or> n_bytes = 4 then
           ucast (drop_bit ((4 - n_bytes) * 8) (unaligned_load_u32 m (bits + int n_bytes - 4)))
         else drop_bit ((8 - n_bytes) * 8) (unaligned_load_u64a m (bits + int n_bytes - 8)))"

definition mmbit_is_flat_model :: "nat \<Rightarrow> bool" where
  "mmbit_is_flat_model total_bits = (total_bits \<le> MMB_FLAT_MAX_BITS)"

definition mmbit_flat_size :: "nat \<Rightarrow> nat" where
  "mmbit_flat_size total_bits = ROUNDUP_N total_bits 8 div 8"

definition mmbit_flat_select_byte :: "nat \<Rightarrow> nat" where
  "mmbit_flat_select_byte key = key div 8"

section \<open>Operations on one key\<close>

definition mmbit_clear :: "mem \<Rightarrow> nat \<Rightarrow> mem" where
  "mmbit_clear m total_bits =
     (if total_bits = 0 then m
      else if mmbit_is_flat_model total_bits
      then foldl (\<lambda>m i. m(int i := 0)) m [0..<mmbit_flat_size total_bits]
      else mmb_store m 0 0)"

definition mmbit_set_flat :: "mem \<Rightarrow> nat \<Rightarrow> mem \<times> bool" where
  "mmbit_set_flat m key =
     (let bits = int (mmbit_flat_select_byte key); mk = push_bit (key mod 8) 1;
          was_set = (m bits AND mk \<noteq> 0)
      in (m(bits := m bits OR mk), was_set))"

text \<open>The first level whose bit is off gets it; the blocks below are made with one bit each.\<close>

function set_big_loop :: "mem \<Rightarrow> nat \<Rightarrow> nat \<Rightarrow> nat \<Rightarrow> mem \<times> bool" where
  "set_big_loop m max_level key level =
     (let byte_ptr = mmbit_get_byte_ptr max_level level key;
          keymask = push_bit (mmbit_get_key_val_byte max_level level key) 1;
          byte = m byte_ptr
      in if byte AND keymask = 0 then
           (foldl (\<lambda>m level. mmb_store m (mmbit_get_block_ptr max_level level key)
                     (mmb_single_bit (mmbit_get_key_val max_level level key)))
              (m(byte_ptr := byte OR keymask)) [Suc level..<Suc max_level], False)
         else if level \<ge> max_level then (m, True)
         else set_big_loop m max_level key (Suc level))"
  by pat_completeness auto
termination by (relation "measure (\<lambda>(m, max_level, key, level). max_level - level)") auto

declare set_big_loop.simps [simp del]

definition mmbit_set_big :: "mem \<Rightarrow> nat \<Rightarrow> nat \<Rightarrow> mem \<times> bool" where
  "mmbit_set_big m total_bits key = set_big_loop m (mmbit_maxlevel total_bits) key 0"

definition mmbit_set_i :: "mem \<Rightarrow> nat \<Rightarrow> nat \<Rightarrow> mem \<times> bool" where
  "mmbit_set_i m total_bits key =
     (if mmbit_is_flat_model total_bits then mmbit_set_flat m key else mmbit_set_big m total_bits key)"

definition mmbit_set :: "mem \<Rightarrow> nat \<Rightarrow> nat \<Rightarrow> mem \<times> bool" where
  "mmbit_set m total_bits key = mmbit_set_i m total_bits key"

definition mmbit_isset_flat :: "mem \<Rightarrow> nat \<Rightarrow> bool" where
  "mmbit_isset_flat m key = (m (int (mmbit_flat_select_byte key)) AND push_bit (key mod 8) 1 \<noteq> 0)"

function isset_big_loop :: "mem \<Rightarrow> nat \<Rightarrow> nat \<Rightarrow> nat \<Rightarrow> bool" where
  "isset_big_loop m max_level key level =
     (let block = mmb_load m (mmbit_get_block_ptr max_level level key)
      in if \<not> mmb_test block (mmbit_get_key_val max_level level key) then False
         else if level \<ge> max_level then True
         else isset_big_loop m max_level key (Suc level))"
  by pat_completeness auto
termination by (relation "measure (\<lambda>(m, max_level, key, level). max_level - level)") auto

declare isset_big_loop.simps [simp del]

definition mmbit_isset_big :: "mem \<Rightarrow> nat \<Rightarrow> nat \<Rightarrow> bool" where
  "mmbit_isset_big m total_bits key = isset_big_loop m (mmbit_maxlevel total_bits) key 0"

definition mmbit_isset :: "mem \<Rightarrow> nat \<Rightarrow> nat \<Rightarrow> bool" where
  "mmbit_isset m total_bits key =
     (if mmbit_is_flat_model total_bits then mmbit_isset_flat m key else mmbit_isset_big m total_bits key)"

definition mmbit_unset_flat :: "mem \<Rightarrow> nat \<Rightarrow> mem" where
  "mmbit_unset_flat m key =
     (let bits = int (mmbit_flat_select_byte key) in m(bits := m bits AND NOT (push_bit (key mod 8) 1)))"

function unset_big_loop :: "mem \<Rightarrow> nat \<Rightarrow> nat \<Rightarrow> nat \<Rightarrow> mem" where
  "unset_big_loop m max_level key level =
     (let block_ptr = mmbit_get_block_ptr max_level level key;
          key_val = mmbit_get_key_val max_level level key;
          block = mmb_load m block_ptr
      in if \<not> mmb_test block key_val then m
         else if level \<ge> max_level then mmb_store m block_ptr (mmb_clear block key_val)
         else unset_big_loop m max_level key (Suc level))"
  by pat_completeness auto
termination by (relation "measure (\<lambda>(m, max_level, key, level). max_level - level)") auto

declare unset_big_loop.simps [simp del]

definition mmbit_unset_big :: "mem \<Rightarrow> nat \<Rightarrow> nat \<Rightarrow> mem" where
  "mmbit_unset_big m total_bits key = unset_big_loop m (mmbit_maxlevel total_bits) key 0"

definition mmbit_unset :: "mem \<Rightarrow> nat \<Rightarrow> nat \<Rightarrow> mem" where
  "mmbit_unset m total_bits key =
     (if mmbit_is_flat_model total_bits then mmbit_unset_flat m key else mmbit_unset_big m total_bits key)"

text \<open>
  \<open>mmbit_any\<close> may answer yes for a tree that holds no key any more.  Its flat part looks at all whole
  blocks but the last eight bytes, and at those with a load that may overlap.
\<close>

definition mmbit_any_flat :: "mem \<Rightarrow> nat \<Rightarrow> bool" where
  "mmbit_any_flat m total_bits =
     (if total_bits \<le> MMB_KEY_BITS then mmbit_get_flat_block m 0 total_bits \<noteq> 0
      else let end_ptr = int (mmbit_flat_size total_bits); last = end_ptr - 8
           in list_ex (\<lambda>i. mmb_load m (8 * int i) \<noteq> 0)
                (takeWhile (\<lambda>i. 8 * int i < last) [0..<mmbit_flat_size total_bits])
              \<or> mmb_load m (end_ptr - 8) \<noteq> 0)"

definition mmbit_any :: "mem \<Rightarrow> nat \<Rightarrow> bool" where
  "mmbit_any m total_bits =
     (if total_bits = 0 then False
      else if mmbit_is_flat_model total_bits then mmbit_any_flat m total_bits
      else mmb_load m 0 \<noteq> 0)"

text \<open>The size in bytes (\<open>src/util/multibit_build.cpp\<close>); \<open>None\<close> is the resource limit error.\<close>

definition mmbit_size :: "nat \<Rightarrow> nat option" where
  "mmbit_size total_bits =
     (if total_bits > MMB_MAX_BITS then None
      else if total_bits \<le> MMB_FLAT_MAX_BITS then Some (ROUNDUP_N total_bits 8 div 8)
      else let (current_level, total) =
             the (while_option (\<lambda>(current_level, total). current_level * MMB_KEY_BITS < total_bits)
               (\<lambda>(current_level, total). (push_bit MMB_KEY_SHIFT current_level, total + current_level)) (1, 0));
             last_level = (total_bits + MMB_KEY_BITS - 1) div MMB_KEY_BITS
           in Some ((total + last_level) * 8))"

section \<open>Lemmas: blocks\<close>

lemma MMB_consts: "MMB_KEY_BITS = 64" "MMB_KEY_SHIFT = 6" "MMB_KEY_MASK = 63"
  by (simp_all add: MMB_KEY_BITS_def MMB_KEY_SHIFT_def MMB_KEY_MASK_def)

lemma nat_and_masks: "(k :: nat) AND 63 = k mod 64" "k AND 7 = k mod 8"
proof -
  have "(63 :: nat) = mask 6" "(7 :: nat) = mask 3" by (simp_all add: mask_eq_exp_minus_1)
  then show "k AND 63 = k mod 64" "k AND 7 = k mod 8"
    by (simp_all only: take_bit_eq_mask [symmetric] take_bit_eq_mod) simp_all
qed

lemma bit_single_bit: "bit (mmb_single_bit b) k \<longleftrightarrow> k = b \<and> k < 64"
  by (auto simp: mmb_single_bit_def bit_exp_iff)

lemma mmb_test_bit [simp]: "mmb_test v b \<longleftrightarrow> bit v b"
  by (simp add: mmb_test_def and_one_eq bit_iff_odd_drop_bit odd_iff_mod_2_eq_one)

lemma bit_mask_zero_to_nocheck: "b < 64 \<Longrightarrow> bit (mmb_mask_zero_to_nocheck b) k \<longleftrightarrow> k < b"
proof -
  assume "b < 64"
  have "mmb_mask_zero_to_nocheck b = mask b"
    by (simp add: mmb_mask_zero_to_nocheck_def mmb_single_bit_def mask_eq_exp_minus_1)
  then show ?thesis using \<open>b < 64\<close> by (auto simp: bit_mask_iff)
qed

lemma bit_MMB_ALL_ONES: "bit MMB_ALL_ONES k \<longleftrightarrow> k < 64"
proof -
  have "MMB_ALL_ONES = mask 64" by (simp add: MMB_ALL_ONES_def mask_eq_exp_minus_1)
  show ?thesis unfolding \<open>MMB_ALL_ONES = mask 64\<close> bit_mask_iff by simp
qed

lemma bit_mask_zero_to: "b \<le> 64 \<Longrightarrow> bit (mmb_mask_zero_to b) k \<longleftrightarrow> k < b"
  using bit_mask_zero_to_nocheck [of b k]
  by (auto simp: mmb_mask_zero_to_def MMB_consts bit_MMB_ALL_ONES mmb_mask_zero_to_nocheck_def)

lemma bit_mmb_clear: "bit (mmb_clear v b) k \<longleftrightarrow> bit v k \<and> k \<noteq> b"
  by (auto simp: mmb_clear_def bit_and_iff bit_not_iff bit_single_bit dest: bit_imp_le_length)

lemma bit_byte_single: "r < 8 \<Longrightarrow> bit (push_bit r 1 :: u8) k \<longleftrightarrow> k = r"
  by (auto simp: bit_exp_iff)

lemma and_byte_single: "r < 8 \<Longrightarrow> (v :: u8) AND push_bit r 1 = 0 \<longleftrightarrow> \<not> bit v r"
  by (simp add: and_exp_eq_0_iff_not_bit)

lemma mod_div_bit: "8 * (i div 8) + (i :: nat) mod 8 = i" by simp

text \<open>Changing one byte.\<close>

lemma gbit_set_byte:
  assumes "r < 8"
  shows "gbit (m(int a := m (int a) OR push_bit r 1)) i \<longleftrightarrow> gbit m i \<or> i = 8 * a + r"
proof -
  have "i div 8 = a \<and> i mod 8 = r \<longleftrightarrow> i = 8 * a + r" using assms mod_div_bit [of i] by auto
  then show ?thesis using bit_byte_single [OF assms] by (auto simp: gbit_def bit_or_iff simp del: push_bit_of_1)
qed

lemma gbit_clear_byte:
  assumes "r < 8"
  shows "gbit (m(int a := m (int a) AND NOT (push_bit r 1))) i \<longleftrightarrow> gbit m i \<and> i \<noteq> 8 * a + r"
proof -
  have "i div 8 = a \<and> i mod 8 = r \<longleftrightarrow> i = 8 * a + r" using assms mod_div_bit [of i] by auto
  moreover have "bit (NOT (push_bit r (1 :: u8))) k \<longleftrightarrow> k < 8 \<and> k \<noteq> r" for k
    using bit_byte_single [OF assms, of k] by (simp add: bit_not_iff del: push_bit_of_1)
  ultimately show ?thesis by (auto simp: gbit_def bit_and_iff simp del: push_bit_of_1)
qed

section \<open>Lemmas: the levels\<close>

lemma Max_bitset_bounds:
  fixes w :: "'a::len word"
  assumes "w \<noteq> 0"
  shows "2 ^ Max (bitset w) \<le> unat w" "unat w < 2 ^ Suc (Max (bitset w))"
proof -
  define M where "M = Max (bitset w)"
  have "M \<in> bitset w" unfolding M_def by (rule Max_in) (simp_all add: bitset_empty_iff assms)
  then have M: "bit w M" by (simp add: bitset_def)
  have "bit (unat w) M" using M by (simp add: bit_unsigned_iff)
  then have "\<not> unat w < 2 ^ M" using take_bit_nat_eq_self [of "unat w" M] bit_take_bit_iff [of M "unat w" M] by auto
  then show "2 ^ Max (bitset w) \<le> unat w" by (simp add: M_def)
  have above: "\<not> bit w k" if "M < k" for k
  proof
    assume "bit w k"
    then have "k \<le> M" unfolding M_def by (intro Max_ge) (simp_all add: bitset_def)
    then show False using that by simp
  qed
  have "take_bit (Suc M) w = w" by (rule bit_word_eqI) (metis above bit_take_bit_iff not_less_eq)
  then have "take_bit (Suc M) (unat w) = unat w" by (metis unsigned_take_bit_eq)
  then show "unat w < 2 ^ Suc (Max (bitset w))" by (metis M_def take_bit_nat_less_exp)
qed

lemma level_luts: "M \<le> 31 \<Longrightarrow> mmbit_maxlevel_direct_lut ! (31 - M) = M div 6"
  "M \<le> 31 \<Longrightarrow> mmbit_keyshift_lut ! (31 - M) = 6 * (M div 6)"
proof -
  have "list_all (\<lambda>M. mmbit_maxlevel_direct_lut ! (31 - M) = M div 6) [0..<32]"
    "list_all (\<lambda>M. mmbit_keyshift_lut ! (31 - M) = 6 * (M div 6)) [0..<32]"
    by code_simp+
  then show "M \<le> 31 \<Longrightarrow> mmbit_maxlevel_direct_lut ! (31 - M) = M div 6"
    "M \<le> 31 \<Longrightarrow> mmbit_keyshift_lut ! (31 - M) = 6 * (M div 6)"
    by (simp_all add: list_all_iff)
qed

text \<open>The tree is used for sizes above 256; its depth is the least that has a leaf for every key.\<close>

abbreviation big_size :: "nat \<Rightarrow> bool" where
  "big_size n \<equiv> MMB_FLAT_MAX_BITS < n \<and> n \<le> MMB_MAX_BITS"

lemma maxlevel_bounds:
  assumes "big_size n"
  shows "1 \<le> mmbit_maxlevel n" "mmbit_maxlevel n \<le> 5" "n \<le> 64 ^ Suc (mmbit_maxlevel n)"
    "64 ^ mmbit_maxlevel n < n" "mmbit_keyshift n = 6 * mmbit_maxlevel n"
proof -
  define w where "w = (word_of_nat n - 1 :: u32)"
  have n: "256 < n" "n \<le> 2 ^ 31" using assms by (simp_all add: MMB_FLAT_MAX_BITS_def MMB_MAX_BITS_def)
  have "word_of_nat n - 1 = (word_of_nat (n - 1) :: u32)" using n by (simp add: of_nat_diff)
  then have w: "unat w = n - 1"
    unfolding w_def using n by (simp only: unat_of_nat) (simp add: take_bit_nat_eq_self)
  then have nz: "w \<noteq> 0" using n by auto
  define M where "M = Max (bitset w)"
  have M: "2 ^ M \<le> n - 1" "n - 1 < 2 ^ Suc M" using Max_bitset_bounds [OF nz] w by (simp_all add: M_def)
  have "M < 31"
  proof (rule ccontr)
    assume "\<not> M < 31"
    then have "(2 :: nat) ^ 31 \<le> 2 ^ M" by (intro power_increasing) auto
    then show False using M n by simp
  qed
  have "7 < M"
  proof (rule ccontr)
    assume "\<not> 7 < M"
    then have "(2 :: nat) ^ Suc M \<le> 2 ^ 8" by (intro power_increasing) auto
    then show False using M n by simp
  qed
  have ml: "mmbit_maxlevel n = M div 6" "mmbit_keyshift n = 6 * (M div 6)"
    using level_luts [of M] \<open>M < 31\<close> nz
    by (simp_all add: mmbit_maxlevel_def mmbit_keyshift_def w_def [symmetric] clz32_Max M_def [symmetric])
  show "1 \<le> mmbit_maxlevel n" "mmbit_maxlevel n \<le> 5" "mmbit_keyshift n = 6 * mmbit_maxlevel n"
    using ml \<open>M < 31\<close> \<open>7 < M\<close> by auto
  have p: "(64 :: nat) ^ i = 2 ^ (6 * i)" for i by (simp add: power_mult)
  have "(2 :: nat) ^ (6 * (M div 6)) \<le> 2 ^ M" "(2 :: nat) ^ Suc M \<le> 2 ^ (6 * Suc (M div 6))"
    by (intro power_increasing; simp)+
  then show "n \<le> 64 ^ Suc (mmbit_maxlevel n)" "64 ^ mmbit_maxlevel n < n"
    unfolding p ml using M n by linarith+
qed

text \<open>The first block of a level.\<close>

definition root :: "nat \<Rightarrow> nat" where
  "root l = (\<Sum>i < l. 64 ^ i)"

lemma root_Suc: "root (Suc l) = root l + 64 ^ l"
  by (simp add: root_def)

lemma root_offset:
  assumes "l \<le> 6"
  shows "mmbit_root_offset_from_level ! l = root l"
proof -
  have t: "mmbit_root_offset_from_level = [0, 1, 65, 4161, 266305, 17043521, 1090785345]"
    by (simp add: mmbit_root_offset_from_level_def MMB_consts)
  have r: "root 0 = 0" by (simp add: root_def)
  then have r1: "root 1 = 1" using root_Suc [of 0] by simp
  then have r2: "root 2 = 65" using root_Suc [of 1] by (simp add: numeral_2_eq_2)
  then have r3: "root 3 = 4161" using root_Suc [of 2] by simp
  then have r4: "root 4 = 266305" using root_Suc [of 3] by simp
  then have r5: "root 5 = 17043521" using root_Suc [of 4] by simp
  then have r6: "root 6 = 1090785345" using root_Suc [of 5] by simp
  have "l = 0 \<or> l = 1 \<or> l = 2 \<or> l = 3 \<or> l = 4 \<or> l = 5 \<or> l = 6" using assms by linarith
  then show ?thesis by (elim disjE) (simp_all add: t r r2 r3 r4 r5 r6 r1 [simplified])
qed

lemma root_less: "l < l' \<Longrightarrow> root l + 64 ^ l \<le> root l'"
proof (induction l')
  case (Suc l')
  then show ?case by (cases "l = l'") (auto simp: root_def)
qed simp

lemma root_disjoint:
  assumes "b < 64 ^ l" "b' < 64 ^ l'"
  shows "root l + b = root l' + b' \<longleftrightarrow> l = l' \<and> b = b'"
  using assms root_less [of l l'] root_less [of l' l] by (cases l l' rule: linorder_cases) auto

lemma block_eq: "y < 64 \<Longrightarrow> y' < 64 \<Longrightarrow> 64 * x + y = 64 * x' + (y' :: nat) \<longleftrightarrow> x = x' \<and> y = y'"
  by (metis div_mult_self4 mod_mult_self4 div_less mod_less add_0_right zero_neq_numeral)

text \<open>Bit \<open>j\<close> of a level, and the bit of a level that leads to a key.\<close>

definition lv :: "mem \<Rightarrow> nat \<Rightarrow> nat \<Rightarrow> bool" where
  "lv m l j = gbit m (64 * root l + j)"

definition anc :: "nat \<Rightarrow> nat \<Rightarrow> nat \<Rightarrow> nat" where
  "anc max_level l key = key div 64 ^ (max_level - l)"

lemma anc_less:
  assumes "key < 64 ^ Suc max_level" "l \<le> max_level"
  shows "anc max_level l key < 64 ^ Suc l" "anc max_level l key div 64 < 64 ^ l"
proof -
  have "Suc max_level = Suc l + (max_level - l)" using assms(2) by simp
  then have "key < 64 ^ Suc l * 64 ^ (max_level - l)" using assms(1) by (metis power_add)
  then show "anc max_level l key < 64 ^ Suc l" by (simp only: anc_def less_mult_imp_div_less)
  then show "anc max_level l key div 64 < 64 ^ l" by (simp add: less_mult_imp_div_less)
qed

lemma key_pieces:
  shows "mmbit_get_key_val max_level l key = anc max_level l key mod 64"
    "mmbit_get_key_val_byte max_level l key = anc max_level l key mod 8"
    "drop_bit (mmbit_get_ks max_level l + MMB_KEY_SHIFT) key = anc max_level l key div 64"
    "drop_bit (mmbit_get_ks max_level l + MMB_KEY_SHIFT - 3) key = anc max_level l key div 8"
proof -
  have p: "(2 :: nat) ^ (i * 6) = 64 ^ i" for i by (simp add: mult.commute [of i 6] power_mult)
  show "mmbit_get_key_val max_level l key = anc max_level l key mod 64"
    "mmbit_get_key_val_byte max_level l key = anc max_level l key mod 8"
    by (simp_all add: mmbit_get_key_val_def mmbit_get_key_val_byte_def mmbit_get_ks_def MMB_consts nat_and_masks
        drop_bit_eq_div p anc_def)
  show "drop_bit (mmbit_get_ks max_level l + MMB_KEY_SHIFT) key = anc max_level l key div 64"
    "drop_bit (mmbit_get_ks max_level l + MMB_KEY_SHIFT - 3) key = anc max_level l key div 8"
    by (simp_all add: mmbit_get_ks_def MMB_consts drop_bit_eq_div p anc_def power_add mult.commute [of _ "64 ^ _"]
        flip: div_mult2_eq)
qed

lemma level_root: "l \<le> 6 \<Longrightarrow> mmbit_get_level_root l = int (8 * root l)"
  by (simp add: mmbit_get_level_root_def root_offset)

lemma block_ptr: "l \<le> 6 \<Longrightarrow> mmbit_get_block_ptr max_level l key = int (8 * (root l + anc max_level l key div 64))"
  by (simp add: mmbit_get_block_ptr_def Let_def level_root key_pieces)

lemma byte_ptr: "l \<le> 6 \<Longrightarrow> mmbit_get_byte_ptr max_level l key = int (8 * root l + anc max_level l key div 8)"
  by (simp add: mmbit_get_byte_ptr_def Let_def level_root key_pieces)

lemma bit_load_block: "bit (mmb_load m (int (8 * (root l + b)))) k \<longleftrightarrow> k < 64 \<and> lv m l (64 * b + k)"
proof -
  have "8 * (8 * (root l + b)) + k = 64 * root l + (64 * b + k)" by simp
  then show ?thesis
    unfolding mmb_load_def unaligned_load_u64a_def bit_load_gbit lv_def by (simp only:) simp
qed

lemma test_block:
  "l \<le> 6 \<Longrightarrow> bit (mmb_load m (mmbit_get_block_ptr max_level l key)) (mmbit_get_key_val max_level l key)
     \<longleftrightarrow> lv m l (anc max_level l key)"
  unfolding block_ptr bit_load_block key_pieces by simp

lemma lv_store:
  assumes "b < 64 ^ l" "j < 64 ^ Suc l'"
  shows "lv (mmb_store m (int (8 * (root l + b))) v) l' j
    = (if l' = l \<and> j div 64 = b then bit v (j mod 64) else lv m l' j)"
proof -
  have g: "gbit (mmb_store m (int (8 * B)) v) i = (if i div 64 = B then bit v (i mod 64) else gbit m i)" for B i
  proof -
    have "8 * (8 * B) \<le> i \<and> i < 8 * (8 * B) + 8 * 8 \<longleftrightarrow> i div 64 = B" by linarith
    moreover have "i - 8 * (8 * B) = i mod 64" if "i div 64 = B" using that mult_div_mod_eq [of 64 i] by simp
    ultimately show ?thesis
      by (simp add: mmb_store_def unaligned_store_u64a_def gbit_store del: of_nat_mult)
  qed
  have "j div 64 < 64 ^ l'" using assms(2) by (simp add: less_mult_imp_div_less)
  then have "(64 * root l' + j) div 64 = root l + b \<longleftrightarrow> l' = l \<and> j div 64 = b"
    using root_disjoint [OF _ assms(1), of "j div 64" l'] by simp
  moreover have "(64 * root l' + j) mod 64 = j mod 64" by simp
  ultimately show ?thesis unfolding lv_def g by (simp only:)
qed

lemma lv_set_byte:
  assumes "anc max_level l key < 64 ^ Suc l" "l \<le> 6" "j < 64 ^ Suc l'"
  defines "p \<equiv> mmbit_get_byte_ptr max_level l key" and "r \<equiv> mmbit_get_key_val_byte max_level l key"
  shows "lv (m(p := m p OR push_bit r 1)) l' j \<longleftrightarrow> lv m l' j \<or> (l' = l \<and> j = anc max_level l key)"
    and "m p AND push_bit r 1 = 0 \<longleftrightarrow> \<not> lv m l (anc max_level l key)"
proof -
  define a where "a = anc max_level l key"
  have r: "r = a mod 8" "r < 8" by (simp_all add: r_def a_def key_pieces)
  have p: "p = int (8 * root l + a div 8)" using assms(2) by (simp add: p_def a_def byte_ptr)
  have "64 * root l' + j = 8 * (8 * root l + a div 8) + a mod 8 \<longleftrightarrow> root l' + j div 64 = root l + a div 64 \<and> j mod 64 = a mod 64"
  proof -
    have "8 * (8 * root l + a div 8) + a mod 8 = 64 * root l + a" by simp
    moreover have "64 * root l' + j = 64 * (root l' + j div 64) + j mod 64" "64 * root l + a = 64 * (root l + a div 64) + a mod 64"
      by simp_all
    ultimately show ?thesis using block_eq [of "j mod 64" "a mod 64" "root l' + j div 64" "root l + a div 64"] by (simp only: mod_less_divisor zero_less_numeral)
  qed
  also have "\<dots> \<longleftrightarrow> l' = l \<and> j = a"
  proof -
    have "j div 64 < 64 ^ l'" "a div 64 < 64 ^ l" using assms(1,3) by (simp_all add: less_mult_imp_div_less a_def)
    then have "root l' + j div 64 = root l + a div 64 \<longleftrightarrow> l' = l \<and> j div 64 = a div 64" by (rule root_disjoint)
    then show ?thesis by (metis div_mult_mod_eq)
  qed
  finally have place: "64 * root l' + j = 8 * (8 * root l + a div 8) + r \<longleftrightarrow> l' = l \<and> j = a" by (simp add: r)
  show "lv (m(p := m p OR push_bit r 1)) l' j \<longleftrightarrow> lv m l' j \<or> (l' = l \<and> j = anc max_level l key)"
    unfolding p lv_def gbit_set_byte [OF r(2)] a_def [symmetric] place ..
  define B where "B = 8 * root l + a div 8"
  have e: "64 * root l + a = 8 * B + r" by (simp add: r B_def)
  have d: "(8 * B + r) div 8 = B" "(8 * B + r) mod 8 = r" using r(2) by simp_all
  have "gbit m (64 * root l + a) = bit (m p) r" unfolding e gbit_def p d B_def [symmetric] ..
  then show "m p AND push_bit r 1 = 0 \<longleftrightarrow> \<not> lv m l (anc max_level l key)"
    unfolding and_byte_single [OF r(2)] by (simp add: lv_def a_def)
qed

section \<open>Lemmas: operations on the tree\<close>

lemma anc_simps:
  "anc max_level max_level key = key"
  "l < max_level \<Longrightarrow> anc max_level (Suc l) key div 64 = anc max_level l key"
proof -
  show "anc max_level max_level key = key" by (simp add: anc_def)
  assume "l < max_level"
  then have "max_level - l = Suc (max_level - Suc l)" by simp
  then show "anc max_level (Suc l) key div 64 = anc max_level l key"
    by (simp add: anc_def div_mult2_eq [symmetric] mult.commute)
qed

lemma anc_eq_above:
  assumes "anc max_level d k = anc max_level d k'" "l \<le> d" "d \<le> max_level"
  shows "anc max_level l k = anc max_level l k'"
proof -
  have "anc max_level l x = anc max_level d x div 64 ^ (d - l)" for x
  proof -
    have "max_level - l = (max_level - d) + (d - l)" using assms by simp
    then show ?thesis by (simp add: anc_def power_add div_mult2_eq)
  qed
  then show ?thesis using assms(1) by simp
qed

text \<open>A key is in the tree if all the bits on its path are on.\<close>

definition on_path :: "mem \<Rightarrow> nat \<Rightarrow> nat \<Rightarrow> bool" where
  "on_path m max_level key = (\<forall>l \<le> max_level. lv m l (anc max_level l key))"

lemma all_from_level:
  assumes "level \<le> n"
  shows "(\<forall>l. level \<le> l \<and> l \<le> n \<longrightarrow> P l) \<longleftrightarrow> P level \<and> (\<forall>l. Suc level \<le> l \<and> l \<le> n \<longrightarrow> P l)"
proof (intro iffI conjI allI impI)
  fix l
  assume "P level \<and> (\<forall>l. Suc level \<le> l \<and> l \<le> n \<longrightarrow> P l)" "level \<le> l \<and> l \<le> n"
  then show "P l" by (cases "l = level") auto
qed (use assms in auto)

lemma isset_big_loop_path:
  "level \<le> max_level \<Longrightarrow> max_level \<le> 6 \<Longrightarrow>
     isset_big_loop m max_level key level \<longleftrightarrow> (\<forall>l. level \<le> l \<and> l \<le> max_level \<longrightarrow> lv m l (anc max_level l key))"
proof (induction m max_level key level rule: isset_big_loop.induct)
  case (1 m max_level key level)
  note split = all_from_level [OF 1(2)]
  have l6: "level \<le> 6" using 1(2,3) by simp
  show ?case
  proof (cases "lv m level (anc max_level level key) \<and> level < max_level")
    case True
    have "isset_big_loop m max_level key level = isset_big_loop m max_level key (Suc level)"
      using True l6 by (subst isset_big_loop.simps) (simp add: test_block)
    then show ?thesis using 1(1) [OF refl] True 1(3) l6 unfolding split by (simp add: test_block)
  next
    case False
    have eq: "isset_big_loop m max_level key level \<longleftrightarrow> lv m level (anc max_level level key)"
      using False l6 by (subst isset_big_loop.simps) (auto simp: test_block Let_def)
    show ?thesis
    proof (cases "lv m level (anc max_level level key)")
      case True
      then have "\<not> (Suc level \<le> l \<and> l \<le> max_level)" for l using False by simp
      then show ?thesis unfolding split eq using True by blast
    qed (unfold split eq, simp)
  qed
qed

lemma isset_big_path: "big_size n \<Longrightarrow> mmbit_isset_big m n key \<longleftrightarrow> on_path m (mmbit_maxlevel n) key"
  using maxlevel_bounds [of n] by (simp add: mmbit_isset_big_def isset_big_loop_path on_path_def)

text \<open>Storing the blocks below a level.\<close>

lemma store_path:
  assumes "max_level \<le> 6" "key < 64 ^ Suc max_level" "j < 64 ^ Suc l'" "e \<le> max_level"
  shows "lv (foldl (\<lambda>m level. mmb_store m (mmbit_get_block_ptr max_level level key)
                     (mmb_single_bit (mmbit_get_key_val max_level level key))) m [Suc d..<Suc e]) l' j
    = (if d < l' \<and> l' \<le> e \<and> j div 64 = anc max_level l' key div 64 then j = anc max_level l' key else lv m l' j)"
    (is "lv (foldl ?st m _) l' j = _")
  using assms(4)
proof (induction e)
  case (Suc e)
  show ?case
  proof (cases "d \<le> e")
    case True
    define m1 where "m1 = foldl ?st m [Suc d..<Suc e]"
    have e6: "Suc e \<le> 6" using Suc.prems assms(1) by simp
    have "anc max_level (Suc e) key div 64 < 64 ^ Suc e" using anc_less(2) [OF assms(2) Suc.prems] .
    from lv_store [OF this assms(3)]
    have "lv (foldl ?st m [Suc d..<Suc (Suc e)]) l' j
        = (if l' = Suc e \<and> j div 64 = anc max_level (Suc e) key div 64
           then bit (mmb_single_bit (anc max_level (Suc e) key mod 64)) (j mod 64) else lv m1 l' j)"
      using True block_ptr [OF e6, of max_level key] by (simp add: m1_def key_pieces(1))
    moreover have "bit (mmb_single_bit (anc max_level (Suc e) key mod 64)) (j mod 64) \<longleftrightarrow> j = anc max_level (Suc e) key"
      if "j div 64 = anc max_level (Suc e) key div 64"
      using that unfolding bit_single_bit by (metis div_mult_mod_eq mod_less_divisor zero_less_numeral)
    ultimately show ?thesis using Suc.IH Suc.prems True by (auto simp: m1_def le_Suc_eq)
  next
    case False
    then have "[Suc d..<Suc (Suc e)] = []" by simp
    then show ?thesis using False by (auto simp del: upt_Suc)
  qed
qed auto

lemma set_big_loop_spec:
  assumes "level \<le> max_level" "max_level \<le> 6" "key < 64 ^ Suc max_level"
  shows "(\<forall>l. level \<le> l \<and> l \<le> max_level \<longrightarrow> lv m l (anc max_level l key)) \<and> set_big_loop m max_level key level = (m, True)
    \<or> (\<exists>d m'. level \<le> d \<and> d \<le> max_level \<and> (\<forall>l. level \<le> l \<and> l < d \<longrightarrow> lv m l (anc max_level l key))
        \<and> \<not> lv m d (anc max_level d key) \<and> set_big_loop m max_level key level = (m', False)
        \<and> (\<forall>l' j. j < 64 ^ Suc l' \<longrightarrow> lv m' l' j =
            (if d < l' \<and> l' \<le> max_level \<and> j div 64 = anc max_level l' key div 64 then j = anc max_level l' key
             else lv m l' j \<or> (l' = d \<and> j = anc max_level d key))))"
  using assms
proof (induction m max_level key level rule: set_big_loop.induct)
  case (1 m max_level key level)
  define p where "p = mmbit_get_byte_ptr max_level level key"
  define bt where "bt = (push_bit (mmbit_get_key_val_byte max_level level key) 1 :: u8)"
  have l6: "level \<le> 6" using 1(2,3) by simp
  note a = anc_less(1) [OF 1(4) 1(2)]
  note byte = lv_set_byte [OF a l6, of _ _ m, folded p_def bt_def]
  show ?case
  proof (cases "lv m level (anc max_level level key)")
    case False
    define m1 where "m1 = m(p := m p OR bt)"
    define m' where "m' = foldl (\<lambda>m level. mmb_store m (mmbit_get_block_ptr max_level level key)
                     (mmb_single_bit (mmbit_get_key_val max_level level key))) m1 [Suc level..<Suc max_level]"
    have "m p AND bt = 0" using byte(2) [of 0 0] False by simp
    then have "set_big_loop m max_level key level = (m', False)"
      by (subst set_big_loop.simps) (simp add: Let_def p_def [symmetric] bt_def [symmetric] m1_def m'_def del: upt_Suc push_bit_of_1)
    moreover have "lv m' l' j =
            (if level < l' \<and> l' \<le> max_level \<and> j div 64 = anc max_level l' key div 64 then j = anc max_level l' key
             else lv m l' j \<or> (l' = level \<and> j = anc max_level level key))" if "j < 64 ^ Suc l'" for l' j
      unfolding m'_def store_path [OF 1(3,4) that order_refl] using byte(1) [OF that] by (simp add: m1_def)
    ultimately show ?thesis using False 1(2) by (intro disjI2 exI [of _ level] exI [of _ m']) auto
  next
    case True
    then have on: "m p AND bt \<noteq> 0" using byte(2) [of 0 0] by simp
    show ?thesis
    proof (cases "level < max_level")
      case False
      then have "set_big_loop m max_level key level = (m, True)"
        using on by (subst set_big_loop.simps) (simp add: Let_def p_def [symmetric] bt_def [symmetric] del: push_bit_of_1)
      moreover have "l = level" if "level \<le> l \<and> l \<le> max_level" for l using that False by simp
      ultimately show ?thesis using True by blast
    next
      case less: True
      have s: "set_big_loop m max_level key level = set_big_loop m max_level key (Suc level)"
        using on less by (subst set_big_loop.simps) (simp add: Let_def p_def [symmetric] bt_def [symmetric] del: push_bit_of_1)
      have IH: "(\<forall>l. Suc level \<le> l \<and> l \<le> max_level \<longrightarrow> lv m l (anc max_level l key)) \<and> set_big_loop m max_level key (Suc level) = (m, True)
    \<or> (\<exists>d m'. Suc level \<le> d \<and> d \<le> max_level \<and> (\<forall>l. Suc level \<le> l \<and> l < d \<longrightarrow> lv m l (anc max_level l key))
        \<and> \<not> lv m d (anc max_level d key) \<and> set_big_loop m max_level key (Suc level) = (m', False)
        \<and> (\<forall>l' j. j < 64 ^ Suc l' \<longrightarrow> lv m' l' j =
            (if d < l' \<and> l' \<le> max_level \<and> j div 64 = anc max_level l' key div 64 then j = anc max_level l' key
             else lv m l' j \<or> (l' = d \<and> j = anc max_level d key))))"
        using 1(1) [OF refl refl refl] on less 1(3,4) by (simp add: bt_def p_def del: push_bit_of_1)
      from IH show ?thesis
      proof
        assume "(\<forall>l. Suc level \<le> l \<and> l \<le> max_level \<longrightarrow> lv m l (anc max_level l key))
          \<and> set_big_loop m max_level key (Suc level) = (m, True)"
        then show ?thesis unfolding s all_from_level [OF 1(2)] using True by blast
      next
        assume "\<exists>d m'. Suc level \<le> d \<and> d \<le> max_level \<and> (\<forall>l. Suc level \<le> l \<and> l < d \<longrightarrow> lv m l (anc max_level l key))
        \<and> \<not> lv m d (anc max_level d key) \<and> set_big_loop m max_level key (Suc level) = (m', False)
        \<and> (\<forall>l' j. j < 64 ^ Suc l' \<longrightarrow> lv m' l' j =
            (if d < l' \<and> l' \<le> max_level \<and> j div 64 = anc max_level l' key div 64 then j = anc max_level l' key
             else lv m l' j \<or> (l' = d \<and> j = anc max_level d key)))"
        then obtain d m' where d: "Suc level \<le> d" "d \<le> max_level" "\<forall>l. Suc level \<le> l \<and> l < d \<longrightarrow> lv m l (anc max_level l key)"
          "\<not> lv m d (anc max_level d key)" "set_big_loop m max_level key (Suc level) = (m', False)"
          "\<forall>l' j. j < 64 ^ Suc l' \<longrightarrow> lv m' l' j =
            (if d < l' \<and> l' \<le> max_level \<and> j div 64 = anc max_level l' key div 64 then j = anc max_level l' key
             else lv m l' j \<or> (l' = d \<and> j = anc max_level d key))"
          by blast
        have "lv m l (anc max_level l key)" if "level \<le> l" "l < d" for l
          using d(3) that True by (cases "l = level") auto
        moreover have "level \<le> d" using d(1) by simp
        ultimately show ?thesis unfolding s using d(2,4,5,6) by blast
      qed
    qed
  qed
qed

lemma key_bound: "big_size n \<Longrightarrow> key < n \<Longrightarrow> key < 64 ^ Suc (mmbit_maxlevel n)"
  using less_le_trans maxlevel_bounds(3) by blast

text \<open>The bits on the path to a key, down to a level: a set makes those of its key, and no others.\<close>

definition on_prefix :: "mem \<Rightarrow> nat \<Rightarrow> nat \<Rightarrow> nat \<Rightarrow> bool" where
  "on_prefix m max_level l key = (\<forall>l' \<le> l. lv m l' (anc max_level l' key))"

lemma on_prefix_path: "on_prefix m max_level max_level key \<longleftrightarrow> on_path m max_level key"
  by (simp add: on_prefix_def on_path_def)

lemma set_big_prefix:
  assumes "big_size n" "key < n"
  defines "mx \<equiv> mmbit_maxlevel n"
  assumes k: "k < 64 ^ Suc mx" and l: "l \<le> mx"
  shows "on_prefix (fst (mmbit_set_big m n key)) mx l k \<longleftrightarrow> on_prefix m mx l k \<or> anc mx l k = anc mx l key"
    and "snd (mmbit_set_big m n key) \<longleftrightarrow> on_path m mx key"
proof -
  have mx: "0 \<le> mx" "mx \<le> 6" using maxlevel_bounds(2) [OF assms(1)] by (simp_all add: mx_def)
  have key: "key < 64 ^ Suc mx" using key_bound assms by (simp add: mx_def)
  have call: "mmbit_set_big m n key = set_big_loop m mx key 0" by (simp add: mmbit_set_big_def mx_def)
  have "(on_prefix (fst (mmbit_set_big m n key)) mx l k \<longleftrightarrow> on_prefix m mx l k \<or> anc mx l k = anc mx l key)
    \<and> (snd (mmbit_set_big m n key) \<longleftrightarrow> on_path m mx key)"
    using set_big_loop_spec [OF mx key, of m]
  proof
    assume full: "(\<forall>l. 0 \<le> l \<and> l \<le> mx \<longrightarrow> lv m l (anc mx l key)) \<and> set_big_loop m mx key 0 = (m, True)"
    then have "on_prefix m mx l k" if "anc mx l k = anc mx l key"
      using anc_eq_above [OF that _ l] l by (simp add: on_prefix_def)
    then show ?thesis using full call by (auto simp: on_path_def)
  next
    assume "\<exists>d m'. 0 \<le> d \<and> d \<le> mx \<and> (\<forall>l. 0 \<le> l \<and> l < d \<longrightarrow> lv m l (anc mx l key))
        \<and> \<not> lv m d (anc mx d key) \<and> set_big_loop m mx key 0 = (m', False)
        \<and> (\<forall>l' j. j < 64 ^ Suc l' \<longrightarrow> lv m' l' j =
            (if d < l' \<and> l' \<le> mx \<and> j div 64 = anc mx l' key div 64 then j = anc mx l' key
             else lv m l' j \<or> (l' = d \<and> j = anc mx d key)))"
    then obtain d m' where d: "d \<le> mx" "\<forall>l < d. lv m l (anc mx l key)" "\<not> lv m d (anc mx d key)"
      and res: "set_big_loop m mx key 0 = (m', False)"
      and tree: "\<And>l' j. j < 64 ^ Suc l' \<Longrightarrow> lv m' l' j =
            (if d < l' \<and> l' \<le> mx \<and> j div 64 = anc mx l' key div 64 then j = anc mx l' key
             else lv m l' j \<or> (l' = d \<and> j = anc mx d key))"
      by blast
    have off: "\<not> on_path m mx key" using d(1,3) by (auto simp: on_path_def)
    have bits: "lv m' l (anc mx l k) =
        (if d < l \<and> anc mx (l - 1) k = anc mx (l - 1) key then anc mx l k = anc mx l key
         else lv m l (anc mx l k) \<or> (l = d \<and> anc mx d k = anc mx d key))" if "l \<le> mx" for l
    proof -
      have up: "anc mx l x div 64 = anc mx (l - 1) x" if "d < l" for x
        using anc_simps(2) [of "l - 1" mx x] that \<open>l \<le> mx\<close> by simp
      show ?thesis
      proof (cases "d < l")
        case True
        show ?thesis using tree [OF anc_less(1) [OF k that]] that True
          unfolding up [OF True] by simp
      qed (use tree [OF anc_less(1) [OF k that]] that in auto)
    qed
    consider (above) "l < d" | (same) "d \<le> l" "anc mx d k = anc mx d key" | (differ) "d \<le> l" "anc mx d k \<noteq> anc mx d key"
      by linarith
    then have "on_prefix m' mx l k \<longleftrightarrow> on_prefix m mx l k \<or> anc mx l k = anc mx l key"
    proof cases
      case above
      have "lv m' l' (anc mx l' k) = lv m l' (anc mx l' k)" if "l' \<le> l" for l'
        using bits [of l'] above that l by simp
      moreover have "on_prefix m mx l k" if "anc mx l k = anc mx l key"
        using anc_eq_above [OF that _ l] d(2) above by (simp add: on_prefix_def)
      ultimately show ?thesis by (auto simp: on_prefix_def)
    next
      case same
      have "\<not> on_prefix m mx l k" using d(3) same by (auto simp: on_prefix_def)
      moreover have "on_prefix m' mx l k \<longleftrightarrow> anc mx l k = anc mx l key"
      proof
        assume eq: "anc mx l k = anc mx l key"
        have "lv m' l' (anc mx l' k)" if "l' \<le> l" for l'
        proof -
          have e: "anc mx l' k = anc mx l' key" "anc mx (l' - 1) k = anc mx (l' - 1) key"
            using anc_eq_above [OF eq _ l] that by simp_all
          then show ?thesis using bits [of l'] that l d(2) same(2) by (cases l' d rule: linorder_cases) auto
        qed
        then show "on_prefix m' mx l k" by (simp add: on_prefix_def)
      next
        assume on: "on_prefix m' mx l k"
        have "anc mx (d + i) k = anc mx (d + i) key" if "d + i \<le> l" for i
          using that
        proof (induction i)
          case (Suc i)
          then have "lv m' (d + Suc i) (anc mx (d + Suc i) k)" using on by (simp add: on_prefix_def)
          then show ?case using bits [of "d + Suc i"] Suc l by simp
        qed (use same in simp)
        from this [of "l - d"] show "anc mx l k = anc mx l key" using same(1) by simp
      qed
      ultimately show ?thesis by blast
    next
      case differ
      have diff: "anc mx l' k \<noteq> anc mx l' key" if "d \<le> l'" "l' \<le> mx" for l'
        using anc_eq_above [of mx l' k key d] that differ(2) by blast
      have "lv m' l' (anc mx l' k) = lv m l' (anc mx l' k)" if "l' \<le> l" for l'
      proof -
        have "l' \<le> mx" using that l by simp
        moreover have "anc mx (l' - 1) k \<noteq> anc mx (l' - 1) key" if "d < l'"
          by (rule diff) (use that \<open>l' \<le> mx\<close> in linarith)+
        ultimately show ?thesis using bits [of l'] differ(2) by auto
      qed
      then show ?thesis using diff [OF differ(1) l] by (simp add: on_prefix_def)
    qed
    then show ?thesis using off call res by simp
  qed
  then show "on_prefix (fst (mmbit_set_big m n key)) mx l k \<longleftrightarrow> on_prefix m mx l k \<or> anc mx l k = anc mx l key"
    "snd (mmbit_set_big m n key) \<longleftrightarrow> on_path m mx key" by blast+
qed

lemma set_big_spec:
  assumes "big_size n" "key < n" "k < n"
  shows "snd (mmbit_set_big m n key) \<longleftrightarrow> mmbit_isset_big m n key"
    and "mmbit_isset_big (fst (mmbit_set_big m n key)) n k \<longleftrightarrow> mmbit_isset_big m n k \<or> k = key"
  using set_big_prefix [OF assms(1,2) key_bound [OF assms(1,3)] order_refl]
  by (simp_all add: isset_big_path [OF assms(1)] on_prefix_path anc_simps)

lemma unset_big_loop_spec:
  assumes "level \<le> max_level" "max_level \<le> 6" "key < 64 ^ Suc max_level" "j < 64 ^ Suc l'"
  shows "lv (unset_big_loop m max_level key level) l' j \<longleftrightarrow>
    lv m l' j \<and> \<not> (l' = max_level \<and> j = key \<and> (\<forall>l. level \<le> l \<and> l \<le> max_level \<longrightarrow> lv m l (anc max_level l key)))"
  using assms
proof (induction m max_level key level rule: unset_big_loop.induct)
  case (1 m max_level key level)
  have l6: "level \<le> 6" using 1(2,3) by simp
  note a = anc_less [OF 1(4) 1(2)]
  consider (off) "\<not> lv m level (anc max_level level key)" | (down) "lv m level (anc max_level level key)" "level < max_level"
    | (leaf) "lv m level (anc max_level level key)" "level = max_level" using 1(2) by linarith
  then show ?case
  proof cases
    case off
    then have "unset_big_loop m max_level key level = m"
      using l6 by (subst unset_big_loop.simps) (simp add: test_block Let_def)
    then show ?thesis using off 1(2) by auto
  next
    case down
    then have "unset_big_loop m max_level key level = unset_big_loop m max_level key (Suc level)"
      using l6 by (subst unset_big_loop.simps) (simp add: test_block Let_def)
    moreover have "lv (unset_big_loop m max_level key (Suc level)) l' j \<longleftrightarrow>
      lv m l' j \<and> \<not> (l' = max_level \<and> j = key \<and> (\<forall>l. Suc level \<le> l \<and> l \<le> max_level \<longrightarrow> lv m l (anc max_level l key)))"
      using 1(1) [OF refl refl refl] down l6 1(3,4,5) by (simp add: test_block)
    ultimately show ?thesis unfolding all_from_level [OF 1(2)] using down(1) by simp
  next
    case leaf
    define p where "p = mmbit_get_block_ptr max_level level key"
    have p: "p = int (8 * (root level + key div 64))" using leaf(2) using block_ptr [OF l6, of max_level key] by (simp add: p_def anc_simps)
    have "unset_big_loop m max_level key level = mmb_store m p (mmb_clear (mmb_load m p) (key mod 64))"
      using test_block [OF l6, of m max_level key] leaf
      by (subst unset_big_loop.simps) (simp add: Let_def p_def key_pieces anc_simps)
    moreover have "key div 64 < 64 ^ level" using a(2) leaf(2) by (simp add: anc_simps)
    ultimately have "lv (unset_big_loop m max_level key level) l' j
        = (if l' = level \<and> j div 64 = key div 64 then bit (mmb_clear (mmb_load m p) (key mod 64)) (j mod 64) else lv m l' j)"
      using lv_store [of "key div 64" level j l' m] 1(5) p by simp
    also have "\<dots> \<longleftrightarrow> lv m l' j \<and> \<not> (l' = max_level \<and> j = key)"
    proof -
      have "bit (mmb_load m p) (j mod 64) \<longleftrightarrow> lv m level j" if "j div 64 = key div 64"
        unfolding p bit_load_block by (simp flip: that)
      moreover have "j mod 64 = key mod 64 \<longleftrightarrow> j = key" if "j div 64 = key div 64"
        using that by (metis div_mult_mod_eq)
      ultimately show ?thesis using leaf(2) by (auto simp: bit_mmb_clear)
    qed
    also have "\<dots> \<longleftrightarrow> lv m l' j \<and> \<not> (l' = max_level \<and> j = key \<and> (\<forall>l. level \<le> l \<and> l \<le> max_level \<longrightarrow> lv m l (anc max_level l key)))"
      using leaf by (auto simp: le_antisym)
    finally show ?thesis .
  qed
qed

lemma unset_big_spec:
  assumes "big_size n" "key < n" "k < n"
  shows "mmbit_isset_big (mmbit_unset_big m n key) n k \<longleftrightarrow> mmbit_isset_big m n k \<and> k \<noteq> key"
proof -
  define mx where "mx = mmbit_maxlevel n"
  have mx: "0 \<le> mx" "mx \<le> 6" using maxlevel_bounds(2) [OF assms(1)] by (simp_all add: mx_def)
  have key: "key < 64 ^ Suc mx" and k: "k < 64 ^ Suc mx" using key_bound assms by (simp_all add: mx_def)
  have "lv (mmbit_unset_big m n key) l (anc mx l k) \<longleftrightarrow>
      lv m l (anc mx l k) \<and> \<not> (l = mx \<and> k = key \<and> on_path m mx key)" if "l \<le> mx" for l
    using unset_big_loop_spec [OF mx key anc_less(1) [OF k that], of m]
    by (auto simp: mmbit_unset_big_def mx_def [symmetric] anc_simps on_path_def)
  then show ?thesis
    unfolding isset_big_path [OF assms(1), folded mx_def] on_path_def by blast
qed

section \<open>Stores of keys\<close>

text \<open>
  What the users of a multibit rely on: setting, unsetting and clearing act on the set of keys, whatever
  the memory held before.
\<close>

datatype mm_op = MmSet nat | MmUnset nat | MmClear

fun op_ok :: "nat \<Rightarrow> mm_op \<Rightarrow> bool" where
  "op_ok n (MmSet k) = (k < n)"
| "op_ok n (MmUnset k) = (k < n)"
| "op_ok n MmClear = True"

fun set_op :: "nat set \<Rightarrow> mm_op \<Rightarrow> nat set" where
  "set_op A (MmSet k) = insert k A"
| "set_op A (MmUnset k) = A - {k}"
| "set_op A MmClear = {}"

locale key_store =
  fixes fits :: "nat \<Rightarrow> bool"
    and isset :: "mem \<Rightarrow> nat \<Rightarrow> nat \<Rightarrow> bool"
    and set_key :: "mem \<Rightarrow> nat \<Rightarrow> nat \<Rightarrow> mem \<times> bool"
    and unset_key :: "mem \<Rightarrow> nat \<Rightarrow> nat \<Rightarrow> mem"
    and clear_all :: "mem \<Rightarrow> nat \<Rightarrow> mem"
  assumes isset_set: "fits n \<Longrightarrow> key < n \<Longrightarrow> k < n \<Longrightarrow> isset (fst (set_key m n key)) n k \<longleftrightarrow> isset m n k \<or> k = key"
    and was_set: "fits n \<Longrightarrow> key < n \<Longrightarrow> snd (set_key m n key) \<longleftrightarrow> isset m n key"
    and isset_unset: "fits n \<Longrightarrow> key < n \<Longrightarrow> k < n \<Longrightarrow> isset (unset_key m n key) n k \<longleftrightarrow> isset m n k \<and> k \<noteq> key"
    and isset_clear: "fits n \<Longrightarrow> k < n \<Longrightarrow> \<not> isset (clear_all m n) n k"
begin

lemma keys_set: "fits n \<Longrightarrow> key < n \<Longrightarrow> {k. k < n \<and> isset (fst (set_key m n key)) n k} = insert key {k. k < n \<and> isset m n k}"
  using isset_set by auto

lemma keys_unset: "fits n \<Longrightarrow> key < n \<Longrightarrow> {k. k < n \<and> isset (unset_key m n key) n k} = {k. k < n \<and> isset m n k} - {key}"
  using isset_unset by auto

lemma keys_clear: "fits n \<Longrightarrow> {k. k < n \<and> isset (clear_all m n) n k} = {}"
  using isset_clear by auto

lemma keys_run:
  assumes "fits n" "\<forall>x \<in> set ops. op_ok n x"
  shows "{k. k < n \<and> isset (foldl (\<lambda>m x. case x of MmSet k \<Rightarrow> fst (set_key m n k)
      | MmUnset k \<Rightarrow> unset_key m n k | MmClear \<Rightarrow> clear_all m n) m ops) n k}
    = foldl set_op {k. k < n \<and> isset m n k} ops"
  using assms(2)
proof (induction ops arbitrary: m)
  case (Cons x ops)
  then show ?case using assms(1) by (cases x) (simp_all add: keys_set keys_unset keys_clear)
qed simp

end

lemma isset_flat_gbit: "mmbit_isset_flat m k \<longleftrightarrow> gbit m k"
  by (simp add: mmbit_isset_flat_def and_byte_single gbit_def mmbit_flat_select_byte_def del: push_bit_of_1)

lemma byte_place: "8 * (k div 8) + k mod 8 = (k :: nat)" "k mod 8 < 8"
  by simp_all

lemma set_flat_gbit:
  "gbit (fst (mmbit_set_flat m key)) i \<longleftrightarrow> gbit m i \<or> i = key" "snd (mmbit_set_flat m key) \<longleftrightarrow> gbit m key"
proof -
  show "gbit (fst (mmbit_set_flat m key)) i \<longleftrightarrow> gbit m i \<or> i = key"
    using gbit_set_byte [OF byte_place(2), of m "key div 8" key i]
    by (simp add: mmbit_set_flat_def Let_def mmbit_flat_select_byte_def del: push_bit_of_1)
  show "snd (mmbit_set_flat m key) \<longleftrightarrow> gbit m key"
    by (simp add: mmbit_set_flat_def Let_def mmbit_flat_select_byte_def and_byte_single gbit_def del: push_bit_of_1)
qed

lemma unset_flat_gbit: "gbit (mmbit_unset_flat m key) i \<longleftrightarrow> gbit m i \<and> i \<noteq> key"
  using gbit_clear_byte [OF byte_place(2), of m "key div 8" key i]
  by (simp add: mmbit_unset_flat_def Let_def mmbit_flat_select_byte_def del: push_bit_of_1)

lemma flat_size_bounds: "n \<le> 8 * mmbit_flat_size n" "8 * mmbit_flat_size n < n + 8"
  by (simp_all add: mmbit_flat_size_def ROUNDUP_N_def)

lemma clear_bytes:
  "foldl (\<lambda>m i. m(int i := 0)) m [0..<s] a = (if 0 \<le> a \<and> a < int s then 0 else m a)" for m :: mem
  by (induction s) auto

interpretation flat: key_store "\<lambda>n. n \<le> MMB_FLAT_MAX_BITS" "\<lambda>m n. mmbit_isset_flat m" "\<lambda>m n. mmbit_set_flat m"
  "\<lambda>m n. mmbit_unset_flat m" mmbit_clear
proof
  fix n k :: nat and m
  assume n: "n \<le> MMB_FLAT_MAX_BITS" "k < n"
  have "k div 8 < mmbit_flat_size n" using n(2) flat_size_bounds(1) [of n] by linarith
  then show "\<not> mmbit_isset_flat (mmbit_clear m n) k"
    using n by (simp add: isset_flat_gbit mmbit_clear_def mmbit_is_flat_model_def gbit_def clear_bytes)
qed (simp_all add: isset_flat_gbit set_flat_gbit unset_flat_gbit)

interpretation tree: key_store big_size mmbit_isset_big mmbit_set_big mmbit_unset_big mmbit_clear
proof
  fix n k :: nat and m
  assume n: "big_size n" "k < n"
  have "lv (mmb_store m 0 0) 0 j \<longleftrightarrow> False" if "j < 64" for j
    using lv_store [of 0 0 j 0 m 0] that by (simp add: root_def)
  moreover have "anc (mmbit_maxlevel n) 0 k < 64"
    using anc_less(1) [OF key_bound [OF n], of 0] by simp
  ultimately have "\<not> on_path (mmb_store m 0 0) (mmbit_maxlevel n) k" by (auto simp: on_path_def)
  then show "\<not> mmbit_isset_big (mmbit_clear m n) n k"
    using n by (simp add: isset_big_path mmbit_clear_def mmbit_is_flat_model_def)
qed (simp_all add: set_big_spec unset_big_spec)

interpretation mm: key_store "\<lambda>n. n \<le> MMB_MAX_BITS" mmbit_isset mmbit_set mmbit_unset mmbit_clear
proof
  fix n key k :: nat and m
  assume n: "n \<le> MMB_MAX_BITS"
  show "mmbit_isset (fst (mmbit_set m n key)) n k \<longleftrightarrow> mmbit_isset m n k \<or> k = key" if "key < n" "k < n"
    using n that flat.isset_set [of n key k m] tree.isset_set [of n key k m]
    by (simp add: mmbit_isset_def mmbit_set_def mmbit_set_i_def mmbit_is_flat_model_def)
  show "snd (mmbit_set m n key) \<longleftrightarrow> mmbit_isset m n key" if "key < n"
    using n that flat.was_set [of n key m] tree.was_set [of n key m]
    by (simp add: mmbit_isset_def mmbit_set_def mmbit_set_i_def mmbit_is_flat_model_def)
  show "mmbit_isset (mmbit_unset m n key) n k \<longleftrightarrow> mmbit_isset m n k \<and> k \<noteq> key" if "key < n" "k < n"
    using n that flat.isset_unset [of n key k m] tree.isset_unset [of n key k m]
    by (simp add: mmbit_isset_def mmbit_unset_def mmbit_is_flat_model_def)
  show "\<not> mmbit_isset (mmbit_clear m n) n k" if "k < n"
    using n that flat.isset_clear [of n k m] tree.isset_clear [of n k m]
    by (simp add: mmbit_isset_def mmbit_is_flat_model_def)
qed

section \<open>Lemmas: the memory in use\<close>

lemma mmbit_size_big:
  assumes "big_size n"
  shows "mmbit_size n = Some (8 * (root (mmbit_maxlevel n) + (n + 63) div 64))"
proof -
  define mx where "mx = mmbit_maxlevel n"
  define b where "b = (\<lambda>(current_level :: nat, total :: nat). current_level * MMB_KEY_BITS < n)"
  define c where "c = (\<lambda>(current_level :: nat, total). (push_bit MMB_KEY_SHIFT current_level, total + current_level))"
  have c_at: "c (64 ^ i, root i) = (64 ^ Suc i, root (Suc i))" for i
    by (simp add: c_def MMB_consts push_bit_eq_mult root_Suc)
  have b_at: "b (64 ^ i, root i) \<longleftrightarrow> i < mx" for i
  proof
    assume "b (64 ^ i, root i)"
    then have "64 ^ Suc i < n" by (simp add: b_def MMB_consts mult.commute)
    also have "n \<le> 64 ^ Suc mx" using maxlevel_bounds(3) [OF assms] by (simp add: mx_def)
    finally show "i < mx" by (simp add: power_strict_increasing_iff)
  next
    assume "i < mx"
    then have "(64 :: nat) ^ Suc i \<le> 64 ^ mx" by (intro power_increasing) auto
    also have "\<dots> < n" using maxlevel_bounds(4) [OF assms] by (simp add: mx_def)
    finally show "b (64 ^ i, root i)" by (simp add: b_def MMB_consts mult.commute)
  qed
  have "while_option b c (64 ^ i, root i) = Some (64 ^ mx, root mx)" if "i \<le> mx" for i
    using that
  proof (induction "mx - i" arbitrary: i)
    case 0
    then show ?case by (subst while_option_unfold) (simp add: b_at)
  next
    case (Suc x)
    then have "i < mx" "x = mx - Suc i" by simp_all
    then show ?case using Suc.hyps(1) [of "Suc i"] by (subst while_option_unfold) (simp add: b_at c_at)
  qed
  from this [of 0] have "while_option b c (1, 0) = Some (64 ^ mx, root mx)" by (simp add: root_def)
  then show ?thesis
    using assms by (simp add: mmbit_size_def b_def c_def mx_def MMB_consts)
qed

lemma mmbit_size_flat: "n \<le> MMB_FLAT_MAX_BITS \<Longrightarrow> mmbit_size n = Some (mmbit_flat_size n)"
  by (simp add: mmbit_size_def mmbit_flat_size_def MMB_FLAT_MAX_BITS_def MMB_MAX_BITS_def)

text \<open>Two memories that agree outside the multibit.\<close>

definition same_outside :: "nat \<Rightarrow> mem \<Rightarrow> mem \<Rightarrow> bool" where
  "same_outside s m m' \<longleftrightarrow> (\<forall>a. a < 0 \<or> int s \<le> a \<longrightarrow> m' a = m a)"

lemma same_outside_refl [simp]: "same_outside s m m"
  by (simp add: same_outside_def)

lemma same_outside_trans: "same_outside s m m' \<Longrightarrow> same_outside s m' m'' \<Longrightarrow> same_outside s m m''"
  by (simp add: same_outside_def)

lemma same_outside_byte: "0 \<le> p \<Longrightarrow> p < int s \<Longrightarrow> same_outside s m (m(p := v))"
  by (auto simp: same_outside_def)

lemma same_outside_store: "0 \<le> p \<Longrightarrow> p + 8 \<le> int s \<Longrightarrow> same_outside s m (mmb_store m p v)"
  by (auto simp: same_outside_def mmb_store_def unaligned_store_u64a_def store_le_at)

lemma same_outside_fold:
  "(\<And>x m. x \<in> set xs \<Longrightarrow> same_outside s m (f m x)) \<Longrightarrow> same_outside s m (foldl f m xs)"
  by (induction xs arbitrary: m) (auto intro: same_outside_trans)

lemma tree_block_inside:
  assumes "big_size n" "key < n" "l \<le> mmbit_maxlevel n" "mmbit_size n = Some s"
  shows "0 \<le> mmbit_get_block_ptr (mmbit_maxlevel n) l key"
    "mmbit_get_block_ptr (mmbit_maxlevel n) l key + 8 \<le> int s"
    "0 \<le> mmbit_get_byte_ptr (mmbit_maxlevel n) l key"
    "mmbit_get_byte_ptr (mmbit_maxlevel n) l key < int s"
proof -
  define mx where "mx = mmbit_maxlevel n"
  have l6: "l \<le> 6" using assms(3) maxlevel_bounds(2) [OF assms(1)] by simp
  have s: "s = 8 * (root mx + (n + 63) div 64)" using mmbit_size_big [OF assms(1)] assms(4) by (simp add: mx_def)
  define A where "A = anc mx l key"
  define N where "N = root mx + (n + 63) div 64"
  have "root l + A div 64 < N"
  proof (cases "l < mx")
    case True
    have "anc mx l key div 64 < 64 ^ l"
      using anc_less(2) [OF key_bound [OF assms(1,2)] assms(3)] by (simp add: mx_def)
    then show ?thesis unfolding A_def N_def using root_less [OF True] by linarith
  next
    case False
    then have "l = mx" using assms(3) by (simp add: mx_def)
    moreover have "key div 64 < (n + 63) div 64" using assms(2) by linarith
    ultimately show ?thesis by (simp add: A_def N_def anc_simps)
  qed
  then have blk: "8 * (root l + A div 64) + 8 \<le> 8 * N" by simp
  moreover have "A div 64 = A div 8 div 8" by (simp flip: div_mult2_eq)
  then have "A div 8 < 8 * (A div 64) + 8" by simp
  then have "8 * root l + A div 8 < 8 * N" using blk by simp
  ultimately show "0 \<le> mmbit_get_block_ptr (mmbit_maxlevel n) l key"
    "mmbit_get_block_ptr (mmbit_maxlevel n) l key + 8 \<le> int s"
    "0 \<le> mmbit_get_byte_ptr (mmbit_maxlevel n) l key"
    "mmbit_get_byte_ptr (mmbit_maxlevel n) l key < int s"
    unfolding mx_def [symmetric] block_ptr [OF l6] byte_ptr [OF l6] s A_def [symmetric] N_def [symmetric]
    by (simp_all only: of_nat_0_le_iff of_nat_less_iff)
qed

lemma set_big_loop_inside:
  assumes "big_size n" "key < n" "mmbit_size n = Some s" "level \<le> mmbit_maxlevel n"
  shows "same_outside s m (fst (set_big_loop m (mmbit_maxlevel n) key level))"
  using assms(2,4)
proof (induction m "mmbit_maxlevel n" key level rule: set_big_loop.induct)
  case (1 m key level)
  note ins = tree_block_inside [OF assms(1) 1(2) _ assms(3)]
  have "same_outside s m (foldl (\<lambda>m level. mmb_store m (mmbit_get_block_ptr (mmbit_maxlevel n) level key)
      (mmb_single_bit (mmbit_get_key_val (mmbit_maxlevel n) level key)))
      (m(mmbit_get_byte_ptr (mmbit_maxlevel n) level key := v)) [Suc level..<Suc (mmbit_maxlevel n)])" for v
    by (rule same_outside_trans [OF same_outside_byte same_outside_fold])
      (use ins 1(3) in \<open>auto intro!: same_outside_store simp del: upt_Suc\<close>)
  then show ?case
    using 1 by (subst set_big_loop.simps) (auto simp: Let_def simp del: upt_Suc)
qed

lemma unset_big_loop_inside:
  assumes "big_size n" "key < n" "mmbit_size n = Some s" "level \<le> mmbit_maxlevel n"
  shows "same_outside s m (unset_big_loop m (mmbit_maxlevel n) key level)"
  using assms(2,4)
proof (induction m "mmbit_maxlevel n" key level rule: unset_big_loop.induct)
  case (1 m key level)
  note ins = tree_block_inside [OF assms(1) 1(2) _ assms(3)]
  show ?case
    using 1 ins [OF 1(3)] by (subst unset_big_loop.simps) (auto simp: Let_def intro!: same_outside_store)
qed

lemma mmbit_ops_inside:
  assumes "mmbit_size n = Some s"
  shows "key < n \<Longrightarrow> same_outside s m (fst (mmbit_set m n key))" "key < n \<Longrightarrow> same_outside s m (mmbit_unset m n key)"
    "same_outside s m (mmbit_clear m n)"
proof -
  have n: "n \<le> MMB_MAX_BITS" using assms by (auto simp: mmbit_size_def split: if_splits)
  have byte: "key div 8 < s" if "key < n" "n \<le> MMB_FLAT_MAX_BITS" for key
    using mmbit_size_flat [OF that(2)] assms flat_size_bounds(1) [of n] that by simp
  show "same_outside s m (fst (mmbit_set m n key))" if "key < n"
    using byte [OF that] set_big_loop_inside [OF _ that assms, of 0 m] n
    by (auto simp: mmbit_set_def mmbit_set_i_def mmbit_set_flat_def mmbit_set_big_def Let_def mmbit_is_flat_model_def
        mmbit_flat_select_byte_def intro!: same_outside_byte simp del: push_bit_of_1)
  show "same_outside s m (mmbit_unset m n key)" if "key < n"
    using byte [OF that] unset_big_loop_inside [OF _ that assms, of 0 m] n
    by (auto simp: mmbit_unset_def mmbit_unset_flat_def mmbit_unset_big_def Let_def mmbit_is_flat_model_def
        mmbit_flat_select_byte_def intro!: same_outside_byte simp del: push_bit_of_1)
  have "8 \<le> s" if "big_size n" using mmbit_size_big [OF that] assms that by (auto simp: MMB_FLAT_MAX_BITS_def)
  then show "same_outside s m (mmbit_clear m n)"
    using n assms mmbit_size_flat [of n]
    by (auto simp: mmbit_clear_def mmbit_is_flat_model_def same_outside_def clear_bytes
        mmb_store_def unaligned_store_u64a_def store_le_at)
qed

section \<open>What a multibit promises\<close>

definition mm_run :: "nat \<Rightarrow> mem \<Rightarrow> mm_op list \<Rightarrow> mem" where
  "mm_run n m ops = foldl (\<lambda>m x. case x of MmSet k \<Rightarrow> fst (mmbit_set m n k)
      | MmUnset k \<Rightarrow> mmbit_unset m n k | MmClear \<Rightarrow> mmbit_clear m n) m ops"

text \<open>
  C33. A multibit implements a set of keys: whatever the memory holds at the start, each run of sets,
  unsets and clears acts on the keys it reports as on a set, and \<open>mmbit_set\<close> tells whether the key was
  already there.  The blocks of the tree that no bit leads to need no initialisation.
\<close>

theorem multibit_refines_set:
  assumes "n \<le> MMB_MAX_BITS" "\<forall>x \<in> set ops. op_ok n x"
  shows "{k. k < n \<and> mmbit_isset (mm_run n m ops) n k} = foldl set_op {k. k < n \<and> mmbit_isset m n k} ops
    \<and> (\<forall>key < n. snd (mmbit_set m n key) \<longleftrightarrow> mmbit_isset m n key)"
  using mm.keys_run [OF assms] mm.was_set [OF assms(1)] by (simp add: mm_run_def)

theorem multibit_refines_set_witness:
  "{k. k < 1000 \<and> mmbit_isset (mm_run 1000 (\<lambda>_. 0x5a) [MmClear, MmSet 5, MmSet 999, MmUnset 5]) 1000 k} = {999}"
  using multibit_refines_set [of 1000 "[MmClear, MmSet 5, MmSet 999, MmUnset 5]" "\<lambda>_. 0x5a"]
  by (simp add: MMB_MAX_BITS_def insert_Diff_if)

text \<open>
  C34. These operations write only inside the \<open>mmbit_size\<close> bytes that the compiler reserves for the
  multibit, also when they make the blocks of a path.
\<close>

theorem multibit_writes_inside:
  assumes "mmbit_size n = Some s" "\<forall>x \<in> set ops. op_ok n x" "a < 0 \<or> int s \<le> a"
  shows "mm_run n m ops a = m a"
proof -
  have "same_outside s m (case x of MmSet k \<Rightarrow> fst (mmbit_set m n k)
      | MmUnset k \<Rightarrow> mmbit_unset m n k | MmClear \<Rightarrow> mmbit_clear m n)" if "x \<in> set ops" for m x
    using bspec [OF assms(2) that] mmbit_ops_inside [OF assms(1)] by (cases x) auto
  then have "same_outside s m (mm_run n m ops)" unfolding mm_run_def by (rule same_outside_fold)
  then show ?thesis using assms(3) unfolding same_outside_def by blast
qed

theorem multibit_writes_inside_witness:
  "mmbit_size 256 = Some 32 \<and> mm_run 256 (\<lambda>_. 7) [MmClear, MmSet 255] 32 = 7"
proof -
  have s: "mmbit_size 256 = Some 32" by (simp add: mmbit_size_def MMB_MAX_BITS_def MMB_FLAT_MAX_BITS_def ROUNDUP_N_def)
  then show ?thesis using multibit_writes_inside [OF s, of "[MmClear, MmSet 255]" 32 "\<lambda>_. 7"] by simp
qed

end
