(* ===== verification/MultibitIter.thy ===== *)
theory MultibitIter
  imports Multibit BitIter
begin

text \<open>
  Walking a multibit (\<open>src/util/multibit.h\<close>): \<open>mmbit_iterate\<close>, its bounded form, \<open>mmbit_any_precise\<close> and
  \<open>mmbit_unset_range\<close>.  The searches in the tree are loops that go down to the first block with a bit and
  up from an empty one; \<open>None\<close> would be such a loop that never ends.
\<close>

section \<open>Iteration\<close>

function flat_blocks_loop :: "mem \<Rightarrow> nat \<Rightarrow> nat \<Rightarrow> nat option" where
  "flat_blocks_loop m start last_block =
     (if start < last_block then
        let block = mmb_load m (int (start * 8))
        in if block \<noteq> 0 then Some (start * MMB_KEY_BITS + mmb_ctz block)
           else flat_blocks_loop m (start + 1) last_block
      else None)"
  by pat_completeness auto
termination by (relation "measure (\<lambda>(m, start, last_block). last_block - start)") auto

declare flat_blocks_loop.simps [simp del]

text \<open>The blocks from \<open>start\<close>, then the short one; \<open>start\<close> is not above the last whole block.\<close>

definition iterate_flat_from :: "mem \<Rightarrow> nat \<Rightarrow> nat \<Rightarrow> nat" where
  "iterate_flat_from m total_bits start =
     (let last_block = total_bits div MMB_KEY_BITS
      in case flat_blocks_loop m start last_block of
           Some key \<Rightarrow> key
         | None \<Rightarrow>
             if total_bits mod MMB_KEY_BITS \<noteq> 0 then
               let start = max start last_block; start_key = start * MMB_KEY_BITS;
                   block_size = min MMB_KEY_BITS (total_bits - start_key);
                   block = mmbit_get_flat_block m (int (start * 8)) block_size
               in if block \<noteq> 0 then start_key + mmb_ctz block else MMB_INVALID
             else MMB_INVALID)"

definition mmbit_iterate_flat :: "mem \<Rightarrow> nat \<Rightarrow> nat \<Rightarrow> nat" where
  "mmbit_iterate_flat m total_bits it_in =
     (if total_bits \<le> MMB_KEY_BITS then
        let block = mmbit_get_flat_block m 0 total_bits;
            block = (if it_in \<noteq> MMB_INVALID then block AND NOT (mmb_mask_zero_to (it_in + 1)) else block)
        in if block \<noteq> 0 then mmb_ctz block else MMB_INVALID
      else if it_in \<noteq> MMB_INVALID then
        let it_in = it_in + 1;
            start = ROUNDUP_N it_in MMB_KEY_BITS div MMB_KEY_BITS - 1;
            start_key = start * MMB_KEY_BITS;
            block_size = min MMB_KEY_BITS (total_bits - start_key);
            block = mmbit_get_flat_block m (int (start * 8)) block_size;
            block = block AND NOT (mmb_mask_zero_to (it_in - start_key))
        in if block \<noteq> 0 then start_key + mmb_ctz block
           else if start_key + MMB_KEY_BITS \<ge> total_bits then MMB_INVALID
           else iterate_flat_from m total_bits (start + 1)
      else iterate_flat_from m total_bits 0)"

partial_function (option) iterate_big_loop :: "mem \<Rightarrow> nat \<Rightarrow> nat \<Rightarrow> nat \<Rightarrow> nat \<Rightarrow> nat option" where
  "iterate_big_loop m max_level level key key_rem =
     (let block = (if key_rem < MMB_KEY_BITS
                   then mmb_load m (mmbit_get_level_root level + int (key * 8))
                          AND NOT (mmb_mask_zero_to_nocheck key_rem)
                   else 0)
      in if block \<noteq> 0 then
           let key = push_bit MMB_KEY_SHIFT key + mmb_ctz block
           in if level = max_level then Some key
              else iterate_big_loop m max_level (level + 1) key 0
         else if level = 0 then Some MMB_INVALID
         else iterate_big_loop m max_level (level - 1) (drop_bit MMB_KEY_SHIFT key) ((key AND MMB_KEY_MASK) + 1))"

definition mmbit_iterate_big :: "mem \<Rightarrow> nat \<Rightarrow> nat \<Rightarrow> nat option" where
  "mmbit_iterate_big m total_bits it_in =
     (let max_level = mmbit_maxlevel total_bits
      in if it_in \<noteq> MMB_INVALID
         then iterate_big_loop m max_level max_level (drop_bit MMB_KEY_SHIFT it_in) ((it_in AND MMB_KEY_MASK) + 1)
         else iterate_big_loop m max_level 0 0 0)"

definition mmbit_iterate :: "mem \<Rightarrow> nat \<Rightarrow> nat \<Rightarrow> nat option" where
  "mmbit_iterate m total_bits it_in =
     (if total_bits = 0 then Some MMB_INVALID
      else if it_in = total_bits - 1 then Some MMB_INVALID
      else if mmbit_is_flat_model total_bits then Some (mmbit_iterate_flat m total_bits it_in)
      else mmbit_iterate_big m total_bits it_in)"

definition mmbit_any_precise :: "mem \<Rightarrow> nat \<Rightarrow> bool option" where
  "mmbit_any_precise m total_bits =
     (if total_bits = 0 then Some False
      else if mmbit_is_flat_model total_bits then Some (mmbit_any_flat m total_bits)
      else map_option (\<lambda>key. key \<noteq> MMB_INVALID) (mmbit_iterate_big m total_bits MMB_INVALID))"

section \<open>Bounded iteration\<close>

definition get_flat_masks :: "nat \<Rightarrow> nat \<Rightarrow> nat \<Rightarrow> u64a" where
  "get_flat_masks base it_start it_end =
     (if it_end \<le> base then 0
      else let udiff = it_end - base;
               mk = (if udiff < 64 then mmb_mask_zero_to_nocheck udiff else MMB_ALL_ONES)
           in if it_start \<ge> base then
                let ldiff = it_start - base;
                    lmask = (if ldiff < 64 then NOT (mmb_mask_zero_to_nocheck ldiff) else 0)
                in mk AND lmask
              else mk)"

function bounded_flat_loop :: "mem \<Rightarrow> nat \<Rightarrow> nat \<Rightarrow> nat \<Rightarrow> nat \<Rightarrow> nat option" where
  "bounded_flat_loop m begin_key end_key i e =
     (if i < e then
        let block = mmb_load m (int (i div 8)) AND get_flat_masks i begin_key end_key
        in if block \<noteq> 0 then Some (i + mmb_ctz block)
           else bounded_flat_loop m begin_key end_key (i + MMB_KEY_BITS) e
      else None)"
  by pat_completeness auto
termination
  by (relation "measure (\<lambda>(m, b, en, i, e). e - i)") (auto simp: MMB_KEY_BITS_def)

declare bounded_flat_loop.simps [simp del]

definition mmbit_iterate_bounded_flat :: "mem \<Rightarrow> nat \<Rightarrow> nat \<Rightarrow> nat \<Rightarrow> nat" where
  "mmbit_iterate_bounded_flat m total_bits begin_key end_key =
     (if total_bits \<le> MMB_KEY_BITS then
        let block = mmbit_get_flat_block m 0 total_bits AND get_flat_masks 0 begin_key end_key
        in if block \<noteq> 0 then mmb_ctz block else MMB_INVALID
      else
        let last_block = ROUNDDOWN_N total_bits MMB_KEY_BITS
        in case bounded_flat_loop m begin_key end_key (ROUNDDOWN_N begin_key MMB_KEY_BITS) (min end_key last_block) of
             Some key \<Rightarrow> key
           | None \<Rightarrow>
               if end_key > last_block then
                 let num_bits = total_bits - last_block;
                     block = mmbit_get_flat_block m (int (last_block div 8)) num_bits
                               AND get_flat_masks last_block begin_key end_key
                 in if block \<noteq> 0 then last_block + mmb_ctz block else MMB_INVALID
               else MMB_INVALID)"

definition get_lowhi_masks :: "nat \<Rightarrow> nat \<Rightarrow> nat \<Rightarrow> nat \<Rightarrow> nat \<Rightarrow> u64a" where
  "get_lowhi_masks level max_level block_min block_max block_base =
     (let level_shift = (max_level - level) * MMB_KEY_SHIFT;
          lshift = drop_bit level_shift (block_min - block_base);
          ushift = drop_bit level_shift (block_max - block_base);
          lmask = (if lshift < 64 then NOT (mmb_mask_zero_to_nocheck lshift) else 0);
          umask = (if ushift < 63 then mmb_mask_zero_to_nocheck (ushift + 1) else MMB_ALL_ONES)
      in lmask AND umask)"

text \<open>\<open>it_end\<close> is the last key of the range here.\<close>

partial_function (option) iterate_bounded_loop ::
    "mem \<Rightarrow> nat \<Rightarrow> nat \<Rightarrow> nat \<Rightarrow> nat \<Rightarrow> nat \<Rightarrow> nat \<Rightarrow> nat option" where
  "iterate_bounded_loop m max_level it_end it_start key ks level =
     (let block_width = push_bit ks MMB_KEY_BITS;
          block_base = key * block_width;
          block_min = max it_start block_base;
          block_max = min it_end (block_base + block_width - 1);
          block = mmb_load m (mmbit_get_level_root level + int (key * 8))
                    AND get_lowhi_masks level max_level block_min block_max block_base
      in if block \<noteq> 0 then
           let key = push_bit MMB_KEY_SHIFT key + mmb_ctz block
           in if level = max_level then Some key
              else iterate_bounded_loop m max_level it_end it_start key (ks - MMB_KEY_SHIFT) (level + 1)
         else
           let next_start = block_base + block_width
           in if next_start > it_end then Some MMB_INVALID
              else if level = 0 then Some MMB_INVALID
              else iterate_bounded_loop m max_level it_end next_start (drop_bit MMB_KEY_SHIFT key)
                     (ks + MMB_KEY_SHIFT) (level - 1))"

definition mmbit_iterate_bounded_big :: "mem \<Rightarrow> nat \<Rightarrow> nat \<Rightarrow> nat \<Rightarrow> nat option" where
  "mmbit_iterate_bounded_big m total_bits it_start it_end =
     (let ks = mmbit_keyshift total_bits; max_level = mmbit_maxlevel_from_keyshift ks
      in iterate_bounded_loop m max_level (it_end - 1) it_start 0 ks 0)"

definition mmbit_iterate_bounded :: "mem \<Rightarrow> nat \<Rightarrow> nat \<Rightarrow> nat \<Rightarrow> nat option" where
  "mmbit_iterate_bounded m total_bits it_start it_end =
     (if total_bits = 0 \<or> it_end = it_start then Some MMB_INVALID
      else if mmbit_is_flat_model total_bits then Some (mmbit_iterate_bounded_flat m total_bits it_start it_end)
      else mmbit_iterate_bounded_big m total_bits it_start it_end)"

section \<open>Unsetting a range\<close>

definition mmbit_unset_range_flat :: "mem \<Rightarrow> nat \<Rightarrow> nat \<Rightarrow> nat \<Rightarrow> mem" where
  "mmbit_unset_range_flat m total_bits begin_key end_key =
     (let last_block = ROUNDDOWN_N total_bits MMB_KEY_BITS;
          m = foldl (\<lambda>m b. mmb_store m (int (b * 8))
                  (mmb_load m (int (b * 8)) AND NOT (get_flat_masks (b * MMB_KEY_BITS) begin_key end_key)))
                m (takeWhile (\<lambda>b. b * MMB_KEY_BITS < min end_key last_block)
                    [begin_key div MMB_KEY_BITS..<Suc (total_bits div MMB_KEY_BITS)])
      in if end_key > last_block then
           let block_ptr = int (last_block div 8); num_bits = total_bits - last_block;
               block = mmbit_get_flat_block m block_ptr num_bits;
               mk = get_flat_masks last_block begin_key end_key
           in mmb_store_partial m block_ptr (block AND NOT mk) num_bits
         else m)"

partial_function (option) unset_range_loop :: "mem \<Rightarrow> nat \<Rightarrow> nat \<Rightarrow> nat \<Rightarrow> mem option" where
  "unset_range_loop m total_bits i end_key =
     (case mmbit_iterate_bounded m total_bits i end_key of
        None \<Rightarrow> None
      | Some i \<Rightarrow>
          if i = MMB_INVALID then Some m
          else let m = mmbit_unset_big m total_bits i
               in if i + 1 = end_key then Some m else unset_range_loop m total_bits (i + 1) end_key)"

definition mmbit_unset_range :: "mem \<Rightarrow> nat \<Rightarrow> nat \<Rightarrow> nat \<Rightarrow> mem option" where
  "mmbit_unset_range m total_bits begin_key end_key =
     (if mmbit_is_flat_model total_bits then Some (mmbit_unset_range_flat m total_bits begin_key end_key)
      else unset_range_loop m total_bits begin_key end_key)"

section \<open>Lemmas: searching a block\<close>

lemma mmb_ctz_least:
  assumes "v \<noteq> 0"
  shows "bit v (mmb_ctz v)" "bit v k \<Longrightarrow> mmb_ctz v \<le> k" "mmb_ctz v < 64"
proof -
  have "mmb_ctz v \<in> bitset v"
    unfolding mmb_ctz_def ctz64_Min [OF assms] by (rule Min_in) (simp_all add: bitset_empty_iff assms)
  then show "bit v (mmb_ctz v)" "mmb_ctz v < 64" using bitset_bound [of "mmb_ctz v" v] by (simp_all add: bitset_def)
  show "bit v k \<Longrightarrow> mmb_ctz v \<le> k"
    unfolding mmb_ctz_def ctz64_Min [OF assms] by (rule Min_le) (simp_all add: bitset_def [symmetric], simp add: bitset_def)
qed

lemma block_0_iff: "(v :: u64a) = 0 \<longleftrightarrow> (\<forall>k. \<not> bit v k)"
  using bitset_empty_iff [of v] by (auto simp: bitset_def)

text \<open>A block that shows the members of a set from a base on.\<close>

lemma search_hit:
  assumes "block \<noteq> 0" "\<And>k. bit block k \<longleftrightarrow> k < 64 \<and> base + k \<in> S" "\<And>i. i \<in> S \<Longrightarrow> base \<le> i" "finite S"
  shows "least_or npos S = base + mmb_ctz block"
proof (rule least_orI [OF assms(4)])
  show "base + mmb_ctz block \<in> S" using mmb_ctz_least(1) [OF assms(1)] assms(2) by simp
  fix i
  assume i: "i \<in> S"
  then have b: "base \<le> i" by (rule assms(3))
  show "base + mmb_ctz block \<le> i"
  proof (cases "i < base + 64")
    case True
    then have "bit block (i - base)" using assms(2) i b by simp
    then show ?thesis using mmb_ctz_least(2) [OF assms(1)] b by fastforce
  next
    case False
    then show ?thesis using mmb_ctz_least(3) [OF assms(1)] by simp
  qed
qed

lemma search_miss:
  assumes "\<And>k. bit (0 :: u64a) k \<longleftrightarrow> k < 64 \<and> base + k \<in> S" "\<And>i. i \<in> S \<Longrightarrow> base \<le> i" "i \<in> S"
  shows "base + 64 \<le> i"
proof (rule ccontr)
  assume "\<not> base + 64 \<le> i"
  moreover have "base \<le> i" using assms(2,3) by blast
  ultimately show False using assms(1) [of "i - base"] assms(3) by simp
qed

section \<open>Lemmas: flat multibits\<close>

text \<open>The bits past the last key, in its byte, stay off.\<close>

definition flat_inv :: "nat \<Rightarrow> mem \<Rightarrow> bool" where
  "flat_inv n m \<longleftrightarrow> (\<forall>i. n \<le> i \<and> i < 8 * mmbit_flat_size n \<longrightarrow> \<not> gbit m i)"

lemma shifted_load_bits:
  assumes "b \<le> c" "LENGTH('b) = 8 * c"
  shows "bit (drop_bit ((c - b) * 8) (load_le c m (int a + int b - int c) :: 'b::len word)) k
      \<longleftrightarrow> k < 8 * b \<and> gbit m (8 * a + k)"
proof -
  have "((c - b) * 8 + k) div 8 = (c - b) + k div 8" "((c - b) * 8 + k) mod 8 = k mod 8" by simp_all
  moreover have "int a + int b - int c + int ((c - b) + k div 8) = int a + int (k div 8)"
    using assms(1) by simp
  moreover have "(c - b) * 8 + k < 8 * c \<longleftrightarrow> k < 8 * b" using assms(1) by (auto simp: diff_mult_distrib)
  moreover have "gbit m (8 * a + k) = bit (m (int a + int (k div 8))) (k mod 8)" by (simp add: gbit_def)
  ultimately show ?thesis unfolding bit_drop_bit_eq comp_def bit_load_le assms(2) by (simp only:) auto
qed

lemma flat_block_bits:
  assumes "0 < nb" "nb \<le> 64"
  shows "bit (mmbit_get_flat_block m (int a) nb) k \<longleftrightarrow> k < 8 * ((nb + 7) div 8) \<and> gbit m (8 * a + k)"
proof -
  define b where "b = (nb + 7) div 8"
  have b: "0 < b" "b \<le> 8" using assms by (auto simp: b_def)
  have g: "gbit m (8 * a + k) = bit (m (int a + int (k div 8))) (k mod 8)" by (simp add: gbit_def)
  consider "b = 1" | "b = 2" | "b = 3 \<or> b = 4" | "4 < b" using b by linarith
  then show ?thesis
  proof cases
    case 1
    then show ?thesis
      using bit_imp_le_length [of "m (int a)" k]
      by (auto simp: mmbit_get_flat_block_def ROUNDUP_N_def b_def [symmetric] g bit_unsigned_iff)
  next
    case 2
    then show ?thesis
      by (auto simp: mmbit_get_flat_block_def ROUNDUP_N_def b_def [symmetric] bit_unsigned_iff
          unaligned_load_u16_def bit_load_gbit dest: bit_imp_le_length)
  next
    case 3
    have "b \<le> 4" "LENGTH(32) = 8 * 4" using 3 by auto
    then show ?thesis
      using 3 shifted_load_bits [where c = 4 and 'b = 32 and b = b and a = a and m = m and k = k] b
      by (auto simp: mmbit_get_flat_block_def ROUNDUP_N_def b_def [symmetric] bit_unsigned_iff unaligned_load_u32_def
          simp del: bit_drop_bit_eq dest: bit_imp_le_length)
  next
    case 4
    have "b \<le> 8" "LENGTH(64) = 8 * 8" using b by auto
    then show ?thesis
      using 4 shifted_load_bits [where c = 8 and 'b = 64 and b = b and a = a and m = m and k = k]
      by (auto simp: mmbit_get_flat_block_def ROUNDUP_N_def b_def [symmetric] unaligned_load_u64a_def
          simp del: bit_drop_bit_eq)
  qed
qed

lemma bit_flat_load: "bit (mmb_load m (int (s * 8))) k \<longleftrightarrow> k < 64 \<and> gbit m (64 * s + k)"
proof -
  have "8 * (s * 8) + k = 64 * s + k" by simp
  then show ?thesis unfolding mmb_load_def unaligned_load_u64a_def bit_load_gbit by (simp only:) simp
qed

text \<open>The last, short block shows the keys from its base on.\<close>

lemma short_block_bits:
  assumes "flat_inv n m" "64 * s < n" "n \<le> 64 * s + 64"
  shows "bit (mmbit_get_flat_block m (int (s * 8)) (n - 64 * s)) k \<longleftrightarrow> 64 * s + k < n \<and> gbit m (64 * s + k)"
proof -
  have nb: "0 < n - 64 * s" "n - 64 * s \<le> 64" using assms by auto
  have size: "8 * mmbit_flat_size n = 64 * s + 8 * ((n - 64 * s + 7) div 8)"
  proof -
    obtain r where r: "n = 64 * s + r" using assms(2) less_imp_add_positive by blast
    have "(64 * s + r + 7) div 8 = 8 * s + (r + 7) div 8"
      using div_plus_div_distrib_dvd_left [of 8 "64 * s" "r + 7"] by (simp add: add.assoc)
    then show ?thesis by (simp add: mmbit_flat_size_def ROUNDUP_N_def r)
  qed
  have "8 * (s * 8) + k = 64 * s + k" by simp
  then show ?thesis
    unfolding flat_block_bits [OF nb]
    using assms(1) size flat_size_bounds(1) [of n] by (auto simp: flat_inv_def not_less)
qed

definition flat_keys :: "nat \<Rightarrow> mem \<Rightarrow> nat \<Rightarrow> nat set" where
  "flat_keys n m lo = {i. lo \<le> i \<and> i < n \<and> gbit m i}"

lemma finite_flat_keys [simp]: "finite (flat_keys n m lo)"
  by (simp add: flat_keys_def)

lemma flat_blocks_loop_spec:
  assumes "64 * last_block \<le> n" "start \<le> last_block"
  shows "case flat_blocks_loop m start last_block of
      Some key \<Rightarrow> key = least_or npos (flat_keys n m (64 * start))
    | None \<Rightarrow> flat_keys n m (64 * start) = flat_keys n m (64 * last_block)"
  using assms
proof (induction m start last_block rule: flat_blocks_loop.induct)
  case (1 m start last_block)
  show ?case
  proof (cases "start < last_block")
    case False
    then show ?thesis using 1(3) by (subst flat_blocks_loop.simps) simp
  next
    case True
    define block where "block = mmb_load m (int (start * 8))"
    have "64 * start + k < n" if "k < 64" for k using True 1(2) that by linarith
    then have bits: "bit block k \<longleftrightarrow> k < 64 \<and> 64 * start + k \<in> flat_keys n m (64 * start)" for k
      unfolding block_def bit_flat_load by (auto simp: flat_keys_def)
    have low: "64 * start \<le> i" if "i \<in> flat_keys n m (64 * start)" for i using that by (simp add: flat_keys_def)
    have run: "flat_blocks_loop m start last_block =
        (if block \<noteq> 0 then Some (64 * start + mmb_ctz block) else flat_blocks_loop m (start + 1) last_block)"
      using True unfolding block_def by (subst flat_blocks_loop.simps) (simp add: Let_def MMB_consts mult.commute)
    show ?thesis
    proof (cases "block = 0")
      case False
      then show ?thesis
        using search_hit [OF False bits low finite_flat_keys] run by simp
    next
      case zero: True
      have "64 * (start + 1) \<le> i" if "i \<in> flat_keys n m (64 * start)" for i
        using search_miss [OF bits [unfolded zero] low that] by simp
      then have rest: "flat_keys n m (64 * start) = flat_keys n m (64 * (start + 1))"
        by (auto simp: flat_keys_def)
      have "case flat_blocks_loop m (start + 1) last_block of
          Some key \<Rightarrow> key = least_or npos (flat_keys n m (64 * (start + 1)))
        | None \<Rightarrow> flat_keys n m (64 * (start + 1)) = flat_keys n m (64 * last_block)"
        using 1(1) [OF True refl] zero True 1(2) by (simp add: block_def)
      then show ?thesis unfolding run rest using zero by simp
    qed
  qed
qed

lemma iterate_flat_from_least:
  assumes "flat_inv n m" "start \<le> n div 64"
  shows "iterate_flat_from m n start = least_or MMB_INVALID (flat_keys n m (64 * start))"
proof (cases "flat_blocks_loop m start (n div 64)")
  case (Some key)
  then show ?thesis
    using flat_blocks_loop_spec [of "n div 64" n start m MMB_INVALID] assms(2)
    by (simp add: iterate_flat_from_def Let_def MMB_consts)
next
  case None
  define s where "s = n div 64"
  have keys: "flat_keys n m (64 * start) = flat_keys n m (64 * s)"
    using None flat_blocks_loop_spec [of "n div 64" n start m MMB_INVALID] assms(2) by (simp add: s_def)
  show ?thesis
  proof (cases "n mod 64 = 0")
    case True
    then have "n = 64 * s" using mult_div_mod_eq [of 64 n] by (simp add: s_def)
    then have "flat_keys n m (64 * s) = {}" by (auto simp: flat_keys_def)
    then show ?thesis using None True keys by (simp add: iterate_flat_from_def Let_def MMB_consts)
  next
    case False
    have s: "64 * s < n" "n < 64 * s + 64"
      using False mult_div_mod_eq [of 64 n] mod_less_divisor [of 64 n] unfolding s_def by linarith+
    define block where "block = mmbit_get_flat_block m (int (s * 8)) (n - 64 * s)"
    have bits: "bit block k \<longleftrightarrow> k < 64 \<and> 64 * s + k \<in> flat_keys n m (64 * s)" for k
      using short_block_bits [OF assms(1) s(1), of k] s by (auto simp: block_def flat_keys_def)
    have low: "64 * s \<le> i" if "i \<in> flat_keys n m (64 * s)" for i using that by (simp add: flat_keys_def)
    have e: "min 64 (n - s * 64) = n - 64 * s" "max start s = s"
      using s assms(2) by (auto simp: s_def [symmetric])
    have run: "iterate_flat_from m n start = (if block \<noteq> 0 then 64 * s + mmb_ctz block else MMB_INVALID)"
      unfolding block_def iterate_flat_from_def Let_def MMB_consts s_def [symmetric] None [folded s_def] option.case e
      using False by (simp add: mult.commute)
    show ?thesis
    proof (cases "block = 0")
      case True
      have "64 * s + 64 \<le> i" if "i \<in> flat_keys n m (64 * s)" for i
        by (rule search_miss [OF bits [unfolded True] low that])
      then have "flat_keys n m (64 * s) = {}" using s(2) by (fastforce simp: flat_keys_def)
      then show ?thesis using run keys True by simp
    qed (use run keys search_hit [OF _ bits low finite_flat_keys] in simp)
  qed
qed

lemma mask_out_bits: "b \<le> 64 \<Longrightarrow> bit (v AND NOT (mmb_mask_zero_to b)) k \<longleftrightarrow> bit v k \<and> b \<le> k"
  using bit_mask_zero_to [of b k] by (auto simp: bit_and_iff bit_not_iff dest: bit_imp_le_length)

lemma iterate_flat_least:
  assumes "flat_inv n m" "it = MMB_INVALID \<or> it + 1 < n" "0 < n" "n \<le> MMB_FLAT_MAX_BITS"
  shows "mmbit_iterate_flat m n it = least_or MMB_INVALID (flat_keys n m (if it = MMB_INVALID then 0 else it + 1))"
proof (cases "n \<le> 64")
  case True
  define lo where "lo = (if it = MMB_INVALID then 0 else it + 1)"
  define block where "block = mmbit_get_flat_block m 0 n AND NOT (mmb_mask_zero_to lo)"
  have lo: "lo \<le> 64" using assms(2,3) True by (auto simp: lo_def)
  have bits: "bit block k \<longleftrightarrow> k < 64 \<and> 0 + k \<in> flat_keys n m lo" for k
    unfolding block_def mask_out_bits [OF lo]
    using short_block_bits [of n m 0 k] assms(1,3) True by (auto simp: flat_keys_def)
  have "mmbit_get_flat_block m 0 n AND NOT (mmb_mask_zero_to 0) = mmbit_get_flat_block m 0 n"
    by (rule bit_word_eqI) (simp add: mask_out_bits)
  then have run: "mmbit_iterate_flat m n it = (if block \<noteq> 0 then mmb_ctz block else MMB_INVALID)"
    using True by (simp add: mmbit_iterate_flat_def MMB_consts Let_def block_def lo_def)
  show ?thesis unfolding run lo_def [symmetric]
  proof (cases "block = 0")
    case zero: True
    have "flat_keys n m lo = {}"
    proof (rule equals0I)
      fix i
      assume "i \<in> flat_keys n m lo"
      then show False using search_miss [OF bits [unfolded zero], of i] True by (simp add: flat_keys_def)
    qed
    then show "(if block \<noteq> 0 then mmb_ctz block else MMB_INVALID) = least_or MMB_INVALID (flat_keys n m lo)"
      using zero by simp
  next
    case False
    then show "(if block \<noteq> 0 then mmb_ctz block else MMB_INVALID) = least_or MMB_INVALID (flat_keys n m lo)"
      using search_hit [OF False bits _ finite_flat_keys] by simp
  qed
next
  case big: False
  show ?thesis
  proof (cases "it = MMB_INVALID")
    case True
    then show ?thesis using iterate_flat_from_least [OF assms(1), of 0] big
      by (simp add: mmbit_iterate_flat_def MMB_consts)
  next
    case False
    define s where "s = it div 64"
    have it: "it + 1 < n" using assms(2) False by simp
    have s: "64 * s \<le> it" "it < 64 * s + 64" by (simp_all add: s_def)
    have start: "ROUNDUP_N (it + 1) 64 div 64 - 1 = s"
    proof -
      have "(it + 1 + 63) div 64 = s + 1" using div_add_self2 [of 64 it] by (simp add: s_def)
      then show ?thesis by (simp add: ROUNDUP_N_def)
    qed
    define blk where "blk = mmbit_get_flat_block m (int (s * 8)) (min 64 (n - s * 64))"
    define block where "block = blk AND NOT (mmb_mask_zero_to (it + 1 - 64 * s))"
    have rem: "it + 1 - 64 * s \<le> 64" using s by linarith
    have blk: "bit blk k \<longleftrightarrow> k < 64 \<and> 64 * s + k < n \<and> gbit m (64 * s + k)" for k
    proof (cases "64 * s + 64 < n")
      case True
      then have "min 64 (n - s * 64) = 64" by simp
      then show ?thesis using flat_block_bits [of 64 m "s * 8" k] True
        by (auto simp: blk_def algebra_simps)
    next
      case False
      then have "min 64 (n - s * 64) = n - 64 * s" "64 * s < n" "n \<le> 64 * s + 64" using it s by auto
      then show ?thesis using short_block_bits [OF assms(1), of s k] by (auto simp: blk_def)
    qed
    have bits: "bit block k \<longleftrightarrow> k < 64 \<and> 64 * s + k \<in> flat_keys n m (it + 1)" for k
      unfolding block_def mask_out_bits [OF rem] blk using s by (auto simp: flat_keys_def)
    have low: "64 * s \<le> i" if "i \<in> flat_keys n m (it + 1)" for i using that s(1) by (simp add: flat_keys_def)
    have run: "mmbit_iterate_flat m n it = (if block \<noteq> 0 then 64 * s + mmb_ctz block
        else if 64 * s + 64 \<ge> n then MMB_INVALID else iterate_flat_from m n (s + 1))"
      using big False
      unfolding mmbit_iterate_flat_def MMB_consts Let_def start block_def blk_def by (simp add: mult.commute)
    show ?thesis
    proof (cases "block = 0")
      case zero: True
      have miss: "64 * (s + 1) \<le> i" if "i \<in> flat_keys n m (it + 1)" for i
        using search_miss [OF bits [unfolded zero] low that] by simp
      show ?thesis
      proof (cases "64 * s + 64 \<ge> n")
        case True
        then have "flat_keys n m (it + 1) = {}" using miss by (fastforce simp: flat_keys_def)
        then show ?thesis using run zero True False by simp
      next
        case more: False
        have "flat_keys n m (it + 1) = flat_keys n m (64 * (s + 1))"
          using miss s(2) by (auto simp: flat_keys_def)
        moreover have "s + 1 \<le> n div 64" using more by linarith
        ultimately show ?thesis using run zero more False iterate_flat_from_least [OF assms(1), of "s + 1"] by simp
      qed
    qed (use run False search_hit [OF _ bits low finite_flat_keys] in simp)
  qed
qed

section \<open>Lemmas: ranges in a flat multibit\<close>

lemma bit_get_flat_masks: "bit (get_flat_masks base lo hi) k \<longleftrightarrow> k < 64 \<and> lo \<le> base + k \<and> base + k < hi"
proof (cases "hi \<le> base")
  case False
  define mk where "mk = (if hi - base < 64 then mmb_mask_zero_to_nocheck (hi - base) else MMB_ALL_ONES)"
  define lmask where "lmask = (if lo - base < 64 then NOT (mmb_mask_zero_to_nocheck (lo - base)) else 0)"
  have mk: "bit mk k \<longleftrightarrow> k < 64 \<and> base + k < hi"
    using bit_mask_zero_to_nocheck [of "hi - base" k] False by (auto simp: mk_def bit_MMB_ALL_ONES)
  have lmask: "bit lmask k \<longleftrightarrow> k < 64 \<and> lo \<le> base + k" if "base \<le> lo"
    using bit_mask_zero_to_nocheck [of "lo - base" k] that by (auto simp: lmask_def bit_not_iff)
  have g: "get_flat_masks base lo hi = (if base \<le> lo then mk AND lmask else mk)"
    using False by (simp add: get_flat_masks_def Let_def mk_def lmask_def)
  show ?thesis using mk lmask by (auto simp: g bit_and_iff)
qed (simp add: get_flat_masks_def)

definition range_keys :: "nat \<Rightarrow> mem \<Rightarrow> nat \<Rightarrow> nat set" where
  "range_keys hi m lo = {i. lo \<le> i \<and> i < hi \<and> gbit m i}"

lemma finite_range_keys [simp]: "finite (range_keys n m lo)"
  by (simp add: range_keys_def)

lemma bounded_flat_loop_spec:
  assumes "i mod 64 = 0" "e = min hi (64 * lst)" "\<And>j. j \<in> range_keys hi m lo \<Longrightarrow> i \<le> j"
  shows "case bounded_flat_loop m lo hi i e of
      Some key \<Rightarrow> key = least_or npos (range_keys hi m lo)
    | None \<Rightarrow> \<forall>j \<in> range_keys hi m lo. 64 * lst \<le> j"
  using assms
proof (induction m lo hi i e rule: bounded_flat_loop.induct)
  case (1 m lo hi i e)
  show ?case
  proof (cases "i < e")
    case False
    have "64 * lst \<le> j" if "j \<in> range_keys hi m lo" for j
      using False 1(3) 1(4) [OF that] that by (auto simp: range_keys_def)
    then show ?thesis using False by (subst bounded_flat_loop.simps) simp
  next
    case True
    define block where "block = mmb_load m (int (i div 8)) AND get_flat_masks i lo hi"
    have i: "int (i div 8) = int (i div 64 * 8)" "64 * (i div 64) = i" using 1(2) by auto
    have bits: "bit block k \<longleftrightarrow> k < 64 \<and> i + k \<in> range_keys hi m lo" for k
      unfolding block_def i(1) bit_and_iff bit_flat_load bit_get_flat_masks i(2) by (auto simp: range_keys_def)
    have run: "bounded_flat_loop m lo hi i e =
        (if block \<noteq> 0 then Some (i + mmb_ctz block) else bounded_flat_loop m lo hi (i + 64) e)"
      using True unfolding block_def by (subst bounded_flat_loop.simps) (simp add: Let_def MMB_consts)
    show ?thesis
    proof (cases "block = 0")
      case zero: True
      have miss: "i + 64 \<le> j" if "j \<in> range_keys hi m lo" for j
        by (rule search_miss [OF bits [unfolded zero] 1(4) that])
      have "case bounded_flat_loop m lo hi (i + 64) e of
          Some key \<Rightarrow> key = least_or npos (range_keys hi m lo)
        | None \<Rightarrow> \<forall>j \<in> range_keys hi m lo. 64 * lst \<le> j"
        using 1(1) [OF True refl] zero 1(2,3) miss by (simp add: block_def MMB_consts)
      then show ?thesis unfolding run using zero by simp
    qed (use run search_hit [OF _ bits 1(4) finite_range_keys] in simp)
  qed
qed

lemma iterate_bounded_flat_least:
  assumes "flat_inv n m" "0 < n" "hi \<le> n"
  shows "mmbit_iterate_bounded_flat m n lo hi = least_or MMB_INVALID (range_keys hi m lo)"
proof -
  have short: "(if block \<noteq> 0 then 64 * s + mmb_ctz block else MMB_INVALID) = least_or MMB_INVALID (range_keys hi m lo)"
    if s: "64 * s < n" "n \<le> 64 * s + 64" and low: "\<And>j. j \<in> range_keys hi m lo \<Longrightarrow> 64 * s \<le> j"
      and block: "block = mmbit_get_flat_block m (int (s * 8)) (n - 64 * s) AND get_flat_masks (64 * s) lo hi" for s block
  proof -
    have bits: "bit block k \<longleftrightarrow> k < 64 \<and> 64 * s + k \<in> range_keys hi m lo" for k
      unfolding block bit_and_iff bit_get_flat_masks short_block_bits [OF assms(1) s]
      using assms(3) by (auto simp: range_keys_def)
    show ?thesis
    proof (cases "block = 0")
      case True
      have "range_keys hi m lo = {}"
      proof (rule equals0I)
        fix j
        assume j: "j \<in> range_keys hi m lo"
        then have "j < n" using assms(3) by (simp add: range_keys_def)
        then show False using search_miss [OF bits [unfolded True] low j] s(2) by simp
      qed
      then show ?thesis using True by simp
    qed (use search_hit [OF _ bits low finite_range_keys] in simp)
  qed
  show ?thesis
  proof (cases "n \<le> 64")
    case True
    then show ?thesis
      using short [of 0 "mmbit_get_flat_block m 0 n AND get_flat_masks 0 lo hi"] assms(2)
      by (cases "mmbit_get_flat_block m 0 n AND get_flat_masks 0 lo hi = 0")
        (simp_all add: mmbit_iterate_bounded_flat_def MMB_consts Let_def)
  next
    case False
    define s where "s = n div 64"
    have down: "ROUNDDOWN_N n 64 = 64 * s" by (simp add: ROUNDDOWN_N_def s_def mult.commute)
    define r where "r = bounded_flat_loop m lo hi (ROUNDDOWN_N lo 64) (min hi (64 * s))"
    have "ROUNDDOWN_N lo 64 \<le> j" if "j \<in> range_keys hi m lo" for j
      using that order_trans [OF div_times_less_eq_dividend [of lo 64]] by (simp add: range_keys_def ROUNDDOWN_N_def)
    then have loop: "case r of Some key \<Rightarrow> key = least_or MMB_INVALID (range_keys hi m lo)
        | None \<Rightarrow> \<forall>j \<in> range_keys hi m lo. 64 * s \<le> j"
      unfolding r_def by (intro bounded_flat_loop_spec) (simp_all add: ROUNDDOWN_N_def)
    have run: "mmbit_iterate_bounded_flat m n lo hi = (case r of Some key \<Rightarrow> key | None \<Rightarrow>
        if hi > 64 * s then
          let block = mmbit_get_flat_block m (int (s * 8)) (n - 64 * s) AND get_flat_masks (64 * s) lo hi
          in if block \<noteq> 0 then 64 * s + mmb_ctz block else MMB_INVALID
        else MMB_INVALID)"
    proof -
      have "64 * s div 8 = s * 8" by simp
      then show ?thesis
        using False unfolding mmbit_iterate_bounded_flat_def MMB_consts Let_def down r_def by (simp only: if_False)
    qed
    show ?thesis
    proof (cases r)
      case (Some key)
      then show ?thesis using loop run by simp
    next
      case None
      then have low: "\<And>j. j \<in> range_keys hi m lo \<Longrightarrow> 64 * s \<le> j" using loop by simp
      show ?thesis
      proof (cases "hi > 64 * s")
        case True
        have "64 * s < n" "n \<le> 64 * s + 64" using True assms(3) by (simp_all add: s_def)
        from short [OF this low refl] show ?thesis by (simp only: run None option.case Let_def True if_True)
      next
        case le: False
        then have "range_keys hi m lo = {}" using low by (fastforce simp: range_keys_def)
        then show ?thesis using run None le by simp
      qed
    qed
  qed
qed

section \<open>Lemmas: searching the tree\<close>

text \<open>The keys of a tree, and the blocks that a search may stand on: all the bits above are on.\<close>

definition tree_keys :: "mem \<Rightarrow> nat \<Rightarrow> nat set" where
  "tree_keys m mx = {k. k < 64 ^ Suc mx \<and> on_path m mx k}"

lemma finite_tree_keys [simp]: "finite (tree_keys m mx)"
  by (simp add: tree_keys_def)

definition reached :: "mem \<Rightarrow> nat \<Rightarrow> nat \<Rightarrow> bool" where
  "reached m level key = (\<forall>l < level. lv m l (key div 64 ^ (level - 1 - l)))"

lemma reached_0 [simp]: "reached m 0 key"
  by (simp add: reached_def)

lemma reached_Suc: "reached m (Suc level) key \<longleftrightarrow> lv m level key \<and> reached m level (key div 64)"
proof -
  have "key div 64 ^ (level - l) = key div 64 div 64 ^ (level - 1 - l)" if "l < level" for l
  proof -
    have "level - l = Suc (level - 1 - l)" using that by simp
    then show ?thesis by (simp add: div_mult2_eq)
  qed
  then show ?thesis by (auto simp: reached_def less_Suc_eq)
qed

lemma reached_leaf: "reached m (Suc mx) k \<longleftrightarrow> on_path m mx k"
  by (auto simp: reached_def on_path_def anc_def less_Suc_eq_le)

lemma on_path_bit: "on_path m mx k \<Longrightarrow> level \<le> mx \<Longrightarrow> lv m level (k div 64 ^ (mx - level))"
  by (simp add: on_path_def anc_def)

text \<open>What one block shows of the keys below it; a bit of the block stands for \<open>w\<close> keys.\<close>

lemma block_bits: "l \<le> 6 \<Longrightarrow> bit (mmb_load m (mmbit_get_level_root l + int (key * 8))) k \<longleftrightarrow> k < 64 \<and> lv m l (64 * key + k)"
proof -
  assume "l \<le> 6"
  then have "mmbit_get_level_root l + int (key * 8) = int (8 * (root l + key))" by (simp add: level_root)
  then show ?thesis by (simp only: bit_load_block)
qed

lemma key_block:
  assumes "(64 * key + r) * w \<le> k" "k < (64 * key + 64) * w" "r \<le> 64" "0 < (w :: nat)"
  shows "k div w div 64 = key" "k div w = 64 * key + k div w mod 64" "r \<le> k div w mod 64"
proof -
  have lo: "64 * key + r \<le> k div w" using assms(1,4) by (simp add: less_eq_div_iff_mult_less_eq)
  have hi: "k div w < 64 * key + 64" using assms(2) by (simp add: less_mult_imp_div_less)
  show d: "k div w div 64 = key" using lo hi by linarith
  show e: "k div w = 64 * key + k div w mod 64" using d mult_div_mod_eq [of 64 "k div w"] by simp
  show "r \<le> k div w mod 64" using lo e by linarith
qed

lemma tree_widths:
  assumes "level < mx"
  shows "(64::nat) ^ (mx - level) = 64 * 64 ^ (mx - Suc level)"
  using assms by (simp add: Suc_diff_Suc flip: power_Suc)

lemma iterate_big_step:
  fixes m :: mem and key k :: nat
  assumes "level \<le> mx" "mx \<le> 6" "r \<le> 64"
  defines "w \<equiv> 64 ^ (mx - level)"
  defines "block \<equiv> (if r < MMB_KEY_BITS
                   then mmb_load m (mmbit_get_level_root level + int (key * 8)) AND NOT (mmb_mask_zero_to_nocheck r)
                   else 0)"
  shows "block = 0 \<Longrightarrow> k \<in> tree_keys m mx \<Longrightarrow> (64 * key + r) * w \<le> k \<Longrightarrow> (64 * key + 64) * w \<le> k"
    and "block \<noteq> 0 \<Longrightarrow> r \<le> mmb_ctz block \<and> mmb_ctz block < 64 \<and> lv m level (64 * key + mmb_ctz block)"
    and "block \<noteq> 0 \<Longrightarrow> k \<in> tree_keys m mx \<Longrightarrow> (64 * key + r) * w \<le> k \<Longrightarrow> (64 * key + mmb_ctz block) * w \<le> k"
proof -
  have w: "0 < w" by (simp add: w_def)
  have bits: "bit block j \<longleftrightarrow> j < 64 \<and> r \<le> j \<and> lv m level (64 * key + j)" for j
  proof (cases "r < 64")
    case True
    have "level \<le> 6" using assms(1,2) by simp
    have "block = mmb_load m (mmbit_get_level_root level + int (key * 8)) AND NOT (mmb_mask_zero_to_nocheck r)"
      using True by (simp only: block_def MMB_consts if_True)
    then show ?thesis
      unfolding bit_and_iff bit_not_iff block_bits [OF \<open>level \<le> 6\<close>] bit_mask_zero_to_nocheck [OF True]
      by (simp only: bit_and_iff bit_not_iff block_bits [OF \<open>level \<le> 6\<close>] bit_mask_zero_to_nocheck [OF True]) auto
  qed (simp add: block_def MMB_consts)
  have inside: "bit block (k div w mod 64)" "k div w = 64 * key + k div w mod 64"
    if "k \<in> tree_keys m mx" "(64 * key + r) * w \<le> k" "k < (64 * key + 64) * w"
  proof -
    note b = key_block [OF that(2,3) assms(3) w]
    show "k div w = 64 * key + k div w mod 64" by (rule b(2))
    have "lv m level (k div w)" using on_path_bit [of m mx k level] that(1) assms(1) by (simp add: tree_keys_def w_def)
    then show "bit block (k div w mod 64)" using b by (simp add: bits)
  qed
  show "(64 * key + 64) * w \<le> k" if "block = 0" "k \<in> tree_keys m mx" "(64 * key + r) * w \<le> k"
    using inside(1) [OF that(2,3)] that(1) by (cases "k < (64 * key + 64) * w") simp_all
  show "r \<le> mmb_ctz block \<and> mmb_ctz block < 64 \<and> lv m level (64 * key + mmb_ctz block)" if "block \<noteq> 0"
    using mmb_ctz_least(1) [OF that] bits by blast
  show "(64 * key + mmb_ctz block) * w \<le> k" if "block \<noteq> 0" "k \<in> tree_keys m mx" "(64 * key + r) * w \<le> k"
  proof (cases "k < (64 * key + 64) * w")
    case True
    have "mmb_ctz block \<le> k div w mod 64" by (rule mmb_ctz_least(2) [OF that(1) inside(1) [OF that(2,3) True]])
    then have "64 * key + mmb_ctz block \<le> k div w" using inside(2) [OF that(2,3) True] by linarith
    then show ?thesis using w by (simp add: less_eq_div_iff_mult_less_eq)
  next
    case False
    have "(64 * key + mmb_ctz block) * w \<le> (64 * key + 64) * w"
      using mmb_ctz_least(3) [OF that(1)] by (intro mult_le_mono1) simp
    then show ?thesis using False by linarith
  qed
qed

lemma lex_measure: "a' < a \<Longrightarrow> p' < c \<Longrightarrow> a' * c + p' < a * c + (p :: nat)"
  using mult_le_mono1 [of "Suc a'" a c] by simp

text \<open>
  The search returns.  Its bound never falls; while it stays, the search first goes up from full
  blocks and then down.
\<close>

lemma iterate_big_loop_least:
  assumes "mx \<le> 6" "level \<le> mx" "key < 64 ^ level" "r \<le> 64" "reached m level key"
  shows "iterate_big_loop m mx level key r =
    Some (least_or MMB_INVALID {k \<in> tree_keys m mx. (64 * key + r) * 64 ^ (mx - level) \<le> k})"
  using assms(2-)
proof (induction "(64 ^ Suc mx - (64 * key + r) * 64 ^ (mx - level)) * (2 * mx + 3)
      + (if r = 0 then mx - level else mx + 1 + level)" arbitrary: level key r rule: less_induct)
  case less
  define w where "w = (64 :: nat) ^ (mx - level)"
  define bound where "bound = (64 * key + r) * w"
  define block where "block = (if r < MMB_KEY_BITS
                   then mmb_load m (mmbit_get_level_root level + int (key * 8)) AND NOT (mmb_mask_zero_to_nocheck r)
                   else 0)"
  define left where "left = {k \<in> tree_keys m mx. bound \<le> k}"
  note big_step = iterate_big_step [where m = m and key = key, OF less.prems(1) assms(1) less.prems(3), folded w_def block_def]
  have w: "0 < w" "64 ^ level * (64 * w) = 64 ^ Suc mx"
    using less.prems(1) by (simp_all add: w_def flip: power_add)
  have fin: "finite left" by (simp add: left_def)
  have top: "(64 * key + 64) * w \<le> 64 ^ Suc mx"
  proof -
    have "key + 1 \<le> 64 ^ level" using less.prems(2) by simp
    then have "(key + 1) * (64 * w) \<le> 64 ^ level * (64 * w)" by (rule mult_le_mono1)
    then show ?thesis unfolding w(2) by (simp add: algebra_simps)
  qed
  have smaller: "(64 ^ Suc mx - (64 * key' + r') * 64 ^ (mx - level')) * (2 * mx + 3)
      + (if r' = 0 then mx - level' else mx + 1 + level')
    < (64 ^ Suc mx - (64 * key + r) * 64 ^ (mx - level)) * (2 * mx + 3) + (if r = 0 then mx - level else mx + 1 + level)"
    if b: "bound \<le> (64 * key' + r') * 64 ^ (mx - level')" "(64 * key' + r') * 64 ^ (mx - level') \<le> 64 ^ Suc mx" "level' \<le> mx"
      and phase: "bound = (64 * key' + r') * 64 ^ (mx - level') \<Longrightarrow>
        (if r' = 0 then mx - level' else mx + 1 + level') < (if r = 0 then mx - level else mx + 1 + level)"
    for key' r' level'
  proof (cases "bound = (64 * key' + r') * 64 ^ (mx - level')")
    case True
    then show ?thesis using phase by (simp add: bound_def w_def)
  next
    case False
    then have lt: "bound < (64 * key' + r') * 64 ^ (mx - level')" using b(1) by simp
    have "64 ^ Suc mx - (64 * key' + r') * 64 ^ (mx - level') < 64 ^ Suc mx - bound"
      by (intro diff_less_mono2 lt less_le_trans [OF lt b(2)])
    moreover have "mx - level' < 2 * mx + 3" "mx + 1 + level' < 2 * mx + 3" using b(3) by linarith+
    then have "(if r' = 0 then mx - level' else mx + 1 + level') < 2 * mx + 3" by simp
    ultimately show ?thesis unfolding bound_def w_def by (rule lex_measure)
  qed
  show ?case
  proof (cases "block = 0")
    case False
    define key' where "key' = 64 * key + mmb_ctz block"
    have c: "r \<le> mmb_ctz block" "mmb_ctz block < 64" "lv m level key'" using big_step(2) [OF False] by (simp_all add: key'_def)
    have left': "left = {k \<in> tree_keys m mx. key' * w \<le> k}"
    proof -
      have "bound \<le> key' * w" unfolding bound_def key'_def by (intro mult_le_mono1) (use c in simp)
      then show ?thesis
        using big_step(3) [OF False, folded key'_def bound_def] unfolding left_def by (blast intro: order_trans)
    qed
    have up: "key' div 64 = key" using c(2) by (simp add: key'_def)
    have key'_less: "key' < 64 ^ Suc level" using less.prems(2) c(2) by (simp add: key'_def)
    have reach: "reached m (Suc level) key'" using less.prems(4) c(3) by (simp add: reached_Suc up)
    have unfold: "iterate_big_loop m mx level key r =
        (if level = mx then Some key' else iterate_big_loop m mx (level + 1) key' 0)"
      using False unfolding block_def key'_def
      by (subst iterate_big_loop.simps) (simp add: Let_def MMB_consts push_bit_eq_mult mult.commute)
    show ?thesis
    proof (cases "level = mx")
      case True
      then have "key' \<in> tree_keys m mx" using reach key'_less by (simp add: tree_keys_def reached_leaf)
      then have "least_or MMB_INVALID left = key'"
        using True by (intro least_orI [OF fin]) (simp_all add: left' w_def)
      then show ?thesis using unfold True by (simp add: left_def bound_def w_def)
    next
      case False
      then have lt: "level < mx" using less.prems(1) by simp
      have b': "(64 * key' + 0) * 64 ^ (mx - (level + 1)) = key' * w"
        using tree_widths [OF lt] by (simp add: w_def)
      have "key' * w \<le> (64 * key + 64) * w" unfolding key'_def by (intro mult_le_mono1) (use c in simp)
      then have "key' * w \<le> 64 ^ Suc mx" using top by linarith
      moreover have "bound \<le> key' * w" unfolding bound_def key'_def by (intro mult_le_mono1) (use c in simp)
      ultimately have "iterate_big_loop m mx (level + 1) key' 0 =
          Some (least_or MMB_INVALID {k \<in> tree_keys m mx. (64 * key' + 0) * 64 ^ (mx - (level + 1)) \<le> k})"
        using lt key'_less reach by (intro less.hyps smaller) (simp_all only: b', auto)
      then show ?thesis unfolding b' using unfold False left' by (simp add: left_def bound_def w_def)
    qed
  next
    case True
    have miss: "(64 * key + 64) * w \<le> k" if "k \<in> left" for k
      using big_step(1) [OF True] that by (simp add: left_def bound_def)
    have unfold: "iterate_big_loop m mx level key r =
        (if level = 0 then Some MMB_INVALID else iterate_big_loop m mx (level - 1) (key div 64) (key mod 64 + 1))"
      using True unfolding block_def
      by (subst iterate_big_loop.simps) (simp add: Let_def MMB_consts nat_and_masks drop_bit_eq_div)
    show ?thesis
    proof (cases level)
      case 0
      then have "left = {}" using miss less.prems(2) w(2) by (fastforce simp: left_def tree_keys_def)
      then have "Some MMB_INVALID = Some (least_or MMB_INVALID left)" by simp
      then show ?thesis unfolding left_def bound_def w_def using unfold 0 by (simp only: if_True simp_thms)
    next
      case (Suc up)
      have b': "(64 * (key div 64) + (key mod 64 + 1)) * 64 ^ (mx - up) = (64 * key + 64) * w"
      proof -
        have "64 ^ (mx - up) = 64 * w" using tree_widths [of up mx] less.prems(1) Suc by (simp add: w_def)
        moreover have "64 * (key div 64) + (key mod 64 + 1) = key + 1" by simp
        ultimately show ?thesis by (simp add: algebra_simps)
      qed
      have "left = {k \<in> tree_keys m mx. (64 * key + 64) * w \<le> k}"
      proof -
        have "bound \<le> (64 * key + 64) * w" unfolding bound_def by (intro mult_le_mono1) (use less.prems(3) in simp)
        then show ?thesis using miss by (auto simp: left_def)
      qed
      moreover have "iterate_big_loop m mx up (key div 64) (key mod 64 + 1) =
          Some (least_or MMB_INVALID {k \<in> tree_keys m mx. (64 * (key div 64) + (key mod 64 + 1)) * 64 ^ (mx - up) \<le> k})"
      proof (intro less.hyps smaller, unfold b')
        show "bound \<le> (64 * key + 64) * w" unfolding bound_def by (intro mult_le_mono1) (use less.prems(3) in simp)
        show "(64 * key + 64) * w \<le> 64 ^ Suc mx" by (rule top)
        show "up \<le> mx" "up \<le> mx" using less.prems(1) Suc by simp_all
        assume "bound = (64 * key + 64) * w"
        then have "r = 64" using w(1) by (simp add: bound_def)
        then show "(if key mod 64 + 1 = 0 then mx - up else mx + 1 + up) < (if r = 0 then mx - level else mx + 1 + level)"
          using Suc by simp
      next
        show "key div 64 < 64 ^ up" using less.prems(2) Suc by (simp add: less_mult_imp_div_less mult.commute)
        show "key mod 64 + 1 \<le> 64" using mod_less_divisor [of 64 key] by linarith
        show "reached m up (key div 64)" using less.prems(4) Suc by (simp add: reached_Suc)
      qed
      ultimately show ?thesis unfolding b' using unfold Suc by (simp add: left_def bound_def w_def)
    qed
  qed
qed

section \<open>Lemmas: ranges in the tree\<close>

lemma bit_get_lowhi_masks:
  "bit (get_lowhi_masks level mx lo hi base) j \<longleftrightarrow>
     j < 64 \<and> (lo - base) div 64 ^ (mx - level) \<le> j \<and> j \<le> (hi - base) div 64 ^ (mx - level)"
proof -
  have shift: "drop_bit ((mx - level) * MMB_KEY_SHIFT) x = x div 64 ^ (mx - level)" for x :: nat
    by (simp add: MMB_consts drop_bit_eq_div mult.commute [of _ 6] power_mult)
  define a where "a = (lo - base) div 64 ^ (mx - level)"
  define b where "b = (hi - base) div 64 ^ (mx - level)"
  have "bit (if a < 64 then NOT (mmb_mask_zero_to_nocheck a) else 0) j \<longleftrightarrow> j < 64 \<and> a \<le> j"
    using bit_mask_zero_to_nocheck [of a j] by (auto simp: bit_not_iff)
  moreover have "bit (if b < 63 then mmb_mask_zero_to_nocheck (b + 1) else MMB_ALL_ONES) j \<longleftrightarrow> j < 64 \<and> j \<le> b"
    using bit_mask_zero_to_nocheck [of "b + 1" j] by (auto simp: bit_MMB_ALL_ONES)
  ultimately show ?thesis
    by (auto simp: get_lowhi_masks_def Let_def shift a_def [symmetric] b_def [symmetric] bit_and_iff)
qed

lemma bounded_big_step:
  fixes m :: mem and key k :: nat
  assumes "level \<le> mx" "mx \<le> 6"
  defines "w \<equiv> 64 ^ (mx - level)"
  defines "base \<equiv> key * (64 * w)"
  assumes range: "base \<le> hi" "\<forall>k \<in> tree_keys m mx. lo \<le> k \<and> k \<le> hi \<longrightarrow> base \<le> k"
  defines "block \<equiv> mmb_load m (mmbit_get_level_root level + int (key * 8))
      AND get_lowhi_masks level mx (max lo base) (min hi (base + 64 * w - 1)) base"
  shows "block = 0 \<Longrightarrow> k \<in> tree_keys m mx \<Longrightarrow> lo \<le> k \<Longrightarrow> k \<le> hi \<Longrightarrow> base + 64 * w \<le> k"
    and "block \<noteq> 0 \<Longrightarrow> mmb_ctz block < 64 \<and> lv m level (64 * key + mmb_ctz block)
      \<and> lo < (64 * key + mmb_ctz block + 1) * w \<and> (64 * key + mmb_ctz block) * w \<le> hi"
    and "block \<noteq> 0 \<Longrightarrow> k \<in> tree_keys m mx \<Longrightarrow> lo \<le> k \<Longrightarrow> k \<le> hi \<Longrightarrow> (64 * key + mmb_ctz block) * w \<le> k"
proof -
  have w: "0 < w" by (simp add: w_def)
  have "level \<le> 6" using assms(1,2) by simp
  have bits: "bit block j \<longleftrightarrow> j < 64 \<and> lv m level (64 * key + j) \<and> (max lo base - base) div w \<le> j
      \<and> j \<le> (min hi (base + 64 * w - 1) - base) div w" for j
    unfolding block_def bit_and_iff block_bits [OF \<open>level \<le> 6\<close>] bit_get_lowhi_masks w_def [symmetric] by auto
  have inside: "bit block (k div w - 64 * key)" "64 * key \<le> k div w"
    if "k \<in> tree_keys m mx" "lo \<le> k" "k \<le> hi" "k < base + 64 * w"
  proof -
    have low: "base \<le> k" using range(2) that by blast
    have k: "k = base + (k - base)" using low by simp
    have d: "k div w = 64 * key + (k - base) div w"
    proof -
      have "k = (k - base) + 64 * key * w" using low by (simp add: base_def algebra_simps)
      then have "k div w = ((k - base) + 64 * key * w) div w" by simp
      then show ?thesis using w by simp
    qed
    show "64 * key \<le> k div w" using d by simp
    have "lv m level (k div w)" using on_path_bit [of m mx k level] that(1) assms(1) by (simp add: tree_keys_def w_def)
    moreover have "(k - base) div w < 64" using that(4) low by (simp add: less_mult_imp_div_less)
    moreover have "(max lo base - base) div w \<le> (k - base) div w" using that(2) low by (intro div_le_mono) auto
    moreover have "(k - base) div w \<le> (min hi (base + 64 * w - 1) - base) div w" using that(3,4) by (intro div_le_mono) auto
    ultimately show "bit block (k div w - 64 * key)" by (simp add: bits d)
  qed
  show "base + 64 * w \<le> k" if "block = 0" "k \<in> tree_keys m mx" "lo \<le> k" "k \<le> hi"
    using inside(1) [OF that(2-)] that(1) by (cases "k < base + 64 * w") simp_all
  show "(64 * key + mmb_ctz block) * w \<le> k" if "block \<noteq> 0" "k \<in> tree_keys m mx" "lo \<le> k" "k \<le> hi"
  proof (cases "k < base + 64 * w")
    case True
    have "mmb_ctz block \<le> k div w - 64 * key" by (rule mmb_ctz_least(2) [OF that(1) inside(1) [OF that(2-) True]])
    then have "64 * key + mmb_ctz block \<le> k div w" using inside(2) [OF that(2-) True] by linarith
    then show ?thesis using w by (simp add: less_eq_div_iff_mult_less_eq)
  next
    case False
    have "(64 * key + mmb_ctz block) * w \<le> (64 * key + 64) * w"
      using mmb_ctz_least(3) [OF that(1)] by (intro mult_le_mono1) simp
    moreover have "(64 * key + 64) * w = base + 64 * w" by (simp add: base_def algebra_simps)
    ultimately show ?thesis using False by linarith
  qed
  show "mmb_ctz block < 64 \<and> lv m level (64 * key + mmb_ctz block)
      \<and> lo < (64 * key + mmb_ctz block + 1) * w \<and> (64 * key + mmb_ctz block) * w \<le> hi" if "block \<noteq> 0"
  proof -
    define j where "j = mmb_ctz block"
    have j: "j < 64" "lv m level (64 * key + j)" "(max lo base - base) div w \<le> j" "j \<le> (min hi (base + 64 * w - 1) - base) div w"
      using mmb_ctz_least(1) [OF that] bits by (simp_all add: j_def)
    have "max lo base - base < (j + 1) * w" using j(3) w by (simp add: div_less_iff_less_mult flip: less_Suc_eq_le)
    then have "lo < base + (j + 1) * w" by simp
    moreover have "j * w \<le> min hi (base + 64 * w - 1) - base" using j(4) w by (simp add: less_eq_div_iff_mult_less_eq)
    then have "base + j * w \<le> hi" using range(1) by linarith
    ultimately show ?thesis using j(1,2) by (simp add: j_def [symmetric] base_def algebra_simps)
  qed
qed

lemma iterate_bounded_loop_least:
  assumes "mx \<le> 6" "level \<le> mx" "key < 64 ^ level" "reached m level key" "ks = 6 * (mx - level)"
    "key * (64 * 64 ^ (mx - level)) \<le> hi" "lo \<le> (key + 1) * (64 * 64 ^ (mx - level))"
    "\<And>k. k \<in> tree_keys m mx \<Longrightarrow> lo \<le> k \<Longrightarrow> k \<le> hi \<Longrightarrow> key * (64 * 64 ^ (mx - level)) \<le> k"
  shows "iterate_bounded_loop m mx hi lo key ks level =
    Some (least_or MMB_INVALID {k \<in> tree_keys m mx. lo \<le> k \<and> k \<le> hi})"
  using assms(2-)
proof (induction "(hi + 1 - lo) * (2 * mx + 4)
      + (if (key + 1) * (64 * 64 ^ (mx - level)) \<le> lo then mx + 2 + level else mx - level)"
    arbitrary: level key ks lo rule: less_induct)
  case less
  define w where "w = (64 :: nat) ^ (mx - level)"
  define base where "base = key * (64 * w)"
  define block where "block = mmb_load m (mmbit_get_level_root level + int (key * 8))
      AND get_lowhi_masks level mx (max lo base) (min hi (base + 64 * w - 1)) base"
  define left where "left = {k \<in> tree_keys m mx. lo \<le> k \<and> k \<le> hi}"
  have above: "\<forall>k \<in> tree_keys m mx. lo \<le> k \<and> k \<le> hi \<longrightarrow> key * (64 * 64 ^ (mx - level)) \<le> k"
    using less.prems(7) by blast
  note big_step = bounded_big_step [where m = m and key = key and lo = lo and hi = hi,
    OF less.prems(1) assms(1) less.prems(5) above, folded w_def, folded base_def, folded block_def]
  have w: "0 < w" "64 ^ level * (64 * w) = 64 ^ Suc mx"
    using less.prems(1) by (simp_all add: w_def flip: power_add)
  have fin: "finite left" by (simp add: left_def)
  have nxt: "base + 64 * w = (key + 1) * (64 * w)" by (simp add: base_def)
  have width: "push_bit ks 64 = 64 * w"
    using less.prems(4) by (simp add: push_bit_eq_mult power_mult w_def)
  define key' where "key' = 64 * key + mmb_ctz block"
  have unfold: "iterate_bounded_loop m mx hi lo key ks level =
      (if block \<noteq> 0 then
         if level = mx then Some key' else iterate_bounded_loop m mx hi lo key' (ks - 6) (level + 1)
       else if (key + 1) * (64 * w) > hi then Some MMB_INVALID
       else if level = 0 then Some MMB_INVALID
       else iterate_bounded_loop m mx hi ((key + 1) * (64 * w)) (key div 64) (ks + 6) (level - 1))"
    unfolding block_def key'_def nxt [symmetric]
    by (subst iterate_bounded_loop.simps)
      (simp only: Let_def MMB_consts width base_def [symmetric], simp add: push_bit_eq_mult drop_bit_eq_div mult.commute)
  show ?case
  proof (cases "block = 0")
    case False
    have c: "mmb_ctz block < 64" "lv m level key'" "lo < (key' + 1) * w" "key' * w \<le> hi"
      using big_step(2) [OF False] by (simp_all add: key'_def)
    have low: "key' * w \<le> k" if "k \<in> tree_keys m mx" "lo \<le> k" "k \<le> hi" for k
      using big_step(3) [OF False that] by (simp add: key'_def)
    have up: "key' div 64 = key" using c(1) by (simp add: key'_def)
    have key'_less: "key' < 64 ^ Suc level" using less.prems(2) c(1) by (simp add: key'_def)
    have reach: "reached m (Suc level) key'" using less.prems(3) c(2) by (simp add: reached_Suc up)
    show ?thesis
    proof (cases "level = mx")
      case True
      then have w1: "w = 1" by (simp add: w_def)
      have "key' \<in> tree_keys m mx" using reach key'_less True by (simp add: tree_keys_def reached_leaf)
      then have "least_or MMB_INVALID left = key'"
        using c(3,4) low by (intro least_orI [OF fin]) (auto simp: left_def w1)
      then show ?thesis using unfold True False by (simp add: left_def)
    next
      case deeper: False
      then have lt: "level < mx" using less.prems(1) by simp
      have w': "64 * 64 ^ (mx - Suc level) = w" using tree_widths [OF lt] by (simp add: w_def)
      have "(key' + 1) * w \<le> (64 * key + 64) * w" unfolding key'_def by (intro mult_le_mono1) (use c in simp)
      also have "\<dots> = (key + 1) * (64 * w)" by (simp add: algebra_simps)
      finally have "\<not> (key + 1) * (64 * w) \<le> lo" using c(3) by linarith
      then have "iterate_bounded_loop m mx hi lo key' (ks - 6) (level + 1) = Some (least_or MMB_INVALID left)"
        unfolding left_def using lt key'_less reach c low less.prems(4)
        by (intro less.hyps) (simp_all add: w' w_def [symmetric])
      then show ?thesis using unfold False deeper by (simp add: left_def)
    qed
  next
    case True
    have miss: "(key + 1) * (64 * w) \<le> k" if "k \<in> left" for k
      using big_step(1) [OF True] that by (simp add: left_def nxt)
    show ?thesis
    proof (cases "(key + 1) * (64 * w) > hi \<or> level = 0")
      case end_here: True
      have "k \<notin> left" for k
      proof
        assume k: "k \<in> left"
        then have "k \<le> hi" "k < 64 ^ Suc mx" by (simp_all add: left_def tree_keys_def)
        moreover have "64 ^ Suc mx \<le> (key + 1) * (64 * w)" if "level = 0"
          unfolding w(2) [symmetric] using that less.prems(2) by simp
        ultimately show False using miss [OF k] end_here by linarith
      qed
      then have "left = {}" by blast
      then have "Some MMB_INVALID = Some (least_or MMB_INVALID left)" by simp
      moreover have "iterate_bounded_loop m mx hi lo key ks level = Some MMB_INVALID"
        using unfold True end_here by (auto split: if_splits)
      ultimately show ?thesis unfolding left_def by (simp only:)
    next
      case False
      then obtain up where up: "level = Suc up" by (cases level) auto
      define lo' where "lo' = (key + 1) * (64 * w)"
      have hi: "lo' \<le> hi" using False by (simp add: lo'_def)
      have w': "64 * 64 ^ (mx - up) = 64 * (64 * w)" using tree_widths [of up mx] less.prems(1) up by (simp add: w_def)
      have key: "64 * (key div 64) \<le> key" "key + 1 \<le> 64 * (key div 64 + 1)"
        using dividend_less_div_times [of 64 key] by simp_all
      have parent: "key div 64 * (64 * (64 * w)) \<le> base" "lo' \<le> (key div 64 + 1) * (64 * (64 * w))"
      proof -
        have "64 * (key div 64) * (64 * w) \<le> key * (64 * w)" "(key + 1) * (64 * w) \<le> 64 * (key div 64 + 1) * (64 * w)"
          using key by (intro mult_le_mono1; simp)+
        then show "key div 64 * (64 * (64 * w)) \<le> base" "lo' \<le> (key div 64 + 1) * (64 * (64 * w))"
          unfolding base_def lo'_def by (simp_all only: ac_simps)
      qed
      have lvl: "(key + 1) * (64 * 64 ^ (mx - level)) = lo'" by (simp only: lo'_def w_def)
      have base_le: "base \<le> lo'" by (simp add: base_def lo'_def)
      have lo: "lo \<le> lo'" using less.prems(6) by (simp add: lo'_def w_def)
      have same: "left = {k \<in> tree_keys m mx. lo' \<le> k \<and> k \<le> hi}" using miss lo by (auto simp: left_def lo'_def)
      have "(hi + 1 - lo') * (2 * mx + 4)
            + (if (key div 64 + 1) * (64 * 64 ^ (mx - up)) \<le> lo' then mx + 2 + up else mx - up)
          < (hi + 1 - lo) * (2 * mx + 4)
            + (if (key + 1) * (64 * 64 ^ (mx - level)) \<le> lo then mx + 2 + level else mx - level)"
      proof (cases "lo = lo'")
        case True
        then show ?thesis unfolding lvl using up by auto
      next
        case False
        then have "hi + 1 - lo' < hi + 1 - lo" using lo hi by linarith
        then show ?thesis using less.prems(1) up by (intro lex_measure) auto
      qed
      then have "iterate_bounded_loop m mx hi lo' (key div 64) (ks + 6) up = Some (least_or MMB_INVALID left)"
        unfolding same
      proof (rule less.hyps)
        show "key div 64 < 64 ^ up" using less.prems(2) up by (simp add: less_mult_imp_div_less mult.commute)
        show "key div 64 * (64 * 64 ^ (mx - up)) \<le> k" if "lo' \<le> k" for k
          unfolding w' using parent(1) that base_le by (blast intro: order_trans)
        then show "key div 64 * (64 * 64 ^ (mx - up)) \<le> hi" using hi by blast
        show "reached m up (key div 64)" using less.prems(3) up by (simp add: reached_Suc)
      qed (use up less.prems(1,4) parent(2) in \<open>simp_all add: w' del: mult_Suc_right\<close>)
      then show ?thesis using unfold True False up by (simp add: left_def lo'_def)
    qed
  qed
qed

end
