(* ===== verification/MultibitKeys.thy ===== *)
theory MultibitKeys
  imports MultibitIter
begin

text \<open>
  What the walks over a multibit promise: the invariant that \<open>mmbit_clear\<close> makes and every operation keeps,
  and under it the searches, \<open>mmbit_any\<close> and \<open>mmbit_unset_range\<close> on the set of keys.
\<close>

section \<open>The invariant\<close>

text \<open>
  No bit of the last byte of a flat multibit is on above its size, and each chain of bits that is on
  from the root of a tree leads to a key of the multibit (or to none): all keys of the code stay in \<open>u32\<close>.
\<close>

definition mm_inv :: "nat \<Rightarrow> mem \<Rightarrow> bool" where
  "mm_inv n m \<longleftrightarrow> n \<le> MMB_MAX_BITS \<and>
     (if n \<le> MMB_FLAT_MAX_BITS then flat_inv n m
      else let mx = mmbit_maxlevel n
           in \<forall>l \<le> mx. \<forall>k < 64 ^ Suc mx. on_prefix m mx l k \<longrightarrow> anc mx l k * 64 ^ (mx - l) < n)"

lemma mm_inv_size: "mm_inv n m \<Longrightarrow> n \<le> MMB_MAX_BITS"
  by (simp add: mm_inv_def)

definition mm_keys :: "nat \<Rightarrow> mem \<Rightarrow> nat set" where
  "mm_keys n m = {k. k < n \<and> mmbit_isset m n k}"

lemma finite_mm_keys [simp]: "finite (mm_keys n m)"
  by (simp add: mm_keys_def)

lemma mm_keys_flat: "n \<le> MMB_FLAT_MAX_BITS \<Longrightarrow> mm_keys n m = {k. k < n \<and> gbit m k}"
  by (simp add: mm_keys_def mmbit_isset_def mmbit_is_flat_model_def isset_flat_gbit)

lemma mm_keys_tree:
  assumes "mm_inv n m" "\<not> n \<le> MMB_FLAT_MAX_BITS"
  shows "mm_keys n m = tree_keys m (mmbit_maxlevel n)"
proof -
  have n: "big_size n" using assms by (simp add: mm_inv_def)
  have "k < n" if "on_path m (mmbit_maxlevel n) k" "k < 64 ^ Suc (mmbit_maxlevel n)" for k
  proof -
    have "anc (mmbit_maxlevel n) (mmbit_maxlevel n) k * 64 ^ (mmbit_maxlevel n - mmbit_maxlevel n) < n"
      using assms that unfolding mm_inv_def Let_def on_prefix_path [symmetric] by auto
    then show ?thesis by (simp add: anc_simps)
  qed
  then show ?thesis
    using n key_bound [OF n]
    by (auto simp: mm_keys_def tree_keys_def mmbit_isset_def mmbit_is_flat_model_def isset_big_path)
qed

lemma mm_inv_clear:
  assumes "n \<le> MMB_MAX_BITS"
  shows "mm_inv n (mmbit_clear m n)"
proof (cases "n \<le> MMB_FLAT_MAX_BITS")
  case True
  have "i div 8 < mmbit_flat_size n" if "i < 8 * mmbit_flat_size n" for i using that by linarith
  then have "flat_inv n (mmbit_clear m n)"
    using True by (auto simp: flat_inv_def mmbit_clear_def mmbit_is_flat_model_def gbit_def clear_bytes
        mmbit_flat_size_def ROUNDUP_N_def)
  then show ?thesis using True assms by (simp add: mm_inv_def)
next
  case False
  have "\<not> on_prefix (mmbit_clear m n) (mmbit_maxlevel n) l k" if "k < 64 ^ Suc (mmbit_maxlevel n)" for l k
    using anc_less(1) [OF that, of 0] lv_store [of 0 0 "anc (mmbit_maxlevel n) 0 k" 0 m 0] False
    by (auto simp: on_prefix_def mmbit_clear_def mmbit_is_flat_model_def root_def)
  then show ?thesis using False assms by (simp add: mm_inv_def Let_def)
qed

lemma mm_inv_set:
  assumes "mm_inv n m" "key < n"
  shows "mm_inv n (fst (mmbit_set m n key))"
proof (cases "n \<le> MMB_FLAT_MAX_BITS")
  case True
  then show ?thesis
    using assms by (auto simp: mm_inv_def flat_inv_def mmbit_set_def mmbit_set_i_def mmbit_is_flat_model_def set_flat_gbit)
next
  case False
  define mx where "mx = mmbit_maxlevel n"
  have n: "big_size n" using assms False by (simp add: mm_inv_def)
  have "anc mx l k * 64 ^ (mx - l) < n"
    if l: "l \<le> mx" and k: "k < 64 ^ Suc mx" and on: "on_prefix (fst (mmbit_set_big m n key)) mx l k" for l k
  proof -
    have "on_prefix m mx l k \<or> anc mx l k = anc mx l key"
      using set_big_prefix(1) [OF n assms(2) k [unfolded mx_def] l [unfolded mx_def]] on by (simp add: mx_def)
    moreover have "anc mx l key * 64 ^ (mx - l) \<le> key" by (simp add: anc_def)
    ultimately show ?thesis
      using assms False l k unfolding mm_inv_def Let_def mx_def by auto
  qed
  then show ?thesis
    using assms(1) False
    by (simp add: mm_inv_def Let_def mx_def mmbit_set_def mmbit_set_i_def mmbit_is_flat_model_def)
qed

lemma on_prefix_unset:
  assumes "mx \<le> 5" "key < 64 ^ Suc mx" "k < 64 ^ Suc mx" "l \<le> mx"
    "on_prefix (unset_big_loop m mx key 0) mx l k"
  shows "on_prefix m mx l k"
proof -
  have "mx \<le> 6" using assms(1) by simp
  then have "lv m l' (anc mx l' k)" if "l' \<le> l" for l'
    using unset_big_loop_spec [OF le0 _ assms(2) anc_less(1) [OF assms(3)], of l' m] assms(4,5) that
    by (simp add: on_prefix_def)
  then show ?thesis by (simp add: on_prefix_def)
qed

lemma mm_inv_unset:
  assumes "mm_inv n m" "key < n"
  shows "mm_inv n (mmbit_unset m n key)"
proof (cases "n \<le> MMB_FLAT_MAX_BITS")
  case True
  then show ?thesis
    using assms by (auto simp: mm_inv_def flat_inv_def mmbit_unset_def mmbit_is_flat_model_def unset_flat_gbit)
next
  case False
  have n: "big_size n" using assms False by (simp add: mm_inv_def)
  show ?thesis
    using assms(1) False on_prefix_unset [OF maxlevel_bounds(2) [OF n] key_bound [OF n assms(2)]]
    unfolding mm_inv_def Let_def by (simp add: mmbit_unset_def mmbit_unset_big_def mmbit_is_flat_model_def)
qed

section \<open>Iteration\<close>

lemma mmbit_iterate_least:
  assumes "mm_inv n m" "it = MMB_INVALID \<or> it \<in> mm_keys n m"
  shows "mmbit_iterate m n it = Some (least_or MMB_INVALID {k \<in> mm_keys n m. it = MMB_INVALID \<or> it < k})"
proof -
  define left where "left = {k \<in> mm_keys n m. it = MMB_INVALID \<or> it < k}"
  have "n \<le> MMB_MAX_BITS" using assms(1) by (simp add: mm_inv_def)
  then have low: "k \<noteq> MMB_INVALID" if "k < n" for k
    using that by (simp add: MMB_MAX_BITS_def MMB_INVALID_def)
  consider (none) "n = 0" | (end_key) "0 < n" "it = n - 1" | (flat) "0 < n" "it \<noteq> n - 1" "n \<le> MMB_FLAT_MAX_BITS"
    | (tree) "it \<noteq> n - 1" "\<not> n \<le> MMB_FLAT_MAX_BITS" by linarith
  then have "mmbit_iterate m n it = Some (least_or MMB_INVALID left)"
  proof cases
    case none
    then have "left = {}" by (simp add: left_def mm_keys_def)
    then show ?thesis using none by (simp add: mmbit_iterate_def)
  next
    case end_key
    then have "left = {}" using low [of it] by (auto simp: left_def mm_keys_def)
    then show ?thesis using end_key by (simp add: mmbit_iterate_def)
  next
    case flat
    have it: "it = MMB_INVALID \<or> it + 1 < n" using assms(2) flat(1,2) by (auto simp: mm_keys_def)
    have "left = flat_keys n m (if it = MMB_INVALID then 0 else it + 1)"
      using flat(3) by (auto simp: left_def mm_keys_flat flat_keys_def)
    then show ?thesis
      using flat assms(1) iterate_flat_least [OF _ it flat(1,3), of m]
      by (simp add: mmbit_iterate_def mmbit_is_flat_model_def mm_inv_def)
  next
    case tree
    define mx where "mx = mmbit_maxlevel n"
    have n: "big_size n" using assms tree by (simp add: mm_inv_def)
    have mx: "mx \<le> 6" using maxlevel_bounds(2) [OF n] by (simp add: mx_def)
    have keys: "mm_keys n m = tree_keys m mx" using mm_keys_tree [OF assms(1) tree(2)] by (simp add: mx_def)
    have run: "mmbit_iterate m n it = mmbit_iterate_big m n it"
      using tree by (auto simp: mmbit_iterate_def mmbit_is_flat_model_def)
    show ?thesis
    proof (cases "it = MMB_INVALID")
      case True
      then show ?thesis
        using iterate_big_loop_least [OF mx, of 0 0 0 m] unfolding run left_def keys
        by (simp add: mmbit_iterate_big_def Let_def mx_def [symmetric])
    next
      case False
      then have it: "it \<in> tree_keys m mx" using assms(2) keys by simp
      then have "reached m (Suc mx) it" by (simp add: tree_keys_def reached_leaf)
      then have "reached m mx (it div 64)" by (simp add: reached_Suc)
      moreover have "it div 64 < 64 ^ mx" using it by (simp add: tree_keys_def less_mult_imp_div_less mult.commute)
      moreover have "64 * (it div 64) + (it mod 64 + 1) = Suc it" by simp
      ultimately show ?thesis
        using iterate_big_loop_least [OF mx order_refl, of "it div 64" "it mod 64 + 1" m] False
        unfolding run left_def keys
        by (simp add: mmbit_iterate_big_def Let_def mx_def [symmetric] MMB_consts nat_and_masks drop_bit_eq_div Suc_le_eq)
    qed
  qed
  then show ?thesis unfolding left_def .
qed

interpretation mmi: bit_iteration "\<lambda>m. the (mmbit_iterate m n MMB_INVALID)" "\<lambda>m it. the (mmbit_iterate m n it)"
  MMB_INVALID "mm_keys n" "mm_inv n" for n
proof
  fix m it
  assume inv: "mm_inv n m"
  then have low: "k \<noteq> MMB_INVALID" if "k < n" for k
    using that by (auto simp: mm_inv_def MMB_MAX_BITS_def MMB_INVALID_def)
  show "the (mmbit_iterate m n MMB_INVALID) = least_or MMB_INVALID (mm_keys n m)"
    using mmbit_iterate_least [OF inv] by simp
  show "the (mmbit_iterate m n it) = least_or MMB_INVALID {j \<in> mm_keys n m. it < j}" if "it \<in> mm_keys n m"
    using mmbit_iterate_least [OF inv, of it] that low [of it] by (simp add: mm_keys_def)
  show "mm_keys n m \<subseteq> {..<MMB_INVALID}"
    using inv by (auto simp: mm_inv_def mm_keys_def MMB_MAX_BITS_def MMB_INVALID_def)
qed

lemma maxlevel_from_keyshift: "mx \<le> 5 \<Longrightarrow> mmbit_maxlevel_from_keyshift (6 * mx) = mx"
proof -
  have "list_all (\<lambda>mx. mmbit_maxlevel_from_keyshift (6 * mx) = mx) [0..<6]" by code_simp
  then show "mx \<le> 5 \<Longrightarrow> mmbit_maxlevel_from_keyshift (6 * mx) = mx" by (simp add: list_all_iff)
qed

lemma mmbit_iterate_bounded_least:
  assumes "mm_inv n m" "lo \<le> hi" "hi \<le> n"
  shows "mmbit_iterate_bounded m n lo hi = Some (least_or MMB_INVALID {k \<in> mm_keys n m. lo \<le> k \<and> k < hi})"
proof -
  define left where "left = {k \<in> mm_keys n m. lo \<le> k \<and> k < hi}"
  consider (none) "lo = hi" | (flat) "lo < hi" "n \<le> MMB_FLAT_MAX_BITS"
    | (tree) "lo < hi" "\<not> n \<le> MMB_FLAT_MAX_BITS" using assms(2) by linarith
  then have "mmbit_iterate_bounded m n lo hi = Some (least_or MMB_INVALID left)"
  proof cases
    case none
    then have "left = {}" by (auto simp: left_def)
    then show ?thesis using none by (simp add: mmbit_iterate_bounded_def)
  next
    case flat
    then have "left = range_keys hi m lo" using assms(3) by (auto simp: left_def mm_keys_flat range_keys_def)
    then show ?thesis
      using flat assms iterate_bounded_flat_least [of n m hi lo]
      by (simp add: mmbit_iterate_bounded_def mmbit_is_flat_model_def mm_inv_def)
  next
    case tree
    define mx where "mx = mmbit_maxlevel n"
    have n: "big_size n" using assms tree by (simp add: mm_inv_def)
    have mx: "mx \<le> 6" using maxlevel_bounds(2) [OF n] by (simp add: mx_def)
    have "lo \<le> 64 * 64 ^ mx" using maxlevel_bounds(3) [OF n] tree(1) assms(3) by (simp add: mx_def)
    then have "iterate_bounded_loop m mx (hi - 1) lo 0 (6 * mx) 0
        = Some (least_or MMB_INVALID {k \<in> tree_keys m mx. lo \<le> k \<and> k \<le> hi - 1})"
      by (intro iterate_bounded_loop_least [OF mx]) auto
    moreover have "mmbit_keyshift n = 6 * mx" "mmbit_maxlevel_from_keyshift (6 * mx) = mx"
      using maxlevel_bounds [OF n] maxlevel_from_keyshift by (simp_all add: mx_def)
    moreover have "{k \<in> tree_keys m mx. lo \<le> k \<and> k \<le> hi - 1} = left"
      using tree(1) mm_keys_tree [OF assms(1) tree(2)] by (auto simp: left_def mx_def)
    ultimately show ?thesis
      using tree assms(3) by (simp add: mmbit_iterate_bounded_def mmbit_iterate_bounded_big_def mmbit_is_flat_model_def Let_def)
  qed
  then show ?thesis unfolding left_def .
qed

section \<open>Is any key on?\<close>

lemma takeWhile_below: "(\<And>i j. P (j :: nat) \<Longrightarrow> i \<le> j \<Longrightarrow> P i) \<Longrightarrow> takeWhile P [a..<b] = filter P [a..<b]"
proof (induction "b - a" arbitrary: a)
  case (Suc x)
  have range: "[a..<b] = a # [Suc a..<b]" "x = b - Suc a" using Suc.hyps(2) by (simp_all add: upt_conv_Cons)
  show ?case
  proof (cases "P a")
    case True
    then show ?thesis unfolding range(1) using Suc.hyps(1) [OF range(2)] Suc.prems by simp
  next
    case False
    then have "\<not> P j" if "a \<le> j" for j using Suc.prems that by blast
    then have "filter P [a..<b] = []" by (simp add: filter_empty_conv)
    then show ?thesis unfolding range(1) using False by simp
  qed
qed simp

lemma any_flat_bits:
  assumes "flat_inv n m" "0 < n" "n \<le> MMB_FLAT_MAX_BITS"
  shows "mmbit_any_flat m n \<longleftrightarrow> (\<exists>k < n. gbit m k)"
proof (cases "n \<le> 64")
  case True
  have "mmbit_get_flat_block m 0 n \<noteq> 0 \<longleftrightarrow> (\<exists>k. k < n \<and> gbit m k)"
    using short_block_bits [OF assms(1), of 0] True assms(2) by (auto simp: block_0_iff)
  then show ?thesis using True by (simp add: mmbit_any_flat_def MMB_consts)
next
  case False
  define s where "s = mmbit_flat_size n"
  have s: "n \<le> 8 * s" "8 < s" using flat_size_bounds(1) [of n] False by (simp_all add: s_def)
  have load: "mmb_load m (int a) \<noteq> 0 \<longleftrightarrow> (\<exists>k < 64. gbit m (8 * a + k))" for a
    by (auto simp: block_0_iff mmb_load_def unaligned_load_u64a_def bit_load_gbit)
  have above: "k < n" if "gbit m k" "k < 8 * s" for k
    using assms(1) that by (auto simp: flat_inv_def s_def not_less)
  have blocks: "set (takeWhile (\<lambda>i. 8 * int i < int s - 8) [0..<s]) = {i. 8 * i + 8 < s}"
  proof -
    have "takeWhile (\<lambda>i. 8 * int i < int s - 8) [0..<s] = filter (\<lambda>i. 8 * int i < int s - 8) [0..<s]"
      by (rule takeWhile_below) linarith
    then show ?thesis by auto
  qed
  have "mmbit_any_flat m n \<longleftrightarrow> (\<exists>i. 8 * i + 8 < s \<and> mmb_load m (int (8 * i)) \<noteq> 0) \<or> mmb_load m (int (s - 8)) \<noteq> 0"
    using False s(2) blocks by (simp add: mmbit_any_flat_def MMB_consts Let_def list_ex_iff s_def [symmetric] of_nat_diff)
  also have "\<dots> \<longleftrightarrow> (\<exists>k < n. gbit m k)"
  proof
    assume "(\<exists>i. 8 * i + 8 < s \<and> mmb_load m (int (8 * i)) \<noteq> 0) \<or> mmb_load m (int (s - 8)) \<noteq> 0"
    then obtain a where "a + 8 \<le> s" "mmb_load m (int a) \<noteq> 0"
    proof (elim disjE exE)
      show thesis if "8 * i + 8 < s \<and> mmb_load m (int (8 * i)) \<noteq> 0" for i
        using that \<open>\<And>a. a + 8 \<le> s \<Longrightarrow> mmb_load m (int a) \<noteq> 0 \<Longrightarrow> thesis\<close> [of "8 * i"] by simp
      show thesis if "mmb_load m (int (s - 8)) \<noteq> 0"
        using that s(2) \<open>\<And>a. a + 8 \<le> s \<Longrightarrow> mmb_load m (int a) \<noteq> 0 \<Longrightarrow> thesis\<close> [of "s - 8"] by simp
    qed
    then obtain k where k: "a + 8 \<le> s" "k < 64" "gbit m (8 * a + k)" unfolding load by blast
    then have "8 * a + k < 8 * s" by simp
    then show "\<exists>k < n. gbit m k" using above k(3) by blast
  next
    assume "\<exists>k < n. gbit m k"
    then obtain k where k: "k < 8 * s" "gbit m k" using s(1) by (metis less_le_trans)
    show "(\<exists>i. 8 * i + 8 < s \<and> mmb_load m (int (8 * i)) \<noteq> 0) \<or> mmb_load m (int (s - 8)) \<noteq> 0"
    proof (cases "8 * (s - 8) \<le> k")
      case True
      then have "8 * (s - 8) + (k - 8 * (s - 8)) = k" "k - 8 * (s - 8) < 64" using k(1) by linarith+
      then have "mmb_load m (int (s - 8)) \<noteq> 0" unfolding load using k(2) by auto
      then show ?thesis by blast
    next
      case False
      have "mmb_load m (int (8 * (k div 64))) \<noteq> 0"
        unfolding load by (rule exI [of _ "k mod 64"]) (simp add: k(2))
      moreover have "8 * (k div 64) + 8 < s" using False s(2) by linarith
      ultimately show ?thesis by blast
    qed
  qed
  finally show ?thesis .
qed

text \<open>\<open>mmbit_any\<close> never misses a key; \<open>mmbit_any_precise\<close> is exact.\<close>

lemma mmbit_any_spec:
  assumes "mm_inv n m"
  shows "mm_keys n m \<noteq> {} \<Longrightarrow> mmbit_any m n" "mmbit_any_precise m n = Some (mm_keys n m \<noteq> {})"
proof -
  consider (none) "n = 0" | (flat) "0 < n" "n \<le> MMB_FLAT_MAX_BITS" | (tree) "\<not> n \<le> MMB_FLAT_MAX_BITS" by linarith
  then have "(mm_keys n m \<noteq> {} \<longrightarrow> mmbit_any m n) \<and> mmbit_any_precise m n = Some (mm_keys n m \<noteq> {})"
  proof cases
    case none
    then show ?thesis by (simp add: mm_keys_def mmbit_any_precise_def)
  next
    case flat
    then have "mmbit_any_flat m n \<longleftrightarrow> mm_keys n m \<noteq> {}"
      using assms any_flat_bits [OF _ flat, of m] by (auto simp: mm_inv_def mm_keys_flat)
    then show ?thesis
      using flat by (simp add: mmbit_any_def mmbit_any_precise_def mmbit_is_flat_model_def)
  next
    case tree
    define mx where "mx = mmbit_maxlevel n"
    have n: "big_size n" using assms tree by (simp add: mm_inv_def)
    have "mmb_load m 0 \<noteq> 0" if "k \<in> mm_keys n m" for k
    proof -
      have k: "k < 64 ^ Suc mx" "lv m 0 (anc mx 0 k)"
        using that mm_keys_tree [OF assms tree] by (auto simp: tree_keys_def on_path_def mx_def)
      have "bit (mmb_load m (int (8 * (root 0 + 0)))) (anc mx 0 k)"
        unfolding bit_load_block using k anc_less(1) [OF k(1), of 0] by simp
      then show ?thesis by (auto simp: root_def)
    qed
    then have "mm_keys n m \<noteq> {} \<Longrightarrow> mmbit_any m n"
      using tree by (auto simp: mmbit_any_def mmbit_is_flat_model_def)
    moreover have "mmbit_any_precise m n = Some (mm_keys n m \<noteq> {})"
    proof -
      have "n < MMB_INVALID" using n by (simp add: MMB_INVALID_def MMB_MAX_BITS_def)
      then have "MMB_INVALID \<noteq> n - 1" by linarith
      then have "mmbit_iterate_big m n MMB_INVALID = mmbit_iterate m n MMB_INVALID"
        using n by (auto simp: mmbit_iterate_def mmbit_is_flat_model_def)
      then have "mmbit_iterate_big m n MMB_INVALID = Some (least_or MMB_INVALID (mm_keys n m))"
        using mmbit_iterate_least [OF assms, of MMB_INVALID] by simp
      then have "mmbit_any_precise m n = Some (least_or MMB_INVALID (mm_keys n m) \<noteq> MMB_INVALID)"
        using tree by (simp add: mmbit_any_precise_def mmbit_is_flat_model_def)
      moreover have "Min (mm_keys n m) \<noteq> MMB_INVALID" if "mm_keys n m \<noteq> {}"
        using Min_in [OF finite_mm_keys that] mmi.elems_below [OF assms] by auto
      ultimately show ?thesis by (auto simp: least_or_def)
    qed
    ultimately show ?thesis by blast
  qed
  then show "mm_keys n m \<noteq> {} \<Longrightarrow> mmbit_any m n" "mmbit_any_precise m n = Some (mm_keys n m \<noteq> {})"
    by blast+
qed

section \<open>Unsetting a range\<close>

text \<open>In the tree: each round takes the least key of the range away.\<close>

lemma mm_keys_unset: "n \<le> MMB_MAX_BITS \<Longrightarrow> key < n \<Longrightarrow> mm_keys n (mmbit_unset m n key) = mm_keys n m - {key}"
  unfolding mm_keys_def by (rule mm.keys_unset)

lemma unset_range_loop_spec:
  assumes "\<not> n \<le> MMB_FLAT_MAX_BITS" "mm_inv n m" "lo \<le> hi" "hi \<le> n"
  shows "\<exists>m'. unset_range_loop m n lo hi = Some m' \<and> mm_inv n m' \<and> mm_keys n m' = mm_keys n m - {lo..<hi}"
  using assms(2,3)
proof (induction "hi - lo" arbitrary: m lo rule: less_induct)
  case less
  define left where "left = {k \<in> mm_keys n m. lo \<le> k \<and> k < hi}"
  have fin: "finite left" by (simp add: left_def)
  have n: "n \<le> MMB_MAX_BITS" using less.prems(1) by (simp add: mm_inv_def)
  have run: "unset_range_loop m n lo hi =
      (if least_or MMB_INVALID left = MMB_INVALID then Some m
       else let m = mmbit_unset_big m n (least_or MMB_INVALID left)
            in if least_or MMB_INVALID left + 1 = hi then Some m
               else unset_range_loop m n (least_or MMB_INVALID left + 1) hi)"
    by (subst unset_range_loop.simps)
      (simp add: mmbit_iterate_bounded_least [OF less.prems assms(4)] left_def [symmetric])
  show ?case
  proof (cases "left = {}")
    case True
    then have "mm_keys n m - {lo..<hi} = mm_keys n m" by (auto simp: left_def)
    then show ?thesis using run True less.prems(1) by simp
  next
    case False
    define k where "k = Min left"
    have k: "k \<in> left" "least_or MMB_INVALID left = k" "\<And>j. j \<in> left \<Longrightarrow> k \<le> j"
      using False fin by (simp_all add: k_def least_or_def)
    then have kn: "k < n" "lo \<le> k" "k < hi" by (simp_all add: left_def mm_keys_def)
    then have "k \<noteq> MMB_INVALID" using n by (simp add: MMB_MAX_BITS_def MMB_INVALID_def)
    define m' where "m' = mmbit_unset m n k"
    have m': "mmbit_unset_big m n k = m'" using assms(1) by (simp add: m'_def mmbit_unset_def mmbit_is_flat_model_def)
    have inv: "mm_inv n m'" unfolding m'_def by (rule mm_inv_unset [OF less.prems(1) kn(1)])
    have keys: "mm_keys n m' = mm_keys n m - {k}" unfolding m'_def by (rule mm_keys_unset [OF n kn(1)])
    have "j = k" if "j \<in> mm_keys n m" "lo \<le> j" "j \<le> k" for j
      using k(3) [of j] that kn(3) by (simp add: left_def)
    then have rest: "mm_keys n m' - {k + 1..<hi} = mm_keys n m - {lo..<hi}"
      using kn unfolding keys by (auto simp: not_less_eq_eq)
    show ?thesis
    proof (cases "k + 1 = hi")
      case True
      then have "mm_keys n m' = mm_keys n m - {lo..<hi}" using rest by simp
      then show ?thesis using run True k(2) \<open>k \<noteq> MMB_INVALID\<close> inv by (simp add: m')
    next
      case False
      then have "unset_range_loop m n lo hi = unset_range_loop m' n (k + 1) hi"
        using run k(2) \<open>k \<noteq> MMB_INVALID\<close> by (simp add: m')
      moreover have "hi - (k + 1) < hi - lo" "k + 1 \<le> hi" using kn by simp_all
      ultimately show ?thesis using less.hyps [of "k + 1" m'] inv rest by simp
    qed
  qed
qed

text \<open>In a flat multibit: whole blocks first, then the short one.\<close>

lemma gbit_mmb_store:
  "gbit (mmb_store m (int (b * 8)) v) i \<longleftrightarrow> (if i div 64 = b then bit v (i - 64 * b) else gbit m i)"
proof -
  have "8 * (b * 8) \<le> i \<and> i < 8 * (b * 8) + 64 \<longleftrightarrow> i div 64 = b" by linarith
  then show ?thesis
    using gbit_store [of 8 m "b * 8" v i] by (simp add: mmb_store_def unaligned_store_u64a_def)
qed

lemma gbit_unset_block:
  "gbit (mmb_store m (int (b * 8)) (mmb_load m (int (b * 8)) AND NOT (get_flat_masks (b * 64) lo hi))) i
    \<longleftrightarrow> gbit m i \<and> \<not> (i div 64 = b \<and> lo \<le> i \<and> i < hi)"
proof (cases "i div 64 = b")
  case True
  then obtain j where j: "i = 64 * b + j" "j < 64"
    by (metis mult_div_mod_eq mod_less_divisor zero_less_numeral)
  then show ?thesis
    unfolding gbit_mmb_store bit_and_iff bit_not_iff_eq bit_flat_load bit_get_flat_masks mult.commute [of b 64]
    using True by simp
next
  case False
  then show ?thesis unfolding gbit_mmb_store by simp
qed

lemma gbit_unset_blocks:
  "gbit (foldl (\<lambda>m b. mmb_store m (int (b * 8))
      (mmb_load m (int (b * 8)) AND NOT (get_flat_masks (b * 64) lo hi))) m bs) i
    \<longleftrightarrow> gbit m i \<and> \<not> (i div 64 \<in> set bs \<and> lo \<le> i \<and> i < hi)"
  by (induction bs arbitrary: m) (auto simp only: foldl.simps gbit_unset_block list.set insert_iff)

lemma unset_range_flat_gbit:
  assumes "flat_inv n m" "hi \<le> n" "0 < n"
  shows "gbit (mmbit_unset_range_flat m n lo hi) i \<longleftrightarrow> gbit m i \<and> \<not> (lo \<le> i \<and> i < hi)"
proof -
  define s where "s = n div 64"
  define bs where "bs = takeWhile (\<lambda>b. b * 64 < min hi (s * 64)) [lo div 64..<Suc s]"
  define m1 where "m1 = foldl (\<lambda>m b. mmb_store m (int (b * 8))
      (mmb_load m (int (b * 8)) AND NOT (get_flat_masks (b * 64) lo hi))) m bs"
  have "bs = filter (\<lambda>b. b * 64 < min hi (s * 64)) [lo div 64..<Suc s]"
    unfolding bs_def by (rule takeWhile_below) linarith
  then have bs: "set bs = {b. lo div 64 \<le> b \<and> b * 64 < hi \<and> b < s}" by auto
  have m1: "gbit m1 i \<longleftrightarrow> gbit m i \<and> \<not> (lo \<le> i \<and> i < hi \<and> i < 64 * s)" for i
  proof -
    have "i div 64 \<in> set bs \<longleftrightarrow> i < 64 * s" if "lo \<le> i" "i < hi"
      using that unfolding bs by (auto simp: div_le_mono less_mult_imp_div_less)
    then show ?thesis unfolding m1_def gbit_unset_blocks by blast
  qed
  define v where "v = mmbit_get_flat_block m1 (int (s * 64 div 8)) (n - s * 64) AND NOT (get_flat_masks (s * 64) lo hi)"
  have run: "mmbit_unset_range_flat m n lo hi =
      (if hi > s * 64 then mmb_store_partial m1 (int (s * 64 div 8)) v (n - s * 64) else m1)"
    unfolding mmbit_unset_range_flat_def ROUNDDOWN_N_def MMB_consts Let_def v_def m1_def bs_def s_def by (rule refl)
  show ?thesis
  proof (cases "hi > s * 64")
    case False
    then show ?thesis using m1 [of i] run by auto
  next
    case True
    then have short: "64 * s < n" "n \<le> 64 * s + 64" using assms(2) by (auto simp: s_def)
    define nb where "nb = (n - 64 * s + 7) div 8"
    have nb: "nb \<le> 8" "n \<le> 64 * s + 8 * nb" "64 * s + 8 * nb < n + 8" using short unfolding nb_def by linarith+
    have inv: "flat_inv n m1" using assms(1) m1 by (auto simp: flat_inv_def)
    have place: "s * 64 div 8 = s * 8" "ROUNDUP_N (n - 64 * s) 8 div 8 = nb" by (simp_all add: ROUNDUP_N_def nb_def)
    have v: "bit v (i - 64 * s) \<longleftrightarrow> i < n \<and> gbit m1 i \<and> \<not> (lo \<le> i \<and> i < hi)" if i: "64 * s \<le> i" "i < 64 * s + 8 * nb"
    proof -
      obtain j where j: "i = 64 * s + j" using i(1) by (auto simp: le_iff_add)
      then have "j < 64" using i(2) nb(1) by simp
      then show ?thesis
        unfolding j v_def place(1)
        unfolding mult.commute [of s 64] bit_and_iff bit_not_iff_eq short_block_bits [OF inv short] bit_get_flat_masks
        by simp
    qed
    have "gbit (mmb_store_partial m1 (int (s * 64 div 8)) v (n - s * 64)) i \<longleftrightarrow>
        (if 64 * s \<le> i \<and> i < 64 * s + 8 * nb then bit v (i - 64 * s) else gbit m1 i)"
      using gbit_store [of nb m1 "s * 8" v i] nb(1)
      by (simp add: mmb_store_partial_def place mult.commute [of s 64] partial_store_u64a_le mult.commute [of s 8])
    then have step: "gbit (mmbit_unset_range_flat m n lo hi) i \<longleftrightarrow>
        (if 64 * s \<le> i \<and> i < 64 * s + 8 * nb then bit v (i - 64 * s) else gbit m1 i)"
      using run True by simp
    have size: "64 * s + 8 * nb = 8 * mmbit_flat_size n"
    proof -
      obtain r where r: "n = 64 * s + r" using short(1) less_imp_add_positive by blast
      have "(64 * s + r + 7) div 8 = 8 * s + (r + 7) div 8"
        using div_plus_div_distrib_dvd_left [of 8 "64 * s" "r + 7"] by (simp add: add.assoc)
      then show ?thesis by (simp add: mmbit_flat_size_def ROUNDUP_N_def nb_def r)
    qed
    show ?thesis
    proof (cases "64 * s \<le> i \<and> i < 64 * s + 8 * nb")
      case True
      then have "gbit m i \<Longrightarrow> i < n" using assms(1) size by (auto simp: flat_inv_def not_less)
      then show ?thesis using True step v m1 [of i] by auto
    next
      case False
      then have "i < 64 * s \<or> hi \<le> i" using nb(2) assms(2) by linarith
      then show ?thesis using False step m1 [of i] by auto
    qed
  qed
qed

lemma mmbit_unset_range_spec:
  assumes "mm_inv n m" "lo \<le> hi" "hi \<le> n"
  shows "\<exists>m'. mmbit_unset_range m n lo hi = Some m' \<and> mm_inv n m' \<and> mm_keys n m' = mm_keys n m - {lo..<hi}"
proof (cases "n \<le> MMB_FLAT_MAX_BITS")
  case False
  then show ?thesis
    using unset_range_loop_spec [OF False assms] by (simp add: mmbit_unset_range_def mmbit_is_flat_model_def)
next
  case True
  define m' where "m' = mmbit_unset_range_flat m n lo hi"
  have "gbit m' i \<longleftrightarrow> gbit m i \<and> \<not> (lo \<le> i \<and> i < hi)" for i
  proof (cases "n = 0")
    case True
    then show ?thesis
      using assms(3) by (simp add: m'_def mmbit_unset_range_flat_def ROUNDDOWN_N_def Let_def MMB_consts)
  next
    case False
    then show ?thesis
      unfolding m'_def using assms True unset_range_flat_gbit [of n m hi lo i] by (simp add: mm_inv_def)
  qed
  then have "mm_inv n m'" "mm_keys n m' = mm_keys n m - {lo..<hi}"
    using assms(1) True by (auto simp: mm_inv_def flat_inv_def mm_keys_flat)
  then show ?thesis using True by (simp add: mmbit_unset_range_def mmbit_is_flat_model_def m'_def)
qed

section \<open>What the walks promise\<close>

lemma mm_run_inv:
  assumes "mm_inv n m" "\<forall>x \<in> set ops. op_ok n x"
  shows "mm_inv n (mm_run n m ops)"
  using assms
proof (induction ops arbitrary: m)
  case (Cons x ops)
  have "mm_inv n (case x of MmSet k \<Rightarrow> fst (mmbit_set m n k) | MmUnset k \<Rightarrow> mmbit_unset m n k | MmClear \<Rightarrow> mmbit_clear m n)"
    using Cons.prems mm_inv_set mm_inv_unset mm_inv_clear mm_inv_size by (cases x) auto
  then show ?case using Cons by (simp add: mm_run_def)
qed (simp add: mm_run_def)

text \<open>A multibit that starts with a clear.\<close>

lemma mm_run_clear:
  assumes "n \<le> MMB_MAX_BITS" "\<forall>x \<in> set ops. op_ok n x"
  shows "mm_inv n (mm_run n m (MmClear # ops))" "mm_keys n (mm_run n m (MmClear # ops)) = foldl set_op {} ops"
proof -
  have "mm_run n m (MmClear # ops) = mm_run n (mmbit_clear m n) ops" by (simp add: mm_run_def)
  then show "mm_inv n (mm_run n m (MmClear # ops))"
    using mm_run_inv [OF mm_inv_clear [OF assms(1)] assms(2)] by simp
  show "mm_keys n (mm_run n m (MmClear # ops)) = foldl set_op {} ops"
    using mm.keys_run [of n "MmClear # ops" m] assms by (simp add: mm_keys_def mm_run_def)
qed

text \<open>
  C35. Whatever the memory holds, after a clear and any sets and unsets the loop over
  \<open>mmbit_iterate\<close> visits exactly the keys that are on, each once and in increasing order, and each of its
  calls returns.
\<close>

theorem multibit_walk:
  assumes "n \<le> MMB_MAX_BITS" "\<forall>x \<in> set ops. op_ok n x"
  shows "iterate_from (\<lambda>m it. the (mmbit_iterate m n it)) MMB_INVALID (mm_run n m (MmClear # ops)) MMB_INVALID
      (the (mmbit_iterate (mm_run n m (MmClear # ops)) n MMB_INVALID)) = sorted_list_of_set (foldl set_op {} ops)
    \<and> (\<forall>it. it = MMB_INVALID \<or> it \<in> foldl set_op {} ops \<longrightarrow>
        mmbit_iterate (mm_run n m (MmClear # ops)) n it \<noteq> None)"
  using mmi.iterate_sorted [OF mm_run_clear(1) [OF assms]] mmbit_iterate_least [OF mm_run_clear(1) [OF assms]]
  by (auto simp: mm_run_clear(2) [OF assms])

theorem multibit_walk_witness:
  "iterate_from (\<lambda>m it. the (mmbit_iterate m 1000 it)) MMB_INVALID
     (mm_run 1000 (\<lambda>_. 0x5a) [MmClear, MmSet 999, MmSet 5, MmSet 70]) MMB_INVALID
     (the (mmbit_iterate (mm_run 1000 (\<lambda>_. 0x5a) [MmClear, MmSet 999, MmSet 5, MmSet 70]) 1000 MMB_INVALID))
   = [5, 70, 999]"
  using multibit_walk [of 1000 "[MmSet 999, MmSet 5, MmSet 70]" "\<lambda>_. 0x5a"] by (simp add: MMB_MAX_BITS_def)

text \<open>
  C36. \<open>mmbit_iterate_bounded\<close> returns the least key of the range that is on, or \<open>MMB_INVALID\<close>,
  \<open>mmbit_unset_range\<close> ends and takes exactly the keys of the range away, \<open>mmbit_any_precise\<close> tells whether a
  key is on and \<open>mmbit_any\<close> never misses one.
\<close>

theorem multibit_ranges:
  assumes "mm_inv n m" "lo \<le> hi" "hi \<le> n"
  shows "mmbit_iterate_bounded m n lo hi = Some (least_or MMB_INVALID {k \<in> mm_keys n m. lo \<le> k \<and> k < hi})
    \<and> (\<exists>m'. mmbit_unset_range m n lo hi = Some m' \<and> mm_inv n m' \<and> mm_keys n m' = mm_keys n m - {lo..<hi})
    \<and> mmbit_any_precise m n = Some (mm_keys n m \<noteq> {}) \<and> (mm_keys n m \<noteq> {} \<longrightarrow> mmbit_any m n)"
  using mmbit_iterate_bounded_least [OF assms] mmbit_unset_range_spec [OF assms] mmbit_any_spec [OF assms(1)] by blast

theorem multibit_ranges_witness:
  "mmbit_iterate_bounded (mm_run 1000 (\<lambda>_. 0x5a) [MmClear, MmSet 999, MmSet 5, MmSet 70]) 1000 6 900 = Some 70"
proof -
  define m where "m = mm_run 1000 (\<lambda>_. 0x5a) [MmClear, MmSet 999, MmSet 5, MmSet 70]"
  have m: "mm_inv 1000 m" "mm_keys 1000 m = {5, 70, 999}"
    using mm_run_clear [of 1000 "[MmSet 999, MmSet 5, MmSet 70]" "\<lambda>_. 0x5a"]
    by (auto simp: m_def MMB_MAX_BITS_def)
  have "{k \<in> mm_keys 1000 m. 6 \<le> k \<and> k < 900} = {70}" by (auto simp: m(2))
  then show ?thesis using multibit_ranges [OF m(1), of 6 900] by (simp add: m_def least_or_def)
qed

end
