(* ===== verification/MultibitRange.thy ===== *)
theory MultibitRange
  imports MultibitKeys
begin

text \<open>
  Setting a whole multibit: \<open>mmbit_init_range\<close> and \<open>mmbit_all\<close> (\<open>src/util/multibit.h\<close>).
\<close>

section \<open>Initialising a range\<close>

definition mmbit_init_range_flat :: "mem \<Rightarrow> nat \<Rightarrow> nat \<Rightarrow> nat \<Rightarrow> mem" where
  "mmbit_init_range_flat m total_bits begin_key end_key =
     (let last_block = ROUNDDOWN_N total_bits MMB_KEY_BITS;
          m = foldl (\<lambda>m i. mmb_store m (int (i * MMB_KEY_BITS div 8)) (get_flat_masks (i * MMB_KEY_BITS) begin_key end_key))
                m [0..<last_block div MMB_KEY_BITS]
      in if total_bits mod MMB_KEY_BITS \<noteq> 0 then
           let num_bits = total_bits - last_block; block = get_flat_masks last_block begin_key end_key
           in mmb_store_partial m (int (last_block div 8)) block num_bits
         else m)"

text \<open>The blocks of one level, from the first bit \<open>k1\<close> to the end \<open>k2\<close>.\<close>

function ones_loop :: "mem \<Rightarrow> int \<Rightarrow> nat \<Rightarrow> nat \<Rightarrow> mem \<times> int \<times> nat" where
  "ones_loop m block k1 limit =
     (if k1 < limit then ones_loop (mmb_store m block MMB_ALL_ONES) (block + 8) (k1 + MMB_KEY_BITS) limit
      else (m, block, k1))"
  by pat_completeness auto
termination by (relation "measure (\<lambda>(m, b, k, l). l - k)") (auto simp: MMB_KEY_BITS_def)

declare ones_loop.simps [simp del]

definition init_range_rest :: "mem \<Rightarrow> int \<Rightarrow> nat \<Rightarrow> nat \<Rightarrow> mem" where
  "init_range_rest m block k1 k2 =
     (let (m, block, k1) = ones_loop m block k1 (ROUNDDOWN_N k2 MMB_KEY_BITS)
      in if k1 < k2 then mmb_store m block (mmb_mask_zero_to_nocheck (k2 mod MMB_KEY_BITS)) else m)"

definition init_range_level :: "mem \<Rightarrow> nat \<Rightarrow> nat \<Rightarrow> nat \<Rightarrow> nat \<Rightarrow> mem" where
  "init_range_level m ks level begin_key end_key =
     (let block = mmbit_get_level_root level;
          k1 = drop_bit ks begin_key; k2 = drop_bit ks end_key;
          k2 = (if push_bit ks k2 \<noteq> end_key then k2 + 1 else k2);
          block = block + int (k1 div MMB_KEY_BITS * 8)
      in if k1 mod MMB_KEY_BITS \<noteq> 0 then
           let idx = k1 div MMB_KEY_BITS; block_end = (idx + 1) * MMB_KEY_BITS;
               mk = push_bit (k1 mod MMB_KEY_BITS) MMB_ALL_ONES
           in if k2 < block_end then
                mmb_store m block (mk AND mmb_mask_zero_to_nocheck (k2 mod MMB_KEY_BITS))
              else init_range_rest (mmb_store m block mk) (block + 8) block_end k2
         else init_range_rest m block k1 k2)"

function init_range_loop :: "mem \<Rightarrow> nat \<Rightarrow> nat \<Rightarrow> nat \<Rightarrow> nat \<Rightarrow> mem" where
  "init_range_loop m ks level begin_key end_key =
     (let m = init_range_level m ks level begin_key end_key
      in if ks = 0 then m else init_range_loop m (ks - MMB_KEY_SHIFT) (level + 1) begin_key end_key)"
  by pat_completeness auto
termination by (relation "measure (\<lambda>(m, ks, l, b, e). ks)") (auto simp: MMB_KEY_SHIFT_def)

declare init_range_loop.simps [simp del]

definition mmbit_init_range_big :: "mem \<Rightarrow> nat \<Rightarrow> nat \<Rightarrow> nat \<Rightarrow> mem" where
  "mmbit_init_range_big m total_bits begin_key end_key =
     init_range_loop m (mmbit_keyshift total_bits) 0 begin_key end_key"

definition mmbit_init_range :: "mem \<Rightarrow> nat \<Rightarrow> nat \<Rightarrow> nat \<Rightarrow> mem" where
  "mmbit_init_range m total_bits begin_key end_key =
     (if total_bits = 0 then m
      else if begin_key = end_key then mmbit_clear m total_bits
      else if mmbit_is_flat_model total_bits then mmbit_init_range_flat m total_bits begin_key end_key
      else mmbit_init_range_big m total_bits begin_key end_key)"

section \<open>Are all keys on?\<close>

function all_flat_blocks :: "mem \<Rightarrow> int \<Rightarrow> nat \<Rightarrow> (int \<times> nat) option" where
  "all_flat_blocks m p bits =
     (if bits > MMB_KEY_BITS then
        if mmb_load m p \<noteq> MMB_ALL_ONES then None else all_flat_blocks m (p + 8) (bits - MMB_KEY_BITS)
      else Some (p, bits))"
  by pat_completeness auto
termination by (relation "measure (\<lambda>(m, p, b). b)") (auto simp: MMB_KEY_BITS_def)

function all_flat_bytes :: "mem \<Rightarrow> int \<Rightarrow> nat \<Rightarrow> (int \<times> nat) option" where
  "all_flat_bytes m p bits =
     (if bits > 8 then if m p \<noteq> 0xff then None else all_flat_bytes m (p + 1) (bits - 8)
      else Some (p, bits))"
  by pat_completeness auto
termination by (relation "measure (\<lambda>(m, p, b). b)") auto

definition mmbit_all_flat :: "mem \<Rightarrow> nat \<Rightarrow> bool" where
  "mmbit_all_flat m total_bits =
     (case all_flat_blocks m 0 total_bits of
        None \<Rightarrow> False
      | Some (p, bits) \<Rightarrow>
          (case all_flat_bytes m p bits of
             None \<Rightarrow> False
           | Some (p, bits) \<Rightarrow>
               let mk = (ucast (mmb_mask_zero_to_nocheck bits) :: u8) in m p AND mk = mk))"

function all_level_blocks :: "mem \<Rightarrow> int \<Rightarrow> nat \<Rightarrow> (int \<times> nat) option" where
  "all_level_blocks m p bits =
     (if bits \<ge> MMB_KEY_BITS then
        if mmb_load m p \<noteq> MMB_ALL_ONES then None else all_level_blocks m (p + 8) (bits - MMB_KEY_BITS)
      else Some (p, bits))"
  by pat_completeness auto
termination by (relation "measure (\<lambda>(m, p, b). b)") (auto simp: MMB_KEY_BITS_def)

function all_big_loop :: "mem \<Rightarrow> nat \<Rightarrow> nat \<Rightarrow> nat \<Rightarrow> bool" where
  "all_big_loop m total_bits ks level =
     (let level_bits = (if ks \<noteq> 0 then drop_bit ks (ROUNDUP_N total_bits (push_bit (ks - MMB_KEY_SHIFT) MMB_KEY_BITS))
                        else total_bits)
      in case all_level_blocks m (mmbit_get_level_root level) level_bits of
           None \<Rightarrow> False
         | Some (p, bits) \<Rightarrow>
             if bits > 0 \<and> mmb_load m p AND mmb_mask_zero_to_nocheck bits \<noteq> mmb_mask_zero_to_nocheck bits then False
             else if ks = 0 then True
             else all_big_loop m total_bits (ks - MMB_KEY_SHIFT) (level + 1))"
  by pat_completeness auto
termination by (relation "measure (\<lambda>(m, n, ks, l). ks)") (auto simp: MMB_KEY_SHIFT_def)

declare all_flat_blocks.simps [simp del] all_flat_bytes.simps [simp del]
  all_level_blocks.simps [simp del] all_big_loop.simps [simp del]

definition mmbit_all :: "mem \<Rightarrow> nat \<Rightarrow> bool" where
  "mmbit_all m total_bits =
     (if mmbit_is_flat_model total_bits then mmbit_all_flat m total_bits
      else all_big_loop m total_bits (mmbit_keyshift total_bits) 0)"

section \<open>Lemmas: what one level gets\<close>

lemma bit_ones_from: "bit (push_bit r MMB_ALL_ONES) i \<longleftrightarrow> r \<le> i \<and> i < 64"
  by (auto simp: bit_push_bit_iff bit_MMB_ALL_ONES)

lemma ones_loop_spec:
  assumes "a \<le> c" "c \<le> 64 ^ l"
  shows "case ones_loop m (int (8 * (root l + a))) (64 * a) (64 * c) of (m', p, k) \<Rightarrow>
    p = int (8 * (root l + c)) \<and> k = 64 * c
    \<and> (\<forall>l' j. j < 64 ^ Suc l' \<longrightarrow>
        (lv m' l' j \<longleftrightarrow> (if l' = l \<and> a \<le> j div 64 \<and> j div 64 < c then True else lv m l' j)))"
  using assms(1)
proof (induction "c - a" arbitrary: a m)
  case 0
  then show ?case by (subst ones_loop.simps) auto
next
  case (Suc x)
  define m1 where "m1 = mmb_store m (int (8 * (root l + a))) MMB_ALL_ONES"
  have lt: "a < c" "x = c - Suc a" using Suc.hyps(2) by simp_all
  have step: "ones_loop m (int (8 * (root l + a))) (64 * a) (64 * c)
      = ones_loop m1 (int (8 * (root l + Suc a))) (64 * Suc a) (64 * c)"
    using lt by (subst ones_loop.simps) (simp add: m1_def MMB_consts algebra_simps)
  have m1: "lv m1 l' j \<longleftrightarrow> (if l' = l \<and> j div 64 = a then True else lv m l' j)" if "j < 64 ^ Suc l'" for l' j
    using lv_store [of a l j l' m MMB_ALL_ONES] lt(1) assms(2) that by (simp add: m1_def bit_MMB_ALL_ONES)
  show ?case
    unfolding step using Suc.hyps(1) [OF lt(2), of m1] lt(1) m1 by (auto simp: not_less_eq_eq split: prod.splits)
qed

text \<open>The blocks between \<open>k1\<close> and \<open>k2\<close> are written, and no other bit of any level changes.\<close>

definition level_set :: "nat \<Rightarrow> nat \<Rightarrow> nat \<Rightarrow> mem \<Rightarrow> mem \<Rightarrow> bool" where
  "level_set l k1 k2 m m' \<longleftrightarrow> (\<forall>l' j. j < 64 ^ Suc l' \<longrightarrow>
     (lv m' l' j \<longleftrightarrow> (if l' = l \<and> k1 div 64 \<le> j div 64 \<and> 64 * (j div 64) < k2 then k1 \<le> j \<and> j < k2 else lv m l' j)))"

lemma init_range_rest_spec:
  assumes "64 * a \<le> k2" "k2 \<le> 64 ^ Suc l"
  shows "level_set l (64 * a) k2 m (init_range_rest m (int (8 * (root l + a))) (64 * a) k2)"
proof -
  define c where "c = k2 div 64"
  have c: "a \<le> c" "c \<le> 64 ^ l" "64 * c \<le> k2" "k2 < 64 * c + 64" using assms by (auto simp: c_def)
  obtain m1 where m1: "ones_loop m (int (8 * (root l + a))) (64 * a) (64 * c) = (m1, int (8 * (root l + c)), 64 * c)"
    and lv1: "\<And>l' j. j < 64 ^ Suc l' \<Longrightarrow>
        lv m1 l' j \<longleftrightarrow> (if l' = l \<and> a \<le> j div 64 \<and> j div 64 < c then True else lv m l' j)"
    using ones_loop_spec [OF c(1,2), of m] by (auto split: prod.splits)
  have run: "init_range_rest m (int (8 * (root l + a))) (64 * a) k2 =
      (if 64 * c < k2 then mmb_store m1 (int (8 * (root l + c))) (mmb_mask_zero_to_nocheck (k2 mod 64)) else m1)"
    unfolding init_range_rest_def ROUNDDOWN_N_def MMB_consts c_def [symmetric] mult.commute [of c 64] m1 by simp
  have low: "a \<le> j div 64 \<and> j div 64 < c \<Longrightarrow> 64 * a \<le> j \<and> j < k2" for j using c by linarith
  show ?thesis
  proof (cases "64 * c < k2")
    case False
    then have "64 * (j div 64) < k2 \<longleftrightarrow> j div 64 < c" for j using c by linarith
    then show ?thesis unfolding level_set_def run using False lv1 low by auto
  next
    case True
    have "c < 64 ^ l" using True assms(2) by simp
    then have "lv (mmb_store m1 (int (8 * (root l + c))) (mmb_mask_zero_to_nocheck (k2 mod 64))) l' j
        = (if l' = l \<and> j div 64 = c then j mod 64 < k2 mod 64 else lv m1 l' j)" if "j < 64 ^ Suc l'" for l' j
      using lv_store [of c l j l'] that by (simp add: bit_mask_zero_to_nocheck)
    moreover have "j mod 64 < k2 mod 64 \<longleftrightarrow> 64 * a \<le> j \<and> j < k2" if "j div 64 = c" for j
    proof -
      have "64 * c + j mod 64 = j" "64 * c + k2 mod 64 = k2" using that c_def by (metis mult_div_mod_eq)+
      then show ?thesis using c(1) by linarith
    qed
    moreover have "64 * (j div 64) < k2 \<longleftrightarrow> j div 64 < c \<or> j div 64 = c" for j using c True by linarith
    ultimately show ?thesis unfolding level_set_def run using True lv1 low c(1) by auto
  qed
qed

text \<open>One level: \<open>k1\<close> and \<open>k2\<close> bound the bits that lead to the keys of the range.\<close>

lemma level_end:
  fixes end_key :: nat
  assumes "0 < end_key"
  shows "(if push_bit ks (drop_bit ks end_key) \<noteq> end_key then drop_bit ks end_key + 1 else drop_bit ks end_key)
    = (end_key - 1) div 2 ^ ks + 1"
proof (cases "2 ^ ks dvd end_key")
  case True
  then obtain q where q: "end_key = 2 ^ ks * q" by blast
  then have "0 < q" using assms by (cases q) auto
  have "(2 ^ ks * q - 1) div 2 ^ ks = q - 1"
  proof (rule div_nat_eqI)
    show "2 ^ ks * (q - 1) \<le> 2 ^ ks * q - 1" by (simp add: diff_mult_distrib2 diff_le_mono2 Suc_leI)
    show "2 ^ ks * q - 1 < 2 ^ ks * Suc (q - 1)" using \<open>0 < q\<close> by simp
  qed
  then show ?thesis using \<open>0 < q\<close> by (simp add: q push_bit_eq_mult drop_bit_eq_div)
next
  case False
  have "(end_key - 1) div 2 ^ ks = end_key div 2 ^ ks"
  proof (rule div_nat_eqI)
    have "0 < end_key mod 2 ^ ks" using False by (simp add: dvd_eq_mod_eq_0)
    then show "2 ^ ks * (end_key div 2 ^ ks) \<le> end_key - 1" using mult_div_mod_eq [of "2 ^ ks" end_key] by linarith
    show "end_key - 1 < 2 ^ ks * Suc (end_key div 2 ^ ks)"
      using assms dividend_less_times_div [of "2 ^ ks" end_key] by simp
  qed
  moreover have "end_key div 2 ^ ks * 2 ^ ks \<noteq> end_key" using False by (metis dvd_triv_right)
  ultimately show ?thesis by (simp add: push_bit_eq_mult drop_bit_eq_div)
qed

lemma init_range_level_spec:
  assumes "begin_key < end_key" "l \<le> 6" "(end_key - 1) div 2 ^ ks < 64 ^ Suc l"
  shows "level_set l (begin_key div 2 ^ ks) ((end_key - 1) div 2 ^ ks + 1) m (init_range_level m ks l begin_key end_key)"
proof -
  define k1 where "k1 = begin_key div 2 ^ ks"
  define k2 where "k2 = (end_key - 1) div 2 ^ ks + 1"
  define a where "a = k1 div 64"
  define p where "p = int (8 * (root l + a))"
  have k12: "k1 < k2" using assms(1) by (auto simp: k1_def k2_def less_Suc_eq_le intro!: div_le_mono)
  have k2le: "k2 \<le> 64 ^ Suc l" using assms(3) by (simp add: k2_def)
  have up: "(if push_bit ks (drop_bit ks end_key) \<noteq> end_key then drop_bit ks end_key + 1 else drop_bit ks end_key) = k2"
    using level_end [of end_key ks] assms(1) by (simp add: k2_def)
  have ptr: "mmbit_get_level_root l + int (k1 div 64 * 8) = p" using assms(2) by (simp add: level_root p_def a_def)
  have run: "init_range_level m ks l begin_key end_key =
      (if k1 mod 64 \<noteq> 0 then
         if k2 < (a + 1) * 64 then
           mmb_store m p (push_bit (k1 mod 64) MMB_ALL_ONES AND mmb_mask_zero_to_nocheck (k2 mod 64))
         else init_range_rest (mmb_store m p (push_bit (k1 mod 64) MMB_ALL_ONES)) (p + 8) ((a + 1) * 64) k2
       else init_range_rest m p k1 k2)"
    unfolding init_range_level_def Let_def MMB_consts up
    unfolding drop_bit_eq_div k1_def [symmetric] ptr by (simp only: a_def)
  have "a < 64 ^ l" using k12 k2le by (auto simp: a_def less_mult_imp_div_less)
  then have one: "lv (mmb_store m p v) l' j \<longleftrightarrow> (if l' = l \<and> j div 64 = a then bit v (j mod 64) else lv m l' j)"
    if "j < 64 ^ Suc l'" for v l' j
    unfolding p_def using lv_store that by blast
  have ak: "64 * a \<le> k1" "k1 < 64 * a + 64"
    using mult_div_mod_eq [of 64 k1] unfolding a_def by simp_all
  have place: "k1 mod 64 \<le> j mod 64 \<longleftrightarrow> k1 \<le> j" if "j div 64 = a" for j
    using that a_def mult_div_mod_eq [of 64 j] mult_div_mod_eq [of 64 k1] by linarith
  show ?thesis unfolding k1_def [symmetric] k2_def [symmetric]
  proof (cases "k1 mod 64 = 0")
    case True
    then have k1: "k1 = 64 * a" using mult_div_mod_eq [of 64 k1] by (simp add: a_def)
    show "level_set l k1 k2 m (init_range_level m ks l begin_key end_key)"
      using init_range_rest_spec [of a k2 l m] k12 k2le unfolding run k1 p_def by simp
  next
    case start: False
    show "level_set l k1 k2 m (init_range_level m ks l begin_key end_key)"
    proof (cases "k2 < (a + 1) * 64")
      case True
      have "k2 div 64 < a + 1" using True by (rule less_mult_imp_div_less)
      moreover have "a \<le> k2 div 64" using k12 by (simp add: a_def div_le_mono)
      ultimately have k2: "k2 div 64 = a" by simp
      have "j mod 64 < k2 mod 64 \<longleftrightarrow> j < k2" if "j div 64 = a" for j
        using that k2 mult_div_mod_eq [of 64 j] mult_div_mod_eq [of 64 k2] by linarith
      moreover have "a \<le> j div 64 \<and> 64 * (j div 64) < k2 \<longleftrightarrow> j div 64 = a" for j
        using True k12 ak by (cases "j div 64" a rule: linorder_cases) auto
      ultimately show ?thesis
        unfolding level_set_def run a_def [symmetric] using start True place
        by (simp add: one bit_and_iff bit_ones_from bit_mask_zero_to_nocheck)
    next
      case False
      define m1 where "m1 = mmb_store m p (push_bit (k1 mod 64) MMB_ALL_ONES)"
      have next_block: "p + 8 = int (8 * (root l + Suc a))" "(a + 1) * 64 = 64 * Suc a" by (simp_all add: p_def)
      have "level_set l (64 * Suc a) k2 m1 (init_range_level m ks l begin_key end_key)"
        using init_range_rest_spec [of "Suc a" k2 l m1] False start k2le
        unfolding run m1_def [symmetric] next_block by simp
      moreover have "lv m1 l' j \<longleftrightarrow> (if l' = l \<and> j div 64 = a then k1 \<le> j else lv m l' j)" if "j < 64 ^ Suc l'" for l' j
        using that place by (simp add: m1_def one bit_ones_from)
      moreover have "k1 \<le> j" if "Suc a \<le> j div 64" for j
        using mult_le_mono2 [OF that, of 64] ak(2) div_times_less_eq_dividend [of j 64] by simp
      moreover have "64 * (j div 64) < k2" "j < k2" if "j div 64 = a" for j
        using that False dividend_less_times_div [of 64 j] by simp_all
      ultimately show ?thesis
        unfolding level_set_def a_def [symmetric] by (auto simp: not_less_eq_eq le_Suc_eq)
    qed
  qed
qed

text \<open>All levels.\<close>

lemma init_range_loop_spec:
  assumes "begin_key < end_key" "end_key \<le> 64 ^ Suc mx" "mx \<le> 6" "level \<le> mx" "j < 64 ^ Suc l'"
  shows "lv (init_range_loop m (6 * (mx - level)) level begin_key end_key) l' j \<longleftrightarrow>
    (if level \<le> l' \<and> l' \<le> mx \<and> anc mx l' begin_key div 64 \<le> j div 64 \<and> 64 * (j div 64) < anc mx l' (end_key - 1) + 1
     then anc mx l' begin_key \<le> j \<and> j < anc mx l' (end_key - 1) + 1 else lv m l' j)"
  using assms(4)
proof (induction "mx - level" arbitrary: level m)
  case (0 level m)
  then have l: "level = mx" by simp
  have "level_set mx begin_key (end_key - 1 + 1) m (init_range_level m 0 mx begin_key end_key)"
    using init_range_level_spec [OF assms(1,3), of 0 m] assms(1,2) by simp
  then show ?case
    using assms(5) unfolding l level_set_def by (subst init_range_loop.simps) (auto simp: anc_simps)
next
  case (Suc x level m)
  define ks where "ks = 6 * (mx - level)"
  define m1 where "m1 = init_range_level m ks level begin_key end_key"
  have lt: "level < mx" "x = mx - Suc level" using Suc.hyps(2) by simp_all
  have w: "2 ^ ks = (64 :: nat) ^ (mx - level)" by (simp add: ks_def power_mult)
  have "end_key - 1 < 64 ^ Suc mx" using assms(1,2) by linarith
  then have "anc mx level (end_key - 1) < 64 ^ Suc level" using anc_less(1) lt(1) by simp
  then have "level_set level (anc mx level begin_key) (anc mx level (end_key - 1) + 1) m m1"
    using init_range_level_spec [OF assms(1), of level ks m] lt(1) assms(3) by (simp add: w anc_def m1_def)
  then have m1: "lv m1 l' j \<longleftrightarrow> (if l' = level \<and> anc mx l' begin_key div 64 \<le> j div 64
        \<and> 64 * (j div 64) < anc mx l' (end_key - 1) + 1
      then anc mx l' begin_key \<le> j \<and> j < anc mx l' (end_key - 1) + 1 else lv m l' j)"
    using assms(5) unfolding level_set_def by auto
  have "init_range_loop m (6 * (mx - level)) level begin_key end_key
      = init_range_loop m1 (6 * (mx - Suc level)) (Suc level) begin_key end_key"
  proof -
    have "6 * (mx - Suc level) = ks - 6" "ks \<noteq> 0" using lt by (simp_all add: ks_def diff_mult_distrib2)
    then show ?thesis
      unfolding ks_def [symmetric]
      by (subst init_range_loop.simps) (simp only: Let_def MMB_consts m1_def if_False Suc_eq_plus1)
  qed
  then show ?case
    using Suc.hyps(1) [OF lt(2), of m1] lt(1) m1 by (auto simp: Suc_le_eq)
qed

lemma init_range_big_keys:
  assumes "big_size n" "begin_key < end_key" "end_key \<le> n"
  shows "mm_inv n (mmbit_init_range_big m n begin_key end_key)"
    "mm_keys n (mmbit_init_range_big m n begin_key end_key) = {begin_key..<end_key}"
proof -
  define mx where "mx = mmbit_maxlevel n"
  define m' where "m' = mmbit_init_range_big m n begin_key end_key"
  have mx: "mx \<le> 6" "n \<le> 64 ^ Suc mx" "mmbit_keyshift n = 6 * (mx - 0)"
    using maxlevel_bounds [OF assms(1)] by (simp_all add: mx_def)
  have e: "end_key \<le> 64 ^ Suc mx" using assms(3) mx(2) by linarith
  have lv: "lv m' l j \<longleftrightarrow> (if anc mx l begin_key div 64 \<le> j div 64 \<and> 64 * (j div 64) < anc mx l (end_key - 1) + 1
      then anc mx l begin_key \<le> j \<and> j < anc mx l (end_key - 1) + 1 else lv m l j)"
    if "l \<le> mx" "j < 64 ^ Suc l" for l j
    using init_range_loop_spec [OF assms(2) e mx(1) le0 that(2), of m] that(1)
    by (simp add: m'_def mmbit_init_range_big_def mx(3))
  have range: "anc mx l begin_key \<le> anc mx l k \<and> anc mx l k \<le> anc mx l (end_key - 1)"
    if "on_prefix m' mx l k" "k < 64 ^ Suc mx" "l \<le> mx" for l k
    using that(1,3)
  proof (induction l)
    case 0
    have "anc mx 0 x < 64" if "x < 64 ^ Suc mx" for x using anc_less(1) [OF that, of 0] by simp
    moreover have "begin_key < 64 ^ Suc mx" using assms(2) e by linarith
    ultimately have "anc mx 0 k div 64 = 0" "anc mx 0 begin_key div 64 = 0" using that(2) by simp_all
    then show ?case
      using 0 lv [of 0 "anc mx 0 k"] anc_less(1) [OF that(2), of 0] by (auto simp: on_prefix_def)
  next
    case (Suc l)
    have "on_prefix m' mx l k" using Suc.prems(1) by (simp add: on_prefix_def)
    then have up: "anc mx l begin_key \<le> anc mx l k" "anc mx l k \<le> anc mx l (end_key - 1)"
      using Suc by simp_all
    have div: "anc mx (Suc l) x div 64 = anc mx l x" for x using Suc.prems(2) by (simp add: anc_simps)
    have "64 * (anc mx (Suc l) k div 64) \<le> 64 * (anc mx (Suc l) (end_key - 1) div 64)"
      unfolding div using up by simp
    then have "64 * (anc mx (Suc l) k div 64) < anc mx (Suc l) (end_key - 1) + 1"
      using div_times_less_eq_dividend [of "anc mx (Suc l) (end_key - 1)" 64] by linarith
    then show ?case
      using lv [of "Suc l" "anc mx (Suc l) k"] Suc.prems anc_less(1) [OF that(2) Suc.prems(2)] up
      by (auto simp: on_prefix_def div)
  qed
  have "anc mx l k * 64 ^ (mx - l) < n" if "on_prefix m' mx l k" "k < 64 ^ Suc mx" "l \<le> mx" for l k
  proof -
    have "anc mx l k * 64 ^ (mx - l) \<le> anc mx l (end_key - 1) * 64 ^ (mx - l)"
      using range [OF that] by simp
    also have "\<dots> \<le> end_key - 1" by (simp add: anc_def)
    finally show ?thesis using assms(2,3) by linarith
  qed
  then show inv: "mm_inv n (mmbit_init_range_big m n begin_key end_key)"
    using assms(1) unfolding m'_def [symmetric] mm_inv_def Let_def mx_def [symmetric] by auto
  have "on_path m' mx k \<longleftrightarrow> begin_key \<le> k \<and> k < end_key" if "k < 64 ^ Suc mx" for k
  proof
    assume "on_path m' mx k"
    then show "begin_key \<le> k \<and> k < end_key"
      using range [of mx k] that assms(2) by (auto simp: on_prefix_path anc_simps)
  next
    assume k: "begin_key \<le> k \<and> k < end_key"
    have "lv m' l (anc mx l k)" if "l \<le> mx" for l
    proof -
      have "anc mx l begin_key \<le> anc mx l k" "anc mx l k \<le> anc mx l (end_key - 1)"
        using k by (auto simp: anc_def intro!: div_le_mono)
      moreover have "64 * (anc mx l k div 64) \<le> anc mx l k" by simp
      ultimately show ?thesis
        using lv [OF that anc_less(1) [OF \<open>k < 64 ^ Suc mx\<close> that]] by (auto simp: div_le_mono)
    qed
    then show "on_path m' mx k" by (simp add: on_path_def)
  qed
  then have "tree_keys m' mx = {begin_key..<end_key}" using e by (auto simp: tree_keys_def)
  then show "mm_keys n (mmbit_init_range_big m n begin_key end_key) = {begin_key..<end_key}"
    using mm_keys_tree [OF inv] assms(1) by (simp add: m'_def mx_def)
qed

text \<open>The flat blocks.\<close>

lemma gbit_init_block:
  "gbit (mmb_store m (int (b * 8)) (get_flat_masks (b * 64) lo hi)) i
    \<longleftrightarrow> (if i div 64 = b then lo \<le> i \<and> i < hi else gbit m i)"
proof (cases "i div 64 = b")
  case True
  then obtain j where j: "i = 64 * b + j" "j < 64"
    by (metis mult_div_mod_eq mod_less_divisor zero_less_numeral)
  then show ?thesis
    unfolding gbit_mmb_store bit_get_flat_masks mult.commute [of b 64] using True by simp
next
  case False
  then show ?thesis unfolding gbit_mmb_store by simp
qed

lemma gbit_init_blocks:
  "gbit (foldl (\<lambda>m b. mmb_store m (int (b * 64 div 8)) (get_flat_masks (b * 64) lo hi)) m [0..<s]) i
    \<longleftrightarrow> (if i div 64 < s then lo \<le> i \<and> i < hi else gbit m i)"
proof (induction s)
  case (Suc s)
  have "s * 64 div 8 = s * 8" by simp
  then show ?case
    using Suc by (simp only: upt_Suc_append le0 foldl_append foldl.simps gbit_init_block) auto
qed simp

lemma flat_size_split: "mmbit_flat_size n = 8 * (n div 64) + (n - n div 64 * 64 + 7) div 8"
proof -
  define s where "s = n div 64"
  obtain r where r: "n = 64 * s + r" by (metis s_def mult_div_mod_eq)
  have "(64 * s + r + 7) div 8 = 8 * s + (r + 7) div 8"
    using div_plus_div_distrib_dvd_left [of 8 "64 * s" "r + 7"] by (simp add: add.assoc)
  then show ?thesis unfolding s_def [symmetric] by (simp add: mmbit_flat_size_def ROUNDUP_N_def r)
qed

lemma init_range_flat_gbit:
  "gbit (mmbit_init_range_flat m n lo hi) i \<longleftrightarrow>
    (if i < 8 * mmbit_flat_size n then lo \<le> i \<and> i < hi else gbit m i)"
proof -
  define s where "s = n div 64"
  define nb where "nb = (n - s * 64 + 7) div 8"
  define m1 where "m1 = foldl (\<lambda>m b. mmb_store m (int (b * 64 div 8)) (get_flat_masks (b * 64) lo hi)) m [0..<s]"
  have m1: "gbit m1 i \<longleftrightarrow> (if i < 64 * s then lo \<le> i \<and> i < hi else gbit m i)" for i
    unfolding m1_def gbit_init_blocks by (simp add: div_less_iff_less_mult mult.commute)
  have size: "8 * mmbit_flat_size n = 64 * s + 8 * nb" by (simp add: flat_size_split s_def nb_def)
  have ptr: "int (s * 64 div 8) = int (s * 8)" by simp
  have run: "mmbit_init_range_flat m n lo hi =
      (if n mod 64 \<noteq> 0 then mmb_store_partial m1 (int (s * 64 div 8)) (get_flat_masks (s * 64) lo hi) (n - s * 64) else m1)"
    unfolding mmbit_init_range_flat_def ROUNDDOWN_N_def MMB_consts Let_def s_def [symmetric]
    by (simp add: m1_def)
  show ?thesis
  proof (cases "n mod 64 = 0")
    case True
    then have "nb = 0" using mult_div_mod_eq [of 64 n] by (simp add: nb_def s_def)
    then show ?thesis unfolding run size using True m1 by simp
  next
    case False
    have nb: "nb \<le> 8" using dividend_less_times_div [of 64 n] unfolding nb_def s_def by linarith
    have bits: "bit (get_flat_masks (s * 64) lo hi) (i - 64 * s) \<longleftrightarrow> lo \<le> i \<and> i < hi"
      if "64 * s \<le> i" "i < 64 * s + 8 * nb"
    proof -
      have "s * 64 + (i - 64 * s) = i" "i - 64 * s < 64" using that nb by linarith+
      then show ?thesis unfolding bit_get_flat_masks by simp
    qed
    have "ROUNDUP_N (n - s * 64) 8 div 8 = nb" by (simp add: ROUNDUP_N_def nb_def)
    then have "gbit (mmb_store_partial m1 (int (s * 8)) v (n - s * 64)) i \<longleftrightarrow>
        (if 64 * s \<le> i \<and> i < 64 * s + 8 * nb then bit v (i - 64 * s) else gbit m1 i)" for v
      using gbit_store [of nb m1 "s * 8" v i] nb
      by (simp add: mmb_store_partial_def partial_store_u64a_le mult.commute [of s 8])
    then show ?thesis unfolding run size ptr using False bits m1 [of i] by auto
  qed
qed

text \<open>From any memory, exactly the range is on, and the invariant holds.\<close>

lemma mmbit_init_range_keys:
  assumes "n \<le> MMB_MAX_BITS" "lo \<le> hi" "hi \<le> n"
  shows "mm_inv n (mmbit_init_range m n lo hi)" "mm_keys n (mmbit_init_range m n lo hi) = {lo..<hi}"
proof -
  consider (none) "n = 0" | (clear) "0 < n" "lo = hi" | (flat) "0 < n" "lo < hi" "n \<le> MMB_FLAT_MAX_BITS"
    | (tree) "lo < hi" "\<not> n \<le> MMB_FLAT_MAX_BITS" using assms(2) by linarith
  then have "mm_inv n (mmbit_init_range m n lo hi) \<and> mm_keys n (mmbit_init_range m n lo hi) = {lo..<hi}"
  proof cases
    case none
    then show ?thesis using assms
      by (auto simp: mm_inv_def mm_keys_def flat_inv_def mmbit_flat_size_def ROUNDUP_N_def MMB_MAX_BITS_def)
  next
    case clear
    then show ?thesis
      using mm_inv_clear [OF assms(1), of m] mm.keys_clear [OF assms(1), of m]
      by (simp add: mmbit_init_range_def mm_keys_def)
  next
    case flat
    then have run: "mmbit_init_range m n lo hi = mmbit_init_range_flat m n lo hi"
      by (simp add: mmbit_init_range_def mmbit_is_flat_model_def)
    have "flat_inv n (mmbit_init_range_flat m n lo hi)"
      using assms(3) by (auto simp: flat_inv_def init_range_flat_gbit)
    moreover have "k < n \<Longrightarrow> k < 8 * mmbit_flat_size n" for k using flat_size_bounds(1) [of n] by linarith
    ultimately show ?thesis
      unfolding run using flat assms by (auto simp: mm_inv_def mm_keys_flat init_range_flat_gbit)
  next
    case tree
    then show ?thesis
      using init_range_big_keys [of n lo hi m] assms
      by (auto simp: mmbit_init_range_def mmbit_is_flat_model_def)
  qed
  then show "mm_inv n (mmbit_init_range m n lo hi)" "mm_keys n (mmbit_init_range m n lo hi) = {lo..<hi}" by blast+
qed

section \<open>Lemmas: all keys\<close>

lemma all_split: "(\<forall>j < a + n. P j) \<longleftrightarrow> (\<forall>j < a. P j) \<and> (\<forall>j < n. P (a + j))" for a n :: nat
proof (intro iffI conjI allI impI)
  fix j
  assume "(\<forall>j < a. P j) \<and> (\<forall>j < n. P (a + j))" "j < a + n"
  then show "P j" by (cases "j < a") (auto simp: not_less le_iff_add)
qed auto

lemma load_ones:
  assumes "\<And>k. bit (mmb_load m p) k \<longleftrightarrow> k < 64 \<and> P k"
  shows "mmb_load m p = MMB_ALL_ONES \<longleftrightarrow> (\<forall>k < 64. P k)"
  by (auto simp: bit_eq_iff assms bit_MMB_ALL_ONES)

lemma and_mask_bits:
  assumes "r < 64"
  shows "v AND mmb_mask_zero_to_nocheck r = mmb_mask_zero_to_nocheck r \<longleftrightarrow> (\<forall>k < r. bit v k)"
proof -
  have "(\<forall>k < 64. (bit v k \<and> k < r) = (k < r)) \<longleftrightarrow> (\<forall>k < r. bit v k)" using assms by (meson less_trans)
  then show ?thesis by (simp add: bit_eq_iff bit_and_iff bit_mask_zero_to_nocheck [OF assms])
qed

lemma all_level_blocks_spec:
  "case all_level_blocks m (int (8 * (root l + a))) bits of
     None \<Rightarrow> \<not> (\<forall>j < bits. lv m l (64 * a + j))
   | Some (p, r) \<Rightarrow> p = int (8 * (root l + (a + bits div 64))) \<and> r = bits mod 64
       \<and> (\<forall>j < 64 * (bits div 64). lv m l (64 * a + j))"
proof (induction bits arbitrary: a rule: less_induct)
  case (less bits)
  show ?case
  proof (cases "64 \<le> bits")
    case False
    then show ?thesis by (subst all_level_blocks.simps) (simp add: MMB_consts)
  next
    case True
    then obtain n where n: "bits = 64 + n" by (auto simp: le_iff_add)
    have ones: "mmb_load m (int (8 * (root l + a))) = MMB_ALL_ONES \<longleftrightarrow> (\<forall>k < 64. lv m l (64 * a + k))"
      by (rule load_ones) (rule bit_load_block)
    have step: "all_level_blocks m (int (8 * (root l + a))) bits =
        (if \<forall>k < 64. lv m l (64 * a + k) then all_level_blocks m (int (8 * (root l + Suc a))) n else None)"
      unfolding n by (subst all_level_blocks.simps) (simp add: MMB_consts flip: ones, simp add: algebra_simps)
    have parts: "bits div 64 = Suc (n div 64)" "bits mod 64 = n mod 64" "64 * Suc (n div 64) = 64 + 64 * (n div 64)"
      using n by simp_all
    show ?thesis
      using less.IH [of n "Suc a"] n unfolding step parts
      by (auto simp: all_split [of 64] add.assoc add.left_commute [of 64] split: option.splits)
  qed
qed

lemma all_big_unfold:
  assumes "l \<le> 6"
  defines "level_bits \<equiv> \<lambda>n ks. if ks \<noteq> 0 then drop_bit ks (ROUNDUP_N n (push_bit (ks - 6) 64)) else n"
  shows "all_big_loop m n ks l \<longleftrightarrow>
    (\<forall>j < level_bits n ks. lv m l j) \<and> (ks = 0 \<or> all_big_loop m n (ks - 6) (Suc l))"
proof -
  define B where "B = level_bits n ks"
  define c where "c = B div 64"
  define v where "v = mmb_load m (int (8 * (root l + c)))"
  have run: "all_big_loop m n ks l \<longleftrightarrow>
      (case all_level_blocks m (int (8 * (root l + 0))) B of
         None \<Rightarrow> False
       | Some (p, bits) \<Rightarrow>
           if bits > 0 \<and> mmb_load m p AND mmb_mask_zero_to_nocheck bits \<noteq> mmb_mask_zero_to_nocheck bits then False
           else if ks = 0 then True else all_big_loop m n (ks - 6) (Suc l))"
    using assms(1) unfolding B_def level_bits_def
    by (subst all_big_loop.simps) (simp only: Let_def MMB_consts level_root add_0_right Suc_eq_plus1)
  have runt: "v AND mmb_mask_zero_to_nocheck (B mod 64) = mmb_mask_zero_to_nocheck (B mod 64)
      \<longleftrightarrow> (\<forall>k < B mod 64. lv m l (64 * c + k))"
    unfolding v_def and_mask_bits [OF mod_less_divisor [OF zero_less_numeral]] bit_load_block
    by (meson less_trans mod_less_divisor zero_less_numeral)
  have split: "(\<forall>j < B. lv m l j) \<longleftrightarrow> (\<forall>j < 64 * c. lv m l j) \<and> (\<forall>k < B mod 64. lv m l (64 * c + k))"
    using all_split [of "64 * c" "B mod 64"] by (simp add: c_def)
  show ?thesis
  proof (cases "all_level_blocks m (int (8 * (root l + 0))) B")
    case None
    then have "\<not> (\<forall>j < B. lv m l j)" using all_level_blocks_spec [where m = m and l = l and a = 0 and bits = B] by simp
    then show ?thesis unfolding run None B_def [symmetric] by simp
  next
    case (Some x)
    then have x: "x = (int (8 * (root l + c)), B mod 64)" "\<forall>j < 64 * c. lv m l j"
      using all_level_blocks_spec [where m = m and l = l and a = 0 and bits = B] by (auto simp: c_def split: prod.splits)
    show ?thesis
      unfolding run Some x(1) B_def [symmetric] split option.case prod.case v_def [symmetric] runt using x(2) by auto
  qed
qed

text \<open>The level whose bits stand for \<open>2 ^ ks\<close> keys.\<close>

lemma all_big_loop_spec:
  assumes "0 < n" "mx \<le> 6" "level \<le> mx"
  shows "all_big_loop m n (6 * (mx - level)) level \<longleftrightarrow>
    (\<forall>l. level \<le> l \<and> l \<le> mx \<longrightarrow> (\<forall>j \<le> anc mx l (n - 1). lv m l j))"
  using assms(3)
proof (induction "mx - level" arbitrary: level)
  case 0
  then have l: "level = mx" by simp
  have "(\<forall>j < n. P j) \<longleftrightarrow> (\<forall>j \<le> n - 1. P j)" for P using assms(1) by (cases n) (simp_all add: less_Suc_eq_le)
  then show ?case unfolding l using all_big_unfold [OF assms(2), where m = m and n = n and ks = 0] by (auto simp: anc_simps)
next
  case (Suc x)
  define ks where "ks = 6 * (mx - level)"
  have lt: "level < mx" "x = mx - Suc level" using Suc.hyps(2) by simp_all
  have ks: "ks \<noteq> 0" "ks - 6 = 6 * (mx - Suc level)" "6 \<le> ks" using lt by (simp_all add: ks_def diff_mult_distrib2)
  have w: "(2 :: nat) ^ ks = 64 ^ (mx - level)" by (simp add: ks_def power_mult)
  obtain d where d: "ks = 6 + d" using ks(3) by (auto simp: le_iff_add)
  have "(2 :: nat) ^ ks = 64 * 2 ^ (ks - 6)" unfolding d by (simp add: power_add)
  then have "ROUNDUP_N n (push_bit (ks - 6) 64) = (n - 1 + 2 ^ ks) div 2 ^ ks * 2 ^ ks"
    using assms(1) by (simp add: ROUNDUP_N_def push_bit_eq_mult)
  then have "drop_bit ks (ROUNDUP_N n (push_bit (ks - 6) 64)) = Suc (anc mx level (n - 1))"
    using div_add_self2 [of "(2 :: nat) ^ ks" "n - 1"] by (simp add: drop_bit_eq_div anc_def w)
  then show ?case
    using Suc.hyps(1) [OF lt(2)] lt(1) all_big_unfold [where l = level and m = m and n = n and ks = ks] assms(2) ks
    unfolding ks_def [symmetric] by (auto simp: all_from_level [OF less_imp_le [OF lt(1)]] less_Suc_eq_le Suc_le_eq)
qed

text \<open>The flat form: whole blocks, then whole bytes, then the last byte.\<close>

lemma all_flat_blocks_spec:
  "case all_flat_blocks m (int (8 * a)) bits of
     None \<Rightarrow> \<not> (\<forall>j < bits. gbit m (64 * a + j))
   | Some (p, r) \<Rightarrow> \<exists>c. p = int (8 * (a + c)) \<and> bits = 64 * c + r \<and> (\<forall>j < 64 * c. gbit m (64 * a + j))"
proof (induction bits arbitrary: a rule: less_induct)
  case (less bits)
  show ?case
  proof (cases "64 < bits")
    case False
    then show ?thesis by (subst all_flat_blocks.simps) (auto simp: MMB_consts intro: exI [of _ 0])
  next
    case True
    then obtain n where n: "bits = 64 + n" by (auto simp: less_iff_Suc_add)
    have ones: "mmb_load m (int (8 * a)) = MMB_ALL_ONES \<longleftrightarrow> (\<forall>k < 64. gbit m (64 * a + k))"
      using bit_flat_load [of m a] by (intro load_ones) (simp add: mult.commute)
    have step: "all_flat_blocks m (int (8 * a)) bits =
        (if \<forall>k < 64. gbit m (64 * a + k) then all_flat_blocks m (int (8 * Suc a)) n else None)"
      using True unfolding n
      by (subst all_flat_blocks.simps) (simp add: MMB_consts flip: ones, simp add: algebra_simps)
    show ?thesis
    proof (cases "\<forall>k < 64. gbit m (64 * a + k)")
      case False
      then show ?thesis unfolding step unfolding n by (auto simp: all_split [of 64])
    next
      case True
      show ?thesis
      proof (cases "all_flat_blocks m (int (8 * Suc a)) n")
        case None
        then show ?thesis
          using less.IH [of n "Suc a"] n True unfolding step
          by (auto simp: all_split [of 64] add.assoc add.left_commute [of 64])
      next
        case (Some x)
        then obtain c where c: "fst x = int (8 * (Suc a + c))" "n = 64 * c + snd x" "\<forall>j < 64 * c. gbit m (64 * Suc a + j)"
          using less.IH [of n "Suc a"] n by (auto split: prod.splits)
        have "\<forall>j < 64 * Suc c. gbit m (64 * a + j)"
          using True c(3) by (simp add: all_split [of 64] add.assoc add.left_commute [of 64])
        then show ?thesis
          using c Some True unfolding step unfolding n by (auto split: prod.splits intro!: exI [of _ "Suc c"])
      qed
    qed
  qed
qed

lemma gbit_byte: "k < 8 \<Longrightarrow> gbit m (8 * a + k) \<longleftrightarrow> bit (m (int a)) k"
  by (simp add: gbit_def)

lemma all_flat_bytes_spec:
  "case all_flat_bytes m (int a) bits of
     None \<Rightarrow> \<not> (\<forall>j < bits. gbit m (8 * a + j))
   | Some (p, r) \<Rightarrow> r \<le> 8 \<and> (\<exists>c. p = int (a + c) \<and> bits = 8 * c + r \<and> (\<forall>j < 8 * c. gbit m (8 * a + j)))"
proof (induction bits arbitrary: a rule: less_induct)
  case (less bits)
  show ?case
  proof (cases "8 < bits")
    case False
    then show ?thesis by (subst all_flat_bytes.simps) (auto intro: exI [of _ 0])
  next
    case True
    then obtain n where n: "bits = 8 + n" by (auto simp: less_iff_Suc_add)
    have "(0xff :: u8) = mask 8" by (simp add: mask_eq_exp_minus_1)
    then have ones: "m (int a) = 0xff \<longleftrightarrow> (\<forall>k < 8. gbit m (8 * a + k))"
      by (auto simp: bit_eq_iff bit_mask_iff gbit_byte)
    have step: "all_flat_bytes m (int a) bits =
        (if \<forall>k < 8. gbit m (8 * a + k) then all_flat_bytes m (int (Suc a)) n else None)"
      using True unfolding n by (subst all_flat_bytes.simps) (simp flip: ones, simp add: algebra_simps)
    show ?thesis
    proof (cases "\<forall>k < 8. gbit m (8 * a + k)")
      case False
      then show ?thesis unfolding step unfolding n by (auto simp: all_split [of 8])
    next
      case True
      show ?thesis
      proof (cases "all_flat_bytes m (int (Suc a)) n")
        case None
        then show ?thesis
          using less.IH [of n "Suc a"] n True unfolding step
          by (auto simp: all_split [of 8] add.assoc add.left_commute [of 8])
      next
        case (Some x)
        then obtain c where c: "snd x \<le> 8" "fst x = int (Suc a + c)" "n = 8 * c + snd x"
            "\<forall>j < 8 * c. gbit m (8 * Suc a + j)"
          using less.IH [of n "Suc a"] n by (auto split: prod.splits)
        have "\<forall>j < 8 * Suc c. gbit m (8 * a + j)"
          using True c(4) by (simp add: all_split [of 8] add.assoc add.left_commute [of 8])
        then show ?thesis
          using c Some True unfolding step unfolding n by (auto split: prod.splits intro!: exI [of _ "Suc c"])
      qed
    qed
  qed
qed

lemma mmbit_all_flat_gbit: "mmbit_all_flat m n \<longleftrightarrow> (\<forall>k < n. gbit m k)"
proof (cases "all_flat_blocks m 0 n")
  case None
  then show ?thesis using all_flat_blocks_spec [where m = m and a = 0 and bits = n] by (simp add: mmbit_all_flat_def)
next
  case (Some x)
  then obtain c where c: "fst x = int (8 * c)" "n = 64 * c + snd x" "\<forall>j < 64 * c. gbit m j"
    using all_flat_blocks_spec [where m = m and a = 0 and bits = n] by (auto split: prod.splits)
  have start: "(\<forall>k < n. gbit m k) \<longleftrightarrow> (\<forall>j < snd x. gbit m (64 * c + j))"
    using all_split [of "64 * c" "snd x" "gbit m", folded c(2)] c(3) by argo
  show ?thesis
  proof (cases "all_flat_bytes m (int (8 * c)) (snd x)")
    case None
    then have "\<not> (\<forall>j < snd x. gbit m (64 * c + j))"
      using all_flat_bytes_spec [where m = m and a = "8 * c" and bits = "snd x"] by simp
    then show ?thesis using None Some c(1) start by (auto simp: mmbit_all_flat_def split: prod.splits)
  next
    case (Some y)
    then obtain d where d: "snd y \<le> 8" "fst y = int (8 * c + d)" "snd x = 8 * d + snd y"
        "\<forall>j < 8 * d. gbit m (64 * c + j)"
      using all_flat_bytes_spec [where m = m and a = "8 * c" and bits = "snd x"] by (auto split: prod.splits)
    define mk where "mk = (ucast (mmb_mask_zero_to_nocheck (snd y)) :: u8)"
    have bits: "bit mk k \<longleftrightarrow> k < snd y" for k
      using d(1) bit_mask_zero_to_nocheck [of "snd y" k] by (auto simp: mk_def bit_ucast_iff)
    have "m (int (8 * c + d)) AND mk = mk \<longleftrightarrow> (\<forall>k < snd y. bit (m (int (8 * c + d))) k)"
    proof -
      have "(\<forall>k < 8. (bit v k \<and> k < snd y) = (k < snd y)) \<longleftrightarrow> (\<forall>k < snd y. bit v k)" for v :: u8
        using d(1) by (meson less_le_trans)
      then show ?thesis by (simp add: bit_eq_iff bit_and_iff bits)
    qed
    also have "\<dots> \<longleftrightarrow> (\<forall>k < snd y. gbit m (64 * c + (8 * d + k)))"
    proof -
      have "gbit m (64 * c + (8 * d + k)) \<longleftrightarrow> bit (m (int (8 * c + d))) k" if "k < snd y" for k
      proof -
        have "64 * c + (8 * d + k) = 8 * (8 * c + d) + k" by simp
        moreover have "k < 8" using that d(1) by linarith
        ultimately show ?thesis by (simp only: gbit_byte)
      qed
      then show ?thesis by blast
    qed
    also have "\<dots> \<longleftrightarrow> (\<forall>j < snd x. gbit m (64 * c + j))"
      using all_split [of "8 * d" "snd y" "\<lambda>j. gbit m (64 * c + j)", folded d(3)] d(4) by argo
    finally have last_byte: "m (int (8 * c + d)) AND mk = mk \<longleftrightarrow> (\<forall>j < snd x. gbit m (64 * c + j))" .
    have "mmbit_all_flat m n \<longleftrightarrow> m (int (8 * c + d)) AND mk = mk"
      using \<open>all_flat_blocks m 0 n = Some x\<close> Some c(1) d(2)
      by (cases x; cases y) (simp add: mmbit_all_flat_def mk_def Let_def)
    then show ?thesis unfolding last_byte start .
  qed
qed

text \<open>\<open>mmbit_all\<close> is exact for any memory.\<close>

lemma all_keys_iff: "(\<forall>k < n. P k) \<longleftrightarrow> {k. k < n \<and> P k} = {0..<n}" for n :: nat
  unfolding set_eq_iff by simp blast

lemma mmbit_all_spec:
  assumes "n \<le> MMB_MAX_BITS"
  shows "mmbit_all m n \<longleftrightarrow> mm_keys n m = {0..<n}"
proof (cases "n \<le> MMB_FLAT_MAX_BITS")
  case True
  then show ?thesis
    by (simp add: all_keys_iff mmbit_all_def mmbit_is_flat_model_def mmbit_all_flat_gbit mm_keys_flat)
next
  case False
  define mx where "mx = mmbit_maxlevel n"
  have n: "big_size n" "0 < n" using assms False by simp_all
  have mx: "mx \<le> 6" "mmbit_keyshift n = 6 * (mx - 0)" using maxlevel_bounds [OF n(1)] by (simp_all add: mx_def)
  have "mmbit_all m n \<longleftrightarrow> (\<forall>l \<le> mx. \<forall>j \<le> anc mx l (n - 1). lv m l j)"
    using all_big_loop_spec [OF n(2) mx(1) le0, of m] False by (simp add: mmbit_all_def mmbit_is_flat_model_def mx(2))
  also have "\<dots> \<longleftrightarrow> (\<forall>k < n. on_path m mx k)"
  proof (intro iffI allI impI)
    fix k
    assume "\<forall>l \<le> mx. \<forall>j \<le> anc mx l (n - 1). lv m l j" "k < n"
    moreover have "anc mx l k \<le> anc mx l (n - 1)" for l using \<open>k < n\<close> by (simp add: anc_def div_le_mono)
    ultimately show "on_path m mx k" by (simp add: on_path_def)
  next
    fix l j
    assume all: "\<forall>k < n. on_path m mx k" and l: "l \<le> mx" and j: "j \<le> anc mx l (n - 1)"
    have "j * 64 ^ (mx - l) \<le> anc mx l (n - 1) * 64 ^ (mx - l)" using j by simp
    also have "\<dots> \<le> n - 1" by (simp add: anc_def)
    finally have "j * 64 ^ (mx - l) < n" using n(2) by simp
    then have "on_path m mx (j * 64 ^ (mx - l))" using all by blast
    then show "lv m l j" using l by (auto simp: on_path_def anc_def)
  qed
  also have "\<dots> \<longleftrightarrow> mm_keys n m = {0..<n}"
    using n by (simp add: all_keys_iff mm_keys_def mmbit_isset_def mmbit_is_flat_model_def isset_big_path mx_def)
  finally show ?thesis .
qed

text \<open>The bytes below the base stay.\<close>

lemma init_range_flat_below: "a < 0 \<Longrightarrow> mmbit_init_range_flat m n lo hi a = m a"
proof -
  assume a: "a < 0"
  have store: "mmb_store m (int p) v a = m a" for m p v
    using a by (simp add: mmb_store_def unaligned_store_u64a_def store_le_at)
  have fold: "foldl (\<lambda>m i. mmb_store m (int (f i)) (g i)) m xs a = m a" for f g and xs :: "nat list"
    by (induction xs arbitrary: m) (simp_all add: store)
  have "mmb_store_partial m (int p) v (n - ROUNDDOWN_N n MMB_KEY_BITS) a = m a" for m p v
  proof -
    have "(n - n div 64 * 64 + 7) div 8 \<le> 8" using dividend_less_times_div [of 64 n] by linarith
    then show ?thesis
      using a by (simp add: mmb_store_partial_def partial_store_u64a_le ROUNDUP_N_def ROUNDDOWN_N_def MMB_consts store_le_at)
  qed
  then show ?thesis by (simp add: mmbit_init_range_flat_def Let_def fold)
qed

end
