(* ===== verification/MultibitPlan.thy ===== *)
theory MultibitPlan
  imports MultibitRange
begin

text \<open>
  The plans that the compiler makes of the initialisation of multibits (\<open>src/util/multibit_build.cpp\<close>,
  \<open>src/rose/rose_build_scatter.cpp\<close>) and the run time that carries them out
  (\<open>src/util/scatter_runtime.h\<close>).  A plan is the four lists of stores, by their width; the packing of
  the lists into one block of bytes is left out.
\<close>

section \<open>Scatter plans\<close>

text \<open>The stores of a plan, by their width; offsets are below the size of the state they write.\<close>

record scatter_plan_raw =
  p_u64a :: "(nat \<times> u64a) list"
  p_u32 :: "(nat \<times> u32) list"
  p_u16 :: "(nat \<times> u16) list"
  p_u8 :: "(nat \<times> u8) list"

definition empty_plan :: scatter_plan_raw where
  "empty_plan = \<lparr>p_u64a = [], p_u32 = [], p_u16 = [], p_u8 = []\<rparr>"

definition scatter_u64a :: "mem \<Rightarrow> int \<Rightarrow> (nat \<times> u64a) list \<Rightarrow> mem" where
  "scatter_u64a m out plan = foldl (\<lambda>m (offset, val). unaligned_store_u64a m (out + int offset) val) m plan"

definition scatter_u32 :: "mem \<Rightarrow> int \<Rightarrow> (nat \<times> u32) list \<Rightarrow> mem" where
  "scatter_u32 m out plan = foldl (\<lambda>m (offset, val). unaligned_store_u32 m (out + int offset) val) m plan"

definition scatter_u16 :: "mem \<Rightarrow> int \<Rightarrow> (nat \<times> u16) list \<Rightarrow> mem" where
  "scatter_u16 m out plan = foldl (\<lambda>m (offset, val). unaligned_store_u16 m (out + int offset) val) m plan"

definition scatter_u8 :: "mem \<Rightarrow> int \<Rightarrow> (nat \<times> u8) list \<Rightarrow> mem" where
  "scatter_u8 m out plan = foldl (\<lambda>m (offset, val). m(out + int offset := val)) m plan"

definition scatter :: "mem \<Rightarrow> int \<Rightarrow> scatter_plan_raw \<Rightarrow> mem" where
  "scatter m out p =
     scatter_u8 (scatter_u16 (scatter_u32 (scatter_u64a m out (p_u64a p)) out (p_u32 p)) out (p_u16 p)) out (p_u8 p)"

text \<open>The plan of an initialisation.\<close>

function plan_flat_blocks :: "(nat \<times> u64a) list \<Rightarrow> nat \<Rightarrow> nat \<Rightarrow> nat \<Rightarrow> nat \<Rightarrow> nat \<Rightarrow> (nat \<times> u64a) list \<times> nat \<times> nat \<times> nat" where
  "plan_flat_blocks out begin_key end_key dest bits base =
     (if bits > 64
      then plan_flat_blocks (out @ [(dest, get_flat_masks base begin_key end_key)]) begin_key end_key
             (dest + 8) (bits - 64) (base + 64)
      else (out, dest, bits, base))"
  by pat_completeness auto
termination by (relation "measure (\<lambda>(out, b, e, d, bits, base). bits)") auto

declare plan_flat_blocks.simps [simp del]

definition add_u64a :: "nat \<Rightarrow> u64a \<Rightarrow> scatter_plan_raw \<Rightarrow> scatter_plan_raw" where
  "add_u64a offset mk out = out\<lparr>p_u64a := p_u64a out @ [(offset, mk)]\<rparr>"

definition add_u32 :: "nat \<Rightarrow> u64a \<Rightarrow> scatter_plan_raw \<Rightarrow> scatter_plan_raw" where
  "add_u32 offset mk out = out\<lparr>p_u32 := p_u32 out @ [(offset, ucast mk)]\<rparr>"

definition add_u16 :: "nat \<Rightarrow> u64a \<Rightarrow> scatter_plan_raw \<Rightarrow> scatter_plan_raw" where
  "add_u16 offset mk out = out\<lparr>p_u16 := p_u16 out @ [(offset, ucast mk)]\<rparr>"

definition add_u8 :: "nat \<Rightarrow> u64a \<Rightarrow> scatter_plan_raw \<Rightarrow> scatter_plan_raw" where
  "add_u8 offset mk out = out\<lparr>p_u8 := p_u8 out @ [(offset, ucast mk)]\<rparr>"

definition plan_last_chunk :: "nat \<Rightarrow> nat \<Rightarrow> u64a \<Rightarrow> scatter_plan_raw \<Rightarrow> scatter_plan_raw" where
  "plan_last_chunk dest bits mk out =
     (if bits \<le> 8 then add_u8 dest mk out
      else if bits \<le> 16 then add_u16 dest mk out
      else if bits \<le> 24 then add_u8 (dest + 2) (drop_bit 16 mk) (add_u16 dest mk out)
      else if bits \<le> 32 then add_u32 dest mk out
      else if bits \<le> 40 then add_u8 (dest + 4) (drop_bit 32 mk) (add_u32 dest mk out)
      else if bits \<le> 48 then add_u16 (dest + 4) (drop_bit 32 mk) (add_u32 dest mk out)
      else if bits \<le> 56 then
        add_u8 (dest + 6) (drop_bit 48 mk) (add_u16 (dest + 4) (drop_bit 32 mk) (add_u32 dest mk out))
      else add_u64a dest mk out)"

function plan_ones_loop :: "(nat \<times> u64a) list \<Rightarrow> nat \<Rightarrow> nat \<Rightarrow> nat \<Rightarrow> (nat \<times> u64a) list \<times> nat \<times> nat" where
  "plan_ones_loop out block_offset k1 limit =
     (if k1 < limit then plan_ones_loop (out @ [(block_offset, - 1)]) (block_offset + 8) (k1 + MMB_KEY_BITS) limit
      else (out, block_offset, k1))"
  by pat_completeness auto
termination by (relation "measure (\<lambda>(out, b, k, l). l - k)") (auto simp: MMB_KEY_BITS_def)

declare plan_ones_loop.simps [simp del]

definition plan_rest :: "(nat \<times> u64a) list \<Rightarrow> nat \<Rightarrow> nat \<Rightarrow> nat \<Rightarrow> (nat \<times> u64a) list" where
  "plan_rest out block_offset k1 k2 =
     (let (out, block_offset, k1) = plan_ones_loop out block_offset k1 (ROUNDDOWN_N k2 MMB_KEY_BITS)
      in if k1 < k2 then out @ [(block_offset, mmb_mask_zero_to_nocheck (k2 mod MMB_KEY_BITS))] else out)"

definition mmbit_get_level_root_offset :: "nat \<Rightarrow> nat" where
  "mmbit_get_level_root_offset level = mmbit_root_offset_from_level ! level * 8"

definition plan_level :: "(nat \<times> u64a) list \<Rightarrow> nat \<Rightarrow> nat \<Rightarrow> nat \<Rightarrow> nat \<Rightarrow> (nat \<times> u64a) list" where
  "plan_level out ks level begin_key end_key =
     (let block_offset = mmbit_get_level_root_offset level;
          k1 = drop_bit ks begin_key; k2 = drop_bit ks end_key;
          k2 = (if push_bit ks k2 \<noteq> end_key then k2 + 1 else k2);
          block_offset = block_offset + k1 div MMB_KEY_BITS * 8
      in if k1 mod MMB_KEY_BITS \<noteq> 0 then
           let idx = k1 div MMB_KEY_BITS; block_end = (idx + 1) * MMB_KEY_BITS;
               mk = push_bit (k1 mod MMB_KEY_BITS) (- 1)
           in if k2 < block_end then
                out @ [(block_offset, mk AND mmb_mask_zero_to_nocheck (k2 mod MMB_KEY_BITS))]
              else plan_rest (out @ [(block_offset, mk)]) (block_offset + 8) block_end k2
         else plan_rest out block_offset k1 k2)"

function plan_loop :: "(nat \<times> u64a) list \<Rightarrow> nat \<Rightarrow> nat \<Rightarrow> nat \<Rightarrow> nat \<Rightarrow> (nat \<times> u64a) list" where
  "plan_loop out ks level begin_key end_key =
     (let out = plan_level out ks level begin_key end_key
      in if ks = 0 then out else plan_loop out (ks - MMB_KEY_SHIFT) (level + 1) begin_key end_key)"
  by pat_completeness auto
termination by (relation "measure (\<lambda>(out, ks, l, b, e). ks)") (auto simp: MMB_KEY_SHIFT_def)

declare plan_loop.simps [simp del]

definition mmbBuildInitRangePlan :: "nat \<Rightarrow> nat \<Rightarrow> nat \<Rightarrow> scatter_plan_raw \<Rightarrow> scatter_plan_raw" where
  "mmbBuildInitRangePlan total_bits begin_key end_key out =
     (if total_bits = 0 then out
      else if total_bits \<le> MMB_FLAT_MAX_BITS then
        let (blocks, dest, bits, base) = plan_flat_blocks (p_u64a out) begin_key end_key 0 total_bits 0
        in plan_last_chunk dest bits (get_flat_masks base begin_key end_key) (out\<lparr>p_u64a := blocks\<rparr>)
      else if begin_key = end_key then add_u64a 0 0 out
      else out\<lparr>p_u64a := plan_loop (p_u64a out) (mmbit_keyshift total_bits) 0 begin_key end_key\<rparr>)"

definition mmbBuildClearPlan :: "nat \<Rightarrow> scatter_plan_raw \<Rightarrow> scatter_plan_raw" where
  "mmbBuildClearPlan total_bits out = mmbBuildInitRangePlan total_bits 0 0 out"

text \<open>The plan for the three arrays of the stream state.\<close>

definition rebase_plan :: "nat \<Rightarrow> scatter_plan_raw \<Rightarrow> scatter_plan_raw" where
  "rebase_plan adj raw =
     \<lparr>p_u64a = map (map_prod ((+) adj) id) (p_u64a raw), p_u32 = map (map_prod ((+) adj) id) (p_u32 raw),
      p_u16 = map (map_prod ((+) adj) id) (p_u16 raw), p_u8 = map (map_prod ((+) adj) id) (p_u8 raw)\<rparr>"

definition merge_in :: "scatter_plan_raw \<Rightarrow> scatter_plan_raw \<Rightarrow> scatter_plan_raw" where
  "merge_in out p =
     \<lparr>p_u64a = p_u64a out @ p_u64a p, p_u32 = p_u32 out @ p_u32 p,
      p_u16 = p_u16 out @ p_u16 p, p_u8 = p_u8 out @ p_u8 p\<rparr>"

definition buildStateScatterPlan ::
    "nat \<Rightarrow> nat \<Rightarrow> nat \<Rightarrow> nat \<Rightarrow> nat \<Rightarrow> nat \<Rightarrow> bool \<Rightarrow> nat \<Rightarrow> nat \<Rightarrow> nat \<Rightarrow> scatter_plan_raw" where
  "buildStateScatterPlan role_state_offset role_state_count left_array_count left_prefix_count
       activeLeftArray activeLeafArray streaming leaf_array_count outfix_begin outfix_end =
     (let spr_role = mmbBuildClearPlan role_state_count empty_plan;
          out = merge_in empty_plan (rebase_plan role_state_offset spr_role);
          spr_rose = mmbBuildInitRangePlan left_array_count 0 left_prefix_count empty_plan;
          out = merge_in out (rebase_plan activeLeftArray spr_rose);
          spr_leaf = (if streaming then mmbBuildInitRangePlan leaf_array_count outfix_begin outfix_end empty_plan
                      else mmbBuildClearPlan leaf_array_count empty_plan)
      in merge_in out (rebase_plan activeLeafArray spr_leaf))"

section \<open>Lemmas: a plan does what the initialisation does\<close>

lemma scatter_append: "scatter_u64a m out (xs @ [(offset, v)]) = mmb_store (scatter_u64a m out xs) (out + int offset) v"
  by (simp add: scatter_u64a_def mmb_store_def)

lemma all_ones: "MMB_ALL_ONES = - 1"
  by (simp add: MMB_ALL_ONES_def)

lemma plan_ones_loop_run:
  "ones_loop (scatter_u64a m 0 out) (int block_offset) k1 limit =
     (case plan_ones_loop out block_offset k1 limit of (out, p, k) \<Rightarrow> (scatter_u64a m 0 out, int p, k))"
proof (induction out block_offset k1 limit rule: plan_ones_loop.induct)
  case (1 out block_offset k1 limit)
  then show ?case
    by (subst ones_loop.simps, subst plan_ones_loop.simps)
      (simp add: scatter_append all_ones add.commute)
qed

lemma plan_rest_run:
  "init_range_rest (scatter_u64a m 0 out) (int block_offset) k1 k2 = scatter_u64a m 0 (plan_rest out block_offset k1 k2)"
  by (simp add: init_range_rest_def plan_rest_def plan_ones_loop_run scatter_append split: prod.splits)

lemma plan_level_run:
  "init_range_level (scatter_u64a m 0 out) ks level begin_key end_key
     = scatter_u64a m 0 (plan_level out ks level begin_key end_key)"
proof -
  have ptr: "mmbit_get_level_root level + int b = int (mmbit_get_level_root_offset level + b)" for b
    by (simp add: mmbit_get_level_root_def mmbit_get_level_root_offset_def)
  have next_ptr: "int b + 8 = int (b + 8)" for b by simp
  show ?thesis
    unfolding init_range_level_def plan_level_def Let_def ptr all_ones next_ptr
    by (simp only: if_distrib [of "scatter_u64a m 0"] plan_rest_run [symmetric] scatter_append add_0_left)
qed

lemma plan_loop_run:
  "init_range_loop (scatter_u64a m 0 out) ks level begin_key end_key
     = scatter_u64a m 0 (plan_loop out ks level begin_key end_key)"
proof (induction out ks level begin_key end_key rule: plan_loop.induct)
  case (1 out ks level begin_key end_key)
  then show ?case
    by (subst init_range_loop.simps, subst plan_loop.simps) (simp add: plan_level_run Let_def)
qed

text \<open>The flat form: two memories with the same bits are equal.\<close>

lemma mem_eqI:
  assumes "\<And>a. a < 0 \<Longrightarrow> m a = m' a" "\<And>i. gbit m i = gbit m' i"
  shows "m = m'"
proof
  fix a :: int
  show "m a = m' a"
  proof (cases "a < 0")
    case False
    then obtain b where a: "a = int b" by (metis nonneg_int_cases not_less)
    have "bit (m (int b)) k = bit (m' (int b)) k" if "k < 8" for k
      using assms(2) [of "8 * b + k"] that by (simp add: gbit_byte)
    then show ?thesis by (simp add: a bit_eq_iff)
  qed (simp add: assms(1))
qed

lemma plan_flat_blocks_spec:
  "0 < bits \<Longrightarrow> case plan_flat_blocks out lo hi (8 * a) bits (64 * a) of (out', dest, bits', base) \<Rightarrow>
     \<exists>c. dest = 8 * c \<and> base = 64 * c \<and> a \<le> c \<and> 64 * a + bits = 64 * c + bits' \<and> 0 < bits' \<and> bits' \<le> 64
       \<and> (\<forall>i. gbit (scatter_u64a m 0 out') i \<longleftrightarrow>
            (if 64 * a \<le> i \<and> i < 64 * c then lo \<le> i \<and> i < hi else gbit (scatter_u64a m 0 out) i))
       \<and> (\<forall>x. x \<in> set out' \<longrightarrow> x \<in> set out \<or> fst x + 8 \<le> 8 * c)"
proof (induction bits arbitrary: out a rule: less_induct)
  case (less bits)
  show ?case
  proof (cases "64 < bits")
    case False
    then show ?thesis using less.prems by (subst plan_flat_blocks.simps) (auto intro!: exI [of _ a])
  next
    case True
    define out1 where "out1 = out @ [(8 * a, get_flat_masks (64 * a) lo hi)]"
    have step: "plan_flat_blocks out lo hi (8 * a) bits (64 * a) = plan_flat_blocks out1 lo hi (8 * Suc a) (bits - 64) (64 * Suc a)"
      using True by (subst plan_flat_blocks.simps) (simp add: out1_def algebra_simps)
    have out1: "gbit (scatter_u64a m 0 out1) i \<longleftrightarrow>
        (if i div 64 = a then lo \<le> i \<and> i < hi else gbit (scatter_u64a m 0 out) i)" for i
      using gbit_init_block [of "scatter_u64a m 0 out" a lo hi i]
      by (simp add: out1_def scatter_append mult.commute [of _ a])
    obtain out' dest bits' base where res: "plan_flat_blocks out1 lo hi (8 * Suc a) (bits - 64) (64 * Suc a) = (out', dest, bits', base)"
      by (metis prod_cases4)
    obtain c where c: "dest = 8 * c" "base = 64 * c" "Suc a \<le> c" "64 * Suc a + (bits - 64) = 64 * c + bits'" "0 < bits'" "bits' \<le> 64"
      and bits: "\<And>i. gbit (scatter_u64a m 0 out') i \<longleftrightarrow>
            (if 64 * Suc a \<le> i \<and> i < 64 * c then lo \<le> i \<and> i < hi else gbit (scatter_u64a m 0 out1) i)"
      and ins: "\<And>x. x \<in> set out' \<Longrightarrow> x \<in> set out1 \<or> fst x + 8 \<le> 8 * c"
      using less.IH [where y = "bits - 64" and out = out1 and a = "Suc a"] True unfolding res by auto
    have "64 * a + bits = 64 * c + bits'" using c(4) True by simp
    moreover have "gbit (scatter_u64a m 0 out') i \<longleftrightarrow>
        (if 64 * a \<le> i \<and> i < 64 * c then lo \<le> i \<and> i < hi else gbit (scatter_u64a m 0 out) i)" for i
    proof (cases "i div 64 = a")
      case True
      then have "64 * a \<le> i" "i < 64 * Suc a" using dividend_less_times_div [of 64 i] by auto
      then show ?thesis using bits [of i] out1 [of i] True c(3) by auto
    next
      case False
      then have "64 * Suc a \<le> i \<longleftrightarrow> 64 * a \<le> i"
        using less_eq_div_iff_mult_less_eq [of 64 a i] less_eq_div_iff_mult_less_eq [of 64 "Suc a" i]
        by (simp add: mult.commute Suc_le_eq order_less_le)
      then show ?thesis using bits [of i] out1 [of i] False by simp
    qed
    moreover have "x \<in> set out \<or> fst x + 8 \<le> 8 * c" if "x \<in> set out'" for x
      using ins [OF that] c(3) by (auto simp: out1_def)
    moreover have "a \<le> c" using c(3) by simp
    ultimately show ?thesis unfolding step res prod.case using c(1,2,5,6) by blast
  qed
qed

text \<open>The last chunk is the partial store.\<close>

lemmas last_chunk_defs = plan_last_chunk_def scatter_def scatter_u8_def scatter_u16_def scatter_u32_def
  add_u8_def add_u16_def add_u32_def add_u64a_def scatter_append
  mmb_store_def mmb_store_partial_def ROUNDUP_N_def partial_store_u64a_def

lemma plan_last_chunk_run:
  assumes "0 < bits" "bits \<le> 64" "p_u32 out = []" "p_u16 out = []" "p_u8 out = []"
  shows "scatter m 0 (plan_last_chunk dest bits mk out)
    = mmb_store_partial (scatter_u64a m 0 (p_u64a out)) (int dest) mk bits"
proof -
  define nb where "nb = (bits + 7) div 8"
  have b: "bits \<le> 8 * nb" "8 * nb < bits + 8" unfolding nb_def by linarith+
  then have "nb = 1 \<or> nb = 2 \<or> nb = 3 \<or> nb = 4 \<or> nb = 5 \<or> nb = 6 \<or> nb = 7 \<or> nb = 8"
    using assms(1,2) by linarith
  then show ?thesis
    using b assms(2) by (elim disjE) (simp_all add: last_chunk_defs assms(3-) nb_def [symmetric] add.commute)
qed

lemma gbit_partial:
  assumes "0 < bits" "bits \<le> 64"
  shows "gbit (mmb_store_partial m (int (8 * c)) v bits) i \<longleftrightarrow>
    (if 64 * c \<le> i \<and> i < 64 * c + 8 * ((bits + 7) div 8) then bit v (i - 64 * c) else gbit m i)"
proof -
  define nb where "nb = (bits + 7) div 8"
  have nb: "nb \<le> 8" using assms unfolding nb_def by linarith
  then show ?thesis
    using gbit_store [of nb m "8 * c" v i]
    by (simp add: mmb_store_partial_def partial_store_u64a_le ROUNDUP_N_def nb_def [symmetric])
qed

lemma flat_plan_gbit:
  assumes "0 < n" "n \<le> MMB_FLAT_MAX_BITS"
  shows "gbit (scatter m 0 (mmbBuildInitRangePlan n lo hi empty_plan)) i \<longleftrightarrow>
    (if i < 8 * mmbit_flat_size n then lo \<le> i \<and> i < hi else gbit m i)"
proof -
  obtain out dest bits base where blocks: "plan_flat_blocks [] lo hi 0 n 0 = (out, dest, bits, base)"
    by (metis prod_cases4)
  obtain c where c: "dest = 8 * c" "base = 64 * c" "n = 64 * c + bits" "0 < bits" "bits \<le> 64"
    and out: "\<And>i. gbit (scatter_u64a m 0 out) i \<longleftrightarrow> (if i < 64 * c then lo \<le> i \<and> i < hi else gbit m i)"
    using plan_flat_blocks_spec [OF assms(1), where out = "[]" and a = 0 and lo = lo and hi = hi and m = m]
    unfolding mult_0_right blocks prod.case by (auto simp: scatter_u64a_def)
  have "mmbBuildInitRangePlan n lo hi empty_plan
      = plan_last_chunk dest bits (get_flat_masks base lo hi) (empty_plan\<lparr>p_u64a := out\<rparr>)"
    using assms blocks by (simp add: mmbBuildInitRangePlan_def empty_plan_def)
  then have run: "scatter m 0 (mmbBuildInitRangePlan n lo hi empty_plan)
      = mmb_store_partial (scatter_u64a m 0 out) (int (8 * c)) (get_flat_masks (64 * c) lo hi) bits"
    using plan_last_chunk_run [OF c(4,5), of "empty_plan\<lparr>p_u64a := out\<rparr>" m dest] c(1,2) by (simp add: empty_plan_def)
  have size: "8 * mmbit_flat_size n = 64 * c + 8 * ((bits + 7) div 8)"
  proof -
    have "(64 * c + bits + 7) div 8 = 8 * c + (bits + 7) div 8"
      using div_plus_div_distrib_dvd_left [of 8 "64 * c" "bits + 7"] by (simp add: add.assoc)
    then show ?thesis by (simp add: mmbit_flat_size_def ROUNDUP_N_def c(3))
  qed
  have "(bits + 7) div 8 \<le> 8" using c(5) by linarith
  then have w: "8 * ((bits + 7) div 8) \<le> 64" by simp
  then have "bit (get_flat_masks (64 * c) lo hi) (i - 64 * c) \<longleftrightarrow> lo \<le> i \<and> i < hi"
    if "64 * c \<le> i" "i < 64 * c + 8 * ((bits + 7) div 8)"
  proof -
    have "64 * c + (i - 64 * c) = i" "i - 64 * c < 64"
      using that w by linarith+
    then show ?thesis unfolding bit_get_flat_masks by simp
  qed
  then show ?thesis unfolding run size gbit_partial [OF c(4,5)] using out [of i] by auto
qed

section \<open>Lemmas: where the stores of a plan go\<close>

text \<open>A plan as one list of stores: offset, width and value.\<close>

definition units :: "scatter_plan_raw \<Rightarrow> (nat \<times> nat \<times> u64a) list" where
  "units p = map (\<lambda>(a, v). (a, 8, v)) (p_u64a p) @ map (\<lambda>(a, v). (a, 4, ucast v)) (p_u32 p)
     @ map (\<lambda>(a, v). (a, 2, ucast v)) (p_u16 p) @ map (\<lambda>(a, v). (a, 1, ucast v)) (p_u8 p)"

definition run_units :: "mem \<Rightarrow> (nat \<times> nat \<times> u64a) list \<Rightarrow> mem" where
  "run_units m us = foldl (\<lambda>m (a, n, v). store_le n m (int a) v) m us"

lemma store_le_widen:
  fixes v :: "'a::len word"
  assumes "8 * n \<le> LENGTH('a)" "LENGTH('a) \<le> 64"
  shows "store_le n m p (ucast v :: u64a) = store_le n m p v"
proof
  fix a
  have "(ucast (drop_bit (8 * k) (ucast v :: u64a)) :: u8) = ucast (drop_bit (8 * k) v)" if "k < n" for k
  proof (rule bit_word_eqI)
    fix i
    assume "i < LENGTH(8)"
    then have "8 * k + i < LENGTH('a)" "8 * k + i < 64" using that assms by auto
    then show "bit (ucast (drop_bit (8 * k) (ucast v :: u64a)) :: u8) i = bit (ucast (drop_bit (8 * k) v) :: u8) i"
      using \<open>i < LENGTH(8)\<close> by (simp add: bit_ucast_iff bit_drop_bit_eq)
  qed
  then show "store_le n m p (ucast v :: u64a) a = store_le n m p v a" by (auto simp: store_le_at)
qed

lemma scatter_units: "scatter m 0 p = run_units m (units p)"
proof -
  have "scatter_u64a m 0 xs = run_units m (map (\<lambda>(a, v). (a, 8, v)) xs)" for m xs
    by (induction xs arbitrary: m) (auto simp: scatter_u64a_def run_units_def unaligned_store_u64a_def)
  moreover have "scatter_u32 m 0 xs = run_units m (map (\<lambda>(a, v). (a, 4, ucast v)) xs)" for m xs
    by (induction xs arbitrary: m) (auto simp: scatter_u32_def run_units_def unaligned_store_u32_def store_le_widen)
  moreover have "scatter_u16 m 0 xs = run_units m (map (\<lambda>(a, v). (a, 2, ucast v)) xs)" for m xs
    by (induction xs arbitrary: m) (auto simp: scatter_u16_def run_units_def unaligned_store_u16_def store_le_widen)
  moreover have "scatter_u8 m 0 xs = run_units m (map (\<lambda>(a, v). (a, 1, ucast v)) xs)" for m xs
  proof -
    have "m(int a := v) = store_le (Suc 0) m (int a) (ucast v :: u64a)" for m :: mem and a and v :: u8
      using store_le_widen [where n = "Suc 0" and v = v and m = m and p = "int a"] by (simp add: store_le.simps)
    then show ?thesis by (induction xs arbitrary: m) (auto simp: scatter_u8_def run_units_def)
  qed
  ultimately show ?thesis by (simp add: scatter_def units_def run_units_def)
qed

definition unit_in :: "nat \<Rightarrow> nat \<Rightarrow> nat \<times> nat \<times> u64a \<Rightarrow> bool" where
  "unit_in lo hi = (\<lambda>(a, n, v). lo \<le> a \<and> a + n \<le> hi)"

definition unit_off :: "nat \<Rightarrow> nat \<Rightarrow> nat \<times> nat \<times> u64a \<Rightarrow> bool" where
  "unit_off lo hi = (\<lambda>(a, n, v). 0 < n \<and> (a + n \<le> lo \<or> hi \<le> a))"

lemma run_units_other:
  assumes "\<forall>u \<in> set us. unit_in 0 s u" "a < 0 \<or> int s \<le> a"
  shows "run_units m us a = m a"
  using assms(1)
proof (induction us arbitrary: m)
  case (Cons u us)
  obtain b n v where u: "u = (b, n, v)" by (metis prod_cases3)
  have "b + n \<le> s" using Cons.prems by (simp add: u unit_in_def)
  then have "store_le n m (int b) v a = m a" using assms(2) by (auto simp: store_le_at)
  then show ?case using Cons by (simp add: run_units_def u)
qed (simp add: run_units_def)

text \<open>Inside a region only its own stores count.\<close>

lemma run_units_region:
  assumes "\<forall>u \<in> set us. unit_in lo hi u \<or> unit_off lo hi u"
    "\<And>a. lo \<le> a \<Longrightarrow> a < hi \<Longrightarrow> m (int a) = m' (int a)" "lo \<le> a" "a < hi"
  shows "run_units m us (int a) = run_units m' (filter (unit_in lo hi) us) (int a)"
  using assms(1,2)
proof (induction us arbitrary: m m')
  case Nil
  then show ?case using assms(3,4) by (simp add: run_units_def)
next
  case (Cons u us)
  obtain b n v where u: "u = (b, n, v)" by (metis prod_cases3)
  define m1 where "m1 = store_le n m (int b) v"
  have step: "run_units m (u # us) = run_units m1 us" by (simp add: run_units_def u m1_def)
  show ?case
  proof (cases "unit_in lo hi u")
    case True
    have "run_units m1 us (int a) = run_units (store_le n m' (int b) v) (filter (unit_in lo hi) us) (int a)"
      using Cons.prems by (intro Cons.IH) (auto simp: m1_def store_le_at)
    then show ?thesis unfolding step using True by (simp add: run_units_def u)
  next
    case False
    then have "unit_off lo hi u" using Cons.prems(1) by auto
    then have "m1 (int x) = m' (int x)" if "lo \<le> x" "x < hi" for x
      using that Cons.prems(2) by (auto simp: m1_def store_le_at u unit_off_def)
    then have "run_units m1 us (int a) = run_units m' (filter (unit_in lo hi) us) (int a)"
      using Cons.prems(1) by (intro Cons.IH) auto
    then show ?thesis unfolding step using False by simp
  qed
qed

lemma run_units_shift:
  "(\<lambda>a. run_units m (map (\<lambda>(b, n, v). (off + b, n, v)) us) (int off + a)) = run_units (\<lambda>a. m (int off + a)) us"
proof (induction us arbitrary: m)
  case (Cons u us)
  obtain b n v where u: "u = (b, n, v)" by (metis prod_cases3)
  have "(\<lambda>a. store_le n m (int (off + b)) v (int off + a)) = store_le n (\<lambda>a. m (int off + a)) (int b) v"
    by (rule ext) (auto simp: store_le_at)
  then show ?case using Cons [of "store_le n m (int (off + b)) v"] by (simp add: run_units_def u)
qed (simp add: run_units_def)

text \<open>So the region of a plan in a merged one ends as if the plan had run there alone.\<close>

lemma region_alone:
  assumes "\<forall>u \<in> set us. unit_in off (off + s) u \<or> unit_off off (off + s) u"
    "filter (unit_in off (off + s)) us = map (\<lambda>(b, n, v). (off + b, n, v)) us0" "\<forall>u \<in> set us0. unit_in 0 s u"
  obtains m0 where "(\<lambda>a. run_units m us (int off + a)) = run_units m0 us0"
proof -
  define m' where "m' = run_units m us"
  define m0 where "m0 = (\<lambda>a. if 0 \<le> a \<and> a < int s then m (int off + a) else m' (int off + a))"
  have "m' (int off + a) = run_units m0 us0 a" for a
  proof (cases "0 \<le> a \<and> a < int s")
    case True
    then obtain b where b: "a = int b" "b < s" by (metis nonneg_int_cases of_nat_less_iff)
    define m2 where "m2 = (\<lambda>x. m0 (x - int off))"
    have "m' (int (off + b)) = run_units m2 (filter (unit_in off (off + s)) us) (int (off + b))"
      unfolding m'_def by (rule run_units_region [OF assms(1)]) (use b in \<open>auto simp: m2_def m0_def\<close>)
    also have "\<dots> = run_units (\<lambda>a. m2 (int off + a)) us0 (int b)"
      unfolding assms(2) run_units_shift [symmetric] by simp
    finally show ?thesis by (simp add: b(1) m2_def)
  next
    case False
    then have "run_units m0 us0 a = m0 a" by (intro run_units_other [OF assms(3)]) auto
    then show ?thesis using False by (auto simp: m0_def)
  qed
  then show thesis by (intro that [of m0]) (simp add: m'_def)
qed

lemma units_rebase: "units (rebase_plan off p) = map (\<lambda>(b, n, v). (off + b, n, v)) (units p)"
  by (simp add: units_def rebase_plan_def case_prod_beta)

lemma set_units_merge: "set (units (merge_in p q)) = set (units p) \<union> set (units q)"
  by (auto simp: units_def merge_in_def)

lemma filter_merge_left: "\<forall>u \<in> set (units q). \<not> P u \<Longrightarrow> filter P (units (merge_in p q)) = filter P (units p)"
  by (auto simp: units_def merge_in_def filter_empty_conv)

lemma filter_merge_right: "\<forall>u \<in> set (units p). \<not> P u \<Longrightarrow> filter P (units (merge_in p q)) = filter P (units q)"
  by (auto simp: units_def merge_in_def filter_empty_conv)

section \<open>Lemmas: the stores of one plan\<close>

text \<open>All the stores up to block \<open>e\<close> of a level, whose first block is \<open>R\<close>.\<close>

definition stores_below :: "nat \<Rightarrow> (nat \<times> u64a) list \<Rightarrow> (nat \<times> u64a) list \<Rightarrow> bool" where
  "stores_below e out out' \<longleftrightarrow> (\<forall>x \<in> set out'. x \<in> set out \<or> fst x + 8 \<le> 8 * e)"

lemma stores_below_refl [simp]: "stores_below e out out"
  by (simp add: stores_below_def)

lemma stores_below_add: "stores_below e (out @ [x]) out' \<Longrightarrow> fst x + 8 \<le> 8 * e \<Longrightarrow> stores_below e out out'"
  by (auto simp: stores_below_def)

lemma stores_below_snoc: "stores_below e out out' \<Longrightarrow> fst x + 8 \<le> 8 * e \<Longrightarrow> stores_below e out (out' @ [x])"
  by (auto simp: stores_below_def)

lemma plan_ones_loop_stores:
  assumes "a \<le> c"
  shows "case plan_ones_loop out (8 * (R + a)) (64 * a) (64 * c) of (out', p, k) \<Rightarrow>
    stores_below (R + c) out out' \<and> p = 8 * (R + c) \<and> k = 64 * c"
  using assms
proof (induction "c - a" arbitrary: a out)
  case 0
  then show ?case by (subst plan_ones_loop.simps) simp
next
  case (Suc x)
  then have lt: "a < c" "x = c - Suc a" by simp_all
  have "plan_ones_loop out (8 * (R + a)) (64 * a) (64 * c)
      = plan_ones_loop (out @ [(8 * (R + a), - 1)]) (8 * (R + Suc a)) (64 * Suc a) (64 * c)"
    using lt by (subst plan_ones_loop.simps) (simp add: MMB_consts algebra_simps)
  then show ?case
    using Suc.hyps(1) [OF lt(2), where out = "out @ [(8 * (R + a), - 1)]"] lt(1)
    using stores_below_add [of "R + c" out "(8 * (R + a), - 1)"] by (auto split: prod.splits)
qed

lemma plan_rest_stores:
  assumes "64 * a \<le> k2"
  shows "stores_below (R + (k2 + 63) div 64) out (plan_rest out (8 * (R + a)) (64 * a) k2)"
proof -
  define c where "c = k2 div 64"
  have c: "a \<le> c" using assms by (simp add: c_def less_eq_div_iff_mult_less_eq mult.commute)
  obtain out' where loop: "plan_ones_loop out (8 * (R + a)) (64 * a) (64 * c) = (out', 8 * (R + c), 64 * c)"
    and out': "stores_below (R + c) out out'"
    using plan_ones_loop_stores [OF c, where out = out and R = R] by (auto split: prod.splits)
  have run: "plan_rest out (8 * (R + a)) (64 * a) k2 =
      (if 64 * c < k2 then out' @ [(8 * (R + c), mmb_mask_zero_to_nocheck (k2 mod 64))] else out')"
    unfolding plan_rest_def ROUNDDOWN_N_def MMB_consts c_def [symmetric] mult.commute [of c 64] loop by simp
  have le: "c \<le> (k2 + 63) div 64" "64 * c < k2 \<Longrightarrow> c + 1 \<le> (k2 + 63) div 64" unfolding c_def by linarith+
  have "stores_below (R + (k2 + 63) div 64) out out'" using out' le(1) by (auto simp: stores_below_def intro: le_trans)
  then show ?thesis unfolding run using le(2) by (auto intro!: stores_below_snoc)
qed

lemma plan_level_stores:
  assumes "0 < end_key" "begin_key < end_key" "l \<le> 6"
  shows "stores_below (root l + (end_key - 1) div 2 ^ ks div 64 + 1) out (plan_level out ks l begin_key end_key)"
proof -
  define k1 where "k1 = begin_key div 2 ^ ks"
  define k2 where "k2 = (end_key - 1) div 2 ^ ks + 1"
  define a where "a = k1 div 64"
  define R where "R = root l"
  have k12: "k1 < k2" using assms(2) by (auto simp: k1_def k2_def less_Suc_eq_le intro!: div_le_mono)
  have e: "root l + (end_key - 1) div 2 ^ ks div 64 + 1 = R + (k2 + 63) div 64" by (simp add: k2_def R_def)
  have ptr: "mmbit_get_level_root_offset l = 8 * R"
    using root_offset [OF assms(3)] by (simp add: mmbit_get_level_root_offset_def R_def)
  have run: "plan_level out ks l begin_key end_key =
      (if k1 mod 64 \<noteq> 0 then
         if k2 < (a + 1) * 64 then
           out @ [(8 * R + a * 8, push_bit (k1 mod 64) (- 1) AND mmb_mask_zero_to_nocheck (k2 mod 64))]
         else plan_rest (out @ [(8 * R + a * 8, push_bit (k1 mod 64) (- 1))]) (8 * R + a * 8 + 8) ((a + 1) * 64) k2
       else plan_rest out (8 * R + a * 8) k1 k2)"
    unfolding plan_level_def Let_def MMB_consts level_end [OF assms(1)] ptr k2_def [symmetric]
    unfolding drop_bit_eq_div k1_def [symmetric] by (simp only: a_def)
  have at: "8 * R + a * 8 = 8 * (R + a)" "8 * (R + a) + 8 = 8 * (R + Suc a)" "(a + 1) * 64 = 64 * Suc a" by simp_all
  have "a * 64 < k2" using k12 by (auto simp: a_def intro: le_less_trans [OF div_times_less_eq_dividend])
  then have first: "Suc a \<le> (k2 + 63) div 64" by linarith
  show ?thesis
  proof (cases "k1 mod 64 = 0")
    case True
    then have "k1 = 64 * a" using mult_div_mod_eq [of 64 k1] by (simp add: a_def)
    then show ?thesis unfolding run e at using True k12 plan_rest_stores [of a k2 R out] by simp
  next
    case start: False
    show ?thesis
    proof (cases "k2 < (a + 1) * 64")
      case True
      then show ?thesis unfolding run e at using start first by (auto intro!: stores_below_snoc)
    next
      case False
      then have "64 * Suc a \<le> k2" by simp
      then have "stores_below (R + (k2 + 63) div 64) (out @ [(8 * (R + a), push_bit (k1 mod 64) (- 1))])
          (plan_rest (out @ [(8 * (R + a), push_bit (k1 mod 64) (- 1))]) (8 * (R + Suc a)) (64 * Suc a) k2)"
        by (rule plan_rest_stores)
      then have "stores_below (R + (k2 + 63) div 64) out
          (plan_rest (out @ [(8 * (R + a), push_bit (k1 mod 64) (- 1))]) (8 * (R + Suc a)) (64 * Suc a) k2)"
        by (rule stores_below_add) (use first in simp)
      then show ?thesis unfolding run e at using start False by simp
    qed
  qed
qed

lemma plan_loop_stores:
  assumes "begin_key < end_key" "mx \<le> 6" "level \<le> mx"
    "x \<in> set (plan_loop out (6 * (mx - level)) level begin_key end_key)"
  shows "x \<in> set out \<or> (\<exists>l \<le> mx. fst x + 8 \<le> 8 * (root l + anc mx l (end_key - 1) div 64 + 1))"
  using assms(3,4)
proof (induction "mx - level" arbitrary: level out)
  case (0 level out)
  then have l: "level = mx" by simp
  have "plan_loop out 0 mx begin_key end_key = plan_level out 0 mx begin_key end_key"
    by (subst plan_loop.simps) (simp add: Let_def)
  then have "x \<in> set out \<or> fst x + 8 \<le> 8 * (root mx + anc mx mx (end_key - 1) div 64 + 1)"
    using 0 plan_level_stores [of end_key begin_key mx 0 out] assms(1,2)
    unfolding l stores_below_def by (simp add: anc_simps)
  then show ?case by blast
next
  case (Suc y level out)
  define ks where "ks = 6 * (mx - level)"
  define out1 where "out1 = plan_level out ks level begin_key end_key"
  have lt: "level < mx" "y = mx - Suc level" using Suc.hyps(2) by simp_all
  have w: "2 ^ ks = (64 :: nat) ^ (mx - level)" by (simp add: ks_def power_mult)
  have "6 * (mx - Suc level) = ks - 6" "ks \<noteq> 0" using lt by (simp_all add: ks_def diff_mult_distrib2)
  then have "plan_loop out ks level begin_key end_key = plan_loop out1 (6 * (mx - Suc level)) (Suc level) begin_key end_key"
    by (subst plan_loop.simps) (simp only: Let_def MMB_consts out1_def if_False Suc_eq_plus1)
  then have "x \<in> set out1 \<or> (\<exists>l \<le> mx. fst x + 8 \<le> 8 * (root l + anc mx l (end_key - 1) div 64 + 1))"
    using Suc.hyps(1) [OF lt(2), of out1] Suc.prems(2) lt(1) by (simp add: ks_def)
  moreover have "x \<in> set out1 \<Longrightarrow> x \<in> set out \<or> fst x + 8 \<le> 8 * (root level + anc mx level (end_key - 1) div 64 + 1)"
    using plan_level_stores [of end_key begin_key level ks out] assms(1,2) lt(1)
    by (auto simp: stores_below_def out1_def w anc_def)
  ultimately show ?case using less_imp_le [OF lt(1)] by blast
qed

lemma plan_last_chunk_units:
  assumes "0 < bits" "bits \<le> 64" "u \<in> set (units (plan_last_chunk dest bits mk out))"
  shows "u \<in> set (units out) \<or> unit_in 0 (dest + (bits + 7) div 8) u \<and> 0 < fst (snd u)"
proof -
  define nb where "nb = (bits + 7) div 8"
  have b: "bits \<le> 8 * nb" "8 * nb < bits + 8" unfolding nb_def by linarith+
  then have "nb = 1 \<or> nb = 2 \<or> nb = 3 \<or> nb = 4 \<or> nb = 5 \<or> nb = 6 \<or> nb = 7 \<or> nb = 8"
    using assms(1,2) by linarith
  then show ?thesis
    using b assms(2,3) unfolding nb_def [symmetric]
    by (elim disjE) (auto simp: plan_last_chunk_def units_def add_u8_def add_u16_def add_u32_def add_u64a_def unit_in_def)
qed

text \<open>The stores of a plan lie in the bytes of the multibit.\<close>

lemma plan_inside:
  assumes "mmbit_size n = Some s" "lo \<le> hi" "hi \<le> n" "u \<in> set (units (mmbBuildInitRangePlan n lo hi empty_plan))"
  shows "unit_in 0 s u \<and> 0 < fst (snd u)"
proof -
  have n: "n \<le> MMB_MAX_BITS" using assms(1) by (auto simp: mmbit_size_def split: if_splits)
  consider (none) "n = 0" | (flat) "0 < n" "n \<le> MMB_FLAT_MAX_BITS" | (clear) "\<not> n \<le> MMB_FLAT_MAX_BITS" "lo = hi"
    | (tree) "\<not> n \<le> MMB_FLAT_MAX_BITS" "lo < hi" using assms(2) by linarith
  then show ?thesis
  proof cases
    case none
    then show ?thesis using assms(4) by (simp add: mmbBuildInitRangePlan_def units_def empty_plan_def)
  next
    case flat
    obtain out dest bits base where blocks: "plan_flat_blocks [] lo hi 0 n 0 = (out, dest, bits, base)"
      by (metis prod_cases4)
    obtain c where c: "dest = 8 * c" "base = 64 * c" "n = 64 * c + bits" "0 < bits" "bits \<le> 64"
      and out: "\<forall>x. x \<in> set out \<longrightarrow> fst x + 8 \<le> 8 * c"
      using plan_flat_blocks_spec [OF flat(1), where out = "[]" and a = 0 and lo = lo and hi = hi and m = "\<lambda>_. 0"]
      unfolding mult_0_right blocks prod.case by auto
    have "(64 * c + bits + 7) div 8 = 8 * c + (bits + 7) div 8"
      using div_plus_div_distrib_dvd_left [of 8 "64 * c" "bits + 7"] by (simp add: add.assoc)
    then have s: "s = dest + (bits + 7) div 8"
      using assms(1) mmbit_size_flat [OF flat(2)] by (simp add: mmbit_flat_size_def ROUNDUP_N_def c(1,3))
    have "mmbBuildInitRangePlan n lo hi empty_plan
        = plan_last_chunk dest bits (get_flat_masks base lo hi) (empty_plan\<lparr>p_u64a := out\<rparr>)"
      using flat blocks by (simp add: mmbBuildInitRangePlan_def empty_plan_def)
    then have "u \<in> set (units (empty_plan\<lparr>p_u64a := out\<rparr>)) \<or> unit_in 0 s u \<and> 0 < fst (snd u)"
      using plan_last_chunk_units [OF c(4,5)] assms(4) by (simp add: s)
    moreover have "unit_in 0 s u \<and> 0 < fst (snd u)" if "u \<in> set (units (empty_plan\<lparr>p_u64a := out\<rparr>))"
      using that out c(1) s by (fastforce simp: units_def empty_plan_def unit_in_def)
    ultimately show ?thesis by blast
  next
    case clear
    have "8 \<le> s" using mmbit_size_big [of n] assms(1) n clear(1) by (auto simp: MMB_FLAT_MAX_BITS_def)
    then show ?thesis
      using clear assms(4) by (auto simp: mmbBuildInitRangePlan_def units_def empty_plan_def add_u64a_def unit_in_def)
  next
    case tree
    define mx where "mx = mmbit_maxlevel n"
    have big: "big_size n" using n tree(1) by simp
    have mx: "mx \<le> 6" "mmbit_keyshift n = 6 * (mx - 0)" using maxlevel_bounds [OF big] by (simp_all add: mx_def)
    obtain x where x: "x \<in> set (plan_loop [] (6 * (mx - 0)) 0 lo hi)" "u = (fst x, 8, snd x)"
      using assms(4) tree by (auto simp: mmbBuildInitRangePlan_def units_def empty_plan_def mx(2))
    obtain l where l: "l \<le> mx" "fst x + 8 \<le> 8 * (root l + anc mx l (hi - 1) div 64 + 1)"
      using plan_loop_stores [OF tree(2) mx(1) le0 x(1)] by auto
    have "hi - 1 < n" using tree(2) assms(3) by simp
    then have "mmbit_get_block_ptr mx l (hi - 1) + 8 \<le> int s"
      using tree_block_inside(2) [OF big _ l(1) [unfolded mx_def] assms(1)] by (simp add: mx_def)
    then have "8 * (root l + anc mx l (hi - 1) div 64) + 8 \<le> s"
      using l(1) mx(1) by (simp add: block_ptr)
    then show ?thesis using l(2) by (simp add: x(2) unit_in_def)
  qed
qed

text \<open>Carrying out the plan is the initialisation.\<close>

lemma plan_run:
  assumes "n \<le> MMB_MAX_BITS" "lo \<le> hi" "hi \<le> n"
  shows "scatter m 0 (mmbBuildInitRangePlan n lo hi empty_plan) = mmbit_init_range m n lo hi"
proof -
  consider (none) "n = 0" | (flat) "0 < n" "n \<le> MMB_FLAT_MAX_BITS" | (clear) "\<not> n \<le> MMB_FLAT_MAX_BITS" "lo = hi"
    | (tree) "\<not> n \<le> MMB_FLAT_MAX_BITS" "lo < hi" using assms(2) by linarith
  then show ?thesis
  proof cases
    case none
    then show ?thesis
      by (simp add: mmbBuildInitRangePlan_def empty_plan_def scatter_units units_def run_units_def mmbit_init_range_def)
  next
    case flat
    show ?thesis
    proof (rule mem_eqI)
      fix a :: int
      assume a: "a < 0"
      have "scatter m 0 (mmbBuildInitRangePlan n lo hi empty_plan) a = m a"
        using plan_inside [OF mmbit_size_flat [OF flat(2)] assms(2,3)] a
        unfolding scatter_units by (intro run_units_other) auto
      moreover have "mmbit_init_range m n lo hi a = m a"
        using flat a by (simp add: mmbit_init_range_def mmbit_is_flat_model_def init_range_flat_below mmbit_clear_def clear_bytes)
      ultimately show "scatter m 0 (mmbBuildInitRangePlan n lo hi empty_plan) a = mmbit_init_range m n lo hi a" by simp
    next
      fix i
      show "gbit (scatter m 0 (mmbBuildInitRangePlan n lo hi empty_plan)) i = gbit (mmbit_init_range m n lo hi) i"
      proof (cases "lo = hi")
        case True
        then have "gbit (mmbit_init_range m n lo hi) i \<longleftrightarrow> \<not> i < 8 * mmbit_flat_size n \<and> gbit m i"
          using flat by (auto simp: mmbit_init_range_def mmbit_clear_def mmbit_is_flat_model_def gbit_def clear_bytes)
        then show ?thesis using True by (auto simp: flat_plan_gbit [OF flat])
      next
        case False
        then show ?thesis
          using flat by (simp add: flat_plan_gbit mmbit_init_range_def mmbit_is_flat_model_def init_range_flat_gbit)
      qed
    qed
  next
    case clear
    then show ?thesis
      by (simp add: mmbBuildInitRangePlan_def empty_plan_def add_u64a_def scatter_def scatter_u64a_def scatter_u32_def
          scatter_u16_def scatter_u8_def mmbit_init_range_def mmbit_clear_def mmbit_is_flat_model_def mmb_store_def)
  next
    case tree
    then show ?thesis
      using plan_loop_run [of m "[]"]
      by (simp add: mmbBuildInitRangePlan_def empty_plan_def scatter_def scatter_u64a_def scatter_u32_def
          scatter_u16_def scatter_u8_def mmbit_init_range_def mmbit_init_range_big_def mmbit_is_flat_model_def)
  qed
qed

section \<open>Lemmas: merged plans\<close>

definition plan_fits :: "nat \<Rightarrow> nat \<Rightarrow> scatter_plan_raw \<Rightarrow> bool" where
  "plan_fits lo hi p \<longleftrightarrow> (\<forall>u \<in> set (units p). unit_in lo hi u \<and> 0 < fst (snd u))"

lemma plan_fits_rebase: "plan_fits 0 s q \<Longrightarrow> plan_fits off (off + s) (rebase_plan off q)"
  by (fastforce simp: plan_fits_def units_rebase unit_in_def)

definition plan_avoids :: "nat \<Rightarrow> nat \<Rightarrow> scatter_plan_raw \<Rightarrow> bool" where
  "plan_avoids lo hi p \<longleftrightarrow> (\<forall>u \<in> set (units p). unit_off lo hi u \<and> \<not> unit_in lo hi u)"

lemma plan_avoids_empty [simp]: "plan_avoids lo hi empty_plan"
  by (simp add: plan_avoids_def units_def empty_plan_def)

lemma plan_avoids_merge [simp]: "plan_avoids lo hi (merge_in p q) \<longleftrightarrow> plan_avoids lo hi p \<and> plan_avoids lo hi q"
  by (auto simp: plan_avoids_def set_units_merge)

lemma plan_fits_apart:
  assumes "plan_fits lo hi p" "hi \<le> lo' \<or> hi' \<le> lo"
  shows "plan_avoids lo' hi' p"
  unfolding plan_avoids_def
proof (intro ballI)
  fix u
  assume "u \<in> set (units p)"
  moreover obtain b n v where u: "u = (b, n, v)" by (metis prod_cases3)
  ultimately have "lo \<le> b" "b + n \<le> hi" "0 < n" using assms(1) by (auto simp: plan_fits_def unit_in_def)
  then show "unit_off lo' hi' u \<and> \<not> unit_in lo' hi' u" using assms(2) by (auto simp: unit_off_def unit_in_def u)
qed

text \<open>The region of one of two plans, when the other stays off it.\<close>

lemma merged_region:
  assumes "plan_avoids off (off + s) p" "plan_avoids off (off + s) r" "plan_fits 0 s q"
  obtains m0 where "(\<lambda>a. scatter m 0 (merge_in (merge_in p (rebase_plan off q)) r) (int off + a)) = scatter m0 0 q"
proof -
  define us where "us = units (merge_in (merge_in p (rebase_plan off q)) r)"
  have fits: "\<forall>u \<in> set (units (rebase_plan off q)). unit_in off (off + s) u"
    using plan_fits_rebase [OF assms(3)] by (auto simp: plan_fits_def)
  have "\<forall>u \<in> set us. unit_in off (off + s) u \<or> unit_off off (off + s) u"
    using assms(1,2) fits by (auto simp: us_def set_units_merge plan_avoids_def)
  moreover have "filter (unit_in off (off + s)) us = filter (unit_in off (off + s)) (units (rebase_plan off q))"
    unfolding us_def using assms(1,2) by (simp add: filter_merge_left filter_merge_right plan_avoids_def)
  then have "filter (unit_in off (off + s)) us = map (\<lambda>(b, n, v). (off + b, n, v)) (units q)"
    using fits by (simp add: filter_True units_rebase)
  moreover have "\<forall>u \<in> set (units q). unit_in 0 s u" using assms(3) by (auto simp: plan_fits_def)
  ultimately obtain m0 where "(\<lambda>a. run_units m us (int off + a)) = run_units m0 (units q)"
    by (rule region_alone)
  then show thesis by (intro that [of m0]) (simp add: scatter_units us_def)
qed

lemma merge_in_empty: "merge_in empty_plan p = p" "merge_in p empty_plan = p"
  by (simp_all add: merge_in_def empty_plan_def)

lemma merge_in_assoc: "merge_in (merge_in p q) r = merge_in p (merge_in q r)"
  by (simp add: merge_in_def)

lemma plan_fits_init:
  "mmbit_size n = Some s \<Longrightarrow> lo \<le> hi \<Longrightarrow> hi \<le> n \<Longrightarrow> plan_fits 0 s (mmbBuildInitRangePlan n lo hi empty_plan)"
  using plan_inside by (auto simp: plan_fits_def)

text \<open>A multibit inside the state.\<close>

definition view :: "nat \<Rightarrow> mem \<Rightarrow> mem" where
  "view off m = (\<lambda>a. m (int off + a))"

lemma region_keys:
  assumes "plan_avoids off (off + s) p" "plan_avoids off (off + s) r" "mmbit_size n = Some s" "lo \<le> hi" "hi \<le> n"
  defines "plan \<equiv> merge_in (merge_in p (rebase_plan off (mmbBuildInitRangePlan n lo hi empty_plan))) r"
  shows "mm_inv n (view off (scatter m 0 plan))" "mm_keys n (view off (scatter m 0 plan)) = {lo..<hi}"
proof -
  have n: "n \<le> MMB_MAX_BITS" using assms(3) by (auto simp: mmbit_size_def split: if_splits)
  obtain m0 where "view off (scatter m 0 plan) = scatter m0 0 (mmbBuildInitRangePlan n lo hi empty_plan)"
    using merged_region [OF assms(1,2) plan_fits_init [OF assms(3-5)], of m] unfolding view_def plan_def by blast
  then have "view off (scatter m 0 plan) = mmbit_init_range m0 n lo hi" by (simp add: plan_run [OF n assms(4,5)])
  then show "mm_inv n (view off (scatter m 0 plan))" "mm_keys n (view off (scatter m 0 plan)) = {lo..<hi}"
    using mmbit_init_range_keys [OF n assms(4,5)] by simp_all
qed

section \<open>What an initialisation promises\<close>

text \<open>
  C37. From any memory \<open>mmbit_init_range\<close> leaves exactly the keys of the range on and the invariant
  in place, the plan that the compiler builds has the same effect on every byte, and \<open>mmbit_all\<close>
  tells exactly whether all keys are on.
\<close>

theorem multibit_init_range:
  assumes "n \<le> MMB_MAX_BITS" "lo \<le> hi" "hi \<le> n"
  shows "mm_inv n (mmbit_init_range m n lo hi) \<and> mm_keys n (mmbit_init_range m n lo hi) = {lo..<hi}
    \<and> scatter m 0 (mmbBuildInitRangePlan n lo hi empty_plan) = mmbit_init_range m n lo hi
    \<and> (mmbit_all m n \<longleftrightarrow> mm_keys n m = {0..<n})"
  using mmbit_init_range_keys [OF assms] plan_run [OF assms] mmbit_all_spec [OF assms(1)] by blast

theorem multibit_init_range_witness:
  "scatter (\<lambda>_. 0x5a) 0 (mmbBuildInitRangePlan 70000 63 5000 empty_plan) = mmbit_init_range (\<lambda>_. 0x5a) 70000 63 5000
    \<and> mm_keys 70000 (mmbit_init_range (\<lambda>_. 0x5a) 70000 63 5000) = {63..<5000}"
  using multibit_init_range [of 70000 63 5000 "\<lambda>_. 0x5a"] by (simp add: MMB_MAX_BITS_def)

text \<open>
  C38. The plan for a stream state, carried out over any memory, leaves the role array empty, the
  prefixes and nothing else on in the left array, and in streaming mode the outfixes on in the leaf array; the merged
  lists of stores do not disturb each other when the arrays do not overlap.
\<close>

theorem state_plan_initialises:
  assumes "mmbit_size role_count = Some s1" "mmbit_size left_count = Some s2" "mmbit_size leaf_count = Some s3"
    "role_off + s1 \<le> left_off \<or> left_off + s2 \<le> role_off" "role_off + s1 \<le> leaf_off \<or> leaf_off + s3 \<le> role_off"
    "left_off + s2 \<le> leaf_off \<or> leaf_off + s3 \<le> left_off"
    "left_prefix \<le> left_count" "outfix_begin \<le> outfix_end" "outfix_end \<le> leaf_count"
    "plan = buildStateScatterPlan role_off role_count left_count left_prefix left_off leaf_off streaming leaf_count
      outfix_begin outfix_end"
  shows "mm_keys role_count (view role_off (scatter m 0 plan)) = {} \<and> mm_inv role_count (view role_off (scatter m 0 plan))
    \<and> mm_keys left_count (view left_off (scatter m 0 plan)) = {0..<left_prefix}
    \<and> mm_inv left_count (view left_off (scatter m 0 plan))
    \<and> mm_keys leaf_count (view leaf_off (scatter m 0 plan)) = (if streaming then {outfix_begin..<outfix_end} else {})
    \<and> mm_inv leaf_count (view leaf_off (scatter m 0 plan))"
proof -
  define lo where "lo = (if streaming then outfix_begin else 0)"
  define hi where "hi = (if streaming then outfix_end else 0)"
  have leaf: "lo \<le> hi" "hi \<le> leaf_count" using assms(8,9) by (simp_all add: lo_def hi_def)
  define p1 where "p1 = rebase_plan role_off (mmbBuildInitRangePlan role_count 0 0 empty_plan)"
  define p2 where "p2 = rebase_plan left_off (mmbBuildInitRangePlan left_count 0 left_prefix empty_plan)"
  define p3 where "p3 = rebase_plan leaf_off (mmbBuildInitRangePlan leaf_count lo hi empty_plan)"
  have plan: "plan = merge_in (merge_in p1 p2) p3"
    unfolding assms(10) by (simp add: buildStateScatterPlan_def Let_def p1_def p2_def p3_def merge_in_empty mmbBuildClearPlan_def lo_def hi_def)
  have fits: "plan_fits role_off (role_off + s1) p1" "plan_fits left_off (left_off + s2) p2"
    "plan_fits leaf_off (leaf_off + s3) p3"
    unfolding p1_def p2_def p3_def using assms(1-3,7) leaf by (auto intro!: plan_fits_rebase plan_fits_init)
  have "plan = merge_in (merge_in empty_plan p1) (merge_in p2 p3)"
    by (simp add: plan merge_in_empty merge_in_assoc)
  moreover have "plan_avoids role_off (role_off + s1) (merge_in p2 p3)"
    using fits assms(4,5) by (auto intro: plan_fits_apart)
  ultimately have role: "mm_inv role_count (view role_off (scatter m 0 plan))"
      "mm_keys role_count (view role_off (scatter m 0 plan)) = {0..<0}"
    using region_keys [OF plan_avoids_empty _ assms(1), where r = "merge_in p2 p3" and lo = 0 and hi = 0 and off = role_off and m = m] by (simp_all add: p1_def)
  have "plan_avoids left_off (left_off + s2) p1" "plan_avoids left_off (left_off + s2) p3"
    using fits assms(4,6) by (auto intro: plan_fits_apart)
  then have left: "mm_inv left_count (view left_off (scatter m 0 plan))"
      "mm_keys left_count (view left_off (scatter m 0 plan)) = {0..<left_prefix}"
    using region_keys [OF _ _ assms(2) le0 assms(7)] unfolding plan p2_def by blast+
  have "plan = merge_in (merge_in (merge_in p1 p2) p3) empty_plan" by (simp add: plan merge_in_empty)
  moreover have "plan_avoids leaf_off (leaf_off + s3) (merge_in p1 p2)"
    using fits assms(5,6) by (auto intro: plan_fits_apart)
  ultimately have "mm_inv leaf_count (view leaf_off (scatter m 0 plan))"
      "mm_keys leaf_count (view leaf_off (scatter m 0 plan)) = {lo..<hi}"
    using region_keys [OF _ plan_avoids_empty assms(3) leaf, where off = leaf_off and p = "merge_in p1 p2" and m = m] by (simp_all add: p3_def)
  then show ?thesis using role left by (simp add: lo_def hi_def)
qed

theorem state_plan_initialises_witness:
  "mm_keys 200 (view 64 (scatter (\<lambda>_. 0x5a) 0 (buildStateScatterPlan 0 240 200 3 64 40 True 100 10 20))) = {0..<3}"
proof -
  have size: "mmbit_size 200 = Some 25" "mmbit_size 100 = Some 13" "mmbit_size 240 = Some 30"
    by (simp_all add: mmbit_size_def MMB_MAX_BITS_def MMB_FLAT_MAX_BITS_def ROUNDUP_N_def)
  show ?thesis
    using state_plan_initialises [OF size(3,1,2), of 0 64 40 3 10 20 _ True "\<lambda>_. 0x5a"] by simp
qed

end
