(* ===== verification/MultibitCompress.thy ===== *)
theory MultibitCompress
  imports MultibitKeys
begin

text \<open>
  Multibits in a stream that is saved (\<open>src/util/multibit_compress.h\<close>): the blocks of the tree that a
  bit leads to, in the order of a depth-first walk.  The walks are loops that go down to the next set
  bit and up when none is left; \<open>None\<close> would be a walk that never ends.
\<close>

section \<open>Size\<close>

definition mmb_popcount :: "u64a \<Rightarrow> nat" where
  "mmb_popcount v = popcount64 v"

partial_function (option) compsize_loop :: "mem \<Rightarrow> nat \<Rightarrow> nat \<Rightarrow> nat \<Rightarrow> nat \<Rightarrow> nat \<Rightarrow> nat option" where
  "compsize_loop m max_level level key key_rem num_block =
     (let block = mmb_load m (mmbit_get_level_root level + int (key * 8));
          block_1 = block AND NOT (mmb_mask_zero_to_nocheck key_rem);
          num_block = (if key_rem < MMB_KEY_BITS \<and> mmb_popcount block = mmb_popcount block_1
                       then num_block + 1 else num_block)
      in if key_rem < MMB_KEY_BITS \<and> level < max_level \<and> block_1 \<noteq> 0 then
           compsize_loop m max_level (level + 1) (push_bit MMB_KEY_SHIFT key + mmb_ctz block_1) 0 num_block
         else if level = 0 then Some (8 * num_block)
         else compsize_loop m max_level (level - 1) (drop_bit MMB_KEY_SHIFT key) ((key AND MMB_KEY_MASK) + 1) num_block)"

definition mmbit_compsize :: "mem \<Rightarrow> nat \<Rightarrow> nat option" where
  "mmbit_compsize m total_bits =
     (if total_bits \<le> MMB_FLAT_MAX_BITS then Some (ROUNDUP_N total_bits 8 div 8)
      else if mmb_load m 0 = 0 then Some 8
      else compsize_loop m (mmbit_maxlevel total_bits) 0 0 0 0)"

section \<open>Compression\<close>

text \<open>\<open>len\<close> bytes from \<open>src\<close> of one memory to \<open>dst\<close> of another.\<close>

definition memcpy :: "mem \<Rightarrow> int \<Rightarrow> mem \<Rightarrow> int \<Rightarrow> nat \<Rightarrow> mem" where
  "memcpy d dst s src len = (\<lambda>a. if dst \<le> a \<and> a < dst + int len then s (src + (a - dst)) else d a)"

partial_function (option) compress_loop ::
    "mem \<Rightarrow> nat \<Rightarrow> nat \<Rightarrow> nat \<Rightarrow> nat \<Rightarrow> mem \<Rightarrow> nat \<Rightarrow> (mem \<times> nat) option" where
  "compress_loop m max_level level key key_rem cbuf p =
     (let block_ptr = mmbit_get_level_root level + int (key * 8);
          block = mmb_load m block_ptr;
          block_1 = block AND NOT (mmb_mask_zero_to_nocheck key_rem);
          (cbuf, p) = (if key_rem < MMB_KEY_BITS \<and> mmb_popcount block = mmb_popcount block_1
                       then (mmb_store cbuf (int p) block, p + 8) else (cbuf, p))
      in if key_rem < MMB_KEY_BITS \<and> level < max_level \<and> block_1 \<noteq> 0 then
           compress_loop m max_level (level + 1) (push_bit MMB_KEY_SHIFT key + mmb_ctz block_1) 0 cbuf p
         else if level = 0 then Some (cbuf, p)
         else compress_loop m max_level (level - 1) (drop_bit MMB_KEY_SHIFT key) ((key AND MMB_KEY_MASK) + 1) cbuf p)"

text \<open>The result is the returned flag, the buffer and \<open>*comp_space\<close>.\<close>

definition mmbit_compress :: "mem \<Rightarrow> nat \<Rightarrow> mem \<Rightarrow> nat \<Rightarrow> nat \<Rightarrow> (bool \<times> mem \<times> nat) option" where
  "mmbit_compress m total_bits cbuf comp_space max_comp_space =
     (case mmbit_compsize m total_bits of
        None \<Rightarrow> None
      | Some comp_size \<Rightarrow>
          if comp_size > max_comp_space then Some (False, cbuf, comp_space)
          else if total_bits \<le> MMB_FLAT_MAX_BITS then Some (True, memcpy cbuf 0 m 0 comp_size, comp_size)
          else if mmb_load m 0 = 0 then Some (True, memcpy cbuf 0 m 0 8, comp_size)
          else map_option (\<lambda>(cbuf, p). (True, cbuf, comp_size))
                 (compress_loop m (mmbit_maxlevel total_bits) 0 0 0 cbuf 0))"

section \<open>Decompression\<close>

partial_function (option) decompress_loop ::
    "mem \<Rightarrow> nat \<Rightarrow> nat \<Rightarrow> nat \<Rightarrow> nat \<Rightarrow> mem \<Rightarrow> nat \<Rightarrow> nat \<Rightarrow> (bool \<times> mem \<times> nat) option" where
  "decompress_loop m max_level level key key_rem cbuf p comp_end =
     (let block = mmb_load m (mmbit_get_level_root level + int (key * 8));
          block_1 = block AND NOT (mmb_mask_zero_to_nocheck key_rem)
      in if key_rem < MMB_KEY_BITS \<and> level < max_level \<and> block_1 \<noteq> 0 then
           let key = push_bit MMB_KEY_SHIFT key + mmb_ctz block_1;
               m = mmb_store m (mmbit_get_level_root (level + 1) + int (key * 8)) (mmb_load cbuf (int p));
               p = p + 8
           in if p > comp_end then Some (False, m, p)
              else decompress_loop m max_level (level + 1) key 0 cbuf p comp_end
         else if level = 0 then Some (True, m, p)
         else decompress_loop m max_level (level - 1) (drop_bit MMB_KEY_SHIFT key) ((key AND MMB_KEY_MASK) + 1)
                cbuf p comp_end)"

definition mmbit_decompress :: "mem \<Rightarrow> nat \<Rightarrow> mem \<Rightarrow> nat \<Rightarrow> nat \<Rightarrow> (bool \<times> mem \<times> nat) option" where
  "mmbit_decompress m total_bits cbuf comp_space max_comp_space =
     (if total_bits \<le> MMB_FLAT_MAX_BITS then
        let comp_size = ROUNDUP_N total_bits 8 div 8 in Some (True, memcpy m 0 cbuf 0 comp_size, comp_size)
      else if mmb_load cbuf 0 = 0 then Some (True, memcpy m 0 cbuf 0 8, 8)
      else case decompress_loop (memcpy m 0 cbuf 0 8) (mmbit_maxlevel total_bits) 0 0 0 cbuf 8 max_comp_space of
             None \<Rightarrow> None
           | Some (ok, m, p) \<Rightarrow> Some (ok, m, if ok then p else comp_space))"

section \<open>Lemmas: the walk\<close>

text \<open>The blocks that a bit leads to, from a block on and from one of its bits on.\<close>

primrec positions :: "mem \<Rightarrow> nat \<Rightarrow> nat \<Rightarrow> nat \<Rightarrow> (nat \<times> nat) list" where
  "positions m 0 l k = [(l, k)]"
| "positions m (Suc d) l k = (l, k) # concat (map (\<lambda>i. positions m d (Suc l) (64 * k + i))
     (filter (\<lambda>i. 0 \<le> i \<and> lv m l (64 * k + i)) [0..<64]))"

definition kids :: "mem \<Rightarrow> nat \<Rightarrow> nat \<Rightarrow> nat \<Rightarrow> nat \<Rightarrow> (nat \<times> nat) list" where
  "kids m d l k r = (case d of 0 \<Rightarrow> [] | Suc d \<Rightarrow> concat (map (\<lambda>i. positions m d (Suc l) (64 * k + i))
     (filter (\<lambda>i. r \<le> i \<and> lv m l (64 * k + i)) [0..<64])))"

lemma positions_kids: "positions m d l k = (l, k) # kids m d l k 0"
  by (cases d) (simp_all add: kids_def)

lemma filter_from_first:
  assumes "r \<le> i" "i < n" "P i" "\<And>j. r \<le> j \<Longrightarrow> P j \<Longrightarrow> i \<le> j"
  shows "filter (\<lambda>j. r \<le> j \<and> P j) [0..<n] = i # filter (\<lambda>j. Suc i \<le> j \<and> P j) [0..<n]"
proof -
  have range: "[0..<n] = [0..<i] @ i # [Suc i..<n]"
    using assms(2) upt_add_eq_append [of 0 i "n - i"] by (simp add: upt_conv_Cons)
  have "filter (\<lambda>j. r \<le> j \<and> P j) [0..<i] = []" "filter (\<lambda>j. Suc i \<le> j \<and> P j) [0..<i] = []"
    by (fastforce simp: filter_empty_conv dest: assms(4))+
  moreover have "filter (\<lambda>j. r \<le> j \<and> P j) [Suc i..<n] = filter (\<lambda>j. Suc i \<le> j \<and> P j) [Suc i..<n]"
    using assms(1) by (intro filter_cong) auto
  ultimately show ?thesis unfolding range using assms(1,3) by simp
qed

lemma kids_first:
  assumes "r \<le> i" "i < 64" "lv m l (64 * k + i)" "\<And>j. r \<le> j \<Longrightarrow> j < 64 \<Longrightarrow> lv m l (64 * k + j) \<Longrightarrow> i \<le> j"
  shows "kids m (Suc d) l k r = positions m d (Suc l) (64 * k + i) @ kids m (Suc d) l k (Suc i)"
proof -
  have "filter (\<lambda>j. r \<le> j \<and> lv m l (64 * k + j)) [0..<64] = filter (\<lambda>j. r \<le> j \<and> j < 64 \<and> lv m l (64 * k + j)) [0..<64]"
    by (intro filter_cong) auto
  also have "\<dots> = i # filter (\<lambda>j. Suc i \<le> j \<and> j < 64 \<and> lv m l (64 * k + j)) [0..<64]"
    by (rule filter_from_first) (use assms in auto)
  also have "filter (\<lambda>j. Suc i \<le> j \<and> j < 64 \<and> lv m l (64 * k + j)) [0..<64]
      = filter (\<lambda>j. Suc i \<le> j \<and> lv m l (64 * k + j)) [0..<64]"
    by (intro filter_cong) auto
  finally show ?thesis by (simp add: kids_def)
qed

lemma kids_none: "(\<And>j. r \<le> j \<Longrightarrow> j < 64 \<Longrightarrow> \<not> lv m l (64 * k + j)) \<Longrightarrow> kids m d l k r = []"
  by (cases d) (auto simp: kids_def filter_empty_conv)

text \<open>What one round of a walk sees.\<close>

definition blk :: "mem \<Rightarrow> nat \<Rightarrow> nat \<Rightarrow> u64a" where
  "blk m l k = mmb_load m (mmbit_get_level_root l + int (k * 8))"

lemma bit_blk: "l \<le> 6 \<Longrightarrow> bit (blk m l k) i \<longleftrightarrow> i < 64 \<and> lv m l (64 * k + i)"
  unfolding blk_def by (rule block_bits)

lemma bit_rest: "l \<le> 6 \<Longrightarrow> r < 64 \<Longrightarrow>
    bit (blk m l k AND NOT (mmb_mask_zero_to_nocheck r)) i \<longleftrightarrow> i < 64 \<and> r \<le> i \<and> lv m l (64 * k + i)"
  by (auto simp: bit_and_iff bit_not_iff bit_blk bit_mask_zero_to_nocheck)

lemma popcount_first:
  assumes "l \<le> 6" "r < 64"
  shows "mmb_popcount (blk m l k) = mmb_popcount (blk m l k AND NOT (mmb_mask_zero_to_nocheck r))
    \<longleftrightarrow> (\<forall>i < r. \<not> lv m l (64 * k + i))"
proof -
  define rest where "rest = blk m l k AND NOT (mmb_mask_zero_to_nocheck r)"
  have sets: "bitset rest = {i. i < 64 \<and> r \<le> i \<and> lv m l (64 * k + i)}" "bitset (blk m l k) = {i. i < 64 \<and> lv m l (64 * k + i)}"
    by (auto simp: bitset_def rest_def bit_rest [OF assms] bit_blk [OF assms(1)])
  have sub: "bitset rest \<subseteq> bitset (blk m l k)" unfolding sets by blast
  have "card (bitset (blk m l k)) = card (bitset rest) \<longleftrightarrow> bitset (blk m l k) = bitset rest"
  proof
    assume "card (bitset (blk m l k)) = card (bitset rest)"
    then show "bitset (blk m l k) = bitset rest" using card_subset_eq [OF finite_bitset sub] by simp
  qed simp
  also have "\<dots> \<longleftrightarrow> (\<forall>i < r. \<not> lv m l (64 * k + i))"
  proof
    assume eq: "bitset (blk m l k) = bitset rest"
    show "\<forall>i < r. \<not> lv m l (64 * k + i)"
    proof (intro allI impI notI)
      fix i
      assume "i < r" "lv m l (64 * k + i)"
      then have "i \<in> bitset (blk m l k)" using assms(2) by (simp add: sets)
      then show False using \<open>i < r\<close> by (simp add: eq sets)
    qed
  next
    assume "\<forall>i < r. \<not> lv m l (64 * k + i)"
    then have "r \<le> i" if "lv m l (64 * k + i)" for i using that not_le by blast
    then show "bitset (blk m l k) = bitset rest" unfolding sets by blast
  qed
  finally show ?thesis by (simp add: mmb_popcount_def popcount64_card rest_def)
qed

text \<open>The next child of a block, if there is one.\<close>

lemma rest_cases:
  assumes "l \<le> 6" "r \<le> 64"
  obtains (none) "r < 64 \<longrightarrow> blk m l k AND NOT (mmb_mask_zero_to_nocheck r) = 0"
      "\<And>j. r \<le> j \<Longrightarrow> j < 64 \<Longrightarrow> \<not> lv m l (64 * k + j)"
  | (child) i where "r < 64" "blk m l k AND NOT (mmb_mask_zero_to_nocheck r) \<noteq> 0"
      "mmb_ctz (blk m l k AND NOT (mmb_mask_zero_to_nocheck r)) = i"
      "r \<le> i" "i < 64" "lv m l (64 * k + i)" "\<And>j. r \<le> j \<Longrightarrow> j < 64 \<Longrightarrow> lv m l (64 * k + j) \<Longrightarrow> i \<le> j"
proof (cases "r < 64 \<and> blk m l k AND NOT (mmb_mask_zero_to_nocheck r) \<noteq> 0")
  case True
  then have "r < 64" by simp
  show thesis
  proof (rule child)
    note ctz = mmb_ctz_least [of "blk m l k AND NOT (mmb_mask_zero_to_nocheck r)", unfolded bit_rest [OF assms(1) \<open>r < 64\<close>]]
    show "r \<le> mmb_ctz (blk m l k AND NOT (mmb_mask_zero_to_nocheck r))"
      "mmb_ctz (blk m l k AND NOT (mmb_mask_zero_to_nocheck r)) < 64"
      "lv m l (64 * k + mmb_ctz (blk m l k AND NOT (mmb_mask_zero_to_nocheck r)))" using ctz True by simp_all
    show "mmb_ctz (blk m l k AND NOT (mmb_mask_zero_to_nocheck r)) \<le> j"
      if "r \<le> j" "j < 64" "lv m l (64 * k + j)" for j using ctz(2) True that by blast
  qed (use True in auto)
next
  case False
  have "\<not> lv m l (64 * k + j)" if "r \<le> j" "j < 64" for j
  proof
    assume "lv m l (64 * k + j)"
    moreover have "r < 64" using that by simp
    ultimately have "bit (blk m l k AND NOT (mmb_mask_zero_to_nocheck r)) j" using that bit_rest [OF assms(1)] by blast
    then show False using False \<open>r < 64\<close> by simp
  qed
  then show thesis using False by (intro none) auto
qed

section \<open>Lemmas: compression\<close>

text \<open>The blocks at the given positions, put one after the other.\<close>

definition put :: "mem \<Rightarrow> mem \<times> nat \<Rightarrow> (nat \<times> nat) list \<Rightarrow> mem \<times> nat" where
  "put m st ps = foldl (\<lambda>(c, p) (l, k). (mmb_store c (int p) (blk m l k), p + 8)) st ps"

lemma put_simps [simp]:
  "put m st [] = st" "put m st ((l, k) # ps) = put m (mmb_store (fst st) (int (snd st)) (blk m l k), snd st + 8) ps"
  "put m st (ps @ qs) = put m (put m st ps) qs"
  by (simp_all add: put_def case_prod_beta)

lemma snd_put: "snd (put m st ps) = snd st + 8 * length ps"
  by (induction ps arbitrary: st) auto

definition go_up :: "mem \<Rightarrow> nat \<Rightarrow> nat \<Rightarrow> nat \<Rightarrow> mem \<times> nat \<Rightarrow> (mem \<times> nat) option" where
  "go_up m mx l k st =
     (if l = 0 then Some st else compress_loop m mx (l - 1) (k div 64) (k mod 64 + 1) (fst st) (snd st))"

text \<open>One round: the block is put at the first visit, then the walk goes down or up.\<close>

lemma compress_round:
  fixes m :: mem and l mx :: nat
  assumes "l \<le> mx" "mx \<le> 6"
  defines "st \<equiv> \<lambda>c p k r. put m (c, p) (if r < 64 \<and> (\<forall>i < r. \<not> lv m l (64 * k + i)) then [(l, k)] else [])"
    and "rest \<equiv> \<lambda>k r. blk m l k AND NOT (mmb_mask_zero_to_nocheck r)"
  shows "compress_loop m mx l k r c p =
    (if r < 64 \<and> l < mx \<and> rest k r \<noteq> 0
     then compress_loop m mx (Suc l) (64 * k + mmb_ctz (rest k r)) 0 (fst (st c p k r)) (snd (st c p k r))
     else go_up m mx l k (st c p k r))"
proof -
  have "l \<le> 6" using assms(1,2) by simp
  then have visit: "(if r < 64 \<and> mmb_popcount (blk m l k) = mmb_popcount (rest k r)
      then (mmb_store c (int p) (blk m l k), p + 8) else (c, p)) = st c p k r"
    using popcount_first [of l r m k] by (auto simp: st_def rest_def)
  have rest: "blk m l k AND NOT (mmb_mask_zero_to_nocheck r) = rest k r" by (simp add: rest_def)
  show ?thesis
    by (subst compress_loop.simps)
      (simp only: Let_def MMB_consts blk_def [symmetric] rest visit go_up_def case_prod_beta
        push_bit_eq_mult drop_bit_eq_div nat_and_masks, simp add: mult.commute)
qed

lemma compress_loop_walk:
  assumes "mx \<le> 6" "l \<le> mx" "r \<le> 64"
  shows "compress_loop m mx l k r c p = go_up m mx l k
    (put m (put m (c, p) (if r < 64 \<and> (\<forall>i < r. \<not> lv m l (64 * k + i)) then [(l, k)] else [])) (kids m (mx - l) l k r))"
  using assms(2,3)
proof (induction "mx - l" arbitrary: l k r c p)
  case (0 l k r c p)
  then have "l = mx" by simp
  then show ?case
    unfolding compress_round [OF 0(2) assms(1)] by (simp only: less_irrefl simp_thms if_False kids_def
        diff_self_eq_0 nat.case put_simps)
next
  case (Suc d l k r c p)
  have lt: "l < mx" "d = mx - Suc l" "mx - l = Suc d" using Suc.hyps(2) by simp_all
  have l6: "l \<le> 6" using lt(1) assms(1) by simp
  show ?case
    using Suc.prems(2)
  proof (induction "64 - r" arbitrary: r c p rule: less_induct)
    case less
    define st where "st = put m (c, p) (if r < 64 \<and> (\<forall>i < r. \<not> lv m l (64 * k + i)) then [(l, k)] else [])"
    define rest where "rest = blk m l k AND NOT (mmb_mask_zero_to_nocheck r)"
    have run: "compress_loop m mx l k r c p =
        (if r < 64 \<and> rest \<noteq> 0 then compress_loop m mx (Suc l) (64 * k + mmb_ctz rest) 0 (fst st) (snd st)
         else go_up m mx l k st)"
      unfolding compress_round [OF less_imp_le [OF lt(1)] assms(1)] st_def rest_def using lt(1) by simp
    show ?case
      unfolding st_def [symmetric]
    proof (cases rule: rest_cases [OF l6 less.prems, of m k, folded rest_def, case_names none child])
      case none
      then show "compress_loop m mx l k r c p = go_up m mx l k (put m st (kids m (mx - l) l k r))"
        unfolding run by (auto simp: kids_none)
    next
      case (child i)
      define st' where "st' = put m st (positions m d (Suc l) (64 * k + i))"
      have "compress_loop m mx l k r c p = compress_loop m mx (Suc l) (64 * k + i) 0 (fst st) (snd st)"
        using child(1-3) by (simp add: run)
      also have "\<dots> = go_up m mx (Suc l) (64 * k + i) st'"
        using Suc.hyps(1) [OF lt(2), of 0 "64 * k + i" "fst st" "snd st"] lt(1)
        by (simp add: st'_def positions_kids lt(2))
      also have "\<dots> = compress_loop m mx l k (Suc i) (fst st') (snd st')"
        using child(5) by (simp add: go_up_def)
      also have "\<dots> = go_up m mx l k (put m st' (kids m (mx - l) l k (Suc i)))"
        using less.hyps [of "Suc i" "fst st'" "snd st'"] child(4-6) by (auto simp: less_Suc_eq)
      finally show "compress_loop m mx l k r c p = go_up m mx l k (put m st (kids m (mx - l) l k r))"
        unfolding lt(3) st'_def using kids_first [OF child(4-7), of d] by simp
    qed
  qed
qed

lemma compress_walk:
  assumes "mx \<le> 6"
  shows "compress_loop m mx 0 0 0 c p = Some (put m (c, p) (positions m mx 0 0))"
  using compress_loop_walk [OF assms le0 le0, of m 0 c p] by (simp add: go_up_def positions_kids)

text \<open>\<open>mmbit_compsize\<close> counts the same blocks.\<close>

lemma compsize_of_compress:
  assumes "compress_loop m mx l k r c p = Some st"
  shows "p \<le> snd st \<and> (\<forall>nb. compsize_loop m mx l k r nb = Some (8 * nb + (snd st - p)))"
proof (rule compress_loop.raw_induct [OF _ assms, of "\<lambda>m mx l k r c p st.
    p \<le> snd st \<and> (\<forall>nb. compsize_loop m mx l k r nb = Some (8 * nb + (snd st - p)))"])
  fix walk m mx l k r c p st
  assume 1: "\<And>m mx l k r c p st. walk m mx l k r c p = Some st
      \<Longrightarrow> p \<le> snd st \<and> (\<forall>nb. compsize_loop m mx l k r nb = Some (8 * nb + (snd st - p)))"
    "(let block_ptr = mmbit_get_level_root l + int (k * 8); block = mmb_load m block_ptr;
          block_1 = block AND NOT (mmb_mask_zero_to_nocheck r);
          (c, p) = (if r < MMB_KEY_BITS \<and> mmb_popcount block = mmb_popcount block_1
                    then (mmb_store c (int p) block, p + 8) else (c, p))
      in if r < MMB_KEY_BITS \<and> l < mx \<and> block_1 \<noteq> 0
         then walk m mx (l + 1) (push_bit MMB_KEY_SHIFT k + mmb_ctz block_1) 0 c p
         else if l = 0 then Some (c, p)
         else walk m mx (l - 1) (drop_bit MMB_KEY_SHIFT k) ((k AND MMB_KEY_MASK) + 1) c p) = Some st"
  define block where "block = mmb_load m (mmbit_get_level_root l + int (k * 8))"
  define rest where "rest = block AND NOT (mmb_mask_zero_to_nocheck r)"
  define first where "first \<longleftrightarrow> r < MMB_KEY_BITS \<and> mmb_popcount block = mmb_popcount rest"
  define c' where "c' = (if first then mmb_store c (int p) block else c)"
  define p' where "p' = (if first then p + 8 else p)"
  have step: "(if r < MMB_KEY_BITS \<and> l < mx \<and> rest \<noteq> 0
      then walk m mx (l + 1) (push_bit MMB_KEY_SHIFT k + mmb_ctz rest) 0 c' p'
      else if l = 0 then Some (c', p')
      else walk m mx (l - 1) (drop_bit MMB_KEY_SHIFT k) ((k AND MMB_KEY_MASK) + 1) c' p') = Some st"
    using 1(2) unfolding Let_def block_def [symmetric] rest_def [symmetric] first_def [symmetric] c'_def p'_def
    by (cases first) (simp_all only: if_True if_False prod.case)
  have size: "compsize_loop m mx l k r nb =
      (let nb = if first then nb + 1 else nb
       in if r < MMB_KEY_BITS \<and> l < mx \<and> rest \<noteq> 0
          then compsize_loop m mx (l + 1) (push_bit MMB_KEY_SHIFT k + mmb_ctz rest) 0 nb
          else if l = 0 then Some (8 * nb)
          else compsize_loop m mx (l - 1) (drop_bit MMB_KEY_SHIFT k) ((k AND MMB_KEY_MASK) + 1) nb)" for nb
    by (subst compsize_loop.simps) (simp only: Let_def block_def rest_def first_def)
  consider (down) "r < MMB_KEY_BITS \<and> l < mx \<and> rest \<noteq> 0" | (stop) "\<not> (r < MMB_KEY_BITS \<and> l < mx \<and> rest \<noteq> 0)" "l = 0"
    | (up) "\<not> (r < MMB_KEY_BITS \<and> l < mx \<and> rest \<noteq> 0)" "l \<noteq> 0" by blast
  then show "p \<le> snd st \<and> (\<forall>nb. compsize_loop m mx l k r nb = Some (8 * nb + (snd st - p)))"
  proof cases
    case down
    then have "walk m mx (l + 1) (push_bit MMB_KEY_SHIFT k + mmb_ctz rest) 0 c' p' = Some st" using step by simp
    then have "p' \<le> snd st" "\<And>nb. compsize_loop m mx (l + 1) (push_bit MMB_KEY_SHIFT k + mmb_ctz rest) 0 nb
        = Some (8 * nb + (snd st - p'))" using 1(1) by blast+
    then show ?thesis using down unfolding size Let_def by (auto simp: p'_def split: if_splits)
  next
    case stop
    then show ?thesis using step unfolding size by (auto simp: p'_def Let_def)
  next
    case up
    have "walk m mx (l - 1) (drop_bit MMB_KEY_SHIFT k) ((k AND MMB_KEY_MASK) + 1) c' p' = Some st"
      using step unfolding if_not_P [OF up(1)] if_not_P [OF up(2)] .
    then have "p' \<le> snd st" "\<And>nb. compsize_loop m mx (l - 1) (drop_bit MMB_KEY_SHIFT k) ((k AND MMB_KEY_MASK) + 1) nb
        = Some (8 * nb + (snd st - p'))" using 1(1) by blast+
    then show ?thesis using up unfolding size Let_def by (auto simp: p'_def split: if_splits)
  qed
qed

lemma compsize_walk:
  assumes "mx \<le> 6"
  shows "compsize_loop m mx 0 0 0 0 = Some (8 * length (positions m mx 0 0))"
  using compsize_of_compress [OF compress_walk [OF assms, of m c 0]] by (simp add: snd_put)

text \<open>What lies in the buffer after the blocks were put there.\<close>

definition holds :: "mem \<Rightarrow> mem \<Rightarrow> nat \<Rightarrow> (nat \<times> nat) list \<Rightarrow> bool" where
  "holds m c p ps \<longleftrightarrow> (\<forall>j < length ps. mmb_load c (int (p + 8 * j)) = blk m (fst (ps ! j)) (snd (ps ! j)))"

lemma holds_Cons: "holds m c p (x # ps) \<longleftrightarrow> mmb_load c (int p) = blk m (fst x) (snd x) \<and> holds m c (p + 8) ps"
  by (simp add: holds_def All_less_Suc2 algebra_simps)

lemma holds_append: "holds m c p (ps @ qs) \<longleftrightarrow> holds m c p ps \<and> holds m c (p + 8 * length ps) qs"
  by (induction ps arbitrary: p) (auto simp: holds_Cons algebra_simps, simp add: holds_def)

lemma mmb_load_store: "mmb_load (mmb_store c p v) p = v"
proof (rule bit_word_eqI)
  fix i
  assume i: "i < LENGTH(64)"
  then have "8 * (i div 8) + i mod 8 = i" "i mod 8 < 8" "i div 8 < 8" by simp_all
  then show "bit (mmb_load (mmb_store c p v) p) i = bit v i"
    using i by (simp add: mmb_load_def unaligned_load_u64a_def bit_load_le mmb_store_def unaligned_store_u64a_def
        store_le_at bit_ucast_iff bit_drop_bit_eq)
qed

lemma mmb_load_store_other:
  assumes "q + 8 \<le> p \<or> p + 8 \<le> q"
  shows "mmb_load (mmb_store c p v) q = mmb_load c q"
proof (rule bit_word_eqI)
  fix i
  assume i: "i < LENGTH(64)"
  then have "i div 8 < 8" by simp
  then have "\<not> (p \<le> q + int (i div 8) \<and> q + int (i div 8) < p + 8)" using assms by linarith
  then show "bit (mmb_load (mmb_store c p v) q) i = bit (mmb_load c q) i"
    using i by (auto simp: mmb_load_def unaligned_load_u64a_def bit_load_le mmb_store_def unaligned_store_u64a_def store_le_at)
qed

lemma put_before: "q + 8 \<le> snd st \<Longrightarrow> mmb_load (fst (put m st ps)) (int q) = mmb_load (fst st) (int q)"
proof (induction ps arbitrary: st)
  case (Cons x ps)
  obtain l k where x: "x = (l, k)" by (cases x)
  have "mmb_load (mmb_store (fst st) (int (snd st)) (blk m l k)) (int q) = mmb_load (fst st) (int q)"
    using Cons.prems by (intro mmb_load_store_other) simp
  then show ?case using Cons by (simp add: x)
qed simp

lemma holds_put: "holds m (fst (put m (c, p) ps)) p ps"
proof (induction ps arbitrary: c p)
  case Nil
  then show ?case by (simp add: holds_def)
next
  case (Cons x ps)
  obtain l k where x: "x = (l, k)" by (cases x)
  show ?case
    using Cons put_before [of p "(mmb_store c (int p) (blk m l k), p + 8)" m ps]
    by (simp add: x holds_Cons mmb_load_store)
qed

section \<open>Lemmas: decompression\<close>

lemma positions_bounds:
  "k < 64 ^ l \<Longrightarrow> (l', k') \<in> set (positions m d l k) \<Longrightarrow> l \<le> l' \<and> l' \<le> l + d \<and> k' < 64 ^ l'"
proof (induction d arbitrary: l k)
  case (Suc d)
  consider "(l', k') = (l, k)" | i where "i < 64" "(l', k') \<in> set (positions m d (Suc l) (64 * k + i))"
    using Suc.prems(2) by auto
  then show ?case
  proof cases
    case 1
    then show ?thesis using Suc.prems(1) by simp
  next
    case 2
    have "64 * k + i < 64 ^ Suc l" using Suc.prems(1) 2(1) by simp
    then show ?thesis using Suc.IH [OF _ 2(2)] by simp
  qed
qed simp

text \<open>The blocks of \<open>m\<close> at the given positions, copied to another memory.\<close>

definition fill :: "mem \<Rightarrow> mem \<Rightarrow> (nat \<times> nat) list \<Rightarrow> mem" where
  "fill m b ps = foldl (\<lambda>b (l, k). mmb_store b (mmbit_get_level_root l + int (k * 8)) (blk m l k)) b ps"

lemma fill_simps [simp]:
  "fill m b [] = b" "fill m b ((l, k) # ps) = fill m (mmb_store b (mmbit_get_level_root l + int (k * 8)) (blk m l k)) ps"
  "fill m b (ps @ qs) = fill m (fill m b ps) qs"
  by (simp_all add: fill_def)

lemma lv_fill:
  assumes "\<forall>(l', k') \<in> set ps. l' \<le> 6 \<and> k' < 64 ^ l'" "j < 64 ^ Suc l"
  shows "lv (fill m b ps) l j \<longleftrightarrow> (if (l, j div 64) \<in> set ps then lv m l j else lv b l j)"
  using assms(1)
proof (induction ps arbitrary: b)
  case (Cons x ps)
  obtain l' k' where x: "x = (l', k')" by (cases x)
  have l': "l' \<le> 6" "k' < 64 ^ l'" using Cons.prems by (simp_all add: x)
  have ptr: "mmbit_get_level_root l' + int (k' * 8) = int (8 * (root l' + k'))" using l'(1) by (simp add: level_root)
  have "lv (mmb_store b (mmbit_get_level_root l' + int (k' * 8)) (blk m l' k')) l j \<longleftrightarrow>
      (if l = l' \<and> j div 64 = k' then bit (blk m l' k') (j mod 64) else lv b l j)"
    unfolding ptr by (rule lv_store [OF l'(2) assms(2)])
  moreover have "bit (blk m l' k') (j mod 64) \<longleftrightarrow> lv m l j" if "l = l'" "j div 64 = k'"
  proof -
    have "64 * k' + j mod 64 = j" using that(2) by auto
    then show ?thesis using that(1) l'(1) by (simp add: bit_blk)
  qed
  ultimately show ?case using Cons by (auto simp: x)
qed simp

lemma blk_eq: "l \<le> 6 \<Longrightarrow> blk b l k = blk m l k \<longleftrightarrow> (\<forall>i < 64. lv b l (64 * k + i) = lv m l (64 * k + i))"
  by (auto simp: bit_eq_iff bit_blk)

definition go_up_d :: "nat \<Rightarrow> nat \<Rightarrow> nat \<Rightarrow> mem \<Rightarrow> mem \<Rightarrow> nat \<Rightarrow> nat \<Rightarrow> (bool \<times> mem \<times> nat) option" where
  "go_up_d mx l k b c p e =
     (if l = 0 then Some (True, b, p) else decompress_loop b mx (l - 1) (k div 64) (k mod 64 + 1) c p e)"

lemma decompress_round:
  "decompress_loop b mx l k r c p e =
    (let rest = blk b l k AND NOT (mmb_mask_zero_to_nocheck r); k' = 64 * k + mmb_ctz rest;
         b' = mmb_store b (mmbit_get_level_root (Suc l) + int (k' * 8)) (mmb_load c (int p))
     in if r < 64 \<and> l < mx \<and> rest \<noteq> 0 then
          if p + 8 > e then Some (False, b', p + 8) else decompress_loop b' mx (Suc l) k' 0 c (p + 8) e
        else go_up_d mx l k b c p e)"
  by (subst decompress_loop.simps)
    (simp only: Let_def MMB_consts blk_def [symmetric] go_up_d_def push_bit_eq_mult drop_bit_eq_div nat_and_masks
      Suc_eq_plus1, simp add: mult.commute)

text \<open>
  The walk over the blocks already copied goes the way of the walk over the original, as long as the
  buffer lasts.
\<close>

definition follows :: "nat \<Rightarrow> nat \<Rightarrow> nat \<Rightarrow> nat \<Rightarrow> mem \<Rightarrow> mem \<Rightarrow> mem \<Rightarrow> nat \<Rightarrow> nat \<Rightarrow> (nat \<times> nat) list \<Rightarrow> bool" where
  "follows mx l k r m b c p e ps \<longleftrightarrow>
     (if ps = [] \<or> p + 8 * length ps \<le> e
      then decompress_loop b mx l k r c p e = go_up_d mx l k (fill m b ps) c (p + 8 * length ps) e
      else \<exists>b' q. decompress_loop b mx l k r c p e = Some (False, b', q))"

lemma decompress_loop_walk:
  assumes "mx \<le> 6" "l \<le> mx" "r \<le> 64" "k < 64 ^ l" "blk b l k = blk m l k" "holds m c p (kids m (mx - l) l k r)"
  shows "follows mx l k r m b c p e (kids m (mx - l) l k r)"
  using assms(2-)
proof (induction "mx - l" arbitrary: l k r b p)
  case (0 l k r b p)
  then have "l = mx" by simp
  then show ?case by (subst follows_def) (simp add: kids_def decompress_round [of b mx mx] Let_def)
next
  case (Suc d l k r b p)
  have lt: "l < mx" "d = mx - Suc l" "mx - l = Suc d" "Suc l \<le> mx" using Suc.hyps(2) by simp_all
  have l6: "l \<le> 6" "Suc l \<le> 6" using lt(1) assms(1) by simp_all
  show ?case
    using Suc.prems(2-)
  proof (induction "64 - r" arbitrary: r b p rule: less_induct)
    case less
    define rest where "rest = blk m l k AND NOT (mmb_mask_zero_to_nocheck r)"
    show ?case
    proof (cases rule: rest_cases [OF l6(1) less.prems(1), of m k, folded rest_def, case_names none child])
      case none
      then have "kids m (mx - l) l k r = []" by (simp add: kids_none)
      moreover have "decompress_loop b mx l k r c p e = go_up_d mx l k b c p e"
        unfolding decompress_round [of b mx l] less.prems(3) rest_def [symmetric] Let_def using none(1) by auto
      ultimately show ?thesis by (simp add: follows_def)
    next
      case (child i)
      define q where "q = 64 * k + i"
      define b1 where "b1 = mmb_store b (mmbit_get_level_root (Suc l) + int (q * 8)) (blk m (Suc l) q)"
      define kc where "kc = kids m (mx - Suc l) (Suc l) q 0"
      define kr where "kr = kids m (mx - l) l k (Suc i)"
      have ps: "kids m (mx - l) l k r = (Suc l, q) # kc @ kr"
        using kids_first [OF child(4-7), of d] by (simp add: positions_kids q_def kc_def kr_def lt(3) flip: lt(2))
      have q: "q < 64 ^ Suc l" using less.prems(2) child(5) by (simp add: q_def)
      have held: "mmb_load c (int p) = blk m (Suc l) q" "holds m c (p + 8) kc" "holds m c (p + 8 + 8 * length kc) kr"
        using less.prems(4) by (simp_all add: ps holds_Cons holds_append add.assoc)
      have run: "decompress_loop b mx l k r c p e =
          (if p + 8 > e then Some (False, b1, p + 8) else decompress_loop b1 mx (Suc l) q 0 c (p + 8) e)"
        unfolding decompress_round [of b mx l] less.prems(3) rest_def [symmetric] Let_def child(3) held(1)
          q_def [symmetric] using child(1,2) lt(1) by (simp add: b1_def held(1))
      have b1: "b1 = fill m b [(Suc l, q)]" by (simp add: b1_def)
      have "blk b1 (Suc l) q = blk m (Suc l) q"
        unfolding blk_eq [OF l6(2)] b1 using q l6(2) lv_fill [of "[(Suc l, q)]" _ "Suc l" m b] by auto
      then have sub: "follows mx (Suc l) q 0 m b1 c (p + 8) e kc"
        unfolding kc_def using Suc.hyps(1) [OF lt(2) lt(4), of 0 q b1 "p + 8"] q held(2) by (simp add: kc_def)
      define b2 where "b2 = fill m b1 kc"
      have "fill m b ((Suc l, q) # kc) = b2" by (simp add: b2_def b1_def)
      have below: "Suc l \<le> l' \<and> l' \<le> 6 \<and> k' < 64 ^ l'" if "(l', k') \<in> set ((Suc l, q) # kc)" for l' k'
        using positions_bounds [OF q, of l' k' m "mx - Suc l"] lt assms(1) that
        by (simp add: positions_kids kc_def)
      then have bounds: "\<forall>(l', k') \<in> set ((Suc l, q) # kc). l' \<le> 6 \<and> k' < 64 ^ l'" by blast
      have "blk b2 l k = blk b l k"
        unfolding blk_eq [OF l6(1)]
      proof (intro allI impI)
        fix j :: nat
        assume "j < 64"
        then have j: "64 * k + j < 64 ^ Suc l" using less.prems(2) by simp
        have "(l, x) \<notin> set ((Suc l, q) # kc)" for x using below [of l x] by auto
        then show "lv b2 l (64 * k + j) = lv b l (64 * k + j)"
          using lv_fill [OF bounds j, of m b] unfolding \<open>fill m b ((Suc l, q) # kc) = b2\<close> by simp
      qed
      then have "blk b2 l k = blk m l k" using less.prems(3) by simp
      then have last: "follows mx l k (Suc i) m b2 c (p + 8 + 8 * length kc) e kr"
        unfolding kr_def using less.hyps [of "Suc i" b2 "p + 8 + 8 * length kc"] child(4,5) less.prems(2) held(3)
        by (simp add: kr_def)
      have up: "go_up_d mx (Suc l) q b2 c p' e = decompress_loop b2 mx l k (Suc i) c p' e" for p'
        using child(5) by (simp add: go_up_d_def q_def)
      show ?thesis
        using sub last
        unfolding follows_def ps run up b2_def [symmetric]
        by (auto split: if_splits simp: b2_def b1_def add.assoc)
    qed
  qed
qed

section \<open>Lemmas: the keys of the copy\<close>

lemma positions_step:
  "(l', q) \<in> set (positions m d l k) \<Longrightarrow> l' < l + d \<Longrightarrow> i < 64 \<Longrightarrow> lv m l' (64 * q + i)
    \<Longrightarrow> (Suc l', 64 * q + i) \<in> set (positions m d l k)"
proof (induction d arbitrary: l k)
  case (Suc d)
  consider "(l', q) = (l, k)" | j where "j < 64" "lv m l (64 * k + j)" "(l', q) \<in> set (positions m d (Suc l) (64 * k + j))"
    using Suc.prems(1) by auto
  then show ?case
  proof cases
    case 1
    then have "(Suc l', 64 * q + i) \<in> set (positions m d (Suc l) (64 * k + i))" by (simp add: positions_kids)
    then show ?thesis using 1 Suc.prems(3,4) by auto
  next
    case 2
    then have "(Suc l', 64 * q + i) \<in> set (positions m d (Suc l) (64 * k + j))" using Suc by simp
    then show ?thesis using 2 by auto
  qed
qed simp

lemma reached_positions: "reached m l q \<Longrightarrow> q < 64 ^ l \<Longrightarrow> l \<le> mx \<Longrightarrow> (l, q) \<in> set (positions m mx 0 0)"
proof (induction l arbitrary: q)
  case 0
  then show ?case by (simp add: positions_kids)
next
  case (Suc l)
  have "(l, q div 64) \<in> set (positions m mx 0 0)"
    using Suc by (auto simp: reached_Suc less_mult_imp_div_less mult.commute)
  moreover have "64 * (q div 64) + q mod 64 = q" "q mod 64 < 64" by simp_all
  moreover have "lv m l q" using Suc.prems(1) by (simp add: reached_Suc)
  ultimately show ?case using positions_step [of l "q div 64" m mx 0 0 "q mod 64"] Suc.prems(3) by simp
qed

lemma on_prefix_reached: "l \<le> mx \<Longrightarrow> on_prefix m mx l k \<longleftrightarrow> reached m (Suc l) (anc mx l k)"
proof (induction l)
  case 0
  then show ?case by (simp add: on_prefix_def reached_Suc)
next
  case (Suc l)
  have "on_prefix m mx (Suc l) k \<longleftrightarrow> lv m (Suc l) (anc mx (Suc l) k) \<and> on_prefix m mx l k"
    by (auto simp: on_prefix_def le_Suc_eq)
  then show ?case using Suc by (simp add: reached_Suc [of m "Suc l"] anc_simps)
qed

text \<open>A copy of all the blocks that a bit leads to has the same chains of bits.\<close>

lemma copy_prefix:
  assumes "mx \<le> 6" "k < 64 ^ Suc mx" "l \<le> mx"
  shows "on_prefix (fill m b (positions m mx 0 0)) mx l k \<longleftrightarrow> on_prefix m mx l k"
  using assms(3)
proof (induction l)
  case (0)
  have bounds: "\<forall>(l', k') \<in> set (positions m mx 0 0). l' \<le> 6 \<and> k' < 64 ^ l'"
    using positions_bounds [of 0 0 _ _ m mx] assms(1) by fastforce
  have "anc mx 0 k < 64 ^ Suc 0" using anc_less(1) [OF assms(2), of 0] by simp
  then show ?case
    using lv_fill [OF bounds, of "anc mx 0 k" 0 m b] by (simp add: on_prefix_def positions_kids)
next
  case (Suc l)
  define a where "a = anc mx (Suc l) k"
  have bounds: "\<forall>(l', k') \<in> set (positions m mx 0 0). l' \<le> 6 \<and> k' < 64 ^ l'"
    using positions_bounds [of 0 0 _ _ m mx] assms(1) by fastforce
  have a: "a < 64 ^ Suc (Suc l)" "a div 64 = anc mx l k" "a div 64 < 64 ^ Suc l"
    using anc_less [OF assms(2), of "Suc l"] Suc.prems by (simp_all add: a_def anc_simps)
  have split: "on_prefix x mx (Suc l) k \<longleftrightarrow> lv x (Suc l) a \<and> on_prefix x mx l k" for x
    by (auto simp: on_prefix_def le_Suc_eq a_def)
  have "(Suc l, a div 64) \<in> set (positions m mx 0 0)" if "on_prefix m mx l k"
    using that Suc.prems a(3) unfolding a(2) by (intro reached_positions) (simp_all add: on_prefix_reached a(2))
  then show ?case
    unfolding split using Suc lv_fill [OF bounds a(1), of m b] by auto
qed

lemma memcpy_block: "memcpy b dst c src 8 = mmb_store b dst (mmb_load c src)"
proof
  fix a
  show "memcpy b dst c src 8 a = mmb_store b dst (mmb_load c src) a"
  proof (cases "dst \<le> a \<and> a < dst + 8")
    case True
    then obtain j where j: "a = dst + int j" "j < 8" by (metis zle_iff_zadd add_less_cancel_left of_nat_less_numeral_iff)
    have "c (src + int j) = (ucast (drop_bit (8 * j) (load_le 8 c src :: u64a)) :: u8)"
    proof (rule bit_word_eqI)
      fix i
      assume i: "i < LENGTH(8)"
      then have "(8 * j + i) div 8 = j" "(8 * j + i) mod 8 = i" "8 * j + i < 64" using j(2) by simp_all
      then show "bit (c (src + int j)) i = bit (ucast (drop_bit (8 * j) (load_le 8 c src :: u64a)) :: u8) i"
        using i by (simp add: bit_ucast_iff bit_drop_bit_eq bit_load_le)
    qed
    then show ?thesis
      using j by (simp add: memcpy_def mmb_store_def unaligned_store_u64a_def store_le_at mmb_load_def unaligned_load_u64a_def)
  next
    case False
    then show ?thesis
      by (auto simp: memcpy_def mmb_store_def unaligned_store_u64a_def store_le_at)
  qed
qed

section \<open>Lemmas: the whole functions\<close>

lemma flat_copy:
  fixes b c m :: mem and n :: nat
  assumes "mm_inv n m" "n \<le> MMB_FLAT_MAX_BITS"
  defines "b' \<equiv> memcpy b 0 (memcpy c 0 m 0 (mmbit_flat_size n)) 0 (mmbit_flat_size n)"
  shows "mm_inv n b'" "mm_keys n b' = mm_keys n m"
proof -
  have same: "gbit b' i = gbit m i" if "i < 8 * mmbit_flat_size n" for i
  proof -
    have "i div 8 < mmbit_flat_size n" using that by linarith
    then show ?thesis by (simp add: gbit_def b'_def memcpy_def)
  qed
  then show "mm_inv n b'" using assms(1,2) by (auto simp: mm_inv_def flat_inv_def)
  have "k < n \<Longrightarrow> gbit b' k = gbit m k" for k using same flat_size_bounds(1) [of n] by (meson less_le_trans)
  then show "mm_keys n b' = mm_keys n m" using assms(2) by (auto simp: mm_keys_flat)
qed

lemma tree_copy:
  fixes b m :: mem and n :: nat
  assumes "mm_inv n m" "\<not> n \<le> MMB_FLAT_MAX_BITS"
  defines "b' \<equiv> fill m b (positions m (mmbit_maxlevel n) 0 0)"
  shows "mm_inv n b'" "mm_keys n b' = mm_keys n m"
proof -
  define mx where "mx = mmbit_maxlevel n"
  have n: "big_size n" using assms by (simp add: mm_inv_def)
  have mx: "mx \<le> 6" using maxlevel_bounds(2) [OF n] by (simp add: mx_def)
  note same = copy_prefix [OF mx, of _ _ m b, folded b'_def [folded mx_def]]
  show inv: "mm_inv n b'"
    using assms(1,2) same unfolding mm_inv_def Let_def mx_def [symmetric] by auto
  have "on_path b' mx k \<longleftrightarrow> on_path m mx k" if "k < 64 ^ Suc mx" for k
    using same [OF that order_refl] by (simp add: on_prefix_path)
  then show "mm_keys n b' = mm_keys n m"
    unfolding mm_keys_tree [OF inv assms(2)] mm_keys_tree [OF assms(1,2)] mx_def [symmetric] by (auto simp: tree_keys_def)
qed

text \<open>A tree with a bit in its root.\<close>

lemma compress_tree:
  fixes m :: mem and n :: nat
  assumes "mm_inv n m" "\<not> n \<le> MMB_FLAT_MAX_BITS" "mmb_load m 0 \<noteq> 0"
  defines "ps \<equiv> positions m (mmbit_maxlevel n) 0 0"
  shows "mmbit_compsize m n = Some (8 * length ps)"
    and "8 * length ps \<le> limit \<Longrightarrow> mmbit_compress m n c space limit = Some (True, fst (put m (c, 0) ps), 8 * length ps)"
    and "8 * length ps \<le> limit \<Longrightarrow>
      mmbit_decompress b n (fst (put m (c, 0) ps)) space limit = Some (True, fill m b ps, 8 * length ps)"
    and "limit < 8 * length ps \<Longrightarrow> \<exists>b'. mmbit_decompress b n (fst (put m (c, 0) ps)) space limit = Some (False, b', space)"
proof -
  define mx where "mx = mmbit_maxlevel n"
  define c' where "c' = fst (put m (c, 0) ps)"
  have n: "big_size n" using assms by (simp add: mm_inv_def)
  have mx: "mx \<le> 6" "1 \<le> mx" using maxlevel_bounds(1,2) [OF n] by (simp_all add: mx_def)
  have ps: "ps = positions m mx 0 0" by (simp add: ps_def mx_def)
  then have ps0: "ps = (0, 0) # kids m mx 0 0 0" by (simp add: positions_kids)
  show size: "mmbit_compsize m n = Some (8 * length ps)"
    using assms(2,3) compsize_walk [OF mx(1), of m] by (simp add: mmbit_compsize_def mx_def [symmetric] ps)
  show "mmbit_compress m n c space limit = Some (True, fst (put m (c, 0) ps), 8 * length ps)" if "8 * length ps \<le> limit"
    using assms(2,3) that compress_walk [OF mx(1), of m c 0]
    by (simp add: mmbit_compress_def size mx_def [symmetric] ps case_prod_beta del: put_simps)
  have root: "blk x 0 0 = mmb_load x 0" for x by (simp add: blk_def level_root root_def)
  have held: "mmb_load c' 0 = blk m 0 0" "holds m c' 8 (kids m mx 0 0 0)"
  proof -
    have "holds m c' 0 ps" unfolding c'_def by (rule holds_put)
    then show "mmb_load c' 0 = blk m 0 0" "holds m c' 8 (kids m mx 0 0 0)" unfolding ps0 by (simp_all add: holds_Cons)
  qed
  define b0 where "b0 = mmb_store b 0 (blk m 0 0)"
  have "blk b0 0 0 = blk m 0 0" by (simp add: root b0_def mmb_load_store)
  then have walk: "follows mx 0 0 0 m b0 c' 8 limit (kids m mx 0 0 0)"
    using decompress_loop_walk [OF mx(1) le0 le0, of 0 b0 m c' 8 limit] held(2) by simp
  have run: "mmbit_decompress b n c' space limit =
      (case decompress_loop b0 mx 0 0 0 c' 8 limit of None \<Rightarrow> None
       | Some (ok, m, p) \<Rightarrow> Some (ok, m, if ok then p else space))"
    using assms(2,3) held(1) by (simp add: mmbit_decompress_def memcpy_block b0_def mx_def [symmetric] root)
  have copy: "fill m b0 (kids m mx 0 0 0) = fill m b ps"
    using level_root [of 0] by (simp add: ps0 b0_def root_def)
  show "mmbit_decompress b n (fst (put m (c, 0) ps)) space limit = Some (True, fill m b ps, 8 * length ps)"
    if "8 * length ps \<le> limit"
    using walk that unfolding c'_def [symmetric] run follows_def copy by (auto simp: ps0 go_up_d_def)
  have "kids m mx 0 0 0 \<noteq> []"
  proof -
    obtain i where i: "i < 64" "lv m 0 i" using assms(3) bit_blk [of 0 m 0] by (auto simp: root block_0_iff)
    obtain d where "mx = Suc d" using mx(2) by (cases mx) auto
    then show ?thesis using i by (auto simp: kids_def positions_kids filter_empty_conv)
  qed
  then show "\<exists>b'. mmbit_decompress b n (fst (put m (c, 0) ps)) space limit = Some (False, b', space)"
    if "limit < 8 * length ps"
    using walk that unfolding c'_def [symmetric] run follows_def by (auto simp: ps0)
qed

text \<open>An empty tree: eight bytes of zeros.\<close>

lemma compress_empty:
  assumes "mm_inv n m" "\<not> n \<le> MMB_FLAT_MAX_BITS" "mmb_load m 0 = 0"
  shows "mmbit_compsize m n = Some 8"
    and "8 \<le> limit \<Longrightarrow> mmbit_compress m n c space limit = Some (True, mmb_store c 0 0, 8)"
    and "mmbit_decompress b n (mmb_store c 0 0) space limit = Some (True, mmbit_clear b n, 8)"
    and "mm_keys n m = {}"
proof -
  show size: "mmbit_compsize m n = Some 8" using assms(2,3) by (simp add: mmbit_compsize_def)
  show "8 \<le> limit \<Longrightarrow> mmbit_compress m n c space limit = Some (True, mmb_store c 0 0, 8)"
    using assms(2,3) by (simp add: mmbit_compress_def size memcpy_block)
  show "mmbit_decompress b n (mmb_store c 0 0) space limit = Some (True, mmbit_clear b n, 8)"
    using assms(2) by (auto simp: mmbit_decompress_def memcpy_block mmb_load_store mmbit_clear_def mmbit_is_flat_model_def)
  show "mm_keys n m = {}"
    using mmbit_any_spec(1) [OF assms(1)] assms(2,3) by (auto simp: mmbit_any_def mmbit_is_flat_model_def split: if_splits)
qed

section \<open>What saving a multibit promises\<close>

text \<open>
  C39. A multibit that was compressed and decompressed, over any old contents, has the same keys and the
  invariant; both calls return, report success and the size that \<open>mmbit_compsize\<close> computes.
\<close>

theorem multibit_compress_roundtrip:
  assumes "mm_inv n m" "mmbit_compsize m n = Some sz" "sz \<le> limit" "sz \<le> limit'"
  shows "\<exists>c' b'. mmbit_compress m n c space limit = Some (True, c', sz)
    \<and> mmbit_decompress b n c' space' limit' = Some (True, b', sz) \<and> mm_inv n b' \<and> mm_keys n b' = mm_keys n m"
proof -
  have n: "n \<le> MMB_MAX_BITS" by (rule mm_inv_size [OF assms(1)])
  consider (flat) "n \<le> MMB_FLAT_MAX_BITS" | (empty) "\<not> n \<le> MMB_FLAT_MAX_BITS" "mmb_load m 0 = 0"
    | (tree) "\<not> n \<le> MMB_FLAT_MAX_BITS" "mmb_load m 0 \<noteq> 0" by blast
  then show ?thesis
  proof cases
    case flat
    then have "sz = mmbit_flat_size n" using assms(2) by (simp add: mmbit_compsize_def mmbit_flat_size_def)
    then show ?thesis
      using flat assms flat_copy [OF assms(1) flat, of b c]
      by (simp add: mmbit_compress_def mmbit_decompress_def mmbit_flat_size_def Let_def)
  next
    case empty
    then show ?thesis
      using compress_empty [OF assms(1) empty] assms(2-4) mm_inv_clear [OF n]
        mm.keys_clear [OF n, folded mm_keys_def]
      by simp
  next
    case tree
    then show ?thesis
      using compress_tree(1-3) [OF assms(1) tree] assms(2-4) tree_copy [OF assms(1) tree(1)] by simp
  qed
qed

theorem multibit_compress_roundtrip_witness:
  "\<exists>c' b'. mmbit_compress (mm_run 100 (\<lambda>_. 0x5a) [MmClear, MmSet 70]) 100 (\<lambda>_. 1) 0 50 = Some (True, c', 13)
    \<and> mmbit_decompress (\<lambda>_. 0xff) 100 c' 0 13 = Some (True, b', 13) \<and> mm_keys 100 b' = {70}"
proof -
  have m: "mm_inv 100 (mm_run 100 (\<lambda>_. 0x5a) [MmClear, MmSet 70])"
    "mm_keys 100 (mm_run 100 (\<lambda>_. 0x5a) [MmClear, MmSet 70]) = {70}"
    using mm_run_clear [of 100 "[MmSet 70]" "\<lambda>_. 0x5a"] by (simp_all add: MMB_MAX_BITS_def)
  have "mmbit_compsize (mm_run 100 (\<lambda>_. 0x5a) [MmClear, MmSet 70]) 100 = Some 13"
    by (simp add: mmbit_compsize_def MMB_FLAT_MAX_BITS_def ROUNDUP_N_def)
  then show ?thesis
    using multibit_compress_roundtrip [OF m(1), of 13 50 13 "\<lambda>_. 1" 0 "\<lambda>_. 0xff" 0] m(2) by auto
qed



end
