(* ===== verification/Repeat.thy ===== *)
theory Repeat
  imports Prelude BitUtils
begin

text \<open>
  Bounded repeats, \<open>src/nfa/repeat_internal.h\<close>, \<open>repeat.h\<close> and \<open>repeat.c\<close>: the descriptions and control
  blocks, what every model promises about the tops stored in it (the locale \<open>repeat_model\<close>), and the models
  that need no memory: FIRST, LAST, BITMAP and TRAILER.
  Offsets are \<open>u64a\<close> and wrap; the fields of the control blocks have the widths of the code.
\<close>

section \<open>Descriptions and control blocks\<close>

datatype RepeatType =
  REPEAT_RING | REPEAT_FIRST | REPEAT_LAST | REPEAT_RANGE | REPEAT_BITMAP
| REPEAT_SPARSE_OPTIMAL_P | REPEAT_TRAILER | REPEAT_ALWAYS

definition REPEAT_INF :: u32 where
  "REPEAT_INF = 65535"

definition REPEAT_RANGE_MAX_SLOTS :: u32 where
  "REPEAT_RANGE_MAX_SLOTS = 16"

record RepeatInfo =
  repeat_type :: RepeatType
  repeatMin :: u32
  repeatMax :: u32
  horizon :: u32
  packedCtrlSize :: u32
  stateSize :: u32
  minPeriod :: u32
  packedFieldSizes :: "u32 list"
  patchCount :: u32
  patchSize :: u32
  encodingSize :: u32
  patchesOffset :: u32
  implTable :: "u64a list"

record RepeatRingControl =
  ring_offset :: u64a
  ring_first :: u16
  ring_last :: u16

record RepeatRangeControl =
  range_offset :: u64a
  range_num :: u8

record RepeatOffsetControl =
  off_offset :: u64a

record RepeatBitmapControl =
  bm_offset :: u64a
  bm_bitmap :: u64a

record RepeatTrailerControl =
  tr_offset :: u64a
  tr_bitmap :: u64a

datatype RepeatMatch = REPEAT_NOMATCH | REPEAT_MATCH | REPEAT_STALE

section \<open>The contract\<close>

text \<open>
  The specification: the offsets \<open>T\<close> at which a top was stored make a match at \<open>p\<close> when some top lies
  between \<open>repeatMin\<close> and \<open>repeatMax\<close> before \<open>p\<close>, and are stale when no later offset matches either.
\<close>

definition rep_match :: "RepeatInfo \<Rightarrow> nat set \<Rightarrow> nat \<Rightarrow> bool" where
  "rep_match info T p \<longleftrightarrow>
     (\<exists>t \<in> T. t + unat (repeatMin info) \<le> p \<and> (repeatMax info = REPEAT_INF \<or> p \<le> t + unat (repeatMax info)))"

definition rep_answer :: "RepeatInfo \<Rightarrow> nat set \<Rightarrow> nat \<Rightarrow> RepeatMatch" where
  "rep_answer info T p =
     (if rep_match info T p then REPEAT_MATCH
      else if \<exists>q > p. rep_match info T q then REPEAT_NOMATCH else REPEAT_STALE)"

definition rep_next :: "RepeatInfo \<Rightarrow> nat set \<Rightarrow> nat \<Rightarrow> nat" where
  "rep_next info T p =
     (if \<exists>q > p. rep_match info T q then LEAST q. p < q \<and> rep_match info T q else 0)"

text \<open>Two histories that answer every question from the offset \<open>now\<close> on alike.\<close>

definition rep_same :: "RepeatInfo \<Rightarrow> nat \<Rightarrow> nat set \<Rightarrow> nat set \<Rightarrow> bool" where
  "rep_same info now C T \<longleftrightarrow> (\<forall>p \<ge> now. rep_match info C p \<longleftrightarrow> rep_match info T p)"

text \<open>Every offset leaves room for the additions of the code.\<close>

definition in_stream :: "nat \<Rightarrow> bool" where
  "in_stream p \<longleftrightarrow> p + 2 ^ 17 < 2 ^ 64"

definition stored :: "u64a list \<Rightarrow> nat set" where
  "stored tops = unat ` set tops"

lemma rep_match_simps [simp]:
  "\<not> rep_match info {} p"
  "rep_match info (insert t T) p \<longleftrightarrow>
     t + unat (repeatMin info) \<le> p \<and> (repeatMax info = REPEAT_INF \<or> p \<le> t + unat (repeatMax info))
     \<or> rep_match info T p"
  by (auto simp: rep_match_def)

lemma rep_same_refl [simp]: "rep_same info now T T"
  by (simp add: rep_same_def)

lemma rep_same_trans: "rep_same info now A B \<Longrightarrow> rep_same info now B C \<Longrightarrow> rep_same info now A C"
  by (simp add: rep_same_def)

lemma rep_same_later: "rep_same info now A B \<Longrightarrow> now \<le> later \<Longrightarrow> rep_same info later A B"
  by (simp add: rep_same_def)

lemma rep_same_insert: "rep_same info now A B \<Longrightarrow> rep_same info now (insert t A) (insert t B)"
  by (simp add: rep_same_def)

lemma rep_same_answer: "rep_same info p A B \<Longrightarrow> rep_answer info A p = rep_answer info B p"
  by (simp add: rep_same_def rep_answer_def) (meson less_imp_le)

lemma rep_next_cong:
  assumes "\<And>q. p < q \<Longrightarrow> rep_match info A q \<longleftrightarrow> rep_match info B q"
  shows "rep_next info A p = rep_next info B p"
proof -
  have "(\<lambda>q. p < q \<and> rep_match info A q) = (\<lambda>q. p < q \<and> rep_match info B q)"
    using assms by (auto simp: fun_eq_iff)
  then show ?thesis unfolding rep_next_def by metis
qed

lemma rep_same_next: "rep_same info p A B \<Longrightarrow> rep_next info A p = rep_next info B p"
  by (rule rep_next_cong) (simp add: rep_same_def)

lemma rep_nextI:
  assumes "p < q" "rep_match info T q" "\<And>r. p < r \<Longrightarrow> r < q \<Longrightarrow> \<not> rep_match info T r"
  shows "rep_next info T p = q"
proof -
  have "(LEAST q. p < q \<and> rep_match info T q) = q"
    by (rule Least_equality) (use assms in \<open>auto simp: not_less [symmetric]\<close>)
  then show ?thesis using assms(1,2) by (auto simp: rep_next_def)
qed

lemma rep_next_none: "(\<And>q. p < q \<Longrightarrow> \<not> rep_match info T q) \<Longrightarrow> rep_next info T p = 0"
  by (auto simp: rep_next_def)

lemma rep_answer_recent:
  assumes "finite C" "C \<noteq> {}" "\<forall>t \<in> C. t \<le> p" "repeatMin info \<le> repeatMax info"
  shows "rep_answer info C p =
    (if rep_match info C p then REPEAT_MATCH
     else if repeatMax info = REPEAT_INF \<or> p \<le> Max C + unat (repeatMax info) then REPEAT_NOMATCH else REPEAT_STALE)"
proof -
  have mm: "unat (repeatMin info) \<le> unat (repeatMax info)" using assms(4) by (simp add: word_le_nat_alt)
  have Mx: "Max C \<in> C" "\<forall>t \<in> C. t \<le> Max C" using assms(1,2) by auto
  have "\<exists>q > p. rep_match info C q"
    if *: "repeatMax info = REPEAT_INF \<or> p \<le> Max C + unat (repeatMax info)" "\<not> rep_match info C p"
  proof -
    have "p < Max C + unat (repeatMin info)" using * Mx(1) mm by (auto simp: rep_match_def)
    moreover have "rep_match info C (Max C + unat (repeatMin info))" using Mx(1) mm by (auto simp: rep_match_def)
    ultimately show ?thesis by blast
  qed
  moreover have "\<not> rep_match info C q" if "repeatMax info \<noteq> REPEAT_INF" "Max C + unat (repeatMax info) < p" "p < q" for q
    using that Mx(2) by (fastforce simp: rep_match_def)
  ultimately show ?thesis by (auto simp: rep_answer_def)
qed

text \<open>
  The interface: \<open>holds s C\<close> says that the state holds a history that answers as \<open>C\<close> does.  A store may forget
  what no later question can see.
\<close>

locale repeat_model =
  fixes info :: RepeatInfo
    and ok :: bool
    and store :: "'s \<Rightarrow> u64a \<Rightarrow> bool \<Rightarrow> 's option"
    and has_match :: "'s \<Rightarrow> u64a \<Rightarrow> RepeatMatch option"
    and next_match :: "'s \<Rightarrow> u64a \<Rightarrow> u64a option"
    and last_top :: "'s \<Rightarrow> u64a"
    and holds :: "'s \<Rightarrow> nat set \<Rightarrow> bool"
  assumes store_dead: "ok \<Longrightarrow> in_stream (unat p) \<Longrightarrow> \<exists>s'. store s p False = Some s' \<and> holds s' {unat p}"
    and store_alive: "ok \<Longrightarrow> in_stream (unat p) \<Longrightarrow> holds s C \<Longrightarrow> \<forall>t \<in> C. t < unat p \<Longrightarrow>
      \<exists>s' C'. store s p True = Some s' \<and> holds s' C' \<and> (\<forall>t \<in> C'. t \<le> unat p)
        \<and> rep_same info (unat p) C' (insert (unat p) C)"
    and has_match_exact: "ok \<Longrightarrow> in_stream (unat p) \<Longrightarrow> holds s C \<Longrightarrow> \<forall>t \<in> C. t \<le> unat p \<Longrightarrow>
      has_match s p = Some (rep_answer info C (unat p))"
    and next_match_exact: "ok \<Longrightarrow> in_stream (unat p) \<Longrightarrow> holds s C \<Longrightarrow> \<forall>t \<in> C. t \<le> unat p \<Longrightarrow>
      \<exists>q. next_match s p = Some q \<and> unat q = rep_next info C (unat p)"
    and last_top_exact: "ok \<Longrightarrow> repeatMax info \<noteq> REPEAT_INF \<Longrightarrow> holds s C \<Longrightarrow> C \<noteq> {} \<Longrightarrow> \<forall>t \<in> C. in_stream t \<Longrightarrow> unat (last_top s) = Max C"
begin

text \<open>A history \<open>T\<close> as the state sees it at the offset \<open>now\<close>.\<close>

definition knows :: "'s \<Rightarrow> nat \<Rightarrow> nat set \<Rightarrow> bool" where
  "knows s now T \<longleftrightarrow> (\<forall>t \<in> T. t \<le> now) \<and> (\<exists>C. holds s C \<and> (\<forall>t \<in> C. t \<le> now) \<and> rep_same info now C T)"

lemma knows_later: "knows s now T \<Longrightarrow> now \<le> later \<Longrightarrow> knows s later T"
  unfolding knows_def using rep_same_later by (meson order.trans)

lemma knows_store_dead:
  assumes "ok" "in_stream (unat p)"
  shows "\<exists>s'. store s p False = Some s' \<and> knows s' (unat p) {unat p}"
  using store_dead [OF assms, of s] by (force simp: knows_def)

lemma knows_store_alive:
  assumes "ok" "in_stream (unat p)" "knows s now T" "now < unat p"
  shows "\<exists>s'. store s p True = Some s' \<and> knows s' (unat p) (insert (unat p) T)"
proof -
  obtain C where C: "holds s C" "\<forall>t \<in> C. t \<le> now" "rep_same info now C T" and T: "\<forall>t \<in> T. t \<le> now"
    using assms(3) by (auto simp: knows_def)
  have "\<forall>t \<in> C. t < unat p" using C(2) assms(4) by auto
  then obtain s' C' where s': "store s p True = Some s'" "holds s' C'" "\<forall>t \<in> C'. t \<le> unat p"
      "rep_same info (unat p) C' (insert (unat p) C)"
    using store_alive [OF assms(1,2) C(1)] by blast
  have "rep_same info (unat p) C' (insert (unat p) T)"
    using s'(4) rep_same_insert [OF rep_same_later [OF C(3)], of "unat p"] assms(4) rep_same_trans by fastforce
  then show ?thesis using s' T assms(4) by (fastforce simp: knows_def)
qed

lemma knows_has_match:
  assumes "ok" "in_stream (unat p)" "knows s now T" "now \<le> unat p"
  shows "has_match s p = Some (rep_answer info T (unat p))"
proof -
  obtain C where C: "holds s C" "\<forall>t \<in> C. t \<le> unat p" "rep_same info (unat p) C T"
    using knows_later [OF assms(3,4)] by (auto simp: knows_def)
  show ?thesis using has_match_exact [OF assms(1,2) C(1,2)] rep_same_answer [OF C(3)] by simp
qed

lemma knows_next_match:
  assumes "ok" "in_stream (unat p)" "knows s now T" "now \<le> unat p"
  shows "\<exists>q. next_match s p = Some q \<and> unat q = rep_next info T (unat p)"
proof -
  obtain C where C: "holds s C" "\<forall>t \<in> C. t \<le> unat p" "rep_same info (unat p) C T"
    using knows_later [OF assms(3,4)] by (auto simp: knows_def)
  show ?thesis using next_match_exact [OF assms(1,2) C(1,2)] rep_same_next [OF C(3)] by simp
qed

end

section \<open>FIRST and LAST\<close>

definition repeatNextMatchOffset :: "RepeatInfo \<Rightarrow> RepeatOffsetControl \<Rightarrow> u64a \<Rightarrow> u64a" where
  "repeatNextMatchOffset info xs offset =
     (let first = off_offset xs + ucast (repeatMin info)
      in if offset < first then first
         else if repeatMax info = REPEAT_INF \<or> offset < off_offset xs + ucast (repeatMax info) then offset + 1
         else 0)"

definition repeatStoreFirst :: "RepeatOffsetControl \<Rightarrow> u64a \<Rightarrow> bool \<Rightarrow> RepeatOffsetControl" where
  "repeatStoreFirst xs offset is_alive = (if is_alive then xs else xs\<lparr>off_offset := offset\<rparr>)"

definition repeatStoreLast :: "RepeatOffsetControl \<Rightarrow> u64a \<Rightarrow> bool \<Rightarrow> RepeatOffsetControl" where
  "repeatStoreLast xs offset is_alive = xs\<lparr>off_offset := offset\<rparr>"

definition repeatHasMatchFirst :: "RepeatInfo \<Rightarrow> RepeatOffsetControl \<Rightarrow> u64a \<Rightarrow> RepeatMatch" where
  "repeatHasMatchFirst info xs offset =
     (if offset < off_offset xs + ucast (repeatMin info) then REPEAT_NOMATCH else REPEAT_MATCH)"

definition repeatHasMatchLast :: "RepeatInfo \<Rightarrow> RepeatOffsetControl \<Rightarrow> u64a \<Rightarrow> RepeatMatch" where
  "repeatHasMatchLast info xs offset =
     (if offset < off_offset xs + ucast (repeatMin info) then REPEAT_NOMATCH
      else if offset \<le> off_offset xs + ucast (repeatMax info) then REPEAT_MATCH
      else REPEAT_STALE)"

section \<open>BITMAP\<close>

definition repeatLastTopBitmap :: "RepeatBitmapControl \<Rightarrow> u64a" where
  "repeatLastTopBitmap xs =
     (if bm_bitmap xs = 0 then 0 else bm_offset xs + 63 - of_nat (clz64 (bm_bitmap xs)))"

function next_match_bitmap_loop :: "RepeatInfo \<Rightarrow> u64a \<Rightarrow> u64a \<Rightarrow> u64a \<Rightarrow> u64a" where
  "next_match_bitmap_loop info base offset bitmap =
     (if bitmap = 0 then 0
      else let (i, bitmap') = findAndClearLSB_64 bitmap;
               top = base + of_nat i
           in if offset < top + ucast (repeatMin info) then top + ucast (repeatMin info)
              else if offset < top + ucast (repeatMax info) then offset + 1
              else next_match_bitmap_loop info base offset bitmap')"
  by pat_completeness auto

termination
  by (relation "measure (\<lambda>(_, _, _, b). card (bitset b))")
    (auto simp: findAndClearLSB_64_def Let_def clear_lsb_less)

declare next_match_bitmap_loop.simps [simp del]

definition repeatNextMatchBitmap :: "RepeatInfo \<Rightarrow> RepeatBitmapControl \<Rightarrow> u64a \<Rightarrow> u64a" where
  "repeatNextMatchBitmap info xs offset = next_match_bitmap_loop info (bm_offset xs) offset (bm_bitmap xs)"

definition repeatStoreBitmap :: "RepeatInfo \<Rightarrow> RepeatBitmapControl \<Rightarrow> u64a \<Rightarrow> bool \<Rightarrow> RepeatBitmapControl" where
  "repeatStoreBitmap info xs offset is_alive =
     (if \<not> is_alive \<or> bm_bitmap xs = 0 then xs\<lparr>bm_offset := offset, bm_bitmap := 1\<rparr>
      else let last_top = bm_offset xs + 63 - of_nat (clz64 (bm_bitmap xs))
           in if last_top + ucast (repeatMax info) < offset then xs\<lparr>bm_offset := offset, bm_bitmap := 1\<rparr>
              else let diff = offset - bm_offset xs;
                       xs = (if ucast (repeatMax info + 1) \<le> diff
                             then let push = diff - ucast (repeatMax info)
                                  in xs\<lparr>bm_offset := bm_offset xs + push,
                                        bm_bitmap := if 64 \<le> push then 0 else drop_bit (unat push) (bm_bitmap xs)\<rparr>
                             else xs);
                       diff = offset - bm_offset xs
                   in xs\<lparr>bm_bitmap := bm_bitmap xs OR push_bit (unat diff) 1\<rparr>)"

function has_match_bitmap_loop :: "RepeatInfo \<Rightarrow> u64a \<Rightarrow> u64a \<Rightarrow> u64a \<Rightarrow> RepeatMatch" where
  "has_match_bitmap_loop info base offset bitmap =
     (if bitmap = 0 then REPEAT_NOMATCH
      else let (i, bitmap') = findAndClearLSB_64 bitmap;
               match = base + of_nat i;
               diff = offset - match
           in if ucast (repeatMin info) \<le> diff \<and> diff \<le> ucast (repeatMax info) then REPEAT_MATCH
              else has_match_bitmap_loop info base offset bitmap')"
  by pat_completeness auto

termination
  by (relation "measure (\<lambda>(_, _, _, b). card (bitset b))")
    (auto simp: findAndClearLSB_64_def Let_def clear_lsb_less)

declare has_match_bitmap_loop.simps [simp del]

definition repeatHasMatchBitmap :: "RepeatInfo \<Rightarrow> RepeatBitmapControl \<Rightarrow> u64a \<Rightarrow> RepeatMatch" where
  "repeatHasMatchBitmap info xs offset =
     (let bitmap = bm_bitmap xs
      in if bitmap = 0 then REPEAT_STALE
         else let base = bm_offset xs
              in if offset - base < ucast (repeatMin info) then REPEAT_NOMATCH
                 else let (i, bitmap) = findAndClearMSB_64 bitmap;
                          match = base + of_nat i;
                          diff = offset - match
                      in if ucast (repeatMax info) < diff then REPEAT_STALE
                         else if ucast (repeatMin info) \<le> diff \<and> diff \<le> ucast (repeatMax info) then REPEAT_MATCH
                         else has_match_bitmap_loop info base offset bitmap)"

section \<open>TRAILER\<close>

definition repeatLastTopTrailer :: "RepeatInfo \<Rightarrow> RepeatTrailerControl \<Rightarrow> u64a" where
  "repeatLastTopTrailer info xs = tr_offset xs - ucast (repeatMin info)"

definition repeatNextMatchTrailer :: "RepeatInfo \<Rightarrow> RepeatTrailerControl \<Rightarrow> u64a \<Rightarrow> u64a" where
  "repeatNextMatchTrailer info xs offset =
     (let m_width = repeatMax info - repeatMin info
      in if tr_offset xs + ucast m_width \<le> offset then 0
         else if tr_offset xs \<le> offset then offset + 1
         else let diff = tr_offset xs - offset;
                  bitmap = (if diff \<le> 64 then tr_bitmap xs AND (push_bit (unat (diff - 1)) 1 - 1) else tr_bitmap xs)
              in if bitmap \<noteq> 0 then let idx = 63 - clz64 bitmap in tr_offset xs - of_nat idx - 1
                 else tr_offset xs)"

definition mask_ones_to :: "u32 \<Rightarrow> u64a" where
  "mask_ones_to v = (if v < 63 then push_bit (unat (v + 1)) 1 - 1 else NOT 0)"

definition repeatStoreTrailer :: "RepeatInfo \<Rightarrow> RepeatTrailerControl \<Rightarrow> u64a \<Rightarrow> bool \<Rightarrow> RepeatTrailerControl" where
  "repeatStoreTrailer info xs offset is_alive =
     (let next_extent = offset + ucast (repeatMin info)
      in if \<not> is_alive then xs\<lparr>tr_offset := next_extent, tr_bitmap := 0\<rparr>
         else let m_width = repeatMax info - repeatMin info;
                  diff = next_extent - tr_offset xs;
                  bitmap = (if diff < 64 then push_bit (unat diff) (tr_bitmap xs) else 0);
                  bitmap = (if diff \<le> ucast m_width then bitmap OR mask_ones_to (ucast (diff - 1))
                            else let shift = diff - ucast m_width - 1
                                 in if shift < 64 then bitmap OR push_bit (unat shift) (mask_ones_to m_width)
                                    else bitmap);
                  bitmap = (if repeatMin info < 63
                            then bitmap AND (push_bit (unat (repeatMin info + 1)) 1 - 1) else bitmap)
              in xs\<lparr>tr_bitmap := bitmap, tr_offset := next_extent\<rparr>)"

definition repeatHasMatchTrailer :: "RepeatInfo \<Rightarrow> RepeatTrailerControl \<Rightarrow> u64a \<Rightarrow> RepeatMatch" where
  "repeatHasMatchTrailer info xs offset =
     (let m_width = repeatMax info - repeatMin info
      in if tr_offset xs + ucast m_width < offset then REPEAT_STALE
         else if tr_offset xs \<le> offset then REPEAT_MATCH
         else if tr_offset xs - ucast (repeatMin info) \<le> offset
              then let idx = ucast (tr_offset xs - offset - 1) :: u32
                   in if tr_bitmap xs AND push_bit (unat idx) 1 \<noteq> 0 then REPEAT_MATCH else REPEAT_NOMATCH
         else REPEAT_NOMATCH)"

section \<open>Arithmetic\<close>

lemma unat_widen: "LENGTH('a) \<le> LENGTH('b) \<Longrightarrow> unat (ucast (x :: 'a::len word) :: 'b::len word) = unat x"
  by (simp add: unsigned_ucast_eq take_bit_nat_eq_self less_le_trans [OF unsigned_less])

lemma unat_u32 [simp]: "unat (ucast (x :: u32) :: u64a) = unat x"
  by (simp add: unat_widen)

lemma unat_add_small:
  fixes a b :: u64a
  shows "unat a + unat b < 2 ^ 64 \<Longrightarrow> unat (a + b) = unat a + unat b"
  using unat_add_lem [of a b] by simp

lemma unat_max_small: "repeatMax info \<le> REPEAT_INF \<Longrightarrow> unat (repeatMax info) \<le> 65535"
  by (simp add: word_le_nat_alt REPEAT_INF_def)

lemma unat_Suc_stream: "in_stream (unat p) \<Longrightarrow> unat (p + 1 :: u64a) = unat p + 1"
  using unat_add_small [of p 1] by (simp add: in_stream_def)

lemma unat_plus_u32:
  fixes p :: u64a and x :: u32
  assumes "in_stream (unat p)" "unat x \<le> 65536"
  shows "unat (p + ucast x) = unat p + unat x"
  using unat_add_small [of p "ucast x"] assms by (simp add: in_stream_def)

lemma in_stream_le: "in_stream p \<Longrightarrow> q \<le> p \<Longrightarrow> in_stream q"
  by (simp add: in_stream_def)

definition bounds_ok :: "RepeatInfo \<Rightarrow> bool" where
  "bounds_ok info \<longleftrightarrow> repeatMin info \<le> repeatMax info \<and> repeatMax info \<le> REPEAT_INF"

lemma bounds_okD:
  assumes "bounds_ok info"
  shows "unat (repeatMin info) \<le> unat (repeatMax info)" "unat (repeatMax info) \<le> 65535"
    "repeatMin info \<le> repeatMax info"
    "unat (repeatMax info - repeatMin info) = unat (repeatMax info) - unat (repeatMin info)"
    "unat (repeatMax info + 1) = unat (repeatMax info) + 1"
  using assms unat_max_small unat_sub [of "repeatMin info" "repeatMax info"] unat_add_lem [of "repeatMax info" 1]
  by (auto simp: bounds_ok_def word_le_nat_alt REPEAT_INF_def)

text \<open>The walk over ascending tops that the models share.\<close>

lemma rep_next_insert:
  assumes "bounds_ok info" "repeatMax info \<noteq> REPEAT_INF" "\<forall>u \<in> T. t < u"
  shows "rep_next info (insert t T) p = (if p < t + unat (repeatMin info) then t + unat (repeatMin info)
    else if p < t + unat (repeatMax info) then p + 1 else rep_next info T p)"
proof -
  note bd = bounds_okD(1) [OF assms(1)]
  consider "p < t + unat (repeatMin info)" | "t + unat (repeatMin info) \<le> p" "p < t + unat (repeatMax info)"
    | "t + unat (repeatMax info) \<le> p" by linarith
  then show ?thesis
  proof cases
    case 1
    have "rep_next info (insert t T) p = t + unat (repeatMin info)"
      by (rule rep_nextI) (use 1 bd assms(3) in \<open>fastforce simp: rep_match_def\<close>)+
    then show ?thesis using 1 by simp
  next
    case 2
    have "rep_next info (insert t T) p = p + 1" by (rule rep_nextI) (use 2 in auto)
    then show ?thesis using 2 by simp
  next
    case 3
    have "rep_next info (insert t T) p = rep_next info T p"
      by (rule rep_next_cong) (use 3 assms(2) in auto)
    then show ?thesis using 3 bd by simp
  qed
qed

section \<open>FIRST, LAST and ALWAYS keep the contract\<close>

definition offset_holds :: "RepeatOffsetControl \<Rightarrow> nat set \<Rightarrow> bool" where
  "offset_holds xs C \<longleftrightarrow> C = {unat (off_offset xs)}"

interpretation rep_first: repeat_model info "bounds_ok info \<and> repeatMax info = REPEAT_INF"
  "\<lambda>xs p alive. Some (repeatStoreFirst xs p alive)" "\<lambda>xs p. Some (repeatHasMatchFirst info xs p)"
  "\<lambda>xs p. Some (repeatNextMatchOffset info xs p)" off_offset offset_holds
  for info
proof (unfold_locales, goal_cases)
  case (1 p s)
  then show ?case by (simp add: repeatStoreFirst_def offset_holds_def)
next
  case (2 p s C)
  then show ?case by (auto simp: repeatStoreFirst_def offset_holds_def rep_same_def)
next
  case (3 p s C)
  then have "unat (off_offset s + ucast (repeatMin info)) = unat (off_offset s) + unat (repeatMin info)"
    using bounds_okD(1,2) [of info] unat_plus_u32 [of "off_offset s" "repeatMin info"] in_stream_le
    by (auto simp: offset_holds_def)
  then show ?case
    using 3 bounds_okD(1) [of info]
    by (auto simp: offset_holds_def repeatHasMatchFirst_def rep_answer_recent word_less_nat_alt not_less bounds_ok_def)
next
  case (4 p s C)
  then have s: "unat (off_offset s + ucast (repeatMin info)) = unat (off_offset s) + unat (repeatMin info)"
    using bounds_okD(1,2) [of info] unat_plus_u32 [of "off_offset s" "repeatMin info"] in_stream_le
    by (auto simp: offset_holds_def)
  show ?case
    using 4 s unat_Suc_stream [OF 4(2)]
    by (auto simp: offset_holds_def repeatNextMatchOffset_def Let_def word_less_nat_alt intro!: rep_nextI [symmetric])
next
  case (5 s C)
  then show ?case by (simp add: offset_holds_def)
qed

text \<open>LAST stores \<open>{0,N}\<close> repeats: the most recent top alone decides.\<close>

interpretation rep_last: repeat_model info
  "bounds_ok info \<and> repeatMin info = 0 \<and> repeatMax info \<noteq> REPEAT_INF"
  "\<lambda>xs p alive. Some (repeatStoreLast xs p alive)" "\<lambda>xs p. Some (repeatHasMatchLast info xs p)"
  "\<lambda>xs p. Some (repeatNextMatchOffset info xs p)" off_offset offset_holds
  for info
proof (unfold_locales, goal_cases)
  case (1 p s)
  then show ?case by (simp add: repeatStoreLast_def offset_holds_def)
next
  case (2 p s C)
  then show ?case by (auto simp: repeatStoreLast_def offset_holds_def rep_same_def)
next
  case (3 p s C)
  then have "unat (off_offset s + ucast (repeatMax info)) = unat (off_offset s) + unat (repeatMax info)"
    using bounds_okD(1,2) [of info] unat_plus_u32 [of "off_offset s" "repeatMax info"] in_stream_le
    by (auto simp: offset_holds_def)
  then show ?case
    using 3 bounds_okD(1) [of info]
    by (auto simp: offset_holds_def repeatHasMatchLast_def rep_answer_recent word_less_nat_alt word_le_nat_alt bounds_ok_def)
next
  case (4 p s C)
  then have s: "unat (off_offset s + ucast (repeatMax info)) = unat (off_offset s) + unat (repeatMax info)"
    using bounds_okD(1,2) [of info] unat_plus_u32 [of "off_offset s" "repeatMax info"] in_stream_le
    by (auto simp: offset_holds_def)
  show ?case
    using 4 s unat_Suc_stream [OF 4(2)]
    by (auto simp: offset_holds_def repeatNextMatchOffset_def Let_def word_less_nat_alt
        intro!: rep_nextI [symmetric] rep_next_none)
next
  case (5 s C)
  then show ?case by (simp add: offset_holds_def)
qed

text \<open>ALWAYS keeps no state.\<close>

interpretation rep_always: repeat_model info
  "repeatMin info = 0 \<and> repeatMax info = REPEAT_INF"
  "\<lambda>s p alive. Some s" "\<lambda>s p. Some REPEAT_MATCH" "\<lambda>s p. Some (p + 1)" "\<lambda>s. 0" "\<lambda>s C. C \<noteq> {}"
  for info
proof (unfold_locales, goal_cases)
  case (2 p s C)
  then show ?case by (intro exI [of _ s] exI [of _ "insert (unat p) C"]) (simp add: less_imp_le)
next
  case (4 p s C)
  then obtain t where "t \<in> C" "t \<le> unat p" by auto
  then show ?case using 4 unat_Suc_stream [OF 4(2)] by (auto simp: rep_match_def intro!: rep_nextI [symmetric] bexI [of _ t] le_SucI)
qed (auto simp: rep_answer_def rep_match_def)

section \<open>BITMAP keeps the contract\<close>

definition bitmap_tops :: "u64a \<Rightarrow> u64a \<Rightarrow> nat set" where
  "bitmap_tops base bitmap = (\<lambda>i. unat base + i) ` bitset bitmap"

definition bitmap_holds :: "RepeatBitmapControl \<Rightarrow> nat set \<Rightarrow> bool" where
  "bitmap_holds xs C \<longleftrightarrow> C = bitmap_tops (bm_offset xs) (bm_bitmap xs) \<and> (C = {} \<longrightarrow> in_stream (unat (bm_offset xs)))"

lemma finite_bitmap_tops [simp]: "finite (bitmap_tops base b)"
  by (simp add: bitmap_tops_def)

lemma bitmap_tops_empty [simp]: "bitmap_tops base b = {} \<longleftrightarrow> b = 0"
  by (simp add: bitmap_tops_def bitset_empty_iff)

lemma Max_bitmap_tops: "b \<noteq> 0 \<Longrightarrow> Max (bitmap_tops base b) = unat base + Max (bitset b)"
  unfolding bitmap_tops_def
  by (subst mono_Max_commute [symmetric]) (auto simp: mono_def bitset_empty_iff)

lemma Min_bitset:
  assumes "b \<noteq> 0"
  shows "Min (bitset b) \<in> bitset b" "\<And>i. i \<in> bitset b \<Longrightarrow> Min (bitset b) \<le> i"
    "Max (bitset b) \<in> bitset b" "\<And>i. i \<in> bitset b \<Longrightarrow> i \<le> Max (bitset b)"
  using assms by (auto simp: bitset_empty_iff intro: Min_in Max_in)

lemma unat_bit_top:
  fixes base b :: u64a
  assumes "i \<in> bitset b" "\<forall>t \<in> bitmap_tops base b. in_stream t"
  shows "unat (base + of_nat i) = unat base + i"
proof -
  have i: "i < 64" using bitset_bound [OF assms(1)] by simp
  then have "unat (of_nat i :: u64a) = i" by (simp add: unat_of_nat take_bit_nat_eq_self)
  moreover have "in_stream (unat base + i)" using assms by (auto simp: bitmap_tops_def)
  ultimately show ?thesis using unat_add_small [of base "of_nat i"] by (simp add: in_stream_def)
qed

lemma bitmap_last_top:
  fixes base b :: u64a
  assumes "b \<noteq> 0" "\<forall>t \<in> bitmap_tops base b. in_stream t"
  shows "unat (base + 63 - of_nat (clz64 b)) = unat base + Max (bitset b)"
proof -
  have M: "Max (bitset b) \<in> bitset b" "Max (bitset b) < 64"
    using Min_bitset(3) [OF assms(1)] bitset_bound [of "Max (bitset b)" b] by auto
  have "(63 :: u64a) - of_nat (63 - Max (bitset b)) = of_nat (Max (bitset b))"
    using M(2) by (simp add: of_nat_diff)
  then have eq: "base + 63 - of_nat (clz64 b) = base + of_nat (Max (bitset b))"
    unfolding clz64_Max [OF assms(1)] add_diff_eq [symmetric] by simp
  show ?thesis unfolding eq by (rule unat_bit_top [OF M(1) assms(2)])
qed

lemma bitmap_first:
  fixes base b :: u64a
  assumes "b \<noteq> 0" "\<forall>t \<in> bitmap_tops base b. in_stream t"
  obtains i rest where "findAndClearLSB_64 b = (i, rest)" "card (bitset rest) < card (bitset b)"
    "bitmap_tops base b = insert (unat base + i) (bitmap_tops base rest)"
    "\<forall>t \<in> bitmap_tops base rest. unat base + i < t" "unat (base + of_nat i) = unat base + i"
proof -
  note M = Min_bitset [OF assms(1)]
  define i where "i = Min (bitset b)"
  define rest where "rest = b AND (b - 1)"
  have rest: "bitset rest = bitset b - {i}" unfolding rest_def i_def by (rule bitset_clear_lsb [OF assms(1)])
  have "findAndClearLSB_64 b = (i, rest)"
    unfolding findAndClearLSB_64_def Let_def ctz64_Min [OF assms(1)] i_def rest_def ..
  moreover have "card (bitset rest) < card (bitset b)" unfolding rest_def by (rule clear_lsb_less [OF assms(1)])
  moreover have "bitmap_tops base b = insert (unat base + i) (bitmap_tops base rest)"
    using M(1) by (auto simp: bitmap_tops_def rest i_def)
  moreover have "\<forall>t \<in> bitmap_tops base rest. unat base + i < t"
    using M(2) by (auto simp: bitmap_tops_def rest i_def intro: le_neq_implies_less)
  moreover have "unat (base + of_nat i) = unat base + i" unfolding i_def by (rule unat_bit_top [OF M(1) assms(2)])
  ultimately show ?thesis using that by blast
qed

lemma has_match_bitmap_loop_spec:
  assumes "in_stream (unat p)" "\<forall>t \<in> bitmap_tops base b. t \<le> unat p" "repeatMax info \<noteq> REPEAT_INF"
  shows "has_match_bitmap_loop info base p b
    = (if rep_match info (bitmap_tops base b) (unat p) then REPEAT_MATCH else REPEAT_NOMATCH)"
  using assms(2)
proof (induction "card (bitset b)" arbitrary: b rule: less_induct)
  case less
  show ?case
  proof (cases "b = 0")
    case True
    then show ?thesis by (simp add: has_match_bitmap_loop.simps bitmap_tops_def)
  next
    case False
    have "\<forall>t \<in> bitmap_tops base b. in_stream t" using less.prems assms(1) in_stream_le by blast
    then obtain i rest where b: "findAndClearLSB_64 b = (i, rest)" "card (bitset rest) < card (bitset b)"
      "bitmap_tops base b = insert (unat base + i) (bitmap_tops base rest)"
      "unat (base + of_nat i) = unat base + i" using bitmap_first [OF False] by metis
    have diff: "unat (p - (base + of_nat i)) = unat p - (unat base + i)" "unat base + i \<le> unat p"
      using less.prems b(3,4) unat_sub [of "base + of_nat i" p] by (auto simp: word_le_nat_alt)
    have "has_match_bitmap_loop info base p rest
        = (if rep_match info (bitmap_tops base rest) (unat p) then REPEAT_MATCH else REPEAT_NOMATCH)"
      using less.hyps [OF b(2)] less.prems b(3) by simp
    then show ?thesis
      using False assms(3) diff
      by (subst has_match_bitmap_loop.simps) (auto simp: b(1,3) word_le_nat_alt)
  qed
qed

lemma next_match_bitmap_loop_spec:
  assumes "in_stream (unat p)" "\<forall>t \<in> bitmap_tops base b. t \<le> unat p" "bounds_ok info" "repeatMax info \<noteq> REPEAT_INF"
  shows "unat (next_match_bitmap_loop info base p b) = rep_next info (bitmap_tops base b) (unat p)"
  using assms(2)
proof (induction "card (bitset b)" arbitrary: b rule: less_induct)
  case less
  show ?case
  proof (cases "b = 0")
    case True
    then show ?thesis by (simp add: next_match_bitmap_loop.simps bitmap_tops_def rep_next_none)
  next
    case False
    note bd = bounds_okD(1,2) [OF assms(3)]
    have str: "\<forall>t \<in> bitmap_tops base b. in_stream t" using less.prems assms(1) in_stream_le by blast
    then obtain i rest where b: "findAndClearLSB_64 b = (i, rest)" "card (bitset rest) < card (bitset b)"
      "bitmap_tops base b = insert (unat base + i) (bitmap_tops base rest)"
      "\<forall>t \<in> bitmap_tops base rest. unat base + i < t"
      "unat (base + of_nat i) = unat base + i" using bitmap_first [OF False] by metis
    define top :: u64a where "top = base + of_nat i"
    define t where "t = unat base + i"
    have t: "unat top = t" "in_stream t" using b(3,5) str by (auto simp: top_def t_def)
    have sums: "unat (top + ucast (repeatMin info)) = t + unat (repeatMin info)"
        "unat (top + ucast (repeatMax info)) = t + unat (repeatMax info)"
      using unat_plus_u32 [of top] t bd by simp_all
    have IH: "unat (next_match_bitmap_loop info base p rest) = rep_next info (bitmap_tops base rest) (unat p)"
      using less.hyps [OF b(2)] less.prems b(3) by simp
    have run: "next_match_bitmap_loop info base p b =
       (if p < top + ucast (repeatMin info) then top + ucast (repeatMin info)
        else if p < top + ucast (repeatMax info) then p + 1
        else next_match_bitmap_loop info base p rest)"
      using False by (subst next_match_bitmap_loop.simps) (simp add: b(1) top_def Let_def)
    have tops: "bitmap_tops base b = insert t (bitmap_tops base rest)" using b(3) by (simp add: t_def)
    have "rep_next info (bitmap_tops base b) (unat p) = (if unat p < t + unat (repeatMin info)
        then t + unat (repeatMin info) else if unat p < t + unat (repeatMax info) then unat p + 1
        else rep_next info (bitmap_tops base rest) (unat p))"
      unfolding tops by (rule rep_next_insert [OF assms(3,4)]) (use b(4) t_def in auto)
    then show ?thesis
      using unat_Suc_stream [OF assms(1)] by (simp add: run word_less_nat_alt sums IH)
  qed
qed

lemma bitmap_push:
  fixes base push :: u64a
  assumes "unat base + unat push < 2 ^ 64"
  shows "bitmap_tops (base + push) (if 64 \<le> push then 0 else drop_bit (unat push) b)
    = {t \<in> bitmap_tops base b. unat base + unat push \<le> t}"
proof -
  have below: "i < 64" if "i \<in> bitset b" for i using bitset_bound [OF that] by simp
  have "bitset (if 64 \<le> push then 0 else drop_bit (unat push) b) = {i. i + unat push \<in> bitset b}"
  proof (cases "64 \<le> push")
    case True
    then show ?thesis using below by (force simp: word_le_nat_alt)
  next
    case False
    then show ?thesis by (simp add: bitset_def bit_simps add.commute)
  qed
  moreover have "(\<lambda>i. unat base + unat push + i) ` {i. i + unat push \<in> bitset b}
      = {t \<in> (\<lambda>i. unat base + i) ` bitset b. unat base + unat push \<le> t}" (is "?l = ?r")
  proof
    show "?r \<subseteq> ?l"
    proof
      fix t assume "t \<in> ?r"
      then obtain i where i: "t = unat base + i" "i \<in> bitset b" "unat push \<le> i" by auto
      then show "t \<in> ?l" by (intro image_eqI [of _ _ "i - unat push"]) auto
    qed
  qed (auto simp: add.commute add.left_commute)
  ultimately show ?thesis using unat_add_small [OF assms] by (simp add: bitmap_tops_def)
qed

lemma bitmap_add:
  fixes base b :: u64a
  assumes "d < 64"
  shows "bitmap_tops base (b OR push_bit d 1) = insert (unat base + d) (bitmap_tops base b)"
proof -
  have "bitset (push_bit d 1 :: u64a) = {d}" by (rule bitset_single) (use assms in simp)
  then show ?thesis unfolding bitmap_tops_def bitset_ops by simp
qed

text \<open>Tops more than \<open>repeatMax\<close> before \<open>p\<close> answer no question from \<open>p\<close> on.\<close>

lemma rep_same_forget:
  assumes "repeatMax info \<noteq> REPEAT_INF" "C' \<subseteq> C" "\<And>t. t \<in> C - C' \<Longrightarrow> t + unat (repeatMax info) < p"
  shows "rep_same info p C' C"
  using assms unfolding rep_same_def rep_match_def by (metis DiffI leD le_trans subsetD)

lemma bitmap_store_alive:
  assumes "bounds_ok info" "repeatMax info < 64" "in_stream (unat p)" "bitmap_holds xs C" "\<forall>t \<in> C. t < unat p"
  shows "\<exists>C'. bitmap_holds (repeatStoreBitmap info xs p True) C' \<and> (\<forall>t \<in> C'. t \<le> unat p)
    \<and> rep_same info (unat p) C' (insert (unat p) C)"
proof -
  define base where "base = bm_offset xs"
  define b where "b = bm_bitmap xs"
  define mx where "mx = unat (repeatMax info)"
  have C: "C = bitmap_tops base b" using assms(4) by (simp add: bitmap_holds_def base_def b_def)
  have mx: "mx < 64" "repeatMax info \<noteq> REPEAT_INF"
    using assms(2) by (auto simp: mx_def word_less_nat_alt REPEAT_INF_def)
  have fresh: "bitmap_holds (xs\<lparr>bm_offset := p, bm_bitmap := 1\<rparr>) {unat p}"
    using bitset_single [of 0, where ?'a = 64] by (simp add: bitmap_holds_def bitmap_tops_def)
  show ?thesis
  proof (cases "b = 0")
    case True
    then have "C = {}" by (simp add: C)
    then show ?thesis using fresh True by (auto simp: repeatStoreBitmap_def b_def)
  next
    case False
    have str: "\<forall>t \<in> bitmap_tops base b. in_stream t" using assms(3,5) C by (blast intro: in_stream_le less_imp_le)
    have M: "Max C \<in> C" "\<forall>t \<in> C. t \<le> Max C" using False by (auto simp: C)
    define last_top where "last_top = base + 63 - of_nat (clz64 b)"
    have last_eq: "unat last_top = Max C"
      unfolding last_top_def C using bitmap_last_top [OF False str] Max_bitmap_tops [OF False] by simp
    have stale: "unat (last_top + ucast (repeatMax info)) = Max C + mx"
      unfolding mx_def last_eq [symmetric]
      by (rule unat_plus_u32) (use M(1) str mx last_eq in \<open>auto simp: C mx_def\<close>)
    have base: "base \<le> p" "unat (p - base) = unat p - unat base"
    proof -
      have "unat base \<le> Max C" by (simp add: C Max_bitmap_tops [OF False])
      then show "base \<le> p" using M(1) assms(5) by (fastforce simp: word_le_nat_alt)
      then show "unat (p - base) = unat p - unat base" by (rule unat_sub)
    qed
    consider (stale) "Max C + mx < unat p" | (push) "unat p \<le> Max C + mx" "mx + 1 \<le> unat p - unat base"
      | (add) "unat p \<le> Max C + mx" "unat p - unat base \<le> mx" by linarith
    then show ?thesis
    proof cases
      case stale
      then have "repeatStoreBitmap info xs p True = xs\<lparr>bm_offset := p, bm_bitmap := 1\<rparr>"
        using False \<open>unat (last_top + _) = _\<close>
        by (simp add: repeatStoreBitmap_def b_def [symmetric] base_def [symmetric] last_top_def [symmetric] word_less_nat_alt)
      moreover have "rep_same info (unat p) {unat p} (insert (unat p) C)"
        by (rule rep_same_forget) (use mx M stale in \<open>auto simp: mx_def [symmetric]\<close>)
      ultimately show ?thesis using fresh by auto
    next
      case push
      define push where "push = (p - base) - ucast (repeatMax info)"
      have pu: "unat push = unat p - unat base - mx"
        unfolding push_def using push base unat_sub [of "ucast (repeatMax info)" "p - base"]
        by (simp add: word_le_nat_alt mx_def)
      have nb: "unat base + unat push = unat p - mx" "unat p - mx + mx = unat p" using pu push by auto
      have "unat base + unat push < 2 ^ 64" using nb assms(3) by (simp add: in_stream_def)
      note bp = bitmap_push [OF this, of b] and nbase = unat_add_small [OF this]
      have d: "unat (p - (base + push)) = mx"
        using nbase nb unat_sub [of "base + push" p] by (simp add: word_le_nat_alt)
      have "repeatStoreBitmap info xs p True = xs\<lparr>bm_offset := base + push,
          bm_bitmap := (if 64 \<le> push then 0 else drop_bit (unat push) b) OR push_bit mx 1\<rparr>"
        using False \<open>unat (last_top + _) = _\<close> push base bounds_okD(5) [OF assms(1)] d
        by (simp add: repeatStoreBitmap_def b_def [symmetric] base_def [symmetric] last_top_def [symmetric]
            word_less_nat_alt word_le_nat_alt Let_def push_def [symmetric] mx_def [symmetric])
      then have "bitmap_holds (repeatStoreBitmap info xs p True) (insert (unat p) {t \<in> C. unat p - mx \<le> t})"
        using bitmap_add [OF mx(1)] bp nbase nb by (simp add: bitmap_holds_def C)
      moreover have "rep_same info (unat p) (insert (unat p) {t \<in> C. unat p - mx \<le> t}) (insert (unat p) C)"
        by (rule rep_same_forget) (use mx nb in \<open>auto simp: mx_def [symmetric]\<close>)
      ultimately show ?thesis using assms(5) by (metis (no_types, lifting) insert_iff less_imp_le mem_Collect_eq order_refl)
    next
      case add
      then have "repeatStoreBitmap info xs p True = xs\<lparr>bm_bitmap := b OR push_bit (unat p - unat base) 1\<rparr>"
        using False \<open>unat (last_top + _) = _\<close> base bounds_okD(5) [OF assms(1)]
        by (simp add: repeatStoreBitmap_def b_def [symmetric] base_def [symmetric] last_top_def [symmetric]
            word_less_nat_alt word_le_nat_alt Let_def mx_def [symmetric])
      then have "bitmap_holds (repeatStoreBitmap info xs p True) (insert (unat p) C)"
        using bitmap_add [of "unat p - unat base" base b] add base mx
        by (simp add: bitmap_holds_def C base_def [symmetric] word_le_nat_alt)
      then show ?thesis using assms(5) by (auto simp: less_imp_le)
    qed
  qed
qed

lemma bitmap_has_match:
  assumes "bounds_ok info" "repeatMax info < 64" "in_stream (unat p)" "bitmap_holds xs C" "\<forall>t \<in> C. t \<le> unat p"
  shows "repeatHasMatchBitmap info xs p = rep_answer info C (unat p)"
proof -
  define base where "base = bm_offset xs"
  define b where "b = bm_bitmap xs"
  note bd = bounds_okD(1,2) [OF assms(1)]
  have C: "C = bitmap_tops base b" using assms(4) by (simp add: bitmap_holds_def base_def b_def)
  have mx: "repeatMax info \<noteq> REPEAT_INF" using assms(2) by (auto simp: word_less_nat_alt REPEAT_INF_def)
  show ?thesis
  proof (cases "b = 0")
    case True
    then show ?thesis by (simp add: C bitmap_tops_def repeatHasMatchBitmap_def b_def [symmetric] rep_answer_def)
  next
    case False
    have str: "\<forall>t \<in> bitmap_tops base b. in_stream t" using assms(3,5) C by (blast intro: in_stream_le)
    define j where "j = Max (bitset b)"
    define rest where "rest = b AND NOT (push_bit j 1)"
    note M = Min_bitset(3,4) [OF False, folded j_def]
    have j: "j < 64" using bitset_bound [OF M(1)] by simp
    have "bitset (push_bit j 1 :: u64a) = {j}" by (rule bitset_single) (use j in simp)
    then have rest: "bitset rest = bitset b - {j}"
      unfolding rest_def bitset_ops bitset_not using bitset_bound [of _ b] by auto
    have "63 - clz64 b = j" using j by (simp add: clz64_Max [OF False] j_def)
    then have f: "findAndClearMSB_64 b = (j, rest)" by (simp add: findAndClearMSB_64_def Let_def rest_def)
    have tops: "bitmap_tops base b = insert (unat base + j) (bitmap_tops base rest)"
      using M(1) by (auto simp: bitmap_tops_def rest)
    have last_eq: "Max C = unat base + j" unfolding C Max_bitmap_tops [OF False] j_def ..
    have match: "unat (base + of_nat j) = unat base + j" by (rule unat_bit_top [OF M(1) str])
    have le: "unat base + j \<le> unat p" using assms(5) by (simp add: C tops)
    have diff: "unat (p - (base + of_nat j)) = unat p - (unat base + j)" "unat (p - base) = unat p - unat base"
      using le match unat_sub [of "base + of_nat j" p] unat_sub [of base p] by (simp_all add: word_le_nat_alt)
    have loop: "has_match_bitmap_loop info base p rest
        = (if rep_match info (bitmap_tops base rest) (unat p) then REPEAT_MATCH else REPEAT_NOMATCH)"
      by (rule has_match_bitmap_loop_spec [OF assms(3) _ mx]) (use assms(5) in \<open>simp add: C tops\<close>)
    have ans: "rep_answer info C (unat p) = (if rep_match info C (unat p) then REPEAT_MATCH
        else if unat p \<le> Max C + unat (repeatMax info) then REPEAT_NOMATCH else REPEAT_STALE)"
      using rep_answer_recent [OF _ _ assms(5)] False bounds_okD(3) [OF assms(1)] mx by (simp add: C)
    have too_early: "\<not> rep_match info C (unat p)" if "unat p - unat base < unat (repeatMin info)"
      using that by (auto simp: C rep_match_def bitmap_tops_def)
    have too_late: "\<not> rep_match info C (unat p)" if "unat base + j + unat (repeatMax info) < unat p"
      using that mx M(2) by (force simp: C rep_match_def bitmap_tops_def)
    consider (early) "unat p - unat base < unat (repeatMin info)"
      | (late) "unat (repeatMin info) \<le> unat p - unat base" "unat base + j + unat (repeatMax info) < unat p"
      | (scan) "unat (repeatMin info) \<le> unat p - unat base" "unat p \<le> unat base + j + unat (repeatMax info)"
      by linarith
    then show ?thesis
    proof cases
      case early
      show ?thesis
        using too_early [OF early] bd False le early
        by (auto simp: repeatHasMatchBitmap_def b_def [symmetric] base_def [symmetric] word_less_nat_alt diff ans last_eq)
    next
      case late
      then show ?thesis
        using late bd False le too_late [OF late(2)]
        by (simp add: repeatHasMatchBitmap_def b_def [symmetric] base_def [symmetric] word_less_nat_alt diff ans last_eq
            f match Let_def less_diff_conv add.commute add.left_commute)
    next
      case scan
      have window: "\<not> unat (repeatMax info) < unat p - (unat base + j)" using scan(2) le by linarith
      have "repeatHasMatchBitmap info xs p = (if rep_match info C (unat p) then REPEAT_MATCH else REPEAT_NOMATCH)"
        unfolding repeatHasMatchBitmap_def b_def [symmetric] base_def [symmetric] f Let_def prod.case
          word_less_nat_alt word_le_nat_alt diff unat_u32 loop C tops
        using scan window mx False le by auto
      then show ?thesis using scan(2) by (simp add: ans last_eq)
    qed
  qed
qed

interpretation rep_bitmap: repeat_model info "bounds_ok info \<and> repeatMax info < 64"
  "\<lambda>xs p alive. Some (repeatStoreBitmap info xs p alive)" "\<lambda>xs p. Some (repeatHasMatchBitmap info xs p)"
  "\<lambda>xs p. Some (repeatNextMatchBitmap info xs p)" repeatLastTopBitmap bitmap_holds
  for info
proof (unfold_locales, goal_cases)
  case (1 p s)
  then show ?case
    using bitset_single [of 0, where ?'a = 64] by (simp add: repeatStoreBitmap_def bitmap_holds_def bitmap_tops_def)
next
  case (2 p s C)
  then show ?case using bitmap_store_alive by blast
next
  case (3 p s C)
  then show ?case using bitmap_has_match by simp
next
  case (4 p s C)
  moreover from this have "repeatMax info \<noteq> REPEAT_INF" by (auto simp: REPEAT_INF_def word_less_nat_alt)
  ultimately show ?case using next_match_bitmap_loop_spec by (simp add: repeatNextMatchBitmap_def bitmap_holds_def)
next
  case (5 s C)
  then show ?case
    using bitmap_last_top [of "bm_bitmap s" "bm_offset s"] Max_bitmap_tops [of "bm_bitmap s" "bm_offset s"]
    by (simp add: repeatLastTopBitmap_def bitmap_holds_def)
qed

section \<open>TRAILER keeps the contract\<close>

definition trailer_holds :: "RepeatInfo \<Rightarrow> RepeatTrailerControl \<Rightarrow> nat set \<Rightarrow> bool" where
  "trailer_holds info xs C \<longleftrightarrow> finite C \<and> C \<noteq> {} \<and> unat (tr_offset xs) = Max C + unat (repeatMin info)
     \<and> (\<forall>i < unat (repeatMin info).
          bit (tr_bitmap xs) i \<longleftrightarrow> rep_match info C (Max C + unat (repeatMin info) - 1 - i))"

definition trailer_ok :: "RepeatInfo \<Rightarrow> bool" where
  "trailer_ok info \<longleftrightarrow> bounds_ok info \<and> repeatMin info \<le> 64 \<and> repeatMax info \<noteq> REPEAT_INF"

lemma bit_low_ones: "bit (push_bit k 1 - 1 :: u64a) i \<longleftrightarrow> i < k \<and> i < 64"
proof -
  have "bitset (push_bit k 1 - 1 :: u64a) = {..<min k 64}" using bitset_mask [of k, where ?'a = 64] by simp
  then have "i \<in> bitset (push_bit k 1 - 1 :: u64a) \<longleftrightarrow> i \<in> {..<min k 64}" by (rule arg_cong)
  then show ?thesis by (simp only: bitset_def mem_Collect_eq lessThan_iff min_less_iff_conj)
qed

lemma and_push_bit_nonzero: "w AND push_bit n 1 \<noteq> 0 \<longleftrightarrow> bit (w :: 'a::len word) n"
proof
  assume "w AND push_bit n 1 \<noteq> 0"
  then obtain i where "bit (w AND push_bit n 1) i" by (auto simp: bit_eq_iff)
  then show "bit w n" by (auto simp: bit_simps)
next
  assume "bit w n"
  then have "bit (w AND push_bit n 1) n" by (auto simp: bit_simps dest: bit_imp_le_length)
  then show "w AND push_bit n 1 \<noteq> 0" by auto
qed

lemma bit_mask_ones_to: "bit (mask_ones_to v) i \<longleftrightarrow> i \<le> unat v \<and> i < 64"
proof (cases "v < 63")
  case True
  then have "unat (v + 1) = unat v + 1" using unat_add_lem [of v 1] by (simp add: word_less_nat_alt)
  then show ?thesis using True by (simp only: mask_ones_to_def if_True bit_low_ones) auto
next
  case False
  then have "63 \<le> unat v" by (simp add: word_less_nat_alt)
  moreover have "bit (mask_ones_to v) i \<longleftrightarrow> i < 64" using False by (simp add: mask_ones_to_def)
  ultimately show ?thesis by auto
qed

lemma rep_match_after:
  assumes "finite C" "C \<noteq> {}" "Max C + unat (repeatMin info) \<le> q" "repeatMax info \<noteq> REPEAT_INF"
  shows "rep_match info C q \<longleftrightarrow> q \<le> Max C + unat (repeatMax info)"
proof
  assume "rep_match info C q"
  then obtain t where "t \<in> C" "q \<le> t + unat (repeatMax info)" using assms(4) by (auto simp: rep_match_def)
  then show "q \<le> Max C + unat (repeatMax info)" using Max_ge [OF assms(1), of t] by linarith
next
  assume "q \<le> Max C + unat (repeatMax info)"
  then show "rep_match info C q" using Max_in [OF assms(1,2)] assms(3) by (auto simp: rep_match_def)
qed

lemma trailer_store_bits:
  assumes "trailer_ok info" "unat diff = d" "0 < d" "d < 2 ^ 64" "i < unat (repeatMin info)"
    and "unat (offset + ucast (repeatMin info)) = unat (tr_offset xs) + d"
    and "diff = offset + ucast (repeatMin info) - tr_offset xs"
  shows "bit (tr_bitmap (repeatStoreTrailer info xs offset True)) i \<longleftrightarrow>
    d \<le> i \<and> bit (tr_bitmap xs) (i - d) \<or> i < d \<and> d - 1 - i \<le> unat (repeatMax info) - unat (repeatMin info)"
proof -
  define w where "w = unat (repeatMax info) - unat (repeatMin info)"
  have bd: "bounds_ok info" "unat (repeatMin info) \<le> 64"
    using assms(1) by (auto simp: trailer_ok_def word_le_nat_alt)
  have w: "unat (repeatMax info - repeatMin info) = w" "w \<le> 65535"
    using bounds_okD [OF bd(1)] by (auto simp: w_def)
  have i: "i < 64" using assms(5) bd(2) by simp
  have d1: "unat (diff - 1) = d - 1"
    using assms(2,3) unat_sub [of 1 diff] by (simp add: word_le_nat_alt)
  define b1 where "b1 = (if diff < 64 then push_bit (unat diff) (tr_bitmap xs) else 0)"
  have b1: "bit b1 i \<longleftrightarrow> d \<le> i \<and> bit (tr_bitmap xs) (i - d)"
    using i assms(2) by (auto simp: b1_def bit_simps word_less_nat_alt)
  define b2 where "b2 = (if diff \<le> ucast (repeatMax info - repeatMin info) then b1 OR mask_ones_to (ucast (diff - 1))
      else let shift = diff - ucast (repeatMax info - repeatMin info) - 1
           in if shift < 64 then b1 OR push_bit (unat shift) (mask_ones_to (repeatMax info - repeatMin info)) else b1)"
  have b2: "bit b2 i \<longleftrightarrow> bit b1 i \<or> i < d \<and> d - 1 - i \<le> w"
  proof (cases "d \<le> w")
    case True
    then have "unat (ucast (diff - 1) :: u32) = d - 1"
      using w(2) d1 by (simp add: unsigned_ucast_eq take_bit_nat_eq_self)
    then show ?thesis
      using True i assms(2,3) w by (auto simp: b2_def word_le_nat_alt bit_simps bit_mask_ones_to)
  next
    case False
    define shift where "shift = diff - ucast (repeatMax info - repeatMin info) - 1"
    have "unat (diff - ucast (repeatMax info - repeatMin info)) = d - w"
      using False w assms(2) unat_sub [of "ucast (repeatMax info - repeatMin info)" diff] by (simp add: word_le_nat_alt)
    then have sh: "unat shift = d - w - 1"
      using False unat_sub [of 1 "diff - ucast (repeatMax info - repeatMin info)"]
      by (simp add: shift_def word_le_nat_alt)
    have "b2 = (if shift < 64 then b1 OR push_bit (unat shift) (mask_ones_to (repeatMax info - repeatMin info)) else b1)"
      using False w assms(2) by (simp add: b2_def shift_def Let_def word_le_nat_alt)
    then show ?thesis
      using False i w sh by (auto simp: word_less_nat_alt bit_simps bit_mask_ones_to)
  qed
  have final: "tr_bitmap (repeatStoreTrailer info xs offset True)
      = (if repeatMin info < 63 then b2 AND (push_bit (unat (repeatMin info + 1)) 1 - 1) else b2)"
    unfolding repeatStoreTrailer_def Let_def b2_def b1_def assms(7) by simp
  have "bit (push_bit (unat (repeatMin info + 1)) 1 - 1 :: u64a) i" if "repeatMin info < 63"
  proof -
    have "unat (repeatMin info + 1) = unat (repeatMin info) + 1"
      using that unat_add_lem [of "repeatMin info" 1] by (simp add: word_less_nat_alt)
    then show ?thesis using assms(5) i by (simp only: bit_low_ones) simp
  qed
  then show ?thesis using b1 b2 by (simp add: final bit_simps w_def)
qed

lemma trailer_holdsD:
  assumes "trailer_ok info" "trailer_holds info xs C" "in_stream (unat p)" "\<forall>t \<in> C. t \<le> unat p"
  shows "Max C \<in> C" "Max C \<le> unat p" "unat (tr_offset xs) = Max C + unat (repeatMin info)"
    "unat (tr_offset xs + ucast (repeatMax info - repeatMin info)) = Max C + unat (repeatMax info)"
    "unat (tr_offset xs - ucast (repeatMin info)) = Max C" "unat (repeatMin info) \<le> 64"
    "unat (repeatMin info) \<le> unat (repeatMax info)" "unat (repeatMax info) \<le> 65535" "finite C" "C \<noteq> {}"
proof -
  show fin: "finite C" "C \<noteq> {}" and off: "unat (tr_offset xs) = Max C + unat (repeatMin info)"
    using assms(2) by (auto simp: trailer_holds_def)
  show M: "Max C \<in> C" by (rule Max_in [OF fin])
  then show le: "Max C \<le> unat p" using assms(4) by blast
  have bd: "bounds_ok info" using assms(1) by (simp add: trailer_ok_def)
  show m64: "unat (repeatMin info) \<le> 64" using assms(1) by (simp add: trailer_ok_def word_le_nat_alt)
  show mm: "unat (repeatMin info) \<le> unat (repeatMax info)" and mx: "unat (repeatMax info) \<le> 65535"
    using bounds_okD(1,2) [OF bd] by auto
  show "unat (tr_offset xs + ucast (repeatMax info - repeatMin info)) = Max C + unat (repeatMax info)"
    using unat_add_small [of "tr_offset xs" "ucast (repeatMax info - repeatMin info)"] bounds_okD(4) [OF bd]
      off le assms(3) mm mx by (simp add: in_stream_def)
  show "unat (tr_offset xs - ucast (repeatMin info)) = Max C"
    using unat_sub [of "ucast (repeatMin info)" "tr_offset xs"] off by (simp add: word_le_nat_alt)
qed

lemma trailer_has_match:
  assumes "trailer_ok info" "trailer_holds info xs C" "in_stream (unat p)" "\<forall>t \<in> C. t \<le> unat p"
  shows "repeatHasMatchTrailer info xs p = rep_answer info C (unat p)"
proof -
  note D = trailer_holdsD [OF assms]
  have inf: "repeatMax info \<noteq> REPEAT_INF" and le: "repeatMin info \<le> repeatMax info"
    using assms(1) by (auto simp: trailer_ok_def bounds_ok_def)
  have ans: "rep_answer info C (unat p) = (if rep_match info C (unat p) then REPEAT_MATCH
      else if unat p \<le> Max C + unat (repeatMax info) then REPEAT_NOMATCH else REPEAT_STALE)"
    using rep_answer_recent [OF D(9,10) assms(4) le] inf by simp
  have after: "rep_match info C (unat p) \<longleftrightarrow> unat p \<le> Max C + unat (repeatMax info)"
    if "Max C + unat (repeatMin info) \<le> unat p"
    by (rule rep_match_after [OF D(9,10) that inf])
  have early: "bit (tr_bitmap xs) (unat (ucast (tr_offset xs - p - 1) :: u32)) \<longleftrightarrow> rep_match info C (unat p)"
    if "unat p < Max C + unat (repeatMin info)"
  proof -
    define d where "d = Max C + unat (repeatMin info) - unat p - 1"
    have "unat (tr_offset xs - p) = d + 1"
      using that D(3) unat_sub [of p "tr_offset xs"] by (simp add: word_le_nat_alt d_def)
    then have "unat (tr_offset xs - p - 1) = d"
      using unat_sub [of 1 "tr_offset xs - p"] by (simp add: word_le_nat_alt)
    moreover have d: "d < unat (repeatMin info)" using D(2) that by (simp add: d_def)
    ultimately have "unat (ucast (tr_offset xs - p - 1) :: u32) = d"
      using D(6) by (simp add: unsigned_ucast_eq take_bit_nat_eq_self)
    moreover have "bit (tr_bitmap xs) d \<longleftrightarrow> rep_match info C (Max C + unat (repeatMin info) - 1 - d)"
      using assms(2) d by (simp add: trailer_holds_def)
    ultimately show ?thesis using that by (simp add: d_def)
  qed
  show ?thesis
    unfolding repeatHasMatchTrailer_def Let_def ans
    using D after early by (auto simp: word_less_nat_alt word_le_nat_alt and_push_bit_nonzero [simplified push_bit_of_1])
qed

lemma trailer_next_match:
  assumes "trailer_ok info" "trailer_holds info xs C" "in_stream (unat p)" "\<forall>t \<in> C. t \<le> unat p"
  shows "unat (repeatNextMatchTrailer info xs p) = rep_next info C (unat p)"
proof -
  note D = trailer_holdsD [OF assms]
  define lo where "lo = Max C + unat (repeatMin info)"
  define hi where "hi = Max C + unat (repeatMax info)"
  have inf: "repeatMax info \<noteq> REPEAT_INF" using assms(1) by (simp add: trailer_ok_def)
  have lo: "unat (tr_offset xs) = lo" "lo \<le> hi"
    and hi: "unat (tr_offset xs + ucast (repeatMax info - repeatMin info)) = hi"
    using D(3,4,7) by (simp_all add: lo_def hi_def)
  have after: "rep_match info C q \<longleftrightarrow> q \<le> hi" if "lo \<le> q" for q
    using rep_match_after [OF D(9,10) that [unfolded lo_def] inf] by (simp add: hi_def)
  consider "hi \<le> unat p" | "unat p < hi" "lo \<le> unat p" | (early) "unat p < lo" by linarith
  then show ?thesis
  proof cases
    case 1
    then have "rep_next info C (unat p) = 0" using after lo by (intro rep_next_none) auto
    then show ?thesis using 1 by (simp add: repeatNextMatchTrailer_def word_le_nat_alt hi)
  next
    case 2
    then have "rep_next info C (unat p) = unat p + 1" using after by (intro rep_nextI) auto
    then show ?thesis
      using 2 unat_Suc_stream [OF assms(3)] by (simp add: repeatNextMatchTrailer_def word_le_nat_alt hi lo)
  next
    case early
    define d where "d = lo - unat p"
    have d: "unat (tr_offset xs - p) = d" "0 < d" "d \<le> unat (repeatMin info)" "d \<le> 64"
      using early D(2,6) unat_sub [of p "tr_offset xs"] by (auto simp: word_le_nat_alt d_def lo lo_def)
    have d1: "unat (tr_offset xs - p - 1) = d - 1"
      using d unat_sub [of 1 "tr_offset xs - p"] by (simp add: word_le_nat_alt)
    define b where "b = tr_bitmap xs AND (push_bit (d - 1) 1 - 1)"
    have b: "bit b j \<longleftrightarrow> j < d - 1 \<and> rep_match info C (lo - 1 - j)" for j
      using assms(2) d by (auto simp: b_def bit_simps bit_low_ones [simplified push_bit_of_1] trailer_holds_def lo_def)
    have run: "repeatNextMatchTrailer info xs p =
        (if b \<noteq> 0 then tr_offset xs - of_nat (63 - clz64 b) - 1 else tr_offset xs)"
      using early lo(2) d by (simp add: repeatNextMatchTrailer_def Let_def word_le_nat_alt hi lo(1) d1 b_def)
    show ?thesis
    proof (cases "b = 0")
      case True
      have none: "\<not> rep_match info C q" if "unat p < q" "q < lo" for q
        using b [of "lo - 1 - q"] that True by (auto simp: d_def)
      have "rep_next info C (unat p) = lo"
        by (rule rep_nextI) (use early after [of lo] lo none in auto)
      then show ?thesis by (simp add: run True lo)
    next
      case False
      define j where "j = Max (bitset b)"
      note M = Min_bitset(3,4) [OF False, folded j_def]
      have j: "j < d - 1" "rep_match info C (lo - 1 - j)" using M(1) b by (auto simp: bitset_def)
      have "63 - clz64 b = j" using j(1) d(4) by (simp add: clz64_Max [OF False] j_def)
      moreover have "unat (tr_offset xs - of_nat j) = lo - j"
        using j(1) d(4) unat_sub [of "of_nat j" "tr_offset xs"] d_def lo
        by (simp add: word_le_nat_alt unat_of_nat take_bit_nat_eq_self)
      moreover have "unat (tr_offset xs - of_nat j - 1) = lo - j - 1" if "unat (tr_offset xs - of_nat j) = lo - j"
        using j(1) d_def that unat_sub [of 1 "tr_offset xs - of_nat j"] by (simp add: word_le_nat_alt)
      moreover have "rep_next info C (unat p) = lo - 1 - j"
      proof (rule rep_nextI)
        fix q assume q: "unat p < q" "q < lo - 1 - j"
        then have "lo - 1 - q \<notin> bitset b" using M(2) [of "lo - 1 - q"] by auto
        then show "\<not> rep_match info C q" using b [of "lo - 1 - q"] q by (auto simp: bitset_def d_def)
      qed (use j d_def in auto)
      ultimately show ?thesis using False by (simp add: run)
    qed
  qed
qed

lemma trailer_store_dead:
  assumes "trailer_ok info" "in_stream (unat p)"
  shows "trailer_holds info (repeatStoreTrailer info xs p False) {unat p}"
proof -
  have "unat (repeatMin info) \<le> 65536" using assms(1) by (simp add: trailer_ok_def word_le_nat_alt)
  then have "unat (p + ucast (repeatMin info)) = unat p + unat (repeatMin info)"
    by (rule unat_plus_u32 [OF assms(2)])
  then show ?thesis by (auto simp: trailer_holds_def repeatStoreTrailer_def)
qed

lemma trailer_store_alive:
  assumes "trailer_ok info" "in_stream (unat p)" "trailer_holds info xs C" "\<forall>t \<in> C. t < unat p"
  shows "trailer_holds info (repeatStoreTrailer info xs p True) (insert (unat p) C)"
proof -
  have "\<forall>t \<in> C. t \<le> unat p" using assms(4) by (auto simp: less_imp_le)
  note D = trailer_holdsD [OF assms(1,3,2) this]
  have inf: "repeatMax info \<noteq> REPEAT_INF" using assms(1) by (simp add: trailer_ok_def)
  define mn where "mn = unat (repeatMin info)"
  define d where "d = unat p - Max C"
  have M: "Max C < unat p" using D(1) assms(4) by blast
  have ext: "unat (p + ucast (repeatMin info)) = unat p + mn"
    unfolding mn_def by (rule unat_plus_u32 [OF assms(2)]) (use D(6) in simp)
  define diff where "diff = p + ucast (repeatMin info) - tr_offset xs"
  have diff: "unat diff = d"
    using unat_sub [of "tr_offset xs" "p + ucast (repeatMin info)"] M D(3)
    by (simp add: diff_def d_def word_le_nat_alt ext mn_def)
  have top: "Max (insert (unat p) C) = unat p" using D(9,10) M by simp
  have "bit (tr_bitmap (repeatStoreTrailer info xs p True)) i
      \<longleftrightarrow> rep_match info (insert (unat p) C) (unat p + mn - 1 - i)" if i: "i < mn" for i
  proof -
    have dpos: "0 < d" "d < 2 ^ 64" using M assms(2) by (auto simp: d_def in_stream_def)
    have bits: "bit (tr_bitmap (repeatStoreTrailer info xs p True)) i \<longleftrightarrow>
        d \<le> i \<and> bit (tr_bitmap xs) (i - d) \<or> i < d \<and> d - 1 - i \<le> unat (repeatMax info) - mn"
      unfolding mn_def
      by (rule trailer_store_bits [OF assms(1) diff dpos _ _ diff_def])
        (use i M D(3) ext in \<open>auto simp: d_def mn_def\<close>)
    have new: "rep_match info (insert (unat p) C) (unat p + mn - 1 - i) \<longleftrightarrow> rep_match info C (unat p + mn - 1 - i)"
      using i by (auto simp: mn_def)
    show ?thesis
    proof (cases "d \<le> i")
      case True
      then have "bit (tr_bitmap xs) (i - d) \<longleftrightarrow> rep_match info C (Max C + mn - 1 - (i - d))"
        using assms(3) i by (simp add: trailer_holds_def mn_def)
      moreover have "Max C + mn - 1 - (i - d) = unat p + mn - 1 - i" using True M by (simp add: d_def)
      ultimately show ?thesis using bits new True by simp
    next
      case False
      then have "rep_match info C (unat p + mn - 1 - i) \<longleftrightarrow> unat p + mn - 1 - i \<le> Max C + unat (repeatMax info)"
        by (intro rep_match_after [OF D(9,10) _ inf]) (simp add: d_def mn_def)
      moreover have "unat p + mn - 1 - i \<le> Max C + unat (repeatMax info) \<longleftrightarrow> d - 1 - i \<le> unat (repeatMax info) - mn"
        using False M D(7) i by (auto simp: d_def mn_def)
      ultimately show ?thesis using bits new False by simp
    qed
  qed
  moreover have "tr_offset (repeatStoreTrailer info xs p True) = p + ucast (repeatMin info)"
    by (simp add: repeatStoreTrailer_def Let_def)
  ultimately show ?thesis using D(9) ext top by (simp add: trailer_holds_def mn_def)
qed

interpretation rep_trailer: repeat_model info "trailer_ok info"
  "\<lambda>xs p alive. Some (repeatStoreTrailer info xs p alive)" "\<lambda>xs p. Some (repeatHasMatchTrailer info xs p)"
  "\<lambda>xs p. Some (repeatNextMatchTrailer info xs p)" "repeatLastTopTrailer info" "trailer_holds info"
  for info
proof (unfold_locales, goal_cases)
  case (1 p s)
  then show ?case using trailer_store_dead by simp
next
  case (2 p s C)
  then have "\<forall>t \<in> insert (unat p) C. t \<le> unat p" by (auto simp: less_imp_le)
  then show ?case using trailer_store_alive [OF 2] rep_same_refl by blast
next
  case (3 p s C)
  then show ?case using trailer_has_match by simp
next
  case (4 p s C)
  then show ?case using trailer_next_match by simp
next
  case (5 s C)
  moreover from this have "Max C \<in> C" "finite C" by (auto simp: trailer_holds_def)
  ultimately have "in_stream (Max C)" "unat (tr_offset s) = Max C + unat (repeatMin info)"
    by (auto simp: trailer_holds_def)
  then show ?case
    using unat_sub [of "ucast (repeatMin info)" "tr_offset s"] by (simp add: repeatLastTopTrailer_def word_le_nat_alt)
qed

end
