(* ===== verification/RepeatRange.thy ===== *)
theory RepeatRange
  imports Repeat Memory
begin

text \<open>
  The RANGE model of \<open>src/nfa/repeat.c\<close>: an ordered array of \<open>u16\<close> offsets from the first live top, at the
  start of the repeat state.  The operations are related to operations on the list of tops the array holds.
\<close>

section \<open>Operations\<close>

definition range_entry :: "mem \<Rightarrow> nat \<Rightarrow> u16" where
  "range_entry m i = unaligned_load_u16 m (2 * int i)"

definition set_range_entry :: "mem \<Rightarrow> nat \<Rightarrow> u16 \<Rightarrow> mem" where
  "set_range_entry m i v = unaligned_store_u16 m (2 * int i) v"

definition rangeListCapacity :: "RepeatInfo \<Rightarrow> u32" where
  "rangeListCapacity info = (let d = repeatMax info - repeatMin info in 2 * (repeatMax info div d + 1))"

definition repeatLastTopRange :: "RepeatRangeControl \<Rightarrow> mem \<Rightarrow> u64a" where
  "repeatLastTopRange xs m = range_offset xs + ucast (range_entry m (unat (range_num xs) - 1))"

function next_match_range_loop :: "RepeatInfo \<Rightarrow> RepeatRangeControl \<Rightarrow> mem \<Rightarrow> u64a \<Rightarrow> nat \<Rightarrow> u64a" where
  "next_match_range_loop info xs m offset i =
     (if i < unat (range_num xs)
      then let base = range_offset xs + ucast (range_entry m i);
               first = base + ucast (repeatMin info)
           in if offset < first then first
              else if offset < base + ucast (repeatMax info) then offset + 1
              else next_match_range_loop info xs m offset (i + 1)
      else 0)"
  by pat_completeness auto

termination
  by (relation "measure (\<lambda>(_, xs, _, _, i). unat (range_num xs) - i)") auto

declare next_match_range_loop.simps [simp del]

definition repeatNextMatchRange :: "RepeatInfo \<Rightarrow> RepeatRangeControl \<Rightarrow> mem \<Rightarrow> u64a \<Rightarrow> u64a" where
  "repeatNextMatchRange info xs m offset = next_match_range_loop info xs m offset 0"

definition storeInitialRangeTop :: "RepeatRangeControl \<Rightarrow> mem \<Rightarrow> u64a \<Rightarrow> RepeatRangeControl \<times> mem" where
  "storeInitialRangeTop xs m offset = (xs\<lparr>range_offset := offset, range_num := 1\<rparr>, set_range_entry m 0 0)"

text \<open>The walk that counts the stale tops, the shift that deletes them, and the whole store.\<close>

function count_stale :: "RepeatInfo \<Rightarrow> RepeatRangeControl \<Rightarrow> mem \<Rightarrow> u64a \<Rightarrow> nat \<Rightarrow> nat" where
  "count_stale info xs m offset i =
     (if i < unat (range_num xs)
      then let this_offset = range_offset xs + ucast (range_entry m i)
           in if offset - this_offset \<le> ucast (repeatMax info) then i
              else count_stale info xs m offset (i + 1)
      else i)"
  by pat_completeness auto

termination
  by (relation "measure (\<lambda>(_, xs, _, _, i). unat (range_num xs) - i)") auto

declare count_stale.simps [simp del]

definition expire_range :: "RepeatRangeControl \<Rightarrow> mem \<Rightarrow> nat \<Rightarrow> RepeatRangeControl \<times> mem" where
  "expire_range xs m i =
     (let first_offset = range_entry m i;
          m = foldl (\<lambda>m j. let val = range_entry m (i + j) in set_range_entry m j (val - first_offset))
                m [0..<unat (range_num xs) - i]
      in (xs\<lparr>range_offset := range_offset xs + ucast first_offset, range_num := range_num xs - of_nat i\<rparr>, m))"

definition append_range :: "RepeatRangeControl \<Rightarrow> mem \<Rightarrow> u64a \<Rightarrow> RepeatRangeControl \<times> mem" where
  "append_range xs m offset =
     (xs\<lparr>range_num := range_num xs + 1\<rparr>,
      set_range_entry m (unat (range_num xs)) (ucast (offset - range_offset xs)))"

definition repeatStoreRange ::
  "RepeatInfo \<Rightarrow> RepeatRangeControl \<Rightarrow> mem \<Rightarrow> u64a \<Rightarrow> bool \<Rightarrow> RepeatRangeControl \<times> mem" where
  "repeatStoreRange info xs m offset is_alive =
     (if \<not> is_alive then storeInitialRangeTop xs m offset
      else let i = count_stale info xs m offset 0
           in if i = unat (range_num xs) then storeInitialRangeTop xs m offset
              else let (xs, m) = (if 0 < i then expire_range xs m i else (xs, m))
                   in if range_num xs = 1 then append_range xs m offset
                      else let d = repeatMax info - repeatMin info;
                               penultimate_offset = range_offset xs + ucast (range_entry m (unat (range_num xs) - 2))
                           in if offset - penultimate_offset \<le> ucast d
                              then (xs, set_range_entry m (unat (range_num xs) - 1) (ucast (offset - range_offset xs)))
                              else append_range xs m offset)"

function has_match_range_loop ::
  "RepeatInfo \<Rightarrow> RepeatRangeControl \<Rightarrow> mem \<Rightarrow> u64a \<Rightarrow> nat \<Rightarrow> nat \<Rightarrow> RepeatMatch" where
  "has_match_range_loop info xs m offset cnt i =
     (if i < cnt
      then let match = range_offset xs + ucast (range_entry m i);
               diff = offset - match
           in if ucast (repeatMin info) \<le> diff \<and> diff \<le> ucast (repeatMax info) then REPEAT_MATCH
              else has_match_range_loop info xs m offset cnt (i + 1)
      else REPEAT_NOMATCH)"
  by pat_completeness auto

termination
  by (relation "measure (\<lambda>(_, _, _, _, cnt, i). cnt - i)") auto

declare has_match_range_loop.simps [simp del]

definition repeatHasMatchRange :: "RepeatInfo \<Rightarrow> RepeatRangeControl \<Rightarrow> mem \<Rightarrow> u64a \<Rightarrow> RepeatMatch" where
  "repeatHasMatchRange info xs m offset =
     (if offset - range_offset xs < ucast (repeatMin info) then REPEAT_NOMATCH
      else let match = range_offset xs + ucast (range_entry m (unat (range_num xs) - 1));
               diff = offset - match
           in if ucast (repeatMax info) < diff then REPEAT_STALE
              else if ucast (repeatMin info) \<le> diff \<and> diff \<le> ucast (repeatMax info) then REPEAT_MATCH
              else has_match_range_loop info xs m offset (unat (range_num xs) - 1) 0)"

section \<open>The list of tops\<close>

definition range_list :: "RepeatRangeControl \<Rightarrow> mem \<Rightarrow> nat list" where
  "range_list xs m = map (\<lambda>i. unat (range_offset xs) + unat (range_entry m i)) [0..<unat (range_num xs)]"

text \<open>What the store does to the list.\<close>

definition list_store :: "RepeatInfo \<Rightarrow> nat list \<Rightarrow> nat \<Rightarrow> nat list" where
  "list_store info L p =
     (let live = dropWhile (\<lambda>t. unat (repeatMax info) < p - t) L
      in if live = [] then [p]
         else if length live \<noteq> 1 \<and> p - live ! (length live - 2) \<le> unat (repeatMax info) - unat (repeatMin info)
         then butlast live @ [p]
         else live @ [p])"

text \<open>
  The order of the array, the room for \<open>u16\<close> entries, and no three entries close enough to spare the middle one:
  the last bounds their number.
\<close>

definition list_inv :: "RepeatInfo \<Rightarrow> nat list \<Rightarrow> bool" where
  "list_inv info L \<longleftrightarrow> L \<noteq> [] \<and> sorted_wrt (<) L \<and> last L \<le> hd L + unat (repeatMax info)
     \<and> (\<forall>i. i + 2 < length L \<longrightarrow> unat (repeatMax info) - unat (repeatMin info) < L ! (i + 2) - L ! i)"

definition range_inv :: "RepeatInfo \<Rightarrow> RepeatRangeControl \<Rightarrow> mem \<Rightarrow> bool" where
  "range_inv info xs m \<longleftrightarrow>
     list_inv info (range_list xs m) \<and> hd (range_list xs m) = unat (range_offset xs)"

definition range_holds :: "RepeatInfo \<Rightarrow> RepeatRangeControl \<times> mem \<Rightarrow> nat set \<Rightarrow> bool" where
  "range_holds info s C \<longleftrightarrow> range_inv info (fst s) (snd s) \<and> C = set (range_list (fst s) (snd s))"

text \<open>The builder picks the model for at most \<open>REPEAT_RANGE_MAX_SLOTS\<close> slots.\<close>

definition range_ok :: "RepeatInfo \<Rightarrow> bool" where
  "range_ok info \<longleftrightarrow> repeatMin info < repeatMax info \<and> repeatMax info < REPEAT_INF
     \<and> rangeListCapacity info \<le> REPEAT_RANGE_MAX_SLOTS"

lemma range_ok_bounds:
  assumes "range_ok info"
  shows "bounds_ok info" "repeatMax info \<noteq> REPEAT_INF"
  using assms by (auto simp: range_ok_def bounds_ok_def less_imp_le)

section \<open>The array\<close>

lemma load_store_u16:
  "unaligned_load_u16 (unaligned_store_u16 m (2 * int j) v) (2 * int i)
    = (if i = j then v else unaligned_load_u16 m (2 * int i))"
proof (rule bit_word_eqI)
  fix k assume k: "k < LENGTH(16)"
  have a: "2 * int i = int (2 * i)" "2 * int j = int (2 * j)" by simp_all
  have g: "gbit (store_le 2 m (int (2 * j)) v) x
      = (if 8 * (2 * j) \<le> x \<and> x < 8 * (2 * j) + 8 * 2 then bit v (x - 8 * (2 * j)) else gbit m x)" for x
    by (rule gbit_store) simp
  show "bit (unaligned_load_u16 (unaligned_store_u16 m (2 * int j) v) (2 * int i)) k
    = bit (if i = j then v else unaligned_load_u16 m (2 * int i)) k"
    unfolding unaligned_load_u16_def unaligned_store_u16_def a g bit_load_gbit if_distrib [of "\<lambda>w. bit w k"]
    using k by auto
qed

lemma range_entry_set [simp]: "range_entry (set_range_entry m j v) i = (if i = j then v else range_entry m i)"
  by (simp add: range_entry_def set_range_entry_def load_store_u16)

lemma length_range_list [simp]: "length (range_list xs m) = unat (range_num xs)"
  by (simp add: range_list_def)

lemma nth_range_list:
  "i < unat (range_num xs) \<Longrightarrow> range_list xs m ! i = unat (range_offset xs) + unat (range_entry m i)"
  by (simp add: range_list_def)

lemma range_top:
  assumes "i < unat (range_num xs)" "in_stream (range_list xs m ! i)"
  shows "unat (range_offset xs + ucast (range_entry m i)) = range_list xs m ! i"
  using assms unat_add_small [of "range_offset xs" "ucast (range_entry m i)"]
  by (simp add: nth_range_list unat_widen in_stream_def)

lemma range_diff:
  assumes "i < unat (range_num xs)" "in_stream (unat p)" "range_list xs m ! i \<le> unat p"
  shows "unat (p - (range_offset xs + ucast (range_entry m i))) = unat p - range_list xs m ! i"
  using range_top [OF assms(1) in_stream_le [OF assms(2,3)]] assms(3)
    unat_sub [of "range_offset xs + ucast (range_entry m i)" p]
  by (simp add: word_le_nat_alt)

lemma range_invD:
  assumes "range_inv info xs m"
  shows "0 < unat (range_num xs)" "hd (range_list xs m) = unat (range_offset xs)" "sorted_wrt (<) (range_list xs m)"
    "range_list xs m ! (unat (range_num xs) - 1) = last (range_list xs m)" "range_list xs m \<noteq> []"
    "last (range_list xs m) \<le> unat (range_offset xs) + unat (repeatMax info)"
    "\<forall>i. i + 2 < unat (range_num xs)
      \<longrightarrow> unat (repeatMax info) - unat (repeatMin info) < range_list xs m ! (i + 2) - range_list xs m ! i"
proof -
  show ne: "range_list xs m \<noteq> []" using assms by (simp add: range_inv_def list_inv_def)
  then show "0 < unat (range_num xs)" unfolding length_range_list [symmetric, of xs m] by blast
  show "range_list xs m ! (unat (range_num xs) - 1) = last (range_list xs m)"
    using ne by (simp add: last_conv_nth)
qed (use assms in \<open>auto simp: range_inv_def list_inv_def\<close>)

lemma last_Max:
  fixes L :: "nat list"
  assumes "sorted_wrt (<) L" "L \<noteq> []"
  shows "last L = Max (set L)"
proof -
  have "x \<le> last L" if "x \<in> set L" for x
    using that assms append_butlast_last_id [OF assms(2)]
    by (metis UnE empty_iff insert_iff less_imp_le list.set(1,2) order_refl set_append sorted_wrt_append)
  then show ?thesis using assms(2) by (intro Max_eqI [symmetric]) auto
qed

lemma next_match_range_loop_spec:
  assumes "bounds_ok info" "repeatMax info \<noteq> REPEAT_INF" "range_inv info xs m" "in_stream (unat p)"
    "\<forall>t \<in> set (range_list xs m). t \<le> unat p"
  shows "unat (next_match_range_loop info xs m p i) = rep_next info (set (drop i (range_list xs m))) (unat p)"
proof (induction "unat (range_num xs) - i" arbitrary: i rule: less_induct)
  case less
  define L where "L = range_list xs m"
  show ?case
  proof (cases "i < unat (range_num xs)")
    case False
    then show ?thesis by (simp add: next_match_range_loop.simps rep_next_none)
  next
    case True
    then have i: "i < length L" by (simp add: L_def)
    then have "L ! i \<le> unat p" using assms(5) L_def by simp
    then have str: "in_stream (L ! i)" using assms(4) in_stream_le by blast
    define base where "base = range_offset xs + ucast (range_entry m i)"
    have base: "unat base = L ! i" unfolding base_def L_def by (rule range_top [OF True str [unfolded L_def]])
    note bd = bounds_okD(1,2) [OF assms(1)]
    have sums: "unat (base + ucast (repeatMin info)) = L ! i + unat (repeatMin info)"
        "unat (base + ucast (repeatMax info)) = L ! i + unat (repeatMax info)"
      using unat_plus_u32 [of base] base str bd by simp_all
    have rest: "drop i L = L ! i # drop (Suc i) L" using i by (simp add: Cons_nth_drop_Suc)
    have "sorted_wrt (<) (drop i L)" using range_invD(3) [OF assms(3)] by (simp add: L_def sorted_wrt_drop)
    then have "\<forall>u \<in> set (drop (Suc i) L). L ! i < u" by (simp add: rest)
    then have "rep_next info (set (drop i L)) (unat p) = (if unat p < L ! i + unat (repeatMin info)
        then L ! i + unat (repeatMin info) else if unat p < L ! i + unat (repeatMax info) then unat p + 1
        else rep_next info (set (drop (Suc i) L)) (unat p))"
      using rep_next_insert [OF assms(1,2)] by (simp add: rest)
    moreover have "unat (next_match_range_loop info xs m p (Suc i)) = rep_next info (set (drop (Suc i) L)) (unat p)"
      unfolding L_def by (rule less.hyps) (use True in simp)
    moreover have "next_match_range_loop info xs m p i = (if p < base + ucast (repeatMin info)
        then base + ucast (repeatMin info) else if p < base + ucast (repeatMax info) then p + 1
        else next_match_range_loop info xs m p (Suc i))"
      using True by (subst next_match_range_loop.simps) (simp add: base_def Let_def)
    ultimately show ?thesis
      using unat_Suc_stream [OF assms(4)] by (simp add: L_def [symmetric] word_less_nat_alt sums)
  qed
qed

lemma has_match_range_loop_spec:
  assumes "in_stream (unat p)" "\<forall>t \<in> set (range_list xs m). t \<le> unat p" "repeatMax info \<noteq> REPEAT_INF"
    "cnt \<le> unat (range_num xs)"
  shows "has_match_range_loop info xs m p cnt i =
    (if rep_match info (set (drop i (take cnt (range_list xs m)))) (unat p) then REPEAT_MATCH else REPEAT_NOMATCH)"
proof (induction "cnt - i" arbitrary: i rule: less_induct)
  case less
  define L where "L = range_list xs m"
  show ?case
  proof (cases "i < cnt")
    case False
    then show ?thesis by (simp add: has_match_range_loop.simps)
  next
    case True
    then have i: "i < unat (range_num xs)" "i < length (take cnt L)" using assms(4) by (simp_all add: L_def)
    then have le: "L ! i \<le> unat p" using assms(2) L_def by simp
    have diff: "unat (p - (range_offset xs + ucast (range_entry m i))) = unat p - L ! i"
      unfolding L_def by (rule range_diff [OF i(1) assms(1)]) (use le L_def in simp)
    have rest: "drop i (take cnt L) = L ! i # drop (Suc i) (take cnt L)"
      using i(2) True by (simp add: Cons_nth_drop_Suc [symmetric])
    have "has_match_range_loop info xs m p cnt (Suc i) =
        (if rep_match info (set (drop (Suc i) (take cnt L))) (unat p) then REPEAT_MATCH else REPEAT_NOMATCH)"
      unfolding L_def by (rule less.hyps) (use True in simp)
    then show ?thesis
      unfolding L_def [symmetric] rest using True assms(3) le
      by (subst has_match_range_loop.simps) (auto simp: word_le_nat_alt diff Let_def)
  qed
qed

lemma range_has_match:
  assumes "bounds_ok info" "repeatMax info \<noteq> REPEAT_INF" "range_inv info xs m" "in_stream (unat p)"
    "\<forall>t \<in> set (range_list xs m). t \<le> unat p"
  shows "repeatHasMatchRange info xs m p = rep_answer info (set (range_list xs m)) (unat p)"
proof -
  define L where "L = range_list xs m"
  define n where "n = unat (range_num xs)"
  note I = range_invD [OF assms(3), folded L_def n_def]
  note bd = bounds_okD(1,2) [OF assms(1)]
  have Mx: "Max (set L) = last L" using last_Max [OF I(3,5)] by simp
  have le: "\<forall>t \<in> set L. t \<le> unat p" using assms(5) by (simp add: L_def)
  have split: "set L = insert (last L) (set (take (n - 1) L))"
  proof -
    have "take (n - 1) L = butlast L" by (simp add: n_def L_def butlast_conv_take)
    then show ?thesis using append_butlast_last_id [OF I(5)] by (metis Un_insert_right list.set(1,2) set_append sup_bot_right)
  qed
  have first: "unat (range_offset xs) \<le> t" if "t \<in> set L" for t
    using I(2,3,5) that by (cases L) auto
  have off: "unat (range_offset xs) \<le> unat p" using le I(2,5) by (metis hd_in_set)
  have diff: "unat (p - (range_offset xs + ucast (range_entry m (n - 1)))) = unat p - last L"
    unfolding n_def using range_diff [of "unat (range_num xs) - 1" xs p m] assms(4) le I(1,4,5)
    by (simp add: L_def n_def)
  have diff0: "unat (p - range_offset xs) = unat p - unat (range_offset xs)"
    using off unat_sub [of "range_offset xs" p] by (simp add: word_le_nat_alt)
  have loop: "has_match_range_loop info xs m p (n - 1) 0
      = (if rep_match info (set (take (n - 1) L)) (unat p) then REPEAT_MATCH else REPEAT_NOMATCH)"
    using has_match_range_loop_spec [OF assms(4,5,2), of "n - 1" 0] by (simp add: L_def n_def)
  have ans: "rep_answer info (set L) (unat p) = (if rep_match info (set L) (unat p) then REPEAT_MATCH
      else if unat p \<le> last L + unat (repeatMax info) then REPEAT_NOMATCH else REPEAT_STALE)"
    using rep_answer_recent [OF _ _ le bounds_okD(3) [OF assms(1)]] I(5) assms(2) Mx by simp
  have too_early: "\<not> rep_match info (set L) (unat p)" if "unat p - unat (range_offset xs) < unat (repeatMin info)"
    using that first by (force simp: rep_match_def)
  have too_late: "\<not> rep_match info (set L) (unat p)" if "last L + unat (repeatMax info) < unat p"
    using that assms(2) Max_ge [of "set L", unfolded Mx] by (fastforce simp: rep_match_def)
  have lastp: "last L \<le> unat p" "unat (range_offset xs) \<le> last L" using le I(5) first by auto
  show ?thesis
  proof (cases "unat p - unat (range_offset xs) < unat (repeatMin info)")
    case True
    then show ?thesis
      using too_early bd lastp ans by (auto simp: repeatHasMatchRange_def word_less_nat_alt diff0 L_def)
  next
    case False
    have "repeatHasMatchRange info xs m p = (if last L + unat (repeatMax info) < unat p then REPEAT_STALE
        else if rep_match info (set L) (unat p) then REPEAT_MATCH else REPEAT_NOMATCH)"
      unfolding repeatHasMatchRange_def Let_def n_def [symmetric] word_less_nat_alt word_le_nat_alt diff diff0
        unat_u32 loop split
      using False assms(2) lastp(1) by auto
    then show ?thesis using ans too_late by (auto simp: L_def)
  qed
qed

section \<open>The store\<close>

lemma count_stale_spec:
  assumes "in_stream (unat p)" "\<forall>t \<in> set (range_list xs m). t \<le> unat p"
  shows "count_stale info xs m p i =
    (if i < unat (range_num xs)
     then i + length (takeWhile (\<lambda>t. unat (repeatMax info) < unat p - t) (drop i (range_list xs m))) else i)"
proof (induction "unat (range_num xs) - i" arbitrary: i rule: less_induct)
  case less
  show ?case
  proof (cases "i < unat (range_num xs)")
    case True
    then have le: "range_list xs m ! i \<le> unat p" using assms(2) by simp
    have rest: "drop i (range_list xs m) = range_list xs m ! i # drop (Suc i) (range_list xs m)"
      using True by (simp add: Cons_nth_drop_Suc)
    have "count_stale info xs m p (Suc i) =
      (if Suc i < unat (range_num xs) then Suc i +
       length (takeWhile (\<lambda>t. unat (repeatMax info) < unat p - t) (drop (Suc i) (range_list xs m))) else Suc i)"
      by (rule less.hyps) (use True in simp)
    then show ?thesis
      using True unfolding rest
      by (subst count_stale.simps) (simp add: Let_def word_le_nat_alt range_diff [OF True assms(1) le] not_less)
  qed (simp add: count_stale.simps)
qed

lemma shift_entries:
  "0 < i \<Longrightarrow> range_entry (foldl (\<lambda>m j. let val = range_entry m (i + j) in set_range_entry m j (val - f)) m [0..<n]) k
    = (if k < n then range_entry m (i + k) - f else range_entry m k)"
  by (induction n arbitrary: k) (auto simp: Let_def less_Suc_eq)

lemma unat_of_nat_num: "i \<le> unat (w :: 'a::len word) \<Longrightarrow> unat (of_nat i :: 'a word) = i"
  by (metis le_less_trans of_nat_inverse unsigned_less)

lemma expire_range_list:
  assumes "0 < i" "i < unat (range_num xs)" "sorted_wrt (<) (range_list xs m)"
    "range_list xs m ! i < 2 ^ 64"
  shows "range_list (fst (expire_range xs m i)) (snd (expire_range xs m i)) = drop i (range_list xs m)"
    "unat (range_num (fst (expire_range xs m i))) = unat (range_num xs) - i"
    "unat (range_offset (fst (expire_range xs m i))) = range_list xs m ! i"
proof -
  define xs' where "xs' = fst (expire_range xs m i)"
  define m' where "m' = snd (expire_range xs m i)"
  have num: "unat (range_num xs') = unat (range_num xs) - i"
    using assms(2) unat_of_nat_num [of i "range_num xs"] unat_sub [of "of_nat i" "range_num xs"]
    by (simp add: xs'_def expire_range_def Let_def word_le_nat_alt)
  have off: "unat (range_offset xs') = range_list xs m ! i"
    using assms(2,4) unat_add_small [of "range_offset xs" "ucast (range_entry m i)"]
    by (simp add: xs'_def expire_range_def Let_def unat_widen nth_range_list)
  have "range_list xs' m' = drop i (range_list xs m)"
  proof (rule nth_equalityI)
    fix k assume "k < length (range_list xs' m')"
    then have k: "k < unat (range_num xs) - i" by (simp add: num)
    have "range_list xs m ! i \<le> range_list xs m ! (i + k)"
    proof (cases k)
      case (Suc j)
      have "i + k < length (range_list xs m)" using k by auto
      then show ?thesis using sorted_wrt_nth_less [OF assms(3), of i "i + k"] Suc by simp
    qed simp
    then have "range_entry m i \<le> range_entry m (i + k)" using k by (simp add: nth_range_list word_le_nat_alt)
    then have "unat (range_entry m (i + k) - range_entry m i) = unat (range_entry m (i + k)) - unat (range_entry m i)"
      by (rule unat_sub)
    moreover have "range_entry m' k = range_entry m (i + k) - range_entry m i"
      unfolding m'_def expire_range_def Let_def snd_conv
      using k by (simp add: shift_entries [OF assms(1), unfolded Let_def])
    ultimately have "range_list xs' m' ! k = range_list xs m ! i + (unat (range_entry m (i + k)) - unat (range_entry m i))"
      using k num by (simp add: nth_range_list off)
    moreover have "unat (range_entry m i) \<le> unat (range_entry m (i + k))"
      using \<open>range_entry m i \<le> range_entry m (i + k)\<close> by (simp add: word_le_nat_alt)
    ultimately show "range_list xs' m' ! k = drop i (range_list xs m) ! k"
      using k by (simp add: nth_range_list)
  qed (simp add: num)
  then show "range_list (fst (expire_range xs m i)) (snd (expire_range xs m i)) = drop i (range_list xs m)"
    "unat (range_num (fst (expire_range xs m i))) = unat (range_num xs) - i"
    "unat (range_offset (fst (expire_range xs m i))) = range_list xs m ! i"
    using num off by (simp_all add: xs'_def m'_def)
qed

text \<open>The list operation keeps the order, the span and the gaps, and the answers from \<open>p\<close> on.\<close>

lemma list_inv_drop:
  assumes "list_inv info L" "i < length L"
  shows "list_inv info (drop i L)"
proof -
  have sorted: "sorted_wrt (<) (drop i L)" using assms(1) by (simp add: list_inv_def sorted_wrt_drop)
  have "hd L \<le> hd (drop i L)"
  proof (cases i)
    case (Suc j)
    then show ?thesis
      using assms sorted_wrt_nth_less [of "(<)" L 0 i] by (simp add: list_inv_def hd_drop_conv_nth hd_conv_nth)
  qed simp
  then show ?thesis using assms sorted by (auto simp: list_inv_def add.commute add.left_commute)
qed

lemma live_tops:
  fixes mx p :: nat
  assumes "sorted_wrt (<) L" "\<forall>t \<in> set L. t < p"
  defines "live \<equiv> dropWhile (\<lambda>t. mx < p - t) L"
  shows "\<forall>t \<in> set L - set live. t + mx < p" "\<forall>t \<in> set live. p \<le> t + mx"
proof -
  have L: "L = takeWhile (\<lambda>t. mx < p - t) L @ live" by (simp add: live_def)
  then have "set L = set (takeWhile (\<lambda>t. mx < p - t) L) \<union> set live" by (metis set_append)
  then show "\<forall>t \<in> set L - set live. t + mx < p" by (auto dest!: set_takeWhileD)
  show "\<forall>t \<in> set live. p \<le> t + mx"
  proof (cases live)
    case (Cons a as)
    then have "\<not> mx < p - a" using hd_dropWhile [of "\<lambda>t. mx < p - t" L] by (auto simp: live_def)
    moreover have "sorted_wrt (<) live" using assms(1) L by (metis sorted_wrt_append)
    ultimately show ?thesis using Cons by auto
  qed simp
qed

lemma list_inv_snoc:
  assumes "L = [] \<or> list_inv info L" "\<forall>t \<in> set L. t < p" "\<forall>t \<in> set L. p \<le> t + unat (repeatMax info)"
    "length L \<le> 1 \<or> unat (repeatMax info) - unat (repeatMin info) < p - L ! (length L - 2)"
  shows "list_inv info (L @ [p])"
proof -
  have "sorted_wrt (<) (L @ [p])" using assms(1,2) by (auto simp: list_inv_def sorted_wrt_append)
  moreover have "p \<le> hd (L @ [p]) + unat (repeatMax info)" using assms(3) by (cases L) auto
  moreover have "unat (repeatMax info) - unat (repeatMin info) < (L @ [p]) ! (i + 2) - (L @ [p]) ! i"
    if i: "i + 2 < length (L @ [p])" for i
  proof (cases "i + 2 = length L")
    case True
    then have "(L @ [p]) ! (i + 2) = p" "(L @ [p]) ! i = L ! (length L - 2)"
      by (simp add: nth_append) (use True in \<open>simp add: nth_append flip: True\<close>)
    then show ?thesis using assms(4) True by auto
  next
    case False
    then have "i + 2 < length L" using i by simp
    then show ?thesis using assms(1) by (auto simp: list_inv_def nth_append)
  qed
  ultimately show ?thesis by (simp add: list_inv_def)
qed

lemma list_store_inv:
  assumes "list_inv info L" "\<forall>t \<in> set L. t < p"
  shows "list_inv info (list_store info L p)"
proof -
  define live where "live = dropWhile (\<lambda>t. unat (repeatMax info) < p - t) L"
  have sorted: "sorted_wrt (<) L" using assms(1) by (simp add: list_inv_def)
  note lv = live_tops [OF sorted assms(2), of "unat (repeatMax info)", folded live_def]
  have "live = drop (length (takeWhile (\<lambda>t. unat (repeatMax info) < p - t) L)) L"
    by (simp add: live_def dropWhile_eq_drop)
  then have inv: "list_inv info live" if "live \<noteq> []" using that list_inv_drop [OF assms(1)] by force
  have below: "\<forall>t \<in> set live. t < p" using assms(2) set_dropWhileD by (fastforce simp: live_def)
  define d where "d = unat (repeatMax info) - unat (repeatMin info)"
  consider "live = []" | (replace) "live \<noteq> []" "length live \<noteq> 1" "p - live ! (length live - 2) \<le> d"
    | (add) "live \<noteq> []" "length live = 1 \<or> d < p - live ! (length live - 2)" by linarith
  then show ?thesis
  proof cases
    case 1
    then show ?thesis by (simp add: list_store_def live_def [symmetric] list_inv_def)
  next
    case replace
    define n where "n = length live"
    have "n \<noteq> 0" "n \<noteq> 1" using replace(1,2) unfolding n_def length_0_conv by blast+
    then have n: "2 \<le> n" "length (butlast live) = n - 1" unfolding length_butlast n_def by linarith+
    have bl: "butlast live ! i = live ! i" if "i < n - 1" for i using that by (simp add: n_def nth_butlast)
    have last: "last live = live ! (n - 1)" using replace(1) by (simp add: n_def last_conv_nth)
    have "last live < p" using below replace(1) by simp
    have I: "sorted_wrt (<) live" "last live \<le> hd live + unat (repeatMax info)"
        "\<And>i. i + 2 < n \<Longrightarrow> d < live ! (i + 2) - live ! i"
      using inv [OF replace(1)] by (auto simp: list_inv_def n_def d_def)
    have split: "live = butlast live @ [last live]" using replace(1) by simp
    have sorted': "sorted_wrt (<) (butlast live)" using I(1) split by (metis sorted_wrt_append)
    have ne: "butlast live \<noteq> []" unfolding length_0_conv [symmetric] n(2) using n(1) by simp
    have "last (butlast live) \<le> last live"
      using I(1) split ne by (metis last_in_set less_imp_le list.set_intros(1) sorted_wrt_append)
    moreover have "hd (butlast live) = hd live" using split ne by (metis hd_append2)
    ultimately have "list_inv info (butlast live)"
      unfolding list_inv_def
    proof (intro conjI allI impI)
      fix i assume "i + 2 < length (butlast live)"
      then show "unat (repeatMax info) - unat (repeatMin info) < butlast live ! (i + 2) - butlast live ! i"
        using I(3) [of i] bl [of i] bl [of "i + 2"] n(2) by (simp add: d_def)
    qed (use ne sorted' I(2) in auto)
    moreover have "d < p - butlast live ! (length (butlast live) - 2)" if "\<not> length (butlast live) \<le> 1"
    proof -
      have "n - 3 + 2 < n" "n - 3 < n - 1" "n - 3 + 2 = n - 1" using that n by auto
      then have "d < live ! (n - 1) - live ! (n - 3)" "butlast live ! (n - 3) = live ! (n - 3)"
        using I(3) [of "n - 3"] bl [of "n - 3"] by simp_all
      moreover have at: "length (butlast live) - 2 = n - 3" using n(2) by simp
      ultimately show ?thesis unfolding at using \<open>last live < p\<close> last by linarith
    qed
    moreover have "set (butlast live) \<subseteq> set live" by (meson in_set_butlastD subsetI)
    ultimately have "list_inv info (butlast live @ [p])"
      using below lv(2) by (intro list_inv_snoc) (auto simp: d_def)
    then show ?thesis using replace by (simp add: list_store_def live_def [symmetric] d_def)
  next
    case add
    then have "list_inv info (live @ [p])"
      using inv below lv(2) by (intro list_inv_snoc) (auto simp: d_def)
    then show ?thesis using add by (auto simp: list_store_def live_def [symmetric] d_def)
  qed
qed

lemma list_store_same:
  assumes "list_inv info L" "\<forall>t \<in> set L. t < p" "bounds_ok info" "repeatMax info \<noteq> REPEAT_INF"
  shows "rep_same info p (set (list_store info L p)) (insert p (set L))"
proof -
  define mx where "mx = unat (repeatMax info)"
  define live where "live = dropWhile (\<lambda>t. mx < p - t) L"
  have sorted: "sorted_wrt (<) L" using assms(1) by (simp add: list_inv_def)
  note lv = live_tops [OF sorted assms(2), of mx, folded live_def]
  have sub: "set live \<subseteq> set L" using set_dropWhileD by (fastforce simp: live_def)
  have forget: "rep_same info p (insert p (set live)) (insert p (set L))"
    by (rule rep_same_forget [OF assms(4)]) (use sub lv(1) in \<open>auto simp: mx_def\<close>)
  have keep: "rep_same info p (set (butlast live @ [p])) (insert p (set live))"
    if ne: "live \<noteq> []" "length live \<noteq> 1" and close: "p - live ! (length live - 2) \<le> mx - unat (repeatMin info)"
  proof -
    define y where "y = live ! (length live - 2)"
    have split: "live = butlast live @ [last live]" using ne(1) by simp
    have len: "2 \<le> length live" using ne by (simp add: Suc_le_eq numeral_2_eq_2 nat_neq_iff)
    then have at: "length live - 2 < length (butlast live)" by simp
    then have y: "y = butlast live ! (length live - 2)" "y \<in> set (butlast live)"
      using nth_mem [OF at] by (simp_all add: y_def nth_butlast)
    have "sorted_wrt (<) live" using sorted by (metis live_def dropWhile_eq_drop sorted_wrt_drop)
    then have "y < last live" using y(2) split by (metis list.set_intros(1) sorted_wrt_append)
    moreover have "last live < p" using sub last_in_set [OF ne(1)] assms(2) by blast
    ultimately have ord: "y < last live" "last live < p" "p - y \<le> mx - unat (repeatMin info)"
      using close by (simp_all add: y_def)
    have "rep_match info (set (butlast live @ [p])) q" if q: "p \<le> q" "rep_match info (insert p (set live)) q" for q
    proof -
      obtain t where t: "t = p \<or> t \<in> set live" "t + unat (repeatMin info) \<le> q" "q \<le> t + mx"
        using q(2) assms(4) by (auto simp: rep_match_def mx_def)
      have "set live = insert (last live) (set (butlast live))" using split by (metis Un_insert_right list.set(1,2) set_append sup_bot_right)
      then consider "t = p \<or> t \<in> set (butlast live)" | "t = last live" using t(1) by auto
      then show ?thesis
      proof cases
        case 1
        then show ?thesis using t(2,3) by (auto simp: rep_match_def mx_def)
      next
        case 2
        show ?thesis
        proof (cases "q \<le> y + mx")
          case True
          then show ?thesis using y(2) t(2) 2 ord(1) by (auto simp: rep_match_def mx_def intro!: bexI [of _ y])
        next
          case False
          then have "p + unat (repeatMin info) \<le> q" "q \<le> p + mx"
            using ord t(3) 2 bounds_okD(1) [OF assms(3)] by (simp_all add: mx_def)
          then show ?thesis by (auto simp: rep_match_def mx_def)
        qed
      qed
    qed
    moreover have "rep_match info (insert p (set live)) q" if "rep_match info (set (butlast live @ [p])) q" for q
      using that by (auto simp: rep_match_def dest: in_set_butlastD)
    ultimately show ?thesis by (auto simp: rep_same_def)
  qed
  have "rep_same info p (set (list_store info L p)) (insert p (set live))"
    using keep by (auto simp: list_store_def Let_def live_def [symmetric] mx_def [symmetric])
  then show ?thesis using forget rep_same_trans by blast
qed

text \<open>The number of tops: two steps in the list span more than \<open>d\<close>.\<close>

lemma list_inv_length:
  assumes "list_inv info L"
  shows "length L \<le> 2 * (unat (repeatMax info) div (unat (repeatMax info) - unat (repeatMin info) + 1) + 1)"
proof -
  define e where "e = unat (repeatMax info) - unat (repeatMin info) + 1"
  have step: "L ! 0 + k * e \<le> L ! (2 * k)" if "2 * k < length L" for k
    using that
  proof (induction k)
    case (Suc k)
    have "unat (repeatMax info) - unat (repeatMin info) < L ! (2 * k + 2) - L ! (2 * k)"
      using assms Suc.prems by (simp add: list_inv_def)
    then show ?case using Suc by (auto simp: e_def)
  qed simp
  define k where "k = (length L - 1) div 2"
  have ne: "L \<noteq> []" using assms by (simp add: list_inv_def)
  have k: "2 * k < length L" "length L \<le> 2 * k + 2" unfolding k_def using ne by (cases L; simp)+
  have "L ! (2 * k) \<le> last L"
  proof (cases "2 * k = length L - 1")
    case False
    then have "2 * k < length L - 1" using k(1) by linarith
    then show ?thesis
      using k(1) ne assms sorted_wrt_nth_less [of "(<)" L "2 * k" "length L - 1"]
      by (simp add: list_inv_def last_conv_nth)
  qed (use ne in \<open>simp add: last_conv_nth\<close>)
  then have "k * e \<le> unat (repeatMax info)"
    using step [OF k(1)] assms by (auto simp: list_inv_def hd_conv_nth)
  then have "k \<le> unat (repeatMax info) div e" by (simp add: e_def less_eq_div_iff_mult_less_eq)
  then show ?thesis using k(2) by (simp add: e_def)
qed

lemma rangeListCapacity_unat:
  assumes "range_ok info"
  shows "unat (rangeListCapacity info)
    = 2 * (unat (repeatMax info) div (unat (repeatMax info) - unat (repeatMin info)) + 1)"
proof -
  have le: "repeatMin info \<le> repeatMax info" "unat (repeatMax info) < 65535"
    using assms by (auto simp: range_ok_def REPEAT_INF_def word_less_nat_alt word_le_nat_alt)
  define q where "q = repeatMax info div (repeatMax info - repeatMin info)"
  have q: "unat q = unat (repeatMax info) div (unat (repeatMax info) - unat (repeatMin info))"
    using unat_sub [OF le(1)] by (simp add: q_def unat_div)
  then have "unat q \<le> unat (repeatMax info)" by (simp add: div_le_dividend)
  then have "unat (2 * (q + 1)) = 2 * (unat q + 1)"
    using le(2) unat_add_lem [of q 1] unat_mult_lem [of 2 "q + 1"] by simp
  then show ?thesis by (simp add: rangeListCapacity_def q_def [symmetric] q)
qed

lemma range_inv_capacity:
  assumes "range_ok info" "list_inv info L"
  shows "length L \<le> unat (rangeListCapacity info)" "length L \<le> 16"
proof -
  define mx where "mx = unat (repeatMax info)"
  define d where "d = mx - unat (repeatMin info)"
  have "0 < d" using assms(1) by (simp add: range_ok_def d_def mx_def word_less_nat_alt)
  then have "mx div (d + 1) \<le> mx div d" by (intro div_le_mono2) auto
  then show *: "length L \<le> unat (rangeListCapacity info)"
    using list_inv_length [OF assms(2)] rangeListCapacity_unat [OF assms(1)] by (simp add: d_def mx_def)
  show "length L \<le> 16" using * assms(1) by (simp add: range_ok_def REPEAT_RANGE_MAX_SLOTS_def word_le_nat_alt)
qed

lemma set_last_list:
  assumes "0 < unat (range_num xs)"
  shows "range_list xs (set_range_entry m (unat (range_num xs) - 1) v)
    = butlast (range_list xs m) @ [unat (range_offset xs) + unat v]"
proof (rule nth_equalityI)
  fix i assume "i < length (range_list xs (set_range_entry m (unat (range_num xs) - 1) v))"
  then show "range_list xs (set_range_entry m (unat (range_num xs) - 1) v) ! i
      = (butlast (range_list xs m) @ [unat (range_offset xs) + unat v]) ! i"
    by (auto simp: nth_range_list nth_append nth_butlast)
qed (use assms in simp)

lemma append_list:
  assumes "unat (range_num xs) < 255" "in_stream (unat p)" "unat (range_offset xs) \<le> unat p"
    "unat p - unat (range_offset xs) < 65536"
  shows "range_list (fst (append_range xs m p)) (snd (append_range xs m p)) = range_list xs m @ [unat p]"
proof -
  have num: "unat (range_num xs + 1) = unat (range_num xs) + 1"
    using assms(1) unat_add_lem [of "range_num xs" 1] by simp
  have "unat (p - range_offset xs) = unat p - unat (range_offset xs)"
    using assms(3) unat_sub by (simp add: word_le_nat_alt)
  then have "unat (ucast (p - range_offset xs) :: u16) = unat p - unat (range_offset xs)"
    using assms(4) by (simp add: unsigned_ucast_eq take_bit_nat_eq_self)
  then show ?thesis
    using assms(3) by (auto simp: append_range_def range_list_def num)
qed

lemma range_store_alive:
  assumes "range_ok info" "range_inv info xs m" "in_stream (unat p)" "\<forall>t \<in> set (range_list xs m). t < unat p"
  defines "r \<equiv> repeatStoreRange info xs m p True"
  shows "range_inv info (fst r) (snd r)
    \<and> range_list (fst r) (snd r) = list_store info (range_list xs m) (unat p)"
proof -
  define L where "L = range_list xs m"
  define mx where "mx = unat (repeatMax info)"
  define i where "i = length (takeWhile (\<lambda>t. mx < unat p - t) L)"
  have inv: "list_inv info L" using assms(2) by (simp add: range_inv_def L_def)
  note I = range_invD [OF assms(2), folded L_def]
  have below: "\<forall>t \<in> set L. t < unat p" using assms(4) by (simp add: L_def)
  have mx: "mx < 65535" using assms(1) by (simp add: range_ok_def mx_def word_less_nat_alt REPEAT_INF_def)
  have live: "dropWhile (\<lambda>t. mx < unat p - t) L = drop i L" by (simp add: i_def dropWhile_eq_drop)
  have cnt: "count_stale info xs m p 0 = i"
    using count_stale_spec [OF assms(3), of xs m info 0] assms(4) I(1) by (simp add: i_def L_def mx_def less_imp_le)
  show ?thesis
  proof (cases "i = unat (range_num xs)")
    case True
    then have "drop i L = []" by (simp add: L_def)
    then have "list_store info L (unat p) = [unat p]" by (simp add: list_store_def live [unfolded mx_def])
    moreover have "r = storeInitialRangeTop xs m p" by (simp add: r_def repeatStoreRange_def cnt True)
    ultimately show ?thesis
      by (simp add: storeInitialRangeTop_def range_inv_def range_list_def list_inv_def L_def)
  next
    case False
    then have i: "i < unat (range_num xs)" "i < length L"
      using length_takeWhile_le [of "\<lambda>t. mx < unat p - t" L] by (simp_all add: i_def L_def)
    have str: "L ! i < unat p" using below i(2) by simp
    define live_s where "live_s = (if 0 < i then expire_range xs m i else (xs, m))"
    obtain xs' m' where s': "live_s = (xs', m')" by fastforce
    have "range_list xs' m' = drop i L \<and> unat (range_offset xs') = L ! i
        \<and> unat (range_num xs') = unat (range_num xs) - i"
    proof (cases "0 < i")
      case True
      have "range_list xs m ! i < 2 ^ 64" using str assms(3) by (simp add: in_stream_def L_def)
      then show ?thesis
        using expire_range_list [OF True i(1) I(3) [unfolded L_def]] s' True by (simp add: live_s_def L_def)
    next
      case False
      then show ?thesis using s' I(2,5) by (simp add: live_s_def L_def hd_conv_nth)
    qed
    then have l': "range_list xs' m' = drop i L" "unat (range_offset xs') = L ! i"
      "unat (range_num xs') = length (drop i L)" by (simp_all add: L_def)
    have linv: "list_inv info (drop i L)" by (rule list_inv_drop [OF inv i(2)])
    have near: "unat p - L ! i \<le> mx"
    proof -
      have "\<forall>t \<in> set (drop i L). unat p \<le> t + mx"
        using live_tops(2) [OF I(3), of "unat p" mx] below by (simp add: live)
      moreover have "L ! i \<in> set (drop i L)" using i(2) by (metis hd_drop_conv_nth hd_in_set drop_eq_Nil not_le)
      ultimately show ?thesis by force
    qed
    have n255: "unat (range_num xs') < 255" using range_inv_capacity(2) [OF assms(1) linv] l'(3) by simp
    have low: "unat (ucast (p - range_offset xs') :: u16) = unat p - L ! i"
    proof -
      have "unat (p - range_offset xs') = unat p - L ! i"
        using str l'(2) unat_sub [of "range_offset xs'" p] by (simp add: word_le_nat_alt)
      then show ?thesis using near mx by (simp add: unsigned_ucast_eq take_bit_nat_eq_self)
    qed
    have app: "range_list (fst (append_range xs' m' p)) (snd (append_range xs' m' p)) = drop i L @ [unat p]"
      using append_list [OF n255 assms(3), of m'] l' str near mx by simp
    have r: "r = (if range_num xs' = 1 then append_range xs' m' p
        else if p - (range_offset xs' + ucast (range_entry m' (unat (range_num xs') - 2)))
              \<le> ucast (repeatMax info - repeatMin info)
        then (xs', set_range_entry m' (unat (range_num xs') - 1) (ucast (p - range_offset xs')))
        else append_range xs' m' p)"
      using False s' unfolding r_def repeatStoreRange_def Let_def cnt live_s_def by simp
    define live where "live = drop i L"
    have ne: "live \<noteq> []" using i(2) by (simp add: live_def)
    have one: "range_num xs' = 1 \<longleftrightarrow> length live = 1"
      using l'(3) by (simp add: live_def word_unat_eq_iff)
    have pen: "unat (p - (range_offset xs' + ucast (range_entry m' (unat (range_num xs') - 2))))
        = unat p - live ! (length live - 2)" if "length live \<noteq> 1"
    proof -
      have "length live - 2 < length live" using ne by (cases live) auto
      then have "live ! (length live - 2) \<in> set live" by simp
      then have "live ! (length live - 2) \<le> unat p"
        using below by (simp add: live_def) (metis in_set_dropD less_imp_le)
      then show ?thesis
        using range_diff [of "length live - 2" xs' p m'] l' assms(3) \<open>length live - 2 < length live\<close>
        by (simp add: live_def)
    qed
    have spec: "list_store info L (unat p) =
        (if length live \<noteq> 1 \<and> unat p - live ! (length live - 2) \<le> mx - unat (repeatMin info)
         then butlast live @ [unat p] else live @ [unat p])"
      using ne by (simp add: list_store_def live mx_def [symmetric] live_def [symmetric] Let_def)
    have d: "unat (repeatMax info - repeatMin info) = mx - unat (repeatMin info)"
      using assms(1) unat_sub [of "repeatMin info" "repeatMax info"]
      by (simp add: range_ok_def mx_def word_le_nat_alt word_less_nat_alt)
    have "range_list (fst r) (snd r) = list_store info L (unat p) \<and> unat (range_offset (fst r)) = L ! i"
    proof (cases "length live \<noteq> 1 \<and> unat p - live ! (length live - 2) \<le> mx - unat (repeatMin info)")
      case True
      then have "r = (xs', set_range_entry m' (unat (range_num xs') - 1) (ucast (p - range_offset xs')))"
        using one pen d by (simp add: r word_le_nat_alt)
      then show ?thesis
        using True set_last_list [of xs' m' "ucast (p - range_offset xs')"] l' ne low str
        by (simp add: spec live_def)
    next
      case False
      then have "r = append_range xs' m' p" using one pen d by (auto simp: r word_le_nat_alt)
      then show ?thesis using False app l'(2) by (auto simp: spec live_def append_range_def)
    qed
    moreover have "hd (list_store info L (unat p)) = L ! i"
    proof -
      have "hd live = L ! i" using i(2) by (simp add: live_def hd_drop_conv_nth)
      moreover have "hd (butlast live @ [unat p]) = hd live" if "length live \<noteq> 1"
        using that ne by (cases live) auto
      ultimately show ?thesis using ne by (auto simp: spec)
    qed
    ultimately show ?thesis using list_store_inv [OF inv below] by (simp add: range_inv_def L_def [symmetric])
  qed
qed

interpretation rep_range: repeat_model info "range_ok info"
  "\<lambda>s p alive. Some (repeatStoreRange info (fst s) (snd s) p alive)"
  "\<lambda>s p. Some (repeatHasMatchRange info (fst s) (snd s) p)"
  "\<lambda>s p. Some (repeatNextMatchRange info (fst s) (snd s) p)" "\<lambda>s. repeatLastTopRange (fst s) (snd s)"
  "range_holds info"
  for info
proof (unfold_locales, goal_cases)
  case (1 p s)
  then show ?case
    by (simp add: repeatStoreRange_def storeInitialRangeTop_def range_holds_def range_inv_def range_list_def list_inv_def)
next
  case (2 p s C)
  then have s: "range_inv info (fst s) (snd s)" "C = set (range_list (fst s) (snd s))" by (auto simp: range_holds_def)
  note bd = range_ok_bounds [OF 2(1)]
  define r where "r = repeatStoreRange info (fst s) (snd s) p True"
  have r: "range_inv info (fst r) (snd r)"
    "range_list (fst r) (snd r) = list_store info (range_list (fst s) (snd s)) (unat p)"
    using range_store_alive [OF 2(1) s(1) 2(2)] 2(4) by (simp_all add: s(2) r_def)
  have inv: "list_inv info (range_list (fst s) (snd s))" using s(1) by (simp add: range_inv_def)
  have "set (range_list (fst r) (snd r)) \<subseteq> insert (unat p) C"
    unfolding r(2) list_store_def Let_def s(2) by (auto dest!: in_set_butlastD set_dropWhileD)
  then have "\<forall>t \<in> set (range_list (fst r) (snd r)). t \<le> unat p" using 2(4) by (force simp: less_imp_le)
  moreover have "rep_same info (unat p) (set (range_list (fst r) (snd r))) (insert (unat p) C)"
    unfolding r(2) s(2) by (rule list_store_same [OF inv _ bd]) (use 2(4) s(2) in blast)
  ultimately show ?case using r(1) by (auto simp: range_holds_def r_def)
next
  case (3 p s C)
  then show ?case
    using range_has_match [OF range_ok_bounds, of info "fst s" "snd s" p] by (simp add: range_holds_def)
next
  case (4 p s C)
  then show ?case
    using next_match_range_loop_spec [OF range_ok_bounds, of info "fst s" "snd s" p 0]
    by (simp add: range_holds_def repeatNextMatchRange_def)
next
  case (5 s C)
  then have s: "range_inv info (fst s) (snd s)" "C = set (range_list (fst s) (snd s))" by (auto simp: range_holds_def)
  note I = range_invD [OF s(1)]
  have "in_stream (last (range_list (fst s) (snd s)))" using 5(5) I(5) s(2) by simp
  then have "in_stream (range_list (fst s) (snd s) ! (unat (range_num (fst s)) - 1))" unfolding I(4) .
  then show ?case
    using range_top [of "unat (range_num (fst s)) - 1" "fst s" "snd s"] I(1,4) last_Max [OF I(3,5)]
    by (simp add: repeatLastTopRange_def s(2))
qed

end
