(* ===== verification/RepeatRing.thy ===== *)
theory RepeatRing
  imports Repeat MultibitKeys
begin

text \<open>
  The RING model of \<open>src/nfa/repeat.c\<close>: the tops are a multibit used as a ring of \<open>repeatMax + 1\<close> positions,
  from the index \<open>first\<close> (the offset of the control block) to the index \<open>last\<close>.
  The multibit starts at address 0 of the repeat state; its operations return an option because its walks are loops.
\<close>

section \<open>Operations\<close>

definition ringCapacity :: "RepeatInfo \<Rightarrow> u32" where
  "ringCapacity info = repeatMax info + 1"

definition ringOccupancy :: "RepeatRingControl \<Rightarrow> u32 \<Rightarrow> u32" where
  "ringOccupancy xs ringSize =
     (if ring_first xs < ring_last xs then ucast (ring_last xs) - ucast (ring_first xs)
      else ringSize - (ucast (ring_first xs) - ucast (ring_last xs)))"

definition ringLastTop :: "RepeatRingControl \<Rightarrow> u32 \<Rightarrow> u64a" where
  "ringLastTop xs ringSize = ring_offset xs + ucast (ringOccupancy xs ringSize) - 1"

definition repeatLastTopRing :: "RepeatInfo \<Rightarrow> RepeatRingControl \<Rightarrow> u64a" where
  "repeatLastTopRing info xs = (let ringSize = ringCapacity info in ringLastTop xs ringSize)"

definition repeatNextMatchRing :: "RepeatInfo \<Rightarrow> RepeatRingControl \<Rightarrow> mem \<Rightarrow> u64a \<Rightarrow> u64a option" where
  "repeatNextMatchRing info xs m offset =
     (let ringSize = ringCapacity info;
          offset = offset + 1;
          base_offset = ring_offset xs;
          delta = offset - base_offset
      in if offset < base_offset \<or> delta < ucast (repeatMin info) then Some (base_offset + ucast (repeatMin info))
         else if ringLastTop xs ringSize + ucast (repeatMax info) < offset then Some 0
         else let lower = (if ucast (repeatMax info) < delta then delta - ucast (repeatMax info) else 0);
                  begn = ucast (ucast (ring_first xs) + lower) :: u32;
                  begn = (if ringSize \<le> begn then begn - ringSize else begn);
                  endp = (if ucast (ring_last xs) \<le> begn then ringSize else ucast (ring_last xs))
              in Option.bind (mmbit_iterate_bounded m (unat ringSize) (unat begn) (unat endp)) (\<lambda>i.
                 if i \<noteq> MMB_INVALID
                 then let j = ucast (ucast (of_nat i - begn) + lower) :: u32
                      in Some (max offset (base_offset + ucast j + ucast (repeatMin info)))
                 else if ucast (ring_last xs) \<le> begn
                 then Option.bind (mmbit_iterate_bounded m (unat ringSize) 0 (unat (ring_last xs))) (\<lambda>i.
                      if i \<noteq> MMB_INVALID
                      then let j = ucast (ucast (of_nat i + (ringSize - begn)) + lower) :: u32
                           in Some (max offset (base_offset + ucast j + ucast (repeatMin info)))
                      else Some 0)
                 else Some 0))"

definition storeInitialRingTop :: "RepeatRingControl \<Rightarrow> mem \<Rightarrow> u64a \<Rightarrow> u32 \<Rightarrow> RepeatRingControl \<times> mem" where
  "storeInitialRingTop xs m offset ringSize =
     (let m = mmbit_clear m (unat ringSize);
          m = fst (mmbit_set m (unat ringSize) 0)
      in (xs\<lparr>ring_offset := offset, ring_first := 0, ring_last := 1\<rparr>, m))"

definition ringIsStale :: "RepeatRingControl \<Rightarrow> u32 \<Rightarrow> u64a \<Rightarrow> bool" where
  "ringIsStale xs ringSize offset = (let finalMatch = ringLastTop xs ringSize in ucast ringSize \<le> offset - finalMatch)"

text \<open>The ring moved on by \<open>push\<close> positions; \<open>first\<close> is \<open>u16\<close>, so the sum wraps before it is compared.\<close>

definition push_ring :: "RepeatRingControl \<Rightarrow> u32 \<Rightarrow> u32 \<Rightarrow> RepeatRingControl" where
  "push_ring xs ringSize push =
     (let first = ucast (ucast (ring_first xs) + push) :: u16;
          first = (if ringSize \<le> ucast first then ucast (ucast first - ringSize) else first)
      in xs\<lparr>ring_first := first, ring_offset := ring_offset xs + ucast push\<rparr>)"

text \<open>A run of zeroes, then a one.\<close>

definition write_ring :: "RepeatRingControl \<Rightarrow> mem \<Rightarrow> u32 \<Rightarrow> u32 \<Rightarrow> (RepeatRingControl \<times> mem) option" where
  "write_ring xs m ringSize n =
     (let i = ucast (ring_last xs) + n
      in Option.bind (mmbit_unset_range m (unat ringSize) (unat (ring_last xs)) (unat (min i ringSize))) (\<lambda>m.
         Option.bind (if ringSize \<le> i
                      then let i = i - ringSize
                           in map_option (Pair i) (mmbit_unset_range m (unat ringSize) 0 (unat i))
                      else Some (i, m)) (\<lambda>(i, m).
         let m = fst (mmbit_set m (unat ringSize) (unat i));
             last = ucast (i + 1) :: u16;
             last = (if ucast last = ringSize then 0 else last)
         in Some (xs\<lparr>ring_last := last\<rparr>, m))))"

definition repeatStoreRing ::
  "RepeatInfo \<Rightarrow> RepeatRingControl \<Rightarrow> mem \<Rightarrow> u64a \<Rightarrow> bool \<Rightarrow> (RepeatRingControl \<times> mem) option" where
  "repeatStoreRing info xs m offset is_alive =
     (let ringSize = ringCapacity info
      in if \<not> is_alive \<or> ringIsStale xs ringSize offset then Some (storeInitialRingTop xs m offset ringSize)
         else let occ = ringOccupancy xs ringSize;
                  diff = offset - ring_offset xs;
                  (xs, diff, occ) =
                    (if ucast ringSize \<le> diff
                     then let push = ucast (diff - ucast ringSize + 1) :: u32
                          in (push_ring xs ringSize push, diff - ucast push, occ - push)
                     else (xs, diff, occ));
                  n = ucast (diff - ucast occ) :: u32
              in write_ring xs m ringSize n)"

definition ringHasMatch :: "RepeatRingControl \<Rightarrow> mem \<Rightarrow> u32 \<Rightarrow> u32 \<Rightarrow> u32 \<Rightarrow> bool option" where
  "ringHasMatch xs m ringSize lower upper =
     (let i = ucast (ring_first xs) + lower;
          i = (if ringSize \<le> i then i - ringSize else i)
      in if lower + 1 = upper then Some (mmbit_isset m (unat ringSize) (unat i))
         else let endp = ucast (ring_first xs) + upper;
                  endp = (if ringSize \<le> endp then endp - ringSize else endp);
                  scan_end = (if i < endp then endp else ringSize)
              in Option.bind (mmbit_iterate_bounded m (unat ringSize) (unat i) (unat scan_end)) (\<lambda>mm.
                 if mm \<noteq> MMB_INVALID then Some True
                 else if endp \<le> i
                 then map_option (\<lambda>mm. mm \<noteq> MMB_INVALID) (mmbit_iterate_bounded m (unat ringSize) 0 (unat endp))
                 else Some False))"

definition repeatHasMatchRing :: "RepeatInfo \<Rightarrow> RepeatRingControl \<Rightarrow> mem \<Rightarrow> u64a \<Rightarrow> RepeatMatch option" where
  "repeatHasMatchRing info xs m offset =
     (let ringSize = ringCapacity info
      in if offset - ring_offset xs < ucast (repeatMin info) then Some REPEAT_NOMATCH
         else if ucast ringSize \<le> offset - ringLastTop xs ringSize then Some REPEAT_STALE
         else let delta = ucast (offset - ring_offset xs) :: u32;
                  lower = (if repeatMax info < delta then delta - repeatMax info else 0);
                  upper = min (delta - repeatMin info + 1) (ringOccupancy xs ringSize)
              in if upper \<le> lower then Some REPEAT_NOMATCH
                 else map_option (\<lambda>hit. if hit then REPEAT_MATCH else REPEAT_NOMATCH)
                        (ringHasMatch xs m ringSize lower upper))"

text \<open>The sum in \<open>push_ring\<close> wraps for large rings.\<close>

lemma ring_push_wraps:
  "ring_first (push_ring \<lparr>ring_offset = 0, ring_first = 40000, ring_last = 40000\<rparr> 60001 40000) = 14464"
  by (simp add: push_ring_def Let_def)

section \<open>Positions of the ring\<close>

definition ring_pos :: "nat \<Rightarrow> nat \<Rightarrow> nat \<Rightarrow> nat" where
  "ring_pos n f k = (if f + k < n then f + k else f + k - n)"

lemma ring_pos_less: "f < n \<Longrightarrow> k \<le> n \<Longrightarrow> ring_pos n f k < n"
  by (auto simp: ring_pos_def)

lemma ring_pos_inj: "f < n \<Longrightarrow> j < n \<Longrightarrow> k < n \<Longrightarrow> ring_pos n f j = ring_pos n f k \<longleftrightarrow> j = k"
  by (auto simp: ring_pos_def)

lemma ring_pos_add: "f < n \<Longrightarrow> j + k \<le> n \<Longrightarrow> ring_pos n (ring_pos n f j) k = ring_pos n f (j + k)"
  by (auto simp: ring_pos_def)

lemma ring_pos_0 [simp]: "f < n \<Longrightarrow> ring_pos n f 0 = f"
  by (simp add: ring_pos_def)

text \<open>The positions from \<open>b\<close> on, as the one or two ranges the code walks.\<close>

lemma ring_range:
  assumes "b < n" "0 < cnt" "cnt \<le> n"
  shows "ring_pos n b ` {..<cnt} = (if b < ring_pos n b cnt then {b..<ring_pos n b cnt} else {b..<n} \<union> {..<ring_pos n b cnt})"
proof (cases "b + cnt < n")
  case True
  then have "ring_pos n b cnt = b + cnt" "\<And>k. k < cnt \<Longrightarrow> ring_pos n b k = b + k" by (auto simp: ring_pos_def)
  moreover have "(\<lambda>k. b + k) ` {..<cnt} = {b..<b + cnt}"
    by (metis add.commute add_0 image_add_atLeastLessThan lessThan_atLeast0)
  ultimately show ?thesis using assms(2) by auto
next
  case False
  then have e: "ring_pos n b cnt = b + cnt - n" by (simp add: ring_pos_def)
  have "x \<in> ring_pos n b ` {..<cnt} \<longleftrightarrow> b \<le> x \<and> x < n \<or> x < b + cnt - n" for x
  proof
    assume "b \<le> x \<and> x < n \<or> x < b + cnt - n"
    then show "x \<in> ring_pos n b ` {..<cnt}"
    proof
      assume "b \<le> x \<and> x < n"
      then show ?thesis using False by (intro image_eqI [of _ _ "x - b"]) (auto simp: ring_pos_def)
    next
      assume "x < b + cnt - n"
      then show ?thesis using assms by (intro image_eqI [of _ _ "x + n - b"]) (auto simp: ring_pos_def)
    qed
  qed (use assms in \<open>auto simp: ring_pos_def\<close>)
  moreover have "\<not> b < b + cnt - n" using assms(3) by linarith
  ultimately show ?thesis unfolding e by (intro set_eqI) (simp only: if_False Un_iff atLeastLessThan_iff lessThan_iff)
qed

section \<open>The ring and the tops it holds\<close>

abbreviation ring_n :: "RepeatInfo \<Rightarrow> nat" where
  "ring_n info \<equiv> unat (repeatMax info) + 1"

definition ring_occ :: "RepeatInfo \<Rightarrow> RepeatRingControl \<Rightarrow> nat" where
  "ring_occ info xs =
     (if ring_first xs < ring_last xs then unat (ring_last xs) - unat (ring_first xs)
      else ring_n info - (unat (ring_first xs) - unat (ring_last xs)))"

definition ring_tops :: "RepeatInfo \<Rightarrow> RepeatRingControl \<Rightarrow> mem \<Rightarrow> nat set" where
  "ring_tops info xs m = (\<lambda>k. unat (ring_offset xs) + k)
     ` {k. k < ring_occ info xs \<and> ring_pos (ring_n info) (unat (ring_first xs)) k \<in> mm_keys (ring_n info) m}"

text \<open>
  The last position of the ring holds a top, and so does the first one unless the ring is full.
\<close>

definition ring_inv :: "RepeatInfo \<Rightarrow> RepeatRingControl \<Rightarrow> mem \<Rightarrow> bool" where
  "ring_inv info xs m \<longleftrightarrow> mm_inv (ring_n info) m
     \<and> unat (ring_first xs) < ring_n info \<and> unat (ring_last xs) < ring_n info
     \<and> ring_pos (ring_n info) (unat (ring_first xs)) (ring_occ info xs - 1) \<in> mm_keys (ring_n info) m
     \<and> (unat (ring_first xs) \<in> mm_keys (ring_n info) m \<or> ring_occ info xs = ring_n info)"

definition ring_holds :: "RepeatInfo \<Rightarrow> RepeatRingControl \<times> mem \<Rightarrow> nat set \<Rightarrow> bool" where
  "ring_holds info s C \<longleftrightarrow> ring_inv info (fst s) (snd s) \<and> C = ring_tops info (fst s) (snd s)"

text \<open>\<open>first + push\<close> stays below \<open>2 * repeatMax\<close> and has to fit \<open>u16\<close>.\<close>

definition ring_ok :: "RepeatInfo \<Rightarrow> bool" where
  "ring_ok info \<longleftrightarrow> repeatMin info \<le> repeatMax info \<and> 0 < repeatMax info \<and> repeatMax info < 32768"

lemma ring_okD:
  assumes "ring_ok info"
  shows "bounds_ok info" "repeatMax info \<noteq> REPEAT_INF" "unat (repeatMax info) < 32768"
    "unat (ringCapacity info) = ring_n info" "unat (repeatMin info) \<le> unat (repeatMax info)"
    "0 < unat (repeatMax info)"
proof -
  show lt: "unat (repeatMax info) < 32768" and "0 < unat (repeatMax info)" and "unat (repeatMin info) \<le> unat (repeatMax info)"
    using assms by (simp_all add: ring_ok_def word_less_nat_alt word_le_nat_alt)
  show "bounds_ok info" "repeatMax info \<noteq> REPEAT_INF"
    using assms lt by (auto simp: bounds_ok_def ring_ok_def REPEAT_INF_def word_le_nat_alt)
  then show "unat (ringCapacity info) = ring_n info" using bounds_okD(5) by (simp add: ringCapacity_def)
qed

lemma ring_occ_bounds:
  assumes "unat (ring_first xs) < ring_n info" "unat (ring_last xs) < ring_n info"
  shows "0 < ring_occ info xs" "ring_occ info xs \<le> ring_n info"
    "ring_pos (ring_n info) (unat (ring_first xs)) (ring_occ info xs) = unat (ring_last xs)"
  using assms by (auto simp: ring_occ_def ring_pos_def word_less_nat_alt)

lemma ring_invD:
  assumes "ring_inv info xs m"
  shows "mm_inv (ring_n info) m" "unat (ring_first xs) < ring_n info" "unat (ring_last xs) < ring_n info"
    "0 < ring_occ info xs" "ring_occ info xs \<le> ring_n info"
    "ring_pos (ring_n info) (unat (ring_first xs)) (ring_occ info xs) = unat (ring_last xs)"
    "ring_pos (ring_n info) (unat (ring_first xs)) (ring_occ info xs - 1) \<in> mm_keys (ring_n info) m"
    "unat (ring_first xs) \<in> mm_keys (ring_n info) m \<or> ring_occ info xs = ring_n info"
  using assms ring_occ_bounds [of xs info] by (simp_all add: ring_inv_def)

lemma ringOccupancy_unat:
  assumes "ring_ok info" "unat (ring_first xs) < ring_n info" "unat (ring_last xs) < ring_n info"
  shows "unat (ringOccupancy xs (ringCapacity info)) = ring_occ info xs"
proof (cases "ring_first xs < ring_last xs")
  case True
  then show ?thesis
    using unat_sub [of "ucast (ring_first xs) :: u32" "ucast (ring_last xs)"]
    by (simp add: ringOccupancy_def ring_occ_def word_le_nat_alt word_less_nat_alt unat_widen)
next
  case False
  then have "unat (ucast (ring_first xs) - ucast (ring_last xs) :: u32) = unat (ring_first xs) - unat (ring_last xs)"
    using unat_sub [of "ucast (ring_last xs) :: u32" "ucast (ring_first xs)"]
    by (simp add: word_le_nat_alt word_less_nat_alt unat_widen)
  then show ?thesis
    using False assms ring_okD(4) [OF assms(1)]
      unat_sub [of "ucast (ring_first xs) - ucast (ring_last xs)" "ringCapacity info"]
    by (simp add: ringOccupancy_def ring_occ_def word_le_nat_alt word_less_nat_alt)
qed

lemma finite_ring_tops [simp]: "finite (ring_tops info xs m)"
  by (simp add: ring_tops_def)

lemma Max_ring_tops:
  assumes "ring_inv info xs m"
  shows "Max (ring_tops info xs m) = unat (ring_offset xs) + ring_occ info xs - 1"
    "unat (ring_offset xs) + ring_occ info xs - 1 \<in> ring_tops info xs m"
proof -
  note I = ring_invD [OF assms]
  show *: "unat (ring_offset xs) + ring_occ info xs - 1 \<in> ring_tops info xs m"
    using I(4,7) by (auto simp: ring_tops_def intro!: image_eqI [of _ _ "ring_occ info xs - 1"])
  show "Max (ring_tops info xs m) = unat (ring_offset xs) + ring_occ info xs - 1"
    by (rule Max_eqI) (use * I(4) in \<open>auto simp: ring_tops_def\<close>)
qed

lemma ringLastTop_unat:
  assumes "ring_ok info" "ring_inv info xs m" "in_stream (Max (ring_tops info xs m))"
  shows "unat (ringLastTop xs (ringCapacity info)) = Max (ring_tops info xs m)"
proof -
  note I = ring_invD [OF assms(2)]
  have occ: "unat (ringOccupancy xs (ringCapacity info)) = ring_occ info xs"
    by (rule ringOccupancy_unat [OF assms(1) I(2,3)])
  have "unat (ring_offset xs + ucast (ringOccupancy xs (ringCapacity info))) = unat (ring_offset xs) + ring_occ info xs"
    using unat_add_small [of "ring_offset xs" "ucast (ringOccupancy xs (ringCapacity info))"] occ
      assms(3) I(4) by (simp add: Max_ring_tops [OF assms(2)] in_stream_def)
  then show ?thesis
    using unat_sub [of 1 "ring_offset xs + ucast (ringOccupancy xs (ringCapacity info))"] I(4)
    by (simp add: ringLastTop_def Max_ring_tops [OF assms(2)] word_le_nat_alt)
qed

section \<open>Looking for a match\<close>

lemma wrap_pos:
  fixes f k n :: u32
  assumes "unat f < unat n" "unat k \<le> unat n" "unat n < 65536"
  shows "unat (if n \<le> f + k then f + k - n else f + k) = ring_pos (unat n) (unat f) (unat k)"
proof -
  have s: "unat (f + k) = unat f + unat k" using assms unat_add_lem [of f k] by simp
  then show ?thesis using unat_sub [of n "f + k"] by (simp add: ring_pos_def word_le_nat_alt)
qed

lemma least_or_INVALID:
  assumes "K \<subseteq> {..<n}" "n < MMB_INVALID"
  shows "least_or MMB_INVALID K = MMB_INVALID \<longleftrightarrow> K = {}"
proof (cases "K = {}")
  case False
  then have "Min K \<in> K" using assms(1) finite_subset [OF assms(1)] by (intro Min_in) auto
  then show ?thesis using assms False by (auto simp: least_or_def)
qed (simp add: least_or_def)

lemma walk_nonempty:
  assumes "mm_inv n m" "lo \<le> hi" "hi \<le> n" "n < MMB_INVALID"
  shows "\<exists>i. mmbit_iterate_bounded m n lo hi = Some i
    \<and> (i = MMB_INVALID \<longleftrightarrow> {k \<in> mm_keys n m. lo \<le> k \<and> k < hi} = {})"
proof -
  have "{k \<in> mm_keys n m. lo \<le> k \<and> k < hi} \<subseteq> {..<n}" by (auto simp: mm_keys_def)
  then show ?thesis
    using mmbit_iterate_bounded_least [OF assms(1-3)] least_or_INVALID [OF _ assms(4)] by simp
qed

lemma MMB_INVALID_big: "n < 65536 \<Longrightarrow> n < MMB_INVALID"
  by (simp add: MMB_INVALID_def)

lemma ringHasMatch_spec:
  assumes "ring_ok info" "ring_inv info xs m" "unat lower < unat upper" "unat upper \<le> ring_n info"
  shows "ringHasMatch xs m (ringCapacity info) lower upper
    = Some (\<exists>k \<in> {unat lower..<unat upper}. ring_pos (ring_n info) (unat (ring_first xs)) k \<in> mm_keys (ring_n info) m)"
proof -
  define n where "n = ring_n info"
  define f where "f = unat (ring_first xs)"
  note I = ring_invD [OF assms(2), folded n_def f_def]
  have n: "unat (ringCapacity info) = n" "n < 65536" using ring_okD [OF assms(1)] by (simp_all add: n_def)
  have pos: "unat (if ringCapacity info \<le> ucast (ring_first xs) + k then ucast (ring_first xs) + k - ringCapacity info
      else ucast (ring_first xs) + k) = ring_pos n f (unat k)" if "unat k \<le> n" for k
    using wrap_pos [of "ucast (ring_first xs)" "ringCapacity info" k] n I(2) that by (simp add: unat_widen f_def)
  define i where "i = ring_pos n f (unat lower)"
  define e where "e = ring_pos n f (unat upper)"
  have up: "unat upper \<le> n" using assms(4) by (simp add: n_def)
  have bounds: "i < n" "e < n" using I(2) up assms(3) by (simp_all add: i_def e_def ring_pos_less)
  have range: "ring_pos n f ` {unat lower..<unat upper} = (if i < e then {i..<e} else {i..<n} \<union> {..<e})"
  proof -
    define cnt where "cnt = unat upper - unat lower"
    have "{unat lower..<unat upper} = (\<lambda>k. unat lower + k) ` {..<cnt}"
      using assms(3) by (simp add: cnt_def lessThan_atLeast0 image_add_atLeastLessThan)
    then have "ring_pos n f ` {unat lower..<unat upper} = ring_pos n i ` {..<cnt}"
      using up I(2) by (auto simp: image_image i_def cnt_def ring_pos_add intro!: image_cong)
    moreover have "ring_pos n i cnt = e" using up I(2) assms(3) by (simp add: i_def e_def cnt_def ring_pos_add)
    ultimately show ?thesis using ring_range [of i n cnt] bounds up assms(3) by (simp add: cnt_def)
  qed
  have hit: "(\<exists>k \<in> {unat lower..<unat upper}. ring_pos n f k \<in> mm_keys n m)
      \<longleftrightarrow> (\<exists>k \<in> ring_pos n f ` {unat lower..<unat upper}. k \<in> mm_keys n m)" by simp
  show ?thesis
  proof (cases "lower + 1 = upper")
    case True
    then have "unat upper = unat lower + 1"
      using unat_add_lem [of lower 1] up n(2) assms(3) by auto
    then have "{unat lower..<unat upper} = {unat lower}" by auto
    moreover have "ringHasMatch xs m (ringCapacity info) lower upper = Some (mmbit_isset m n i)"
      using True pos [of lower] up assms(3) n(1) unfolding ringHasMatch_def Let_def i_def by simp
    ultimately show ?thesis
      unfolding n_def [symmetric] f_def [symmetric] using bounds by (simp add: i_def mm_keys_def)
  next
    case False
    note walk = walk_nonempty [OF I(1) _ _ MMB_INVALID_big [OF n(2)]]
    obtain a where a: "mmbit_iterate_bounded m n i (if i < e then e else n) = Some a"
        "a = MMB_INVALID \<longleftrightarrow> {k \<in> mm_keys n m. i \<le> k \<and> k < (if i < e then e else n)} = {}"
    proof -
      have "i \<le> (if i < e then e else n)" "(if i < e then e else n) \<le> n" using bounds by auto
      from walk [OF this] show ?thesis using that by blast
    qed
    obtain b where b: "mmbit_iterate_bounded m n 0 e = Some b"
        "b = MMB_INVALID \<longleftrightarrow> {k \<in> mm_keys n m. 0 \<le> k \<and> k < e} = {}"
      using walk [of 0 e] bounds less_imp_le by blast
    have "ringHasMatch xs m (ringCapacity info) lower upper =
        (if a \<noteq> MMB_INVALID then Some True else if e \<le> i then Some (b \<noteq> MMB_INVALID) else Some False)"
      using False pos [of lower] pos [of upper] up assms(3) a(1) b(1)
      unfolding ringHasMatch_def Let_def
      by (simp add: i_def [symmetric] e_def [symmetric] n(1) word_less_nat_alt word_le_nat_alt if_distrib [of unat] cong: if_cong)
    moreover have "(\<exists>k \<in> ring_pos n f ` {unat lower..<unat upper}. k \<in> mm_keys n m)
        \<longleftrightarrow> a \<noteq> MMB_INVALID \<or> e \<le> i \<and> b \<noteq> MMB_INVALID"
      unfolding range a(2) b(2) by (auto simp: not_less)
    ultimately show ?thesis unfolding n_def [symmetric] f_def [symmetric] hit by auto
  qed
qed

lemma rep_match_ring:
  "rep_match info (ring_tops info xs m) p \<longleftrightarrow>
    (\<exists>k < ring_occ info xs. ring_pos (ring_n info) (unat (ring_first xs)) k \<in> mm_keys (ring_n info) m
       \<and> unat (ring_offset xs) + k + unat (repeatMin info) \<le> p
       \<and> (repeatMax info = REPEAT_INF \<or> p \<le> unat (ring_offset xs) + k + unat (repeatMax info)))"
  by (auto simp: rep_match_def ring_tops_def)

lemma ring_has_match:
  assumes "ring_ok info" "ring_inv info xs m" "in_stream (unat p)" "\<forall>t \<in> ring_tops info xs m. t \<le> unat p"
  shows "repeatHasMatchRing info xs m p = Some (rep_answer info (ring_tops info xs m) (unat p))"
proof -
  define off where "off = unat (ring_offset xs)"
  define occ where "occ = ring_occ info xs"
  define mn where "mn = unat (repeatMin info)"
  define mx where "mx = unat (repeatMax info)"
  define C where "C = ring_tops info xs m"
  note ok = ring_okD [OF assms(1)]
  note I = ring_invD [OF assms(2), folded occ_def]
  have Mx: "Max C = off + occ - 1" "off + occ - 1 \<in> C"
    using Max_ring_tops [OF assms(2)] by (simp_all add: C_def off_def occ_def)
  have le: "off + occ - 1 \<le> unat p" using Mx(2) assms(4) by (simp add: C_def)
  have "in_stream (Max C)" using in_stream_le [OF assms(3) le] Mx(1) by simp
  then have last_top: "unat (ringLastTop xs (ringCapacity info)) = off + occ - 1"
    using ringLastTop_unat [OF assms(1,2)] Mx(1) by (simp add: C_def)
  have age: "unat (p - ring_offset xs) = unat p - off"
    using le I(4) unat_sub [of "ring_offset xs" p] by (simp add: word_le_nat_alt off_def)
  have age_last: "unat (p - ringLastTop xs (ringCapacity info)) = unat p - (off + occ - 1)"
    using le last_top unat_sub [of "ringLastTop xs (ringCapacity info)" p] by (simp add: word_le_nat_alt)
  have mm: "mn \<le> mx" "mx < 32768" using ok by (simp_all add: mn_def mx_def)
  have occ: "0 < occ" "occ \<le> mx + 1" using I(4,5) by (simp_all add: mx_def)
  have ans: "rep_answer info C (unat p) = (if rep_match info C (unat p) then REPEAT_MATCH
      else if unat p \<le> off + occ - 1 + mx then REPEAT_NOMATCH else REPEAT_STALE)"
  proof -
    have "finite C" "C \<noteq> {}" "\<forall>t \<in> C. t \<le> unat p" using assms(4) Mx(2) by (auto simp: C_def)
    from rep_answer_recent [OF this bounds_okD(3) [OF ok(1)]] show ?thesis using ok(2) Mx(1) by (simp add: mx_def)
  qed
  have match: "rep_match info C (unat p) \<longleftrightarrow>
    (\<exists>k < occ. ring_pos (ring_n info) (unat (ring_first xs)) k \<in> mm_keys (ring_n info) m
       \<and> off + k + mn \<le> unat p \<and> unat p \<le> off + k + mx)"
    using ok(2) by (simp add: C_def rep_match_ring off_def occ_def mn_def mx_def)
  consider (early) "unat p - off < mn" | (late) "mn \<le> unat p - off" "mx + 1 \<le> unat p - (off + occ - 1)"
    | (scan) "mn \<le> unat p - off" "unat p - (off + occ - 1) \<le> mx" by linarith
  then show ?thesis
  proof cases
    case early
    then have "\<not> rep_match info C (unat p)" "unat p \<le> off + occ - 1 + mx" using match mm occ(1) by auto
    then show ?thesis
      using early ans by (simp add: repeatHasMatchRing_def word_less_nat_alt age C_def mn_def)
  next
    case late
    then have "\<not> rep_match info C (unat p)" "\<not> unat p \<le> off + occ - 1 + mx" using match occ(1) by auto
    then show ?thesis
      using late ans ok(4)
      by (simp add: repeatHasMatchRing_def word_less_nat_alt word_le_nat_alt age age_last C_def mn_def mx_def)
  next
    case scan
    have d: "unat p - off \<le> 2 * mx" using scan(2) occ(2) le by linarith
    define delta where "delta = (ucast (p - ring_offset xs) :: u32)"
    have delta: "unat delta = unat p - off"
      using d mm(2) age by (simp add: delta_def unsigned_ucast_eq take_bit_nat_eq_self)
    define lower where "lower = (if repeatMax info < delta then delta - repeatMax info else 0)"
    have lower: "unat lower = unat p - off - mx"
      using unat_sub [of "repeatMax info" delta] by (simp add: lower_def word_less_nat_alt word_le_nat_alt delta mx_def)
    define upper where "upper = min (delta - repeatMin info + 1) (ringOccupancy xs (ringCapacity info))"
    have "unat (delta - repeatMin info) = unat p - off - mn"
      using scan(1) delta unat_sub [of "repeatMin info" delta] by (simp add: word_le_nat_alt mn_def)
    moreover have "unat p - off - mn < 4294967295" using d mm(2) by linarith
    ultimately have "unat (delta - repeatMin info + 1) = unat p - off - mn + 1"
      using unat_add_lem [of "delta - repeatMin info" 1] by simp
    then have upper: "unat upper = min (unat p - off - mn + 1) occ"
      using ringOccupancy_unat [OF assms(1) I(2,3)] by (simp add: upper_def min_def word_le_nat_alt occ_def)
    have in_range: "off + k + mn \<le> unat p \<and> unat p \<le> off + k + mx \<and> k < occ
        \<longleftrightarrow> k \<in> {unat lower..<unat upper}" for k
      using scan(1) le occ(1) by (auto simp: lower upper)
    have run: "repeatHasMatchRing info xs m p = (if upper \<le> lower then Some REPEAT_NOMATCH
        else map_option (\<lambda>hit. if hit then REPEAT_MATCH else REPEAT_NOMATCH)
               (ringHasMatch xs m (ringCapacity info) lower upper))"
      using scan ok(4)
      by (simp add: repeatHasMatchRing_def word_less_nat_alt word_le_nat_alt age age_last Let_def
          lower_def [unfolded word_less_nat_alt] upper_def delta_def [symmetric] mn_def mx_def)
    have hit: "ringHasMatch xs m (ringCapacity info) lower upper = Some (rep_match info C (unat p))"
      if "unat lower < unat upper"
    proof -
      have "unat upper \<le> ring_n info" using upper I(5) by simp
      moreover have "(\<exists>k \<in> {unat lower..<unat upper}.
          ring_pos (ring_n info) (unat (ring_first xs)) k \<in> mm_keys (ring_n info) m) \<longleftrightarrow> rep_match info C (unat p)"
        unfolding match using in_range by blast
      ultimately show ?thesis by (simp only: ringHasMatch_spec [OF assms(1,2) that])
    qed
    have none: "\<not> rep_match info C (unat p)" if "unat upper \<le> unat lower"
      using in_range that unfolding match by auto
    have "unat p \<le> off + occ - 1 + mx" using scan(2) by linarith
    then show ?thesis using run hit none ans by (auto simp: word_le_nat_alt C_def not_le)
  qed
qed

section \<open>The next match\<close>

lemma first_in_ring:
  assumes "mm_inv n m" "b < n" "0 < cnt" "cnt \<le> n" "n < MMB_INVALID"
  defines "e \<equiv> ring_pos n b cnt"
  defines "K \<equiv> {k. k < cnt \<and> ring_pos n b k \<in> mm_keys n m}"
  obtains i j where "mmbit_iterate_bounded m n b (if e \<le> b then n else e) = Some i"
    "mmbit_iterate_bounded m n 0 e = Some j"
    "i \<noteq> MMB_INVALID \<Longrightarrow> b \<le> i \<and> i < n \<and> i - b \<in> K \<and> (\<forall>k \<in> K. i - b \<le> k)"
    "i = MMB_INVALID \<Longrightarrow> e \<le> b \<Longrightarrow> j \<noteq> MMB_INVALID \<Longrightarrow>
       j < e \<and> j + (n - b) \<in> K \<and> (\<forall>k \<in> K. j + (n - b) \<le> k)"
    "i = MMB_INVALID \<Longrightarrow> \<not> e \<le> b \<or> j = MMB_INVALID \<Longrightarrow> K = {}"
proof -
  have e: "e < n" unfolding e_def by (rule ring_pos_less [OF assms(2,4)])
  define hi where "hi = (if e \<le> b then n else e)"
  have hi: "b \<le> hi" "hi \<le> n" using e assms(2) by (auto simp: hi_def)
  define A where "A = {k \<in> mm_keys n m. b \<le> k \<and> k < hi}"
  define B where "B = {k \<in> mm_keys n m. 0 \<le> k \<and> k < e}"
  have sub: "A \<subseteq> {..<n}" "B \<subseteq> {..<n}" by (auto simp: A_def B_def mm_keys_def)
  have fin: "finite A" "finite B" using sub finite_subset by blast+
  define i where "i = least_or MMB_INVALID A"
  define j where "j = least_or MMB_INVALID B"
  have runs: "mmbit_iterate_bounded m n b hi = Some i" "mmbit_iterate_bounded m n 0 e = Some j"
    using mmbit_iterate_bounded_least [OF assms(1) hi] mmbit_iterate_bounded_least [OF assms(1), of 0 e] e
    by (simp_all add: i_def j_def A_def B_def)
  have empty: "i = MMB_INVALID \<longleftrightarrow> A = {}" "j = MMB_INVALID \<longleftrightarrow> B = {}"
    unfolding i_def j_def by (rule least_or_INVALID [OF _ assms(5)]; rule sub)+
  have pos: "e \<le> b \<longleftrightarrow> n \<le> b + cnt" "\<not> e \<le> b \<Longrightarrow> e = b + cnt" "e \<le> b \<Longrightarrow> e = b + cnt - n"
    using assms(2-4) by (auto simp: e_def ring_pos_def)
  have inA: "b + k \<in> A \<longleftrightarrow> k \<in> K" if "b + k < hi" for k
    using that pos assms(2-4) by (auto simp: A_def K_def hi_def ring_pos_def split: if_splits)
  have inB: "k + b - n \<in> B \<longleftrightarrow> k \<in> K" if "e \<le> b" "n - b \<le> k" "k < cnt" for k
    using that pos assms(2-4) by (auto simp: B_def K_def ring_pos_def add.commute)
  have i_least: "i \<in> A \<and> (\<forall>a \<in> A. i \<le> a)" if "A \<noteq> {}"
    using that fin(1) by (simp add: i_def least_or_def)
  have j_least: "j \<in> B \<and> (\<forall>a \<in> B. j \<le> a)" if "B \<noteq> {}"
    using that fin(2) by (simp add: j_def least_or_def)
  show ?thesis
  proof (rule that)
    show "mmbit_iterate_bounded m n b (if e \<le> b then n else e) = Some i" using runs(1) by (simp add: hi_def)
    show "mmbit_iterate_bounded m n 0 e = Some j" by (rule runs(2))
    show "b \<le> i \<and> i < n \<and> i - b \<in> K \<and> (\<forall>k \<in> K. i - b \<le> k)" if ne: "i \<noteq> MMB_INVALID"
    proof -
      have i: "i \<in> A" "\<forall>a \<in> A. i \<le> a" using i_least ne empty(1) by blast+
      then have lo: "b \<le> i" "i < hi" by (auto simp: A_def)
      then have "i - b \<in> K" using inA [of "i - b"] i(1) by simp
      moreover have "i - b \<le> k" if "k \<in> K" for k
        using i(2) inA [of k] that lo by (cases "b + k < hi") force+
      ultimately show ?thesis using lo hi(2) by auto
    qed
    have K_B: "e \<le> b \<and> n - b \<le> k \<and> k < cnt \<and> k + b - n \<in> B" if none: "i = MMB_INVALID" and k: "k \<in> K" for k
    proof -
      have "\<not> b + k < hi" using inA [of k] none empty(1) k by auto
      moreover have cnt: "k < cnt" using k by (simp add: K_def)
      ultimately have wrap: "e \<le> b" using pos(2) by (auto simp: hi_def split: if_splits)
      then have "n - b \<le> k" using \<open>\<not> b + k < hi\<close> by (simp add: hi_def)
      then show ?thesis using wrap cnt inB k by blast
    qed
    show "j < e \<and> j + (n - b) \<in> K \<and> (\<forall>k \<in> K. j + (n - b) \<le> k)"
      if none: "i = MMB_INVALID" and wrap: "e \<le> b" and ne: "j \<noteq> MMB_INVALID"
    proof -
      have j: "j \<in> B" "\<forall>a \<in> B. j \<le> a" using j_least ne empty(2) by blast+
      then have lo: "j < e" by (auto simp: B_def)
      then have "j + (n - b) \<in> K" using inB [of "j + (n - b)"] j(1) wrap pos(3) assms(2) by simp
      moreover have "j + (n - b) \<le> k" if "k \<in> K" for k
        using j(2) K_B [OF none that] assms(2) by fastforce
      ultimately show ?thesis using lo by blast
    qed
    show "K = {}" if "i = MMB_INVALID" "\<not> e \<le> b \<or> j = MMB_INVALID"
      using K_B [OF that(1)] that(2) empty(2) by blast
  qed
qed

lemma unat_narrow: "unat (x :: u64a) < 2 ^ 32 \<Longrightarrow> unat (ucast x :: u32) = unat x"
  by (simp add: unsigned_ucast_eq take_bit_nat_eq_self)

lemma unat_of_nat_u32: "i < 2 ^ 32 \<Longrightarrow> unat (of_nat i :: u32) = i"
  by (simp add: unat_of_nat take_bit_nat_eq_self)

lemma ring_next_least:
  assumes "repeatMax info \<noteq> REPEAT_INF" "unat (repeatMin info) \<le> unat (repeatMax info)" "k \<in> K"
    "\<forall>k' \<in> K. k \<le> k'" "base + k + unat (repeatMax info) \<ge> p + 1"
    "\<And>t. t \<in> C \<Longrightarrow> p + 1 \<le> t + unat (repeatMax info) \<Longrightarrow> \<exists>k \<in> K. t = base + k"
    "base + k \<in> C"
  shows "rep_next info C p = max (p + 1) (base + k + unat (repeatMin info))"
proof (rule rep_nextI)
  show "rep_match info C (max (p + 1) (base + k + unat (repeatMin info)))"
    using assms by (auto simp: rep_match_def intro!: bexI [of _ "base + k"])
  show "\<not> rep_match info C r" if r: "p < r" "r < max (p + 1) (base + k + unat (repeatMin info))" for r
  proof
    assume "rep_match info C r"
    then obtain t where t: "t \<in> C" "t + unat (repeatMin info) \<le> r" "r \<le> t + unat (repeatMax info)"
      using assms(1) by (auto simp: rep_match_def)
    then obtain k' where "k' \<in> K" "t = base + k'" using assms(6) [of t] r(1) by auto
    then show False using assms(4) t(2) r by fastforce
  qed
qed simp

lemma ring_next_match:
  assumes "ring_ok info" "ring_inv info xs m" "in_stream (unat p)" "\<forall>t \<in> ring_tops info xs m. t \<le> unat p"
  shows "\<exists>q. repeatNextMatchRing info xs m p = Some q \<and> unat q = rep_next info (ring_tops info xs m) (unat p)"
proof -
  define n where "n = ring_n info"
  define f where "f = unat (ring_first xs)"
  define off where "off = unat (ring_offset xs)"
  define occ where "occ = ring_occ info xs"
  define mn where "mn = unat (repeatMin info)"
  define mx where "mx = unat (repeatMax info)"
  define C where "C = ring_tops info xs m"
  note ok = ring_okD [OF assms(1)]
  note I = ring_invD [OF assms(2), folded occ_def n_def f_def]
  have size: "unat (ringCapacity info) = n" "n < 65536" "n < MMB_INVALID" "n = mx + 1"
    using ok by (simp_all add: n_def mx_def MMB_INVALID_def)
  have Mx: "Max C = off + occ - 1" "off + occ - 1 \<in> C"
    using Max_ring_tops [OF assms(2)] by (simp_all add: C_def off_def occ_def)
  have inC: "t \<in> C \<longleftrightarrow> (\<exists>k < occ. ring_pos n f k \<in> mm_keys n m \<and> t = off + k)" for t
    by (auto simp: C_def ring_tops_def n_def f_def off_def occ_def)
  have le: "off + occ - 1 \<le> unat p" using Mx(2) assms(4) by (simp add: C_def)
  have mm: "mn \<le> mx" "mx < 32768" using ok by (simp_all add: mn_def mx_def)
  have str: "unat p < 2 ^ 64 - 2 ^ 17" using assms(3) by (simp add: in_stream_def)
  have P: "unat (p + 1) = unat p + 1" by (rule unat_Suc_stream [OF assms(3)])
  have delta: "unat (p + 1 - ring_offset xs) = unat p + 1 - off"
    using P le I(4) unat_sub [of "ring_offset xs" "p + 1"] by (simp add: word_le_nat_alt off_def)
  have after: "\<not> p + 1 < ring_offset xs" using P le I(4) by (simp add: word_less_nat_alt off_def)
  have sum_mn: "unat (ring_offset xs + ucast (repeatMin info)) = off + mn"
    using unat_add_small [of "ring_offset xs" "ucast (repeatMin info)"] mm le I(4) str
    by (simp add: off_def mn_def)
  have "in_stream (Max C)" using in_stream_le [OF assms(3) le] Mx(1) by simp
  then have last_top: "unat (ringLastTop xs (ringCapacity info)) = off + occ - 1"
    using ringLastTop_unat [OF assms(1,2)] Mx(1) by (simp add: C_def)
  have sum_mx: "unat (ringLastTop xs (ringCapacity info) + ucast (repeatMax info)) = off + occ - 1 + mx"
    using unat_add_small [of "ringLastTop xs (ringCapacity info)" "ucast (repeatMax info)"] mm le str last_top
    by (simp add: mx_def)
  consider (early) "unat p + 1 - off < mn" | (late) "mn \<le> unat p + 1 - off" "off + occ - 1 + mx < unat p + 1"
    | (scan) "mn \<le> unat p + 1 - off" "unat p + 1 \<le> off + occ - 1 + mx" by linarith
  then show ?thesis
  proof cases
    case early
    have "occ \<noteq> n" using early le mm(1) size(4) by linarith
    then have "off \<in> C" using I(2,4,8) inC by (auto intro: exI [of _ 0])
    have "rep_next info C (unat p) = off + mn"
    proof (rule rep_nextI)
      show "rep_match info C (off + mn)" using \<open>off \<in> C\<close> mm(1) by (auto simp: rep_match_def mn_def mx_def)
    qed (use early inC in \<open>auto simp: rep_match_def mn_def\<close>)
    moreover have "repeatNextMatchRing info xs m p = Some (ring_offset xs + ucast (repeatMin info))"
      using early by (simp add: repeatNextMatchRing_def Let_def word_less_nat_alt delta mn_def)
    ultimately show ?thesis using sum_mn by (simp add: C_def)
  next
    case late
    have "rep_next info C (unat p) = 0"
      by (rule rep_next_none) (use late(2) ok(2) inC in \<open>auto simp: rep_match_def mx_def\<close>)
    moreover have "repeatNextMatchRing info xs m p = Some 0"
      unfolding repeatNextMatchRing_def Let_def word_less_nat_alt delta sum_mx P unat_u32
      using late after by (simp add: word_less_nat_alt mn_def P)
    ultimately show ?thesis by (simp add: C_def)
  next
    case scan
    define lo where "lo = unat p + 1 - off - mx"
    define cnt where "cnt = occ - lo"
    have lo: "lo < occ" "0 < cnt" "lo + cnt = occ" "lo < n" using scan I(4,5) by (auto simp: lo_def cnt_def)
    define lower where "lower = (if ucast (repeatMax info) < p + 1 - ring_offset xs
        then p + 1 - ring_offset xs - ucast (repeatMax info) else 0)"
    have lower: "unat lower = lo"
      using unat_sub [of "ucast (repeatMax info)" "p + 1 - ring_offset xs"] delta
      by (simp add: lower_def word_less_nat_alt word_le_nat_alt lo_def mx_def)
    define b0 where "b0 = (ucast (ucast (ring_first xs) + lower) :: u32)"
    have b0: "unat b0 = f + lo"
    proof -
      have "unat (ucast (ring_first xs) + lower) = f + lo"
        using unat_add_small [of "ucast (ring_first xs)" lower] lower lo I(2) size(2) by (simp add: unat_widen f_def)
      then show ?thesis using unat_narrow [of "ucast (ring_first xs) + lower"] lo I(2) size(2) by (simp add: b0_def)
    qed
    define begn where "begn = (if ringCapacity info \<le> b0 then b0 - ringCapacity info else b0)"
    define b where "b = ring_pos n f lo"
    have begn: "unat begn = b"
      using unat_sub [of "ringCapacity info" b0] b0 size(1) by (simp add: begn_def b_def ring_pos_def word_le_nat_alt)
    have b: "b < n" using lo(4) I(2) by (simp add: b_def ring_pos_less)
    have e: "ring_pos n b cnt = unat (ring_last xs)"
      using I(2,5,6) lo by (simp add: b_def ring_pos_add)
    define K where "K = {k. k < cnt \<and> ring_pos n b k \<in> mm_keys n m}"
    have K: "ring_pos n b k = ring_pos n f (lo + k)" if "k < cnt" for k
      using that I(2,5) lo by (simp add: b_def ring_pos_add)
    have inK: "\<exists>k \<in> K. t = off + lo + k" if t: "t \<in> C" "unat p + 1 \<le> t + mx" for t
    proof -
      obtain k where k: "k < occ" "ring_pos n f k \<in> mm_keys n m" "t = off + k" using t(1) inC by auto
      then have "lo \<le> k" using t(2) by (simp add: lo_def)
      then have "k - lo \<in> K" using k K [of "k - lo"] lo by (simp add: K_def)
      then show ?thesis using \<open>lo \<le> k\<close> k(3) by (intro bexI [of _ "k - lo"]) auto
    qed
    have nxt: "rep_next info C (unat p) = max (unat p + 1) (off + lo + k + mn)"
      if k: "k \<in> K" "\<forall>k' \<in> K. k \<le> k'" for k
      unfolding mn_def
    proof (rule ring_next_least [OF ok(2) mm(1) [unfolded mn_def mx_def] k])
      show "unat p + 1 \<le> off + lo + k + unat (repeatMax info)" by (simp add: lo_def mx_def)
      show "off + lo + k \<in> C" using k(1) K [of k] lo inC by (auto simp: K_def intro!: exI [of _ "lo + k"])
    qed (use inK mx_def in auto)
    have none: "rep_next info C (unat p) = 0" if "K = {}"
      by (rule rep_next_none) (use that inK ok(2) in \<open>fastforce simp: rep_match_def mx_def\<close>)
    have val: "unat (max (p + 1) (ring_offset xs + ucast jw + ucast (repeatMin info))) = rep_next info C (unat p)"
      if jw: "unat (jw :: u32) = lo + k" and k: "k \<in> K" "\<forall>k' \<in> K. k \<le> k'" for jw k
    proof -
      have "lo + k < n" using k(1) lo I(5) by (auto simp: K_def)
      moreover have "unat p + 131072 < 18446744073709551616" using str by simp
      ultimately have small: "off + (lo + k) + mn < 18446744073709551616" using le I(4) size(4) mm by linarith
      then have "unat (ring_offset xs + ucast jw) = off + (lo + k)"
        using unat_add_small [of "ring_offset xs" "ucast jw"] jw by (simp add: off_def)
      then have "unat (ring_offset xs + ucast jw + ucast (repeatMin info)) = off + (lo + k) + mn"
        using unat_add_small [of "ring_offset xs + ucast jw" "ucast (repeatMin info)"] small by (simp add: mn_def)
      then show ?thesis using nxt [OF k] P by (simp add: max_def word_le_nat_alt add.assoc)
    qed
    have sum: "unat (ucast (ucast x + lower) :: u32) = unat x + lo" if "unat (x :: u32) < n" for x
    proof -
      have "unat (ucast x + lower) = unat x + lo"
        using unat_add_small [of "ucast x" lower] lower lo(4) that size(2) by simp
      then show ?thesis using unat_narrow [of "ucast x + lower"] that lo(4) size(2) by simp
    qed
    have cnt: "cnt \<le> n" using lo I(5) by simp
    obtain i j where
        i: "mmbit_iterate_bounded m n b (if unat (ring_last xs) \<le> b then n else unat (ring_last xs)) = Some i"
      and j: "mmbit_iterate_bounded m n 0 (unat (ring_last xs)) = Some j"
      and i_key: "i \<noteq> MMB_INVALID \<Longrightarrow> b \<le> i \<and> i < n \<and> i - b \<in> K \<and> (\<forall>k \<in> K. i - b \<le> k)"
      and j_key: "i = MMB_INVALID \<Longrightarrow> unat (ring_last xs) \<le> b \<Longrightarrow> j \<noteq> MMB_INVALID \<Longrightarrow>
         j < unat (ring_last xs) \<and> j + (n - b) \<in> K \<and> (\<forall>k \<in> K. j + (n - b) \<le> k)"
      and no_key: "i = MMB_INVALID \<Longrightarrow> \<not> unat (ring_last xs) \<le> b \<or> j = MMB_INVALID \<Longrightarrow> K = {}"
      using first_in_ring [OF I(1) b lo(2) cnt size(3), unfolded e, folded K_def] by blast
    define ji where "ji = (ucast (ucast (of_nat i - begn) + lower) :: u32)"
    define jj where "jj = (ucast (ucast (of_nat j + (ringCapacity info - begn)) + lower) :: u32)"
    have run: "repeatNextMatchRing info xs m p =
      (if i \<noteq> MMB_INVALID then Some (max (p + 1) (ring_offset xs + ucast ji + ucast (repeatMin info)))
       else if unat (ring_last xs) \<le> b \<and> j \<noteq> MMB_INVALID
       then Some (max (p + 1) (ring_offset xs + ucast jj + ucast (repeatMin info))) else Some 0)"
    proof -
      have wide: "ucast (ring_last xs) \<le> begn \<longleftrightarrow> unat (ring_last xs) \<le> b"
        by (simp add: word_le_nat_alt begn unat_widen)
      have hi: "unat (if ucast (ring_last xs) \<le> begn then ringCapacity info else ucast (ring_last xs))
          = (if unat (ring_last xs) \<le> b then n else unat (ring_last xs))"
        by (simp add: wide size(1) unat_widen)
      have skip: "\<not> (p + 1 < ring_offset xs \<or> p + 1 - ring_offset xs < ucast (repeatMin info))"
        "\<not> ringLastTop xs (ringCapacity info) + ucast (repeatMax info) < p + 1"
        using scan after by (simp_all add: word_less_nat_alt delta sum_mx P mn_def)
      show ?thesis
        unfolding repeatNextMatchRing_def Let_def if_not_P [OF skip(1)] if_not_P [OF skip(2)]
          lower_def [symmetric] b0_def [symmetric] begn_def [symmetric]
        unfolding hi size(1) begn
        unfolding i j wide by (simp add: ji_def jj_def)
    qed
    consider (here) "i \<noteq> MMB_INVALID" | (wrapped) "i = MMB_INVALID" "unat (ring_last xs) \<le> b" "j \<noteq> MMB_INVALID"
      | (nowhere) "i = MMB_INVALID" "\<not> unat (ring_last xs) \<le> b \<or> j = MMB_INVALID" by blast
    then show ?thesis
    proof cases
      case here
      then have ik: "b \<le> i" "i < n" "i - b \<in> K" "\<forall>k \<in> K. i - b \<le> k" using i_key by auto
      have "unat (of_nat i - begn) = i - b"
        using ik(1,2) size(2) unat_sub [of begn "of_nat i"] begn unat_of_nat_u32 [of i] by (simp add: word_le_nat_alt)
      then have "unat ji = lo + (i - b)" using sum [of "of_nat i - begn"] ik(1,2) by (simp add: ji_def)
      then show ?thesis using val [OF _ ik(3,4)] run here by (simp add: C_def)
    next
      case wrapped
      then have jk: "j < unat (ring_last xs)" "j + (n - b) \<in> K" "\<forall>k \<in> K. j + (n - b) \<le> k" using j_key by auto
      have jn: "j + (n - b) < n" using jk(2) cnt by (simp add: K_def)
      have "unat (ringCapacity info - begn) = n - b"
        using b unat_sub [of begn "ringCapacity info"] size(1) begn by (simp add: word_le_nat_alt)
      then have "unat (of_nat j + (ringCapacity info - begn)) = j + (n - b)"
        using unat_add_lem [of "of_nat j" "ringCapacity info - begn"] unat_of_nat_u32 [of j] jn size(2) by simp
      then have "unat jj = lo + (j + (n - b))"
        using sum [of "of_nat j + (ringCapacity info - begn)"] jn by (simp add: jj_def)
      then show ?thesis using val [OF _ jk(2,3)] run wrapped by (simp add: C_def)
    next
      case nowhere
      then show ?thesis using none no_key run by (auto simp: C_def)
    qed
  qed
qed

section \<open>The store\<close>

lemmas ring_keys_set = mm.keys_set [folded mm_keys_def]
lemmas ring_keys_clear = mm.keys_clear [folded mm_keys_def]

lemma zero_positions:
  assumes "l < n" "k < n"
  shows "ring_pos n l ` {..<k} = (if l + k < n then {l..<l + k} else {l..<n} \<union> {0..<l + k - n})"
proof (cases "k = 0")
  case False
  then show ?thesis using ring_range [of l n k] assms by (auto simp: ring_pos_def lessThan_atLeast0)
qed (use assms in simp)

lemma write_ring_spec:
  assumes "mm_inv (unat ringSize) m" "unat (ring_last xs) < unat ringSize" "unat z < unat ringSize" "unat ringSize \<le> 32768"
  shows "\<exists>m' L. write_ring xs m ringSize z = Some (xs\<lparr>ring_last := L\<rparr>, m')
    \<and> unat L = ring_pos (unat ringSize) (unat (ring_last xs)) (unat z + 1) \<and> mm_inv (unat ringSize) m'
    \<and> mm_keys (unat ringSize) m' = insert (ring_pos (unat ringSize) (unat (ring_last xs)) (unat z))
        (mm_keys (unat ringSize) m - ring_pos (unat ringSize) (unat (ring_last xs)) ` {..<unat z})"
proof -
  define n where "n = unat ringSize"
  define l where "l = unat (ring_last xs)"
  define k where "k = unat z"
  have b: "l < n" "k < n" "n \<le> 32768" using assms by (simp_all add: n_def l_def k_def)
  define i where "i = (ucast (ring_last xs) + z :: u32)"
  have i: "unat i = l + k"
    using unat_add_lem [of "ucast (ring_last xs) :: u32" z] b by (simp add: i_def l_def k_def unat_widen)
  have mn: "unat (min i ringSize) = min (l + k) n" using i by (simp add: min_def word_le_nat_alt n_def)
  obtain m1 where m1: "mmbit_unset_range m n l (min (l + k) n) = Some m1" "mm_inv n m1"
      "mm_keys n m1 = mm_keys n m - {l..<min (l + k) n}"
    using mmbit_unset_range_spec [OF assms(1), of l "min (l + k) n"] b by (auto simp: n_def)
  define i' where "i' = (if ringSize \<le> i then i - ringSize else i)"
  have i': "unat i' = ring_pos n l k"
    using i unat_sub [of ringSize i] by (simp add: i'_def ring_pos_def word_le_nat_alt n_def)
  obtain m2 where m2: "(if ringSize \<le> i then map_option (Pair (i - ringSize)) (mmbit_unset_range m1 n 0 (unat (i - ringSize)))
        else Some (i, m1)) = Some (i', m2)" "mm_inv n m2"
      "mm_keys n m2 = mm_keys n m - ring_pos n l ` {..<k}"
  proof (cases "ringSize \<le> i")
    case True
    then have ge: "n \<le> l + k" "unat (i - ringSize) = l + k - n"
      using i unat_sub [of ringSize i] by (simp_all add: word_le_nat_alt n_def)
    obtain m2 where "mmbit_unset_range m1 n 0 (l + k - n) = Some m2" "mm_inv n m2"
        "mm_keys n m2 = mm_keys n m1 - {0..<l + k - n}"
    proof -
      have "l + k - n \<le> n" using b by linarith
      from mmbit_unset_range_spec [OF m1(2) _ this] show ?thesis using that by blast
    qed
    then show ?thesis
      using True ge b m1(3) that by (simp add: i'_def zero_positions min_absorb2 Diff_eq Int_assoc)
  next
    case False
    then have "l + k < n" using i by (simp add: word_le_nat_alt n_def)
    then show ?thesis using False m1 b that by (simp add: i'_def zero_positions)
  qed
  have pos: "ring_pos n l k < n" by (rule ring_pos_less) (use b in auto)
  define m3 where "m3 = fst (mmbit_set m2 n (unat i'))"
  have m3: "mm_inv n m3" "mm_keys n m3 = insert (ring_pos n l k) (mm_keys n m2)"
    using mm_inv_set [OF m2(2) pos] ring_keys_set [OF mm_inv_size [OF m2(2)] pos] i' by (simp_all add: m3_def)
  define L where "L = (let L = ucast (i' + 1) :: u16 in if ucast L = ringSize then 0 else L)"
  have "unat (i' + 1) = ring_pos n l k + 1" using unat_add_lem [of i' 1] i' pos b(3) by simp
  then have nxt: "unat (ucast (i' + 1) :: u16) = ring_pos n l k + 1"
    using pos b(3) by (simp add: unsigned_ucast_eq take_bit_nat_eq_self)
  then have "unat (ucast (ucast (i' + 1) :: u16) :: u32) = ring_pos n l k + 1" by (simp add: unat_widen)
  then have "ucast (ucast (i' + 1) :: u16) = ringSize \<longleftrightarrow> ring_pos n l k + 1 = n"
    by (simp add: word_unat_eq_iff n_def)
  then have "unat L = (if ring_pos n l k + 1 = n then 0 else ring_pos n l k + 1)"
    using nxt by (simp add: L_def Let_def)
  also have "\<dots> = ring_pos n l (k + 1)" using b by (auto simp: ring_pos_def)
  finally have L: "unat L = ring_pos n l (k + 1)" .
  have "write_ring xs m ringSize z = Some (xs\<lparr>ring_last := L\<rparr>, m3)"
    unfolding write_ring_def Let_def i_def [symmetric] n_def [symmetric] l_def [symmetric] mn
    by (simp add: m1(1) m2(1) [simplified] m3_def L_def Let_def)
  then show ?thesis using m3 m2(3) L unfolding n_def l_def k_def by blast
qed

lemma push_ring_spec:
  assumes "ring_ok info" "unat (ring_first xs) < ring_n info" "unat push < ring_n info"
    "unat (ring_offset xs) + unat push < 2 ^ 64"
  shows "unat (ring_first (push_ring xs (ringCapacity info) push)) = ring_pos (ring_n info) (unat (ring_first xs)) (unat push)"
    "unat (ring_offset (push_ring xs (ringCapacity info) push)) = unat (ring_offset xs) + unat push"
    "ring_last (push_ring xs (ringCapacity info) push) = ring_last xs"
proof -
  define n where "n = ring_n info"
  have n: "n \<le> 32768" "unat (ringCapacity info) = n" using ring_okD(3,4) [OF assms(1)] by (simp_all add: n_def)
  define s where "s = (ucast (ucast (ring_first xs) + push) :: u16)"
  have "unat (ucast (ring_first xs) + push) = unat (ring_first xs) + unat push"
    using unat_add_lem [of "ucast (ring_first xs) :: u32" push] assms(2,3) n(1) by (simp add: unat_widen n_def)
  then have s: "unat s = unat (ring_first xs) + unat push"
    using assms(2,3) n(1) by (simp add: s_def n_def unsigned_ucast_eq take_bit_nat_eq_self)
  have le: "ringCapacity info \<le> ucast s \<longleftrightarrow> n \<le> unat s" by (simp add: word_le_nat_alt n unat_widen)
  have "unat (ucast (ucast s - ringCapacity info) :: u16) = unat s - n" if "n \<le> unat s"
  proof -
    have "unat (ucast s - ringCapacity info) = unat s - n"
      using that unat_sub [of "ringCapacity info" "ucast s"] n(2) by (simp add: word_le_nat_alt unat_widen)
    moreover have "unat s < 2 ^ LENGTH(16)" by (rule unsigned_less)
    then have "unat s - n < 65536" by (simp add: less_imp_diff_less)
    ultimately show ?thesis by (simp add: unsigned_ucast_eq take_bit_nat_eq_self)
  qed
  then show "unat (ring_first (push_ring xs (ringCapacity info) push)) = ring_pos (ring_n info) (unat (ring_first xs)) (unat push)"
    unfolding push_ring_def Let_def s_def [symmetric] le n_def [symmetric] by (simp add: s ring_pos_def)
  show "unat (ring_offset (push_ring xs (ringCapacity info) push)) = unat (ring_offset xs) + unat push"
    using unat_add_small [of "ring_offset xs" "ucast push"] assms(4) by (simp add: push_ring_def Let_def)
qed (simp add: push_ring_def Let_def)

text \<open>The state after the push: positions count from \<open>f\<close>, the offset of \<open>f\<close> is \<open>base\<close>.\<close>

lemma ring_grow:
  assumes "ring_ok info" "mm_inv (ring_n info) m" "unat (ring_first xs) < ring_n info" "0 < occ" "occ \<le> d" "d < ring_n info"
    "ring_pos (ring_n info) (unat (ring_first xs)) occ = unat (ring_last xs)"
    "unat z = d - occ" "unat (ring_offset xs) + d = p"
    "unat (ring_first xs) \<in> mm_keys (ring_n info) m \<or> d = ring_n info - 1"
  shows "\<exists>s. write_ring xs m (ringCapacity info) z = Some s
    \<and> ring_holds info s (insert p ((\<lambda>k. unat (ring_offset xs) + k)
        ` {k. k < occ \<and> ring_pos (ring_n info) (unat (ring_first xs)) k \<in> mm_keys (ring_n info) m}))"
proof -
  define n where "n = ring_n info"
  define f where "f = unat (ring_first xs)"
  have n: "unat (ringCapacity info) = n" "n \<le> 32768" using ring_okD(3,4) [OF assms(1)] by (simp_all add: n_def)
  note A = assms(2-10) [folded n_def f_def]
  have l: "unat (ring_last xs) < n" using A(2,4,5,6) ring_pos_less [of f n occ] by simp
  have z: "unat z < n" using A(4,5,7) by simp
  obtain m' L where w: "write_ring xs m (ringCapacity info) z = Some (xs\<lparr>ring_last := L\<rparr>, m')"
    "unat L = ring_pos n (unat (ring_last xs)) (unat z + 1)" "mm_inv n m'"
    "mm_keys n m' = insert (ring_pos n (unat (ring_last xs)) (unat z))
        (mm_keys n m - ring_pos n (unat (ring_last xs)) ` {..<unat z})"
    using write_ring_spec [of "ringCapacity info" m xs z] A(1) l z n by auto
  have from_f: "ring_pos n (unat (ring_last xs)) k = ring_pos n f (occ + k)" if "occ + k \<le> n" for k
    using ring_pos_add [OF A(2) that] A(6) by simp
  have L: "unat L = ring_pos n f (d + 1)" using w(2) from_f [of "unat z + 1"] A(4,5,7) by simp
  have keys: "mm_keys n m' = insert (ring_pos n f d) (mm_keys n m - ring_pos n f ` {occ..<d})"
  proof -
    have "ring_pos n (unat (ring_last xs)) ` {..<unat z} = ring_pos n f ` ((\<lambda>k. occ + k) ` {..<unat z})"
      using A(4,5,7) from_f by (auto simp: image_image intro!: image_cong)
    also have "(\<lambda>k. occ + k) ` {..<unat z} = {occ..<d}"
      using A(4,7) by (simp add: lessThan_atLeast0 image_add_atLeastLessThan)
    finally show ?thesis using w(4) from_f [of "unat z"] A(4,5,7) by simp
  qed
  have member: "ring_pos n f k \<in> mm_keys n m' \<longleftrightarrow> k = d \<or> k < occ \<and> ring_pos n f k \<in> mm_keys n m" if "k \<le> d" for k
    unfolding keys using that A(2,4,5) ring_pos_inj [OF A(2)] by (auto simp: not_less)
  define xs' where "xs' = xs\<lparr>ring_last := L\<rparr>"
  have xs': "unat (ring_first xs') = f" "ring_offset xs' = ring_offset xs" "unat (ring_last xs') = ring_pos n f (d + 1)"
    using L by (simp_all add: xs'_def f_def)
  have occ': "ring_occ info xs' = d + 1"
    unfolding ring_occ_def n_def [symmetric] word_less_nat_alt xs' using A(2,5) by (auto simp: ring_pos_def)
  have inv: "ring_inv info xs' m'"
    unfolding ring_inv_def n_def [symmetric] xs' occ'
    using w(3) A(2,3,4,5,9) ring_pos_less [OF A(2), of "d + 1"] member [of d] member [of 0] by auto
  have "ring_tops info xs' m' = (\<lambda>k. unat (ring_offset xs) + k) ` {k. k \<le> d \<and> (k = d \<or> k < occ \<and> ring_pos n f k \<in> mm_keys n m)}"
    unfolding ring_tops_def n_def [symmetric] xs' occ' using member by (intro arg_cong [of _ _ "image _"]) auto
  also have "{k. k \<le> d \<and> (k = d \<or> k < occ \<and> ring_pos n f k \<in> mm_keys n m)}
      = insert d {k. k < occ \<and> ring_pos n f k \<in> mm_keys n m}" using A(4) by auto
  finally have "ring_tops info xs' m' = insert p ((\<lambda>k. unat (ring_offset xs) + k) ` {k. k < occ \<and> ring_pos n f k \<in> mm_keys n m})"
    using A(8) by simp
  then show ?thesis using w(1) inv unfolding ring_holds_def n_def [symmetric] f_def [symmetric] xs'_def by auto
qed

lemma ring_store_first: "ring_ok info \<Longrightarrow> ring_holds info (storeInitialRingTop xs m p (ringCapacity info)) {unat p}"
proof -
  assume ok: "ring_ok info"
  define n where "n = ring_n info"
  have n: "unat (ringCapacity info) = n" "1 < n" "n \<le> 32768"
    using ring_okD(3,4,6) [OF ok] by (simp_all add: n_def)
  have big: "n \<le> MMB_MAX_BITS" and pos: "0 < n" using n by (simp_all add: MMB_MAX_BITS_def)
  define m' where "m' = fst (mmbit_set (mmbit_clear m n) n 0)"
  have m': "mm_inv n m'" "mm_keys n m' = {0}"
    using mm_inv_set [OF mm_inv_clear [OF big] pos] ring_keys_set [OF big pos] ring_keys_clear [OF big]
    by (simp_all add: m'_def)
  define xs' where "xs' = xs\<lparr>ring_offset := p, ring_first := 0, ring_last := 1\<rparr>"
  have xs': "unat (ring_first xs') = 0" "unat (ring_last xs') = 1" "ring_offset xs' = p" by (simp_all add: xs'_def)
  have occ: "ring_occ info xs' = 1" unfolding ring_occ_def word_less_nat_alt xs' by simp
  have "ring_inv info xs' m'"
    unfolding ring_inv_def n_def [symmetric] xs' occ m'(2) using m'(1) n(2) by (simp add: ring_pos_def)
  moreover have "ring_tops info xs' m' = {unat p}"
  proof -
    have "{k. k < 1 \<and> ring_pos n 0 k \<in> {0}} = {0}" using n(2) by (auto simp: ring_pos_def)
    then show ?thesis unfolding ring_tops_def n_def [symmetric] xs' occ m'(2) by simp
  qed
  ultimately show ?thesis
    by (simp add: ring_holds_def storeInitialRingTop_def Let_def n(1) m'_def xs'_def)
qed

lemma ring_store_alive:
  assumes "ring_ok info" "in_stream (unat p)" "ring_holds info s C" "\<forall>t \<in> C. t < unat p"
  shows "\<exists>s' C'. repeatStoreRing info (fst s) (snd s) p True = Some s' \<and> ring_holds info s' C'
    \<and> (\<forall>t \<in> C'. t \<le> unat p) \<and> rep_same info (unat p) C' (insert (unat p) C)"
proof -
  define xs where "xs = fst s"
  define m where "m = snd s"
  define n where "n = ring_n info"
  define f where "f = unat (ring_first xs)"
  define off where "off = unat (ring_offset xs)"
  define occ where "occ = ring_occ info xs"
  define size where "size = ringCapacity info"
  have inv: "ring_inv info xs m" and C: "C = ring_tops info xs m"
    using assms(3) by (simp_all add: ring_holds_def xs_def m_def)
  note I = ring_invD [OF inv, folded n_def f_def occ_def]
  note ok = ring_okD [OF assms(1), folded n_def size_def]
  have n: "n \<le> 32768" "n = unat (repeatMax info) + 1" using ok(3) by (simp_all add: n_def)
  have inC: "C = (\<lambda>k. off + k) ` {k. k < occ \<and> ring_pos n f k \<in> mm_keys n m}"
    by (simp add: C ring_tops_def n_def f_def off_def occ_def)
  have Mx: "Max C = off + occ - 1" "off + occ - 1 \<in> C"
    using Max_ring_tops [OF inv] by (simp_all add: C off_def occ_def)
  have lt: "off + occ - 1 < unat p" using Mx(2) assms(4) by blast
  have str: "unat p + 131072 < 18446744073709551616" using assms(2) by (simp add: in_stream_def)
  have occ_w: "unat (ringOccupancy xs size) = occ"
    using ringOccupancy_unat [OF assms(1)] I(2,3) by (simp add: size_def n_def f_def occ_def)
  have "in_stream (Max C)" using in_stream_le [OF assms(2)] lt Mx(1) by simp
  then have last_top: "unat (ringLastTop xs size) = off + occ - 1"
    using ringLastTop_unat [OF assms(1) inv] Mx(1) by (simp add: C size_def)
  have age: "unat (p - ringLastTop xs size) = unat p - (off + occ - 1)"
    using lt last_top unat_sub [of "ringLastTop xs size" p] by (simp add: word_le_nat_alt)
  have stale: "ringIsStale xs size p \<longleftrightarrow> n \<le> unat p - (off + occ - 1)"
    by (simp add: ringIsStale_def Let_def word_le_nat_alt age ok(4))
  show ?thesis
  proof (cases "n \<le> unat p - (off + occ - 1)")
    case True
    then have "repeatStoreRing info xs m p True = Some (storeInitialRingTop xs m p size)"
      by (simp add: repeatStoreRing_def stale size_def [symmetric])
    moreover have "rep_same info (unat p) {unat p} (insert (unat p) C)"
    proof (rule rep_same_forget [OF ok(2)])
      fix t assume "t \<in> insert (unat p) C - {unat p}"
      then have "t \<le> off + occ - 1" by (auto simp: inC)
      then show "t + unat (repeatMax info) < unat p" using True n(2) lt by linarith
    qed simp
    ultimately show ?thesis
      using ring_store_first [OF assms(1), of xs m p] by (auto simp: xs_def m_def size_def)
  next
    case False
    define diff where "diff = p - ring_offset xs"
    have diff: "unat diff = unat p - off"
      using lt I(4) unat_sub [of "ring_offset xs" p] by (simp add: diff_def off_def word_le_nat_alt)
    define push where "push = (ucast (diff - ucast size + 1) :: u32)"
    define st where "st = (if ucast size \<le> diff
      then (push_ring xs size push, diff - ucast push, ringOccupancy xs size - push)
      else (xs, diff, ringOccupancy xs size))"
    obtain xs1 diff1 occ1 where st: "st = (xs1, diff1, occ1)" by (cases st) auto
    have run: "repeatStoreRing info xs m p True = write_ring xs1 m size (ucast (diff1 - ucast occ1))"
      using False st unfolding repeatStoreRing_def Let_def size_def [symmetric] stale diff_def [symmetric]
        push_def [symmetric] st_def [symmetric] by simp
    have "\<exists>k. unat (ring_first xs1) = ring_pos n f k \<and> unat (ring_offset xs1) = off + k \<and> unat occ1 = occ - k
        \<and> ring_last xs1 = ring_last xs \<and> unat diff1 = unat p - off - k \<and> k < occ
        \<and> unat p - off - k < n \<and> (k = 0 \<or> unat p - off - k = n - 1)"
    proof (cases "ucast size \<le> diff")
      case True
      then have ge: "n \<le> unat p - off" using diff ok(4) by (simp add: word_le_nat_alt)
      define k where "k = unat p - off - n + 1"
      have k: "k < occ" "k < n" "unat p - off - k = n - 1" using False ge I(5) lt n(2) by (auto simp: k_def)
      have "unat (diff - ucast size) = unat p - off - n"
        using True diff ok(4) unat_sub [of "ucast size" diff] by (simp add: word_le_nat_alt)
      then have "unat (diff - ucast size + 1) = k"
        using unat_add_small [of "diff - ucast size" 1] str by (simp add: k_def)
      then have push: "unat push = k" using unat_narrow [of "diff - ucast size + 1"] k n by (simp add: push_def)
      have "unat (ring_offset xs) + unat push < 2 ^ 64" using push k lt str n(1) by (simp add: off_def)
      then have "unat (ring_first (push_ring xs size push)) = ring_pos n f k"
        "unat (ring_offset (push_ring xs size push)) = off + k"
        "ring_last (push_ring xs size push) = ring_last xs"
        using push_ring_spec [OF assms(1), of xs push] I(2) k(2) push by (simp_all add: size_def n_def f_def off_def)
      moreover have "unat (diff - ucast push) = unat p - off - k"
      proof -
        have "k \<le> unat p - off" using ge n(2) by (simp add: k_def)
        then show ?thesis using diff push unat_sub [of "ucast push" diff] by (simp add: word_le_nat_alt)
      qed
      moreover have "unat (ringOccupancy xs size - push) = occ - k"
        using occ_w push k(1) unat_sub [of push "ringOccupancy xs size"] by (simp add: word_le_nat_alt)
      ultimately show ?thesis using True st k by (intro exI [of _ k]) (simp add: st_def)
    next
      case small: False
      then have "unat p - off < n" using diff ok(4) by (simp add: word_le_nat_alt not_le)
      then show ?thesis using small st I(2,4) occ_w diff by (intro exI [of _ 0]) (auto simp: st_def f_def off_def)
    qed
    then obtain k where k: "unat (ring_first xs1) = ring_pos n f k" "unat (ring_offset xs1) = off + k" "unat occ1 = occ - k"
        "ring_last xs1 = ring_last xs" "unat diff1 = unat p - off - k" "k < occ"
        "unat p - off - k < n" "k = 0 \<or> unat p - off - k = n - 1" by blast
    define d where "d = unat p - off - k"
    have d: "occ - k \<le> d" "off + k + d = unat p" using lt k(6) by (auto simp: d_def)
    have z: "unat (ucast (diff1 - ucast occ1) :: u32) = d - (occ - k)"
    proof -
      have "unat (diff1 - ucast occ1) = d - (occ - k)"
        using k(3,5) d(1) unat_sub [of "ucast occ1" diff1] by (simp add: word_le_nat_alt d_def)
      then show ?thesis using unat_narrow [of "diff1 - ucast occ1"] k(7) n(1) by (simp add: d_def)
    qed
    have shift: "ring_pos n (ring_pos n f k) j = ring_pos n f (k + j)" if "k + j \<le> n" for j
      by (rule ring_pos_add [OF I(2) that])
    have "\<exists>s'. write_ring xs1 m (ringCapacity info) (ucast (diff1 - ucast occ1)) = Some s'
      \<and> ring_holds info s' (insert (unat p) ((\<lambda>j. unat (ring_offset xs1) + j)
          ` {j. j < occ - k \<and> ring_pos n (unat (ring_first xs1)) j \<in> mm_keys n m}))"
    proof (rule ring_grow [OF assms(1), where d = d, folded n_def])
      show "unat (ring_first xs1) \<in> mm_keys n m \<or> d = n - 1"
        using k(1,8) I(2,5,8) d(1) k(7) unfolding d_def [symmetric] by auto
      show "unat (ring_first xs1) < n" using k(1,6) I(2,5) by (simp add: ring_pos_less)
      show "ring_pos n (unat (ring_first xs1)) (occ - k) = unat (ring_last xs1)"
        using k(1,4,6) I(5,6) shift [of "occ - k"] by simp
      show "d < n" using k(7) by (simp add: d_def)
    qed (use k(2,6) I(1) d z in auto)
    then obtain s' where s': "repeatStoreRing info xs m p True = Some s'"
      "ring_holds info s' (insert (unat p) ((\<lambda>j. off + k + j) ` {j. j < occ - k \<and> ring_pos n (ring_pos n f k) j \<in> mm_keys n m}))"
      using run k(1,2) by (auto simp: size_def)
    have kept: "(\<lambda>j. off + k + j) ` {j. j < occ - k \<and> ring_pos n (ring_pos n f k) j \<in> mm_keys n m} = {t \<in> C. off + k \<le> t}"
      (is "?l = ?r")
    proof
      show "?l \<subseteq> ?r"
      proof
        fix t assume "t \<in> ?l"
        then obtain j where j: "t = off + k + j" "j < occ - k" "ring_pos n (ring_pos n f k) j \<in> mm_keys n m" by auto
        then show "t \<in> ?r" using shift [of j] I(5) by (auto simp: inC intro!: image_eqI [of _ _ "k + j"])
      qed
      show "?r \<subseteq> ?l"
      proof
        fix t assume "t \<in> ?r"
        then obtain i where i: "t = off + i" "i < occ" "ring_pos n f i \<in> mm_keys n m" "k \<le> i" by (auto simp: inC)
        then show "t \<in> ?l" using shift [of "i - k"] I(5) by (intro image_eqI [of _ _ "i - k"]) auto
      qed
    qed
    have same: "rep_same info (unat p) (insert (unat p) {t \<in> C. off + k \<le> t}) (insert (unat p) C)"
      by (rule rep_same_forget [OF ok(2)]) (use k(8) d n(2) in \<open>auto simp: d_def inC\<close>)
    have "\<forall>t \<in> insert (unat p) {t \<in> C. off + k \<le> t}. t \<le> unat p" using assms(4) by (auto simp: less_imp_le)
    then show ?thesis using s' [unfolded kept] same unfolding xs_def m_def by blast
  qed
qed

interpretation rep_ring: repeat_model info "ring_ok info"
  "\<lambda>s p alive. repeatStoreRing info (fst s) (snd s) p alive"
  "\<lambda>s p. repeatHasMatchRing info (fst s) (snd s) p" "\<lambda>s p. repeatNextMatchRing info (fst s) (snd s) p"
  "\<lambda>s. repeatLastTopRing info (fst s)" "ring_holds info"
  for info
proof (unfold_locales, goal_cases)
  case (1 p s)
  then show ?case using ring_store_first by (simp add: repeatStoreRing_def Let_def)
next
  case (2 p s C)
  then show ?case by (rule ring_store_alive)
next
  case (3 p s C)
  then show ?case using ring_has_match [of info "fst s" "snd s" p] by (simp add: ring_holds_def)
next
  case (4 p s C)
  then show ?case using ring_next_match [of info "fst s" "snd s" p] by (simp add: ring_holds_def)
next
  case (5 s C)
  then have s: "ring_inv info (fst s) (snd s)" "C = ring_tops info (fst s) (snd s)" by (simp_all add: ring_holds_def)
  have "Max C \<in> C" using 5(4) s(2) by simp
  then show ?case
    using ringLastTop_unat [OF 5(1) s(1)] 5(5) s(2) by (simp add: repeatLastTopRing_def Let_def)
qed

end
