(* ===== verification/PackBits.thy ===== *)
theory PackBits
  imports Prelude Memory
begin

text \<open>
  Packing fields of bits into bytes, \<open>src/util/pack_bits.h\<close>: the 64-bit versions.  The writer gathers the
  fields in a word that it stores when it is full; the reader walks the bytes.  The walk is a loop without a bound
  of its own, so it returns an option.
\<close>

section \<open>Operations\<close>

fun pack_bits_loop :: "mem \<Rightarrow> int \<Rightarrow> u64a \<Rightarrow> nat \<Rightarrow> (u64a \<times> nat) list \<Rightarrow> mem \<times> int \<times> u64a \<times> nat" where
  "pack_bits_loop m out acc idx [] = (m, out, acc, idx)"
| "pack_bits_loop m out acc idx ((v, b) # fields) =
     (let acc = acc OR push_bit idx v;
          idx = idx + b
      in if 64 \<le> idx
         then let m = unaligned_store_u64a m out acc;
                  out = out + 8;
                  idx = idx - 64;
                  leftover = b - idx;
                  acc = (if leftover = 64 then 0 else drop_bit leftover v)
              in pack_bits_loop m out acc idx fields
         else pack_bits_loop m out acc idx fields)"

definition pack_bits_64 :: "mem \<Rightarrow> int \<Rightarrow> u64a list \<Rightarrow> nat list \<Rightarrow> mem" where
  "pack_bits_64 m out v bits =
     (let (m, out, acc, idx) = pack_bits_loop m out 0 0 (zip v bits)
      in partial_store_u64a m out acc ((idx + 7) div 8))"

partial_function (option) unpack_field :: "mem \<Rightarrow> int \<Rightarrow> nat \<Rightarrow> nat \<Rightarrow> nat \<Rightarrow> u64a \<Rightarrow> (u64a \<times> int \<times> nat) option" where
  "unpack_field m inp used b vidx v_out =
     (if b = 0 then Some (v_out, inp, used)
      else let rd = ucast (drop_bit used (m inp)) :: u64a;
               bits_read = 8 - used
           in if b \<le> bits_read
              then let mk = rd AND (push_bit b 1 - 1);
                       v_out = v_out OR push_bit vidx mk;
                       used = used + b
                   in if used < 8 then unpack_field m inp used 0 (vidx + b) v_out
                      else unpack_field m (inp + 1) 0 0 (vidx + b) v_out
              else unpack_field m (inp + 1) 0 (b - bits_read) (vidx + bits_read) (v_out OR push_bit vidx rd))"

fun unpack_bits_loop :: "mem \<Rightarrow> int \<Rightarrow> nat \<Rightarrow> nat list \<Rightarrow> u64a list option" where
  "unpack_bits_loop m inp used [] = Some []"
| "unpack_bits_loop m inp used (b # bits) =
     Option.bind (unpack_field m inp used b 0 0) (\<lambda>(v, inp, used).
     map_option (Cons v) (unpack_bits_loop m inp used bits))"

definition unpack_bits_64 :: "mem \<Rightarrow> int \<Rightarrow> nat list \<Rightarrow> u64a list option" where
  "unpack_bits_64 m inp bits = unpack_bits_loop m inp 0 bits"

section \<open>What is written\<close>

text \<open>The fields as one string of bits, starting at bit \<open>s\<close> of the memory.\<close>

fun packed_at :: "mem \<Rightarrow> nat \<Rightarrow> (u64a \<times> nat) list \<Rightarrow> bool" where
  "packed_at m s [] \<longleftrightarrow> True"
| "packed_at m s ((v, b) # fields) \<longleftrightarrow> (\<forall>k < b. gbit m (s + k) = bit v k) \<and> packed_at m (s + b) fields"

text \<open>Every field but the last fits its bits: what exceeds them would run into the next field.\<close>

definition fields_fit :: "(u64a \<times> nat) list \<Rightarrow> bool" where
  "fields_fit fields \<longleftrightarrow> (\<forall>(v, b) \<in> set fields. b \<le> 64) \<and> (\<forall>(v, b) \<in> set (butlast fields). \<forall>k \<ge> b. \<not> bit v k)"

definition total_bits :: "(u64a \<times> nat) list \<Rightarrow> nat" where
  "total_bits fields = sum_list (map snd fields)"

lemma packed_at_cong:
  assumes "\<And>k. k < s + total_bits fields \<Longrightarrow> s \<le> k \<Longrightarrow> gbit m' k = gbit m k"
  shows "packed_at m' s fields = packed_at m s fields"
  using assms
proof (induction fields arbitrary: s)
  case (Cons f fields)
  obtain v b where f: "f = (v, b)" by fastforce
  have "packed_at m' (s + b) fields = packed_at m (s + b) fields"
    by (rule Cons.IH) (use Cons.prems in \<open>auto simp: f total_bits_def\<close>)
  then show ?case using Cons.prems by (auto simp: f total_bits_def)
qed simp

lemma fields_fit_Cons:
  "fields_fit ((v, b) # fields) \<Longrightarrow> b \<le> 64 \<and> (fields \<noteq> [] \<longrightarrow> (\<forall>k \<ge> b. \<not> bit v k)) \<and> fields_fit fields"
  by (cases fields) (auto simp: fields_fit_def)

lemma gbit_store_u64:
  "gbit (unaligned_store_u64a m (int a) w) i = (if 8 * a \<le> i \<and> i < 8 * a + 64 then bit w (i - 8 * a) else gbit m i)"
  unfolding unaligned_store_u64a_def using gbit_store [where n = 8 and v = w and a = a] by simp

lemma gbit_partial_store:
  "n \<le> 8 \<Longrightarrow> gbit (partial_store_u64a m (int a) w n) i
    = (if 8 * a \<le> i \<and> i < 8 * a + 8 * n then bit w (i - 8 * a) else gbit m i)"
  using gbit_store [where n = n and v = w and a = a] by (simp add: partial_store_u64a_le)

text \<open>
  The state of the writer: the memory holds what was stored, \<open>acc\<close> the \<open>idx\<close> bits after it, and nothing
  above them while fields are left.
\<close>

definition finish_pack :: "mem \<times> int \<times> u64a \<times> nat \<Rightarrow> mem" where
  "finish_pack r = (case r of (m, out, acc, idx) \<Rightarrow> partial_store_u64a m out acc ((idx + 7) div 8))"

lemma pack_bits_loop_spec:
  fixes a :: nat and m :: mem
  assumes "fields_fit fields" "idx < 64" "fields \<noteq> [] \<longrightarrow> (\<forall>k \<ge> idx. \<not> bit acc k)"
  defines "m' \<equiv> finish_pack (pack_bits_loop m (int a) acc idx fields)"
  shows "(\<forall>k < idx. gbit m' (8 * a + k) = bit acc k) \<and> packed_at m' (8 * a + idx) fields
    \<and> (\<forall>i. i < 8 * a \<or> 8 * (a + (idx + total_bits fields + 7) div 8) \<le> i \<longrightarrow> gbit m' i = gbit m i)"
  using assms(1-3) unfolding m'_def
proof (induction fields arbitrary: m a acc idx)
  case Nil
  then have "(idx + 7) div 8 \<le> 8" "idx \<le> 8 * ((idx + 7) div 8)" by simp_all
  then show ?case by (auto simp: finish_pack_def gbit_partial_store total_bits_def)
next
  case (Cons f fields)
  obtain v b where f: "f = (v, b)" by fastforce
  note fit = fields_fit_Cons [OF Cons.prems(1) [unfolded f]]
  define acc1 where "acc1 = acc OR push_bit idx v"
  have acc1: "bit acc1 k \<longleftrightarrow> (if k < idx then bit acc k else bit v (k - idx))" if "k < 64" for k
    using that Cons.prems(3) by (auto simp: acc1_def bit_simps)
  have tot: "total_bits (f # fields) = b + total_bits fields" by (simp add: total_bits_def f)
  show ?case
  proof (cases "64 \<le> idx + b")
    case False
    define m' where "m' = finish_pack (pack_bits_loop m (int a) acc1 (idx + b) fields)"
    have run: "finish_pack (pack_bits_loop m (int a) acc idx (f # fields)) = m'"
      using False by (simp add: f m'_def acc1_def Let_def)
    have "\<not> bit acc1 k" if "idx + b \<le> k" "fields \<noteq> []" for k
      using that fit acc1 [of k] by (cases "k < 64") (auto dest: bit_imp_le_length)
    then have IH: "(\<forall>k < idx + b. gbit m' (8 * a + k) = bit acc1 k) \<and> packed_at m' (8 * a + (idx + b)) fields
        \<and> (\<forall>i. i < 8 * a \<or> 8 * (a + (idx + b + total_bits fields + 7) div 8) \<le> i \<longrightarrow> gbit m' i = gbit m i)"
      unfolding m'_def using False fit by (intro Cons.IH) auto
    then have "gbit m' (8 * a + k) = bit acc k" if "k < idx" for k using that False acc1 [of k] by simp
    moreover have "gbit m' (8 * a + idx + k) = bit v k" if "k < b" for k
      using IH that False acc1 [of "idx + k"] by (simp add: add.assoc)
    ultimately show ?thesis
      unfolding run tot using IH by (auto simp: f add.assoc)
  next
    case True
    define m1 where "m1 = unaligned_store_u64a m (int a) acc1"
    define idx1 where "idx1 = idx + b - 64"
    define acc2 where "acc2 = (if b - idx1 = 64 then 0 else drop_bit (b - idx1) v)"
    define m' where "m' = finish_pack (pack_bits_loop m1 (int (a + 8)) acc2 idx1 fields)"
    have run: "finish_pack (pack_bits_loop m (int a) acc idx (f # fields)) = m'"
      using True by (simp add: f m'_def acc1_def acc2_def m1_def idx1_def Let_def add.commute)
    have left: "b - idx1 = 64 - idx" "idx1 < 64" "idx1 \<le> b" using True fit Cons.prems(2) by (auto simp: idx1_def)
    have acc2: "bit acc2 k \<longleftrightarrow> bit v (64 - idx + k)" for k
      using left Cons.prems(2) by (auto simp: acc2_def bit_simps dest: bit_imp_le_length)
    have none: "\<not> bit acc2 k" if "idx1 \<le> k" "fields \<noteq> []" for k
      using that fit Cons.prems(2) True acc2 [of k] by (simp add: idx1_def)
    have IH: "(\<forall>k < idx1. gbit m' (8 * (a + 8) + k) = bit acc2 k) \<and> packed_at m' (8 * (a + 8) + idx1) fields
        \<and> (\<forall>i. i < 8 * (a + 8) \<or> 8 * (a + 8 + (idx1 + total_bits fields + 7) div 8) \<le> i \<longrightarrow> gbit m' i = gbit m1 i)"
      unfolding m'_def using left fit none by (intro Cons.IH) auto
    have low: "gbit m' (8 * a + k) = bit acc1 k" if "k < 64" for k
      using IH that by (simp add: m1_def gbit_store_u64)
    have here: "gbit m' (8 * a + k) = bit acc k" if "k < idx" for k
      using low [of k] acc1 [of k] that Cons.prems(2) by simp
    have field: "gbit m' (8 * a + idx + k) = bit v k" if "k < b" for k
    proof (cases "idx + k < 64")
      case True
      then show ?thesis using low [of "idx + k"] acc1 [of "idx + k"] by (simp add: add.assoc)
    next
      case False
      define j where "j = idx + k - 64"
      have j: "8 * a + idx + k = 8 * (a + 8) + j" "j < idx1" "64 - idx + j = k"
        using False that Cons.prems(2) by (auto simp: j_def idx1_def)
      have "gbit m' (8 * (a + 8) + j) = bit acc2 j" using IH j(2) by blast
      then show ?thesis using acc2 [of j] j(3) by (simp add: j(1))
    qed
    have at: "8 * (a + 8) + idx1 = 8 * a + idx + b" using True by (simp add: idx1_def)
    have size: "a + 8 + (idx1 + total_bits fields + 7) div 8 = a + (idx + (b + total_bits fields) + 7) div 8"
      using True by (simp add: idx1_def)
    have "gbit m' i = gbit m i"
      if "i < 8 * a \<or> 8 * (a + (idx + (b + total_bits fields) + 7) div 8) \<le> i" for i
    proof -
      have "gbit m' i = gbit m1 i" using IH that unfolding size by auto
      moreover have "8 \<le> (idx + (b + total_bits fields) + 7) div 8" using True by (simp add: less_eq_div_iff_mult_less_eq)
      then have "i < 8 * a \<or> 8 * a + 64 \<le> i" using that by auto
      ultimately show ?thesis by (auto simp: m1_def gbit_store_u64)
    qed
    moreover have "packed_at m' (8 * a + idx + b) fields" using IH unfolding at by blast
    ultimately show ?thesis unfolding run tot using here field by (simp add: f)
  qed
qed

lemma pack_bits_64_spec:
  assumes "fields_fit (zip v bits)"
  shows "packed_at (pack_bits_64 m (int a) v bits) (8 * a) (zip v bits)"
  using pack_bits_loop_spec [OF assms, of 0 0 m a]
  by (simp add: pack_bits_64_def finish_pack_def split: prod.splits)

section \<open>What is read back\<close>

lemma unpack_field_unfold:
  "unpack_field m inp used b vidx v_out =
     (if b = 0 then Some (v_out, inp, used)
      else if b \<le> 8 - used
      then Some (v_out OR push_bit vidx (ucast (drop_bit used (m inp)) AND (push_bit b 1 - 1)),
             if used + b < 8 then (inp, used + b) else (inp + 1, 0))
      else unpack_field m (inp + 1) 0 (b - (8 - used)) (vidx + (8 - used))
             (v_out OR push_bit vidx (ucast (drop_bit used (m inp)))))"
  by (subst unpack_field.simps) (auto simp: Let_def unpack_field.simps [of _ _ _ 0])

lemma unpack_field_spec:
  assumes "used < 8" "vidx + b \<le> 64" "\<forall>k \<ge> vidx. \<not> bit v_out k"
  shows "\<exists>w a' used'. unpack_field m (int a) used b vidx v_out = Some (w, int a', used') \<and> used' < 8
    \<and> 8 * a' + used' = 8 * a + used + b
    \<and> (\<forall>k. bit w k \<longleftrightarrow> bit v_out k \<or> vidx \<le> k \<and> k < vidx + b \<and> gbit m (8 * a + used + (k - vidx)))"
  using assms
proof (induction b arbitrary: a used vidx v_out rule: less_induct)
  case (less b)
  define rd where "rd = (ucast (drop_bit used (m (int a))) :: u64a)"
  have rd: "bit rd k \<longleftrightarrow> used + k < 8 \<and> gbit m (8 * a + used + k)" for k
  proof (cases "used + k < 8")
    case True
    then have "(8 * a + used + k) div 8 = a" "(8 * a + used + k) mod 8 = used + k" by (simp_all add: add.assoc)
    then show ?thesis using True by (simp add: rd_def gbit_def bit_simps add.commute)
  next
    case False
    then show ?thesis by (auto simp: rd_def bit_simps dest: bit_imp_le_length)
  qed
  consider "b = 0" | (last) "b \<noteq> 0" "b \<le> 8 - used" | (more) "8 - used < b" by linarith
  then show ?case
  proof cases
    case 1
    then show ?thesis using less.prems by (auto simp: unpack_field_unfold [of _ _ _ 0])
  next
    case last
    define w where "w = v_out OR push_bit vidx (rd AND (push_bit b 1 - 1))"
    have low: "bit (push_bit b 1 - 1 :: u64a) k \<longleftrightarrow> k < b" for k
    proof -
      have "bitset (push_bit b 1 - 1 :: u64a) = {..<b}"
        using bitset_mask [of b, where ?'a = 64] last(2) less.prems(1) by simp
      then have "k \<in> bitset (push_bit b 1 - 1 :: u64a) \<longleftrightarrow> k \<in> {..<b}" by (rule arg_cong)
      then show ?thesis by (simp only: bitset_def mem_Collect_eq lessThan_iff)
    qed
    have w: "bit w k \<longleftrightarrow> bit v_out k \<or> vidx \<le> k \<and> k < vidx + b \<and> gbit m (8 * a + used + (k - vidx))" for k
      unfolding w_def bit_or_iff bit_push_bit_iff bit_and_iff low rd using last(2) less.prems(2) by auto
    have "unpack_field m (int a) used b vidx v_out
        = Some (w, if used + b < 8 then (int a, used + b) else (int a + 1, 0))"
      using last by (subst unpack_field_unfold) (simp add: w_def rd_def)
    moreover have "used + b = 8" if "\<not> used + b < 8" using that last(2) less.prems(1) by linarith
    ultimately show ?thesis
      using w by (cases "used + b < 8") (auto intro!: exI [of _ a] exI [of _ "a + 1"])
  next
    case more
    define w where "w = v_out OR push_bit vidx rd"
    have w: "bit w k \<longleftrightarrow> bit v_out k \<or> vidx \<le> k \<and> k < 64 \<and> used + (k - vidx) < 8 \<and> gbit m (8 * a + used + (k - vidx))" for k
      unfolding w_def bit_or_iff bit_push_bit_iff rd by (auto dest: bit_imp_le_length)
    have run: "unpack_field m (int a) used b vidx v_out
        = unpack_field m (int (a + 1)) 0 (b - (8 - used)) (vidx + (8 - used)) w"
      using more by (subst unpack_field_unfold) (simp add: w_def rd_def add.commute)
    have none: "\<forall>k \<ge> vidx + (8 - used). \<not> bit w k" using less.prems(1,3) w by auto
    have "\<exists>w' a' used'. unpack_field m (int (a + 1)) 0 (b - (8 - used)) (vidx + (8 - used)) w = Some (w', int a', used')
        \<and> used' < 8 \<and> 8 * a' + used' = 8 * (a + 1) + 0 + (b - (8 - used))
        \<and> (\<forall>k. bit w' k \<longleftrightarrow> bit w k \<or> vidx + (8 - used) \<le> k \<and> k < vidx + (8 - used) + (b - (8 - used))
             \<and> gbit m (8 * (a + 1) + 0 + (k - (vidx + (8 - used)))))"
      by (rule less.IH) (use more less.prems(1,2) none in auto)
    then obtain w' a' used' where IH: "unpack_field m (int (a + 1)) 0 (b - (8 - used)) (vidx + (8 - used)) w = Some (w', int a', used')"
      "used' < 8" "8 * a' + used' = 8 * (a + 1) + 0 + (b - (8 - used))"
      "\<And>k. bit w' k \<longleftrightarrow> bit w k \<or> vidx + (8 - used) \<le> k \<and> k < vidx + (8 - used) + (b - (8 - used))
             \<and> gbit m (8 * (a + 1) + 0 + (k - (vidx + (8 - used))))" by blast
    have "bit w' k \<longleftrightarrow> bit v_out k \<or> vidx \<le> k \<and> k < vidx + b \<and> gbit m (8 * a + used + (k - vidx))" for k
    proof (cases "vidx + (8 - used) \<le> k")
      case True
      then have "8 * (a + 1) + 0 + (k - (vidx + (8 - used))) = 8 * a + used + (k - vidx)"
        using less.prems(1) by simp
      then show ?thesis using IH(4) [of k] w [of k] True more less.prems(1) none by (auto simp del: add_Suc_right)
    next
      case False
      then show ?thesis using IH(4) [of k] w [of k] more less.prems by auto
    qed
    moreover have "8 * a' + used' = 8 * a + used + b" using IH(3) more less.prems(1) by simp
    ultimately show ?thesis using run IH(1,2) by auto
  qed
qed

text \<open>Reading the fields back gives them cut to their bits.\<close>

lemma unpack_bits_loop_spec:
  assumes "packed_at m (8 * a + used) fields" "used < 8" "\<forall>(v, b) \<in> set fields. b \<le> 64"
  shows "unpack_bits_loop m (int a) used (map snd fields) = Some (map (\<lambda>(v, b). take_bit b v) fields)"
  using assms
proof (induction fields arbitrary: a used)
  case (Cons f fields)
  obtain v b where f: "f = (v, b)" by fastforce
  have b: "b \<le> 64" using Cons.prems(3) by (auto simp: f)
  obtain w a' used' where w: "unpack_field m (int a) used b 0 0 = Some (w, int a', used')" "used' < 8"
    "8 * a' + used' = 8 * a + used + b" "\<And>k. bit w k \<longleftrightarrow> k < b \<and> gbit m (8 * a + used + k)"
    using unpack_field_spec [of used 0 b 0 m a] Cons.prems(2) b by auto
  have "w = take_bit b v"
    by (rule bit_word_eqI) (use w(4) Cons.prems(1) in \<open>auto simp: f bit_simps\<close>)
  moreover have "unpack_bits_loop m (int a') used' (map snd fields) = Some (map (\<lambda>(v, b). take_bit b v) fields)"
    by (rule Cons.IH) (use Cons.prems w(2,3) in \<open>auto simp: f\<close>)
  ultimately show ?case by (simp add: f w(1))
qed simp

lemma pack_unpack_64:
  assumes "fields_fit (zip v bits)" "length v = length bits"
  shows "unpack_bits_64 (pack_bits_64 m (int a) v bits) (int a) bits = Some (map2 (\<lambda>v b. take_bit b v) v bits)"
proof -
  have "\<forall>(v, b) \<in> set (zip v bits). b \<le> 64" using assms(1) by (simp add: fields_fit_def)
  then show ?thesis
    using unpack_bits_loop_spec [of _ a 0 "zip v bits"] pack_bits_64_spec [OF assms(1), of m a] assms(2)
    by (simp add: unpack_bits_64_def)
qed

text \<open>C15. Fields that fit their widths come back from the packed bits exactly, whatever the memory held and wherever they
were put, values that cross a word or a byte included.\<close>

theorem pack_bits_roundtrip:
  assumes "length v = length bits" "\<And>i. i < length bits \<Longrightarrow> bits ! i \<le> 64 \<and> unat (v ! i) < 2 ^ (bits ! i)"
  shows "unpack_bits_64 (pack_bits_64 m (int a) v bits) (int a) bits = Some v"
proof -
  have fit: "b \<le> 64" "take_bit b x = x" if "(x, b) \<in> set (zip v bits)" for x b
  proof -
    have "\<exists>i. x = v ! i \<and> b = bits ! i \<and> i < length bits" using that assms(1) by (auto simp: set_zip)
    then have i: "b \<le> 64" "unat x < 2 ^ b" using assms(2) by auto
    show "b \<le> 64" by (rule i(1))
    show "take_bit b x = x" by (rule word_unat_eq_iff [THEN iffD2]) (use i(2) in \<open>simp add: unsigned_take_bit_eq take_bit_nat_eq_self\<close>)
  qed
  have "\<not> bit x k" if "(x, b) \<in> set (zip v bits)" "b \<le> k" for x b k
    using arg_cong [OF fit(2) [OF that(1)], of "\<lambda>x. bit x k"] that(2) by (simp add: bit_take_bit_iff)
  then have "fields_fit (zip v bits)" using fit(1) by (auto simp: fields_fit_def dest: in_set_butlastD)
  moreover have "map2 (\<lambda>v b. take_bit b v) v bits = v"
    by (rule nth_equalityI) (use assms(1) fit(2) in \<open>auto simp: set_zip\<close>)
  ultimately show ?thesis using pack_unpack_64 assms(1) by simp
qed

lemma pack_bits_roundtrip_witness:
  "unpack_bits_64 (pack_bits_64 (\<lambda>_. 7) 3 [5, 0x123456789abcdef, 9] [3, 60, 4]) 3 [3, 60, 4] = Some [5, 0x123456789abcdef, 9]"
proof -
  have "[3, 60, 4] ! i \<le> (64 :: nat) \<and> unat ([5, 0x123456789abcdef, 9] ! i :: u64a) < 2 ^ ([3, 60, 4] ! i)"
    if "i < length [3, 60, 4 :: nat]" for i
  proof -
    have "i < 3" using that by simp
    then consider "i = 0" | "i = 1" | "i = 2" by linarith
    then show ?thesis by cases simp_all
  qed
  then show ?thesis using pack_bits_roundtrip [of "[5, 0x123456789abcdef, 9]" "[3, 60, 4]" "\<lambda>_. 7" 3] by simp
qed

end
