(* ===== verification/RepeatPack.thy ===== *)
theory RepeatPack
  imports RepeatRange RepeatRing PackBits
begin

text \<open>
  Control blocks at the boundaries of a stream, \<open>repeatPack\<close> and \<open>repeatUnpack\<close> of \<open>src/nfa/repeat.c\<close>: the
  block is written relative to the current offset, in few bytes, and read back when the stream goes on.
  The packed bytes are a memory of their own, from address 0; \<open>dest\<close> does not overlap the repeat state.
\<close>

section \<open>Offsets relative to the current one\<close>

definition storePackedRelative :: "mem \<Rightarrow> u64a \<Rightarrow> u64a \<Rightarrow> u64a \<Rightarrow> u32 \<Rightarrow> mem" where
  "storePackedRelative dest val offset limit len =
     (let delta = offset - val;
          delta = (if limit \<le> delta then limit else delta)
      in partial_store_u64a dest 0 delta (unat len))"

definition loadPackedRelative :: "mem \<Rightarrow> u64a \<Rightarrow> u32 \<Rightarrow> u64a" where
  "loadPackedRelative src offset len =
     (let delta = partial_load_u64a src 0 (unat len) in offset - delta)"

section \<open>The models\<close>

definition ring_indices_len :: "u32 \<Rightarrow> u32" where
  "ring_indices_len cnt = (if cnt < 254 then 2 else 4)"

definition repeatPackRing :: "mem \<Rightarrow> RepeatInfo \<Rightarrow> RepeatRingControl \<Rightarrow> u64a \<Rightarrow> mem" where
  "repeatPackRing dest info xs offset =
     (let indices_len = ring_indices_len (repeatMax info);
          offset_len = packedCtrlSize info - indices_len;
          dest = storePackedRelative dest (ring_offset xs) offset (ucast (horizon info)) offset_len;
          p = int (unat offset_len)
      in if indices_len = 4 then unaligned_store_u16 (unaligned_store_u16 dest p (ring_first xs)) (p + 2) (ring_last xs)
         else dest(p := ucast (ring_first xs), p + 1 := ucast (ring_last xs)))"

definition repeatUnpackRing :: "mem \<Rightarrow> RepeatInfo \<Rightarrow> u64a \<Rightarrow> RepeatRingControl" where
  "repeatUnpackRing src info offset =
     (let indices_len = ring_indices_len (repeatMax info);
          offset_len = packedCtrlSize info - indices_len;
          p = int (unat offset_len)
      in if indices_len = 4
         then \<lparr>ring_offset = loadPackedRelative src offset offset_len,
               ring_first = unaligned_load_u16 src p, ring_last = unaligned_load_u16 src (p + 2)\<rparr>
         else \<lparr>ring_offset = loadPackedRelative src offset offset_len,
               ring_first = ucast (src p), ring_last = ucast (src (p + 1))\<rparr>)"

definition repeatPackOffset :: "mem \<Rightarrow> RepeatInfo \<Rightarrow> RepeatOffsetControl \<Rightarrow> u64a \<Rightarrow> mem" where
  "repeatPackOffset dest info xs offset =
     (if packedCtrlSize info = 0 then dest
      else storePackedRelative dest (off_offset xs) offset (ucast (horizon info)) (packedCtrlSize info))"

definition repeatUnpackOffset :: "mem \<Rightarrow> RepeatInfo \<Rightarrow> u64a \<Rightarrow> RepeatOffsetControl" where
  "repeatUnpackOffset src info offset =
     (if packedCtrlSize info = 0 then \<lparr>off_offset = 0\<rparr>
      else \<lparr>off_offset = loadPackedRelative src offset (packedCtrlSize info)\<rparr>)"

definition repeatPackRange :: "mem \<Rightarrow> RepeatInfo \<Rightarrow> RepeatRangeControl \<Rightarrow> u64a \<Rightarrow> mem" where
  "repeatPackRange dest info xs offset =
     (let dest = storePackedRelative dest (range_offset xs) offset (ucast (horizon info)) (packedCtrlSize info - 1)
      in dest(int (unat (packedCtrlSize info - 1)) := range_num xs))"

definition repeatUnpackRange :: "mem \<Rightarrow> RepeatInfo \<Rightarrow> u64a \<Rightarrow> RepeatRangeControl" where
  "repeatUnpackRange src info offset =
     \<lparr>range_offset = loadPackedRelative src offset (packedCtrlSize info - 1),
      range_num = src (int (unat (packedCtrlSize info - 1)))\<rparr>"

definition repeatPackBitmap :: "mem \<Rightarrow> RepeatInfo \<Rightarrow> RepeatBitmapControl \<Rightarrow> u64a \<Rightarrow> mem" where
  "repeatPackBitmap dest info xs offset =
     (let bound = ucast (repeatMax info);
          new_base = (if bound < offset then offset - bound else 0);
          bitmap = bm_bitmap xs;
          bitmap = (if bm_offset xs \<le> new_base
                    then let shift = new_base - bm_offset xs
                         in if shift < 64 then drop_bit (unat shift) bitmap else 0
                    else let shift = bm_offset xs - new_base
                         in if shift < 64 then push_bit (unat shift) bitmap else 0)
      in partial_store_u64a dest 0 bitmap (unat (packedCtrlSize info)))"

definition repeatUnpackBitmap :: "mem \<Rightarrow> RepeatInfo \<Rightarrow> u64a \<Rightarrow> RepeatBitmapControl" where
  "repeatUnpackBitmap src info offset =
     \<lparr>bm_offset = (if ucast (repeatMax info) < offset then offset - ucast (repeatMax info) else 0),
      bm_bitmap = partial_load_u64a src 0 (unat (packedCtrlSize info))\<rparr>"

definition repeatPackTrailer :: "mem \<Rightarrow> RepeatInfo \<Rightarrow> RepeatTrailerControl \<Rightarrow> u64a \<Rightarrow> mem" where
  "repeatPackTrailer dest info xs offset =
     (let top = (if tr_offset xs \<noteq> 0 then tr_offset xs - ucast (repeatMin info) else 0);
          top = offset - top;
          v = [min top (ucast (horizon info)), tr_bitmap xs]
      in pack_bits_64 dest 0 v (map unat (packedFieldSizes info)))"

definition repeatUnpackTrailer :: "mem \<Rightarrow> RepeatInfo \<Rightarrow> u64a \<Rightarrow> RepeatTrailerControl option" where
  "repeatUnpackTrailer src info offset =
     map_option (\<lambda>v. \<lparr>tr_offset = offset - v ! 0 + ucast (repeatMin info), tr_bitmap = v ! 1\<rparr>)
       (unpack_bits_64 src 0 (map unat (packedFieldSizes info)))"

section \<open>Reading back\<close>

lemma partial_load_store:
  assumes "n \<le> 8" "\<And>a. 0 \<le> a \<Longrightarrow> a < int n \<Longrightarrow> m' a = partial_store_u64a m 0 v n a"
  shows "partial_load_u64a m' 0 n = take_bit (8 * n) v"
proof (rule bit_word_eqI)
  fix k
  have "m' (int (k div 8)) = store_le n m 0 v (int (k div 8))" if "k < 8 * n"
    using assms(2) [of "int (k div 8)"] that assms(1) by (simp add: partial_store_u64a_le)
  then have "k < 8 * n \<Longrightarrow> gbit m' k = gbit (store_le n m (int 0) v) k" by (simp add: gbit_def)
  moreover have "bit (load_le n m' (int 0) :: u64a) k \<longleftrightarrow> k < 64 \<and> k < 8 * n \<and> gbit m' k"
    by (subst bit_load_gbit) simp
  moreover have "gbit (store_le n m (int 0) v) k = bit v k" if "k < 8 * n"
    using gbit_store [where n = n and v = v and a = 0] that assms(1) by simp
  ultimately show "bit (partial_load_u64a m' 0 n) k = bit (take_bit (8 * n) v) k"
    using assms(1) by (auto simp: partial_load_u64a_le bit_take_bit_iff dest: bit_imp_le_length)
qed

text \<open>\<open>len\<close> bytes hold every value up to \<open>h\<close>.\<close>

definition bytes_hold :: "nat \<Rightarrow> nat \<Rightarrow> bool" where
  "bytes_hold len h \<longleftrightarrow> len \<le> 8 \<and> h < 2 ^ (8 * len)"

lemma packed_relative:
  assumes "bytes_hold (unat len) (unat limit)" "unat val \<le> unat offset"
    "\<And>a. 0 \<le> a \<Longrightarrow> a < int (unat len) \<Longrightarrow> src a = storePackedRelative dest val offset limit len a"
  shows "unat (loadPackedRelative src offset len) = unat offset - min (unat offset - unat val) (unat limit)"
proof -
  define delta where "delta = (if limit \<le> offset - val then limit else offset - val)"
  have d: "unat delta = min (unat offset - unat val) (unat limit)"
    using unat_sub [of val offset] assms(2) by (simp add: delta_def word_le_nat_alt min_def)
  have "partial_load_u64a src 0 (unat len) = take_bit (8 * unat len) delta"
    by (rule partial_load_store [where m = dest])
      (use assms in \<open>auto simp: bytes_hold_def storePackedRelative_def Let_def delta_def\<close>)
  moreover have "take_bit (8 * unat len) delta = delta"
  proof -
    have "unat delta < 2 ^ (8 * unat len)" unfolding d by (rule le_less_trans [OF min.cobounded2]) (use assms(1) in \<open>simp add: bytes_hold_def\<close>)
    then show ?thesis
      by (simp add: word_unat_eq_iff unsigned_take_bit_eq take_bit_nat_eq_self)
  qed
  ultimately have "loadPackedRelative src offset len = offset - delta" by (simp add: loadPackedRelative_def)
  then show ?thesis using d unat_sub [of delta offset] by (simp add: word_le_nat_alt)
qed

section \<open>Each model keeps its answers across a boundary\<close>

text \<open>
  The laws the client of the contract relies on at a boundary: the block read back holds a history that answers
  every later question as before.
\<close>

locale packed_repeat = repeat_model +
  fixes boundary :: "'a \<Rightarrow> u64a \<Rightarrow> 'a option"
  assumes boundary_same: "ok \<Longrightarrow> in_stream (unat p) \<Longrightarrow> holds s C \<Longrightarrow> \<forall>t \<in> C. t \<le> unat p \<Longrightarrow>
    \<exists>s' C'. boundary s p = Some s' \<and> holds s' C' \<and> (\<forall>t \<in> C'. t \<le> unat p) \<and> rep_same info (unat p) C' C"
begin

lemma knows_boundary:
  assumes "ok" "in_stream (unat p)" "knows s now T" "now \<le> unat p"
  shows "\<exists>s'. boundary s p = Some s' \<and> knows s' (unat p) T"
proof -
  obtain C where C: "holds s C" "\<forall>t \<in> C. t \<le> unat p" "rep_same info (unat p) C T" and T: "\<forall>t \<in> T. t \<le> unat p"
    using knows_later [OF assms(3,4)] by (auto simp: knows_def)
  obtain s' C' where "boundary s p = Some s'" "holds s' C'" "\<forall>t \<in> C'. t \<le> unat p" "rep_same info (unat p) C' C"
    using boundary_same [OF assms(1,2) C(1,2)] by blast
  then show ?thesis using T rep_same_trans [OF _ C(3)] by (auto simp: knows_def)
qed

end

lemma stale_same:
  assumes "repeatMax info \<noteq> REPEAT_INF" "\<forall>t \<in> A. t + unat (repeatMax info) < p" "\<forall>t \<in> B. t + unat (repeatMax info) < p"
  shows "rep_same info p A B"
  using assms by (fastforce simp: rep_same_def rep_match_def)

text \<open>An offset beyond the horizon is moved up to it: the history with it, and it is stale before and after.\<close>

lemma rep_match_shift: "rep_match info ((+) s ` C) (q + s) \<longleftrightarrow> rep_match info C q"
  by (auto simp: rep_match_def)

lemma pack_offset:
  assumes "bytes_hold (unat (packedCtrlSize info)) (unat (horizon info))" "packedCtrlSize info \<noteq> 0"
    "unat (off_offset xs) \<le> unat p"
  shows "unat (off_offset (repeatUnpackOffset (repeatPackOffset dest info xs p) info p))
    = unat p - min (unat p - unat (off_offset xs)) (unat (horizon info))"
  using packed_relative [of "packedCtrlSize info" "ucast (horizon info)" "off_offset xs" p _ dest] assms
  by (simp add: repeatUnpackOffset_def repeatPackOffset_def)

lemma first_boundary:
  assumes "bytes_hold (unat (packedCtrlSize info)) (unat (horizon info))" "packedCtrlSize info \<noteq> 0"
    "horizon info = repeatMin info" "repeatMax info = REPEAT_INF" "offset_holds xs C" "\<forall>t \<in> C. t \<le> unat p"
  shows "\<exists>C'. offset_holds (repeatUnpackOffset (repeatPackOffset dest info xs p) info p) C'
    \<and> (\<forall>t \<in> C'. t \<le> unat p) \<and> rep_same info (unat p) C' C"
  using pack_offset [OF assms(1,2), of xs p dest] assms(3-6)
  by (auto simp: offset_holds_def rep_same_def min_def)

lemma last_boundary:
  assumes "bytes_hold (unat (packedCtrlSize info)) (unat (horizon info))" "packedCtrlSize info \<noteq> 0"
    "unat (horizon info) = unat (repeatMax info) + 1" "repeatMax info \<noteq> REPEAT_INF" "offset_holds xs C" "\<forall>t \<in> C. t \<le> unat p"
  shows "\<exists>C'. offset_holds (repeatUnpackOffset (repeatPackOffset dest info xs p) info p) C'
    \<and> (\<forall>t \<in> C'. t \<le> unat p) \<and> rep_same info (unat p) C' C"
  using pack_offset [OF assms(1,2), of xs p dest] assms(3-6)
  by (auto simp: offset_holds_def rep_same_def min_def)

text \<open>BITMAP: the bits are moved to the last \<open>repeatMax + 1\<close> offsets.\<close>

lemma bitmap_pull:
  fixes base bk :: u64a
  assumes "\<forall>i \<in> bitset b. i + unat bk < 64" "unat bk \<le> unat base"
  shows "bitmap_tops (base - bk) (if bk < 64 then push_bit (unat bk) b else 0) = bitmap_tops base b"
proof -
  have base: "unat (base - bk) = unat base - unat bk" using assms(2) unat_sub by (simp add: word_le_nat_alt)
  have bits: "bitset (if bk < 64 then push_bit (unat bk) b else 0) = (\<lambda>i. i + unat bk) ` bitset b"
  proof -
    have "k \<in> bitset (if bk < 64 then push_bit (unat bk) b else 0) \<longleftrightarrow> k \<in> (\<lambda>i. i + unat bk) ` bitset b" for k
    proof
      assume "k \<in> bitset (if bk < 64 then push_bit (unat bk) b else 0)"
      then show "k \<in> (\<lambda>i. i + unat bk) ` bitset b"
        by (intro image_eqI [of _ _ "k - unat bk"]) (auto simp: bitset_def bit_simps split: if_splits)
    next
      assume "k \<in> (\<lambda>i. i + unat bk) ` bitset b"
      then obtain i where i: "i \<in> bitset b" "k = i + unat bk" by auto
      then have "k < 64" "unat bk < 64" using assms(1) by auto
      then show "k \<in> bitset (if bk < 64 then push_bit (unat bk) b else 0)"
        using i by (simp add: bitset_def bit_simps word_less_nat_alt)
    qed
    then show ?thesis by blast
  qed
  show ?thesis unfolding bitmap_tops_def bits base image_image using assms(2) by (intro image_cong) auto
qed

lemma bitmap_boundary:
  assumes "bounds_ok info" "repeatMax info < 64" "unat (repeatMax info) < 8 * unat (packedCtrlSize info)"
    "unat (packedCtrlSize info) \<le> 8" "bitmap_holds xs C" "\<forall>t \<in> C. t \<le> unat p"
    "in_stream (unat p)"
  shows "\<exists>C'. bitmap_holds (repeatUnpackBitmap (repeatPackBitmap dest info xs p) info p) C'
    \<and> (\<forall>t \<in> C'. t \<le> unat p) \<and> rep_same info (unat p) C' C"
proof -
  define base where "base = bm_offset xs"
  define b where "b = bm_bitmap xs"
  define mx where "mx = unat (repeatMax info)"
  define new_base :: u64a where "new_base = (if ucast (repeatMax info) < p then p - ucast (repeatMax info) else 0)"
  have C: "C = bitmap_tops base b" using assms(5) by (simp add: bitmap_holds_def base_def b_def)
  have nb: "unat new_base = unat p - mx"
    using unat_sub [of "ucast (repeatMax info)" p]
    by (simp add: new_base_def mx_def word_less_nat_alt word_le_nat_alt)
  have mx: "mx < 64" "repeatMax info \<noteq> REPEAT_INF"
    using assms(2) by (auto simp: mx_def word_less_nat_alt REPEAT_INF_def)
  define b' where "b' = (if base \<le> new_base
      then (if new_base - base < 64 then drop_bit (unat (new_base - base)) b else 0)
      else (if base - new_base < 64 then push_bit (unat (base - new_base)) b else 0))"
  have tops: "bitmap_tops new_base b' = {t \<in> C. unat p - mx \<le> t}"
  proof (cases "base \<le> new_base")
    case True
    then have d: "unat (new_base - base) = unat new_base - unat base" "unat base \<le> unat new_base"
      using unat_sub by (auto simp: word_le_nat_alt)
    have flip: "(if new_base - base < 64 then drop_bit (unat (new_base - base)) b else 0)
        = (if 64 \<le> new_base - base then 0 else drop_bit (unat (new_base - base)) b)" by (simp add: not_less)
    have "unat base + unat (new_base - base) < 2 ^ 64"
    proof -
      have "unat new_base < 2 ^ LENGTH(64)" by (rule unsigned_less)
      then show ?thesis using d by simp
    qed
    from bitmap_push [OF this, of b] have "bitmap_tops new_base b' = {t \<in> C. unat base + unat (new_base - base) \<le> t}"
      using True by (simp add: b'_def flip C)
    moreover have "unat base + unat (new_base - base) = unat p - mx" using d nb by linarith
    ultimately show ?thesis by simp
  next
    case False
    then have d: "unat (base - new_base) = unat base - unat new_base" "unat new_base < unat base"
      using unat_sub [of new_base base] by (auto simp: word_le_nat_alt)
    have "i + unat (base - new_base) < 64" if "i \<in> bitset b" for i
    proof -
      have "unat base + i \<le> unat p" using that assms(6) by (auto simp: C bitmap_tops_def)
      then show ?thesis using d nb mx(1) by linarith
    qed
    moreover have "unat (base - new_base) \<le> unat base" using d by simp
    ultimately have "bitmap_tops (base - (base - new_base)) b' = bitmap_tops base b"
      using bitmap_pull [of b "base - new_base" base] False by (simp add: b'_def)
    moreover have "unat p - mx \<le> t" if "t \<in> C" for t using that d(2) nb by (auto simp: C bitmap_tops_def)
    ultimately show ?thesis by (auto simp: C)
  qed
  have "take_bit (8 * unat (packedCtrlSize info)) b' = b'"
  proof -
    have "i < 8 * unat (packedCtrlSize info)" if "bit b' i" for i
    proof -
      have "unat new_base + i \<in> bitmap_tops new_base b'" using that by (simp add: bitmap_tops_def bitset_def)
      then have "unat new_base + i \<le> unat p" unfolding tops using assms(6) by blast
      then show ?thesis using nb assms(3) mx_def by linarith
    qed
    then show ?thesis by (auto simp: bit_eq_iff bit_take_bit_iff)
  qed
  moreover have "repeatPackBitmap dest info xs p = partial_store_u64a dest 0 b' (unat (packedCtrlSize info))"
    unfolding repeatPackBitmap_def Let_def b'_def b_def base_def new_base_def by simp
  ultimately have "repeatUnpackBitmap (repeatPackBitmap dest info xs p) info p = \<lparr>bm_offset = new_base, bm_bitmap = b'\<rparr>"
    using partial_load_store [OF assms(4), of _ dest b'] by (simp add: repeatUnpackBitmap_def new_base_def)
  then have "bitmap_holds (repeatUnpackBitmap (repeatPackBitmap dest info xs p) info p) {t \<in> C. unat p - mx \<le> t}"
    using tops in_stream_le [OF assms(7), of "unat p - mx"] by (simp add: bitmap_holds_def nb)
  moreover have "rep_same info (unat p) {t \<in> C. unat p - mx \<le> t} C"
    by (rule rep_same_forget [OF mx(2)]) (auto simp: mx_def)
  ultimately show ?thesis using assms(6) by blast
qed

text \<open>TRAILER: the distance of the last top and the earlier matches are packed as two fields.\<close>

lemma Max_shift:
  fixes C :: "nat set"
  assumes "finite C" "C \<noteq> {}"
  shows "Max ((+) s ` C) = s + Max C"
  by (subst mono_Max_commute [symmetric]) (use assms in \<open>auto simp: mono_def\<close>)

lemma trailer_holds_shift:
  assumes "trailer_holds info xs C" "unat (tr_offset xs') = unat (tr_offset xs) + s"
    "\<forall>i < unat (repeatMin info). bit (tr_bitmap xs') i = bit (tr_bitmap xs) i"
  shows "trailer_holds info xs' ((+) s ` C)"
proof -
  have C: "finite C" "C \<noteq> {}" using assms(1) by (auto simp: trailer_holds_def)
  have "rep_match info ((+) s ` C) (s + Max C + unat (repeatMin info) - 1 - i)
      \<longleftrightarrow> rep_match info C (Max C + unat (repeatMin info) - 1 - i)" if "i < unat (repeatMin info)" for i
  proof -
    have "s + Max C + unat (repeatMin info) - 1 - i = Max C + unat (repeatMin info) - 1 - i + s" using that by simp
    then show ?thesis by (simp only: rep_match_shift)
  qed
  then show ?thesis
    unfolding trailer_holds_def Max_shift [OF C] using assms C by (auto simp: trailer_holds_def)
qed

lemma trailer_boundary:
  assumes "trailer_ok info" "packedFieldSizes info = [fsize, repeatMin info]" "unat (repeatMax info) + 1 < 2 ^ unat fsize"
    "unat fsize \<le> 64" "unat (horizon info) = unat (repeatMax info) + 1"
    "in_stream (unat p)" "trailer_holds info xs C" "\<forall>t \<in> C. t \<le> unat p"
  shows "\<exists>xs' C'. repeatUnpackTrailer (repeatPackTrailer dest info xs p) info p = Some xs'
    \<and> trailer_holds info xs' C' \<and> (\<forall>t \<in> C'. t \<le> unat p) \<and> rep_same info (unat p) C' C"
proof -
  note D = trailer_holdsD [OF assms(1,7,6,8)]
  define mx where "mx = unat (repeatMax info)"
  have inf: "repeatMax info \<noteq> REPEAT_INF" using assms(1) by (simp add: trailer_ok_def)
  define top where "top = (if tr_offset xs \<noteq> 0 then tr_offset xs - ucast (repeatMin info) else 0)"
  have top: "unat top = Max C"
    using D(3,5) by (cases "tr_offset xs = 0") (auto simp: top_def unat_eq_0)
  have age: "unat (p - top) = unat p - Max C"
    using unat_sub [of top p] D(2) top by (simp add: word_le_nat_alt)
  define v0 where "v0 = min (p - top) (ucast (horizon info))"
  have v0: "unat v0 = min (unat p - Max C) (mx + 1)"
    using age assms(5) by (simp add: v0_def min_def word_le_nat_alt mx_def)
  have "unat v0 < 2 ^ unat fsize" using v0 assms(3) by (simp add: mx_def)
  then have cut: "take_bit (unat fsize) v0 = v0"
    by (simp add: word_unat_eq_iff unsigned_take_bit_eq take_bit_nat_eq_self)
  have "fields_fit (zip [v0, tr_bitmap xs] [unat fsize, unat (repeatMin info)])"
  proof -
    have "\<not> bit v0 k" if "unat fsize \<le> k" for k
      using arg_cong [OF cut, of "\<lambda>w. bit w k"] that by (simp add: bit_take_bit_iff)
    then show ?thesis using assms(4) D(6) by (auto simp: fields_fit_def)
  qed
  then have "repeatUnpackTrailer (repeatPackTrailer dest info xs p) info p
      = Some \<lparr>tr_offset = p - v0 + ucast (repeatMin info), tr_bitmap = take_bit (unat (repeatMin info)) (tr_bitmap xs)\<rparr>"
    using pack_unpack_64 [of "[v0, tr_bitmap xs]" "[unat fsize, unat (repeatMin info)]" dest 0] cut
    by (simp add: repeatUnpackTrailer_def repeatPackTrailer_def Let_def assms(2) top_def [symmetric] v0_def [symmetric])
  moreover define xs' where
    "xs' = \<lparr>tr_offset = p - v0 + ucast (repeatMin info), tr_bitmap = take_bit (unat (repeatMin info)) (tr_bitmap xs)\<rparr>"
  ultimately have run: "repeatUnpackTrailer (repeatPackTrailer dest info xs p) info p = Some xs'" by simp
  define s where "s = unat p - Max C - (mx + 1)"
  have "unat (p - v0) = Max C + s"
    using unat_sub [of v0 p] v0 D(2) by (simp add: word_le_nat_alt s_def)
  then have "unat (tr_offset xs') = unat (tr_offset xs) + s"
    using unat_add_small [of "p - v0" "ucast (repeatMin info)"] D(2,3,6) assms(6)
    by (simp add: xs'_def in_stream_def s_def)
  then have holds: "trailer_holds info xs' ((+) s ` C)"
    by (rule trailer_holds_shift [OF assms(7)]) (simp add: xs'_def bit_take_bit_iff)
  have le: "\<forall>t \<in> (+) s ` C. t \<le> Max C + s" using Max_ge [OF D(9)] by auto
  have "rep_same info (unat p) ((+) s ` C) C"
  proof (cases "s = 0")
    case False
    then show ?thesis
      by (intro stale_same [OF inf]) (use le Max_ge [OF D(9)] in \<open>fastforce simp: s_def mx_def\<close>)+
  qed simp
  moreover have "\<forall>t \<in> (+) s ` C. t \<le> unat p" using le D(2) by (auto simp: s_def)
  ultimately show ?thesis using run holds by blast
qed

text \<open>RANGE and RING keep their array and their ring in place: only the offset of the block may move.\<close>

lemma list_inv_shift:
  assumes "E \<noteq> []"
  shows "list_inv info (map ((+) c) E) \<longleftrightarrow> list_inv info E"
proof -
  have "sorted_wrt (<) (map ((+) c) E) \<longleftrightarrow> sorted_wrt (<) E" by (simp add: sorted_wrt_map)
  then show ?thesis using assms by (simp add: list_inv_def hd_map last_map)
qed

lemma range_list_entries: "range_list xs m = map ((+) (unat (range_offset xs))) (map (\<lambda>i. unat (range_entry m i)) [0..<unat (range_num xs)])"
  by (simp add: range_list_def)

lemma range_boundary:
  assumes "range_ok info" "bytes_hold (unat (packedCtrlSize info - 1)) (unat (horizon info))"
    "unat (horizon info) = 2 * unat (repeatMax info) + 1" "range_holds info (xs, m) C" "\<forall>t \<in> C. t \<le> unat p"
  shows "\<exists>C'. range_holds info (repeatUnpackRange (repeatPackRange dest info xs p) info p, m) C'
    \<and> (\<forall>t \<in> C'. t \<le> unat p) \<and> rep_same info (unat p) C' C"
proof -
  define len where "len = packedCtrlSize info - 1"
  define xs' where "xs' = repeatUnpackRange (repeatPackRange dest info xs p) info p"
  define mx where "mx = unat (repeatMax info)"
  have inf: "repeatMax info \<noteq> REPEAT_INF" by (rule range_ok_bounds(2) [OF assms(1)])
  have inv: "range_inv info xs m" and C: "C = set (range_list xs m)"
    using assms(4) by (simp_all add: range_holds_def)
  note I = range_invD [OF inv]
  have base: "unat (range_offset xs) \<le> unat p" using assms(5) I(2,5) C hd_in_set by metis
  have num: "range_num xs' = range_num xs"
    by (simp add: xs'_def repeatUnpackRange_def repeatPackRange_def Let_def)
  have src: "repeatPackRange dest info xs p a = storePackedRelative dest (range_offset xs) p (ucast (horizon info)) len a"
    if "a < int (unat len)" for a
    using that by (simp add: repeatPackRange_def Let_def len_def)
  have off: "unat (range_offset xs') = unat p - min (unat p - unat (range_offset xs)) (2 * mx + 1)"
    using packed_relative [OF _ base, of len "ucast (horizon info)" "repeatPackRange dest info xs p" dest] assms(2,3) src
    by (simp add: xs'_def repeatUnpackRange_def len_def mx_def)
  define s where "s = unat p - unat (range_offset xs) - (2 * mx + 1)"
  have off': "unat (range_offset xs') = unat (range_offset xs) + s" using off base by (simp add: s_def)
  define E where "E = map (\<lambda>i. unat (range_entry m i)) [0..<unat (range_num xs)]"
  have E: "E \<noteq> []" using I(1) by (simp add: E_def)
  have L: "range_list xs m = map ((+) (unat (range_offset xs))) E"
    "range_list xs' m = map ((+) (unat (range_offset xs) + s)) E"
    unfolding range_list_entries num off' E_def by simp_all
  have "list_inv info (range_list xs' m)" "hd (range_list xs' m) = unat (range_offset xs')"
    using inv E unfolding range_inv_def L by (simp_all add: list_inv_shift off' hd_map)
  then have holds: "range_holds info (xs', m) (set (range_list xs' m))" by (simp add: range_holds_def range_inv_def)
  have C': "set (range_list xs' m) = (+) s ` C" unfolding C L set_map image_image by (intro image_cong) auto
  have span: "t \<le> unat (range_offset xs) + mx" if "t \<in> C" for t
  proof -
    have "t \<le> last (range_list xs m)" unfolding last_Max [OF I(3,5)] using that C by (intro Max_ge) auto
    then show ?thesis using I(6) mx_def by linarith
  qed
  have "rep_same info (unat p) ((+) s ` C) C"
  proof (cases "s = 0")
    case False
    then show ?thesis by (intro stale_same [OF inf]) (use span in \<open>fastforce simp: s_def mx_def\<close>)+
  qed simp
  moreover have "\<forall>t \<in> (+) s ` C. t \<le> unat p"
  proof (cases "s = 0")
    case True
    then show ?thesis using assms(5) by simp
  next
    case False
    then show ?thesis using span by (fastforce simp: s_def)
  qed
  moreover have "range_holds info (xs', m) ((+) s ` C)" using holds unfolding C' .
  ultimately show ?thesis unfolding xs'_def [symmetric] by (intro exI [of _ "(+) s ` C"] conjI)
qed

lemma load_store_u16_same: "unaligned_load_u16 (unaligned_store_u16 m p v) p = v"
proof (rule bit_word_eqI)
  fix k assume k: "k < LENGTH(16)"
  then have k16: "k < 16" and "k div 8 < 2" "k mod 8 < 8" "8 * (k div 8) + k mod 8 = k" by (simp_all add: less_mult_imp_div_less)
  then show "bit (unaligned_load_u16 (unaligned_store_u16 m p v) p) k = bit v k"
    using k by (auto simp: unaligned_load_u16_def unaligned_store_u16_def bit_load_le store_le_at bit_ucast_iff
        bit_drop_bit_eq dest: bit_imp_le_length)
qed

lemma load_store_u16_other:
  assumes "p + 2 \<le> q \<or> q + 2 \<le> p"
  shows "unaligned_load_u16 (unaligned_store_u16 m p v) q = unaligned_load_u16 m q"
proof (rule bit_word_eqI)
  fix k assume k: "k < LENGTH(16)"
  then have "k div 8 < 2" by (simp add: less_mult_imp_div_less)
  then have "\<not> (p \<le> q + int (k div 8) \<and> q + int (k div 8) < p + 2)" using assms by linarith
  then show "bit (unaligned_load_u16 (unaligned_store_u16 m p v) q) k = bit (unaligned_load_u16 m q) k"
    by (auto simp: unaligned_load_u16_def unaligned_store_u16_def bit_load_le store_le_at)
qed

lemma ring_indices_kept:
  assumes "unat (ring_first xs) \<le> unat (repeatMax info)" "unat (ring_last xs) \<le> unat (repeatMax info)"
  shows "ring_first (repeatUnpackRing (repeatPackRing dest info xs p) info p) = ring_first xs"
    "ring_last (repeatUnpackRing (repeatPackRing dest info xs p) info p) = ring_last xs"
proof -
  define len where "len = packedCtrlSize info - ring_indices_len (repeatMax info)"
  have small: "ucast (ucast x :: u8) = (x :: u16)" if "unat x \<le> unat (repeatMax info)" "repeatMax info < 254" for x
  proof -
    have "unat x < 256" using that by (simp add: word_less_nat_alt)
    then have "unat (ucast (ucast x :: u8) :: u16) = unat x"
      by (simp add: unat_widen) (simp add: unsigned_ucast_eq take_bit_nat_eq_self)
    then show ?thesis by (simp add: word_unat_eq_iff)
  qed
  show "ring_first (repeatUnpackRing (repeatPackRing dest info xs p) info p) = ring_first xs"
    "ring_last (repeatUnpackRing (repeatPackRing dest info xs p) info p) = ring_last xs"
    using assms small [of "ring_first xs"] small [of "ring_last xs"]
    unfolding repeatUnpackRing_def repeatPackRing_def Let_def len_def [symmetric]
    by (auto simp: ring_indices_len_def load_store_u16_same load_store_u16_other)
qed

lemma ring_boundary:
  assumes "ring_ok info" "bytes_hold (unat (packedCtrlSize info - ring_indices_len (repeatMax info))) (unat (horizon info))"
    "unat (horizon info) = 2 * unat (repeatMax info) + 1" "ring_holds info (xs, m) C" "\<forall>t \<in> C. t \<le> unat p"
  shows "\<exists>C'. ring_holds info (repeatUnpackRing (repeatPackRing dest info xs p) info p, m) C'
    \<and> (\<forall>t \<in> C'. t \<le> unat p) \<and> rep_same info (unat p) C' C"
proof -
  define len where "len = packedCtrlSize info - ring_indices_len (repeatMax info)"
  define xs' where "xs' = repeatUnpackRing (repeatPackRing dest info xs p) info p"
  define mx where "mx = unat (repeatMax info)"
  have inf: "repeatMax info \<noteq> REPEAT_INF" by (rule ring_okD(2) [OF assms(1)])
  have inv: "ring_inv info xs m" and C: "C = ring_tops info xs m" using assms(4) by (simp_all add: ring_holds_def)
  note I = ring_invD [OF inv]
  have idx: "ring_first xs' = ring_first xs" "ring_last xs' = ring_last xs"
    unfolding xs'_def by (rule ring_indices_kept; use I(2,3) in simp)+
  have Mx: "unat (ring_offset xs) + ring_occ info xs - 1 \<in> C" unfolding C by (rule Max_ring_tops(2) [OF inv])
  then have base: "unat (ring_offset xs) \<le> unat p" using assms(5) I(4) by force
  have src: "repeatPackRing dest info xs p a = storePackedRelative dest (ring_offset xs) p (ucast (horizon info)) len a"
    if "a < int (unat len)" for a
    using that unfolding repeatPackRing_def Let_def len_def [symmetric]
    by (simp add: unaligned_store_u16_def store_le_at)
  have "ring_offset xs' = loadPackedRelative (repeatPackRing dest info xs p) p len"
    by (simp add: xs'_def repeatUnpackRing_def Let_def len_def)
  then have off: "unat (ring_offset xs') = unat p - min (unat p - unat (ring_offset xs)) (2 * mx + 1)"
    using packed_relative [OF _ base, of len "ucast (horizon info)" "repeatPackRing dest info xs p" dest] assms(2,3) src
    by (simp add: len_def mx_def)
  define s where "s = unat p - unat (ring_offset xs) - (2 * mx + 1)"
  have off': "unat (ring_offset xs') = unat (ring_offset xs) + s" using off base by (simp add: s_def)
  have occ: "ring_occ info xs' = ring_occ info xs" by (simp add: ring_occ_def idx)
  have inv': "ring_inv info xs' m" using inv by (simp add: ring_inv_def idx occ)
  have C': "ring_tops info xs' m = (+) s ` C"
    unfolding C ring_tops_def idx occ off' image_image by (intro image_cong) auto
  have span: "t \<le> unat (ring_offset xs) + mx" if "t \<in> C" for t
    using that I(5) by (auto simp: C ring_tops_def mx_def)
  have "rep_same info (unat p) ((+) s ` C) C"
  proof (cases "s = 0")
    case False
    then show ?thesis by (intro stale_same [OF inf]) (use span in \<open>fastforce simp: s_def mx_def\<close>)+
  qed simp
  moreover have "\<forall>t \<in> (+) s ` C. t \<le> unat p"
  proof (cases "s = 0")
    case True
    then show ?thesis using assms(5) by simp
  next
    case False
    then show ?thesis using span by (fastforce simp: s_def)
  qed
  moreover have "ring_holds info (xs', m) ((+) s ` C)" using inv' by (simp add: ring_holds_def C')
  ultimately show ?thesis unfolding xs'_def [symmetric] by (intro exI [of _ "(+) s ` C"] conjI)
qed

end
