(* ===== verification/RepeatSparse.thy ===== *)
theory RepeatSparse
  imports RepeatRing RepeatPack
begin

text \<open>
  The SPARSE_OPTIMAL_P model of \<open>src/nfa/repeat.c\<close>: tops at least \<open>minPeriod\<close> apart, in patches of \<open>patchSize\<close>
  offsets.  A ring of \<open>patchCount\<close> patches has a multibit of the patches in use, from address 0 of the repeat
  state, and one number of \<open>encodingSize\<close> bytes for every patch, from \<open>patchesOffset\<close>: the sum of the table
  entries at the offsets of its tops.  \<open>implTable\<close> is the table behind the \<open>RepeatInfo\<close>, in zeroed bytecode.
\<close>

section \<open>Operations\<close>

definition table_at :: "RepeatInfo \<Rightarrow> nat \<Rightarrow> u64a" where
  "table_at info k = (if k < length (implTable info) then implTable info ! k else 0)"

definition load_patch :: "RepeatInfo \<Rightarrow> mem \<Rightarrow> u32 \<Rightarrow> u64a" where
  "load_patch info m p =
     partial_load_u64a m (int (unat (patchesOffset info)) + int (unat (encodingSize info * p))) (unat (encodingSize info))"

definition store_patch :: "RepeatInfo \<Rightarrow> mem \<Rightarrow> u32 \<Rightarrow> u64a \<Rightarrow> mem" where
  "store_patch info m p val =
     partial_store_u64a m (int (unat (patchesOffset info)) + int (unat (encodingSize info * p))) val (unat (encodingSize info))"

definition storeInitialRingTopPatch ::
  "RepeatInfo \<Rightarrow> RepeatRingControl \<Rightarrow> mem \<Rightarrow> u64a \<Rightarrow> RepeatRingControl \<times> mem" where
  "storeInitialRingTopPatch info xs m offset =
     (let patch_count = unat (patchCount info);
          m = mmbit_clear m patch_count;
          m = fst (mmbit_set m patch_count 0);
          m = store_patch info m 0 1
      in (xs\<lparr>ring_offset := offset, ring_first := 0, ring_last := 1\<rparr>, m))"

text \<open>The loop of \<open>getSparseOptimalTargetValue\<close>; its index is \<open>u32\<close> and could wrap for a bad table.\<close>

partial_function (option) target_value_loop ::
  "RepeatInfo \<Rightarrow> u32 \<Rightarrow> u32 \<Rightarrow> u64a \<Rightarrow> u32 \<Rightarrow> (u32 \<times> u64a) option" where
  "target_value_loop info limit i val loc =
     (if limit < i then Some (loc, val)
      else let tmp = table_at info (unat (patchSize info - i))
           in if tmp \<le> val then target_value_loop info limit (i + (minPeriod info - 1) + 1) (val - tmp) i
              else target_value_loop info limit (i + 1) val loc)"

definition getSparseOptimalTargetValue :: "RepeatInfo \<Rightarrow> u32 \<Rightarrow> u64a \<Rightarrow> (u32 \<times> u64a) option" where
  "getSparseOptimalTargetValue info tval val = target_value_loop info (patchSize info - tval) 1 val 0"

fun last_top_loop :: "RepeatInfo \<Rightarrow> u64a \<Rightarrow> u64a \<Rightarrow> nat \<Rightarrow> u64a" where
  "last_top_loop info base val 0 = 0"
| "last_top_loop info base val (Suc i) =
     (if table_at info i \<le> val then base + of_nat i else last_top_loop info base val i)"

definition sparseLastTop :: "RepeatInfo \<Rightarrow> RepeatRingControl \<Rightarrow> mem \<Rightarrow> u64a" where
  "sparseLastTop info xs m =
     (let occ = ringOccupancy xs (patchCount info);
          patch = ucast (ring_first xs) + occ - 1;
          patch = (if patchCount info \<le> patch then patch - patchCount info else patch);
          val = load_patch info m patch
      in last_top_loop info (ring_offset xs + ucast ((occ - 1) * patchSize info)) val (unat (patchSize info)))"

definition repeatLastTopSparseOptimalP :: "RepeatInfo \<Rightarrow> RepeatRingControl \<Rightarrow> mem \<Rightarrow> u64a" where
  "repeatLastTopSparseOptimalP info xs m = sparseLastTop info xs m"

text \<open>The two scans of \<open>repeatNextMatchSparseOptimalP\<close>: up to the end of the multibit, then from its start.\<close>

partial_function (option) next_sparse_scan ::
  "RepeatInfo \<Rightarrow> RepeatRingControl \<Rightarrow> mem \<Rightarrow> u64a \<Rightarrow> nat \<Rightarrow> nat \<Rightarrow> u32 \<Rightarrow> nat \<Rightarrow> u64a option option" where
  "next_sparse_scan info xs m nextOffset begn endp low p =
     (if p = MMB_INVALID then Some None
      else let low = (if p \<noteq> begn then 0 else low);
               val = load_patch info m (of_nat p);
               p1 = (if ucast (ring_first xs) \<le> (of_nat p :: u32) then of_nat p - ucast (ring_first xs)
                     else of_nat p + patchCount info - ucast (ring_first xs))
           in Option.bind (if val \<noteq> 0 then map_option fst (getSparseOptimalTargetValue info low val) else Some 0) (\<lambda>loc.
              let diff = ucast ((p1 + 1) * patchSize info) - ucast loc
              in if loc \<noteq> 0 then Some (Some (max nextOffset (ring_offset xs + ucast (repeatMin info) + diff)))
                 else Option.bind (mmbit_iterate_bounded m (unat (patchCount info)) (p + 1) endp) (\<lambda>p.
                      next_sparse_scan info xs m nextOffset begn endp 0 p)))"

partial_function (option) next_sparse_wrapped ::
  "RepeatInfo \<Rightarrow> RepeatRingControl \<Rightarrow> mem \<Rightarrow> u64a \<Rightarrow> nat \<Rightarrow> nat \<Rightarrow> u64a option" where
  "next_sparse_wrapped info xs m nextOffset endp p =
     (if p = MMB_INVALID then Some 0
      else let val = load_patch info m (of_nat p)
           in Option.bind (if val \<noteq> 0 then map_option fst (getSparseOptimalTargetValue info 0 val) else Some 0) (\<lambda>loc.
              let diff = ucast ((of_nat p + 1) * patchSize info) - ucast loc
              in if loc \<noteq> 0
                 then Some (max nextOffset (ring_offset xs + ucast (repeatMin info) + diff
                            + ucast ((of_nat endp - ucast (ring_first xs)) * patchSize info)))
                 else Option.bind (mmbit_iterate_bounded m (unat (patchCount info)) (p + 1) (unat (ring_last xs))) (\<lambda>p.
                      next_sparse_wrapped info xs m nextOffset endp p)))"

definition repeatNextMatchSparseOptimalP :: "RepeatInfo \<Rightarrow> RepeatRingControl \<Rightarrow> mem \<Rightarrow> u64a \<Rightarrow> u64a option" where
  "repeatNextMatchSparseOptimalP info xs m offset =
     (let nextOffset = offset + 1;
          scan = (\<lambda>patch tval.
            if patchCount info \<le> patch then Some 0
            else let begn = ucast (ring_first xs) + patch;
                     begn = (if patchCount info \<le> begn then begn - patchCount info else begn);
                     endp = (if ucast (ring_last xs) \<le> begn then patchCount info else ucast (ring_last xs))
                 in Option.bind (mmbit_iterate_bounded m (unat (patchCount info)) (unat begn) (unat endp)) (\<lambda>p.
                    Option.bind (next_sparse_scan info xs m nextOffset (unat begn) (unat endp) tval p) (\<lambda>found.
                    case found of
                      Some rv \<Rightarrow> Some rv
                    | None \<Rightarrow>
                        if ucast (ring_last xs) \<le> begn
                        then Option.bind (mmbit_iterate_bounded m (unat (patchCount info)) 0 (unat (ring_last xs))) (\<lambda>p.
                             next_sparse_wrapped info xs m nextOffset (unat endp) p)
                        else Some 0)))
      in if nextOffset \<le> ring_offset xs + ucast (repeatMin info) then scan (ucast (ring_first xs)) 0
         else if sparseLastTop info xs m + ucast (repeatMax info) < nextOffset then Some 0
         else let delta = ucast (nextOffset - ring_offset xs) :: u32;
                  lower = (if repeatMax info < delta then delta - repeatMax info else 0);
                  patch = lower div patchSize info;
                  tval = lower - patch * patchSize info
              in scan patch tval)"

text \<open>The patches after the last one, up to the one of the new top, are emptied; the new one is \<open>idx\<close>.\<close>

definition open_patches ::
  "RepeatInfo \<Rightarrow> RepeatRingControl \<Rightarrow> mem \<Rightarrow> u32 \<Rightarrow> (RepeatRingControl \<times> mem \<times> u32) option" where
  "open_patches info xs m idx =
     (let patch_count = patchCount info
      in Option.bind (mmbit_unset_range m (unat patch_count) (unat (ring_last xs)) (unat (min idx patch_count))) (\<lambda>m.
         Option.bind (if patch_count \<le> idx
                      then let idx = idx - patch_count
                           in map_option (Pair idx) (mmbit_unset_range m (unat patch_count) 0 (unat (idx + 1)))
                      else Some (idx, m)) (\<lambda>(idx, m).
         let last = ucast (idx + 1) :: u16;
             last = (if ucast last = patch_count then 0 else last)
         in Some (xs\<lparr>ring_last := last\<rparr>, m, idx))))"

definition repeatStoreSparseOptimalP ::
  "RepeatInfo \<Rightarrow> RepeatRingControl \<Rightarrow> mem \<Rightarrow> u64a \<Rightarrow> bool \<Rightarrow> (RepeatRingControl \<times> mem) option" where
  "repeatStoreSparseOptimalP info xs m offset is_alive =
     (if \<not> is_alive \<or> sparseLastTop info xs m + ucast (repeatMax info) < offset
      then Some (storeInitialRingTopPatch info xs m offset)
      else let delta = ucast (offset - ring_offset xs) :: u32;
               patch_size = patchSize info;
               patch_count = patchCount info;
               patch = delta div patch_size;
               occ = ringOccupancy xs patch_count
           in Option.bind
               (if patch_count \<le> patch
                then let patch_shift_count = patch - patch_count + 1;
                         first = ucast (ucast (ring_first xs) + patch_shift_count) :: u16;
                         first = (if patch_count \<le> ucast first then ucast (ucast first - patch_count) else first);
                         xs = xs\<lparr>ring_offset := ring_offset xs + ucast (patch_size * patch_shift_count), ring_first := first\<rparr>
                     in map_option (\<lambda>(xs, m, idx). (xs, m, idx, 0)) (open_patches info xs m (ucast (ring_last xs) + patch - occ))
                else if patch < occ
                then let idx = (if ring_last xs = 0 then patch_count - 1 else ucast (ring_last xs) - 1)
                     in Some (xs, m, idx, load_patch info m idx)
                else map_option (\<lambda>(xs, m, idx). (xs, m, idx, 0)) (open_patches info xs m (ucast (ring_last xs) + patch - occ)))
               (\<lambda>(xs, m, idx, val).
                let diff = delta - patch * patch_size;
                    val = val + table_at info (unat diff);
                    m = store_patch info m idx val;
                    m = fst (mmbit_set m (unat patch_count) (unat idx))
                in Some (xs, m)))"

definition sparseHasMatch :: "RepeatInfo \<Rightarrow> mem \<Rightarrow> u32 \<Rightarrow> u32 \<Rightarrow> bool option" where
  "sparseHasMatch info m lower upper =
     (let patch_size = patchSize info;
          patch_count = patchCount info;
          patch_lower = lower div patch_size;
          patch_upper = upper div patch_size;
          diff = lower - patch_lower * patch_size
      in Option.bind
          (if mmbit_isset m (unat patch_count) (unat patch_lower)
           then let val = load_patch info m patch_lower
                in map_option (\<lambda>val. table_at info (unat diff) \<le> val)
                     (if patch_upper = patch_lower
                      then let limit = upper - patch_lower * patch_size
                           in map_option snd (getSparseOptimalTargetValue info (limit + 1) val)
                      else Some val)
           else Some False) (\<lambda>hit.
         if hit then Some True
         else if patch_lower = patch_upper then Some False
         else Option.bind (mmbit_iterate_bounded m (unat patch_count) (unat (patch_lower + 1)) (unat patch_upper)) (\<lambda>mm.
         if mm \<noteq> MMB_INVALID then Some True
         else if patch_upper = patch_count then Some False
         else if \<not> mmbit_isset m (unat patch_count) (unat patch_upper) then Some False
         else let diff = (patch_upper + 1) * patch_size - upper;
                  val = load_patch info m patch_upper
              in map_option (\<lambda>(_, val). val \<noteq> 0) (getSparseOptimalTargetValue info (patch_size - diff + 1) val))))"

definition repeatHasMatchSparseOptimalP :: "RepeatInfo \<Rightarrow> RepeatRingControl \<Rightarrow> mem \<Rightarrow> u64a \<Rightarrow> RepeatMatch option" where
  "repeatHasMatchSparseOptimalP info xs m offset =
     (if offset < ring_offset xs + ucast (repeatMin info) then Some REPEAT_NOMATCH
      else if sparseLastTop info xs m + ucast (repeatMax info) < offset then Some REPEAT_STALE
      else let delta = ucast (offset - ring_offset xs) :: u32;
               patch_size = patchSize info;
               patch_count = patchCount info;
               occ = ringOccupancy xs patch_count;
               lower = (if repeatMax info < delta then delta - repeatMax info else 0);
               upper = min (delta - repeatMin info) (occ * patch_size - 1);
               patch_lower = lower div patch_size;
               patch_upper = upper div patch_size
           in if occ \<le> patch_lower then Some REPEAT_NOMATCH
              else let remaining_lower = lower - patch_lower * patch_size;
                       remaining_upper = upper - patch_upper * patch_size;
                       patch_lower = patch_lower + ucast (ring_first xs);
                       patch_upper = patch_upper + ucast (ring_first xs);
                       (patch_lower, patch_upper) =
                         (if patch_count \<le> patch_lower then (patch_lower - patch_count, patch_upper - patch_count)
                          else if patch_count \<le> patch_upper then (patch_lower, patch_upper - patch_count)
                          else (patch_lower, patch_upper));
                       is_not_wrapped = (patch_lower \<le> patch_upper);
                       scan_end = (if is_not_wrapped then patch_upper * patch_size + remaining_upper
                                   else patch_count * patch_size);
                       lower = patch_lower * patch_size + remaining_lower
                   in Option.bind (sparseHasMatch info m lower scan_end) (\<lambda>hit.
                      if hit then Some REPEAT_MATCH
                      else if \<not> is_not_wrapped
                      then let upper = upper - (patch_count - ucast (ring_first xs)) * patch_size
                           in map_option (\<lambda>hit. if hit then REPEAT_MATCH else REPEAT_NOMATCH) (sparseHasMatch info m 0 upper)
                      else Some REPEAT_NOMATCH))"

text \<open>The block is packed as the one of RING, with \<open>patchCount\<close> for \<open>repeatMax\<close>.\<close>

definition repeatPackSparseOptimalP :: "mem \<Rightarrow> RepeatInfo \<Rightarrow> RepeatRingControl \<Rightarrow> u64a \<Rightarrow> mem" where
  "repeatPackSparseOptimalP dest info xs offset =
     (let indices_len = ring_indices_len (patchCount info);
          offset_len = packedCtrlSize info - indices_len;
          dest = storePackedRelative dest (ring_offset xs) offset (ucast (horizon info)) offset_len;
          p = int (unat offset_len)
      in if indices_len = 4 then unaligned_store_u16 (unaligned_store_u16 dest p (ring_first xs)) (p + 2) (ring_last xs)
         else dest(p := ucast (ring_first xs), p + 1 := ucast (ring_last xs)))"

definition repeatUnpackSparseOptimalP :: "mem \<Rightarrow> RepeatInfo \<Rightarrow> u64a \<Rightarrow> RepeatRingControl" where
  "repeatUnpackSparseOptimalP src info offset =
     (let indices_len = ring_indices_len (patchCount info);
          offset_len = packedCtrlSize info - indices_len;
          p = int (unat offset_len)
      in if indices_len = 4
         then \<lparr>ring_offset = loadPackedRelative src offset offset_len,
               ring_first = unaligned_load_u16 src p, ring_last = unaligned_load_u16 src (p + 2)\<rparr>
         else \<lparr>ring_offset = loadPackedRelative src offset offset_len,
               ring_first = ucast (src p), ring_last = ucast (src (p + 1))\<rparr>)"

end
