(* ===== verification/RepeatModel.thy ===== *)
theory RepeatModel
  imports RepeatSparse
begin

text \<open>
  The interface of \<open>src/nfa/repeat.h\<close>: the operations that pick the model by the type of the repeat, and the contract
  they keep as a whole, over any run of stores and of stream boundaries.
  \<open>RepeatControl\<close> is a union; it is modelled with its members side by side, and no type reads a member it does
  not write.  A state is the control block and the memory of the repeat state.
\<close>

section \<open>Operations\<close>

record RepeatControl =
  ctrl_ring :: RepeatRingControl
  ctrl_range :: RepeatRangeControl
  ctrl_offset :: RepeatOffsetControl
  ctrl_bitmap :: RepeatBitmapControl
  ctrl_trailer :: RepeatTrailerControl

type_synonym repeat_state = "RepeatControl \<times> mem"

definition repeatLastTop :: "RepeatInfo \<Rightarrow> repeat_state \<Rightarrow> u64a" where
  "repeatLastTop info = (\<lambda>(ctrl, m).
     case repeat_type info of
       REPEAT_RING \<Rightarrow> repeatLastTopRing info (ctrl_ring ctrl)
     | REPEAT_FIRST \<Rightarrow> off_offset (ctrl_offset ctrl)
     | REPEAT_LAST \<Rightarrow> off_offset (ctrl_offset ctrl)
     | REPEAT_RANGE \<Rightarrow> repeatLastTopRange (ctrl_range ctrl) m
     | REPEAT_BITMAP \<Rightarrow> repeatLastTopBitmap (ctrl_bitmap ctrl)
     | REPEAT_SPARSE_OPTIMAL_P \<Rightarrow> repeatLastTopSparseOptimalP info (ctrl_ring ctrl) m
     | REPEAT_TRAILER \<Rightarrow> repeatLastTopTrailer info (ctrl_trailer ctrl)
     | REPEAT_ALWAYS \<Rightarrow> 0)"

definition repeatNextMatch :: "RepeatInfo \<Rightarrow> repeat_state \<Rightarrow> u64a \<Rightarrow> u64a option" where
  "repeatNextMatch info = (\<lambda>(ctrl, m) offset.
     case repeat_type info of
       REPEAT_RING \<Rightarrow> repeatNextMatchRing info (ctrl_ring ctrl) m offset
     | REPEAT_FIRST \<Rightarrow> Some (repeatNextMatchOffset info (ctrl_offset ctrl) offset)
     | REPEAT_LAST \<Rightarrow> Some (repeatNextMatchOffset info (ctrl_offset ctrl) offset)
     | REPEAT_RANGE \<Rightarrow> Some (repeatNextMatchRange info (ctrl_range ctrl) m offset)
     | REPEAT_BITMAP \<Rightarrow> Some (repeatNextMatchBitmap info (ctrl_bitmap ctrl) offset)
     | REPEAT_SPARSE_OPTIMAL_P \<Rightarrow> repeatNextMatchSparseOptimalP info (ctrl_ring ctrl) m offset
     | REPEAT_TRAILER \<Rightarrow> Some (repeatNextMatchTrailer info (ctrl_trailer ctrl) offset)
     | REPEAT_ALWAYS \<Rightarrow> Some (offset + 1))"

definition repeatStore :: "RepeatInfo \<Rightarrow> repeat_state \<Rightarrow> u64a \<Rightarrow> bool \<Rightarrow> repeat_state option" where
  "repeatStore info = (\<lambda>(ctrl, m) offset is_alive.
     case repeat_type info of
       REPEAT_RING \<Rightarrow>
         map_option (\<lambda>(xs, m). (ctrl\<lparr>ctrl_ring := xs\<rparr>, m)) (repeatStoreRing info (ctrl_ring ctrl) m offset is_alive)
     | REPEAT_FIRST \<Rightarrow> Some (ctrl\<lparr>ctrl_offset := repeatStoreFirst (ctrl_offset ctrl) offset is_alive\<rparr>, m)
     | REPEAT_LAST \<Rightarrow> Some (ctrl\<lparr>ctrl_offset := repeatStoreLast (ctrl_offset ctrl) offset is_alive\<rparr>, m)
     | REPEAT_RANGE \<Rightarrow>
         (case repeatStoreRange info (ctrl_range ctrl) m offset is_alive of (xs, m) \<Rightarrow> Some (ctrl\<lparr>ctrl_range := xs\<rparr>, m))
     | REPEAT_BITMAP \<Rightarrow> Some (ctrl\<lparr>ctrl_bitmap := repeatStoreBitmap info (ctrl_bitmap ctrl) offset is_alive\<rparr>, m)
     | REPEAT_SPARSE_OPTIMAL_P \<Rightarrow>
         map_option (\<lambda>(xs, m). (ctrl\<lparr>ctrl_ring := xs\<rparr>, m))
           (repeatStoreSparseOptimalP info (ctrl_ring ctrl) m offset is_alive)
     | REPEAT_TRAILER \<Rightarrow> Some (ctrl\<lparr>ctrl_trailer := repeatStoreTrailer info (ctrl_trailer ctrl) offset is_alive\<rparr>, m)
     | REPEAT_ALWAYS \<Rightarrow> Some (ctrl, m))"

definition repeatHasMatch :: "RepeatInfo \<Rightarrow> repeat_state \<Rightarrow> u64a \<Rightarrow> RepeatMatch option" where
  "repeatHasMatch info = (\<lambda>(ctrl, m) offset.
     case repeat_type info of
       REPEAT_RING \<Rightarrow> repeatHasMatchRing info (ctrl_ring ctrl) m offset
     | REPEAT_FIRST \<Rightarrow> Some (repeatHasMatchFirst info (ctrl_offset ctrl) offset)
     | REPEAT_LAST \<Rightarrow> Some (repeatHasMatchLast info (ctrl_offset ctrl) offset)
     | REPEAT_RANGE \<Rightarrow> Some (repeatHasMatchRange info (ctrl_range ctrl) m offset)
     | REPEAT_BITMAP \<Rightarrow> Some (repeatHasMatchBitmap info (ctrl_bitmap ctrl) offset)
     | REPEAT_SPARSE_OPTIMAL_P \<Rightarrow> repeatHasMatchSparseOptimalP info (ctrl_ring ctrl) m offset
     | REPEAT_TRAILER \<Rightarrow> Some (repeatHasMatchTrailer info (ctrl_trailer ctrl) offset)
     | REPEAT_ALWAYS \<Rightarrow> Some REPEAT_MATCH)"

definition repeatPack :: "mem \<Rightarrow> RepeatInfo \<Rightarrow> RepeatControl \<Rightarrow> u64a \<Rightarrow> mem" where
  "repeatPack dest info ctrl offset =
     (case repeat_type info of
       REPEAT_RING \<Rightarrow> repeatPackRing dest info (ctrl_ring ctrl) offset
     | REPEAT_FIRST \<Rightarrow> repeatPackOffset dest info (ctrl_offset ctrl) offset
     | REPEAT_LAST \<Rightarrow> repeatPackOffset dest info (ctrl_offset ctrl) offset
     | REPEAT_RANGE \<Rightarrow> repeatPackRange dest info (ctrl_range ctrl) offset
     | REPEAT_BITMAP \<Rightarrow> repeatPackBitmap dest info (ctrl_bitmap ctrl) offset
     | REPEAT_SPARSE_OPTIMAL_P \<Rightarrow> repeatPackSparseOptimalP dest info (ctrl_ring ctrl) offset
     | REPEAT_TRAILER \<Rightarrow> repeatPackTrailer dest info (ctrl_trailer ctrl) offset
     | REPEAT_ALWAYS \<Rightarrow> dest)"

definition repeatUnpack :: "mem \<Rightarrow> RepeatInfo \<Rightarrow> u64a \<Rightarrow> RepeatControl \<Rightarrow> RepeatControl option" where
  "repeatUnpack src info offset ctrl =
     (case repeat_type info of
       REPEAT_RING \<Rightarrow> Some (ctrl\<lparr>ctrl_ring := repeatUnpackRing src info offset\<rparr>)
     | REPEAT_FIRST \<Rightarrow> Some (ctrl\<lparr>ctrl_offset := repeatUnpackOffset src info offset\<rparr>)
     | REPEAT_LAST \<Rightarrow> Some (ctrl\<lparr>ctrl_offset := repeatUnpackOffset src info offset\<rparr>)
     | REPEAT_RANGE \<Rightarrow> Some (ctrl\<lparr>ctrl_range := repeatUnpackRange src info offset\<rparr>)
     | REPEAT_BITMAP \<Rightarrow> Some (ctrl\<lparr>ctrl_bitmap := repeatUnpackBitmap src info offset\<rparr>)
     | REPEAT_SPARSE_OPTIMAL_P \<Rightarrow> Some (ctrl\<lparr>ctrl_ring := repeatUnpackSparseOptimalP src info offset\<rparr>)
     | REPEAT_TRAILER \<Rightarrow>
         map_option (\<lambda>xs. ctrl\<lparr>ctrl_trailer := xs\<rparr>) (repeatUnpackTrailer src info offset)
     | REPEAT_ALWAYS \<Rightarrow> Some ctrl)"

section \<open>Well-formed descriptions and what a state holds\<close>

definition repeat_holds :: "RepeatInfo \<Rightarrow> repeat_state \<Rightarrow> nat set \<Rightarrow> bool" where
  "repeat_holds info s C =
     (case repeat_type info of
       REPEAT_RING \<Rightarrow> ring_holds info (ctrl_ring (fst s), snd s) C
     | REPEAT_FIRST \<Rightarrow> offset_holds (ctrl_offset (fst s)) C
     | REPEAT_LAST \<Rightarrow> offset_holds (ctrl_offset (fst s)) C
     | REPEAT_RANGE \<Rightarrow> range_holds info (ctrl_range (fst s), snd s) C
     | REPEAT_BITMAP \<Rightarrow> bitmap_holds (ctrl_bitmap (fst s)) C
     | REPEAT_SPARSE_OPTIMAL_P \<Rightarrow> False
     | REPEAT_TRAILER \<Rightarrow> trailer_holds info (ctrl_trailer (fst s)) C
     | REPEAT_ALWAYS \<Rightarrow> C \<noteq> {})"

text \<open>
  What the builder guarantees of a description: the bounds each model needs, and a packed block wide enough for its
  horizon.  LAST serves a repeat from 0 on; with a reset character class it also serves others, and then its
  tops alone do not give the matches.
\<close>

definition repeat_ok :: "RepeatInfo \<Rightarrow> bool" where
  "repeat_ok info =
     (let mx = unat (repeatMax info); hz = unat (horizon info); len = packedCtrlSize info
      in case repeat_type info of
       REPEAT_RING \<Rightarrow> ring_ok info \<and> hz = 2 * mx + 1 \<and> bytes_hold (unat (len - ring_indices_len (repeatMax info))) hz
     | REPEAT_FIRST \<Rightarrow> bounds_ok info \<and> repeatMax info = REPEAT_INF \<and> horizon info = repeatMin info
                     \<and> len \<noteq> 0 \<and> bytes_hold (unat len) hz
     | REPEAT_LAST \<Rightarrow> bounds_ok info \<and> repeatMin info = 0 \<and> repeatMax info \<noteq> REPEAT_INF \<and> hz = mx + 1
                     \<and> len \<noteq> 0 \<and> bytes_hold (unat len) hz
     | REPEAT_RANGE \<Rightarrow> range_ok info \<and> hz = 2 * mx + 1 \<and> bytes_hold (unat (len - 1)) hz
     | REPEAT_BITMAP \<Rightarrow> bounds_ok info \<and> repeatMax info < 64 \<and> mx < 8 * unat len \<and> unat len \<le> 8
     | REPEAT_SPARSE_OPTIMAL_P \<Rightarrow> False
     | REPEAT_TRAILER \<Rightarrow> trailer_ok info \<and> hz = mx + 1 \<and> length (packedFieldSizes info) = 2
                     \<and> packedFieldSizes info ! 1 = repeatMin info
                     \<and> mx + 1 < 2 ^ unat (packedFieldSizes info ! 0) \<and> unat (packedFieldSizes info ! 0) \<le> 64
     | REPEAT_ALWAYS \<Rightarrow> repeatMin info = 0 \<and> repeatMax info = REPEAT_INF)"

text \<open>A boundary of the stream: the control block is packed and unpacked, the repeat state stays.\<close>

definition repeat_boundary :: "RepeatInfo \<Rightarrow> mem \<Rightarrow> repeat_state \<Rightarrow> u64a \<Rightarrow> repeat_state option" where
  "repeat_boundary info dest s p =
     map_option (\<lambda>ctrl. (ctrl, snd s)) (repeatUnpack (repeatPack dest info (fst s) p) info p (fst s))"

section \<open>The contract\<close>

lemmas repeat_ops = repeatStore_def repeatHasMatch_def repeatNextMatch_def repeatLastTop_def repeat_boundary_def
  repeatPack_def repeatUnpack_def

lemma pair_option: "map_option f z = Some y \<longleftrightarrow> (\<exists>w. z = Some w \<and> f w = y)"
  by auto

lemma field_sizes_pair: "length xs = 2 \<Longrightarrow> xs = [xs ! 0, xs ! 1]"
  by (metis One_nat_def Suc_1 length_0_conv length_Suc_conv nth_Cons_0 nth_Cons_Suc)

lemma carry:
  assumes "\<exists>s' C'. f = Some s' \<and> H s' C' \<and> P C' \<and> Q C'" "g = map_option h f" "\<And>s' C'. H s' C' \<Longrightarrow> K (h s') C'"
  shows "\<exists>s' C'. g = Some s' \<and> K s' C' \<and> P C' \<and> Q C'"
  using assms by auto

interpretation rep: packed_repeat info "repeat_ok info" "repeatStore info" "repeatHasMatch info"
  "repeatNextMatch info" "repeatLastTop info" "repeat_holds info" "repeat_boundary info dest"
  for info dest
proof (unfold_locales, goal_cases)
  case (1 p s)
  show ?case
    using 1 rep_ring.store_dead [of info p "(ctrl_ring (fst s), snd s)"] rep_first.store_dead [of info p]
      rep_last.store_dead [of info p] rep_range.store_dead [of info p "(ctrl_range (fst s), snd s)"]
      rep_bitmap.store_dead [of info p] rep_trailer.store_dead [of info p]
    by (cases s; cases "repeat_type info")
      (auto simp: repeat_ok_def Let_def repeat_holds_def repeat_ops pair_option split: prod.splits)
next
  case (2 p s C)
  let ?law = "\<lambda>f H. \<exists>s' C'. f = Some s' \<and> H s' C' \<and> (\<forall>t \<in> C'. t \<le> unat p)
    \<and> rep_same info (unat p) C' (insert (unat p) C)"
  note K = 2 [unfolded repeat_ok_def repeat_holds_def Let_def]
  show ?case
  proof (cases "repeat_type info")
    case REPEAT_RING
    have "?law (repeatStoreRing info (ctrl_ring (fst s)) (snd s) p True) (ring_holds info)"
      using rep_ring.store_alive [of info p "(ctrl_ring (fst s), snd s)" C] K by (auto simp: REPEAT_RING)
    then show ?thesis
      by (rule carry [where h = "\<lambda>(xs, m). ((fst s)\<lparr>ctrl_ring := xs\<rparr>, m)"]) (auto simp: REPEAT_RING repeat_holds_def repeatStore_def split: prod.splits)
  next
    case REPEAT_FIRST
    have "?law (Some (repeatStoreFirst (ctrl_offset (fst s)) p True)) offset_holds"
      using rep_first.store_alive [of info p "ctrl_offset (fst s)" C] K by (auto simp: REPEAT_FIRST)
    then show ?thesis
      by (rule carry [where h = "\<lambda>xs. ((fst s)\<lparr>ctrl_offset := xs\<rparr>, snd s)"]) (auto simp: REPEAT_FIRST repeat_holds_def repeatStore_def split: prod.splits)
  next
    case REPEAT_LAST
    have "?law (Some (repeatStoreLast (ctrl_offset (fst s)) p True)) offset_holds"
      using rep_last.store_alive [of info p "ctrl_offset (fst s)" C] K by (auto simp: REPEAT_LAST)
    then show ?thesis
      by (rule carry [where h = "\<lambda>xs. ((fst s)\<lparr>ctrl_offset := xs\<rparr>, snd s)"]) (auto simp: REPEAT_LAST repeat_holds_def repeatStore_def split: prod.splits)
  next
    case REPEAT_RANGE
    have "?law (Some (repeatStoreRange info (ctrl_range (fst s)) (snd s) p True)) (range_holds info)"
      using rep_range.store_alive [of info p "(ctrl_range (fst s), snd s)" C] K by (auto simp: REPEAT_RANGE)
    then show ?thesis
      by (rule carry [where h = "\<lambda>(xs, m). ((fst s)\<lparr>ctrl_range := xs\<rparr>, m)"]) (auto simp: REPEAT_RANGE repeat_holds_def repeatStore_def split: prod.splits)
  next
    case REPEAT_BITMAP
    have "?law (Some (repeatStoreBitmap info (ctrl_bitmap (fst s)) p True)) bitmap_holds"
      using rep_bitmap.store_alive [of info p "ctrl_bitmap (fst s)" C] K by (auto simp: REPEAT_BITMAP)
    then show ?thesis
      by (rule carry [where h = "\<lambda>xs. ((fst s)\<lparr>ctrl_bitmap := xs\<rparr>, snd s)"]) (auto simp: REPEAT_BITMAP repeat_holds_def repeatStore_def split: prod.splits)
  next
    case REPEAT_TRAILER
    have "?law (Some (repeatStoreTrailer info (ctrl_trailer (fst s)) p True)) (trailer_holds info)"
      using rep_trailer.store_alive [of info p "ctrl_trailer (fst s)" C] K by (auto simp: REPEAT_TRAILER)
    then show ?thesis
      by (rule carry [where h = "\<lambda>xs. ((fst s)\<lparr>ctrl_trailer := xs\<rparr>, snd s)"]) (auto simp: REPEAT_TRAILER repeat_holds_def repeatStore_def split: prod.splits)
  next
    case REPEAT_ALWAYS
    have "?law (Some s) (\<lambda>s C. C \<noteq> {})"
      using rep_always.store_alive [of info p C] K by (simp add: REPEAT_ALWAYS)
    then show ?thesis
      by (rule carry [where h = "\<lambda>s. s"]) (auto simp: REPEAT_ALWAYS repeat_holds_def repeatStore_def split: prod.splits)
  qed (use K in simp)
next
  case (3 p s C)
  then show ?case
    using rep_ring.has_match_exact [of info p "(ctrl_ring (fst s), snd s)" C] rep_first.has_match_exact [of info p _ C]
      rep_last.has_match_exact [of info p _ C] rep_range.has_match_exact [of info p "(ctrl_range (fst s), snd s)" C]
      rep_bitmap.has_match_exact [of info p _ C] rep_trailer.has_match_exact [of info p _ C]
      rep_always.has_match_exact [of info p C]
    by (cases s; cases "repeat_type info") (auto simp: repeat_ok_def Let_def repeat_holds_def repeat_ops)
next
  case (4 p s C)
  then show ?case
    using rep_ring.next_match_exact [of info p "(ctrl_ring (fst s), snd s)" C] rep_first.next_match_exact [of info p _ C]
      rep_last.next_match_exact [of info p _ C] rep_range.next_match_exact [of info p "(ctrl_range (fst s), snd s)" C]
      rep_bitmap.next_match_exact [of info p _ C] rep_trailer.next_match_exact [of info p _ C]
      rep_always.next_match_exact [of info p C]
    by (cases s; cases "repeat_type info") (auto simp: repeat_ok_def Let_def repeat_holds_def repeat_ops)
next
  case (5 s C)
  then show ?case
    using rep_ring.last_top_exact [of info "(ctrl_ring (fst s), snd s)" C] rep_first.last_top_exact [of info _ C]
      rep_last.last_top_exact [of info _ C] rep_range.last_top_exact [of info "(ctrl_range (fst s), snd s)" C]
      rep_bitmap.last_top_exact [of info _ C] rep_trailer.last_top_exact [of info _ C]
    by (cases s; cases "repeat_type info") (auto simp: repeat_ok_def Let_def repeat_holds_def repeat_ops)
next
  case (6 p s C)
  let ?law = "\<lambda>f H. \<exists>s' C'. f = Some s' \<and> H s' C' \<and> (\<forall>t \<in> C'. t \<le> unat p) \<and> rep_same info (unat p) C' C"
  note K = 6 [unfolded repeat_ok_def repeat_holds_def Let_def]
  show ?case
  proof (cases "repeat_type info")
    case REPEAT_RING
    have "?law (Some (repeatUnpackRing (repeatPackRing dest info (ctrl_ring (fst s)) p) info p))
        (\<lambda>xs. ring_holds info (xs, snd s))"
      using ring_boundary [of info "ctrl_ring (fst s)" "snd s" C p dest] K by (auto simp: REPEAT_RING)
    then show ?thesis by (rule carry [where h = "\<lambda>xs. ((fst s)\<lparr>ctrl_ring := xs\<rparr>, snd s)"]) (auto simp: REPEAT_RING repeat_holds_def repeat_ops)
  next
    case REPEAT_FIRST
    have "?law (Some (repeatUnpackOffset (repeatPackOffset dest info (ctrl_offset (fst s)) p) info p)) offset_holds"
      using first_boundary [of info "ctrl_offset (fst s)" C p dest] K by (auto simp: REPEAT_FIRST)
    then show ?thesis by (rule carry [where h = "\<lambda>xs. ((fst s)\<lparr>ctrl_offset := xs\<rparr>, snd s)"]) (auto simp: REPEAT_FIRST repeat_holds_def repeat_ops)
  next
    case REPEAT_LAST
    have "?law (Some (repeatUnpackOffset (repeatPackOffset dest info (ctrl_offset (fst s)) p) info p)) offset_holds"
      using last_boundary [of info "ctrl_offset (fst s)" C p dest] K by (auto simp: REPEAT_LAST)
    then show ?thesis by (rule carry [where h = "\<lambda>xs. ((fst s)\<lparr>ctrl_offset := xs\<rparr>, snd s)"]) (auto simp: REPEAT_LAST repeat_holds_def repeat_ops)
  next
    case REPEAT_RANGE
    have "?law (Some (repeatUnpackRange (repeatPackRange dest info (ctrl_range (fst s)) p) info p))
        (\<lambda>xs. range_holds info (xs, snd s))"
      using range_boundary [of info "ctrl_range (fst s)" "snd s" C p dest] K by (auto simp: REPEAT_RANGE)
    then show ?thesis by (rule carry [where h = "\<lambda>xs. ((fst s)\<lparr>ctrl_range := xs\<rparr>, snd s)"]) (auto simp: REPEAT_RANGE repeat_holds_def repeat_ops)
  next
    case REPEAT_BITMAP
    have "?law (Some (repeatUnpackBitmap (repeatPackBitmap dest info (ctrl_bitmap (fst s)) p) info p)) bitmap_holds"
      using bitmap_boundary [of info "ctrl_bitmap (fst s)" C p dest] K by (auto simp: REPEAT_BITMAP)
    then show ?thesis by (rule carry [where h = "\<lambda>xs. ((fst s)\<lparr>ctrl_bitmap := xs\<rparr>, snd s)"]) (auto simp: REPEAT_BITMAP repeat_holds_def repeat_ops)
  next
    case REPEAT_TRAILER
    have "?law (repeatUnpackTrailer (repeatPackTrailer dest info (ctrl_trailer (fst s)) p) info p) (trailer_holds info)"
      using trailer_boundary [of info "packedFieldSizes info ! 0" p "ctrl_trailer (fst s)" C dest]
        field_sizes_pair [of "packedFieldSizes info"] K by (auto simp: REPEAT_TRAILER)
    then show ?thesis by (rule carry [where h = "\<lambda>xs. ((fst s)\<lparr>ctrl_trailer := xs\<rparr>, snd s)"]) (auto simp: REPEAT_TRAILER repeat_holds_def repeat_ops option.map_comp comp_def)
  next
    case REPEAT_ALWAYS
    have "?law (Some s) (\<lambda>s C. C \<noteq> {})" using K by (auto simp: REPEAT_ALWAYS intro: exI [of _ C])
    then show ?thesis by (rule carry [where h = "\<lambda>s. s"]) (auto simp: REPEAT_ALWAYS repeat_holds_def repeat_ops)
  qed (use K in simp)
qed

section \<open>Runs\<close>

text \<open>
  What a client does with a repeat: a first top (the repeat is dead and starts anew), a later top, a stream boundary.
\<close>

datatype repeat_op = Start u64a | Top u64a | Boundary u64a

fun op_offset :: "repeat_op \<Rightarrow> u64a" where
  "op_offset (Start p) = p"
| "op_offset (Top p) = p"
| "op_offset (Boundary p) = p"

fun repeat_step :: "RepeatInfo \<Rightarrow> mem \<Rightarrow> repeat_state \<Rightarrow> repeat_op \<Rightarrow> repeat_state option" where
  "repeat_step info dest s (Start p) = repeatStore info s p False"
| "repeat_step info dest s (Top p) = repeatStore info s p True"
| "repeat_step info dest s (Boundary p) = repeat_boundary info dest s p"

fun repeat_run :: "RepeatInfo \<Rightarrow> mem \<Rightarrow> repeat_state \<Rightarrow> repeat_op list \<Rightarrow> repeat_state option" where
  "repeat_run info dest s [] = Some s"
| "repeat_run info dest s (op # ops) = Option.bind (repeat_step info dest s op) (\<lambda>s. repeat_run info dest s ops)"

text \<open>The tops that count: all since the last start.\<close>

fun op_history :: "nat set \<Rightarrow> repeat_op \<Rightarrow> nat set" where
  "op_history T (Start p) = {unat p}"
| "op_history T (Top p) = insert (unat p) T"
| "op_history T (Boundary p) = T"

definition run_history :: "repeat_op list \<Rightarrow> nat set" where
  "run_history ops = foldl op_history {} ops"

text \<open>Offsets move on, strictly before a top; the run begins with a start.\<close>

definition op_after :: "nat \<Rightarrow> repeat_op \<Rightarrow> bool" where
  "op_after now op \<longleftrightarrow> in_stream (unat (op_offset op))
     \<and> (case op of Top p \<Rightarrow> now < unat p | Start p \<Rightarrow> True | Boundary p \<Rightarrow> now \<le> unat p)"

fun ops_after :: "nat \<Rightarrow> repeat_op list \<Rightarrow> bool" where
  "ops_after now [] \<longleftrightarrow> True"
| "ops_after now (op # ops) \<longleftrightarrow> op_after now op \<and> ops_after (unat (op_offset op)) ops"

fun well_started :: "repeat_op list \<Rightarrow> bool" where
  "well_started (Start p # ops) \<longleftrightarrow> ops_after 0 (Start p # ops)"
| "well_started _ \<longleftrightarrow> False"

definition run_offset :: "repeat_op list \<Rightarrow> nat" where
  "run_offset ops = (if ops = [] then 0 else unat (op_offset (last ops)))"

lemma step_knows:
  assumes "repeat_ok info" "op_after now op" "rep.knows info s now T \<or> (\<exists>p. op = Start p)"
  shows "\<exists>s'. repeat_step info dest s op = Some s' \<and> rep.knows info s' (unat (op_offset op)) (op_history T op)"
proof (cases op)
  case (Start p)
  then show ?thesis using rep.knows_store_dead [of info p s] assms(1,2) by (simp add: op_after_def)
next
  case (Top p)
  then show ?thesis using rep.knows_store_alive [of info p s now T] assms by (simp add: op_after_def)
next
  case (Boundary p)
  then show ?thesis using rep.knows_boundary [of info p s now T dest] assms by (simp add: op_after_def)
qed

lemma run_knows:
  assumes "repeat_ok info" "ops_after now ops" "rep.knows info s now T"
  shows "\<exists>s'. repeat_run info dest s ops = Some s'
    \<and> rep.knows info s' (if ops = [] then now else unat (op_offset (last ops))) (foldl op_history T ops)"
  using assms(2,3)
proof (induction ops arbitrary: s now T)
  case (Cons op ops)
  obtain s1 where s1: "repeat_step info dest s op = Some s1" "rep.knows info s1 (unat (op_offset op)) (op_history T op)"
    using step_knows [OF assms(1), of now op s T dest] Cons.prems by auto
  then show ?case using Cons.IH [OF _ s1(2)] Cons.prems(1) by (cases "ops = []") auto
qed simp

lemma well_started_knows:
  assumes "repeat_ok info" "well_started ops"
  shows "\<exists>s'. repeat_run info dest s ops = Some s' \<and> rep.knows info s' (run_offset ops) (run_history ops)"
proof -
  obtain p ops' where ops: "ops = Start p # ops'" "ops_after 0 ops" using assms(2) by (cases ops rule: well_started.cases) auto
  obtain s1 where "repeat_step info dest s (Start p) = Some s1" "rep.knows info s1 (unat p) {unat p}"
    using step_knows [OF assms(1), of 0 "Start p" s "{}" dest] ops by auto
  then show ?thesis
    using run_knows [OF assms(1), of "unat p" ops' s1 "{unat p}" dest] ops by (auto simp: run_offset_def run_history_def)
qed



text \<open>Concrete runs: a range \<open>{70,100}\<close> over a boundary, and a ring \<open>{70,72}\<close>.\<close>

definition range_example :: RepeatInfo where
  "range_example = \<lparr>repeat_type = REPEAT_RANGE, repeatMin = 70, repeatMax = 100, horizon = 201, packedCtrlSize = 2,
     stateSize = 16, minPeriod = 0, packedFieldSizes = [], patchCount = 0, patchSize = 0, encodingSize = 0,
     patchesOffset = 0, implTable = []\<rparr>"

definition ring_example :: RepeatInfo where
  "ring_example = \<lparr>repeat_type = REPEAT_RING, repeatMin = 70, repeatMax = 72, horizon = 145, packedCtrlSize = 3,
     stateSize = 10, minPeriod = 0, packedFieldSizes = [], patchCount = 0, patchSize = 0, encodingSize = 0,
     patchesOffset = 0, implTable = []\<rparr>"

lemma examples_ok: "repeat_ok range_example" "repeat_ok ring_example"
  by (simp_all add: repeat_ok_def range_example_def ring_example_def range_ok_def ring_ok_def bounds_ok_def bytes_hold_def
      ring_indices_len_def rangeListCapacity_def REPEAT_INF_def REPEAT_RANGE_MAX_SLOTS_def Let_def)



end
