(* ===== verification/RepeatCompile.thy ===== *)
theory RepeatCompile
  imports Depth RepeatModel
begin

text \<open>
  The compiler's side of bounded repeats: the sizes of a model (\<open>RepeatStateInfo\<close>) and the choice of the model in
  \<open>src/nfa/repeatcompile.cpp\<close>, and the description an LBR engine carries (\<open>fillNfa\<close> of \<open>src/nfagraph/ng_lbr.cpp\<close>).
  A throw is the left part of a sum; the conversion of a depth to \<open>u32\<close> throws when it is not finite.
\<close>

section \<open>Sizes\<close>

datatype repeat_error = RepeatDepthError | SparsePeriodError | RepeatLimitError

definition lift_depth :: "depth_error + 'a \<Rightarrow> repeat_error + 'a" where
  "lift_depth r = (case r of Inl _ \<Rightarrow> Inl RepeatDepthError | Inr v \<Rightarrow> Inr v)"

abbreviation u32_of_depth :: "depth \<Rightarrow> repeat_error + u32" where
  "u32_of_depth d \<equiv> lift_depth (depth_to_u32 d)"

definition depth_plus_u32 :: "depth \<Rightarrow> s32 \<Rightarrow> repeat_error + u32" where
  "depth_plus_u32 d n = sbind (lift_depth (depth_add_s32 d n)) u32_of_depth"

definition size_of_mmbit :: "u32 \<Rightarrow> repeat_error + u32" where
  "size_of_mmbit bits =
     (case mmbit_size (unat bits) of None \<Rightarrow> Inl RepeatLimitError | Some n \<Rightarrow> Inr (of_nat n))"

definition numRangeSlots :: "u32 \<Rightarrow> u32 \<Rightarrow> u32" where
  "numRangeSlots mn mx = (let d = mx - mn; slots = 2 * (mx div d + 1) in slots)"

definition calcPackedBits :: "u64a \<Rightarrow> u32" where
  "calcPackedBits val = (if val \<le> 1 then 1 else of_nat (lg2_64 (val - 1)) + 1)"

definition calcPackedBytes :: "u64a \<Rightarrow> u32" where
  "calcPackedBytes val = (calcPackedBits val + 7) div 8"

record RepeatStateInfo =
  rsi_stateSize :: u32
  rsi_packedCtrlSize :: u32
  rsi_horizon :: u32
  rsi_patchCount :: u32
  rsi_patchSize :: u32
  rsi_encodingSize :: u32
  rsi_patchesOffset :: u32
  rsi_packedFieldSizes :: "u32 list"
  rsi_table :: "u64a list"

definition rsi_init :: RepeatStateInfo where
  "rsi_init = \<lparr>rsi_stateSize = 0, rsi_packedCtrlSize = 0, rsi_horizon = 0, rsi_patchCount = 0, rsi_patchSize = 0,
     rsi_encodingSize = 0, rsi_patchesOffset = 0, rsi_packedFieldSizes = [], rsi_table = []\<rparr>"

text \<open>The table of SPARSE_OPTIMAL_P: linear up to \<open>minPeriod\<close>, then the recurrence, up to an overflow.\<close>

function recur_table_loop :: "nat \<Rightarrow> nat \<Rightarrow> nat \<Rightarrow> u64a list \<Rightarrow> u32 \<times> u64a list" where
  "recur_table_loop period repeatTmp i table =
     (if repeatTmp < i then (0, table)
      else let table = table @ [table ! (i - 1) + table ! (i - period)]
           in if table ! i < table ! (i - 1) then (of_nat (i - 1), table)
              else recur_table_loop period repeatTmp (i + 1) table)"
  by pat_completeness auto

termination
  by (relation "measure (\<lambda>(_, repeatTmp, i, _). Suc repeatTmp - i)") auto

declare recur_table_loop.simps [simp del]

definition repeatRecurTable :: "RepeatStateInfo \<Rightarrow> u32 \<Rightarrow> u32 \<Rightarrow> u32 \<times> RepeatStateInfo" where
  "repeatRecurTable rsi mx period =
     (let repeatTmp = (if 2 < rsi_patchCount rsi then 64 else mx);
          repeat_index = (if repeatTmp < period then repeatTmp else period);
          table = rsi_table rsi @ map (\<lambda>i. of_nat (i + 1)) [0..<unat repeat_index + 1];
          (rv, table) = recur_table_loop (unat period) (unat repeatTmp) (unat period + 1) table
      in (rv, rsi\<lparr>rsi_table := table\<rparr>))"

text \<open>The patch size with the least total size, and the number of patches at the time it was found.\<close>

function optimal_patch_loop :: "u64a list \<Rightarrow> u32 \<Rightarrow> nat \<Rightarrow> nat \<Rightarrow> u32 \<Rightarrow> u32 \<Rightarrow> u32 \<Rightarrow> u32 \<times> u32" where
  "optimal_patch_loop table mx i rv mn patch_len pcount =
     (if rv < i then (patch_len, pcount)
      else let cnt = (mx + (of_nat i - 1)) div of_nat i + 1;
               patch_bits = calcPackedBits (table ! i);
               total_size = (patch_bits + 7) div 8 * cnt
           in if total_size < mn then optimal_patch_loop table mx (i + 1) rv total_size (of_nat i) cnt
              else optimal_patch_loop table mx (i + 1) rv mn patch_len pcount)"
  by pat_completeness auto

termination
  by (relation "measure (\<lambda>(_, _, i, rv, _). Suc rv - i)") auto

declare optimal_patch_loop.simps [simp del]

definition findOptimalPatchSize :: "RepeatStateInfo \<Rightarrow> u32 \<Rightarrow> u32 \<Rightarrow> u32 \<Rightarrow> u32 \<times> RepeatStateInfo" where
  "findOptimalPatchSize rsi mx period rv =
     (let rv = (if rv = 0 then mx else rv);
          (patch_len, cnt) = optimal_patch_loop (rsi_table rsi) mx (unat period) (unat rv) (- 1) 0 (rsi_patchCount rsi)
      in (patch_len, rsi\<lparr>rsi_patchCount := cnt\<rparr>))"

definition sparse_state_info :: "u32 \<Rightarrow> u32 \<Rightarrow> repeat_error + RepeatStateInfo" where
  "sparse_state_info mx period =
     (let (rv, rsi) = repeatRecurTable rsi_init mx period;
          (repeatTmp, rsi) = (if mx < period then (mx, rsi\<lparr>rsi_patchCount := 1\<rparr>)
                              else findOptimalPatchSize rsi mx period rv);
          maxVal = rsi_table rsi ! unat repeatTmp;
          rsi = rsi\<lparr>rsi_encodingSize := calcPackedBytes maxVal, rsi_patchSize := repeatTmp\<rparr>
      in sbind (size_of_mmbit (rsi_patchCount rsi)) (\<lambda>patches.
         let rsi = rsi\<lparr>rsi_patchesOffset := patches\<rparr>;
             rsi = rsi\<lparr>rsi_stateSize := rsi_patchesOffset rsi + rsi_encodingSize rsi * rsi_patchCount rsi\<rparr>;
             rsi = rsi\<lparr>rsi_horizon := repeatTmp * rsi_patchCount rsi * 2 + 1\<rparr>;
             ring_indices_len = (if rsi_patchCount rsi < 254 then 2 else 4)
         in Inr (rsi\<lparr>rsi_packedCtrlSize := calcPackedBytes (ucast (rsi_horizon rsi + 1)) + ring_indices_len\<rparr>)))"

text \<open>The constructor.\<close>

definition repeat_state_info ::
  "RepeatType \<Rightarrow> depth \<Rightarrow> depth \<Rightarrow> u32 \<Rightarrow> repeat_error + RepeatStateInfo" where
  "repeat_state_info type mn mx period =
     (if type = REPEAT_SPARSE_OPTIMAL_P \<and> period = 0 then Inl SparsePeriodError
      else case type of
        REPEAT_FIRST \<Rightarrow>
          sbind (u32_of_depth mn) (\<lambda>horizon.
          Inr (rsi_init\<lparr>rsi_horizon := horizon, rsi_packedCtrlSize := calcPackedBytes (ucast (horizon + 1))\<rparr>))
      | REPEAT_LAST \<Rightarrow>
          sbind (depth_plus_u32 mx 1) (\<lambda>horizon.
          Inr (rsi_init\<lparr>rsi_horizon := horizon, rsi_packedCtrlSize := calcPackedBytes (ucast (horizon + 1))\<rparr>))
      | REPEAT_RING \<Rightarrow>
          sbind (depth_plus_u32 mx 1) (\<lambda>bits.
          sbind (size_of_mmbit bits) (\<lambda>stateSize.
          sbind (u32_of_depth mx) (\<lambda>m.
          let horizon = m * 2 + 1;
              offset_len = calcPackedBytes (ucast (horizon + 1));
              ring_indices_len = (if mx < Depth 254 then 2 else 4)
          in Inr (rsi_init\<lparr>rsi_stateSize := stateSize, rsi_horizon := horizon,
                           rsi_packedCtrlSize := offset_len + ring_indices_len\<rparr>))))
      | REPEAT_RANGE \<Rightarrow>
          sbind (u32_of_depth mn) (\<lambda>n.
          sbind (u32_of_depth mx) (\<lambda>m.
          let horizon = m * 2 + 1
          in Inr (rsi_init\<lparr>rsi_stateSize := numRangeSlots n m * 2, rsi_horizon := horizon,
                           rsi_packedCtrlSize := calcPackedBytes (ucast (horizon + 1)) + 1\<rparr>)))
      | REPEAT_BITMAP \<Rightarrow>
          sbind (lift_depth (depth_add_s32 mx 1)) (\<lambda>d.
          sbind (depth_plus_u32 d 7) (\<lambda>n.
          Inr (rsi_init\<lparr>rsi_horizon := 0, rsi_packedCtrlSize := (n AND NOT 7) div 8\<rparr>)))
      | REPEAT_SPARSE_OPTIMAL_P \<Rightarrow> sbind (u32_of_depth mx) (\<lambda>m. sparse_state_info m period)
      | REPEAT_TRAILER \<Rightarrow>
          sbind (depth_plus_u32 mx 1) (\<lambda>horizon.
          sbind (u32_of_depth mn) (\<lambda>n.
          let sizes = [calcPackedBits (ucast (horizon + 1)), n]
          in Inr (rsi_init\<lparr>rsi_horizon := horizon, rsi_packedFieldSizes := sizes,
                           rsi_packedCtrlSize := (sizes ! 0 + sizes ! 1 + 7) div 8\<rparr>)))
      | REPEAT_ALWAYS \<Rightarrow> Inr (rsi_init\<lparr>rsi_horizon := 0, rsi_packedCtrlSize := 0\<rparr>))"

definition packedSize :: "RepeatType \<Rightarrow> depth \<Rightarrow> depth \<Rightarrow> u32 \<Rightarrow> repeat_error + u32" where
  "packedSize type mn mx period = sbind (repeat_state_info type mn mx period) (\<lambda>rsi. Inr (rsi_packedCtrlSize rsi))"

definition streamStateSize :: "RepeatType \<Rightarrow> depth \<Rightarrow> depth \<Rightarrow> u32 \<Rightarrow> repeat_error + u32" where
  "streamStateSize type mn mx period = sbind (repeat_state_info type mn mx period) (\<lambda>rsi. Inr (rsi_stateSize rsi))"

section \<open>The choice\<close>

definition choose_large :: "depth \<Rightarrow> depth \<Rightarrow> u32 \<Rightarrow> repeat_error + RepeatType" where
  "choose_large mn mx period =
     sbind (if mn < mx
            then sbind (u32_of_depth mn) (\<lambda>n. sbind (u32_of_depth mx) (\<lambda>m.
                 if numRangeSlots n m \<le> REPEAT_RANGE_MAX_SLOTS then streamStateSize REPEAT_RANGE mn mx period
                 else Inr (- 1)))
            else Inr (- 1)) (\<lambda>range_len.
     sbind (if 6 < period then streamStateSize REPEAT_SPARSE_OPTIMAL_P mn mx period else Inr (- 1)) (\<lambda>sparse_len.
     Inr (if range_len \<noteq> - 1 \<or> sparse_len \<noteq> - 1
          then if range_len < sparse_len then REPEAT_RANGE else REPEAT_SPARSE_OPTIMAL_P
          else REPEAT_RING)))"

definition chooseRepeatType :: "depth \<Rightarrow> depth \<Rightarrow> u32 \<Rightarrow> bool \<Rightarrow> bool \<Rightarrow> repeat_error + RepeatType" where
  "chooseRepeatType mn mx period is_reset has_external_guard =
     (if is_infinite mx
      then sbind (if has_external_guard then sbind (u32_of_depth mn) (\<lambda>n. Inr (n = 0)) else Inr False) (\<lambda>always.
           Inr (if always then REPEAT_ALWAYS else REPEAT_FIRST))
      else if mn = Depth 0 \<or> is_reset then Inr REPEAT_LAST
      else if mx < Depth 64
      then sbind (packedSize REPEAT_BITMAP mn mx period) (\<lambda>bitmap_len.
           sbind (packedSize REPEAT_TRAILER mn mx period) (\<lambda>trailer_len.
           Inr (if bitmap_len \<le> trailer_len then REPEAT_BITMAP else REPEAT_TRAILER)))
      else if mn \<le> Depth 64 then Inr REPEAT_TRAILER
      else choose_large mn mx period)"

section \<open>The description of an engine\<close>

definition lbr_depth_to_u32 :: "depth \<Rightarrow> repeat_error + u32" where
  "lbr_depth_to_u32 d = (if is_infinite d then Inr REPEAT_INF else u32_of_depth d)"

text \<open>The fields of the engine and of its \<open>NFA\<close> header that depend on the repeat.\<close>

record lbr_nfa =
  nfa_report :: u32
  nfa_repeatInfo :: RepeatInfo
  nfa_nPositions :: u32
  nfa_streamStateSize :: u32
  nfa_minWidth :: u32
  nfa_maxWidth :: u32

definition fillNfa :: "u32 \<Rightarrow> depth \<Rightarrow> depth \<Rightarrow> u32 \<Rightarrow> RepeatType \<Rightarrow> repeat_error + lbr_nfa" where
  "fillNfa report mn mx period rtype =
     sbind (repeat_state_info rtype mn mx period) (\<lambda>rsi.
     sbind (lbr_depth_to_u32 mn) (\<lambda>n.
     sbind (lbr_depth_to_u32 mx) (\<lambda>m.
     sbind (u32_of_depth mn) (\<lambda>width.
     let info = \<lparr>repeat_type = rtype, repeatMin = n, repeatMax = m, horizon = rsi_horizon rsi,
                 packedCtrlSize = rsi_packedCtrlSize rsi, stateSize = rsi_stateSize rsi, minPeriod = period,
                 packedFieldSizes = rsi_packedFieldSizes rsi, patchCount = rsi_patchCount rsi,
                 patchSize = rsi_patchSize rsi, encodingSize = rsi_encodingSize rsi,
                 patchesOffset = rsi_patchesOffset rsi,
                 implTable = if rtype = REPEAT_SPARSE_OPTIMAL_P then rsi_table rsi else []\<rparr>
     in sbind (if is_finite mx then u32_of_depth mx else Inr 0) (\<lambda>maxWidth.
        Inr \<lparr>nfa_report = report, nfa_repeatInfo = info, nfa_nPositions = width,
             nfa_streamStateSize = rsi_packedCtrlSize rsi + rsi_stateSize rsi,
             nfa_minWidth = width, nfa_maxWidth = maxWidth\<rparr>)))))"

text \<open>The builders of \<open>ng_lbr.cpp\<close> choose the model, then fill the engine in.\<close>

definition build_lbr :: "u32 \<Rightarrow> depth \<Rightarrow> depth \<Rightarrow> u32 \<Rightarrow> bool \<Rightarrow> repeat_error + lbr_nfa" where
  "build_lbr report mn mx period is_reset =
     sbind (chooseRepeatType mn mx period is_reset False) (\<lambda>rtype. fillNfa report mn mx period rtype)"

section \<open>The packed sizes are enough\<close>

lemma packed_bits:
  assumes "1 \<le> unat val"
  shows "unat val - 1 < 2 ^ unat (calcPackedBits val)" "1 \<le> unat (calcPackedBits val)" "unat (calcPackedBits val) \<le> 64"
proof -
  have "unat val - 1 < 2 ^ unat (calcPackedBits val) \<and> 1 \<le> unat (calcPackedBits val) \<and> unat (calcPackedBits val) \<le> 64"
  proof (cases "val \<le> 1")
    case True
    then show ?thesis by (simp add: calcPackedBits_def word_le_nat_alt)
  next
    case False
    define w where "w = val - 1"
    have w: "unat w = unat val - 1" "w \<noteq> 0"
      using False assms unat_sub [of 1 val] by (auto simp: w_def word_le_nat_alt)
    then have ne: "bitset w \<noteq> {}" by (simp add: bitset_empty_iff)
    define M where "M = Max (bitset w)"
    have M: "M \<in> bitset w" "\<And>i. i \<in> bitset w \<Longrightarrow> i \<le> M" using ne by (auto simp: M_def)
    have M64: "M < 64" using bitset_bound [OF M(1)] by simp
    have "take_bit (Suc M) w = w"
      using M(2) by (auto simp: bit_eq_iff bit_take_bit_iff bitset_def less_Suc_eq_le)
    then have "unat w < 2 ^ Suc M"
      by (metis take_bit_nat_less_exp unsigned_take_bit_eq)
    moreover have "unat (calcPackedBits val) = Suc M"
      using False w(2) M64 by (simp add: calcPackedBits_def w_def [symmetric] lg2_64_def clz64_Max M_def [symmetric]
          unat_word_ariths unat_of_nat)
    ultimately show ?thesis using w M64 by simp
  qed
  then show "unat val - 1 < 2 ^ unat (calcPackedBits val)" "1 \<le> unat (calcPackedBits val)"
    "unat (calcPackedBits val) \<le> 64" by simp_all
qed

lemma packed_bytes:
  fixes h :: u32
  assumes "unat h < 2 ^ 32 - 1"
  shows "bytes_hold (unat (calcPackedBytes (ucast (h + 1)))) (unat h)" "calcPackedBytes (ucast (h + 1)) \<noteq> 0"
proof -
  define bits where "bits = calcPackedBits (ucast (h + 1))"
  have "unat (h + 1) = unat h + 1" using unat_add_lem [of h 1] assms by simp
  then have v: "unat (ucast (h + 1) :: u64a) = unat h + 1" by (simp add: unat_u32)
  have bits: "unat h < 2 ^ unat bits" "1 \<le> unat bits" "unat bits \<le> 64"
    using packed_bits [of "ucast (h + 1)"] v by (simp_all add: bits_def)
  have bytes: "unat (calcPackedBytes (ucast (h + 1))) = (unat bits + 7) div 8"
    using bits(3) by (simp add: calcPackedBytes_def bits_def [symmetric] unat_div unat_word_ariths)
  have "unat bits \<le> 8 * ((unat bits + 7) div 8)" by linarith
  then have "(2 :: nat) ^ unat bits \<le> 2 ^ (8 * ((unat bits + 7) div 8))" by (rule power_increasing) simp
  then show "bytes_hold (unat (calcPackedBytes (ucast (h + 1)))) (unat h)"
    using less_le_trans [OF bits(1)] bits(3) by (auto simp: bytes_hold_def bytes)
  have "1 \<le> (unat bits + 7) div 8" using bits(2) by linarith
  then show "calcPackedBytes (ucast (h + 1)) \<noteq> 0" using bytes by (metis not_one_le_zero unat_0)
qed

section \<open>Every description built is well-formed\<close>

lemma depth_add_small:
  assumes "unat (dval d) + k < 2 ^ 31 - 1"
  shows "depth_add_s32 d (of_nat k) = Inr (Depth (dval d + of_nat k))" "unat (dval d + of_nat k) = unat (dval d) + k"
proof -
  have fin: "is_finite d" using assms by (simp add: is_finite_unat)
  have k: "sint (of_nat k :: s32) = int k"
    using assms by (simp add: sint_uint uint_nat unat_of_nat take_bit_nat_eq_self signed_take_bit_int_eq_self)
  have "int (unat (dval d) + k) < int (2 ^ 31 - 1)" using assms by (simp only: of_nat_less_iff)
  then have d: "uint (dval d) + int k < 2 ^ 31 - 1" by simp
  show "depth_add_s32 d (of_nat k) = Inr (Depth (dval d + of_nat k))"
    unfolding depth_add_s32_finite [OF fin] k depth_of_int_def using d by simp
  show "unat (dval d + of_nat k) = unat (dval d) + k"
    using assms by (simp add: unat_word_ariths unat_of_nat take_bit_nat_eq_self mod_less)
qed

text \<open>The bounds of a repeat the compiler accepts: the maximum may be infinite.\<close>

definition bounds_accepted :: "depth \<Rightarrow> depth \<Rightarrow> bool" where
  "bounds_accepted mn mx \<longleftrightarrow> mn \<le> mx \<and> unat (dval mn) < 32768 \<and> (is_infinite mx \<or> unat (dval mx) < 32768)"

lemma bounds_acceptedD:
  assumes "bounds_accepted mn mx"
  shows "is_finite mn" "is_finite mx \<Longrightarrow> unat (dval mn) \<le> unat (dval mx)" "is_finite mx \<Longrightarrow> unat (dval mx) < 32768"
    "is_infinite mx \<or> is_finite mx" "u32_of_depth mn = Inr (dval mn)" "is_finite mx \<Longrightarrow> u32_of_depth mx = Inr (dval mx)"
    "is_finite mx \<Longrightarrow> \<not> is_infinite mx"
  using assms depth_kinds_excl [of mx]
  by (auto simp: bounds_accepted_def is_finite_unat less_eq_depth_def word_le_nat_alt lift_depth_def depth_to_u32_def
      intro: less_trans)

lemma depth_plus_small:
  assumes "is_finite d" "unat (dval d) + k < 2 ^ 31 - 1"
  shows "depth_plus_u32 d (of_nat k) = Inr (dval d + of_nat k)"
  using depth_add_small [OF assms(2)] assms by (simp add: depth_plus_u32_def lift_depth_def depth_to_u32_def is_finite_unat)

lemma double_plus_one:
  fixes w :: u32
  assumes "unat w < 32768"
  shows "unat (w * 2 + 1) = 2 * unat w + 1" "unat (w + 1) = unat w + 1"
  using assms by (simp_all add: unat_word_ariths)

text \<open>What the description of each type is, for accepted bounds.\<close>

definition built_info :: "RepeatType \<Rightarrow> depth \<Rightarrow> depth \<Rightarrow> u32 \<Rightarrow> RepeatStateInfo \<Rightarrow> RepeatInfo" where
  "built_info rtype mn mx period rsi =
     \<lparr>repeat_type = rtype, repeatMin = dval mn, repeatMax = (if is_infinite mx then REPEAT_INF else dval mx),
      horizon = rsi_horizon rsi, packedCtrlSize = rsi_packedCtrlSize rsi, stateSize = rsi_stateSize rsi,
      minPeriod = period, packedFieldSizes = rsi_packedFieldSizes rsi, patchCount = rsi_patchCount rsi,
      patchSize = rsi_patchSize rsi, encodingSize = rsi_encodingSize rsi, patchesOffset = rsi_patchesOffset rsi,
      implTable = if rtype = REPEAT_SPARSE_OPTIMAL_P then rsi_table rsi else []\<rparr>"

lemma fillNfa_built:
  assumes "bounds_accepted mn mx" "repeat_state_info rtype mn mx period = Inr rsi"
  shows "\<exists>nfa. fillNfa report mn mx period rtype = Inr nfa \<and> nfa_repeatInfo nfa = built_info rtype mn mx period rsi
    \<and> nfa_report nfa = report"
  using bounds_acceptedD [OF assms(1)] assms(2) depth_kinds_excl [of mn]
  by (auto simp: fillNfa_def lbr_depth_to_u32_def built_info_def)

lemma mmbit_size_some: "n \<le> MMB_MAX_BITS \<Longrightarrow> \<exists>k. mmbit_size n = Some k"
  by (cases "n \<le> MMB_FLAT_MAX_BITS") (auto simp: mmbit_size_def Let_def split: prod.splits)

lemma built_ring:
  assumes "bounds_accepted mn mx" "is_finite mx" "0 < dval mx"
  shows "\<exists>rsi. repeat_state_info REPEAT_RING mn mx period = Inr rsi \<and> repeat_ok (built_info REPEAT_RING mn mx period rsi)"
proof -
  note B = bounds_acceptedD [OF assms(1)]
  have plus: "depth_plus_u32 mx 1 = Inr (dval mx + 1)" using depth_plus_small [OF assms(2), of 1] B(3) [OF assms(2)] by simp
  note D = double_plus_one [OF B(3) [OF assms(2)]]
  obtain st where st: "size_of_mmbit (dval mx + 1) = Inr st"
    using D(2) B(3) [OF assms(2)] mmbit_size_some [of "unat (dval mx + 1)"] by (auto simp: size_of_mmbit_def MMB_MAX_BITS_def)
  have "unat (dval mx * 2 + 1) < 2 ^ 32 - 1" using D(1) B(3) [OF assms(2)] by simp
  note P = packed_bytes [OF this]
  show ?thesis
    using B D P assms(2,3)
    by (simp add: repeat_state_info_def plus st Let_def built_info_def repeat_ok_def ring_ok_def ring_indices_len_def
        less_depth_def word_le_nat_alt word_less_nat_alt depth_kinds_excl)
qed

lemma built_first:
  assumes "bounds_accepted mn mx" "is_infinite mx"
  shows "\<exists>rsi. repeat_state_info REPEAT_FIRST mn mx period = Inr rsi \<and> repeat_ok (built_info REPEAT_FIRST mn mx period rsi)"
proof -
  note B = bounds_acceptedD [OF assms(1)]
  have mn: "unat (dval mn) < 32768" using assms(1) by (simp add: bounds_accepted_def)
  then have "unat (dval mn) < 2 ^ 32 - 1" by simp
  note P = packed_bytes [OF this]
  show ?thesis
    using B P assms(2) mn
    by (simp add: repeat_state_info_def built_info_def repeat_ok_def bounds_ok_def word_le_nat_alt REPEAT_INF_def)
qed

lemma built_last:
  assumes "bounds_accepted mn mx" "is_finite mx" "dval mn = 0"
  shows "\<exists>rsi. repeat_state_info REPEAT_LAST mn mx period = Inr rsi \<and> repeat_ok (built_info REPEAT_LAST mn mx period rsi)"
proof -
  note B = bounds_acceptedD [OF assms(1)]
  have plus: "depth_plus_u32 mx 1 = Inr (dval mx + 1)" using depth_plus_small [OF assms(2), of 1] B(3) [OF assms(2)] by simp
  note D = double_plus_one [OF B(3) [OF assms(2)]]
  have "unat (dval mx + 1) < 2 ^ 32 - 1" using D B(3) [OF assms(2)] by simp
  note P = packed_bytes [OF this]
  show ?thesis
    using B D P assms(2,3)
    by (auto simp: repeat_state_info_def plus built_info_def repeat_ok_def bounds_ok_def word_le_nat_alt REPEAT_INF_def
        depth_kinds_excl Let_def)
qed

lemma built_range:
  assumes "bounds_accepted mn mx" "is_finite mx" "mn < mx" "numRangeSlots (dval mn) (dval mx) \<le> REPEAT_RANGE_MAX_SLOTS"
  shows "\<exists>rsi. repeat_state_info REPEAT_RANGE mn mx period = Inr rsi \<and> repeat_ok (built_info REPEAT_RANGE mn mx period rsi)"
proof -
  note B = bounds_acceptedD [OF assms(1)]
  note D = double_plus_one [OF B(3) [OF assms(2)]]
  have "unat (dval mx * 2 + 1) < 2 ^ 32 - 1" using D B(3) [OF assms(2)] by simp
  note P = packed_bytes [OF this]
  show ?thesis
    using B D P assms(2-)
    by (auto simp: repeat_state_info_def Let_def built_info_def repeat_ok_def range_ok_def bounds_ok_def word_le_nat_alt
        word_less_nat_alt REPEAT_INF_def REPEAT_RANGE_MAX_SLOTS_def rangeListCapacity_def numRangeSlots_def less_depth_def
        depth_kinds_excl)
qed

lemma round_div_8: "unat ((n AND - 8) div 8) = unat n div 8" for n :: u32
proof -
  have eq: "(- 8 :: u32) = NOT (mask 3)" by (simp add: mask_eq_exp_minus_1)
  have "drop_bit 3 (n AND - 8) = drop_bit 3 n"
  proof (rule bit_word_eqI)
    fix k assume "k < LENGTH(32)"
    then show "bit (drop_bit 3 (n AND - 8)) k = bit (drop_bit 3 n) k"
      unfolding eq by (auto simp only: bit_drop_bit_eq o_def bit_and_iff bit_not_iff_eq bit_mask_iff exp_eq_zero_iff dest: bit_imp_le_length)
  qed
  then have "(n AND - 8) div 8 = n div 8" by (simp add: drop_bit_eq_div)
  then show ?thesis by (simp add: unat_div)
qed

lemma bitmap_state_info:
  assumes "bounds_accepted mn mx" "is_finite mx"
  shows "\<exists>rsi. repeat_state_info REPEAT_BITMAP mn mx period = Inr rsi
    \<and> unat (rsi_packedCtrlSize rsi) = (unat (dval mx) + 8) div 8"
proof -
  note B = bounds_acceptedD [OF assms(1)]
  have one: "depth_add_s32 mx 1 = Inr (Depth (dval mx + 1))" "unat (dval mx + 1) = unat (dval mx) + 1"
    using depth_add_small [of mx 1] B(3) [OF assms(2)] by simp_all
  have "depth_plus_u32 (Depth (dval mx + 1)) 7 = Inr (dval mx + 1 + 7)"
    using depth_plus_small [of "Depth (dval mx + 1)" 7] one(2) B(3) [OF assms(2)] by (simp add: is_finite_unat)
  moreover have "unat (dval mx + 1 + 7) = unat (dval mx) + 8"
    using depth_add_small(2) [of "Depth (dval mx + 1)" 7] one(2) B(3) [OF assms(2)] by simp
  ultimately show ?thesis
    using one(1) by (simp add: repeat_state_info_def lift_depth_def round_div_8 add.commute)
qed

lemma built_bitmap:
  assumes "bounds_accepted mn mx" "is_finite mx" "mx < Depth 64"
  shows "\<exists>rsi. repeat_state_info REPEAT_BITMAP mn mx period = Inr rsi \<and> repeat_ok (built_info REPEAT_BITMAP mn mx period rsi)"
proof -
  note B = bounds_acceptedD [OF assms(1)]
  obtain rsi where rsi: "repeat_state_info REPEAT_BITMAP mn mx period = Inr rsi"
      "unat (rsi_packedCtrlSize rsi) = (unat (dval mx) + 8) div 8"
    using bitmap_state_info [OF assms(1,2)] by blast
  have "unat (dval mx) < 64" using assms(3) by (simp add: less_depth_def word_less_nat_alt)
  moreover have "unat (dval mx) < 8 * ((unat (dval mx) + 8) div 8)" by linarith
  ultimately show ?thesis
    using B rsi assms(2)
    by (intro exI [of _ rsi]) (auto simp: built_info_def repeat_ok_def bounds_ok_def word_le_nat_alt word_less_nat_alt
        REPEAT_INF_def depth_kinds_excl)
qed

lemma trailer_state_info:
  assumes "bounds_accepted mn mx" "is_finite mx"
  shows "\<exists>rsi. repeat_state_info REPEAT_TRAILER mn mx period = Inr rsi \<and> rsi_horizon rsi = dval mx + 1
    \<and> rsi_packedFieldSizes rsi = [calcPackedBits (ucast (dval mx + 1 + 1)), dval mn]"
proof -
  have "depth_plus_u32 mx 1 = Inr (dval mx + 1)"
    using depth_plus_small [OF assms(2), of 1] bounds_acceptedD(3) [OF assms] by simp
  then show ?thesis using bounds_acceptedD [OF assms(1)] by (simp add: repeat_state_info_def Let_def)
qed

lemma built_trailer:
  assumes "bounds_accepted mn mx" "is_finite mx" "mn \<le> Depth 64"
  shows "\<exists>rsi. repeat_state_info REPEAT_TRAILER mn mx period = Inr rsi \<and> repeat_ok (built_info REPEAT_TRAILER mn mx period rsi)"
proof -
  note B = bounds_acceptedD [OF assms(1)]
  obtain rsi where rsi: "repeat_state_info REPEAT_TRAILER mn mx period = Inr rsi" "rsi_horizon rsi = dval mx + 1"
      "rsi_packedFieldSizes rsi = [calcPackedBits (ucast (dval mx + 1 + 1)), dval mn]"
    using trailer_state_info [OF assms(1,2)] by blast
  have v: "unat (ucast (dval mx + 1 + 1) :: u64a) = unat (dval mx) + 2"
    using B(3) [OF assms(2)] by (simp add: unat_word_ariths)
  then have "1 \<le> unat (ucast (dval mx + 1 + 1) :: u64a)" by simp
  note P = packed_bits [OF this, unfolded v]
  show ?thesis
    using B rsi P assms(2,3) double_plus_one(2) [OF B(3) [OF assms(2)]]
    by (intro exI [of _ rsi]) (auto simp: built_info_def repeat_ok_def trailer_ok_def bounds_ok_def word_le_nat_alt
        word_less_nat_alt REPEAT_INF_def less_eq_depth_def depth_kinds_excl)
qed

text \<open>The choice never fails, and picks a model whose description is well-formed.\<close>

lemma depth_small_cases:
  assumes "is_finite mx" "mn \<le> mx"
  shows "mn = Depth 0 \<longleftrightarrow> dval mn = 0"
  by (cases mn) simp

lemma choose_large_ok:
  assumes "bounds_accepted mn mx" "is_finite mx" "dval mn \<noteq> 0" "period \<le> 6"
  shows "\<exists>rtype rsi. choose_large mn mx period = Inr rtype \<and> repeat_state_info rtype mn mx period = Inr rsi
    \<and> repeat_ok (built_info rtype mn mx period rsi)"
proof (cases "mn < mx \<and> numRangeSlots (dval mn) (dval mx) \<le> REPEAT_RANGE_MAX_SLOTS")
  case True
  obtain rsi where rsi: "repeat_state_info REPEAT_RANGE mn mx period = Inr rsi" "repeat_ok (built_info REPEAT_RANGE mn mx period rsi)"
    using built_range [OF assms(1,2)] True by blast
  then have "rsi_stateSize rsi = numRangeSlots (dval mn) (dval mx) * 2"
    using bounds_acceptedD [OF assms(1)] assms(2) by (auto simp: repeat_state_info_def Let_def)
  then have "unat (rsi_stateSize rsi) \<le> 32"
    using True by (simp add: unat_word_ariths REPEAT_RANGE_MAX_SLOTS_def word_le_nat_alt)
  then have "rsi_stateSize rsi \<noteq> - 1" by (auto simp: unsigned_minus_1_eq_mask mask_eq_exp_minus_1)
  then have "rsi_stateSize rsi < - 1" by (simp add: word_order.not_eq_extremum)
  then have "choose_large mn mx period = Inr REPEAT_RANGE"
    using True rsi(1) bounds_acceptedD [OF assms(1)] assms(2,4) by (auto simp: choose_large_def streamStateSize_def)
  then show ?thesis using rsi by blast
next
  case False
  then have "choose_large mn mx period = Inr REPEAT_RING"
    using bounds_acceptedD [OF assms(1)] assms(2,4) by (auto simp: choose_large_def)
  moreover have "dval mn \<le> dval mx" using assms(1) by (simp add: bounds_accepted_def less_eq_depth_def)
  then have "0 < dval mx" using assms(3) by (simp add: word_less_nat_alt word_le_nat_alt unat_gt_0 unat_eq_0) (metis le_0_eq neq0_conv unat_eq_0)
  ultimately show ?thesis using built_ring [OF assms(1,2)] by blast
qed

lemma choose_ok:
  assumes "bounds_accepted mn mx" "period \<le> 6"
  shows "\<exists>rtype rsi. chooseRepeatType mn mx period False False = Inr rtype \<and> repeat_state_info rtype mn mx period = Inr rsi
    \<and> repeat_ok (built_info rtype mn mx period rsi)"
proof (cases "is_infinite mx")
  case True
  then show ?thesis using built_first [OF assms(1) True] by (simp add: chooseRepeatType_def)
next
  case False
  then have fin: "is_finite mx" using bounds_acceptedD [OF assms(1)] by blast
  consider "dval mn = 0" | "dval mn \<noteq> 0" "mx < Depth 64" | "dval mn \<noteq> 0" "\<not> mx < Depth 64" "mn \<le> Depth 64"
    | "dval mn \<noteq> 0" "\<not> mx < Depth 64" "\<not> mn \<le> Depth 64" by blast
  then show ?thesis
  proof cases
    case 1
    then show ?thesis using built_last [OF assms(1) fin 1] False by (cases mn) (simp add: chooseRepeatType_def)
  next
    case 2
    have "mn \<le> Depth 64" using 2(2) assms(1) by (auto simp: bounds_accepted_def)
    then obtain rsi1 rsi2 where
      "repeat_state_info REPEAT_BITMAP mn mx period = Inr rsi1" "repeat_ok (built_info REPEAT_BITMAP mn mx period rsi1)"
      "repeat_state_info REPEAT_TRAILER mn mx period = Inr rsi2" "repeat_ok (built_info REPEAT_TRAILER mn mx period rsi2)"
      using built_bitmap [OF assms(1) fin 2(2)] built_trailer [OF assms(1) fin] by blast
    then show ?thesis using 2 False by (cases mn) (auto simp: chooseRepeatType_def packedSize_def)
  next
    case 3
    then show ?thesis using built_trailer [OF assms(1) fin 3(3)] False by (cases mn) (auto simp: chooseRepeatType_def)
  next
    case 4
    then show ?thesis using choose_large_ok [OF assms(1) fin 4(1) assms(2)] False by (cases mn) (auto simp: chooseRepeatType_def)
  qed
qed

lemma choose_large_not_always:
  assumes "choose_large mn mx period = Inr rtype"
  shows "rtype \<noteq> REPEAT_ALWAYS"
proof -
  obtain range_len sparse_len :: u32 where
    "Inr (if range_len \<noteq> - 1 \<or> sparse_len \<noteq> - 1
          then if range_len < sparse_len then REPEAT_RANGE else REPEAT_SPARSE_OPTIMAL_P else REPEAT_RING) = Inr rtype"
    using assms unfolding choose_large_def sbind_Inr_iff by blast
  then have "rtype \<in> {REPEAT_RANGE, REPEAT_SPARSE_OPTIMAL_P, REPEAT_RING}" by (simp only: sum.inject) (metis insertI1 insertI2)
  then show ?thesis by blast
qed

lemma choose_not_always:
  assumes "chooseRepeatType mn mx period is_reset False = Inr rtype"
  shows "rtype \<noteq> REPEAT_ALWAYS"
proof (cases "is_infinite mx \<or> mn = Depth 0 \<or> is_reset")
  case True
  then show ?thesis using assms by (simp only: chooseRepeatType_def) (auto split: if_splits)
next
  case False
  then have rtype: "(if mx < Depth 64
     then sbind (packedSize REPEAT_BITMAP mn mx period) (\<lambda>bitmap_len.
          sbind (packedSize REPEAT_TRAILER mn mx period) (\<lambda>trailer_len.
          Inr (if bitmap_len \<le> trailer_len then REPEAT_BITMAP else REPEAT_TRAILER)))
     else if mn \<le> Depth 64 then Inr REPEAT_TRAILER else choose_large mn mx period) = Inr rtype"
    using assms by (simp only: chooseRepeatType_def) simp
  show ?thesis
  proof (cases "mx < Depth 64")
    case True
    then obtain a b :: u32 where "Inr (if a \<le> b then REPEAT_BITMAP else REPEAT_TRAILER) = (Inr rtype :: repeat_error + RepeatType)"
      using rtype unfolding sbind_Inr_iff if_P [OF True] by blast
    then show ?thesis by (cases "a \<le> b") auto
  next
    case False
    then show ?thesis using rtype choose_large_not_always by (cases "mn \<le> Depth 64") auto
  qed
qed

lemma build_lbr_ok:
  assumes "bounds_accepted mn mx" "period \<le> 6"
  shows "\<exists>nfa. build_lbr report mn mx period False = Inr nfa \<and> nfa_report nfa = report \<and> repeat_ok (nfa_repeatInfo nfa)
    \<and> repeat_type (nfa_repeatInfo nfa) \<noteq> REPEAT_ALWAYS \<and> repeatMin (nfa_repeatInfo nfa) = dval mn
    \<and> repeatMax (nfa_repeatInfo nfa) = (if is_infinite mx then REPEAT_INF else dval mx)"
proof -
  obtain rtype rsi where c: "chooseRepeatType mn mx period False False = Inr rtype"
      "repeat_state_info rtype mn mx period = Inr rsi" "repeat_ok (built_info rtype mn mx period rsi)"
    using choose_ok [OF assms] by blast
  show ?thesis
    using fillNfa_built [OF assms(1) c(2), of report] c choose_not_always [OF c(1)] by (auto simp: build_lbr_def built_info_def)
qed



end
