(* ===== verification/Lbr.thy ===== *)
theory Lbr
  imports RepeatModel CharMasks
begin

text \<open>
  The engine for large bounded repeats, \<open>src/nfa/lbr.c\<close> and \<open>lbr_common_impl.h\<close>, on the queue of
  \<open>src/nfa/nfa_api_queue.h\<close>: it reads tops from a queue, looks for the escapes (the bytes outside the repeated class) in
  the buffer between them, and reports the matches of the repeat.
  The stream state is the packed control block and after it the repeat state; they are two memories here.
  Locations in the queue are signed and are integers; offsets of the stream are \<open>u64a\<close>.
  The vector scanners are given by what they return, byte by byte.
\<close>

section \<open>The queue\<close>

definition MQE_START :: u32 where "MQE_START = 0"
definition MQE_END :: u32 where "MQE_END = 1"
definition MQE_TOP :: u32 where "MQE_TOP = 2"
definition MQE_TOP_FIRST :: u32 where "MQE_TOP_FIRST = 4"

record mq_item =
  mqe_type :: u32
  mqe_location :: int

record mq =
  q_cur :: nat
  q_items :: "mq_item list" \<comment> \<open>the valid ones, up to \<open>end\<close>\<close>
  q_offset :: u64a
  q_buffer :: "u8 list"
  q_report_current :: bool

definition q_end :: "mq \<Rightarrow> nat" where
  "q_end q = length (q_items q)"

definition q_cur_type :: "mq \<Rightarrow> u32" where
  "q_cur_type q = mqe_type (q_items q ! q_cur q)"

definition q_cur_loc :: "mq \<Rightarrow> int" where
  "q_cur_loc q = mqe_location (q_items q ! q_cur q)"

definition q_last_loc :: "mq \<Rightarrow> int" where
  "q_last_loc q = mqe_location (q_items q ! (q_end q - 1))"

definition q_cur_offset :: "mq \<Rightarrow> u64a" where
  "q_cur_offset q = q_offset q + word_of_int (mqe_location (q_items q ! q_cur q))"

definition is_top :: "u32 \<Rightarrow> bool" where
  "is_top e \<longleftrightarrow> e = MQE_TOP \<or> e = MQE_TOP_FIRST"

text \<open>Stepping back and leaving a start in the place of an item that was dealt with.\<close>

definition q_restart :: "mq \<Rightarrow> int \<Rightarrow> mq" where
  "q_restart q loc =
     (let c = q_cur q - 1
      in q\<lparr>q_cur := c, q_items := (q_items q)[c := (q_items q ! c)\<lparr>mqe_type := MQE_START, mqe_location := loc\<rparr>]\<rparr>)"

section \<open>The engine and its state\<close>

datatype lbr_class =
  LBR_DOT | LBR_VERM u8 | LBR_NVERM u8 | LBR_SHUF "u8 list" "u8 list" | LBR_TRUF "u8 list" "u8 list"

record lbr =
  lbr_class :: lbr_class
  lbr_info :: RepeatInfo
  lbr_report :: u32

record lbr_state =
  lastEscape :: u64a
  lbr_ctrl :: RepeatControl

text \<open>The byte test of the truffle scanners: the column of the low nibble, and the bit of the rest of the byte.\<close>

definition truffle_hit :: "u8 list \<Rightarrow> u8 list \<Rightarrow> u8 \<Rightarrow> bool" where
  "truffle_hit highclear highset c =
     (bit ((if bit c 7 then highset else highclear) ! unat (c AND 0xf)) (unat (drop_bit 4 c AND 7)))"

fun is_escape :: "lbr_class \<Rightarrow> u8 \<Rightarrow> bool" where
  "is_escape LBR_DOT b = False"
| "is_escape (LBR_VERM c) b = (b = c)"
| "is_escape (LBR_NVERM c) b = (b \<noteq> c)"
| "is_escape (LBR_SHUF lo hi) b = shufti_hit lo hi b"
| "is_escape (LBR_TRUF m1 m2) b = truffle_hit m1 m2 b"

text \<open>\<open>lbrFwdScan\<close> and \<open>lbrRevScan\<close>: the first and the last escape in a range of the buffer.\<close>

definition lbrFwdScan :: "lbr_class \<Rightarrow> u8 list \<Rightarrow> nat \<Rightarrow> nat \<Rightarrow> nat option" where
  "lbrFwdScan k buf b e =
     (let ptr = b + length (takeWhile (\<lambda>x. \<not> is_escape k x) (take (e - b) (drop b buf)))
      in if ptr = e then None else Some ptr)"

definition lbrRevScan :: "lbr_class \<Rightarrow> u8 list \<Rightarrow> nat \<Rightarrow> nat \<Rightarrow> nat option" where
  "lbrRevScan k buf b e =
     (if b = e then None
      else let ptr = int e - 1 - int (length (takeWhile (\<lambda>x. \<not> is_escape k x) (rev (take (e - b) (drop b buf)))))
           in if ptr = int b - 1 then None else Some (nat ptr))"

definition REPEAT_DEAD :: u64a where
  "REPEAT_DEAD = - 1"

definition clearRepeat :: "RepeatInfo \<Rightarrow> lbr_state \<Rightarrow> lbr_state" where
  "clearRepeat info lstate =
     (let ctrl = lbr_ctrl lstate
      in case repeat_type info of
        REPEAT_RING \<Rightarrow> lstate\<lparr>lbr_ctrl := ctrl\<lparr>ctrl_ring := (ctrl_ring ctrl)\<lparr>ring_offset := REPEAT_DEAD\<rparr>\<rparr>\<rparr>
      | REPEAT_RANGE \<Rightarrow> lstate\<lparr>lbr_ctrl := ctrl\<lparr>ctrl_range := (ctrl_range ctrl)\<lparr>range_offset := REPEAT_DEAD\<rparr>\<rparr>\<rparr>
      | REPEAT_FIRST \<Rightarrow> lstate\<lparr>lbr_ctrl := ctrl\<lparr>ctrl_offset := (ctrl_offset ctrl)\<lparr>off_offset := REPEAT_DEAD\<rparr>\<rparr>\<rparr>
      | REPEAT_LAST \<Rightarrow> lstate\<lparr>lbr_ctrl := ctrl\<lparr>ctrl_offset := (ctrl_offset ctrl)\<lparr>off_offset := REPEAT_DEAD\<rparr>\<rparr>\<rparr>
      | REPEAT_BITMAP \<Rightarrow> lstate\<lparr>lbr_ctrl := ctrl\<lparr>ctrl_bitmap := (ctrl_bitmap ctrl)\<lparr>bm_offset := REPEAT_DEAD\<rparr>\<rparr>\<rparr>
      | REPEAT_SPARSE_OPTIMAL_P \<Rightarrow> lstate\<lparr>lbr_ctrl := ctrl\<lparr>ctrl_ring := (ctrl_ring ctrl)\<lparr>ring_offset := REPEAT_DEAD\<rparr>\<rparr>\<rparr>
      | REPEAT_TRAILER \<Rightarrow> lstate\<lparr>lbr_ctrl := ctrl\<lparr>ctrl_trailer := (ctrl_trailer ctrl)\<lparr>tr_offset := REPEAT_DEAD\<rparr>\<rparr>\<rparr>
      | REPEAT_ALWAYS \<Rightarrow> lstate)"

definition repeatIsDead :: "RepeatInfo \<Rightarrow> lbr_state \<Rightarrow> bool" where
  "repeatIsDead info lstate =
     (let ctrl = lbr_ctrl lstate
      in case repeat_type info of
        REPEAT_RING \<Rightarrow> ring_offset (ctrl_ring ctrl) = REPEAT_DEAD
      | REPEAT_RANGE \<Rightarrow> range_offset (ctrl_range ctrl) = REPEAT_DEAD
      | REPEAT_FIRST \<Rightarrow> off_offset (ctrl_offset ctrl) = REPEAT_DEAD
      | REPEAT_LAST \<Rightarrow> off_offset (ctrl_offset ctrl) = REPEAT_DEAD
      | REPEAT_BITMAP \<Rightarrow> bm_offset (ctrl_bitmap ctrl) = REPEAT_DEAD
      | REPEAT_SPARSE_OPTIMAL_P \<Rightarrow> ring_offset (ctrl_ring ctrl) = REPEAT_DEAD
      | REPEAT_TRAILER \<Rightarrow> tr_offset (ctrl_trailer ctrl) = REPEAT_DEAD
      | REPEAT_ALWAYS \<Rightarrow> False)"

definition lbrIsAlive :: "lbr \<Rightarrow> lbr_state \<Rightarrow> mem \<Rightarrow> u64a \<Rightarrow> bool" where
  "lbrIsAlive l lstate m offset =
     (let info = lbr_info l
      in if repeatIsDead info lstate then False
         else if repeatMax info = REPEAT_INF then True
         else let lastTop = repeatLastTop info (lbr_ctrl lstate, m)
              in offset < lastTop + ucast (repeatMax info))"

definition lbrIsActive :: "lbr \<Rightarrow> lbr_state \<Rightarrow> mem \<Rightarrow> u64a \<Rightarrow> bool option" where
  "lbrIsActive l lstate m offset =
     Option.bind (repeatHasMatch (lbr_info l) (lbr_ctrl lstate, m) offset) (\<lambda>r.
     if r = REPEAT_MATCH then Some True
     else map_option (\<lambda>i. i \<noteq> 0) (repeatNextMatch (lbr_info l) (lbr_ctrl lstate, m) offset))"

definition lbrTop :: "lbr \<Rightarrow> lbr_state \<Rightarrow> mem \<Rightarrow> u64a \<Rightarrow> (lbr_state \<times> mem) option" where
  "lbrTop l lstate m offset =
     (let info = lbr_info l;
          is_alive = (\<not> repeatIsDead info lstate)
      in if is_alive \<and> repeatLastTop info (lbr_ctrl lstate, m) = offset then Some (lstate, m)
         else map_option (\<lambda>(ctrl, m). (lstate\<lparr>lbr_ctrl := ctrl\<rparr>, m))
                (repeatStore info (lbr_ctrl lstate, m) offset is_alive))"

definition lbrInAccept :: "lbr \<Rightarrow> lbr_state \<Rightarrow> mem \<Rightarrow> u64a \<Rightarrow> u32 \<Rightarrow> bool option" where
  "lbrInAccept l lstate m offset report =
     (if report \<noteq> lbr_report l then Some False
      else map_option (\<lambda>r. r = REPEAT_MATCH) (repeatHasMatch (lbr_info l) (lbr_ctrl lstate, m) offset))"

definition lbrFindMatch :: "lbr \<Rightarrow> u64a \<Rightarrow> u64a \<Rightarrow> lbr_state \<Rightarrow> mem \<Rightarrow> u64a option option" where
  "lbrFindMatch l begn endp lstate m =
     (if begn = endp then Some None
      else map_option (\<lambda>i. if i = 0 then None else if endp < i then None else Some (i - begn))
             (repeatNextMatch (lbr_info l) (lbr_ctrl lstate, m) begn))"

text \<open>A callback gets the offset and the report, may keep a context, and says whether to go on.\<close>

type_synonym 'c callback = "u64a \<Rightarrow> u32 \<Rightarrow> 'c \<Rightarrow> bool \<times> 'c"

partial_function (option) lbr_match_loop ::
  "lbr \<Rightarrow> u64a \<Rightarrow> repeat_state \<Rightarrow> 'c callback \<Rightarrow> u64a \<Rightarrow> 'c \<Rightarrow> (bool \<times> 'c) option" where
  "lbr_match_loop l endp s cb i ctx =
     Option.bind (repeatNextMatch (lbr_info l) s i) (\<lambda>i.
     if i = 0 then Some (True, ctx)
     else if endp < i then Some (True, ctx)
     else case cb i (lbr_report l) ctx of
       (go, ctx) \<Rightarrow> if go then lbr_match_loop l endp s cb i ctx else Some (False, ctx))"

definition lbrMatchLoop ::
  "lbr \<Rightarrow> u64a \<Rightarrow> u64a \<Rightarrow> lbr_state \<Rightarrow> mem \<Rightarrow> 'c callback \<Rightarrow> 'c \<Rightarrow> (bool \<times> 'c) option" where
  "lbrMatchLoop l begn endp lstate m cb ctx =
     (if begn = endp then Some (True, ctx)
      else lbr_match_loop l endp (lbr_ctrl lstate, m) cb begn ctx)"

definition lbrCompressState :: "lbr \<Rightarrow> u64a \<Rightarrow> lbr_state \<Rightarrow> mem \<Rightarrow> mem" where
  "lbrCompressState l offset lstate packed = repeatPack packed (lbr_info l) (lbr_ctrl lstate) offset"

definition lbrExpandState :: "lbr \<Rightarrow> u64a \<Rightarrow> mem \<Rightarrow> lbr_state \<Rightarrow> lbr_state option" where
  "lbrExpandState l offset packed lstate =
     map_option (\<lambda>ctrl. lstate\<lparr>lbr_ctrl := ctrl, lastEscape := 0\<rparr>)
       (repeatUnpack packed (lbr_info l) offset (lbr_ctrl lstate))"

section \<open>Running the queue\<close>

definition MO_DEAD :: nat where "MO_DEAD = 0"
definition MO_ALIVE :: nat where "MO_ALIVE = 1"
definition MO_MATCHES_PENDING :: nat where "MO_MATCHES_PENDING = 2"
definition MO_HALT_MATCHING :: nat where "MO_HALT_MATCHING = 0"

datatype MatchMode = CALLBACK_OUTPUT | STOP_AT_MATCH

record lbr_exec =
  ex_state :: lbr_state
  ex_repeat :: mem
  ex_queue :: mq

text \<open>The inner loop of \<open>TopScan\<close>: the next top not before the last escape.\<close>

function find_top :: "mq \<Rightarrow> u64a \<Rightarrow> int \<Rightarrow> mq \<times> bool" where
  "find_top q escape endl =
     (if q_cur q < q_end q \<and> q_cur_loc q \<le> endl
      then if is_top (q_cur_type q) \<and> escape \<le> q_cur_offset q then (q, True)
           else find_top (q\<lparr>q_cur := q_cur q + 1\<rparr>) escape endl
      else (q, False))"
  by pat_completeness auto

termination
  by (relation "measure (\<lambda>(q, _, _). q_end q - q_cur q)") (auto simp: q_end_def)

declare find_top.simps [simp del]

partial_function (option) lbr_top_scan :: "lbr \<Rightarrow> int \<Rightarrow> lbr_exec \<Rightarrow> (bool \<times> lbr_exec) option" where
  "lbr_top_scan l endl x =
     (let (q, found) = find_top (ex_queue x) (lastEscape (ex_state x)) endl;
          x = x\<lparr>ex_queue := q\<rparr>
      in if \<not> found then Some (False, x)
         else let sp = q_cur_offset q;
                  first_match = sp + ucast (repeatMin (lbr_info l));
                  ep = min (word_of_int (min endl (int (length (q_buffer q)))) + q_offset q) first_match
              in case (if sp < ep \<and> q_offset q \<le> sp
                       then lbrRevScan (lbr_class l) (q_buffer q) (unat (sp - q_offset q)) (unat (ep - q_offset q))
                       else None) of
                   Some eloc \<Rightarrow>
                     lbr_top_scan l endl (x\<lparr>ex_state := (ex_state x)\<lparr>lastEscape := of_nat eloc\<rparr>,
                                           ex_queue := q\<lparr>q_cur := q_cur q + 1\<rparr>\<rparr>)
                 | None \<Rightarrow>
                     map_option (\<lambda>(lstate, m). (True, x\<lparr>ex_state := lstate, ex_repeat := m\<rparr>))
                       (lbrTop l (ex_state x) (ex_repeat x) sp))"

text \<open>
  One turn of the loop of \<open>Q_i\<close>, up to \<open>scan_done\<close>: the buffer up to the current item.  A code says that the
  function returns.
\<close>

definition lbr_segment ::
  "lbr \<Rightarrow> MatchMode \<Rightarrow> 'c callback \<Rightarrow> int \<Rightarrow> u64a \<Rightarrow> lbr_exec \<Rightarrow> 'c \<Rightarrow> (nat option \<times> lbr_exec \<times> 'c) option" where
  "lbr_segment l mode cb endl sp x ctx =
     (let q = ex_queue x; info = lbr_info l
      in if repeatIsDead info (ex_state x) then Some (None, x, ctx)
         else let ep = min (q_cur_offset q) (q_offset q + word_of_int endl)
              in if sp < ep
                 then let escape = lbrFwdScan (lbr_class l) (q_buffer q) (unat (sp - q_offset q)) (unat (ep - q_offset q));
                          ep = (case escape of Some eloc \<Rightarrow> q_offset q + of_nat eloc | None \<Rightarrow> ep);
                          cleared = (if escape \<noteq> None then x\<lparr>ex_state := clearRepeat info (ex_state x)\<rparr> else x)
                      in if mode = STOP_AT_MATCH
                         then map_option (\<lambda>found. case found of
                                Some mloc \<Rightarrow>
                                  (Some MO_MATCHES_PENDING,
                                   x\<lparr>ex_queue := q_restart q (int (unat (sp - q_offset q)) + int (unat mloc))\<rparr>, ctx)
                              | None \<Rightarrow> (None, cleared, ctx))
                              (lbrFindMatch l sp ep (ex_state x) (ex_repeat x))
                         else map_option (\<lambda>(go, ctx). if go then (None, cleared, ctx) else (Some MO_HALT_MATCHING, x, ctx))
                                (lbrMatchLoop l sp ep (ex_state x) (ex_repeat x) cb ctx)
                 else Some (None, x, ctx))"

text \<open>The rest of the turn: the current item.\<close>

definition lbr_event :: "lbr \<Rightarrow> int \<Rightarrow> lbr_exec \<Rightarrow> (nat option \<times> lbr_exec) option" where
  "lbr_event l endl x =
     (let q = ex_queue x
      in if endl < q_cur_loc q then Some (Some MO_ALIVE, x\<lparr>ex_queue := q_restart q endl\<rparr>)
         else if repeatIsDead (lbr_info l) (ex_state x)
         then map_option (\<lambda>(found, x).
                let q = ex_queue x
                in if found then (None, x)
                   else if q_cur q < q_end q \<and> endl < q_cur_loc q
                   then (Some MO_ALIVE, x\<lparr>ex_queue := q_restart q endl\<rparr>)
                   else (Some MO_DEAD, x))
              (lbr_top_scan l endl x)
         else if is_top (q_cur_type q)
         then map_option (\<lambda>(lstate, m). (None, x\<lparr>ex_state := lstate, ex_repeat := m\<rparr>))
                (lbrTop l (ex_state x) (ex_repeat x) (q_cur_offset q))
         else Some (None, x))"

partial_function (option) lbr_loop ::
  "lbr \<Rightarrow> MatchMode \<Rightarrow> 'c callback \<Rightarrow> int \<Rightarrow> u64a \<Rightarrow> lbr_exec \<Rightarrow> 'c \<Rightarrow> (nat \<times> lbr_exec \<times> 'c) option" where
  "lbr_loop l mode cb endl sp x ctx =
     (if q_cur (ex_queue x) < q_end (ex_queue x)
      then Option.bind (lbr_segment l mode cb endl sp x ctx) (\<lambda>(rc, x, ctx).
           case rc of
             Some rc \<Rightarrow> Some (rc, x, ctx)
           | None \<Rightarrow>
               Option.bind (lbr_event l endl x) (\<lambda>(rc, x).
               case rc of
                 Some rc \<Rightarrow> Some (rc, x, ctx)
               | None \<Rightarrow>
                   let q = ex_queue x
                   in lbr_loop l mode cb endl (q_cur_offset q) (x\<lparr>ex_queue := q\<lparr>q_cur := q_cur q + 1\<rparr>\<rparr>) ctx))
      else Some (if lbrIsAlive l (ex_state x) (ex_repeat x) sp then 1 else 0, x, ctx))"

definition lbr_Q_i ::
  "lbr \<Rightarrow> MatchMode \<Rightarrow> 'c callback \<Rightarrow> int \<Rightarrow> lbr_exec \<Rightarrow> 'c \<Rightarrow> (nat \<times> lbr_exec \<times> 'c) option" where
  "lbr_Q_i l mode cb endl x ctx =
     (let q = ex_queue x;
          (go, ctx) = (if q_report_current q then cb (q_cur_offset q) (lbr_report l) ctx else (True, ctx));
          q = q\<lparr>q_report_current := False\<rparr>; x = x\<lparr>ex_queue := q\<rparr>
      in if \<not> go then Some (MO_HALT_MATCHING, x, ctx)
         else if q_cur q = q_end q then Some (1, x, ctx)
         else lbr_loop l mode cb endl (q_cur_offset q) (x\<lparr>ex_queue := q\<lparr>q_cur := q_cur q + 1\<rparr>\<rparr>) ctx)"

definition lbr_Q :: "lbr \<Rightarrow> 'c callback \<Rightarrow> int \<Rightarrow> lbr_exec \<Rightarrow> 'c \<Rightarrow> (nat \<times> lbr_exec \<times> 'c) option" where
  "lbr_Q l cb endl x ctx = lbr_Q_i l CALLBACK_OUTPUT cb endl x ctx"

definition lbr_Q2 :: "lbr \<Rightarrow> 'c callback \<Rightarrow> int \<Rightarrow> lbr_exec \<Rightarrow> 'c \<Rightarrow> (nat \<times> lbr_exec \<times> 'c) option" where
  "lbr_Q2 l cb endl x ctx = lbr_Q_i l STOP_AT_MATCH cb endl x ctx"

text \<open>The entries for the state.\<close>

definition lbr_queueInitState :: "lbr \<Rightarrow> lbr_state \<Rightarrow> lbr_state" where
  "lbr_queueInitState l lstate = clearRepeat (lbr_info l) (lstate\<lparr>lastEscape := 0\<rparr>)"

definition lbr_queueCompressState :: "lbr \<Rightarrow> lbr_exec \<Rightarrow> mem \<Rightarrow> int \<Rightarrow> mem" where
  "lbr_queueCompressState l x packed loc =
     lbrCompressState l (q_offset (ex_queue x) + word_of_int loc) (ex_state x) packed"

definition lbr_initCompressedState :: "lbr \<Rightarrow> u64a \<Rightarrow> lbr_state \<Rightarrow> mem \<Rightarrow> mem \<Rightarrow> (mem \<times> mem) option" where
  "lbr_initCompressedState l offset lstate packed m =
     map_option (\<lambda>(lstate, m). (lbrCompressState l offset lstate packed, m))
       (lbrTop l (clearRepeat (lbr_info l) lstate) m offset)"

definition lbr_inAccept :: "lbr \<Rightarrow> u32 \<Rightarrow> lbr_exec \<Rightarrow> bool option" where
  "lbr_inAccept l report x =
     (if repeatIsDead (lbr_info l) (ex_state x) then Some False
      else let offset = q_offset (ex_queue x) + word_of_int (q_last_loc (ex_queue x))
           in lbrInAccept l (ex_state x) (ex_repeat x) offset report)"

section \<open>A repeat that holds tops is not dead\<close>

definition lbr_ok :: "lbr \<Rightarrow> bool" where
  "lbr_ok l \<longleftrightarrow> repeat_ok (lbr_info l) \<and> repeat_type (lbr_info l) \<noteq> REPEAT_ALWAYS"

lemma below_dead: "unat w \<le> k \<Longrightarrow> in_stream k \<Longrightarrow> w \<noteq> REPEAT_DEAD"
  by (auto simp: REPEAT_DEAD_def in_stream_def unsigned_minus_1_eq_mask mask_eq_exp_minus_1)

lemma in_stream_add: "in_stream k \<Longrightarrow> n \<le> 2 ^ 16 \<Longrightarrow> k + n + 2 ^ 16 < 2 ^ 64"
  by (simp add: in_stream_def)

lemma holds_not_dead:
  assumes "lbr_ok l" "repeat_holds (lbr_info l) (lbr_ctrl st, m) C" "\<forall>t \<in> C. in_stream t"
  shows "\<not> repeatIsDead (lbr_info l) st"
proof (cases "repeat_type (lbr_info l)")
  case REPEAT_RING
  then have h: "ring_inv (lbr_info l) (ctrl_ring (lbr_ctrl st)) m" "C = ring_tops (lbr_info l) (ctrl_ring (lbr_ctrl st)) m"
    using assms(2) by (simp_all add: repeat_holds_def ring_holds_def)
  then have "in_stream (unat (ring_offset (ctrl_ring (lbr_ctrl st))) + ring_occ (lbr_info l) (ctrl_ring (lbr_ctrl st)) - 1)"
    using Max_ring_tops(2) [OF h(1)] assms(3) by blast
  moreover have "unat (ring_offset (ctrl_ring (lbr_ctrl st)))
      \<le> unat (ring_offset (ctrl_ring (lbr_ctrl st))) + ring_occ (lbr_info l) (ctrl_ring (lbr_ctrl st)) - 1"
    using ring_invD(4) [OF h(1)] by linarith
  ultimately show ?thesis using below_dead by (auto simp: repeatIsDead_def REPEAT_RING)
next
  case REPEAT_RANGE
  then have h: "range_inv (lbr_info l) (ctrl_range (lbr_ctrl st)) m" "C = set (range_list (ctrl_range (lbr_ctrl st)) m)"
    using assms(2) by (simp_all add: repeat_holds_def range_holds_def)
  then have "in_stream (unat (range_offset (ctrl_range (lbr_ctrl st))))"
    using range_invD(2,5) [OF h(1)] assms(3) hd_in_set by metis
  then show ?thesis using below_dead [OF order_refl] by (simp add: repeatIsDead_def REPEAT_RANGE)
next
  case REPEAT_BITMAP
  then have h: "C = bitmap_tops (bm_offset (ctrl_bitmap (lbr_ctrl st))) (bm_bitmap (ctrl_bitmap (lbr_ctrl st)))"
      "C = {} \<longrightarrow> in_stream (unat (bm_offset (ctrl_bitmap (lbr_ctrl st))))"
    using assms(2) by (simp_all add: repeat_holds_def bitmap_holds_def)
  then have "\<exists>k. unat (bm_offset (ctrl_bitmap (lbr_ctrl st))) \<le> k \<and> in_stream k"
    using assms(3) by (cases "C = {}") (auto simp: bitmap_tops_def)
  then show ?thesis using below_dead by (auto simp: repeatIsDead_def REPEAT_BITMAP)
next
  case REPEAT_TRAILER
  then have h: "trailer_holds (lbr_info l) (ctrl_trailer (lbr_ctrl st)) C" "unat (repeatMin (lbr_info l)) \<le> 64"
    using assms(1,2) by (simp_all add: repeat_holds_def lbr_ok_def repeat_ok_def trailer_ok_def Let_def word_le_nat_alt)
  then have "in_stream (Max C)" "unat (tr_offset (ctrl_trailer (lbr_ctrl st))) = Max C + unat (repeatMin (lbr_info l))"
    using assms(3) Max_in [of C] by (auto simp: trailer_holds_def)
  then have "unat (tr_offset (ctrl_trailer (lbr_ctrl st))) < 2 ^ 64 - 1" using h(2) by (simp add: in_stream_def)
  then show ?thesis
    by (auto simp: repeatIsDead_def REPEAT_TRAILER REPEAT_DEAD_def unsigned_minus_1_eq_mask mask_eq_exp_minus_1)
qed (use assms below_dead [OF order_refl] in \<open>auto simp: lbr_ok_def repeat_ok_def repeat_holds_def offset_holds_def repeatIsDead_def Let_def\<close>)

lemma last_top_in:
  assumes "lbr_ok l" "repeat_holds (lbr_info l) s C" "C \<noteq> {}" "finite C" "\<forall>t \<in> C. in_stream t"
  shows "unat (repeatLastTop (lbr_info l) s) \<in> C" "\<forall>t \<in> C. t \<le> unat (repeatLastTop (lbr_info l) s)"
proof -
  have ok: "repeat_ok (lbr_info l)" "repeat_type (lbr_info l) \<noteq> REPEAT_ALWAYS" using assms(1) by (auto simp: lbr_ok_def)
  have "unat (repeatLastTop (lbr_info l) s) \<in> C \<and> (\<forall>t \<in> C. t \<le> unat (repeatLastTop (lbr_info l) s))"
  proof (cases "repeat_type (lbr_info l) = REPEAT_FIRST")
    case True
    then show ?thesis using assms(2) by (cases s) (simp add: repeat_holds_def offset_holds_def repeatLastTop_def)
  next
    case False
    then have "repeatMax (lbr_info l) \<noteq> REPEAT_INF"
      using ok by (cases "repeat_type (lbr_info l)")
        (auto simp: repeat_ok_def Let_def dest: ring_okD(2) range_ok_bounds(2) simp: trailer_ok_def REPEAT_INF_def word_less_nat_alt)
    then have "unat (repeatLastTop (lbr_info l) s) = Max C" using rep.last_top_exact [OF ok(1) _ assms(2,3,5)] by blast
    then show ?thesis using assms(3,4) by simp
  qed
  then show "unat (repeatLastTop (lbr_info l) s) \<in> C" "\<forall>t \<in> C. t \<le> unat (repeatLastTop (lbr_info l) s)" by blast+
qed

text \<open>Only a bitmap can hold no top at all, after a boundary at which all were stale.\<close>

lemma bitmap_none: "{} = bitmap_tops base b \<longleftrightarrow> b = 0"
  by (metis bitmap_tops_empty)

lemma ring_tops_ne: "ring_inv info xs m \<Longrightarrow> {} \<noteq> ring_tops info xs m"
  using Max_ring_tops(2) by blast

lemma holds_none:
  assumes "lbr_ok l" "repeat_holds (lbr_info l) s {}"
  shows "repeatLastTop (lbr_info l) s = 0" "repeatMax (lbr_info l) \<noteq> REPEAT_INF"
proof -
  have "repeat_type (lbr_info l) = REPEAT_BITMAP"
    using assms ring_tops_ne range_invD(5)
    by (cases "repeat_type (lbr_info l)")
      (auto simp: lbr_ok_def repeat_ok_def repeat_holds_def ring_holds_def range_holds_def offset_holds_def trailer_holds_def Let_def)
  then show "repeatLastTop (lbr_info l) s = 0" "repeatMax (lbr_info l) \<noteq> REPEAT_INF"
    using assms by (auto simp: lbr_ok_def repeat_ok_def repeat_holds_def bitmap_holds_def repeatLastTop_def
        repeatLastTopBitmap_def bitmap_none Let_def REPEAT_INF_def word_less_nat_alt split: prod.splits)
qed

section \<open>What the engine knows\<close>

definition lbr_knows :: "lbr \<Rightarrow> lbr_state \<Rightarrow> mem \<Rightarrow> nat \<Rightarrow> nat set \<Rightarrow> bool" where
  "lbr_knows l st m now T \<longleftrightarrow>
     (if T = {} then repeatIsDead (lbr_info l) st else rep.knows (lbr_info l) (lbr_ctrl st, m) now T)"

lemma lbr_knows_dead:
  assumes "lbr_ok l" "lbr_knows l st m now T" "in_stream now"
  shows "repeatIsDead (lbr_info l) st \<longleftrightarrow> T = {}"
proof (cases "T = {}")
  case False
  then obtain C where "repeat_holds (lbr_info l) (lbr_ctrl st, m) C" "\<forall>t \<in> C. t \<le> now"
    using assms(2) by (auto simp: lbr_knows_def rep.knows_def)
  then have "\<not> repeatIsDead (lbr_info l) st"
    using holds_not_dead [OF assms(1)] in_stream_le [OF assms(3)] by blast
  then show ?thesis using False by simp
qed (use assms(2) in \<open>simp add: lbr_knows_def\<close>)

lemma lbr_knows_later: "lbr_knows l st m now T \<Longrightarrow> now \<le> later \<Longrightarrow> lbr_knows l st m later T"
  using rep.knows_later by (auto simp: lbr_knows_def split: if_splits)

lemma clearRepeat_dead:
  "repeat_type info \<noteq> REPEAT_ALWAYS \<Longrightarrow> repeatIsDead info (clearRepeat info st)"
  "lastEscape (clearRepeat info st) = lastEscape st"
  by (cases "repeat_type info"; simp add: clearRepeat_def repeatIsDead_def Let_def)+

lemma lbr_bounds: "lbr_ok l \<Longrightarrow> bounds_ok (lbr_info l)"
  by (cases "repeat_type (lbr_info l)")
    (auto simp: lbr_ok_def repeat_ok_def Let_def trailer_ok_def dest: ring_okD(1) range_ok_bounds(1))

lemma knows_again:
  assumes "rep.knows info s now T" "\<And>C. repeat_holds info s C \<Longrightarrow> \<forall>t \<in> C. t \<le> now \<Longrightarrow> rep_same info now C T \<Longrightarrow> now \<in> C"
  shows "rep.knows info s now (insert now T)"
proof -
  obtain C where C: "repeat_holds info s C" "\<forall>t \<in> C. t \<le> now" "rep_same info now C T" and T: "\<forall>t \<in> T. t \<le> now"
    using assms(1) by (auto simp: rep.knows_def)
  have "now \<in> C" by (rule assms(2) [OF C])
  then have "rep_match info {now} p \<Longrightarrow> rep_match info C p" for p by (auto simp: rep_match_def)
  then have "rep_same info now C (insert now T)" using C(3) by (auto simp: rep_same_def)
  then show ?thesis using C(1,2) T by (auto simp: rep.knows_def)
qed

lemma lbrTop_knows:
  assumes "lbr_ok l" "in_stream (unat p)" "lbr_knows l st m now T" "now \<le> unat p"
  shows "\<exists>st' m'. lbrTop l st m p = Some (st', m') \<and> lastEscape st' = lastEscape st
    \<and> lbr_knows l st' m' (unat p) (insert (unat p) T)"
proof (cases "T = {}")
  case True
  then have "repeatIsDead (lbr_info l) st" using assms(3) by (simp add: lbr_knows_def)
  moreover obtain s' where "repeatStore (lbr_info l) (lbr_ctrl st, m) p False = Some s'"
      "rep.knows (lbr_info l) s' (unat p) {unat p}"
    using rep.knows_store_dead [of "lbr_info l" p "(lbr_ctrl st, m)"] assms(1,2) by (auto simp: lbr_ok_def)
  ultimately show ?thesis using True by (cases s') (simp add: lbrTop_def lbr_knows_def Let_def)
next
  case False
  let ?i = "lbr_info l" and ?s = "(lbr_ctrl st, m)"
  have alive: "\<not> repeatIsDead ?i st"
    using lbr_knows_dead [OF assms(1) assms(3) in_stream_le [OF assms(2,4)]] False by simp
  have know: "rep.knows ?i ?s (unat p) T"
    using lbr_knows_later [OF assms(3,4)] False by (simp add: lbr_knows_def)
  have str: "\<forall>t \<in> C. in_stream t" "finite C" if "\<forall>t \<in> C. t \<le> unat p" for C
    using that in_stream_le [OF assms(2)] finite_subset [of C "{..unat p}"] by auto
  show ?thesis
  proof (cases "repeatLastTop ?i ?s = p")
    case True
    have "unat p \<in> C" if C: "repeat_holds ?i ?s C" "\<forall>t \<in> C. t \<le> unat p" "rep_same ?i (unat p) C T" for C
    proof (cases "C = {}")
      case True
      then have "p = 0" "repeatMax ?i \<noteq> REPEAT_INF"
        using holds_none [OF assms(1)] C(1) \<open>repeatLastTop ?i ?s = p\<close> by auto
      obtain t where t: "t \<in> T" "t \<le> unat p" using know \<open>T \<noteq> {}\<close> by (auto simp: rep.knows_def)
      have "bounds_ok ?i" by (rule lbr_bounds [OF assms(1)])
      then have "rep_match ?i T (t + unat (repeatMax ?i))" using t(1) bounds_okD(1) by (auto simp: rep_match_def intro!: bexI [of _ t])
      moreover have "unat p \<le> t + unat (repeatMax ?i)" using \<open>p = 0\<close> by simp
      ultimately have "rep_match ?i C (t + unat (repeatMax ?i))" using C(3) by (simp add: rep_same_def)
      then show ?thesis using True by simp
    next
      case False
      then show ?thesis using last_top_in(1) [OF assms(1) C(1) False] str [OF C(2)] \<open>repeatLastTop ?i ?s = p\<close> by simp
    qed
    then have "rep.knows ?i ?s (unat p) (insert (unat p) T)" by (rule knows_again [OF know])
    then show ?thesis using alive True by (simp add: lbrTop_def Let_def lbr_knows_def)
  next
    case False
    obtain C where C: "repeat_holds ?i ?s C" "\<forall>t \<in> C. t \<le> unat p" "rep_same ?i (unat p) C T" and T: "\<forall>t \<in> T. t \<le> unat p"
      using know by (auto simp: rep.knows_def)
    have "\<forall>t \<in> C. t < unat p"
    proof (cases "C = {}")
      case ne: False
      note L = last_top_in [OF assms(1) C(1) ne str(2,1) [OF C(2)]]
      have "unat (repeatLastTop ?i ?s) \<noteq> unat p" using False by (simp add: word_unat_eq_iff)
      moreover have "unat (repeatLastTop ?i ?s) \<le> unat p" using L(1) C(2) by blast
      ultimately show ?thesis using L(2) by (meson le_less_trans le_neq_implies_less)
    qed simp
    then obtain s' C' where s': "repeatStore ?i ?s p True = Some s'" "repeat_holds ?i s' C'" "\<forall>t \<in> C'. t \<le> unat p"
        "rep_same ?i (unat p) C' (insert (unat p) C)"
      using rep.store_alive [OF _ assms(2) C(1)] assms(1) unfolding lbr_ok_def by blast
    have "rep_same ?i (unat p) C' (insert (unat p) T)" using s'(4) rep_same_insert [OF C(3)] rep_same_trans by blast
    then have "rep.knows ?i s' (unat p) (insert (unat p) T)" using s' T by (auto simp: rep.knows_def)
    then show ?thesis using alive False s'(1) by (cases s') (simp add: lbrTop_def Let_def lbr_knows_def)
  qed
qed

section \<open>Reporting the matches in order\<close>

text \<open>The matches handed to the callback one after the other, until it halts.\<close>

fun feed :: "'c callback \<Rightarrow> u32 \<Rightarrow> nat list \<Rightarrow> 'c \<Rightarrow> bool \<times> 'c" where
  "feed cb r [] ctx = (True, ctx)"
| "feed cb r (p # ps) ctx = (case cb (of_nat p) r ctx of (go, ctx) \<Rightarrow> if go then feed cb r ps ctx else (False, ctx))"

lemma feed_append:
  "feed cb r (ps @ qs) ctx = (case feed cb r ps ctx of (go, ctx) \<Rightarrow> if go then feed cb r qs ctx else (False, ctx))"
  by (induction ps arbitrary: ctx) (auto split: prod.splits)

definition in_range :: "(nat \<Rightarrow> bool) \<Rightarrow> nat \<Rightarrow> nat \<Rightarrow> nat list" where
  "in_range P a b = filter P [Suc a..<Suc b]"

lemma in_range_split: "a \<le> c \<Longrightarrow> c \<le> b \<Longrightarrow> in_range P a b = in_range P a c @ in_range P c b"
  unfolding in_range_def filter_append [symmetric] by (metis Suc_le_mono le_Suc_ex upt_add_eq_append add_Suc)

lemma in_range_cong: "(\<And>p. a < p \<Longrightarrow> p \<le> b \<Longrightarrow> P p = Q p) \<Longrightarrow> in_range P a b = in_range Q a b"
  by (auto simp: in_range_def intro: filter_cong)

lemma in_range_none: "(\<And>p. a < p \<Longrightarrow> p \<le> b \<Longrightarrow> \<not> P p) \<Longrightarrow> in_range P a b = []"
  by (auto simp: in_range_def filter_empty_conv)

lemma in_range_next:
  assumes "rep_next info T a = q" "q \<noteq> 0"
  shows "a < q" "in_range (rep_match info T) a b = (if q \<le> b then q # in_range (rep_match info T) q b else [])"
proof -
  have ex: "\<exists>q > a. rep_match info T q" using assms by (auto simp: rep_next_def split: if_splits)
  then have q: "q = (LEAST q. a < q \<and> rep_match info T q)" using assms by (simp add: rep_next_def)
  then have "a < q \<and> rep_match info T q" using LeastI_ex [OF ex [unfolded Bex_def]] by auto
  moreover have least: "\<not> rep_match info T r" if "a < r" "r < q" for r using not_less_Least that q by blast
  ultimately show aq: "a < q"
    and "in_range (rep_match info T) a b = (if q \<le> b then q # in_range (rep_match info T) q b else [])"
  proof -
    assume q: "a < q \<and> rep_match info T q"
    show "a < q" using q ..
    show "in_range (rep_match info T) a b = (if q \<le> b then q # in_range (rep_match info T) q b else [])"
    proof (cases "q \<le> b")
      case True
      have "in_range (rep_match info T) a b = in_range (rep_match info T) a (q - 1) @ in_range (rep_match info T) (q - 1) b"
        by (rule in_range_split) (use q True in auto)
      also have "in_range (rep_match info T) a (q - 1) = []" by (rule in_range_none) (use least q in auto)
      also have "in_range (rep_match info T) (q - 1) b = q # in_range (rep_match info T) q b"
        using q True by (simp add: in_range_def upt_conv_Cons [of q "Suc b"] del: upt_Suc)
      finally show ?thesis using True by simp
    next
      case False
      then have "in_range (rep_match info T) a b = []" using least by (intro in_range_none) simp
      then show ?thesis using False by simp
    qed
  qed
qed

lemma rep_next_zero:
  assumes "rep_next info T a = 0" "a < p"
  shows "\<not> rep_match info T p"
proof
  assume "rep_match info T p"
  then have ex: "\<exists>q. a < q \<and> rep_match info T q" using assms(2) by blast
  then have "rep_next info T a = (LEAST q. a < q \<and> rep_match info T q)" by (auto simp: rep_next_def)
  then show False using LeastI_ex [OF ex] assms(1) by simp
qed

lemma match_loop_feed:
  assumes "lbr_ok l" "rep.knows (lbr_info l) s now T" "now \<le> unat i" "unat i \<le> unat endp" "in_stream (unat endp)"
  shows "lbr_match_loop l endp s cb i ctx = Some (feed cb (lbr_report l) (in_range (rep_match (lbr_info l) T) (unat i) (unat endp)) ctx)"
  using assms(3,4)
proof (induction "unat endp - unat i" arbitrary: i ctx rule: less_induct)
  case less
  have ok: "repeat_ok (lbr_info l)" using assms(1) by (simp add: lbr_ok_def)
  obtain q where q: "repeatNextMatch (lbr_info l) s i = Some q" "unat q = rep_next (lbr_info l) T (unat i)"
    using rep.knows_next_match [OF ok in_stream_le [OF assms(5) less.prems(2)] assms(2) less.prems(1)] by blast
  show ?case
  proof (cases "q = 0")
    case True
    have "in_range (rep_match (lbr_info l) T) (unat i) (unat endp) = []"
      by (rule in_range_none) (use q(2) True rep_next_zero in simp)
    then show ?thesis using q(1) True by (subst lbr_match_loop.simps) simp
  next
    case False
    then have "unat q \<noteq> 0" by (simp add: unat_eq_0)
    note N = in_range_next [OF q(2) [symmetric] this]
    show ?thesis
    proof (cases "endp < q")
      case True
      then show ?thesis using q(1) False N(2) by (subst lbr_match_loop.simps) (simp add: word_less_nat_alt)
    next
      case le: False
      then have le: "unat q \<le> unat endp" by (simp add: word_le_nat_alt not_less)
      have "lbr_match_loop l endp s cb q ctx' =
          Some (feed cb (lbr_report l) (in_range (rep_match (lbr_info l) T) (unat q) (unat endp)) ctx')" for ctx'
        by (rule less.hyps) (use N(1) le less.prems in auto)
      then show ?thesis
        using q(1) False N(2) le by (subst lbr_match_loop.simps) (auto simp: word_less_nat_alt split: prod.splits)
    qed
  qed
qed

end
