(* ===== verification/LbrQueue.thy ===== *)
theory LbrQueue
  imports Lbr
begin

text \<open>
  What a run of the LBR engine over its queue reports: the scans for escapes, one turn of the loop, the search for the
  next top, and the whole queue.  The specification is \<open>lbr_hit\<close>: a top before the offset, the bounds of the repeat, and no
  escape in between.
\<close>

section \<open>Scanning the buffer\<close>

lemma fwd_scan:
  assumes "b \<le> e" "e \<le> length buf"
  shows "lbrFwdScan k buf b e = None \<Longrightarrow> b \<le> j \<Longrightarrow> j < e \<Longrightarrow> \<not> is_escape k (buf ! j)"
    "lbrFwdScan k buf b e = Some i \<Longrightarrow> b \<le> i \<and> i < e \<and> is_escape k (buf ! i)"
    "lbrFwdScan k buf b e = Some i \<Longrightarrow> b \<le> j \<Longrightarrow> j < i \<Longrightarrow> \<not> is_escape k (buf ! j)"
proof -
  define ys where "ys = take (e - b) (drop b buf)"
  define n where "n = length (takeWhile (\<lambda>x. \<not> is_escape k x) ys)"
  have ys: "length ys = e - b" "\<And>j. j < e - b \<Longrightarrow> ys ! j = buf ! (b + j)" using assms by (auto simp: ys_def)
  have "n \<le> length ys" unfolding n_def by (rule length_takeWhile_le)
  then have n: "n \<le> e - b" using ys(1) by simp
  have scan: "lbrFwdScan k buf b e = (if b + n = e then None else Some (b + n))"
    by (simp add: lbrFwdScan_def ys_def [symmetric] n_def [symmetric])
  have before: "\<not> is_escape k (buf ! (b + j))" if "j < n" for j
    using takeWhile_nth [of j "\<lambda>x. \<not> is_escape k x" ys] set_takeWhileD [OF nth_mem, of j "\<lambda>x. \<not> is_escape k x" ys] that n ys(2)
    by (simp add: n_def)
  show "\<not> is_escape k (buf ! j)" if "lbrFwdScan k buf b e = None" "b \<le> j" "j < e" for j
    using before [of "j - b"] that scan by (auto split: if_splits)
  show "b \<le> i \<and> i < e \<and> is_escape k (buf ! i)" if "lbrFwdScan k buf b e = Some i" for i
  proof -
    have i: "i = b + n" "n < e - b" using that scan n assms(1) by (auto split: if_splits)
    then have "is_escape k (ys ! n)" using nth_length_takeWhile [of "\<lambda>x. \<not> is_escape k x" ys] ys(1) by (simp add: n_def)
    then show ?thesis using i ys(2) by auto
  qed
  show "\<not> is_escape k (buf ! j)" if "lbrFwdScan k buf b e = Some i" "b \<le> j" "j < i" for i j
    using before [of "j - b"] that scan by (auto split: if_splits)
qed

lemma rev_scan:
  assumes "b \<le> e" "e \<le> length buf"
  shows "lbrRevScan k buf b e = None \<Longrightarrow> b \<le> j \<Longrightarrow> j < e \<Longrightarrow> \<not> is_escape k (buf ! j)"
    "lbrRevScan k buf b e = Some i \<Longrightarrow> b \<le> i \<and> i < e \<and> is_escape k (buf ! i)"
proof -
  define ys where "ys = take (e - b) (drop b buf)"
  define n where "n = length (takeWhile (\<lambda>x. \<not> is_escape k x) (rev ys))"
  have ys: "length ys = e - b" "\<And>j. j < e - b \<Longrightarrow> rev ys ! j = buf ! (e - 1 - j)"
    using assms by (auto simp: ys_def rev_nth)
  have "n \<le> length (rev ys)" unfolding n_def by (rule length_takeWhile_le)
  then have n: "n \<le> e - b" using ys(1) by simp
  have scan: "lbrRevScan k buf b e = (if b = e then None else if int e - 1 - int n = int b - 1 then None else Some (nat (int e - 1 - int n)))"
    by (simp add: lbrRevScan_def ys_def [symmetric] n_def [symmetric] Let_def)
  have before: "\<not> is_escape k (buf ! (e - 1 - j))" if "j < n" for j
    using takeWhile_nth [of j "\<lambda>x. \<not> is_escape k x" "rev ys"] set_takeWhileD [OF nth_mem, of j "\<lambda>x. \<not> is_escape k x" "rev ys"]
      that n ys(2) by (simp add: n_def)
  show "\<not> is_escape k (buf ! j)" if "lbrRevScan k buf b e = None" "b \<le> j" "j < e" for j
  proof -
    have "n = e - b" using that scan n by (auto split: if_splits)
    then have "e - 1 - j < n" using that by linarith
    from before [OF this] show ?thesis using that by simp
  qed
  show "b \<le> i \<and> i < e \<and> is_escape k (buf ! i)" if "lbrRevScan k buf b e = Some i" for i
  proof -
    have i: "i = e - 1 - n" "n < e - b" using that scan n assms(1) by (auto split: if_splits)
    then have "is_escape k (rev ys ! n)"
      using nth_length_takeWhile [of "\<lambda>x. \<not> is_escape k x" "rev ys"] ys(1) by (simp add: n_def)
    then show ?thesis using i ys(2) by auto
  qed
qed

section \<open>The meaning of a queue\<close>

text \<open>The escapes of the buffer, the offset of an item, and the tops from an item on.\<close>

definition escape_at :: "lbr \<Rightarrow> mq \<Rightarrow> nat \<Rightarrow> bool" where
  "escape_at l q a \<longleftrightarrow> unat (q_offset q) \<le> a \<and> a < unat (q_offset q) + length (q_buffer q)
     \<and> is_escape (lbr_class l) (q_buffer q ! (a - unat (q_offset q)))"

definition item_loc :: "mq \<Rightarrow> nat \<Rightarrow> int" where
  "item_loc q i = mqe_location (q_items q ! i)"

definition item_at :: "mq \<Rightarrow> nat \<Rightarrow> nat" where
  "item_at q i = unat (q_offset q) + nat (item_loc q i)"

definition tops_from :: "mq \<Rightarrow> int \<Rightarrow> nat \<Rightarrow> nat set" where
  "tops_from q endl c = {item_at q i | i. c \<le> i \<and> i < q_end q \<and> is_top (mqe_type (q_items q ! i)) \<and> item_loc q i \<le> endl}"

text \<open>A match at \<open>p\<close>: a top before it, in the bounds of the repeat, and no escape in between.\<close>

definition lbr_hit :: "lbr \<Rightarrow> mq \<Rightarrow> nat set \<Rightarrow> nat \<Rightarrow> bool" where
  "lbr_hit l q T p \<longleftrightarrow> (\<exists>t \<in> T. t < p \<and> rep_match (lbr_info l) {t} p \<and> (\<forall>a. t \<le> a \<and> a < p \<longrightarrow> \<not> escape_at l q a))"

definition q_ok :: "mq \<Rightarrow> int \<Rightarrow> bool" where
  "q_ok q endl \<longleftrightarrow> in_stream (unat (q_offset q) + length (q_buffer q)) \<and> 0 \<le> endl \<and> in_stream (unat (q_offset q) + nat endl)
     \<and> (\<forall>i < q_end q. 0 \<le> item_loc q i \<and> item_loc q i \<le> int (length (q_buffer q)))
     \<and> (\<forall>i j. q_cur q \<le> i \<and> i \<le> j \<and> j < q_end q \<longrightarrow> item_loc q i \<le> item_loc q j)"

lemma q_okD:
  assumes "q_ok q endl"
  shows "i < q_end q \<Longrightarrow> 0 \<le> item_loc q i" "i < q_end q \<Longrightarrow> item_loc q i \<le> int (length (q_buffer q))"
    "q_cur q \<le> i \<Longrightarrow> i \<le> j \<Longrightarrow> j < q_end q \<Longrightarrow> item_loc q i \<le> item_loc q j"
    "i < q_end q \<Longrightarrow> item_at q i \<le> unat (q_offset q) + length (q_buffer q)"
    "q_cur q \<le> i \<Longrightarrow> i \<le> j \<Longrightarrow> j < q_end q \<Longrightarrow> item_at q i \<le> item_at q j"
    "i < q_end q \<Longrightarrow> in_stream (item_at q i)"
    "in_stream (unat (q_offset q) + length (q_buffer q))" "in_stream (unat (q_offset q) + nat endl)" "0 \<le> endl"
  using assms in_stream_le [of "unat (q_offset q) + length (q_buffer q)" "item_at q i"]
  by (auto simp: q_ok_def item_at_def nat_le_iff nat_mono)

lemma q_cur_simps [simp]:
  "item_loc (q\<lparr>q_cur := c\<rparr>) i = item_loc q i" "item_at (q\<lparr>q_cur := c\<rparr>) i = item_at q i" "q_end (q\<lparr>q_cur := c\<rparr>) = q_end q"
  "escape_at l (q\<lparr>q_cur := c\<rparr>) = escape_at l q" "lbr_hit l (q\<lparr>q_cur := c\<rparr>) = lbr_hit l q"
  "tops_from (q\<lparr>q_cur := c\<rparr>) = tops_from q"
  by (auto simp: item_loc_def item_at_def q_end_def escape_at_def lbr_hit_def tops_from_def fun_eq_iff)

lemma word_of_loc:
  assumes "0 \<le> loc" "in_stream (unat w + nat loc)"
  shows "unat (w + word_of_int loc :: u64a) = unat w + nat loc"
proof -
  have "unat (word_of_int loc :: u64a) = nat loc"
    using assms by (simp add: in_stream_def unsigned_of_int take_bit_int_eq_self nat_less_iff)
  then show ?thesis using unat_add_small [of w "word_of_int loc"] assms(2) by (simp add: in_stream_def)
qed

lemma cur_offset:
  assumes "q_ok q endl" "i < q_end q"
  shows "unat (q_offset q + word_of_int (mqe_location (q_items q ! i))) = item_at q i"
  using word_of_loc [of "item_loc q i" "q_offset q"] q_okD(1,6) [OF assms(1) assms(2)]
  by (simp add: item_loc_def item_at_def)

lemma tops_from_step:
  assumes "c < q_end q"
  shows "tops_from q endl c
    = (if is_top (mqe_type (q_items q ! c)) \<and> item_loc q c \<le> endl then {item_at q c} else {}) \<union> tops_from q endl (Suc c)"
proof -
  have "c \<le> i \<longleftrightarrow> i = c \<or> Suc c \<le> i" for i by auto
  then show ?thesis using assms by (auto simp: tops_from_def)
qed

lemma lbr_hit_Un: "lbr_hit l q (A \<union> B) p \<longleftrightarrow> lbr_hit l q A p \<or> lbr_hit l q B p"
  by (auto simp: lbr_hit_def)

lemma lbr_hit_empty [simp]: "\<not> lbr_hit l q {} p"
  by (simp add: lbr_hit_def)

lemma lbr_hit_before: "\<forall>t \<in> T. p \<le> t \<Longrightarrow> \<not> lbr_hit l q T p"
  by (force simp: lbr_hit_def)

lemma lbr_hit_escaped: "escape_at l q e \<Longrightarrow> \<forall>t \<in> T. t \<le> e \<Longrightarrow> e < p \<Longrightarrow> \<not> lbr_hit l q T p"
  by (force simp: lbr_hit_def)

section \<open>One turn\<close>

text \<open>
  The last escape noted excuses the tops before it: it comes before the first match of any top from \<open>sp\<close> on.
\<close>

definition escape_ok :: "lbr \<Rightarrow> mq \<Rightarrow> lbr_state \<Rightarrow> nat \<Rightarrow> bool" where
  "escape_ok l q st sp \<longleftrightarrow> lastEscape st = 0
     \<or> (\<exists>e. escape_at l q e \<and> unat (lastEscape st) \<le> e \<and> e < sp + unat (repeatMin (lbr_info l)))"

definition lbr_inv :: "lbr \<Rightarrow> mq \<Rightarrow> lbr_state \<Rightarrow> mem \<Rightarrow> nat \<Rightarrow> nat set \<Rightarrow> bool" where
  "lbr_inv l q st m sp T \<longleftrightarrow> lbr_knows l st m sp T \<and> escape_ok l q st sp \<and> unat (q_offset q) \<le> sp
     \<and> (\<forall>t \<in> T. t \<le> sp \<and> (\<forall>a. t \<le> a \<and> a < sp \<longrightarrow> \<not> escape_at l q a))"

lemma lbr_inv_later:
  assumes "lbr_inv l q st m sp T" "sp \<le> sp'" "\<And>a. sp \<le> a \<Longrightarrow> a < sp' \<Longrightarrow> \<not> escape_at l q a"
  shows "lbr_inv l q st m sp' T"
proof -
  have "\<not> escape_at l q a" if "t \<in> T" "t \<le> a" "a < sp'" for t a
    using that assms(1,3) by (cases "a < sp") (auto simp: lbr_inv_def)
  then show ?thesis
    using assms(1,2) lbr_knows_later [of l st m sp T sp'] by (fastforce simp: lbr_inv_def escape_ok_def)
qed

lemma lbr_inv_none: "lbr_inv l q st m sp {} \<Longrightarrow> sp \<le> sp' \<Longrightarrow> lbr_inv l q st m sp' {}"
  by (fastforce simp: lbr_inv_def escape_ok_def lbr_knows_def)

lemma lbr_inv_clear:
  assumes "lbr_ok l" "lbr_inv l q st m sp T" "sp \<le> sp'"
  shows "lbr_inv l q (clearRepeat (lbr_info l) st) m sp' {}"
  using assms clearRepeat_dead [of "lbr_info l" st]
  by (fastforce simp: lbr_inv_def lbr_knows_def escape_ok_def lbr_ok_def)

text \<open>Without an escape the matches of the repeat are those of the engine.\<close>

lemma hits_are_matches:
  assumes "\<forall>t \<in> T. t \<le> sp \<and> (\<forall>a. t \<le> a \<and> a < sp \<longrightarrow> \<not> escape_at l q a)"
    "\<And>a. sp \<le> a \<Longrightarrow> a < ep \<Longrightarrow> \<not> escape_at l q a" "sp < p" "p \<le> ep"
  shows "lbr_hit l q T p \<longleftrightarrow> rep_match (lbr_info l) T p"
proof -
  have "\<not> escape_at l q a" if "t \<in> T" "t \<le> a" "a < p" for t a
    using that assms by (cases "a < sp") auto
  moreover have "t < p" if "t \<in> T" for t using that assms(1,3) by (meson le_less_trans)
  ultimately have "lbr_hit l q T p \<longleftrightarrow> (\<exists>t \<in> T. rep_match (lbr_info l) {t} p)" unfolding lbr_hit_def by blast
  then show ?thesis by (simp add: rep_match_def)
qed

lemma segment_scan:
  fixes l :: lbr
  assumes "q_ok q endl" "unat (q_offset q) \<le> sp" "sp < ep" "ep \<le> unat (q_offset q) + length (q_buffer q)"
  defines "scan \<equiv> lbrFwdScan (lbr_class l) (q_buffer q) (sp - unat (q_offset q)) (ep - unat (q_offset q))"
  shows "scan = None \<Longrightarrow> sp \<le> a \<Longrightarrow> a < ep \<Longrightarrow> \<not> escape_at l q a"
    "scan = Some i \<Longrightarrow> sp \<le> unat (q_offset q) + i \<and> unat (q_offset q) + i < ep \<and> escape_at l q (unat (q_offset q) + i)"
    "scan = Some i \<Longrightarrow> sp \<le> a \<Longrightarrow> a < unat (q_offset q) + i \<Longrightarrow> \<not> escape_at l q a"
proof -
  have b: "sp - unat (q_offset q) \<le> ep - unat (q_offset q)" "ep - unat (q_offset q) \<le> length (q_buffer q)" using assms by auto
  note F = fwd_scan [OF b, of "lbr_class l"]
  show "\<not> escape_at l q a" if "scan = None" "sp \<le> a" "a < ep" for a
    using F(1) [of "a - unat (q_offset q)"] that assms(2-4) by (auto simp: escape_at_def scan_def)
  show "sp \<le> unat (q_offset q) + i \<and> unat (q_offset q) + i < ep \<and> escape_at l q (unat (q_offset q) + i)" if "scan = Some i" for i
    using F(2) [of i] that assms(2-4) by (auto simp: escape_at_def scan_def)
  show "\<not> escape_at l q a" if "scan = Some i" "sp \<le> a" "a < unat (q_offset q) + i" for a i
    using F(3) [of i "a - unat (q_offset q)"] that assms(2-4) by (auto simp: escape_at_def scan_def)
qed

text \<open>The end of a segment: the item, or the end of the run when it comes first.\<close>

definition segment_end :: "mq \<Rightarrow> int \<Rightarrow> nat \<Rightarrow> nat" where
  "segment_end q endl c = min (item_at q c) (unat (q_offset q) + nat endl)"

lemma segment_end_word:
  assumes "q_ok q endl" "q_cur q < q_end q"
  shows "unat (min (q_cur_offset q) (q_offset q + word_of_int endl)) = segment_end q endl (q_cur q)"
  using cur_offset [OF assms] word_of_loc [of endl "q_offset q"] q_okD(8,9) [OF assms(1)]
  by (simp add: segment_end_def q_cur_offset_def min_def word_le_nat_alt)

lemma segment_callback:
  assumes "lbr_ok l" "q_ok q endl" "q_cur q < q_end q" "ex_queue x = q"
    "lbr_inv l q (ex_state x) (ex_repeat x) (unat sp) T" "unat sp \<le> segment_end q endl (q_cur q)"
  defines "ep \<equiv> segment_end q endl (q_cur q)"
  shows "\<exists>go ctx' st' T'. feed cb (lbr_report l) (in_range (lbr_hit l q T) (unat sp) ep) ctx = (go, ctx')
    \<and> (go \<longrightarrow> lbr_segment l CALLBACK_OUTPUT cb endl sp x ctx = Some (None, x\<lparr>ex_state := st'\<rparr>, ctx')
         \<and> lbr_inv l q st' (ex_repeat x) ep T' \<and> (\<forall>p > ep. lbr_hit l q T' p \<longleftrightarrow> lbr_hit l q T p))
    \<and> (\<not> go \<longrightarrow> lbr_segment l CALLBACK_OUTPUT cb endl sp x ctx = Some (Some MO_HALT_MATCHING, x, ctx'))"
proof (cases "T = {} \<or> \<not> unat sp < ep")
  case True
  have none: "in_range (lbr_hit l q T) (unat sp) ep = []" using True by (auto intro: in_range_none)
  have "in_stream ep" using q_okD(8) [OF assms(2)] in_stream_le by (auto simp: ep_def segment_end_def min_def)
  then have str: "in_stream (unat sp)" using assms(6) in_stream_le by (simp add: ep_def)
  have "lbr_inv l q (ex_state x) (ex_repeat x) ep T"
  proof (cases "T = {}")
    case False
    then have "unat sp = ep" using True assms(6) by (simp add: ep_def)
    then show ?thesis using assms(5) by simp
  qed (use assms(5,6) lbr_inv_none in \<open>auto simp: ep_def\<close>)
  moreover have "lbr_segment l CALLBACK_OUTPUT cb endl sp x ctx = Some (None, x, ctx)"
  proof (cases "T = {}")
    case False
    have "(sp < min (q_cur_offset q) (q_offset q + word_of_int endl)) = False"
      using True False segment_end_word [OF assms(2,3)] unfolding word_less_nat_alt ep_def by simp
    then show ?thesis unfolding lbr_segment_def Let_def assms(4) by (simp only: if_False if_cancel)
  qed (use lbr_knows_dead [OF assms(1) _ str] assms(4,5) in \<open>auto simp: lbr_segment_def lbr_inv_def\<close>)
  ultimately show ?thesis by (intro exI [of _ True] exI [of _ ctx] exI [of _ "ex_state x"] exI [of _ T]) (simp add: none)
next
  case False
  define w where "w = min (q_cur_offset q) (q_offset q + word_of_int endl)"
  have w: "unat w = ep" using segment_end_word [OF assms(2,3)] by (simp add: w_def ep_def)
  have lt: "unat sp < ep" and ne: "T \<noteq> {}" using False by auto
  have inv: "lbr_knows l (ex_state x) (ex_repeat x) (unat sp) T" "unat (q_offset q) \<le> unat sp"
    and clean: "\<forall>t \<in> T. t \<le> unat sp \<and> (\<forall>a. t \<le> a \<and> a < unat sp \<longrightarrow> \<not> escape_at l q a)"
    using assms(5) by (auto simp: lbr_inv_def)
  have epc: "ep \<le> item_at q (q_cur q)" by (simp add: ep_def segment_end_def)
  then have ep: "ep \<le> unat (q_offset q) + length (q_buffer q)" "in_stream ep"
    using q_okD(4,6) [OF assms(2) assms(3)] in_stream_le by (auto intro: order.trans)
  have alive: "\<not> repeatIsDead (lbr_info l) (ex_state x)"
    using lbr_knows_dead [OF assms(1) inv(1)] in_stream_le [OF ep(2)] lt ne by simp
  have know: "rep.knows (lbr_info l) (lbr_ctrl (ex_state x), ex_repeat x) (unat sp) T"
    using inv(1) ne by (simp add: lbr_knows_def)
  define scan where "scan = lbrFwdScan (lbr_class l) (q_buffer q) (unat sp - unat (q_offset q)) (ep - unat (q_offset q))"
  note S = segment_scan [OF assms(2) inv(2) lt ep(1), of l, folded scan_def]
  have idx: "unat (sp - q_offset q) = unat sp - unat (q_offset q)" "unat (w - q_offset q) = ep - unat (q_offset q)"
    using inv(2) lt w by (simp_all add: unat_sub word_le_nat_alt)
  define e where "e = (case scan of None \<Rightarrow> ep | Some i \<Rightarrow> unat (q_offset q) + i)"
  have e: "unat sp \<le> e" "e \<le> ep" "\<And>a. unat sp \<le> a \<Longrightarrow> a < e \<Longrightarrow> \<not> escape_at l q a" "scan \<noteq> None \<Longrightarrow> escape_at l q e"
    using S lt by (auto simp: e_def split: option.splits)
  define we where "we = (case scan of None \<Rightarrow> w | Some i \<Rightarrow> q_offset q + of_nat i)"
  have we: "unat we = e"
  proof (cases scan)
    case (Some i)
    have "unat (q_offset q) + i + 2 ^ 17 < 2 ^ 64" using in_stream_le [OF ep(2) e(2)] Some by (simp add: e_def in_stream_def)
    then show ?thesis using unat_add_small [of "q_offset q" "of_nat i"] Some
      by (simp add: we_def e_def unat_of_nat take_bit_nat_eq_self)
  qed (simp add: we_def e_def w)
  have run: "lbrMatchLoop l sp we (ex_state x) (ex_repeat x) cb ctx
      = Some (feed cb (lbr_report l) (in_range (rep_match (lbr_info l) T) (unat sp) e) ctx)"
  proof (cases "sp = we")
    case True
    then show ?thesis using we by (simp add: lbrMatchLoop_def in_range_def)
  next
    case False
    then show ?thesis
      using match_loop_feed [OF assms(1) know order_refl, of we] we e(1,2) in_stream_le [OF ep(2)] by (simp add: lbrMatchLoop_def)
  qed
  have same: "in_range (rep_match (lbr_info l) T) (unat sp) e = in_range (lbr_hit l q T) (unat sp) e"
    by (rule in_range_cong) (use hits_are_matches [OF clean e(3)] in simp)
  have later: "\<not> lbr_hit l q T p" if "scan \<noteq> None" "e < p" for p
    by (rule lbr_hit_escaped [OF e(4) [OF that(1)] _ that(2)]) (use clean e(1) in force)
  have all: "in_range (lbr_hit l q T) (unat sp) e = in_range (lbr_hit l q T) (unat sp) ep"
  proof (cases "scan = None")
    case False
    then have "in_range (lbr_hit l q T) e ep = []" using later by (auto intro: in_range_none)
    then show ?thesis using in_range_split [OF e(1,2), of "lbr_hit l q T"] by simp
  qed (simp add: e_def)
  obtain go ctx' where f: "feed cb (lbr_report l) (in_range (lbr_hit l q T) (unat sp) ep) ctx = (go, ctx')" by fastforce
  define st' where "st' = (if scan \<noteq> None then clearRepeat (lbr_info l) (ex_state x) else ex_state x)"
  define T' where "T' = (if scan \<noteq> None then {} else T)"
  have scan_eq: "lbrFwdScan (lbr_class l) (q_buffer q) (unat (sp - q_offset q)) (unat (w - q_offset q)) = scan"
    by (simp add: scan_def idx)
  have sw: "sp < w" using lt w by (simp add: word_less_nat_alt)
  have seg: "lbr_segment l CALLBACK_OUTPUT cb endl sp x ctx
      = (if go then Some (None, x\<lparr>ex_state := st'\<rparr>, ctx') else Some (Some MO_HALT_MATCHING, x, ctx'))"
    unfolding lbr_segment_def Let_def assms(4) w_def [symmetric] if_not_P [OF alive] if_P [OF sw] scan_eq
      we_def [symmetric] run same all f
    by (simp add: st'_def)
  have "lbr_inv l q st' (ex_repeat x) ep T'"
  proof (cases "scan = None")
    case True
    then show ?thesis using lbr_inv_later [OF assms(5), of ep] e lt by (simp add: st'_def T'_def e_def)
  next
    case False
    then show ?thesis using lbr_inv_clear [OF assms(1,5), of ep] lt by (simp add: st'_def T'_def)
  qed
  moreover have "\<forall>p > ep. lbr_hit l q T' p \<longleftrightarrow> lbr_hit l q T p" using later e(2) by (auto simp: T'_def)
  ultimately show ?thesis using seg f by (intro exI [of _ go] exI [of _ ctx'] exI [of _ st'] exI [of _ T']) simp
qed

text \<open>Looking for the next top that lives up to its first match.\<close>

lemma find_top_spec:
  "\<exists>c found. find_top q escape endl = (q\<lparr>q_cur := c\<rparr>, found) \<and> q_cur q \<le> c
    \<and> (q_cur q \<le> q_end q \<longrightarrow> c \<le> q_end q)
    \<and> (\<forall>i. q_cur q \<le> i \<and> i < c \<longrightarrow> i < q_end q \<and> item_loc q i \<le> endl
         \<and> (is_top (mqe_type (q_items q ! i)) \<longrightarrow> q_cur_offset (q\<lparr>q_cur := i\<rparr>) < escape))
    \<and> ((found \<longrightarrow> c < q_end q \<and> item_loc q c \<le> endl \<and> is_top (mqe_type (q_items q ! c)) \<and> escape \<le> q_cur_offset (q\<lparr>q_cur := c\<rparr>))
       \<and> (\<not> found \<longrightarrow> q_end q \<le> c \<or> endl < item_loc q c))"
proof (induction q escape endl rule: find_top.induct)
  case (1 q escape endl)
  let ?more = "q_cur q < q_end q \<and> q_cur_loc q \<le> endl"
  let ?hit = "is_top (q_cur_type q) \<and> escape \<le> q_cur_offset q"
  have cur: "q_cur_loc q = item_loc q (q_cur q)" "q_cur_type q = mqe_type (q_items q ! q_cur q)" "q\<lparr>q_cur := q_cur q\<rparr> = q"
    by (simp_all add: q_cur_loc_def item_loc_def q_cur_type_def)
  consider (none) "\<not> ?more" | (hit) ?more ?hit | (skip) ?more "\<not> ?hit" by blast
  then show ?case
  proof cases
    case none
    then have "find_top q escape endl = (q, False)" by (subst find_top.simps, subst if_not_P [OF none]) (rule refl)
    then show ?thesis using none cur by (intro exI [of _ "q_cur q"] exI [of _ False]) auto
  next
    case hit
    then have "find_top q escape endl = (q, True)" by (subst find_top.simps, subst if_P [OF hit(1)], subst if_P [OF hit(2)]) (rule refl)
    then show ?thesis using hit cur by (intro exI [of _ "q_cur q"] exI [of _ True]) auto
  next
    case skip
    then have run: "find_top q escape endl = find_top (q\<lparr>q_cur := q_cur q + 1\<rparr>) escape endl"
      by (subst find_top.simps, subst if_P [OF skip(1)], subst if_not_P [OF skip(2)]) (rule refl)
    obtain c found where IH: "find_top (q\<lparr>q_cur := q_cur q + 1\<rparr>) escape endl = (q\<lparr>q_cur := c\<rparr>, found)" "q_cur q + 1 \<le> c"
      "q_cur q + 1 \<le> q_end q \<longrightarrow> c \<le> q_end q"
      "\<forall>i. q_cur q + 1 \<le> i \<and> i < c \<longrightarrow> i < q_end q \<and> item_loc q i \<le> endl
         \<and> (is_top (mqe_type (q_items q ! i)) \<longrightarrow> q_cur_offset (q\<lparr>q_cur := i\<rparr>) < escape)"
      "(found \<longrightarrow> c < q_end q \<and> item_loc q c \<le> endl \<and> is_top (mqe_type (q_items q ! c)) \<and> escape \<le> q_cur_offset (q\<lparr>q_cur := c\<rparr>))
       \<and> (\<not> found \<longrightarrow> q_end q \<le> c \<or> endl < item_loc q c)"
      using "1.IH" [OF skip] by auto
    have "i < q_end q \<and> item_loc q i \<le> endl
         \<and> (is_top (mqe_type (q_items q ! i)) \<longrightarrow> q_cur_offset (q\<lparr>q_cur := i\<rparr>) < escape)" if "q_cur q \<le> i" "i < c" for i
    proof (cases "i = q_cur q")
      case True
      then show ?thesis using skip cur by (auto simp: not_le)
    qed (use that IH(4) in auto)
    then show ?thesis using IH(1-3,5) run skip by (intro exI [of _ c] exI [of _ found]) auto
  qed
qed

text \<open>The tops skipped have no match in this run, nor later.\<close>

definition no_hits :: "lbr \<Rightarrow> mq \<Rightarrow> int \<Rightarrow> nat \<Rightarrow> nat \<Rightarrow> bool" where
  "no_hits l q endl a b \<longleftrightarrow> (\<forall>i. a \<le> i \<and> i < b \<longrightarrow> item_loc q i \<le> endl
     \<and> (is_top (mqe_type (q_items q ! i)) \<longrightarrow> (\<forall>p. \<not> lbr_hit l q {item_at q i} p)))"

lemma escaped_top:
  assumes "escape_at l q e" "t \<le> e" "e < t + unat (repeatMin (lbr_info l))"
  shows "\<not> lbr_hit l q {t} p"
proof
  assume "lbr_hit l q {t} p"
  then have "t + unat (repeatMin (lbr_info l)) \<le> p" "\<forall>a. t \<le> a \<and> a < p \<longrightarrow> \<not> escape_at l q a"
    by (auto simp: lbr_hit_def)
  then show False using assms by (meson less_le_trans)
qed

lemma top_scan_found:
  assumes "find_top (ex_queue x) (lastEscape (ex_state x)) endl = (q, True)"
  shows "lbr_top_scan l endl x =
    (let sp = q_cur_offset q;
         ep = min (word_of_int (min endl (int (length (q_buffer q)))) + q_offset q) (sp + ucast (repeatMin (lbr_info l)))
     in case (if sp < ep \<and> q_offset q \<le> sp
              then lbrRevScan (lbr_class l) (q_buffer q) (unat (sp - q_offset q)) (unat (ep - q_offset q)) else None) of
       Some eloc \<Rightarrow> lbr_top_scan l endl (x\<lparr>ex_state := (ex_state x)\<lparr>lastEscape := of_nat eloc\<rparr>, ex_queue := q\<lparr>q_cur := q_cur q + 1\<rparr>\<rparr>)
     | None \<Rightarrow> map_option (\<lambda>(lstate, m). (True, x\<lparr>ex_queue := q, ex_state := lstate, ex_repeat := m\<rparr>))
         (lbrTop l (ex_state x) (ex_repeat x) sp))"
  by (subst lbr_top_scan.simps) (simp add: assms Let_def cong: option.case_cong)

lemma top_scan_spec:
  assumes "lbr_ok l" "q_ok q endl" "ex_queue x = q\<lparr>q_cur := c\<rparr>" "q_cur q \<le> c" "c \<le> q_end q" "c < q_end q \<longrightarrow> sp \<le> item_at q c"
    "lbr_inv l q (ex_state x) (ex_repeat x) sp {}"
  shows "\<exists>found c' st' m'. lbr_top_scan l endl x = Some (found, x\<lparr>ex_queue := q\<lparr>q_cur := c'\<rparr>, ex_state := st', ex_repeat := m'\<rparr>)
    \<and> c \<le> c' \<and> c' \<le> q_end q \<and> no_hits l q endl c c'
    \<and> (if found then c' < q_end q \<and> item_loc q c' \<le> endl \<and> is_top (mqe_type (q_items q ! c'))
         \<and> lbr_inv l q st' m' (item_at q c') {item_at q c'}
       else (\<forall>s. sp \<le> s \<and> (\<forall>i. c \<le> i \<and> i < c' \<longrightarrow> item_at q i \<le> s) \<longrightarrow> lbr_inv l q st' m' s {})
         \<and> (q_end q \<le> c' \<or> endl < item_loc q c'))"
  using assms(3-)
proof (induction "q_end q - c" arbitrary: c x sp rule: less_induct)
  case less
  let ?q = "q\<lparr>q_cur := c\<rparr>" and ?esc = "lastEscape (ex_state x)"
  from find_top_spec [of ?q ?esc endl] obtain c1 found where
    F0: "find_top ?q ?esc endl = (?q\<lparr>q_cur := c1\<rparr>, found)" "q_cur ?q \<le> c1" "q_cur ?q \<le> q_end ?q \<longrightarrow> c1 \<le> q_end ?q"
    "\<forall>i. q_cur ?q \<le> i \<and> i < c1 \<longrightarrow> i < q_end ?q \<and> item_loc ?q i \<le> endl
       \<and> (is_top (mqe_type (q_items ?q ! i)) \<longrightarrow> q_cur_offset (?q\<lparr>q_cur := i\<rparr>) < ?esc)"
    "found \<longrightarrow> c1 < q_end ?q \<and> item_loc ?q c1 \<le> endl \<and> is_top (mqe_type (q_items ?q ! c1)) \<and> ?esc \<le> q_cur_offset (?q\<lparr>q_cur := c1\<rparr>)"
     "\<not> found \<longrightarrow> q_end ?q \<le> c1 \<or> endl < item_loc ?q c1"
    by (elim exE conjE) (rule that)
  have F: "find_top ?q ?esc endl = (q\<lparr>q_cur := c1\<rparr>, found)" "c \<le> c1" "c1 \<le> q_end q"
    "\<And>i. c \<le> i \<Longrightarrow> i < c1 \<Longrightarrow> i < q_end q \<and> item_loc q i \<le> endl
       \<and> (is_top (mqe_type (q_items q ! i)) \<longrightarrow> q_cur_offset (q\<lparr>q_cur := i\<rparr>) < ?esc)"
    "(found \<longrightarrow> c1 < q_end q \<and> item_loc q c1 \<le> endl \<and> is_top (mqe_type (q_items q ! c1)) \<and> ?esc \<le> q_cur_offset (q\<lparr>q_cur := c1\<rparr>))
     \<and> (\<not> found \<longrightarrow> q_end q \<le> c1 \<or> endl < item_loc q c1)"
    using F0 less.prems(3) by simp_all
  have at: "unat (q_cur_offset (q\<lparr>q_cur := i\<rparr>)) = item_at q i" if "i < q_end q" for i
    using cur_offset [OF assms(2) that] by (simp add: q_cur_offset_def)
  have sorted: "item_at q c \<le> item_at q i" if "c \<le> i" "i < q_end q" for i
    using q_okD(5) [OF assms(2)] that less.prems(2) by simp
  have skipped: "no_hits l q endl c c1"
  proof (unfold no_hits_def, intro allI impI conjI)
    fix i assume "c \<le> i \<and> i < c1"
    then show "item_loc q i \<le> endl" using F(4) [of i] by simp
  next
    fix i p assume i: "c \<le> i \<and> i < c1" "is_top (mqe_type (q_items q ! i))"
    then have lt: "i < q_end q" "item_at q i < unat ?esc" using F(4) [of i] at [of i] by (auto simp: word_less_nat_alt)
    then have "?esc \<noteq> 0" by auto
    then obtain e where e: "escape_at l q e" "unat ?esc \<le> e" "e < sp + unat (repeatMin (lbr_info l))"
      using less.prems(5) by (auto simp: lbr_inv_def escape_ok_def)
    have "sp \<le> item_at q i" using sorted [of i] less.prems(4) i lt(1) by auto
    then show "\<not> lbr_hit l q {item_at q i} p" using escaped_top [OF e(1)] e(2,3) lt(2) by simp
  qed
  show ?case
  proof (cases found)
    case False
    then have "lbr_top_scan l endl x = Some (False, x\<lparr>ex_queue := q\<lparr>q_cur := c1\<rparr>\<rparr>)"
      using F(1) less.prems(1) by (subst lbr_top_scan.simps) simp
    then show ?thesis
      using F(2,3,5) False skipped lbr_inv_none [OF less.prems(5)]
      by (intro exI [of _ False] exI [of _ c1] exI [of _ "ex_state x"] exI [of _ "ex_repeat x"]) simp
  next
    case True
    then have c1: "c1 < q_end q" "item_loc q c1 \<le> endl" "is_top (mqe_type (q_items q ! c1))" using F(5) by auto
    define sw where "sw = q_cur_offset (q\<lparr>q_cur := c1\<rparr>)"
    have sw: "unat sw = item_at q c1" using at [OF c1(1)] by (simp add: sw_def)
    have spc: "sp \<le> item_at q c1" using sorted [OF F(2) c1(1)] less.prems(4) F(2) c1(1) by auto
    define ew where "ew = min (word_of_int (min endl (int (length (q_buffer q)))) + q_offset q) (sw + ucast (repeatMin (lbr_info l)))"
    define scan where "scan = (if sw < ew \<and> q_offset q \<le> sw
       then lbrRevScan (lbr_class l) (q_buffer q) (unat (sw - q_offset q)) (unat (ew - q_offset q)) else None)"
    have unfold: "lbr_top_scan l endl x = (case scan of
         Some eloc \<Rightarrow> lbr_top_scan l endl (x\<lparr>ex_state := (ex_state x)\<lparr>lastEscape := of_nat eloc\<rparr>, ex_queue := q\<lparr>q_cur := c1 + 1\<rparr>\<rparr>)
       | None \<Rightarrow> map_option (\<lambda>(lstate, m). (True, x\<lparr>ex_queue := q\<lparr>q_cur := c1\<rparr>, ex_state := lstate, ex_repeat := m\<rparr>))
           (lbrTop l (ex_state x) (ex_repeat x) sw))"
      using top_scan_found [of x endl "q\<lparr>q_cur := c1\<rparr>" l] F(1) less.prems(1) True
      unfolding Let_def scan_def ew_def sw_def by (simp cong: option.case_cong)
    show ?thesis
    proof (cases scan)
      case None
      obtain st' m' where t: "lbrTop l (ex_state x) (ex_repeat x) sw = Some (st', m')" "lastEscape st' = ?esc"
          "lbr_knows l st' m' (unat sw) {unat sw}"
        using lbrTop_knows [OF assms(1), of sw "ex_state x" "ex_repeat x" sp "{}"] q_okD(6) [OF assms(2) c1(1)] less.prems(5) spc sw
        by (auto simp: lbr_inv_def)
      have "lbr_inv l q st' m' (item_at q c1) {item_at q c1}"
        using t less.prems(5) spc sw by (fastforce simp: lbr_inv_def escape_ok_def item_at_def)
      then show ?thesis
        using unfold None t(1) F(2,3) c1 skipped
        by (intro exI [of _ True] exI [of _ c1] exI [of _ st'] exI [of _ m']) simp
    next
      case (Some eloc)
      then have sc: "sw < ew" "q_offset q \<le> sw"
        "lbrRevScan (lbr_class l) (q_buffer q) (unat (sw - q_offset q)) (unat (ew - q_offset q)) = Some eloc"
        by (auto simp: scan_def split: if_splits)
      have "unat (sw + ucast (repeatMin (lbr_info l))) = item_at q c1 + unat (repeatMin (lbr_info l))"
        using unat_plus_u32 [of sw "repeatMin (lbr_info l)"] bounds_okD(1,2) [OF lbr_bounds [OF assms(1)]]
          q_okD(6) [OF assms(2) c1(1)] sw by simp
      moreover have "unat (q_offset q + word_of_int (min endl (int (length (q_buffer q))))) \<le> unat (q_offset q) + length (q_buffer q)"
      proof -
        have "nat (min endl (int (length (q_buffer q)))) \<le> length (q_buffer q)" by simp
        then show ?thesis
          using word_of_loc [of "min endl (int (length (q_buffer q)))" "q_offset q"] q_okD(7,9) [OF assms(2)] in_stream_le
          by simp
      qed
      ultimately have ew: "unat ew \<le> item_at q c1 + unat (repeatMin (lbr_info l))" "unat ew \<le> unat (q_offset q) + length (q_buffer q)"
        unfolding ew_def min_def by (auto simp: word_le_nat_alt add.commute)
      have idx: "unat (sw - q_offset q) = item_at q c1 - unat (q_offset q)" "unat (ew - q_offset q) = unat ew - unat (q_offset q)"
        using sc(1,2) sw by (simp_all add: unat_sub word_le_nat_alt word_less_nat_alt)
      have off: "unat (q_offset q) \<le> item_at q c1" by (simp add: item_at_def)
      have "unat sw < unat ew" using sc(1) by (simp add: word_less_nat_alt)
      then have "item_at q c1 - unat (q_offset q) \<le> eloc \<and> eloc < unat ew - unat (q_offset q) \<and> is_escape (lbr_class l) (q_buffer q ! eloc)"
        using rev_scan(2) [of "item_at q c1 - unat (q_offset q)" "unat ew - unat (q_offset q)" "q_buffer q" "lbr_class l" eloc]
          sc(3) sw ew(2) by (simp add: idx)
      then have e: "escape_at l q (unat (q_offset q) + eloc)" "item_at q c1 \<le> unat (q_offset q) + eloc"
        "unat (q_offset q) + eloc < item_at q c1 + unat (repeatMin (lbr_info l))" "eloc < length (q_buffer q)"
        using ew off by (auto simp: escape_at_def)
      define st1 where "st1 = (ex_state x)\<lparr>lastEscape := of_nat eloc\<rparr>"
      define x1 where "x1 = x\<lparr>ex_state := st1, ex_queue := q\<lparr>q_cur := c1 + 1\<rparr>\<rparr>"
      have "unat (of_nat eloc :: u64a) = eloc"
        using e(4) q_okD(7) [OF assms(2)] by (simp add: unat_of_nat take_bit_nat_eq_self in_stream_def)
      then have "lbr_inv l q st1 (ex_repeat x) (item_at q c1) {}"
        using less.prems(5) e(1,3) off by (auto simp: lbr_inv_def lbr_knows_def repeatIsDead_def escape_ok_def st1_def)
      then have inv1: "lbr_inv l q (ex_state x1) (ex_repeat x1) (item_at q c1) {}" by (simp add: x1_def)
      have "\<exists>found c' st' m'. lbr_top_scan l endl x1 = Some (found, x1\<lparr>ex_queue := q\<lparr>q_cur := c'\<rparr>, ex_state := st', ex_repeat := m'\<rparr>)
        \<and> c1 + 1 \<le> c' \<and> c' \<le> q_end q \<and> no_hits l q endl (c1 + 1) c'
        \<and> (if found then c' < q_end q \<and> item_loc q c' \<le> endl \<and> is_top (mqe_type (q_items q ! c'))
             \<and> lbr_inv l q st' m' (item_at q c') {item_at q c'}
           else (\<forall>s. item_at q c1 \<le> s \<and> (\<forall>i. c1 + 1 \<le> i \<and> i < c' \<longrightarrow> item_at q i \<le> s) \<longrightarrow> lbr_inv l q st' m' s {})
             \<and> (q_end q \<le> c' \<or> endl < item_loc q c'))"
        by (rule less.hyps [OF _ _ _ _ _ inv1])
          (use c1(1) F(2) less.prems(2) q_okD(5) [OF assms(2), of c1 "c1 + 1"] in \<open>auto simp: x1_def\<close>)
      then obtain found c' st' m' where IH:
        "lbr_top_scan l endl x1 = Some (found, x1\<lparr>ex_queue := q\<lparr>q_cur := c'\<rparr>, ex_state := st', ex_repeat := m'\<rparr>)"
        "c1 + 1 \<le> c'" "c' \<le> q_end q" "no_hits l q endl (c1 + 1) c'"
        "if found then c' < q_end q \<and> item_loc q c' \<le> endl \<and> is_top (mqe_type (q_items q ! c'))
             \<and> lbr_inv l q st' m' (item_at q c') {item_at q c'}
           else (\<forall>s. item_at q c1 \<le> s \<and> (\<forall>i. c1 + 1 \<le> i \<and> i < c' \<longrightarrow> item_at q i \<le> s) \<longrightarrow> lbr_inv l q st' m' s {})
             \<and> (q_end q \<le> c' \<or> endl < item_loc q c')" by blast
      have "no_hits l q endl c c'"
      proof (unfold no_hits_def, intro allI impI conjI)
        fix i assume i: "c \<le> i \<and> i < c'"
        consider "i < c1" | "i = c1" | "c1 + 1 \<le> i" by linarith
        then show "item_loc q i \<le> endl" using skipped IH(4) i c1(2) by cases (auto simp: no_hits_def)
      next
        fix i p assume i: "c \<le> i \<and> i < c'" "is_top (mqe_type (q_items q ! i))"
        consider "i < c1" | "i = c1" | "c1 + 1 \<le> i" by linarith
        then show "\<not> lbr_hit l q {item_at q i} p"
        proof cases
          case 2
          then show ?thesis using escaped_top [OF e(1-3)] by simp
        qed (use skipped IH(4) i in \<open>auto simp: no_hits_def\<close>)
      qed
      moreover have "lbr_top_scan l endl x = Some (found, x\<lparr>ex_queue := q\<lparr>q_cur := c'\<rparr>, ex_state := st', ex_repeat := m'\<rparr>)"
        using unfold Some IH(1) by (simp add: x1_def st1_def)
      moreover have "item_at q c1 \<le> s \<and> (\<forall>i. c1 + 1 \<le> i \<and> i < c' \<longrightarrow> item_at q i \<le> s)"
        if "\<forall>i. c \<le> i \<and> i < c' \<longrightarrow> item_at q i \<le> s" for s
        using that F(2) IH(2) by auto
      ultimately show ?thesis
        using IH(2,3,5) F(2) by (intro exI [of _ found] exI [of _ c'] exI [of _ st'] exI [of _ m']) (auto split: if_splits)
    qed
  qed
qed

lemma lbrIsAlive_exact:
  assumes "lbr_ok l" "lbr_knows l st m (unat p) T" "in_stream (unat p)"
  shows "lbrIsAlive l st m p \<longleftrightarrow> (\<exists>r > unat p. rep_match (lbr_info l) T r)"
proof (cases "T = {}")
  case True
  then show ?thesis using assms(2) by (simp add: lbr_knows_def lbrIsAlive_def)
next
  case False
  let ?i = "lbr_info l" and ?s = "(lbr_ctrl st, m)"
  have alive: "\<not> repeatIsDead ?i st" using lbr_knows_dead [OF assms] False by simp
  obtain C where C: "repeat_holds ?i ?s C" "\<forall>t \<in> C. t \<le> unat p" "rep_same ?i (unat p) C T"
    using assms(2) False by (auto simp: lbr_knows_def rep.knows_def)
  then have same: "(\<exists>r > unat p. rep_match ?i T r) \<longleftrightarrow> (\<exists>r > unat p. rep_match ?i C r)" by (auto simp: rep_same_def)
  have fin: "finite C" "\<forall>t \<in> C. in_stream t"
    using C(2) in_stream_le [OF assms(3)] finite_subset [of C "{..unat p}"] by auto
  note B = bounds_okD [OF lbr_bounds [OF assms(1)]]
  show ?thesis
  proof (cases "repeatMax ?i = REPEAT_INF")
    case True
    then have "C \<noteq> {}" using holds_none(2) [OF assms(1)] C(1) by blast
    then obtain t where "t \<in> C" by blast
    then have "rep_match ?i C (Suc (t + unat (repeatMin ?i) + unat p))" using True by (auto simp: rep_match_def intro!: bexI [of _ t])
    then have "\<exists>r > unat p. rep_match ?i C r" by (intro exI conjI) auto
    then show ?thesis using True alive same by (simp add: lbrIsAlive_def Let_def)
  next
    case inf: False
    show ?thesis
    proof (cases "C = {}")
      case True
      obtain t where t: "t \<in> T" "t \<le> unat p" using \<open>T \<noteq> {}\<close> assms(2) by (auto simp: lbr_knows_def rep.knows_def)
      have "rep_match ?i T (t + unat (repeatMax ?i))" using t(1) B(1) by (auto simp: rep_match_def intro!: bexI [of _ t])
      then have "t + unat (repeatMax ?i) < unat p" using C(3) True by (simp add: rep_same_def) (meson not_le)
      then have "unat (ucast (repeatMax ?i) :: u64a) \<le> unat p" by simp
      then show ?thesis using True inf alive same holds_none(1) [OF assms(1)] C(1)
        by (simp add: lbrIsAlive_def Let_def word_less_nat_alt not_less)
    next
      case False
      note L = last_top_in [OF assms(1) C(1) False fin]
      have sum: "unat (repeatLastTop ?i ?s + ucast (repeatMax ?i)) = unat (repeatLastTop ?i ?s) + unat (repeatMax ?i)"
        using unat_plus_u32 [of "repeatLastTop ?i ?s" "repeatMax ?i"] L(1) fin(2) B(2) by simp
      have "(\<exists>r > unat p. rep_match ?i C r) \<longleftrightarrow> unat p < unat (repeatLastTop ?i ?s) + unat (repeatMax ?i)"
      proof
        assume "unat p < unat (repeatLastTop ?i ?s) + unat (repeatMax ?i)"
        moreover have "rep_match ?i C (unat (repeatLastTop ?i ?s) + unat (repeatMax ?i))"
          using L(1) B(1) by (auto simp: rep_match_def intro!: bexI [of _ "unat (repeatLastTop ?i ?s)"])
        ultimately show "\<exists>r > unat p. rep_match ?i C r" by blast
      next
        assume "\<exists>r > unat p. rep_match ?i C r"
        then obtain r t where "unat p < r" "t \<in> C" "r \<le> t + unat (repeatMax ?i)" using inf by (auto simp: rep_match_def)
        then show "unat p < unat (repeatLastTop ?i ?s) + unat (repeatMax ?i)" using L(2) by fastforce
      qed
      then show ?thesis using inf alive same sum by (simp add: lbrIsAlive_def Let_def word_less_nat_alt)
    qed
  qed
qed

section \<open>The whole queue\<close>

lemma escape_ok_cur [simp]: "escape_ok l (q\<lparr>q_cur := c\<rparr>) st sp = escape_ok l q st sp"
  by (simp add: escape_ok_def)

lemma lbr_inv_cur [simp]: "lbr_inv l (q\<lparr>q_cur := c\<rparr>) st m sp T = lbr_inv l q st m sp T"
  by (simp add: lbr_inv_def)

lemma q_ok_cur: "q_ok q endl \<Longrightarrow> q_cur q \<le> c \<Longrightarrow> q_ok (q\<lparr>q_cur := c\<rparr>) endl"
  by (auto simp: q_ok_def)

lemma segment_end_cur [simp]: "segment_end (q\<lparr>q_cur := c\<rparr>) endl = segment_end q endl"
  by (simp add: segment_end_def fun_eq_iff)

lemma tops_from_late:
  assumes "q_ok q endl" "q_cur q \<le> c" "c < q_end q \<longrightarrow> endl < item_loc q c"
  shows "tops_from q endl c = {}"
  using q_okD(3) [OF assms(1,2)] assms(3) by (force simp: tops_from_def)

lemma tops_from_ge:
  assumes "q_ok q endl" "q_cur q \<le> c" "t \<in> tops_from q endl c"
  shows "item_at q c \<le> t"
  using q_okD(5) [OF assms(1,2)] assms(3) by (auto simp: tops_from_def)

lemma tops_from_skip:
  assumes "no_hits l q endl c c'" "c \<le> c'"
  shows "lbr_hit l q (tops_from q endl c) p \<longleftrightarrow> lbr_hit l q (tops_from q endl c') p"
proof
  assume "lbr_hit l q (tops_from q endl c) p"
  then obtain t where t: "t \<in> tops_from q endl c" "lbr_hit l q {t} p" by (auto simp: lbr_hit_def)
  then obtain i where i: "t = item_at q i" "c \<le> i" "i < q_end q" "is_top (mqe_type (q_items q ! i))" "item_loc q i \<le> endl"
    by (auto simp: tops_from_def)
  then have "c' \<le> i" using assms(1) t(2) by (auto simp: no_hits_def not_less [symmetric])
  then have "t \<in> tops_from q endl c'" using i by (auto simp: tops_from_def)
  then show "lbr_hit l q (tops_from q endl c') p" using t(2) by (auto simp: lbr_hit_def)
next
  assume "lbr_hit l q (tops_from q endl c') p"
  moreover have "tops_from q endl c' \<subseteq> tops_from q endl c" using assms(2) by (auto simp: tops_from_def)
  ultimately show "lbr_hit l q (tops_from q endl c) p" by (auto simp: lbr_hit_def)
qed

text \<open>Where a run ends: at the last item, or at \<open>end\<close> when that comes first.\<close>

definition run_end :: "mq \<Rightarrow> int \<Rightarrow> nat" where
  "run_end q endl = min (item_at q (q_end q - 1)) (unat (q_offset q) + nat endl)"

text \<open>The items up to \<open>end\<close> are used up; when some are left, the place before them holds a new start.\<close>

definition queue_used :: "mq \<Rightarrow> int \<Rightarrow> nat \<Rightarrow> mq \<Rightarrow> bool" where
  "queue_used q endl c q' \<longleftrightarrow> (\<exists>c' \<ge> c. c' \<le> q_end q \<and> (\<forall>i. c \<le> i \<and> i < c' \<longrightarrow> item_loc q i \<le> endl)
     \<and> (if c' < q_end q then endl < item_loc q c' \<and> q' = q_restart (q\<lparr>q_cur := c'\<rparr>) endl else q' = q\<lparr>q_cur := c'\<rparr>))"

text \<open>What a run leaves when the callback let it go on to the end.\<close>

definition run_done :: "lbr \<Rightarrow> mq \<Rightarrow> int \<Rightarrow> nat \<Rightarrow> nat set \<Rightarrow> nat \<Rightarrow> lbr_exec \<Rightarrow> bool" where
  "run_done l q endl c T rc x' \<longleftrightarrow>
     (\<exists>T'. lbr_inv l q (ex_state x') (ex_repeat x') (run_end q endl) T'
       \<and> (\<forall>p > run_end q endl. lbr_hit l q T' p \<longleftrightarrow> lbr_hit l q (T \<union> tops_from q endl c) p)
       \<and> (rc = MO_DEAD \<longrightarrow> (\<forall>p > run_end q endl. \<not> rep_match (lbr_info l) T' p))
       \<and> (rc \<noteq> MO_DEAD \<and> q_cur (ex_queue x') = q_end q \<longrightarrow> T' \<noteq> {}))
     \<and> queue_used q endl c (ex_queue x')"

lemma q_restart_cur [simp]: "q_cur (q_restart q loc) = q_cur q - 1"
  by (simp add: q_restart_def Let_def)

lemma event_cases:
  assumes "lbr_ok l" "q_ok q endl" "q_cur q \<le> c" "c < q_end q" "ex_queue x = q\<lparr>q_cur := c\<rparr>"
    "item_loc q c \<le> endl" "lbr_inv l q (ex_state x) (ex_repeat x) (item_at q c) T"
  obtains (goes_on) c' st' m' T' where
      "lbr_event l endl x = Some (None, x\<lparr>ex_queue := q\<lparr>q_cur := c'\<rparr>, ex_state := st', ex_repeat := m'\<rparr>)"
      "c \<le> c'" "c' < q_end q" "\<forall>i. c \<le> i \<and> i \<le> c' \<longrightarrow> item_loc q i \<le> endl" "lbr_inv l q st' m' (item_at q c') T'"
      "\<And>p. item_at q c < p \<Longrightarrow> p \<le> item_at q c' \<Longrightarrow> \<not> lbr_hit l q (T \<union> tops_from q endl c) p \<or> c' = c"
      "\<And>p. item_at q c' < p \<Longrightarrow> lbr_hit l q (T' \<union> tops_from q endl (Suc c')) p \<longleftrightarrow> lbr_hit l q (T \<union> tops_from q endl c) p"
    | (stops) rc x' where "lbr_event l endl x = Some (Some rc, x')" "run_done l q endl c T rc x'"
      "\<And>p. item_at q c < p \<Longrightarrow> \<not> lbr_hit l q (T \<union> tops_from q endl c) p"
proof -
  have str: "in_stream (item_at q c)" using q_okD(6) [OF assms(2,4)] .
  have cur: "q_cur_loc (q\<lparr>q_cur := c\<rparr>) = item_loc q c" "q_cur_type (q\<lparr>q_cur := c\<rparr>) = mqe_type (q_items q ! c)"
    "unat (q_cur_offset (q\<lparr>q_cur := c\<rparr>)) = item_at q c"
    using cur_offset [OF assms(2,4)] by (simp_all add: q_cur_loc_def item_loc_def q_cur_type_def q_cur_offset_def)
  have locs: "\<forall>i. c \<le> i \<and> i \<le> c \<longrightarrow> item_loc q i \<le> endl" using assms(6) by (auto dest: le_antisym)
  have dead: "repeatIsDead (lbr_info l) (ex_state x) \<longleftrightarrow> T = {}"
    using lbr_knows_dead [OF assms(1) _ str] assms(7) unfolding lbr_inv_def by blast
  show thesis
  proof (cases "T = {}")
    case False
    show thesis
    proof (cases "is_top (mqe_type (q_items q ! c))")
      case True
      obtain st' m' where t: "lbrTop l (ex_state x) (ex_repeat x) (q_cur_offset (q\<lparr>q_cur := c\<rparr>)) = Some (st', m')"
          "lastEscape st' = lastEscape (ex_state x)" "lbr_knows l st' m' (item_at q c) (insert (item_at q c) T)"
        using lbrTop_knows [OF assms(1), of "q_cur_offset (q\<lparr>q_cur := c\<rparr>)" "ex_state x" "ex_repeat x" "item_at q c" T]
          str cur(3) assms(7) by (auto simp: lbr_inv_def)
      have inv: "lbr_inv l q st' m' (item_at q c) (insert (item_at q c) T)"
        using t(2,3) assms(7) by (auto simp: lbr_inv_def escape_ok_def)
      have ev: "lbr_event l endl x = Some (None, x\<lparr>ex_queue := q\<lparr>q_cur := c\<rparr>, ex_state := st', ex_repeat := m'\<rparr>)"
        using False dead True t(1) assms(5,6) cur by (simp add: lbr_event_def Let_def)
      have tops: "insert (item_at q c) T \<union> tops_from q endl (Suc c) = T \<union> tops_from q endl c"
        using tops_from_step [OF assms(4), of endl] True assms(6) by auto
      show thesis
      proof (rule goes_on [OF ev order_refl assms(4) locs inv])
        show "lbr_hit l q (insert (item_at q c) T \<union> tops_from q endl (Suc c)) p = lbr_hit l q (T \<union> tops_from q endl c) p" for p
          by (simp only: tops)
      qed simp
    next
      case no: False
      have ev: "lbr_event l endl x = Some (None, x\<lparr>ex_queue := q\<lparr>q_cur := c\<rparr>, ex_state := ex_state x, ex_repeat := ex_repeat x\<rparr>)"
        using False dead no assms(5,6) cur by (simp add: lbr_event_def Let_def)
      have tops: "T \<union> tops_from q endl (Suc c) = T \<union> tops_from q endl c"
        using tops_from_step [OF assms(4), of endl] no by auto
      show thesis
      proof (rule goes_on [OF ev order_refl assms(4) locs assms(7)])
        show "lbr_hit l q (T \<union> tops_from q endl (Suc c)) p = lbr_hit l q (T \<union> tops_from q endl c) p" for p
          by (simp only: tops)
      qed simp
    qed
  next
    case True
    obtain found c' st' m' where S:
      "lbr_top_scan l endl x = Some (found, x\<lparr>ex_queue := q\<lparr>q_cur := c'\<rparr>, ex_state := st', ex_repeat := m'\<rparr>)"
      "c \<le> c'" "c' \<le> q_end q" "no_hits l q endl c c'"
      "if found then c' < q_end q \<and> item_loc q c' \<le> endl \<and> is_top (mqe_type (q_items q ! c'))
         \<and> lbr_inv l q st' m' (item_at q c') {item_at q c'}
       else (\<forall>s. item_at q c \<le> s \<and> (\<forall>i. c \<le> i \<and> i < c' \<longrightarrow> item_at q i \<le> s) \<longrightarrow> lbr_inv l q st' m' s {})
         \<and> (q_end q \<le> c' \<or> endl < item_loc q c')"
      using top_scan_spec [OF assms(1,2,5,3) less_imp_le [OF assms(4)], of "item_at q c"] assms(7) True by auto
    have skip: "lbr_hit l q (T \<union> tops_from q endl c) p \<longleftrightarrow> lbr_hit l q (tops_from q endl c') p" for p
      using tops_from_skip [OF S(4,2)] True by simp
    show thesis
    proof (cases found)
      case f: True
      then have F: "c' < q_end q" "item_loc q c' \<le> endl" "is_top (mqe_type (q_items q ! c'))"
        "lbr_inv l q st' m' (item_at q c') {item_at q c'}" using S(5) by auto
      have ev: "lbr_event l endl x = Some (None, x\<lparr>ex_queue := q\<lparr>q_cur := c'\<rparr>, ex_state := st', ex_repeat := m'\<rparr>)"
        using True dead f S(1) assms(5,6) cur by (simp add: lbr_event_def Let_def)
      have locs: "\<forall>i. c \<le> i \<and> i \<le> c' \<longrightarrow> item_loc q i \<le> endl" using S(4) F(2) by (auto simp: no_hits_def le_less)
      have tops: "{item_at q c'} \<union> tops_from q endl (Suc c') = tops_from q endl c'"
        using tops_from_step [OF F(1), of endl] F(2,3) by auto
      have "\<not> lbr_hit l q (tops_from q endl c') p" if "p \<le> item_at q c'" for p
        by (rule lbr_hit_before) (use that tops_from_ge [OF assms(2), of c' _] assms(3) S(2) in force)
      then show thesis using skip tops by (intro goes_on [OF ev S(2) F(1) locs F(4)]) auto
    next
      case nf: False
      then have N: "\<And>s. item_at q c \<le> s \<Longrightarrow> \<forall>i. c \<le> i \<and> i < c' \<longrightarrow> item_at q i \<le> s \<Longrightarrow> lbr_inv l q st' m' s {}"
        "q_end q \<le> c' \<or> endl < item_loc q c'" using S(5) by auto
      have at: "item_at q i \<le> run_end q endl" if "c \<le> i" "i < q_end q" "item_loc q i \<le> endl" for i
        using q_okD(5) [OF assms(2), of i "q_end q - 1"] assms(3) that by (simp add: run_end_def item_at_def nat_mono)
      have inv: "lbr_inv l q st' m' (run_end q endl) {}"
        using S(3,4) assms(4,6) by (intro N(1)) (auto simp: no_hits_def intro: at)
      have late: "tops_from q endl c' = {}"
        using tops_from_late [OF assms(2), of c'] N(2) assms(3) S(2) by auto
      define x' where "x' = (if c' < q_end q then x\<lparr>ex_queue := q_restart (q\<lparr>q_cur := c'\<rparr>) endl, ex_state := st', ex_repeat := m'\<rparr>
         else x\<lparr>ex_queue := q\<lparr>q_cur := c'\<rparr>, ex_state := st', ex_repeat := m'\<rparr>)"
      define rc where "rc = (if c' < q_end q then MO_ALIVE else MO_DEAD)"
      have cur': "q_cur_loc (q\<lparr>q_cur := c'\<rparr>) = item_loc q c'" by (simp add: q_cur_loc_def item_loc_def)
      have ev: "lbr_event l endl x = Some (Some rc, x')"
        using True dead nf S(1) N(2) assms(5,6) cur cur' by (auto simp: lbr_event_def Let_def x'_def rc_def)
      have used: "queue_used q endl c (ex_queue x')"
        unfolding queue_used_def using S(2,3,4) N(2) by (intro exI [of _ c']) (auto simp: x'_def no_hits_def)
      have "run_done l q endl c T rc x'"
        unfolding run_done_def using inv skip late used by (intro conjI exI [of _ "{}"]) (auto simp: x'_def rc_def)
      then show thesis using skip late by (intro stops [OF ev]) auto
    qed
  qed
qed

lemma loop_callback:
  assumes "lbr_ok l" "q_ok q endl" "q_cur q \<le> c" "c \<le> q_end q" "ex_queue x = q\<lparr>q_cur := c\<rparr>"
    "lbr_inv l q (ex_state x) (ex_repeat x) (unat sp) T"
    "c < q_end q \<longrightarrow> unat sp \<le> item_at q c \<and> unat sp \<le> unat (q_offset q) + nat endl" "c = q_end q \<longrightarrow> unat sp = run_end q endl"
  shows "\<exists>go ctx' rc x'. feed cb (lbr_report l) (in_range (lbr_hit l q (T \<union> tops_from q endl c)) (unat sp) (run_end q endl)) ctx = (go, ctx')
    \<and> lbr_loop l CALLBACK_OUTPUT cb endl sp x ctx = Some (rc, x', ctx')
    \<and> (if go then run_done l q endl c T rc x' else rc = MO_HALT_MATCHING)"
  using assms(3-)
proof (induction "q_end q - c" arbitrary: c x sp T ctx rule: less_induct)
  case less
  have off: "in_stream (run_end q endl)"
    using q_okD(8) [OF assms(2)] in_stream_le by (auto simp: run_end_def min_def)
  show ?case
  proof (cases "c < q_end q")
    case False
    then have c: "c = q_end q" using less.prems(2) by simp
    then have sp: "unat sp = run_end q endl" using less.prems(6) by simp
    have tops: "tops_from q endl c = {}" using c by (auto simp: tops_from_def)
    define rc where "rc = (if lbrIsAlive l (ex_state x) (ex_repeat x) sp then 1 else 0 :: nat)"
    have alive: "lbrIsAlive l (ex_state x) (ex_repeat x) sp \<longleftrightarrow> (\<exists>r > unat sp. rep_match (lbr_info l) T r)"
      using lbrIsAlive_exact [OF assms(1), of "ex_state x" "ex_repeat x" sp T] less.prems(4) off sp by (auto simp: lbr_inv_def)
    have "queue_used q endl c (ex_queue x)"
      unfolding queue_used_def using less.prems(3) c by (intro exI [of _ c]) auto
    then have "run_done l q endl c T rc x"
      unfolding run_done_def using less.prems(4) tops alive sp
      by (intro conjI exI [of _ T]) (auto simp: rc_def MO_DEAD_def)
    moreover have "lbr_loop l CALLBACK_OUTPUT cb endl sp x ctx = Some (rc, x, ctx)"
      using False less.prems(3) by (subst lbr_loop.simps) (simp add: rc_def)
    ultimately show ?thesis using sp by (intro exI [of _ True]) (simp add: in_range_def)
  next
    case True
    then have sp: "unat sp \<le> item_at q c" "unat sp \<le> unat (q_offset q) + nat endl" using less.prems(5) by auto
    let ?H = "lbr_hit l q (T \<union> tops_from q endl c)" and ?ep = "segment_end q endl c" and ?E = "run_end q endl"
    have q': "q_ok (q\<lparr>q_cur := c\<rparr>) endl" by (rule q_ok_cur [OF assms(2) less.prems(1)])
    have last_at: "item_at q i \<le> item_at q (q_end q - 1)" if "c \<le> i" "i < q_end q" for i
      by (rule q_okD(5) [OF assms(2)]) (use that less.prems(1) in auto)
    have ep: "unat sp \<le> ?ep" "?ep \<le> ?E" "?ep \<le> item_at q c"
      using sp last_at [OF order_refl True] by (auto simp: segment_end_def run_end_def min_def)
    obtain go1 ctx1 st1 T1 where seg:
      "feed cb (lbr_report l) (in_range (lbr_hit l q T) (unat sp) ?ep) ctx = (go1, ctx1)"
      "go1 \<longrightarrow> lbr_segment l CALLBACK_OUTPUT cb endl sp x ctx = Some (None, x\<lparr>ex_state := st1\<rparr>, ctx1)
         \<and> lbr_inv l q st1 (ex_repeat x) ?ep T1 \<and> (\<forall>p > ?ep. lbr_hit l q T1 p \<longleftrightarrow> lbr_hit l q T p)"
      "\<not> go1 \<longrightarrow> lbr_segment l CALLBACK_OUTPUT cb endl sp x ctx = Some (Some MO_HALT_MATCHING, x, ctx1)"
      using segment_callback [OF assms(1) q', of x sp T cb ctx] True less.prems(3,4) ep(1) by auto
    have "\<not> lbr_hit l q (tops_from q endl c) p" if "p \<le> ?ep" for p
      by (rule lbr_hit_before) (use that ep(3) tops_from_ge [OF assms(2) less.prems(1)] in force)
    then have first: "in_range (lbr_hit l q T) (unat sp) ?ep = in_range ?H (unat sp) ?ep"
      by (intro in_range_cong) (simp add: lbr_hit_Un)
    note split = in_range_split [OF ep(1,2), of ?H]
    have running: "q_cur (ex_queue x) < q_end (ex_queue x)" using less.prems(3) True by simp
    show ?thesis
    proof (cases go1)
      case False
      then have "lbr_loop l CALLBACK_OUTPUT cb endl sp x ctx = Some (MO_HALT_MATCHING, x, ctx1)"
        using seg(3) running by (subst lbr_loop.simps) simp
      then show ?thesis using seg(1) False first split by (intro exI [of _ False]) (simp add: feed_append)
    next
      case go1: True
      then have seg': "lbr_segment l CALLBACK_OUTPUT cb endl sp x ctx = Some (None, x\<lparr>ex_state := st1\<rparr>, ctx1)"
        "lbr_inv l q st1 (ex_repeat x) ?ep T1" "\<And>p. ?ep < p \<Longrightarrow> lbr_hit l q T1 p \<longleftrightarrow> lbr_hit l q T p"
        using seg(2) by auto
      let ?H1 = "lbr_hit l q (T1 \<union> tops_from q endl c)"
      have rest: "feed cb (lbr_report l) (in_range ?H (unat sp) ?E) ctx = feed cb (lbr_report l) (in_range ?H1 ?ep ?E) ctx1"
      proof -
        have "in_range ?H ?ep ?E = in_range ?H1 ?ep ?E" by (rule in_range_cong) (simp add: lbr_hit_Un seg'(3))
        then show ?thesis using split first seg(1) go1 by (simp add: feed_append)
      qed
      have same: "run_done l q endl c T rc x' = run_done l q endl c T1 rc x'" for rc x'
        using seg'(3) ep(2) by (auto simp: run_done_def lbr_hit_Un)
      let ?x1 = "x\<lparr>ex_state := st1\<rparr>"
      show ?thesis
      proof (cases "endl < item_loc q c")
        case late: True
        define x' where "x' = ?x1\<lparr>ex_queue := q_restart (q\<lparr>q_cur := c\<rparr>) endl\<rparr>"
        have "nat endl \<le> nat (item_loc q c)" using late q_okD(9) [OF assms(2)] by simp
        then have end_eq: "?ep = ?E"
          using last_at [OF order_refl True] by (simp add: segment_end_def run_end_def item_at_def min_def)
        have none: "tops_from q endl c = {}" by (rule tops_from_late [OF assms(2) less.prems(1)]) (use late in simp)
        have "lbr_event l endl ?x1 = Some (Some MO_ALIVE, x')"
          using late less.prems(3) by (simp add: lbr_event_def Let_def q_cur_loc_def item_loc_def x'_def)
        then have run: "lbr_loop l CALLBACK_OUTPUT cb endl sp x ctx = Some (MO_ALIVE, x', ctx1)"
          using seg'(1) running by (subst lbr_loop.simps) simp
        have "queue_used q endl c (ex_queue x')"
          unfolding queue_used_def using late True by (intro exI [of _ c]) (auto simp: x'_def)
        then have "run_done l q endl c T1 MO_ALIVE x'"
          unfolding run_done_def using seg'(2) none end_eq
          by (intro conjI exI [of _ T1]) (use True in \<open>auto simp: x'_def MO_ALIVE_def MO_DEAD_def\<close>)
        then show ?thesis using run rest end_eq same by (intro exI [of _ True]) (simp add: in_range_def)
      next
        case False
        then have loc: "item_loc q c \<le> endl" by simp
        then have ep_eq: "?ep = item_at q c" by (simp add: segment_end_def item_at_def nat_mono)
        have inv1: "lbr_inv l q (ex_state ?x1) (ex_repeat ?x1) (item_at q c) T1" using seg'(2) ep_eq by simp
        have q1: "ex_queue ?x1 = q\<lparr>q_cur := c\<rparr>" using less.prems(3) by simp
        show ?thesis
        proof (cases rule: event_cases [OF assms(1,2) less.prems(1) True q1 loc inv1, case_names goes_on stops])
          case (stops rc x')
          then have run: "lbr_loop l CALLBACK_OUTPUT cb endl sp x ctx = Some (rc, x', ctx1)"
            using seg'(1) running by (subst lbr_loop.simps) simp
          have "in_range ?H1 ?ep ?E = []" using stops(3) ep_eq by (intro in_range_none) simp
          then show ?thesis using run rest stops(2) same by (intro exI [of _ True]) simp
        next
          case (goes_on c' st' m' T')
          define x2 where "x2 = x\<lparr>ex_state := st', ex_repeat := m', ex_queue := q\<lparr>q_cur := Suc c'\<rparr>\<rparr>"
          define sw where "sw = q_cur_offset (q\<lparr>q_cur := c'\<rparr>)"
          have sw: "unat sw = item_at q c'" using cur_offset [OF assms(2) goes_on(3)] by (simp add: sw_def q_cur_offset_def)
          have run: "lbr_loop l CALLBACK_OUTPUT cb endl sp x ctx = lbr_loop l CALLBACK_OUTPUT cb endl sw x2 ctx1"
            using seg'(1) goes_on(1) running by (subst lbr_loop.simps) (simp add: x2_def sw_def)
          have mono: "item_at q c \<le> item_at q c'" using q_okD(5) [OF assms(2) less.prems(1) goes_on(2,3)] .
          have locs: "item_loc q c' \<le> endl" using goes_on(2,4) by blast
          have E: "item_at q c' \<le> ?E"
            using last_at [OF goes_on(2,3)] locs by (simp add: run_end_def item_at_def nat_mono)
          have "item_at q c' = ?E" if "Suc c' = q_end q"
            using that locs by (auto simp: run_end_def item_at_def nat_mono min_def simp flip: that)
          moreover have "Suc c' < q_end q \<longrightarrow> item_at q c' \<le> item_at q (Suc c') \<and> item_at q c' \<le> unat (q_offset q) + nat endl"
            using q_okD(5) [OF assms(2), of c' "Suc c'"] less.prems(1) goes_on(2) locs by (simp add: item_at_def nat_mono)
          ultimately have "\<exists>go ctx' rc x'. feed cb (lbr_report l) (in_range (lbr_hit l q (T' \<union> tops_from q endl (Suc c'))) (unat sw) ?E) ctx1 = (go, ctx')
            \<and> lbr_loop l CALLBACK_OUTPUT cb endl sw x2 ctx1 = Some (rc, x', ctx')
            \<and> (if go then run_done l q endl (Suc c') T' rc x' else rc = MO_HALT_MATCHING)"
            using goes_on(2,3,5) less.prems(1) sw True by (intro less.hyps) (auto simp: x2_def)
          then obtain go ctx' rc x' where IH:
            "feed cb (lbr_report l) (in_range (lbr_hit l q (T' \<union> tops_from q endl (Suc c'))) (unat sw) ?E) ctx1 = (go, ctx')"
            "lbr_loop l CALLBACK_OUTPUT cb endl sw x2 ctx1 = Some (rc, x', ctx')"
            "if go then run_done l q endl (Suc c') T' rc x' else rc = MO_HALT_MATCHING" by blast
          have "in_range ?H1 ?ep ?E = in_range ?H1 ?ep (item_at q c') @ in_range ?H1 (item_at q c') ?E"
            by (rule in_range_split) (use mono ep_eq E in auto)
          moreover have "in_range ?H1 ?ep (item_at q c') = []"
            using goes_on(6) ep_eq by (cases "c' = c") (auto intro: in_range_none)
          moreover have "in_range ?H1 (item_at q c') ?E = in_range (lbr_hit l q (T' \<union> tops_from q endl (Suc c'))) (unat sw) ?E"
            unfolding sw by (rule in_range_cong) (use goes_on(7) in simp)
          ultimately have feed_eq: "feed cb (lbr_report l) (in_range ?H (unat sp) ?E) ctx = (go, ctx')"
            using rest IH(1) by simp
          have "run_done l q endl c T rc x'" if go
          proof -
            have D: "run_done l q endl (Suc c') T' rc x'" using IH(3) that by simp
            have "lbr_hit l q (T' \<union> tops_from q endl (Suc c')) p \<longleftrightarrow> lbr_hit l q (T1 \<union> tops_from q endl c) p" if "?E < p" for p
              using goes_on(7) [of p] that E by simp
            moreover have "queue_used q endl c (ex_queue x')"
            proof -
              obtain d where d: "Suc c' \<le> d" "d \<le> q_end q" "\<forall>i. Suc c' \<le> i \<and> i < d \<longrightarrow> item_loc q i \<le> endl"
                "if d < q_end q then endl < item_loc q d \<and> ex_queue x' = q_restart (q\<lparr>q_cur := d\<rparr>) endl else ex_queue x' = q\<lparr>q_cur := d\<rparr>"
                using D unfolding run_done_def queue_used_def by blast
              have "\<forall>i. c \<le> i \<and> i < d \<longrightarrow> item_loc q i \<le> endl" using d(3) goes_on(4) by (meson not_less_eq_eq)
              then show ?thesis unfolding queue_used_def using d goes_on(2) by (intro exI [of _ d]) auto
            qed
            ultimately have "run_done l q endl c T1 rc x'" using D unfolding run_done_def by (metis (no_types, lifting))
            then show ?thesis using same by simp
          qed
          then show ?thesis using feed_eq run IH(2,3) by (intro exI conjI) (auto split: if_splits)
        qed
      qed
    qed
  qed
qed

lemma q_report_simps [simp]:
  "item_loc (q\<lparr>q_report_current := b\<rparr>) = item_loc q" "item_at (q\<lparr>q_report_current := b\<rparr>) = item_at q"
  "q_end (q\<lparr>q_report_current := b\<rparr>) = q_end q" "escape_at l (q\<lparr>q_report_current := b\<rparr>) = escape_at l q"
  "lbr_hit l (q\<lparr>q_report_current := b\<rparr>) = lbr_hit l q" "tops_from (q\<lparr>q_report_current := b\<rparr>) = tops_from q"
  "run_end (q\<lparr>q_report_current := b\<rparr>) = run_end q" "q_ok (q\<lparr>q_report_current := b\<rparr>) = q_ok q"
  "lbr_inv l (q\<lparr>q_report_current := b\<rparr>) = lbr_inv l q"
  by (auto simp: item_loc_def item_at_def q_end_def escape_at_def lbr_hit_def tops_from_def run_end_def q_ok_def
      lbr_inv_def escape_ok_def fun_eq_iff)

text \<open>The matches a run has to report, the one at the start first when the queue asks for it.\<close>

definition run_hits :: "lbr \<Rightarrow> mq \<Rightarrow> int \<Rightarrow> nat set \<Rightarrow> nat list" where
  "run_hits l q endl T =
     (if q_report_current q then [item_at q (q_cur q)] else [])
       @ in_range (lbr_hit l q (T \<union> tops_from q endl (Suc (q_cur q)))) (item_at q (q_cur q)) (run_end q endl)"

lemma lbr_Q_run:
  assumes "lbr_ok l" "q_ok q endl" "ex_queue x = q" "q_cur q < q_end q" "item_loc q (q_cur q) \<le> endl"
    "lbr_inv l q (ex_state x) (ex_repeat x) (item_at q (q_cur q)) T"
  shows "\<exists>go ctx' rc x'. feed cb (lbr_report l) (run_hits l q endl T) ctx = (go, ctx')
    \<and> lbr_Q l cb endl x ctx = Some (rc, x', ctx')
    \<and> (if go then run_done l (q\<lparr>q_report_current := False\<rparr>) endl (Suc (q_cur q)) T rc x' else rc = MO_HALT_MATCHING)"
proof -
  define q1 where "q1 = q\<lparr>q_report_current := False\<rparr>"
  define sp where "sp = q_cur_offset q"
  have sp: "unat sp = item_at q (q_cur q)" using cur_offset [OF assms(2,4)] by (simp add: sp_def q_cur_offset_def)
  have of_sp: "of_nat (item_at q (q_cur q)) = sp" by (simp flip: sp)
  obtain go0 ctx0 where first: "(if q_report_current q then cb sp (lbr_report l) ctx else (True, ctx)) = (go0, ctx0)" by fastforce
  then have feed0: "feed cb (lbr_report l) (if q_report_current q then [item_at q (q_cur q)] else []) ctx = (go0, ctx0)"
    using of_sp by (auto split: prod.splits)
  define x1 where "x1 = x\<lparr>ex_queue := q1\<lparr>q_cur := Suc (q_cur q)\<rparr>\<rparr>"
  have q1: "q_ok q1 endl" "q_cur q1 = q_cur q" "q_end q1 = q_end q" using assms(2) by (simp_all add: q1_def)
  have Q: "lbr_Q l cb endl x ctx = (if go0 then lbr_loop l CALLBACK_OUTPUT cb endl sp x1 ctx0
      else Some (MO_HALT_MATCHING, x\<lparr>ex_queue := q1\<rparr>, ctx0))"
  proof -
    have off: "q_cur_offset (q\<lparr>q_report_current := False\<rparr>) = sp" by (simp add: q_cur_offset_def sp_def)
    show ?thesis
      unfolding lbr_Q_def lbr_Q_i_def Let_def assms(3) sp_def [symmetric] first prod.case
      using assms(4) by (simp add: x1_def q1_def off)
  qed
  show ?thesis
  proof (cases go0)
    case False
    then show ?thesis using Q feed0 by (intro exI [of _ False]) (simp add: run_hits_def feed_append)
  next
    case True
    have "item_at q (q_cur q) \<le> unat (q_offset q) + nat endl" using assms(5) by (simp add: item_at_def nat_mono)
    moreover have "item_at q (q_cur q) \<le> item_at q (Suc (q_cur q))" if "Suc (q_cur q) < q_end q"
      using q_okD(5) [OF assms(2), of "q_cur q" "Suc (q_cur q)"] that by simp
    moreover have "item_at q (q_cur q) = run_end q endl" if "Suc (q_cur q) = q_end q"
      using calculation(1) by (simp add: run_end_def min_def flip: that)
    ultimately obtain go ctx' rc x' where L:
      "feed cb (lbr_report l) (in_range (lbr_hit l q1 (T \<union> tops_from q1 endl (Suc (q_cur q)))) (unat sp) (run_end q1 endl)) ctx0 = (go, ctx')"
      "lbr_loop l CALLBACK_OUTPUT cb endl sp x1 ctx0 = Some (rc, x', ctx')"
      "if go then run_done l q1 endl (Suc (q_cur q)) T rc x' else rc = MO_HALT_MATCHING"
      using loop_callback [OF assms(1) q1(1), of "Suc (q_cur q)" x1 sp T cb ctx0] assms(4,6) q1(2,3) sp
      by (auto simp: x1_def q1_def)
    then show ?thesis
      using Q True feed0 sp by (intro exI [of _ go] exI [of _ ctx'] exI [of _ rc] exI [of _ x'])
        (auto simp: run_hits_def feed_append q1_def)
  qed
qed

text \<open>C7. A run of the engine hands the callback, in order and until it halts, exactly the offsets at which some top before
them has its bounds met and no escape in between: the tops alive at the start and those of the queue up to the end.\<close>

theorem lbr_reports_exact:
  assumes "lbr_ok l" "q_ok q endl" "ex_queue x = q" "q_cur q < q_end q" "item_loc q (q_cur q) \<le> endl"
    "lbr_inv l q (ex_state x) (ex_repeat x) (item_at q (q_cur q)) T"
  shows "map_option (\<lambda>(rc, x', ctx'). ctx') (lbr_Q l cb endl x ctx)
    = Some (snd (feed cb (lbr_report l) (run_hits l q endl T) ctx))"
  using lbr_Q_run [OF assms, of cb ctx] by auto


text \<open>
  A run: the class excludes the byte 98, the bounds are two and three, and of the tops at 0 and 2 the first one is killed
  by the escape at 1.
\<close>

definition lbr_example :: lbr where
  "lbr_example = \<lparr>lbr_class = LBR_VERM 98,
     lbr_info = \<lparr>repeat_type = REPEAT_BITMAP, repeatMin = 2, repeatMax = 3, horizon = 0, packedCtrlSize = 1,
       stateSize = 0, minPeriod = 0, packedFieldSizes = [], patchCount = 0, patchSize = 0, encodingSize = 0,
       patchesOffset = 0, implTable = []\<rparr>, lbr_report = 5\<rparr>"

definition queue_example :: mq where
  "queue_example = \<lparr>q_cur = 0, q_items = [\<lparr>mqe_type = MQE_START, mqe_location = 0\<rparr>, \<lparr>mqe_type = MQE_TOP, mqe_location = 0\<rparr>,
     \<lparr>mqe_type = MQE_TOP, mqe_location = 2\<rparr>, \<lparr>mqe_type = MQE_END, mqe_location = 6\<rparr>],
     q_offset = 0, q_buffer = [97, 98, 97, 97, 97, 97], q_report_current = False\<rparr>"

lemma queue_example_items:
  "q_end queue_example = 4" "item_loc queue_example 0 = 0" "item_loc queue_example 1 = 0" "item_loc queue_example 2 = 2"
  "item_loc queue_example 3 = 6" "q_cur queue_example = 0" "q_offset queue_example = 0" "length (q_buffer queue_example) = 6"
  by (simp_all add: q_end_def item_loc_def queue_example_def)

lemma queue_example_loc:
  assumes "i < 4"
  shows "item_loc queue_example i = [0, 0, 2, 6] ! i"
proof -
  consider "i = 0" | "i = 1" | "i = 2" | "i = 3" using assms by linarith
  then show ?thesis by cases (simp_all add: queue_example_items del: One_nat_def)
qed

lemma queue_example_ok: "q_ok queue_example 6"
proof -
  have s: "sorted [0, 0, 2, 6 :: int]" by simp
  have le: "item_loc queue_example i \<le> item_loc queue_example j" if "i \<le> j" "j < 4" for i j
    using sorted_nth_mono [OF s that(1)] that queue_example_loc [of i] queue_example_loc [of j] by simp
  have "0 \<le> item_loc queue_example i \<and> item_loc queue_example i \<le> 6" if "i < 4" for i
    using le [of 0 i] le [of i 3] that queue_example_items by simp
  then show ?thesis using le by (simp add: q_ok_def queue_example_items in_stream_def)
qed

lemma queue_example_escape: "escape_at lbr_example queue_example a \<longleftrightarrow> a = 1"
proof (cases "a < 6")
  case True
  then consider "a = 0" | "a = 1" | "a = 2" | "a = 3" | "a = 4" | "a = 5" by linarith
  then show ?thesis by cases (simp_all add: escape_at_def lbr_example_def queue_example_def)
qed (simp add: escape_at_def queue_example_items)

lemma queue_example_tops: "tops_from queue_example 6 1 = {0, 2}"
proof -
  have top: "is_top (mqe_type (q_items queue_example ! i)) \<longleftrightarrow> i = 1 \<or> i = 2" if i: "i < 4" for i
  proof -
    consider "i = 0" | "i = 1" | "i = 2" | "i = 3" using i by linarith
    then show ?thesis by cases (simp_all add: queue_example_def is_top_def MQE_START_def MQE_END_def MQE_TOP_def MQE_TOP_FIRST_def)
  qed
  have "tops_from queue_example 6 1 = item_at queue_example ` {i. 1 \<le> i \<and> i < 4 \<and> (i = 1 \<or> i = 2)}"
    unfolding tops_from_def queue_example_items
    using top queue_example_items by (auto simp: image_def) 
  also have "{i. 1 \<le> i \<and> i < 4 \<and> (i = 1 \<or> i = (2 :: nat))} = {1, 2}" by auto
  finally show ?thesis by (simp add: item_at_def queue_example_items del: One_nat_def)
qed

lemma example_bounds:
  "unat (repeatMin (lbr_info lbr_example)) = 2" "unat (repeatMax (lbr_info lbr_example)) = 3"
  "repeatMax (lbr_info lbr_example) \<noteq> REPEAT_INF"
  by (simp_all add: lbr_example_def REPEAT_INF_def)

lemma queue_example_hits: "run_hits lbr_example queue_example 6 {} = [4, 5]"
proof -
  have "run_end queue_example 6 = 6" by (simp add: run_end_def item_at_def queue_example_items)
  moreover have "lbr_hit lbr_example queue_example {0, 2} = (\<lambda>p. p = 4 \<or> p = 5)"
    by (auto simp: fun_eq_iff lbr_hit_def queue_example_escape rep_match_def example_bounds dest: spec [of _ "Suc 0"])
  moreover have "item_at queue_example 0 = 0" "\<not> q_report_current queue_example"
    by (simp_all add: item_at_def queue_example_items) (simp add: queue_example_def)
  moreover have "filter (\<lambda>p. p = 4 \<or> p = 5) [Suc 0..<Suc 6] = [4, 5]" by (simp add: upt_rec)
  ultimately show ?thesis
    using queue_example_tops unfolding run_hits_def in_range_def queue_example_items by simp
qed

lemma example_ok: "lbr_ok lbr_example"
  by (simp add: lbr_ok_def repeat_ok_def lbr_example_def bounds_ok_def REPEAT_INF_def Let_def)

lemma example_init: "lbr_inv lbr_example queue_example (lbr_queueInitState lbr_example st) m 0 {}"
  using example_ok
  by (simp add: lbr_inv_def lbr_knows_def escape_ok_def lbr_queueInitState_def clearRepeat_dead lbr_ok_def queue_example_items)

lemma lbr_reports_exact_witness:
  "\<forall>st m. map_option (\<lambda>(rc, x', ctx'). ctx')
     (lbr_Q lbr_example (\<lambda>p r ps. (True, ps @ [(p, r)])) 6
       \<lparr>ex_state = lbr_queueInitState lbr_example st, ex_repeat = m, ex_queue = queue_example\<rparr> []) = Some [(4, 5), (5, 5)]"
proof (intro allI)
  fix st m
  let ?x = "\<lparr>ex_state = lbr_queueInitState lbr_example st, ex_repeat = m, ex_queue = queue_example\<rparr>"
  have at: "item_at queue_example 0 = 0" by (simp add: item_at_def queue_example_items)
  have fed: "snd (feed (\<lambda>p r ps. (True, ps @ [(p, r)])) (lbr_report lbr_example) [4, 5] []) = [(4, 5), (5, 5)]"
    by (simp add: lbr_example_def)
  show "map_option (\<lambda>(rc, x', ctx'). ctx') (lbr_Q lbr_example (\<lambda>p r ps. (True, ps @ [(p, r)])) 6 ?x []) = Some [(4, 5), (5, 5)]"
    using lbr_reports_exact [OF example_ok queue_example_ok, of ?x "{}" "\<lambda>p r ps. (True, ps @ [(p, r)])" "[]",
        unfolded queue_example_hits fed] example_init
    by (simp only: queue_example_items at lbr_exec.simps simp_thms)
qed

end
