(* ===== verification/LbrStream.thy ===== *)
theory LbrStream
  imports LbrQueue RepeatCompile
begin

text \<open>
  LBR engines over a whole stream: the construction of an engine for a class and its bounds
  (\<open>src/nfagraph/ng_lbr.cpp\<close>), and the run over the blocks of a stream, with the state compressed and expanded
  at their boundaries.
\<close>

section \<open>Construction\<close>

text \<open>
  Each builder gives an engine, or nothing when its kind does not fit the class.  The kinds are tried in order.
\<close>

definition make_lbr :: "lbr_class \<Rightarrow> lbr_nfa \<Rightarrow> lbr" where
  "make_lbr k nfa = \<lparr>lbr_class = k, lbr_info = nfa_repeatInfo nfa, lbr_report = nfa_report nfa\<rparr>"

definition buildLbrDot ::
  "CharReach \<Rightarrow> depth \<Rightarrow> depth \<Rightarrow> u32 \<Rightarrow> bool \<Rightarrow> u32 \<Rightarrow> repeat_error + lbr option" where
  "buildLbrDot cr mn mx period is_reset report =
     (if \<not> cr_all cr then Inr None
      else sbind (build_lbr report mn mx period is_reset) (\<lambda>nfa. Inr (Some (make_lbr LBR_DOT nfa))))"

definition buildLbrVerm ::
  "CharReach \<Rightarrow> depth \<Rightarrow> depth \<Rightarrow> u32 \<Rightarrow> bool \<Rightarrow> u32 \<Rightarrow> repeat_error + lbr option" where
  "buildLbrVerm cr mn mx period is_reset report =
     (let escapes = cr_not cr
      in if cr_count escapes \<noteq> 1 then Inr None
         else sbind (build_lbr report mn mx period is_reset) (\<lambda>nfa.
              Inr (Some (make_lbr (LBR_VERM (of_nat (cr_find_first escapes))) nfa))))"

definition buildLbrNVerm ::
  "CharReach \<Rightarrow> depth \<Rightarrow> depth \<Rightarrow> u32 \<Rightarrow> bool \<Rightarrow> u32 \<Rightarrow> repeat_error + lbr option" where
  "buildLbrNVerm cr mn mx period is_reset report =
     (let escapes = cr
      in if cr_count escapes \<noteq> 1 then Inr None
         else sbind (build_lbr report mn mx period is_reset) (\<lambda>nfa.
              Inr (Some (make_lbr (LBR_NVERM (of_nat (cr_find_first escapes))) nfa))))"

definition buildLbrShuf ::
  "CharReach \<Rightarrow> depth \<Rightarrow> depth \<Rightarrow> u32 \<Rightarrow> bool \<Rightarrow> u32 \<Rightarrow> repeat_error + lbr option" where
  "buildLbrShuf cr mn mx period is_reset report =
     sbind (build_lbr report mn mx period is_reset) (\<lambda>nfa.
     Inr (case shuftiBuildMasks (cr_not cr) of
            None \<Rightarrow> None
          | Some (_, lo, hi) \<Rightarrow> Some (make_lbr (LBR_SHUF lo hi) nfa)))"

definition buildLbrTruf ::
  "CharReach \<Rightarrow> depth \<Rightarrow> depth \<Rightarrow> u32 \<Rightarrow> bool \<Rightarrow> u32 \<Rightarrow> repeat_error + lbr option" where
  "buildLbrTruf cr mn mx period is_reset report =
     sbind (build_lbr report mn mx period is_reset) (\<lambda>nfa.
     Inr (case truffleBuildMasks (cr_not cr) of (mask1, mask2) \<Rightarrow> Some (make_lbr (LBR_TRUF mask1 mask2) nfa)))"

definition or_build :: "repeat_error + lbr option \<Rightarrow> repeat_error + lbr option \<Rightarrow> repeat_error + lbr option" where
  "or_build r next_kind = sbind r (\<lambda>nfa. case nfa of None \<Rightarrow> next_kind | Some l \<Rightarrow> Inr (Some l))"

definition constructLBR ::
  "CharReach \<Rightarrow> depth \<Rightarrow> depth \<Rightarrow> u32 \<Rightarrow> bool \<Rightarrow> u32 \<Rightarrow> repeat_error + lbr option" where
  "constructLBR cr mn mx period is_reset report =
     (let nfa = buildLbrDot cr mn mx period is_reset report;
          nfa = or_build nfa (buildLbrVerm cr mn mx period is_reset report);
          nfa = or_build nfa (buildLbrNVerm cr mn mx period is_reset report);
          nfa = or_build nfa (buildLbrShuf cr mn mx period is_reset report);
          nfa = or_build nfa (buildLbrTruf cr mn mx period is_reset report)
      in nfa)"

section \<open>The engine built escapes on the bytes outside the class\<close>

lemma truffle_hit_masks:
  assumes "cr_inv cr" "truffleBuildMasks cr = (m1, m2)"
  shows "truffle_hit m1 m2 b \<longleftrightarrow> b \<in> chars cr"
proof -
  define v where "v = unat b"
  have "v < 2 ^ LENGTH(8)" unfolding v_def by (rule unsigned_less)
  then have v: "v < 256" by simp
  have "v div 128 = (if 128 \<le> v then 1 else 0)" using v by auto
  then have "bit v 7 \<longleftrightarrow> 128 \<le> v" by (simp add: bit_iff_odd)
  then have b7: "bit b 7 \<longleftrightarrow> 128 \<le> v" by (simp add: v_def bit_unsigned_iff)
  have "(0xf :: u8) = mask 4" by (simp add: mask_eq_exp_minus_1)
  then have "b AND 0xf = take_bit 4 b" by (simp only: take_bit_eq_mask)
  then have j: "unat (b AND 0xf) = v mod 16" by (simp only: v_def unsigned_take_bit_eq) (simp add: take_bit_eq_mod)
  have "(7 :: u8) = mask 3" by (simp add: mask_eq_exp_minus_1)
  then have "drop_bit 4 b AND 7 = take_bit 3 (drop_bit 4 b)" by (simp only: take_bit_eq_mask)
  then have k: "unat (drop_bit 4 b AND 7) = v div 16 mod 8"
    by (simp only: v_def unsigned_take_bit_eq unsigned_drop_bit_eq) (simp add: take_bit_eq_mod drop_bit_eq_div v [unfolded v_def])
  note jk = j k
  note M = truffle_masks(3,4) [OF assms, of "v mod 16" "v div 16 mod 8"]
  have b: "word_of_nat v = b" by (simp add: v_def)
  have low: "16 * (v div 16 mod 8) + v mod 16 = v mod 128" using mod_mult2_eq [of v 16 8] by simp
  show ?thesis
  proof (cases "128 \<le> v")
    case True
    have "v mod 128 = v - 128" using True v by (simp add: mod_if)
    then have "128 + (16 * (v div 16 mod 8) + v mod 16) = v" using low True by simp
    then have "bit (m2 ! (v mod 16)) (v div 16 mod 8) \<longleftrightarrow> b \<in> chars cr" using M(2) b by simp
    then show ?thesis using True b7 by (simp add: truffle_hit_def jk)
  next
    case False
    then have "16 * (v div 16 mod 8) + v mod 16 = v" using low by simp
    then have "bit (m1 ! (v mod 16)) (v div 16 mod 8) \<longleftrightarrow> b \<in> chars cr" using M(1) b by simp
    then show ?thesis using False b7 by (simp add: truffle_hit_def jk)
  qed
qed

lemma find_first_single:
  assumes "cr_inv cr" "cr_count cr = 1"
  shows "chars cr = {of_nat (cr_find_first cr)}"
proof -
  obtain c where c: "chars cr = {c}" using assms by (auto simp: cr_count_card card_1_singleton_iff)
  then have "bf_bits cr = {unat c}" using cr_bits_chars [OF assms(1)] by simp
  then have "cr_find_first cr = unat c" by (simp add: cr_find_first_def find_first_least least_or_def)
  then show ?thesis using c by simp
qed

lemma single_char:
  assumes "cr_inv cr" "cr_count cr = 1"
  shows "b = of_nat (cr_find_first cr) \<longleftrightarrow> b \<in> chars cr"
  using find_first_single [OF assms] by auto

text \<open>Each kind of engine, once it is built, escapes exactly on the bytes outside the class.\<close>

lemma dot_escapes:
  assumes "cr_inv cr" "cr_all cr"
  shows "is_escape LBR_DOT b \<longleftrightarrow> b \<notin> chars cr"
proof -
  have "unat ` chars cr = {..<cr_npos}"
    using bf_all_iff [of cr_npos cr] assms cr_bits_chars [OF assms(1)] by (simp add: cr_all_def cr_inv_def cr_npos_def)
  then have "unat b \<in> unat ` chars cr" using unat_u8_npos by blast
  then show ?thesis by (auto simp: word_unat_eq_iff [symmetric])
qed

lemma verm_escapes:
  assumes "cr_inv cr" "cr_count (cr_not cr) = 1"
  shows "is_escape (LBR_VERM (of_nat (cr_find_first (cr_not cr)))) b \<longleftrightarrow> b \<notin> chars cr"
  using single_char [OF cr_inv_intros(8) [OF assms(1)] assms(2), of b] assms(1) by (simp add: chars_simps(9))

lemma nverm_escapes:
  assumes "cr_inv cr" "cr_count cr = 1"
  shows "is_escape (LBR_NVERM (of_nat (cr_find_first cr))) b \<longleftrightarrow> b \<notin> chars cr"
  using single_char [OF assms, of b] by simp

lemma shuf_escapes:
  assumes "cr_inv cr" "shuftiBuildMasks (cr_not cr) = Some (n, lo, hi)"
  shows "is_escape (LBR_SHUF lo hi) b \<longleftrightarrow> b \<notin> chars cr"
  using shuftiBuildMasks_hit(1) [OF cr_inv_intros(8) [OF assms(1)] assms(2)] assms(1) by (simp add: chars_simps(9))

lemma truf_escapes:
  assumes "cr_inv cr" "truffleBuildMasks (cr_not cr) = (m1, m2)"
  shows "is_escape (LBR_TRUF m1 m2) b \<longleftrightarrow> b \<notin> chars cr"
  using truffle_hit_masks [OF cr_inv_intros(8) [OF assms(1)] assms(2)] assms(1) by (simp add: chars_simps(9))

lemma or_build_simps [simp]:
  "or_build (Inr None) k = k" "or_build (Inr (Some l)) k = Inr (Some l)"
  by (simp_all add: or_build_def)

text \<open>For every class, all accepted bounds and triggers at most six bytes apart, an engine is built: its kind escapes on
exactly the bytes outside the class, and its repeat is well-formed and has the bounds and the report asked for.\<close>

lemma lbr_construct_exact:
  assumes "cr_inv cr" "bounds_accepted mn mx" "period \<le> 6"
  shows "\<exists>l. constructLBR cr mn mx period False report = Inr (Some l) \<and> lbr_ok l \<and> lbr_report l = report
    \<and> (\<forall>b. is_escape (lbr_class l) b \<longleftrightarrow> b \<notin> chars cr) \<and> repeatMin (lbr_info l) = dval mn
    \<and> repeatMax (lbr_info l) = (if is_infinite mx then REPEAT_INF else dval mx)"
proof -
  obtain nfa where nfa: "build_lbr report mn mx period False = Inr nfa" "nfa_report nfa = report"
    "repeat_ok (nfa_repeatInfo nfa)" "repeat_type (nfa_repeatInfo nfa) \<noteq> REPEAT_ALWAYS" "repeatMin (nfa_repeatInfo nfa) = dval mn"
    "repeatMax (nfa_repeatInfo nfa) = (if is_infinite mx then REPEAT_INF else dval mx)"
    using build_lbr_ok [OF assms(2,3)] by blast
  note builders = buildLbrDot_def buildLbrVerm_def buildLbrNVerm_def buildLbrShuf_def buildLbrTruf_def nfa(1)
  have "\<exists>k. constructLBR cr mn mx period False report = Inr (Some (make_lbr k nfa)) \<and> (\<forall>b. is_escape k b \<longleftrightarrow> b \<notin> chars cr)"
  proof (cases "cr_all cr")
    case True
    then show ?thesis using dot_escapes [OF assms(1)]
      by (intro exI [of _ LBR_DOT]) (simp add: constructLBR_def builders)
  next
    case not_dot: False
    show ?thesis
    proof (cases "cr_count (cr_not cr) = 1")
      case True
      then show ?thesis using verm_escapes [OF assms(1) True] not_dot
        by (intro exI [of _ "LBR_VERM (of_nat (cr_find_first (cr_not cr)))"]) (simp add: constructLBR_def builders)
    next
      case not_verm: False
      show ?thesis
      proof (cases "cr_count cr = 1")
        case True
        then show ?thesis using nverm_escapes [OF assms(1) True] not_dot not_verm
          by (intro exI [of _ "LBR_NVERM (of_nat (cr_find_first cr))"]) (simp add: constructLBR_def builders)
      next
        case not_nverm: False
        show ?thesis
        proof (cases "shuftiBuildMasks (cr_not cr)")
          case None
          obtain m1 m2 where m: "truffleBuildMasks (cr_not cr) = (m1, m2)" by fastforce
          then show ?thesis
            using truf_escapes [OF assms(1) m] None not_dot not_verm not_nverm
            by (intro exI [of _ "LBR_TRUF m1 m2"]) (simp add: constructLBR_def builders)
        next
          case (Some masks)
          then obtain n lo hi where m: "shuftiBuildMasks (cr_not cr) = Some (n, lo, hi)" by (cases masks) auto
          then show ?thesis
            using shuf_escapes [OF assms(1) m] not_dot not_verm not_nverm
            by (intro exI [of _ "LBR_SHUF lo hi"]) (simp add: constructLBR_def builders)
        qed
      qed
    qed
  qed
  then show ?thesis using nfa by (auto simp: make_lbr_def lbr_ok_def)
qed

section \<open>The state between blocks\<close>

text \<open>What is unpacked does not depend on the block it is written to.\<close>

lemma unpack_any:
  assumes "repeat_type info \<noteq> REPEAT_ALWAYS" "repeatUnpack src info p ctrl = Some c1"
  shows "\<exists>c2. repeatUnpack src info p ctrl' = Some c2 \<and> (\<forall>m C. repeat_holds info (c2, m) C \<longleftrightarrow> repeat_holds info (c1, m) C)"
  using assms by (cases "repeat_type info") (auto simp: repeatUnpack_def repeat_holds_def)

definition packed_knows :: "lbr \<Rightarrow> mem \<Rightarrow> mem \<Rightarrow> nat \<Rightarrow> nat set \<Rightarrow> bool" where
  "packed_knows l packed m now T \<longleftrightarrow> (\<forall>st0. \<exists>st. lbrExpandState l (of_nat now) packed st0 = Some st
     \<and> lbr_knows l st m now T \<and> lastEscape st = 0)"

lemma compress_knows:
  assumes "lbr_ok l" "lbr_knows l st m (unat p) T" "T \<noteq> {}" "in_stream (unat p)"
  shows "packed_knows l (lbrCompressState l p st dest) m (unat p) T"
  unfolding packed_knows_def
proof
  fix st0 :: lbr_state
  let ?i = "lbr_info l"
  have ok: "repeat_ok ?i" "repeat_type ?i \<noteq> REPEAT_ALWAYS" using assms(1) by (auto simp: lbr_ok_def)
  have know: "rep.knows ?i (lbr_ctrl st, m) (unat p) T" using assms(2,3) by (simp add: lbr_knows_def)
  obtain s1 where s1: "repeat_boundary ?i dest (lbr_ctrl st, m) p = Some s1" "rep.knows ?i s1 (unat p) T"
    using rep.knows_boundary [OF ok(1) assms(4) know order_refl] by blast
  then obtain c1 where c1: "repeatUnpack (repeatPack dest ?i (lbr_ctrl st) p) ?i p (lbr_ctrl st) = Some c1" "s1 = (c1, m)"
    by (auto simp: repeat_boundary_def)
  obtain c2 where c2: "repeatUnpack (repeatPack dest ?i (lbr_ctrl st) p) ?i p (lbr_ctrl st0) = Some c2"
    "\<And>m C. repeat_holds ?i (c2, m) C \<longleftrightarrow> repeat_holds ?i (c1, m) C"
    using unpack_any [OF ok(2) c1(1)] by blast
  have "rep.knows ?i (c2, m) (unat p) T" using s1(2) c2(2) by (simp add: rep.knows_def c1(2))
  then show "\<exists>st'. lbrExpandState l (of_nat (unat p)) (lbrCompressState l p st dest) st0 = Some st'
      \<and> lbr_knows l st' m (unat p) T \<and> lastEscape st' = 0"
    using c2(1) assms(3) by (simp add: lbrExpandState_def lbrCompressState_def lbr_knows_def)
qed

section \<open>A stream\<close>

text \<open>
  What a client does with an engine over the blocks of a stream: the tops of a block are pushed between a start and an
  end, the engine is run to the end of the block, and its state is kept packed while it is alive.
\<close>

record lbr_block =
  blk_buffer :: "u8 list"
  blk_tops :: "nat list"

definition block_queue :: "u64a \<Rightarrow> lbr_block \<Rightarrow> mq" where
  "block_queue offset b =
     \<lparr>q_cur = 0,
      q_items = \<lparr>mqe_type = MQE_START, mqe_location = 0\<rparr>
        # map (\<lambda>t. \<lparr>mqe_type = MQE_TOP, mqe_location = int t\<rparr>) (blk_tops b)
        @ [\<lparr>mqe_type = MQE_END, mqe_location = int (length (blk_buffer b))\<rparr>],
      q_offset = offset, q_buffer = blk_buffer b, q_report_current = False\<rparr>"

fun lbr_stream ::
  "lbr \<Rightarrow> 'c callback \<Rightarrow> lbr_state \<Rightarrow> mem \<Rightarrow> u64a \<Rightarrow> mem option \<Rightarrow> mem \<Rightarrow> lbr_block list \<Rightarrow> 'c \<Rightarrow> 'c option" where
  "lbr_stream l cb st0 dest offset saved m [] ctx = Some ctx"
| "lbr_stream l cb st0 dest offset saved m (b # bs) ctx =
     Option.bind (case saved of None \<Rightarrow> Some (lbr_queueInitState l st0) | Some packed \<Rightarrow> lbrExpandState l offset packed st0) (\<lambda>st.
     Option.bind (lbr_Q l cb (int (length (blk_buffer b))) \<lparr>ex_state = st, ex_repeat = m, ex_queue = block_queue offset b\<rparr> ctx)
       (\<lambda>(rc, x, ctx).
     lbr_stream l cb st0 dest (offset + of_nat (length (blk_buffer b)))
       (if rc = MO_DEAD then None else Some (lbr_queueCompressState l x dest (int (length (blk_buffer b)))))
       (ex_repeat x) bs ctx))"

text \<open>The tops and the bytes of a stream, and its matches: no byte from the top to the match escapes.\<close>

fun stream_tops :: "nat \<Rightarrow> lbr_block list \<Rightarrow> nat set" where
  "stream_tops offset [] = {}"
| "stream_tops offset (b # bs) =
     (\<lambda>t. offset + t) ` set (blk_tops b) \<union> stream_tops (offset + length (blk_buffer b)) bs"

definition stream_bytes :: "lbr_block list \<Rightarrow> u8 list" where
  "stream_bytes bs = concat (map blk_buffer bs)"

definition stream_ok :: "lbr_block list \<Rightarrow> bool" where
  "stream_ok bs \<longleftrightarrow> (\<forall>b \<in> set bs. sorted (blk_tops b) \<and> (\<forall>t \<in> set (blk_tops b). t \<le> length (blk_buffer b)))"

definition escape_from :: "lbr \<Rightarrow> nat \<Rightarrow> u8 list \<Rightarrow> nat \<Rightarrow> bool" where
  "escape_from l offset bytes a \<longleftrightarrow> offset \<le> a \<and> a < offset + length bytes \<and> is_escape (lbr_class l) (bytes ! (a - offset))"

definition hit_from :: "lbr \<Rightarrow> nat \<Rightarrow> u8 list \<Rightarrow> nat set \<Rightarrow> nat \<Rightarrow> bool" where
  "hit_from l offset bytes T p \<longleftrightarrow>
     (\<exists>t \<in> T. t < p \<and> rep_match (lbr_info l) {t} p \<and> (\<forall>a. t \<le> a \<and> a < p \<longrightarrow> \<not> escape_from l offset bytes a))"

lemma lbr_hit_from: "lbr_hit l q T p \<longleftrightarrow> hit_from l (unat (q_offset q)) (q_buffer q) T p"
  by (simp add: lbr_hit_def hit_from_def escape_at_def escape_from_def)

lemma stream_tops_ge: "t \<in> stream_tops offset bs \<Longrightarrow> offset \<le> t"
  by (induction bs arbitrary: offset) (auto dest: add_leD1)

text \<open>A stream cut after its first block.\<close>

lemma escape_from_append:
  "escape_from l offset (xs @ ys) a \<longleftrightarrow> escape_from l offset xs a \<or> escape_from l (offset + length xs) ys a"
  by (auto simp: escape_from_def nth_append)

lemma hit_first_part:
  assumes "p \<le> offset + length xs" "\<forall>t \<in> R. offset + length xs \<le> t"
  shows "hit_from l offset (xs @ ys) (T \<union> R) p \<longleftrightarrow> hit_from l offset xs T p"
proof -
  have "\<not> escape_from l (offset + length xs) ys a" if "a < p" for a using that assms(1) by (simp add: escape_from_def)
  moreover have "\<not> t < p" if "t \<in> R" for t using that assms by (meson leD le_trans)
  ultimately show ?thesis unfolding hit_from_def escape_from_append by (metis UnE UnI1)
qed

lemma hit_second_part:
  assumes "offset + length xs < p" "\<forall>t \<in> T. t \<le> offset + length xs" "\<forall>t \<in> T'. t \<le> offset + length xs"
    "\<forall>t \<in> R. offset + length xs \<le> t" "\<forall>t \<in> T'. \<forall>a. t \<le> a \<longrightarrow> \<not> escape_from l offset xs a"
    "hit_from l offset xs T' p \<longleftrightarrow> hit_from l offset xs T p"
  shows "hit_from l offset (xs @ ys) (T \<union> R) p \<longleftrightarrow> hit_from l (offset + length xs) ys (T' \<union> R) p"
proof -
  let ?E = "offset + length xs" and ?i = "lbr_info l"
  let ?rest = "\<forall>a. ?E \<le> a \<and> a < p \<longrightarrow> \<not> escape_from l ?E ys a"
  have late: "\<not> escape_from l offset xs a" if "?E \<le> a" for a using that by (simp add: escape_from_def)
  have early: "\<not> escape_from l ?E ys a" if "a < ?E" for a using that by (simp add: escape_from_def)
  have R: "hit_from l offset (xs @ ys) R p \<longleftrightarrow> hit_from l ?E ys R p"
    unfolding hit_from_def escape_from_append using assms(4) late by (meson le_trans)
  have rest: "(\<forall>a. t \<le> a \<and> a < p \<longrightarrow> \<not> escape_from l ?E ys a) \<longleftrightarrow> ?rest" if "t \<le> ?E" for t
    using that early by (meson le_trans not_less)
  have T: "hit_from l offset (xs @ ys) T p \<longleftrightarrow> hit_from l offset xs T p \<and> ?rest"
  proof -
    have "(\<forall>a. t \<le> a \<and> a < p \<longrightarrow> \<not> escape_from l offset (xs @ ys) a)
        \<longleftrightarrow> (\<forall>a. t \<le> a \<and> a < p \<longrightarrow> \<not> escape_from l offset xs a) \<and> ?rest" if "t \<in> T" for t
      unfolding rest [OF assms(2) [rule_format, OF that], symmetric] escape_from_append by blast
    then show ?thesis unfolding hit_from_def by (simp cong: bex_cong) blast
  qed
  have T': "hit_from l ?E ys T' p \<longleftrightarrow> hit_from l offset xs T' p \<and> ?rest"
  proof -
    have "(\<forall>a. t \<le> a \<and> a < p \<longrightarrow> \<not> escape_from l ?E ys a)
        \<longleftrightarrow> (\<forall>a. t \<le> a \<and> a < p \<longrightarrow> \<not> escape_from l offset xs a) \<and> ?rest" if "t \<in> T'" for t
      using rest [OF assms(3) [rule_format, OF that]] assms(5) that by simp
    then show ?thesis unfolding hit_from_def by (simp cong: bex_cong) blast
  qed
  have "hit_from l o' zs (A \<union> B) p \<longleftrightarrow> hit_from l o' zs A p \<or> hit_from l o' zs B p" for o' zs A B
    by (auto simp: hit_from_def)
  then show ?thesis using R T T' assms(6) by simp
qed

section \<open>The queue of a block\<close>

lemma block_queue_simps:
  "q_end (block_queue offset b) = length (blk_tops b) + 2" "q_cur (block_queue offset b) = 0"
  "q_offset (block_queue offset b) = offset" "q_buffer (block_queue offset b) = blk_buffer b"
  "q_report_current (block_queue offset b) = False"
  by (simp_all add: block_queue_def q_end_def)

lemma block_locs:
  assumes "i < length (blk_tops b) + 2"
  shows "item_loc (block_queue offset b) i = (0 # map int (blk_tops b) @ [int (length (blk_buffer b))]) ! i"
  using assms by (auto simp: item_loc_def block_queue_def nth_Cons nth_append split: nat.split)

lemma block_queue_ok:
  assumes "sorted (blk_tops b)" "\<forall>t \<in> set (blk_tops b). t \<le> length (blk_buffer b)"
    "in_stream (unat offset + length (blk_buffer b))"
  shows "q_ok (block_queue offset b) (int (length (blk_buffer b)))"
proof -
  let ?q = "block_queue offset b" and ?n = "length (blk_tops b) + 2" and ?L = "int (length (blk_buffer b))"
  have s: "sorted (0 # map int (blk_tops b) @ [?L])" using assms(1,2) by (auto simp: sorted_append sorted_map)
  have mono: "item_loc ?q i \<le> item_loc ?q j" if "i \<le> j" "j < ?n" for i j
    using sorted_nth_mono [OF s that(1)] that block_locs [of i b] block_locs [of j b] by simp
  have first: "item_loc ?q 0 = 0" using block_locs [of 0 b] by simp
  have "item_loc ?q (?n - 1) = ?L" using block_locs [of "?n - 1" b] by (simp add: nth_append)
  then have "0 \<le> item_loc ?q i \<and> item_loc ?q i \<le> ?L" if "i < ?n" for i
    using mono [of 0 i] mono [of i "?n - 1"] first that by simp
  then show ?thesis using mono assms(3) by (simp add: q_ok_def block_queue_simps)
qed

lemma block_tops:
  assumes "\<forall>t \<in> set (blk_tops b). t \<le> length (blk_buffer b)"
  shows "tops_from (block_queue offset b) (int (length (blk_buffer b))) (Suc 0) = (\<lambda>t. unat offset + t) ` set (blk_tops b)"
proof -
  let ?q = "block_queue offset b" and ?n = "length (blk_tops b)"
  have top: "is_top (mqe_type (q_items ?q ! Suc i)) \<longleftrightarrow> i < ?n" if "i < Suc ?n" for i
    using that by (auto simp: block_queue_def nth_append is_top_def MQE_TOP_def MQE_TOP_FIRST_def MQE_END_def)
  have at: "item_at ?q (Suc i) = unat offset + blk_tops b ! i" "item_loc ?q (Suc i) = int (blk_tops b ! i)" if "i < ?n" for i
    using that block_locs [of "Suc i" b] by (simp_all add: item_at_def block_queue_simps nth_append)
  have "tops_from ?q (int (length (blk_buffer b))) (Suc 0) = {item_at ?q (Suc i) | i. i < ?n}"
  proof (intro set_eqI iffI)
    fix x assume "x \<in> tops_from ?q (int (length (blk_buffer b))) (Suc 0)"
    then obtain i where "x = item_at ?q i" "Suc 0 \<le> i" "i < ?n + 2" "is_top (mqe_type (q_items ?q ! i))"
      by (auto simp: tops_from_def block_queue_simps)
    then obtain j where "i = Suc j" "j < Suc ?n" "x = item_at ?q (Suc j)" "is_top (mqe_type (q_items ?q ! Suc j))" by (cases i) auto
    then show "x \<in> {item_at ?q (Suc i) | i. i < ?n}" using top by blast
  next
    fix x assume "x \<in> {item_at ?q (Suc i) | i. i < ?n}"
    then obtain i where i: "x = item_at ?q (Suc i)" "i < ?n" by blast
    then have "item_loc ?q (Suc i) \<le> int (length (blk_buffer b))" using assms at(2) by simp
    then show "x \<in> tops_from ?q (int (length (blk_buffer b))) (Suc 0)"
      using i top [of i] unfolding tops_from_def block_queue_simps by (intro CollectI exI [of _ "Suc i"]) auto
  qed
  also have "\<dots> = (\<lambda>t. unat offset + t) ` set (blk_tops b)" using at(1) by (force simp: set_conv_nth image_def)
  finally show ?thesis .
qed

section \<open>A block and a stream\<close>

lemma feed_goes:
  assumes "\<And>p r c. fst (cb p r c)"
  shows "fst (feed cb r ps ctx)"
proof (induction ps arbitrary: ctx)
  case (Cons p ps)
  obtain go ctx' where cb: "cb (of_nat p) r ctx = (go, ctx')" by fastforce
  then have "go" using assms [of "of_nat p" r ctx] by simp
  then show ?case using cb Cons.IH by simp
qed simp

lemma lbr_knows_le: "lbr_knows l st m now T \<Longrightarrow> t \<in> T \<Longrightarrow> t \<le> now"
  by (auto simp: lbr_knows_def rep.knows_def split: if_splits)

lemma block_inv:
  assumes "lbr_knows l st m (unat offset) T" "lastEscape st = 0"
  shows "lbr_inv l (block_queue offset b) st m (unat offset) T"
  using assms lbr_knows_le [OF assms(1)] by (auto simp: lbr_inv_def escape_ok_def escape_at_def block_queue_simps)

lemma block_used_up:
  assumes "queue_used (q\<lparr>q_report_current := False\<rparr>) endl c q'" "\<And>i. i < q_end q \<Longrightarrow> item_loc q i \<le> endl"
  shows "q_cur q' = q_end q" "q_offset q' = q_offset q"
proof -
  obtain c' where c': "c' \<le> q_end q"
    "if c' < q_end q then endl < item_loc q c' \<and> q' = q_restart (q\<lparr>q_report_current := False\<rparr>\<lparr>q_cur := c'\<rparr>) endl
     else q' = q\<lparr>q_report_current := False\<rparr>\<lparr>q_cur := c'\<rparr>"
    using assms(1) unfolding queue_used_def q_report_simps by blast
  then have "\<not> c' < q_end q" using assms(2) by (meson leD)
  then show "q_cur q' = q_end q" "q_offset q' = q_offset q" using c' by simp_all
qed

lemma block_run:
  assumes "lbr_ok l" "sorted (blk_tops b)" "\<forall>t \<in> set (blk_tops b). t \<le> length (blk_buffer b)"
    "unat (offset :: u64a) = o1" "o1 + length (blk_buffer b) = o2" "in_stream o2"
    "lbr_knows l st m o1 T" "lastEscape st = 0" "\<And>p r c. fst (cb p r c)"
  defines "H \<equiv> hit_from l o1 (blk_buffer b) (T \<union> (\<lambda>t. o1 + t) ` set (blk_tops b))"
  obtains rc x ctx' T' where
    "lbr_Q l cb (int (length (blk_buffer b))) \<lparr>ex_state = st, ex_repeat = m, ex_queue = block_queue offset b\<rparr> ctx = Some (rc, x, ctx')"
    "feed cb (lbr_report l) (in_range H o1 o2) ctx = (True, ctx')"
    "\<forall>t \<in> T'. t \<le> o2 \<and> (\<forall>a. t \<le> a \<longrightarrow> \<not> escape_from l o1 (blk_buffer b) a)"
    "\<And>p. o2 < p \<Longrightarrow> hit_from l o1 (blk_buffer b) T' p \<longleftrightarrow> H p"
    "if rc = MO_DEAD then T' = {}
     else packed_knows l (lbr_queueCompressState l x dest (int (length (blk_buffer b)))) (ex_repeat x) o2 T'"
proof -
  let ?q = "block_queue offset b" and ?L = "int (length (blk_buffer b))"
  let ?x = "\<lparr>ex_state = st, ex_repeat = m, ex_queue = ?q\<rparr>"
  have str: "in_stream (unat offset + length (blk_buffer b))" using assms(4-6) by simp
  have ok: "q_ok ?q ?L" by (rule block_queue_ok [OF assms(2,3) str])
  have locs: "item_loc ?q i \<le> ?L" if "i < q_end ?q" for i using q_okD(2) [OF ok that] by (simp add: block_queue_simps)
  have first: "item_loc ?q 0 = 0" using block_locs [of 0 b] by simp
  then have start: "item_at ?q (q_cur ?q) = o1" using assms(4) by (simp add: item_at_def block_queue_simps)
  have last: "run_end ?q ?L = o2"
    using block_locs [of "length (blk_tops b) + 1" b] assms(4,5) by (simp add: run_end_def item_at_def block_queue_simps nth_append)
  have inv: "lbr_inv l ?q st m (item_at ?q (q_cur ?q)) T"
    using block_inv [of l st m offset T] assms(4,7,8) start by simp
  have hits: "run_hits l ?q ?L T = in_range H o1 o2"
    using start last block_tops [OF assms(3)] assms(4)
    by (simp add: run_hits_def block_queue_simps H_def lbr_hit_from [abs_def])
  obtain go ctx' rc x' where run: "feed cb (lbr_report l) (in_range H o1 o2) ctx = (go, ctx')"
    "lbr_Q l cb ?L ?x ctx = Some (rc, x', ctx')"
    "if go then run_done l (?q\<lparr>q_report_current := False\<rparr>) ?L (Suc (q_cur ?q)) T rc x' else rc = MO_HALT_MATCHING"
    using lbr_Q_run [OF assms(1) ok, of ?x T cb ctx] inv first hits by (auto simp: block_queue_simps)
  have go: go using feed_goes [of cb, OF assms(9)] run(1) by (metis fst_conv)
  then obtain T1 where T1: "lbr_inv l ?q (ex_state x') (ex_repeat x') o2 T1"
    "\<And>p. o2 < p \<Longrightarrow> lbr_hit l ?q T1 p \<longleftrightarrow> lbr_hit l ?q (T \<union> tops_from ?q ?L (Suc 0)) p"
    "rc = MO_DEAD \<Longrightarrow> \<forall>p > o2. \<not> rep_match (lbr_info l) T1 p"
    "rc \<noteq> MO_DEAD \<and> q_cur (ex_queue x') = q_end ?q \<longrightarrow> T1 \<noteq> {}"
    "queue_used (?q\<lparr>q_report_current := False\<rparr>) ?L (Suc 0) (ex_queue x')"
    using run(3) last unfolding run_done_def by (auto simp: block_queue_simps)
  have fin: "q_cur (ex_queue x') = q_end ?q" "q_offset (ex_queue x') = offset"
    using block_used_up [OF T1(5) locs] by (simp_all add: block_queue_simps)
  define T' where "T' = (if rc = MO_DEAD then {} else T1)"
  have esc: "escape_at l ?q a \<longleftrightarrow> escape_from l o1 (blk_buffer b) a" for a
    using assms(4) by (simp add: escape_at_def escape_from_def block_queue_simps)
  have late: "\<not> escape_from l o1 (blk_buffer b) a" if "o2 \<le> a" for a using that assms(5) by (simp add: escape_from_def)
  have clean: "t \<le> o2" "\<And>a. t \<le> a \<Longrightarrow> \<not> escape_from l o1 (blk_buffer b) a" if "t \<in> T1" for t
    using T1(1) that late by (auto simp: lbr_inv_def esc not_less [symmetric])
  have hit: "hit_from l o1 (blk_buffer b) T1 p \<longleftrightarrow> H p" if "o2 < p" for p
    using T1(2) [OF that] block_tops [OF assms(3)] assms(4) by (simp add: lbr_hit_from block_queue_simps H_def)
  define w where "w = offset + word_of_int ?L"
  have w: "unat w = o2" using word_of_loc [of ?L offset] str assms(4,5) by (simp add: w_def)
  show thesis
  proof (rule that [OF run(2), of T'])
    show "feed cb (lbr_report l) (in_range H o1 o2) ctx = (True, ctx')" using run(1) go by simp
    show "\<forall>t \<in> T'. t \<le> o2 \<and> (\<forall>a. t \<le> a \<longrightarrow> \<not> escape_from l o1 (blk_buffer b) a)" using clean by (simp add: T'_def)
    show "hit_from l o1 (blk_buffer b) T' p \<longleftrightarrow> H p" if "o2 < p" for p
    proof (cases "rc = MO_DEAD")
      case True
      have "\<not> hit_from l o1 (blk_buffer b) T1 p" using T1(3) [OF True] that by (auto simp: hit_from_def rep_match_def)
      moreover have "\<not> hit_from l o1 (blk_buffer b) T' p" using True by (simp add: T'_def hit_from_def)
      ultimately show ?thesis using hit [OF that] by blast
    next
      case False
      then show ?thesis using hit [OF that] by (simp add: T'_def)
    qed
    show "if rc = MO_DEAD then T' = {}
      else packed_knows l (lbr_queueCompressState l x' dest ?L) (ex_repeat x') o2 T'"
    proof (cases "rc = MO_DEAD")
      case False
      have "T1 \<noteq> {}" using T1(4) False fin by simp
      moreover have "lbr_knows l (ex_state x') (ex_repeat x') (unat w) T1" using T1(1) w by (simp add: lbr_inv_def)
      ultimately have "packed_knows l (lbrCompressState l w (ex_state x') dest) (ex_repeat x') (unat w) T1"
        using compress_knows [OF assms(1), of "ex_state x'" "ex_repeat x'" w T1 dest] assms(6) w by simp
      then show ?thesis using False fin w by (simp add: T'_def lbr_queueCompressState_def w_def)
    qed (simp add: T'_def)
  qed
qed

text \<open>The state kept between blocks knows the tops that still count.\<close>

definition saved_knows :: "lbr \<Rightarrow> mem option \<Rightarrow> mem \<Rightarrow> nat \<Rightarrow> nat set \<Rightarrow> bool" where
  "saved_knows l saved m now T \<longleftrightarrow> (case saved of None \<Rightarrow> T = {} | Some packed \<Rightarrow> packed_knows l packed m now T)"

lemma saved_state:
  assumes "lbr_ok l" "saved_knows l saved m (unat offset) T"
  shows "\<exists>st. (case saved of None \<Rightarrow> Some (lbr_queueInitState l st0) | Some packed \<Rightarrow> lbrExpandState l offset packed st0) = Some st
    \<and> lbr_knows l st m (unat offset) T \<and> lastEscape st = 0"
proof (cases saved)
  case None
  then show ?thesis
    using assms clearRepeat_dead [of "lbr_info l" "st0\<lparr>lastEscape := 0\<rparr>"]
    by (simp add: saved_knows_def lbr_knows_def lbr_queueInitState_def lbr_ok_def)
next
  case (Some packed)
  then show ?thesis using assms(2) by (simp add: saved_knows_def packed_knows_def)
qed

lemma lbr_stream_hits:
  assumes "lbr_ok l" "stream_ok bs" "in_stream (unat offset + length (stream_bytes bs))"
    "saved_knows l saved m (unat offset) T" "\<forall>t \<in> T. t \<le> unat offset" "\<And>p r c. fst (cb p r c)"
  shows "lbr_stream l cb st0 dest offset saved m bs ctx
    = Some (snd (feed cb (lbr_report l)
        (in_range (hit_from l (unat offset) (stream_bytes bs) (T \<union> stream_tops (unat offset) bs))
           (unat offset) (unat offset + length (stream_bytes bs))) ctx))"
  using assms(2-5)
proof (induction bs arbitrary: offset saved m T ctx)
  case Nil
  then show ?case by (simp add: stream_bytes_def in_range_def)
next
  case (Cons b bs)
  define o1 where "o1 = unat offset"
  define o2 where "o2 = o1 + length (blk_buffer b)"
  define n where "n = o2 + length (stream_bytes bs)"
  let ?B = "(\<lambda>t. o1 + t) ` set (blk_tops b)" and ?R = "stream_tops o2 bs"
  have bytes: "stream_bytes (b # bs) = blk_buffer b @ stream_bytes bs" by (simp add: stream_bytes_def)
  have n: "unat offset + length (stream_bytes (b # bs)) = n" by (simp add: bytes n_def o2_def o1_def)
  have str: "in_stream n" "in_stream o2" using Cons.prems(2) n in_stream_le [of n o2] by (simp_all add: n_def)
  have blk: "sorted (blk_tops b)" "\<forall>t \<in> set (blk_tops b). t \<le> length (blk_buffer b)" "stream_ok bs"
    using Cons.prems(1) by (auto simp: stream_ok_def)
  obtain st where st: "(case saved of None \<Rightarrow> Some (lbr_queueInitState l st0) | Some packed \<Rightarrow> lbrExpandState l offset packed st0) = Some st"
    "lbr_knows l st m o1 T" "lastEscape st = 0"
    using saved_state [OF assms(1) Cons.prems(3), of st0] by (auto simp: o1_def)
  obtain rc x ctx' T' where run:
    "lbr_Q l cb (int (length (blk_buffer b))) \<lparr>ex_state = st, ex_repeat = m, ex_queue = block_queue offset b\<rparr> ctx = Some (rc, x, ctx')"
    "feed cb (lbr_report l) (in_range (hit_from l o1 (blk_buffer b) (T \<union> ?B)) o1 o2) ctx = (True, ctx')"
    "\<forall>t \<in> T'. t \<le> o2 \<and> (\<forall>a. t \<le> a \<longrightarrow> \<not> escape_from l o1 (blk_buffer b) a)"
    "\<And>p. o2 < p \<Longrightarrow> hit_from l o1 (blk_buffer b) T' p \<longleftrightarrow> hit_from l o1 (blk_buffer b) (T \<union> ?B) p"
    "if rc = MO_DEAD then T' = {}
     else packed_knows l (lbr_queueCompressState l x dest (int (length (blk_buffer b)))) (ex_repeat x) o2 T'"
    by (rule block_run [OF assms(1) blk(1,2) o1_def [symmetric] o2_def [symmetric] str(2) st(2,3) assms(6), where ctx = ctx and dest = dest])
      (rule that; assumption)
  define off where "off = offset + of_nat (length (blk_buffer b))"
  have off: "unat off = o2"
    using word_of_loc [of "int (length (blk_buffer b))" offset] str(2) by (simp add: off_def o1_def o2_def)
  define keep where "keep = (if rc = MO_DEAD then None else Some (lbr_queueCompressState l x dest (int (length (blk_buffer b)))))"
  have keep: "saved_knows l keep (ex_repeat x) (unat off) T'" using run(5) off by (simp add: keep_def saved_knows_def split: if_splits)
  have step: "lbr_stream l cb st0 dest offset saved m (b # bs) ctx = lbr_stream l cb st0 dest off keep (ex_repeat x) bs ctx'"
    by (simp add: st(1) run(1) off_def keep_def)
  have rest: "lbr_stream l cb st0 dest off keep (ex_repeat x) bs ctx'
      = Some (snd (feed cb (lbr_report l) (in_range (hit_from l o2 (stream_bytes bs) (T' \<union> ?R)) o2 n) ctx'))"
    using Cons.IH [OF blk(3) _ keep, of ctx'] off str(1) run(3) by (simp add: n_def)
  let ?H = "hit_from l o1 (stream_bytes (b # bs)) (T \<union> stream_tops o1 (b # bs))"
  have H: "?H = hit_from l o1 (blk_buffer b @ stream_bytes bs) ((T \<union> ?B) \<union> ?R)"
    by (simp add: bytes o2_def Un_assoc)
  have later: "\<forall>t \<in> ?R. o1 + length (blk_buffer b) \<le> t" using stream_tops_ge by (auto simp: o2_def)
  have early: "\<forall>t \<in> T \<union> ?B. t \<le> o1 + length (blk_buffer b)"
    using Cons.prems(4) blk(2) by (auto simp: o1_def intro: order.trans)
  have one: "in_range ?H o1 o2 = in_range (hit_from l o1 (blk_buffer b) (T \<union> ?B)) o1 o2"
    unfolding H by (rule in_range_cong) (use hit_first_part later in \<open>simp add: o2_def\<close>)
  have two: "in_range ?H o2 n = in_range (hit_from l o2 (stream_bytes bs) (T' \<union> ?R)) o2 n"
    unfolding H
  proof (rule in_range_cong)
    fix p assume p: "o2 < p"
    show "hit_from l o1 (blk_buffer b @ stream_bytes bs) ((T \<union> ?B) \<union> ?R) p \<longleftrightarrow> hit_from l o2 (stream_bytes bs) (T' \<union> ?R) p"
      using hit_second_part [of o1 "blk_buffer b" p "T \<union> ?B" T' ?R l "stream_bytes bs"] p early later run(3) run(4) [OF p]
      by (simp add: o2_def)
  qed
  have "in_range ?H o1 n = in_range ?H o1 o2 @ in_range ?H o2 n" by (rule in_range_split) (simp_all add: o2_def n_def)
  then have "feed cb (lbr_report l) (in_range ?H o1 n) ctx
      = feed cb (lbr_report l) (in_range (hit_from l o2 (stream_bytes bs) (T' \<union> ?R)) o2 n) ctx'"
    using one two run(2) by (simp add: feed_append)
  then show ?case using step rest n by (simp add: o1_def)
qed

text \<open>The matches of a repeat \<open>{mn,mx}\<close> of a class after the tops \<open>T\<close> in a text.\<close>

definition class_match :: "CharReach \<Rightarrow> depth \<Rightarrow> depth \<Rightarrow> u8 list \<Rightarrow> nat set \<Rightarrow> nat \<Rightarrow> bool" where
  "class_match cr mn mx bytes T p \<longleftrightarrow>
     (\<exists>t \<in> T. t < p \<and> unat (dval mn) \<le> p - t \<and> (is_infinite mx \<or> p - t \<le> unat (dval mx))
        \<and> (\<forall>a \<in> {t..<p}. bytes ! a \<in> chars cr))"

lemma engine_matches:
  assumes "bounds_accepted mn mx" "\<forall>b. is_escape (lbr_class l) b \<longleftrightarrow> b \<notin> chars cr" "repeatMin (lbr_info l) = dval mn"
    "repeatMax (lbr_info l) = (if is_infinite mx then REPEAT_INF else dval mx)" "p \<le> length bytes"
  shows "hit_from l 0 bytes T p \<longleftrightarrow> class_match cr mn mx bytes T p"
proof -
  have "dval mx \<noteq> REPEAT_INF" if "\<not> is_infinite mx"
    using assms(1) that by (auto simp: bounds_accepted_def REPEAT_INF_def)
  then have "rep_match (lbr_info l) {t} p \<longleftrightarrow> unat (dval mn) \<le> p - t \<and> (is_infinite mx \<or> p - t \<le> unat (dval mx))"
    if "t < p" for t
    using assms(3,4) that by (auto simp: rep_match_def)
  moreover have "(\<forall>a. t \<le> a \<and> a < p \<longrightarrow> \<not> escape_from l 0 bytes a) \<longleftrightarrow> (\<forall>a \<in> {t..<p}. bytes ! a \<in> chars cr)" for t
    using assms(2,5) by (auto simp: escape_from_def)
  ultimately show ?thesis unfolding hit_from_def class_match_def by (meson atLeastLessThan_iff)
qed


definition stream_example :: "lbr_block list" where
  "stream_example = [\<lparr>blk_buffer = [97, 97], blk_tops = [0]\<rparr>, \<lparr>blk_buffer = [97, 98, 97], blk_tops = [0, 2]\<rparr>]"

lemma stream_example_matches:
  "filter (class_match (cr_char 97) (Depth 2) (Depth 3) (stream_bytes stream_example) (stream_tops 0 stream_example)) [1..<6] = [2, 3]"
proof -
  have T: "stream_tops 0 stream_example = {0, 2, 4}" "stream_bytes stream_example = [97, 97, 97, 98, 97]"
    by (auto simp: stream_example_def stream_bytes_def)
  have sets: "{0..<2 :: nat} = {0, 1}" "{0..<3 :: nat} = {0, 1, 2}" "{2..<4 :: nat} = {2, 3}" "{2..<5 :: nat} = {2, 3, 4}"
    by auto
  have "[1..<6] = [1, 2, 3, 4, 5 :: nat]" by (simp add: upt_rec)
  then show ?thesis
    unfolding T class_match_def by (simp add: sets cr_range_simps is_infinite_def val_infinity_def)
qed


end
