(* ===== verification/RepeatPeriod.thy ===== *)
theory RepeatPeriod
  imports CharReach
begin

text \<open>
  The distances between triggers of a repeat, the rest of \<open>src/nfa/repeatcompile.cpp\<close>: how soon one trigger can end
  after another, and whether a byte outside the class of the repeat must come in between.
  A trigger is a list of classes; positions are naturals.
\<close>

section \<open>The code\<close>

text \<open>The callers of \<open>matches\<close> give it ranges of one length; a longer first range would be read past the end.\<close>

fun ranges_match :: "CharReach list \<Rightarrow> CharReach list \<Rightarrow> bool" where
  "ranges_match [] bs = True"
| "ranges_match (a # as) [] = False"
| "ranges_match (a # as) (b # bs) = (if cr_none (cr_and a b) then False else ranges_match as bs)"

definition overlap_at :: "CharReach list \<Rightarrow> CharReach list \<Rightarrow> nat \<Rightarrow> bool" where
  "overlap_at a b i =
     (let overlap_len = length b - i
      in if overlap_len \<le> length a
         then ranges_match (drop (length a - overlap_len) a) (take (length b - i) b)
         else ranges_match a (take (length a) (drop (length b - i - length a) b)))"

function min_dist_loop :: "CharReach list \<Rightarrow> CharReach list \<Rightarrow> nat \<Rightarrow> nat" where
  "min_dist_loop a b i =
     (if i < length b then if overlap_at a b i then i else min_dist_loop a b (i + 1) else length b)"
  by pat_completeness auto

termination
  by (relation "measure (\<lambda>(_, b, i). length b - i)") auto

declare min_dist_loop.simps [simp del]

definition minDistAfterA :: "CharReach list \<Rightarrow> CharReach list \<Rightarrow> u32" where
  "minDistAfterA a b = of_nat (min_dist_loop a b 1)"

function reset_loop :: "CharReach list \<Rightarrow> CharReach \<Rightarrow> nat \<Rightarrow> nat" where
  "reset_loop trig cr i =
     (if i < length trig
      then if cr_none (cr_and (trig ! (length trig - i - 1)) cr) then i else reset_loop trig cr (i + 1)
      else i)"
  by pat_completeness auto

termination
  by (relation "measure (\<lambda>(trig, _, i). length trig - i)") auto

declare reset_loop.simps [simp del]

definition minResetDistToEnd :: "CharReach list list \<Rightarrow> CharReach \<Rightarrow> nat list" where
  "minResetDistToEnd triggers cr = map (\<lambda>trig. reset_loop trig cr 0) triggers"

definition minPeriod_of :: "CharReach list list \<Rightarrow> CharReach \<Rightarrow> u32 \<times> bool" where
  "minPeriod_of triggers cr =
     (let min_reset_dist = minResetDistToEnd triggers cr
      in foldl (\<lambda>r trigger.
           foldl (\<lambda>(rv, can_reset) j.
             let min_ext = minDistAfterA trigger (triggers ! j)
             in (min rv min_ext, if unat min_ext \<le> min_reset_dist ! j then False else can_reset))
             r [0..<length triggers])
           (- 1, True) triggers)"

section \<open>Triggers in a text\<close>

text \<open>A trigger ends at a position of the text when its classes hold the bytes before it.\<close>

definition ends_at :: "CharReach list \<Rightarrow> (nat \<Rightarrow> u8) \<Rightarrow> nat \<Rightarrow> bool" where
  "ends_at t w p \<longleftrightarrow> length t \<le> p \<and> (\<forall>k < length t. w (p - length t + k) \<in> chars (t ! k))"

definition trigger_ok :: "CharReach list \<Rightarrow> bool" where
  "trigger_ok t \<longleftrightarrow> t \<noteq> [] \<and> length t < 2 ^ 32 \<and> (\<forall>c \<in> set t. cr_inv c \<and> chars c \<noteq> {})"

lemma trigger_okD:
  assumes "trigger_ok t"
  shows "0 < length t" "length t < 2 ^ 32" "k < length t \<Longrightarrow> cr_inv (t ! k)" "k < length t \<Longrightarrow> chars (t ! k) \<noteq> {}"
  using assms by (auto simp: trigger_ok_def)

lemma ranges_match_iff:
  assumes "length as = length bs" "\<forall>c \<in> set as. cr_inv c" "\<forall>c \<in> set bs. cr_inv c"
  shows "ranges_match as bs \<longleftrightarrow> (\<forall>k < length as. chars (as ! k) \<inter> chars (bs ! k) \<noteq> {})"
  using assms
  by (induction as bs rule: ranges_match.induct) (auto simp: cr_none_iff cr_inv_intros chars_simps All_less_Suc2)

text \<open>The positions \<open>k\<close> of the first trigger and \<open>k'\<close> of the second one fall on one byte.\<close>

lemma overlap_at_iff:
  assumes "trigger_ok a" "trigger_ok b" "0 < i" "i < length b"
  shows "overlap_at a b i \<longleftrightarrow> (\<forall>k k'. k < length a \<and> k' < length b \<and> k + length b = k' + length a + i
    \<longrightarrow> chars (a ! k) \<inter> chars (b ! k') \<noteq> {})"
proof (cases "length b - i \<le> length a")
  case True
  let ?d = "length a - (length b - i)"
  have "overlap_at a b i \<longleftrightarrow> (\<forall>k < length b - i. chars (a ! (?d + k)) \<inter> chars (b ! k) \<noteq> {})"
    using True assms ranges_match_iff [of "drop ?d a" "take (length b - i) b"]
    by (auto simp: overlap_at_def trigger_ok_def dest: in_set_dropD in_set_takeD)
  also have "\<dots> \<longleftrightarrow> (\<forall>k k'. k < length a \<and> k' < length b \<and> k + length b = k' + length a + i
      \<longrightarrow> chars (a ! k) \<inter> chars (b ! k') \<noteq> {})"
  proof (intro iffI allI impI)
    fix k k' assume *: "\<forall>k < length b - i. chars (a ! (?d + k)) \<inter> chars (b ! k) \<noteq> {}"
      "k < length a \<and> k' < length b \<and> k + length b = k' + length a + i"
    then have "k' < length b - i" "k = ?d + k'" using True assms(4) by linarith+
    then show "chars (a ! k) \<inter> chars (b ! k') \<noteq> {}" using *(1) by blast
  next
    fix k assume *: "\<forall>k k'. k < length a \<and> k' < length b \<and> k + length b = k' + length a + i
      \<longrightarrow> chars (a ! k) \<inter> chars (b ! k') \<noteq> {}" "k < length b - i"
    have "?d + k < length a \<and> k < length b \<and> ?d + k + length b = k + length a + i" using *(2) True by linarith
    then show "chars (a ! (?d + k)) \<inter> chars (b ! k) \<noteq> {}" using *(1) by blast
  qed
  finally show ?thesis .
next
  case False
  let ?d = "length b - i - length a"
  have "overlap_at a b i \<longleftrightarrow> (\<forall>k < length a. chars (a ! k) \<inter> chars (b ! (?d + k)) \<noteq> {})"
    using False assms ranges_match_iff [of a "take (length a) (drop ?d b)"]
    by (auto simp: overlap_at_def trigger_ok_def dest: in_set_dropD in_set_takeD)
  also have "\<dots> \<longleftrightarrow> (\<forall>k k'. k < length a \<and> k' < length b \<and> k + length b = k' + length a + i
      \<longrightarrow> chars (a ! k) \<inter> chars (b ! k') \<noteq> {})"
  proof (intro iffI allI impI)
    fix k k' assume *: "\<forall>k < length a. chars (a ! k) \<inter> chars (b ! (?d + k)) \<noteq> {}"
      "k < length a \<and> k' < length b \<and> k + length b = k' + length a + i"
    then have "k' = ?d + k" using False by linarith
    then show "chars (a ! k) \<inter> chars (b ! k') \<noteq> {}" using * by blast
  next
    fix k assume *: "\<forall>k k'. k < length a \<and> k' < length b \<and> k + length b = k' + length a + i
      \<longrightarrow> chars (a ! k) \<inter> chars (b ! k') \<noteq> {}" "k < length a"
    have "k < length a \<and> ?d + k < length b \<and> k + length b = ?d + k + length a + i" using *(2) False assms(3) by linarith
    then show "chars (a ! k) \<inter> chars (b ! (?d + k)) \<noteq> {}" using *(1) by blast
  qed
  finally show ?thesis .
qed

text \<open>One trigger can end \<open>d\<close> bytes after another, with bytes of \<open>C\<close> in between.\<close>

definition follows :: "u8 set \<Rightarrow> CharReach list \<Rightarrow> CharReach list \<Rightarrow> nat \<Rightarrow> bool" where
  "follows C a b d \<longleftrightarrow> (\<exists>w p. ends_at a w p \<and> ends_at b w (p + d) \<and> (\<forall>x. p \<le> x \<and> x < p + d \<longrightarrow> w x \<in> C))"

definition overlap_ok :: "CharReach list \<Rightarrow> CharReach list \<Rightarrow> nat \<Rightarrow> bool" where
  "overlap_ok a b d \<longleftrightarrow> (\<forall>k k'. k < length a \<and> k' < length b \<and> k + length b = k' + length a + d
     \<longrightarrow> chars (a ! k) \<inter> chars (b ! k') \<noteq> {})"

definition tail_ok :: "u8 set \<Rightarrow> CharReach list \<Rightarrow> nat \<Rightarrow> bool" where
  "tail_ok C b d \<longleftrightarrow> (\<forall>k' < length b. length b \<le> k' + d \<longrightarrow> chars (b ! k') \<inter> C \<noteq> {})"

lemma overlap_ok_length: "length b \<le> d \<Longrightarrow> overlap_ok a b d"
  by (auto simp: overlap_ok_def)

lemma follows_overlap:
  assumes "follows C a b d"
  shows "overlap_ok a b d" "tail_ok C b d"
proof -
  obtain w p where w: "ends_at a w p" "ends_at b w (p + d)" "\<And>x. p \<le> x \<Longrightarrow> x < p + d \<Longrightarrow> w x \<in> C"
    using assms by (auto simp: follows_def)
  note E = w(1,2) [unfolded ends_at_def]
  show "overlap_ok a b d"
    unfolding overlap_ok_def
  proof (intro allI impI)
    fix k k' assume k: "k < length a \<and> k' < length b \<and> k + length b = k' + length a + d"
    then have "p - length a + k = p + d - length b + k'" using E by linarith
    then show "chars (a ! k) \<inter> chars (b ! k') \<noteq> {}" using E k by fastforce
  qed
  show "tail_ok C b d"
    unfolding tail_ok_def
  proof (intro allI impI)
    fix k' assume k: "k' < length b" "length b \<le> k' + d"
    let ?x = "p + d - length b + k'"
    have "p \<le> ?x" "?x < p + d" using k E by linarith+
    then have "w ?x \<in> C" by (rule w(3))
    then show "chars (b ! k') \<inter> C \<noteq> {}" using E k(1) by blast
  qed
qed

lemma overlap_follows:
  assumes "overlap_ok a b d" "tail_ok C b d" "d \<le> length b" "trigger_ok a" "trigger_ok b"
  shows "follows C a b d"
proof -
  define p where "p = length a + length b"
  define good where "good x c \<longleftrightarrow> (\<forall>k < length a. x = p - length a + k \<longrightarrow> c \<in> chars (a ! k))
    \<and> (\<forall>k' < length b. x = p + d - length b + k' \<longrightarrow> c \<in> chars (b ! k')) \<and> (p \<le> x \<and> x < p + d \<longrightarrow> c \<in> C)" for x :: nat and c
  have "\<exists>c. good x c" for x
  proof (cases "length a + d \<le> x \<and> x < p + d")
    case False
    show ?thesis
    proof (cases "length b \<le> x \<and> x < p")
      case True
      then have "x - length b < length a" by (auto simp: p_def)
      then have "chars (a ! (x - length b)) \<noteq> {}" by (rule trigger_okD(4) [OF assms(4)])
      then obtain c where "c \<in> chars (a ! (x - length b))" by blast
      then have "good x c" using False True by (auto simp: good_def p_def)
      then show ?thesis by blast
    next
      case no: False
      have "good x c" for c using False no assms(3) by (auto simp: good_def p_def)
      then show ?thesis by blast
    qed
  next
    case True
    define k' where "k' = x - (length a + d)"
    have k': "k' < length b" "x = length a + d + k'" using True by (auto simp: k'_def p_def)
    show ?thesis
    proof (cases "x < p")
      case True
      show ?thesis
      proof (cases "length b \<le> x")
        case inside: True
        define k where "k = x - length b"
        have k: "k < length a" "x = length b + k" using inside True by (auto simp: k_def p_def)
        have "chars (a ! k) \<inter> chars (b ! k') \<noteq> {}" using assms(1) k k' by (auto simp: overlap_ok_def)
        then obtain c where "c \<in> chars (a ! k)" "c \<in> chars (b ! k')" by blast
        then have "good x c" using k k' True by (auto simp: good_def p_def)
        then show ?thesis by blast
      next
        case outside: False
        obtain c where "c \<in> chars (b ! k')" using trigger_okD(4) [OF assms(5) k'(1)] by blast
        then have "good x c" using outside k' True by (auto simp: good_def p_def)
        then show ?thesis by blast
      qed
    next
      case late: False
      have "length b \<le> k' + d" using late k' by (simp add: p_def)
      then obtain c where "c \<in> chars (b ! k')" "c \<in> C" using assms(2) k'(1) by (auto simp: tail_ok_def)
      then have "good x c" using late k' by (auto simp: good_def p_def)
      then show ?thesis by blast
    qed
  qed
  then obtain w where w: "\<And>x. good x (w x)" by metis
  have "ends_at a w p" using w by (auto simp: ends_at_def good_def p_def)
  moreover have "ends_at b w (p + d)" using w by (auto simp: ends_at_def good_def p_def)
  moreover have "w x \<in> C" if "p \<le> x" "x < p + d" for x using w that by (auto simp: good_def)
  ultimately show ?thesis by (auto simp: follows_def)
qed

section \<open>What the loops find\<close>

lemma min_dist_loop_spec:
  assumes "0 < i" "i \<le> length b" "trigger_ok a" "trigger_ok b"
  shows "i \<le> min_dist_loop a b i" "min_dist_loop a b i \<le> length b" "overlap_ok a b (min_dist_loop a b i)"
    "i \<le> d \<Longrightarrow> d < min_dist_loop a b i \<Longrightarrow> \<not> overlap_ok a b d"
proof -
  have "i \<le> min_dist_loop a b i \<and> min_dist_loop a b i \<le> length b \<and> overlap_ok a b (min_dist_loop a b i)
      \<and> (\<forall>d. i \<le> d \<and> d < min_dist_loop a b i \<longrightarrow> \<not> overlap_ok a b d)"
    using assms
  proof (induction a b i rule: min_dist_loop.induct)
    case (1 a b i)
    note unfold = min_dist_loop.simps [of a b i]
    show ?case
    proof (cases "i < length b")
      case True
      have ok: "overlap_at a b i \<longleftrightarrow> overlap_ok a b i"
        using overlap_at_iff [of a b i] "1.prems" True by (simp add: overlap_ok_def)
      show ?thesis
      proof (cases "overlap_at a b i")
        case False
        then have loop: "min_dist_loop a b i = min_dist_loop a b (i + 1)" using unfold True by simp
        have IH: "i + 1 \<le> min_dist_loop a b (i + 1) \<and> min_dist_loop a b (i + 1) \<le> length b
          \<and> overlap_ok a b (min_dist_loop a b (i + 1))
          \<and> (\<forall>d. i + 1 \<le> d \<and> d < min_dist_loop a b (i + 1) \<longrightarrow> \<not> overlap_ok a b d)"
          using "1.IH" [OF True False] "1.prems" True by simp
        have "\<not> overlap_ok a b d" if "i \<le> d" "d < min_dist_loop a b (i + 1)" for d
          using IH ok False that by (cases "d = i") auto
        then show ?thesis unfolding loop using IH by auto
      qed (use unfold True ok in auto)
    qed (use 1 unfold overlap_ok_length in auto)
  qed
  then show "i \<le> min_dist_loop a b i" "min_dist_loop a b i \<le> length b" "overlap_ok a b (min_dist_loop a b i)"
    "i \<le> d \<Longrightarrow> d < min_dist_loop a b i \<Longrightarrow> \<not> overlap_ok a b d" by blast+
qed

lemma min_dist_follows:
  assumes "trigger_ok a" "trigger_ok b"
  shows "unat (minDistAfterA a b) = min_dist_loop a b 1" "0 < min_dist_loop a b 1" "min_dist_loop a b 1 \<le> length b"
    "follows UNIV a b (min_dist_loop a b 1)" "0 < d \<Longrightarrow> follows C a b d \<Longrightarrow> min_dist_loop a b 1 \<le> d"
proof -
  have "1 \<le> length b" using trigger_okD(1) [OF assms(2)] by linarith
  note L = min_dist_loop_spec [OF zero_less_one this assms]
  show "0 < min_dist_loop a b 1" "min_dist_loop a b 1 \<le> length b" using L(1,2) by simp_all
  have "min_dist_loop a b 1 < 2 ^ LENGTH(32)" using L(2) trigger_okD(2) [OF assms(2)] by simp
  then show "unat (minDistAfterA a b) = min_dist_loop a b 1"
    unfolding minDistAfterA_def by (simp only: unat_of_nat mod_less)
  have "tail_ok UNIV b (min_dist_loop a b 1)" using trigger_okD(4) [OF assms(2)] by (auto simp: tail_ok_def)
  then show "follows UNIV a b (min_dist_loop a b 1)" using overlap_follows [OF L(3) _ L(2) assms] by blast
  show "min_dist_loop a b 1 \<le> d" if "0 < d" "follows C a b d"
    using L(4) [of d] follows_overlap(1) [OF that(2)] that(1) by (intro leI notI) simp
qed

lemma reset_loop_spec:
  assumes "trigger_ok b" "cr_inv cr" "i \<le> length b"
  shows "i \<le> reset_loop b cr i \<and> reset_loop b cr i \<le> length b
    \<and> (\<forall>j. i \<le> j \<and> j < reset_loop b cr i \<longrightarrow> chars (b ! (length b - j - 1)) \<inter> chars cr \<noteq> {})
    \<and> (reset_loop b cr i < length b \<longrightarrow> chars (b ! (length b - reset_loop b cr i - 1)) \<inter> chars cr = {})"
  using assms
proof (induction b cr i rule: reset_loop.induct)
  case (1 b cr i)
  note unfold = reset_loop.simps [of b cr i]
  show ?case
  proof (cases "i < length b")
    case True
    have none: "cr_none (cr_and (b ! (length b - i - 1)) cr) \<longleftrightarrow> chars (b ! (length b - i - 1)) \<inter> chars cr = {}"
      using trigger_okD(3) [OF "1.prems"(1), of "length b - i - 1"] "1.prems"(2) True by (simp add: cr_none_iff cr_inv_intros chars_simps)
    show ?thesis
    proof (cases "cr_none (cr_and (b ! (length b - i - 1)) cr)")
      case False
      then have loop: "reset_loop b cr i = reset_loop b cr (i + 1)" using unfold True by simp
      have IH: "i + 1 \<le> reset_loop b cr (i + 1) \<and> reset_loop b cr (i + 1) \<le> length b
        \<and> (\<forall>j. i + 1 \<le> j \<and> j < reset_loop b cr (i + 1) \<longrightarrow> chars (b ! (length b - j - 1)) \<inter> chars cr \<noteq> {})
        \<and> (reset_loop b cr (i + 1) < length b \<longrightarrow> chars (b ! (length b - reset_loop b cr (i + 1) - 1)) \<inter> chars cr = {})"
        using "1.IH" [OF True False] "1.prems" True by simp
      have "chars (b ! (length b - j - 1)) \<inter> chars cr \<noteq> {}" if "i \<le> j" "j < reset_loop b cr (i + 1)" for j
        using IH none False that by (cases "j = i") auto
      then show ?thesis unfolding loop using IH by auto
    qed (use unfold True none in auto)
  qed (use 1 unfold in auto)
qed

text \<open>The distance to the last byte that must be outside the class, as far as the tail of the trigger fits the class.\<close>

lemma reset_tail:
  assumes "trigger_ok b" "cr_inv cr" "d \<le> length b"
  shows "tail_ok (chars cr) b d \<longleftrightarrow> d \<le> reset_loop b cr 0"
proof
  note R = reset_loop_spec [OF assms(1,2), of 0]
  assume tail: "tail_ok (chars cr) b d"
  show "d \<le> reset_loop b cr 0"
  proof (rule ccontr)
    assume no: "\<not> d \<le> reset_loop b cr 0"
    then have "length b - reset_loop b cr 0 - 1 < length b \<and> length b \<le> length b - reset_loop b cr 0 - 1 + d"
      using assms(3) by linarith
    then have "chars (b ! (length b - reset_loop b cr 0 - 1)) \<inter> chars cr \<noteq> {}" using tail by (simp add: tail_ok_def)
    then show False using R no assms(3) by auto
  qed
next
  note R = reset_loop_spec [OF assms(1,2), of 0]
  assume d: "d \<le> reset_loop b cr 0"
  show "tail_ok (chars cr) b d"
    unfolding tail_ok_def
  proof (intro allI impI)
    fix k' assume k: "k' < length b" "length b \<le> k' + d"
    then have "length b - k' - 1 < reset_loop b cr 0" "length b - (length b - k' - 1) - 1 = k'" using d by linarith+
    then show "chars (b ! k') \<inter> chars cr \<noteq> {}" using R by (metis le0)
  qed
qed

section \<open>The least period\<close>

lemma foldl_product:
  "foldl (\<lambda>r t. foldl (h t) r js) r ts = foldl (\<lambda>r (t, j). h t r j) r (List.product ts js)"
  by (induction ts arbitrary: r) (simp_all add: foldl_map)

lemma foldl_min_le: "a \<le> foldl min m xs \<longleftrightarrow> a \<le> m \<and> (\<forall>x \<in> set xs. a \<le> (x :: 'a :: linorder))"
  by (induction xs arbitrary: m) auto

lemma foldl_min_in: "foldl min m xs = m \<or> foldl min m xs \<in> set xs" for m :: "'a :: linorder"
  by (induction xs arbitrary: m) (auto simp: min_def)

lemma period_fold:
  "foldl (\<lambda>r (t, j). (\<lambda>(rv, can_reset) j. let m = F t j in (min rv m, if unat m \<le> G j then False else can_reset)) r j) (rv, c) ps
    = (foldl min rv (map (\<lambda>(t, j). F t j) ps), c \<and> (\<forall>(t, j) \<in> set ps. \<not> unat (F t j) \<le> G j))"
  by (induction ps arbitrary: rv c) (auto simp: Let_def)

lemma minPeriod_of_pairs:
  defines "pairs triggers \<equiv> List.product triggers [0..<length triggers]"
  shows "fst (minPeriod_of triggers cr)
      = foldl min (- 1) (map (\<lambda>(t, j). minDistAfterA t (triggers ! j)) (pairs triggers))"
    "snd (minPeriod_of triggers cr) \<longleftrightarrow>
      (\<forall>(t, j) \<in> set (pairs triggers). \<not> unat (minDistAfterA t (triggers ! j)) \<le> minResetDistToEnd triggers cr ! j)"
  unfolding minPeriod_of_def Let_def foldl_product pairs_def
  using period_fold [of "\<lambda>t j. minDistAfterA t (triggers ! j)" "\<lambda>j. minResetDistToEnd triggers cr ! j" "- 1" True
      "List.product triggers [0..<length triggers]"]
  by (simp_all add: Let_def)

lemma period_of_pair:
  assumes "triggers \<noteq> []"
  obtains a b where "a \<in> set triggers" "b \<in> set triggers" "fst (minPeriod_of triggers cr) = minDistAfterA a b"
proof -
  let ?xs = "map (\<lambda>(t, j). minDistAfterA t (triggers ! j)) (List.product triggers [0..<length triggers])"
  have ne: "?xs \<noteq> []" using assms by (cases triggers) auto
  have "foldl min (- 1) ?xs \<in> set ?xs"
  proof (rule ccontr)
    assume no: "foldl min (- 1) ?xs \<notin> set ?xs"
    then have eq: "foldl min (- 1) ?xs = - 1" using foldl_min_in [of "- 1" ?xs] by blast
    obtain x where x: "x \<in> set ?xs" using ne by (meson last_in_set)
    then have "- 1 \<le> x" using foldl_min_le [of "- 1" "- 1" ?xs, unfolded eq] by blast
    then have "x = - 1" by (simp add: word_order.extremum_unique)
    then show False using no x eq by simp
  qed
  then obtain a j where "a \<in> set triggers" "j < length triggers" "fst (minPeriod_of triggers cr) = minDistAfterA a (triggers ! j)"
    unfolding minPeriod_of_pairs(1) [of triggers cr] by (auto simp: set_product)
  then show ?thesis using that [of a "triggers ! j"] by simp
qed

lemma period_le:
  assumes "a \<in> set triggers" "b \<in> set triggers"
  shows "fst (minPeriod_of triggers cr) \<le> minDistAfterA a b"
proof -
  obtain j where "j < length triggers" "b = triggers ! j" using assms(2) by (auto simp: in_set_conv_nth)
  then have "minDistAfterA a b \<in> set (map (\<lambda>(t, j). minDistAfterA t (triggers ! j)) (List.product triggers [0..<length triggers]))"
    using assms(1) by (force simp: set_product)
  then have "foldl min (- 1) (map (\<lambda>(t, j). minDistAfterA t (triggers ! j)) (List.product triggers [0..<length triggers]))
      \<le> minDistAfterA a b"
    using foldl_min_le [THEN iffD1, OF order_refl] by blast
  then show ?thesis unfolding minPeriod_of_pairs(1) .
qed

text \<open>C12. The period computed for the triggers of a repeat is exact: it is the least distance at which, in some text, one
of the triggers ends after another one (or itself) has ended.\<close>

theorem min_period_exact:
  assumes "triggers \<noteq> []" "\<forall>t \<in> set triggers. trigger_ok t"
  shows "unat (fst (minPeriod_of triggers cr))
    = (LEAST d. 0 < d \<and> (\<exists>a \<in> set triggers. \<exists>b \<in> set triggers. \<exists>w p. ends_at a w p \<and> ends_at b w (p + d)))"
proof (rule Least_equality [symmetric])
  have follows: "follows UNIV a b d \<longleftrightarrow> (\<exists>w p. ends_at a w p \<and> ends_at b w (p + d))" for a b d by (simp add: follows_def)
  obtain a b where ab: "a \<in> set triggers" "b \<in> set triggers" "fst (minPeriod_of triggers cr) = minDistAfterA a b"
    by (rule period_of_pair [OF assms(1)])
  note D = min_dist_follows [OF assms(2) [rule_format, OF ab(1)] assms(2) [rule_format, OF ab(2)]]
  show "0 < unat (fst (minPeriod_of triggers cr)) \<and> (\<exists>a \<in> set triggers. \<exists>b \<in> set triggers.
      \<exists>w p. ends_at a w p \<and> ends_at b w (p + unat (fst (minPeriod_of triggers cr))))"
    using ab D(1,2,4) unfolding follows [symmetric] by auto
  fix d assume "0 < d \<and> (\<exists>a \<in> set triggers. \<exists>b \<in> set triggers. \<exists>w p. ends_at a w p \<and> ends_at b w (p + d))"
  then obtain a b where f: "0 < d" "a \<in> set triggers" "b \<in> set triggers" "follows UNIV a b d" unfolding follows [symmetric] by blast
  note D = min_dist_follows [OF assms(2) [rule_format, OF f(2)] assms(2) [rule_format, OF f(3)]]
  show "unat (fst (minPeriod_of triggers cr)) \<le> d"
    using period_le [OF f(2,3), of cr] D(1) D(5) [OF f(1,4)] by (simp add: word_le_nat_alt)
qed

lemma reset_iff:
  assumes "\<forall>t \<in> set triggers. trigger_ok t"
  shows "snd (minPeriod_of triggers cr) \<longleftrightarrow>
    (\<forall>a \<in> set triggers. \<forall>b \<in> set triggers. reset_loop b cr 0 < min_dist_loop a b 1)"
proof -
  have dist: "minResetDistToEnd triggers cr ! j = reset_loop (triggers ! j) cr 0" if "j < length triggers" for j
    using that by (simp add: minResetDistToEnd_def)
  have one: "\<not> unat (minDistAfterA a (triggers ! j)) \<le> minResetDistToEnd triggers cr ! j
      \<longleftrightarrow> reset_loop (triggers ! j) cr 0 < min_dist_loop a (triggers ! j) 1" if "a \<in> set triggers" "j < length triggers" for a j
    using min_dist_follows(1) [of a "triggers ! j"] assms that dist [OF that(2)] by (simp add: not_le)
  have "snd (minPeriod_of triggers cr) \<longleftrightarrow> (\<forall>a \<in> set triggers. \<forall>j < length triggers.
      \<not> unat (minDistAfterA a (triggers ! j)) \<le> minResetDistToEnd triggers cr ! j)"
    unfolding minPeriod_of_pairs(2) set_product by (auto simp: Ball_def)
  also have "\<dots> \<longleftrightarrow> (\<forall>a \<in> set triggers. \<forall>j < length triggers. reset_loop (triggers ! j) cr 0 < min_dist_loop a (triggers ! j) 1)"
    using one by simp
  finally show ?thesis by (simp only: all_set_conv_all_nth [of triggers "\<lambda>b. reset_loop b cr 0 < min_dist_loop _ b 1"])
qed

text \<open>C11. The triggers of a repeat are said to reset it exactly when in every text a byte outside the class of the repeat
comes between the ends of any two triggers, so that only the last trigger can count.\<close>

theorem can_reset_exact:
  assumes "\<forall>t \<in> set triggers. trigger_ok t" "cr_inv cr"
  shows "snd (minPeriod_of triggers cr) \<longleftrightarrow>
    (\<forall>a \<in> set triggers. \<forall>b \<in> set triggers. \<forall>w p d. 0 < d \<and> ends_at a w p \<and> ends_at b w (p + d)
      \<longrightarrow> (\<exists>x. p \<le> x \<and> x < p + d \<and> w x \<notin> chars cr))"
proof -
  have pair: "reset_loop b cr 0 < min_dist_loop a b 1 \<longleftrightarrow> \<not> (\<exists>d > 0. follows (chars cr) a b d)"
    if ab: "a \<in> set triggers" "b \<in> set triggers" for a b
  proof -
    have ok: "trigger_ok a" "trigger_ok b" using assms(1) ab by auto
    note D = min_dist_follows [OF ok]
    have len: "1 \<le> length b" using trigger_okD(1) [OF ok(2)] by linarith
    have R: "reset_loop b cr 0 \<le> length b" using reset_loop_spec [OF ok(2) assms(2), of 0] by simp
    show ?thesis
    proof
      assume less: "reset_loop b cr 0 < min_dist_loop a b 1"
      show "\<not> (\<exists>d > 0. follows (chars cr) a b d)"
      proof
        assume "\<exists>d > 0. follows (chars cr) a b d"
        then obtain d where d: "0 < d" "follows (chars cr) a b d" by blast
        have "tail_ok (chars cr) b (min d (length b))"
          using follows_overlap(2) [OF d(2)] by (auto simp: tail_ok_def)
        then have "min d (length b) \<le> reset_loop b cr 0" using reset_tail [OF ok(2) assms(2)] by simp
        then show False using less D(3) D(5) [OF d] by linarith
      qed
    next
      assume no: "\<not> (\<exists>d > 0. follows (chars cr) a b d)"
      show "reset_loop b cr 0 < min_dist_loop a b 1"
      proof (rule ccontr)
        assume "\<not> reset_loop b cr 0 < min_dist_loop a b 1"
        then have "tail_ok (chars cr) b (min_dist_loop a b 1)" using reset_tail [OF ok(2) assms(2) D(3)] by simp
        then have "follows (chars cr) a b (min_dist_loop a b 1)"
          using overlap_follows [OF min_dist_loop_spec(3) [OF zero_less_one len ok] _ D(3) ok] by blast
        then show False using no D(2) by blast
      qed
    qed
  qed
  have none: "\<not> (\<exists>d > 0. follows (chars cr) a b d) \<longleftrightarrow> (\<forall>w p d. 0 < d \<and> ends_at a w p \<and> ends_at b w (p + d)
      \<longrightarrow> (\<exists>x. p \<le> x \<and> x < p + d \<and> w x \<notin> chars cr))" for a b
    unfolding follows_def by meson
  show ?thesis unfolding reset_iff [OF assms(1)] using pair by (simp only: none cong: ball_cong)
qed

text \<open>An example: the trigger \<open>ab\<close> comes every two bytes at most, and its \<open>a\<close> resets a repeat of \<open>[bc]\<close>.\<close>

definition trigger_example :: "CharReach list list" where
  "trigger_example = [[cr_char 97, cr_char 98]]"

lemma trigger_example_ok: "\<forall>t \<in> set trigger_example. trigger_ok t" "trigger_example \<noteq> []"
  by (simp_all add: trigger_example_def trigger_ok_def cr_range_inv cr_range_simps)

lemma trigger_example_period: "minPeriod_of trigger_example (cr_range 98 99) = (2, True)"
proof -
  have "overlap_at [cr_char 97, cr_char 98] [cr_char 97, cr_char 98] 1 \<longleftrightarrow> False"
    by (simp add: overlap_at_def cr_none_iff cr_inv_intros cr_range_inv chars_simps cr_range_simps)
  then have "min_dist_loop [cr_char 97, cr_char 98] [cr_char 97, cr_char 98] 1 = 2"
    by (subst min_dist_loop.simps, subst min_dist_loop.simps) simp
  moreover have "reset_loop [cr_char 97, cr_char 98] (cr_range 98 99) 0 = 1"
    by (subst reset_loop.simps, subst reset_loop.simps)
       (simp add: cr_none_iff cr_inv_intros cr_range_inv chars_simps cr_range_simps)
  ultimately show ?thesis
    by (simp add: minPeriod_of_def trigger_example_def minResetDistToEnd_def minDistAfterA_def Let_def)
qed

lemma min_period_exact_witness:
  "(LEAST d. 0 < d \<and> (\<exists>a \<in> set trigger_example. \<exists>b \<in> set trigger_example. \<exists>w p. ends_at a w p \<and> ends_at b w (p + d))) = 2"
  using min_period_exact [OF trigger_example_ok(2,1), of "cr_range 98 99"] trigger_example_period by simp

lemma can_reset_exact_witness:
  "\<exists>x \<ge> 2 :: nat. x < 4 \<and> (if even x then 97 else 98) \<notin> chars (cr_range 98 99)"
proof -
  let ?w = "\<lambda>x :: nat. if even x then 97 else 98 :: u8"
  let ?t = "[cr_char 97, cr_char 98]"
  have e: "ends_at ?t ?w 2" "ends_at ?t ?w (2 + 2)"
    by (auto simp: ends_at_def nth_Cons less_Suc_eq cr_range_simps split: nat.split)
  have t: "?t \<in> set trigger_example" by (simp add: trigger_example_def)
  have all: "\<forall>a \<in> set trigger_example. \<forall>b \<in> set trigger_example. \<forall>w p d. 0 < d \<and> ends_at a w p \<and> ends_at b w (p + d)
     \<longrightarrow> (\<exists>x. p \<le> x \<and> x < p + d \<and> w x \<notin> chars (cr_range 98 99))"
    using can_reset_exact [OF trigger_example_ok(1), of "cr_range 98 99"] trigger_example_period by (simp add: cr_range_inv)
  have "\<exists>x. 2 \<le> x \<and> x < 2 + 2 \<and> ?w x \<notin> chars (cr_range 98 99)"
    by (rule all [rule_format, OF t t, of 2 ?w 2]) (use e in simp)
  then show ?thesis by simp
qed

end
