(* ===== verification/CastleProto.thy ===== *)
theory CastleProto
  imports Depth CharReach RawDfa
begin

text \<open>
  The prototype of a Castle, the engine for several repeats of one class (\<open>src/nfa/castlecompile.h\<close>,
  \<open>castlecompile.cpp\<close>, and \<open>PureRepeat\<close> of \<open>src/nfagraph/ng_repeat.h\<close>): repeats under top ids, and for every
  report the tops that raise it.
  A \<open>std::map\<close> over tops is a list of pairs in the order of its keys; the hash map over reports is a map.
\<close>

section \<open>Repeats and prototypes\<close>

record PureRepeat =
  pr_reach :: CharReach
  pr_bounds :: DepthMinMax
  pr_reports :: "ReportID list" \<comment> \<open>a flat set: increasing\<close>

type_synonym top_map = "(u32 \<times> PureRepeat) list"

record CastleProto =
  cp_repeats :: top_map
  cp_report_map :: "ReportID \<rightharpoonup> u32 set"
  cp_next_top :: u32
  cp_kind :: nfa_kind

definition max_occupancy :: nat where
  "max_occupancy = 65536"

text \<open>\<open>map::emplace\<close>: nothing happens when the key is there.\<close>

fun map_emplace :: "'k :: linorder \<Rightarrow> 'v \<Rightarrow> ('k \<times> 'v) list \<Rightarrow> ('k \<times> 'v) list" where
  "map_emplace k v [] = [(k, v)]"
| "map_emplace k v ((k', v') # xs) =
     (if k < k' then (k, v) # (k', v') # xs
      else if k = k' then (k', v') # xs
      else (k', v') # map_emplace k v xs)"

definition report_insert :: "(ReportID \<rightharpoonup> u32 set) \<Rightarrow> ReportID \<Rightarrow> u32 \<Rightarrow> (ReportID \<rightharpoonup> u32 set)" where
  "report_insert m report tid = m(report \<mapsto> insert tid (case m report of None \<Rightarrow> {} | Some tops \<Rightarrow> tops))"

definition report_insert_all :: "(ReportID \<rightharpoonup> u32 set) \<Rightarrow> PureRepeat \<Rightarrow> u32 \<Rightarrow> (ReportID \<rightharpoonup> u32 set)" where
  "report_insert_all m pr tid = foldl (\<lambda>m report. report_insert m report tid) m (pr_reports pr)"

definition newCastleProto :: "nfa_kind \<Rightarrow> PureRepeat \<Rightarrow> CastleProto" where
  "newCastleProto k pr =
     \<lparr>cp_repeats = map_emplace 0 pr [], cp_report_map = report_insert_all Map.empty pr 0, cp_next_top = 1, cp_kind = k\<rparr>"

definition castle_reach :: "CastleProto \<Rightarrow> CharReach" where
  "castle_reach c = pr_reach (snd (hd (cp_repeats c)))"

definition castle_add :: "CastleProto \<Rightarrow> PureRepeat \<Rightarrow> CastleProto \<times> u32" where
  "castle_add c pr =
     (let tid = cp_next_top c
      in (c\<lparr>cp_next_top := tid + 1, cp_repeats := map_emplace tid pr (cp_repeats c),
            cp_report_map := report_insert_all (cp_report_map c) pr tid\<rparr>, tid))"

definition castle_erase :: "CastleProto \<Rightarrow> u32 \<Rightarrow> CastleProto" where
  "castle_erase c tid =
     c\<lparr>cp_repeats := filter (\<lambda>(t, _). t \<noteq> tid) (cp_repeats c),
       cp_report_map := map_option (\<lambda>tops. tops - {tid}) \<circ> cp_report_map c\<rparr>"

definition castle_merge :: "CastleProto \<Rightarrow> PureRepeat \<Rightarrow> CastleProto \<times> u32" where
  "castle_merge c pr =
     (case find (\<lambda>(_, r). r = pr) (cp_repeats c) of
        Some (tid, _) \<Rightarrow> (c, tid)
      | None \<Rightarrow> if length (cp_repeats c) = max_occupancy then (c, of_nat max_occupancy) else castle_add c pr)"

text \<open>\<open>None\<close> is the result \<open>false\<close>, which leaves the first castle alone.\<close>

definition merge_step :: "CastleProto \<times> (u32 \<times> u32) list \<Rightarrow> u32 \<times> PureRepeat \<Rightarrow> CastleProto \<times> (u32 \<times> u32) list" where
  "merge_step = (\<lambda>(c, tops) (tid, pr). case castle_merge c pr of (c, new_top) \<Rightarrow> (c, tops @ [(tid, new_top)]))"

definition mergeCastle :: "CastleProto \<Rightarrow> CastleProto \<Rightarrow> (CastleProto \<times> (u32 \<times> u32) list) option" where
  "mergeCastle c1 c2 =
     (if castle_reach c1 \<noteq> castle_reach c2 then None
      else if max_occupancy < length (cp_repeats c1) + length (cp_repeats c2) then None
      else Some (foldl merge_step (c1, []) (cp_repeats c2)))"

definition remapCastleTops :: "CastleProto \<Rightarrow> CastleProto \<times> (u32 \<times> u32) list" where
  "remapCastleTops c =
     (let (out, tops) = foldl (\<lambda>(out, tops) (tid, pr). let new_top = of_nat (length out)
                                in (map_emplace new_top pr out, tops @ [(tid, new_top)])) ([], []) (cp_repeats c)
      in (c\<lparr>cp_repeats := out,
            cp_report_map := foldl (\<lambda>m (tid, pr). report_insert_all m pr tid) Map.empty out\<rparr>, tops))"

section \<open>Questions\<close>

definition castle_all_reports :: "CastleProto \<Rightarrow> ReportID set" where
  "castle_all_reports c = dom (cp_report_map c)"

definition castle_min_width :: "CastleProto \<Rightarrow> depth" where
  "castle_min_width c = foldl (\<lambda>w (_, pr). min w (dmin (pr_bounds pr))) infinity (cp_repeats c)"

definition castle_max_width :: "CastleProto \<Rightarrow> depth" where
  "castle_max_width c = foldl (\<lambda>w (_, pr). max w (dmax (pr_bounds pr))) (Depth 0) (cp_repeats c)"

definition castle_top_min_width :: "CastleProto \<Rightarrow> u32 \<Rightarrow> depth" where
  "castle_top_min_width c tid = (case map_of (cp_repeats c) tid of None \<Rightarrow> infinity | Some pr \<Rightarrow> dmin (pr_bounds pr))"

definition castle_top_max_width :: "CastleProto \<Rightarrow> u32 \<Rightarrow> depth" where
  "castle_top_max_width c tid = (case map_of (cp_repeats c) tid of None \<Rightarrow> Depth 0 | Some pr \<Rightarrow> dmax (pr_bounds pr))"

definition hasReport :: "ReportID \<Rightarrow> u32 \<times> PureRepeat \<Rightarrow> bool" where
  "hasReport r a \<longleftrightarrow> r \<in> set (pr_reports (snd a))"

lemma dropWhile_shorter: "dropWhile P xs = y # ys \<Longrightarrow> length ys < length xs"
  by (metis length_Cons length_dropWhile_le less_eq_Suc_le)

function equal_loop :: "ReportID \<Rightarrow> ReportID \<Rightarrow> top_map \<Rightarrow> top_map \<Rightarrow> bool" where
  "equal_loop report1 report2 it jt =
     (case (dropWhile (\<lambda>a. \<not> hasReport report1 a) it, dropWhile (\<lambda>a. \<not> hasReport report2 a) jt) of
        ([], []) \<Rightarrow> True
      | ((t1, r1) # it', (t2, r2) # jt') \<Rightarrow>
          if t1 \<noteq> t2 then False
          else if pr_bounds r1 \<noteq> pr_bounds r2 then False
          else equal_loop report1 report2 it' jt'
      | _ \<Rightarrow> False)"
  by pat_completeness auto

termination
  by (relation "measure (\<lambda>(_, _, it, _). length it)") (auto dest!: dropWhile_shorter [OF sym])

declare equal_loop.simps [simp del]

definition castle_equal_for :: "CastleProto \<Rightarrow> ReportID \<Rightarrow> CastleProto \<Rightarrow> ReportID \<Rightarrow> bool" where
  "castle_equal_for c1 report1 c2 report2 =
     (if castle_reach c1 \<noteq> castle_reach c2 then False
      else equal_loop report1 report2 (cp_repeats c1) (cp_repeats c2))"

definition castle_equal :: "CastleProto \<Rightarrow> CastleProto \<Rightarrow> bool" where
  "castle_equal c1 c2 =
     (if castle_reach c1 \<noteq> castle_reach c2 then False else cp_repeats c1 = cp_repeats c2)"

definition castle_requiresDedupe :: "CastleProto \<Rightarrow> ReportID list \<Rightarrow> bool" where
  "castle_requiresDedupe c reports \<longleftrightarrow>
     list_ex (\<lambda>report. case cp_report_map c report of None \<Rightarrow> False | Some tops \<Rightarrow> 1 < card tops) reports"

section \<open>The invariant\<close>

text \<open>
  The repeats are a map ordered by tops below the next one, all over one class, and the tops of a report are those whose
  repeat has it.
\<close>

definition tops_of :: "CastleProto \<Rightarrow> ReportID \<Rightarrow> u32 set" where
  "tops_of c r = (case cp_report_map c r of None \<Rightarrow> {} | Some tops \<Rightarrow> tops)"

definition tops_with :: "top_map \<Rightarrow> ReportID \<Rightarrow> u32 set" where
  "tops_with m r = {t. \<exists>pr. (t, pr) \<in> set m \<and> r \<in> set (pr_reports pr)}"

definition castle_inv :: "CastleProto \<Rightarrow> bool" where
  "castle_inv c \<longleftrightarrow> sorted_wrt (<) (map fst (cp_repeats c)) \<and> (\<forall>(t, _) \<in> set (cp_repeats c). t < cp_next_top c)
     \<and> (\<forall>(_, pr) \<in> set (cp_repeats c). \<forall>(_, pr') \<in> set (cp_repeats c). pr_reach pr = pr_reach pr')
     \<and> (\<forall>r. tops_of c r = tops_with (cp_repeats c) r)"

lemma map_emplace_last:
  assumes "\<forall>(t, _) \<in> set xs. t < k"
  shows "map_emplace k v xs = xs @ [(k, v)]"
  using assms by (induction k v xs rule: map_emplace.induct) auto

lemma report_insert_tops:
  "(case report_insert_all m pr tid r of None \<Rightarrow> {} | Some tops \<Rightarrow> tops)
    = (case m r of None \<Rightarrow> {} | Some tops \<Rightarrow> tops) \<union> (if r \<in> set (pr_reports pr) then {tid} else {})"
proof -
  have "(case foldl (\<lambda>m report. report_insert m report tid) m rs r of None \<Rightarrow> {} | Some tops \<Rightarrow> tops)
      = (case m r of None \<Rightarrow> {} | Some tops \<Rightarrow> tops) \<union> (if r \<in> set rs then {tid} else {})" for rs
    by (induction rs arbitrary: m) (auto simp: report_insert_def split: option.splits)
  then show ?thesis by (simp add: report_insert_all_def)
qed

lemma tops_with_append: "tops_with (m @ [(t, pr)]) r = tops_with m r \<union> (if r \<in> set (pr_reports pr) then {t} else {})"
  by (auto simp: tops_with_def)

lemma castle_invD:
  assumes "castle_inv c"
  shows "sorted_wrt (<) (map fst (cp_repeats c))" "(t, pr) \<in> set (cp_repeats c) \<Longrightarrow> t < cp_next_top c"
    "(t, pr) \<in> set (cp_repeats c) \<Longrightarrow> pr_reach pr = castle_reach c" "tops_of c r = tops_with (cp_repeats c) r"
    "distinct (map fst (cp_repeats c))"
proof -
  show s: "sorted_wrt (<) (map fst (cp_repeats c))" "(t, pr) \<in> set (cp_repeats c) \<Longrightarrow> t < cp_next_top c"
    "tops_of c r = tops_with (cp_repeats c) r" using assms by (auto simp: castle_inv_def)
  show "distinct (map fst (cp_repeats c))" using s(1) strict_sorted_iff by blast
  show "pr_reach pr = castle_reach c" if "(t, pr) \<in> set (cp_repeats c)"
  proof -
    have first: "hd (cp_repeats c) \<in> set (cp_repeats c)" using that by (cases "cp_repeats c") auto
    have "\<forall>x \<in> set (cp_repeats c). \<forall>y \<in> set (cp_repeats c). pr_reach (snd x) = pr_reach (snd y)"
      using assms unfolding castle_inv_def split_def by (elim conjE)
    then have "pr_reach (snd (t, pr)) = pr_reach (snd (hd (cp_repeats c)))" using that first by blast
    then show ?thesis by (simp add: castle_reach_def)
  qed
qed

lemma new_inv: "castle_inv (newCastleProto k pr)"
proof -
  have "tops_of (newCastleProto k pr) r = tops_with [(0, pr)] r" for r
    unfolding tops_of_def newCastleProto_def by (simp add: report_insert_tops tops_with_def)
  then show ?thesis by (simp add: castle_inv_def newCastleProto_def)
qed

lemma add_repeats:
  assumes "castle_inv c"
  shows "cp_repeats (fst (castle_add c pr)) = cp_repeats c @ [(cp_next_top c, pr)]" "snd (castle_add c pr) = cp_next_top c"
  using map_emplace_last [of "cp_repeats c" "cp_next_top c" pr] castle_invD(2) [OF assms] by (auto simp: castle_add_def Let_def)

lemma add_inv:
  assumes "castle_inv c" "cp_repeats c \<noteq> []" "pr_reach pr = castle_reach c" "cp_next_top c \<noteq> - 1"
  shows "castle_inv (fst (castle_add c pr))"
proof -
  let ?n = "cp_next_top c" and ?c' = "fst (castle_add c pr)"
  note I = castle_invD [OF assms(1)]
  have reps: "cp_repeats ?c' = cp_repeats c @ [(?n, pr)]" by (rule add_repeats(1) [OF assms(1)])
  have "unat ?n \<noteq> unat (- 1 :: u32)" using assms(4) by (simp only: word_unat_eq_iff not_False_eq_True)
  then have next_up: "?n < ?n + 1"
    using unsigned_less [of ?n, where ?'a = nat] by (simp add: word_less_nat_alt unat_word_ariths unsigned_minus_1_eq_mask mask_eq_exp_minus_1)
  have top: "cp_next_top ?c' = ?n + 1" by (simp add: castle_add_def Let_def)
  have below: "t < ?n + 1" if "(t, r) \<in> set (cp_repeats c)" for t r using I(2) [OF that] next_up by (rule less_trans)
  have "tops_of ?c' r = tops_of c r \<union> (if r \<in> set (pr_reports pr) then {?n} else {})" for r
    unfolding tops_of_def castle_add_def Let_def by (simp add: report_insert_tops)
  then have "tops_of ?c' r = tops_with (cp_repeats ?c') r" for r using I(4) by (simp only: reps tops_with_append)
  moreover have "sorted_wrt (<) (map fst (cp_repeats ?c'))" using I(1,2) by (auto simp: reps sorted_wrt_append)
  ultimately show ?thesis using I(3) assms(3) below next_up by (auto simp: castle_inv_def reps top)
qed

lemma erase_inv:
  assumes "castle_inv c"
  shows "castle_inv (castle_erase c t)"
proof -
  note I = castle_invD [OF assms]
  have "tops_of (castle_erase c t) r = tops_of c r - {t}" for r
    by (auto simp: tops_of_def castle_erase_def split: option.splits)
  then have "tops_of (castle_erase c t) r = tops_with (cp_repeats (castle_erase c t)) r" for r
    using I(4) by (auto simp: tops_with_def castle_erase_def)
  moreover have "sorted_wrt (<) (map fst (cp_repeats (castle_erase c t)))"
    using I(1) by (simp add: castle_erase_def sorted_wrt_map sorted_wrt_filter)
  ultimately show ?thesis using assms by (auto simp: castle_inv_def castle_erase_def)
qed

text \<open>A report keeps its entry when its last repeat is erased, so it is still among all reports.\<close>

lemma erased_report_listed: "castle_all_reports (castle_erase c t) = castle_all_reports c"
  by (auto simp: castle_all_reports_def castle_erase_def dom_def)

text \<open>Merging a repeat either finds it or adds it; either way it is there under the top returned.\<close>

lemma find_repeat:
  "find (\<lambda>(_, r). r = pr) xs = Some (t, r) \<Longrightarrow> (t, pr) \<in> set xs"
  "find (\<lambda>(_, r). r = pr) xs = None \<Longrightarrow> pr \<notin> snd ` set xs"
  by (auto simp: find_Some_iff find_None_iff) (metis nth_mem)

lemma castle_merge_spec:
  assumes "castle_inv c" "cp_repeats c \<noteq> []" "pr_reach pr = castle_reach c" "cp_next_top c \<noteq> - 1"
    "length (cp_repeats c) < max_occupancy"
  defines "c' \<equiv> fst (castle_merge c pr)" and "t' \<equiv> snd (castle_merge c pr)"
  shows "castle_inv c'" "(t', pr) \<in> set (cp_repeats c')" "set (cp_repeats c) \<subseteq> set (cp_repeats c')"
    "snd ` set (cp_repeats c') = insert pr (snd ` set (cp_repeats c))" "length (cp_repeats c') \<le> length (cp_repeats c) + 1"
    "unat (cp_next_top c') \<le> unat (cp_next_top c) + 1" "castle_reach c' = castle_reach c" "cp_repeats c' \<noteq> []"
proof -
  have "castle_inv c' \<and> (t', pr) \<in> set (cp_repeats c') \<and> set (cp_repeats c) \<subseteq> set (cp_repeats c')
    \<and> snd ` set (cp_repeats c') = insert pr (snd ` set (cp_repeats c)) \<and> length (cp_repeats c') \<le> length (cp_repeats c) + 1
    \<and> unat (cp_next_top c') \<le> unat (cp_next_top c) + 1 \<and> castle_reach c' = castle_reach c \<and> cp_repeats c' \<noteq> []"
  proof (cases "find (\<lambda>(_, r). r = pr) (cp_repeats c)")
    case (Some found)
    obtain t r where found: "found = (t, r)" by fastforce
    have "(t, pr) \<in> set (cp_repeats c)" using find_repeat(1) Some found by fastforce
    then show ?thesis using assms(1,2) Some found by (force simp: c'_def t'_def castle_merge_def)
  next
    case None
    then have eq: "castle_merge c pr = castle_add c pr" using assms(5) by (simp add: castle_merge_def)
    note A = add_repeats [OF assms(1), of pr]
    have "unat (cp_next_top (fst (castle_add c pr))) \<le> unat (cp_next_top c) + 1"
      by (simp add: castle_add_def Let_def unat_word_ariths)
    then show ?thesis
      using add_inv [OF assms(1-4)] A assms(2) by (auto simp: c'_def t'_def eq castle_reach_def hd_append)
  qed
  then show "castle_inv c'" "(t', pr) \<in> set (cp_repeats c')" "set (cp_repeats c) \<subseteq> set (cp_repeats c')"
    "snd ` set (cp_repeats c') = insert pr (snd ` set (cp_repeats c))" "length (cp_repeats c') \<le> length (cp_repeats c) + 1"
    "unat (cp_next_top c') \<le> unat (cp_next_top c) + 1" "castle_reach c' = castle_reach c" "cp_repeats c' \<noteq> []" by blast+
qed

lemma merge_steps:
  assumes "castle_inv c" "cp_repeats c \<noteq> []" "\<forall>(_, pr) \<in> set ps. pr_reach pr = castle_reach c"
    "unat (cp_next_top c) + length ps < 2 ^ 32" "length (cp_repeats c) + length ps \<le> max_occupancy"
  shows "\<exists>c' tops. foldl merge_step (c, tops0) ps = (c', tops0 @ tops) \<and> castle_inv c' \<and> set (cp_repeats c) \<subseteq> set (cp_repeats c')
    \<and> snd ` set (cp_repeats c') = snd ` set (cp_repeats c) \<union> snd ` set ps
    \<and> list_all2 (\<lambda>(t, pr) (t0, t'). t0 = t \<and> (t', pr) \<in> set (cp_repeats c')) ps tops
    \<and> unat (cp_next_top c') \<le> unat (cp_next_top c) + length ps"
  using assms
proof (induction ps arbitrary: c tops0)
  case (Cons p ps)
  obtain t pr where p: "p = (t, pr)" by fastforce
  define c1 where "c1 = fst (castle_merge c pr)"
  define t1 where "t1 = snd (castle_merge c pr)"
  have "unat (cp_next_top c) < 2 ^ 32 - 1" using Cons.prems(4) by simp
  then have "cp_next_top c \<noteq> - 1" by (auto simp: unsigned_minus_1_eq_mask mask_eq_exp_minus_1)
  note M = castle_merge_spec [OF Cons.prems(1,2) _ this, of pr, folded c1_def t1_def]
  have M: "castle_inv c1" "(t1, pr) \<in> set (cp_repeats c1)" "set (cp_repeats c) \<subseteq> set (cp_repeats c1)"
    "snd ` set (cp_repeats c1) = insert pr (snd ` set (cp_repeats c))" "length (cp_repeats c1) \<le> length (cp_repeats c) + 1"
    "unat (cp_next_top c1) \<le> unat (cp_next_top c) + 1" "castle_reach c1 = castle_reach c" "cp_repeats c1 \<noteq> []"
    using M Cons.prems(3,5) by (simp_all add: p)
  have step: "foldl merge_step (c, tops0) (p # ps) = foldl merge_step (c1, tops0 @ [(t, t1)]) ps"
    by (simp add: merge_step_def p c1_def t1_def split: prod.split)
  obtain c' tops where IH: "foldl merge_step (c1, tops0 @ [(t, t1)]) ps = (c', (tops0 @ [(t, t1)]) @ tops)" "castle_inv c'"
    "set (cp_repeats c1) \<subseteq> set (cp_repeats c')" "snd ` set (cp_repeats c') = snd ` set (cp_repeats c1) \<union> snd ` set ps"
    "list_all2 (\<lambda>(t, pr) (t0, t'). t0 = t \<and> (t', pr) \<in> set (cp_repeats c')) ps tops"
    "unat (cp_next_top c') \<le> unat (cp_next_top c1) + length ps"
    using Cons.IH [OF M(1,8), of "tops0 @ [(t, t1)]"] Cons.prems(3,4,5) M(5,6,7) by (auto simp: p)
  show ?case
    using IH M(2,3,4,6) step by (intro exI [of _ c'] exI [of _ "(t, t1) # tops"]) (auto simp: p)
qed simp

text \<open>Tops are renumbered in order, and every repeat stays.\<close>

lemma remap_fold:
  assumes "length xs \<le> 2 ^ 32"
  shows "foldl (\<lambda>(out, tops) (t, pr). let new_top = of_nat (length out) in (map_emplace new_top pr out, tops @ [(t, new_top)]))
      ([], []) xs = (zip (map of_nat [0..<length xs]) (map snd xs), zip (map fst xs) (map of_nat [0..<length xs] :: u32 list))"
  using assms
proof (induction xs rule: rev_induct)
  case (snoc x xs)
  obtain t pr where x: "x = (t, pr)" by fastforce
  have "(of_nat i :: u32) < of_nat (length xs)" if "i < length xs" for i
    using snoc.prems that by (simp add: word_less_nat_alt unat_of_nat)
  then have "\<forall>(k, _) \<in> set (zip (map of_nat [0..<length xs] :: u32 list) (map snd xs)). k < of_nat (length xs)"
    by (auto dest!: set_zip_leftD)
  note last = map_emplace_last [OF this, of pr]
  show ?case using snoc.IH snoc.prems last by (simp add: x Let_def zip_append)
qed simp

lemma reports_fold:
  "(case foldl (\<lambda>m (t, pr). report_insert_all m pr t) m xs r of None \<Rightarrow> {} | Some tops \<Rightarrow> tops)
    = (case m r of None \<Rightarrow> {} | Some tops \<Rightarrow> tops) \<union> tops_with xs r"
proof (induction xs arbitrary: m)
  case (Cons x xs)
  obtain t pr where "x = (t, pr)" by fastforce
  moreover have "tops_with ((t, pr) # xs) r = (if r \<in> set (pr_reports pr) then {t} else {}) \<union> tops_with xs r"
    by (auto simp: tops_with_def)
  ultimately show ?case by (simp add: Cons.IH report_insert_tops Un_assoc)
qed (simp add: tops_with_def)

lemma remap_repeats:
  assumes "length (cp_repeats c) \<le> max_occupancy"
  shows "cp_repeats (fst (remapCastleTops c)) = zip (map of_nat [0..<length (cp_repeats c)]) (map snd (cp_repeats c))"
    "snd (remapCastleTops c) = zip (map fst (cp_repeats c)) (map of_nat [0..<length (cp_repeats c)])"
    "tops_of (fst (remapCastleTops c)) r = tops_with (cp_repeats (fst (remapCastleTops c))) r"
  using remap_fold [of "cp_repeats c"] reports_fold [of Map.empty _ r] assms
  by (simp_all add: remapCastleTops_def max_occupancy_def tops_of_def)

lemma remap_inv:
  assumes "castle_inv c" "length (cp_repeats c) \<le> max_occupancy"
  shows "castle_inv (fst (remapCastleTops c))"
proof -
  let ?n = "length (cp_repeats c)" and ?c' = "fst (remapCastleTops c)"
  note I = castle_invD [OF assms(1)] and R = remap_repeats [OF assms(2)]
  have small: "?n < 2 ^ 32" using assms(2) by (simp add: max_occupancy_def)
  have num: "unat (of_nat i :: u32) = i" if "i < ?n" for i using that small by (simp add: unat_of_nat)
  have inj: "inj_on unat (set (map fst (cp_repeats c)))" by (rule inj_onI) (simp only: word_unat_eq_iff)
  have "unat ` set (map fst (cp_repeats c)) \<subseteq> {..<unat (cp_next_top c)}" using I(2) by (auto simp: word_less_nat_alt)
  then have "card (unat ` set (map fst (cp_repeats c))) \<le> unat (cp_next_top c)" using card_mono [of "{..<unat (cp_next_top c)}"] by force
  moreover have "card (unat ` set (map fst (cp_repeats c))) = ?n"
    by (simp only: card_image [OF inj] distinct_card [OF I(5)] length_map)
  ultimately have n: "?n \<le> unat (cp_next_top c)" by simp
  have keys: "map fst (cp_repeats ?c') = map of_nat [0..<?n]" by (simp add: R(1))
  have "sorted_wrt (<) (map fst (cp_repeats ?c'))"
    unfolding keys using num by (simp add: sorted_wrt_map sorted_wrt_iff_nth_less word_less_nat_alt)
  moreover have "t < cp_next_top ?c'" if "(t, pr) \<in> set (cp_repeats ?c')" for t pr
  proof -
    have "t \<in> set (map fst (cp_repeats ?c'))" using that by force
    then obtain i where "i < ?n" "t = of_nat i" unfolding keys by auto
    moreover have "cp_next_top ?c' = cp_next_top c" by (simp add: remapCastleTops_def split: prod.split)
    ultimately show ?thesis using num [of i] n by (simp add: word_less_nat_alt)
  qed
  moreover have "pr_reach pr = castle_reach c" if "(t, pr) \<in> set (cp_repeats ?c')" for t pr
    using that I(3) by (auto simp: R(1) dest!: set_zip_rightD)
  ultimately show ?thesis unfolding castle_inv_def using R(3) by auto
qed

lemma merge_inv:
  assumes "castle_inv c" "cp_repeats c \<noteq> []" "pr_reach pr = castle_reach c" "cp_next_top c \<noteq> - 1"
  shows "castle_inv (fst (castle_merge c pr))"
  using assms add_inv [OF assms] by (auto simp: castle_merge_def split: option.split)

text \<open>The prototypes a program can make, within the assertions of the code and with tops left.\<close>

inductive castle_reachable :: "CastleProto \<Rightarrow> bool" where
  new: "castle_reachable (newCastleProto k pr)"
| add: "castle_reachable c \<Longrightarrow> cp_repeats c \<noteq> [] \<Longrightarrow> pr_reach pr = castle_reach c \<Longrightarrow> cp_next_top c \<noteq> - 1 \<Longrightarrow>
    castle_reachable (fst (castle_add c pr))"
| erase: "castle_reachable c \<Longrightarrow> castle_reachable (castle_erase c t)"
| merge: "castle_reachable c \<Longrightarrow> cp_repeats c \<noteq> [] \<Longrightarrow> pr_reach pr = castle_reach c \<Longrightarrow> cp_next_top c \<noteq> - 1 \<Longrightarrow>
    castle_reachable (fst (castle_merge c pr))"
| merge_castle: "castle_reachable c1 \<Longrightarrow> castle_reachable c2 \<Longrightarrow> cp_repeats c1 \<noteq> [] \<Longrightarrow>
    unat (cp_next_top c1) + length (cp_repeats c2) < 2 ^ 32 \<Longrightarrow> mergeCastle c1 c2 = Some (c, tops) \<Longrightarrow> castle_reachable c"
| remap: "castle_reachable c \<Longrightarrow> length (cp_repeats c) \<le> max_occupancy \<Longrightarrow> castle_reachable (fst (remapCastleTops c))"

lemma merge_castle_spec:
  assumes "castle_inv c1" "castle_inv c2" "cp_repeats c1 \<noteq> []" "unat (cp_next_top c1) + length (cp_repeats c2) < 2 ^ 32"
  shows "case mergeCastle c1 c2 of
      None \<Rightarrow> castle_reach c1 \<noteq> castle_reach c2 \<or> max_occupancy < length (cp_repeats c1) + length (cp_repeats c2)
    | Some (c, tops) \<Rightarrow> castle_inv c \<and> set (cp_repeats c1) \<subseteq> set (cp_repeats c)
        \<and> snd ` set (cp_repeats c) = snd ` set (cp_repeats c1) \<union> snd ` set (cp_repeats c2)
        \<and> list_all2 (\<lambda>(t, pr) (t0, t'). t0 = t \<and> map_of (cp_repeats c) t' = Some pr) (cp_repeats c2) tops"
proof (cases "castle_reach c1 \<noteq> castle_reach c2 \<or> max_occupancy < length (cp_repeats c1) + length (cp_repeats c2)")
  case False
  then have reach: "\<forall>(_, pr) \<in> set (cp_repeats c2). pr_reach pr = castle_reach c1"
    using castle_invD(3) [OF assms(2)] by auto
  obtain c tops where m: "foldl merge_step (c1, []) (cp_repeats c2) = (c, [] @ tops)" "castle_inv c"
    "set (cp_repeats c1) \<subseteq> set (cp_repeats c)" "snd ` set (cp_repeats c) = snd ` set (cp_repeats c1) \<union> snd ` set (cp_repeats c2)"
    "list_all2 (\<lambda>(t, pr) (t0, t'). t0 = t \<and> (t', pr) \<in> set (cp_repeats c)) (cp_repeats c2) tops"
    using merge_steps [OF assms(1,3) reach assms(4), of "[]"] False by auto
  have "(t', pr) \<in> set (cp_repeats c) \<longleftrightarrow> map_of (cp_repeats c) t' = Some pr" for t' pr
    using castle_invD(5) [OF m(2)] by (metis map_of_eq_Some_iff)
  then show ?thesis using False m by (simp add: mergeCastle_def)
qed (auto simp: mergeCastle_def)


text \<open>C14. Every Castle prototype that can be made keeps its invariant: tops are distinct, in order and below the next one, all
repeats have the class of the Castle, and the tops filed under a report are exactly those whose repeat has it.\<close>

theorem castle_invariant:
  assumes "castle_reachable c"
  shows "castle_inv c"
  using assms
proof (induction rule: castle_reachable.induct)
  case (merge_castle c1 c2 c tops)
  then show ?case using merge_castle_spec [of c1 c2] by simp
qed (auto intro: new_inv add_inv erase_inv merge_inv remap_inv)

text \<open>Two Castles are equal for a report each exactly when their classes are the same and the repeats with these reports have
the same tops and bounds.\<close>

theorem castle_equal_exact:
  "castle_equal_for c1 report1 c2 report2 \<longleftrightarrow> castle_reach c1 = castle_reach c2
    \<and> map (\<lambda>(t, pr). (t, pr_bounds pr)) (filter (hasReport report1) (cp_repeats c1))
      = map (\<lambda>(t, pr). (t, pr_bounds pr)) (filter (hasReport report2) (cp_repeats c2))"
proof -
  have "equal_loop report1 report2 it jt \<longleftrightarrow> map (\<lambda>(t, pr). (t, pr_bounds pr)) (filter (hasReport report1) it)
      = map (\<lambda>(t, pr). (t, pr_bounds pr)) (filter (hasReport report2) jt)" for it jt
  proof (induction "length it" arbitrary: it jt rule: less_induct)
    case less
    have drop: "filter (hasReport r) xs = filter (hasReport r) (dropWhile (\<lambda>a. \<not> hasReport r a) xs)" for r xs
      by (induction xs) auto
    have found: "filter (hasReport r) xs = x # filter (hasReport r) ys" if "dropWhile (\<lambda>a. \<not> hasReport r a) xs = x # ys" for r xs x ys
    proof -
      have "hasReport r x" using that by (metis dropWhile_eq_Cons_conv)
      then show ?thesis using drop [of r xs] that by simp
    qed
    have none: "filter (hasReport r) xs = []" if "dropWhile (\<lambda>a. \<not> hasReport r a) xs = []" for r xs
      using drop [of r xs] that by simp
    note loop = equal_loop.simps [of report1 report2 it jt]
    show ?case
    proof (cases "dropWhile (\<lambda>a. \<not> hasReport report1 a) it")
      case first: Nil
      show ?thesis
      proof (cases "dropWhile (\<lambda>a. \<not> hasReport report2 a) jt")
        case Nil
        show ?thesis unfolding loop first Nil none [OF first] none [OF Nil] by simp
      next
        case (Cons y jt')
        show ?thesis unfolding loop first Cons none [OF first] found [OF Cons] by simp
      qed
    next
      case (Cons x it')
      obtain t1 r1 where x: "x = (t1, r1)" by fastforce
      show ?thesis
      proof (cases "dropWhile (\<lambda>a. \<not> hasReport report2 a) jt")
        case Nil
        show ?thesis unfolding loop Cons Nil none [OF Nil] found [OF Cons] x by simp
      next
        case second: (Cons y jt')
        obtain t2 r2 where y: "y = (t2, r2)" by fastforce
        have "length it' < length it" using dropWhile_shorter [OF Cons] .
        then show ?thesis
          unfolding loop Cons second found [OF Cons] found [OF second] x y using less.hyps [of it' jt'] by simp
      qed
    qed
  qed
  then show ?thesis by (simp add: castle_equal_for_def)
qed

text \<open>Two Castles over one class with a repeat in common.\<close>

definition castle_example :: "nat \<Rightarrow> nat \<Rightarrow> PureRepeat" where
  "castle_example n r = \<lparr>pr_reach = cr_char 97, pr_bounds = DepthMinMax (Depth 1) (Depth (of_nat n)), pr_reports = [r]\<rparr>"

definition castle_one :: CastleProto where
  "castle_one = newCastleProto NFA_INFIX (castle_example 5 7)"

definition castle_two :: CastleProto where
  "castle_two = fst (castle_add (newCastleProto NFA_INFIX (castle_example 9 8)) (castle_example 5 7))"

lemma castle_examples:
  "cp_repeats castle_one = [(0, castle_example 5 7)]" "cp_next_top castle_one = 1"
  "cp_repeats castle_two = [(0, castle_example 9 8), (1, castle_example 5 7)]"
  "castle_reach castle_one = cr_char 97" "castle_reach castle_two = cr_char 97"
  by (simp_all add: castle_one_def castle_two_def newCastleProto_def castle_add_def castle_reach_def castle_example_def Let_def)

lemma castle_reachable_examples: "castle_reachable castle_one" "castle_reachable castle_two"
proof -
  have new: "castle_reachable (newCastleProto NFA_INFIX pr)" for pr by (rule castle_reachable.new)
  then show "castle_reachable castle_one" by (simp only: castle_one_def)
  show "castle_reachable castle_two"
    unfolding castle_two_def
    by (rule castle_reachable.add [OF new]) (simp_all add: newCastleProto_def castle_reach_def castle_example_def)
qed

lemma castle_invariant_witness: "castle_inv castle_two"
  by (rule castle_invariant [OF castle_reachable_examples(2)])


end
