(* ===== verification/LbrBuild.thy ===== *)
theory LbrBuild
  imports LbrStream RepeatPeriod CastleProto Reports
begin

text \<open>
  An LBR engine for a Castle prototype with one repeat, the caller of the builders of LbrStream in
  \<open>src/nfagraph/ng_lbr.cpp\<close>: the period and the reset are those of the triggers, and the report is the program of the
  report when it is managed.
\<close>

definition constructLBR_castle ::
  "bool \<Rightarrow> CastleProto \<Rightarrow> CharReach list list \<Rightarrow> ReportManager \<Rightarrow> (repeat_error + lbr option) option" where
  "constructLBR_castle allowLbr proto triggers rm =
     (if \<not> allowLbr then Some (Inr None)
      else if length (cp_repeats proto) \<noteq> 1 then Some (Inr None)
      else let rp = snd (hd (cp_repeats proto))
           in if length (pr_reports rp) \<noteq> 1 then Some (Inr None)
              else let (min_period, is_reset) = minPeriod_of triggers (pr_reach rp)
                   in case lift_depth (depth_ctor min_period) of
                        Inl e \<Rightarrow> Some (Inl e)
                      | Inr d \<Rightarrow>
                          let is_reset = (if dmax (pr_bounds rp) < d then True else is_reset);
                              report = hd (pr_reports rp)
                          in map_option (\<lambda>report. constructLBR (pr_reach rp) (dmin (pr_bounds rp)) (dmax (pr_bounds rp))
                                                    min_period is_reset (of_nat report))
                               (if has_managed_reports (cp_kind proto) then getProgramOffset rm report else Some report))"

text \<open>
  Triggers that can come close together without a reset: the engine of LbrStream is built, for the class and the bounds of the
  repeat.
\<close>

lemma castle_lbr:
  assumes "castle_inv proto" "cp_repeats proto = [(t, rp)]" "pr_reports rp = [r]"
    "minPeriod_of triggers (pr_reach rp) = (period, False)" "period \<le> 6" "Depth period \<le> dmax (pr_bounds rp)"
    "cr_inv (pr_reach rp)" "bounds_accepted (dmin (pr_bounds rp)) (dmax (pr_bounds rp))"
    "if has_managed_reports (cp_kind proto) then getProgramOffset rm r = Some report else report = r"
  shows "\<exists>l. constructLBR_castle True proto triggers rm = Some (Inr (Some l)) \<and> lbr_ok l \<and> lbr_report l = of_nat report
    \<and> (\<forall>b. is_escape (lbr_class l) b \<longleftrightarrow> b \<notin> chars (castle_reach proto))
    \<and> repeatMin (lbr_info l) = dval (dmin (pr_bounds rp))"
proof -
  have "depth_ctor period = Inr (Depth period)"
    using assms(5) by (simp add: depth_ctor_def max_value_def val_infinity_def word_le_nat_alt word_less_nat_alt)
  moreover have "\<not> dmax (pr_bounds rp) < Depth period" using assms(6) by (simp add: not_less)
  moreover have "(if has_managed_reports (cp_kind proto) then getProgramOffset rm r else Some r) = Some report"
    using assms(9) by (simp split: if_splits)
  ultimately have "constructLBR_castle True proto triggers rm
      = Some (constructLBR (pr_reach rp) (dmin (pr_bounds rp)) (dmax (pr_bounds rp)) period False (of_nat report))"
    using assms(2-4) by (simp add: constructLBR_castle_def lift_depth_def Let_def)
  then show ?thesis
    using lbr_construct_exact [OF assms(7,8,5), of "of_nat report"] assms(2) by (auto simp: castle_reach_def)
qed

end
