(* ===== verification/Spec2Isabelle.thy ===== *)
theory Spec2Isabelle
  imports Depth BitUtils Bitfield BitIter CharReach PartitionedSet RawDfa DfaMin Determinise
    Logical LogicalParse Reports RdfaMerge DfaUtil CharMasks Memory Multibit MultibitIter MultibitKeys MultibitRange MultibitPlan
    MultibitCompress Repeat RepeatRange RepeatRing PackBits RepeatPack RepeatSparse RepeatModel RepeatCompile
    Lbr LbrQueue LbrStream RepeatPeriod CastleProto LbrBuild
begin

text \<open>
  Ultrascan is a regular-expression matcher for streams, grown from Hyperscan.  Its compiler
  parses expressions into NFA graphs (\<open>src/parser\<close>, \<open>src/nfagraph\<close>), takes them apart into literals
  and engines (\<open>src/rose\<close>, \<open>src/nfa\<close>), and writes bytecode that the run time executes.  This library
  models the parts of the C++ compiler and of the C run time that carry their own algorithms over
  plain data: the basic types under \<open>src/util\<close>, the DFA layer of \<open>src/nfa\<close>, the reports that link the
  two, the logical combinations of expressions, and the masks for the vector scanners.

  How the parts interact.  A character class (CharReach) is a bitfield of 256 bits (Bitfield), which
  is made of words read by the bit operations of BitUtils.  The subset construction (Determinise)
  makes the states of a raw DFA (RawDfa) from an automaton it is given; minimisation (DfaMin) splits
  a partition (PartitionedSet) of the states; merging (RdfaMerge) is again a subset construction, on
  pairs and lists of DFAs, with the alphabet refined by CharReach; DfaUtil shifts and prunes a DFA.
  The DFAs carry report ids, which the report manager (Reports) hands out; logical combinations
  (Logical, LogicalParse) are further reports whose value is computed from those of their parts.
  CharMasks turns a class into the tables of the scanners.  The state of a stream at run time is bytes
  (Memory) that hold multibits, whose keys are roles and engines; MultibitPlan sets them up.  A bounded
  repeat remembers the offsets of its tops (Repeat and its relatives), one of its models in a multibit; RepeatCompile
  chooses the model and its sizes; the LBR engine (Lbr, LbrQueue) runs one repeat of a class on a queue of
  events, with the masks of CharMasks for the bytes that end it.

  Prelude.  Lemmas on lists, maps and words, the collections of simplification rules, and the locale
  \<open>key_table\<close>: a table that numbers its keys, as \<open>getInternalId\<close>, \<open>getExhaustibleKey\<close>, \<open>getLogicalKey\<close>
  and the key of combinations do.  It is interpreted in Logical and in Reports.

  Depth (\<open>util/depth.h\<close>, \<open>util/depth.cpp\<close>).  The class \<open>depth\<close> is a record over its \<open>u32\<close>; the
  operators return a sum whose left part is \<open>DepthOverflowError\<close>.  The lemmas give the exact result of each operator
  over the numbers extended by infinity, overflow included.

  BitUtils, BitIter (\<open>util/bitutils.h\<close>, \<open>util/popcount.h\<close>).  The portable bit operations; loops over
  set bits see each bit once, in order.

  Bitfield (\<open>util/bitfield.h\<close>).  The blocks as a list of \<open>u64\<close>, every operation as the code has it,
  the loops of \<open>find_next\<close> and \<open>find_nth\<close> included.  \<open>bf_abs\<close> gives the set; every operation
  keeps the invariant that the trailer bits are zero and refines the operation on sets.

  CharReach (\<open>util/charreach.h\<close>, \<open>util/charreach.cpp\<close>, \<open>util/compare.h\<close>).  Classes and their case
  closure, refining sets of bytes.

  PartitionedSet (\<open>util/partitioned_set.h\<close>).  The arrays that hold a partition, the invariant that
  ties members to subsets, and \<open>split\<close>, which either changes nothing or cuts one subset in two.

  RawDfa (\<open>nfa/rdfa.h\<close>, \<open>nfa/rdfa.cpp\<close>, \<open>nfa/nfa_kind.h\<close>).  The data of a DFA and its runs.

  DfaMin (\<open>nfa/dfa_min.cpp\<close>).  Hopcroft's algorithm, its work queue and the rebuilding of the DFA.
  The main loop is a \<open>while_option\<close>; it is proved to return, to keep the reports of every word and to
  yield no two states that could be merged.

  Determinise (\<open>util/determinise.h\<close>).  The subset construction over an abstract automaton, whose
  operations are the fields of the record \<open>automaton\<close>; the limit on states makes it return, and the result
  refines the automaton.  The laws of the automaton are the locale \<open>determinisable\<close>, interpreted on
  the merge automata of RdfaMerge.

  Logical, LogicalParse (\<open>parser/logical_combination.cpp\<close>, \<open>util/logical.h\<close>, \<open>src/report.h\<close>).  The
  parser by two stacks, the renumbering of operations and the evaluation at run time.  The main
  theorem goes from the text of a formula in the documented notation to the value computed.

  Reports (\<open>util/report.h\<close>, \<open>util/report_manager.cpp\<close>, \<open>util/order_check.h\<close>).  Reports, their order, and
  the manager as a record of tables with a step relation; its invariant holds in all reachable states.

  RdfaMerge (\<open>nfa/rdfa_merge.cpp\<close>, parts of \<open>nfagraph/ng_mcclellan.cpp\<close>).  The merged alphabet, the
  automaton of pairs and of lists, the queue of \<open>mergeDfas\<close>.  A merged DFA reports on each word what
  its parts report together.

  DfaUtil (\<open>nfa/mcclellancompile_util.cpp\<close>).  Leading dots are removed and the offset adjusted,
  distances are shortest paths, deep reports are cleared, early death is decided exactly.

  CharMasks (\<open>nfa/shufticompile.cpp\<close>, \<open>nfa/trufflecompile.cpp\<close>, \<open>nfa/shufti.c\<close>).  Nibble masks for
  single bytes and pairs, truffle masks, and the byte-by-byte scans; the masks accept exactly the
  class they were built from.

  Memory (\<open>util/unaligned.h\<close>, \<open>util/partial_store.h\<close>).  A memory is a function from offsets to bytes;
  loads and stores of the given width are little-endian, the partial ones are shown to agree with
  them.

  Multibit, MultibitIter, MultibitKeys, MultibitRange (\<open>util/multibit.h\<close>, \<open>util/multibit.c\<close>,
  \<open>util/multibit_build.cpp\<close>).  A set of keys, kept as plain bits up to 256 keys and above that as a tree of
  64-bit blocks in which only the blocks under a set bit are valid.  Multibit has the layout, the operations
  on one key and the locale \<open>key_store\<close> of what they promise, interpreted for the flat form, the tree
  and the whole; MultibitIter has the searches, whose loops in the tree are \<open>partial_function\<close>s
  proved to return; MultibitKeys states them over the set of keys, under an invariant that every
  operation keeps, and interprets the loop contract of BitIter; MultibitRange initialises ranges and
  tests for all keys.

  MultibitPlan (\<open>rose/rose_build_scatter.cpp\<close>, \<open>util/scatter_runtime.h\<close>).  The compiler's plans for such
  initialisations: each does to every byte what the run-time function does, and merged plans for arrays that
  do not overlap do not disturb each other.

  MultibitCompress (\<open>util/multibit_compress.h\<close>).  Saving a multibit: the blocks that a bit leads to, in
  depth-first order.  The loops are shown to walk the recursive list \<open>positions\<close>, and the copy to have the
  same chains of bits.

  Repeat, RepeatRange, RepeatRing, RepeatSparse, RepeatModel (\<open>nfa/repeat.c\<close>, \<open>nfa/repeat.h\<close>).  The eight models of a
  repeat \<open>{N,M}\<close>: they store tops in order and tell whether one of them has \<open>N\<close> to \<open>M\<close> bytes behind it now, and
  when the next match will be.  The locale \<open>repeat_model\<close> states this contract over the set of tops; every model but the last
  keeps it, each with its own invariant, and RepeatModel interprets it for the operations that pick the model by
  the type.  SPARSE_OPTIMAL_P is translated in RepeatSparse, but its contract is not proved: it needs tops that
  keep the least distance its table was made for.  LAST is covered where it stands for \<open>{0,M}\<close>.

  PackBits, RepeatPack (\<open>util/pack_bits.h\<close>, \<open>nfa/repeat.c\<close>).  Fields of bits in bytes, and the control blocks packed at
  stream boundaries: a block that was packed and unpacked answers all later questions as before.

  RepeatCompile (\<open>nfa/repeatcompile.cpp\<close>, \<open>nfagraph/ng_lbr.cpp\<close>).  The sizes of each model, the choice of the model,
  and the description given to the run time, which is proved to be one the contract holds for.

  Lbr, LbrQueue (\<open>nfa/lbr.c\<close>, \<open>nfa/lbr_common_impl.h\<close>).  The engine for one large repeat of a class.  It is run over the queue
  of a block; its loops are \<open>partial_function\<close>s, and a run is proved to return and to report exactly
  the matches of the tops in the queue and of those alive before.  The vector scanners it calls are given by what they
  return, byte by byte.

  LbrStream (\<open>nfagraph/ng_lbr.cpp\<close>).  The builders of an engine for a class and its bounds, and the composition of all
  the above: the engine built is run over the blocks of a stream, its state packed between them, and reports
  the matches of the repeat in the text as a whole.

  RepeatPeriod (\<open>nfa/repeatcompile.cpp\<close>).  How soon one trigger of a repeat can end after another one, and whether a reset
  must come in between; both are shown to be exact over all texts.

  CastleProto (\<open>nfa/castlecompile.cpp\<close>).  The prototype of the engine for many repeats of one class: its tops, its
  reports, merging and renumbering.

  LbrBuild (\<open>nfagraph/ng_lbr.cpp\<close>).  The engine for a Castle with a single repeat, with the period of its triggers and the
  program of its report.

  Conventions.  \<open>u8\<close>, \<open>u16\<close>, \<open>u32\<close> and \<open>u64\<close> are words that wrap as in C.  Ids and indices that the code
  keeps far below their width are naturals where the code asserts or checks the bound; such a bound is
  a hypothesis or part of the invariant.  A throw or an early failure is \<open>None\<close> or the left part of a
  sum.  A \<open>std::map\<close> is an association list or a map, a \<open>flat_set\<close> a set or a sorted list.  Recursion
  on set bits has the number of set bits as its measure; \<open>while_option\<close> is used for the work-queue loops, and
  each of them is proved to end.  No fuel is used except where a definition takes it as an argument and a
  theorem gives an amount that is enough.

  Not modelled.  The parser of expressions is generated by ragel (\<open>parser/Parser.cpp\<close>).  The graph
  passes of \<open>nfagraph\<close> and \<open>rose\<close> work on boost-style graphs with shared mutable vertices, and the
  engines FDR, Teddy, HAO, noodle, LimEx, Castle, McClellan, Sheng and Gough consist of bytecode layout and
  SIMD intrinsics; neither is covered.  Printing, hashing, memory allocation, the user's callbacks,
  tools, tests and vendored code are left out.
\<close>

end
